(* ===== verification/Prelude.thy ===== *)
theory Prelude
  imports Main "HOL-Library.Word" "HOL-Library.Monad_Syntax"
begin

unbundle bit_operations_syntax

section \<open>Machine integers, assertions and alignment\<close>

text \<open>
  The vocabulary shared by every component: the fixed-width integers of
  \<^verbatim>\<open>common/types.h\<close>, the \<^verbatim>\<open>ASSERT\<close> macro of \<^verbatim>\<open>common/assert.h\<close>, the size literals and
  the alignment helpers of \<^verbatim>\<open>common/alignment.h\<close>, with the arithmetic lemmas the
  component proofs share.

  A computation that may stop is a value of an option type: \<open>None\<close> stands for a failed
  \<^verbatim>\<open>ASSERT\<close>/\<^verbatim>\<open>UNREACHABLE\<close> (which shuts the emulator down), for undefined behaviour of C++
  (an invalid iterator, division by zero, signed overflow) and for a loop that makes no
  progress.  Error codes the program returns are ordinary values.
\<close>

subsection \<open>Integers\<close>

type_synonym u8 = "8 word"
type_synonym u16 = "16 word"
type_synonym u32 = "32 word"
type_synonym u64 = "64 word"
type_synonym s32 = "32 word"
type_synonym s64 = "64 word"

definition KB :: "u64 \<Rightarrow> u64" where
  "KB x = 1024 * x"

definition MB :: "u64 \<Rightarrow> u64" where
  "MB x = KB 1024 * x"

definition GB :: "u64 \<Rightarrow> u64" where
  "GB x = MB 1024 * x"

lemmas size_literal_defs = GB_def MB_def KB_def

subsection \<open>Assertions\<close>

definition ASSERT :: "bool \<Rightarrow> unit option" where
  "ASSERT b = (if b then Some () else None)"

lemma ASSERT_simps [simp]:
  "ASSERT True = Some ()"
  "ASSERT False = None"
  by (simp_all add: ASSERT_def)

lemma ASSERT_bind [simp]: "(ASSERT b \<bind> f) = (if b then f () else None)"
  by (simp add: ASSERT_def)

lemma ASSERT_Some_iff [simp]: "ASSERT b = Some u \<longleftrightarrow> b"
  by (simp add: ASSERT_def)

subsection \<open>Unsigned arithmetic without wrap-around\<close>

named_theorems nowrap \<open>reading unsigned word arithmetic as natural-number arithmetic\<close>

lemma unat_add_nowrap [nowrap]:
  fixes a b :: "'a::len word"
  assumes "unat a + unat b < 2 ^ LENGTH('a)"
  shows "unat (a + b) = unat a + unat b"
  using assms by (simp add: unat_word_ariths)

lemma unat_sub_nowrap [nowrap]:
  fixes a b :: "'a::len word"
  assumes "unat b \<le> unat a"
  shows "unat (a - b) = unat a - unat b"
  using assms by (simp add: unat_sub word_le_nat_alt)

lemma unat_add64: "unat (a :: u64) + unat b < 2 ^ 64 \<Longrightarrow> unat (a + b) = unat a + unat b"
  by (rule unat_add_nowrap) simp

lemma unat_lt64: "unat (x :: u64) < 2 ^ 64"
  using unsigned_less [of x] by simp

lemma unat_pos_word: "0 < unat n \<Longrightarrow> 0 < n"
  by (simp add: word_less_nat_alt)

lemma min_unat: "unat (min a b) = min (unat a) (unat b)"
  and max_unat: "unat (max a b) = max (unat a) (unat b)"
  by (simp_all add: min_def max_def word_le_nat_alt)

lemma word_add_left_minus: "(a :: 'a::len word) + (b - a) = b"
  by simp

lemma unat_add_le:
  fixes a b :: "'a::len word"
  shows "unat (a + b) \<le> unat a + unat b"
  by (simp add: unat_word_ariths)

subsection \<open>Alignment\<close>

text \<open>
  \<^verbatim>\<open>Common::AlignUp\<close> and \<^verbatim>\<open>Common::AlignDown\<close> at \<open>T = u64\<close>.  The remainder by a zero
  size is undefined behaviour, hence \<open>None\<close>.
\<close>

definition AlignUp :: "u64 \<Rightarrow> u64 \<Rightarrow> u64 option" where
  "AlignUp value sz = (
     if sz = 0 then None
     else let m = value mod sz; v = value - m
          in Some (if m = 0 then v else v + sz))"

definition AlignDown :: "u64 \<Rightarrow> u64 \<Rightarrow> u64 option" where
  "AlignDown value sz = (if sz = 0 then None else Some (value - value mod sz))"

definition IsAligned :: "u64 \<Rightarrow> u64 \<Rightarrow> bool" where
  "IsAligned value alignment \<longleftrightarrow> value AND (alignment - 1) = 0"

definition Is16KBAligned :: "u64 \<Rightarrow> bool" where
  "Is16KBAligned value \<longleftrightarrow> value AND 0x3FFF = 0"

definition Is64KBAligned :: "u64 \<Rightarrow> bool" where
  "Is64KBAligned value \<longleftrightarrow> value AND 0xFFFF = 0"

definition Is2MBAligned :: "u64 \<Rightarrow> bool" where
  "Is2MBAligned value \<longleftrightarrow> value AND 0x1FFFFF = 0"

lemma AlignUp_defined: "sz \<noteq> 0 \<Longrightarrow> \<exists>r. AlignUp value sz = Some r"
  by (simp add: AlignUp_def Let_def)

text \<open>Where the rounded-up value does not wrap, it is the least multiple not below it.\<close>

lemma AlignUp_spec:
  assumes r: "AlignUp value sz = Some r"
    and nw: "unat value + unat sz \<le> 2 ^ 64"
  shows "unat value \<le> unat r \<and> unat sz dvd unat r \<and> unat r < unat value + unat sz"
proof -
  let ?v = "unat value" and ?s = "unat sz"
  from r have s0: "sz \<noteq> 0" and s: "0 < ?s"
    by (auto simp: AlignUp_def unat_gt_0 split: if_splits)
  have m: "unat (value mod sz) = ?v mod ?s" by (simp add: unat_mod)
  have v: "unat (value - value mod sz) = ?v - ?v mod ?s"
    by (simp add: m nowrap)
  have ms: "?v mod ?s < ?s" "?v mod ?s \<le> ?v" using s by simp_all
  show ?thesis
  proof (cases "?v mod ?s = 0")
    case True
    then have "value mod sz = 0" by (metis m unat_eq_zero)
    then show ?thesis using r s0 s True by (auto simp: AlignUp_def Let_def)
  next
    case False
    then have ne: "value mod sz \<noteq> 0" by (metis m unat_0)
    have "unat (value - value mod sz) + ?s < 2 ^ 64"
      using nw False ms v by linarith
    then have u: "unat r = (?v - ?v mod ?s) + ?s"
      using r s0 ne v unat_add_nowrap [of "value - value mod sz" sz]
      by (auto simp: AlignUp_def Let_def)
    then have "?s dvd unat r" by (simp add: minus_mod_eq_div_mult)
    with u ms False show ?thesis by linarith
  qed
qed

lemma AlignDown_spec:
  assumes "AlignDown value sz = Some r"
  shows "unat r \<le> unat value \<and> unat sz dvd unat r \<and> unat value < unat r + unat sz"
proof -
  let ?v = "unat value" and ?s = "unat sz"
  from assms have s: "0 < ?s" and r: "r = value - value mod sz"
    by (auto simp: AlignDown_def unat_gt_0 split: if_splits)
  have "unat r = ?v - ?v mod ?s" by (simp add: r unat_mod nowrap)
  moreover have "?v mod ?s < ?s" "?v mod ?s \<le> ?v" using s by simp_all
  ultimately show ?thesis
    by (simp add: minus_mod_eq_div_mult)
       (metis add.commute div_mult_mod_eq nat_add_left_cancel_less)
qed

end
