(* ===== verification/Std_Map.thy ===== *)
theory Std_Map
  imports Prelude
begin

section \<open>std::map\<close>

text \<open>
  The memory maps are \<^verbatim>\<open>std::map\<close>s and the code walks them with iterators.  A map is the
  list of its entries in key order; an iterator is the key it stands on, with \<open>None\<close> for
  \<^verbatim>\<open>end()\<close>.  Keys identify iterators because a map never holds a key twice and because an
  insertion or an erasure leaves every other iterator valid.  Using an iterator whose
  entry was erased finds no entry, which is the \<open>None\<close> of \<open>sm_get\<close>.

  The lemmas give each operation on a map written as \<open>xs @ (k, v) # ys\<close>, the shape in
  which the components reason; they are collected in \<open>sm_simps\<close>.
\<close>

type_synonym ('k, 'v) stdmap = "('k \<times> 'v) list"

definition sm_get :: "('k, 'v) stdmap \<Rightarrow> 'k \<Rightarrow> 'v option" where
  "sm_get m k = map_of m k"

text \<open>\<open>operator[]\<close> followed by an assignment: overwrite or insert.\<close>

fun sm_put :: "('k::linorder, 'v) stdmap \<Rightarrow> 'k \<Rightarrow> 'v \<Rightarrow> ('k, 'v) stdmap" where
  "sm_put [] k v = [(k, v)]"
| "sm_put ((a, w) # m) k v =
     (if k < a then (k, v) # (a, w) # m
      else if k = a then (k, v) # m
      else (a, w) # sm_put m k v)"

text \<open>\<open>emplace\<close>: an entry that is already there is kept.\<close>

definition sm_emplace :: "('k::linorder, 'v) stdmap \<Rightarrow> 'k \<Rightarrow> 'v \<Rightarrow> ('k, 'v) stdmap" where
  "sm_emplace m k v = (case sm_get m k of None \<Rightarrow> sm_put m k v | Some _ \<Rightarrow> m)"

definition sm_erase :: "('k, 'v) stdmap \<Rightarrow> 'k \<Rightarrow> ('k, 'v) stdmap" where
  "sm_erase m k = filter (\<lambda>e. fst e \<noteq> k) m"

definition sm_begin :: "('k, 'v) stdmap \<Rightarrow> 'k option" where
  "sm_begin m = (case m of [] \<Rightarrow> None | e # _ \<Rightarrow> Some (fst e))"

fun sm_upper_bound :: "('k::linorder, 'v) stdmap \<Rightarrow> 'k \<Rightarrow> 'k option" where
  "sm_upper_bound [] k = None"
| "sm_upper_bound ((a, v) # m) k = (if k < a then Some a else sm_upper_bound m k)"

text \<open>\<open>std::next\<close> of the iterator that stands on \<open>k\<close>.\<close>

definition sm_next :: "('k::linorder, 'v) stdmap \<Rightarrow> 'k \<Rightarrow> 'k option" where
  "sm_next m k = sm_upper_bound m k"

text \<open>\<open>std::prev\<close>; before \<open>begin()\<close> it is undefined.\<close>

definition sm_prev :: "('k::linorder, 'v) stdmap \<Rightarrow> 'k option \<Rightarrow> 'k option" where
  "sm_prev m it =
     (let before = (case it of None \<Rightarrow> m | Some k \<Rightarrow> takeWhile (\<lambda>e. fst e < k) m)
      in if before = [] then None else Some (fst (last before)))"

text \<open>\<open>std::prev(m.upper_bound(k))\<close>, the entry at or below \<open>k\<close>.\<close>

definition sm_floor :: "('k::linorder, 'v) stdmap \<Rightarrow> 'k \<Rightarrow> 'k option" where
  "sm_floor m k = sm_prev m (sm_upper_bound m k)"

subsection \<open>Ordered maps\<close>

definition sm_ok :: "('k::linorder, 'v) stdmap \<Rightarrow> bool" where
  "sm_ok m \<longleftrightarrow> sorted_wrt (<) (map fst m)"

lemma sm_ok_Nil [simp]: "sm_ok []"
  by (simp add: sm_ok_def)

lemma sm_ok_Cons: "sm_ok (e # m) \<longleftrightarrow> (\<forall>x\<in>set m. fst e < fst x) \<and> sm_ok m"
  by (auto simp: sm_ok_def)

lemma sm_ok_append:
  "sm_ok (xs @ ys) \<longleftrightarrow> sm_ok xs \<and> sm_ok ys \<and> (\<forall>x\<in>set xs. \<forall>y\<in>set ys. fst x < fst y)"
  by (auto simp: sm_ok_def sorted_wrt_append)

lemmas sm_ok_simps = sm_ok_Cons sm_ok_append

lemma sm_get_split:
  assumes "sm_get m k = Some v"
  obtains xs ys where "m = xs @ (k, v) # ys"
  using assms map_of_SomeD [of m k v] split_list [of "(k, v)" m] by (auto simp: sm_get_def)

lemma sm_get_mid [simp]:
  "sm_ok (xs @ (k, v) # ys) \<Longrightarrow> sm_get (xs @ (k, v) # ys) k = Some v"
  by (induction xs) (auto simp: sm_get_def sm_ok_simps)

lemma sm_put_mid [simp]:
  "sm_ok (xs @ (k, v) # ys) \<Longrightarrow> sm_put (xs @ (k, v) # ys) k w = xs @ (k, w) # ys"
proof (induction xs)
  case Nil
  then show ?case by simp
next
  case (Cons x xs)
  then have "fst x < k" "sm_ok (xs @ (k, v) # ys)" by (auto simp: sm_ok_simps)
  then show ?case using Cons.IH by (cases x) (auto simp: not_less_iff_gr_or_eq)
qed

lemma sm_put_get: "sm_get (sm_put m k v) k' = (if k' = k then Some v else sm_get m k')"
  by (induction m k v rule: sm_put.induct) (auto simp: sm_get_def)

lemma sm_put_keys: "fst ` set (sm_put m k v) = insert k (fst ` set m)"
  by (induction m k v rule: sm_put.induct) auto

lemma sm_put_ok: "sm_ok m \<Longrightarrow> sm_ok (sm_put m k v)"
proof (induction m k v rule: sm_put.induct)
  case (2 a w m k v)
  have "\<forall>x\<in>set (sm_put m k v). a < fst x" if "\<not> k < a" "k \<noteq> a"
  proof
    fix x assume "x \<in> set (sm_put m k v)"
    then have "fst x = k \<or> fst x \<in> fst ` set m"
      by (metis image_eqI insert_iff sm_put_keys)
    with that "2.prems" show "a < fst x" by (auto simp: sm_ok_simps)
  qed
  with 2 show ?case by (fastforce simp: sm_ok_simps)
qed (simp add: sm_ok_simps)

text \<open>Inserting a fresh key right behind an entry.\<close>

lemma sm_put_after:
  assumes "sm_ok (xs @ (k, v) # ys)" "k < k'" "\<forall>y\<in>set ys. k' < fst y"
  shows "sm_put (xs @ (k, v) # ys) k' w = xs @ (k, v) # (k', w) # ys"
  using assms(1)
proof (induction xs)
  case Nil
  from assms(2,3) show ?case by (cases ys) auto
next
  case (Cons x xs)
  then have "fst x < k" "sm_ok (xs @ (k, v) # ys)" by (auto simp: sm_ok_simps)
  with assms(2) Cons.IH show ?case by (cases x) auto
qed

lemma sm_emplace_after:
  assumes "sm_ok (xs @ (k, v) # ys)" "k < k'" "\<forall>y\<in>set ys. k' < fst y"
  shows "sm_emplace (xs @ (k, v) # ys) k' w = xs @ (k, v) # (k', w) # ys"
proof -
  have "k' \<notin> fst ` set (xs @ (k, v) # ys)"
    using assms by (auto simp: sm_ok_simps)
  then have "sm_get (xs @ (k, v) # ys) k' = None"
    unfolding sm_get_def map_of_eq_None_iff .
  with sm_put_after [OF assms] show ?thesis by (simp add: sm_emplace_def)
qed

lemma sm_erase_mid [simp]:
  assumes "sm_ok (xs @ (k, v) # ys)"
  shows "sm_erase (xs @ (k, v) # ys) k = xs @ ys"
proof -
  have "filter (\<lambda>e. fst e \<noteq> k) xs = xs" "filter (\<lambda>e. fst e \<noteq> k) ys = ys"
    using assms by (auto simp: sm_ok_simps filter_id_conv)
  then show ?thesis by (simp add: sm_erase_def)
qed

lemma sm_upper_bound_skip: "\<forall>x\<in>set xs. fst x \<le> k \<Longrightarrow> sm_upper_bound (xs @ ys) k = sm_upper_bound ys k"
  by (induction xs) auto

lemma sm_upper_bound_hd: "\<forall>y\<in>set ys. k < fst y \<Longrightarrow> sm_upper_bound ys k = sm_begin ys"
  by (cases ys) (auto simp: sm_begin_def)

lemma sm_next_mid [simp]:
  "sm_ok (xs @ (k, v) # ys) \<Longrightarrow> sm_next (xs @ (k, v) # ys) k = sm_begin ys"
  using sm_upper_bound_skip [of "xs @ [(k, v)]" k ys] sm_upper_bound_hd [of ys k]
  by (fastforce simp: sm_next_def sm_ok_simps)

lemma sm_prev_mid [simp]:
  assumes "sm_ok (xs @ (k, v) # ys)"
  shows "sm_prev (xs @ (k, v) # ys) (Some k) = (if xs = [] then None else Some (fst (last xs)))"
proof -
  have "takeWhile (\<lambda>e. fst e < k) (xs @ (k, v) # ys) = xs"
    using assms by (induction xs) (auto simp: sm_ok_simps)
  then show ?thesis by (simp add: sm_prev_def)
qed

lemma sm_floor_mid:
  assumes "sm_ok (xs @ (k, v) # ys)" "k \<le> p" "\<forall>y\<in>set ys. p < fst y"
  shows "sm_floor (xs @ (k, v) # ys) p = Some k"
proof -
  let ?m = "xs @ (k, v) # ys"
  have le: "\<forall>x\<in>set (xs @ [(k, v)]). fst x \<le> p"
    using assms(1,2) by (fastforce simp: sm_ok_simps)
  have ub: "sm_upper_bound ?m p = sm_begin ys"
    using sm_upper_bound_skip [OF le, of ys] sm_upper_bound_hd [OF assms(3)] by simp
  show ?thesis
  proof (cases ys)
    case Nil
    with ub show ?thesis by (simp add: sm_floor_def sm_prev_def sm_begin_def)
  next
    case (Cons y ys')
    have "\<forall>x\<in>set (xs @ [(k, v)]). fst x < fst y" using assms(3) le Cons by fastforce
    then have "takeWhile (\<lambda>e. fst e < fst y) ((xs @ [(k, v)]) @ y # ys') = xs @ [(k, v)]"
      by (subst takeWhile_append2) auto
    with ub Cons show ?thesis by (simp add: sm_floor_def sm_prev_def sm_begin_def)
  qed
qed

text \<open>Conversely, the entry \<open>sm_floor\<close> finds splits the map at the address.\<close>

lemma sm_floor_split:
  assumes "sm_ok m" "sm_floor m p = Some k"
  obtains xs v ys where "m = xs @ (k, v) # ys" "k \<le> p" "\<forall>y\<in>set ys. p < fst y"
proof -
  let ?xs = "takeWhile (\<lambda>e. fst e \<le> p) m" and ?ys = "dropWhile (\<lambda>e. fst e \<le> p) m"
  have m: "m = ?xs @ ?ys" by simp
  have ys: "\<forall>y\<in>set ?ys. p < fst y"
  proof
    fix z assume z: "z \<in> set ?ys"
    then obtain y ys where Cons: "?ys = y # ys" by (cases ?ys) auto
    then have "p < fst y" by (metis hd_dropWhile list.distinct(1) list.sel(1) not_le)
    moreover have "sm_ok (?xs @ y # ys)" using assms(1) m Cons by metis
    ultimately show "p < fst z" using z unfolding Cons by (auto simp: sm_ok_simps)
  qed
  have xs: "\<forall>x\<in>set ?xs. fst x \<le> p" by (auto dest: set_takeWhileD)
  have "?xs \<noteq> []"
  proof
    assume "?xs = []"
    with m have my: "m = ?ys" by simp
    then have "sm_upper_bound m p = sm_begin m" using ys by (metis sm_upper_bound_hd)
    then have "sm_floor m p = None"
      by (cases m) (auto simp: sm_floor_def sm_prev_def sm_begin_def)
    with assms(2) show False by simp
  qed
  then obtain zs e where zs: "?xs = zs @ [e]" by (metis rev_exhaust)
  obtain k' v where e: "e = (k', v)" by fastforce
  have m': "m = zs @ (k', v) # ?ys" using m zs e by (metis append.assoc append_Cons append_Nil)
  have "k' \<le> p" using xs zs e by auto
  moreover have "sm_floor m p = Some k'"
    using sm_floor_mid [of zs k' v ?ys p] assms(1) m' ys \<open>k' \<le> p\<close> by metis
  ultimately show ?thesis using that [of zs v ?ys] m' ys assms(2) by auto
qed

lemma sm_floor_exists:
  assumes "sm_ok m" "(k, v) \<in> set m" "k \<le> p"
  shows "\<exists>k'. sm_floor m p = Some k'"
proof -
  let ?xs = "takeWhile (\<lambda>e. fst e \<le> p) m" and ?ys = "dropWhile (\<lambda>e. fst e \<le> p) m"
  have m: "m = ?xs @ ?ys" by simp
  have "?xs \<noteq> []"
  proof
    assume "?xs = []"
    then obtain e m' where e: "m = e # m'" "\<not> fst e \<le> p" using assms(2)
      by (cases m) (auto split: if_splits)
    with assms show False by (auto simp: sm_ok_simps)
  qed
  then obtain zs e where zs: "?xs = zs @ [e]" by (metis rev_exhaust)
  obtain k' v' where e: "e = (k', v')" by fastforce
  have ys: "p < fst y" if y: "y \<in> set ?ys" for y
  proof -
    obtain z ys where c: "?ys = z # ys" using y by (cases ?ys) auto
    then have "p < fst z" by (metis hd_dropWhile list.distinct(1) list.sel(1) not_le)
    moreover have "sm_ok (?xs @ z # ys)" using assms(1) m c by metis
    ultimately show ?thesis using y unfolding c by (auto simp: sm_ok_simps)
  qed
  have "e \<in> set ?xs" unfolding zs by simp
  then have "k' \<le> p" using e by (auto dest: set_takeWhileD)
  moreover have m': "m = zs @ (k', v') # ?ys" using m zs e by (metis append.assoc append_Cons append_Nil)
  ultimately have "sm_floor (zs @ (k', v') # ?ys) p = Some k'"
    using assms(1) ys by (intro sm_floor_mid) auto
  with m' show ?thesis by auto
qed

lemma sm_begin_Nil [simp]: "sm_begin [] = None"
  by (simp add: sm_begin_def)

lemma sm_begin_Cons [simp]: "sm_begin (e # m) = Some (fst e)"
  by (simp add: sm_begin_def)

text \<open>The same at the first entry.\<close>

lemma sm_hd_simps [simp]:
  assumes "sm_ok ((k, v) # ys)"
  shows "sm_get ((k, v) # ys) k = Some v" "sm_put ((k, v) # ys) k w = (k, w) # ys"
    "sm_erase ((k, v) # ys) k = ys" "sm_next ((k, v) # ys) k = sm_begin ys"
  using assms sm_get_mid [of "[]" k v ys] sm_put_mid [of "[]" k v ys w]
    sm_erase_mid [of "[]" k v ys] sm_next_mid [of "[]" k v ys] by simp_all

lemmas sm_simps = sm_hd_simps sm_get_mid sm_put_mid sm_erase_mid sm_next_mid sm_prev_mid
  sm_begin_Nil sm_begin_Cons

end
