(* ===== verification/Interval_Map.thy ===== *)
theory Interval_Map
  imports Std_Map
begin

section \<open>Areas laid out in an address space\<close>

text \<open>
  The direct, flexible and virtual memory maps are all maps from a start address to an
  area of some size.  What they promise is stated here once: the areas are laid out in
  address order without overlap (\<open>laid\<close>), and the map stands for the function that gives
  every address the contents of the area around it (\<open>cell\<close>), which is the specification
  the operations are measured against.

  The locale \<open>area_map\<close> is the interface: how an area is cut in two, when two neighbours
  may be joined, and how \<^verbatim>\<open>Split\<close>, \<^verbatim>\<open>MergeAdjacent\<close> and the carving of an area are built
  from that.  Inside it, splitting, merging and carving are shown to keep the layout and to
  leave every cell as it was.
\<close>

subsection \<open>Layout and contents\<close>

fun laid :: "('a \<Rightarrow> u64) \<Rightarrow> (u64 \<Rightarrow> 'a \<Rightarrow> bool) \<Rightarrow> nat \<Rightarrow> (u64 \<times> 'a) list \<Rightarrow> nat \<Rightarrow> bool"
where
  "laid sz wfa lo [] hi \<longleftrightarrow> lo \<le> hi"
| "laid sz wfa lo ((k, a) # m) hi \<longleftrightarrow>
     lo \<le> unat k \<and> 0 < unat (sz a) \<and> wfa k a \<and>
     laid sz wfa (unat k + unat (sz a)) m hi"

fun cell :: "('a \<Rightarrow> u64) \<Rightarrow> ('a \<Rightarrow> nat \<Rightarrow> 'c) \<Rightarrow> (u64 \<times> 'a) list \<Rightarrow> nat \<Rightarrow> 'c option" where
  "cell sz ct [] p = None"
| "cell sz ct ((k, a) # m) p =
     (if unat k \<le> p \<and> p < unat k + unat (sz a) then Some (ct a (p - unat k))
      else cell sz ct m p)"

lemma laid_append:
  "laid sz wfa lo (xs @ (k, a) # ys) hi \<longleftrightarrow>
     laid sz wfa lo xs (unat k) \<and> 0 < unat (sz a) \<and> wfa k a \<and>
     laid sz wfa (unat k + unat (sz a)) ys hi"
  by (induction xs arbitrary: lo) auto

lemma laid_le: "laid sz wfa lo m hi \<Longrightarrow> lo \<le> hi"
  by (induction sz wfa lo m hi rule: laid.induct) auto

lemma laid_mono_lo: "laid sz wfa lo m hi \<Longrightarrow> lo' \<le> lo \<Longrightarrow> laid sz wfa lo' m hi"
  by (cases m) auto

lemma laid_mono_hi: "laid sz wfa lo m hi \<Longrightarrow> hi \<le> hi' \<Longrightarrow> laid sz wfa lo m hi'"
  by (induction sz wfa lo m hi rule: laid.induct) auto

lemma laid_mem:
  "laid sz wfa lo m hi \<Longrightarrow> (k, a) \<in> set m \<Longrightarrow>
     lo \<le> unat k \<and> 0 < unat (sz a) \<and> wfa k a \<and> unat k + unat (sz a) \<le> hi"
proof (induction sz wfa lo m hi rule: laid.induct)
  case (2 sz wfa lo k' a' m hi)
  then have "laid sz wfa (unat k' + unat (sz a')) m hi" by simp
  from this "2" laid_le [OF this] show ?case by auto
qed simp

lemma laid_sm_ok: "laid sz wfa lo m hi \<Longrightarrow> sm_ok m"
proof (induction sz wfa lo m hi rule: laid.induct)
  case (2 sz wfa lo k a m hi)
  then have l: "laid sz wfa (unat k + unat (sz a)) m hi" and "0 < unat (sz a)" by auto
  then have "\<forall>x\<in>set m. k < fst x"
    by (auto simp: word_less_nat_alt dest!: laid_mem [OF l])
  with 2 show ?case by (simp add: sm_ok_Cons)
qed simp

lemma cell_append:
  "cell sz ct (xs @ ys) p = (case cell sz ct xs p of None \<Rightarrow> cell sz ct ys p | Some c \<Rightarrow> Some c)"
  by (induction xs) auto

lemma cell_bounds: "laid sz wfa lo m hi \<Longrightarrow> cell sz ct m p = Some c \<Longrightarrow> lo \<le> p \<and> p < hi"
proof (induction sz wfa lo m hi rule: laid.induct)
  case (2 sz wfa lo k a m hi)
  then have "laid sz wfa (unat k + unat (sz a)) m hi" by simp
  from laid_le [OF this] 2 show ?case by (auto split: if_splits)
qed simp

lemma cell_None: "laid sz wfa lo m hi \<Longrightarrow> p < lo \<or> hi \<le> p \<Longrightarrow> cell sz ct m p = None"
  using cell_bounds by (metis linorder_not_less option.exhaust)

lemma dom_cell_Cons:
  "dom (cell sz ct ((k, a) # m)) = {unat k..<unat k + unat (sz a)} \<union> dom (cell sz ct m)"
  by (auto simp: dom_def)

lemma dom_cell_Nil: "dom (cell sz ct []) = {}"
  by auto

lemma dom_cell_bounds: "laid sz wfa lo m hi \<Longrightarrow> dom (cell sz ct m) \<subseteq> {lo..<hi}"
  by (auto dest: cell_bounds)

lemma cell_mid:
  assumes "laid sz wfa lo (xs @ (k, a) # ys) hi" "unat k \<le> p" "p < unat k + unat (sz a)"
  shows "cell sz ct (xs @ (k, a) # ys) p = Some (ct a (p - unat k))"
proof -
  have "cell sz ct xs p = None"
    using assms by (intro cell_None) (auto simp: laid_append)
  with assms(2,3) show ?thesis by (simp add: cell_append)
qed

lemma cell_split:
  assumes "cell sz ct m p = Some c"
  obtains xs k a ys where "m = xs @ (k, a) # ys" "unat k \<le> p" "p < unat k + unat (sz a)"
    "c = ct a (p - unat k)"
proof -
  from assms have "\<exists>xs k a ys. m = xs @ (k, a) # ys \<and> unat k \<le> p \<and> p < unat k + unat (sz a) \<and>
      c = ct a (p - unat k)"
  proof (induction sz ct m p rule: cell.induct)
    case (2 sz ct k a m p)
    show ?case
    proof (cases "unat k \<le> p \<and> p < unat k + unat (sz a)")
      case True
      with 2 show ?thesis by (intro exI [of _ "[]"]) auto
    next
      case False
      with 2 obtain xs k' a' ys where "m = xs @ (k', a') # ys" "unat k' \<le> p"
        "p < unat k' + unat (sz a')" "c = ct a' (p - unat k')" by auto
      then show ?thesis by (intro exI [of _ "(k, a) # xs"]) auto
    qed
  qed simp
  with that show ?thesis by blast
qed

lemma laid_floor:
  assumes "laid sz wfa lo (xs @ (k, a) # ys) hi"
    and "unat k \<le> unat p" "unat p < unat k + unat (sz a)"
  shows "sm_floor (xs @ (k, a) # ys) p = Some k"
proof (rule sm_floor_mid)
  show "sm_ok (xs @ (k, a) # ys)" using assms(1) by (rule laid_sm_ok)
  show "k \<le> p" using assms(2) by (simp add: word_le_nat_alt)
  show "\<forall>y\<in>set ys. p < fst y"
    using assms by (auto simp: laid_append word_less_nat_alt dest!: laid_mem)
qed

text \<open>The range \<open>[addr, addr + n)\<close> lies inside one area of the map.\<close>

definition fits :: "('a \<Rightarrow> u64) \<Rightarrow> (u64 \<times> 'a) list \<Rightarrow> u64 \<Rightarrow> u64 \<Rightarrow> bool" where
  "fits sz m addr n \<longleftrightarrow> 0 < unat n \<and>
     (\<exists>(k, a) \<in> set m. unat k \<le> unat addr \<and> unat addr + unat n \<le> unat k + unat (sz a))"

lemma fitsE:
  assumes "fits sz m addr n"
  obtains xs k a ys where "m = xs @ (k, a) # ys" "0 < unat n" "unat k \<le> unat addr"
    "unat addr + unat n \<le> unat k + unat (sz a)"
  using assms by (auto simp: fits_def dest!: split_list)

text \<open>Overwriting the contents of a range, the specification of every update.\<close>

definition upd_range :: "(nat \<Rightarrow> 'c option) \<Rightarrow> u64 \<Rightarrow> u64 \<Rightarrow> (nat \<Rightarrow> 'c) \<Rightarrow> nat \<Rightarrow> 'c option" where
  "upd_range f addr n c p =
     (if unat addr \<le> p \<and> p < unat addr + unat n then Some (c (p - unat addr)) else f p)"

lemma upd_range_dom:
  assumes "\<And>p. unat addr \<le> p \<Longrightarrow> p < unat addr + unat n \<Longrightarrow> f p \<noteq> None"
  shows "dom (upd_range f addr n c) = dom f"
  using assms by (auto simp: upd_range_def dom_def)


lemma upd_range_outside: "p < unat addr \<or> unat addr + unat n \<le> p \<Longrightarrow> upd_range f addr n c p = f p"
  by (auto simp: upd_range_def)

lemma upd_range_inside:
  "unat addr \<le> p \<Longrightarrow> p < unat addr + unat n \<Longrightarrow> upd_range f addr n c p = Some (c (p - unat addr))"
  by (simp add: upd_range_def)

lemma laid_replace:
  assumes "laid sz wfa lo (xs @ (k, a) # ys) hi" "sz b = sz a" "wfa k b"
  shows "laid sz wfa lo (xs @ (k, b) # ys) hi"
  using assms by (simp add: laid_append)

lemma cell_replace:
  assumes l: "laid sz wfa lo (xs @ (k, a) # ys) hi" and b: "sz b = sz a" "wfa k b"
  shows "cell sz ct (xs @ (k, b) # ys) = upd_range (cell sz ct (xs @ (k, a) # ys)) k (sz a) (ct b)"
proof
  fix p
  have n: "cell sz ct xs p = None" if "unat k \<le> p"
    using l that by (intro cell_None) (auto simp: laid_append)
  then show "cell sz ct (xs @ (k, b) # ys) p =
      upd_range (cell sz ct (xs @ (k, a) # ys)) k (sz a) (ct b) p"
    using b by (auto simp: upd_range_def cell_append n split: option.split)
qed

subsection \<open>Joining neighbours\<close>

text \<open>
  \<^verbatim>\<open>MergeAdjacent\<close> on a map split at the iterator: the entry takes in its successor, then
  its predecessor takes in the entry.
\<close>

fun absorb_next :: "('a \<Rightarrow> 'a \<Rightarrow> bool) \<Rightarrow> ('a \<Rightarrow> 'a \<Rightarrow> 'a) \<Rightarrow> u64 \<times> 'a \<Rightarrow> (u64 \<times> 'a) list
    \<Rightarrow> (u64 \<times> 'a) list" where
  "absorb_next mg jn (k, a) [] = [(k, a)]"
| "absorb_next mg jn (k, a) ((k', b) # ys) =
     (if mg a b then (k, jn a b) # ys else (k, a) # (k', b) # ys)"

definition merge_list :: "('a \<Rightarrow> 'a \<Rightarrow> bool) \<Rightarrow> ('a \<Rightarrow> 'a \<Rightarrow> 'a) \<Rightarrow> (u64 \<times> 'a) list
    \<Rightarrow> u64 \<times> 'a \<Rightarrow> (u64 \<times> 'a) list \<Rightarrow> (u64 \<times> 'a) list \<times> u64" where
  "merge_list mg jn xs e ys =
     (let zs = absorb_next mg jn e ys in
      if xs \<noteq> [] \<and> mg (snd (last xs)) (snd (hd zs))
      then (butlast xs @ (fst (last xs), jn (snd (last xs)) (snd (hd zs))) # tl zs, fst (last xs))
      else (xs @ zs, fst e))"

text \<open>
  The two \<^verbatim>\<open>MergeAdjacent\<close> of the memory manager have this shape; \<open>can\<close> is the test
  (which may itself fail) and \<open>jn\<close> the joined entry.
\<close>

definition merge_adjacent_with :: "('a \<Rightarrow> 'a \<Rightarrow> bool option) \<Rightarrow> ('a \<Rightarrow> 'a \<Rightarrow> 'a) \<Rightarrow> (u64 \<times> 'a) list
    \<Rightarrow> u64 \<Rightarrow> ((u64 \<times> 'a) list \<times> u64) option" where
  "merge_adjacent_with can jn m iter =
     do {
       area \<leftarrow> sm_get m iter;
       m \<leftarrow> (case sm_next m iter of
              None \<Rightarrow> Some m
            | Some next_it \<Rightarrow>
                do {
                  next \<leftarrow> sm_get m next_it;
                  c \<leftarrow> can area next;
                  Some (if c then sm_erase (sm_put m iter (jn area next)) next_it else m)
                });
       (if sm_begin m \<noteq> Some iter
        then do {
          prev_it \<leftarrow> sm_prev m (Some iter);
          prev \<leftarrow> sm_get m prev_it;
          area \<leftarrow> sm_get m iter;
          c \<leftarrow> can prev area;
          Some (if c then (sm_erase (sm_put m prev_it (jn prev area)) iter, prev_it) else (m, iter))
        }
        else Some (m, iter))
     }"

lemma sm_erase_second:
  assumes "sm_ok (xs @ (k, a) # (k', b) # ys)"
  shows "sm_erase (sm_put (xs @ (k, a) # (k', b) # ys) k c) k' = xs @ (k, c) # ys"
    "sm_get (xs @ (k, a) # (k', b) # ys) k' = Some b"
    "sm_prev (xs @ (k, a) # (k', b) # ys) (Some k') = Some k"
proof -
  have "sm_ok ((xs @ [(k, c)]) @ (k', b) # ys)" using assms by (simp add: sm_ok_simps)
  from sm_erase_mid [OF this] assms
  show "sm_erase (sm_put (xs @ (k, a) # (k', b) # ys) k c) k' = xs @ (k, c) # ys" by simp
  show "sm_get (xs @ (k, a) # (k', b) # ys) k' = Some b"
    "sm_prev (xs @ (k, a) # (k', b) # ys) (Some k') = Some k"
    using sm_get_mid [of "xs @ [(k, a)]" k' b ys] sm_prev_mid [of "xs @ [(k, a)]" k' b ys] assms
    by simp_all
qed

lemma merge_adjacent_with_list:
  assumes ok: "sm_ok (xs @ (k, a) # ys)"
    and can: "\<And>a b. P a \<Longrightarrow> P b \<Longrightarrow> can a b = Some (mg a b)"
    and jnP: "\<And>a b. P a \<Longrightarrow> P b \<Longrightarrow> mg a b \<Longrightarrow> P (jn a b)"
    and P: "\<forall>e\<in>set (xs @ (k, a) # ys). P (snd e)"
  shows "merge_adjacent_with can jn (xs @ (k, a) # ys) k = Some (merge_list mg jn xs (k, a) ys)"
proof -
  let ?m = "xs @ (k, a) # ys"
  let ?step = "case sm_next ?m k of None \<Rightarrow> Some ?m
       | Some next_it \<Rightarrow> do { next \<leftarrow> sm_get ?m next_it; c \<leftarrow> can a next;
           Some (if c then sm_erase (sm_put ?m k (jn a next)) next_it else ?m) }"
  have "\<exists>a' ys'. absorb_next mg jn (k, a) ys = (k, a') # ys' \<and> sm_ok (xs @ (k, a') # ys') \<and> P a' \<and>
      ?step = Some (xs @ (k, a') # ys')"
  proof (cases ys)
    case Nil
    with ok P show ?thesis by simp
  next
    case (Cons y ys')
    obtain k' b where y: "y = (k', b)" by fastforce
    have ok1: "sm_ok (xs @ (k, a) # (k', b) # ys')" using ok y Cons by simp
    have "can a b = Some (mg a b)" using P y Cons by (intro can) auto
    moreover have "sm_ok (xs @ (k, jn a b) # ys')" using ok1 by (simp add: sm_ok_simps)
    moreover have "mg a b \<Longrightarrow> P (jn a b)" using P y Cons by (intro jnP) auto
    ultimately show ?thesis using ok P y Cons sm_erase_second [OF ok1] by auto
  qed
  then obtain a' ys' where ab: "absorb_next mg jn (k, a) ys = (k, a') # ys'"
    and ok1: "sm_ok (xs @ (k, a') # ys')" and Pa: "P a'" and st: "?step = Some (xs @ (k, a') # ys')"
    by blast
  note unf = merge_adjacent_with_def sm_get_mid [OF ok] Option.bind_lunit st
  show ?thesis
  proof (cases xs rule: rev_cases)
    case Nil
    with ab ok1 show ?thesis unfolding unf by (simp add: merge_list_def)
  next
    case (snoc xs' x)
    obtain k0 z where x: "x = (k0, z)" by fastforce
    have ok2: "sm_ok (xs' @ (k0, z) # (k, a') # ys')" using ok1 snoc x by simp
    have kb: "sm_begin (xs' @ (k0, z) # (k, a') # ys') \<noteq> Some k"
      using ok2 by (cases xs') (auto simp: sm_ok_simps)
    have "can z a' = Some (mg z a')" using P Pa snoc x by (intro can) auto
    with sm_erase_second [OF ok2] ok2 kb ab snoc x show ?thesis unfolding unf
      by (simp add: merge_list_def)
  qed
qed

text \<open>Two areas, one behind the other, against the area that joins them.\<close>

definition joins :: "('a \<Rightarrow> u64) \<Rightarrow> (u64 \<Rightarrow> 'a \<Rightarrow> bool) \<Rightarrow> ('a \<Rightarrow> nat \<Rightarrow> 'c) \<Rightarrow>
    u64 \<Rightarrow> 'a \<Rightarrow> u64 \<Rightarrow> 'a \<Rightarrow> 'a \<Rightarrow> bool" where
  "joins sz wfa ct k a k' b c \<longleftrightarrow>
     unat k' = unat k + unat (sz a) \<and> unat (sz c) = unat (sz a) + unat (sz b) \<and> wfa k c \<and>
     (\<forall>i < unat (sz a). ct c i = ct a i) \<and> (\<forall>i < unat (sz b). ct c (unat (sz a) + i) = ct b i)"

lemma joins_laid:
  assumes "joins sz wfa ct k a k' b c"
    and "laid sz wfa lo (xs @ (k, a) # (k', b) # ys) hi"
  shows "laid sz wfa lo (xs @ (k, c) # ys) hi"
  using assms by (simp add: joins_def laid_append add.assoc)

lemma joins_cell:
  assumes "joins sz wfa ct k a k' b c"
  shows "cell sz ct (xs @ (k, a) # (k', b) # ys) = cell sz ct (xs @ (k, c) # ys)"
proof
  fix p
  have "cell sz ct ((k, a) # (k', b) # ys) p = cell sz ct ((k, c) # ys) p"
  proof (cases "unat k + unat (sz a) \<le> p \<and> p < unat k + unat (sz a) + unat (sz b)")
    case True
    then have "ct c (unat (sz a) + (p - unat k - unat (sz a))) = ct b (p - unat k - unat (sz a))"
      using assms unfolding joins_def by (metis less_diff_conv2 add.commute add_leD1 diff_diff_left)
    with True assms show ?thesis by (auto simp: joins_def)
  next
    case False
    with assms show ?thesis by (auto simp: joins_def)
  qed
  then show "cell sz ct (xs @ (k, a) # (k', b) # ys) p = cell sz ct (xs @ (k, c) # ys) p"
    by (simp only: cell_append)
qed


subsection \<open>Carving\<close>

text \<open>The two cuts both \<^verbatim>\<open>CarvePhysArea\<close> and \<^verbatim>\<open>CarveVMA\<close> make in the area at \<open>h\<close> of size \<open>s\<close>.\<close>

definition carve_steps :: "((u64 \<times> 'a) list \<Rightarrow> u64 \<Rightarrow> u64 \<Rightarrow> ((u64 \<times> 'a) list \<times> u64) option) \<Rightarrow>
    (u64 \<times> 'a) list \<Rightarrow> u64 \<Rightarrow> u64 \<Rightarrow> u64 \<Rightarrow> u64 \<Rightarrow> ((u64 \<times> 'a) list \<times> u64) option" where
  "carve_steps split m h s addr n =
     do {
       m1 \<leftarrow> (if addr - h + n \<noteq> s then map_option fst (split m h (addr - h + n)) else Some m);
       (if addr - h \<noteq> 0 then split m1 h (addr - h) else Some (m1, h))
     }"

locale area_map =
  fixes sz :: "'a \<Rightarrow> u64"
    and wfa :: "u64 \<Rightarrow> 'a \<Rightarrow> bool"
    and ct :: "'a \<Rightarrow> nat \<Rightarrow> 'c"
    and cutl cutr :: "'a \<Rightarrow> u64 \<Rightarrow> 'a"
    and jn :: "'a \<Rightarrow> 'a \<Rightarrow> 'a"
    and mg :: "'a \<Rightarrow> 'a \<Rightarrow> bool"
    and split :: "(u64 \<times> 'a) list \<Rightarrow> u64 \<Rightarrow> u64 \<Rightarrow> ((u64 \<times> 'a) list \<times> u64) option"
    and merge :: "(u64 \<times> 'a) list \<Rightarrow> u64 \<Rightarrow> ((u64 \<times> 'a) list \<times> u64) option"
    and carve :: "(u64 \<times> 'a) list \<Rightarrow> u64 \<Rightarrow> u64 \<Rightarrow> ((u64 \<times> 'a) list \<times> u64) option"
  assumes cut: "\<lbrakk>wfa k a; unat k + unat (sz a) < 2 ^ 64; 0 < unat off; unat off < unat (sz a)\<rbrakk> \<Longrightarrow>
      joins sz wfa ct k (cutl a off) (k + off) (cutr a off) a \<and> sz (cutl a off) = off \<and>
      wfa k (cutl a off) \<and> wfa (k + off) (cutr a off)"
    and join: "\<lbrakk>wfa k a; wfa k' b; unat k + unat (sz a) < 2 ^ 64; unat k' + unat (sz b) < 2 ^ 64;
      0 < unat (sz a); 0 < unat (sz b); mg a b\<rbrakk> \<Longrightarrow> joins sz wfa ct k a k' b (jn a b)"
    and split: "\<lbrakk>sm_get m k = Some a; wfa k a; unat k + unat (sz a) < 2 ^ 64; 0 < unat off;
      unat off < unat (sz a)\<rbrakk> \<Longrightarrow>
      split m k off = Some (sm_emplace (sm_put m k (cutl a off)) (k + off) (cutr a off), k + off)"
    and merge: "\<lbrakk>laid sz wfa lo (xs @ (k, a) # ys) hi; hi < 2 ^ 64\<rbrakk> \<Longrightarrow>
      merge (xs @ (k, a) # ys) k = Some (merge_list mg jn xs (k, a) ys)"
    and carve: "\<lbrakk>laid sz wfa lo m hi; hi < 2 ^ 64; sm_floor m addr = Some h; sm_get m h = Some a;
      0 < unat n; unat h \<le> unat addr; unat addr + unat n \<le> unat h + unat (sz a)\<rbrakk> \<Longrightarrow>
      carve m addr n = carve_steps split m h (sz a) addr n"
begin

lemma split_mid:
  assumes l: "laid sz wfa lo (xs @ (k, a) # ys) hi" and hi: "hi < 2 ^ 64"
    and o: "0 < unat off" "unat off < unat (sz a)"
  shows "split (xs @ (k, a) # ys) k off =
      Some (xs @ (k, cutl a off) # (k + off, cutr a off) # ys, k + off)"
    "laid sz wfa lo (xs @ (k, cutl a off) # (k + off, cutr a off) # ys) hi"
    "cell sz ct (xs @ (k, cutl a off) # (k + off, cutr a off) # ys) =
      cell sz ct (xs @ (k, a) # ys)"
proof -
  have ok: "sm_ok (xs @ (k, a) # ys)" using l by (rule laid_sm_ok)
  from laid_mem [OF l, of k a] hi have w: "wfa k a" "unat k + unat (sz a) < 2 ^ 64" by auto
  note c = cut [OF w o]
  then have j: "joins sz wfa ct k (cutl a off) (k + off) (cutr a off) a"
    and szl: "sz (cutl a off) = off" and wl: "wfa k (cutl a off)" "wfa (k + off) (cutr a off)"
    by auto
  have szr: "unat (sz (cutr a off)) = unat (sz a) - unat off" and ko: "unat (k + off) = unat k + unat off"
    using j szl by (auto simp: joins_def)
  show l': "laid sz wfa lo (xs @ (k, cutl a off) # (k + off, cutr a off) # ys) hi"
    using l wl szl szr ko o by (auto simp: laid_append)
  show "cell sz ct (xs @ (k, cutl a off) # (k + off, cutr a off) # ys) = cell sz ct (xs @ (k, a) # ys)"
    using j by (rule joins_cell)
  have "sm_ok (xs @ (k, cutl a off) # ys)" using ok by (simp add: sm_ok_simps)
  moreover have "k < k + off" "\<forall>y\<in>set ys. k + off < fst y"
    using laid_sm_ok [OF l'] by (auto simp: sm_ok_simps)
  ultimately show "split (xs @ (k, a) # ys) k off =
      Some (xs @ (k, cutl a off) # (k + off, cutr a off) # ys, k + off)"
    using split [OF sm_get_mid [OF ok] w o] ok by (simp add: sm_emplace_after)
qed

lemma absorb_spec:
  assumes l: "laid sz wfa lo (xs @ (k, a) # ys) hi" and hi: "hi < 2 ^ 64"
  shows "\<exists>a' ys'. absorb_next mg jn (k, a) ys = (k, a') # ys' \<and>
      laid sz wfa lo (xs @ (k, a') # ys') hi \<and>
      cell sz ct (xs @ (k, a') # ys') = cell sz ct (xs @ (k, a) # ys) \<and> unat (sz a) \<le> unat (sz a')"
proof (cases ys)
  case Nil
  with l show ?thesis by simp
next
  case (Cons y ys')
  obtain k' b where y: "y = (k', b)" by fastforce
  show ?thesis
  proof (cases "mg a b")
    case True
    have j: "joins sz wfa ct k a k' b (jn a b)"
      using laid_mem [OF l, of k a] laid_mem [OF l, of k' b] hi True y Cons
      by (intro join) auto
    have "laid sz wfa lo (xs @ (k, jn a b) # ys') hi"
      using joins_laid [OF j] l y Cons by simp
    moreover have "cell sz ct (xs @ (k, jn a b) # ys') = cell sz ct (xs @ (k, a) # ys)"
      using joins_cell [OF j, of xs ys'] y Cons by simp
    ultimately show ?thesis using True y Cons j by (auto simp: joins_def)
  next
    case False
    with l y Cons show ?thesis by simp
  qed
qed

lemma merge_spec:
  assumes l: "laid sz wfa lo (xs @ (k, a) # ys) hi" and hi: "hi < 2 ^ 64"
  shows "\<exists>m' k' a'. merge (xs @ (k, a) # ys) k = Some (m', k') \<and> laid sz wfa lo m' hi \<and>
      cell sz ct m' = cell sz ct (xs @ (k, a) # ys) \<and> (k', a') \<in> set m' \<and>
      unat k' \<le> unat k \<and> unat k + unat (sz a) \<le> unat k' + unat (sz a')"
proof -
  from absorb_spec [OF l hi] obtain a1 ys1 where
    ab: "absorb_next mg jn (k, a) ys = (k, a1) # ys1"
    and l1: "laid sz wfa lo (xs @ (k, a1) # ys1) hi"
    and c1: "cell sz ct (xs @ (k, a1) # ys1) = cell sz ct (xs @ (k, a) # ys)"
    and s1: "unat (sz a) \<le> unat (sz a1)" by blast
  note m = merge [OF l hi]
  show ?thesis
  proof (cases "xs \<noteq> [] \<and> mg (snd (last xs)) a1")
    case True
    then obtain xs' k0 z where xs: "xs = xs' @ [(k0, z)]"
      by (metis append_butlast_last_id surj_pair)
    from True xs have mz: "mg z a1" by simp
    have l2: "laid sz wfa lo (xs' @ (k0, z) # (k, a1) # ys1) hi" using l1 xs by simp
    have j: "joins sz wfa ct k0 z k a1 (jn z a1)"
      using laid_mem [OF l2, of k0 z] laid_mem [OF l2, of k a1] hi mz by (intro join) auto
    have "laid sz wfa lo (xs' @ (k0, jn z a1) # ys1) hi"
      using joins_laid [OF j l2] .
    moreover have "cell sz ct (xs' @ (k0, jn z a1) # ys1) = cell sz ct (xs @ (k, a) # ys)"
      using joins_cell [OF j, of xs' ys1] c1 xs by simp
    moreover have "merge (xs @ (k, a) # ys) k = Some (xs' @ (k0, jn z a1) # ys1, k0)"
      using m ab True xs by (simp add: merge_list_def)
    ultimately show ?thesis using s1 j
      by (intro exI [of _ "xs' @ (k0, jn z a1) # ys1"] exI [of _ k0] exI [of _ "jn z a1"])
         (auto simp: joins_def)
  next
    case False
    then have "merge (xs @ (k, a) # ys) k = Some (xs @ (k, a1) # ys1, k)"
      using m ab by (auto simp: merge_list_def Let_def)
    with l1 c1 s1 show ?thesis
      by (intro exI [of _ "xs @ (k, a1) # ys1"] exI [of _ k] exI [of _ a1]) auto
  qed
qed

lemma carve_mid:
  assumes l: "laid sz wfa lo (xs @ (k, a) # ys) hi" and hi: "hi < 2 ^ 64"
    and n: "0 < unat n" "unat k \<le> unat addr" "unat addr + unat n \<le> unat k + unat (sz a)"
  shows "\<exists>xs' b ys'. carve (xs @ (k, a) # ys) addr n = Some (xs' @ (addr, b) # ys', addr) \<and>
      laid sz wfa lo (xs' @ (addr, b) # ys') hi \<and>
      cell sz ct (xs' @ (addr, b) # ys') = cell sz ct (xs @ (k, a) # ys) \<and> sz b = n \<and>
      k \<in> fst ` set (xs' @ (addr, b) # ys')"
proof -
  let ?m = "xs @ (k, a) # ys"
  have ok: "sm_ok ?m" using l by (rule laid_sm_ok)
  have w: "unat k + unat (sz a) < 2 ^ 64" using laid_mem [OF l, of k a] hi by auto
  have st: "unat (addr - k) = unat addr - unat k" using n by (simp add: nowrap)
  have "unat (addr - k) + unat n < 2 ^ 64" using st n w by linarith
  then have fin: "unat (addr - k + n) = unat addr - unat k + unat n"
    using st unat_add_nowrap [of "addr - k" n] by simp
  have "sm_floor ?m addr = Some k" using n by (intro laid_floor [OF l]) auto
  from carve [OF l hi this sm_get_mid [OF ok] n]
  have c: "carve ?m addr n = carve_steps split ?m k (sz a) addr n" .
  have ex1: "\<exists>b ys'. (if addr - k + n \<noteq> sz a then map_option fst (split ?m k (addr - k + n)) else Some ?m)
      = Some (xs @ (k, b) # ys') \<and> laid sz wfa lo (xs @ (k, b) # ys') hi \<and>
      cell sz ct (xs @ (k, b) # ys') = cell sz ct ?m \<and> sz b = addr - k + n"
  proof (cases "addr - k + n = sz a")
    case True
    with l show ?thesis by auto
  next
    case False
    then have "unat (addr - k + n) \<noteq> unat (sz a)" by (simp only: word_unat_eq_iff not_False_eq_True)
    then have o: "0 < unat (addr - k + n)" "unat (addr - k + n) < unat (sz a)"
      using fin n by linarith+
    from split_mid [OF l hi o] cut [OF _ w o] laid_mem [OF l, of k a] False show ?thesis by auto
  qed
  then obtain b ys1 where s1: "(if addr - k + n \<noteq> sz a
      then map_option fst (split ?m k (addr - k + n)) else Some ?m) = Some (xs @ (k, b) # ys1)"
    and l1: "laid sz wfa lo (xs @ (k, b) # ys1) hi"
    and c1: "cell sz ct (xs @ (k, b) # ys1) = cell sz ct ?m" and sb: "sz b = addr - k + n"
    by blast
  show ?thesis
  proof (cases "addr - k = 0")
    case True
    then have ak: "addr = k" by simp
    have "carve ?m addr n = Some (xs @ (addr, b) # ys1, addr)"
      unfolding c carve_steps_def s1 using ak by simp
    moreover have "sz b = n" using sb ak by simp
    moreover have "k \<in> fst ` set (xs @ (addr, b) # ys1)" using ak by simp
    ultimately show ?thesis using l1 c1 ak by blast
  next
    case False
    then have "0 < unat (addr - k)" by (simp only: unat_gt_0 not_False_eq_True)
    then have o: "0 < unat (addr - k)" "unat (addr - k) < unat (sz b)"
      using fin st n(1,2) unfolding sb by linarith+
    note sp = split_mid [OF l1 hi o]
    have wb: "wfa k b" "unat k + unat (sz b) < 2 ^ 64" using laid_mem [OF l1, of k b] hi by auto
    have "joins sz wfa ct k (cutl b (addr - k)) (k + (addr - k)) (cutr b (addr - k)) b"
      "sz (cutl b (addr - k)) = addr - k" using cut [OF wb o] by auto
    then have "unat (sz (cutr b (addr - k))) = unat n" using sb fin st by (simp add: joins_def)
    then have "sz (cutr b (addr - k)) = n" by (simp only: word_unat_eq_iff)
    moreover have "carve ?m addr n = split (xs @ (k, b) # ys1) k (addr - k)"
      unfolding c carve_steps_def s1 using False by simp
    ultimately show ?thesis using sp c1
      by (rule_tac exI [of _ "xs @ [(k, cutl b (addr - k))]"], rule_tac exI [of _ "cutr b (addr - k)"],
          rule_tac exI [of _ ys1]) simp
  qed
qed

lemma carve_spec:
  assumes l: "laid sz wfa lo m hi" and hi: "hi < 2 ^ 64" and f: "fits sz m addr n"
  shows "\<exists>xs b ys. carve m addr n = Some (xs @ (addr, b) # ys, addr) \<and>
      laid sz wfa lo (xs @ (addr, b) # ys) hi \<and>
      cell sz ct (xs @ (addr, b) # ys) = cell sz ct m \<and> sz b = n"
proof -
  from f obtain xs k a ys where m: "m = xs @ (k, a) # ys" and n: "0 < unat n"
    "unat k \<le> unat addr" "unat addr + unat n \<le> unat k + unat (sz a)" by (rule fitsE)
  from carve_mid [OF _ hi n] l m show ?thesis by blast
qed

text \<open>
  The pattern of every operation that changes a range: carve it, overwrite the carved
  area, join it with its neighbours.  On the cells it is the update of the range.
\<close>

lemma carve_update_merge:
  assumes l: "laid sz wfa lo m hi" and hi: "hi < 2 ^ 64" and f: "fits sz m addr n"
    and g: "\<And>b. sz b = n \<Longrightarrow> wfa addr b \<Longrightarrow> sz (g b) = n \<and> wfa addr (g b) \<and> ct (g b) = c"
  shows "\<exists>m1 b m2 k2. carve m addr n = Some (m1, addr) \<and> sm_get m1 addr = Some b \<and> sz b = n \<and>
      merge (sm_put m1 addr (g b)) addr = Some (m2, k2) \<and> laid sz wfa lo m2 hi \<and>
      cell sz ct m2 = upd_range (cell sz ct m) addr n c"
proof -
  from carve_spec [OF l hi f] obtain xs b ys where
    c: "carve m addr n = Some (xs @ (addr, b) # ys, addr)"
    and l1: "laid sz wfa lo (xs @ (addr, b) # ys) hi"
    and c1: "cell sz ct (xs @ (addr, b) # ys) = cell sz ct m" and sb: "sz b = n" by blast
  have ok: "sm_ok (xs @ (addr, b) # ys)" using l1 by (rule laid_sm_ok)
  have gb: "sz (g b) = sz b" "wfa addr (g b)" "ct (g b) = c"
    using g [OF sb] laid_mem [OF l1, of addr b] sb by auto
  have l2: "laid sz wfa lo (xs @ (addr, g b) # ys) hi" by (rule laid_replace [OF l1 gb(1,2)])
  from merge_spec [OF l2 hi] obtain m2 k2 where m2:
    "merge (xs @ (addr, g b) # ys) addr = Some (m2, k2)" "laid sz wfa lo m2 hi"
    "cell sz ct m2 = cell sz ct (xs @ (addr, g b) # ys)" by blast
  have "cell sz ct (xs @ (addr, g b) # ys) = upd_range (cell sz ct m) addr n c"
    using cell_replace [OF l1 gb(1,2), of ct] gb(3) c1 sb by simp
  with c sb m2 ok show ?thesis
    by (intro exI [of _ "xs @ (addr, b) # ys"] exI [of _ b] exI [of _ m2] exI [of _ k2]) simp
qed

end

end
