(* ===== verification/Phys_Memory.thy ===== *)
theory Phys_Memory
  imports Interval_Map
begin

section \<open>Physical memory areas\<close>

text \<open>
  \<^verbatim>\<open>struct PhysicalMemoryArea\<close> and the \<^verbatim>\<open>PhysMap\<close> operations of
  \<^verbatim>\<open>core/memory.h\<close> and \<^verbatim>\<open>core/memory.cpp\<close>: finding, splitting, joining and carving
  the areas of the direct and flexible memory maps.
\<close>

datatype PhysicalMemoryType = Phys_Free | Phys_Allocated | Phys_Mapped | Phys_Pooled
  | Phys_Committed | Phys_Flexible

record PhysicalMemoryArea =
  pa_base :: u64
  pa_size :: u64
  pa_memory_type :: s32
  pa_dma_type :: PhysicalMemoryType

type_synonym PhysMap = "(u64, PhysicalMemoryArea) stdmap"

definition GetEnd :: "PhysicalMemoryArea \<Rightarrow> u64" where
  "GetEnd a = pa_base a + pa_size a"

definition Phys_CanMergeWith :: "PhysicalMemoryArea \<Rightarrow> PhysicalMemoryArea \<Rightarrow> bool" where
  "Phys_CanMergeWith a next =
     (if pa_base a + pa_size a \<noteq> pa_base next then False
      else if pa_memory_type a \<noteq> pa_memory_type next then False
      else if pa_dma_type a \<noteq> pa_dma_type next then False
      else True)"

text \<open>\<^verbatim>\<open>FindDmemArea\<close> and \<^verbatim>\<open>FindFmemArea\<close>, the same search on either map.\<close>

definition FindPhysArea :: "PhysMap \<Rightarrow> u64 \<Rightarrow> u64 option" where
  "FindPhysArea m target = sm_floor m target"

definition Phys_Split :: "PhysMap \<Rightarrow> u64 \<Rightarrow> u64 \<Rightarrow> (PhysMap \<times> u64) option" where
  "Phys_Split m phys_handle offset_in_area =
     do {
       old_area \<leftarrow> sm_get m phys_handle;
       ASSERT (offset_in_area < pa_size old_area \<and> offset_in_area > 0);
       let m = sm_put m phys_handle (old_area\<lparr>pa_size := offset_in_area\<rparr>);
       let new_area = old_area\<lparr>pa_memory_type := pa_memory_type old_area,
                               pa_base := pa_base old_area + offset_in_area,
                               pa_size := pa_size old_area - offset_in_area\<rparr>;
       Some (sm_emplace m (pa_base new_area) new_area, pa_base new_area)
     }"

definition Phys_MergeAdjacent :: "PhysMap \<Rightarrow> u64 \<Rightarrow> (PhysMap \<times> u64) option" where
  "Phys_MergeAdjacent m iter =
     do {
       area \<leftarrow> sm_get m iter;
       m \<leftarrow> (case sm_next m iter of
              None \<Rightarrow> Some m
            | Some next_it \<Rightarrow>
                do {
                  next \<leftarrow> sm_get m next_it;
                  Some (if Phys_CanMergeWith area next
                        then sm_erase (sm_put m iter (area\<lparr>pa_size := pa_size area + pa_size next\<rparr>))
                               next_it
                        else m)
                });
       (if sm_begin m \<noteq> Some iter
        then do {
          prev_it \<leftarrow> sm_prev m (Some iter);
          prev \<leftarrow> sm_get m prev_it;
          area \<leftarrow> sm_get m iter;
          Some (if Phys_CanMergeWith prev area
                then (sm_erase (sm_put m prev_it (prev\<lparr>pa_size := pa_size prev + pa_size area\<rparr>))
                        iter, prev_it)
                else (m, iter))
        }
        else Some (m, iter))
     }"

definition CarvePhysArea :: "PhysMap \<Rightarrow> u64 \<Rightarrow> u64 \<Rightarrow> (PhysMap \<times> u64) option" where
  "CarvePhysArea m addr n =
     do {
       pmem_handle \<leftarrow> sm_floor m addr;
       area \<leftarrow> sm_get m pmem_handle;
       ASSERT (addr \<le> GetEnd area);
       ASSERT (pa_base area \<le> addr);
       let start_in_area = addr - pa_base area;
       let end_in_vma = start_in_area + n;
       ASSERT (end_in_vma \<le> pa_size area);
       m \<leftarrow> (if end_in_vma \<noteq> pa_size area
             then map_option fst (Phys_Split m pmem_handle end_in_vma)
             else Some m);
       (if start_in_area \<noteq> 0 then Phys_Split m pmem_handle start_in_area else Some (m, pmem_handle))
     }"

subsection \<open>The areas as an interval map\<close>

text \<open>What an address of a physical map holds: the use it is put to and its memory type.\<close>

definition phys_ct :: "PhysicalMemoryArea \<Rightarrow> nat \<Rightarrow> PhysicalMemoryType \<times> s32" where
  "phys_ct a i = (pa_dma_type a, pa_memory_type a)"

definition phys_wf :: "u64 \<Rightarrow> PhysicalMemoryArea \<Rightarrow> bool" where
  "phys_wf k a \<longleftrightarrow> pa_base a = k"

definition phys_cutl :: "PhysicalMemoryArea \<Rightarrow> u64 \<Rightarrow> PhysicalMemoryArea" where
  "phys_cutl a off = a\<lparr>pa_size := off\<rparr>"

definition phys_cutr :: "PhysicalMemoryArea \<Rightarrow> u64 \<Rightarrow> PhysicalMemoryArea" where
  "phys_cutr a off = a\<lparr>pa_base := pa_base a + off, pa_size := pa_size a - off\<rparr>"

definition phys_join :: "PhysicalMemoryArea \<Rightarrow> PhysicalMemoryArea \<Rightarrow> PhysicalMemoryArea" where
  "phys_join a b = a\<lparr>pa_size := pa_size a + pa_size b\<rparr>"

text \<open>A physical map laid out between two bounds, and the cells it stands for.\<close>

abbreviation phys_laid :: "nat \<Rightarrow> PhysMap \<Rightarrow> nat \<Rightarrow> bool" where
  "phys_laid \<equiv> laid pa_size phys_wf"

abbreviation phys_cells :: "PhysMap \<Rightarrow> nat \<Rightarrow> (PhysicalMemoryType \<times> s32) option" where
  "phys_cells \<equiv> cell pa_size phys_ct"

lemmas phys_piece_defs = phys_ct_def phys_wf_def phys_cutl_def phys_cutr_def phys_join_def

lemma Phys_MergeAdjacent_with:
  "Phys_MergeAdjacent m k =
     merge_adjacent_with (\<lambda>a b. Some (Phys_CanMergeWith a b)) phys_join m k"
  unfolding Phys_MergeAdjacent_def merge_adjacent_with_def phys_join_def Option.bind_lunit ..

lemma Phys_MergeAdjacent_list:
  assumes "sm_ok (xs @ (k, a) # ys)"
  shows "Phys_MergeAdjacent (xs @ (k, a) # ys) k =
    Some (merge_list Phys_CanMergeWith phys_join xs (k, a) ys)"
  unfolding Phys_MergeAdjacent_with
  by (rule merge_adjacent_with_list [where P = "\<lambda>_. True"]) (use assms in auto)

lemma CarvePhysArea_steps:
  assumes l: "phys_laid lo m hi" and hi: "hi < 2 ^ 64"
    and f: "sm_floor m addr = Some h" and g: "sm_get m h = Some a"
    and n: "unat h \<le> unat addr" "unat addr + unat n \<le> unat h + unat (pa_size a)"
  shows "CarvePhysArea m addr n = carve_steps Phys_Split m h (pa_size a) addr n"
proof -
  from g have "(h, a) \<in> set m" unfolding sm_get_def by (rule map_of_SomeD)
  from laid_mem [OF l this] hi have b: "pa_base a = h" and w: "unat h + unat (pa_size a) < 2 ^ 64"
    by (auto simp: phys_wf_def)
  have e: "unat (h + pa_size a) = unat h + unat (pa_size a)" using w by (simp add: nowrap)
  have st: "unat (addr - h) = unat addr - unat h" using n by (simp add: nowrap)
  have "unat (addr - h + n) = unat addr - unat h + unat n"
    using st n w unat_add_nowrap [of "addr - h" n] by simp
  then have "addr \<le> GetEnd a" "h \<le> addr" "addr - h + n \<le> pa_size a"
    using b e n by (auto simp: word_le_nat_alt GetEnd_def)
  with f g b show ?thesis by (simp add: CarvePhysArea_def carve_steps_def Let_def)
qed

lemma phys_cut:
  assumes "phys_wf k a" "unat k + unat (pa_size a) < 2 ^ 64" "0 < unat off" "unat off < unat (pa_size a)"
  shows "joins pa_size phys_wf phys_ct k (phys_cutl a off) (k + off) (phys_cutr a off) a \<and>
    pa_size (phys_cutl a off) = off \<and> phys_wf k (phys_cutl a off) \<and> phys_wf (k + off) (phys_cutr a off)"
proof -
  have "unat (k + off) = unat k + unat off" "unat (pa_size a - off) = unat (pa_size a) - unat off"
    using assms by (simp_all add: nowrap)
  with assms show ?thesis by (auto simp: joins_def phys_piece_defs)
qed

lemma phys_join_joins:
  assumes "phys_wf k a" "phys_wf k' b" "unat k + unat (pa_size a) < 2 ^ 64"
    "unat k' + unat (pa_size b) < 2 ^ 64" "Phys_CanMergeWith a b"
  shows "joins pa_size phys_wf phys_ct k a k' b (phys_join a b)"
proof -
  have "k' = k + pa_size a" and t: "pa_memory_type a = pa_memory_type b" "pa_dma_type a = pa_dma_type b"
    using assms by (auto simp: Phys_CanMergeWith_def phys_wf_def split: if_splits)
  then have k': "unat k' = unat k + unat (pa_size a)" using assms by (simp add: nowrap)
  then have "unat (pa_size a + pa_size b) = unat (pa_size a) + unat (pa_size b)"
    using assms by (simp add: nowrap)
  with k' t assms show ?thesis by (auto simp: joins_def phys_piece_defs)
qed

interpretation pm: area_map pa_size phys_wf phys_ct phys_cutl phys_cutr phys_join Phys_CanMergeWith
  Phys_Split Phys_MergeAdjacent CarvePhysArea
proof unfold_locales
  fix k a and off :: u64 assume a: "phys_wf k a" "unat k + unat (pa_size a) < 2 ^ 64" "0 < unat off"
    "unat off < unat (pa_size a)"
  show "joins pa_size phys_wf phys_ct k (phys_cutl a off) (k + off) (phys_cutr a off) a \<and>
    pa_size (phys_cutl a off) = off \<and> phys_wf k (phys_cutl a off) \<and> phys_wf (k + off) (phys_cutr a off)"
    using a by (rule phys_cut)
  fix m :: PhysMap assume g: "sm_get m k = Some a"
  show "Phys_Split m k off =
    Some (sm_emplace (sm_put m k (phys_cutl a off)) (k + off) (phys_cutr a off), k + off)"
    using a g by (simp add: Phys_Split_def phys_piece_defs word_less_nat_alt)
next
  fix k k' a b assume "phys_wf k a" "phys_wf k' b" "unat k + unat (pa_size a) < 2 ^ 64"
    "unat k' + unat (pa_size b) < 2 ^ 64" "Phys_CanMergeWith a b"
  then show "joins pa_size phys_wf phys_ct k a k' b (phys_join a b)" by (rule phys_join_joins)
next
  fix lo hi xs k a ys assume "phys_laid lo (xs @ (k, a) # ys) hi"
  then show "Phys_MergeAdjacent (xs @ (k, a) # ys) k =
      Some (merge_list Phys_CanMergeWith phys_join xs (k, a) ys)"
    by (intro Phys_MergeAdjacent_list laid_sm_ok)
next
  fix lo m hi addr h a and n :: u64
  assume "phys_laid lo m hi" "hi < 2 ^ 64" "sm_floor m addr = Some h" "sm_get m h = Some a"
    "unat h \<le> unat addr" "unat addr + unat n \<le> unat h + unat (pa_size a)"
  then show "CarvePhysArea m addr n = carve_steps Phys_Split m h (pa_size a) addr n"
    by (rule CarvePhysArea_steps)
qed

end
