(* ===== verification/Virtual_Memory.thy ===== *)
theory Virtual_Memory
  imports Phys_Memory
begin

section \<open>Virtual memory areas\<close>

text \<open>
  \<^verbatim>\<open>struct VirtualMemoryArea\<close> and the \<^verbatim>\<open>VMAMap\<close> operations of \<^verbatim>\<open>core/memory.h\<close>
  and \<^verbatim>\<open>core/memory.cpp\<close>.  An area records which physical areas back it, as a map from
  the offset in the area to the physical area; cutting and joining virtual areas cuts,
  shifts and joins these maps.
\<close>

type_synonym MemoryProt = u32
type_synonym MemoryMapFlags = u32

definition Prot_NoAccess :: MemoryProt where "Prot_NoAccess = 0"
definition Prot_CpuRead :: MemoryProt where "Prot_CpuRead = 1"
definition Prot_CpuWrite :: MemoryProt where "Prot_CpuWrite = 2"
definition Prot_CpuReadWrite :: MemoryProt where "Prot_CpuReadWrite = 3"
definition Prot_CpuExec :: MemoryProt where "Prot_CpuExec = 4"
definition Prot_GpuRead :: MemoryProt where "Prot_GpuRead = 16"
definition Prot_GpuWrite :: MemoryProt where "Prot_GpuWrite = 32"
definition Prot_GpuReadWrite :: MemoryProt where "Prot_GpuReadWrite = 48"

lemmas prot_defs = Prot_NoAccess_def Prot_CpuRead_def Prot_CpuWrite_def Prot_CpuReadWrite_def
  Prot_CpuExec_def Prot_GpuRead_def Prot_GpuWrite_def Prot_GpuReadWrite_def

definition Map_NoFlags :: MemoryMapFlags where "Map_NoFlags = 0"
definition Map_Shared :: MemoryMapFlags where "Map_Shared = 1"
definition Map_Private :: MemoryMapFlags where "Map_Private = 2"
definition Map_Fixed :: MemoryMapFlags where "Map_Fixed = 0x10"
definition Map_NoOverwrite :: MemoryMapFlags where "Map_NoOverwrite = 0x80"
definition Map_Void :: MemoryMapFlags where "Map_Void = 0x100"
definition Map_Stack :: MemoryMapFlags where "Map_Stack = 0x400"
definition Map_NoSync :: MemoryMapFlags where "Map_NoSync = 0x800"
definition Map_Anon :: MemoryMapFlags where "Map_Anon = 0x1000"
definition Map_NoCore :: MemoryMapFlags where "Map_NoCore = 0x20000"
definition Map_NoCoalesce :: MemoryMapFlags where "Map_NoCoalesce = 0x400000"

lemmas map_flag_defs = Map_NoFlags_def Map_Shared_def Map_Private_def Map_Fixed_def
  Map_NoOverwrite_def Map_Void_def Map_Stack_def Map_NoSync_def Map_Anon_def Map_NoCore_def
  Map_NoCoalesce_def

text \<open>\<^verbatim>\<open>True(flags)\<close> of the flag enumerations: some bit is set.\<close>

definition flag_set :: "u32 \<Rightarrow> u32 \<Rightarrow> bool" where
  "flag_set flags f \<longleftrightarrow> flags AND f \<noteq> 0"

datatype VMAType = VMA_Free | VMA_Reserved | VMA_Direct | VMA_Flexible | VMA_Pooled
  | VMA_PoolReserved | VMA_Stack | VMA_Code | VMA_File

record VirtualMemoryArea =
  vma_base :: u64
  vma_size :: u64
  vma_phys_areas :: PhysMap
  vma_type :: VMAType
  vma_prot :: MemoryProt
  vma_name :: string
  vma_fd :: s32
  vma_disallow_merge :: bool

type_synonym VMAMap = "(u64, VirtualMemoryArea) stdmap"

definition VMA_Contains :: "VirtualMemoryArea \<Rightarrow> u64 \<Rightarrow> u64 \<Rightarrow> bool" where
  "VMA_Contains v addr n \<longleftrightarrow> addr \<ge> vma_base v \<and> addr + n \<le> vma_base v + vma_size v"

definition VMA_Overlaps :: "VirtualMemoryArea \<Rightarrow> u64 \<Rightarrow> u64 \<Rightarrow> bool" where
  "VMA_Overlaps v addr n \<longleftrightarrow> addr < vma_base v + vma_size v \<and> addr + n > vma_base v"

definition VMA_IsFree :: "VirtualMemoryArea \<Rightarrow> bool" where
  "VMA_IsFree v \<longleftrightarrow> vma_type v = VMA_Free"

definition VMA_IsMapped :: "VirtualMemoryArea \<Rightarrow> bool" where
  "VMA_IsMapped v \<longleftrightarrow>
     vma_type v \<noteq> VMA_Free \<and> vma_type v \<noteq> VMA_Reserved \<and> vma_type v \<noteq> VMA_PoolReserved"

text \<open>The last physical area of an area without any does not exist: undefined behaviour.\<close>

definition VMA_CanMergeWith :: "VirtualMemoryArea \<Rightarrow> VirtualMemoryArea \<Rightarrow> bool option" where
  "VMA_CanMergeWith v next =
     (if vma_disallow_merge v \<or> vma_disallow_merge next then Some False
      else if vma_base v + vma_size v \<noteq> vma_base next then Some False
      else do {
        backing_differs \<leftarrow>
          (if vma_type v = VMA_Direct \<and> vma_type next = VMA_Direct
           then do {
             last_it \<leftarrow> sm_prev (vma_phys_areas v) None;
             last_phys \<leftarrow> sm_get (vma_phys_areas v) last_it;
             first_it \<leftarrow> sm_begin (vma_phys_areas next);
             first_next_phys \<leftarrow> sm_get (vma_phys_areas next) first_it;
             Some (pa_base last_phys + pa_size last_phys \<noteq> pa_base first_next_phys \<or>
                   pa_memory_type last_phys \<noteq> pa_memory_type first_next_phys)
           }
           else Some False);
        Some (if backing_differs then False
              else if vma_prot v \<noteq> vma_prot next \<or> vma_type v \<noteq> vma_type next then False
              else if vma_name v \<noteq> vma_name next then False
              else True)
      })"

definition HasPhysicalBacking :: "VirtualMemoryArea \<Rightarrow> bool" where
  "HasPhysicalBacking v \<longleftrightarrow>
     vma_type v = VMA_Direct \<or> vma_type v = VMA_Flexible \<or> vma_type v = VMA_Pooled"

definition FindVMA :: "VMAMap \<Rightarrow> u64 \<Rightarrow> u64 option" where
  "FindVMA m target = sm_floor m target"

text \<open>
  The loop of \<^verbatim>\<open>Split\<close> over the physical areas: the maps of the old and of the new area
  after each entry.
\<close>

definition split_phys_step :: "u64 \<Rightarrow> u64 \<times> PhysicalMemoryArea \<Rightarrow> PhysMap \<times> PhysMap
    \<Rightarrow> PhysMap \<times> PhysMap" where
  "split_phys_step offset_in_vma e maps =
     (let offset = fst e; region = snd e; old_areas = fst maps; new_areas = snd maps;
          old_areas = (if offset + pa_size region \<le> offset_in_vma
                       then sm_put old_areas offset region else old_areas);
          straddles = (offset < offset_in_vma \<and> offset + pa_size region > offset_in_vma);
          size_in_old = offset_in_vma - offset;
          old_areas = (if straddles
                       then sm_put old_areas offset
                         \<lparr>pa_base = pa_base region, pa_size = size_in_old,
                          pa_memory_type = pa_memory_type region, pa_dma_type = pa_dma_type region\<rparr>
                       else old_areas);
          new_areas = (if straddles
                       then sm_put new_areas 0
                         \<lparr>pa_base = pa_base region + size_in_old, pa_size = pa_size region - size_in_old,
                          pa_memory_type = pa_memory_type region, pa_dma_type = pa_dma_type region\<rparr>
                       else new_areas);
          new_areas = (if offset \<ge> offset_in_vma
                       then sm_put new_areas (offset - offset_in_vma) region else new_areas)
      in (old_areas, new_areas))"

definition split_phys_areas :: "u64 \<Rightarrow> PhysMap \<Rightarrow> PhysMap \<times> PhysMap" where
  "split_phys_areas offset_in_vma areas = fold (split_phys_step offset_in_vma) areas ([], [])"

definition VMA_Split :: "VMAMap \<Rightarrow> u64 \<Rightarrow> u64 \<Rightarrow> (VMAMap \<times> u64) option" where
  "VMA_Split m vma_handle offset_in_vma =
     do {
       old_vma \<leftarrow> sm_get m vma_handle;
       ASSERT (offset_in_vma < vma_size old_vma \<and> offset_in_vma > 0);
       let new_vma = old_vma;
       let old_vma = old_vma\<lparr>vma_size := offset_in_vma\<rparr>;
       let new_vma = new_vma\<lparr>vma_base := vma_base new_vma + offset_in_vma,
                             vma_size := vma_size new_vma - offset_in_vma\<rparr>;
       let parts = split_phys_areas offset_in_vma (vma_phys_areas old_vma);
       let (old_vma, new_vma) =
         (if HasPhysicalBacking new_vma
          then (old_vma\<lparr>vma_phys_areas := fst parts\<rparr>, new_vma\<lparr>vma_phys_areas := snd parts\<rparr>)
          else (old_vma, new_vma));
       Some (sm_emplace (sm_put m vma_handle old_vma) (vma_base new_vma) new_vma, vma_base new_vma)
     }"

text \<open>One side of \<^verbatim>\<open>MergeAdjacent\<close>: an area takes in the area behind it.\<close>

definition VMA_Absorb :: "VirtualMemoryArea \<Rightarrow> VirtualMemoryArea \<Rightarrow> VirtualMemoryArea" where
  "VMA_Absorb v next =
     (let base_offset = vma_size v
      in v\<lparr>vma_size := vma_size v + vma_size next,
           vma_phys_areas := fold (\<lambda>area areas. sm_put areas (base_offset + fst area) (snd area))
             (vma_phys_areas next) (vma_phys_areas v)\<rparr>)"

definition VMA_MergeAdjacent :: "VMAMap \<Rightarrow> u64 \<Rightarrow> (VMAMap \<times> u64) option" where
  "VMA_MergeAdjacent m iter =
     do {
       area \<leftarrow> sm_get m iter;
       m \<leftarrow> (case sm_next m iter of
              None \<Rightarrow> Some m
            | Some next_it \<Rightarrow>
                do {
                  next \<leftarrow> sm_get m next_it;
                  can_merge \<leftarrow> VMA_CanMergeWith area next;
                  Some (if can_merge then sm_erase (sm_put m iter (VMA_Absorb area next)) next_it
                        else m)
                });
       (if sm_begin m \<noteq> Some iter
        then do {
          prev_it \<leftarrow> sm_prev m (Some iter);
          prev \<leftarrow> sm_get m prev_it;
          area \<leftarrow> sm_get m iter;
          can_merge \<leftarrow> VMA_CanMergeWith prev area;
          Some (if can_merge then (sm_erase (sm_put m prev_it (VMA_Absorb prev area)) iter, prev_it)
                else (m, iter))
        }
        else Some (m, iter))
     }"

definition CarveVMA :: "VMAMap \<Rightarrow> u64 \<Rightarrow> u64 \<Rightarrow> (VMAMap \<times> u64) option" where
  "CarveVMA m virtual_addr n =
     do {
       vma_handle \<leftarrow> FindVMA m virtual_addr;
       vma \<leftarrow> sm_get m vma_handle;
       ASSERT (vma_base vma \<le> virtual_addr);
       let start_in_vma = virtual_addr - vma_base vma;
       let end_in_vma = start_in_vma + n;
       (if start_in_vma = 0 \<and> n = vma_size vma then Some (m, vma_handle)
        else do {
          ASSERT (end_in_vma \<le> vma_size vma);
          m \<leftarrow> (if end_in_vma \<noteq> vma_size vma
                then map_option fst (VMA_Split m vma_handle end_in_vma)
                else Some m);
          (if start_in_vma \<noteq> 0 then VMA_Split m vma_handle start_in_vma
           else Some (m, vma_handle))
        })
     }"

subsection \<open>The physical backing of an area\<close>

text \<open>
  The backing of a virtual area: the physical address behind each offset, with the use and
  the memory type recorded for it.  A backed area is backed throughout.
\<close>

definition back_wf :: "u64 \<Rightarrow> PhysicalMemoryArea \<Rightarrow> bool" where
  "back_wf k r \<longleftrightarrow> unat (pa_base r) + unat (pa_size r) < 2 ^ 64"

definition back_ct :: "PhysicalMemoryArea \<Rightarrow> nat \<Rightarrow> nat \<times> PhysicalMemoryType \<times> s32" where
  "back_ct r i = (unat (pa_base r) + i, pa_dma_type r, pa_memory_type r)"

abbreviation back_laid :: "nat \<Rightarrow> PhysMap \<Rightarrow> nat \<Rightarrow> bool" where
  "back_laid \<equiv> laid pa_size back_wf"

abbreviation back_cells :: "PhysMap \<Rightarrow> nat \<Rightarrow> (nat \<times> PhysicalMemoryType \<times> s32) option" where
  "back_cells \<equiv> cell pa_size back_ct"

definition backed :: "PhysMap \<Rightarrow> nat \<Rightarrow> bool" where
  "backed m n \<longleftrightarrow> back_laid 0 m n \<and> (\<forall>i<n. back_cells m i \<noteq> None)"

text \<open>What the loop of \<^verbatim>\<open>Split\<close> puts into each half for one entry.\<close>

definition left_part :: "u64 \<Rightarrow> u64 \<times> PhysicalMemoryArea \<Rightarrow> PhysMap" where
  "left_part off e =
     (if fst e + pa_size (snd e) \<le> off then [e]
      else if fst e < off then [(fst e, (snd e)\<lparr>pa_size := off - fst e\<rparr>)] else [])"

definition right_part :: "u64 \<Rightarrow> u64 \<times> PhysicalMemoryArea \<Rightarrow> PhysMap" where
  "right_part off e =
     (if off \<le> fst e then [(fst e - off, snd e)]
      else if off < fst e + pa_size (snd e)
      then [(0, (snd e)\<lparr>pa_base := pa_base (snd e) + (off - fst e),
                        pa_size := pa_size (snd e) - (off - fst e)\<rparr>)]
      else [])"

lemma sm_put_last: "\<forall>x\<in>set m. fst x < k \<Longrightarrow> sm_put m k v = m @ [(k, v)]"
  by (induction m k v rule: sm_put.induct) auto

lemma end_nowrap:
  assumes "laid sz w lo ((k, a) # m) hi" "hi < 2 ^ 64"
  shows "unat (k + sz a) = unat k + unat (sz a)"
proof -
  have "unat k + unat (sz a) < 2 ^ 64"
    using laid_mem [OF assms(1), of k a] assms(2) by auto
  then show ?thesis by (simp add: nowrap)
qed

text \<open>Shifting all keys by one distance shifts the contents.\<close>

lemma laid_shift:
  assumes "laid sz w lo m hi" "\<And>k a. (k, a) \<in> set m \<Longrightarrow> unat (f k) + d = unat k + e \<and> w' (f k) a"
    and "lo' + d \<le> lo + e" "hi + e \<le> hi' + d"
  shows "laid sz w' lo' (map (\<lambda>x. (f (fst x), snd x)) m) hi'"
  using assms
proof (induction sz w lo m hi arbitrary: lo' rule: laid.induct)
  case (2 sz w lo k a m hi)
  have "unat (f k) + d = unat k + e" using "2.prems"(2) [of k a] by simp
  with "2.prems" "2.IH" [of "unat (f k) + unat (sz a)"] show ?case by auto
qed simp

lemma cell_shift:
  assumes "\<And>k a. (k, a) \<in> set m \<Longrightarrow> unat (f k) + d = unat k + e" "p' + d = p + e"
  shows "cell sz ct (map (\<lambda>x. (f (fst x), snd x)) m) p' = cell sz ct m p"
  using assms(1)
proof (induction m)
  case (Cons x m)
  obtain k a where x: "x = (k, a)" by fastforce
  have "unat (f k) + d = unat k + e" using Cons.prems [of k a] x by simp
  then have "p' - unat (f k) = p - unat k" "unat (f k) \<le> p' \<longleftrightarrow> unat k \<le> p"
    "p' < unat (f k) + unat (sz a) \<longleftrightarrow> p < unat k + unat (sz a)"
    using assms(2) by linarith+
  moreover have "cell sz ct (map (\<lambda>x. (f (fst x), snd x)) m) p' = cell sz ct m p"
    using Cons.prems by (intro Cons.IH) auto
  ultimately show ?case using x by simp
qed simp

lemma left_part_beyond:
  assumes "laid (pa_size :: PhysicalMemoryArea \<Rightarrow> u64) w lo m hi" "hi < 2 ^ 64" "unat off \<le> lo"
  shows "concat (map (left_part off) m) = []"
  using assms
proof (induction "pa_size :: PhysicalMemoryArea \<Rightarrow> u64" w lo m hi rule: laid.induct)
  case (2 w lo k a m hi)
  have e: "unat (k + pa_size a) = unat k + unat (pa_size a)"
    using "2.prems"(1,2) by (rule end_nowrap)
  then have "left_part off (k, a) = []"
    using "2.prems" by (auto simp: left_part_def word_le_nat_alt word_less_nat_alt)
  with 2 show ?case by auto
qed simp

lemma right_part_beyond:
  assumes "laid (pa_size :: PhysicalMemoryArea \<Rightarrow> u64) w lo m hi" "unat off \<le> lo"
  shows "concat (map (right_part off) m) = map (\<lambda>x. (fst x - off, snd x)) m"
  using assms
proof (induction "pa_size :: PhysicalMemoryArea \<Rightarrow> u64" w lo m hi rule: laid.induct)
  case (2 w lo k a m hi)
  then have "right_part off (k, a) = [(k - off, a)]" by (auto simp: right_part_def word_le_nat_alt)
  with 2 show ?case by auto
qed simp

lemma left_half:
  assumes "back_laid lo m hi" "hi < 2 ^ 64" "lo \<le> unat off"
  shows "back_laid lo (concat (map (left_part off) m)) (unat off) \<and>
    (\<forall>p < unat off. back_cells (concat (map (left_part off) m)) p = back_cells m p)"
  using assms
proof (induction "pa_size :: PhysicalMemoryArea \<Rightarrow> u64" back_wf lo m hi rule: laid.induct)
  case (2 lo k a m hi)
  note e = end_nowrap [OF "2.prems"(1,2)]
  have l: "back_laid (unat k + unat (pa_size a)) m hi" using "2.prems" by simp
  consider (inside) "unat k + unat (pa_size a) \<le> unat off"
    | (cut) "unat k < unat off" "unat off < unat k + unat (pa_size a)" | (after) "unat off \<le> unat k"
    by linarith
  then show ?case
  proof cases
    case inside
    then have "left_part off (k, a) = [(k, a)]" by (simp add: left_part_def word_le_nat_alt e)
    with 2 inside show ?thesis by auto
  next
    case cut
    let ?b = "a\<lparr>pa_size := off - k\<rparr>"
    have s: "unat (off - k) = unat off - unat k" using cut by (simp add: nowrap)
    have "left_part off (k, a) = [(k, ?b)]"
      using cut by (simp add: left_part_def word_le_nat_alt word_less_nat_alt e)
    then have "concat (map (left_part off) ((k, a) # m)) = [(k, ?b)]"
      using left_part_beyond [OF l "2.prems"(2), of off] cut by simp
    moreover have "back_cells m p = None" if "p < unat off" for p
      using l cut that by (intro cell_None) auto
    ultimately show ?thesis using "2.prems" cut s by (auto simp: back_wf_def back_ct_def)
  next
    case after
    then have nil: "concat (map (left_part off) ((k, a) # m)) = []"
      using left_part_beyond [of back_wf "unat off" "(k, a) # m" hi off] "2.prems" by auto
    have "back_cells ((k, a) # m) p = None" if "p < unat off" for p
      using "2.prems"(1) after that by (intro cell_None [of pa_size back_wf "unat k" _ hi]) auto
    with "2.prems"(3) show ?thesis unfolding nil by simp
  qed
qed simp

lemma right_half:
  assumes "back_laid lo m hi" "hi < 2 ^ 64" "unat off \<le> hi"
  shows "back_laid 0 (concat (map (right_part off) m)) (hi - unat off) \<and>
    (\<forall>p. back_cells (concat (map (right_part off) m)) p = back_cells m (unat off + p))"
  using assms
proof (induction "pa_size :: PhysicalMemoryArea \<Rightarrow> u64" back_wf lo m hi rule: laid.induct)
  case (2 lo k a m hi)
  note e = end_nowrap [OF "2.prems"(1,2)]
  have l: "back_laid (unat k + unat (pa_size a)) m hi" using "2.prems" by simp
  have k: "unat (k' - off) + unat off = unat k'" if "unat off \<le> unat k'" for k' :: u64
    using that by (simp add: nowrap)
  consider (before) "unat k + unat (pa_size a) \<le> unat off"
    | (cut) "unat k < unat off" "unat off < unat k + unat (pa_size a)" | (after) "unat off \<le> unat k"
    by linarith
  then show ?case
  proof cases
    case before
    then have "right_part off (k, a) = []"
      using "2.prems" by (auto simp: right_part_def word_le_nat_alt word_less_nat_alt e)
    with 2 before show ?thesis by auto
  next
    case cut
    let ?b = "a\<lparr>pa_base := pa_base a + (off - k), pa_size := pa_size a - (off - k)\<rparr>"
    have s: "unat (off - k) = unat off - unat k" using cut by (simp add: nowrap)
    have s2: "unat (pa_size a - (off - k)) = unat (pa_size a) - (unat off - unat k)"
      "unat (pa_base a + (off - k)) = unat (pa_base a) + (unat off - unat k)"
      using cut s "2.prems"(1) by (auto simp: nowrap back_wf_def)
    have rp: "right_part off (k, a) = [(0, ?b)]"
      using cut by (simp add: right_part_def word_le_nat_alt word_less_nat_alt e)
    have rest: "concat (map (right_part off) m) = map (\<lambda>x. (fst x - off, snd x)) m"
      using cut by (intro right_part_beyond [OF l]) simp
    have sh: "\<And>k' b. (k', b) \<in> set m \<Longrightarrow> unat (k' - off) + unat off = unat k' + 0 \<and> back_wf (k' - off) b"
      using laid_mem [OF l] cut k by (fastforce simp: back_wf_def)
    have "back_laid (unat (pa_size ?b)) (map (\<lambda>x. (fst x - off, snd x)) m) (hi - unat off)"
      using cut s2 "2.prems"(3) by (intro laid_shift [OF l sh]) auto
    moreover have "back_cells (map (\<lambda>x. (fst x - off, snd x)) m) p = back_cells m (unat off + p)" for p
      using sh by (intro cell_shift [where d = "unat off" and e = 0]) auto
    ultimately show ?thesis using rp rest s2 cut "2.prems"(1)
      by (auto simp: back_wf_def back_ct_def)
  next
    case after
    then have rp: "concat (map (right_part off) ((k, a) # m)) = map (\<lambda>x. (fst x - off, snd x)) ((k, a) # m)"
      using "2.prems" by (intro right_part_beyond [of back_wf "unat k" _ hi]) auto
    have l': "back_laid (unat k) ((k, a) # m) hi" using "2.prems"(1) by simp
    have sh: "\<And>k' b. (k', b) \<in> set ((k, a) # m) \<Longrightarrow>
        unat (k' - off) + unat off = unat k' + 0 \<and> back_wf (k' - off) b"
      using laid_mem [OF l'] after k by (fastforce simp: back_wf_def)
    show ?thesis unfolding rp
      using sh after "2.prems"(3) laid_shift [OF l' sh, where lo' = 0 and hi' = "hi - unat off"]
        cell_shift [where m = "(k, a) # m" and f = "\<lambda>k. k - off" and d = "unat off" and e = 0 and
          sz = pa_size and ct = back_ct]
      by (auto simp: add.commute simp del: list.map)
  qed
qed simp

lemma split_phys_fold:
  assumes "back_laid lo m hi" "hi < 2 ^ 64"
    and "\<forall>x\<in>set os. unat (fst x) < lo" "\<forall>x\<in>set ns. unat (fst x) + unat off < lo"
  shows "fold (split_phys_step off) m (os, ns) =
    (os @ concat (map (left_part off) m), ns @ concat (map (right_part off) m))"
  using assms
proof (induction "pa_size :: PhysicalMemoryArea \<Rightarrow> u64" back_wf lo m hi arbitrary: os ns
    rule: laid.induct)
  case (2 lo k a m hi)
  note e = end_nowrap [OF "2.prems"(1,2)]
  have pos: "0 < unat (pa_size a)" and lo: "lo \<le> unat k" using "2.prems" by auto
  have os: "\<forall>x\<in>set os. fst x < k" using "2.prems"(3) lo by (auto simp: word_less_nat_alt)
  have step: "split_phys_step off (k, a) (os, ns) =
      (os @ left_part off (k, a), ns @ right_part off (k, a)) \<and>
      (\<forall>x\<in>set (right_part off (k, a)). unat (fst x) + unat off < unat k + unat (pa_size a))"
  proof (cases "unat off \<le> unat k")
    case True
    then have u: "unat (k - off) = unat k - unat off" by (simp add: nowrap)
    have "\<forall>x\<in>set ns. fst x < k - off"
      using "2.prems"(4) lo u True by (fastforce simp: word_less_nat_alt)
    moreover have "\<not> k + pa_size a \<le> off" "\<not> k < off" "off \<le> k"
      using True pos e by (auto simp: word_le_nat_alt word_less_nat_alt)
    ultimately show ?thesis using pos u True
      by (simp add: split_phys_step_def left_part_def right_part_def Let_def sm_put_last)
  next
    case False
    then have ns: "ns = []" using "2.prems"(4) lo by (cases ns) fastforce+
    have c: "k < off" "\<not> off \<le> k" using False by (auto simp: word_le_nat_alt word_less_nat_alt)
    then show ?thesis using e False
      by (auto simp: split_phys_step_def left_part_def right_part_def Let_def sm_put_last [OF os] ns
          word_le_nat_alt word_less_nat_alt)
  qed
  have "\<forall>x\<in>set (os @ left_part off (k, a)). unat (fst x) < unat k + unat (pa_size a)"
    using "2.prems"(3) lo pos by (auto simp: left_part_def split: if_splits)
  moreover have "\<forall>x\<in>set (ns @ right_part off (k, a)). unat (fst x) + unat off < unat k + unat (pa_size a)"
    using "2.prems"(4) lo step by fastforce
  ultimately show ?case using "2.hyps" "2.prems"(1,2) step by simp
qed simp

lemma split_phys_areas_parts:
  assumes "back_laid 0 m hi" "hi < 2 ^ 64"
  shows "split_phys_areas off m = (concat (map (left_part off) m), concat (map (right_part off) m))"
  using split_phys_fold [OF assms, of "[]" "[]" off] by (simp add: split_phys_areas_def)

lemma absorb_phys_fold:
  assumes "back_laid lo m hi" "unat off + hi < 2 ^ 64" "\<forall>x\<in>set acc. unat (fst x) < unat off + lo"
  shows "fold (\<lambda>area areas. sm_put areas (off + fst area) (snd area)) m acc =
    acc @ map (\<lambda>x. (off + fst x, snd x)) m"
  using assms
proof (induction "pa_size :: PhysicalMemoryArea \<Rightarrow> u64" back_wf lo m hi arbitrary: acc rule: laid.induct)
  case (2 lo k a m hi)
  then have "unat k + unat (pa_size a) \<le> hi" using laid_mem [OF "2.prems"(1), of k a] by auto
  then have u: "unat (off + k) = unat off + unat k" using "2.prems"(2) by (simp add: nowrap)
  have "\<forall>x\<in>set acc. fst x < off + k" using "2.prems" u by (fastforce simp: word_less_nat_alt)
  moreover have "\<forall>x\<in>set (acc @ [(off + k, a)]). unat (fst x) < unat off + (unat k + unat (pa_size a))"
    using "2.prems" u by fastforce
  ultimately show ?case using "2.hyps" "2.prems"(1,2) by (simp add: sm_put_last)
qed simp

lemma backed_split:
  assumes "backed m n" "n < 2 ^ 64" "unat off \<le> n"
  shows "backed (fst (split_phys_areas off m)) (unat off)"
    "backed (snd (split_phys_areas off m)) (n - unat off)"
    "i < unat off \<Longrightarrow> back_cells (fst (split_phys_areas off m)) i = back_cells m i"
    "back_cells (snd (split_phys_areas off m)) i = back_cells m (unat off + i)"
  using assms left_half [of 0 m n off] right_half [of 0 m n off]
  by (auto simp: backed_def split_phys_areas_parts)

lemma backed_append:
  assumes "backed m n" "backed m' n'" "unat off = n" "n + n' < 2 ^ 64"
  defines "j \<equiv> m @ map (\<lambda>x. (off + fst x, snd x)) m'"
  shows "backed j (n + n')"
    "i < n \<Longrightarrow> back_cells j i = back_cells m i" "back_cells j (n + i) = back_cells m' i"
proof -
  have l: "back_laid 0 m n" and l': "back_laid 0 m' n'" using assms by (auto simp: backed_def)
  have sh: "unat (off + k) + 0 = unat k + n \<and> back_wf (off + k) a" if "(k, a) \<in> set m'" for k a
    using laid_mem [OF l' that] assms(3,4) by (auto simp: nowrap back_wf_def)
  have ls: "back_laid n (map (\<lambda>x. (off + fst x, snd x)) m') (n + n')"
    by (rule laid_shift [OF l' sh]) auto
  have "laid pa_size back_wf lo (xs @ ys) hi"
    if "laid pa_size back_wf lo xs mid" "laid pa_size back_wf mid ys hi" for lo xs mid ys hi
    using that
    by (induction "pa_size :: PhysicalMemoryArea \<Rightarrow> u64" back_wf lo xs mid rule: laid.induct)
       (auto intro: laid_mono_lo)
  from this [OF l ls] have lj: "back_laid 0 j (n + n')" by (simp add: j_def)
  have lo: "back_cells j i = back_cells m i" if "i < n" for i
    using that assms(1) by (auto simp: j_def cell_append backed_def split: option.split)
  have hi: "back_cells j (n + i) = back_cells m' i" for i
  proof -
    have "back_cells (map (\<lambda>x. (off + fst x, snd x)) m') (n + i) = back_cells m' i"
      using sh by (intro cell_shift [where d = 0 and e = n]) auto
    then show ?thesis using cell_None [OF l, of "n + i" back_ct] by (simp add: j_def cell_append)
  qed
  show "i < n \<Longrightarrow> back_cells j i = back_cells m i" "back_cells j (n + i) = back_cells m' i"
    by (fact lo, fact hi)
  have "back_cells j i \<noteq> None" if "i < n + n'" for i
    using that lo [of i] hi [of "i - n"] assms(1,2) by (cases "i < n") (auto simp: backed_def)
  with lj show "backed j (n + n')" by (simp add: backed_def)
qed

subsection \<open>The areas as an interval map\<close>

text \<open>
  What a virtual address holds: the type, protection, name and coalescing flag of its area
  and the physical address behind it.
\<close>

type_synonym vma_cell =
  "VMAType \<times> MemoryProt \<times> string \<times> bool \<times> (nat \<times> PhysicalMemoryType \<times> s32) option"

definition vma_ct :: "VirtualMemoryArea \<Rightarrow> nat \<Rightarrow> vma_cell" where
  "vma_ct v i = (vma_type v, vma_prot v, vma_name v, vma_disallow_merge v,
     if HasPhysicalBacking v then back_cells (vma_phys_areas v) i else None)"

definition vma_wf :: "u64 \<Rightarrow> VirtualMemoryArea \<Rightarrow> bool" where
  "vma_wf k v \<longleftrightarrow> vma_base v = k \<and>
     (if HasPhysicalBacking v then backed (vma_phys_areas v) (unat (vma_size v))
      else vma_phys_areas v = [])"

definition vma_cutl :: "VirtualMemoryArea \<Rightarrow> u64 \<Rightarrow> VirtualMemoryArea" where
  "vma_cutl v off =
     (let l = v\<lparr>vma_size := off\<rparr>
      in if HasPhysicalBacking v
         then l\<lparr>vma_phys_areas := fst (split_phys_areas off (vma_phys_areas v))\<rparr> else l)"

definition vma_cutr :: "VirtualMemoryArea \<Rightarrow> u64 \<Rightarrow> VirtualMemoryArea" where
  "vma_cutr v off =
     (let r = v\<lparr>vma_base := vma_base v + off, vma_size := vma_size v - off\<rparr>
      in if HasPhysicalBacking v
         then r\<lparr>vma_phys_areas := snd (split_phys_areas off (vma_phys_areas v))\<rparr> else r)"

definition vma_mergeable :: "VirtualMemoryArea \<Rightarrow> VirtualMemoryArea \<Rightarrow> bool" where
  "vma_mergeable a b \<longleftrightarrow> VMA_CanMergeWith a b = Some True"

abbreviation vma_laid :: "nat \<Rightarrow> VMAMap \<Rightarrow> nat \<Rightarrow> bool" where
  "vma_laid \<equiv> laid vma_size vma_wf"

abbreviation vma_cells :: "VMAMap \<Rightarrow> nat \<Rightarrow> vma_cell option" where
  "vma_cells \<equiv> cell vma_size vma_ct"

lemmas vma_piece_defs = vma_ct_def vma_wf_def vma_cutl_def vma_cutr_def

lemma vma_mergeableD:
  assumes "vma_mergeable a b"
  shows "\<not> vma_disallow_merge a" "\<not> vma_disallow_merge b" "vma_base a + vma_size a = vma_base b"
    "vma_prot a = vma_prot b" "vma_type a = vma_type b" "vma_name a = vma_name b"
  using assms
  by (auto simp: vma_mergeable_def VMA_CanMergeWith_def split: if_splits bind_splits)

lemma vma_cut:
  assumes w: "vma_wf k v" and k: "unat k + unat (vma_size v) < 2 ^ 64"
    and o: "0 < unat off" "unat off < unat (vma_size v)"
  shows "joins vma_size vma_wf vma_ct k (vma_cutl v off) (k + off) (vma_cutr v off) v \<and>
    vma_size (vma_cutl v off) = off \<and> vma_wf k (vma_cutl v off) \<and> vma_wf (k + off) (vma_cutr v off)"
proof -
  have u: "unat (k + off) = unat k + unat off"
    "unat (vma_size v - off) = unat (vma_size v) - unat off"
    using k o by (simp_all add: nowrap)
  show ?thesis
  proof (cases "HasPhysicalBacking v")
    case True
    then have b: "backed (vma_phys_areas v) (unat (vma_size v))" using w by (simp add: vma_wf_def)
    note bs = backed_split [OF b unat_lt64, of off]
    have "HasPhysicalBacking (vma_cutl v off)" "HasPhysicalBacking (vma_cutr v off)"
      using True by (auto simp: vma_cutl_def vma_cutr_def Let_def HasPhysicalBacking_def)
    with True w o u bs show ?thesis
      by (auto simp: joins_def vma_piece_defs Let_def)
  next
    case False
    then have "\<not> HasPhysicalBacking (vma_cutl v off)" "\<not> HasPhysicalBacking (vma_cutr v off)"
      by (auto simp: vma_cutl_def vma_cutr_def Let_def HasPhysicalBacking_def)
    with False w o u show ?thesis by (auto simp: joins_def vma_piece_defs Let_def)
  qed
qed

lemma vma_join_joins:
  assumes w: "vma_wf k a" "vma_wf k' b"
    and n: "unat k + unat (vma_size a) < 2 ^ 64" "unat k' + unat (vma_size b) < 2 ^ 64"
    and m: "vma_mergeable a b"
  shows "joins vma_size vma_wf vma_ct k a k' b (VMA_Absorb a b)"
proof -
  note mg = vma_mergeableD [OF m]
  have "k' = k + vma_size a" using mg(3) w by (auto simp: vma_wf_def)
  then have k': "unat k' = unat k + unat (vma_size a)" using n by (simp add: nowrap)
  then have s: "unat (vma_size a + vma_size b) = unat (vma_size a) + unat (vma_size b)"
    using n by (simp add: nowrap)
  let ?j = "VMA_Absorb a b"
  have jt: "vma_type ?j = vma_type a" "vma_prot ?j = vma_prot a" "vma_name ?j = vma_name a"
    "vma_disallow_merge ?j = vma_disallow_merge a" "vma_base ?j = vma_base a"
    "vma_size ?j = vma_size a + vma_size b"
    by (simp_all add: VMA_Absorb_def Let_def)
  have hb: "HasPhysicalBacking ?j = HasPhysicalBacking a" "HasPhysicalBacking b = HasPhysicalBacking a"
    using jt(1) mg(5) by (simp_all add: HasPhysicalBacking_def)
  show ?thesis
  proof (cases "HasPhysicalBacking a")
    case True
    then have ba: "backed (vma_phys_areas a) (unat (vma_size a))"
      and bb: "backed (vma_phys_areas b) (unat (vma_size b))" using w hb by (auto simp: vma_wf_def)
    have sum: "unat (vma_size a) + unat (vma_size b) < 2 ^ 64" using n k' by linarith
    have "\<forall>x\<in>set (vma_phys_areas a). unat (fst x) < unat (vma_size a) + 0"
      using ba by (fastforce simp: backed_def dest!: laid_mem)
    then have ph: "vma_phys_areas ?j =
        vma_phys_areas a @ map (\<lambda>x. (vma_size a + fst x, snd x)) (vma_phys_areas b)"
      using absorb_phys_fold [of 0 "vma_phys_areas b" "unat (vma_size b)" "vma_size a"] bb sum
      by (simp add: VMA_Absorb_def Let_def backed_def)
    note ap = backed_append [OF ba bb refl sum]
    show ?thesis using True hb mg jt k' s w ap unfolding joins_def vma_ct_def vma_wf_def
      by (simp add: ph)
  next
    case False
    then have "vma_phys_areas ?j = []" using w hb by (simp add: vma_wf_def VMA_Absorb_def Let_def)
    with False hb mg jt k' s w show ?thesis unfolding joins_def vma_ct_def vma_wf_def by simp
  qed
qed

text \<open>A direct area with a physical area has a last and a first one: the test is defined.\<close>

definition vma_testable :: "VirtualMemoryArea \<Rightarrow> bool" where
  "vma_testable v \<longleftrightarrow> (vma_type v = VMA_Direct \<longrightarrow> vma_phys_areas v \<noteq> [])"

lemma VMA_CanMergeWith_testable:
  assumes "vma_testable a" "vma_testable b"
  shows "VMA_CanMergeWith a b = Some (vma_mergeable a b)"
proof -
  have "\<exists>r. VMA_CanMergeWith a b = Some r"
  proof (cases "vma_type a = VMA_Direct \<and> vma_type b = VMA_Direct")
    case True
    then have ne: "vma_phys_areas a \<noteq> []" "vma_phys_areas b \<noteq> []"
      using assms by (auto simp: vma_testable_def)
    have "\<exists>v. sm_get (vma_phys_areas a) (fst (last (vma_phys_areas a))) = Some v"
      using ne(1) last_in_set [OF ne(1)] weak_map_of_SomeI [of _ "snd (last (vma_phys_areas a))"]
      by (metis prod.collapse sm_get_def)
    moreover have "\<exists>v. sm_get (vma_phys_areas b) (fst (hd (vma_phys_areas b))) = Some v"
      using ne(2) list.set_sel(1) [OF ne(2)] weak_map_of_SomeI [of _ "snd (hd (vma_phys_areas b))"]
      by (metis prod.collapse sm_get_def)
    moreover have "sm_begin (vma_phys_areas b) = Some (fst (hd (vma_phys_areas b)))"
      using ne(2) by (cases "vma_phys_areas b") auto
    ultimately show ?thesis using ne(1) True
      by (auto simp: VMA_CanMergeWith_def sm_prev_def)
  qed (auto simp: VMA_CanMergeWith_def)
  then show ?thesis by (auto simp: vma_mergeable_def)
qed

lemma VMA_Absorb_testable: "vma_testable a \<Longrightarrow> vma_testable (VMA_Absorb a b)"
proof -
  have "fold (\<lambda>area areas. sm_put areas (s + fst area) (snd area)) m acc \<noteq> []" if "acc \<noteq> []"
    for s :: u64 and m acc :: PhysMap
    using that
  proof (induction m arbitrary: acc)
    case (Cons e m)
    have "sm_put acc (s + fst e) (snd e) \<noteq> []"
      using sm_put_keys [of acc "s + fst e" "snd e"] by auto
    with Cons.IH show ?case by simp
  qed simp
  then show "vma_testable a \<Longrightarrow> vma_testable (VMA_Absorb a b)"
    by (simp add: vma_testable_def VMA_Absorb_def Let_def)
qed

lemma vma_wf_testable:
  assumes "vma_wf k v" "0 < unat (vma_size v)"
  shows "vma_testable v"
  using assms
  by (auto simp: vma_testable_def vma_wf_def HasPhysicalBacking_def backed_def split: if_splits
      dest!: spec [of _ 0])

lemma VMA_MergeAdjacent_with:
  "VMA_MergeAdjacent m k = merge_adjacent_with VMA_CanMergeWith VMA_Absorb m k"
  unfolding VMA_MergeAdjacent_def merge_adjacent_with_def ..

lemma VMA_MergeAdjacent_list:
  assumes l: "vma_laid lo (xs @ (k, a) # ys) hi"
  shows "VMA_MergeAdjacent (xs @ (k, a) # ys) k =
    Some (merge_list vma_mergeable VMA_Absorb xs (k, a) ys)"
  unfolding VMA_MergeAdjacent_with
proof (rule merge_adjacent_with_list [where P = vma_testable])
  show "sm_ok (xs @ (k, a) # ys)" using l by (rule laid_sm_ok)
  show "\<forall>e\<in>set (xs @ (k, a) # ys). vma_testable (snd e)"
    using laid_mem [OF l] vma_wf_testable by (metis prod.collapse)
qed (simp_all add: VMA_CanMergeWith_testable VMA_Absorb_testable)

lemma CarveVMA_steps:
  assumes l: "vma_laid lo m hi" and hi: "hi < 2 ^ 64"
    and f: "sm_floor m addr = Some h" and g: "sm_get m h = Some v"
    and n: "unat h \<le> unat addr" "unat addr + unat n \<le> unat h + unat (vma_size v)"
  shows "CarveVMA m addr n = carve_steps VMA_Split m h (vma_size v) addr n"
proof -
  from g have "(h, v) \<in> set m" unfolding sm_get_def by (rule map_of_SomeD)
  from laid_mem [OF l this] hi have b: "vma_base v = h" and w: "unat h + unat (vma_size v) < 2 ^ 64"
    by (auto simp: vma_wf_def)
  have st: "unat (addr - h) = unat addr - unat h" using n by (simp add: nowrap)
  have "unat (addr - h + n) = unat addr - unat h + unat n"
    using st n w unat_add_nowrap [of "addr - h" n] by simp
  then have "h \<le> addr" "addr - h + n \<le> vma_size v"
    using n by (auto simp: word_le_nat_alt)
  with f g b show ?thesis by (auto simp: CarveVMA_def FindVMA_def carve_steps_def Let_def)
qed

interpretation vm: area_map vma_size vma_wf vma_ct vma_cutl vma_cutr VMA_Absorb vma_mergeable
  VMA_Split VMA_MergeAdjacent CarveVMA
proof unfold_locales
  fix k v and off :: u64 assume a: "vma_wf k v" "unat k + unat (vma_size v) < 2 ^ 64"
    "0 < unat off" "unat off < unat (vma_size v)"
  show "joins vma_size vma_wf vma_ct k (vma_cutl v off) (k + off) (vma_cutr v off) v \<and>
    vma_size (vma_cutl v off) = off \<and> vma_wf k (vma_cutl v off) \<and> vma_wf (k + off) (vma_cutr v off)"
    using a by (rule vma_cut)
  fix m :: VMAMap assume g: "sm_get m k = Some v"
  have "vma_base (vma_cutr v off) = vma_base v + off" by (simp add: vma_cutr_def Let_def)
  then show "VMA_Split m k off =
    Some (sm_emplace (sm_put m k (vma_cutl v off)) (k + off) (vma_cutr v off), k + off)"
    using a g by (auto simp: VMA_Split_def vma_wf_def vma_cutl_def vma_cutr_def Let_def
        HasPhysicalBacking_def word_less_nat_alt)
next
  fix k k' a b assume "vma_wf k a" "vma_wf k' b" "unat k + unat (vma_size a) < 2 ^ 64"
    "unat k' + unat (vma_size b) < 2 ^ 64" "vma_mergeable a b"
  then show "joins vma_size vma_wf vma_ct k a k' b (VMA_Absorb a b)" by (rule vma_join_joins)
next
  fix lo hi xs k a ys assume "vma_laid lo (xs @ (k, a) # ys) hi"
  then show "VMA_MergeAdjacent (xs @ (k, a) # ys) k =
      Some (merge_list vma_mergeable VMA_Absorb xs (k, a) ys)"
    by (rule VMA_MergeAdjacent_list)
next
  fix lo m hi addr h v and n :: u64
  assume "vma_laid lo m hi" "hi < 2 ^ 64" "sm_floor m addr = Some h" "sm_get m h = Some v"
    "unat h \<le> unat addr" "unat addr + unat n \<le> unat h + unat (vma_size v)"
  then show "CarveVMA m addr n = carve_steps VMA_Split m h (vma_size v) addr n"
    by (rule CarveVMA_steps)
qed

end
