(* ===== verification/Memory_State.thy ===== *)
theory Memory_State
  imports Virtual_Memory
begin

section \<open>The state of the memory manager and its queries\<close>

text \<open>
  \<^verbatim>\<open>class MemoryManager\<close> of \<^verbatim>\<open>core/memory.h\<close>: its fields, the helpers in the
  header and the operations of \<^verbatim>\<open>core/memory.cpp\<close> that only read the maps.

  The host address space (\<^verbatim>\<open>impl\<close>) and the GPU rasterizer are seen through the calls made
  to them, which the state records in order in \<open>host_trace\<close>; the bounds of the address
  space are fields.  Locks are not modelled: every operation is one critical section.
\<close>

subsection \<open>Constants and state\<close>

definition ORBIS_OK :: s32 where "ORBIS_OK = 0"
definition ORBIS_KERNEL_ERROR_ENOENT :: s32 where "ORBIS_KERNEL_ERROR_ENOENT = 0x80020002"
definition ORBIS_KERNEL_ERROR_EBADF :: s32 where "ORBIS_KERNEL_ERROR_EBADF = 0x80020009"
definition ORBIS_KERNEL_ERROR_ENOMEM :: s32 where "ORBIS_KERNEL_ERROR_ENOMEM = 0x8002000C"
definition ORBIS_KERNEL_ERROR_EACCES :: s32 where "ORBIS_KERNEL_ERROR_EACCES = 0x8002000D"
definition ORBIS_KERNEL_ERROR_EFAULT :: s32 where "ORBIS_KERNEL_ERROR_EFAULT = 0x8002000E"
definition ORBIS_KERNEL_ERROR_EBUSY :: s32 where "ORBIS_KERNEL_ERROR_EBUSY = 0x80020010"
definition ORBIS_KERNEL_ERROR_EINVAL :: s32 where "ORBIS_KERNEL_ERROR_EINVAL = 0x80020016"
definition ORBIS_KERNEL_ERROR_EAGAIN :: s32 where "ORBIS_KERNEL_ERROR_EAGAIN = 0x80020023"
definition ORBIS_KERNEL_ERROR_ENAMETOOLONG :: s32 where "ORBIS_KERNEL_ERROR_ENAMETOOLONG = 0x8002003F"

lemmas orbis_error_defs = ORBIS_OK_def ORBIS_KERNEL_ERROR_ENOENT_def ORBIS_KERNEL_ERROR_EBADF_def
  ORBIS_KERNEL_ERROR_ENOMEM_def ORBIS_KERNEL_ERROR_EACCES_def ORBIS_KERNEL_ERROR_EFAULT_def
  ORBIS_KERNEL_ERROR_EBUSY_def ORBIS_KERNEL_ERROR_EINVAL_def ORBIS_KERNEL_ERROR_EAGAIN_def
  ORBIS_KERNEL_ERROR_ENAMETOOLONG_def

definition ORBIS_KERNEL_TOTAL_MEM_DEV_PRO where "ORBIS_KERNEL_TOTAL_MEM_DEV_PRO = MB 7936"
definition ORBIS_KERNEL_FLEXIBLE_MEMORY_BASE where "ORBIS_KERNEL_FLEXIBLE_MEMORY_BASE = MB 64"
definition ORBIS_KERNEL_FLEXIBLE_MEMORY_SIZE where "ORBIS_KERNEL_FLEXIBLE_MEMORY_SIZE = MB 512"
definition DEFAULT_MAPPING_BASE :: u64 where "DEFAULT_MAPPING_BASE = 0x200000000"
definition FW_170 :: s32 where "FW_170 = 0x1700000"
definition FW_200 :: s32 where "FW_200 = 0x2000000"
definition FW_250 :: s32 where "FW_250 = 0x2500000"

record PrtArea =
  prt_start :: u64
  prt_end :: u64
  prt_mapped :: bool

text \<open>\<^verbatim>\<open>MemoryPermission\<close> of the host address space.\<close>

type_synonym MemoryPermission = u32

definition Perm_Read :: MemoryPermission where "Perm_Read = 1"
definition Perm_Write :: MemoryPermission where "Perm_Write = 2"
definition Perm_ReadWrite :: MemoryPermission where "Perm_ReadWrite = 3"
definition Perm_Execute :: MemoryPermission where "Perm_Execute = 4"

lemmas perm_defs = Perm_Read_def Perm_Write_def Perm_ReadWrite_def Perm_Execute_def

text \<open>Calls to the host address space and to the rasterizer.\<close>

datatype host_op =
    Host_Map u64 u64 u64 bool \<comment> \<open>\<open>impl.Map\<close>: address, size, backing offset, executable\<close>
  | Host_MapFile u64 u64 u64 u32 u64 \<comment> \<open>\<open>impl.MapFile\<close>: address, size, offset, protection, handle\<close>
  | Host_Unmap u64 u64
  | Host_Protect u64 u64 MemoryPermission
  | Host_ZeroBacking u64 u64 \<comment> \<open>\<open>memset\<close> of the backing at an offset\<close>
  | Gpu_Map u64 u64
  | Gpu_Unmap u64 u64
  | Gpu_Invalidate u64 u64

record MemoryManager =
  dmem_map :: PhysMap
  fmem_map :: PhysMap
  vma_map :: VMAMap
  total_direct_size :: u64
  total_flexible_size :: u64
  flexible_usage :: u64
  pool_budget :: u64
  sdk_version :: s32
  mapping_generation :: u64
  prt_areas :: "PrtArea list"
  has_rasterizer :: bool
  SystemManagedVirtualBase :: u64
  UserVirtualBase :: u64
  UserVirtualSize :: u64
  host_trace :: "host_op list"

definition host_call :: "host_op \<Rightarrow> MemoryManager \<Rightarrow> MemoryManager" where
  "host_call op s = s\<lparr>host_trace := host_trace s @ [op]\<rparr>"

text \<open>A call through the rasterizer pointer, undefined while it is null.\<close>

definition gpu_call :: "host_op \<Rightarrow> MemoryManager \<Rightarrow> MemoryManager option" where
  "gpu_call op s = (if has_rasterizer s then Some (host_call op s) else None)"

definition GetTotalDirectSize :: "MemoryManager \<Rightarrow> u64" where
  "GetTotalDirectSize s = total_direct_size s"

definition GetTotalFlexibleSize :: "MemoryManager \<Rightarrow> u64" where
  "GetTotalFlexibleSize s = total_flexible_size s"

definition GetAvailableFlexibleSize :: "MemoryManager \<Rightarrow> u64" where
  "GetAvailableFlexibleSize s = total_flexible_size s - flexible_usage s"

definition SetRasterizer :: "bool \<Rightarrow> MemoryManager \<Rightarrow> MemoryManager" where
  "SetRasterizer r s = s\<lparr>has_rasterizer := r\<rparr>"

definition PrtArea_Overlaps :: "PrtArea \<Rightarrow> u64 \<Rightarrow> u64 \<Rightarrow> bool" where
  "PrtArea_Overlaps a test_address test_size \<longleftrightarrow>
     (let overlap_end = test_address + test_size
      in prt_start a < overlap_end \<and> test_address < prt_end a)"

subsection \<open>The mapping generation\<close>

text \<open>
  \<^verbatim>\<open>MemoryMapGeneration\<close>: a mutation counts up when it begins and when it finishes, so
  the counter is odd exactly while the maps are being changed.
\<close>

definition BeginMutation :: "MemoryManager \<Rightarrow> MemoryManager" where
  "BeginMutation s = s\<lparr>mapping_generation := mapping_generation s + 1\<rparr>"

definition FinishMutation :: "MemoryManager \<Rightarrow> MemoryManager" where
  "FinishMutation s = s\<lparr>mapping_generation := mapping_generation s + 1\<rparr>"

definition MappingGeneration :: "MemoryManager \<Rightarrow> u64" where
  "MappingGeneration s = mapping_generation s"

subsection \<open>Set-up\<close>

text \<open>
  \<open>pages\<close> and \<open>page_size\<close> are what \<^verbatim>\<open>sysconf\<close> answers, \<open>extra_mbytes\<close> is the user's
  setting.
\<close>

definition GetTotalGuestMemoryBytes :: "s64 \<Rightarrow> s64 \<Rightarrow> u64 \<Rightarrow> u64" where
  "GetTotalGuestMemoryBytes pages page_size extra_mbytes =
     (let mobile_headroom = MB 512;
          min_budget = GB 4;
          max_budget = ORBIS_KERNEL_TOTAL_MEM_DEV_PRO + ORBIS_KERNEL_FLEXIBLE_MEMORY_SIZE;
          budget = max_budget;
          budget = (if sint pages > 0 \<and> sint page_size > 0
                    then let host_ram = pages * page_size;
                             usable = (if host_ram > mobile_headroom then host_ram - mobile_headroom
                                       else host_ram div 2)
                         in max min_budget (min usable max_budget)
                    else budget)
      in budget + extra_mbytes * MB 1)"

definition free_vma :: "u64 \<Rightarrow> u64 \<Rightarrow> VirtualMemoryArea" where
  "free_vma addr n = \<lparr>vma_base = addr, vma_size = n, vma_phys_areas = [], vma_type = VMA_Free,
     vma_prot = Prot_NoAccess, vma_name = '''', vma_fd = 0, vma_disallow_merge = False\<rparr>"

definition free_area :: "u64 \<Rightarrow> u64 \<Rightarrow> PhysicalMemoryArea" where
  "free_area addr n = \<lparr>pa_base = addr, pa_size = n, pa_memory_type = 0, pa_dma_type = Phys_Free\<rparr>"

text \<open>
  The constructor, given the usable regions (lower and upper bound) and the bounds of the
  address space, the total of guest memory and the SDK version.
\<close>

definition MemoryManager_init :: "(u64 \<times> u64) list \<Rightarrow> u64 \<Rightarrow> s32 \<Rightarrow> u64 \<Rightarrow> u64 \<Rightarrow> u64 \<Rightarrow> MemoryManager"
  where
  "MemoryManager_init regions total_size sdk sys_base user_base user_size =
     (let direct_size = total_size - ORBIS_KERNEL_FLEXIBLE_MEMORY_SIZE
      in \<lparr>dmem_map = sm_emplace [] 0 (free_area 0 direct_size),
          fmem_map = sm_emplace [] direct_size
            (free_area direct_size ORBIS_KERNEL_FLEXIBLE_MEMORY_SIZE),
          vma_map = fold (\<lambda>r m. sm_emplace m (fst r) (free_vma (fst r) (snd r - fst r))) regions [],
          total_direct_size = direct_size,
          total_flexible_size = ORBIS_KERNEL_FLEXIBLE_MEMORY_SIZE,
          flexible_usage = 0, pool_budget = 0, sdk_version = sdk, mapping_generation = 0,
          prt_areas = replicate 3 \<lparr>prt_start = 0, prt_end = 0, prt_mapped = False\<rparr>,
          has_rasterizer = False, SystemManagedVirtualBase = sys_base,
          UserVirtualBase = user_base, UserVirtualSize = user_size, host_trace = []\<rparr>)"

definition SetupMemoryRegions :: "u64 \<Rightarrow> u64 \<Rightarrow> MemoryManager \<Rightarrow> MemoryManager option" where
  "SetupMemoryRegions total_size flexible_size s =
     do {
       let s = s\<lparr>total_flexible_size := flexible_size - ORBIS_KERNEL_FLEXIBLE_MEMORY_BASE\<rparr>;
       ASSERT (total_flexible_size s \<ge> flexible_usage s);
       let old_direct_size = total_direct_size s;
       let s = s\<lparr>total_direct_size := total_size - flexible_size\<rparr>;
       last_it \<leftarrow> FindPhysArea (dmem_map s) (total_direct_size s);
       last_dmem_area \<leftarrow> sm_get (dmem_map s) last_it;
       ASSERT (pa_dma_type last_dmem_area = Phys_Free \<and>
               pa_size last_dmem_area \<ge> old_direct_size - total_direct_size s);
       Some (s\<lparr>dmem_map := sm_put (dmem_map s) last_it (last_dmem_area\<lparr>pa_size :=
               pa_size last_dmem_area - (old_direct_size - total_direct_size s)\<rparr>)\<rparr>)
     }"

definition SetPrtArea :: "nat \<Rightarrow> u64 \<Rightarrow> u64 \<Rightarrow> MemoryManager \<Rightarrow> MemoryManager option" where
  "SetPrtArea area_id address n s =
     do {
       ASSERT (area_id < length (prt_areas s)); \<comment> \<open>an index out of range is undefined\<close>
       let area = prt_areas s ! area_id;
       s \<leftarrow> (if prt_mapped area
             then gpu_call (Gpu_Unmap (prt_start area) (prt_end area - prt_start area)) s
             else Some s);
       let area = \<lparr>prt_start = address, prt_end = address + n, prt_mapped = True\<rparr>;
       let s = s\<lparr>prt_areas := (prt_areas s)[area_id := area]\<rparr>;
       gpu_call (Gpu_Map address n) s
     }"

subsection \<open>Validity of address ranges\<close>

definition IsValidGpuMapping :: "u64 \<Rightarrow> u64 \<Rightarrow> bool" where
  "IsValidGpuMapping virtual_addr n \<longleftrightarrow> virtual_addr + n < 0x10000000000"

text \<open>The entries from an iterator on, for loops that walk a map without changing it.\<close>

definition sm_from :: "('k::linorder, 'v) stdmap \<Rightarrow> 'k option \<Rightarrow> ('k, 'v) stdmap" where
  "sm_from m it = (case it of None \<Rightarrow> [] | Some k \<Rightarrow> dropWhile (\<lambda>e. fst e < k) m)"

lemma sm_from_mid [simp]:
  assumes "sm_ok (xs @ (k, v) # ys)"
  shows "sm_from (xs @ (k, v) # ys) (Some k) = (k, v) # ys"
proof -
  have "dropWhile (\<lambda>e. fst e < k) (xs @ (k, v) # ys) = (k, v) # ys"
    using assms by (induction xs) (auto simp: sm_ok_simps)
  then show ?thesis by (simp add: sm_from_def)
qed

fun valid_mapping_loop :: "VMAMap \<Rightarrow> u64 \<Rightarrow> u64 \<Rightarrow> bool" where
  "valid_mapping_loop [] addr_to_check size_to_validate = (size_to_validate \<le> 0)"
| "valid_mapping_loop ((k, vma) # rest) addr_to_check size_to_validate =
     (if size_to_validate > 0
      then let offset_in_vma = addr_to_check - vma_base vma;
               size_in_vma = min (vma_size vma - offset_in_vma) size_to_validate;
               size_to_validate = size_to_validate - size_in_vma;
               addr_to_check = addr_to_check + size_in_vma
           in (if size_to_validate > 0 \<and> rest \<noteq> [] \<and> addr_to_check \<noteq> vma_base (snd (hd rest))
               then False
               else valid_mapping_loop rest addr_to_check size_to_validate)
      else size_to_validate \<le> 0)"

definition IsValidMapping :: "MemoryManager \<Rightarrow> u64 \<Rightarrow> u64 \<Rightarrow> bool option" where
  "IsValidMapping s virtual_addr n =
     do {
       end_it \<leftarrow> sm_prev (vma_map s) None;
       last_vma \<leftarrow> sm_get (vma_map s) end_it;
       let end_addr = end_it + vma_size last_vma;
       begin_it \<leftarrow> sm_begin (vma_map s);
       (if virtual_addr < begin_it \<or> virtual_addr \<ge> end_addr then Some False
        else if n = 0 then Some True
        else do {
          vma_handle \<leftarrow> FindVMA (vma_map s) virtual_addr;
          Some (valid_mapping_loop (sm_from (vma_map s) (Some vma_handle)) virtual_addr n)
        })
     }"

text \<open>\<^verbatim>\<open>ASSERT_MSG(IsValidMapping(...))\<close>\<close>

definition assert_valid :: "MemoryManager \<Rightarrow> u64 \<Rightarrow> u64 \<Rightarrow> unit option" where
  "assert_valid s virtual_addr n = do { v \<leftarrow> IsValidMapping s virtual_addr n; ASSERT v }"

fun clamp_loop :: "VMAMap \<Rightarrow> u64 \<Rightarrow> u64 \<Rightarrow> u64" where
  "clamp_loop [] clamped_size n = clamped_size"
| "clamp_loop ((k, vma) # rest) clamped_size n =
     (if VMA_IsMapped vma \<and> clamped_size < n then clamp_loop rest (clamped_size + vma_size vma) n
      else clamped_size)"

definition ClampRangeSize :: "MemoryManager \<Rightarrow> u64 \<Rightarrow> u64 \<Rightarrow> u64 option" where
  "ClampRangeSize s virtual_addr n =
     (if n < GB 1 then Some n
      else do {
        assert_valid s virtual_addr 0;
        it \<leftarrow> FindVMA (vma_map s) virtual_addr;
        vma \<leftarrow> sm_get (vma_map s) it;
        let clamped_size = vma_base vma + vma_size vma - virtual_addr;
        let clamped_size = clamp_loop (sm_from (vma_map s) (sm_next (vma_map s) it)) clamped_size n;
        Some (min clamped_size n)
      })"

subsection \<open>The invariant\<close>

text \<open>
  The highest address a map may reach.  Every end of an area is then a 64-bit value that
  did not wrap.
\<close>

definition addr_max :: nat where
  "addr_max = 2 ^ 64 - 1"

lemma addr_max_less [simp]: "addr_max < 2 ^ 64" "addr_max < 18446744073709551616"
  by (simp_all add: addr_max_def)

text \<open>
  Direct memory is laid out over exactly \<open>[0, total_direct_size)\<close>; flexible and virtual
  memory are laid out without overlap.
\<close>

definition covers :: "PhysMap \<Rightarrow> nat \<Rightarrow> nat \<Rightarrow> bool" where
  "covers m lo hi \<longleftrightarrow> phys_laid lo m hi \<and> dom (phys_cells m) = {lo..<hi}"

definition mm_inv :: "MemoryManager \<Rightarrow> bool" where
  "mm_inv s \<longleftrightarrow>
     0 < unat (total_direct_size s) \<and> unat (total_direct_size s) \<le> addr_max \<and>
     covers (dmem_map s) 0 (unat (total_direct_size s)) \<and>
     phys_laid 0 (fmem_map s) addr_max \<and>
     vma_laid 0 (vma_map s) addr_max \<and> vma_map s \<noteq> []"

subsection \<open>What the validity check means\<close>

lemma valid_mapping_loop_0 [simp]: "valid_mapping_loop m addr 0"
  by (cases m) auto

lemma valid_mapping_loop_done:
  assumes "vma_base v = k" "n \<le> vma_size v - (addr - k)"
  shows "valid_mapping_loop ((k, v) # rest) addr n"
proof -
  have "min (vma_size v - (addr - k)) n = n" using assms(2) by (rule min.absorb2)
  with assms(1) show ?thesis by (simp add: Let_def word_gt_0)
qed

text \<open>
  From the area around the address on, the loop answers whether every address of the range
  belongs to some area.
\<close>

lemma valid_mapping_loop_covered:
  assumes "vma_laid lo m hi" "hi < 2 ^ 64" "m \<noteq> []"
    and "unat (vma_base (snd (hd m))) \<le> unat addr"
      "unat addr < unat (vma_base (snd (hd m))) + unat (vma_size (snd (hd m)))"
  shows "valid_mapping_loop m addr n \<longleftrightarrow>
    {unat addr..<unat addr + unat n} \<subseteq> dom (vma_cells m)"
  using assms
proof (induction m arbitrary: lo addr n)
  case (Cons e rest)
  obtain k v where e: "e = (k, v)" by fastforce
  have l0: "vma_laid lo ((k, v) # rest) hi" using Cons.prems(1) unfolding e .
  have mem: "lo \<le> unat k \<and> 0 < unat (vma_size v) \<and> vma_wf k v \<and> unat k + unat (vma_size v) \<le> hi"
    by (rule laid_mem [OF l0]) simp
  then have b: "vma_base v = k" and kv: "unat k + unat (vma_size v) < 2 ^ 64"
    using Cons.prems(2) by (simp_all add: vma_wf_def)
  have l: "vma_laid (unat k + unat (vma_size v)) rest hi" using l0 by simp
  let ?D = "dom (vma_cells rest)" and ?fin = "unat k + unat (vma_size v)"
  let ?left = "vma_size v - (addr - k)"
  have a: "unat k \<le> unat addr" "unat addr < ?fin" using Cons.prems(4,5) unfolding e by (simp_all add: b)
  have D: "?D \<subseteq> {?fin..<hi}" using l by (rule dom_cell_bounds)
  have dom: "dom (vma_cells (e # rest)) = {unat k..<?fin} \<union> ?D"
    unfolding e by (rule dom_cell_Cons)
  have left: "unat ?left = ?fin - unat addr" using a by (simp add: nowrap)
  show ?case
  proof (cases "unat n \<le> unat ?left")
    case True
    then have "valid_mapping_loop (e # rest) addr n"
      unfolding e using b by (intro valid_mapping_loop_done) (simp_all add: word_le_nat_alt)
    moreover have "{unat addr..<unat addr + unat n} \<subseteq> {unat k..<?fin}" using True left a by auto
    ultimately show ?thesis unfolding dom by blast
  next
    case False
    then have "?left \<le> n" by (simp only: word_le_nat_alt not_le)
    then have m: "min ?left n = ?left" by (rule min.absorb1)
    have n': "unat (n - ?left) = unat n - unat ?left" using False by (simp add: nowrap)
    have addr': "addr + ?left = k + vma_size v" by simp
    have ua: "unat (addr + ?left) = ?fin" unfolding addr' using kv by (simp add: nowrap)
    have pos: "n > 0" "n - ?left > 0" using False n' by (auto simp: word_less_nat_alt)
    have step: "valid_mapping_loop (e # rest) addr n \<longleftrightarrow>
        (rest = [] \<or> addr + ?left = vma_base (snd (hd rest))) \<and>
        valid_mapping_loop rest (addr + ?left) (n - ?left)"
      using e b m pos by (auto simp: Let_def)
    have split: "{unat addr..<unat addr + unat n} \<subseteq> dom (vma_cells (e # rest)) \<longleftrightarrow>
        {?fin..<?fin + unat (n - ?left)} \<subseteq> ?D" (is "?L \<longleftrightarrow> ?R")
    proof -
      have "{unat addr..<unat addr + unat n} = {unat addr..<?fin} \<union> {?fin..<?fin + unat (n - ?left)}"
        using left n' False a by auto
      moreover have "{unat addr..<?fin} \<subseteq> {unat k..<?fin}" using a by auto
      moreover have "{?fin..<?fin + unat (n - ?left)} \<inter> {unat k..<?fin} = {}" by auto
      ultimately show ?thesis unfolding dom by blast
    qed
    have first: "?fin \<in> {?fin..<?fin + unat (n - ?left)}" using n' False by simp
    show ?thesis
    proof (cases rest)
      case Nil
      have "?D = {}" unfolding Nil by (rule dom_cell_Nil)
      with first Nil pos show ?thesis unfolding step split by auto
    next
      case (Cons e' rest')
      obtain k' v' where e': "e' = (k', v')" by fastforce
      have l': "vma_laid ?fin ((k', v') # rest') hi" using l Cons e' by simp
      have b': "vma_base v' = k'" "0 < unat (vma_size v')"
        using laid_mem [OF l', of k' v'] by (auto simp: vma_wf_def)
      show ?thesis
      proof (cases "addr + ?left = k'")
        case True
        then have "valid_mapping_loop rest (addr + ?left) (n - ?left) \<longleftrightarrow>
            {unat (addr + ?left)..<unat (addr + ?left) + unat (n - ?left)} \<subseteq> ?D"
          using Cons e' b' Cons.prems(2) by (intro Cons.IH [OF l]) auto
        with True show ?thesis unfolding step split ua using Cons e' b' by auto
      next
        case False
        have "?fin \<le> unat k'" using l' by simp
        moreover have "?fin \<noteq> unat k'" using False ua word_unat_eq_iff by metis
        ultimately have "?D \<subseteq> {Suc ?fin..<hi}"
          unfolding Cons e' using l' by (intro dom_cell_bounds [of vma_size vma_wf]) auto
        then have "?fin \<notin> ?D" by (meson atLeastLessThan_iff not_less_eq_eq order_refl subsetD)
        with first have "\<not> {?fin..<?fin + unat (n - ?left)} \<subseteq> ?D" by (meson subsetD)
        with False show ?thesis unfolding step split using Cons e' b' by simp
      qed
    qed
  qed
qed simp

lemma hd_key_bounds:
  assumes "vma_laid 0 m hi" "m \<noteq> []" "p \<in> dom (vma_cells m)"
  shows "\<exists>b l e. sm_begin m = Some b \<and> sm_prev m None = Some l \<and> sm_get m l = Some e \<and>
    unat b \<le> p \<and> p < unat l + unat (vma_size e) \<and> unat l + unat (vma_size e) \<le> hi"
proof -
  note ok = laid_sm_ok [OF assms(1)]
  obtain xs l e where m: "m = xs @ [(l, e)]" using assms(2) by (metis rev_exhaust surj_pair)
  obtain b v ys where m': "m = (b, v) # ys" using assms(2) by (metis list.exhaust surj_pair)
  have g: "sm_prev m None = Some l" "sm_get m l = Some e"
    using ok unfolding m by (simp_all add: sm_prev_def)
  have "unat l + unat (vma_size e) \<le> hi" using laid_mem [OF assms(1), of l e] m by simp
  moreover have "vma_laid 0 (xs @ [(l, e)]) (unat l + unat (vma_size e))"
    using assms(1) m by (simp add: laid_append)
  then have "p < unat l + unat (vma_size e)"
    using dom_cell_bounds assms(3) unfolding m by (meson atLeastLessThan_iff subsetD)
  moreover have "vma_laid (unat b) ((b, v) # ys) hi" using assms(1) m' by simp
  then have "unat b \<le> p"
    using dom_cell_bounds assms(3) unfolding m' by (meson atLeastLessThan_iff subsetD)
  ultimately show ?thesis using g m' by simp
qed

lemma FindVMA_from:
  assumes "vma_laid 0 m hi" "unat addr \<in> dom (vma_cells m)"
  obtains xs k v ys where "m = xs @ (k, v) # ys" "FindVMA m addr = Some k" "sm_get m k = Some v"
    "sm_from m (Some k) = (k, v) # ys" "vma_base v = k" "unat k \<le> unat addr"
    "unat addr < unat k + unat (vma_size v)" "vma_laid 0 xs (unat k)" "vma_laid (unat k) ((k, v) # ys) hi"
proof -
  from assms(2) obtain c where "vma_cells m (unat addr) = Some c" by blast
  then obtain xs k v ys where m: "m = xs @ (k, v) # ys" and b: "unat k \<le> unat addr"
    "unat addr < unat k + unat (vma_size v)" by (rule cell_split)
  note l = assms(1) [unfolded m]
  have "vma_laid 0 xs (unat k)" "vma_laid (unat k) ((k, v) # ys) hi" "vma_base v = k"
    using l by (auto simp: laid_append vma_wf_def)
  with m b laid_floor [OF l b] laid_sm_ok [OF l] show thesis
    by (intro that [of xs k v ys]) (auto simp: FindVMA_def)
qed

text \<open>
  C8: \<^verbatim>\<open>IsValidMapping\<close> on an address that belongs to an area answers exactly whether every
  address of the range belongs to some area.
\<close>

theorem IsValidMapping_iff:
  assumes inv: "mm_inv s" and a: "unat addr \<in> dom (vma_cells (vma_map s))"
  shows "IsValidMapping s addr n =
    Some ({unat addr..<unat addr + unat n} \<subseteq> dom (vma_cells (vma_map s)))"
proof -
  have l: "vma_laid 0 (vma_map s) addr_max" and ne: "vma_map s \<noteq> []"
    using inv by (auto simp: mm_inv_def)
  obtain b e le where be: "sm_begin (vma_map s) = Some b" "sm_prev (vma_map s) None = Some e"
    "sm_get (vma_map s) e = Some le" "unat b \<le> unat addr" "unat addr < unat e + unat (vma_size le)"
    "unat e + unat (vma_size le) \<le> addr_max" using hd_key_bounds [OF l ne a] by blast
  have "unat (e + vma_size le) = unat e + unat (vma_size le)"
    using be(6) addr_max_less(1) by (intro unat_add64) linarith
  then have out: "\<not> (addr < b \<or> addr \<ge> e + vma_size le)"
    using be by (simp add: word_le_nat_alt word_less_nat_alt)
  obtain xs k v ys where f: "vma_map s = xs @ (k, v) # ys" "FindVMA (vma_map s) addr = Some k"
    "sm_from (vma_map s) (Some k) = (k, v) # ys" "vma_base v = k" "unat k \<le> unat addr"
    "unat addr < unat k + unat (vma_size v)" "vma_laid 0 xs (unat k)"
    "vma_laid (unat k) ((k, v) # ys) addr_max" by (rule FindVMA_from [OF l a])
  have vl: "valid_mapping_loop ((k, v) # ys) addr n \<longleftrightarrow>
      {unat addr..<unat addr + unat n} \<subseteq> dom (vma_cells ((k, v) # ys))"
    by (rule valid_mapping_loop_covered [OF f(8)]) (simp_all add: f(4,5,6))
  have "p \<in> dom (vma_cells (vma_map s)) \<longleftrightarrow> p \<in> dom (vma_cells ((k, v) # ys))" if "unat k \<le> p" for p
    using cell_None [OF f(7), of p vma_ct] that unfolding f(1) dom_def by (simp add: cell_append)
  then have "p \<in> dom (vma_cells (vma_map s)) \<longleftrightarrow> p \<in> dom (vma_cells ((k, v) # ys))"
    if "p \<in> {unat addr..<unat addr + unat n}" for p
    using f(5) that by (meson atLeastLessThan_iff le_trans)
  then have eq: "{unat addr..<unat addr + unat n} \<subseteq> dom (vma_cells (vma_map s)) \<longleftrightarrow>
      {unat addr..<unat addr + unat n} \<subseteq> dom (vma_cells ((k, v) # ys))"
    unfolding subset_iff by blast
  show ?thesis
  proof (cases "n = 0")
    case True
    then show ?thesis using be out by (simp add: IsValidMapping_def)
  next
    case False
    have "IsValidMapping s addr n = Some (valid_mapping_loop ((k, v) # ys) addr n)"
      using False be(1-3) out f(2,3) by (simp add: IsValidMapping_def)
    then show ?thesis unfolding vl eq .
  qed
qed

subsection \<open>The state after construction\<close>

text \<open>
  Usable regions as the address space lists them: in order, not empty and not overlapping.
\<close>

fun regions_ok :: "nat \<Rightarrow> (u64 \<times> u64) list \<Rightarrow> nat \<Rightarrow> bool" where
  "regions_ok lo [] hi \<longleftrightarrow> lo \<le> hi"
| "regions_ok lo (r # rs) hi \<longleftrightarrow> lo \<le> unat (fst r) \<and> fst r < snd r \<and> regions_ok (unat (snd r)) rs hi"

lemma regions_ok_mem:
  "regions_ok lo rs hi \<Longrightarrow> r \<in> set rs \<Longrightarrow> lo \<le> unat (fst r)"
  by (induction lo rs hi rule: regions_ok.induct) (fastforce simp: word_less_nat_alt)+

lemma init_vmas:
  assumes "regions_ok lo rs hi" "\<forall>e\<in>set m. unat (fst e) < lo"
  shows "fold (\<lambda>r m. sm_emplace m (fst r) (free_vma (fst r) (snd r - fst r))) rs m =
    m @ map (\<lambda>r. (fst r, free_vma (fst r) (snd r - fst r))) rs"
  using assms
proof (induction lo rs hi arbitrary: m rule: regions_ok.induct)
  case (2 lo r rs hi)
  then have lt: "\<forall>e\<in>set m. fst e < fst r" by (auto simp: word_less_nat_alt)
  then have "sm_get m (fst r) = None" unfolding sm_get_def map_of_eq_None_iff by force
  with lt have e: "sm_emplace m (fst r) v = m @ [(fst r, v)]" for v
    by (simp add: sm_emplace_def sm_put_last)
  have "\<forall>e\<in>set (m @ [(fst r, v)]). unat (fst e) < unat (snd r)" for v
    using 2 by (auto simp: word_less_nat_alt)
  with 2 e show ?case by simp
qed simp

lemma init_vmas_laid:
  "regions_ok lo rs hi \<Longrightarrow> vma_laid lo (map (\<lambda>r. (fst r, free_vma (fst r) (snd r - fst r))) rs) hi"
proof (induction lo rs hi rule: regions_ok.induct)
  case (2 lo r rs hi)
  then have "unat (snd r - fst r) = unat (snd r) - unat (fst r)" "unat (fst r) < unat (snd r)"
    by (simp_all add: nowrap word_less_nat_alt)
  with 2 show ?case by (auto simp: vma_wf_def free_vma_def HasPhysicalBacking_def)
qed simp

text \<open>
  The constructor establishes the invariant, for usable regions that are in order and do not
  overlap and for more guest memory than the flexible memory takes.
\<close>

theorem MemoryManager_init_inv:
  assumes "regions_ok 0 regions addr_max" "regions \<noteq> []"
    and "unat ORBIS_KERNEL_FLEXIBLE_MEMORY_SIZE < unat total_size"
  shows "mm_inv (MemoryManager_init regions total_size sdk sys_base user_base user_size)"
proof -
  let ?d = "total_size - ORBIS_KERNEL_FLEXIBLE_MEMORY_SIZE" and ?f = ORBIS_KERNEL_FLEXIBLE_MEMORY_SIZE
  have d: "unat ?d = unat total_size - unat ?f" using assms(3) by (simp add: nowrap)
  have f: "0 < unat ?f" by (simp add: ORBIS_KERNEL_FLEXIBLE_MEMORY_SIZE_def size_literal_defs)
  have le: "unat total_size \<le> addr_max"
    using unat_lt64 [of total_size] by (simp add: addr_max_def)
  have "vma_laid 0 (map (\<lambda>r. (fst r, free_vma (fst r) (snd r - fst r))) regions) addr_max"
    using assms(1) by (rule init_vmas_laid)
  moreover have "covers [(0, free_area 0 ?d)] 0 (unat ?d)"
    using assms(3) d by (auto simp: covers_def free_area_def phys_wf_def split: if_splits)
  moreover have "phys_laid 0 [(?d, free_area ?d ?f)] addr_max"
    using d f le assms(3) by (simp add: free_area_def phys_wf_def)
  moreover have "0 < unat ?d" "unat ?d \<le> addr_max" using d assms(3) le by linarith+
  ultimately show ?thesis
    using init_vmas [OF assms(1), of "[]"] assms(2)
    by (simp add: mm_inv_def MemoryManager_init_def Let_def sm_emplace_def sm_get_def)
qed

text \<open>A small instance: 16 MB of direct memory and two usable regions with a gap between them.\<close>

definition demo_mm :: MemoryManager where
  "demo_mm = SetRasterizer True (MemoryManager_init
     [(0x400000, 0x1000000), (0x2000000, 0x6000000)] 0x21000000 0x2000000 0x400000 0x2000000 0x4000000)"

lemma demo_mm_fields [simp]:
  "dmem_map demo_mm = [(0, free_area 0 0x1000000)]"
  "fmem_map demo_mm = [(0x1000000, free_area 0x1000000 0x20000000)]"
  "vma_map demo_mm = [(0x400000, free_vma 0x400000 0xC00000), (0x2000000, free_vma 0x2000000 0x4000000)]"
  "total_direct_size demo_mm = 0x1000000" "total_flexible_size demo_mm = 0x20000000"
  "flexible_usage demo_mm = 0" "pool_budget demo_mm = 0" "sdk_version demo_mm = 0x2000000"
  "mapping_generation demo_mm = 0" "has_rasterizer demo_mm" "SystemManagedVirtualBase demo_mm = 0x400000"
  "UserVirtualBase demo_mm = 0x2000000" "UserVirtualSize demo_mm = 0x4000000" "host_trace demo_mm = []"
  by (simp_all add: demo_mm_def SetRasterizer_def MemoryManager_init_def Let_def sm_emplace_def
      sm_get_def ORBIS_KERNEL_FLEXIBLE_MEMORY_SIZE_def size_literal_defs)

lemma mm_inv_SetRasterizer [simp]: "mm_inv (SetRasterizer r s) = mm_inv s"
  by (simp add: mm_inv_def SetRasterizer_def)

lemma MemoryManager_init_inv_witness:
  "mm_inv (MemoryManager_init
     [(0x400000, 0x1000000), (0x2000000, 0x6000000)] 0x21000000 0x2000000 0x400000 0x2000000 0x4000000)"
  by (rule MemoryManager_init_inv)
     (simp_all add: ORBIS_KERNEL_FLEXIBLE_MEMORY_SIZE_def size_literal_defs addr_max_def)

lemma demo_inv: "mm_inv demo_mm"
proof -
  have "dom (phys_cells (dmem_map demo_mm)) = {0..<0x1000000}"
    by (simp add: dom_cell_Cons dom_cell_Nil free_area_def del: cell.simps)
  then show ?thesis
    by (simp add: mm_inv_def covers_def addr_max_def free_area_def free_vma_def phys_wf_def vma_wf_def
        HasPhysicalBacking_def)
qed

lemma demo_vma_dom: "dom (vma_cells (vma_map demo_mm)) = {0x400000..<0x1000000} \<union> {0x2000000..<0x6000000}"
  by (simp add: dom_cell_Cons dom_cell_Nil free_vma_def del: cell.simps)

lemma IsValidMapping_iff_witness:
  "IsValidMapping demo_mm 0x500000 0x10000 = Some True \<and> IsValidMapping demo_mm 0x500000 0x1000000 = Some False"
  using IsValidMapping_iff [OF demo_inv, of "0x500000" "0x10000"] IsValidMapping_iff [OF demo_inv, of "0x500000" "0x1000000"]
  unfolding demo_vma_dom by (auto simp: subset_iff intro!: exI [of _ 16777216])

text \<open>
  An address strictly inside a gap between two areas is outside every area, yet the range
  check accepts it: the offset in the area below exceeds its size, and the difference wraps
  around.
\<close>

theorem IsValidMapping_gap:
  assumes inv: "mm_inv s" and m: "vma_map s = xs @ (k, v) # (k', v') # ys"
    and a: "unat k + unat (vma_size v) < unat addr" "unat addr < unat k'"
    and n: "unat addr + unat n \<le> 2 ^ 64"
  shows "unat addr \<notin> dom (vma_cells (vma_map s)) \<and> IsValidMapping s addr n = Some True"
proof -
  have l: "vma_laid 0 (vma_map s) addr_max" and ne: "vma_map s \<noteq> []"
    using inv by (auto simp: mm_inv_def)
  note l1 = l [unfolded m]
  have v: "vma_base v = k" and sv: "0 < unat (vma_size v)" and sv': "0 < unat (vma_size v')"
    and lx: "vma_laid 0 xs (unat k)" and ly: "vma_laid (unat k') ((k', v') # ys) addr_max"
    using l1 by (auto simp: laid_append vma_wf_def)
  have l2: "vma_laid 0 ((xs @ [(k, v)]) @ (k', v') # ys) addr_max" using l1 by simp
  have in_dom: "unat k \<in> dom (vma_cells (vma_map s))" "unat k' \<in> dom (vma_cells (vma_map s))"
    using cell_mid [OF l1, of "unat k"] cell_mid [OF l2, of "unat k'"] sv sv' unfolding m by auto
  obtain b where b: "sm_begin (vma_map s) = Some b" "unat b \<le> unat k"
    using hd_key_bounds [OF l ne in_dom(1)] by blast
  obtain e le where e: "sm_prev (vma_map s) None = Some e" "sm_get (vma_map s) e = Some le"
    "unat k' < unat e + unat (vma_size le)" "unat e + unat (vma_size le) \<le> addr_max"
    using hd_key_bounds [OF l ne in_dom(2)] by blast
  have "unat (e + vma_size le) = unat e + unat (vma_size le)"
    using e(4) addr_max_less(1) by (intro unat_add64) linarith
  then have out: "\<not> (addr < b \<or> addr \<ge> e + vma_size le)"
    using b e a by (simp add: word_le_nat_alt word_less_nat_alt)
  note ok = laid_sm_ok [OF l1]
  have "\<forall>y\<in>set ((k', v') # ys). addr < fst y"
    using laid_mem [OF ly] a(2) by (fastforce simp: word_less_nat_alt)
  then have f: "FindVMA (vma_map s) addr = Some k"
    using a(1) ok unfolding m FindVMA_def by (intro sm_floor_mid) (auto simp: word_le_nat_alt)
  have fr: "sm_from (vma_map s) (Some k) = (k, v) # (k', v') # ys" using ok unfolding m by simp
  have off: "unat (addr - k) = unat addr - unat k" using a by (intro unat_sub_nowrap) linarith
  have "unat (vma_size v - (addr - k)) = 2 ^ 64 + unat (vma_size v) - unat (addr - k)"
    using off a by (subst unat_sub_if_size) (simp add: word_size, arith)
  then have le: "n \<le> vma_size v - (addr - k)" using off n a by (simp add: word_le_nat_alt)
  have "vma_cells (vma_map s) (unat addr) = None"
    using a cell_None [OF lx, of "unat addr" vma_ct] cell_None [OF ly, of "unat addr" vma_ct]
    unfolding m by (simp add: cell_append)
  then have "unat addr \<notin> dom (vma_cells (vma_map s))" by (simp add: dom_def)
  moreover have "valid_mapping_loop ((k, v) # (k', v') # ys) addr n"
    using v le by (intro valid_mapping_loop_done) auto
  with b(1) e(1,2) out f have "IsValidMapping s addr n = Some True"
    unfolding IsValidMapping_def by (simp only: fr Option.bind_lunit Let_def if_False if_cancel split: if_split)
  ultimately show ?thesis by simp
qed

lemma IsValidMapping_gap_witness:
  "unat (0x1800000 :: u64) \<notin> dom (vma_cells (vma_map demo_mm)) \<and>
   IsValidMapping demo_mm 0x1800000 0x1000 = Some True"
  by (rule IsValidMapping_gap [OF demo_inv, where xs = "[]" and ys = "[]"]) (auto simp: free_vma_def)

end
