(* ===== verification/Direct_Memory.thy ===== *)
theory Direct_Memory
  imports Memory_State
begin

section \<open>Direct memory\<close>

text \<open>
  The operations of \<^verbatim>\<open>MemoryManager\<close> that work on the direct memory map alone:
  allocation (\<^verbatim>\<open>Allocate\<close>, \<^verbatim>\<open>PoolExpand\<close>) and the queries.  Allocation is compared with
  its specification, the least aligned address at which one free area has room.
\<close>

subsection \<open>Operations\<close>

text \<open>
  The search of \<^verbatim>\<open>Allocate\<close> and \<^verbatim>\<open>PoolExpand\<close> over the areas from an iterator on.  The
  value \<open>Some None\<close> is the loop that runs into \<^verbatim>\<open>end()\<close>.
\<close>

fun find_free_dmem :: "PhysMap \<Rightarrow> u64 \<Rightarrow> u64 \<Rightarrow> u64 \<Rightarrow> (u64 \<times> u64) option option" where
  "find_free_dmem [] mapping_start n alignment = Some None"
| "find_free_dmem ((it, area) # rest) mapping_start n alignment =
     (let mapping_end = mapping_start + n in
      if pa_dma_type area \<noteq> Phys_Free \<or> GetEnd area < mapping_end
      then (if rest = [] then Some None
            else do {
              mapping_start \<leftarrow> AlignUp (pa_base (snd (hd rest))) alignment;
              find_free_dmem rest mapping_start n alignment
            })
      else Some (Some (it, mapping_start)))"

definition PoolExpand :: "MemoryManager \<Rightarrow> u64 \<Rightarrow> u64 \<Rightarrow> u64 \<Rightarrow> u64 \<Rightarrow> (u64 \<times> MemoryManager) option"
  where
  "PoolExpand s search_start search_end n alignment =
     do {
       let alignment = (if alignment > 0 then alignment else KB 64);
       dmem_area \<leftarrow> FindPhysArea (dmem_map s) search_start;
       area \<leftarrow> sm_get (dmem_map s) dmem_area;
       mapping_start \<leftarrow> (if search_start > pa_base area then AlignUp search_start alignment
                         else AlignUp (pa_base area) alignment);
       found \<leftarrow> find_free_dmem (sm_from (dmem_map s) (Some dmem_area)) mapping_start n alignment;
       (case found of
          None \<Rightarrow> Some (- 1, s)
        | Some (dmem_area, mapping_start) \<Rightarrow>
            do {
              (m, h) \<leftarrow> CarvePhysArea (dmem_map s) mapping_start n;
              area \<leftarrow> sm_get m h;
              let m = sm_put m h (area\<lparr>pa_dma_type := Phys_Pooled, pa_memory_type := 3\<rparr>);
              Some (mapping_start, s\<lparr>dmem_map := m, pool_budget := pool_budget s + n\<rparr>)
            })
     }"

text \<open>The areas are joined at the iterator of the search, not at the carved area.\<close>

definition Allocate :: "MemoryManager \<Rightarrow> u64 \<Rightarrow> u64 \<Rightarrow> u64 \<Rightarrow> u64 \<Rightarrow> s32
    \<Rightarrow> (u64 \<times> MemoryManager) option" where
  "Allocate s search_start search_end n alignment memory_type =
     do {
       let alignment = (if alignment > 0 then alignment else KB 16);
       dmem_area \<leftarrow> FindPhysArea (dmem_map s) search_start;
       area \<leftarrow> sm_get (dmem_map s) dmem_area;
       mapping_start \<leftarrow> AlignUp (max search_start (pa_base area)) alignment;
       found \<leftarrow> find_free_dmem (sm_from (dmem_map s) (Some dmem_area)) mapping_start n alignment;
       (case found of
          None \<Rightarrow> Some (- 1, s)
        | Some (dmem_area, mapping_start) \<Rightarrow>
            (if mapping_start + n > search_end then Some (- 1, s)
             else do {
               (m, h) \<leftarrow> CarvePhysArea (dmem_map s) mapping_start n;
               area \<leftarrow> sm_get m h;
               let m = sm_put m h (area\<lparr>pa_memory_type := memory_type,
                                        pa_dma_type := Phys_Allocated\<rparr>);
               (m, _) \<leftarrow> Phys_MergeAdjacent m dmem_area;
               Some (mapping_start, s\<lparr>dmem_map := m\<rparr>)
             }))
     }"

record OrbisQueryInfo =
  qi_start :: u64
  qi_end :: u64
  qi_memoryType :: s32

fun skip_free_dmem :: "PhysMap \<Rightarrow> bool \<Rightarrow> PhysMap" where
  "skip_free_dmem [] find_next = []"
| "skip_free_dmem ((it, area) # rest) find_next =
     (if pa_dma_type area = Phys_Free \<and> find_next then skip_free_dmem rest find_next
      else (it, area) # rest)"

fun query_end_loop :: "PhysMap \<Rightarrow> OrbisQueryInfo \<Rightarrow> OrbisQueryInfo" where
  "query_end_loop [] info = info"
| "query_end_loop ((it, area) # rest) info =
     (if pa_memory_type area = qi_memoryType info \<and>
         (pa_dma_type area = Phys_Mapped \<or> pa_dma_type area = Phys_Allocated)
      then query_end_loop rest (info\<lparr>qi_end := GetEnd area\<rparr>)
      else info)"

definition DirectMemoryQuery :: "MemoryManager \<Rightarrow> u64 \<Rightarrow> bool \<Rightarrow> OrbisQueryInfo
    \<Rightarrow> (s32 \<times> OrbisQueryInfo) option" where
  "DirectMemoryQuery s addr find_next out_info =
     (if addr \<ge> total_direct_size s then Some (ORBIS_KERNEL_ERROR_EACCES, out_info)
      else do {
        dmem_area \<leftarrow> FindPhysArea (dmem_map s) addr;
        let rest = skip_free_dmem (sm_from (dmem_map s) (Some dmem_area)) find_next;
        (case rest of
           [] \<Rightarrow> Some (ORBIS_KERNEL_ERROR_EACCES, out_info)
         | (it, area) # _ \<Rightarrow>
             (if pa_dma_type area = Phys_Free then Some (ORBIS_KERNEL_ERROR_EACCES, out_info)
              else Some (ORBIS_OK, query_end_loop rest
                (out_info\<lparr>qi_start := pa_base area, qi_memoryType := pa_memory_type area\<rparr>))))
      })"

text \<open>What one free area offers a query: the aligned base and the size left in the range.\<close>

definition available_in :: "PhysicalMemoryArea \<Rightarrow> u64 \<Rightarrow> u64 \<Rightarrow> u64 \<Rightarrow> (u64 \<times> u64) option" where
  "available_in area search_start search_end alignment =
     do {
       aligned_base \<leftarrow> (if alignment > 0 then AlignUp (pa_base area) alignment
                        else Some (pa_base area));
       let alignment_size = aligned_base - pa_base area;
       let remaining_size = (if pa_size area \<ge> alignment_size then pa_size area - alignment_size
                             else 0);
       (aligned_base, remaining_size) \<leftarrow>
         (if pa_base area < search_start
          then do {
            let remaining_size = (if remaining_size > search_start - pa_base area
                                  then remaining_size - (search_start - pa_base area) else 0);
            aligned_base \<leftarrow> (if alignment > 0 then AlignUp search_start alignment
                             else Some search_start);
            Some (aligned_base, remaining_size)
          }
          else Some (aligned_base, remaining_size));
       let remaining_size = (if GetEnd area > search_end
                             then (if remaining_size > GetEnd area - search_end
                                   then remaining_size - (GetEnd area - search_end) else 0)
                             else remaining_size);
       Some (aligned_base, remaining_size)
     }"

fun available_loop :: "PhysMap \<Rightarrow> u64 \<Rightarrow> u64 \<Rightarrow> u64 \<Rightarrow> u64 \<times> u64 \<Rightarrow> (u64 \<times> u64) option" where
  "available_loop [] search_start search_end alignment best = Some best"
| "available_loop ((it, area) # rest) search_start search_end alignment best =
     (if pa_dma_type area \<noteq> Phys_Free
      then available_loop rest search_start search_end alignment best
      else do {
        (aligned_base, remaining_size) \<leftarrow> available_in area search_start search_end alignment;
        available_loop rest search_start search_end alignment
          (if remaining_size > snd best then (aligned_base, remaining_size) else best)
      })"

definition DirectQueryAvailable :: "MemoryManager \<Rightarrow> u64 \<Rightarrow> u64 \<Rightarrow> u64 \<Rightarrow> (s32 \<times> u64 \<times> u64) option"
  where
  "DirectQueryAvailable s search_start search_end alignment =
     do {
       dmem_area \<leftarrow> FindPhysArea (dmem_map s) search_start;
       (paddr, max_size) \<leftarrow> available_loop (sm_from (dmem_map s) (Some dmem_area))
          search_start search_end alignment (0, 0);
       Some (ORBIS_OK, paddr, max_size)
     }"

text \<open>The error code, or the type, the start and the end of the area at the address.\<close>

definition GetDirectMemoryType :: "MemoryManager \<Rightarrow> u64 \<Rightarrow> (s32 + s32 \<times> u64 \<times> u64) option" where
  "GetDirectMemoryType s addr =
     (if addr \<ge> total_direct_size s then Some (Inl ORBIS_KERNEL_ERROR_ENOENT)
      else do {
        it \<leftarrow> FindPhysArea (dmem_map s) addr;
        dmem_area \<leftarrow> sm_get (dmem_map s) it;
        Some (if pa_dma_type dmem_area = Phys_Free then Inl ORBIS_KERNEL_ERROR_ENOENT
              else Inr (pa_memory_type dmem_area, pa_base dmem_area, GetEnd dmem_area))
      })"

text \<open>
  Available flushed, available cached, allocated flushed and allocated cached blocks; the
  fields are 32-bit, so the counts are truncated.
\<close>

fun committed_size :: "PhysMap \<Rightarrow> u64 \<Rightarrow> u64" where
  "committed_size [] acc = acc"
| "committed_size ((it, area) # rest) acc =
     committed_size rest (if pa_dma_type area = Phys_Committed then acc + pa_size area else acc)"

definition GetMemoryPoolStats :: "MemoryManager \<Rightarrow> s32 \<times> s32 \<times> s32 \<times> s32 \<times> s32" where
  "GetMemoryPoolStats s =
     (let blocks = ucast (committed_size (dmem_map s) 0 div KB 64)
      in (ORBIS_OK, blocks, 0, blocks, 0))"

subsection \<open>The specification of allocation\<close>

text \<open>
  A free area has room for \<open>n\<close> bytes at the aligned address \<open>p\<close>, at or above \<open>st\<close>.
\<close>

definition area_fits :: "u64 \<Rightarrow> u64 \<Rightarrow> u64 \<Rightarrow> PhysicalMemoryArea \<Rightarrow> nat \<Rightarrow> bool" where
  "area_fits st n al a p \<longleftrightarrow>
     pa_dma_type a = Phys_Free \<and> unat st \<le> p \<and> unat al dvd p \<and> unat (pa_base a) \<le> p \<and>
     p + unat n \<le> unat (pa_base a) + unat (pa_size a)"

definition dmem_fits :: "MemoryManager \<Rightarrow> u64 \<Rightarrow> u64 \<Rightarrow> u64 \<Rightarrow> nat \<Rightarrow> bool" where
  "dmem_fits s st n al p \<longleftrightarrow> (\<exists>e \<in> set (dmem_map s). area_fits st n al (snd e) p)"

lemma AlignUp_least:
  assumes r: "AlignUp value al = Some r" and nw: "unat value + unat al \<le> 2 ^ 64"
    and p: "unat al dvd p" "unat value \<le> p"
  shows "unat r \<le> p"
proof (rule ccontr)
  assume "\<not> unat r \<le> p"
  then have lt: "p < unat r" by simp
  from AlignUp_spec [OF r nw] have u: "unat al dvd unat r" "unat r < unat value + unat al" by auto
  from u(1) p(1) have "unat al dvd unat r - p" by (rule dvd_diff_nat)
  with lt have "unat al \<le> unat r - p" by (intro dvd_imp_le) auto
  with u(2) p(2) lt show False by linarith
qed

lemma area_first_fit:
  assumes w: "phys_wf k a" "unat k + unat (pa_size a) \<le> hi"
    and nw: "hi + unat al + unat n \<le> 2 ^ 64" "unat st + unat al + unat n \<le> 2 ^ 64"
    and ms: "AlignUp (max st k) al = Some ms"
  shows "pa_dma_type a = Phys_Free \<Longrightarrow> \<not> GetEnd a < ms + n \<Longrightarrow> area_fits st n al a (unat ms)"
    "area_fits st n al a p \<Longrightarrow> unat ms \<le> p \<and> pa_dma_type a = Phys_Free \<and> \<not> GetEnd a < ms + n"
proof -
  have al: "0 < unat al" using ms by (auto simp: AlignUp_def unat_gt_0 split: if_splits)
  have b: "pa_base a = k" using w by (simp add: phys_wf_def)
  have mx: "unat (max st k) = max (unat st) (unat k)" by (simp add: max_def word_le_nat_alt)
  have nwm: "unat (max st k) + unat al \<le> 2 ^ 64" unfolding mx using w nw by linarith
  note up = AlignUp_spec [OF ms nwm]
  then have msn: "unat (ms + n) = unat ms + unat n"
    using w nw unfolding mx by (intro unat_add64) linarith
  have en: "unat (GetEnd a) = unat k + unat (pa_size a)"
    using w nw al unfolding GetEnd_def b by (intro unat_add64) linarith
  show "area_fits st n al a (unat ms)" if "pa_dma_type a = Phys_Free" "\<not> GetEnd a < ms + n"
    using that up msn en b mx by (simp add: area_fits_def word_less_nat_alt)
  assume f: "area_fits st n al a p"
  then have le: "unat ms \<le> p" using b mx by (intro AlignUp_least [OF ms nwm]) (auto simp: area_fits_def)
  with f msn en b show "unat ms \<le> p \<and> pa_dma_type a = Phys_Free \<and> \<not> GetEnd a < ms + n"
    by (simp add: area_fits_def word_less_nat_alt)
qed

lemma find_free_dmem_spec:
  assumes "phys_laid lo ((k, a) # m) hi" "hi + unat al + unat n \<le> 2 ^ 64"
    "unat st + unat al + unat n \<le> 2 ^ 64" "al \<noteq> 0" "AlignUp (max st k) al = Some ms"
    "\<forall>x\<in>set m. st < fst x"
  shows "\<exists>r. find_free_dmem ((k, a) # m) ms n al = Some r \<and>
    (case r of
       None \<Rightarrow> \<forall>e\<in>set ((k, a) # m). \<forall>p. \<not> area_fits st n al (snd e) p
     | Some (k', ms') \<Rightarrow> \<exists>xs a' ys. (k, a) # m = xs @ (k', a') # ys \<and>
         area_fits st n al a' (unat ms') \<and> (\<forall>p. area_fits st n al a' p \<longrightarrow> unat ms' \<le> p) \<and>
         (\<forall>e\<in>set xs. \<forall>p. \<not> area_fits st n al (snd e) p))"
  using assms
proof (induction m arbitrary: k a ms lo)
  case (Nil k a ms lo)
  have "phys_wf k a" "unat k + unat (pa_size a) \<le> hi"
    using laid_mem [OF Nil.prems(1), of k a] by auto
  note f = area_first_fit [OF this Nil.prems(2,3,5)]
  show ?case
  proof (cases "pa_dma_type a \<noteq> Phys_Free \<or> GetEnd a < ms + n")
    case True
    with f(2) show ?thesis by (auto simp: Let_def)
  next
    case False
    then have "find_free_dmem [(k, a)] ms n al = Some (Some (k, ms))" by (simp add: Let_def)
    moreover have "area_fits st n al a (unat ms)" "\<forall>p. area_fits st n al a p \<longrightarrow> unat ms \<le> p"
      using f False by blast+
    ultimately show ?thesis
      by (intro exI [of _ "Some (k, ms)"]) (simp, rule exI [of _ "[]"], simp)
  qed
next
  case (Cons e m k a ms lo)
  obtain k1 a1 where e: "e = (k1, a1)" by fastforce
  have l: "phys_laid (unat k + unat (pa_size a)) ((k1, a1) # m) hi" using Cons.prems(1) e by simp
  then have b1: "pa_base a1 = k1" by (simp add: phys_wf_def)
  have "phys_wf k a" "unat k + unat (pa_size a) \<le> hi"
    using laid_mem [OF Cons.prems(1), of k a] by auto
  note f = area_first_fit [OF this Cons.prems(2,3,5)]
  show ?case
  proof (cases "pa_dma_type a \<noteq> Phys_Free \<or> GetEnd a < ms + n")
    case True
    have lt: "st < k1" "\<forall>x\<in>set m. st < fst x" using Cons.prems(6) e by auto
    obtain ms1 where ms1: "AlignUp k1 al = Some ms1" using AlignUp_defined [OF Cons.prems(4)] by blast
    have "AlignUp (max st k1) al = Some ms1" using lt(1) ms1 by (simp only: max_absorb2 less_imp_le)
    from Cons.IH [OF l Cons.prems(2,3,4) this lt(2)] obtain r where
      r: "find_free_dmem ((k1, a1) # m) ms1 n al = Some r" and
      sp: "case r of None \<Rightarrow> \<forall>e\<in>set ((k1, a1) # m). \<forall>p. \<not> area_fits st n al (snd e) p
       | Some (k', ms') \<Rightarrow> \<exists>xs a' ys. (k1, a1) # m = xs @ (k', a') # ys \<and>
           area_fits st n al a' (unat ms') \<and> (\<forall>p. area_fits st n al a' p \<longrightarrow> unat ms' \<le> p) \<and>
           (\<forall>e\<in>set xs. \<forall>p. \<not> area_fits st n al (snd e) p)" by blast
    have run: "find_free_dmem ((k, a) # e # m) ms n al = Some r"
      using True e b1 ms1 r by (simp add: Let_def)
    have no: "\<not> area_fits st n al a p" for p using f(2) True by blast
    show ?thesis
    proof (cases r)
      case None
      with sp no run e show ?thesis by (intro exI [of _ None]) auto
    next
      case (Some q)
      obtain k' ms' where q: "q = (k', ms')" by fastforce
      from sp Some q obtain xs a' ys where x: "(k1, a1) # m = xs @ (k', a') # ys"
        "area_fits st n al a' (unat ms')" "\<forall>p. area_fits st n al a' p \<longrightarrow> unat ms' \<le> p"
        "\<forall>e\<in>set xs. \<forall>p. \<not> area_fits st n al (snd e) p" by auto
      have m: "(k, a) # e # m = ((k, a) # xs) @ (k', a') # ys" using x(1) e by simp
      have "\<forall>e\<in>set ((k, a) # xs). \<forall>p. \<not> area_fits st n al (snd e) p" using x(4) no by simp
      then have "\<exists>zs a' ys. (k, a) # e # m = zs @ (k', a') # ys \<and>
          area_fits st n al a' (unat ms') \<and> (\<forall>p. area_fits st n al a' p \<longrightarrow> unat ms' \<le> p) \<and>
          (\<forall>e\<in>set zs. \<forall>p. \<not> area_fits st n al (snd e) p)"
        using m x(2,3) by (intro exI conjI)
      then show ?thesis using run Some q by (simp only: option.case prod.case option.inject ex_simps simp_thms)
    qed
  next
    case False
    then have "find_free_dmem ((k, a) # e # m) ms n al = Some (Some (k, ms))" by (simp add: Let_def)
    moreover have "area_fits st n al a (unat ms)" "\<forall>p. area_fits st n al a p \<longrightarrow> unat ms \<le> p"
      using f False by blast+
    ultimately show ?thesis
      by (intro exI [of _ "Some (k, ms)"]) (simp del: find_free_dmem.simps, rule exI [of _ "[]"], simp)
  qed
qed

text \<open>Where the search starts: the area at or below the address, and all areas behind it.\<close>

lemma dmem_search_start:
  assumes "mm_inv s"
  obtains xs k a ys where "dmem_map s = xs @ (k, a) # ys" "FindPhysArea (dmem_map s) st = Some k"
    "sm_get (dmem_map s) k = Some a" "sm_from (dmem_map s) (Some k) = (k, a) # ys"
    "unat k \<le> unat st" "\<forall>y\<in>set ys. st < fst y" "pa_base a = k"
    "phys_laid 0 xs (unat k)" "phys_laid 0 (xs @ (k, a) # ys) (unat (total_direct_size s))"
proof -
  have l: "phys_laid 0 (dmem_map s) (unat (total_direct_size s))"
    and "0 \<in> dom (phys_cells (dmem_map s))"
    using assms by (auto simp: mm_inv_def covers_def)
  then obtain c where "phys_cells (dmem_map s) 0 = Some c" by blast
  then obtain xs0 k0 a0 ys0 where m0: "dmem_map s = xs0 @ (k0, a0) # ys0" "unat k0 \<le> 0"
    by (rule cell_split)
  note ok = laid_sm_ok [OF l]
  have "(k0, a0) \<in> set (dmem_map s)" "k0 \<le> st" using m0 by (simp_all add: word_le_nat_alt)
  then obtain k where k: "sm_floor (dmem_map s) st = Some k" using sm_floor_exists [OF ok] by blast
  obtain xs a ys where m: "dmem_map s = xs @ (k, a) # ys" "k \<le> st" "\<forall>y\<in>set ys. st < fst y"
    using sm_floor_split [OF ok k] by metis
  have "phys_wf k a" "phys_laid 0 xs (unat k)" using l m(1) by (auto simp: laid_append)
  with m k l ok show thesis
    by (intro that [of xs k a ys]) (auto simp: FindPhysArea_def phys_wf_def word_le_nat_alt)
qed

lemma covers_update:
  assumes "covers m lo hi" "phys_laid lo m' hi" "phys_cells m' = upd_range (phys_cells m) addr n c"
    "lo \<le> unat addr" "unat addr + unat n \<le> hi"
  shows "covers m' lo hi"
proof -
  have "dom (upd_range (phys_cells m) addr n c) = dom (phys_cells m)"
    proof (rule upd_range_dom)
    fix p assume "unat addr \<le> p" "p < unat addr + unat n"
    then have "p \<in> dom (phys_cells m)" using assms(1,4,5) by (simp add: covers_def)
    then show "phys_cells m p \<noteq> None" by (rule domIff [THEN iffD1])
  qed
  with assms show ?thesis by (simp add: covers_def)
qed

lemma mm_inv_dmem: "mm_inv s \<Longrightarrow> covers m 0 (unat (total_direct_size s)) \<Longrightarrow> mm_inv (s\<lparr>dmem_map := m\<rparr>)"
  by (simp add: mm_inv_def)

text \<open>
  The search as a whole: nothing fits, or the area and the least address that fit, with
  the map split there.
\<close>

lemma dmem_search_spec:
  assumes inv: "mm_inv s" and n: "0 < unat n" and al: "al \<noteq> 0"
    and nw: "unat (total_direct_size s) + unat al + unat n \<le> 2 ^ 64"
      "unat st + unat al + unat n \<le> 2 ^ 64"
  shows "\<exists>k a ms r. FindPhysArea (dmem_map s) st = Some k \<and> sm_get (dmem_map s) k = Some a \<and>
    pa_base a = k \<and> AlignUp (max st k) al = Some ms \<and>
    find_free_dmem (sm_from (dmem_map s) (Some k)) ms n al = Some r \<and>
    (case r of
       None \<Rightarrow> \<forall>p. \<not> dmem_fits s st n al p
     | Some (k', p) \<Rightarrow> dmem_fits s st n al (unat p) \<and> (\<forall>q. dmem_fits s st n al q \<longrightarrow> unat p \<le> q) \<and>
         (\<exists>xs a' ys. dmem_map s = xs @ (k', a') # ys \<and> area_fits st n al a' (unat p) \<and>
            phys_laid 0 (xs @ (k', a') # ys) (unat (total_direct_size s))))"
proof -
  obtain xs k a ys where m: "dmem_map s = xs @ (k, a) # ys" and k: "FindPhysArea (dmem_map s) st = Some k"
    and g: "sm_get (dmem_map s) k = Some a" and fr: "sm_from (dmem_map s) (Some k) = (k, a) # ys"
    and kst: "unat k \<le> unat st" and ys: "\<forall>y\<in>set ys. st < fst y" and b: "pa_base a = k"
    and lx: "phys_laid 0 xs (unat k)"
    and l: "phys_laid 0 (xs @ (k, a) # ys) (unat (total_direct_size s))"
    by (rule dmem_search_start [OF inv])
  have l1: "phys_laid (unat k) ((k, a) # ys) (unat (total_direct_size s))"
    using l by (simp add: laid_append)
  obtain ms where ms: "AlignUp (max st k) al = Some ms" using AlignUp_defined [OF al] by blast
  have before: "\<not> area_fits st n al (snd e) p" if "e \<in> set xs" for e p
    using laid_mem [OF lx, of "fst e" "snd e"] that kst n by (auto simp: area_fits_def phys_wf_def)
  from find_free_dmem_spec [OF l1 nw al ms ys] obtain r where
    r: "find_free_dmem ((k, a) # ys) ms n al = Some r" and
    sp: "case r of None \<Rightarrow> \<forall>e\<in>set ((k, a) # ys). \<forall>p. \<not> area_fits st n al (snd e) p
     | Some (k', ms') \<Rightarrow> \<exists>xs a' ys'. (k, a) # ys = xs @ (k', a') # ys' \<and>
         area_fits st n al a' (unat ms') \<and> (\<forall>p. area_fits st n al a' p \<longrightarrow> unat ms' \<le> p) \<and>
         (\<forall>e\<in>set xs. \<forall>p. \<not> area_fits st n al (snd e) p)" by blast
  have run: "find_free_dmem (sm_from (dmem_map s) (Some k)) ms n al = Some r" using r fr by simp
  have "case r of
       None \<Rightarrow> \<forall>p. \<not> dmem_fits s st n al p
     | Some (k', p) \<Rightarrow> dmem_fits s st n al (unat p) \<and> (\<forall>q. dmem_fits s st n al q \<longrightarrow> unat p \<le> q) \<and>
         (\<exists>xs a' ys. dmem_map s = xs @ (k', a') # ys \<and> area_fits st n al a' (unat p) \<and>
            phys_laid 0 (xs @ (k', a') # ys) (unat (total_direct_size s)))"
  proof (cases r)
    case None
    with sp before show ?thesis unfolding dmem_fits_def m by auto
  next
    case (Some q)
    obtain k' p where q: "q = (k', p)" by fastforce
    from sp Some q obtain xs1 a' ys' where x: "(k, a) # ys = xs1 @ (k', a') # ys'"
      "area_fits st n al a' (unat p)" "\<forall>q. area_fits st n al a' q \<longrightarrow> unat p \<le> q"
      "\<forall>e\<in>set xs1. \<forall>p. \<not> area_fits st n al (snd e) p" by auto
    have m': "dmem_map s = (xs @ xs1) @ (k', a') # ys'" using m x(1) by simp
    have l': "phys_laid 0 ((xs @ xs1) @ (k', a') # ys') (unat (total_direct_size s))"
      using l x(1) by simp
    have ex: "pa_base a' = k'" and hi: "phys_laid (unat k' + unat (pa_size a')) ys' (unat (total_direct_size s))"
      using l' by (auto simp only: laid_append phys_wf_def)
    have later: "unat p \<le> q" if "e \<in> set ys'" "area_fits st n al (snd e) q" for e q
    proof -
      have "unat k' + unat (pa_size a') \<le> unat (fst e)" "pa_base (snd e) = fst e"
        using laid_mem [OF hi, of "fst e" "snd e"] that(1) by (auto simp: phys_wf_def)
      with that(2) x(2) ex show ?thesis by (simp add: area_fits_def)
    qed
    have "dmem_fits s st n al (unat p)" using x(2) m' by (auto simp: dmem_fits_def)
    moreover have "\<forall>q. dmem_fits s st n al q \<longrightarrow> unat p \<le> q"
      unfolding dmem_fits_def m' using x(3,4) before later by fastforce
    moreover have "\<exists>xs a' ys. dmem_map s = xs @ (k', a') # ys \<and> area_fits st n al a' (unat p) \<and>
        phys_laid 0 (xs @ (k', a') # ys) (unat (total_direct_size s))"
      using m' x(2) l' by (intro exI conjI)
    ultimately show ?thesis unfolding Some q by simp
  qed
  with k g b ms run show ?thesis by blast
qed

text \<open>Claiming a range of one area, and joining at the area it was cut from.\<close>

lemma dmem_claim:
  assumes l: "phys_laid 0 (xs @ (k, a) # ys) hi" and hi: "hi < 2 ^ 64"
    and n: "0 < unat n" "unat k \<le> unat p" "unat p + unat n \<le> unat k + unat (pa_size a)"
  shows "\<exists>m1 b m2 m3 k3. CarvePhysArea (xs @ (k, a) # ys) p n = Some (m1, p) \<and> sm_get m1 p = Some b \<and>
    m2 = sm_put m1 p (b\<lparr>pa_memory_type := mt, pa_dma_type := t\<rparr>) \<and> phys_laid 0 m2 hi \<and>
    phys_cells m2 = upd_range (phys_cells (xs @ (k, a) # ys)) p n (\<lambda>_. (t, mt)) \<and>
    Phys_MergeAdjacent m2 k = Some (m3, k3) \<and> phys_laid 0 m3 hi \<and> phys_cells m3 = phys_cells m2"
proof -
  let ?m = "xs @ (k, a) # ys"
  from pm.carve_mid [OF l hi n] obtain xs1 b ys1 where
    c: "CarvePhysArea ?m p n = Some (xs1 @ (p, b) # ys1, p)"
    and l1: "phys_laid 0 (xs1 @ (p, b) # ys1) hi"
    and c1: "phys_cells (xs1 @ (p, b) # ys1) = phys_cells ?m" and sb: "pa_size b = n"
    and k: "k \<in> fst ` set (xs1 @ (p, b) # ys1)" by blast
  let ?b = "b\<lparr>pa_memory_type := mt, pa_dma_type := t\<rparr>"
  let ?m2 = "xs1 @ (p, ?b) # ys1"
  have ok: "sm_ok (xs1 @ (p, b) # ys1)" using l1 by (rule laid_sm_ok)
  have w: "phys_wf p ?b" using laid_mem [OF l1, of p b] by (simp add: phys_wf_def)
  have l2: "phys_laid 0 ?m2 hi" by (rule laid_replace [OF l1]) (simp, rule w)
  have c2: "phys_cells ?m2 = upd_range (phys_cells ?m) p n (\<lambda>_. (t, mt))"
    using cell_replace [OF l1, of ?b phys_ct] w c1 sb by (simp add: phys_ct_def [abs_def])
  have "k \<in> fst ` set ?m2" using k by (simp only: set_append list.set image_Un image_insert fst_conv)
  then obtain a2 xs2 ys2 where m2: "?m2 = xs2 @ (k, a2) # ys2"
    by (metis (no_types, lifting) imageE prod.collapse split_list)
  from pm.merge_spec [of 0 xs2 k a2 ys2 hi] l2 hi obtain m3 k3 where
    "Phys_MergeAdjacent ?m2 k = Some (m3, k3)" "phys_laid 0 m3 hi" "phys_cells m3 = phys_cells ?m2"
    unfolding m2 by blast
  with c ok l2 c2 show ?thesis
    by (intro exI [of _ "xs1 @ (p, b) # ys1"] exI [of _ b] exI [of _ ?m2] exI [of _ m3] exI [of _ k3]) simp
qed

definition effective_alignment :: "u64 \<Rightarrow> u64 \<Rightarrow> u64" where
  "effective_alignment alignment dflt = (if alignment > 0 then alignment else dflt)"

lemma effective_alignment_nonzero: "dflt \<noteq> 0 \<Longrightarrow> effective_alignment alignment dflt \<noteq> 0"
  by (auto simp: effective_alignment_def)

text \<open>
  C9: \<^verbatim>\<open>Allocate\<close> is exact.  Where no address wraps it returns the least aligned address at
  or above \<open>search_start\<close> at which one free area has room, provided the block ends by
  \<open>search_end\<close>; then exactly this block becomes allocated with the memory type, nothing else
  changes and the invariant is kept.  If there is no such block it returns \<open>-1\<close> and the state is
  unchanged.
\<close>

theorem Allocate_least:
  assumes inv: "mm_inv s" and n: "0 < unat n"
    and al: "al = effective_alignment alignment (KB 16)"
    and nw: "unat (total_direct_size s) + unat al + unat n \<le> 2 ^ 64"
      "unat st + unat al + unat n \<le> 2 ^ 64"
  shows "\<exists>r s'. Allocate s st en n alignment mt = Some (r, s') \<and>
    (if \<exists>p. dmem_fits s st n al p \<and> p + unat n \<le> unat en
     then dmem_fits s st n al (unat r) \<and> unat r + unat n \<le> unat en \<and>
       (\<forall>p. dmem_fits s st n al p \<longrightarrow> unat r \<le> p) \<and>
       mm_inv s' \<and> s' = s\<lparr>dmem_map := dmem_map s'\<rparr> \<and>
       phys_cells (dmem_map s') = upd_range (phys_cells (dmem_map s)) r n (\<lambda>_. (Phys_Allocated, mt))
     else r = - 1 \<and> s' = s)"
proof -
  let ?hi = "unat (total_direct_size s)"
  have al0: "al \<noteq> 0" unfolding al by (rule effective_alignment_nonzero) (simp add: size_literal_defs)
  from dmem_search_spec [OF inv n al0 nw] obtain k a ms r where
    k: "FindPhysArea (dmem_map s) st = Some k" and a: "sm_get (dmem_map s) k = Some a" "pa_base a = k"
    and ms: "AlignUp (max st k) al = Some ms"
    and f: "find_free_dmem (sm_from (dmem_map s) (Some k)) ms n al = Some r" and
    sp: "case r of None \<Rightarrow> \<forall>p. \<not> dmem_fits s st n al p
     | Some (k', p) \<Rightarrow> dmem_fits s st n al (unat p) \<and> (\<forall>q. dmem_fits s st n al q \<longrightarrow> unat p \<le> q) \<and>
         (\<exists>xs a' ys. dmem_map s = xs @ (k', a') # ys \<and> area_fits st n al a' (unat p) \<and>
            phys_laid 0 (xs @ (k', a') # ys) ?hi)" by blast
  note run = Allocate_def [of s st en n alignment mt, folded effective_alignment_def, folded al]
  note start = k a ms f Let_def Option.bind_lunit
  show ?thesis
  proof (cases r)
    case None
    with sp have no: "\<not> dmem_fits s st n al p" for p by simp
    have "Allocate s st en n alignment mt = Some (- 1, s)" unfolding run start None by simp
    with no show ?thesis by (intro exI [of _ "- 1"] exI [of _ s]) simp
  next
    case (Some q)
    obtain k' p where q: "q = (k', p)" by fastforce
    from sp Some q obtain xs a' ys where fit: "dmem_fits s st n al (unat p)"
      and least: "\<forall>q. dmem_fits s st n al q \<longrightarrow> unat p \<le> q" and m: "dmem_map s = xs @ (k', a') # ys"
      and af: "area_fits st n al a' (unat p)" and l: "phys_laid 0 (xs @ (k', a') # ys) ?hi" by auto
    have b: "pa_base a' = k'" and e: "unat k' + unat (pa_size a') \<le> ?hi"
      using laid_mem [OF l, of k' a'] by (auto simp: phys_wf_def)
    have hi: "?hi < 2 ^ 64" by (rule unat_lt64)
    have rng: "unat k' \<le> unat p" "unat p + unat n \<le> unat k' + unat (pa_size a')"
      using af b by (auto simp: area_fits_def)
    then have pn: "unat (p + n) = unat p + unat n" using e hi by (intro unat_add64) linarith
    show ?thesis
    proof (cases "unat p + unat n \<le> unat en")
      case True
      from dmem_claim [OF l hi n rng, where mt = mt and t = Phys_Allocated] obtain m1 c m2 m3 k3 where
        c: "CarvePhysArea (dmem_map s) p n = Some (m1, p)" "sm_get m1 p = Some c"
        "m2 = sm_put m1 p (c\<lparr>pa_memory_type := mt, pa_dma_type := Phys_Allocated\<rparr>)"
        "phys_cells m2 = upd_range (phys_cells (dmem_map s)) p n (\<lambda>_. (Phys_Allocated, mt))"
        "Phys_MergeAdjacent m2 k' = Some (m3, k3)" "phys_laid 0 m3 ?hi" "phys_cells m3 = phys_cells m2"
        unfolding m by blast
      have cov: "covers m3 0 ?hi"
        using inv c rng e by (intro covers_update [of "dmem_map s" 0 ?hi m3 p n]) (auto simp: mm_inv_def)
      have "\<not> p + n > en" using True pn by (simp add: word_less_nat_alt)
      then have "Allocate s st en n alignment mt = Some (p, s\<lparr>dmem_map := m3\<rparr>)"
        unfolding run start Some q using c by simp
      with True fit least cov inv c show ?thesis by (auto simp: mm_inv_dmem)
    next
      case False
      then have "p + n > en" using pn by (simp add: word_less_nat_alt)
      then have "Allocate s st en n alignment mt = Some (- 1, s)" unfolding run start Some q by simp
      moreover have "\<not> (\<exists>p. dmem_fits s st n al p \<and> p + unat n \<le> unat en)"
        using least False by fastforce
      ultimately show ?thesis by (intro exI [of _ "- 1"] exI [of _ s]) (simp only: if_False simp_thms)
    qed
  qed
qed

lemma demo_fits: "dmem_fits demo_mm 0x10000 0x20000 0x8000 0x10000"
  by (simp add: dmem_fits_def area_fits_def free_area_def)

lemma Allocate_least_witness:
  "\<exists>r s'. Allocate demo_mm 0x10000 0x800000 0x20000 0x8000 7 = Some (r, s') \<and> mm_inv s' \<and>
     dmem_fits demo_mm 0x10000 0x20000 0x8000 (unat r)"
proof -
  have "\<exists>p. dmem_fits demo_mm 0x10000 0x20000 0x8000 p \<and> p + unat (0x20000 :: u64) \<le> unat (0x800000 :: u64)"
    using demo_fits by (intro exI [of _ "0x10000"]) simp
  with Allocate_least [OF demo_inv, where n = "0x20000" and al = "0x8000" and alignment = "0x8000" and
      st = "0x10000" and en = "0x800000" and mt = 7]
  show ?thesis by (auto simp: effective_alignment_def)
qed

text \<open>
  \<^verbatim>\<open>PoolExpand\<close> is the same search with 64 KB as the default alignment, and gives the block to
  the memory pools.  Its \<open>search_end\<close> is not a bound: a block beyond it is taken all the same.
\<close>

theorem PoolExpand_least:
  assumes inv: "mm_inv s" and n: "0 < unat n"
    and al: "al = effective_alignment alignment (KB 64)"
    and nw: "unat (total_direct_size s) + unat al + unat n \<le> 2 ^ 64"
      "unat st + unat al + unat n \<le> 2 ^ 64"
  shows "\<exists>r s'. PoolExpand s st en n alignment = Some (r, s') \<and>
    (if \<exists>p. dmem_fits s st n al p
     then dmem_fits s st n al (unat r) \<and> (\<forall>p. dmem_fits s st n al p \<longrightarrow> unat r \<le> p) \<and>
       mm_inv s' \<and> s' = s\<lparr>dmem_map := dmem_map s', pool_budget := pool_budget s + n\<rparr> \<and>
       phys_cells (dmem_map s') = upd_range (phys_cells (dmem_map s)) r n (\<lambda>_. (Phys_Pooled, 3))
     else r = - 1 \<and> s' = s)"
proof -
  let ?hi = "unat (total_direct_size s)"
  have al0: "al \<noteq> 0" unfolding al by (rule effective_alignment_nonzero) (simp add: size_literal_defs)
  from dmem_search_spec [OF inv n al0 nw] obtain k a ms r where
    k: "FindPhysArea (dmem_map s) st = Some k" and a: "sm_get (dmem_map s) k = Some a" "pa_base a = k"
    and ms: "AlignUp (max st k) al = Some ms"
    and f: "find_free_dmem (sm_from (dmem_map s) (Some k)) ms n al = Some r" and
    sp: "case r of None \<Rightarrow> \<forall>p. \<not> dmem_fits s st n al p
     | Some (k', p) \<Rightarrow> dmem_fits s st n al (unat p) \<and> (\<forall>q. dmem_fits s st n al q \<longrightarrow> unat p \<le> q) \<and>
         (\<exists>xs a' ys. dmem_map s = xs @ (k', a') # ys \<and> area_fits st n al a' (unat p) \<and>
            phys_laid 0 (xs @ (k', a') # ys) ?hi)" by blast
  have ms': "(if st > k then AlignUp st al else AlignUp k al) = Some ms"
    using ms by (auto simp: max_def split: if_splits)
  note run = PoolExpand_def [of s st en n alignment, folded effective_alignment_def, folded al]
  note start = k a ms' f Let_def Option.bind_lunit
  show ?thesis
  proof (cases r)
    case None
    with sp have no: "\<not> dmem_fits s st n al p" for p by simp
    have "PoolExpand s st en n alignment = Some (- 1, s)" unfolding run start None by simp
    with no show ?thesis by (intro exI [of _ "- 1"] exI [of _ s]) simp
  next
    case (Some q)
    obtain k' p where q: "q = (k', p)" by fastforce
    from sp Some q obtain xs a' ys where fit: "dmem_fits s st n al (unat p)"
      and least: "\<forall>q. dmem_fits s st n al q \<longrightarrow> unat p \<le> q" and m: "dmem_map s = xs @ (k', a') # ys"
      and af: "area_fits st n al a' (unat p)" and l: "phys_laid 0 (xs @ (k', a') # ys) ?hi" by auto
    have b: "pa_base a' = k'" and e: "unat k' + unat (pa_size a') \<le> ?hi"
      using laid_mem [OF l, of k' a'] by (auto simp: phys_wf_def)
    have rng: "unat k' \<le> unat p" "unat p + unat n \<le> unat k' + unat (pa_size a')"
      using af b by (auto simp: area_fits_def)
    from dmem_claim [OF l unat_lt64 n rng, where mt = 3 and t = Phys_Pooled] obtain m1 c m2 where
      c: "CarvePhysArea (dmem_map s) p n = Some (m1, p)" "sm_get m1 p = Some c"
      "m2 = sm_put m1 p (c\<lparr>pa_memory_type := 3, pa_dma_type := Phys_Pooled\<rparr>)"
      "phys_cells m2 = upd_range (phys_cells (dmem_map s)) p n (\<lambda>_. (Phys_Pooled, 3))"
      "phys_laid 0 m2 ?hi" unfolding m by blast
    have cov: "covers m2 0 ?hi"
      using inv c rng e by (intro covers_update [of "dmem_map s" 0 ?hi m2 p n]) (auto simp: mm_inv_def)
    have "PoolExpand s st en n alignment =
        Some (p, s\<lparr>dmem_map := m2, pool_budget := pool_budget s + n\<rparr>)"
      unfolding run start Some q using c by (cases c) simp
    moreover have "mm_inv (s\<lparr>dmem_map := m2, pool_budget := b\<rparr>)" for b
      using inv cov by (simp add: mm_inv_def)
    ultimately show ?thesis using fit least c by auto
  qed
qed

lemma PoolExpand_least_witness:
  "\<exists>r s'. PoolExpand demo_mm 0x10000 0x11000 0x20000 0x8000 = Some (r, s') \<and> mm_inv s' \<and>
     dmem_fits demo_mm 0x10000 0x20000 0x8000 (unat r)"
  using PoolExpand_least [OF demo_inv, where n = "0x20000" and al = "0x8000" and alignment = "0x8000" and
      st = "0x10000" and en = "0x11000"] demo_fits
  by (auto simp: effective_alignment_def split: if_splits)

subsection \<open>Queries\<close>

lemma unat_sub_or_0: "unat (if x > y then x - y else 0 :: u64) = unat x - unat y"
  "unat (if x \<ge> y then x - y else 0 :: u64) = unat x - unat y"
  by (simp_all add: nowrap word_less_nat_alt word_le_nat_alt)

lemma AlignUp_aligned:
  assumes "al \<noteq> 0" "unat al dvd unat st"
  shows "AlignUp st al = Some st"
proof -
  have "unat (st mod al) = 0" using assms(2) by (simp add: unat_mod)
  then have "st mod al = 0" by (simp only: unat_eq_zero)
  then show ?thesis using assms(1) by (simp add: AlignUp_def)
qed

lemma available_in_sound:
  assumes w: "phys_wf k a" "unat k + unat (pa_size a) \<le> hi" "hi + unat al < 2 ^ 64"
    and st: "al = 0 \<or> unat al dvd unat st"
  shows "\<exists>p n. available_in a st en al = Some (p, n) \<and> (n \<noteq> 0 \<longrightarrow> unat st \<le> unat p \<and>
    unat p + unat n \<le> unat en \<and> unat k \<le> unat p \<and> unat p + unat n \<le> unat k + unat (pa_size a) \<and>
    (al \<noteq> 0 \<longrightarrow> unat al dvd unat p))"
proof -
  have b: "pa_base a = k" using w by (simp add: phys_wf_def)
  have en: "unat (GetEnd a) = unat k + unat (pa_size a)"
    using w unfolding GetEnd_def b by (intro unat_add64) linarith
  obtain ab where ab: "(if al > 0 then AlignUp k al else Some k) = Some ab"
    and le: "unat k \<le> unat ab" and dv: "al \<noteq> 0 \<longrightarrow> unat al dvd unat ab"
  proof (cases "al = 0")
    case True
    then show thesis using that [of k] by simp
  next
    case False
    then obtain r where r: "AlignUp k al = Some r" using AlignUp_defined by blast
    have "unat k + unat al \<le> 2 ^ 64" using w by linarith
    from AlignUp_spec [OF r this] show thesis using that [of r] r False by (simp add: word_gt_0)
  qed
  have sa: "(if al > 0 then AlignUp st al else Some st) = Some st"
    using st AlignUp_aligned [of al st] by (auto simp: word_gt_0)
  define r1 where "r1 = (if pa_size a \<ge> ab - k then pa_size a - (ab - k) else 0)"
  define p where "p = (if k < st then st else ab)"
  define r2 where "r2 = (if k < st then (if r1 > st - k then r1 - (st - k) else 0) else r1)"
  define n where "n = (if GetEnd a > en then (if r2 > GetEnd a - en then r2 - (GetEnd a - en) else 0) else r2)"
  have run: "available_in a st en al = Some (p, n)"
    unfolding available_in_def b ab Let_def Option.bind_lunit r1_def [symmetric]
    by (simp add: sa p_def r2_def n_def)
  have u1: "unat r1 = unat (pa_size a) - (unat ab - unat k)"
    unfolding r1_def unat_sub_or_0 using le by (simp add: nowrap)
  have u2: "unat r2 = (if k < st then unat r1 - (unat st - unat k) else unat r1)"
    unfolding r2_def by (simp add: unat_sub_or_0 nowrap word_less_nat_alt)
  have u3: "unat n = (if unat (GetEnd a) > unat en then unat r2 - (unat (GetEnd a) - unat en) else unat r2)"
    unfolding n_def by (simp add: unat_sub_or_0 nowrap word_less_nat_alt)
  have "unat st \<le> unat p \<and> unat p + unat n \<le> unat en \<and> unat k \<le> unat p \<and>
      unat p + unat n \<le> unat k + unat (pa_size a) \<and> (al \<noteq> 0 \<longrightarrow> unat al dvd unat p)" if "n \<noteq> 0"
  proof -
    have n0: "0 < unat n" using that by (simp only: unat_gt_0 not_False_eq_True)
    show ?thesis
    proof (cases "k < st")
      case True
      then have "unat k < unat st" "p = st" by (simp_all add: word_less_nat_alt p_def)
      moreover have "unat st + unat r2 \<le> unat k + unat (pa_size a)" "0 < unat r2"
        using n0 u1 u2 u3 True \<open>unat k < unat st\<close> by (auto split: if_splits)
      ultimately show ?thesis using n0 u3 en st by (auto split: if_splits)
    next
      case False
      then have "unat st \<le> unat k" "p = ab" by (simp_all add: word_less_nat_alt p_def)
      moreover have "unat ab + unat r2 \<le> unat k + unat (pa_size a)" "0 < unat r2"
        using n0 u1 u2 u3 False le by (auto split: if_splits)
      ultimately show ?thesis using n0 u3 en dv le by (auto split: if_splits)
    qed
  qed
  with run show ?thesis by blast
qed

text \<open>A block inside the range, aligned, and inside one free area.\<close>

definition available_block :: "PhysMap \<Rightarrow> u64 \<Rightarrow> u64 \<Rightarrow> u64 \<Rightarrow> u64 \<Rightarrow> u64 \<Rightarrow> bool" where
  "available_block m st en al p n \<longleftrightarrow>
     unat st \<le> unat p \<and> unat p + unat n \<le> unat en \<and> (al \<noteq> 0 \<longrightarrow> unat al dvd unat p) \<and>
     (\<exists>(k, a) \<in> set m. pa_dma_type a = Phys_Free \<and> unat k \<le> unat p \<and>
        unat p + unat n \<le> unat k + unat (pa_size a))"

lemma available_loop_sound:
  assumes "phys_laid lo ys hi" "hi + unat al < 2 ^ 64" "al = 0 \<or> unat al dvd unat st"
    and "set ys \<subseteq> set m" "n \<noteq> 0 \<longrightarrow> available_block m st en al p n"
  shows "\<exists>p' n'. available_loop ys st en al (p, n) = Some (p', n') \<and>
    (n' \<noteq> 0 \<longrightarrow> available_block m st en al p' n')"
  using assms
proof (induction ys arbitrary: lo p n)
  case (Cons e ys)
  obtain k a where e: "e = (k, a)" by fastforce
  have l: "phys_laid (unat k + unat (pa_size a)) ys hi" using Cons.prems(1) e by simp
  note IH = Cons.IH [OF l Cons.prems(2,3)]
  show ?case
  proof (cases "pa_dma_type a = Phys_Free")
    case False
    have "available_loop (e # ys) st en al (p, n) = available_loop ys st en al (p, n)"
      using False e by simp
    then show ?thesis using IH [where p = p and n = n] Cons.prems(4,5) by simp
  next
    case True
    have "phys_wf k a" "unat k + unat (pa_size a) \<le> hi"
      using laid_mem [OF Cons.prems(1), of k a] e by auto
    from available_in_sound [OF this Cons.prems(2,3)] obtain p1 n1 where
      a: "available_in a st en al = Some (p1, n1)" and s: "n1 \<noteq> 0 \<longrightarrow> unat st \<le> unat p1 \<and>
        unat p1 + unat n1 \<le> unat en \<and> unat k \<le> unat p1 \<and>
        unat p1 + unat n1 \<le> unat k + unat (pa_size a) \<and> (al \<noteq> 0 \<longrightarrow> unat al dvd unat p1)" by blast
    have "(k, a) \<in> set m" using Cons.prems(4) e by simp
    then have b1: "n1 \<noteq> 0 \<longrightarrow> available_block m st en al p1 n1"
      using s True unfolding available_block_def by blast
    define q where "q = (if n1 > n then (p1, n1) else (p, n))"
    have "available_loop (e # ys) st en al (p, n) = available_loop ys st en al q"
      using True e a by (simp add: q_def)
    then show ?thesis using IH [where p = "fst q" and n = "snd q"] Cons.prems(4,5) b1 by (simp add: q_def)
  qed
qed simp

text \<open>
  For a search start that is aligned, \<^verbatim>\<open>DirectQueryAvailable\<close> reports a block that is really
  there: inside the searched range, aligned, and inside one free area.
\<close>

theorem DirectQueryAvailable_sound:
  assumes inv: "mm_inv s" and al: "al = 0 \<or> unat al dvd unat st"
    and nw: "unat (total_direct_size s) + unat al < 2 ^ 64"
  shows "\<exists>p n. DirectQueryAvailable s st en al = Some (ORBIS_OK, p, n) \<and>
    (n \<noteq> 0 \<longrightarrow> available_block (dmem_map s) st en al p n)"
proof -
  obtain xs k a ys where m: "dmem_map s = xs @ (k, a) # ys" and k: "FindPhysArea (dmem_map s) st = Some k"
    and fr: "sm_from (dmem_map s) (Some k) = (k, a) # ys"
    and l: "phys_laid 0 (xs @ (k, a) # ys) (unat (total_direct_size s))"
    by (rule dmem_search_start [OF inv])
  have l1: "phys_laid (unat k) ((k, a) # ys) (unat (total_direct_size s))"
    using l by (simp add: laid_append)
  have sub: "set ((k, a) # ys) \<subseteq> set (dmem_map s)" unfolding m by auto
  obtain p n where "available_loop ((k, a) # ys) st en al (0, 0) = Some (p, n)"
    "n \<noteq> 0 \<longrightarrow> available_block (dmem_map s) st en al p n"
    using available_loop_sound [OF l1 nw al sub, of 0 en 0] by auto
  then show ?thesis using k fr by (simp add: DirectQueryAvailable_def)
qed

lemma DirectQueryAvailable_sound_witness:
  "\<exists>p n. DirectQueryAvailable demo_mm 0x20000 0x800000 0x10000 = Some (ORBIS_OK, p, n) \<and>
     (n \<noteq> 0 \<longrightarrow> available_block (dmem_map demo_mm) 0x20000 0x800000 0x10000 p n)"
  by (rule DirectQueryAvailable_sound [OF demo_inv]) simp_all

text \<open>
  For a start that is not aligned the reported size is too large.  The search start is
  rounded up but only its own distance from the area's base is taken off the size, so the
  block can end beyond the free area and beyond all of direct memory.
\<close>

theorem DirectQueryAvailable_overshoots:
  "DirectQueryAvailable demo_mm 0x4000 0x2000000 0x200000 = Some (ORBIS_OK, 0x200000, 0xFFC000) \<and>
   unat (0x200000 + 0xFFC000 :: u64) > unat (total_direct_size demo_mm)"
  by (simp add: DirectQueryAvailable_def FindPhysArea_def sm_floor_def sm_prev_def sm_from_def
      free_area_def available_in_def AlignUp_def GetEnd_def)

text \<open>
  \<^verbatim>\<open>GetDirectMemoryType\<close> answers \<^verbatim>\<open>ENOENT\<close> exactly for addresses outside direct memory or in a
  free area; otherwise it gives the memory type at the address and a range around it with
  the same contents throughout.
\<close>

theorem GetDirectMemoryType_spec:
  assumes inv: "mm_inv s"
  shows "GetDirectMemoryType s addr =
      Some (Inl ORBIS_KERNEL_ERROR_ENOENT) \<and>
      (\<forall>t mt. phys_cells (dmem_map s) (unat addr) = Some (t, mt) \<longrightarrow> t = Phys_Free) \<or>
    (\<exists>t mt lo hi. GetDirectMemoryType s addr = Some (Inr (mt, lo, hi)) \<and> t \<noteq> Phys_Free \<and>
      unat addr \<in> {unat lo..<unat hi} \<and>
      (\<forall>p \<in> {unat lo..<unat hi}. phys_cells (dmem_map s) p = Some (t, mt)))"
proof (cases "addr \<ge> total_direct_size s")
  case True
  have "phys_laid 0 (dmem_map s) (unat (total_direct_size s))" using inv by (simp add: mm_inv_def covers_def)
  then have "phys_cells (dmem_map s) (unat addr) = None"
    using True by (intro cell_None) (auto simp: word_le_nat_alt)
  with True show ?thesis by (simp add: GetDirectMemoryType_def)
next
  case False
  have l: "phys_laid 0 (dmem_map s) (unat (total_direct_size s))"
    and d: "dom (phys_cells (dmem_map s)) = {0..<unat (total_direct_size s)}"
    using inv by (simp_all add: mm_inv_def covers_def)
  have "unat addr \<in> dom (phys_cells (dmem_map s))" using False d by (simp add: word_le_nat_alt)
  then obtain c where "phys_cells (dmem_map s) (unat addr) = Some c" by blast
  then obtain xs k a ys where m: "dmem_map s = xs @ (k, a) # ys" and b: "unat k \<le> unat addr"
    "unat addr < unat k + unat (pa_size a)" by (rule cell_split)
  note l1 = l [unfolded m]
  have w: "pa_base a = k" "unat k + unat (pa_size a) \<le> unat (total_direct_size s)"
    using laid_mem [OF l1, of k a] by (auto simp: phys_wf_def)
  have en: "unat (GetEnd a) = unat k + unat (pa_size a)"
    using w unat_lt64 [of "total_direct_size s"] unfolding GetEnd_def by (simp add: nowrap)
  have cells: "phys_cells (dmem_map s) p = Some (pa_dma_type a, pa_memory_type a)"
    if "p \<in> {unat k..<unat (GetEnd a)}" for p
    using cell_mid [OF l1, of p phys_ct] that en unfolding m by (simp add: phys_ct_def)
  have "FindPhysArea (dmem_map s) addr = Some k" "sm_get (dmem_map s) k = Some a"
    using laid_floor [OF l1 b] laid_sm_ok [OF l1] unfolding m FindPhysArea_def by simp_all
  then have run: "GetDirectMemoryType s addr = Some (if pa_dma_type a = Phys_Free
      then Inl ORBIS_KERNEL_ERROR_ENOENT else Inr (pa_memory_type a, k, GetEnd a))"
    using False w by (simp add: GetDirectMemoryType_def)
  have inr: "unat addr \<in> {unat k..<unat (GetEnd a)}" using b en by simp
  show ?thesis
  proof (cases "pa_dma_type a = Phys_Free")
    case True
    then show ?thesis using run cells [OF inr] by simp
  next
    case False
    then show ?thesis using run cells inr by (intro disjI2 exI conjI) auto
  qed
qed

lemma GetDirectMemoryType_spec_witness:
  "GetDirectMemoryType demo_mm 0x4000 = Some (Inl ORBIS_KERNEL_ERROR_ENOENT)"
proof -
  have "phys_cells (dmem_map demo_mm) 16384 = Some (Phys_Free, 0)"
    by (simp add: free_area_def phys_ct_def)
  then show ?thesis using GetDirectMemoryType_spec [OF demo_inv, of "0x4000"]
    by (auto simp del: demo_mm_fields cell.simps)
qed

end
