(* ===== verification/Memory_Unmap.thy ===== *)
theory Memory_Unmap
  imports Direct_Memory
begin

section \<open>Giving memory back\<close>

text \<open>
  The operations of \<^verbatim>\<open>MemoryManager\<close> that unmap ranges and release physical memory:
  \<^verbatim>\<open>UnmapBytesFromEntry\<close>, \<^verbatim>\<open>UnmapMemoryImpl\<close>, \<^verbatim>\<open>UnmapMemory\<close>, \<^verbatim>\<open>Free\<close> and \<^verbatim>\<open>PoolDecommit\<close>.
  Loops that search the maps anew in every round are partial functions: a round that makes
  no progress and repeats for ever has no result.
\<close>

subsection \<open>Changing a physical range\<close>

text \<open>
  The recurring block: carve the range, set what the area is used for, join it with its
  neighbours.
\<close>

definition retype_phys :: "PhysMap \<Rightarrow> u64 \<Rightarrow> u64 \<Rightarrow> PhysicalMemoryType \<Rightarrow> PhysMap option" where
  "retype_phys m phys_addr n dma_type =
     do {
       (m, h) \<leftarrow> CarvePhysArea m phys_addr n;
       new_area \<leftarrow> sm_get m h;
       (m, _) \<leftarrow> Phys_MergeAdjacent (sm_put m h (new_area\<lparr>pa_dma_type := dma_type\<rparr>)) h;
       Some m
     }"

subsection \<open>Unmapping\<close>

text \<open>The physical areas behind an unmapped range, from the one around its start on.\<close>

fun unmap_phys_loop :: "VMAType \<Rightarrow> u64 \<Rightarrow> PhysMap \<Rightarrow> u64 \<Rightarrow> MemoryManager
    \<Rightarrow> (u64 \<times> MemoryManager) option" where
  "unmap_phys_loop t start_in_vma [] size_to_free s = Some (size_to_free, s)"
| "unmap_phys_loop t start_in_vma ((offset, region) # rest) size_to_free s =
     (if size_to_free > 0
      then do {
        let dma_offset = max offset start_in_vma - offset;
        let phys_addr = pa_base region + dma_offset;
        let size_in_dma = min size_to_free (pa_size region - dma_offset);
        s \<leftarrow> (if t = VMA_Direct
              then do {
                m \<leftarrow> retype_phys (dmem_map s) phys_addr size_in_dma Phys_Allocated;
                Some (s\<lparr>dmem_map := m\<rparr>)
              }
              else if t = VMA_Flexible
              then do {
                m \<leftarrow> retype_phys (fmem_map s) phys_addr size_in_dma Phys_Free;
                let s = host_call (Host_ZeroBacking phys_addr size_in_dma) (s\<lparr>fmem_map := m\<rparr>);
                Some (s\<lparr>flexible_usage := flexible_usage s - size_in_dma\<rparr>)
              }
              else Some s);
        unmap_phys_loop t start_in_vma rest (size_to_free - size_in_dma) s
      }
      else Some (size_to_free, s))"

definition UnmapBytesFromEntry :: "MemoryManager \<Rightarrow> u64 \<Rightarrow> VirtualMemoryArea \<Rightarrow> u64
    \<Rightarrow> (u64 \<times> MemoryManager) option" where
  "UnmapBytesFromEntry s virtual_addr vma_base_copy n =
     (let start_in_vma = virtual_addr - vma_base vma_base_copy;
          size_in_vma = min (vma_size vma_base_copy - start_in_vma) n;
          t = vma_type vma_base_copy
      in if t = VMA_Free \<or> t = VMA_Pooled then Some (size_in_vma, s)
         else do {
           s \<leftarrow> (if vma_phys_areas vma_base_copy \<noteq> []
                 then do {
                   phys_handle \<leftarrow> sm_floor (vma_phys_areas vma_base_copy) start_in_vma;
                   (size_to_free, s) \<leftarrow> unmap_phys_loop t start_in_vma
                     (sm_from (vma_phys_areas vma_base_copy) (Some phys_handle)) size_in_vma s;
                   ASSERT (size_to_free = 0);
                   Some s
                 }
                 else Some s);
           (m, new_it) \<leftarrow> CarveVMA (vma_map s) virtual_addr size_in_vma;
           vma \<leftarrow> sm_get m new_it;
           (m, _) \<leftarrow> VMA_MergeAdjacent (sm_put m new_it
             (vma\<lparr>vma_type := VMA_Free, vma_prot := Prot_NoAccess, vma_phys_areas := [],
                  vma_disallow_merge := False, vma_name := ''''\<rparr>)) new_it;
           let s = s\<lparr>vma_map := m\<rparr>;
           Some (size_in_vma,
             if t \<noteq> VMA_Reserved \<and> t \<noteq> VMA_PoolReserved
             then host_call (Host_Unmap virtual_addr size_in_vma) s else s)
         })"

partial_function (option) unmap_loop :: "u64 \<Rightarrow> u64 \<Rightarrow> u64 \<Rightarrow> MemoryManager \<Rightarrow> MemoryManager option"
  where
  "unmap_loop virtual_addr n unmapped_bytes s =
     do {
       it \<leftarrow> FindVMA (vma_map s) (virtual_addr + unmapped_bytes);
       vma \<leftarrow> sm_get (vma_map s) it;
       (unmapped, s) \<leftarrow> UnmapBytesFromEntry s (virtual_addr + unmapped_bytes) vma (n - unmapped_bytes);
       ASSERT (unmapped > 0);
       let unmapped_bytes = unmapped_bytes + unmapped;
       (if unmapped_bytes < n then unmap_loop virtual_addr n unmapped_bytes s else Some s)
     }"

definition UnmapMemoryImpl :: "MemoryManager \<Rightarrow> u64 \<Rightarrow> u64 \<Rightarrow> (s32 \<times> MemoryManager) option" where
  "UnmapMemoryImpl s virtual_addr n =
     do { s \<leftarrow> unmap_loop virtual_addr n 0 s; Some (ORBIS_OK, s) }"

text \<open>
  A scope that holds a \<^verbatim>\<open>Mutation\<close> of the mapping generation: it finishes when the scope is left
  on any path.
\<close>

definition with_mutation :: "(MemoryManager \<Rightarrow> ('a \<times> MemoryManager) option) \<Rightarrow> MemoryManager
    \<Rightarrow> ('a \<times> MemoryManager) option" where
  "with_mutation body s = do { (r, s) \<leftarrow> body (BeginMutation s); Some (r, FinishMutation s) }"

text \<open>The rasterizer is told about a range the GPU can address.\<close>

definition gpu_range :: "(u64 \<Rightarrow> u64 \<Rightarrow> host_op) \<Rightarrow> u64 \<Rightarrow> u64 \<Rightarrow> MemoryManager \<Rightarrow> MemoryManager option"
  where
  "gpu_range op virtual_addr n s =
     (if IsValidGpuMapping virtual_addr n then gpu_call (op virtual_addr n) s else Some s)"

definition UnmapMemory :: "MemoryManager \<Rightarrow> u64 \<Rightarrow> u64 \<Rightarrow> (s32 \<times> MemoryManager) option" where
  "UnmapMemory s virtual_addr n =
     (if n = 0 then Some (ORBIS_OK, s)
      else do {
        virtual_addr \<leftarrow> AlignDown virtual_addr (KB 16);
        n \<leftarrow> AlignUp n (KB 16);
        assert_valid s virtual_addr n;
        s \<leftarrow> gpu_range Gpu_Unmap virtual_addr n s;
        with_mutation (\<lambda>s. UnmapMemoryImpl s virtual_addr n) s
      })"

subsection \<open>Releasing direct memory\<close>

text \<open>
  The areas to release.  A free area is an error for a checked release and is skipped by an
  unchecked one, where it does not count against the size.
\<close>

fun free_list_loop :: "PhysMap \<Rightarrow> u64 \<Rightarrow> u64 \<Rightarrow> bool \<Rightarrow> (s32 + (u64 \<times> u64) list)" where
  "free_list_loop [] phys_addr remaining_size is_checked = Inr []"
| "free_list_loop ((it, dmem_area) # rest) phys_addr remaining_size is_checked =
     (if remaining_size = 0 then Inr []
      else if pa_dma_type dmem_area = Phys_Free
      then (if is_checked then Inl ORBIS_KERNEL_ERROR_ENOENT
            else free_list_loop rest phys_addr remaining_size is_checked)
      else let current_phys_addr = max phys_addr it;
               start_in_dma = current_phys_addr - it;
               size_in_dma = min remaining_size (pa_size dmem_area - start_in_dma)
           in (case free_list_loop rest phys_addr (remaining_size - size_in_dma) is_checked of
                 Inl e \<Rightarrow> Inl e
               | Inr free_list \<Rightarrow> Inr ((current_phys_addr, size_in_dma) # free_list)))"

text \<open>The ranges of one direct mapping that show the released memory, and those of all mappings.\<close>

fun remove_from_vma :: "u64 \<Rightarrow> u64 \<Rightarrow> u64 \<Rightarrow> PhysMap \<Rightarrow> (u64 \<times> u64) list" where
  "remove_from_vma phys_addr n mapping_base [] = []"
| "remove_from_vma phys_addr n mapping_base ((offset_in_vma, phys_mapping) # rest) =
     (if phys_addr + n > pa_base phys_mapping \<and> phys_addr < pa_base phys_mapping + pa_size phys_mapping
      then let phys_offset = max (pa_base phys_mapping) phys_addr - pa_base phys_mapping;
               addr_in_vma = mapping_base + offset_in_vma + phys_offset;
               unmap_size = min (pa_size phys_mapping - phys_offset) n
           in (addr_in_vma, unmap_size) # remove_from_vma phys_addr n mapping_base rest
      else remove_from_vma phys_addr n mapping_base rest)"

definition remove_list :: "u64 \<Rightarrow> u64 \<Rightarrow> VMAMap \<Rightarrow> (u64 \<times> u64) list" where
  "remove_list phys_addr n m =
     concat (map (\<lambda>(addr, mapping). if vma_type mapping \<noteq> VMA_Direct then []
       else remove_from_vma phys_addr n (vma_base mapping) (vma_phys_areas mapping)) m)"

fun gpu_unmap_list :: "(u64 \<times> u64) list \<Rightarrow> MemoryManager \<Rightarrow> MemoryManager option" where
  "gpu_unmap_list [] s = Some s"
| "gpu_unmap_list ((addr, n) # rest) s =
     do { s \<leftarrow> gpu_range Gpu_Unmap addr n s; gpu_unmap_list rest s }"

fun unmap_list :: "(u64 \<times> u64) list \<Rightarrow> MemoryManager \<Rightarrow> MemoryManager option" where
  "unmap_list [] s = Some s"
| "unmap_list ((addr, n) # rest) s = do { (_, s) \<leftarrow> UnmapMemoryImpl s addr n; unmap_list rest s }"

fun release_list :: "(u64 \<times> u64) list \<Rightarrow> PhysMap \<Rightarrow> PhysMap option" where
  "release_list [] m = Some m"
| "release_list ((phys_addr, n) # rest) m =
     do {
       (m, h) \<leftarrow> CarvePhysArea m phys_addr n;
       new_area \<leftarrow> sm_get m h;
       (m, _) \<leftarrow> Phys_MergeAdjacent
         (sm_put m h (new_area\<lparr>pa_dma_type := Phys_Free, pa_memory_type := 0\<rparr>)) h;
       release_list rest m
     }"

definition Free :: "MemoryManager \<Rightarrow> u64 \<Rightarrow> u64 \<Rightarrow> bool \<Rightarrow> (s32 \<times> MemoryManager) option" where
  "Free s phys_addr n is_checked =
     (if phys_addr > total_direct_size s \<or> (is_checked \<and> phys_addr + n > total_direct_size s)
      then Some (if is_checked then ORBIS_KERNEL_ERROR_ENOENT else ORBIS_OK, s)
      else do {
        phys_handle \<leftarrow> FindPhysArea (dmem_map s) phys_addr;
        (case free_list_loop (sm_from (dmem_map s) (Some phys_handle)) phys_addr n is_checked of
           Inl e \<Rightarrow> Some (e, s)
         | Inr free_list \<Rightarrow>
             do {
               let removed = remove_list phys_addr n (vma_map s);
               s \<leftarrow> gpu_unmap_list removed s;
               with_mutation (\<lambda>s. do {
                 s \<leftarrow> unmap_list removed s;
                 m \<leftarrow> release_list free_list (dmem_map s);
                 Some (ORBIS_OK, s\<lparr>dmem_map := m\<rparr>)
               }) s
             })
      })"

subsection \<open>Pools\<close>

fun decommit_check :: "VMAMap \<Rightarrow> u64 \<Rightarrow> bool" where
  "decommit_check [] end_addr = True"
| "decommit_check ((it, vma) # rest) end_addr =
     (if vma_base vma + vma_size vma \<le> end_addr
      then (if vma_type vma \<noteq> VMA_PoolReserved \<and> vma_type vma \<noteq> VMA_Pooled then False
            else decommit_check rest end_addr)
      else True)"

fun repool_loop :: "u64 \<Rightarrow> PhysMap \<Rightarrow> u64 \<Rightarrow> PhysMap \<Rightarrow> (u64 \<times> PhysMap) option" where
  "repool_loop start_in_vma [] size_to_free m = Some (size_to_free, m)"
| "repool_loop start_in_vma ((offset, region) # rest) size_to_free m =
     (if size_to_free > 0
      then do {
        let dma_offset = max offset start_in_vma - offset;
        let phys_addr = pa_base region + dma_offset;
        let size_in_dma = min size_to_free (pa_size region - dma_offset);
        m \<leftarrow> retype_phys m phys_addr size_in_dma Phys_Pooled;
        repool_loop start_in_vma rest (size_to_free - size_in_dma) m
      }
      else Some (size_to_free, m))"

definition decommit_step :: "u64 \<Rightarrow> u64 \<Rightarrow> MemoryManager \<Rightarrow> (u64 \<times> MemoryManager) option" where
  "decommit_step current_addr remaining_size s =
     do {
       handle \<leftarrow> FindVMA (vma_map s) current_addr;
       vma \<leftarrow> sm_get (vma_map s) handle;
       let start_in_vma = current_addr - vma_base vma;
       let size_in_vma = min remaining_size (vma_size vma - start_in_vma);
       s \<leftarrow> (if vma_type vma = VMA_Pooled
             then do {
               let s = s\<lparr>pool_budget := pool_budget s + size_in_vma\<rparr>;
               phys_handle \<leftarrow> sm_floor (vma_phys_areas vma) start_in_vma;
               (size_to_free, m) \<leftarrow> repool_loop start_in_vma
                 (sm_from (vma_phys_areas vma) (Some phys_handle)) size_in_vma (dmem_map s);
               ASSERT (size_to_free = 0);
               Some (s\<lparr>dmem_map := m\<rparr>)
             }
             else Some s);
       (m, new_it) \<leftarrow> CarveVMA (vma_map s) current_addr size_in_vma;
       vma \<leftarrow> sm_get m new_it;
       (m, _) \<leftarrow> VMA_MergeAdjacent (sm_put m new_it
         (vma\<lparr>vma_type := VMA_PoolReserved, vma_prot := Prot_NoAccess, vma_disallow_merge := False,
              vma_name := ''anon'', vma_phys_areas := []\<rparr>)) new_it;
       Some (size_in_vma, s\<lparr>vma_map := m\<rparr>)
     }"

partial_function (option) decommit_loop :: "u64 \<Rightarrow> u64 \<Rightarrow> MemoryManager \<Rightarrow> MemoryManager option" where
  "decommit_loop current_addr remaining_size s =
     (if remaining_size \<noteq> 0
      then do {
        (size_in_vma, s) \<leftarrow> decommit_step current_addr remaining_size s;
        decommit_loop (current_addr + size_in_vma) (remaining_size - size_in_vma) s
      }
      else Some s)"

definition PoolDecommit :: "MemoryManager \<Rightarrow> u64 \<Rightarrow> u64 \<Rightarrow> (s32 \<times> MemoryManager) option" where
  "PoolDecommit s virtual_addr n =
     do {
       assert_valid s virtual_addr n;
       it \<leftarrow> FindVMA (vma_map s) virtual_addr;
       (if \<not> decommit_check (sm_from (vma_map s) (Some it)) (virtual_addr + n)
        then Some (ORBIS_KERNEL_ERROR_EINVAL, s)
        else do {
          s \<leftarrow> gpu_range Gpu_Unmap virtual_addr n s;
          with_mutation (\<lambda>s. do {
            s \<leftarrow> decommit_loop virtual_addr n s;
            Some (ORBIS_OK, host_call (Host_Unmap virtual_addr n) s)
          }) s
        })
     }"

end
