(* ===== verification/Memory_Mapping.thy ===== *)
theory Memory_Mapping
  imports Memory_Unmap
begin

section \<open>Mapping memory\<close>

text \<open>
  The operations of \<^verbatim>\<open>MemoryManager\<close> that create mappings: \<^verbatim>\<open>SearchFree\<close>, \<^verbatim>\<open>CreateArea\<close>,
  \<^verbatim>\<open>MapMemory\<close>, \<^verbatim>\<open>MapFile\<close> and \<^verbatim>\<open>PoolCommit\<close>.
\<close>

subsection \<open>Searching the address space\<close>

fun search_free_loop :: "VMAMap \<Rightarrow> u64 \<Rightarrow> u64 \<Rightarrow> u64 \<Rightarrow> u64 option" where
  "search_free_loop [] n alignment max_search_address = Some (- 1)"
| "search_free_loop ((it, vma) # rest) n alignment max_search_address =
     (if \<not> VMA_IsFree vma then search_free_loop rest n alignment max_search_address
      else do {
        virtual_addr \<leftarrow> AlignUp (vma_base vma) alignment;
        (if virtual_addr > vma_base vma + vma_size vma
         then search_free_loop rest n alignment max_search_address
         else if virtual_addr \<ge> max_search_address then Some (- 1)
         else if vma_base vma + vma_size vma - virtual_addr \<ge> n then Some virtual_addr
         else search_free_loop rest n alignment max_search_address)
      })"

text \<open>The alignment parameter is 32 bits wide; \<open>-1\<close> is the failure.\<close>

definition SearchFree :: "MemoryManager \<Rightarrow> u64 \<Rightarrow> u64 \<Rightarrow> u32 \<Rightarrow> u64 option" where
  "SearchFree s virtual_addr n alignment =
     do {
       let min_search_address = SystemManagedVirtualBase s;
       let max_search_address = UserVirtualBase s + UserVirtualSize s;
       let virtual_addr = (if virtual_addr < min_search_address then min_search_address
                           else virtual_addr);
       assert_valid s virtual_addr 0;
       virtual_addr \<leftarrow> AlignUp virtual_addr (ucast alignment);
       it \<leftarrow> FindVMA (vma_map s) virtual_addr;
       vma \<leftarrow> sm_get (vma_map s) it;
       (if VMA_IsFree vma \<and> VMA_Contains vma virtual_addr n then Some virtual_addr
        else search_free_loop (sm_from (vma_map s) (sm_next (vma_map s) it)) n (ucast alignment)
               max_search_address)
     }"

subsection \<open>Creating an area\<close>

text \<open>A fixed mapping first unmaps whatever is in its place, one area after another.\<close>

partial_function (option) fixed_unmap_loop :: "u64 \<Rightarrow> u64 \<Rightarrow> VirtualMemoryArea \<Rightarrow> MemoryManager
    \<Rightarrow> MemoryManager option" where
  "fixed_unmap_loop unmap_addr unmap_size vma s =
     (if unmap_size > 0
      then do {
        (unmapped, s) \<leftarrow> UnmapBytesFromEntry s unmap_addr vma unmap_size;
        it \<leftarrow> FindVMA (vma_map s) (unmap_addr + unmapped);
        vma \<leftarrow> sm_get (vma_map s) it;
        fixed_unmap_loop (unmap_addr + unmapped) (unmap_size - unmapped) vma s
      }
      else Some s)"

text \<open>On the PS4, reading comes with writing.\<close>

definition append_read :: "MemoryProt \<Rightarrow> MemoryProt" where
  "append_read prot = (if flag_set prot Prot_CpuWrite then prot OR Prot_CpuRead else prot)"

definition CreateArea :: "MemoryManager \<Rightarrow> u64 \<Rightarrow> u64 \<Rightarrow> MemoryProt \<Rightarrow> MemoryMapFlags \<Rightarrow> VMAType
    \<Rightarrow> string \<Rightarrow> (u64 \<times> MemoryManager) option" where
  "CreateArea s virtual_addr n prot flags type name =
     do {
       it \<leftarrow> FindVMA (vma_map s) virtual_addr;
       vma \<leftarrow> sm_get (vma_map s) it;
       s \<leftarrow> (if flag_set flags Map_Fixed then fixed_unmap_loop virtual_addr n vma s else Some s);
       it \<leftarrow> FindVMA (vma_map s) virtual_addr;
       vma \<leftarrow> sm_get (vma_map s) it;
       ASSERT (VMA_IsFree vma);
       (m, new_vma_handle) \<leftarrow> CarveVMA (vma_map s) virtual_addr n;
       new_vma \<leftarrow> sm_get m new_vma_handle;
       let prot = append_read prot;
       let m = sm_put m new_vma_handle (new_vma\<lparr>vma_disallow_merge := flag_set flags Map_NoCoalesce,
         vma_prot := prot, vma_name := name, vma_type := type, vma_phys_areas := []\<rparr>);
       Some (new_vma_handle, s\<lparr>vma_map := m\<rparr>)
     }"

text \<open>A physical area becomes part of the backing of a virtual area.\<close>

definition add_backing :: "u64 \<Rightarrow> u64 \<Rightarrow> PhysicalMemoryArea \<Rightarrow> MemoryManager \<Rightarrow> MemoryManager option"
  where
  "add_backing vma_handle offset area s =
     do {
       vma \<leftarrow> sm_get (vma_map s) vma_handle;
       (areas, _) \<leftarrow> Phys_MergeAdjacent (sm_put (vma_phys_areas vma) offset area) offset;
       Some (s\<lparr>vma_map := sm_put (vma_map s) vma_handle (vma\<lparr>vma_phys_areas := areas\<rparr>)\<rparr>)
     }"

subsection \<open>Mapping\<close>

fun validate_dmem_loop :: "PhysMap \<Rightarrow> u64 \<Rightarrow> bool \<Rightarrow> s32" where
  "validate_dmem_loop [] end_addr validate_dmem = ORBIS_OK"
| "validate_dmem_loop ((it, area) # rest) end_addr validate_dmem =
     (if pa_base area < end_addr
      then (if pa_dma_type area \<noteq> Phys_Allocated \<and> pa_dma_type area \<noteq> Phys_Mapped
            then ORBIS_KERNEL_ERROR_ENOMEM
            else if validate_dmem \<and> pa_dma_type area = Phys_Mapped then ORBIS_KERNEL_ERROR_EBUSY
            else validate_dmem_loop rest end_addr validate_dmem)
      else ORBIS_OK)"

text \<open>
  Backing a flexible mapping: the first free areas of the flexible map, as many as it takes.
  The result is the size left to map.
\<close>

partial_function (option) map_flexible_loop :: "u64 \<Rightarrow> u64 \<Rightarrow> bool \<Rightarrow> u64 option \<Rightarrow> u64 \<Rightarrow> u64
    \<Rightarrow> MemoryManager \<Rightarrow> (u64 \<times> MemoryManager) option" where
  "map_flexible_loop new_vma_handle mapped_addr is_exec handle remaining_size current_addr s =
     (case handle of
        None \<Rightarrow> Some (remaining_size, s)
      | Some h \<Rightarrow>
          (if remaining_size \<noteq> 0
           then do {
             area \<leftarrow> sm_get (fmem_map s) h;
             (if pa_dma_type area \<noteq> Phys_Free
              then map_flexible_loop new_vma_handle mapped_addr is_exec (sm_next (fmem_map s) h)
                     remaining_size current_addr s
              else do {
                let size_to_map = min remaining_size (pa_size area);
                (m, nh) \<leftarrow> CarvePhysArea (fmem_map s) (pa_base area) size_to_map;
                new_area \<leftarrow> sm_get m nh;
                let new_area = new_area\<lparr>pa_dma_type := Phys_Flexible\<rparr>;
                let m = sm_put m nh new_area;
                s \<leftarrow> add_backing new_vma_handle (current_addr - mapped_addr) new_area s;
                let s = host_call (Host_Map current_addr size_to_map (pa_base new_area) is_exec) s;
                (m, h) \<leftarrow> Phys_MergeAdjacent m nh;
                map_flexible_loop new_vma_handle mapped_addr is_exec (sm_next m h)
                  (remaining_size - size_to_map) (current_addr + size_to_map)
                  (s\<lparr>fmem_map := m, flexible_usage := flexible_usage s + size_to_map\<rparr>)
              })
           }
           else Some (remaining_size, s)))"

text \<open>Backing a direct mapping: the requested physical range, area by area.\<close>

partial_function (option) map_direct_loop :: "u64 \<Rightarrow> u64 \<Rightarrow> u64 option \<Rightarrow> u64 \<Rightarrow> u64
    \<Rightarrow> MemoryManager \<Rightarrow> (u64 \<times> MemoryManager) option" where
  "map_direct_loop new_vma_handle phys_addr dmem_area remaining_size current_phys_addr s =
     (case dmem_area of
        None \<Rightarrow> Some (remaining_size, s)
      | Some h \<Rightarrow>
          (if remaining_size > 0
           then do {
             area \<leftarrow> sm_get (dmem_map s) h;
             let start_phys_addr = max current_phys_addr (pa_base area);
             let offset_in_dma = start_phys_addr - pa_base area;
             let size_in_dma = min (pa_size area - offset_in_dma) remaining_size;
             (m, dmem_handle) \<leftarrow> CarvePhysArea (dmem_map s) start_phys_addr size_in_dma;
             new_area \<leftarrow> sm_get m dmem_handle;
             let new_area = new_area\<lparr>pa_dma_type := Phys_Mapped\<rparr>;
             s \<leftarrow> add_backing new_vma_handle (current_phys_addr - phys_addr) new_area s;
             (m, _) \<leftarrow> Phys_MergeAdjacent (sm_put m dmem_handle new_area) dmem_handle;
             let current_phys_addr = current_phys_addr + size_in_dma;
             map_direct_loop new_vma_handle phys_addr (FindPhysArea m current_phys_addr)
               (remaining_size - size_in_dma) current_phys_addr (s\<lparr>dmem_map := m\<rparr>)
           }
           else Some (remaining_size, s)))"

text \<open>
  The target of a mapping: fixed without overwriting must be free, and without \<open>Fixed\<close> a free
  place is searched.  An \<open>Inl\<close> is the error of the call.
\<close>

definition map_target :: "MemoryManager \<Rightarrow> u64 \<Rightarrow> u64 \<Rightarrow> MemoryMapFlags \<Rightarrow> u64
    \<Rightarrow> (s32 + u64) option" where
  "map_target s virtual_addr n flags alignment =
     (if flag_set flags Map_Fixed \<and> flag_set flags Map_NoOverwrite
      then do {
        assert_valid s virtual_addr n;
        it \<leftarrow> FindVMA (vma_map s) virtual_addr;
        vma \<leftarrow> sm_get (vma_map s) it;
        let remaining_size = vma_base vma + vma_size vma - virtual_addr;
        Some (if \<not> VMA_IsFree vma \<or> remaining_size < n then Inl ORBIS_KERNEL_ERROR_ENOMEM
              else Inr virtual_addr)
      }
      else if \<not> flag_set flags Map_Fixed
      then do {
        let virtual_addr = (if virtual_addr = 0 then DEFAULT_MAPPING_BASE else virtual_addr);
        virtual_addr \<leftarrow> SearchFree s virtual_addr n (ucast alignment);
        Some (if virtual_addr = - 1 then Inl ORBIS_KERNEL_ERROR_ENOMEM else Inr virtual_addr)
      }
      else Some (Inr virtual_addr))"

text \<open>
  What \<^verbatim>\<open>MapMemory\<close> does under the mutation of the mapping generation: the area, its backing and
  the host mapping.  The result is the address it mapped.
\<close>

definition map_body :: "u64 \<Rightarrow> u64 \<Rightarrow> MemoryProt \<Rightarrow> MemoryMapFlags \<Rightarrow> VMAType \<Rightarrow> string \<Rightarrow> u64
    \<Rightarrow> MemoryManager \<Rightarrow> (u64 \<times> MemoryManager) option" where
  "map_body virtual_addr n prot flags type name phys_addr s =
     do {
       (new_vma_handle, s) \<leftarrow> CreateArea s virtual_addr n prot flags type name;
       new_vma \<leftarrow> sm_get (vma_map s) new_vma_handle;
       let mapped_addr = vma_base new_vma;
       let is_exec = flag_set prot Prot_CpuExec;
       s \<leftarrow> (if type = VMA_Flexible
             then do {
               (remaining_size, s) \<leftarrow> map_flexible_loop new_vma_handle mapped_addr is_exec
                 (sm_begin (fmem_map s)) n mapped_addr s;
               ASSERT (remaining_size = 0);
               Some s
             }
             else if type = VMA_Direct
             then do {
               (remaining_size, s) \<leftarrow> map_direct_loop new_vma_handle phys_addr
                 (FindPhysArea (dmem_map s) phys_addr) n phys_addr s;
               ASSERT (remaining_size = 0);
               Some s
             }
             else Some s);
       s \<leftarrow> (if type \<noteq> VMA_Direct \<or> sint (sdk_version s) \<ge> sint FW_200
             then do {
               (m, _) \<leftarrow> VMA_MergeAdjacent (vma_map s) new_vma_handle;
               Some (s\<lparr>vma_map := m\<rparr>)
             }
             else Some s);
       Some (mapped_addr,
         if type \<noteq> VMA_Reserved \<and> type \<noteq> VMA_PoolReserved \<and> type \<noteq> VMA_Flexible
         then host_call (Host_Map mapped_addr n phys_addr is_exec) s else s)
     }"

text \<open>The return value, the address written to \<open>out_addr\<close> if any, and the state.\<close>

definition MapMemory :: "MemoryManager \<Rightarrow> u64 \<Rightarrow> u64 \<Rightarrow> MemoryProt \<Rightarrow> MemoryMapFlags \<Rightarrow> VMAType
    \<Rightarrow> string \<Rightarrow> bool \<Rightarrow> u64 \<Rightarrow> u64 \<Rightarrow> (s32 \<times> u64 option \<times> MemoryManager) option" where
  "MapMemory s virtual_addr n prot flags type name validate_dmem phys_addr alignment =
     (if type = VMA_Flexible \<and> flexible_usage s + n > total_flexible_size s
      then Some (ORBIS_KERNEL_ERROR_EINVAL, None, s)
      else do {
        dmem_error \<leftarrow>
          (if phys_addr \<noteq> - 1
           then (if total_direct_size s < phys_addr + n then Some ORBIS_KERNEL_ERROR_ENOMEM
                 else do {
                   dmem_area \<leftarrow> FindPhysArea (dmem_map s) phys_addr;
                   Some (validate_dmem_loop (sm_from (dmem_map s) (Some dmem_area)) (phys_addr + n)
                           validate_dmem)
                 })
           else Some ORBIS_OK);
        (if dmem_error \<noteq> ORBIS_OK then Some (dmem_error, None, s)
         else do {
           target \<leftarrow> map_target s virtual_addr n flags
             (if alignment > 0 then alignment else KB 16);
           (case target of
              Inl e \<Rightarrow> Some (e, None, s)
            | Inr virtual_addr \<Rightarrow>
                do {
                  s \<leftarrow> gpu_range Gpu_Unmap virtual_addr n s;
                  (mapped_addr, s) \<leftarrow> with_mutation
                    (map_body virtual_addr n prot flags type name phys_addr) s;
                  s \<leftarrow> (if type \<noteq> VMA_Reserved \<and> type \<noteq> VMA_PoolReserved
                        then gpu_range Gpu_Map mapped_addr n s else Some s);
                  Some (ORBIS_OK, Some mapped_addr, s)
                })
         })
      })"

text \<open>
  What \<^verbatim>\<open>MapFile\<close> asks the handle table for: whether the file is regular, its mapping handle,
  the access mode and the size.  The handle table and the host's page size are parameters.
\<close>

record MappedFile =
  mf_regular :: bool
  mf_handle :: u64
  mf_write :: bool
  mf_append :: bool
  mf_size :: u64

definition file_prot :: "MappedFile \<Rightarrow> MemoryProt \<Rightarrow> MemoryProt" where
  "file_prot file prot =
     (let prot = append_read prot
      in if \<not> mf_write file \<and> \<not> mf_append file then prot AND NOT Prot_CpuWrite else prot)"

definition MapFile :: "(s32 \<Rightarrow> MappedFile option) \<Rightarrow> u64 \<Rightarrow> MemoryManager \<Rightarrow> u64 \<Rightarrow> u64 \<Rightarrow> MemoryProt
    \<Rightarrow> MemoryMapFlags \<Rightarrow> s32 \<Rightarrow> s64 \<Rightarrow> (s32 \<times> u64 option \<times> MemoryManager) option" where
  "MapFile GetFile host_page s virtual_addr n prot flags fd phys_addr =
     (case GetFile fd of
        None \<Rightarrow> Some (ORBIS_KERNEL_ERROR_EBADF, None, s)
      | Some file \<Rightarrow>
          (if \<not> mf_regular file then Some (ORBIS_KERNEL_ERROR_EBADF, None, s)
           else do {
             let prot = file_prot file prot;
             ASSERT (\<not> prot \<ge> Prot_GpuRead);
             let prot = (if flag_set prot Prot_CpuExec then prot AND NOT Prot_CpuExec else prot);
             target \<leftarrow> map_target s virtual_addr n flags (KB 16);
             (case target of
                Inl e \<Rightarrow> Some (e, None, s)
              | Inr virtual_addr \<Rightarrow>
                  do {
                    s \<leftarrow> gpu_range Gpu_Unmap virtual_addr n s;
                    (mapped_addr, s) \<leftarrow> with_mutation (\<lambda>s. do {
                      (new_vma_handle, s) \<leftarrow> CreateArea s virtual_addr n prot flags VMA_File ''anon'';
                      new_vma \<leftarrow> sm_get (vma_map s) new_vma_handle;
                      let s = s\<lparr>vma_map := sm_put (vma_map s) new_vma_handle
                                  (new_vma\<lparr>vma_fd := fd\<rparr>)\<rparr>;
                      let mapped_addr = vma_base new_vma;
                      let s = host_call (Host_MapFile mapped_addr n phys_addr prot (mf_handle file)) s;
                      let file_bytes = (if mf_size file > phys_addr then mf_size file - phys_addr
                                        else 0);
                      aligned_bytes \<leftarrow> AlignUp file_bytes host_page;
                      let valid_size = min n aligned_bytes;
                      let s = (if valid_size < n
                               then host_call (Host_Map (mapped_addr + valid_size) (n - valid_size)
                                      (- 1) False) s
                               else s);
                      Some (mapped_addr, s)
                    }) s;
                    Some (ORBIS_OK, Some mapped_addr, s)
                  })
           }))"

subsection \<open>Committing pool memory\<close>

partial_function (option) commit_loop :: "u64 \<Rightarrow> u64 \<Rightarrow> s32 \<Rightarrow> u64 option \<Rightarrow> u64 \<Rightarrow> u64
    \<Rightarrow> MemoryManager \<Rightarrow> (u64 \<times> MemoryManager) option" where
  "commit_loop new_vma_handle mapped_addr mtype handle remaining_size current_addr s =
     (case handle of
        None \<Rightarrow> Some (remaining_size, s)
      | Some h \<Rightarrow>
          (if remaining_size > 0
           then do {
             area \<leftarrow> sm_get (dmem_map s) h;
             (if pa_dma_type area \<noteq> Phys_Pooled
              then commit_loop new_vma_handle mapped_addr mtype (sm_next (dmem_map s) h)
                     remaining_size current_addr s
              else do {
                let size_to_map = min remaining_size (pa_size area);
                (m, nh) \<leftarrow> CarvePhysArea (dmem_map s) (pa_base area) size_to_map;
                new_area \<leftarrow> sm_get m nh;
                let new_area = new_area\<lparr>pa_dma_type := Phys_Committed, pa_memory_type := mtype\<rparr>;
                let m = sm_put m nh new_area;
                s \<leftarrow> add_backing new_vma_handle (current_addr - mapped_addr) new_area s;
                let s = host_call (Host_Map current_addr size_to_map (pa_base new_area) False) s;
                (m, h) \<leftarrow> Phys_MergeAdjacent m nh;
                commit_loop new_vma_handle mapped_addr mtype (sm_next m h)
                  (remaining_size - size_to_map) (current_addr + size_to_map) (s\<lparr>dmem_map := m\<rparr>)
              })
           }
           else Some (remaining_size, s)))"

definition PoolCommit :: "MemoryManager \<Rightarrow> u64 \<Rightarrow> u64 \<Rightarrow> MemoryProt \<Rightarrow> s32
    \<Rightarrow> (s32 \<times> MemoryManager) option" where
  "PoolCommit s virtual_addr n prot mtype =
     do {
       (r, s) \<leftarrow> with_mutation (\<lambda>s. do {
         assert_valid s virtual_addr n;
         mapped_addr \<leftarrow> AlignUp virtual_addr (KB 64);
         it \<leftarrow> FindVMA (vma_map s) mapped_addr;
         vma \<leftarrow> sm_get (vma_map s) it;
         (if vma_type vma \<noteq> VMA_PoolReserved then Some (Inl ORBIS_KERNEL_ERROR_EINVAL, s)
          else if \<not> VMA_Contains vma mapped_addr n then Some (Inl ORBIS_KERNEL_ERROR_EINVAL, s)
          else if pool_budget s \<le> n then Some (Inl ORBIS_KERNEL_ERROR_ENOMEM, s)
          else do {
            let s = s\<lparr>pool_budget := pool_budget s - n\<rparr>;
            let prot = append_read prot;
            (m, new_vma_handle) \<leftarrow> CarveVMA (vma_map s) virtual_addr n;
            new_vma \<leftarrow> sm_get m new_vma_handle;
            let m = sm_put m new_vma_handle (new_vma\<lparr>vma_disallow_merge := False, vma_prot := prot,
              vma_name := ''anon'', vma_type := VMA_Pooled, vma_phys_areas := []\<rparr>);
            let s = s\<lparr>vma_map := m\<rparr>;
            (remaining_size, s) \<leftarrow> commit_loop new_vma_handle mapped_addr mtype
              (sm_begin (dmem_map s)) n mapped_addr s;
            ASSERT (remaining_size = 0);
            (m, _) \<leftarrow> VMA_MergeAdjacent (vma_map s) new_vma_handle;
            Some (Inr mapped_addr, s\<lparr>vma_map := m\<rparr>)
          })
       }) s;
       (case r of
          Inl e \<Rightarrow> Some (e, s)
        | Inr mapped_addr \<Rightarrow>
            do { s \<leftarrow> gpu_range Gpu_Map mapped_addr n s; Some (ORBIS_OK, s) })
     }"

end
