(* ===== verification/Memory_Protect.thy ===== *)
theory Memory_Protect
  imports Memory_Mapping
begin

section \<open>Protection, queries and data access\<close>

text \<open>
  The operations of \<^verbatim>\<open>MemoryManager\<close> that change the protection, the memory type or the name
  of mapped ranges, those that answer queries about virtual memory, and those that copy
  data through it.
\<close>

subsection \<open>Protection\<close>

definition host_perms :: "MemoryProt \<Rightarrow> MemoryPermission" where
  "host_perms prot =
     (let perms = 0;
          perms = (if flag_set prot Prot_CpuRead then perms OR Perm_Read else perms);
          perms = (if flag_set prot Prot_CpuReadWrite then perms OR Perm_ReadWrite else perms);
          perms = (if flag_set prot Prot_CpuExec then perms OR Perm_Execute else perms);
          perms = (if flag_set prot Prot_GpuRead then perms OR Perm_Read else perms);
          perms = (if flag_set prot Prot_GpuWrite then perms OR Perm_Write else perms)
      in if flag_set prot Prot_GpuReadWrite then perms OR Perm_ReadWrite else perms)"

text \<open>
  \<open>it\<close> is the entry the reference \<^verbatim>\<open>vma_base\<close> stands for.  The reference is read again after
  the areas were joined, which is undefined when joining erased the entry.
\<close>

definition ProtectBytes :: "MemoryManager \<Rightarrow> u64 \<Rightarrow> u64 \<Rightarrow> u64 \<Rightarrow> MemoryProt
    \<Rightarrow> (s64 \<times> MemoryManager) option" where
  "ProtectBytes s addr it n prot =
     do {
       area \<leftarrow> sm_get (vma_map s) it;
       let start_in_vma = addr - vma_base area;
       let adjusted_size = min (vma_size area - start_in_vma) n;
       let old_prot = vma_prot area;
       let new_prot = prot;
       (if vma_type area = VMA_Free \<or> vma_type area = VMA_PoolReserved then Some (adjusted_size, s)
        else do {
          let prot = append_read prot;
          let perms = host_perms prot;
          let prot = (if vma_type area = VMA_Direct \<or> vma_type area = VMA_Pooled \<or>
                         vma_type area = VMA_File
                      then prot AND NOT Prot_CpuExec else prot);
          (m, new_it) \<leftarrow> CarveVMA (vma_map s) addr adjusted_size;
          new_vma \<leftarrow> sm_get m new_it;
          (m, _) \<leftarrow> VMA_MergeAdjacent (sm_put m new_it (new_vma\<lparr>vma_prot := prot\<rparr>)) new_it;
          let s = s\<lparr>vma_map := m\<rparr>;
          area \<leftarrow> sm_get m it;
          Some (adjusted_size,
            if vma_type area = VMA_Reserved then s
            else if new_prot \<noteq> old_prot then host_call (Host_Protect addr adjusted_size perms) s
            else s)
        })
     }"

text \<open>The loop of \<^verbatim>\<open>Protect\<close>; a negative result of \<open>ProtectBytes\<close> is returned as the error.\<close>

partial_function (option) protect_loop :: "u64 \<Rightarrow> u64 \<Rightarrow> MemoryProt \<Rightarrow> u64 \<Rightarrow> MemoryManager
    \<Rightarrow> (s32 \<times> MemoryManager) option" where
  "protect_loop addr n prot protected_bytes s =
     (if protected_bytes < n
      then do {
        it \<leftarrow> FindVMA (vma_map s) (addr + protected_bytes);
        area \<leftarrow> sm_get (vma_map s) it;
        let protected_bytes = (if vma_base area > addr + protected_bytes
                               then protected_bytes + (vma_base area - (addr + protected_bytes))
                               else protected_bytes);
        (result, s) \<leftarrow> ProtectBytes s (addr + protected_bytes) it (n - protected_bytes) prot;
        (if sint result < 0 then Some (ucast result, s)
         else protect_loop addr n prot (protected_bytes + result) s)
      }
      else Some (ORBIS_OK, s))"

text \<open>The mask of valid flags is computed but the loop is given the caller's protection.\<close>

definition Protect :: "MemoryManager \<Rightarrow> u64 \<Rightarrow> u64 \<Rightarrow> MemoryProt \<Rightarrow> (s32 \<times> MemoryManager) option" where
  "Protect s addr n prot =
     (if n = 0 then Some (ORBIS_OK, s)
      else with_mutation (\<lambda>s. do {
        assert_valid s addr n;
        let flag_mask = Prot_CpuReadWrite OR Prot_CpuExec OR Prot_GpuReadWrite;
        let valid_flags = prot AND flag_mask;
        protect_loop addr n prot 0 s
      }) s)"

partial_function (option) seal_loop :: "VMAMap \<Rightarrow> u64 \<Rightarrow> u64 \<Rightarrow> bool option" where
  "seal_loop m end_addr cursor =
     (if cursor < end_addr
      then do {
        it \<leftarrow> FindVMA m cursor;
        vma \<leftarrow> sm_get m it;
        (if vma_base vma > cursor \<or> VMA_IsFree vma \<or> vma_type vma = VMA_Reserved \<or>
            vma_type vma = VMA_PoolReserved \<or> \<not> flag_set (vma_prot vma) Prot_CpuExec \<or>
            flag_set (vma_prot vma) Prot_CpuWrite
         then Some False
         else let vma_end = vma_base vma + vma_size vma
              in if vma_end \<le> cursor then Some False
                 else seal_loop m end_addr (min end_addr vma_end))
      }
      else Some True)"

definition SealGuestExecutable :: "MemoryManager \<Rightarrow> u64 \<Rightarrow> u64 \<Rightarrow> (s32 \<times> MemoryManager) option" where
  "SealGuestExecutable s addr n =
     (if n = 0 then Some (ORBIS_OK, s)
      else do {
        valid \<leftarrow> IsValidMapping s addr n;
        (if \<not> valid \<or> addr > - 1 - n then Some (ORBIS_KERNEL_ERROR_EACCES, s)
         else do {
           sealable \<leftarrow> seal_loop (vma_map s) (addr + n) addr;
           Some (if sealable
                 then (ORBIS_OK, host_call (Host_Protect addr n (Perm_Read OR Perm_Execute)) s)
                 else (ORBIS_KERNEL_ERROR_EACCES, s))
         })
      })"

subsection \<open>Queries\<close>

text \<open>The error, or the start, the end, the protection and the mapping generation.\<close>

definition QueryProtection :: "MemoryManager \<Rightarrow> u64 \<Rightarrow> (s32 + u64 \<times> u64 \<times> u32 \<times> u64) option" where
  "QueryProtection s addr =
     (if addr < SystemManagedVirtualBase s then Some (Inl ORBIS_KERNEL_ERROR_EACCES)
      else do {
        it \<leftarrow> FindVMA (vma_map s) addr;
        vma \<leftarrow> sm_get (vma_map s) it;
        Some (if VMA_IsFree vma then Inl ORBIS_KERNEL_ERROR_EACCES
              else Inr (vma_base vma, vma_base vma + vma_size vma, vma_prot vma, MappingGeneration s))
      })"

record OrbisVirtualQueryInfo =
  vq_start :: u64
  vq_end :: u64
  vq_offset :: u64
  vq_protection :: s32
  vq_memory_type :: s32
  vq_is_flexible :: bool
  vq_is_direct :: bool
  vq_is_stack :: bool
  vq_is_pooled :: bool
  vq_is_committed :: bool
  vq_name :: string

definition ORBIS_KERNEL_MAXIMUM_NAME_LENGTH :: nat where
  "ORBIS_KERNEL_MAXIMUM_NAME_LENGTH = 32"

fun skip_free_vma :: "VMAMap \<Rightarrow> s32 \<Rightarrow> VMAMap" where
  "skip_free_vma [] flags = []"
| "skip_free_vma ((it, vma) # rest) flags =
     (if vma_type vma = VMA_Free \<and> flags = 1 then skip_free_vma rest flags else (it, vma) # rest)"

definition vma_query_info :: "VirtualMemoryArea \<Rightarrow> OrbisVirtualQueryInfo option" where
  "vma_query_info vma =
     do {
       let direct = (vma_type vma = VMA_Direct);
       ASSERT (direct \<longrightarrow> vma_phys_areas vma \<noteq> []);
       let first_area = snd (hd (vma_phys_areas vma));
       Some \<lparr>vq_start = vma_base vma, vq_end = vma_base vma + vma_size vma,
             vq_offset = (if direct then pa_base first_area else 0),
             vq_protection = (if vma_type vma = VMA_Reserved \<or> vma_type vma = VMA_PoolReserved then 0
                              else vma_prot vma),
             vq_memory_type = (if direct then pa_memory_type first_area else 0),
             vq_is_flexible = (vma_type vma = VMA_Flexible), vq_is_direct = direct,
             vq_is_stack = (vma_type vma = VMA_Stack),
             vq_is_pooled = (vma_type vma = VMA_PoolReserved \<or> vma_type vma = VMA_Pooled),
             vq_is_committed = VMA_IsMapped vma,
             vq_name = take ORBIS_KERNEL_MAXIMUM_NAME_LENGTH (vma_name vma)\<rparr>
     }"

definition VirtualQuery :: "MemoryManager \<Rightarrow> u64 \<Rightarrow> s32 \<Rightarrow> (s32 + OrbisVirtualQueryInfo) option" where
  "VirtualQuery s addr flags =
     (let query_addr = (if addr < SystemManagedVirtualBase s then SystemManagedVirtualBase s else addr)
      in if addr < query_addr \<and> flags = 0 then Some (Inl ORBIS_KERNEL_ERROR_EACCES)
         else do {
           it \<leftarrow> FindVMA (vma_map s) query_addr;
           (case skip_free_vma (sm_from (vma_map s) (Some it)) flags of
              [] \<Rightarrow> Some (Inl ORBIS_KERNEL_ERROR_EACCES)
            | (it, vma) # _ \<Rightarrow>
                (if vma_type vma = VMA_Free then Some (Inl ORBIS_KERNEL_ERROR_EACCES)
                 else map_option Inr (vma_query_info vma)))
         })"

text \<open>The error, or the bounds of the stack around the address, zero when it is not one.\<close>

definition IsStack :: "MemoryManager \<Rightarrow> u64 \<Rightarrow> (s32 + u64 \<times> u64) option" where
  "IsStack s addr =
     do {
       assert_valid s addr 0;
       it \<leftarrow> FindVMA (vma_map s) addr;
       vma \<leftarrow> sm_get (vma_map s) it;
       Some (if VMA_IsFree vma then Inl ORBIS_KERNEL_ERROR_EACCES
             else if vma_type vma = VMA_Stack then Inr (vma_base vma, vma_base vma + vma_size vma)
             else Inr (0, 0))
     }"

subsection \<open>Memory types and names\<close>

text \<open>The areas behind a virtual area: their type, and that of direct memory, changes.\<close>

fun set_type_loop :: "s32 \<Rightarrow> PhysMap \<Rightarrow> PhysMap \<Rightarrow> (PhysMap \<times> PhysMap) option" where
  "set_type_loop memory_type [] m = Some ([], m)"
| "set_type_loop memory_type ((offset, region) # rest) m =
     do {
       let region = region\<lparr>pa_memory_type := memory_type\<rparr>;
       (m, h) \<leftarrow> CarvePhysArea m (pa_base region) (pa_size region);
       dmem_area \<leftarrow> sm_get m h;
       (rest, m) \<leftarrow> set_type_loop memory_type rest
         (sm_put m h (dmem_area\<lparr>pa_memory_type := memory_type\<rparr>));
       Some ((offset, region) # rest, m)
     }"

text \<open>After the round, the iterator is moved on once the area at it lies behind the address.\<close>

definition next_round :: "VMAMap \<Rightarrow> u64 \<Rightarrow> u64 \<Rightarrow> (VMAMap \<times> u64 option) option" where
  "next_round m it current_addr =
     do {
       (m, it) \<leftarrow> VMA_MergeAdjacent m it;
       vma \<leftarrow> sm_get m it;
       Some (m, if vma_base vma + vma_size vma \<le> current_addr then sm_next m it else Some it)
     }"

partial_function (option) set_memory_type_loop :: "s32 \<Rightarrow> u64 option \<Rightarrow> u64 \<Rightarrow> u64
    \<Rightarrow> MemoryManager \<Rightarrow> MemoryManager option" where
  "set_memory_type_loop memory_type vma_handle current_addr remaining_size s =
     (case vma_handle of
        None \<Rightarrow> Some s
      | Some h \<Rightarrow>
          (if remaining_size > 0
           then do {
             vma \<leftarrow> sm_get (vma_map s) h;
             let start_in_vma = current_addr - vma_base vma;
             let size_in_vma = min remaining_size (vma_size vma - start_in_vma);
             (h, s) \<leftarrow> (if vma_type vma = VMA_Direct \<or> vma_type vma = VMA_Pooled
               then do {
                 (m, h) \<leftarrow> CarveVMA (vma_map s) current_addr size_in_vma;
                 vma \<leftarrow> sm_get m h;
                 (areas, dm) \<leftarrow> set_type_loop memory_type (vma_phys_areas vma) (dmem_map s);
                 Some (h, s\<lparr>vma_map := sm_put m h (vma\<lparr>vma_phys_areas := areas\<rparr>), dmem_map := dm\<rparr>)
               }
               else Some (h, s));
             let current_addr = current_addr + size_in_vma;
             (m, vma_handle) \<leftarrow> next_round (vma_map s) h current_addr;
             set_memory_type_loop memory_type vma_handle current_addr (remaining_size - size_in_vma)
               (s\<lparr>vma_map := m\<rparr>)
           }
           else Some s))"

definition SetDirectMemoryType :: "MemoryManager \<Rightarrow> u64 \<Rightarrow> u64 \<Rightarrow> s32
    \<Rightarrow> (s32 \<times> MemoryManager) option" where
  "SetDirectMemoryType s addr n memory_type =
     with_mutation (\<lambda>s. do {
       assert_valid s addr n;
       vma_handle \<leftarrow> FindVMA (vma_map s) addr;
       s \<leftarrow> set_memory_type_loop memory_type (Some vma_handle) addr n s;
       Some (ORBIS_OK, s)
     }) s"

partial_function (option) name_loop :: "string \<Rightarrow> u64 option \<Rightarrow> u64 \<Rightarrow> u64 \<Rightarrow> VMAMap
    \<Rightarrow> VMAMap option" where
  "name_loop name it remaining_size current_addr m =
     (case it of
        None \<Rightarrow> Some m
      | Some h \<Rightarrow>
          (if remaining_size > 0
           then do {
             vma \<leftarrow> sm_get m h;
             let start_in_vma = current_addr - vma_base vma;
             let size_in_vma = min remaining_size (vma_size vma - start_in_vma);
             (m, h) \<leftarrow> (if \<not> VMA_IsFree vma
               then (if size_in_vma < vma_size vma
                     then do {
                       (m, h) \<leftarrow> CarveVMA m current_addr size_in_vma;
                       new_vma \<leftarrow> sm_get m h;
                       Some (sm_put m h (new_vma\<lparr>vma_name := name\<rparr>), h)
                     }
                     else Some (sm_put m h (vma\<lparr>vma_name := name\<rparr>), h))
               else Some (m, h));
             let current_addr = current_addr + size_in_vma;
             (m, it) \<leftarrow> next_round m h current_addr;
             name_loop name it (remaining_size - size_in_vma) current_addr m
           }
           else Some m))"

definition NameVirtualRange :: "MemoryManager \<Rightarrow> u64 \<Rightarrow> u64 \<Rightarrow> string \<Rightarrow> MemoryManager option" where
  "NameVirtualRange s virtual_addr n name =
     map_option snd (with_mutation (\<lambda>s. do {
       aligned_size \<leftarrow> AlignUp n (KB 16);
       aligned_addr \<leftarrow> AlignDown virtual_addr (KB 16);
       assert_valid s aligned_addr aligned_size;
       it \<leftarrow> FindVMA (vma_map s) aligned_addr;
       m \<leftarrow> name_loop name (Some it) aligned_size aligned_addr (vma_map s);
       Some ((), s\<lparr>vma_map := m\<rparr>)
     }) s)"

subsection \<open>Data\<close>

text \<open>The bytes copied out of the guest memory \<open>mem\<close>; running off the map is undefined.\<close>

fun copy_loop :: "(u64 \<Rightarrow> u8) \<Rightarrow> VMAMap \<Rightarrow> u64 \<Rightarrow> u64 \<Rightarrow> u8 list option" where
  "copy_loop mem [] virtual_addr n = (if n = 0 then Some [] else None)"
| "copy_loop mem ((it, vma) # rest) virtual_addr n =
     (if n = 0 then Some []
      else do {
        let copy_size = min (vma_size vma - (virtual_addr - it)) n;
        let bytes = (if VMA_IsMapped vma
                     then map (\<lambda>i. mem (virtual_addr + of_nat i)) [0..<unat copy_size]
                     else replicate (unat copy_size) 0);
        more \<leftarrow> copy_loop mem rest (virtual_addr + copy_size) (n - copy_size);
        Some (bytes @ more)
      })"

definition CopySparseMemory :: "(u64 \<Rightarrow> u8) \<Rightarrow> MemoryManager \<Rightarrow> u64 \<Rightarrow> u64 \<Rightarrow> u8 list option" where
  "CopySparseMemory mem s virtual_addr n =
     do {
       assert_valid s virtual_addr 0;
       it \<leftarrow> FindVMA (vma_map s) virtual_addr;
       copy_loop mem (sm_from (vma_map s) (Some it)) virtual_addr n
     }"

text \<open>
  \<^verbatim>\<open>memcpy\<close> to the backing at an offset.  \<^verbatim>\<open>TryWriteBacking\<close> collects the areas with a backing from
  the one around the address on and writes to each of their physical areas; the source is
  the same for every piece.
\<close>

definition write_bytes :: "(u64 \<Rightarrow> u8) \<Rightarrow> u64 \<Rightarrow> u8 list \<Rightarrow> u64 \<Rightarrow> u8" where
  "write_bytes backing offset bytes p =
     (if unat (p - offset) < length bytes then bytes ! unat (p - offset) else backing p)"

fun vmas_to_write :: "VMAMap \<Rightarrow> u64 \<Rightarrow> u64 \<Rightarrow> VirtualMemoryArea list option" where
  "vmas_to_write [] virtual_addr n = None"
| "vmas_to_write ((it, vma) # rest) virtual_addr n =
     (if VMA_Overlaps vma virtual_addr n
      then (if \<not> HasPhysicalBacking vma then Some []
            else map_option ((#) vma) (vmas_to_write rest virtual_addr n))
      else Some [])"

fun write_phys_loop :: "u64 \<Rightarrow> u8 list \<Rightarrow> PhysMap \<Rightarrow> u64 \<Rightarrow> (u64 \<Rightarrow> u8) \<Rightarrow> u64 \<times> (u64 \<Rightarrow> u8)" where
  "write_phys_loop start_in_vma data [] n backing = (n, backing)"
| "write_phys_loop start_in_vma data ((offset, region) # rest) n backing =
     (if n = 0 then (n, backing)
      else let start_in_dma = max start_in_vma offset - offset;
               copy_size = min n (pa_size region - start_in_dma)
           in write_phys_loop start_in_vma data rest (n - copy_size)
                (write_bytes backing (pa_base region + start_in_dma) (take (unat copy_size) data)))"

fun write_vmas_loop :: "u64 \<Rightarrow> u8 list \<Rightarrow> VirtualMemoryArea list \<Rightarrow> u64 \<Rightarrow> (u64 \<Rightarrow> u8)
    \<Rightarrow> (u64 \<Rightarrow> u8) option" where
  "write_vmas_loop virtual_addr data [] n backing = Some backing"
| "write_vmas_loop virtual_addr data (vma # rest) n backing =
     do {
       let start_in_vma = max virtual_addr (vma_base vma) - vma_base vma;
       phys_handle \<leftarrow> sm_floor (vma_phys_areas vma) start_in_vma;
       let (n, backing) = write_phys_loop start_in_vma data
             (sm_from (vma_phys_areas vma) (Some phys_handle)) n backing;
       write_vmas_loop virtual_addr data rest n backing
     }"

definition TryWriteBacking :: "MemoryManager \<Rightarrow> u64 \<Rightarrow> u8 list \<Rightarrow> u64 \<Rightarrow> (u64 \<Rightarrow> u8)
    \<Rightarrow> (bool \<times> (u64 \<Rightarrow> u8)) option" where
  "TryWriteBacking s address data n backing =
     do {
       assert_valid s address n;
       it \<leftarrow> FindVMA (vma_map s) address;
       vmas \<leftarrow> vmas_to_write (sm_from (vma_map s) (Some it)) address n;
       (if vmas = [] then Some (False, backing)
        else do {
          backing \<leftarrow> write_vmas_loop address data vmas n backing;
          Some (True, backing)
        })
     }"

definition InvalidateMemory :: "MemoryManager \<Rightarrow> u64 \<Rightarrow> u64 \<Rightarrow> MemoryManager" where
  "InvalidateMemory s addr n =
     (if has_rasterizer s then host_call (Gpu_Invalidate addr n) s else s)"

end
