(* ===== verification/Kernel_Memory.thy ===== *)
theory Kernel_Memory
  imports Memory_Protect
begin

section \<open>The memory system calls\<close>

text \<open>
  \<^verbatim>\<open>core/libraries/kernel/memory.cpp\<close>: the \<^verbatim>\<open>sceKernel\<close> and \<^verbatim>\<open>posix\<close> functions the guest calls.
  Each checks its arguments and hands over to the memory manager.

  A parameter that the code compares with \<^verbatim>\<open>nullptr\<close> is a truth value (is it null), a string is
  \<open>None\<close> when its pointer is null, and what the code writes through an output pointer is an
  option in the result.  The functions' state is the memory manager, the static variables of the
  file and the thread's \<^verbatim>\<open>errno\<close>.
\<close>

record KernelMemory =
  km_memory :: MemoryManager
  g_sdk_version :: s32
  g_alias_dmem :: bool
  PrtApertures :: "(u64 \<times> u64) list"
  g_posix_errno :: s32

definition with_memory :: "(MemoryManager \<Rightarrow> ('a \<times> MemoryManager) option) \<Rightarrow> KernelMemory
    \<Rightarrow> ('a \<times> KernelMemory) option" where
  "with_memory f k = do { (r, s) \<leftarrow> f (km_memory k); Some (r, k\<lparr>km_memory := s\<rparr>) }"

definition map_memory :: "u64 \<Rightarrow> u64 \<Rightarrow> MemoryProt \<Rightarrow> MemoryMapFlags \<Rightarrow> VMAType \<Rightarrow> string \<Rightarrow> bool
    \<Rightarrow> u64 \<Rightarrow> u64 \<Rightarrow> KernelMemory \<Rightarrow> (s32 \<times> u64 option \<times> KernelMemory) option" where
  "map_memory in_addr len prot flags type name validate_dmem phys_addr alignment k =
     do {
       (r, out_addr, s) \<leftarrow> MapMemory (km_memory k) in_addr len prot flags type name validate_dmem
         phys_addr alignment;
       Some (r, out_addr, k\<lparr>km_memory := s\<rparr>)
     }"

definition ORBIS_KERNEL_ERROR_UNKNOWN :: s32 where
  "ORBIS_KERNEL_ERROR_UNKNOWN = 0x80020000"

definition ErrSceToPosix :: "s32 \<Rightarrow> KernelMemory \<Rightarrow> KernelMemory" where
  "ErrSceToPosix err k = k\<lparr>g_posix_errno := err - ORBIS_KERNEL_ERROR_UNKNOWN\<rparr>"

definition ErrnoToSceKernelError :: "s32 \<Rightarrow> s32" where
  "ErrnoToSceKernelError err = err + ORBIS_KERNEL_ERROR_UNKNOWN"

definition has_single_bit :: "u64 \<Rightarrow> bool" where
  "has_single_bit x \<longleftrightarrow> x \<noteq> 0 \<and> x AND (x - 1) = 0"

subsection \<open>Direct memory\<close>

definition sceKernelGetDirectMemorySize :: "KernelMemory \<Rightarrow> u64" where
  "sceKernelGetDirectMemorySize k = GetTotalDirectSize (km_memory k)"

definition sceKernelEnableDmemAliasing :: "KernelMemory \<Rightarrow> s32 \<times> KernelMemory" where
  "sceKernelEnableDmemAliasing k = (ORBIS_OK, k\<lparr>g_alias_dmem := True\<rparr>)"

definition sceKernelAllocateDirectMemory :: "s64 \<Rightarrow> s64 \<Rightarrow> u64 \<Rightarrow> u64 \<Rightarrow> s32 \<Rightarrow> bool \<Rightarrow> KernelMemory
    \<Rightarrow> (s32 \<times> s64 option \<times> KernelMemory) option" where
  "sceKernelAllocateDirectMemory searchStart searchEnd len alignment memoryType physAddrOut_null k =
     (if sint searchStart < 0 \<or> sint searchEnd < 0 then Some (ORBIS_KERNEL_ERROR_EINVAL, None, k)
      else if len \<le> 0 \<or> \<not> Is16KBAligned len then Some (ORBIS_KERNEL_ERROR_EINVAL, None, k)
      else if alignment \<noteq> 0 \<and> \<not> Is16KBAligned alignment
      then Some (ORBIS_KERNEL_ERROR_EINVAL, None, k)
      else if sint memoryType > 10 then Some (ORBIS_KERNEL_ERROR_EINVAL, None, k)
      else if physAddrOut_null then Some (ORBIS_KERNEL_ERROR_EINVAL, None, k)
      else if sint searchEnd \<le> sint searchStart then Some (ORBIS_KERNEL_ERROR_EAGAIN, None, k)
      else let available_range = searchEnd - searchStart in
        if available_range < len then Some (ORBIS_KERNEL_ERROR_EAGAIN, None, k)
        else do {
          (phys_addr, k) \<leftarrow> with_memory
            (\<lambda>s. Allocate s searchStart searchEnd len alignment memoryType) k;
          Some (if phys_addr = - 1 then (ORBIS_KERNEL_ERROR_EAGAIN, None, k)
                else (ORBIS_OK, Some phys_addr, k))
        })"

definition sceKernelAllocateMainDirectMemory :: "u64 \<Rightarrow> u64 \<Rightarrow> s32 \<Rightarrow> bool \<Rightarrow> KernelMemory
    \<Rightarrow> (s32 \<times> s64 option \<times> KernelMemory) option" where
  "sceKernelAllocateMainDirectMemory len alignment memoryType physAddrOut_null k =
     sceKernelAllocateDirectMemory 0 (sceKernelGetDirectMemorySize k) len alignment memoryType
       physAddrOut_null k"

definition sceKernelCheckedReleaseDirectMemory :: "u64 \<Rightarrow> u64 \<Rightarrow> KernelMemory
    \<Rightarrow> (s32 \<times> KernelMemory) option" where
  "sceKernelCheckedReleaseDirectMemory start len k =
     (if \<not> Is16KBAligned start \<or> \<not> Is16KBAligned len then Some (ORBIS_KERNEL_ERROR_EINVAL, k)
      else if len = 0 then Some (ORBIS_OK, k)
      else with_memory (\<lambda>s. Free s start len True) k)"

definition sceKernelReleaseDirectMemory :: "u64 \<Rightarrow> u64 \<Rightarrow> KernelMemory
    \<Rightarrow> (s32 \<times> KernelMemory) option" where
  "sceKernelReleaseDirectMemory start len k =
     (if \<not> Is16KBAligned start \<or> \<not> Is16KBAligned len then Some (ORBIS_KERNEL_ERROR_EINVAL, k)
      else if len = 0 then Some (ORBIS_OK, k)
      else do {
        (_, k) \<leftarrow> with_memory (\<lambda>s. Free s start len False) k;
        Some (ORBIS_OK, k)
      })"

definition sceKernelAvailableDirectMemorySize :: "u64 \<Rightarrow> u64 \<Rightarrow> u64 \<Rightarrow> bool \<Rightarrow> bool \<Rightarrow> KernelMemory
    \<Rightarrow> (s32 \<times> (u64 \<times> u64) option) option" where
  "sceKernelAvailableDirectMemorySize searchStart searchEnd alignment physAddrOut_null sizeOut_null k =
     (if physAddrOut_null \<or> sizeOut_null then Some (ORBIS_KERNEL_ERROR_EINVAL, None)
      else do {
        (r, physAddr, n) \<leftarrow> DirectQueryAvailable (km_memory k) searchStart searchEnd alignment;
        Some (if n = 0 then (ORBIS_KERNEL_ERROR_ENOMEM, None) else (r, Some (physAddr, n)))
      })"

definition sceKernelDirectMemoryQuery :: "u64 \<Rightarrow> s32 \<Rightarrow> OrbisQueryInfo \<Rightarrow> KernelMemory
    \<Rightarrow> (s32 \<times> OrbisQueryInfo) option" where
  "sceKernelDirectMemoryQuery offset flags query_info k =
     DirectMemoryQuery (km_memory k) offset (flags = 1) query_info"

definition sceKernelGetDirectMemoryType :: "u64 \<Rightarrow> KernelMemory \<Rightarrow> (s32 + s32 \<times> u64 \<times> u64) option"
  where "sceKernelGetDirectMemoryType addr k = GetDirectMemoryType (km_memory k) addr"

subsection \<open>Mapping\<close>

definition sceKernelVirtualQuery :: "u64 \<Rightarrow> s32 \<Rightarrow> KernelMemory
    \<Rightarrow> (s32 + OrbisVirtualQueryInfo) option" where
  "sceKernelVirtualQuery addr flags k = VirtualQuery (km_memory k) addr flags"

text \<open>
  A fixed mapping at address zero is an error from firmware 1.70 on and drops the flag before.
\<close>

definition fixed_at_zero :: "MemoryMapFlags \<Rightarrow> u64 \<Rightarrow> KernelMemory \<Rightarrow> (s32 + MemoryMapFlags)" where
  "fixed_at_zero map_flags in_addr k =
     (if flag_set map_flags Map_Fixed \<and> in_addr = 0
      then (if sint FW_170 \<le> sint (g_sdk_version k) then Inl ORBIS_KERNEL_ERROR_EINVAL
            else Inr (map_flags AND NOT Map_Fixed))
      else Inr map_flags)"

text \<open>The pointer is read for the log before it is compared with null.\<close>

definition sceKernelReserveVirtualRange :: "u64 option \<Rightarrow> u64 \<Rightarrow> s32 \<Rightarrow> u64 \<Rightarrow> KernelMemory
    \<Rightarrow> (s32 \<times> u64 option \<times> KernelMemory) option" where
  "sceKernelReserveVirtualRange addr len flags alignment k =
     do {
       in_addr \<leftarrow> addr;
       (if len = 0 \<or> \<not> Is16KBAligned len then Some (ORBIS_KERNEL_ERROR_EINVAL, None, k)
        else if alignment \<noteq> 0 \<and> \<not> has_single_bit alignment \<and> \<not> Is16KBAligned alignment
        then Some (ORBIS_KERNEL_ERROR_EINVAL, None, k)
        else (case fixed_at_zero flags in_addr k of
          Inl e \<Rightarrow> Some (e, None, k)
        | Inr map_flags \<Rightarrow>
            map_memory in_addr len Prot_NoAccess map_flags VMA_Reserved ''anon'' False (- 1) alignment k))
     }"

definition sceKernelMapNamedDirectMemory :: "u64 \<Rightarrow> u64 \<Rightarrow> s32 \<Rightarrow> s32 \<Rightarrow> s64 \<Rightarrow> u64 \<Rightarrow> string option
    \<Rightarrow> KernelMemory \<Rightarrow> (s32 \<times> u64 option \<times> KernelMemory) option" where
  "sceKernelMapNamedDirectMemory in_addr len prot flags phys_addr alignment name k =
     (if len = 0 \<or> \<not> Is16KBAligned len then Some (ORBIS_KERNEL_ERROR_EINVAL, None, k)
      else if \<not> Is16KBAligned phys_addr then Some (ORBIS_KERNEL_ERROR_EINVAL, None, k)
      else if alignment \<noteq> 0 \<and> \<not> has_single_bit alignment \<and> \<not> Is16KBAligned alignment
      then Some (ORBIS_KERNEL_ERROR_EINVAL, None, k)
      else do {
        name \<leftarrow> name;
        (if List.length name \<ge> ORBIS_KERNEL_MAXIMUM_NAME_LENGTH
         then Some (ORBIS_KERNEL_ERROR_ENAMETOOLONG, None, k)
         else if flag_set prot Prot_CpuExec then Some (ORBIS_KERNEL_ERROR_EACCES, None, k)
         else
           let should_check = (if sint (g_sdk_version k) \<ge> sint FW_250 \<and> \<not> flag_set flags Map_Stack
                               then \<not> g_alias_dmem k else False)
           in (case fixed_at_zero flags in_addr k of
                 Inl e \<Rightarrow> Some (e, None, k)
               | Inr map_flags \<Rightarrow>
                   map_memory in_addr len prot map_flags VMA_Direct name should_check phys_addr
                     alignment k))
      })"

definition sceKernelMapDirectMemory :: "u64 \<Rightarrow> u64 \<Rightarrow> s32 \<Rightarrow> s32 \<Rightarrow> s64 \<Rightarrow> u64 \<Rightarrow> KernelMemory
    \<Rightarrow> (s32 \<times> u64 option \<times> KernelMemory) option" where
  "sceKernelMapDirectMemory in_addr len prot flags phys_addr alignment k =
     sceKernelMapNamedDirectMemory in_addr len prot flags phys_addr alignment (Some ''anon'') k"

definition sceKernelMapDirectMemory2 :: "u64 \<Rightarrow> u64 \<Rightarrow> s32 \<Rightarrow> s32 \<Rightarrow> s32 \<Rightarrow> s64 \<Rightarrow> u64 \<Rightarrow> KernelMemory
    \<Rightarrow> (s32 \<times> u64 option \<times> KernelMemory) option" where
  "sceKernelMapDirectMemory2 in_addr len type prot flags phys_addr alignment k =
     (if len = 0 \<or> \<not> Is16KBAligned len then Some (ORBIS_KERNEL_ERROR_EINVAL, None, k)
      else if \<not> Is16KBAligned phys_addr then Some (ORBIS_KERNEL_ERROR_EINVAL, None, k)
      else if alignment \<noteq> 0 \<and> \<not> has_single_bit alignment \<and> \<not> Is16KBAligned alignment
      then Some (ORBIS_KERNEL_ERROR_EINVAL, None, k)
      else if flag_set prot Prot_CpuExec then Some (ORBIS_KERNEL_ERROR_EINVAL, None, k)
      else do {
        (r, out_addr, k) \<leftarrow> map_memory in_addr len prot flags VMA_Direct ''anon''
          (\<not> g_alias_dmem k) phys_addr alignment k;
        (if r = 0
         then do {
           out \<leftarrow> out_addr;
           (_, k) \<leftarrow> with_memory (\<lambda>s. SetDirectMemoryType s out len type) k;
           Some (r, out_addr, k)
         }
         else Some (r, out_addr, k))
      })"

definition sceKernelMapNamedFlexibleMemory :: "u64 \<Rightarrow> u64 \<Rightarrow> s32 \<Rightarrow> s32 \<Rightarrow> string option
    \<Rightarrow> KernelMemory \<Rightarrow> (s32 \<times> u64 option \<times> KernelMemory) option" where
  "sceKernelMapNamedFlexibleMemory in_addr len prot flags name k =
     (if len = 0 \<or> \<not> Is16KBAligned len then Some (ORBIS_KERNEL_ERROR_EINVAL, None, k)
      else (case name of
        None \<Rightarrow> Some (ORBIS_KERNEL_ERROR_EFAULT, None, k)
      | Some name \<Rightarrow>
          (if List.length name \<ge> ORBIS_KERNEL_MAXIMUM_NAME_LENGTH
           then Some (ORBIS_KERNEL_ERROR_ENAMETOOLONG, None, k)
           else (case fixed_at_zero flags in_addr k of
             Inl e \<Rightarrow> Some (e, None, k)
           | Inr map_flags \<Rightarrow>
               map_memory in_addr len prot map_flags VMA_Flexible name False (- 1) 0 k))))"

definition sceKernelMapFlexibleMemory :: "u64 \<Rightarrow> u64 \<Rightarrow> s32 \<Rightarrow> s32 \<Rightarrow> KernelMemory
    \<Rightarrow> (s32 \<times> u64 option \<times> KernelMemory) option" where
  "sceKernelMapFlexibleMemory in_addr len prot flags k =
     sceKernelMapNamedFlexibleMemory in_addr len prot flags (Some ''anon'') k"

definition sceKernelMunmap :: "u64 \<Rightarrow> u64 \<Rightarrow> KernelMemory \<Rightarrow> (s32 \<times> KernelMemory) option" where
  "sceKernelMunmap addr len k =
     (if len = 0 then Some (ORBIS_KERNEL_ERROR_EINVAL, k)
      else with_memory (\<lambda>s. UnmapMemory s addr len) k)"

definition posix_munmap :: "u64 \<Rightarrow> u64 \<Rightarrow> KernelMemory \<Rightarrow> (s32 \<times> KernelMemory) option" where
  "posix_munmap addr len k =
     do {
       (result, k) \<leftarrow> sceKernelMunmap addr len k;
       Some (if sint result < 0 then (- 1, ErrSceToPosix result k) else (result, k))
     }"

subsection \<open>Protection\<close>

definition sceKernelQueryMemoryProtection :: "u64 \<Rightarrow> KernelMemory
    \<Rightarrow> (s32 + u64 \<times> u64 \<times> u32 \<times> u64) option" where
  "sceKernelQueryMemoryProtection addr k = QueryProtection (km_memory k) addr"

definition sceKernelMprotect :: "u64 \<Rightarrow> u64 \<Rightarrow> s32 \<Rightarrow> KernelMemory \<Rightarrow> (s32 \<times> KernelMemory) option"
  where
  "sceKernelMprotect in_addr n prot k =
     do {
       aligned_addr \<leftarrow> AlignDown in_addr (KB 16);
       aligned_size \<leftarrow> AlignUp (n + in_addr - aligned_addr) (KB 16);
       (if aligned_size = 0 then Some (ORBIS_OK, k)
        else do {
          (result, k) \<leftarrow> with_memory (\<lambda>s. Protect s aligned_addr aligned_size prot) k;
          Some (result,
            if result = ORBIS_OK
            then k\<lparr>km_memory := InvalidateMemory (km_memory k) aligned_addr aligned_size\<rparr> else k)
        })
     }"

definition posix_mprotect :: "u64 \<Rightarrow> u64 \<Rightarrow> s32 \<Rightarrow> KernelMemory \<Rightarrow> (s32 \<times> KernelMemory) option" where
  "posix_mprotect addr n prot k =
     do {
       (result, k) \<leftarrow> sceKernelMprotect addr n prot k;
       Some (if sint result < 0 then (- 1, ErrSceToPosix result k) else (result, k))
     }"

definition sceKernelMtypeprotect :: "u64 \<Rightarrow> u64 \<Rightarrow> s32 \<Rightarrow> s32 \<Rightarrow> KernelMemory
    \<Rightarrow> (s32 \<times> KernelMemory) option" where
  "sceKernelMtypeprotect in_addr n mtype prot k =
     do {
       aligned_addr \<leftarrow> AlignDown in_addr (KB 16);
       aligned_size \<leftarrow> AlignUp (n + in_addr - aligned_addr) (KB 16);
       (if aligned_size = 0 then Some (ORBIS_OK, k)
        else do {
          (result, k) \<leftarrow> with_memory (\<lambda>s. Protect s aligned_addr aligned_size prot) k;
          (if result = ORBIS_OK
           then do {
             (_, k) \<leftarrow> with_memory (\<lambda>s. SetDirectMemoryType s aligned_addr aligned_size mtype) k;
             Some (result, k\<lparr>km_memory := InvalidateMemory (km_memory k) aligned_addr aligned_size\<rparr>)
           }
           else Some (result, k))
        })
     }"

subsection \<open>Flexible memory, stacks, names\<close>

definition sceKernelAvailableFlexibleMemorySize :: "KernelMemory \<Rightarrow> s32 \<times> u64" where
  "sceKernelAvailableFlexibleMemorySize k = (ORBIS_OK, GetAvailableFlexibleSize (km_memory k))"

definition sceKernelConfiguredFlexibleMemorySize :: "bool \<Rightarrow> KernelMemory \<Rightarrow> s32 \<times> u64 option" where
  "sceKernelConfiguredFlexibleMemorySize sizeOut_null k =
     (if sizeOut_null then (ORBIS_KERNEL_ERROR_EINVAL, None)
      else (ORBIS_OK, Some (GetTotalFlexibleSize (km_memory k))))"

definition sceKernelIsStack :: "u64 \<Rightarrow> KernelMemory \<Rightarrow> (s32 + u64 \<times> u64) option" where
  "sceKernelIsStack addr k = IsStack (km_memory k) addr"

definition sceKernelSetVirtualRangeName :: "u64 \<Rightarrow> u64 \<Rightarrow> string option \<Rightarrow> KernelMemory
    \<Rightarrow> (s32 \<times> KernelMemory) option" where
  "sceKernelSetVirtualRangeName addr len name k =
     (case name of
        None \<Rightarrow> Some (ORBIS_KERNEL_ERROR_EFAULT, k)
      | Some name \<Rightarrow>
          (if List.length name \<ge> ORBIS_KERNEL_MAXIMUM_NAME_LENGTH
           then Some (ORBIS_KERNEL_ERROR_ENAMETOOLONG, k)
           else do {
             s \<leftarrow> NameVirtualRange (km_memory k) addr len name;
             Some (ORBIS_OK, k\<lparr>km_memory := s\<rparr>)
           }))"

subsection \<open>Batches\<close>

text \<open>The protection and the type are \<^verbatim>\<open>char\<close>s, here already converted to \<^verbatim>\<open>s32\<close>.\<close>

record OrbisKernelBatchMapEntry =
  bm_start :: u64
  bm_offset :: u64
  bm_length :: u64
  bm_protection :: s32
  bm_type :: s32
  bm_operation :: s32

text \<open>A mapping writes its address to the entry.\<close>

definition batch_entry :: "s32 \<Rightarrow> OrbisKernelBatchMapEntry \<Rightarrow> KernelMemory
    \<Rightarrow> (s32 \<times> OrbisKernelBatchMapEntry \<times> KernelMemory) option" where
  "batch_entry flags e k =
     (let mapped = (\<lambda>(r, out_addr, k). (r, (case out_addr of None \<Rightarrow> e
                      | Some a \<Rightarrow> e\<lparr>bm_start := a\<rparr>), k));
          same = (\<lambda>(r, k). (r, e, k))
      in if bm_operation e = 0
         then map_option mapped (sceKernelMapNamedDirectMemory (bm_start e) (bm_length e)
                (bm_protection e) flags (bm_offset e) 0 (Some ''anon'') k)
         else if bm_operation e = 1
         then map_option same (sceKernelMunmap (bm_start e) (bm_length e) k)
         else if bm_operation e = 2
         then map_option same (sceKernelMprotect (bm_start e) (bm_length e) (bm_protection e) k)
         else if bm_operation e = 3
         then map_option mapped (sceKernelMapNamedFlexibleMemory (bm_start e) (bm_length e)
                (bm_protection e) flags (Some ''anon'') k)
         else if bm_operation e = 4
         then map_option same (sceKernelMtypeprotect (bm_start e) (bm_length e) (bm_type e)
                (bm_protection e) k)
         else None)"

text \<open>
  \<open>count\<close> is the number of rounds left; the result holds the return value, the number of entries
  processed and the entries.  Reading beyond the array is undefined.
\<close>

fun batch_map_loop :: "nat \<Rightarrow> OrbisKernelBatchMapEntry list option \<Rightarrow> s32 \<Rightarrow> s32
    \<Rightarrow> OrbisKernelBatchMapEntry list \<Rightarrow> KernelMemory
    \<Rightarrow> (s32 \<times> s32 \<times> OrbisKernelBatchMapEntry list \<times> KernelMemory) option" where
  "batch_map_loop 0 entries flags processed before k = Some (ORBIS_OK, processed, before, k)"
| "batch_map_loop (Suc count) entries flags processed before k =
     (case entries of
        None \<Rightarrow> Some (ORBIS_KERNEL_ERROR_EINVAL, processed, before, k)
      | Some [] \<Rightarrow> None
      | Some (e # rest) \<Rightarrow>
          (if bm_length e = 0 \<or> sint (bm_operation e) > 4
           then Some (ORBIS_KERNEL_ERROR_EINVAL, processed, before @ e # rest, k)
           else do {
             (result, e, k) \<leftarrow> batch_entry flags e k;
             (if result \<noteq> ORBIS_OK then Some (result, processed, before @ e # rest, k)
              else batch_map_loop count (Some rest) flags (processed + 1) (before @ [e]) k)
           }))"

definition sceKernelBatchMap2 :: "OrbisKernelBatchMapEntry list option \<Rightarrow> s32 \<Rightarrow> s32 \<Rightarrow> KernelMemory
    \<Rightarrow> (s32 \<times> s32 \<times> OrbisKernelBatchMapEntry list \<times> KernelMemory) option" where
  "sceKernelBatchMap2 entries numEntries flags k =
     batch_map_loop (nat (sint numEntries)) entries flags 0 [] k"

definition sceKernelBatchMap :: "OrbisKernelBatchMapEntry list option \<Rightarrow> s32 \<Rightarrow> KernelMemory
    \<Rightarrow> (s32 \<times> s32 \<times> OrbisKernelBatchMapEntry list \<times> KernelMemory) option" where
  "sceKernelBatchMap entries numEntries k = sceKernelBatchMap2 entries numEntries Map_Fixed k"

subsection \<open>Memory pools\<close>

definition sceKernelMemoryPoolExpand :: "u64 \<Rightarrow> u64 \<Rightarrow> u64 \<Rightarrow> u64 \<Rightarrow> bool \<Rightarrow> KernelMemory
    \<Rightarrow> (s32 \<times> u64 option \<times> KernelMemory) option" where
  "sceKernelMemoryPoolExpand searchStart searchEnd len alignment physAddrOut_null k =
     (if searchStart < 0 \<or> searchEnd \<le> searchStart then Some (ORBIS_KERNEL_ERROR_EINVAL, None, k)
      else if len \<le> 0 \<or> \<not> Is64KBAligned len then Some (ORBIS_KERNEL_ERROR_EINVAL, None, k)
      else if alignment \<noteq> 0 \<and> \<not> Is64KBAligned alignment
      then Some (ORBIS_KERNEL_ERROR_EINVAL, None, k)
      else if physAddrOut_null then Some (ORBIS_KERNEL_ERROR_EINVAL, None, k)
      else let is_in_range = (searchEnd - searchStart \<ge> len) in
        if searchEnd \<le> searchStart \<or> searchEnd < len \<or> \<not> is_in_range
        then Some (ORBIS_KERNEL_ERROR_ENOMEM, None, k)
        else do {
          (phys_addr, k) \<leftarrow> with_memory (\<lambda>s. PoolExpand s searchStart searchEnd len alignment) k;
          Some (if phys_addr = - 1 then (ORBIS_KERNEL_ERROR_ENOMEM, None, k)
                else (ORBIS_OK, Some phys_addr, k))
        })"

definition sceKernelMemoryPoolReserve :: "u64 \<Rightarrow> u64 \<Rightarrow> u64 \<Rightarrow> s32 \<Rightarrow> KernelMemory
    \<Rightarrow> (s32 \<times> u64 option \<times> KernelMemory) option" where
  "sceKernelMemoryPoolReserve addr_in len alignment flags k =
     (if len = 0 \<or> \<not> Is2MBAligned len then Some (ORBIS_KERNEL_ERROR_EINVAL, None, k)
      else if alignment \<noteq> 0 \<and> \<not> has_single_bit alignment \<and> \<not> Is2MBAligned alignment
      then Some (ORBIS_KERNEL_ERROR_EINVAL, None, k)
      else let map_alignment = (if alignment = 0 then MB 2 else alignment)
           in map_memory addr_in len Prot_NoAccess flags VMA_PoolReserved ''anon'' False (- 1)
                map_alignment k)"

definition sceKernelMemoryPoolCommit :: "u64 \<Rightarrow> u64 \<Rightarrow> s32 \<Rightarrow> s32 \<Rightarrow> KernelMemory
    \<Rightarrow> (s32 \<times> KernelMemory) option" where
  "sceKernelMemoryPoolCommit addr len type prot k =
     (if addr = 0 then Some (ORBIS_KERNEL_ERROR_EINVAL, k)
      else if len = 0 \<or> \<not> Is64KBAligned len then Some (ORBIS_KERNEL_ERROR_EINVAL, k)
      else if flag_set prot Prot_CpuExec then Some (ORBIS_KERNEL_ERROR_EINVAL, k)
      else with_memory (\<lambda>s. PoolCommit s addr len prot type) k)"

definition sceKernelMemoryPoolDecommit :: "u64 \<Rightarrow> u64 \<Rightarrow> KernelMemory
    \<Rightarrow> (s32 \<times> KernelMemory) option" where
  "sceKernelMemoryPoolDecommit addr len k =
     (if addr = 0 then Some (ORBIS_KERNEL_ERROR_EINVAL, k)
      else if len = 0 \<or> \<not> Is64KBAligned len then Some (ORBIS_KERNEL_ERROR_EINVAL, k)
      else with_memory (\<lambda>s. PoolDecommit s addr len) k)"

text \<open>
  The entry's union by its opcode; every other opcode is \<open>Pool_Other\<close>.  Protections and types are
  bytes.
\<close>

datatype PoolBatchEntry =
    Pool_Commit u64 u64 u8 u8
  | Pool_Decommit u64 u64
  | Pool_Protect u64 u64 u8
  | Pool_TypeProtect u64 u64 u8 u8
  | Pool_Move
  | Pool_Other

fun pool_entry :: "PoolBatchEntry \<Rightarrow> KernelMemory \<Rightarrow> (s32 \<times> KernelMemory) option" where
  "pool_entry (Pool_Commit addr len prot type) k =
     sceKernelMemoryPoolCommit addr len (ucast type) (ucast prot) k"
| "pool_entry (Pool_Decommit addr len) k = sceKernelMemoryPoolDecommit addr len k"
| "pool_entry (Pool_Protect addr len prot) k = sceKernelMprotect addr len (ucast prot) k"
| "pool_entry (Pool_TypeProtect addr len prot type) k =
     sceKernelMtypeprotect addr len (ucast type) (ucast prot) k"
| "pool_entry Pool_Move k = None"
| "pool_entry Pool_Other k = Some (ORBIS_KERNEL_ERROR_EINVAL, k)"

fun pool_batch_loop :: "nat \<Rightarrow> PoolBatchEntry list \<Rightarrow> s32 \<Rightarrow> KernelMemory
    \<Rightarrow> (s32 \<times> s32 \<times> KernelMemory) option" where
  "pool_batch_loop 0 entries processed k = Some (ORBIS_OK, processed, k)"
| "pool_batch_loop (Suc count) [] processed k = None"
| "pool_batch_loop (Suc count) (e # rest) processed k =
     do {
       (result, k) \<leftarrow> pool_entry e k;
       (if result \<noteq> ORBIS_OK then Some (result, processed, k)
        else pool_batch_loop count rest (processed + 1) k)
     }"

definition sceKernelMemoryPoolBatch :: "PoolBatchEntry list option \<Rightarrow> s32 \<Rightarrow> KernelMemory
    \<Rightarrow> (s32 \<times> s32 option \<times> KernelMemory) option" where
  "sceKernelMemoryPoolBatch entries count k =
     (case entries of
        None \<Rightarrow> Some (ORBIS_KERNEL_ERROR_EINVAL, None, k)
      | Some es \<Rightarrow>
          do {
            (result, processed, k) \<leftarrow> pool_batch_loop (nat (sint count)) es 0 k;
            Some (result, Some processed, k)
          })"

text \<open>The return value, the statistics and the number of their bytes that are copied out.\<close>

definition sceKernelMemoryPoolGetBlockStats :: "bool \<Rightarrow> u64 \<Rightarrow> KernelMemory
    \<Rightarrow> (s32 \<times> (s32 \<times> s32 \<times> s32 \<times> s32) \<times> u64) option" where
  "sceKernelMemoryPoolGetBlockStats stats_null n k =
     do {
       let size_to_copy = (if n < 16 then n else 16);
       ASSERT (\<not> stats_null \<or> n = 0);
       Some (ORBIS_OK, snd (GetMemoryPoolStats (km_memory k)), size_to_copy)
     }"

subsection \<open>mmap\<close>

text \<open>The address, or \<open>-1\<close> with \<^verbatim>\<open>errno\<close> set.\<close>

definition posix_mmap :: "(s32 \<Rightarrow> MappedFile option) \<Rightarrow> u64 \<Rightarrow> u64 \<Rightarrow> u64 \<Rightarrow> s32 \<Rightarrow> s32 \<Rightarrow> s32 \<Rightarrow> s64
    \<Rightarrow> KernelMemory \<Rightarrow> (u64 \<times> KernelMemory) option" where
  "posix_mmap GetFile host_page vaddr len prot flags fd phys_addr k =
     (if len = 0 then Some (- 1, ErrSceToPosix ORBIS_KERNEL_ERROR_EINVAL k)
      else do {
        aligned_addr \<leftarrow> AlignUp vaddr (KB 16);
        aligned_size \<leftarrow> AlignUp len (KB 16);
        (if flag_set flags Map_Fixed \<and> vaddr \<noteq> aligned_addr
         then Some (- 1, ErrSceToPosix ORBIS_KERNEL_ERROR_EINVAL k)
         else do {
           (result, addr_out, k) \<leftarrow>
             (if flag_set flags Map_Anon
              then map_memory aligned_addr aligned_size prot flags VMA_Flexible ''anon'' False (- 1) 0 k
              else if flag_set flags Map_Stack
              then map_memory aligned_addr aligned_size prot flags VMA_Stack ''anon'' False (- 1) 0 k
              else if flag_set flags Map_Void
              then map_memory aligned_addr aligned_size Prot_NoAccess flags VMA_Reserved ''anon'' False
                     (- 1) 0 k
              else do {
                (r, a, s) \<leftarrow> MapFile GetFile host_page (km_memory k) aligned_addr aligned_size prot flags
                  fd phys_addr;
                Some (r, a, k\<lparr>km_memory := s\<rparr>)
              });
           (if result \<noteq> ORBIS_OK then Some (- 1, ErrSceToPosix result k)
            else do { a \<leftarrow> addr_out; Some (a, k) })
         })
      })"

definition sceKernelMmap :: "(s32 \<Rightarrow> MappedFile option) \<Rightarrow> u64 \<Rightarrow> u64 \<Rightarrow> u64 \<Rightarrow> s32 \<Rightarrow> s32 \<Rightarrow> s32 \<Rightarrow> s64
    \<Rightarrow> KernelMemory \<Rightarrow> (s32 \<times> u64 option \<times> KernelMemory) option" where
  "sceKernelMmap GetFile host_page addr len prot flags fd phys_addr k =
     do {
       (addr_out, k) \<leftarrow> posix_mmap GetFile host_page addr len prot flags fd phys_addr k;
       Some (if addr_out = - 1 then (ErrnoToSceKernelError (g_posix_errno k), None, k)
             else (ORBIS_OK, Some addr_out, k))
     }"

subsection \<open>PRT apertures\<close>

definition PRT_AREA_START_ADDR :: u64 where "PRT_AREA_START_ADDR = 0x1000000000"
definition PRT_AREA_SIZE :: u64 where "PRT_AREA_SIZE = 0xec00000000"

definition sceKernelSetPrtAperture :: "s32 \<Rightarrow> u64 \<Rightarrow> u64 \<Rightarrow> KernelMemory
    \<Rightarrow> (s32 \<times> KernelMemory) option" where
  "sceKernelSetPrtAperture area_id address n k =
     (if sint area_id < 0 \<or> sint area_id \<ge> 3 then Some (ORBIS_KERNEL_ERROR_EINVAL, k)
      else if address < PRT_AREA_START_ADDR \<or> address + n > PRT_AREA_START_ADDR + PRT_AREA_SIZE
      then Some (ORBIS_KERNEL_ERROR_EINVAL, k)
      else if address mod 4096 \<noteq> 0 then Some (ORBIS_KERNEL_ERROR_EINVAL, k)
      else do {
        s \<leftarrow> SetPrtArea (nat (sint area_id)) address n (km_memory k);
        Some (ORBIS_OK, k\<lparr>km_memory := s,
          PrtApertures := (PrtApertures k)[nat (sint area_id) := (address, n)]\<rparr>)
      })"

definition sceKernelGetPrtAperture :: "s32 \<Rightarrow> KernelMemory \<Rightarrow> s32 \<times> (u64 \<times> u64) option" where
  "sceKernelGetPrtAperture area_id k =
     (if sint area_id < 0 \<or> sint area_id \<ge> 3 then (ORBIS_KERNEL_ERROR_EINVAL, None)
      else (ORBIS_OK, Some (PrtApertures k ! nat (sint area_id))))"

end
