(* ===== verification/Range_Update.thy ===== *)
theory Range_Update
  imports Memory_State
begin

section \<open>Updates of a range\<close>

text \<open>
  The operations of the memory manager change the cells of a range and no other: they carve
  areas, change a field of each and join them again.  \<open>map_range f a b\<close> is that change on the
  cells.  The lemmas of the locale say what a carved area, a changed area and joined areas mean for
  the cells, for ranges that lie inside one area (\<open>fits\<close>) and for properties of all areas.
\<close>

subsection \<open>Changing the cells of a range\<close>

definition map_range :: "('c \<Rightarrow> 'c) \<Rightarrow> nat \<Rightarrow> nat \<Rightarrow> (nat \<Rightarrow> 'c option) \<Rightarrow> nat \<Rightarrow> 'c option" where
  "map_range f a b c p = (if a \<le> p \<and> p < b then map_option f (c p) else c p)"

lemma map_range_empty [simp]: "b \<le> a \<Longrightarrow> map_range f a b c = c"
  by (rule ext) (auto simp: map_range_def)

lemma map_range_append:
  "a \<le> b \<Longrightarrow> b \<le> d \<Longrightarrow> map_range f b d (map_range f a b c) = map_range f a d c"
  by (rule ext) (auto simp: map_range_def)

lemma map_range_id:
  assumes "\<And>p x. a \<le> p \<Longrightarrow> p < b \<Longrightarrow> c p = Some x \<Longrightarrow> f x = x"
  shows "map_range f a b c = c"
proof
  fix p
  show "map_range f a b c p = c p" using assms by (cases "c p") (auto simp: map_range_def)
qed

lemma map_range_dom [simp]: "dom (map_range f a b c) = dom c"
  by (auto simp: map_range_def dom_def split: if_splits)

lemma map_range_outside: "p < a \<or> b \<le> p \<Longrightarrow> map_range f a b c p = c p"
  by (auto simp: map_range_def)

lemma cell_map_replace:
  assumes l: "laid sz wfa lo (xs @ (k, a) # ys) hi"
    and b: "sz b = sz a" "\<And>i. i < unat (sz a) \<Longrightarrow> ct b i = f (ct a i)"
  shows "cell sz ct (xs @ (k, b) # ys) =
    map_range f (unat k) (unat k + unat (sz a)) (cell sz ct (xs @ (k, a) # ys))"
proof
  fix p
  have "cell sz ct xs p = None" if "unat k \<le> p"
    using l that by (intro cell_None) (auto simp: laid_append)
  then show "cell sz ct (xs @ (k, b) # ys) p =
      map_range f (unat k) (unat k + unat (sz a)) (cell sz ct (xs @ (k, a) # ys)) p"
    using b by (auto simp: map_range_def cell_append split: option.split)
qed

text \<open>The area around an address, and a range inside one area.\<close>

lemma fits_subset:
  assumes "fits sz m a n" "0 < unat n'" "unat a \<le> unat a'" "unat a' + unat n' \<le> unat a + unat n"
  shows "fits sz m a' n'"
proof -
  obtain k v where "(k, v) \<in> set m" "unat k \<le> unat a" "unat a + unat n \<le> unat k + unat (sz v)"
    using assms(1) by (auto simp: fits_def)
  with assms(2-4) show ?thesis unfolding fits_def by (intro conjI bexI [of _ "(k, v)"]) auto
qed

lemma fits_mem:
  "(k, v) \<in> set m \<Longrightarrow> 0 < unat n \<Longrightarrow> unat k \<le> unat a \<Longrightarrow> unat a + unat n \<le> unat k + unat (sz v) \<Longrightarrow>
   fits sz m a n"
  unfolding fits_def by (intro conjI bexI [of _ "(k, v)"]) auto

lemma fits_replace:
  "fits sz (xs @ (k, a) # ys) b n \<Longrightarrow> sz a' = sz a \<Longrightarrow> fits sz (xs @ (k, a') # ys) b n"
  by (auto simp: fits_def)

lemma laid_member_cell:
  assumes "laid sz wfa lo m hi" "(k, v) \<in> set m" "unat k \<le> p" "p < unat k + unat (sz v)"
  shows "cell sz ct m p = Some (ct v (p - unat k))"
proof -
  obtain xs ys where m: "m = xs @ (k, v) # ys" using assms(2) by (auto dest!: split_list)
  show ?thesis using assms unfolding m by (intro cell_mid) auto
qed

lemma laid_floor_mem:
  assumes l: "laid sz wfa lo m hi" and mem: "(k, v) \<in> set m"
    and p: "unat k \<le> unat p" "unat p < unat k + unat (sz v)"
  shows "sm_floor m p = Some k" "sm_get m k = Some v"
proof -
  obtain xs ys where m: "m = xs @ (k, v) # ys" using mem by (auto dest!: split_list)
  show "sm_floor m p = Some k" using l p unfolding m by (rule laid_floor)
  show "sm_get m k = Some v" using laid_sm_ok [OF l] unfolding m by (rule sm_get_mid)
qed

lemma laid_unique:
  assumes "laid sz wfa lo m hi" "(k, v) \<in> set m" "(k', v') \<in> set m"
    and "unat k \<le> p" "p < unat k + unat (sz v)" "unat k' \<le> p" "p < unat k' + unat (sz v')"
  shows "k' = k \<and> v' = v"
  using assms
proof (induction sz wfa lo m hi rule: laid.induct)
  case (2 sz wfa lo k0 a m hi)
  have l: "laid sz wfa (unat k0 + unat (sz a)) m hi" using "2.prems"(1) by simp
  note mm = laid_mem [OF l]
  consider "(k, v) = (k0, a)" "(k', v') = (k0, a)" | "(k, v) = (k0, a)" "(k', v') \<in> set m"
    | "(k, v) \<in> set m" "(k', v') = (k0, a)" | "(k, v) \<in> set m" "(k', v') \<in> set m"
    using "2.prems"(2,3) by auto
  then show ?case
  proof cases
    case 2
    then show ?thesis using mm [of k' v'] "2.prems"(4-) by auto
  next
    case 3
    then show ?thesis using mm [of k v] "2.prems"(4-) by auto
  next
    case 4
    then show ?thesis using "2.IH" [OF l] "2.prems"(4-) by blast
  qed simp
qed simp

subsection \<open>What the locale's operations do to a range\<close>

context area_map
begin

text \<open>Cutting an area keeps every range that the cut does not go through inside one area.\<close>

lemma split_fits:
  assumes l: "laid sz wfa lo (xs @ (k, a) # ys) hi" and hi: "hi < 2 ^ 64"
    and o: "0 < unat off" "unat off < unat (sz a)"
    and f: "fits sz (xs @ (k, a) # ys) b n"
    and d: "unat b + unat n \<le> unat (k + off) \<or> unat (k + off) \<le> unat b"
  shows "fits sz (xs @ (k, cutl a off) # (k + off, cutr a off) # ys) b n"
proof -
  from laid_mem [OF l, of k a] hi have w: "wfa k a" "unat k + unat (sz a) < 2 ^ 64" by auto
  have s: "sz (cutl a off) = off" "unat (k + off) = unat k + unat off"
    "unat (sz a) = unat off + unat (sz (cutr a off))"
    using cut [OF w o] by (auto simp: joins_def)
  obtain k' v where kv: "(k', v) \<in> set (xs @ (k, a) # ys)" "unat k' \<le> unat b"
    "unat b + unat n \<le> unat k' + unat (sz v)" and n: "0 < unat n" using f by (auto simp: fits_def)
  show ?thesis
  proof (cases "(k', v) = (k, a)")
    case True
    show ?thesis
    proof (cases "unat b + unat n \<le> unat (k + off)")
      case True
      then show ?thesis using kv \<open>(k', v) = (k, a)\<close> n s by (intro fits_mem [of k "cutl a off"]) auto
    next
      case False
      then show ?thesis using kv \<open>(k', v) = (k, a)\<close> n s d
        by (intro fits_mem [of "k + off" "cutr a off"]) auto
    qed
  next
    case False
    then show ?thesis using kv n by (intro fits_mem [of k' v]) auto
  qed
qed

text \<open>
  Whatever every single cut at the two ends of the range keeps, carving keeps; whatever every
  single join keeps, joining keeps.
\<close>

lemma carve_induct:
  assumes l: "laid sz wfa lo m hi" and hi: "hi < 2 ^ 64" and f: "fits sz m addr n"
    and R: "R m"
    and step: "\<And>xs k a ys off. \<lbrakk>laid sz wfa lo (xs @ (k, a) # ys) hi; 0 < unat off; unat off < unat (sz a);
      unat (k + off) = unat addr \<or> unat (k + off) = unat addr + unat n; R (xs @ (k, a) # ys)\<rbrakk> \<Longrightarrow>
      R (xs @ (k, cutl a off) # (k + off, cutr a off) # ys)"
  shows "\<exists>xs b ys. carve m addr n = Some (xs @ (addr, b) # ys, addr) \<and>
    laid sz wfa lo (xs @ (addr, b) # ys) hi \<and>
    cell sz ct (xs @ (addr, b) # ys) = cell sz ct m \<and> sz b = n \<and> R (xs @ (addr, b) # ys)"
proof -
  from f obtain xs k a ys where m: "m = xs @ (k, a) # ys" and n: "0 < unat n"
    "unat k \<le> unat addr" "unat addr + unat n \<le> unat k + unat (sz a)" by (rule fitsE)
  note lm = l [unfolded m] and Rm = R [unfolded m]
  have w: "unat k + unat (sz a) < 2 ^ 64" using laid_mem [OF lm, of k a] hi by auto
  have st: "unat (addr - k) = unat addr - unat k" using n by (simp add: nowrap)
  have fin: "unat (addr - k + n) = unat addr - unat k + unat n"
    using st n w unat_add_nowrap [of "addr - k" n] by simp
  have "sm_floor m addr = Some k" using n unfolding m by (intro laid_floor [OF lm]) auto
  moreover have "sm_get m k = Some a" using laid_sm_ok [OF lm] unfolding m by (rule sm_get_mid)
  ultimately have c: "carve m addr n = carve_steps split m k (sz a) addr n" using carve [OF l hi] n by blast
  have "\<exists>b ys1. (if addr - k + n \<noteq> sz a then map_option fst (split m k (addr - k + n)) else Some m)
      = Some (xs @ (k, b) # ys1) \<and> laid sz wfa lo (xs @ (k, b) # ys1) hi \<and> R (xs @ (k, b) # ys1) \<and>
      cell sz ct (xs @ (k, b) # ys1) = cell sz ct m \<and> sz b = addr - k + n"
  proof (cases "addr - k + n = sz a")
    case True
    with lm Rm show ?thesis unfolding m by auto
  next
    case False
    then have "unat (addr - k + n) \<noteq> unat (sz a)" by (simp only: word_unat_eq_iff not_False_eq_True)
    then have o: "0 < unat (addr - k + n)" "unat (addr - k + n) < unat (sz a)"
      using fin n by linarith+
    have "unat (k + (addr - k + n)) = unat addr + unat n" using fin n w by (subst unat_add64) auto
    from step [OF lm o disjI2 [OF this] Rm] split_mid [OF lm hi o] cut [OF _ w o]
      laid_mem [OF lm, of k a] False show ?thesis unfolding m by auto
  qed
  then obtain b ys1 where s1: "(if addr - k + n \<noteq> sz a
      then map_option fst (split m k (addr - k + n)) else Some m) = Some (xs @ (k, b) # ys1)"
    and l1: "laid sz wfa lo (xs @ (k, b) # ys1) hi" and R1: "R (xs @ (k, b) # ys1)"
    and c1: "cell sz ct (xs @ (k, b) # ys1) = cell sz ct m" and sb: "sz b = addr - k + n" by blast
  show ?thesis
  proof (cases "addr - k = 0")
    case True
    then have ak: "addr = k" by simp
    have "carve m addr n = Some (xs @ (addr, b) # ys1, addr)"
      unfolding c carve_steps_def s1 using ak by simp
    with l1 c1 sb R1 show ?thesis unfolding ak by auto
  next
    case False
    then have "0 < unat (addr - k)" by (simp only: unat_gt_0 not_False_eq_True)
    then have o: "0 < unat (addr - k)" "unat (addr - k) < unat (sz b)"
      using fin st n(1,2) unfolding sb by linarith+
    note sp = split_mid [OF l1 hi o]
    have wb: "wfa k b" "unat k + unat (sz b) < 2 ^ 64" using laid_mem [OF l1, of k b] hi by auto
    have "joins sz wfa ct k (cutl b (addr - k)) (k + (addr - k)) (cutr b (addr - k)) b"
      "sz (cutl b (addr - k)) = addr - k" using cut [OF wb o] by auto
    then have "unat (sz (cutr b (addr - k))) = unat n" using sb fin st by (simp add: joins_def)
    then have "sz (cutr b (addr - k)) = n" by (simp only: word_unat_eq_iff)
    moreover have "carve m addr n = split (xs @ (k, b) # ys1) k (addr - k)"
      unfolding c carve_steps_def s1 using False by simp
    moreover have "R (xs @ (k, cutl b (addr - k)) # (k + (addr - k), cutr b (addr - k)) # ys1)"
      using R1 by (intro step [OF l1 o]) auto
    ultimately show ?thesis using sp c1
      by (rule_tac exI [of _ "xs @ [(k, cutl b (addr - k))]"], rule_tac exI [of _ "cutr b (addr - k)"],
          rule_tac exI [of _ ys1]) simp
  qed
qed

lemma merge_induct:
  assumes l: "laid sz wfa lo (xs @ (k, a) # ys) hi" and hi: "hi < 2 ^ 64"
    and R: "R (xs @ (k, a) # ys)"
    and step: "\<And>xs k a k' b ys. \<lbrakk>laid sz wfa lo (xs @ (k, a) # (k', b) # ys) hi; mg a b;
      joins sz wfa ct k a k' b (jn a b); R (xs @ (k, a) # (k', b) # ys)\<rbrakk> \<Longrightarrow> R (xs @ (k, jn a b) # ys)"
  shows "\<exists>m' k' a'. merge (xs @ (k, a) # ys) k = Some (m', k') \<and> laid sz wfa lo m' hi \<and>
    cell sz ct m' = cell sz ct (xs @ (k, a) # ys) \<and> (k', a') \<in> set m' \<and>
    unat k' \<le> unat k \<and> unat k + unat (sz a) \<le> unat k' + unat (sz a') \<and> R m'"
proof -
  have J: "joins sz wfa ct k a k' b (jn a b)"
    if "laid sz wfa lo (xs @ (k, a) # (k', b) # ys) hi" "mg a b" for xs k a k' b ys
    using laid_mem [OF that(1), of k a] laid_mem [OF that(1), of k' b] hi that(2) by (intro join) auto
  from absorb_spec [OF l hi] obtain a1 ys1 where
    ab: "absorb_next mg jn (k, a) ys = (k, a1) # ys1"
    and l1: "laid sz wfa lo (xs @ (k, a1) # ys1) hi" by blast
  have R1: "R (xs @ (k, a1) # ys1)"
  proof (cases ys)
    case Nil
    with ab R show ?thesis by simp
  next
    case (Cons y ys')
    obtain k' b where y: "y = (k', b)" by fastforce
    show ?thesis
    proof (cases "mg a b")
      case True
      with ab Cons y have "a1 = jn a b" "ys1 = ys'" by auto
      with step [of xs k a k' b ys'] J [of xs k a k' b ys'] l R Cons y True show ?thesis by simp
    next
      case False
      with ab Cons y R show ?thesis by auto
    qed
  qed
  from merge_spec [OF l hi] obtain m' k' a' where
    m': "merge (xs @ (k, a) # ys) k = Some (m', k')" "laid sz wfa lo m' hi"
    "cell sz ct m' = cell sz ct (xs @ (k, a) # ys)" "(k', a') \<in> set m'"
    "unat k' \<le> unat k" "unat k + unat (sz a) \<le> unat k' + unat (sz a')" by blast
  have "R m'"
  proof (cases "xs \<noteq> [] \<and> mg (snd (last xs)) a1")
    case True
    then obtain xs' k0 z where xs: "xs = xs' @ [(k0, z)]"
      by (metis append_butlast_last_id surj_pair)
    have mz: "mg z a1" using True xs by simp
    have l2: "laid sz wfa lo (xs' @ (k0, z) # (k, a1) # ys1) hi" using l1 xs by simp
    have "R (xs' @ (k0, jn z a1) # ys1)" using step [OF l2 mz J [OF l2 mz]] R1 xs by simp
    moreover have "m' = xs' @ (k0, jn z a1) # ys1"
      using m'(1) merge [OF l hi] ab True xs by (simp add: merge_list_def)
    ultimately show ?thesis by simp
  next
    case False
    then have "m' = xs @ (k, a1) # ys1" using m'(1) merge [OF l hi] ab by (auto simp: merge_list_def Let_def)
    with R1 show ?thesis by simp
  qed
  with m' show ?thesis by blast
qed

text \<open>A join keeps every range inside one area.\<close>

lemma join_fits:
  assumes j: "joins sz wfa ct k a k' a' c" and f: "fits sz (xs @ (k, a) # (k', a') # ys) b n"
  shows "fits sz (xs @ (k, c) # ys) b n"
proof -
  obtain k0 v where kv: "(k0, v) \<in> set (xs @ (k, a) # (k', a') # ys)" "unat k0 \<le> unat b"
    "unat b + unat n \<le> unat k0 + unat (sz v)" and n: "0 < unat n" using f by (auto simp: fits_def)
  show ?thesis
  proof (cases "(k0, v) = (k, a) \<or> (k0, v) = (k', a')")
    case True
    then show ?thesis using kv n j by (intro fits_mem [of k c]) (auto simp: joins_def)
  next
    case False
    then show ?thesis using kv n by (intro fits_mem [of k0 v]) auto
  qed
qed

text \<open>
  Carving a range, changing the carved area by \<open>g\<close>, which is \<open>f\<close> on its cells, and joining
  it: on the cells it is \<open>f\<close> on the range.  Ranges off the changed one stay inside one area, and what
  holds of all areas still does if cutting, changing and joining keep it.
\<close>

lemma carve_change_merge:
  assumes l: "laid sz wfa lo m hi" and hi: "hi < 2 ^ 64" and f: "fits sz m addr n"
    and g: "\<And>b. sz b = n \<Longrightarrow> wfa addr b \<Longrightarrow> sz (g b) = n \<and> wfa addr (g b) \<and>
      (\<forall>i < unat n. ct (g b) i = F (ct b i))"
    and Q: "\<forall>(k, a) \<in> set m. Q a"
    and Qcut: "\<And>k a off. wfa k a \<Longrightarrow> Q a \<Longrightarrow> unat k + unat (sz a) < 2 ^ 64 \<Longrightarrow> 0 < unat off \<Longrightarrow>
      unat off < unat (sz a) \<Longrightarrow> Q (cutl a off) \<and> Q (cutr a off)"
    and Qjoin: "\<And>k a k' b. wfa k a \<Longrightarrow> wfa k' b \<Longrightarrow> joins sz wfa ct k a k' b (jn a b) \<Longrightarrow> mg a b \<Longrightarrow> Q a \<Longrightarrow> Q b \<Longrightarrow>
      unat k' + unat (sz b) < 2 ^ 64 \<Longrightarrow> Q (jn a b)"
    and Qg: "\<And>b. sz b = n \<Longrightarrow> wfa addr b \<Longrightarrow> Q b \<Longrightarrow> Q (g b)"
  shows "\<exists>m1 b m2 k2 a2. carve m addr n = Some (m1, addr) \<and> sm_get m1 addr = Some b \<and> sz b = n \<and>
    wfa addr b \<and> merge (sm_put m1 addr (g b)) addr = Some (m2, k2) \<and> laid sz wfa lo m2 hi \<and>
    cell sz ct m2 = map_range F (unat addr) (unat addr + unat n) (cell sz ct m) \<and>
    (\<forall>(k, a) \<in> set m2. Q a) \<and>
    (\<forall>c j. fits sz m c j \<longrightarrow> unat c + unat j \<le> unat addr \<or> unat addr + unat n \<le> unat c \<longrightarrow> fits sz m2 c j) \<and>
    fits sz m2 addr n \<and> sm_get m2 k2 = Some a2 \<and>
    unat k2 \<le> unat addr \<and> unat addr + unat n \<le> unat k2 + unat (sz a2) \<and>
    (\<forall>i < unat n. ct b i = the (cell sz ct m (unat addr + i)))"
proof -
  define R where "R m' \<longleftrightarrow> (\<forall>(k, a) \<in> set m'. Q a) \<and> (\<forall>c j. fits sz m c j \<longrightarrow>
    unat c + unat j \<le> unat addr \<or> unat addr + unat n \<le> unat c \<longrightarrow> fits sz m' c j)" for m'
  have "R m" using Q by (simp add: R_def)
  have "\<exists>xs b ys. carve m addr n = Some (xs @ (addr, b) # ys, addr) \<and>
    laid sz wfa lo (xs @ (addr, b) # ys) hi \<and>
    cell sz ct (xs @ (addr, b) # ys) = cell sz ct m \<and> sz b = n \<and> R (xs @ (addr, b) # ys)"
  proof (rule carve_induct [where R = R, OF l hi f \<open>R m\<close>])
    fix xs k a ys and off :: u64
    assume h: "laid sz wfa lo (xs @ (k, a) # ys) hi" "0 < unat off" "unat off < unat (sz a)"
      "unat (k + off) = unat addr \<or> unat (k + off) = unat addr + unat n" "R (xs @ (k, a) # ys)"
    have "wfa k a" "unat k + unat (sz a) < 2 ^ 64" using laid_mem [OF h(1), of k a] hi by auto
    with Qcut [of k a off] h have "Q (cutl a off) \<and> Q (cutr a off)" by (auto simp: R_def)
    then show "R (xs @ (k, cutl a off) # (k + off, cutr a off) # ys)"
      using h split_fits [OF h(1) hi h(2,3)] unfolding R_def by auto
  qed
  then obtain xs b ys where c: "carve m addr n = Some (xs @ (addr, b) # ys, addr)"
    and l1: "laid sz wfa lo (xs @ (addr, b) # ys) hi"
    and c1: "cell sz ct (xs @ (addr, b) # ys) = cell sz ct m" and sb: "sz b = n"
    and R1: "R (xs @ (addr, b) # ys)" by blast
  have ok: "sm_ok (xs @ (addr, b) # ys)" using l1 by (rule laid_sm_ok)
  have wb: "wfa addr b" using laid_mem [OF l1, of addr b] by auto
  note gb = g [OF sb wb]
  have l2: "laid sz wfa lo (xs @ (addr, g b) # ys) hi" using gb sb by (intro laid_replace [OF l1]) auto
  have "0 < unat n" using f by (simp add: fits_def)
  define R' where "R' m' \<longleftrightarrow> R m' \<and> fits sz m' addr n" for m'
  have R2: "R' (xs @ (addr, g b) # ys)"
    using R1 Qg [OF sb wb] fits_replace [of sz xs addr b ys _ _ "g b"] gb sb \<open>0 < unat n\<close>
    unfolding R'_def R_def by (fastforce intro: fits_mem [of addr "g b"])
  have "\<exists>m' k' a'. merge (xs @ (addr, g b) # ys) addr = Some (m', k') \<and> laid sz wfa lo m' hi \<and>
    cell sz ct m' = cell sz ct (xs @ (addr, g b) # ys) \<and> (k', a') \<in> set m' \<and>
    unat k' \<le> unat addr \<and> unat addr + unat (sz (g b)) \<le> unat k' + unat (sz a') \<and> R' m'"
  proof (rule merge_induct [where R = R', OF l2 hi R2])
    fix xs k a k' b ys
    assume h: "laid sz wfa lo (xs @ (k, a) # (k', b) # ys) hi" "mg a b"
      "joins sz wfa ct k a k' b (jn a b)" "R' (xs @ (k, a) # (k', b) # ys)"
    have "wfa k a" "wfa k' b" "unat k' + unat (sz b) < 2 ^ 64"
      using laid_mem [OF h(1), of k a] laid_mem [OF h(1), of k' b] hi by auto
    with Qjoin [of k a k' b] h have "Q (jn a b)" by (auto simp: R'_def R_def)
    with h join_fits [OF h(3)] show "R' (xs @ (k, jn a b) # ys)" unfolding R'_def R_def by auto
  qed
  then obtain m2 k2 a2 where m2: "merge (xs @ (addr, g b) # ys) addr = Some (m2, k2)"
    "laid sz wfa lo m2 hi" "cell sz ct m2 = cell sz ct (xs @ (addr, g b) # ys)" "(k2, a2) \<in> set m2"
    "unat k2 \<le> unat addr" "unat addr + unat (sz (g b)) \<le> unat k2 + unat (sz a2)" "R' m2" by blast
  have get: "sm_get m2 k2 = Some a2"
    using laid_mem [OF m2(2,4)] by (intro laid_floor_mem(2) [OF m2(2,4), of k2]) auto
  have "cell sz ct (xs @ (addr, g b) # ys) =
      map_range F (unat addr) (unat addr + unat n) (cell sz ct m)"
    using cell_map_replace [OF l1, of "g b" ct F] gb sb c1 by simp
  moreover have "\<forall>i < unat n. ct b i = the (cell sz ct m (unat addr + i))"
  proof (intro allI impI)
    fix i assume "i < unat n"
    then have "cell sz ct (xs @ (addr, b) # ys) (unat addr + i) = Some (ct b i)"
      using cell_mid [OF l1, of "unat addr + i" ct] sb by simp
    then show "ct b i = the (cell sz ct m (unat addr + i))" using c1 by simp
  qed
  ultimately show ?thesis using c sb wb m2 ok gb get unfolding R'_def R_def
    by (intro exI [of _ "xs @ (addr, b) # ys"] exI [of _ b] exI [of _ m2] exI [of _ k2] exI [of _ a2])
       simp
qed

end

end
