(* ===== verification/Memory_Names.thy ===== *)
theory Memory_Names
  imports Memory_Protect Range_Update
begin

section \<open>Naming a range\<close>

text \<open>
  \<^verbatim>\<open>NameVirtualRange\<close> against the cells of the virtual map: its loop ends, and it changes the
  name of the cells of the range that are not free, and nothing else.  The loop and that of
  \<^verbatim>\<open>SetDirectMemoryType\<close> step from area to area with an iterator; \<open>next_round_find\<close> is the
  invariant of that iterator.
\<close>

subsection \<open>Changing the areas of a range one by one\<close>

lemma vm_change:
  assumes l: "vma_laid lo m hi" and hi: "hi < 2 ^ 64" and f: "fits vma_size m addr n"
    and g: "\<And>b. vma_size b = n \<Longrightarrow> vma_wf addr b \<Longrightarrow>
      vma_size (g b) = n \<and> vma_wf addr (g b) \<and> (\<forall>i < unat n. vma_ct (g b) i = F (vma_ct b i))"
  obtains m1 b m2 k2 a2 where "CarveVMA m addr n = Some (m1, addr)" "sm_get m1 addr = Some b"
    "vma_size b = n" "vma_wf addr b" "VMA_MergeAdjacent (sm_put m1 addr (g b)) addr = Some (m2, k2)"
    "vma_laid lo m2 hi"
    "vma_cells m2 = map_range F (unat addr) (unat addr + unat n) (vma_cells m)"
    "\<And>c j. fits vma_size m c j \<Longrightarrow> unat c + unat j \<le> unat addr \<or> unat addr + unat n \<le> unat c \<Longrightarrow>
      fits vma_size m2 c j"
    "sm_get m2 k2 = Some a2" "unat k2 \<le> unat addr" "unat addr + unat n \<le> unat k2 + unat (vma_size a2)"
    "\<forall>i < unat n. vma_ct b i = the (vma_cells m (unat addr + i))"
  using vm.carve_change_merge [OF l hi f, of g F "\<lambda>_. True"] g by blast

text \<open>What \<^verbatim>\<open>MergeAdjacent\<close> does to an area in place.\<close>

lemma vm_merge:
  assumes l: "vma_laid lo m hi" and hi: "hi < 2 ^ 64" and k: "sm_get m k = Some a"
  obtains m2 k2 a2 where "VMA_MergeAdjacent m k = Some (m2, k2)" "vma_laid lo m2 hi"
    "vma_cells m2 = vma_cells m" "sm_get m2 k2 = Some a2" "unat k2 \<le> unat k"
    "unat k + unat (vma_size a) \<le> unat k2 + unat (vma_size a2)"
proof -
  from k obtain xs ys where m: "m = xs @ (k, a) # ys" by (rule sm_get_split)
  from vm.merge_spec [OF l [unfolded m] hi] obtain m2 k2 a2 where
    m2: "VMA_MergeAdjacent m k = Some (m2, k2)" "vma_laid lo m2 hi" "vma_cells m2 = vma_cells m"
    "(k2, a2) \<in> set m2" "unat k2 \<le> unat k" "unat k + unat (vma_size a) \<le> unat k2 + unat (vma_size a2)"
    unfolding m by blast
  have "sm_get m2 k2 = Some a2"
    using laid_mem [OF m2(2,4)] by (intro laid_floor_mem(2) [OF m2(2,4), of k2]) auto
  with m2 that show thesis by blast
qed

subsection \<open>The iterator of the next round\<close>

lemma laid_floor_next:
  assumes l: "laid sz wfa lo (xs @ (k, a) # ys) hi" and hi: "hi < 2 ^ 64"
    and c: "unat c = unat k + unat (sz a)" "unat c \<in> dom (cell sz ct (xs @ (k, a) # ys))"
  shows "sm_begin ys = Some c" "sm_floor (xs @ (k, a) # ys) c = Some c"
proof -
  let ?m = "xs @ (k, a) # ys"
  obtain z where "cell sz ct ?m (unat c) = Some z" using c(2) by blast
  then obtain us k' a' vs where s: "?m = us @ (k', a') # vs" "unat k' \<le> unat c"
    "unat c < unat k' + unat (sz a')" by (rule cell_split)
  note l' = l [unfolded s(1)]
  have la: "0 < unat (sz a)" "laid sz wfa (unat k + unat (sz a)) ys hi"
    using l by (auto simp: laid_append)
  have "(k', a') \<in> set ?m" unfolding s(1) by simp
  then have "(k', a') \<in> set ys"
  proof -
    have "laid sz wfa lo xs (unat k)" using l by (simp add: laid_append)
    from laid_mem [OF this, of k' a'] have "(k', a') \<notin> set xs" using s(2,3) c(1) la by auto
    moreover have "(k', a') \<noteq> (k, a)" using s(3) c(1) by auto
    ultimately show ?thesis using \<open>(k', a') \<in> set ?m\<close> by auto
  qed
  from laid_mem [OF la(2) this] s(2) c(1) have k': "unat k' = unat c" by simp
  then have kc: "k' = c" by (simp only: word_unat_eq_iff)
  obtain k1 a1 ys1 where ys: "ys = (k1, a1) # ys1" using \<open>(k', a') \<in> set ys\<close> by (cases ys) auto
  have "unat k1 = unat c"
  proof (rule ccontr)
    assume ne: "unat k1 \<noteq> unat c"
    have "unat k + unat (sz a) \<le> unat k1" "laid sz wfa (unat k1 + unat (sz a1)) ys1 hi" "0 < unat (sz a1)"
      using la(2) unfolding ys by auto
    moreover have "(k', a') \<in> set ys1" using \<open>(k', a') \<in> set ys\<close> ne k' unfolding ys by auto
    ultimately show False using laid_mem [of sz wfa "unat k1 + unat (sz a1)" ys1 hi k' a'] ne k' c(1) by auto
  qed
  then have "k1 = c" by (simp only: word_unat_eq_iff)
  then show "sm_begin ys = Some c" unfolding ys by simp
  have "sm_floor ?m c = Some k'" using laid_floor [OF l' s(2,3)] unfolding s(1) .
  with kc show "sm_floor ?m c = Some c" by simp
qed

text \<open>
  Joining the area around the last round's addresses and stepping over it when it ends there
  leaves the iterator where a search for the next address would find it.
\<close>

lemma next_round_find:
  assumes l: "vma_laid lo m hi" and hi: "hi < 2 ^ 64"
    and merge: "VMA_MergeAdjacent m0 k = Some (m, k2)" and k2: "sm_get m k2 = Some a2"
    and c: "unat k2 \<le> unat c" "unat c \<le> unat k2 + unat (vma_size a2)"
  obtains it where "next_round m0 k c = Some (m, it)"
    "unat c \<in> dom (vma_cells m) \<Longrightarrow> it = FindVMA m c \<and> it \<noteq> None"
proof -
  from k2 obtain xs ys where m: "m = xs @ (k2, a2) # ys" by (rule sm_get_split)
  note lm = l [unfolded m]
  have b: "vma_base a2 = k2" and w: "unat k2 + unat (vma_size a2) < 2 ^ 64"
    using laid_mem [OF lm, of k2 a2] hi by (auto simp: vma_wf_def)
  have e: "unat (k2 + vma_size a2) = unat k2 + unat (vma_size a2)" using w by (rule unat_add64)
  show thesis
  proof (cases "k2 + vma_size a2 \<le> c")
    case True
    then have uc: "unat c = unat k2 + unat (vma_size a2)" using c e by (simp add: word_le_nat_alt)
    show thesis
    proof (rule that)
      show "next_round m0 k c = Some (m, sm_begin ys)"
        using merge k2 b True laid_sm_ok [OF lm] unfolding next_round_def by (simp add: m)
      assume d: "unat c \<in> dom (vma_cells m)"
      show "sm_begin ys = FindVMA m c \<and> sm_begin ys \<noteq> None"
        using laid_floor_next [OF lm hi uc d [unfolded m]] unfolding m FindVMA_def by simp
    qed
  next
    case False
    then have "unat c < unat k2 + unat (vma_size a2)" using e by (simp add: word_le_nat_alt)
    then have "FindVMA m c = Some k2" using laid_floor [OF lm c(1)] unfolding m FindVMA_def by simp
    moreover have "next_round m0 k c = Some (m, Some k2)"
      using merge k2 b False unfolding next_round_def by simp
    ultimately show thesis by (intro that) auto
  qed
qed

subsection \<open>The loop of \<^verbatim>\<open>NameVirtualRange\<close>\<close>

definition cell_named :: "string \<Rightarrow> vma_cell \<Rightarrow> vma_cell" where
  "cell_named name c = (case c of (ty, prot, nm, keep) \<Rightarrow> (ty, prot, if ty = VMA_Free then nm else name, keep))"

lemma vma_rename:
  assumes "vma_wf k v"
  shows "vma_wf k (v\<lparr>vma_name := name\<rparr>)"
    "vma_type v \<noteq> VMA_Free \<Longrightarrow> vma_ct (v\<lparr>vma_name := name\<rparr>) i = cell_named name (vma_ct v i)"
    "vma_type v = VMA_Free \<Longrightarrow> cell_named name (vma_ct v i) = vma_ct v i"
  using assms by (auto simp: vma_wf_def vma_ct_def HasPhysicalBacking_def cell_named_def)

lemma CarveVMA_whole:
  assumes l: "vma_laid lo m hi" and k: "sm_get m k = Some v"
  shows "CarveVMA m k (vma_size v) = Some (m, k)"
proof -
  from k obtain xs ys where m: "m = xs @ (k, v) # ys" by (rule sm_get_split)
  note lm = l [unfolded m]
  have "vma_base v = k" "0 < unat (vma_size v)" using laid_mem [OF lm, of k v] by (auto simp: vma_wf_def)
  then show ?thesis using laid_floor [OF lm, of k] k unfolding m by (simp add: CarveVMA_def FindVMA_def)
qed

definition name_round :: "string \<Rightarrow> VMAMap \<Rightarrow> u64 \<Rightarrow> VirtualMemoryArea \<Rightarrow> u64 \<Rightarrow> u64
    \<Rightarrow> (VMAMap \<times> u64) option" where
  "name_round name m h vma size_in_vma current_addr =
     (if \<not> VMA_IsFree vma
      then (if size_in_vma < vma_size vma
            then do {
              (m, h) \<leftarrow> CarveVMA m current_addr size_in_vma;
              new_vma \<leftarrow> sm_get m h;
              Some (sm_put m h (new_vma\<lparr>vma_name := name\<rparr>), h)
            }
            else Some (sm_put m h (vma\<lparr>vma_name := name\<rparr>), h))
      else Some (m, h))"

lemma name_loop_step:
  assumes "0 < rem" "sm_get m h = Some vma" "n = min rem (vma_size vma - (cur - vma_base vma))"
  shows "name_loop name (Some h) rem cur m =
    do { (m, h) \<leftarrow> name_round name m h vma n cur;
         (m, it) \<leftarrow> next_round m h (cur + n);
         name_loop name it (rem - n) (cur + n) m }"
  using assms by (subst name_loop.simps) (simp add: name_round_def Let_def)

text \<open>One round: the part of the area from the current address on that belongs to the range.\<close>

lemma name_round_spec:
  assumes l: "vma_laid lo m hi" and hi: "hi < 2 ^ 64" and k: "sm_get m k = Some v"
    and c: "unat k \<le> unat cur" "unat cur < unat k + unat (vma_size v)" and rem: "0 < unat rem"
    and n: "n = min rem (vma_size v - (cur - vma_base v))"
  obtains m1 k1 m2 it where "name_round name m k v n cur = Some (m1, k1)"
    "next_round m1 k1 (cur + n) = Some (m2, it)" "vma_laid lo m2 hi"
    "vma_cells m2 = map_range (cell_named name) (unat cur) (unat cur + unat n) (vma_cells m)"
    "unat (cur + n) \<in> dom (vma_cells m2) \<Longrightarrow> it = FindVMA m2 (cur + n) \<and> it \<noteq> None"
    "0 < unat n" "unat n \<le> unat rem" "unat (cur + n) = unat cur + unat n"
proof -
  from k obtain xs ys where m: "m = xs @ (k, v) # ys" by (rule sm_get_split)
  have mem: "(k, v) \<in> set m" using m by simp
  have b: "vma_base v = k" and w: "unat k + unat (vma_size v) < 2 ^ 64" and wf: "vma_wf k v"
    using laid_mem [OF l mem] hi by (auto simp: vma_wf_def)
  have left: "unat (vma_size v - (cur - vma_base v)) = unat k + unat (vma_size v) - unat cur"
    using c b by (simp add: nowrap)
  have un: "unat n = min (unat rem) (unat k + unat (vma_size v) - unat cur)"
    unfolding n min_unat left ..
  have n0: "0 < unat n" "unat n \<le> unat rem" "unat cur + unat n \<le> unat k + unat (vma_size v)"
    using un rem c by auto
  have ucn: "unat (cur + n) = unat cur + unat n" using n0(3) w by (intro unat_add64) linarith
  have f: "fits vma_size m cur n" using fits_mem [of k v m n cur vma_size] mem n0 c by blast
  show thesis
  proof (cases "VMA_IsFree v")
    case True
    from vm_merge [OF l hi k] obtain m2 k2 a2 where
      m2: "VMA_MergeAdjacent m k = Some (m2, k2)" "vma_laid lo m2 hi" "vma_cells m2 = vma_cells m"
      "sm_get m2 k2 = Some a2" "unat k2 \<le> unat k" "unat k + unat (vma_size v) \<le> unat k2 + unat (vma_size a2)" .
    have "cell_named name z = z" if "vma_cells m p = Some z" "unat cur \<le> p" "p < unat cur + unat n" for p z
      using laid_member_cell [OF l mem, of p vma_ct] that n0 c True
      by (auto simp: vma_rename(3) [OF wf] VMA_IsFree_def)
    then have "vma_cells m2 = map_range (cell_named name) (unat cur) (unat cur + unat n) (vma_cells m)"
      unfolding m2(3) by (intro map_range_id [symmetric]) auto
    moreover obtain it where "next_round m k (cur + n) = Some (m2, it)"
      "unat (cur + n) \<in> dom (vma_cells m2) \<Longrightarrow> it = FindVMA m2 (cur + n) \<and> it \<noteq> None"
      using next_round_find [OF m2(2) hi m2(1,4), of "cur + n"] m2(5,6) c n0 ucn by auto
    moreover have "name_round name m k v n cur = Some (m, k)" using True by (simp add: name_round_def)
    ultimately show thesis using m2(2) n0 ucn that by blast
  next
    case False
    then have nf: "vma_type v \<noteq> VMA_Free" by (simp add: VMA_IsFree_def)
    have part: "unat k \<le> unat cur" "unat cur + unat n \<le> unat k + unat (vma_size v)" using c n0 by auto
    have ty: "vma_type x \<noteq> VMA_Free" if "\<forall>i < unat n. vma_ct x i = the (vma_cells m (unat cur + i))" for x
    proof -
      have "vma_ct x 0 = vma_ct v (unat cur - unat k)"
        using that n0 laid_member_cell [OF l mem, of "unat cur" vma_ct] c by auto
      then show ?thesis using nf by (simp add: vma_ct_def)
    qed
    define F where "F z = (if fst z \<noteq> VMA_Free then cell_named name z else (fst z, fst (snd z), name, snd (snd (snd z))))" for z :: vma_cell
    have Fct: "vma_size (x\<lparr>vma_name := name\<rparr>) = n \<and> vma_wf cur (x\<lparr>vma_name := name\<rparr>) \<and>
        (\<forall>i < unat n. vma_ct (x\<lparr>vma_name := name\<rparr>) i = F (vma_ct x i))"
      if "vma_size x = n" "vma_wf cur x" for x
      using that vma_rename(1) [OF that(2)] by (auto simp: F_def vma_ct_def cell_named_def HasPhysicalBacking_def)
    from vm_change [OF l hi f Fct] obtain m1 x m2 k2 a2 where
      m1: "CarveVMA m cur n = Some (m1, cur)" "sm_get m1 cur = Some x" and
      m2: "VMA_MergeAdjacent (sm_put m1 cur (x\<lparr>vma_name := name\<rparr>)) cur = Some (m2, k2)"
      "vma_laid lo m2 hi" "vma_cells m2 = map_range F (unat cur) (unat cur + unat n) (vma_cells m)"
      "sm_get m2 k2 = Some a2" "unat k2 \<le> unat cur" "unat cur + unat n \<le> unat k2 + unat (vma_size a2)"
      by metis
    have "map_range F (unat cur) (unat cur + unat n) (vma_cells m) =
        map_range (cell_named name) (unat cur) (unat cur + unat n) (vma_cells m)"
    proof
      fix p
      show "map_range F (unat cur) (unat cur + unat n) (vma_cells m) p =
          map_range (cell_named name) (unat cur) (unat cur + unat n) (vma_cells m) p"
        using laid_member_cell [OF l mem, of p vma_ct] part nf
        by (auto simp: map_range_def F_def vma_ct_def)
    qed
    with m2(3) have cells: "vma_cells m2 =
        map_range (cell_named name) (unat cur) (unat cur + unat n) (vma_cells m)" by simp
    have "name_round name m k v n cur = Some (sm_put m1 cur (x\<lparr>vma_name := name\<rparr>), cur)"
    proof (cases "n < vma_size v")
      case True
      then show ?thesis using False m1 by (simp add: name_round_def)
    next
      case F2: False
      then have "unat n = unat (vma_size v)" "unat cur = unat k"
        using n0 c un by (auto simp: word_less_nat_alt)
      then have nk: "n = vma_size v" "cur = k" by (simp_all only: word_unat_eq_iff)
      with CarveVMA_whole [OF l k] m1 k have "m1 = m" "x = v" by auto
      then show ?thesis using False nk by (simp add: name_round_def)
    qed
    moreover obtain it where "next_round (sm_put m1 cur (x\<lparr>vma_name := name\<rparr>)) cur (cur + n) = Some (m2, it)"
      "unat (cur + n) \<in> dom (vma_cells m2) \<Longrightarrow> it = FindVMA m2 (cur + n) \<and> it \<noteq> None"
      using next_round_find [OF m2(2) hi m2(1,4), of "cur + n"] m2(5,6) ucn by auto
    ultimately show thesis using m2(2) cells n0 ucn that by blast
  qed
qed

lemma name_loop_spec:
  assumes "vma_laid 0 m hi" "hi < 2 ^ 64" "{unat cur..<unat cur + unat rem} \<subseteq> dom (vma_cells m)"
    and "0 < unat rem \<Longrightarrow> it = FindVMA m cur"
  shows "\<exists>m'. name_loop name it rem cur m = Some m' \<and> vma_laid 0 m' hi \<and>
    vma_cells m' = map_range (cell_named name) (unat cur) (unat cur + unat rem) (vma_cells m)"
  using assms
proof (induction "unat rem" arbitrary: rem it cur m rule: less_induct)
  case less
  show ?case
  proof (cases "unat rem = 0")
    case True
    then have "rem = 0" by (metis unat_eq_zero)
    then have "name_loop name it rem cur m = Some m"
      by (subst name_loop.simps) (simp split: option.split)
    with less.prems(1) True show ?thesis by simp
  next
    case False
    then have "unat cur \<in> {unat cur..<unat cur + unat rem}" by simp
    then have "unat cur \<in> dom (vma_cells m)" using less.prems(3) by blast
    from FindVMA_from [OF less.prems(1) this] obtain xs k v ys where
      k: "FindVMA m cur = Some k" "sm_get m k = Some v" "unat k \<le> unat cur"
      "unat cur < unat k + unat (vma_size v)" by metis
    define n where "n = min rem (vma_size v - (cur - vma_base v))"
    have rem: "0 < unat rem" "0 < rem" using False by (auto simp: word_gt_0)
    from name_round_spec [OF less.prems(1,2) k(2-4) rem(1) n_def, of name] obtain m1 k1 m2 it2 where
      r: "name_round name m k v n cur = Some (m1, k1)" "next_round m1 k1 (cur + n) = Some (m2, it2)"
      "vma_laid 0 m2 hi"
      "vma_cells m2 = map_range (cell_named name) (unat cur) (unat cur + unat n) (vma_cells m)"
      "unat (cur + n) \<in> dom (vma_cells m2) \<Longrightarrow> it2 = FindVMA m2 (cur + n) \<and> it2 \<noteq> None"
      "0 < unat n" "unat n \<le> unat rem" "unat (cur + n) = unat cur + unat n" by metis
    have u: "unat (rem - n) = unat rem - unat n" using r(7) by (rule unat_sub_nowrap)
    have sub: "{unat (cur + n)..<unat (cur + n) + unat (rem - n)} \<subseteq> dom (vma_cells m2)"
      using r(7) u unfolding r(4) map_range_dom r(8) by (intro order_trans [OF _ less.prems(3)]) simp
    moreover have "unat (cur + n) \<in> {unat (cur + n)..<unat (cur + n) + unat (rem - n)}"
      if "0 < unat (rem - n)" using that by simp
    ultimately have it2: "it2 = FindVMA m2 (cur + n)" if "0 < unat (rem - n)" using r(5) that by blast
    have "unat (rem - n) < unat rem" using u r(6,7) by linarith
    from less.hyps [OF this r(3) less.prems(2) sub it2] obtain m' where
      m': "name_loop name it2 (rem - n) (cur + n) m2 = Some m'" "vma_laid 0 m' hi"
      "vma_cells m' = map_range (cell_named name) (unat (cur + n)) (unat (cur + n) + unat (rem - n)) (vma_cells m2)"
      by blast
    have "name_loop name it rem cur m = Some m'"
      using name_loop_step [OF rem(2) k(2) n_def, of name] less.prems(4) rem(1) k(1) r(1,2) m'(1) by simp
    moreover have "vma_cells m' = map_range (cell_named name) (unat cur) (unat cur + unat rem) (vma_cells m)"
      unfolding m'(3) r(4,8) u using r(7) by (subst map_range_append) auto
    ultimately show ?thesis using m'(2) by blast
  qed
qed

subsection \<open>\<^verbatim>\<open>NameVirtualRange\<close>\<close>

lemma mm_inv_vma:
  assumes "mm_inv s" "vma_laid 0 m addr_max" "dom (vma_cells m) = dom (vma_cells (vma_map s))"
  shows "mm_inv (s\<lparr>vma_map := m\<rparr>)"
proof -
  have "vma_map s \<noteq> []" "vma_laid 0 (vma_map s) addr_max" using assms(1) by (auto simp: mm_inv_def)
  then obtain k v ys where m: "vma_map s = (k, v) # ys" "0 < unat (vma_size v)"
    by (cases "vma_map s") auto
  then have "unat k \<in> dom (vma_cells (vma_map s))" by auto
  then have "m \<noteq> []" using assms(3) by auto
  with assms show ?thesis by (simp add: mm_inv_def)
qed

lemma mm_inv_generation [simp]: "mm_inv (s\<lparr>mapping_generation := g\<rparr>) = mm_inv s"
  by (simp add: mm_inv_def)

lemma MM_generation_fields [simp]:
  "vma_map (BeginMutation s) = vma_map s" "dmem_map (BeginMutation s) = dmem_map s"
  "fmem_map (BeginMutation s) = fmem_map s" "IsValidMapping (BeginMutation s) a n = IsValidMapping s a n"
  "vma_map (FinishMutation s) = vma_map s"
  "mm_inv (BeginMutation s) = mm_inv s" "mm_inv (FinishMutation s) = mm_inv s"
  by (simp_all add: BeginMutation_def FinishMutation_def IsValidMapping_def cong: if_cong)

text \<open>
  C10: naming a range that belongs to areas returns, and gives the name to exactly the addresses
  of the 16 KB pages around the range that are not free; the layout stays valid and no other
  field changes but the mapping generation, which advances by two.
\<close>

theorem NameVirtualRange_spec:
  assumes inv: "mm_inv s" and al: "AlignDown virtual_addr (KB 16) = Some a" "AlignUp n (KB 16) = Some len"
    and dom: "unat a \<in> dom (vma_cells (vma_map s))"
      "{unat a..<unat a + unat len} \<subseteq> dom (vma_cells (vma_map s))"
  shows "\<exists>m. NameVirtualRange s virtual_addr n name =
      Some (s\<lparr>vma_map := m, mapping_generation := mapping_generation s + 2\<rparr>) \<and>
    mm_inv (s\<lparr>vma_map := m\<rparr>) \<and>
    vma_cells m = map_range (cell_named name) (unat a) (unat a + unat len) (vma_cells (vma_map s))"
proof -
  have l: "vma_laid 0 (vma_map s) addr_max" using inv by (simp add: mm_inv_def)
  have v: "IsValidMapping s a len = Some True" using IsValidMapping_iff [OF inv dom(1)] dom(2) by simp
  obtain k where k: "FindVMA (vma_map s) a = Some k" by (rule FindVMA_from [OF l dom(1)])
  from name_loop_spec [OF l addr_max_less(1) dom(2), of "Some k" name] k obtain m where
    m: "name_loop name (Some k) len a (vma_map s) = Some m" "vma_laid 0 m addr_max"
    "vma_cells m = map_range (cell_named name) (unat a) (unat a + unat len) (vma_cells (vma_map s))" by auto
  have "NameVirtualRange s virtual_addr n name =
      Some (s\<lparr>vma_map := m, mapping_generation := mapping_generation s + 2\<rparr>)"
    using al v k m(1)
    by (simp add: NameVirtualRange_def with_mutation_def assert_valid_def)
       (simp add: BeginMutation_def FinishMutation_def)
  moreover have "mm_inv (s\<lparr>vma_map := m\<rparr>)" using inv m(2,3) by (intro mm_inv_vma) simp_all
  ultimately show ?thesis using m(3) by blast
qed

text \<open>The small instance with its first area reserved.\<close>

definition demo_reserved :: MemoryManager where
  "demo_reserved = demo_mm\<lparr>vma_map :=
     [(0x400000, (free_vma 0x400000 0xC00000)\<lparr>vma_type := VMA_Reserved\<rparr>),
      (0x2000000, free_vma 0x2000000 0x4000000)]\<rparr>"

lemma demo_reserved_inv: "mm_inv demo_reserved"
  using demo_inv by (simp add: demo_reserved_def mm_inv_def free_vma_def vma_wf_def HasPhysicalBacking_def)

lemma demo_reserved_dom:
  "dom (vma_cells (vma_map demo_reserved)) = {0x400000..<0x1000000} \<union> {0x2000000..<0x6000000}"
  by (simp add: demo_reserved_def dom_cell_Cons dom_cell_Nil free_vma_def del: cell.simps)

lemma NameVirtualRange_spec_witness:
  "\<exists>m. NameVirtualRange demo_reserved 0x500100 0x4001 ''heap'' =
      Some (demo_reserved\<lparr>vma_map := m, mapping_generation := 2\<rparr>) \<and>
    vma_cells m 0x500000 = Some (VMA_Reserved, 0, ''heap'', False, None) \<and>
    vma_cells m 0x507FFF = Some (VMA_Reserved, 0, ''heap'', False, None) \<and>
    vma_cells m 0x508000 = Some (VMA_Reserved, 0, '''', False, None)"
proof -
  have al: "AlignDown 0x500100 (KB 16) = Some 0x500000" "AlignUp 0x4001 (KB 16) = Some 0x8000"
    by (simp_all add: AlignDown_def AlignUp_def KB_def)
  have dom: "unat (0x500000 :: u64) \<in> dom (vma_cells (vma_map demo_reserved))"
    "{unat (0x500000 :: u64)..<unat (0x500000 :: u64) + unat (0x8000 :: u64)}
      \<subseteq> dom (vma_cells (vma_map demo_reserved))"
    unfolding demo_reserved_dom by (auto simp: subset_iff)
  have g: "mapping_generation demo_reserved = 0" by (simp add: demo_reserved_def)
  obtain m where m: "NameVirtualRange demo_reserved 0x500100 0x4001 ''heap'' =
      Some (demo_reserved\<lparr>vma_map := m, mapping_generation := mapping_generation demo_reserved + 2\<rparr>)"
    "vma_cells m = map_range (cell_named ''heap'') (unat (0x500000 :: u64))
      (unat (0x500000 :: u64) + unat (0x8000 :: u64)) (vma_cells (vma_map demo_reserved))"
    using NameVirtualRange_spec [OF demo_reserved_inv al dom, of "''heap''"] by blast
  show ?thesis using m(1)
    by (intro exI [of _ m]) (simp add: m(2) g map_range_def demo_reserved_def free_vma_def vma_ct_def
        cell_named_def HasPhysicalBacking_def Prot_NoAccess_def)
qed

end
