(* ===== verification/Memory_Protection.thy ===== *)
theory Memory_Protection
  imports Memory_Names
begin

section \<open>What protecting a range does\<close>

text \<open>
  \<^verbatim>\<open>Protect\<close> and \<^verbatim>\<open>SealGuestExecutable\<close> against the cells of the virtual map.
\<close>

subsection \<open>Permissions of the host\<close>

lemma flag_set_OR: "flag_set x (y OR z) \<longleftrightarrow> flag_set x y \<or> flag_set x z"
  by (simp add: flag_set_def bit.conj_disj_distrib or_eq_0_iff)

text \<open>
  The host page is writable whenever the guest may read it: any read or write flag gives read
  and write permission, so a read-only protection is not enforced.
\<close>

theorem host_perms_reads_write:
  "host_perms prot =
    (if flag_set prot (Prot_CpuReadWrite OR Prot_GpuReadWrite) then Perm_ReadWrite else 0) OR
    (if flag_set prot Prot_CpuExec then Perm_Execute else 0)"
proof -
  have eq: "Prot_CpuReadWrite = Prot_CpuRead OR Prot_CpuWrite"
    "Prot_GpuReadWrite = Prot_GpuRead OR Prot_GpuWrite"
    by (simp_all add: prot_defs)
  have "flag_set prot Prot_CpuReadWrite \<longleftrightarrow> flag_set prot Prot_CpuRead \<or> flag_set prot Prot_CpuWrite"
    "flag_set prot Prot_GpuReadWrite \<longleftrightarrow> flag_set prot Prot_GpuRead \<or> flag_set prot Prot_GpuWrite"
    "flag_set prot (Prot_CpuReadWrite OR Prot_GpuReadWrite) \<longleftrightarrow>
      flag_set prot Prot_CpuReadWrite \<or> flag_set prot Prot_GpuReadWrite"
    by (simp_all only: eq flag_set_OR)
  then show ?thesis
    by (cases "flag_set prot Prot_CpuRead"; cases "flag_set prot Prot_CpuWrite";
        cases "flag_set prot Prot_GpuRead"; cases "flag_set prot Prot_GpuWrite";
        cases "flag_set prot Prot_CpuExec") (simp_all add: host_perms_def Let_def perm_defs)
qed

subsection \<open>Protecting a part of an area\<close>

text \<open>The protection an area records, and that of a cell.\<close>

definition recorded_prot :: "VMAType \<Rightarrow> MemoryProt \<Rightarrow> MemoryProt" where
  "recorded_prot ty prot =
     (if ty = VMA_Direct \<or> ty = VMA_Pooled \<or> ty = VMA_File then append_read prot AND NOT Prot_CpuExec
      else append_read prot)"

definition cell_protected :: "MemoryProt \<Rightarrow> vma_cell \<Rightarrow> vma_cell" where
  "cell_protected prot c = (case c of (ty, old, rest) \<Rightarrow>
     (ty, if ty = VMA_Free \<or> ty = VMA_PoolReserved then old else recorded_prot ty prot, rest))"

text \<open>The predecessor that a join may extend keeps its entry.\<close>

lemma merge_list_keys:
  "fst ` set xs \<subseteq> fst ` set (fst (merge_list mg jn xs e ys))"
proof (cases "xs = []")
  case False
  then obtain xs' k z where "xs = xs' @ [(k, z)]" by (metis append_butlast_last_id surj_pair)
  then show ?thesis by (auto simp: merge_list_def Let_def split: list.splits prod.splits)
qed simp

lemma absorb_next_cases:
  "\<exists>a' ys'. absorb_next mg jn (k, a) ys = (k, a') # ys' \<and> set ys' \<subseteq> set ys \<and> (a' = a \<or> (\<exists>z. a' = jn a z))"
proof (cases ys)
  case (Cons y zs)
  then show ?thesis by (cases "mg a (snd y)"; cases y) auto
qed simp

text \<open>
  The area at \<open>k\<close>, given the protection \<open>p\<close>, can be joined to the area that ends right before it only if
  that one has the same type, protection and name and neither of them refuses to be joined.
\<close>

definition joins_before :: "VMAMap \<Rightarrow> u64 \<Rightarrow> VirtualMemoryArea \<Rightarrow> MemoryProt \<Rightarrow> bool" where
  "joins_before m k v p \<longleftrightarrow> 0 < unat k \<and> \<not> vma_disallow_merge v \<and>
     (\<exists>back. vma_cells m (unat k - 1) = Some (vma_type v, p, vma_name v, False, back))"

lemma VMA_Absorb_fields:
  "vma_base (VMA_Absorb a b) = vma_base a" "vma_type (VMA_Absorb a b) = vma_type a"
  "vma_prot (VMA_Absorb a b) = vma_prot a" "vma_name (VMA_Absorb a b) = vma_name a"
  "vma_disallow_merge (VMA_Absorb a b) = vma_disallow_merge a"
  by (simp_all add: VMA_Absorb_def Let_def)

text \<open>The protection of a whole area changes its cells.\<close>

lemma vma_protect:
  assumes "vma_wf k v"
  shows "vma_wf k (v\<lparr>vma_prot := p\<rparr>)" "vma_size (v\<lparr>vma_prot := p\<rparr>) = vma_size v"
    "vma_ct (v\<lparr>vma_prot := p\<rparr>) i = (case vma_ct v i of (ty, old, rest) \<Rightarrow> (ty, p, rest))"
  using assms by (auto simp: vma_wf_def vma_ct_def HasPhysicalBacking_def)

text \<open>
  The entry of the area that is protected survives the join: it lies before the carved part, or
  it is the carved part and is not joined to an area before it.
\<close>

lemma carve_merge_keeps:
  assumes l: "vma_laid 0 m hi" and hi: "hi < 2 ^ 64" and k: "sm_get m k = Some v"
    and n: "0 < unat n" "unat k \<le> unat addr" "unat addr + unat n \<le> unat k + unat (vma_size v)"
    and first: "addr = k \<longrightarrow> \<not> joins_before m k v p"
    and carve: "CarveVMA m addr n = Some (m1, addr)" "sm_get m1 addr = Some b"
    and b: "vma_size b = n" "vma_wf addr b"
    and merge: "VMA_MergeAdjacent (sm_put m1 addr (b\<lparr>vma_prot := p\<rparr>)) addr = Some (m2, k2)"
  shows "\<exists>v'. sm_get m2 k = Some v'"
proof -
  let ?g = "\<lambda>x :: VirtualMemoryArea. x\<lparr>vma_prot := p\<rparr>"
  have g: "vma_size (?g b) = n" "vma_wf addr (?g b)" using b vma_protect [OF b(2)] by simp_all
  from k obtain xs ys where m: "m = xs @ (k, v) # ys" by (rule sm_get_split)
  from vm.carve_mid [OF l [unfolded m] hi n] obtain xs' b' ys' where c:
    "m1 = xs' @ (addr, b') # ys'" "vma_laid 0 (xs' @ (addr, b') # ys') hi"
    "vma_cells (xs' @ (addr, b') # ys') = vma_cells m" "k \<in> fst ` set (xs' @ (addr, b') # ys')"
    using carve(1) unfolding m by (metis Pair_inject option.inject)
  have ok: "sm_ok (xs' @ (addr, b') # ys')" using c(2) by (rule laid_sm_ok)
  have b': "b' = b" using carve(2) ok unfolding c(1) by simp
  have l2: "vma_laid 0 (xs' @ (addr, ?g b) # ys') hi"
    using laid_replace [OF c(2)] g b' by simp
  have m2: "(m2, k2) = merge_list vma_mergeable VMA_Absorb xs' (addr, ?g b) ys'"
    using merge VMA_MergeAdjacent_list [OF l2] ok unfolding c(1) by simp
  have "k \<in> fst ` set m2"
  proof (cases "addr = k")
    case True
    have "merge_list vma_mergeable VMA_Absorb xs' (addr, ?g b) ys' =
        (xs' @ absorb_next vma_mergeable VMA_Absorb (addr, ?g b) ys', addr)"
    proof (cases "xs' = []")
      case False
      then obtain us k0 z where xs': "xs' = us @ [(k0, z)]" by (metis append_butlast_last_id surj_pair)
      have lz: "vma_laid 0 (us @ (k0, z) # (addr, b) # ys') hi" using c(2) b' xs' by simp
      have z: "vma_base z = k0" "unat k0 + unat (vma_size z) \<le> unat addr" "0 < unat (vma_size z)"
        using lz by (auto simp: laid_append vma_wf_def)
      obtain a' zs where ab: "absorb_next vma_mergeable VMA_Absorb (addr, ?g b) ys' = (addr, a') # zs"
        "a' = ?g b \<or> (\<exists>w. a' = VMA_Absorb (?g b) w)"
        using absorb_next_cases [of vma_mergeable VMA_Absorb addr "?g b" ys'] by blast
      have "\<not> vma_mergeable z a'"
      proof
        assume mg: "vma_mergeable z a'"
        have ba: "vma_base b = addr" using b(2) by (simp add: vma_wf_def)
        then have a': "vma_base a' = addr" "vma_type a' = vma_type b" "vma_prot a' = p" "vma_name a' = vma_name b"
          "vma_disallow_merge a' = vma_disallow_merge b"
          using ab(2) by (auto simp: VMA_Absorb_fields)
        note mgD = vma_mergeableD [OF mg, unfolded a' z(1)]
        have e: "unat k0 + unat (vma_size z) = unat addr"
          using mgD(3) z(2) unat_lt64 [of addr] unat_add64 [of k0 "vma_size z"] by (metis le_less_trans)
        have "vma_cells (xs' @ (addr, b') # ys') (unat addr - 1) = Some (vma_ct z (unat addr - 1 - unat k0))"
          using cell_mid [OF lz, of "unat addr - 1" vma_ct] e z(3) b' xs' by simp
        then have pre: "vma_cells m (unat addr - 1) = Some (vma_ct z (unat addr - 1 - unat k0))" using c(3) by simp
        have "vma_cells (xs' @ (addr, b') # ys') (unat addr) = Some (vma_ct b 0)"
          using cell_mid [OF c(2), of "unat addr" vma_ct] b' b(1) n(1) by simp
        moreover have "vma_cells m (unat addr) = Some (vma_ct v 0)"
        proof -
          have "0 < unat (vma_size v)" using n by linarith
          then show ?thesis using cell_mid [OF l [unfolded m], of "unat k" vma_ct] True m by simp
        qed
        ultimately have bv: "vma_ct b 0 = vma_ct v 0" using c(3) by simp
        have "joins_before m k v p"
          using pre bv mgD(1,2,4,5,6) e z(3) True by (auto simp: joins_before_def vma_ct_def)
        then show False using first True by simp
      qed
      then show ?thesis using xs' ab(1) by (auto simp: merge_list_def Let_def split: list.splits prod.splits)
    qed (auto simp: merge_list_def Let_def split: list.splits prod.splits)
    then have "m2 = xs' @ absorb_next vma_mergeable VMA_Absorb (addr, ?g b) ys'" using m2 by simp
    then show ?thesis using True by (cases ys') (auto split: prod.splits)
  next
    case False
    then have "unat k < unat addr" using n(2) word_unat_eq_iff le_neq_implies_less by metis
    then have "k \<notin> fst ` set ys'" "k \<noteq> addr" using ok by (auto simp: sm_ok_simps word_less_nat_alt)
    then have "k \<in> fst ` set xs'" using c(4) by auto
    moreover have "m2 = fst (merge_list vma_mergeable VMA_Absorb xs' (addr, ?g b) ys')"
      unfolding m2 [symmetric] by simp
    ultimately show ?thesis
      using merge_list_keys [of xs' vma_mergeable VMA_Absorb "(addr, ?g b)" ys'] by blast
  qed
  then have "sm_get m2 k \<noteq> None" unfolding sm_get_def map_of_eq_None_iff by simp
  then show ?thesis by simp
qed

text \<open>
  The host is told of a new protection unless the area is reserved, free or pool-reserved or the
  requested protection is the recorded one.
\<close>

definition protect_calls :: "VirtualMemoryArea \<Rightarrow> u64 \<Rightarrow> u64 \<Rightarrow> MemoryProt \<Rightarrow> host_op list" where
  "protect_calls v addr n prot =
     (if vma_type v = VMA_Free \<or> vma_type v = VMA_PoolReserved \<or> vma_type v = VMA_Reserved \<or>
         prot = vma_prot v then []
      else [Host_Protect addr n (host_perms (append_read prot))])"

lemma ProtectBytes_spec:
  assumes inv: "mm_inv s" and k: "sm_get (vma_map s) k = Some v"
    and n: "0 < unat n" "unat k \<le> unat addr" "unat addr + unat n \<le> unat k + unat (vma_size v)"
    and first: "addr = k \<longrightarrow> \<not> joins_before (vma_map s) k v (recorded_prot (vma_type v) prot)"
  shows "\<exists>m. ProtectBytes s addr k n prot =
      Some (n, s\<lparr>vma_map := m, host_trace := host_trace s @ protect_calls v addr n prot\<rparr>) \<and>
    vma_laid 0 m addr_max \<and>
    vma_cells m = map_range (cell_protected prot) (unat addr) (unat addr + unat n) (vma_cells (vma_map s))"
proof -
  let ?m = "vma_map s"
  have l: "vma_laid 0 ?m addr_max" using inv by (simp add: mm_inv_def)
  have mem: "(k, v) \<in> set ?m" using k unfolding sm_get_def by (rule map_of_SomeD)
  have b: "vma_base v = k" and wf: "vma_wf k v" using laid_mem [OF l mem] by (auto simp: vma_wf_def)
  have left: "unat (vma_size v - (addr - vma_base v)) = unat k + unat (vma_size v) - unat addr"
    using n b by (simp add: nowrap)
  have "n \<le> vma_size v - (addr - vma_base v)" using n unfolding word_le_nat_alt left by simp
  then have adj: "min (vma_size v - (addr - vma_base v)) n = n" by (rule min.absorb2)
  have in_v: "vma_cells ?m p = Some (vma_ct v (p - unat k))" if "unat addr \<le> p" "p < unat addr + unat n" for p
    using that n by (intro laid_member_cell [OF l mem]) auto
  show ?thesis
  proof (cases "vma_type v = VMA_Free \<or> vma_type v = VMA_PoolReserved")
    case True
    then have "ProtectBytes s addr k n prot = Some (n, s)" using k adj by (auto simp: ProtectBytes_def Let_def)
    moreover have "map_range (cell_protected prot) (unat addr) (unat addr + unat n) (vma_cells ?m) = vma_cells ?m"
      using True in_v by (intro map_range_id) (auto simp: cell_protected_def vma_ct_def)
    ultimately show ?thesis using l True
      by (intro exI [of _ ?m]) (auto simp: protect_calls_def)
  next
    case False
    let ?p = "recorded_prot (vma_type v) prot"
    define F :: "vma_cell \<Rightarrow> vma_cell" where "F = (\<lambda>(ty, old, rest). (ty, ?p, rest))"
    have f: "fits vma_size ?m addr n" using fits_mem [of k v ?m n addr vma_size] mem n by blast
    have g: "vma_size (x\<lparr>vma_prot := ?p\<rparr>) = n \<and> vma_wf addr (x\<lparr>vma_prot := ?p\<rparr>) \<and>
        (\<forall>i < unat n. vma_ct (x\<lparr>vma_prot := ?p\<rparr>) i = F (vma_ct x i))"
      if "vma_size x = n" "vma_wf addr x" for x
      using that vma_protect [OF that(2)] by (simp add: F_def)
    from vm_change [OF l addr_max_less(1) f g] obtain m1 x m2 k2 where
      m1: "CarveVMA ?m addr n = Some (m1, addr)" "sm_get m1 addr = Some x" "vma_size x = n" "vma_wf addr x" and
      m2: "VMA_MergeAdjacent (sm_put m1 addr (x\<lparr>vma_prot := ?p\<rparr>)) addr = Some (m2, k2)"
      "vma_laid 0 m2 addr_max" "vma_cells m2 = map_range F (unat addr) (unat addr + unat n) (vma_cells ?m)"
      by metis
    obtain v' where v': "sm_get m2 k = Some v'"
      using carve_merge_keeps [OF l addr_max_less(1) k n first m1 m2(1)] by blast
    have cells: "vma_cells m2 = map_range (cell_protected prot) (unat addr) (unat addr + unat n) (vma_cells ?m)"
      unfolding m2(3) using False in_v
      by (intro ext) (auto simp: map_range_def cell_protected_def vma_ct_def F_def)
    have "vma_type v' = vma_type v"
    proof -
      have k0: "0 < unat (vma_size v)" using n by linarith
      have mem': "(k, v') \<in> set m2" using v' unfolding sm_get_def by (rule map_of_SomeD)
      have "vma_cells m2 (unat k) = Some (vma_ct v' 0)"
        using laid_member_cell [OF m2(2) mem', of "unat k" vma_ct] laid_mem [OF m2(2) mem'] by simp
      moreover have "vma_cells ?m (unat k) = Some (vma_ct v 0)"
        using laid_member_cell [OF l mem, of "unat k" vma_ct] k0 by simp
      ultimately show ?thesis unfolding cells
        by (auto simp: map_range_def cell_protected_def vma_ct_def split: if_splits)
    qed
    then have "ProtectBytes s addr k n prot =
        Some (n, s\<lparr>vma_map := m2, host_trace := host_trace s @ protect_calls v addr n prot\<rparr>)"
      using k adj False m1(1,2) m2(1) v'
      by (auto simp: ProtectBytes_def Let_def recorded_prot_def host_call_def protect_calls_def)
    then show ?thesis using m2(2) cells by blast
  qed
qed

text \<open>
  C12: protecting a part of one area, less than \<open>2 ^ 63\<close> bytes, succeeds and gives the protection to
  exactly the addresses of that part, readable where it is writable and with execution hidden for
  direct, pooled and file memory (a free or pool-reserved area stays as it is); the invariant is
  kept; and the host is told once, with the part and its permissions, if the area is mapped and the
  requested protection is not the recorded one, and not at all otherwise.  Where the part begins at
  the start of its area, the area that ends there must not be one to which the part is joined: then
  the code reads an entry it has erased (\<open>Protect_reads_erased\<close>).
\<close>

theorem Protect_spec:
  assumes inv: "mm_inv s" and k: "sm_get (vma_map s) k = Some v"
    and n: "0 < unat n" "unat n < 2 ^ 63" "unat k \<le> unat addr"
      "unat addr + unat n \<le> unat k + unat (vma_size v)"
    and first: "addr = k \<longrightarrow> \<not> joins_before (vma_map s) k v (recorded_prot (vma_type v) prot)"
  shows "\<exists>m. Protect s addr n prot = Some (ORBIS_OK, s\<lparr>vma_map := m,
      mapping_generation := mapping_generation s + 2,
      host_trace := host_trace s @ protect_calls v addr n prot\<rparr>) \<and>
    mm_inv (s\<lparr>vma_map := m\<rparr>) \<and>
    vma_cells m = map_range (cell_protected prot) (unat addr) (unat addr + unat n) (vma_cells (vma_map s))"
proof -
  let ?m = "vma_map s"
  have l: "vma_laid 0 ?m addr_max" using inv by (simp add: mm_inv_def)
  have mem: "(k, v) \<in> set ?m" using k unfolding sm_get_def by (rule map_of_SomeD)
  have b: "vma_base v = k" using laid_mem [OF l mem] by (auto simp: vma_wf_def)
  have in_v: "p \<in> dom (vma_cells ?m)" if "unat addr \<le> p" "p < unat addr + unat n" for p
    using laid_member_cell [OF l mem, of p vma_ct] that n by auto
  then have dom: "unat addr \<in> dom (vma_cells ?m)" "{unat addr..<unat addr + unat n} \<subseteq> dom (vma_cells ?m)"
    using n(1) by (simp, meson atLeastLessThan_iff subsetI)
  have v: "IsValidMapping s addr n = Some True" using IsValidMapping_iff [OF inv dom(1)] dom(2) by simp
  have fl: "FindVMA ?m addr = Some k" using laid_floor_mem(1) [OF l mem] n by (simp add: FindVMA_def)
  have "mm_inv (BeginMutation s)" "sm_get (vma_map (BeginMutation s)) k = Some v" using inv k by simp_all
  from ProtectBytes_spec [OF this n(1,3,4), of prot] first obtain m where
    pb: "ProtectBytes (BeginMutation s) addr k n prot = Some (n, (BeginMutation s)
      \<lparr>vma_map := m, host_trace := host_trace (BeginMutation s) @ protect_calls v addr n prot\<rparr>)"
    "vma_laid 0 m addr_max"
    "vma_cells m = map_range (cell_protected prot) (unat addr) (unat addr + unat n) (vma_cells ?m)"
    by auto
  have "int (unat n) < int (2 ^ 63)" using n(2) by (simp only: of_nat_less_iff)
  then have "uint n < 2 ^ 63" by simp
  then have "signed_take_bit 63 (uint n) = uint n"
    using uint_ge_0 [of n] by (intro signed_take_bit_int_eq_self) linarith+
  then have "sint n = int (unat n)" by (simp add: sint_uint)
  then have pos: "\<not> sint n < 0" "0 < n" using unat_pos_word [OF n(1)] by simp_all
  have "\<not> addr < k" using n(3) by (simp add: word_less_nat_alt)
  then have "protect_loop addr n prot 0 (BeginMutation s) = Some (ORBIS_OK, (BeginMutation s)
      \<lparr>vma_map := m, host_trace := host_trace (BeginMutation s) @ protect_calls v addr n prot\<rparr>)"
    using pos fl k b pb(1)
    by (subst protect_loop.simps) (simp, subst protect_loop.simps, simp)
  then have "Protect s addr n prot = Some (ORBIS_OK, s\<lparr>vma_map := m,
      mapping_generation := mapping_generation s + 2,
      host_trace := host_trace s @ protect_calls v addr n prot\<rparr>)"
    using v pos by (simp add: Protect_def with_mutation_def assert_valid_def)
      (simp add: BeginMutation_def FinishMutation_def)
  moreover have "mm_inv (s\<lparr>vma_map := m\<rparr>)" using inv pb(2,3) by (intro mm_inv_vma) simp_all
  ultimately show ?thesis using pb(3) by blast
qed

text \<open>Two areas of code next to each other, one executable and one writable.\<close>

definition demo_code :: MemoryManager where
  "demo_code = demo_mm\<lparr>vma_map :=
     [(0x400000, (free_vma 0x400000 0x100000)\<lparr>vma_type := VMA_Code, vma_prot := Prot_CpuRead OR Prot_CpuExec\<rparr>),
      (0x500000, (free_vma 0x500000 0xB00000)\<lparr>vma_type := VMA_Code, vma_prot := Prot_CpuReadWrite\<rparr>),
      (0x2000000, free_vma 0x2000000 0x4000000)]\<rparr>"

lemma demo_code_inv: "mm_inv demo_code"
  using demo_inv by (simp add: demo_code_def mm_inv_def free_vma_def vma_wf_def HasPhysicalBacking_def)

lemma demo_code_dom:
  "dom (vma_cells (vma_map demo_code)) = {0x400000..<0x1000000} \<union> {0x2000000..<0x6000000}"
  by (auto simp: demo_code_def dom_cell_Cons dom_cell_Nil free_vma_def simp del: cell.simps)

lemma demo_code_cells:
  "0x400000 \<le> p \<Longrightarrow> p < 0x500000 \<Longrightarrow>
    vma_cells (vma_map demo_code) p = Some (VMA_Code, Prot_CpuRead OR Prot_CpuExec, '''', False, None)"
  "0x500000 \<le> p \<Longrightarrow> p < 0x1000000 \<Longrightarrow>
    vma_cells (vma_map demo_code) p = Some (VMA_Code, Prot_CpuReadWrite, '''', False, None)"
  by (simp_all add: demo_code_def free_vma_def vma_ct_def HasPhysicalBacking_def)

lemma Protect_spec_witness:
  "\<exists>m. Protect demo_code 0x500000 0x8000 Prot_CpuRead = Some (ORBIS_OK, demo_code
      \<lparr>vma_map := m, mapping_generation := 2, host_trace := [Host_Protect 0x500000 0x8000 (host_perms Prot_CpuRead)]\<rparr>) \<and>
    vma_cells m 0x500000 = Some (VMA_Code, Prot_CpuRead, '''', False, None) \<and>
    vma_cells m 0x508000 = Some (VMA_Code, Prot_CpuReadWrite, '''', False, None)"
proof -
  let ?v = "(free_vma 0x500000 0xB00000)\<lparr>vma_type := VMA_Code, vma_prot := Prot_CpuReadWrite\<rparr>"
  have k: "sm_get (vma_map demo_code) 0x500000 = Some ?v" by (simp add: demo_code_def sm_get_def)
  have g: "mapping_generation demo_code = 0" "host_trace demo_code = []"
    by (simp_all add: demo_code_def)
  have r: "recorded_prot VMA_Code Prot_CpuRead = Prot_CpuRead" "append_read Prot_CpuRead = Prot_CpuRead"
    by (simp_all add: recorded_prot_def append_read_def flag_set_def prot_defs)
  have ne: "Prot_CpuRead \<noteq> Prot_CpuReadWrite" by (simp add: prot_defs)
  have nj: "\<not> joins_before (vma_map demo_code) 0x500000 ?v (recorded_prot (vma_type ?v) Prot_CpuRead)"
    using demo_code_cells(1) [of "0x4FFFFF"] by (simp add: joins_before_def r) (simp add: prot_defs)
  have "\<exists>m. Protect demo_code 0x500000 0x8000 Prot_CpuRead = Some (ORBIS_OK, demo_code\<lparr>vma_map := m,
      mapping_generation := mapping_generation demo_code + 2,
      host_trace := host_trace demo_code @ protect_calls ?v 0x500000 0x8000 Prot_CpuRead\<rparr>) \<and>
    mm_inv (demo_code\<lparr>vma_map := m\<rparr>) \<and>
    vma_cells m = map_range (cell_protected Prot_CpuRead) (unat (0x500000 :: u64))
      (unat (0x500000 :: u64) + unat (0x8000 :: u64)) (vma_cells (vma_map demo_code))"
    by (rule Protect_spec [OF demo_code_inv k]) (use nj in \<open>simp_all add: free_vma_def\<close>)
  then obtain m where m: "Protect demo_code 0x500000 0x8000 Prot_CpuRead = Some (ORBIS_OK,
      demo_code\<lparr>vma_map := m, mapping_generation := 2,
        host_trace := [Host_Protect 0x500000 0x8000 (host_perms Prot_CpuRead)]\<rparr>)"
    "vma_cells m = map_range (cell_protected Prot_CpuRead) (unat (0x500000 :: u64))
      (unat (0x500000 :: u64) + unat (0x8000 :: u64)) (vma_cells (vma_map demo_code))"
    by (auto simp: g protect_calls_def r ne)
  have "unat (0x500000 :: u64) = 0x500000" "unat (0x8000 :: u64) = 0x8000" by simp_all
  note m2 = m(2) [unfolded this]
  show ?thesis unfolding m(1)
    by (intro exI [of _ m]) (simp add: m2 map_range_def demo_code_cells cell_protected_def r)
qed

subsection \<open>An erased entry is read\<close>

text \<open>
  Giving a whole area the protection of the area before it, when nothing else distinguishes the
  two, joins them and then reads the entry the join erased: the operation is undefined.
\<close>

theorem Protect_reads_erased:
  assumes inv: "mm_inv s" and m: "vma_map s = xs @ (k1, v1) # (k2, v2) # ys"
    and adj: "unat k1 + unat (vma_size v1) = unat k2"
    and like: "vma_type v1 = vma_type v2" "vma_name v1 = vma_name v2" "\<not> vma_disallow_merge v1"
      "\<not> vma_disallow_merge v2" "vma_prot v1 = recorded_prot (vma_type v2) prot"
    and ty: "vma_type v2 \<notin> {VMA_Free, VMA_PoolReserved, VMA_Direct}"
  shows "Protect s k2 (vma_size v2) prot = None"
proof -
  let ?m = "vma_map s" and ?v = "v2\<lparr>vma_prot := recorded_prot (vma_type v2) prot\<rparr>"
  have m': "?m = (xs @ [(k1, v1)]) @ (k2, v2) # ys" using m by simp
  have l: "vma_laid 0 ?m addr_max" using inv by (simp add: mm_inv_def)
  have mem: "(k2, v2) \<in> set ?m" using m by simp
  have b: "vma_base v2 = k2" "0 < unat (vma_size v2)" "vma_wf k2 v2"
    using laid_mem [OF l mem] by (auto simp: vma_wf_def)
  have b1: "vma_base v1 = k1" using laid_mem [OF l, of k1 v1] m by (auto simp: vma_wf_def)
  have ok: "sm_ok ?m" using l by (rule laid_sm_ok)
  have k2: "sm_get ?m k2 = Some v2" using ok unfolding m' by (rule sm_get_mid)
  have "unat (k1 + vma_size v1) = unat k2" using adj unat_lt64 [of k2] by (subst unat_add64) auto
  then have e1: "k1 + vma_size v1 = k2" by (simp only: word_unat_eq_iff)
  have cv: "CarveVMA ?m k2 (vma_size v2) = Some (?m, k2)" using l k2 by (rule CarveVMA_whole)
  have put: "sm_put ?m k2 ?v = (xs @ [(k1, v1)]) @ (k2, ?v) # ys" using ok unfolding m' by (rule sm_put_mid)
  have lp: "vma_laid 0 ((xs @ [(k1, v1)]) @ (k2, ?v) # ys) addr_max"
    using laid_replace [OF l [unfolded m']] vma_protect [OF b(3)] by blast
  obtain a' ys' where ab: "absorb_next vma_mergeable VMA_Absorb (k2, ?v) ys = (k2, a') # ys'" "set ys' \<subseteq> set ys"
    and a0: "a' = ?v \<or> (\<exists>z. a' = VMA_Absorb ?v z)"
    using absorb_next_cases [of vma_mergeable VMA_Absorb k2 ?v ys] by blast
  from a0 have a': "vma_prot a' = recorded_prot (vma_type v2) prot" "vma_type a' = vma_type v2"
    "vma_name a' = vma_name v2" "vma_disallow_merge a' = vma_disallow_merge v2" "vma_base a' = k2"
    using b(1) by (auto simp: VMA_Absorb_def Let_def)
  have "vma_mergeable v1 a'" unfolding vma_mergeable_def VMA_CanMergeWith_def a' b1 e1
    using like ty by simp
  then have "VMA_MergeAdjacent (sm_put ?m k2 ?v) k2 = Some (xs @ (k1, VMA_Absorb v1 a') # ys', k1)"
    unfolding put VMA_MergeAdjacent_list [OF lp] using ab(1) by (simp add: merge_list_def)
  moreover have "sm_get (xs @ (k1, VMA_Absorb v1 a') # ys') k2 = None"
    using ok ab(2) unfolding m sm_get_def map_of_eq_None_iff by (auto simp: sm_ok_simps)
  ultimately have pb: "ProtectBytes t k2 k2 (vma_size v2) prot = None" if "vma_map t = ?m" for t
    using that k2 b cv ty by (auto simp: ProtectBytes_def Let_def recorded_prot_def)
  have in_v: "p \<in> dom (vma_cells ?m)" if "unat k2 \<le> p" "p < unat k2 + unat (vma_size v2)" for p
    using laid_member_cell [OF l mem, of p vma_ct] that by auto
  then have dom: "unat k2 \<in> dom (vma_cells ?m)" "{unat k2..<unat k2 + unat (vma_size v2)} \<subseteq> dom (vma_cells ?m)"
    using b(2) by (simp, meson atLeastLessThan_iff subsetI)
  have v: "IsValidMapping s k2 (vma_size v2) = Some True" using IsValidMapping_iff [OF inv dom(1)] dom(2) by simp
  have fl: "FindVMA ?m k2 = Some k2" using laid_floor_mem(1) [OF l mem] b by (simp add: FindVMA_def)
  have "0 < vma_size v2" using b(2) by (rule unat_pos_word)
  then have "protect_loop k2 (vma_size v2) prot 0 (BeginMutation s) = None"
    using fl k2 b pb [of "BeginMutation s"] by (subst protect_loop.simps) simp
  then show ?thesis using v \<open>0 < vma_size v2\<close> by (simp add: Protect_def with_mutation_def assert_valid_def)
qed

definition demo_two :: MemoryManager where
  "demo_two = demo_mm\<lparr>vma_map :=
     [(0x400000, (free_vma 0x400000 0x100000)\<lparr>vma_type := VMA_Reserved, vma_prot := Prot_CpuRead\<rparr>),
      (0x500000, (free_vma 0x500000 0xB00000)\<lparr>vma_type := VMA_Reserved, vma_prot := Prot_CpuReadWrite\<rparr>),
      (0x2000000, free_vma 0x2000000 0x4000000)]\<rparr>"

lemma Protect_reads_erased_witness: "Protect demo_two 0x500000 0xB00000 Prot_CpuRead = None"
proof -
  have "mm_inv demo_two"
    using demo_inv by (simp add: demo_two_def mm_inv_def free_vma_def vma_wf_def HasPhysicalBacking_def)
  from Protect_reads_erased [OF this, of "[]" "0x400000" _ "0x500000" _ _ Prot_CpuRead]
  show ?thesis
    by (simp add: demo_two_def free_vma_def recorded_prot_def append_read_def flag_set_def prot_defs)
qed

subsection \<open>Sealing\<close>

text \<open>An address that may be sealed: mapped, executable and not writable.\<close>

definition cell_sealable :: "vma_cell \<Rightarrow> bool" where
  "cell_sealable c \<longleftrightarrow> (case c of (ty, prot, _) \<Rightarrow>
     ty \<notin> {VMA_Free, VMA_Reserved, VMA_PoolReserved} \<and> flag_set prot Prot_CpuExec \<and>
     \<not> flag_set prot Prot_CpuWrite)"

lemma seal_loop_iff:
  assumes l: "vma_laid 0 m hi" and hi: "hi < 2 ^ 64"
    and d: "{unat cursor..<unat fin} \<subseteq> dom (vma_cells m)"
  shows "seal_loop m fin cursor =
    Some (\<forall>p. unat cursor \<le> p \<longrightarrow> p < unat fin \<longrightarrow> cell_sealable (the (vma_cells m p)))"
  using d
proof (induction "unat fin - unat cursor" arbitrary: cursor rule: less_induct)
  case less
  show ?case
  proof (cases "cursor < fin")
    case False
    then show ?thesis by (subst seal_loop.simps) (auto simp: word_less_nat_alt)
  next
    case True
    then have lt: "unat cursor < unat fin" by (simp add: word_less_nat_alt)
    then have "unat cursor \<in> {unat cursor..<unat fin}" by simp
    then have "unat cursor \<in> dom (vma_cells m)" using less.prems by blast
    then obtain xs k v ys where m: "m = xs @ (k, v) # ys" and f: "FindVMA m cursor = Some k" "sm_get m k = Some v"
      "vma_base v = k" "unat k \<le> unat cursor" "unat cursor < unat k + unat (vma_size v)"
      using FindVMA_from [OF l] by metis
    have mem: "(k, v) \<in> set m" using m by simp
    have "unat k + unat (vma_size v) < 2 ^ 64" using laid_mem [OF l mem] hi by simp
    then have e: "unat (k + vma_size v) = unat k + unat (vma_size v)" by (rule unat_add64)
    have nk: "\<not> cursor < k" "\<not> k + vma_size v \<le> cursor"
      using f(4,5) e by (simp_all add: word_less_nat_alt word_le_nat_alt)
    have in_v: "vma_cells m p = Some (vma_ct v (p - unat k))"
      if "unat cursor \<le> p" "p < unat k + unat (vma_size v)" for p
      using that f(4) by (intro laid_member_cell [OF l mem]) auto
    let ?ok = "cell_sealable (vma_ct v 0)"
    have same: "cell_sealable (the (vma_cells m p)) = ?ok"
      if "unat cursor \<le> p" "p < unat k + unat (vma_size v)" for p
      using in_v [OF that] by (simp add: cell_sealable_def vma_ct_def)
    have step: "seal_loop m fin cursor = (if \<not> ?ok then Some False else seal_loop m fin (min fin (k + vma_size v)))"
      using True f nk
      by (subst seal_loop.simps)
         (auto simp: cell_sealable_def vma_ct_def VMA_IsFree_def Let_def)
    show ?thesis
    proof (cases ?ok)
      case False
      then have "\<not> cell_sealable (the (vma_cells m (unat cursor)))" using same f(5) by simp
      with False lt show ?thesis unfolding step by auto
    next
      case ok: True
      define c where "c = min fin (k + vma_size v)"
      have uc: "unat c = min (unat fin) (unat k + unat (vma_size v))" by (simp add: c_def min_unat e)
      then have c: "unat cursor < unat c" "unat c \<le> unat fin" using lt f(5) by auto
      have "seal_loop m fin c =
          Some (\<forall>p. unat c \<le> p \<longrightarrow> p < unat fin \<longrightarrow> cell_sealable (the (vma_cells m p)))"
      proof (rule less.hyps)
        show "unat fin - unat c < unat fin - unat cursor" using c lt by linarith
        show "{unat c..<unat fin} \<subseteq> dom (vma_cells m)"
          using c by (intro order_trans [OF _ less.prems]) simp
      qed
      moreover have "cell_sealable (the (vma_cells m p))" if "unat cursor \<le> p" "p < unat c" for p
        using same [OF that(1)] that(2) ok uc by simp
      ultimately show ?thesis unfolding step using ok c_def [symmetric] c
        by (simp, meson not_le order.strict_implies_order le_trans)
    qed
  qed
qed

text \<open>
  C13: sealing a range whose start lies in an area succeeds and makes the range read-only and
  executable on the host exactly when every address of it is mapped, executable and not writable;
  otherwise it is refused and nothing changes.  Sealing no bytes succeeds and does nothing.  (For a
  start outside every area the check \<^verbatim>\<open>IsValidMapping\<close> wraps around, see \<open>IsValidMapping_gap\<close>.)
\<close>

theorem SealGuestExecutable_iff:
  assumes inv: "mm_inv s" and a: "unat addr \<in> dom (vma_cells (vma_map s))"
  shows "SealGuestExecutable s addr n = Some
    (if n = 0 then (ORBIS_OK, s)
     else if \<forall>p \<in> {unat addr..<unat addr + unat n}. \<exists>c. vma_cells (vma_map s) p = Some c \<and> cell_sealable c
     then (ORBIS_OK, host_call (Host_Protect addr n (Perm_Read OR Perm_Execute)) s)
     else (ORBIS_KERNEL_ERROR_EACCES, s))"
proof (cases "n = 0")
  case True
  then show ?thesis by (simp add: SealGuestExecutable_def)
next
  case n: False
  let ?m = "vma_map s" and ?R = "{unat addr..<unat addr + unat n}"
  have l: "vma_laid 0 ?m addr_max" using inv by (simp add: mm_inv_def)
  note v = IsValidMapping_iff [OF inv a, of n]
  have "SealGuestExecutable s addr n = Some
    (if \<forall>p \<in> ?R. \<exists>c. vma_cells ?m p = Some c \<and> cell_sealable c
     then (ORBIS_OK, host_call (Host_Protect addr n (Perm_Read OR Perm_Execute)) s)
     else (ORBIS_KERNEL_ERROR_EACCES, s))"
  proof (cases "?R \<subseteq> dom (vma_cells ?m)")
    case False
    then have "\<not> (\<forall>p \<in> ?R. \<exists>c. vma_cells ?m p = Some c \<and> cell_sealable c)" by blast
    moreover have "SealGuestExecutable s addr n = Some (ORBIS_KERNEL_ERROR_EACCES, s)"
      using v False n by (simp add: SealGuestExecutable_def)
    ultimately show ?thesis by (simp only: if_False)
  next
    case True
    have un: "0 < unat n" using n by (simp add: unat_gt_0)
    then have "unat addr + unat n - 1 \<in> ?R" by auto
    then have "unat addr + unat n - 1 \<in> dom (vma_cells ?m)" using True by blast
    then have "unat addr + unat n - 1 < addr_max" using dom_cell_bounds [OF l, of vma_ct] by fastforce
    then have w: "unat addr + unat n < 2 ^ 64" by (simp add: addr_max_def)
    then have e: "unat (addr + n) = unat addr + unat n" by (rule unat_add64)
    have "unat (- 1 - n :: u64) = 2 ^ 64 - 1 - unat n"
    proof -
      have m1: "unat (- 1 :: u64) = 2 ^ 64 - 1" by (simp add: unsigned_minus_1_eq_mask mask_eq_exp_minus_1)
      show ?thesis using unat_lt64 [of n] unat_sub_nowrap [of n "- 1"] unfolding m1 by linarith
    qed
    then have r: "\<not> addr > - 1 - n" using w by (simp add: word_less_nat_alt)
    have "seal_loop ?m (addr + n) addr = Some (\<forall>p. unat addr \<le> p \<longrightarrow> p < unat (addr + n) \<longrightarrow>
        cell_sealable (the (vma_cells ?m p)))"
      using True e by (intro seal_loop_iff [OF l]) simp_all
    moreover have "(\<forall>p. unat addr \<le> p \<longrightarrow> p < unat (addr + n) \<longrightarrow> cell_sealable (the (vma_cells ?m p))) \<longleftrightarrow>
        (\<forall>p \<in> ?R. \<exists>c. vma_cells ?m p = Some c \<and> cell_sealable c)"
    proof
      assume all: "\<forall>p. unat addr \<le> p \<longrightarrow> p < unat (addr + n) \<longrightarrow> cell_sealable (the (vma_cells ?m p))"
      show "\<forall>p \<in> ?R. \<exists>c. vma_cells ?m p = Some c \<and> cell_sealable c"
      proof
        fix p assume p: "p \<in> ?R"
        then obtain c where "vma_cells ?m p = Some c" using True by blast
        with all p e show "\<exists>c. vma_cells ?m p = Some c \<and> cell_sealable c" by fastforce
      qed
    next
      assume all: "\<forall>p \<in> ?R. \<exists>c. vma_cells ?m p = Some c \<and> cell_sealable c"
      show "\<forall>p. unat addr \<le> p \<longrightarrow> p < unat (addr + n) \<longrightarrow> cell_sealable (the (vma_cells ?m p))"
      proof (intro allI impI)
        fix p assume "unat addr \<le> p" "p < unat (addr + n)"
        then have "p \<in> ?R" using e by simp
        then obtain c where "vma_cells ?m p = Some c" "cell_sealable c" using all by blast
        then show "cell_sealable (the (vma_cells ?m p))" by simp
      qed
    qed
    ultimately show ?thesis using v True n r by (simp add: SealGuestExecutable_def)
  qed
  then show ?thesis using n by simp
qed

lemma SealGuestExecutable_iff_witness:
  "SealGuestExecutable demo_code 0x400000 0x10000 =
     Some (ORBIS_OK, host_call (Host_Protect 0x400000 0x10000 (Perm_Read OR Perm_Execute)) demo_code) \<and>
   SealGuestExecutable demo_code 0x4F0000 0x20000 = Some (ORBIS_KERNEL_ERROR_EACCES, demo_code)"
proof
  have a: "unat (0x400000 :: u64) \<in> dom (vma_cells (vma_map demo_code))"
    "unat (0x4F0000 :: u64) \<in> dom (vma_cells (vma_map demo_code))" unfolding demo_code_dom by auto
  have f: "flag_set (Prot_CpuRead OR Prot_CpuExec) Prot_CpuExec" "\<not> flag_set (Prot_CpuRead OR Prot_CpuExec) Prot_CpuWrite"
    "flag_set Prot_CpuReadWrite Prot_CpuWrite" by (simp_all add: flag_set_def prot_defs)
  have nz: "(0x10000 :: u64) = 0 \<longleftrightarrow> False" "(0x20000 :: u64) = 0 \<longleftrightarrow> False" by simp_all
  have q: "\<forall>p \<in> {unat (0x400000 :: u64)..<unat (0x400000 :: u64) + unat (0x10000 :: u64)}.
      \<exists>c. vma_cells (vma_map demo_code) p = Some c \<and> cell_sealable c"
    by (auto simp: demo_code_cells(1) cell_sealable_def f)
  show "SealGuestExecutable demo_code 0x400000 0x10000 =
     Some (ORBIS_OK, host_call (Host_Protect 0x400000 0x10000 (Perm_Read OR Perm_Execute)) demo_code)"
    unfolding SealGuestExecutable_iff [OF demo_code_inv a(1)] nz if_False
    by (rule arg_cong [of _ _ Some], rule if_P [OF q])
  have r: "\<not> (\<forall>p \<in> {unat (0x4F0000 :: u64)..<unat (0x4F0000 :: u64) + unat (0x20000 :: u64)}.
      \<exists>c. vma_cells (vma_map demo_code) p = Some c \<and> cell_sealable c)"
    by (intro notI, drule_tac x = "0x500000" in bspec) (auto simp: demo_code_cells(2) cell_sealable_def f)
  show "SealGuestExecutable demo_code 0x4F0000 0x20000 = Some (ORBIS_KERNEL_ERROR_EACCES, demo_code)"
    unfolding SealGuestExecutable_iff [OF demo_code_inv a(2)] nz if_False
    by (rule arg_cong [of _ _ Some], rule if_not_P [OF r])
qed

end
