(* ===== verification/Phys_Update.thy ===== *)
theory Phys_Update
  imports Memory_Unmap Range_Update
begin

section \<open>Changing the use of physical memory\<close>

text \<open>
  The loops that unmap, commit or decommit a virtual range walk over the physical areas behind it
  and change the use of each.  The pieces they visit are listed by \<open>phys_pieces\<close>;
  \<open>pieces_addrs\<close> says that these are the physical addresses behind the range, in order, and
  \<open>retype_pieces_spec\<close> what changing them all does to the physical map.
\<close>

subsection \<open>Changing a set of cells\<close>

definition map_set :: "('c \<Rightarrow> 'c) \<Rightarrow> nat set \<Rightarrow> (nat \<Rightarrow> 'c option) \<Rightarrow> nat \<Rightarrow> 'c option" where
  "map_set f A c p = (if p \<in> A then map_option f (c p) else c p)"

lemma map_set_empty [simp]: "map_set f {} c = c"
  by (rule ext) (simp add: map_set_def)

lemma map_range_set: "map_range f a b c = map_set f {a..<b} c"
  by (rule ext) (auto simp: map_range_def map_set_def)

lemma map_set_dom [simp]: "dom (map_set f A c) = dom c"
  by (auto simp: map_set_def dom_def split: if_splits)

lemma map_set_Un: "A \<inter> B = {} \<Longrightarrow> map_set f B (map_set f A c) = map_set f (A \<union> B) c"
  by (rule ext) (auto simp: map_set_def)

lemma ivl_disjointD:
  assumes "{a..<a + n} \<inter> {b..<b + k} = {}" "0 < n" "0 < k"
  shows "a + n \<le> b \<or> b + k \<le> (a :: nat)"
proof (rule ccontr)
  assume "\<not> ?thesis"
  then have "max a b \<in> {a..<a + n} \<inter> {b..<b + k}" using assms(2,3) by auto
  with assms(1) show False by blast
qed

subsection \<open>The pieces behind a virtual range\<close>

fun phys_pieces :: "u64 \<Rightarrow> PhysMap \<Rightarrow> u64 \<Rightarrow> (u64 \<times> u64) list" where
  "phys_pieces start [] n = []"
| "phys_pieces start ((offset, region) # rest) n =
     (if n > 0
      then let dma_offset = max offset start - offset;
               size_in_dma = min n (pa_size region - dma_offset)
           in (pa_base region + dma_offset, size_in_dma) # phys_pieces start rest (n - size_in_dma)
      else [])"

definition piece_addrs :: "u64 \<times> u64 \<Rightarrow> nat list" where
  "piece_addrs p = [unat (fst p)..<unat (fst p) + unat (snd p)]"

text \<open>A piece of one of the physical areas of a backing.\<close>

definition piece_in :: "PhysMap \<Rightarrow> u64 \<times> u64 \<Rightarrow> bool" where
  "piece_in m p \<longleftrightarrow> 0 < unat (snd p) \<and> (\<exists>e \<in> set m. unat (pa_base (snd e)) \<le> unat (fst p) \<and>
     unat (fst p) + unat (snd p) \<le> unat (pa_base (snd e)) + unat (pa_size (snd e)))"

lemma piece_in_Cons: "piece_in m p \<Longrightarrow> piece_in (e # m) p"
  by (auto simp: piece_in_def)

abbreviation pieces_addrs :: "(u64 \<times> u64) list \<Rightarrow> nat list" where
  "pieces_addrs ps \<equiv> concat (map piece_addrs ps)"

lemma upt_offset: "map (\<lambda>i. b + (i - a)) [a..<a + n] = [b..<b + n]" for a b n :: nat
  by (rule nth_equalityI) auto

lemma phys_pieces_0 [simp]: "phys_pieces start m 0 = []"
  by (cases m) auto

lemma back_cells_hd:
  assumes "unat off \<le> i" "i < unat off + unat (pa_size r)"
  shows "back_cells ((off, r) # m) i = Some (unat (pa_base r) + (i - unat off), pa_dma_type r, pa_memory_type r)"
  using assms by (simp add: back_ct_def)

lemma phys_pieces_spec:
  assumes "back_laid lo m hi" "hi < 2 ^ 64"
    and "\<And>i. unat start \<le> i \<Longrightarrow> lo \<le> i \<Longrightarrow> i < max lo (unat start) + unat n \<Longrightarrow> back_cells m i \<noteq> None"
    and "m \<noteq> [] \<Longrightarrow> unat start < unat (fst (hd m)) + unat (pa_size (snd (hd m)))"
  shows "pieces_addrs (phys_pieces start m n) =
      map (\<lambda>i. fst (the (back_cells m i))) [max lo (unat start)..<max lo (unat start) + unat n] \<and>
    (\<Sum>p\<leftarrow>phys_pieces start m n. unat (snd p)) = unat n \<and>
    (\<forall>p \<in> set (phys_pieces start m n). piece_in m p)"
  using assms
proof (induction m arbitrary: lo start n)
  case Nil
  have "unat n = 0"
  proof (rule ccontr)
    assume "unat n \<noteq> 0"
    then show False using Nil.prems(3) [of "max lo (unat start)"] by simp
  qed
  then show ?case by simp
next
  case (Cons e m)
  obtain off r where e: "e = (off, r)" by fastforce
  have l: "lo \<le> unat off" "0 < unat (pa_size r)" "back_wf off r"
    "back_laid (unat off + unat (pa_size r)) m hi" using Cons.prems(1) unfolding e by auto
  have e_hi: "unat off + unat (pa_size r) \<le> hi" by (rule laid_le [OF l(4)])
  show ?case
  proof (cases "unat n = 0")
    case True
    then have "n = 0" by (metis unat_eq_zero)
    then show ?thesis by simp
  next
    case False
    let ?st = "max lo (unat start)" and ?fin = "unat off + unat (pa_size r)"
    have "back_cells (e # m) ?st \<noteq> None" using False by (intro Cons.prems(3)) auto
    then have off_le: "unat off \<le> ?st"
      using cell_None [of pa_size back_wf "unat off" "e # m" hi ?st back_ct] Cons.prems(1) e by fastforce
    then have "max (unat off) (unat start) = ?st" using l(1) by auto
    then have mx: "unat (max off start) = ?st" by (simp only: max_unat)
    have st_lt: "?st < ?fin" using Cons.prems(4) l(1,2) unfolding e by auto
    define d where "d = max off start - off"
    have ud: "unat d = ?st - unat off" unfolding d_def using mx off_le by (subst unat_sub_nowrap) auto
    have us: "unat (pa_size r - d) = ?fin - ?st" using ud st_lt off_le by (subst unat_sub_nowrap) auto
    define z where "z = min n (pa_size r - d)"
    have uz: "unat z = min (unat n) (?fin - ?st)" unfolding z_def by (simp add: min_unat us)
    then have z0: "0 < unat z" "unat z \<le> unat n" "?st + unat z \<le> ?fin" using False st_lt by auto
    have wr: "unat (pa_base r) + unat (pa_size r) < 2 ^ 64" using l(3) by (simp add: back_wf_def)
    have ub: "unat (pa_base r + d) = unat (pa_base r) + (?st - unat off)"
      using wr ud st_lt by (subst unat_add64) auto
    have unz: "unat (n - z) = unat n - unat z" using z0(2) by (rule unat_sub_nowrap)
    have step: "phys_pieces start (e # m) n = (pa_base r + d, z) # phys_pieces start m (n - z)"
      using False unfolding e by (simp add: d_def [symmetric] z_def [symmetric] Let_def unat_pos_word)
    have head: "piece_addrs (pa_base r + d, z) =
        map (\<lambda>i. fst (the (back_cells (e # m) i))) [?st..<?st + unat z]"
    proof -
      have "map (\<lambda>i. fst (the (back_cells (e # m) i))) [?st..<?st + unat z] =
          map (\<lambda>i. unat (pa_base r) + (?st - unat off) + (i - ?st)) [?st..<?st + unat z]"
        using off_le z0(3) unfolding e by (intro map_cong refl) (auto simp: back_ct_def)
      then show ?thesis using upt_offset [of "unat (pa_base r) + (?st - unat off)" ?st "unat z"]
        by (simp add: piece_addrs_def ub)
    qed
    have rest: "pieces_addrs (phys_pieces start m (n - z)) =
        map (\<lambda>i. fst (the (back_cells m i))) [?st + unat z..<?st + unat n] \<and>
      (\<Sum>p\<leftarrow>phys_pieces start m (n - z). unat (snd p)) = unat n - unat z \<and>
      (\<forall>p \<in> set (phys_pieces start m (n - z)). piece_in m p)"
    proof (cases "unat n \<le> ?fin - ?st")
      case True
      then have "z = n" using uz by (simp add: word_unat_eq_iff)
      then show ?thesis by simp
    next
      case F: False
      then have uzf: "?st + unat z = ?fin" using uz st_lt by auto
      have ms: "max ?fin (unat start) = ?fin" using st_lt by auto
      have bc: "back_cells m i \<noteq> None" if "?fin \<le> i" "i < ?fin + unat (n - z)" for i
        using Cons.prems(3) [of i] that st_lt off_le l(1) uzf unz z0(2) unfolding e by auto
      have "m \<noteq> [] \<Longrightarrow> unat start < unat (fst (hd m)) + unat (pa_size (snd (hd m)))"
        using l(4) st_lt by (cases m) auto
      note IH = Cons.IH [OF l(4) Cons.prems(2) bc this, of "n - z"]
      have "?fin + unat (n - z) = ?st + unat n" using uzf unz z0(2) by linarith
      then show ?thesis using IH unfolding ms uzf unz by simp
    qed
    have tail: "map (\<lambda>i. fst (the (back_cells m i))) [?st + unat z..<?st + unat n] =
        map (\<lambda>i. fst (the (back_cells (e # m) i))) [?st + unat z..<?st + unat n]"
    proof (cases "unat n \<le> ?fin - ?st")
      case True
      then show ?thesis using uz by simp
    next
      case F: False
      then have "?st + unat z = ?fin" using uz st_lt by auto
      then show ?thesis unfolding e by (intro map_cong refl) auto
    qed
    have "[?st..<?st + unat n] = [?st..<?st + unat z] @ [?st + unat z..<?st + unat n]"
      using z0(2) upt_add_eq_append [of ?st "?st + unat z" "unat n - unat z"] by simp
    then have "pieces_addrs (phys_pieces start (e # m) n) =
        map (\<lambda>i. fst (the (back_cells (e # m) i))) [?st..<?st + unat n]"
      unfolding step using head rest tail by simp
    moreover have "(\<Sum>p\<leftarrow>phys_pieces start (e # m) n. unat (snd p)) = unat n"
      unfolding step using rest z0(2) by simp
    moreover have "piece_in (e # m) (pa_base r + d, z)"
      using ub z0(1,3) off_le unfolding piece_in_def e by auto
    ultimately show ?thesis using rest piece_in_Cons [of m _ e] unfolding step
      by (intro conjI) simp_all
  qed
qed

subsection \<open>Changing the use of the pieces\<close>

definition set_use :: "PhysicalMemoryType \<Rightarrow> PhysicalMemoryType \<times> s32 \<Rightarrow> PhysicalMemoryType \<times> s32" where
  "set_use t c = (t, snd c)"

lemma pm_change:
  assumes l: "phys_laid lo m hi" and hi: "hi < 2 ^ 64" and f: "fits pa_size m addr n"
    and g: "\<And>b. pa_size b = n \<Longrightarrow> phys_wf addr b \<Longrightarrow>
      pa_size (g b) = n \<and> phys_wf addr (g b) \<and> (\<forall>i < unat n. phys_ct (g b) i = F (phys_ct b i))"
  obtains m1 b m2 k2 a2 where "CarvePhysArea m addr n = Some (m1, addr)" "sm_get m1 addr = Some b"
    "Phys_MergeAdjacent (sm_put m1 addr (g b)) addr = Some (m2, k2)" "phys_laid lo m2 hi"
    "phys_cells m2 = map_range F (unat addr) (unat addr + unat n) (phys_cells m)"
    "\<And>c j. fits pa_size m c j \<Longrightarrow> unat c + unat j \<le> unat addr \<or> unat addr + unat n \<le> unat c \<Longrightarrow>
      fits pa_size m2 c j"
    "pa_size b = n" "phys_wf addr b" "sm_get m2 k2 = Some a2" "unat k2 \<le> unat addr"
    "unat addr + unat n \<le> unat k2 + unat (pa_size a2)"
    "\<forall>i < unat n. phys_ct b i = the (phys_cells m (unat addr + i))"
  using pm.carve_change_merge [OF l hi f, of g F "\<lambda>_. True"] g by blast

lemma retype_phys_spec:
  assumes l: "phys_laid lo m hi" and hi: "hi < 2 ^ 64" and f: "fits pa_size m b z"
  obtains m' where "retype_phys m b z t = Some m'" "phys_laid lo m' hi"
    "phys_cells m' = map_set (set_use t) (set (piece_addrs (b, z))) (phys_cells m)"
    "\<And>c j. fits pa_size m c j \<Longrightarrow> {unat c..<unat c + unat j} \<inter> set (piece_addrs (b, z)) = {} \<Longrightarrow>
      fits pa_size m' c j"
proof -
  have g: "pa_size (x\<lparr>pa_dma_type := t\<rparr>) = z \<and> phys_wf b (x\<lparr>pa_dma_type := t\<rparr>) \<and>
      (\<forall>i < unat z. phys_ct (x\<lparr>pa_dma_type := t\<rparr>) i = set_use t (phys_ct x i))"
    if "pa_size x = z" "phys_wf b x" for x
    using that by (simp add: phys_wf_def phys_ct_def set_use_def)
  have z0: "0 < unat z" using f by (simp add: fits_def)
  from pm_change [OF l hi f g] obtain m1 x m2 k2 where m: "CarvePhysArea m b z = Some (m1, b)" "sm_get m1 b = Some x"
    "Phys_MergeAdjacent (sm_put m1 b (x\<lparr>pa_dma_type := t\<rparr>)) b = Some (m2, k2)" "phys_laid lo m2 hi"
    "phys_cells m2 = map_range (set_use t) (unat b) (unat b + unat z) (phys_cells m)"
    "\<And>c j. fits pa_size m c j \<Longrightarrow> unat c + unat j \<le> unat b \<or> unat b + unat z \<le> unat c \<Longrightarrow> fits pa_size m2 c j"
    by metis
  have "retype_phys m b z t = Some m2" using m(1-3) by (simp add: retype_phys_def)
  moreover have "fits pa_size m2 c j"
    if "fits pa_size m c j" "{unat c..<unat c + unat j} \<inter> set (piece_addrs (b, z)) = {}" for c j
  proof -
    have "0 < unat j" using that(1) by (simp add: fits_def)
    then have "unat c + unat j \<le> unat b \<or> unat b + unat z \<le> unat c"
      using that(2) z0 unfolding piece_addrs_def by (intro ivl_disjointD) simp_all
    with m(6) that(1) show ?thesis by blast
  qed
  ultimately show thesis using that m(4,5) by (simp add: piece_addrs_def map_range_set)
qed

fun retype_pieces :: "PhysicalMemoryType \<Rightarrow> (u64 \<times> u64) list \<Rightarrow> PhysMap \<Rightarrow> PhysMap option" where
  "retype_pieces t [] m = Some m"
| "retype_pieces t ((b, z) # ps) m = do { m \<leftarrow> retype_phys m b z t; retype_pieces t ps m }"

lemma retype_pieces_spec:
  assumes "phys_laid lo m hi" "hi < 2 ^ 64" "\<forall>(b, z) \<in> set ps. fits pa_size m b z"
    and "distinct (pieces_addrs ps)"
  shows "\<exists>m'. retype_pieces t ps m = Some m' \<and> phys_laid lo m' hi \<and>
    phys_cells m' = map_set (set_use t) (set (pieces_addrs ps)) (phys_cells m) \<and>
    (\<forall>c j. fits pa_size m c j \<longrightarrow> {unat c..<unat c + unat j} \<inter> set (pieces_addrs ps) = {} \<longrightarrow>
      fits pa_size m' c j)"
  using assms
proof (induction t ps m rule: retype_pieces.induct)
  case (2 t b z ps m)
  from "2.prems"(3) have f: "fits pa_size m b z" by simp
  from retype_phys_spec [OF "2.prems"(1,2) f] obtain m1 where m1: "retype_phys m b z t = Some m1"
    "phys_laid lo m1 hi" "phys_cells m1 = map_set (set_use t) (set (piece_addrs (b, z))) (phys_cells m)"
    "\<And>c j. fits pa_size m c j \<Longrightarrow> {unat c..<unat c + unat j} \<inter> set (piece_addrs (b, z)) = {} \<Longrightarrow>
      fits pa_size m1 c j" by metis
  have dj: "set (piece_addrs (b, z)) \<inter> set (pieces_addrs ps) = {}" using "2.prems"(4) by auto
  have "\<forall>(c, j) \<in> set ps. fits pa_size m1 c j"
  proof clarify
    fix c j assume cj: "(c, j) \<in> set ps"
    then have "{unat c..<unat c + unat j} \<subseteq> set (pieces_addrs ps)" by (force simp: piece_addrs_def)
    moreover have "fits pa_size m c j" using cj "2.prems"(3) by auto
    ultimately show "fits pa_size m1 c j" using dj by (intro m1(4)) auto
  qed
  from "2.IH" [OF m1(1,2) "2.prems"(2) this] "2.prems"(4) obtain m' where m':
    "retype_pieces t ps m1 = Some m'" "phys_laid lo m' hi"
    "phys_cells m' = map_set (set_use t) (set (pieces_addrs ps)) (phys_cells m1)"
    "\<forall>c j. fits pa_size m1 c j \<longrightarrow> {unat c..<unat c + unat j} \<inter> set (pieces_addrs ps) = {} \<longrightarrow>
      fits pa_size m' c j" by auto
  have "phys_cells m' = map_set (set_use t) (set (pieces_addrs ((b, z) # ps))) (phys_cells m)"
    unfolding m'(3) m1(3) using dj by (simp add: map_set_Un)
  with m1(1,4) m' show ?case by (auto simp: Int_Un_distrib)
qed simp

end
