(* ===== verification/Memory_Links.thy ===== *)
theory Memory_Links
  imports Memory_Names Phys_Update
begin

section \<open>Virtual areas and the physical memory behind them\<close>

text \<open>
  The invariant that ties the maps together: every physical area behind a virtual area lies inside
  one area of its physical map (\<open>linked\<close>), no physical address is behind two virtual addresses
  (\<open>alias_free\<close>), and the physical maps record the use the virtual areas make of them
  (\<open>uses_ok\<close>).
\<close>

subsection \<open>The regions behind an area\<close>

text \<open>A property of all regions behind an area that passes to smaller regions.\<close>

definition all_regions :: "(VMAType \<Rightarrow> u64 \<Rightarrow> u64 \<Rightarrow> bool) \<Rightarrow> VirtualMemoryArea \<Rightarrow> bool" where
  "all_regions P v \<longleftrightarrow> (\<forall>e \<in> set (vma_phys_areas v). P (vma_type v) (pa_base (snd e)) (pa_size (snd e)))"

definition passes_down :: "(VMAType \<Rightarrow> u64 \<Rightarrow> u64 \<Rightarrow> bool) \<Rightarrow> bool" where
  "passes_down P \<longleftrightarrow> (\<forall>t b n b' n'. P t b n \<longrightarrow> 0 < unat n' \<longrightarrow> unat b \<le> unat b' \<longrightarrow>
     unat b' + unat n' \<le> unat b + unat n \<longrightarrow> P t b' n')"

definition sub_region :: "PhysicalMemoryArea \<Rightarrow> PhysicalMemoryArea \<Rightarrow> bool" where
  "sub_region r' r \<longleftrightarrow> 0 < unat (pa_size r') \<and> unat (pa_base r) \<le> unat (pa_base r') \<and>
     unat (pa_base r') + unat (pa_size r') \<le> unat (pa_base r) + unat (pa_size r)"

lemma passes_downD: "passes_down P \<Longrightarrow> sub_region r' r \<Longrightarrow> P t (pa_base r) (pa_size r) \<Longrightarrow> P t (pa_base r') (pa_size r')"
  by (auto simp: passes_down_def sub_region_def)

lemma part_sub:
  assumes "back_wf k r" "0 < unat (pa_size r)" "unat k + unat (pa_size r) < 2 ^ 64" "0 < unat off"
  shows "e \<in> set (left_part off (k, r)) \<Longrightarrow> sub_region (snd e) r"
    "e \<in> set (right_part off (k, r)) \<Longrightarrow> sub_region (snd e) r"
proof -
  have e: "unat (k + pa_size r) = unat k + unat (pa_size r)" using assms(3) by (rule unat_add64)
  have d: "unat (off - k) = unat off - unat k" if "k < off"
    using that by (intro unat_sub_nowrap) (simp add: word_less_nat_alt)
  show "e \<in> set (left_part off (k, r)) \<Longrightarrow> sub_region (snd e) r"
    using assms e d by (auto simp: left_part_def sub_region_def word_le_nat_alt word_less_nat_alt split: if_splits)
  assume a: "e \<in> set (right_part off (k, r))"
  show "sub_region (snd e) r"
  proof (cases "off \<le> k")
    case True
    then show ?thesis using a assms by (auto simp: right_part_def sub_region_def)
  next
    case False
    then have ko: "unat k < unat off" "k < off" by (auto simp: word_le_nat_alt word_less_nat_alt)
    from a False have o: "unat off < unat k + unat (pa_size r)" and
      se: "snd e = r\<lparr>pa_base := pa_base r + (off - k), pa_size := pa_size r - (off - k)\<rparr>"
      using e by (auto simp: right_part_def word_less_nat_alt split: if_splits)
    note d = d [OF ko(2)]
    have "unat (pa_base r + (off - k)) = unat (pa_base r) + (unat off - unat k)"
      "unat (pa_size r - (off - k)) = unat (pa_size r) - (unat off - unat k)"
      using assms(1) ko o d by (simp_all add: nowrap back_wf_def)
    then show ?thesis using se ko o by (simp add: sub_region_def)
  qed
qed

lemma split_regions:
  assumes b: "backed m n" "n < 2 ^ 64" and o: "0 < unat off"
    and e: "e \<in> set (fst (split_phys_areas off m)) \<or> e \<in> set (snd (split_phys_areas off m))"
  shows "\<exists>e0 \<in> set m. sub_region (snd e) (snd e0)"
proof -
  have l: "back_laid 0 m n" using b by (simp add: backed_def)
  have "split_phys_areas off m = (concat (map (left_part off) m), concat (map (right_part off) m))"
    using split_phys_areas_parts [OF l b(2)] .
  with e obtain k r where kr: "(k, r) \<in> set m" "e \<in> set (left_part off (k, r)) \<or> e \<in> set (right_part off (k, r))"
    by auto
  have "back_wf k r" "0 < unat (pa_size r)" "unat k + unat (pa_size r) < 2 ^ 64"
    using laid_mem [OF l kr(1)] b(2) by auto
  from part_sub [OF this o, of e] kr(2) have "sub_region (snd e) r" by blast
  with kr(1) show ?thesis by (intro bexI [of _ "(k, r)"]) simp_all
qed

lemma cut_regions:
  assumes w: "vma_wf k v" and P: "passes_down P" "all_regions P v" and o: "0 < unat off"
  shows "all_regions P (vma_cutl v off) \<and> all_regions P (vma_cutr v off)"
proof (cases "HasPhysicalBacking v")
  case True
  then have b: "backed (vma_phys_areas v) (unat (vma_size v))" using w by (simp add: vma_wf_def)
  have "P (vma_type v) (pa_base (snd e)) (pa_size (snd e))"
    if "e \<in> set (fst (split_phys_areas off (vma_phys_areas v))) \<or>
        e \<in> set (snd (split_phys_areas off (vma_phys_areas v)))" for e
    using split_regions [OF b unat_lt64 o that] P passes_downD unfolding all_regions_def by blast
  with True show ?thesis by (auto simp: all_regions_def vma_cutl_def vma_cutr_def Let_def)
next
  case False
  then show ?thesis using P(2) by (simp add: all_regions_def vma_cutl_def vma_cutr_def Let_def)
qed

lemma fold_put_snds:
  "snd ` set (fold (\<lambda>area areas. sm_put areas (s + fst area) (snd area)) m acc) \<subseteq> snd ` set acc \<union> snd ` set m"
proof (induction m arbitrary: acc)
  case (Cons e m)
  have "snd ` set (sm_put acc k v) \<subseteq> insert v (snd ` set acc)" for k v
    by (induction acc k v rule: sm_put.induct) auto
  from this [of "s + fst e" "snd e"] Cons [of "sm_put acc (s + fst e) (snd e)"]
  have "snd ` set (fold (\<lambda>area areas. sm_put areas (s + fst area) (snd area)) (e # m) acc)
      \<subseteq> insert (snd e) (snd ` set acc) \<union> snd ` set m" by (simp add: le_supI1 le_supI2) blast
  then show ?case by auto
qed simp

lemma join_regions:
  assumes "vma_mergeable a b" "all_regions P a" "all_regions P b"
  shows "all_regions P (VMA_Absorb a b)"
  unfolding all_regions_def
proof
  fix e assume "e \<in> set (vma_phys_areas (VMA_Absorb a b))"
  then have "snd e \<in> snd ` set (vma_phys_areas a) \<union> snd ` set (vma_phys_areas b)"
    using fold_put_snds [of "vma_size a" "vma_phys_areas b" "vma_phys_areas a"]
    by (auto simp: VMA_Absorb_def Let_def)
  moreover have "vma_type (VMA_Absorb a b) = vma_type a" "vma_type b = vma_type a"
    using vma_mergeableD(5) [OF assms(1)] by (simp_all add: VMA_Absorb_def Let_def)
  ultimately show "P (vma_type (VMA_Absorb a b)) (pa_base (snd e)) (pa_size (snd e))"
    using assms(2,3) by (auto simp: all_regions_def)
qed

text \<open>Changing a range of the virtual map, with a property of all regions that the change keeps.\<close>

lemma vm_change_regions:
  assumes l: "vma_laid lo m hi" and hi: "hi < 2 ^ 64" and f: "fits vma_size m addr n"
    and P: "passes_down P" "\<forall>e \<in> set m. all_regions P (snd e)"
    and g: "\<And>b. vma_size b = n \<Longrightarrow> vma_wf addr b \<Longrightarrow>
      vma_size (g b) = n \<and> vma_wf addr (g b) \<and> (\<forall>i < unat n. vma_ct (g b) i = F (vma_ct b i)) \<and>
      (all_regions P b \<longrightarrow> all_regions P (g b))"
  obtains m1 b m2 k2 where "CarveVMA m addr n = Some (m1, addr)" "sm_get m1 addr = Some b"
    "VMA_MergeAdjacent (sm_put m1 addr (g b)) addr = Some (m2, k2)" "vma_laid lo m2 hi"
    "vma_cells m2 = map_range F (unat addr) (unat addr + unat n) (vma_cells m)"
    "\<forall>e \<in> set m2. all_regions P (snd e)"
proof -
  have "\<exists>m1 b m2 k2 a2. CarveVMA m addr n = Some (m1, addr) \<and> sm_get m1 addr = Some b \<and> vma_size b = n \<and>
    vma_wf addr b \<and> VMA_MergeAdjacent (sm_put m1 addr (g b)) addr = Some (m2, k2) \<and> vma_laid lo m2 hi \<and>
    vma_cells m2 = map_range F (unat addr) (unat addr + unat n) (vma_cells m) \<and>
    (\<forall>(k, a) \<in> set m2. all_regions P a) \<and>
    (\<forall>c j. fits vma_size m c j \<longrightarrow> unat c + unat j \<le> unat addr \<or> unat addr + unat n \<le> unat c \<longrightarrow>
      fits vma_size m2 c j) \<and>
    fits vma_size m2 addr n \<and> sm_get m2 k2 = Some a2 \<and>
    unat k2 \<le> unat addr \<and> unat addr + unat n \<le> unat k2 + unat (vma_size a2) \<and>
    (\<forall>i < unat n. vma_ct b i = the (vma_cells m (unat addr + i)))"
  proof (rule vm.carve_change_merge [OF l hi f])
    show "\<forall>(k, a) \<in> set m. all_regions P a" using P(2) by fastforce
  next
    fix k a and off :: u64
    assume "vma_wf k a" "all_regions P a" "0 < unat off"
    then show "all_regions P (vma_cutl a off) \<and> all_regions P (vma_cutr a off)"
      using P(1) by (intro cut_regions)
  next
    fix k a k' b
    assume "vma_mergeable a b" "all_regions P a" "all_regions P b"
    then show "all_regions P (VMA_Absorb a b)" by (rule join_regions)
  qed (use g in auto)
  then obtain m1 b m2 k2 where m: "CarveVMA m addr n = Some (m1, addr)" "sm_get m1 addr = Some b"
    "VMA_MergeAdjacent (sm_put m1 addr (g b)) addr = Some (m2, k2)" "vma_laid lo m2 hi"
    "vma_cells m2 = map_range F (unat addr) (unat addr + unat n) (vma_cells m)"
    "\<forall>(k, a) \<in> set m2. all_regions P a" by blast
  have "\<forall>e \<in> set m2. all_regions P (snd e)" using m(6) by auto
  with m(1-5) show thesis by (rule that)
qed

subsection \<open>The physical address behind a virtual one\<close>

definition cell_phys :: "VMAType set \<Rightarrow> vma_cell \<Rightarrow> nat option" where
  "cell_phys T c = (case c of (ty, _, _, _, back) \<Rightarrow> if ty \<in> T then map_option fst back else None)"

definition phys_at :: "VMAType set \<Rightarrow> VMAMap \<Rightarrow> nat \<Rightarrow> nat option" where
  "phys_at T m p = vma_cells m p \<bind> cell_phys T"

text \<open>The physical addresses behind a range.\<close>

definition phys_behind :: "VMAType set \<Rightarrow> VMAMap \<Rightarrow> nat \<Rightarrow> nat \<Rightarrow> nat set" where
  "phys_behind T m a b = {q. \<exists>p. a \<le> p \<and> p < b \<and> phys_at T m p = Some q}"

lemma phys_at_mono: "phys_at T m p = Some q \<Longrightarrow> T \<subseteq> T' \<Longrightarrow> phys_at T' m p = Some q"
  by (auto simp: phys_at_def cell_phys_def split: if_splits bind_splits)

lemma phys_behind_empty [simp]: "b \<le> a \<Longrightarrow> phys_behind T m a b = {}"
  by (auto simp: phys_behind_def)

lemma phys_behind_append: "a \<le> b \<Longrightarrow> b \<le> c \<Longrightarrow> phys_behind T m a b \<union> phys_behind T m b c = phys_behind T m a c"
proof -
  assume "a \<le> b" "b \<le> c"
  then have "a \<le> p \<and> p < c \<longleftrightarrow> a \<le> p \<and> p < b \<or> b \<le> p \<and> p < c" for p by auto
  then show ?thesis unfolding phys_behind_def by blast
qed

text \<open>Every address of a region behind an area.\<close>

lemma region_cell:
  assumes l: "vma_laid lo m hi" and kv: "(k, v) \<in> set m" and e: "(off, r) \<in> set (vma_phys_areas v)"
    and i: "i < unat (pa_size r)"
  shows "vma_cells m (unat k + unat off + i) = Some (vma_type v, vma_prot v, vma_name v, vma_disallow_merge v,
      Some (unat (pa_base r) + i, pa_dma_type r, pa_memory_type r))"
    "HasPhysicalBacking v"
proof -
  have w: "vma_wf k v" using laid_mem [OF l kv] by simp
  then show hb: "HasPhysicalBacking v" using e by (auto simp: vma_wf_def split: if_splits)
  then have b: "back_laid 0 (vma_phys_areas v) (unat (vma_size v))" using w by (simp add: vma_wf_def backed_def)
  have "unat off + unat (pa_size r) \<le> unat (vma_size v)" using laid_mem [OF b e] by simp
  then have "vma_cells m (unat k + unat off + i) = Some (vma_ct v (unat off + i))"
    using laid_member_cell [OF l kv, of "unat k + unat off + i" vma_ct] i by (simp add: add.assoc)
  moreover have "back_cells (vma_phys_areas v) (unat off + i) =
      Some (unat (pa_base r) + i, pa_dma_type r, pa_memory_type r)"
    using laid_member_cell [OF b e, of "unat off + i" back_ct] i by (simp add: back_ct_def)
  ultimately show "vma_cells m (unat k + unat off + i) = Some (vma_type v, vma_prot v, vma_name v,
      vma_disallow_merge v, Some (unat (pa_base r) + i, pa_dma_type r, pa_memory_type r))"
    using hb by (simp add: vma_ct_def)
qed

subsection \<open>The invariant\<close>

abbreviation direct_types :: "VMAType set" where
  "direct_types \<equiv> {VMA_Direct, VMA_Pooled}"

abbreviation flexible_types :: "VMAType set" where
  "flexible_types \<equiv> {VMA_Flexible}"

definition region_fits :: "PhysMap \<Rightarrow> PhysMap \<Rightarrow> VMAType \<Rightarrow> u64 \<Rightarrow> u64 \<Rightarrow> bool" where
  "region_fits dm fm t b n = fits pa_size (if t = VMA_Flexible then fm else dm) b n"

definition linked :: "VMAMap \<Rightarrow> PhysMap \<Rightarrow> PhysMap \<Rightarrow> bool" where
  "linked m dm fm \<longleftrightarrow> (\<forall>e \<in> set m. all_regions (region_fits dm fm) (snd e))"

definition no_alias :: "VMAType set \<Rightarrow> VMAMap \<Rightarrow> bool" where
  "no_alias T m \<longleftrightarrow> (\<forall>p p' q. phys_at T m p = Some q \<longrightarrow> phys_at T m p' = Some q \<longrightarrow> p = p')"

definition used_as :: "PhysMap \<Rightarrow> PhysicalMemoryType \<Rightarrow> VMAType \<Rightarrow> VMAMap \<Rightarrow> bool" where
  "used_as pm use t m \<longleftrightarrow> (\<forall>p q. phys_at {t} m p = Some q \<longrightarrow> (\<exists>mt. phys_cells pm q = Some (use, mt)))"

definition maps_ok :: "VMAMap \<Rightarrow> PhysMap \<Rightarrow> PhysMap \<Rightarrow> bool" where
  "maps_ok m dm fm \<longleftrightarrow> linked m dm fm \<and> no_alias direct_types m \<and> no_alias flexible_types m \<and>
     used_as dm Phys_Mapped VMA_Direct m \<and> used_as dm Phys_Committed VMA_Pooled m \<and>
     used_as fm Phys_Flexible VMA_Flexible m"

text \<open>The invariant of the memory manager with the links between its maps.\<close>

definition mem_inv :: "MemoryManager \<Rightarrow> bool" where
  "mem_inv s \<longleftrightarrow> mm_inv s \<and> maps_ok (vma_map s) (dmem_map s) (fmem_map s)"

lemma region_fits_passes_down: "passes_down (region_fits dm fm)"
  unfolding passes_down_def region_fits_def by (meson fits_subset)

lemma mem_inv_generation [simp]: "mem_inv (BeginMutation s) = mem_inv s" "mem_inv (FinishMutation s) = mem_inv s"
  by (simp_all add: mem_inv_def BeginMutation_def FinishMutation_def)

end
