(* ===== verification/Unmapping.thy ===== *)
theory Unmapping
  imports Memory_Links
begin

section \<open>What unmapping a range does\<close>

text \<open>
  \<^verbatim>\<open>UnmapBytesFromEntry\<close> and \<^verbatim>\<open>UnmapMemory\<close> against the three maps: the range becomes free, the
  direct memory behind it becomes allocated but unmapped, the flexible memory behind it becomes
  free and is given back to the budget, and nothing else changes.
\<close>

subsection \<open>The loop over the physical areas\<close>

definition pieces_sum :: "(u64 \<times> u64) list \<Rightarrow> nat" where
  "pieces_sum ps = (\<Sum>p\<leftarrow>ps. unat (snd p))"

lemma unmap_direct_pieces:
  "unmap_phys_loop VMA_Direct start m n s =
    map_option (\<lambda>dm. (n - of_nat (pieces_sum (phys_pieces start m n)), s\<lparr>dmem_map := dm\<rparr>))
      (retype_pieces Phys_Allocated (phys_pieces start m n) (dmem_map s))"
proof (induction m arbitrary: n s)
  case Nil
  show ?case by (simp add: pieces_sum_def)
next
  case (Cons e m)
  obtain off r where e: "e = (off, r)" by fastforce
  show ?case
  proof (cases "n > 0")
    case False
    then show ?thesis unfolding e by (simp add: pieces_sum_def)
  next
    case True
    let ?d = "max off start - off" and ?z = "min n (pa_size r - (max off start - off))"
    show ?thesis
    proof (cases "retype_phys (dmem_map s) (pa_base r + ?d) ?z Phys_Allocated")
      case None
      then show ?thesis using True unfolding e by (simp add: Let_def)
    next
      case (Some dm)
      then show ?thesis using True Cons.IH [of "n - ?z" "s\<lparr>dmem_map := dm\<rparr>"] unfolding e
        by (simp add: Let_def pieces_sum_def algebra_simps)
    qed
  qed
qed

lemma unmap_flexible_pieces:
  "unmap_phys_loop VMA_Flexible start m n s =
    map_option (\<lambda>fm. (n - of_nat (pieces_sum (phys_pieces start m n)),
        s\<lparr>fmem_map := fm, flexible_usage := flexible_usage s - of_nat (pieces_sum (phys_pieces start m n)),
          host_trace := host_trace s @ map (\<lambda>(b, z). Host_ZeroBacking b z) (phys_pieces start m n)\<rparr>))
      (retype_pieces Phys_Free (phys_pieces start m n) (fmem_map s))"
proof (induction m arbitrary: n s)
  case Nil
  show ?case by (simp add: pieces_sum_def)
next
  case (Cons e m)
  obtain off r where e: "e = (off, r)" by fastforce
  show ?case
  proof (cases "n > 0")
    case False
    then show ?thesis unfolding e by (simp add: pieces_sum_def)
  next
    case True
    let ?d = "max off start - off" and ?z = "min n (pa_size r - (max off start - off))"
    show ?thesis
    proof (cases "retype_phys (fmem_map s) (pa_base r + ?d) ?z Phys_Free")
      case None
      then show ?thesis using True unfolding e by (simp add: Let_def)
    next
      case (Some fm)
      then show ?thesis
        using True Cons.IH [of "n - ?z" "(host_call (Host_ZeroBacking (pa_base r + ?d) ?z) (s\<lparr>fmem_map := fm\<rparr>))
          \<lparr>flexible_usage := flexible_usage s - ?z\<rparr>"] unfolding e
        by (simp add: Let_def pieces_sum_def host_call_def algebra_simps)
    qed
  qed
qed

subsection \<open>The pieces behind a part of an area\<close>

lemma backed_pieces:
  assumes l: "vma_laid lo m hi" and hi: "hi < 2 ^ 64" and kv: "(k, v) \<in> set m"
    and hb: "HasPhysicalBacking v" and T: "vma_type v \<in> T"
    and n: "0 < unat n" "unat k \<le> unat addr" "unat addr + unat n \<le> unat k + unat (vma_size v)"
    and start: "start = addr - vma_base v"
  obtains h where "sm_floor (vma_phys_areas v) start = Some h"
    "\<And>ps. ps = phys_pieces start (sm_from (vma_phys_areas v) (Some h)) n \<Longrightarrow>
      pieces_sum ps = unat n \<and> (\<forall>p \<in> set ps. piece_in (vma_phys_areas v) p) \<and>
      pieces_addrs ps = map (\<lambda>p. the (phys_at T m p)) [unat addr..<unat addr + unat n] \<and>
      (\<forall>p. unat addr \<le> p \<longrightarrow> p < unat addr + unat n \<longrightarrow> phys_at T m p \<noteq> None)"
proof -
  let ?A = "vma_phys_areas v"
  have w: "vma_wf k v" using laid_mem [OF l kv] by simp
  then have b: "backed ?A (unat (vma_size v))" and base: "vma_base v = k"
    using hb by (auto simp: vma_wf_def)
  then have lb: "back_laid 0 ?A (unat (vma_size v))" and all: "\<And>i. i < unat (vma_size v) \<Longrightarrow> back_cells ?A i \<noteq> None"
    by (auto simp: backed_def)
  have us: "unat start = unat addr - unat k" unfolding start base using n(2) by (rule unat_sub_nowrap)
  have sn: "unat start + unat n \<le> unat (vma_size v)" using us n by linarith
  obtain c where "back_cells ?A (unat start) = Some c" using all [of "unat start"] sn n(1) by auto
  then obtain xs h r ys where A: "?A = xs @ (h, r) # ys" "unat h \<le> unat start" "unat start < unat h + unat (pa_size r)"
    by (rule cell_split)
  note lA = lb [unfolded A(1)]
  have f: "sm_floor ?A start = Some h" using laid_floor [OF lA A(2,3)] unfolding A(1) .
  have fr: "sm_from ?A (Some h) = (h, r) # ys" using laid_sm_ok [OF lA] unfolding A(1) by simp
  have l1: "back_laid (unat h) ((h, r) # ys) (unat (vma_size v))" "back_laid 0 xs (unat h)"
    using lA by (auto simp: laid_append)
  have suffix: "back_cells ((h, r) # ys) i = back_cells ?A i" if "unat h \<le> i" for i
    using cell_None [OF l1(2), of i back_ct] that unfolding A(1) by (simp add: cell_append)
  define ps where "ps = phys_pieces start ((h, r) # ys) n"
  have mx: "max (unat h) (unat start) = unat start" using A(2) by simp
  have "back_cells ((h, r) # ys) i \<noteq> None"
    if "unat start \<le> i" "unat h \<le> i" "i < max (unat h) (unat start) + unat n" for i
    using that sn all [of i] unfolding suffix [OF that(2)] mx by auto
  note P = phys_pieces_spec [OF l1(1) unat_lt64 this, of start n]
  have "unat start < unat (fst (hd ((h, r) # ys))) + unat (pa_size (snd (hd ((h, r) # ys))))"
    using A(3) by simp
  with P have sp:
    "pieces_addrs ps = map (\<lambda>i. fst (the (back_cells ((h, r) # ys) i))) [unat start..<unat start + unat n]"
    "(\<Sum>p\<leftarrow>ps. unat (snd p)) = unat n" "\<forall>p \<in> set ps. piece_in ((h, r) # ys) p"
    unfolding mx ps_def by blast+
  have pa: "phys_at T m p = map_option fst (back_cells ?A (p - unat k))"
    if "unat addr \<le> p" "p < unat addr + unat n" for p
    using laid_member_cell [OF l kv, of p vma_ct] that n hb T
    by (simp add: phys_at_def cell_phys_def vma_ct_def)
  have some: "phys_at T m p \<noteq> None" if "unat addr \<le> p" "p < unat addr + unat n" for p
    using all [of "p - unat k"] that n unfolding pa [OF that] by auto
  have "pieces_addrs ps = map (\<lambda>p. the (phys_at T m p)) [unat addr..<unat addr + unat n]"
  proof (rule nth_equalityI)
    show "length (pieces_addrs ps) = length (map (\<lambda>p. the (phys_at T m p)) [unat addr..<unat addr + unat n])"
      unfolding sp(1) by simp
    fix i assume "i < length (pieces_addrs ps)"
    then have i: "i < unat n" unfolding sp(1) by simp
    have ai: "unat addr \<le> unat addr + i" "unat addr + i < unat addr + unat n" using i by auto
    have e: "unat addr + i - unat k = unat start + i" using us n(2) by simp
    obtain c where "back_cells ?A (unat start + i) = Some c" using all [of "unat start + i"] i sn by auto
    then show "pieces_addrs ps ! i = map (\<lambda>p. the (phys_at T m p)) [unat addr..<unat addr + unat n] ! i"
      using i A(2) suffix [of "unat start + i"] unfolding sp(1) by (simp add: pa [OF ai] e del: cell.simps)
  qed
  moreover have "\<forall>p \<in> set ps. piece_in ?A p" using sp(3) unfolding A(1) by (fastforce simp: piece_in_def)
  ultimately have "pieces_sum ps = unat n \<and> (\<forall>p \<in> set ps. piece_in ?A p) \<and>
      pieces_addrs ps = map (\<lambda>p. the (phys_at T m p)) [unat addr..<unat addr + unat n] \<and>
      (\<forall>p. unat addr \<le> p \<longrightarrow> p < unat addr + unat n \<longrightarrow> phys_at T m p \<noteq> None)"
    using sp(2) some unfolding pieces_sum_def by blast
  then show thesis using that [OF f] unfolding fr ps_def by blast
qed

lemma pieces_ready:
  assumes na: "no_alias T m" and L: "all_regions (region_fits dm fm) v"
    and ps: "\<forall>p \<in> set ps. piece_in (vma_phys_areas v) p"
      "pieces_addrs ps = map (\<lambda>p. the (phys_at T m p)) [a..<b]"
      "\<forall>p. a \<le> p \<longrightarrow> p < b \<longrightarrow> phys_at T m p \<noteq> None"
  shows "distinct (pieces_addrs ps)" "set (pieces_addrs ps) = phys_behind T m a b"
    "\<forall>(c, z) \<in> set ps. fits pa_size (if vma_type v = VMA_Flexible then fm else dm) c z"
proof -
  have "inj_on (\<lambda>p. the (phys_at T m p)) {a..<b}"
  proof (rule inj_onI)
    fix p p' assume h: "p \<in> {a..<b}" "p' \<in> {a..<b}" "the (phys_at T m p) = the (phys_at T m p')"
    then obtain q q' where "phys_at T m p = Some q" "phys_at T m p' = Some q'" using ps(3) by fastforce
    with h(3) na show "p = p'" unfolding no_alias_def by (metis option.sel)
  qed
  then show "distinct (pieces_addrs ps)" unfolding ps(2) by (simp add: distinct_map)
  show "set (pieces_addrs ps) = phys_behind T m a b"
  proof (intro set_eqI iffI)
    fix q assume "q \<in> set (pieces_addrs ps)"
    then obtain p where "a \<le> p" "p < b" "q = the (phys_at T m p)" unfolding ps(2) by auto
    then show "q \<in> phys_behind T m a b" using ps(3) unfolding phys_behind_def by auto
  next
    fix q assume "q \<in> phys_behind T m a b"
    then show "q \<in> set (pieces_addrs ps)" unfolding ps(2) phys_behind_def by force
  qed
  show "\<forall>(c, z) \<in> set ps. fits pa_size (if vma_type v = VMA_Flexible then fm else dm) c z"
  proof clarify
    fix c z assume "(c, z) \<in> set ps"
    then have "piece_in (vma_phys_areas v) (c, z)" using ps(1) by blast
    then obtain e where e: "e \<in> set (vma_phys_areas v)" "0 < unat z" "unat (pa_base (snd e)) \<le> unat c"
      "unat c + unat z \<le> unat (pa_base (snd e)) + unat (pa_size (snd e))" unfolding piece_in_def by auto
    have "region_fits dm fm (vma_type v) (pa_base (snd e)) (pa_size (snd e))"
      using L e(1) unfolding all_regions_def by blast
    then show "fits pa_size (if vma_type v = VMA_Flexible then fm else dm) c z"
      using e(2-4) unfolding region_fits_def by (rule fits_subset)
  qed
qed

subsection \<open>The links after unmapping\<close>

definition cell_unmapped :: "vma_cell \<Rightarrow> vma_cell" where
  "cell_unmapped c = (if fst c = VMA_Free \<or> fst c = VMA_Pooled then c
     else (VMA_Free, Prot_NoAccess, '''', False, None))"

lemma phys_at_unmapped:
  assumes "vma_cells m' = map_range cell_unmapped a b (vma_cells m)" "VMA_Free \<notin> T"
  shows "phys_at T m' p = (if a \<le> p \<and> p < b then phys_at (T \<inter> {VMA_Pooled}) m p else phys_at T m p)"
  using assms(2) unfolding phys_at_def assms(1)
  by (cases "vma_cells m p") (auto simp: map_range_def cell_unmapped_def cell_phys_def)

lemma phys_at_Int: "phys_at (T \<inter> T') m p = Some q \<Longrightarrow> phys_at T m p = Some q"
  by (auto simp: phys_at_def cell_phys_def split: if_splits bind_splits)

lemma phys_at_disjoint: "phys_at T m p = Some q \<Longrightarrow> phys_at T' m p = Some q' \<Longrightarrow> T \<inter> T' \<noteq> {}"
  by (auto simp: phys_at_def cell_phys_def split: if_splits bind_splits)

lemma phys_at_sub:
  assumes "vma_cells m' = map_range cell_unmapped a b (vma_cells m)" "VMA_Free \<notin> T" "phys_at T m' p = Some q"
  shows "phys_at T m p = Some q"
proof (cases "a \<le> p \<and> p < b")
  case True
  then have "phys_at (T \<inter> {VMA_Pooled}) m p = Some q"
    using assms(3) phys_at_unmapped [OF assms(1,2)] by simp
  then show ?thesis by (rule phys_at_Int)
next
  case False
  then show ?thesis using assms(3) unfolding phys_at_unmapped [OF assms(1,2)] by (simp only: if_False)
qed

text \<open>What is still mapped is not behind the range that was unmapped.\<close>

lemma unmapped_apart:
  assumes c: "vma_cells m' = map_range cell_unmapped a b (vma_cells m)"
    and na: "no_alias T m" and T: "VMA_Free \<notin> T" "t \<in> T" "t \<noteq> VMA_Pooled"
    and q: "phys_at T m' p = Some q"
  shows "q \<notin> phys_behind {t} m a b"
proof
  assume "q \<in> phys_behind {t} m a b"
  then obtain p' where p': "a \<le> p'" "p' < b" "phys_at {t} m p' = Some q" by (auto simp: phys_behind_def)
  have "phys_at T m p' = Some q" using phys_at_mono [OF p'(3)] T(2) by simp
  then have "p' = p" using na phys_at_sub [OF c T(1) q] unfolding no_alias_def by blast
  then have "phys_at (T \<inter> {VMA_Pooled}) m p' = Some q" using q p'(1,2) unfolding phys_at_unmapped [OF c T(1)] by simp
  from phys_at_disjoint [OF this p'(3)] T(3) show False by auto
qed

lemma linked_unmapped:
  assumes l: "vma_laid lo m' hi" and c: "vma_cells m' = map_range cell_unmapped a b (vma_cells m)"
    and na: "no_alias direct_types m" "no_alias flexible_types m" and L: "linked m' dm fm"
    and d: "\<And>b' j. fits pa_size dm b' j \<Longrightarrow>
      {unat b'..<unat b' + unat j} \<inter> phys_behind {VMA_Direct} m a b = {} \<Longrightarrow> fits pa_size dm' b' j"
    and f: "\<And>b' j. fits pa_size fm b' j \<Longrightarrow>
      {unat b'..<unat b' + unat j} \<inter> phys_behind {VMA_Flexible} m a b = {} \<Longrightarrow> fits pa_size fm' b' j"
  shows "linked m' dm' fm'"
  unfolding linked_def all_regions_def
proof (intro ballI)
  fix x y assume x: "x \<in> set m'" and y: "y \<in> set (vma_phys_areas (snd x))"
  obtain k v off r where xy: "x = (k, v)" "y = (off, r)" by fastforce
  from x y have kv: "(k, v) \<in> set m'" and e: "(off, r) \<in> set (vma_phys_areas v)"
    unfolding xy by simp_all
  have old: "region_fits dm fm (vma_type v) (pa_base r) (pa_size r)"
    using L kv e unfolding linked_def all_regions_def by fastforce
  have hb: "HasPhysicalBacking v" and at: "phys_at {vma_type v} m' (unat k + unat off + i) = Some (unat (pa_base r) + i)"
    if "i < unat (pa_size r)" for i
    using region_cell [OF l kv e that] by (simp_all add: phys_at_def cell_phys_def)
  have q: "\<exists>i < unat (pa_size r). q = unat (pa_base r) + i"
    if "q \<in> {unat (pa_base r)..<unat (pa_base r) + unat (pa_size r)}" for q
    using that by (intro exI [of _ "q - unat (pa_base r)"]) auto
  have "region_fits dm' fm' (vma_type v) (pa_base r) (pa_size r)"
  proof (cases "vma_type v = VMA_Flexible")
    case True
    have "q \<notin> phys_behind {VMA_Flexible} m a b"
      if "q \<in> {unat (pa_base r)..<unat (pa_base r) + unat (pa_size r)}" for q
    proof -
      from q [OF that] obtain i where i: "i < unat (pa_size r)" "q = unat (pa_base r) + i" by blast
      from at [OF i(1)] show ?thesis unfolding True i(2)
        by (intro unmapped_apart [OF c na(2)]) simp_all
    qed
    then have "{unat (pa_base r)..<unat (pa_base r) + unat (pa_size r)} \<inter> phys_behind {VMA_Flexible} m a b = {}"
      by blast
    with old True f show ?thesis by (simp add: region_fits_def)
  next
    case False
    have "q \<notin> phys_behind {VMA_Direct} m a b"
      if "q \<in> {unat (pa_base r)..<unat (pa_base r) + unat (pa_size r)}" for q
    proof -
      from q [OF that] obtain i where i: "i < unat (pa_size r)" "q = unat (pa_base r) + i" by blast
      have "vma_type v \<in> direct_types" using hb [OF i(1)] False by (auto simp: HasPhysicalBacking_def)
      then have "phys_at direct_types m' (unat k + unat off + i) = Some q"
        using phys_at_mono [OF at [OF i(1)], of direct_types] i(2) by simp
      then show ?thesis by (intro unmapped_apart [OF c na(1)]) simp_all
    qed
    then have "{unat (pa_base r)..<unat (pa_base r) + unat (pa_size r)} \<inter> phys_behind {VMA_Direct} m a b = {}"
      by blast
    with old False d show ?thesis by (simp add: region_fits_def)
  qed
  then show "region_fits dm' fm' (vma_type (snd x)) (pa_base (snd y)) (pa_size (snd y))"
    unfolding xy by simp
qed

lemma used_as_unmapped:
  assumes c: "vma_cells m' = map_range cell_unmapped a b (vma_cells m)" and na: "no_alias T m"
    and T: "VMA_Free \<notin> T" "t \<in> T" "u \<in> T" "u \<noteq> VMA_Pooled" and old: "used_as pm use t m"
    and p: "phys_cells pm' = map_set g (phys_behind {u} m a b) (phys_cells pm)"
  shows "used_as pm' use t m'"
  unfolding used_as_def
proof (intro allI impI)
  fix x q assume q: "phys_at {t} m' x = Some q"
  have "phys_at T m' x = Some q" using phys_at_mono [OF q] T(2) by simp
  from unmapped_apart [OF c na T(1,3,4) this] have "phys_cells pm' q = phys_cells pm q"
    unfolding p map_set_def by simp
  moreover have "VMA_Free \<notin> {t}" using T(1,2) by auto
  from phys_at_sub [OF c this q] old obtain mt where "phys_cells pm q = Some (use, mt)"
    unfolding used_as_def by blast
  ultimately show "\<exists>mt. phys_cells pm' q = Some (use, mt)" by simp
qed

lemma maps_ok_unmapped:
  assumes ok: "maps_ok m dm fm" and l: "vma_laid lo m' hi"
    and c: "vma_cells m' = map_range cell_unmapped a b (vma_cells m)"
    and L: "linked m' dm fm"
    and dc: "phys_cells dm' = map_set g (phys_behind {VMA_Direct} m a b) (phys_cells dm)"
    and fc: "phys_cells fm' = map_set g' (phys_behind {VMA_Flexible} m a b) (phys_cells fm)"
    and d: "\<And>b' j. fits pa_size dm b' j \<Longrightarrow>
      {unat b'..<unat b' + unat j} \<inter> phys_behind {VMA_Direct} m a b = {} \<Longrightarrow> fits pa_size dm' b' j"
    and f: "\<And>b' j. fits pa_size fm b' j \<Longrightarrow>
      {unat b'..<unat b' + unat j} \<inter> phys_behind {VMA_Flexible} m a b = {} \<Longrightarrow> fits pa_size fm' b' j"
  shows "maps_ok m' dm' fm'"
proof -
  have na: "no_alias direct_types m" "no_alias flexible_types m" using ok by (auto simp: maps_ok_def)
  from linked_unmapped [OF l c na L d f] have "linked m' dm' fm'" .
  moreover have "no_alias direct_types m'" "no_alias flexible_types m'"
    using na phys_at_sub [OF c, of direct_types] phys_at_sub [OF c, of flexible_types]
    unfolding no_alias_def by blast+
  moreover have "used_as dm' Phys_Mapped VMA_Direct m'" "used_as dm' Phys_Committed VMA_Pooled m'"
    using ok by (auto simp: maps_ok_def intro: used_as_unmapped [OF c na(1) _ _ _ _ _ dc])
  moreover have "used_as fm' Phys_Flexible VMA_Flexible m'"
    using ok by (auto simp: maps_ok_def intro: used_as_unmapped [OF c na(2) _ _ _ _ _ fc])
  ultimately show ?thesis by (simp add: maps_ok_def)
qed

subsection \<open>One area\<close>

definition same_rest :: "MemoryManager \<Rightarrow> MemoryManager \<Rightarrow> bool" where
  "same_rest s s' \<longleftrightarrow> total_direct_size s' = total_direct_size s \<and>
     total_flexible_size s' = total_flexible_size s \<and> pool_budget s' = pool_budget s \<and>
     sdk_version s' = sdk_version s \<and> mapping_generation s' = mapping_generation s \<and>
     prt_areas s' = prt_areas s \<and> has_rasterizer s' = has_rasterizer s \<and>
     SystemManagedVirtualBase s' = SystemManagedVirtualBase s \<and>
     UserVirtualBase s' = UserVirtualBase s \<and> UserVirtualSize s' = UserVirtualSize s \<and>
     (\<exists>calls. host_trace s' = host_trace s @ calls)"

lemma same_rest_refl [simp]: "same_rest s s"
  by (simp add: same_rest_def)

lemma same_rest_trans: "same_rest s t \<Longrightarrow> same_rest t u \<Longrightarrow> same_rest s u"
  by (auto simp: same_rest_def)

text \<open>
  What the host is told: the addresses it unmaps and the backing it clears.  The host knows of the
  addresses of areas that are neither free nor reserved; those committed from a pool stay.
\<close>

fun host_unmaps :: "host_op \<Rightarrow> nat set" where
  "host_unmaps (Host_Unmap a n) = {unat a..<unat a + unat n}"
| "host_unmaps _ = {}"

fun host_clears :: "host_op \<Rightarrow> nat set" where
  "host_clears (Host_ZeroBacking a n) = {unat a..<unat a + unat n}"
| "host_clears _ = {}"

definition host_undone :: "host_op list \<Rightarrow> nat set \<Rightarrow> nat set \<Rightarrow> bool" where
  "host_undone calls V P \<longleftrightarrow> (\<forall>c \<in> set calls. \<exists>a n. c = Host_Unmap a n \<or> c = Host_ZeroBacking a n) \<and>
     (\<Union>c \<in> set calls. host_unmaps c) = V \<and> (\<Union>c \<in> set calls. host_clears c) = P"

lemma host_undone_append:
  "host_undone xs V P \<Longrightarrow> host_undone ys V' P' \<Longrightarrow> host_undone (xs @ ys) (V \<union> V') (P \<union> P')"
  unfolding host_undone_def by auto

definition host_cells :: "VMAMap \<Rightarrow> nat \<Rightarrow> nat \<Rightarrow> nat set" where
  "host_cells m a b = {p. a \<le> p \<and> p < b \<and> (\<exists>c. vma_cells m p = Some c \<and>
     fst c \<notin> {VMA_Free, VMA_Pooled, VMA_Reserved, VMA_PoolReserved})}"

lemma host_cells_append: "a \<le> b \<Longrightarrow> b \<le> c \<Longrightarrow> host_cells m a b \<union> host_cells m b c = host_cells m a c"
  unfolding host_cells_def by auto

lemma host_cells_eq:
  assumes "\<And>p. a \<le> p \<Longrightarrow> p < b \<Longrightarrow> vma_cells m' p = vma_cells m p"
  shows "host_cells m' a b = host_cells m a b"
  using assms unfolding host_cells_def by auto

lemma host_cells_one:
  assumes "\<And>p. a \<le> p \<Longrightarrow> p < b \<Longrightarrow> \<exists>c. vma_cells m p = Some c \<and> fst c = t"
  shows "host_cells m a b = (if t \<in> {VMA_Free, VMA_Pooled, VMA_Reserved, VMA_PoolReserved} then {} else {a..<b})"
  using assms unfolding host_cells_def
  by (cases "t \<in> {VMA_Free, VMA_Pooled, VMA_Reserved, VMA_PoolReserved}") (fastforce simp del: split_paired_Ex)+

text \<open>
  The state after \<open>[a, b)\<close> was unmapped: what each map holds, the budget of flexible memory and
  the calls to the host that were added; no other field has changed.
\<close>

definition unmapped :: "MemoryManager \<Rightarrow> nat \<Rightarrow> nat \<Rightarrow> MemoryManager \<Rightarrow> bool" where
  "unmapped s a b s' \<longleftrightarrow> mem_inv s' \<and>
     vma_cells (vma_map s') = map_range cell_unmapped a b (vma_cells (vma_map s)) \<and>
     phys_cells (dmem_map s') =
       map_set (set_use Phys_Allocated) (phys_behind {VMA_Direct} (vma_map s) a b) (phys_cells (dmem_map s)) \<and>
     phys_cells (fmem_map s') =
       map_set (set_use Phys_Free) (phys_behind {VMA_Flexible} (vma_map s) a b) (phys_cells (fmem_map s)) \<and>
     flexible_usage s' = flexible_usage s - of_nat (card (phys_behind {VMA_Flexible} (vma_map s) a b)) \<and>
     (\<exists>calls. host_trace s' = host_trace s @ calls \<and>
        host_undone calls (host_cells (vma_map s) a b) (phys_behind {VMA_Flexible} (vma_map s) a b)) \<and>
     same_rest s s'"

text \<open>The area of the virtual map is freed.\<close>

definition free_part :: "VMAMap \<Rightarrow> u64 \<Rightarrow> u64 \<Rightarrow> VMAMap option" where
  "free_part m virtual_addr n =
     do {
       (m, new_it) \<leftarrow> CarveVMA m virtual_addr n;
       vma \<leftarrow> sm_get m new_it;
       (m, _) \<leftarrow> VMA_MergeAdjacent (sm_put m new_it
         (vma\<lparr>vma_type := VMA_Free, vma_prot := Prot_NoAccess, vma_phys_areas := [],
              vma_disallow_merge := False, vma_name := ''''\<rparr>)) new_it;
       Some m
     }"

lemma free_part_spec:
  assumes l: "vma_laid lo m hi" and hi: "hi < 2 ^ 64" and kv: "(k, v) \<in> set m"
    and n: "0 < unat n" "unat k \<le> unat addr" "unat addr + unat n \<le> unat k + unat (vma_size v)"
    and t: "vma_type v \<noteq> VMA_Free" "vma_type v \<noteq> VMA_Pooled" and L: "linked m dm fm"
  obtains m' where "free_part m addr n = Some m'" "vma_laid lo m' hi"
    "vma_cells m' = map_range cell_unmapped (unat addr) (unat addr + unat n) (vma_cells m)"
    "linked m' dm fm"
proof -
  define g :: "VirtualMemoryArea \<Rightarrow> VirtualMemoryArea" where "g x = x\<lparr>vma_type := VMA_Free, vma_prot := Prot_NoAccess, vma_phys_areas := [],
      vma_disallow_merge := False, vma_name := ''''\<rparr>" for x
  define F :: "vma_cell \<Rightarrow> vma_cell" where "F c = (VMA_Free, Prot_NoAccess, '''', False, None)" for c
  have f: "fits vma_size m addr n" using fits_mem [of k v m n addr vma_size] kv n by blast

  have g: "vma_size (g x) = n \<and> vma_wf addr (g x) \<and> (\<forall>i < unat n. vma_ct (g x) i = F (vma_ct x i)) \<and>
      (all_regions (region_fits dm fm) x \<longrightarrow> all_regions (region_fits dm fm) (g x))"
    if "vma_size x = n" "vma_wf addr x" for x
    using that by (auto simp: g_def F_def vma_wf_def vma_ct_def HasPhysicalBacking_def all_regions_def)
  obtain m1 x m2 k2 where
    m2: "CarveVMA m addr n = Some (m1, addr)" "sm_get m1 addr = Some x"
    "VMA_MergeAdjacent (sm_put m1 addr (g x)) addr = Some (m2, k2)" "vma_laid lo m2 hi"
    "vma_cells m2 = map_range F (unat addr) (unat addr + unat n) (vma_cells m)"
    "linked m2 dm fm"
    using vm_change_regions [OF l hi f region_fits_passes_down L [unfolded linked_def] g]
    unfolding linked_def by blast
  have "vma_cells m2 = map_range cell_unmapped (unat addr) (unat addr + unat n) (vma_cells m)"
  proof
    fix p
    have "vma_cells m p = Some (vma_ct v (p - unat k))" if "unat addr \<le> p" "p < unat addr + unat n"
      using laid_member_cell [OF l kv, of p vma_ct] that n by auto
    then show "vma_cells m2 p = map_range cell_unmapped (unat addr) (unat addr + unat n) (vma_cells m) p"
      using t unfolding m2(5) by (auto simp: map_range_def F_def cell_unmapped_def vma_ct_def)
  qed
  moreover have "free_part m addr n = Some m2" using m2(1-3) by (simp add: free_part_def g_def)
  ultimately show thesis using that m2(4,6) by blast
qed

lemma phys_behind_none:
  assumes "\<And>p. a \<le> p \<Longrightarrow> p < b \<Longrightarrow> \<exists>c. vma_cells m p = Some c \<and> fst c \<notin> T"
  shows "phys_behind T m a b = {}"
  using assms by (fastforce simp: phys_behind_def phys_at_def cell_phys_def split: if_splits)

lemma UnmapBytesFromEntry_eq:
  assumes "vma_type v \<noteq> VMA_Free" "vma_type v \<noteq> VMA_Pooled"
    and "min (vma_size v - (addr - vma_base v)) n = z"
  shows "UnmapBytesFromEntry s addr v n =
    do {
      s \<leftarrow> (if vma_phys_areas v \<noteq> []
            then do {
              phys_handle \<leftarrow> sm_floor (vma_phys_areas v) (addr - vma_base v);
              (size_to_free, s) \<leftarrow> unmap_phys_loop (vma_type v) (addr - vma_base v)
                (sm_from (vma_phys_areas v) (Some phys_handle)) z s;
              ASSERT (size_to_free = 0);
              Some s
            }
            else Some s);
      m \<leftarrow> free_part (vma_map s) addr z;
      let s = s\<lparr>vma_map := m\<rparr>;
      Some (z, if vma_type v \<noteq> VMA_Reserved \<and> vma_type v \<noteq> VMA_PoolReserved
               then host_call (Host_Unmap addr z) s else s)
    }"
  using assms unfolding UnmapBytesFromEntry_def free_part_def
  by (simp add: Let_def split: bind_splits)

text \<open>The physical maps after the areas behind a part of an area were given back.\<close>

lemma unmap_phys_stage:
  assumes inv: "mem_inv s" and kv: "(k, v) \<in> set (vma_map s)"
    and z: "0 < unat z" "unat k \<le> unat addr" "unat addr + unat z \<le> unat k + unat (vma_size v)"
    and t: "vma_type v \<noteq> VMA_Pooled"
  obtains dm fm calls where
    "(if vma_phys_areas v \<noteq> []
      then do {
        phys_handle \<leftarrow> sm_floor (vma_phys_areas v) (addr - vma_base v);
        (size_to_free, s) \<leftarrow> unmap_phys_loop (vma_type v) (addr - vma_base v)
          (sm_from (vma_phys_areas v) (Some phys_handle)) z s;
        ASSERT (size_to_free = 0);
        Some s
      }
      else Some s) = Some (s\<lparr>dmem_map := dm, fmem_map := fm, flexible_usage := flexible_usage s -
        of_nat (card (phys_behind {VMA_Flexible} (vma_map s) (unat addr) (unat addr + unat z))),
        host_trace := host_trace s @ calls\<rparr>)"
    "phys_laid 0 dm (unat (total_direct_size s))" "phys_laid 0 fm addr_max"
    "phys_cells dm = map_set (set_use Phys_Allocated)
       (phys_behind {VMA_Direct} (vma_map s) (unat addr) (unat addr + unat z)) (phys_cells (dmem_map s))"
    "phys_cells fm = map_set (set_use Phys_Free)
       (phys_behind {VMA_Flexible} (vma_map s) (unat addr) (unat addr + unat z)) (phys_cells (fmem_map s))"
    "\<And>b' j. fits pa_size (dmem_map s) b' j \<Longrightarrow> {unat b'..<unat b' + unat j} \<inter>
       phys_behind {VMA_Direct} (vma_map s) (unat addr) (unat addr + unat z) = {} \<Longrightarrow> fits pa_size dm b' j"
    "\<And>b' j. fits pa_size (fmem_map s) b' j \<Longrightarrow> {unat b'..<unat b' + unat j} \<inter>
       phys_behind {VMA_Flexible} (vma_map s) (unat addr) (unat addr + unat z) = {} \<Longrightarrow> fits pa_size fm b' j"
    "host_undone calls {} (phys_behind {VMA_Flexible} (vma_map s) (unat addr) (unat addr + unat z))"
proof -
  let ?m = "vma_map s" and ?a = "unat addr" and ?b = "unat addr + unat z"
  have l: "vma_laid 0 ?m addr_max" and ld: "phys_laid 0 (dmem_map s) (unat (total_direct_size s))"
    and lf: "phys_laid 0 (fmem_map s) addr_max" and ok: "maps_ok ?m (dmem_map s) (fmem_map s)"
    and td: "unat (total_direct_size s) < 2 ^ 64"
    using inv by (auto simp: mem_inv_def mm_inv_def covers_def addr_max_def)
  have L: "all_regions (region_fits (dmem_map s) (fmem_map s)) v"
    using ok kv by (auto simp: maps_ok_def linked_def)
  have in_v: "vma_cells ?m p = Some (vma_ct v (p - unat k))" if "?a \<le> p" "p < ?b" for p
    using laid_member_cell [OF l kv, of p vma_ct] that z by auto
  have none: "phys_behind T ?m ?a ?b = {}" if "vma_type v \<notin> T" for T
    using in_v that by (intro phys_behind_none) (auto simp: vma_ct_def)
  show thesis
  proof (cases "vma_type v = VMA_Direct \<or> vma_type v = VMA_Flexible")
    case False
    then have "\<not> HasPhysicalBacking v" using t by (simp add: HasPhysicalBacking_def)
    then have "vma_phys_areas v = []" using laid_mem [OF l kv] by (simp add: vma_wf_def)
    moreover have "phys_behind {VMA_Direct} ?m ?a ?b = {}" "phys_behind {VMA_Flexible} ?m ?a ?b = {}"
      using False none by auto
    ultimately show thesis using ld lf
      by (intro that [where dm = "dmem_map s" and fm = "fmem_map s" and calls = "[]"]) (simp_all add: host_undone_def)
  next
    case True
    then have hb: "HasPhysicalBacking v" by (auto simp: HasPhysicalBacking_def)
    have "vma_type v \<in> {vma_type v}" by simp
    from backed_pieces [OF l addr_max_less(1) kv hb this z refl] obtain h where
      h: "sm_floor (vma_phys_areas v) (addr - vma_base v) = Some h" and
      P: "\<And>ps. ps = phys_pieces (addr - vma_base v) (sm_from (vma_phys_areas v) (Some h)) z \<Longrightarrow>
        pieces_sum ps = unat z \<and> (\<forall>p \<in> set ps. piece_in (vma_phys_areas v) p) \<and>
        pieces_addrs ps = map (\<lambda>p. the (phys_at {vma_type v} ?m p)) [?a..<?b] \<and>
        (\<forall>p. ?a \<le> p \<longrightarrow> p < ?b \<longrightarrow> phys_at {vma_type v} ?m p \<noteq> None)" by metis
    define ps where "ps = phys_pieces (addr - vma_base v) (sm_from (vma_phys_areas v) (Some h)) z"
    from P [OF ps_def] have p: "pieces_sum ps = unat z" "\<forall>p \<in> set ps. piece_in (vma_phys_areas v) p"
      "pieces_addrs ps = map (\<lambda>p. the (phys_at {vma_type v} ?m p)) [?a..<?b]"
      "\<forall>p. ?a \<le> p \<longrightarrow> p < ?b \<longrightarrow> phys_at {vma_type v} ?m p \<noteq> None" by blast+
    have na: "no_alias {vma_type v} ?m"
    proof -
      have "no_alias direct_types ?m" "no_alias flexible_types ?m" using ok by (auto simp: maps_ok_def)
      then show ?thesis using True phys_at_mono [of "{VMA_Direct}" ?m _ _ direct_types]
        unfolding no_alias_def by (metis insertI1 singletonD subsetI)
    qed
    note r = pieces_ready [OF na L p(2-4)]
    have ne: "vma_phys_areas v \<noteq> []" using h by (auto simp: sm_floor_def sm_prev_def)

    show thesis
    proof (cases "vma_type v = VMA_Direct")
      case D: True
      from retype_pieces_spec [OF ld td _ r(1), of Phys_Allocated] r(3) D obtain dm where
        dm: "retype_pieces Phys_Allocated ps (dmem_map s) = Some dm" "phys_laid 0 dm (unat (total_direct_size s))"
        "phys_cells dm = map_set (set_use Phys_Allocated) (phys_behind {VMA_Direct} ?m ?a ?b) (phys_cells (dmem_map s))"
        "\<forall>c j. fits pa_size (dmem_map s) c j \<longrightarrow>
          {unat c..<unat c + unat j} \<inter> phys_behind {VMA_Direct} ?m ?a ?b = {} \<longrightarrow> fits pa_size dm c j"
        unfolding r(2) by auto
      have f0: "phys_behind {VMA_Flexible} ?m ?a ?b = {}" using D by (intro none) simp
      show thesis
        using dm lf ne h D f0 p(1)
        by (intro that [where dm = dm and fm = "fmem_map s" and calls = "[]"])
           (simp_all add: unmap_direct_pieces ps_def [symmetric] host_undone_def)
    next
      case ND: False
      then have F: "vma_type v = VMA_Flexible" using True by simp
      from retype_pieces_spec [OF lf addr_max_less(1) _ r(1), of Phys_Free] r(3) F obtain fm where
        fm: "retype_pieces Phys_Free ps (fmem_map s) = Some fm" "phys_laid 0 fm addr_max"
        "phys_cells fm = map_set (set_use Phys_Free) (phys_behind {VMA_Flexible} ?m ?a ?b) (phys_cells (fmem_map s))"
        "\<forall>c j. fits pa_size (fmem_map s) c j \<longrightarrow>
          {unat c..<unat c + unat j} \<inter> phys_behind {VMA_Flexible} ?m ?a ?b = {} \<longrightarrow> fits pa_size fm c j"
        unfolding r(2) by auto
      have d0: "phys_behind {VMA_Direct} ?m ?a ?b = {}" using F by (intro none) simp
      have "card (phys_behind {VMA_Flexible} ?m ?a ?b) = unat z"
        using distinct_card [OF r(1)] unfolding r(2) F [symmetric] unfolding p(3) by (simp only: length_map length_upt diff_add_inverse)
      moreover have "host_undone (map (\<lambda>(b, z). Host_ZeroBacking b z) ps) {} (phys_behind {VMA_Flexible} ?m ?a ?b)"
        unfolding r(2) [symmetric] F [symmetric] by (force simp: host_undone_def piece_addrs_def)
      ultimately show thesis
        using fm ld ne h F d0 p(1)
        by (intro that [where dm = "dmem_map s" and fm = fm and calls = "map (\<lambda>(b, z). Host_ZeroBacking b z) ps"])
           (simp_all add: unmap_flexible_pieces ps_def [symmetric])
    qed
  qed
qed

end
