(* ===== verification/Unmapping_Spec.thy ===== *)
theory Unmapping_Spec
  imports Unmapping
begin

section \<open>\<^verbatim>\<open>UnmapMemory\<close>\<close>

text \<open>
  One area after another: the loop of \<^verbatim>\<open>UnmapMemoryImpl\<close> ends and composes the effects of
  \<^verbatim>\<open>UnmapBytesFromEntry\<close>.
\<close>

subsection \<open>One area\<close>

lemma unmapped_refl:
  assumes "mem_inv s"
    and "\<And>p. a \<le> p \<Longrightarrow> p < b \<Longrightarrow>
      \<exists>c. vma_cells (vma_map s) p = Some c \<and> (fst c = VMA_Free \<or> fst c = VMA_Pooled)"
  shows "unmapped s a b s"
proof -
  have "map_range cell_unmapped a b (vma_cells (vma_map s)) = vma_cells (vma_map s)"
    using assms(2) by (intro map_range_id) (fastforce simp: cell_unmapped_def)
  moreover have "phys_behind {t} (vma_map s) a b = {}" if "t \<noteq> VMA_Free" "t \<noteq> VMA_Pooled" for t
    using assms(2) that by (intro phys_behind_none) fastforce
  moreover have "host_cells (vma_map s) a b = {}" using assms(2) unfolding host_cells_def by fastforce
  ultimately show ?thesis using assms(1) unfolding unmapped_def
    by (simp add: host_undone_def)
qed

lemma UnmapBytesFromEntry_spec:
  assumes inv: "mem_inv s" and kv: "(k, v) \<in> set (vma_map s)" and n: "0 < unat n"
    and cur: "unat k \<le> unat addr" "unat addr < unat k + unat (vma_size v)"
  obtains z s' where "UnmapBytesFromEntry s addr v n = Some (z, s')"
    "unmapped s (unat addr) (unat addr + unat z) s'" "0 < unat z" "unat z \<le> unat n"
    "unat (addr + z) = unat addr + unat z"
proof -
  let ?m = "vma_map s"
  have l: "vma_laid 0 ?m addr_max" and ok: "maps_ok ?m (dmem_map s) (fmem_map s)"
    and td: "0 < unat (total_direct_size s)" "unat (total_direct_size s) \<le> addr_max"
    and cov: "dom (phys_cells (dmem_map s)) = {0..<unat (total_direct_size s)}"
    using inv by (auto simp: mem_inv_def mm_inv_def covers_def)
  have b: "vma_base v = k" and e: "unat k + unat (vma_size v) \<le> addr_max"
    using laid_mem [OF l kv] by (auto simp: vma_wf_def)
  have left: "unat (vma_size v - (addr - vma_base v)) = unat k + unat (vma_size v) - unat addr"
    using cur b by (simp add: nowrap)
  define z where "z = min (vma_size v - (addr - vma_base v)) n"
  have uz: "unat z = min (unat k + unat (vma_size v) - unat addr) (unat n)"
    unfolding z_def min_unat left ..
  then have z: "0 < unat z" "unat z \<le> unat n" "unat addr + unat z \<le> unat k + unat (vma_size v)"
    using cur n by auto
  have az: "unat (addr + z) = unat addr + unat z"
    using z(3) e addr_max_less(1) by (intro unat_add64) linarith
  show thesis
  proof (cases "vma_type v = VMA_Free \<or> vma_type v = VMA_Pooled")
    case True
    have "UnmapBytesFromEntry s addr v n = Some (z, s)"
      using True by (auto simp: UnmapBytesFromEntry_def z_def Let_def)
    moreover have "unmapped s (unat addr) (unat addr + unat z) s"
      using inv
    proof (rule unmapped_refl)
      fix p assume "unat addr \<le> p" "p < unat addr + unat z"
      then have "vma_cells ?m p = Some (vma_ct v (p - unat k))"
        using cur z(3) by (intro laid_member_cell [OF l kv]) auto
      then show "\<exists>c. vma_cells ?m p = Some c \<and> (fst c = VMA_Free \<or> fst c = VMA_Pooled)"
        using True by (auto simp: vma_ct_def)
    qed
    ultimately show thesis using that z az by blast
  next
    case False
    then have t: "vma_type v \<noteq> VMA_Free" "vma_type v \<noteq> VMA_Pooled" by auto
    from unmap_phys_stage [OF inv kv z(1) cur(1) z(3) t(2)] obtain dm fm calls where stage:
      "(if vma_phys_areas v \<noteq> []
        then do {
          phys_handle \<leftarrow> sm_floor (vma_phys_areas v) (addr - vma_base v);
          (size_to_free, s) \<leftarrow> unmap_phys_loop (vma_type v) (addr - vma_base v)
            (sm_from (vma_phys_areas v) (Some phys_handle)) z s;
          ASSERT (size_to_free = 0);
          Some s
        }
        else Some s) = Some (s\<lparr>dmem_map := dm, fmem_map := fm, flexible_usage := flexible_usage s -
          of_nat (card (phys_behind {VMA_Flexible} ?m (unat addr) (unat addr + unat z))),
          host_trace := host_trace s @ calls\<rparr>)"
      and dl: "phys_laid 0 dm (unat (total_direct_size s))" and fl: "phys_laid 0 fm addr_max"
      and dc: "phys_cells dm = map_set (set_use Phys_Allocated)
        (phys_behind {VMA_Direct} ?m (unat addr) (unat addr + unat z)) (phys_cells (dmem_map s))"
      and fc: "phys_cells fm = map_set (set_use Phys_Free)
        (phys_behind {VMA_Flexible} ?m (unat addr) (unat addr + unat z)) (phys_cells (fmem_map s))"
      and df: "\<And>b' j. fits pa_size (dmem_map s) b' j \<Longrightarrow> {unat b'..<unat b' + unat j} \<inter>
        phys_behind {VMA_Direct} ?m (unat addr) (unat addr + unat z) = {} \<Longrightarrow> fits pa_size dm b' j"
      and ff: "\<And>b' j. fits pa_size (fmem_map s) b' j \<Longrightarrow> {unat b'..<unat b' + unat j} \<inter>
        phys_behind {VMA_Flexible} ?m (unat addr) (unat addr + unat z) = {} \<Longrightarrow> fits pa_size fm b' j"
      and hu: "host_undone calls {} (phys_behind {VMA_Flexible} ?m (unat addr) (unat addr + unat z))"
      by metis
    have "linked ?m (dmem_map s) (fmem_map s)" using ok by (simp add: maps_ok_def)
    from free_part_spec [OF l addr_max_less(1) kv z(1) cur(1) z(3) t this] obtain m where
      m: "free_part ?m addr z = Some m" "vma_laid 0 m addr_max"
      "vma_cells m = map_range cell_unmapped (unat addr) (unat addr + unat z) (vma_cells ?m)"
      "linked m (dmem_map s) (fmem_map s)" by metis
    have ok': "maps_ok m dm fm" using maps_ok_unmapped [OF ok m(2,3,4) dc fc df ff] .
    define s' where "s' = (if vma_type v \<noteq> VMA_Reserved \<and> vma_type v \<noteq> VMA_PoolReserved
      then host_call (Host_Unmap addr z) else id)
      (s\<lparr>dmem_map := dm, fmem_map := fm, flexible_usage := flexible_usage s -
          of_nat (card (phys_behind {VMA_Flexible} ?m (unat addr) (unat addr + unat z))),
          host_trace := host_trace s @ calls, vma_map := m\<rparr>)"
    have run: "UnmapBytesFromEntry s addr v n = Some (z, s')"
      unfolding UnmapBytesFromEntry_eq [OF t z_def [symmetric]] stage s'_def using m(1)
      by (simp add: Let_def)
    have f: "vma_map s' = m" "dmem_map s' = dm" "fmem_map s' = fm" "flexible_usage s' = flexible_usage s -
          of_nat (card (phys_behind {VMA_Flexible} ?m (unat addr) (unat addr + unat z)))"
      "total_direct_size s' = total_direct_size s"
      by (auto simp: s'_def host_call_def)
    have "mm_inv (s\<lparr>vma_map := m\<rparr>)"
      using inv m(2,3) by (intro mm_inv_vma) (auto simp: mem_inv_def)
    then have "mm_inv s'" using td dl fl cov
      by (auto simp: mm_inv_def f covers_def dc)
    then have inv': "mem_inv s'" using ok' by (simp add: mem_inv_def f)
    have "\<exists>c. vma_cells ?m p = Some c \<and> fst c = vma_type v" if "unat addr \<le> p" "p < unat addr + unat z" for p
      using laid_member_cell [OF l kv, of p vma_ct] that cur z(3) by (auto simp: vma_ct_def)
    then have hc: "host_cells ?m (unat addr) (unat addr + unat z) =
        (if vma_type v \<in> {VMA_Free, VMA_Pooled, VMA_Reserved, VMA_PoolReserved} then {} else {unat addr..<unat addr + unat z})"
      by (rule host_cells_one)
    have "\<exists>calls. host_trace s' = host_trace s @ calls \<and> host_undone calls (host_cells ?m (unat addr) (unat addr + unat z))
        (phys_behind {VMA_Flexible} ?m (unat addr) (unat addr + unat z))"
    proof (cases "vma_type v \<noteq> VMA_Reserved \<and> vma_type v \<noteq> VMA_PoolReserved")
      case True
      have "host_undone [Host_Unmap addr z] {unat addr..<unat addr + unat z} {}" by (simp add: host_undone_def)
      from host_undone_append [OF hu this] show ?thesis
        using True t unfolding hc s'_def host_call_def by (intro exI [of _ "calls @ [Host_Unmap addr z]"]) simp
    next
      case False
      then show ?thesis using hu unfolding hc s'_def by (intro exI [of _ calls]) auto
    qed
    moreover have "same_rest s s'" by (auto simp: same_rest_def s'_def host_call_def)
    ultimately have "unmapped s (unat addr) (unat addr + unat z) s'"
      unfolding unmapped_def f using inv' m(3) dc fc by simp
    with run z az that show thesis by blast
  qed
qed

subsection \<open>Composition\<close>

lemma phys_at_eq: "vma_cells m' p = vma_cells m p \<Longrightarrow> phys_at T m' p = phys_at T m p"
  by (simp add: phys_at_def)

lemma phys_behind_eq:
  assumes "\<And>p. a \<le> p \<Longrightarrow> p < b \<Longrightarrow> vma_cells m' p = vma_cells m p"
  shows "phys_behind T m' a b = phys_behind T m a b"
  using phys_at_eq assms unfolding phys_behind_def by (metis (no_types, lifting))

lemma phys_behind_disjoint:
  assumes "no_alias T m" "T' \<subseteq> T"
  shows "phys_behind T' m a b \<inter> phys_behind T' m b c = {}"
proof (rule ccontr)
  assume "phys_behind T' m a b \<inter> phys_behind T' m b c \<noteq> {}"
  then obtain q p p' where "p < b" "b \<le> p'" "phys_at T' m p = Some q" "phys_at T' m p' = Some q"
    unfolding phys_behind_def by blast
  moreover have "p = p'" using calculation assms phys_at_mono unfolding no_alias_def by blast
  ultimately show False by simp
qed

lemma phys_behind_finite: "finite (phys_behind T m a b)"
proof -
  have "phys_behind T m a b \<subseteq> (\<lambda>p. the (phys_at T m p)) ` {a..<b}"
    unfolding phys_behind_def by force
  then show ?thesis by (rule finite_subset) simp
qed

lemma unmapped_trans:
  assumes inv: "mem_inv s" and u: "unmapped s a b s1" "unmapped s1 b c s2" and le: "a \<le> b" "b \<le> c"
  shows "unmapped s a c s2"
proof -
  let ?m = "vma_map s"
  have c1: "vma_cells (vma_map s1) = map_range cell_unmapped a b (vma_cells ?m)"
    using u(1) by (simp add: unmapped_def)
  have same: "phys_behind T (vma_map s1) b c = phys_behind T ?m b c" for T
    by (rule phys_behind_eq) (simp add: c1 map_range_def)
  have na: "no_alias direct_types ?m" "no_alias flexible_types ?m"
    using inv by (auto simp: mem_inv_def maps_ok_def)
  have dj: "phys_behind {VMA_Direct} ?m a b \<inter> phys_behind {VMA_Direct} ?m b c = {}"
    "phys_behind {VMA_Flexible} ?m a b \<inter> phys_behind {VMA_Flexible} ?m b c = {}"
    using phys_behind_disjoint [OF na(1)] phys_behind_disjoint [OF na(2)] by auto
  have "card (phys_behind {VMA_Flexible} ?m a c) =
      card (phys_behind {VMA_Flexible} ?m a b) + card (phys_behind {VMA_Flexible} ?m b c)"
    unfolding phys_behind_append [OF le, symmetric] using dj(2) phys_behind_finite by (intro card_Un_disjoint)
  then have fu: "flexible_usage s2 = flexible_usage s - of_nat (card (phys_behind {VMA_Flexible} ?m a c))"
    using u by (simp add: unmapped_def same)
  have hsame: "host_cells (vma_map s1) b c = host_cells ?m b c"
    by (rule host_cells_eq) (simp add: c1 map_range_def)
  obtain xs ys where "host_trace s1 = host_trace s @ xs" "host_trace s2 = host_trace s1 @ ys"
    "host_undone xs (host_cells ?m a b) (phys_behind {VMA_Flexible} ?m a b)"
    "host_undone ys (host_cells ?m b c) (phys_behind {VMA_Flexible} ?m b c)"
    using u unfolding unmapped_def same hsame by blast
  then have "\<exists>calls. host_trace s2 = host_trace s @ calls \<and>
      host_undone calls (host_cells ?m a c) (phys_behind {VMA_Flexible} ?m a c)"
    using host_undone_append unfolding host_cells_append [OF le, symmetric] phys_behind_append [OF le, symmetric] by auto
  moreover have "same_rest s s2" using u by (auto simp: unmapped_def intro: same_rest_trans)
  moreover have "phys_cells (dmem_map s2) =
      map_set (set_use Phys_Allocated) (phys_behind {VMA_Direct} ?m a c) (phys_cells (dmem_map s))"
    using u dj(1) by (simp add: unmapped_def same map_set_Un phys_behind_append [OF le])
  moreover have "phys_cells (fmem_map s2) =
      map_set (set_use Phys_Free) (phys_behind {VMA_Flexible} ?m a c) (phys_cells (fmem_map s))"
    using u dj(2) by (simp add: unmapped_def same map_set_Un phys_behind_append [OF le])
  moreover have "vma_cells (vma_map s2) = map_range cell_unmapped a c (vma_cells ?m)"
    using u le by (simp add: unmapped_def map_range_append)
  ultimately show ?thesis using u(2) fu unfolding unmapped_def by blast
qed

subsection \<open>The loop and the operation\<close>

lemma unmapped_dom: "unmapped s a b s' \<Longrightarrow> dom (vma_cells (vma_map s')) = dom (vma_cells (vma_map s))"
  by (simp add: unmapped_def)

lemma unmap_loop_spec:
  assumes "mem_inv s" "unat cnt < unat n" "unat (addr + cnt) = unat addr + unat cnt"
    and "{unat addr + unat cnt..<unat addr + unat n} \<subseteq> dom (vma_cells (vma_map s))"
  shows "\<exists>s'. unmap_loop addr n cnt s = Some s' \<and> unmapped s (unat addr + unat cnt) (unat addr + unat n) s'"
  using assms
proof (induction "unat n - unat cnt" arbitrary: cnt s rule: less_induct)
  case less
  have l: "vma_laid 0 (vma_map s) addr_max" using less.prems(1) by (simp add: mem_inv_def mm_inv_def)
  have "unat (addr + cnt) \<in> {unat addr + unat cnt..<unat addr + unat n}" using less.prems(2,3) by simp
  then have "unat (addr + cnt) \<in> dom (vma_cells (vma_map s))" using less.prems(4) by blast
  from FindVMA_from [OF l this] obtain xs k v ys where
    m: "vma_map s = xs @ (k, v) # ys" and f: "FindVMA (vma_map s) (addr + cnt) = Some k"
    "sm_get (vma_map s) k = Some v" "unat k \<le> unat (addr + cnt)"
    "unat (addr + cnt) < unat k + unat (vma_size v)" by metis
  have kv: "(k, v) \<in> set (vma_map s)" using m by simp
  have un: "unat (n - cnt) = unat n - unat cnt" using less.prems(2) by (intro unat_sub_nowrap) simp
  then have "0 < unat (n - cnt)" using less.prems(2) by simp
  from UnmapBytesFromEntry_spec [OF less.prems(1) kv this f(3,4)] obtain z s1 where
    z: "UnmapBytesFromEntry s (addr + cnt) v (n - cnt) = Some (z, s1)"
    "unmapped s (unat (addr + cnt)) (unat (addr + cnt) + unat z) s1" "0 < unat z"
    "unat z \<le> unat (n - cnt)" "unat (addr + cnt + z) = unat (addr + cnt) + unat z" by metis
  have inv1: "mem_inv s1" using z(2) by (simp add: unmapped_def)
  have "unat cnt + unat z \<le> unat n" using z(4) un less.prems(2) by linarith
  then have dz: "unat (cnt + z) = unat cnt + unat z"
    using unat_lt64 [of n] by (intro unat_add64) linarith
  have pos: "0 < z" using z(3) by (rule unat_pos_word)
  have step: "unmap_loop addr n cnt s = (if cnt + z < n then unmap_loop addr n (cnt + z) s1 else Some s1)"
    using f z(1) pos by (subst unmap_loop.simps) simp
  show ?case
  proof (cases "cnt + z < n")
    case False
    then have "unat cnt + unat z = unat n" using z(4) un less.prems(2) dz by (simp add: word_less_nat_alt)
    then show ?thesis using z(2) False unfolding step less.prems(3) by (simp add: add.assoc)
  next
    case True
    then have lt: "unat (cnt + z) < unat n" by (simp add: word_less_nat_alt)
    have a2: "unat (addr + (cnt + z)) = unat addr + unat (cnt + z)"
      using z(5) less.prems(3) dz by (simp add: add.assoc)
    have "unat n - unat (cnt + z) < unat n - unat cnt" using lt dz z(3) by linarith
    moreover have "{unat addr + unat (cnt + z)..<unat addr + unat n} \<subseteq> dom (vma_cells (vma_map s1))"
      unfolding unmapped_dom [OF z(2)] using dz by (intro order_trans [OF _ less.prems(4)]) simp
    ultimately obtain s' where s': "unmap_loop addr n (cnt + z) s1 = Some s'"
      "unmapped s1 (unat addr + unat (cnt + z)) (unat addr + unat n) s'"
      using less.hyps [OF _ inv1 lt a2] by blast
    have u: "unmapped s1 (unat addr + unat cnt + unat z) (unat addr + unat n) s'"
      using s'(2) unfolding dz by (simp add: add.assoc)
    have "unmapped s (unat addr + unat cnt) (unat addr + unat n) s'"
      using lt dz by (intro unmapped_trans [OF less.prems(1) z(2) [unfolded less.prems(3)] u]) simp_all
    then show ?thesis using s'(1) True unfolding step by simp
  qed
qed

text \<open>
  C1: in a state that satisfies the invariant, in which no two places of direct and pooled or of flexible
  areas show the same physical memory, unmapping a range that belongs to areas succeeds: what is committed
  from a pool and what is free stays as it is, and the rest of the range becomes free; the direct memory
  behind it becomes allocated and unmapped; the flexible memory behind it becomes free and is given back to
  the budget; the host is told to unmap exactly the addresses of the range that are neither free, reserved
  nor committed from a pool, and to clear exactly that flexible memory; nothing else changes but the
  generation of the mappings, which grows by two, and the invariant is kept.
\<close>

theorem UnmapMemory_spec:
  assumes inv: "mem_inv s" and n: "n \<noteq> 0"
    and al: "AlignDown virtual_addr (KB 16) = Some a" "AlignUp n (KB 16) = Some len" "len \<noteq> 0"
    and dom: "{unat a..<unat a + unat len} \<subseteq> dom (vma_cells (vma_map s))" and gpu: "has_rasterizer s"
  shows "\<exists>s' t. UnmapMemory s virtual_addr n = Some (ORBIS_OK, s') \<and>
    unmapped (if IsValidGpuMapping a len then host_call (Gpu_Unmap a len) s else s)
      (unat a) (unat a + unat len) t \<and>
    s' = t\<lparr>mapping_generation := mapping_generation s + 2\<rparr>"
proof -
  let ?g = "if IsValidGpuMapping a len then host_call (Gpu_Unmap a len) s else s"
  have len: "0 < unat len" using al(3) by (simp add: unat_gt_0)
  then have "unat a \<in> {unat a..<unat a + unat len}" by simp
  then have a: "unat a \<in> dom (vma_cells (vma_map s))" using dom by blast
  have v: "IsValidMapping s a len = Some True"
    using IsValidMapping_iff [OF _ a] inv dom by (simp add: mem_inv_def)
  have g: "gpu_range Gpu_Unmap a len s = Some ?g" using gpu by (simp add: gpu_range_def gpu_call_def)
  have gf: "vma_map ?g = vma_map s" "mem_inv ?g" "mapping_generation ?g = mapping_generation s"
    using inv by (auto simp: host_call_def mem_inv_def mm_inv_def)
  have "\<exists>t. unmap_loop a len 0 (BeginMutation ?g) = Some t \<and>
      unmapped (BeginMutation ?g) (unat a + unat (0 :: u64)) (unat a + unat len) t"
    using gf len dom by (intro unmap_loop_spec) simp_all
  then obtain t where t: "unmap_loop a len 0 (BeginMutation ?g) = Some t"
    "unmapped (BeginMutation ?g) (unat a) (unat a + unat len) t" by auto
  define u where "u = t\<lparr>mapping_generation := mapping_generation s\<rparr>"
  have gen: "mapping_generation t = mapping_generation s + 1"
    using t(2) gf(3) by (simp add: unmapped_def same_rest_def BeginMutation_def)
  have "unmapped ?g (unat a) (unat a + unat len) u"
    using t(2) gf(3) by (auto simp: unmapped_def u_def BeginMutation_def mem_inv_def mm_inv_def same_rest_def)
  moreover have "UnmapMemory s virtual_addr n = Some (ORBIS_OK, u\<lparr>mapping_generation := mapping_generation s + 2\<rparr>)"
    using n al(1,2) v g t(1) gen
    by (simp add: UnmapMemory_def assert_valid_def with_mutation_def UnmapMemoryImpl_def u_def FinishMutation_def)
  ultimately show ?thesis by blast
qed

subsection \<open>A small instance with a direct mapping\<close>

definition demo_mapped :: MemoryManager where
  "demo_mapped = demo_mm\<lparr>
     dmem_map := [(0, \<lparr>pa_base = 0, pa_size = 0x10000, pa_memory_type = 3, pa_dma_type = Phys_Mapped\<rparr>),
       (0x10000, free_area 0x10000 0xFF0000)],
     vma_map := [(0x400000, free_vma 0x400000 0xC00000),
       (0x2000000, \<lparr>vma_base = 0x2000000, vma_size = 0x10000,
         vma_phys_areas = [(0, \<lparr>pa_base = 0, pa_size = 0x10000, pa_memory_type = 3, pa_dma_type = Phys_Mapped\<rparr>)],
         vma_type = VMA_Direct, vma_prot = Prot_CpuReadWrite, vma_name = ''heap'', vma_fd = 0,
         vma_disallow_merge = False\<rparr>),
       (0x2010000, free_vma 0x2010000 0x3FF0000)]\<rparr>"

lemma demo_mapped_cell:
  "vma_cells (vma_map demo_mapped) p =
    (if 0x400000 \<le> p \<and> p < 0x1000000 \<or> 0x2010000 \<le> p \<and> p < 0x6000000
     then Some (VMA_Free, Prot_NoAccess, '''', False, None)
     else if 0x2000000 \<le> p \<and> p < 0x2010000
     then Some (VMA_Direct, Prot_CpuReadWrite, ''heap'', False, Some (p - 0x2000000, Phys_Mapped, 3))
     else None)"
  by (auto simp: demo_mapped_def free_vma_def vma_ct_def HasPhysicalBacking_def back_ct_def)

lemma demo_mapped_dcell:
  "phys_cells (dmem_map demo_mapped) q =
    (if q < 0x10000 then Some (Phys_Mapped, 3) else if q < 0x1000000 then Some (Phys_Free, 0) else None)"
  by (auto simp: demo_mapped_def free_area_def phys_ct_def)

lemma demo_mapped_phys_at:
  "phys_at T (vma_map demo_mapped) p =
    (if 0x2000000 \<le> p \<and> p < 0x2010000 \<and> VMA_Direct \<in> T then Some (p - 0x2000000) else None)"
  unfolding phys_at_def demo_mapped_cell by (auto simp: cell_phys_def)

lemma demo_mapped_inv: "mem_inv demo_mapped"
proof -
  have "dom (phys_cells (dmem_map demo_mapped)) = {0..<0x1000000}"
    by (auto simp: demo_mapped_dcell dom_def split: if_splits)
  moreover have "backed [(0, \<lparr>pa_base = 0, pa_size = 0x10000, pa_memory_type = 3, pa_dma_type = Phys_Mapped\<rparr>)] 0x10000"
    by (simp add: backed_def back_wf_def)
  ultimately have "mm_inv demo_mapped" using demo_inv
    by (simp add: mm_inv_def demo_mapped_def covers_def free_area_def free_vma_def phys_wf_def vma_wf_def
        HasPhysicalBacking_def addr_max_def)
  moreover have "linked (vma_map demo_mapped) (dmem_map demo_mapped) (fmem_map demo_mapped)"
    by (simp add: demo_mapped_def linked_def all_regions_def free_vma_def region_fits_def fits_def)
  moreover have "no_alias T (vma_map demo_mapped)" for T
    by (auto simp: no_alias_def demo_mapped_phys_at split: if_splits)
  moreover have "used_as (dmem_map demo_mapped) Phys_Mapped VMA_Direct (vma_map demo_mapped)"
    "used_as (dmem_map demo_mapped) Phys_Committed VMA_Pooled (vma_map demo_mapped)"
    "used_as (fmem_map demo_mapped) Phys_Flexible VMA_Flexible (vma_map demo_mapped)"
    by (auto simp: used_as_def demo_mapped_phys_at demo_mapped_dcell split: if_splits)
  ultimately show ?thesis by (simp add: mem_inv_def maps_ok_def)
qed

lemma UnmapMemory_spec_witness:
  "\<exists>s'. UnmapMemory demo_mapped 0x2004000 0x4000 = Some (ORBIS_OK, s') \<and>
    vma_cells (vma_map s') 0x2003FFF = Some (VMA_Direct, Prot_CpuReadWrite, ''heap'', False, Some (0x3FFF, Phys_Mapped, 3)) \<and>
    vma_cells (vma_map s') 0x2004000 = Some (VMA_Free, Prot_NoAccess, '''', False, None) \<and>
    phys_cells (dmem_map s') 0x4000 = Some (Phys_Allocated, 3) \<and>
    phys_cells (dmem_map s') 0x8000 = Some (Phys_Mapped, 3)"
proof -
  let ?s = "host_call (Gpu_Unmap 0x2004000 0x4000) demo_mapped"
  have al: "AlignDown 0x2004000 (KB 16) = Some 0x2004000" "AlignUp 0x4000 (KB 16) = Some 0x4000"
    by (simp_all add: AlignDown_def AlignUp_def KB_def)
  have "\<exists>s' t. UnmapMemory demo_mapped 0x2004000 0x4000 = Some (ORBIS_OK, s') \<and>
    unmapped (if IsValidGpuMapping 0x2004000 0x4000 then ?s else demo_mapped)
      (unat (0x2004000 :: u64)) (unat (0x2004000 :: u64) + unat (0x4000 :: u64)) t \<and>
    s' = t\<lparr>mapping_generation := mapping_generation demo_mapped + 2\<rparr>"
  proof (rule UnmapMemory_spec [OF demo_mapped_inv _ al])
    show "{unat (0x2004000 :: u64)..<unat (0x2004000 :: u64) + unat (0x4000 :: u64)}
        \<subseteq> dom (vma_cells (vma_map demo_mapped))"
      by (auto simp: demo_mapped_cell)
    show "has_rasterizer demo_mapped" by (simp add: demo_mapped_def)
  qed simp_all
  then obtain s' t where u: "UnmapMemory demo_mapped 0x2004000 0x4000 = Some (ORBIS_OK, s')"
    "unmapped ?s 0x2004000 0x2008000 t" "s' = t\<lparr>mapping_generation := mapping_generation demo_mapped + 2\<rparr>"
    by (auto simp: IsValidGpuMapping_def)
  have m: "vma_map ?s = vma_map demo_mapped" "dmem_map ?s = dmem_map demo_mapped" by (simp_all add: host_call_def)
  have v: "vma_cells (vma_map s') = map_range cell_unmapped 0x2004000 0x2008000 (vma_cells (vma_map demo_mapped))"
    and d: "phys_cells (dmem_map s') = map_set (set_use Phys_Allocated)
      (phys_behind {VMA_Direct} (vma_map demo_mapped) 0x2004000 0x2008000) (phys_cells (dmem_map demo_mapped))"
    using u(2,3) by (auto simp: unmapped_def m)
  have "0x4000 \<in> phys_behind {VMA_Direct} (vma_map demo_mapped) 0x2004000 0x2008000"
    by (auto simp: phys_behind_def demo_mapped_phys_at intro!: exI [of _ "0x2004000"])
  moreover have "0x8000 \<notin> phys_behind {VMA_Direct} (vma_map demo_mapped) 0x2004000 0x2008000"
    by (auto simp: phys_behind_def demo_mapped_phys_at)
  ultimately show ?thesis using u(1)
    by (intro exI [of _ s']) (simp add: v d map_set_def map_range_def demo_mapped_cell demo_mapped_dcell
        cell_unmapped_def set_use_def)
qed

end
