(* ===== verification/Event_Flag.thy ===== *)
theory Event_Flag
  imports Prelude
begin

section \<open>Event flags\<close>

text \<open>
  \<^verbatim>\<open>core/libraries/kernel/threads/event_flag.cpp\<close>.  The methods of \<^verbatim>\<open>EventFlagInternal\<close> hold one
  mutex and release it where they wait or sleep, so the code between two such points is one
  atomic step.  The steps are functions on the flag; the threads that call them are put
  together by the step relation \<open>ef_step\<close>, in which any thread that can move may move.  The
  condition variable \<^verbatim>\<open>m_cond_var\<close> is the set of the threads that sleep on it: a sleeping thread looks
  at its predicate again only after \<^verbatim>\<open>notify_all\<close> has emptied the set, its time has run out, or it
  woke up for no reason.
\<close>

subsection \<open>Data\<close>

definition EF_OK :: s32 where "EF_OK = 0"
definition EF_EPERM :: s32 where "EF_EPERM = 0x80020001"
definition EF_ESRCH :: s32 where "EF_ESRCH = 0x80020003"
definition EF_EACCES :: s32 where "EF_EACCES = 0x8002000D"
definition EF_EBUSY :: s32 where "EF_EBUSY = 0x80020010"
definition EF_EINVAL :: s32 where "EF_EINVAL = 0x80020016"
definition EF_ETIMEDOUT :: s32 where "EF_ETIMEDOUT = 0x8002003C"
definition EF_ENAMETOOLONG :: s32 where "EF_ENAMETOOLONG = 0x8002003F"
definition EF_ECANCELED :: s32 where "EF_ECANCELED = 0x80020055"

lemmas ef_error_defs = EF_OK_def EF_EPERM_def EF_ESRCH_def EF_EACCES_def EF_EBUSY_def EF_EINVAL_def
  EF_ETIMEDOUT_def EF_ENAMETOOLONG_def EF_ECANCELED_def

datatype ClearMode = Clear_None | Clear_All | Clear_Bits
datatype WaitMode = Wait_And | Wait_Or
datatype ThreadMode = Thread_Single | Thread_Multi
datatype QueueMode = Queue_Fifo | Queue_ThreadPrio
datatype Status = Status_Set | Status_Canceled | Status_Deleted

record EventFlagInternal =
  m_status :: Status
  m_waiting_threads :: int
  m_name :: string
  m_thread_mode :: ThreadMode
  m_queue_mode :: QueueMode
  m_bits :: u64
  m_cond_var :: "nat set"

definition EventFlag_new :: "string \<Rightarrow> ThreadMode \<Rightarrow> QueueMode \<Rightarrow> u64 \<Rightarrow> EventFlagInternal" where
  "EventFlag_new name thread_mode queue_mode bits =
     \<lparr>m_status = Status_Set, m_waiting_threads = 0, m_name = name, m_thread_mode = thread_mode,
      m_queue_mode = queue_mode, m_bits = bits, m_cond_var = {}\<rparr>"

text \<open>The two ends of the condition variable: every sleeper is woken, and one falls asleep.\<close>

definition ef_notify_all :: "EventFlagInternal \<Rightarrow> EventFlagInternal" where
  "ef_notify_all ef = ef\<lparr>m_cond_var := {}\<rparr>"

definition fall_asleep :: "nat \<Rightarrow> EventFlagInternal \<Rightarrow> EventFlagInternal" where
  "fall_asleep t ef = ef\<lparr>m_cond_var := insert t (m_cond_var ef)\<rparr>"

definition awake :: "nat \<Rightarrow> EventFlagInternal \<Rightarrow> EventFlagInternal" where
  "awake t ef = ef\<lparr>m_cond_var := m_cond_var ef - {t}\<rparr>"

subsection \<open>The atomic steps of the methods\<close>

definition pattern_met :: "WaitMode \<Rightarrow> u64 \<Rightarrow> u64 \<Rightarrow> bool" where
  "pattern_met wait_mode bits current \<longleftrightarrow>
     (case wait_mode of Wait_And \<Rightarrow> current AND bits = bits | Wait_Or \<Rightarrow> current AND bits \<noteq> 0)"

definition waitFunc :: "EventFlagInternal \<Rightarrow> WaitMode \<Rightarrow> u64 \<Rightarrow> bool" where
  "waitFunc ef wait_mode bits \<longleftrightarrow>
     m_status ef = Status_Canceled \<or> m_status ef = Status_Deleted \<or>
     pattern_met wait_mode bits (m_bits ef)"

text \<open>The part of \<^verbatim>\<open>Wait\<close> behind the wait: return value, \<^verbatim>\<open>*result\<close> and the flag.\<close>

definition Wait_finish :: "u64 \<Rightarrow> ClearMode \<Rightarrow> EventFlagInternal \<Rightarrow> s32 \<times> u64 \<times> EventFlagInternal" where
  "Wait_finish bits clear_mode ef =
     (let ef = ef\<lparr>m_waiting_threads := m_waiting_threads ef - 1\<rparr>;
          result = m_bits ef
      in if m_status ef = Status_Canceled then (EF_ECANCELED, result, ef)
         else if m_status ef = Status_Deleted then (EF_EACCES, result, ef)
         else (EF_OK, result,
               (case clear_mode of
                  Clear_All \<Rightarrow> ef\<lparr>m_bits := 0\<rparr>
                | Clear_Bits \<Rightarrow> ef\<lparr>m_bits := m_bits ef AND NOT bits\<rparr>
                | Clear_None \<Rightarrow> ef)))"

text \<open>
  The part in front of it: the call is refused (\<open>Inl\<close> of the result), comes through at once, or
  blocks (\<open>Inr\<close> of the flag).
\<close>

definition Wait_enter :: "u64 \<Rightarrow> WaitMode \<Rightarrow> ClearMode \<Rightarrow> EventFlagInternal
    \<Rightarrow> (s32 \<times> u64 option \<times> EventFlagInternal) + EventFlagInternal" where
  "Wait_enter bits wait_mode clear_mode ef =
     (if m_thread_mode ef = Thread_Single \<and> m_waiting_threads ef > 0
      then Inl (EF_EPERM, None, ef)
      else let ef = ef\<lparr>m_waiting_threads := m_waiting_threads ef + 1\<rparr>
           in if waitFunc ef wait_mode bits
              then (let (ret, result, ef) = Wait_finish bits clear_mode ef
                    in Inl (ret, Some result, ef))
              else Inr ef)"

definition Wait_timeout :: "EventFlagInternal \<Rightarrow> s32 \<times> u64 \<times> EventFlagInternal" where
  "Wait_timeout ef =
     (EF_ETIMEDOUT, m_bits ef, ef\<lparr>m_waiting_threads := m_waiting_threads ef - 1\<rparr>)"

text \<open>\<^verbatim>\<open>Poll\<close> is a wait of no time whose timeout is reported as busy.\<close>

definition Poll_result :: "s32 \<Rightarrow> s32" where
  "Poll_result ret = (if ret = EF_ETIMEDOUT then EF_EBUSY else ret)"

text \<open>
  \<^verbatim>\<open>Set\<close>, \<^verbatim>\<open>Clear\<close> and \<^verbatim>\<open>Cancel\<close> sleep and try again (\<open>None\<close>) while a cancellation goes on.  \<^verbatim>\<open>Set\<close> and
  \<^verbatim>\<open>Cancel\<close> notify the waiting threads.
\<close>

definition Set_try :: "u64 \<Rightarrow> EventFlagInternal \<Rightarrow> EventFlagInternal option" where
  "Set_try bits ef =
     (if m_status ef \<noteq> Status_Set then None else Some (ef_notify_all (ef\<lparr>m_bits := m_bits ef OR bits\<rparr>)))"

definition Clear_try :: "u64 \<Rightarrow> EventFlagInternal \<Rightarrow> EventFlagInternal option" where
  "Clear_try bits ef =
     (if m_status ef \<noteq> Status_Set then None else Some (ef\<lparr>m_bits := m_bits ef AND bits\<rparr>))"

text \<open>The number of waiting threads, and the flag with every waiter released.\<close>

definition Cancel_try :: "u64 \<Rightarrow> EventFlagInternal \<Rightarrow> (int \<times> EventFlagInternal) option" where
  "Cancel_try setPattern ef =
     (if m_status ef \<noteq> Status_Set then None
      else Some (m_waiting_threads ef,
        ef_notify_all (ef\<lparr>m_status := Status_Canceled, m_bits := setPattern\<rparr>)))"

definition Cancel_drain :: "EventFlagInternal \<Rightarrow> EventFlagInternal option" where
  "Cancel_drain ef =
     (if m_waiting_threads ef > 0 then None else Some (ef\<lparr>m_status := Status_Set\<rparr>))"

subsection \<open>The system calls\<close>

definition decode_wait_mode :: "u32 \<Rightarrow> WaitMode" where
  "decode_wait_mode waitMode =
     (if waitMode AND 0xf = 0x01 then Wait_And
      else if waitMode AND 0xf = 0x02 then Wait_Or else Wait_And)"

definition decode_clear_mode :: "u32 \<Rightarrow> ClearMode" where
  "decode_clear_mode waitMode =
     (if waitMode AND 0xf0 = 0x00 then Clear_None
      else if waitMode AND 0xf0 = 0x10 then Clear_All
      else if waitMode AND 0xf0 = 0x20 then Clear_Bits else Clear_None)"

text \<open>The checks in front of a wait or a poll: an error, or the decoded modes.\<close>

definition check_wait :: "bool \<Rightarrow> u64 \<Rightarrow> u32 \<Rightarrow> s32 + WaitMode \<times> ClearMode" where
  "check_wait ef_null bitPattern waitMode =
     (if ef_null then Inl EF_ESRCH
      else if bitPattern = 0 then Inl EF_EINVAL
      else Inr (decode_wait_mode waitMode, decode_clear_mode waitMode))"

definition sceKernelCreateEventFlag :: "bool \<Rightarrow> string option \<Rightarrow> u32 \<Rightarrow> u64 \<Rightarrow> bool
    \<Rightarrow> s32 + EventFlagInternal" where
  "sceKernelCreateEventFlag ef_null pName attr initPattern pOptParam_null =
     (case pName of
        None \<Rightarrow> Inl EF_EINVAL
      | Some name \<Rightarrow>
          (if ef_null then Inl EF_EINVAL
           else if \<not> pOptParam_null \<or> attr > 0x22 then Inl EF_EINVAL
           else if List.length name \<ge> 32 then Inl EF_ENAMETOOLONG
           else let queue_mode = (if attr AND 0xf = 0x01 then Queue_Fifo
                                  else if attr AND 0xf = 0x02 then Queue_ThreadPrio
                                  else Queue_Fifo);
                    thread_mode = (if attr AND 0xf0 = 0x10 then Thread_Single
                                   else if attr AND 0xf0 = 0x20 then Thread_Multi
                                   else Thread_Single)
                in Inr (EventFlag_new name thread_mode queue_mode initPattern)))"

text \<open>Destroying a flag whose mutex and condition variable are in use is undefined.\<close>

definition sceKernelDeleteEventFlag :: "EventFlagInternal option \<Rightarrow> s32 option" where
  "sceKernelDeleteEventFlag ef =
     (case ef of
        None \<Rightarrow> Some EF_ESRCH
      | Some ef \<Rightarrow> (if m_waiting_threads ef > 0 then None else Some EF_OK))"

subsection \<open>Threads\<close>

text \<open>
  Where a thread stands: outside, blocked in a wait (with or without a time limit), trying
  again, or draining the waiters of its cancellation.  A blocked thread looks at its predicate when
  it no longer sleeps on the condition variable or its time is up; if the predicate does not hold it
  falls asleep again (\<open>wait_again\<close>) or gives up (\<open>wait_expire\<close>).  It may also wake up for no reason
  (\<open>wait_spurious\<close>), which nothing may rely on.
\<close>

datatype ef_thread =
    Outside
  | Blocked bool u64 WaitMode ClearMode
  | Retry_Set u64
  | Retry_Clear u64
  | Retry_Cancel u64
  | Draining int

text \<open>What a step shows to the caller: the thread and the result it returns, if it returns.\<close>

datatype ef_event =
    Silent
  | Wait_returns s32 u64 WaitMode ClearMode "u64 option"
  | Set_returns u64
  | Clear_returns u64
  | Cancel_returns int

type_synonym ef_state = "EventFlagInternal \<times> (nat \<Rightarrow> ef_thread)"

inductive ef_step :: "ef_state \<Rightarrow> nat \<Rightarrow> ef_event \<Rightarrow> ef_state \<Rightarrow> bool" where
  wait_now: "\<lbrakk>ts t = Outside; Wait_enter bits wm cm ef = Inl (ret, result, ef')\<rbrakk> \<Longrightarrow>
     ef_step (ef, ts) t (Wait_returns ret bits wm cm result) (ef', ts)"
| wait_block: "\<lbrakk>ts t = Outside; Wait_enter bits wm cm ef = Inr ef'\<rbrakk> \<Longrightarrow>
     ef_step (ef, ts) t Silent (fall_asleep t ef', ts(t := Blocked timed bits wm cm))"
| wait_spurious: "\<lbrakk>ts t = Blocked timed bits wm cm; t \<in> m_cond_var ef\<rbrakk> \<Longrightarrow>
     ef_step (ef, ts) t Silent (awake t ef, ts)"
| wait_again: "\<lbrakk>ts t = Blocked timed bits wm cm; t \<notin> m_cond_var ef; \<not> waitFunc ef wm bits\<rbrakk> \<Longrightarrow>
     ef_step (ef, ts) t Silent (fall_asleep t ef, ts)"
| wait_wake: "\<lbrakk>ts t = Blocked timed bits wm cm; timed \<or> t \<notin> m_cond_var ef; waitFunc ef wm bits;
     Wait_finish bits cm (awake t ef) = (ret, result, ef')\<rbrakk> \<Longrightarrow>
     ef_step (ef, ts) t (Wait_returns ret bits wm cm (Some result)) (ef', ts(t := Outside))"
| wait_expire: "\<lbrakk>ts t = Blocked True bits wm cm; \<not> waitFunc ef wm bits;
     Wait_timeout (awake t ef) = (ret, result, ef')\<rbrakk> \<Longrightarrow>
     ef_step (ef, ts) t (Wait_returns ret bits wm cm (Some result)) (ef', ts(t := Outside))"
| set_now: "\<lbrakk>ts t = Outside \<or> ts t = Retry_Set bits; Set_try bits ef = Some ef'\<rbrakk> \<Longrightarrow>
     ef_step (ef, ts) t (Set_returns bits) (ef', ts(t := Outside))"
| set_retry: "\<lbrakk>ts t = Outside; Set_try bits ef = None\<rbrakk> \<Longrightarrow>
     ef_step (ef, ts) t Silent (ef, ts(t := Retry_Set bits))"
| clear_now: "\<lbrakk>ts t = Outside \<or> ts t = Retry_Clear bits; Clear_try bits ef = Some ef'\<rbrakk> \<Longrightarrow>
     ef_step (ef, ts) t (Clear_returns bits) (ef', ts(t := Outside))"
| clear_retry: "\<lbrakk>ts t = Outside; Clear_try bits ef = None\<rbrakk> \<Longrightarrow>
     ef_step (ef, ts) t Silent (ef, ts(t := Retry_Clear bits))"
| cancel_now: "\<lbrakk>ts t = Outside \<or> ts t = Retry_Cancel setPattern;
     Cancel_try setPattern ef = Some (n, ef'); Cancel_drain ef' = Some ef''\<rbrakk> \<Longrightarrow>
     ef_step (ef, ts) t (Cancel_returns n) (ef'', ts(t := Outside))"
| cancel_wait: "\<lbrakk>ts t = Outside \<or> ts t = Retry_Cancel setPattern;
     Cancel_try setPattern ef = Some (n, ef'); Cancel_drain ef' = None\<rbrakk> \<Longrightarrow>
     ef_step (ef, ts) t Silent (ef', ts(t := Draining n))"
| cancel_retry: "\<lbrakk>ts t = Outside; Cancel_try setPattern ef = None\<rbrakk> \<Longrightarrow>
     ef_step (ef, ts) t Silent (ef, ts(t := Retry_Cancel setPattern))"
| cancel_done: "\<lbrakk>ts t = Draining n; Cancel_drain ef = Some ef'\<rbrakk> \<Longrightarrow>
     ef_step (ef, ts) t (Cancel_returns n) (ef', ts(t := Outside))"

inductive ef_reachable :: "ef_state \<Rightarrow> bool" where
  init: "ef_reachable (EventFlag_new name tm qm bits, \<lambda>_. Outside)"
| step: "ef_reachable s \<Longrightarrow> ef_step s t e s' \<Longrightarrow> ef_reachable s'"

inductive_cases ef_stepE: "ef_step s t e s'"

subsection \<open>The invariant\<close>

definition blocked :: "(nat \<Rightarrow> ef_thread) \<Rightarrow> nat set" where
  "blocked ts = {t. \<exists>timed bits wm cm. ts t = Blocked timed bits wm cm}"

definition draining :: "(nat \<Rightarrow> ef_thread) \<Rightarrow> nat set" where
  "draining ts = {t. \<exists>n. ts t = Draining n}"

text \<open>
  The counter is the number of blocked threads, one at most in single mode; a cancellation is
  in progress exactly while one thread drains it, and while it is nobody sleeps: every waiting
  thread has been notified.
\<close>

definition ef_inv :: "ef_state \<Rightarrow> bool" where
  "ef_inv s \<longleftrightarrow>
     finite (blocked (snd s)) \<and> m_waiting_threads (fst s) = int (card (blocked (snd s))) \<and>
     (m_thread_mode (fst s) = Thread_Single \<longrightarrow> m_waiting_threads (fst s) \<le> 1) \<and>
     m_status (fst s) \<noteq> Status_Deleted \<and>
     (m_status (fst s) = Status_Set \<longrightarrow> draining (snd s) = {}) \<and>
     (m_status (fst s) = Status_Canceled \<longrightarrow> (\<exists>t. draining (snd s) = {t})) \<and>
     m_cond_var (fst s) \<subseteq> blocked (snd s) \<and>
     (m_status (fst s) = Status_Canceled \<longrightarrow> m_cond_var (fst s) = {})"

lemma awake_fields [simp]:
  "m_bits (awake t ef) = m_bits ef" "m_status (awake t ef) = m_status ef"
  by (simp_all add: awake_def)

lemmas sleep_defs = ef_notify_all_def fall_asleep_def awake_def

lemmas ef_method_defs = sleep_defs Wait_enter_def Wait_finish_def Wait_timeout_def waitFunc_def Set_try_def
  Clear_try_def Cancel_try_def Cancel_drain_def Let_def

lemma blocked_upd [simp]:
  "blocked (ts(t := Blocked a b c d)) = insert t (blocked ts)"
  "blocked (ts(t := Outside)) = blocked ts - {t}" "blocked (ts(t := Retry_Set b)) = blocked ts - {t}"
  "blocked (ts(t := Retry_Clear b)) = blocked ts - {t}"
  "blocked (ts(t := Retry_Cancel b)) = blocked ts - {t}"
  "blocked (ts(t := Draining n)) = blocked ts - {t}"
  by (auto simp: blocked_def)

lemma draining_upd [simp]:
  "draining (ts(t := Blocked a b c d)) = draining ts - {t}"
  "draining (ts(t := Outside)) = draining ts - {t}" "draining (ts(t := Retry_Set b)) = draining ts - {t}"
  "draining (ts(t := Retry_Clear b)) = draining ts - {t}"
  "draining (ts(t := Retry_Cancel b)) = draining ts - {t}"
  "draining (ts(t := Draining n)) = insert t (draining ts)"
  by (auto simp: draining_def)

lemma blocked_iff:
  "ts t = Blocked a b c d \<Longrightarrow> t \<in> blocked ts" "ts t = Outside \<Longrightarrow> t \<notin> blocked ts"
  "ts t = Retry_Set bits \<Longrightarrow> t \<notin> blocked ts" "ts t = Retry_Clear bits \<Longrightarrow> t \<notin> blocked ts"
  "ts t = Retry_Cancel bits \<Longrightarrow> t \<notin> blocked ts" "ts t = Draining n \<Longrightarrow> t \<notin> blocked ts"
  by (auto simp: blocked_def)

lemma draining_iff:
  "ts t = Blocked a b c d \<Longrightarrow> t \<notin> draining ts" "ts t = Outside \<Longrightarrow> t \<notin> draining ts"
  "ts t = Retry_Set bits \<Longrightarrow> t \<notin> draining ts" "ts t = Retry_Clear bits \<Longrightarrow> t \<notin> draining ts"
  "ts t = Retry_Cancel bits \<Longrightarrow> t \<notin> draining ts" "ts t = Draining n \<Longrightarrow> t \<in> draining ts"
  by (auto simp: draining_def)

lemma card_less_one: "finite A \<Longrightarrow> t \<in> A \<Longrightarrow> int (card (A - {t})) = int (card A) - 1"
  using card_Suc_Diff1 [of A t] by linarith

lemma Wait_finish_fields:
  assumes "Wait_finish bits cm ef = (ret, result, ef')"
  shows "m_waiting_threads ef' = m_waiting_threads ef - 1" "m_status ef' = m_status ef"
    "m_thread_mode ef' = m_thread_mode ef" "m_cond_var ef' = m_cond_var ef" "result = m_bits ef"
    "ret = EF_OK \<Longrightarrow> m_status ef = Status_Set \<and> m_bits ef' = (case cm of Clear_None \<Rightarrow> m_bits ef
      | Clear_All \<Rightarrow> 0 | Clear_Bits \<Rightarrow> m_bits ef AND NOT bits)"
  using assms
  by (auto simp: Wait_finish_def Let_def ef_error_defs split: if_splits ClearMode.splits)
     (cases "m_status ef"; auto)+

lemma Wait_finish_success:
  assumes "Wait_finish bits cm (awake t ef) = (EF_OK, result, ef')"
  shows "m_status ef = Status_Set" "result = m_bits ef"
    "m_bits ef' = (case cm of Clear_None \<Rightarrow> m_bits ef | Clear_All \<Rightarrow> 0 | Clear_Bits \<Rightarrow> m_bits ef AND NOT bits)"
  using Wait_finish_fields [OF assms] by (simp_all split: ClearMode.splits)

lemma Wait_enter_through:
  assumes "Wait_enter bits wm cm ef = Inl (ret, result, ef')"
  shows "m_waiting_threads ef' = m_waiting_threads ef" "m_status ef' = m_status ef"
    "m_thread_mode ef' = m_thread_mode ef" "m_cond_var ef' = m_cond_var ef"
    "ret = EF_OK \<Longrightarrow> waitFunc ef wm bits \<and> result = Some (m_bits ef) \<and> m_status ef = Status_Set \<and>
      m_bits ef' = (case cm of Clear_None \<Rightarrow> m_bits ef | Clear_All \<Rightarrow> 0 | Clear_Bits \<Rightarrow> m_bits ef AND NOT bits)"
proof -
  let ?ef = "ef\<lparr>m_waiting_threads := m_waiting_threads ef + 1\<rparr>"
  obtain r x e where f: "Wait_finish bits cm ?ef = (r, x, e)" by (metis prod_cases3)
  have w: "waitFunc ?ef wm bits = waitFunc ef wm bits" by (simp add: waitFunc_def)
  consider "ret = EF_EPERM" "ef' = ef" | "waitFunc ef wm bits" "ret = r" "result = Some x" "ef' = e"
    using assms f w by (auto simp: Wait_enter_def Let_def split: if_splits)
  then have "m_waiting_threads ef' = m_waiting_threads ef \<and> m_status ef' = m_status ef \<and>
    m_thread_mode ef' = m_thread_mode ef \<and> m_cond_var ef' = m_cond_var ef \<and>
    (ret = EF_OK \<longrightarrow> waitFunc ef wm bits \<and> result = Some (m_bits ef) \<and> m_status ef = Status_Set \<and>
      m_bits ef' = (case cm of Clear_None \<Rightarrow> m_bits ef | Clear_All \<Rightarrow> 0 | Clear_Bits \<Rightarrow> m_bits ef AND NOT bits))"
    using Wait_finish_fields [OF f] by cases (auto simp: ef_error_defs split: ClearMode.splits)
  then show "m_waiting_threads ef' = m_waiting_threads ef" "m_status ef' = m_status ef"
    "m_thread_mode ef' = m_thread_mode ef" "m_cond_var ef' = m_cond_var ef"
    "ret = EF_OK \<Longrightarrow> waitFunc ef wm bits \<and> result = Some (m_bits ef) \<and> m_status ef = Status_Set \<and>
      m_bits ef' = (case cm of Clear_None \<Rightarrow> m_bits ef | Clear_All \<Rightarrow> 0 | Clear_Bits \<Rightarrow> m_bits ef AND NOT bits)"
    by blast+
qed

lemma ef_step_inv:
  assumes "ef_step s t e s'" "ef_inv s"
  shows "ef_inv s'"
  using assms
proof (induction rule: ef_step.induct)
  case (wait_now ts t bits wm cm ef ret result ef')
  then show ?case using Wait_enter_through [OF wait_now.hyps(2)] by (auto simp: ef_inv_def)
next
  case (wait_block ts t bits wm cm ef ef' timed)
  then show ?case
    by (auto simp: ef_inv_def Wait_enter_def waitFunc_def fall_asleep_def Let_def blocked_iff draining_iff
        split: if_splits prod.splits)
next
  case (wait_spurious ts t timed bits wm cm ef)
  then show ?case by (auto simp: ef_inv_def awake_def)
next
  case (wait_again ts t timed bits wm cm ef)
  then show ?case by (auto simp: ef_inv_def fall_asleep_def waitFunc_def blocked_iff)
next
  case (wait_wake ts t timed bits wm cm ef ret result ef')
  have b: "t \<in> blocked ts" "t \<notin> draining ts"
    using wait_wake.hyps(1) by (auto simp: blocked_iff draining_iff)
  then have "finite (blocked ts) \<Longrightarrow> int (card (blocked ts - {t})) = int (card (blocked ts)) - 1"
    by (simp only: card_less_one)
  moreover have "m_thread_mode ef = Thread_Single \<longrightarrow> m_waiting_threads ef - 1 \<le> 1"
    using wait_wake.prems by (auto simp: ef_inv_def)
  ultimately show ?case
    using wait_wake.prems b Wait_finish_fields(1-4) [OF wait_wake.hyps(4)] by (auto simp: ef_inv_def awake_def)
next
  case (wait_expire ts t bits wm cm ef ret result ef')
  have b: "t \<in> blocked ts" "t \<notin> draining ts"
    using wait_expire.hyps(1) by (auto simp: blocked_iff draining_iff)
  then have "finite (blocked ts) \<Longrightarrow> int (card (blocked ts - {t})) = int (card (blocked ts)) - 1"
    by (simp only: card_less_one)
  moreover have "m_thread_mode ef = Thread_Single \<longrightarrow> m_waiting_threads ef - 1 \<le> 1"
    using wait_expire.prems by (auto simp: ef_inv_def)
  moreover have "ef' = awake t ef\<lparr>m_waiting_threads := m_waiting_threads ef - 1\<rparr>"
    using wait_expire.hyps(3) by (simp add: Wait_timeout_def awake_def)
  ultimately show ?case using wait_expire.prems b by (auto simp: ef_inv_def awake_def)
next
  case (cancel_done ts t n ef ef')
  have t: "t \<in> draining ts" "t \<notin> blocked ts"
    using cancel_done.hyps(1) by (auto simp: blocked_iff draining_iff)
  then have "m_status ef = Status_Canceled"
    using cancel_done.prems by (cases "m_status ef") (auto simp: ef_inv_def)
  then have "draining ts = {t}" using t cancel_done.prems by (auto simp: ef_inv_def)
  with cancel_done t show ?case by (auto simp: ef_inv_def Cancel_drain_def split: if_splits)
qed (auto simp: ef_inv_def Set_try_def Clear_try_def Cancel_try_def Cancel_drain_def ef_notify_all_def blocked_iff
    draining_iff split: if_splits)

lemma ef_inv_reachable: "ef_reachable s \<Longrightarrow> ef_inv s"
proof (induction rule: ef_reachable.induct)
  case (init name tm qm bits)
  show ?case by (simp add: ef_inv_def EventFlag_new_def blocked_def draining_def)
next
  case (step s t e s')
  then show ?case by (blast intro: ef_step_inv)
qed

text \<open>
  C16: in every reachable state the counter of waiting threads is their number, a flag in single
  mode has at most one of them, and a cancellation is in progress exactly while one thread
  drains it.
\<close>

theorem ef_waiting_threads_exact:
  assumes "ef_reachable (ef, ts)"
  shows "finite (blocked ts) \<and> m_waiting_threads ef = int (card (blocked ts)) \<and>
    (m_thread_mode ef = Thread_Single \<longrightarrow> card (blocked ts) \<le> 1) \<and>
    (m_status ef = Status_Canceled \<longleftrightarrow> (\<exists>t. draining ts = {t})) \<and>
    (m_status ef = Status_Set \<longleftrightarrow> draining ts = {})"
proof -
  have i: "ef_inv (ef, ts)" using assms by (rule ef_inv_reachable)
  show ?thesis
  proof (cases "m_status ef")
    case Status_Set
    with i show ?thesis by (auto simp: ef_inv_def)
  next
    case Status_Canceled
    with i obtain t where "draining ts = {t}" by (auto simp: ef_inv_def)
    with i Status_Canceled show ?thesis by (auto simp: ef_inv_def)
  next
    case Status_Deleted
    with i show ?thesis by (simp add: ef_inv_def)
  qed
qed

text \<open>A thread waits for a pattern, and a second one cancels: a reachable state with a waiting thread.\<close>

definition ef_demo :: EventFlagInternal where
  "ef_demo = (EventFlag_new ''evf'' Thread_Multi Queue_Fifo 0)\<lparr>m_waiting_threads := 1, m_status := Status_Canceled,
     m_bits := 9\<rparr>"

definition ef_demo_threads :: "nat \<Rightarrow> ef_thread" where
  "ef_demo_threads = (\<lambda>_. Outside)(0 := Blocked False 4 Wait_And Clear_None, 1 := Draining 1)"

lemma ef_demo_reachable: "ef_reachable (ef_demo, ef_demo_threads)"
proof -
  let ?ef = "EventFlag_new ''evf'' Thread_Multi Queue_Fifo 0"
  let ?w = "?ef\<lparr>m_waiting_threads := 1, m_cond_var := {0}\<rparr>"
  let ?ts = "(\<lambda>_. Outside)(0 := Blocked False 4 Wait_And Clear_None)"
  have "ef_step (?ef, \<lambda>_. Outside) 0 Silent (fall_asleep 0 (?ef\<lparr>m_waiting_threads := 1\<rparr>), ?ts)"
    by (rule ef_step.wait_block) (simp_all add: ef_method_defs EventFlag_new_def pattern_met_def)
  then have "ef_step (?ef, \<lambda>_. Outside) 0 Silent (?w, ?ts)" by (simp add: fall_asleep_def EventFlag_new_def)
  moreover have "ef_step (?w, ?ts) 1 Silent (ef_demo, ef_demo_threads)"
    unfolding ef_demo_threads_def
    by (rule ef_step.cancel_wait [where setPattern = 9])
       (simp_all add: ef_method_defs EventFlag_new_def ef_demo_def)
  ultimately show ?thesis by (blast intro: ef_reachable.intros)
qed

lemma ef_demo_blocked: "blocked ef_demo_threads = {0}" "draining ef_demo_threads = {1}"
  by (auto simp: blocked_def draining_def ef_demo_threads_def)

lemma ef_waiting_threads_exact_witness:
  "m_waiting_threads ef_demo = 1 \<and> card (blocked ef_demo_threads) = 1 \<and> m_status ef_demo = Status_Canceled"
  using ef_waiting_threads_exact [OF ef_demo_reachable] by (auto simp: ef_demo_blocked)

text \<open>
  A wait that returns success found its pattern in the bits it reports, and leaves exactly
  the bits its clear mode asks for.
\<close>

theorem Wait_success:
  assumes "ef_step (ef, ts) t (Wait_returns EF_OK bits wm cm result) (ef', ts')"
  shows "m_status ef = Status_Set \<and> result = Some (m_bits ef) \<and> pattern_met wm bits (m_bits ef) \<and>
    m_bits ef' = (case cm of Clear_None \<Rightarrow> m_bits ef | Clear_All \<Rightarrow> 0
      | Clear_Bits \<Rightarrow> m_bits ef AND NOT bits)"
  using assms
  by (cases rule: ef_stepE)
     (auto simp: waitFunc_def Wait_timeout_def ef_error_defs
       dest: Wait_finish_success [unfolded EF_OK_def] Wait_enter_through)

lemma Wait_success_witness:
  "pattern_met Wait_Or 6 (5 :: u64) \<and>
   ef_step (EventFlag_new ''evf'' Thread_Multi Queue_Fifo 5, \<lambda>_. Outside) 0
     (Wait_returns EF_OK 6 Wait_Or Clear_Bits (Some 5))
     (EventFlag_new ''evf'' Thread_Multi Queue_Fifo 1, \<lambda>_. Outside)"
proof -
  have s: "ef_step (EventFlag_new ''evf'' Thread_Multi Queue_Fifo 5, \<lambda>_. Outside) 0
     (Wait_returns EF_OK 6 Wait_Or Clear_Bits (Some 5))
     (EventFlag_new ''evf'' Thread_Multi Queue_Fifo 1, \<lambda>_. Outside)"
    by (rule ef_step.wait_now)
       (simp_all add: ef_method_defs EventFlag_new_def pattern_met_def ef_error_defs)
  from Wait_success [OF s] s show ?thesis by (simp add: EventFlag_new_def)
qed

subsection \<open>Cancellation\<close>

inductive ef_run :: "ef_state \<Rightarrow> nat \<Rightarrow> ef_state \<Rightarrow> bool" where
  stop: "ef_run s 0 s"
| more: "ef_step s t e s' \<Longrightarrow> ef_run s' n s'' \<Longrightarrow> ef_run s (Suc n) s''"

text \<open>While it goes on, a waiting thread can only return, and the draining one only end it.\<close>

lemma canceled_wait_returns:
  assumes "ef_inv (ef, ts)" "m_status ef = Status_Canceled" "t \<in> blocked ts"
  shows "\<exists>bits wm cm. ef_step (ef, ts) t (Wait_returns EF_ECANCELED bits wm cm (Some (m_bits ef)))
      (ef\<lparr>m_waiting_threads := m_waiting_threads ef - 1\<rparr>, ts(t := Outside))"
proof -
  from assms(3) obtain timed bits wm cm where t: "ts t = Blocked timed bits wm cm" by (auto simp: blocked_def)
  have e: "m_cond_var ef = {}" using assms(1,2) by (auto simp: ef_inv_def)
  then have "awake t ef = ef" by (simp add: awake_def)
  with t e assms(2) show ?thesis
    by (intro exI, intro ef_step.wait_wake) (auto simp: waitFunc_def Wait_finish_def Let_def)
qed

lemma canceled_wait_step:
  assumes "ef_inv (ef, ts)" "m_status ef = Status_Canceled" "t \<in> blocked ts" "ef_step (ef, ts) t e (ef', ts')"
  shows "(\<exists>bits wm cm. e = Wait_returns EF_ECANCELED bits wm cm (Some (m_bits ef))) \<and>
    blocked ts' = blocked ts - {t} \<and> m_status ef' = Status_Canceled \<and> m_bits ef' = m_bits ef"
proof -
  from assms(3) obtain timed bits wm cm where t: "ts t = Blocked timed bits wm cm" by (auto simp: blocked_def)
  have e: "m_cond_var ef = {}" using assms(1,2) by (auto simp: ef_inv_def)
  from assms(4) show ?thesis
    by (cases rule: ef_stepE) (use t e assms(2) in \<open>auto simp: waitFunc_def Wait_finish_def Let_def awake_def\<close>)
qed

lemma canceled_drain_step:
  assumes "ef_inv (ef, ts)" "m_status ef = Status_Canceled" "d \<in> draining ts" "blocked ts = {}"
  shows "\<exists>n. ef_step (ef, ts) d (Cancel_returns n) (ef\<lparr>m_status := Status_Set\<rparr>, ts(d := Outside))"
proof -
  from assms(3) obtain n where d: "ts d = Draining n" by (auto simp: draining_def)
  have "m_waiting_threads ef = 0" using assms(1,4) by (simp add: ef_inv_def)
  with d show ?thesis by (intro exI [of _ n] ef_step.cancel_done) (auto simp: Cancel_drain_def)
qed

lemma canceled_other_step:
  assumes "m_status ef = Status_Canceled" "t \<notin> blocked ts" "blocked ts \<noteq> {}" "ef_inv (ef, ts)"
    "ef_step (ef, ts) t e (ef', ts')"
  shows "blocked ts' = blocked ts \<and> m_status ef' = Status_Canceled \<and> m_bits ef' = m_bits ef"
proof -
  have "m_waiting_threads ef > 0" using assms(3,4) by (auto simp: ef_inv_def card_gt_0_iff)
  then show ?thesis using assms(5)
    by (cases rule: ef_stepE) (use assms(1,2) in \<open>auto simp: ef_method_defs blocked_iff split: if_splits\<close>)
qed

lemma drain_run:
  assumes "ef_inv (ef, ts)" "m_status ef = Status_Canceled" "card (blocked ts) = n"
  shows "\<exists>ef' ts'. ef_run (ef, ts) (n + 1) (ef', ts') \<and> m_status ef' = Status_Set \<and> blocked ts' = {} \<and>
    m_bits ef' = m_bits ef"
  using assms
proof (induction n arbitrary: ef ts)
  case 0
  then have e: "blocked ts = {}" and "\<exists>d. draining ts = {d}" by (auto simp: ef_inv_def)
  then obtain d where d: "d \<in> draining ts" by blast
  obtain n where "ef_step (ef, ts) d (Cancel_returns n) (ef\<lparr>m_status := Status_Set\<rparr>, ts(d := Outside))"
    using canceled_drain_step [OF 0(1,2) d e] by blast
  then have "ef_run (ef, ts) (0 + 1) (ef\<lparr>m_status := Status_Set\<rparr>, ts(d := Outside))"
    by (auto intro: ef_run.intros)
  moreover have "blocked (ts(d := Outside)) = {}" using e by simp
  ultimately show ?case
    by (intro exI [of _ "ef\<lparr>m_status := Status_Set\<rparr>"] exI [of _ "ts(d := Outside)"]) (simp only:, simp)
next
  case (Suc n)
  then obtain t where t: "t \<in> blocked ts" by (metis card.empty ex_in_conv nat.distinct(1))
  let ?ef = "ef\<lparr>m_waiting_threads := m_waiting_threads ef - 1\<rparr>" and ?ts = "ts(t := Outside)"
  obtain e where s: "ef_step (ef, ts) t e (?ef, ?ts)" using canceled_wait_returns [OF Suc.prems(1,2) t] by blast
  have "card (blocked ?ts) = n" using Suc.prems t by (auto simp: ef_inv_def)
  moreover have "m_status ?ef = Status_Canceled" using Suc.prems(2) by simp
  ultimately obtain ef' ts' where "ef_run (?ef, ?ts) (n + 1) (ef', ts')" "m_status ef' = Status_Set"
    "blocked ts' = {}" "m_bits ef' = m_bits ?ef" using Suc.IH [OF ef_step_inv [OF s Suc.prems(1)]] by blast
  moreover have "m_bits ?ef = m_bits ef" by simp
  ultimately show ?case using s by (metis Suc_eq_plus1 ef_run.more)
qed

text \<open>
  C17: a cancellation comes to an end once every waiting thread and then the cancelling one has had
  its turn.  In any reachable state in which one is in progress every waiting thread can take a step
  without being notified once more, and whatever step it takes is its return with the error for a
  cancelled wait; no step of another thread adds or removes a waiting thread, changes the bits or
  ends the cancellation before nobody waits any more; and when nobody waits the step of the draining
  thread makes the flag usable again.  So one step for each waiting thread and one more end it.
\<close>

theorem Cancel_terminates:
  assumes "ef_reachable (ef, ts)" "m_status ef = Status_Canceled"
  shows "(\<forall>t \<in> blocked ts. (\<exists>e s'. ef_step (ef, ts) t e s') \<and>
      (\<forall>e ef' ts'. ef_step (ef, ts) t e (ef', ts') \<longrightarrow>
        (\<exists>bits wm cm. e = Wait_returns EF_ECANCELED bits wm cm (Some (m_bits ef))) \<and>
        blocked ts' = blocked ts - {t} \<and> m_status ef' = Status_Canceled \<and> m_bits ef' = m_bits ef)) \<and>
    (blocked ts \<noteq> {} \<longrightarrow> (\<forall>t e ef' ts'. t \<notin> blocked ts \<longrightarrow> ef_step (ef, ts) t e (ef', ts') \<longrightarrow>
        blocked ts' = blocked ts \<and> m_status ef' = Status_Canceled \<and> m_bits ef' = m_bits ef)) \<and>
    (blocked ts = {} \<longrightarrow> (\<forall>d \<in> draining ts. \<exists>n.
        ef_step (ef, ts) d (Cancel_returns n) (ef\<lparr>m_status := Status_Set\<rparr>, ts(d := Outside)))) \<and>
    (\<exists>ef' ts'. ef_run (ef, ts) (card (blocked ts) + 1) (ef', ts') \<and>
      m_status ef' = Status_Set \<and> blocked ts' = {} \<and> m_bits ef' = m_bits ef)"
proof -
  have i: "ef_inv (ef, ts)" using assms(1) by (rule ef_inv_reachable)
  note w = canceled_wait_step [OF i assms(2)]
  show ?thesis
  proof (intro conjI)
    show "\<forall>t \<in> blocked ts. (\<exists>e s'. ef_step (ef, ts) t e s') \<and>
      (\<forall>e ef' ts'. ef_step (ef, ts) t e (ef', ts') \<longrightarrow>
        (\<exists>bits wm cm. e = Wait_returns EF_ECANCELED bits wm cm (Some (m_bits ef))) \<and>
        blocked ts' = blocked ts - {t} \<and> m_status ef' = Status_Canceled \<and> m_bits ef' = m_bits ef)"
      using canceled_wait_returns [OF i assms(2)] w by meson
    show "blocked ts \<noteq> {} \<longrightarrow> (\<forall>t e ef' ts'. t \<notin> blocked ts \<longrightarrow> ef_step (ef, ts) t e (ef', ts') \<longrightarrow>
        blocked ts' = blocked ts \<and> m_status ef' = Status_Canceled \<and> m_bits ef' = m_bits ef)"
      using canceled_other_step [OF assms(2) _ _ i] by blast
    show "blocked ts = {} \<longrightarrow> (\<forall>d \<in> draining ts. \<exists>n.
        ef_step (ef, ts) d (Cancel_returns n) (ef\<lparr>m_status := Status_Set\<rparr>, ts(d := Outside)))"
      using canceled_drain_step [OF i assms(2)] by blast
    show "\<exists>ef' ts'. ef_run (ef, ts) (card (blocked ts) + 1) (ef', ts') \<and>
      m_status ef' = Status_Set \<and> blocked ts' = {} \<and> m_bits ef' = m_bits ef"
      by (rule drain_run [OF i assms(2) HOL.refl])
  qed
qed

lemma Cancel_terminates_witness:
  "(\<exists>e s'. ef_step (ef_demo, ef_demo_threads) 0 e s') \<and>
   (\<exists>ef' ts'. ef_run (ef_demo, ef_demo_threads) 2 (ef', ts') \<and> m_status ef' = Status_Set \<and> m_bits ef' = 9)"
proof -
  have "m_status ef_demo = Status_Canceled" "m_bits ef_demo = 9" by (simp_all add: ef_demo_def)
  with Cancel_terminates [OF ef_demo_reachable this(1)] show ?thesis
    by (auto simp: ef_demo_blocked numeral_2_eq_2)
qed

end
