(* ===== verification/Posix_Error.thy ===== *)
theory Posix_Error
  imports Prelude
begin

section \<open>Error codes of the POSIX calls\<close>

text \<open>
  The codes of \<^verbatim>\<open>core/libraries/kernel/posix_error.h\<close> the thread library uses, and the time of a
  deadline, \<^verbatim>\<open>OrbisKernelTimespec\<close> of \<^verbatim>\<open>core/libraries/kernel/time.h\<close>.
\<close>

definition POSIX_EPERM :: s32 where "POSIX_EPERM = 1"
definition POSIX_ESRCH :: s32 where "POSIX_ESRCH = 3"
definition POSIX_EDEADLK :: s32 where "POSIX_EDEADLK = 11"
definition POSIX_ENOMEM :: s32 where "POSIX_ENOMEM = 12"
definition POSIX_EBUSY :: s32 where "POSIX_EBUSY = 16"
definition POSIX_EINVAL :: s32 where "POSIX_EINVAL = 22"
definition POSIX_EAGAIN :: s32 where "POSIX_EAGAIN = 35"
definition POSIX_ENOTSUP :: s32 where "POSIX_ENOTSUP = 45"
definition POSIX_ETIMEDOUT :: s32 where "POSIX_ETIMEDOUT = 60"
definition POSIX_EOVERFLOW :: s32 where "POSIX_EOVERFLOW = 84"

lemmas posix_error_defs = POSIX_EPERM_def POSIX_ESRCH_def POSIX_EDEADLK_def POSIX_ENOMEM_def POSIX_EBUSY_def
  POSIX_EINVAL_def POSIX_EAGAIN_def POSIX_ENOTSUP_def POSIX_ETIMEDOUT_def POSIX_EOVERFLOW_def

record OrbisKernelTimespec =
  tv_sec :: s64
  tv_nsec :: s64

definition bad_nsec :: "OrbisKernelTimespec \<Rightarrow> bool" where
  "bad_nsec ts \<longleftrightarrow> sint (tv_nsec ts) < 0 \<or> 1000000000 \<le> sint (tv_nsec ts)"

end
