(* ===== verification/Semaphore.thy ===== *)
theory Semaphore
  imports Posix_Error "HOL-Library.Multiset" "HOL-Library.Sublist"
begin

section \<open>Semaphores\<close>

text \<open>
  \<^verbatim>\<open>core/libraries/kernel/threads/semaphore.cpp\<close>: the counting semaphore \<^verbatim>\<open>OrbisSem\<close> with its
  ordered list of waiting threads, the system calls on it, and the POSIX semaphore.

  Every method runs under the semaphore's mutex up to the point where a waiter sleeps on its
  own binary semaphore.  A method is a function on the semaphore; the threads it wakes are
  part of its result.  A waiter is known by the thread that owns it.
\<close>

definition SEM_OK :: s32 where "SEM_OK = 0"
definition SEM_ESRCH :: s32 where "SEM_ESRCH = 0x80020003"
definition SEM_EBUSY :: s32 where "SEM_EBUSY = 0x80020010"
definition SEM_EINVAL :: s32 where "SEM_EINVAL = 0x80020016"
definition SEM_ETIMEDOUT :: s32 where "SEM_ETIMEDOUT = 0x8002003C"


record WaitingThread =
  w_thread :: nat
  w_priority :: u32
  w_need_count :: s32

record OrbisSem =
  wait_list :: "WaitingThread list"
  sem_name :: string
  token_count :: s32
  max_count :: s32
  init_count :: s32
  is_fifo :: bool

definition OrbisSem_new :: "s32 \<Rightarrow> s32 \<Rightarrow> string \<Rightarrow> bool \<Rightarrow> OrbisSem" where
  "OrbisSem_new init max_c name fifo =
     \<lparr>wait_list = [], sem_name = name, token_count = init, max_count = max_c, init_count = init,
      is_fifo = fifo\<rparr>"

subsection \<open>Methods\<close>

fun insert_by_priority :: "WaitingThread \<Rightarrow> WaitingThread list \<Rightarrow> WaitingThread list" where
  "insert_by_priority waiter [] = [waiter]"
| "insert_by_priority waiter (w # ws) =
     (if w_priority w \<le> w_priority waiter then w # insert_by_priority waiter ws
      else waiter # w # ws)"

definition AddWaiter :: "WaitingThread \<Rightarrow> OrbisSem \<Rightarrow> OrbisSem" where
  "AddWaiter waiter s =
     (if is_fifo s then s\<lparr>wait_list := wait_list s @ [waiter]\<rparr>
      else s\<lparr>wait_list := insert_by_priority waiter (wait_list s)\<rparr>)"

text \<open>
  \<^verbatim>\<open>Wait\<close> up to the sleep: the return value, or \<open>Inr\<close> when the thread now waits.  \<open>prio\<close> is the
  priority of the calling thread.
\<close>

definition Sem_Wait :: "bool \<Rightarrow> s32 \<Rightarrow> u32 option \<Rightarrow> nat \<Rightarrow> u32 \<Rightarrow> OrbisSem
    \<Rightarrow> (s32 \<times> OrbisSem) + OrbisSem" where
  "Sem_Wait can_block need_count timeout thread prio s =
     (if sint (token_count s) \<ge> sint need_count
      then Inl (SEM_OK, s\<lparr>token_count := token_count s - need_count\<rparr>)
      else if \<not> can_block then Inl (SEM_EBUSY, s)
      else if timeout = Some 0 then Inl (SEM_ETIMEDOUT, s)
      else Inr (AddWaiter \<lparr>w_thread = thread, w_priority = (if is_fifo s then 0 else prio),
                           w_need_count = need_count\<rparr> s))"


text \<open>The waiters that are woken, those that stay, and the tokens left.\<close>

fun wake_loop :: "WaitingThread list \<Rightarrow> s32 \<Rightarrow> WaitingThread list \<times> WaitingThread list \<times> s32" where
  "wake_loop [] tokens = ([], [], tokens)"
| "wake_loop (waiter # rest) tokens =
     (if sint (w_need_count waiter) > sint tokens
      then (let (woken, stay, t) = wake_loop rest tokens in (woken, waiter # stay, t))
      else (let (woken, stay, t) = wake_loop rest (tokens - w_need_count waiter)
            in (waiter # woken, stay, t)))"

text \<open>The sum is a signed addition; a sum that does not fit is undefined.\<close>

definition Sem_Signal :: "s32 \<Rightarrow> OrbisSem \<Rightarrow> (bool \<times> WaitingThread list \<times> OrbisSem) option" where
  "Sem_Signal signal_count s =
     do {
       let sum = sint (token_count s) + sint signal_count;
       ASSERT (- (2 ^ 31) \<le> sum \<and> sum < 2 ^ 31);
       Some (if sum > sint (max_count s) then (False, [], s)
             else let (woken, stay, t) = wake_loop (wait_list s) (token_count s + signal_count)
                  in (True, woken, s\<lparr>wait_list := stay, token_count := t\<rparr>))
     }"

text \<open>The number of waiters, the waiters released with \<^verbatim>\<open>ECANCELED\<close>, and the semaphore.\<close>

definition Sem_Cancel :: "s32 \<Rightarrow> OrbisSem \<Rightarrow> s32 \<times> WaitingThread list \<times> OrbisSem" where
  "Sem_Cancel set_count s =
     (word_of_nat (List.length (wait_list s)), wait_list s,
      s\<lparr>wait_list := [],
        token_count := (if sint set_count < 0 then init_count s else set_count)\<rparr>)"

definition Sem_Delete :: "OrbisSem \<Rightarrow> WaitingThread list \<times> OrbisSem" where
  "Sem_Delete s = (wait_list s, s\<lparr>wait_list := []\<rparr>)"

subsection \<open>System calls\<close>

text \<open>
  The table of semaphores maps an index to a semaphore.  \<open>index\<close> is the slot the table gives out
  for a new entry; a missing name is \<open>None\<close>.
\<close>

type_synonym orbis_sems = "u32 \<Rightarrow> OrbisSem option"


definition sceKernelWaitSema :: "u32 \<Rightarrow> s32 \<Rightarrow> u32 option \<Rightarrow> nat \<Rightarrow> u32 \<Rightarrow> orbis_sems
    \<Rightarrow> s32 option \<times> orbis_sems" where
  "sceKernelWaitSema sem needCount pTimeout thread prio sems =
     (case sems sem of
        None \<Rightarrow> (Some SEM_ESRCH, sems)
      | Some s \<Rightarrow> (case Sem_Wait True needCount pTimeout thread prio s of
                    Inl (ret, s) \<Rightarrow> (Some ret, sems(sem \<mapsto> s))
                  | Inr s \<Rightarrow> (None, sems(sem \<mapsto> s))))"

definition sceKernelPollSema :: "u32 \<Rightarrow> s32 \<Rightarrow> nat \<Rightarrow> u32 \<Rightarrow> orbis_sems
    \<Rightarrow> s32 option \<times> orbis_sems" where
  "sceKernelPollSema sem needCount thread prio sems =
     (case sems sem of
        None \<Rightarrow> (Some SEM_ESRCH, sems)
      | Some s \<Rightarrow> (case Sem_Wait False needCount None thread prio s of
                    Inl (ret, s) \<Rightarrow> (Some ret, sems(sem \<mapsto> s))
                  | Inr s \<Rightarrow> (None, sems(sem \<mapsto> s))))"

definition sceKernelSignalSema :: "u32 \<Rightarrow> s32 \<Rightarrow> orbis_sems
    \<Rightarrow> (s32 \<times> WaitingThread list \<times> orbis_sems) option" where
  "sceKernelSignalSema sem signalCount sems =
     (case sems sem of
        None \<Rightarrow> Some (SEM_ESRCH, [], sems)
      | Some s \<Rightarrow>
          do {
            (ok, woken, s) \<leftarrow> Sem_Signal signalCount s;
            Some (if ok then (SEM_OK, woken, sems(sem \<mapsto> s)) else (SEM_EINVAL, [], sems))
          })"

definition sceKernelCancelSema :: "u32 \<Rightarrow> s32 \<Rightarrow> orbis_sems
    \<Rightarrow> s32 \<times> s32 \<times> WaitingThread list \<times> orbis_sems" where
  "sceKernelCancelSema sem setCount sems =
     (case sems sem of
        None \<Rightarrow> (SEM_ESRCH, 0, [], sems)
      | Some s \<Rightarrow> (let (n, woken, s) = Sem_Cancel setCount s
                   in (SEM_OK, n, woken, sems(sem \<mapsto> s))))"

definition sceKernelDeleteSema :: "u32 \<Rightarrow> orbis_sems \<Rightarrow> s32 \<times> WaitingThread list \<times> orbis_sems" where
  "sceKernelDeleteSema sem sems =
     (case sems sem of
        None \<Rightarrow> (SEM_ESRCH, [], sems)
      | Some s \<Rightarrow> (SEM_OK, fst (Sem_Delete s), sems(sem := None)))"

subsection \<open>POSIX semaphores\<close>

definition SEM_ERROR_UNKNOWN :: s32 where "SEM_ERROR_UNKNOWN = 0x80020000"

record PthreadSem =
  ps_semaphore :: int \<comment> \<open>the count of the \<^verbatim>\<open>CountingSemaphore\<close>\<close>
  ps_value :: s32

text \<open>
  The return value and the error number it sets, \<open>None\<close> for a call that blocks.  \<open>expired\<close> says
  whether the time limit passes before a token is there.
\<close>

definition posix_sem_init :: "u32 \<Rightarrow> (s32 \<times> s32) + PthreadSem" where
  "posix_sem_init value =
     (if value > 0x7FFFFFFF then Inl (- 1, POSIX_EINVAL)
      else Inr \<lparr>ps_semaphore = sint value, ps_value = value\<rparr>)"

definition sem_take :: "PthreadSem \<Rightarrow> PthreadSem" where
  "sem_take s = s\<lparr>ps_semaphore := ps_semaphore s - 1, ps_value := ps_value s - 1\<rparr>"

definition posix_sem_wait :: "PthreadSem option \<Rightarrow> ((s32 \<times> s32) + PthreadSem) option" where
  "posix_sem_wait sem =
     (case sem of
        None \<Rightarrow> Some (Inl (- 1, POSIX_EINVAL))
      | Some s \<Rightarrow> (if ps_semaphore s > 0 then Some (Inr (sem_take s)) else None))"

definition posix_sem_trywait :: "PthreadSem option \<Rightarrow> (s32 \<times> s32) + PthreadSem" where
  "posix_sem_trywait sem =
     (case sem of
        None \<Rightarrow> Inl (- 1, POSIX_EINVAL)
      | Some s \<Rightarrow> (if ps_semaphore s > 0 then Inr (sem_take s) else Inl (- 1, POSIX_EAGAIN)))"

definition posix_sem_timedwait :: "PthreadSem option \<Rightarrow> bool \<Rightarrow> ((s32 \<times> s32) + PthreadSem) option" where
  "posix_sem_timedwait sem expired =
     (case sem of
        None \<Rightarrow> Some (Inl (- 1, POSIX_EINVAL))
      | Some s \<Rightarrow> (if ps_semaphore s > 0 then Some (Inr (sem_take s))
                   else if expired then Some (Inl (- 1, POSIX_ETIMEDOUT)) else None))"

definition posix_sem_post :: "PthreadSem option \<Rightarrow> (s32 \<times> s32) + PthreadSem" where
  "posix_sem_post sem =
     (case sem of
        None \<Rightarrow> Inl (- 1, POSIX_EINVAL)
      | Some s \<Rightarrow>
          (if ps_value s = 0x7FFFFFFF then Inl (- 1, POSIX_EOVERFLOW)
           else Inr \<lparr>ps_semaphore = ps_semaphore s + 1, ps_value = ps_value s + 1\<rparr>))"

definition posix_sem_getvalue :: "PthreadSem option \<Rightarrow> (s32 \<times> s32) + s32" where
  "posix_sem_getvalue sem =
     (case sem of None \<Rightarrow> Inl (- 1, POSIX_EINVAL) | Some s \<Rightarrow> Inr (ps_value s))"

text \<open>The \<^verbatim>\<open>scePthreadSem\<close> calls turn the error number into a kernel error.\<close>

definition sce_result :: "(s32 \<times> s32) + 'a \<Rightarrow> s32" where
  "sce_result r = (case r of Inl (_, errno) \<Rightarrow> errno + SEM_ERROR_UNKNOWN | Inr _ \<Rightarrow> SEM_OK)"

definition scePthreadSemInit :: "s32 \<Rightarrow> u32 \<Rightarrow> s32 \<times> PthreadSem option" where
  "scePthreadSemInit flag value =
     (if flag \<noteq> 0 then (SEM_EINVAL, None)
      else let r = posix_sem_init value
           in (sce_result r, case r of Inl _ \<Rightarrow> None | Inr s \<Rightarrow> Some s))"

definition scePthreadSemTrywait :: "PthreadSem option \<Rightarrow> s32 \<times> PthreadSem option" where
  "scePthreadSemTrywait sem =
     (let r = posix_sem_trywait sem in (sce_result r, case r of Inl _ \<Rightarrow> sem | Inr s \<Rightarrow> Some s))"

definition scePthreadSemPost :: "PthreadSem option \<Rightarrow> s32 \<times> PthreadSem option" where
  "scePthreadSemPost sem =
     (let r = posix_sem_post sem in (sce_result r, case r of Inl _ \<Rightarrow> sem | Inr s \<Rightarrow> Some s))"

definition scePthreadSemWait :: "PthreadSem option \<Rightarrow> (s32 \<times> PthreadSem option) option" where
  "scePthreadSemWait sem =
     do {
       r \<leftarrow> posix_sem_wait sem;
       Some (sce_result r, case r of Inl _ \<Rightarrow> sem | Inr s \<Rightarrow> Some s)
     }"

definition scePthreadSemTimedwait :: "PthreadSem option \<Rightarrow> bool \<Rightarrow> (s32 \<times> PthreadSem option) option"
  where
  "scePthreadSemTimedwait sem expired =
     do {
       r \<leftarrow> posix_sem_timedwait sem expired;
       Some (sce_result r, case r of Inl _ \<Rightarrow> sem | Inr s \<Rightarrow> Some s)
     }"

definition scePthreadSemGetvalue :: "PthreadSem option \<Rightarrow> s32 \<times> s32 option" where
  "scePthreadSemGetvalue sem =
     (let r = posix_sem_getvalue sem in (sce_result r, case r of Inl _ \<Rightarrow> None | Inr v \<Rightarrow> Some v))"

text \<open>Destroying a semaphore leaves a null pointer behind.\<close>

definition posix_sem_destroy :: "PthreadSem option \<Rightarrow> (s32 \<times> s32) + PthreadSem option" where
  "posix_sem_destroy sem = (case sem of None \<Rightarrow> Inl (- 1, POSIX_EINVAL) | Some s \<Rightarrow> Inr None)"

definition scePthreadSemDestroy :: "PthreadSem option \<Rightarrow> s32 \<times> PthreadSem option" where
  "scePthreadSemDestroy sem =
     (let r = posix_sem_destroy sem in (sce_result r, case r of Inl _ \<Rightarrow> sem | Inr s \<Rightarrow> s))"

text \<open>The absolute time limit of \<^verbatim>\<open>scePthreadSemTimedwait\<close>: seconds and nanoseconds.\<close>

definition timedwait_deadline :: "u64 \<Rightarrow> u64 \<Rightarrow> u32 \<Rightarrow> u64 \<times> u64" where
  "timedwait_deadline sec nsec usec =
     (let total_nsec = nsec + ucast (usec mod 1000000) * 1000
      in (sec + ucast (usec div 1000000) + total_nsec div 1000000000, total_nsec mod 1000000000))"

subsection \<open>The invariant\<close>

text \<open>
  The tokens are within bounds, no waiting thread could go on with the tokens there are, and
  a list that is not first-in-first-out is ordered by priority.
\<close>

definition sem_inv :: "OrbisSem \<Rightarrow> bool" where
  "sem_inv s \<longleftrightarrow>
     0 \<le> sint (token_count s) \<and> sint (token_count s) \<le> sint (max_count s) \<and>
     0 \<le> sint (init_count s) \<and> sint (init_count s) \<le> sint (max_count s) \<and>
     (\<forall>w \<in> set (wait_list s). sint (w_need_count w) > sint (token_count s)) \<and>
     (\<not> is_fifo s \<longrightarrow> sorted_wrt (\<lambda>a b. w_priority a \<le> w_priority b) (wait_list s))"

lemma sint_bounds_s32: "- (2 ^ 31) \<le> sint (a :: s32)" "sint (a :: s32) < 2 ^ 31"
  using sint_ge [of a] sint_lt [of a] by simp_all

lemma sint_add_s32:
  fixes a b :: s32
  assumes "- (2 ^ 31) \<le> sint a + sint b" "sint a + sint b < 2 ^ 31"
  shows "sint (a + b) = sint a + sint b"
  using assms by (simp add: sint_word_ariths signed_take_bit_int_eq_self)

lemma sint_sub_s32:
  fixes a b :: s32
  assumes "0 \<le> sint b" "sint b \<le> sint a"
  shows "sint (a - b) = sint a - sint b"
  using assms sint_bounds_s32 [of a]
  by (simp add: sint_word_ariths signed_take_bit_int_eq_self)

lemma insert_by_priority_set: "set (insert_by_priority w ws) = insert w (set ws)"
  by (induction w ws rule: insert_by_priority.induct) auto


text \<open>
  A new waiter comes behind every thread of the same or a higher priority and in front of every
  thread of a lower one.
\<close>

lemma insert_by_priority_split:
  "sorted_wrt (\<lambda>a b. w_priority a \<le> w_priority b) ws \<Longrightarrow>
   insert_by_priority w ws = filter (\<lambda>x. w_priority x \<le> w_priority w) ws @ w #
     filter (\<lambda>x. \<not> w_priority x \<le> w_priority w) ws"
proof (induction w ws rule: insert_by_priority.induct)
  case (2 waiter w ws)
  show ?case
  proof (cases "w_priority w \<le> w_priority waiter")
    case True
    with 2 show ?thesis by simp
  next
    case False
    then have "\<forall>x \<in> set ws. \<not> w_priority x \<le> w_priority waiter"
      using "2.prems" by (auto dest: order_trans)
    then have "filter (\<lambda>x. w_priority x \<le> w_priority waiter) ws = []"
      "filter (\<lambda>x. \<not> w_priority x \<le> w_priority waiter) ws = ws"
      by (auto simp: filter_empty_conv filter_id_conv)
    with False show ?thesis by simp
  qed
qed simp

subsection \<open>Signalling\<close>

lemma wake_loop_spec:
  assumes "wake_loop ws tokens = (woken, stay, t)" "0 \<le> sint tokens"
    "\<forall>w \<in> set ws. 0 \<le> sint (w_need_count w)"
  shows "0 \<le> sint t \<and> sint t + (\<Sum>w\<leftarrow>woken. sint (w_need_count w)) = sint tokens \<and>
    (\<forall>w \<in> set stay. sint (w_need_count w) > sint t) \<and> sint t \<le> sint tokens \<and>
    mset ws = mset woken + mset stay \<and> subseq stay ws \<and> subseq woken ws"
  using assms
proof (induction ws tokens arbitrary: woken stay t rule: wake_loop.induct)
  case (2 waiter rest tokens)
  show ?case
  proof (cases "sint (w_need_count waiter) > sint tokens")
    case True
    then obtain stay' where w: "wake_loop rest tokens = (woken, stay', t)" "stay = waiter # stay'"
      using "2.prems"(1) by (auto split: prod.splits)
    from "2.IH"(1) [OF True w(1)] "2.prems" show ?thesis using True w(2) by (auto simp: subseq_Cons')
  next
    case False
    then obtain woken' where w: "wake_loop rest (tokens - w_need_count waiter) = (woken', stay, t)"
      "woken = waiter # woken'" using "2.prems"(1) by (auto split: prod.splits)
    have s: "sint (tokens - w_need_count waiter) = sint tokens - sint (w_need_count waiter)"
      using False "2.prems" by (intro sint_sub_s32) auto
    from "2.IH"(2) [OF False w(1)] "2.prems" show ?thesis
      using False w(2) s by (auto simp: subseq_Cons')
  qed
qed auto


lemma sem_inv_need:
  assumes "sem_inv s" "w \<in> set (wait_list s)"
  shows "0 \<le> sint (w_need_count w)"
  using assms by (fastforce simp: sem_inv_def)


lemma AddWaiter_fields [simp]:
  "token_count (AddWaiter w s) = token_count s" "max_count (AddWaiter w s) = max_count s"
  "init_count (AddWaiter w s) = init_count s" "is_fifo (AddWaiter w s) = is_fifo s"
  "set (wait_list (AddWaiter w s)) = insert w (set (wait_list s))"
  by (auto simp: AddWaiter_def insert_by_priority_set)






lemma sorted_wrt_subseq: "subseq xs ys \<Longrightarrow> sorted_wrt P ys \<Longrightarrow> sorted_wrt P xs"
proof (induction rule: list_emb.induct)
  case (list_emb_Cons2 x y xs ys)
  then show ?case using list_emb_set [of "(=)" xs ys] by auto
qed auto

lemma Sem_Signal_props:
  assumes inv: "sem_inv s" and c: "0 \<le> sint c" and r: "Sem_Signal c s = Some (ok, woken, s')"
  shows "ok \<longleftrightarrow> sint (token_count s) + sint c \<le> sint (max_count s)"
    and "\<not> ok \<Longrightarrow> woken = [] \<and> s' = s"
    and "ok \<Longrightarrow> sint (token_count s') + (\<Sum>w\<leftarrow>woken. sint (w_need_count w)) =
      sint (token_count s) + sint c"
    and "ok \<Longrightarrow> mset (wait_list s) = mset woken + mset (wait_list s')"
    and "ok \<Longrightarrow> subseq woken (wait_list s) \<and> subseq (wait_list s') (wait_list s)"
    and "sem_inv s'"
proof -
  have b: "- (2 ^ 31) \<le> sint (token_count s) + sint c" "sint (token_count s) + sint c < 2 ^ 31"
    using r by (auto simp: Sem_Signal_def ASSERT_def Let_def split: if_splits Option.bind_splits)
  note sum = sint_add_s32 [OF b]
  show ok: "ok \<longleftrightarrow> sint (token_count s) + sint c \<le> sint (max_count s)"
    using r b by (auto simp: Sem_Signal_def ASSERT_def split: if_splits prod.splits)
  show "\<not> ok \<Longrightarrow> woken = [] \<and> s' = s"
    using r b by (auto simp: Sem_Signal_def ASSERT_def split: if_splits prod.splits)
  have P: "sint (token_count s') + (\<Sum>w\<leftarrow>woken. sint (w_need_count w)) =
      sint (token_count s) + sint c \<and> mset (wait_list s) = mset woken + mset (wait_list s') \<and>
      subseq woken (wait_list s) \<and> subseq (wait_list s') (wait_list s) \<and> sem_inv s'" if ok
  proof -
    obtain stay t where w: "wake_loop (wait_list s) (token_count s + c) = (woken, stay, t)"
      "s' = s\<lparr>wait_list := stay, token_count := t\<rparr>"
      using r b \<open>ok\<close> by (auto simp: Sem_Signal_def ASSERT_def split: if_splits prod.splits)
    have n: "\<forall>w \<in> set (wait_list s). 0 \<le> sint (w_need_count w)" using sem_inv_need [OF inv] by blast
    have t0: "0 \<le> sint (token_count s + c)" using inv c sum by (auto simp: sem_inv_def)
    note S = wake_loop_spec [OF w(1) t0 n]
    have "sem_inv s'"
      using inv S w(2) sum ok \<open>ok\<close>
        sorted_wrt_subseq [of stay "wait_list s" "\<lambda>a b. w_priority a \<le> w_priority b"]
      by (auto simp: sem_inv_def)
    with S w(2) sum show ?thesis by auto
  qed
  then show "ok \<Longrightarrow> sint (token_count s') + (\<Sum>w\<leftarrow>woken. sint (w_need_count w)) =
      sint (token_count s) + sint c"
    "ok \<Longrightarrow> mset (wait_list s) = mset woken + mset (wait_list s')"
    "ok \<Longrightarrow> subseq woken (wait_list s) \<and> subseq (wait_list s') (wait_list s)" by auto
  show "sem_inv s'" using P inv \<open>\<not> ok \<Longrightarrow> woken = [] \<and> s' = s\<close> by (cases ok) auto
qed

text \<open>
  C18: a signal with a count that is not negative adds exactly the tokens that the threads it
  wakes take away: the tokens left and the needs of the woken threads add up to the tokens
  before and the count.  It fails, and changes nothing, exactly when the sum exceeds the maximum
  of the semaphore.  Woken and remaining threads keep their order, no thread is lost or woken
  twice, and no thread that still waits could run with the tokens that are left.
\<close>

theorem Signal_conserves:
  assumes "sem_inv s" "0 \<le> sint c" "Sem_Signal c s = Some (ok, woken, s')"
  shows "(ok \<longleftrightarrow> sint (token_count s) + sint c \<le> sint (max_count s)) \<and>
    (if ok then sint (token_count s') + (\<Sum>w\<leftarrow>woken. sint (w_need_count w)) =
           sint (token_count s) + sint c \<and>
         mset (wait_list s) = mset woken + mset (wait_list s') \<and>
         subseq woken (wait_list s) \<and> subseq (wait_list s') (wait_list s) \<and>
         (\<forall>w \<in> set (wait_list s'). sint (w_need_count w) > sint (token_count s'))
     else woken = [] \<and> s' = s)"
  using Sem_Signal_props [OF assms] by (auto simp: sem_inv_def)

definition sem_demo :: OrbisSem where
  "sem_demo = (OrbisSem_new 1 10 ''s'' False)
     \<lparr>wait_list := [\<lparr>w_thread = 1, w_priority = 5, w_need_count = 8\<rparr>,
                    \<lparr>w_thread = 2, w_priority = 7, w_need_count = 3\<rparr>]\<rparr>"

lemma sem_demo_inv: "sem_inv sem_demo"
  by (simp add: sem_demo_def sem_inv_def OrbisSem_new_def)

lemma sem_demo_signal:
  "Sem_Signal 4 sem_demo = Some (True, [\<lparr>w_thread = 2, w_priority = 7, w_need_count = 3\<rparr>],
     sem_demo\<lparr>wait_list := [\<lparr>w_thread = 1, w_priority = 5, w_need_count = 8\<rparr>], token_count := 2\<rparr>)"
  by (simp add: Sem_Signal_def sem_demo_def OrbisSem_new_def ASSERT_def)

theorem Signal_conserves_witness:
  "sint (token_count (snd (snd (the (Sem_Signal 4 sem_demo))))) + 3 = 5"
  using Signal_conserves [OF sem_demo_inv _ sem_demo_signal] sem_demo_signal
  by (simp add: sem_demo_def OrbisSem_new_def)

subsection \<open>Runs of calls\<close>









text \<open>
  Waiting with a negative count is not rejected and hands out tokens instead of taking
  them: a semaphore whose tokens are at its maximum then exceeds it.
\<close>

theorem negative_wait_adds_tokens:
  "sceKernelWaitSema 0 (- 5) None thread prio [0 \<mapsto> OrbisSem_new 10 10 ''s'' fifo] =
     (Some SEM_OK, [0 \<mapsto> (OrbisSem_new 10 10 ''s'' fifo)\<lparr>token_count := 15\<rparr>])"
  by (simp add: sceKernelWaitSema_def Sem_Wait_def OrbisSem_new_def)

subsection \<open>The POSIX semaphore\<close>

text \<open>The published value and the count of the semaphore agree.\<close>

definition psem_inv :: "PthreadSem \<Rightarrow> bool" where
  "psem_inv s \<longleftrightarrow> ps_semaphore s = sint (ps_value s) \<and> 0 \<le> ps_semaphore s"

lemma psem_inv_take: "psem_inv s \<Longrightarrow> ps_semaphore s > 0 \<Longrightarrow> psem_inv (sem_take s)"
  using sint_sub_s32 [of 1 "ps_value s"] by (simp add: psem_inv_def sem_take_def)

lemma sint_max_s32: "sint (v :: s32) \<noteq> 2147483647" if "v \<noteq> 0x7FFFFFFF"
proof
  assume "sint v = 2147483647"
  then have "sint v = sint (0x7FFFFFFF :: s32)" by simp
  then have "v = 0x7FFFFFFF" by (rule signed_word_eqI)
  with that show False by simp
qed

lemma psem_inv_post:
  assumes "psem_inv s" "posix_sem_post (Some s) = Inr s'"
  shows "psem_inv s' \<and> ps_semaphore s' = ps_semaphore s + 1"
proof -
  have v: "ps_value s \<noteq> 0x7FFFFFFF"
    "s' = \<lparr>ps_semaphore = ps_semaphore s + 1, ps_value = ps_value s + 1\<rparr>"
    using assms(2) by (auto simp: posix_sem_post_def split: if_splits)
  have "sint (ps_value s + 1) = sint (ps_value s) + 1"
    using sint_max_s32 [OF v(1)] sint_bounds_s32 [of "ps_value s"] by (subst sint_add_s32) auto
  with assms(1) v(2) show ?thesis by (auto simp: psem_inv_def)
qed

lemma sint_nonneg_s32: "0 \<le> sint v" if "unat (v :: s32) \<le> 2147483647"
proof -
  have "int (unat v) \<le> int 2147483647" using that by (simp only: of_nat_le_iff)
  then have "uint v < 2 ^ 31" by simp
  then have "signed_take_bit 31 (uint v) = uint v"
    using uint_ge_0 [of v] by (intro signed_take_bit_int_eq_self) linarith+
  then show ?thesis by (simp add: sint_uint)
qed

lemma psem_inv_init:
  assumes "posix_sem_init v = Inr s"
  shows "psem_inv s \<and> ps_value s = v"
proof -
  have v: "v \<le> 0x7FFFFFFF" and s: "s = \<lparr>ps_semaphore = sint v, ps_value = v\<rparr>"
    using assms by (simp_all add: posix_sem_init_def not_less split: if_splits)
  have "unat v \<le> 2147483647" using v unfolding word_le_nat_alt by simp
  then have "0 \<le> sint v" by (rule sint_nonneg_s32)
  with s show ?thesis by (simp add: psem_inv_def)
qed

text \<open>
  A post and a wait on a POSIX semaphore cancel out: after a successful post a wait never
  blocks and leaves the semaphore as it was before the post; and a post fails, with the overflow
  error, only at the maximum value, where the count would not fit.
\<close>

theorem post_then_wait:
  assumes "psem_inv s"
  shows "(case posix_sem_post (Some s) of
            Inl e \<Rightarrow> e = (- 1, POSIX_EOVERFLOW) \<and> ps_semaphore s = 2 ^ 31 - 1
          | Inr s' \<Rightarrow> psem_inv s' \<and> posix_sem_wait (Some s') = Some (Inr s) \<and>
              posix_sem_trywait (Some s') = Inr s)"
proof (cases "ps_value s = 0x7FFFFFFF")
  case True
  with assms show ?thesis by (simp add: posix_sem_post_def psem_inv_def)
next
  case False
  then obtain s' where s': "posix_sem_post (Some s) = Inr s'"
    "s' = \<lparr>ps_semaphore = ps_semaphore s + 1, ps_value = ps_value s + 1\<rparr>"
    by (simp add: posix_sem_post_def)
  with psem_inv_post [OF assms s'(1)] assms show ?thesis
    by (auto simp: posix_sem_wait_def posix_sem_trywait_def sem_take_def psem_inv_def)
qed

theorem post_then_wait_witness:
  "posix_sem_trywait (Some \<lparr>ps_semaphore = 4, ps_value = 4\<rparr>) = Inr \<lparr>ps_semaphore = 3, ps_value = 3\<rparr>"
  using post_then_wait [of "\<lparr>ps_semaphore = 3, ps_value = 3\<rparr>"]
  by (simp add: psem_inv_def posix_sem_post_def)

end
