(* ===== verification/Rtc.thy ===== *)
theory Rtc
  imports Prelude "HOL-Library.Signed_Division"
begin

section \<open>Real-time clock\<close>

text \<open>
  \<^verbatim>\<open>core/libraries/rtc/rtc.cpp\<close>: dates, ticks (microseconds since the year 1) and the textual
  formats.  A pointer argument is an option, \<open>None\<close> when it is null; an output pointer is given by
  whether it is null, or by the value behind it where the code reads or keeps it.  The first
  component of a result is the return value.

  The operating system's clock and time zone, and the SDK version the game was built for, are
  parameters.  \<^verbatim>\<open>std::chrono\<close>'s calendar and \<^verbatim>\<open>std::stoi\<close> are defined as the C++ standard has them.
\<close>

subsection \<open>Constants and data\<close>

definition RTC_OK :: s32 where "RTC_OK = 0"
definition ORBIS_RTC_ERROR_DATETIME_UNINITIALIZED :: s32 where "ORBIS_RTC_ERROR_DATETIME_UNINITIALIZED = 0x7FFEF9FE"
definition ORBIS_RTC_ERROR_NOT_INITIALIZED :: s32 where "ORBIS_RTC_ERROR_NOT_INITIALIZED = 0x80B50001"
definition ORBIS_RTC_ERROR_INVALID_POINTER :: s32 where "ORBIS_RTC_ERROR_INVALID_POINTER = 0x80B50002"
definition ORBIS_RTC_ERROR_INVALID_VALUE :: s32 where "ORBIS_RTC_ERROR_INVALID_VALUE = 0x80B50003"
definition ORBIS_RTC_ERROR_INVALID_YEAR :: s32 where "ORBIS_RTC_ERROR_INVALID_YEAR = 0x80B50008"
definition ORBIS_RTC_ERROR_INVALID_MONTH :: s32 where "ORBIS_RTC_ERROR_INVALID_MONTH = 0x80B50009"
definition ORBIS_RTC_ERROR_INVALID_DAY :: s32 where "ORBIS_RTC_ERROR_INVALID_DAY = 0x80B5000A"
definition ORBIS_RTC_ERROR_INVALID_HOUR :: s32 where "ORBIS_RTC_ERROR_INVALID_HOUR = 0x80B5000B"
definition ORBIS_RTC_ERROR_INVALID_MINUTE :: s32 where "ORBIS_RTC_ERROR_INVALID_MINUTE = 0x80B5000C"
definition ORBIS_RTC_ERROR_INVALID_SECOND :: s32 where "ORBIS_RTC_ERROR_INVALID_SECOND = 0x80B5000D"
definition ORBIS_RTC_ERROR_INVALID_MICROSECOND :: s32 where "ORBIS_RTC_ERROR_INVALID_MICROSECOND = 0x80B5000E"

lemmas rtc_error_defs = RTC_OK_def ORBIS_RTC_ERROR_DATETIME_UNINITIALIZED_def
  ORBIS_RTC_ERROR_NOT_INITIALIZED_def ORBIS_RTC_ERROR_INVALID_POINTER_def
  ORBIS_RTC_ERROR_INVALID_VALUE_def ORBIS_RTC_ERROR_INVALID_YEAR_def
  ORBIS_RTC_ERROR_INVALID_MONTH_def ORBIS_RTC_ERROR_INVALID_DAY_def
  ORBIS_RTC_ERROR_INVALID_HOUR_def ORBIS_RTC_ERROR_INVALID_MINUTE_def
  ORBIS_RTC_ERROR_INVALID_SECOND_def ORBIS_RTC_ERROR_INVALID_MICROSECOND_def

definition UNIX_EPOCH_TICKS :: s64 where "UNIX_EPOCH_TICKS = 0xdcbffeff2bc000"
definition WIN32_FILETIME_EPOCH_TICKS :: s64 where "WIN32_FILETIME_EPOCH_TICKS = 0xb36168b6a58000"

record OrbisRtcDateTime =
  dt_year :: u16
  dt_month :: u16
  dt_day :: u16
  dt_hour :: u16
  dt_minute :: u16
  dt_second :: u16
  dt_microsecond :: u32

record OrbisKernelTimezone =
  tz_minuteswest :: s32
  tz_dsttime :: s32

subsection \<open>The standard library's calendar\<close>

text \<open>\<^verbatim>\<open>std::chrono::year\<close> holds 16 bits.\<close>

definition chrono_year :: "int \<Rightarrow> int" where
  "chrono_year y = sint (word_of_int y :: 16 word)"

definition is_leap :: "int \<Rightarrow> bool" where
  "is_leap y \<longleftrightarrow> y mod 4 = 0 \<and> (y mod 100 \<noteq> 0 \<or> y mod 400 = 0)"

definition last_day :: "int \<Rightarrow> int \<Rightarrow> int" where
  "last_day y m =
     (if m = 2 then (if is_leap y then 29 else 28)
      else if m = 4 \<or> m = 6 \<or> m = 9 \<or> m = 11 then 30 else 31)"

text \<open>Days from 1 January of the year 1, a Monday, to a date.\<close>

definition days_before_year :: "int \<Rightarrow> int" where
  "days_before_year y = 365 * (y - 1) + (y - 1) div 4 - (y - 1) div 100 + (y - 1) div 400"

definition days_before_month :: "int \<Rightarrow> int \<Rightarrow> int" where
  "days_before_month y m = sum_list (map (\<lambda>i. last_day y (int i)) [1..<nat m])"

definition chrono_days :: "int \<Rightarrow> int \<Rightarrow> int \<Rightarrow> int" where
  "chrono_days y m d = days_before_year y + days_before_month y m + (d - 1)"

definition chrono_weekday :: "int \<Rightarrow> int \<Rightarrow> int \<Rightarrow> int" where
  "chrono_weekday y m d = (chrono_days y m d + 1) mod 7"

subsection \<open>Checks\<close>

definition sceRtcCheckValid :: "OrbisRtcDateTime option \<Rightarrow> s32" where
  "sceRtcCheckValid pTime =
     (case pTime of
        None \<Rightarrow> ORBIS_RTC_ERROR_INVALID_POINTER
      | Some t \<Rightarrow>
          (if dt_year t = 0 \<or> dt_year t > 9999 then ORBIS_RTC_ERROR_INVALID_YEAR
           else if dt_month t = 0 \<or> dt_month t > 12 then ORBIS_RTC_ERROR_INVALID_MONTH
           else if dt_day t = 0 then ORBIS_RTC_ERROR_INVALID_DAY
           else let lastDay = last_day (chrono_year (uint (dt_year t))) (uint (dt_month t)) in
             if uint (dt_day t) > lastDay then ORBIS_RTC_ERROR_INVALID_DAY
             else if dt_hour t \<ge> 24 then ORBIS_RTC_ERROR_INVALID_HOUR
             else if dt_minute t \<ge> 60 then ORBIS_RTC_ERROR_INVALID_MINUTE
             else if dt_second t \<ge> 60 then ORBIS_RTC_ERROR_INVALID_SECOND
             else if dt_microsecond t \<ge> 1000000 then ORBIS_RTC_ERROR_INVALID_MICROSECOND
             else RTC_OK))"

definition sceRtcCompareTick :: "u64 option \<Rightarrow> u64 option \<Rightarrow> s32" where
  "sceRtcCompareTick pTick1 pTick2 =
     (case (pTick1, pTick2) of
        (Some t1, Some t2) \<Rightarrow> (if t1 \<le> t2 then 1 else 0)
      | _ \<Rightarrow> ORBIS_RTC_ERROR_INVALID_POINTER)"

definition sceRtcGetDaysInMonth :: "s32 \<Rightarrow> s32 \<Rightarrow> s32" where
  "sceRtcGetDaysInMonth year month =
     (if sint year \<le> 0 then ORBIS_RTC_ERROR_INVALID_YEAR
      else if sint month \<le> 0 \<or> sint month > 12 then ORBIS_RTC_ERROR_INVALID_MONTH
      else word_of_int (last_day (chrono_year (sint year)) (sint month)))"

text \<open>\<open>sdk\<close> is the compiled SDK version, \<open>None\<close> when asking for it fails.\<close>

definition sceRtcGetDayOfWeek :: "s32 option \<Rightarrow> s32 \<Rightarrow> s32 \<Rightarrow> s32 \<Rightarrow> s32" where
  "sceRtcGetDayOfWeek sdk year month day =
     (let sdk_version = (case sdk of None \<Rightarrow> 0 | Some v \<Rightarrow> v);
          month_bad = (sint month > 12 \<or> sint month \<le> 0)
      in if sint sdk_version < 0x3000000 \<and> sint year < 1 then ORBIS_RTC_ERROR_INVALID_YEAR
         else if sint sdk_version < 0x3000000 \<and> month_bad then ORBIS_RTC_ERROR_INVALID_MONTH
         else if \<not> sint sdk_version < 0x3000000 \<and> (sint year > 9999 \<or> sint year < 1)
         then ORBIS_RTC_ERROR_INVALID_YEAR
         else if \<not> sint sdk_version < 0x3000000 \<and> month_bad then ORBIS_RTC_ERROR_INVALID_MONTH
         else let daysInMonth = sceRtcGetDaysInMonth year month in
           if sint day \<le> 0 \<or> sint day > sint daysInMonth then ORBIS_RTC_ERROR_INVALID_DAY
           else word_of_int (chrono_weekday (chrono_year (sint year)) (sint month) (sint day)))"

definition sceRtcIsLeapYear :: "s32 \<Rightarrow> s32" where
  "sceRtcIsLeapYear yearInt =
     (if sint yearInt < 1 then ORBIS_RTC_ERROR_INVALID_YEAR
      else if last_day (chrono_year (sint yearInt)) 2 = 29 then 1 else 0)"

definition sceRtcGetTickResolution :: u32 where
  "sceRtcGetTickResolution = 1000000"

subsection \<open>Dates and ticks\<close>

text \<open>
  The tick of a date.  The function shifts the month and the year in the caller's structure and
  leaves them shifted.  The minutes are multiplied in 32-bit signed arithmetic, which is
  undefined from minute 36 on.
\<close>

definition sceRtcGetTick :: "OrbisRtcDateTime option \<Rightarrow> bool
    \<Rightarrow> (s32 \<times> OrbisRtcDateTime option \<times> u64 option) option" where
  "sceRtcGetTick pTime pTick_null =
     (case pTime of
        None \<Rightarrow> Some (ORBIS_RTC_ERROR_INVALID_POINTER, None, None)
      | Some t \<Rightarrow>
          (if pTick_null then Some (ORBIS_RTC_ERROR_INVALID_POINTER, Some t, None)
           else let isTimeValid = sceRtcCheckValid (Some t) in
             if isTimeValid \<noteq> 0 then Some (isTimeValid, Some t, None)
             else do {
               let t = (if dt_month t > 2 then t\<lparr>dt_month := dt_month t - 3\<rparr>
                        else t\<lparr>dt_month := dt_month t + 9, dt_year := dt_year t - 1\<rparr>);
               let c = uint (dt_year t) div 100;
               let ya = uint (dt_year t) - 100 * c;
               let days = (of_int ((146097 * c) div 4 + (1461 * ya) div 4 +
                             (153 * uint (dt_month t) + 2) div 5 + uint (dt_day t)) :: u64);
               let days = (days - 307) * 86400000000;
               ASSERT (uint (dt_minute t) * 60000000 < 2 ^ 31);
               let msec = (of_int (uint (dt_hour t) * 3600000000 + uint (dt_minute t) * 60000000 +
                             uint (dt_second t) * 1000000 + uint (dt_microsecond t)) :: u64);
               Some (RTC_OK, Some t, Some (days + msec))
             }))"

text \<open>The date of a tick; all variables are 32-bit except the two counts.\<close>

definition SetTick :: "u64 \<Rightarrow> OrbisRtcDateTime" where
  "SetTick tick =
     (let days = tick div 86400000000;
          msec = tick mod 86400000000;
          days = days + 307;
          j = (ucast (push_bit 2 days - 1) :: u32);
          ly = j div 146097;
          j = j - 146097 * ly;
          ld = drop_bit 2 j;
          j = (push_bit 2 ld + 3) div 1461;
          ld = drop_bit 2 ((push_bit 2 ld + 7) - 1461 * j);
          lm = (5 * ld - 3) div 153;
          ld = (5 * ld + 2 - 153 * lm) div 5;
          ly = 100 * ly + j;
          (lm, ly) = (if lm < 10 then (lm + 3, ly) else (lm - 9, ly + 1));
          hour = msec div 3600000000;
          msec = msec mod 3600000000;
          minute = msec div 60000000;
          msec = msec mod 60000000;
          second = msec div 1000000;
          msec = msec mod 1000000
      in \<lparr>dt_year = ucast ly, dt_month = ucast lm, dt_day = ucast ld, dt_hour = ucast hour,
          dt_minute = ucast minute, dt_second = ucast second, dt_microsecond = ucast msec\<rparr>)"

definition sceRtcSetTick :: "bool \<Rightarrow> u64 option \<Rightarrow> s32 \<times> OrbisRtcDateTime option" where
  "sceRtcSetTick pTime_null pTick =
     (case pTick of
        None \<Rightarrow> (ORBIS_RTC_ERROR_INVALID_POINTER, None)
      | Some tick \<Rightarrow> (if pTime_null then (ORBIS_RTC_ERROR_INVALID_POINTER, None)
                      else (RTC_OK, Some (SetTick tick))))"

subsection \<open>Other representations of time\<close>

definition sceRtcGetTime_t :: "OrbisRtcDateTime option \<Rightarrow> bool
    \<Rightarrow> (s32 \<times> OrbisRtcDateTime option \<times> s64 option) option" where
  "sceRtcGetTime_t pTime llTime_null =
     (case pTime of
        None \<Rightarrow> Some (ORBIS_RTC_ERROR_INVALID_POINTER, None, None)
      | Some t \<Rightarrow>
          (if llTime_null then Some (ORBIS_RTC_ERROR_INVALID_POINTER, Some t, None)
           else let isValid = sceRtcCheckValid (Some t) in
             if isValid \<noteq> RTC_OK then Some (isValid, Some t, None)
             else do {
               (_, pTime, timeTick) \<leftarrow> sceRtcGetTick (Some t) False;
               tick \<leftarrow> timeTick;
               Some (RTC_OK, pTime, Some (if tick < UNIX_EPOCH_TICKS then 0
                 else (tick - UNIX_EPOCH_TICKS) div 1000000))
             }))"

definition sceRtcGetWin32FileTime :: "OrbisRtcDateTime option \<Rightarrow> bool
    \<Rightarrow> (s32 \<times> OrbisRtcDateTime option \<times> u64 option) option" where
  "sceRtcGetWin32FileTime pTime ulWin32Time_null =
     (case pTime of
        None \<Rightarrow> Some (ORBIS_RTC_ERROR_INVALID_POINTER, None, None)
      | Some t \<Rightarrow>
          (if ulWin32Time_null then Some (ORBIS_RTC_ERROR_INVALID_POINTER, Some t, None)
           else let isValid = sceRtcCheckValid (Some t) in
             if isValid \<noteq> RTC_OK then Some (isValid, Some t, None)
             else do {
               (_, pTime, timeTick) \<leftarrow> sceRtcGetTick (Some t) False;
               tick \<leftarrow> timeTick;
               Some (RTC_OK, pTime, Some (if tick < WIN32_FILETIME_EPOCH_TICKS then 0
                 else (tick - WIN32_FILETIME_EPOCH_TICKS) * 10))
             }))"

text \<open>The word behind \<^verbatim>\<open>dosTime\<close> is only ever extended with \<^verbatim>\<open>|=\<close>.\<close>

definition sceRtcGetDosTime :: "OrbisRtcDateTime option \<Rightarrow> u32 option \<Rightarrow> s32 \<times> u32 option" where
  "sceRtcGetDosTime pTime dosTime =
     (case (pTime, dosTime) of
        (Some t, Some dos) \<Rightarrow>
          (let isValid = sceRtcCheckValid (Some t) in
           if isValid \<noteq> RTC_OK then (isValid, Some dos)
           else let dos = dos OR ((ucast (dt_second t) div 2) AND 0x1F);
                    dos = dos OR push_bit 5 (ucast (dt_minute t) AND 0x3F);
                    dos = dos OR push_bit 11 (ucast (dt_hour t) AND 0x1F);
                    dos = dos OR push_bit 16 (ucast (dt_day t) AND 0x1F);
                    dos = dos OR push_bit 21 (ucast (dt_month t) AND 0x0F);
                    dos = dos OR push_bit 25 ((ucast (dt_year t) - 1980) AND 0x7F)
                in (RTC_OK, Some dos))
      | _ \<Rightarrow> (ORBIS_RTC_ERROR_INVALID_POINTER, dosTime))"

definition sceRtcSetDosTime :: "bool \<Rightarrow> u32 \<Rightarrow> s32 \<times> OrbisRtcDateTime option" where
  "sceRtcSetDosTime pTime_null dosTime =
     (if pTime_null then (ORBIS_RTC_ERROR_INVALID_POINTER, None)
      else let days = (ucast (drop_bit 16 dosTime) :: 16 word)
           in (RTC_OK, Some \<lparr>dt_year = word_of_int (sint days div 2 ^ 9 + 1980),
                dt_month = word_of_int (sint days div 2 ^ 5) AND 0x0f,
                dt_day = days AND 0x1f,
                dt_hour = ucast (drop_bit 0xb (dosTime AND 0xf800)),
                dt_minute = ucast (drop_bit 5 dosTime AND 0x3f),
                dt_second = ucast (push_bit 1 dosTime AND 0x3e),
                dt_microsecond = 0\<rparr>))"

text \<open>A signed product that does not fit is undefined.\<close>

definition s64_mult :: "s64 \<Rightarrow> int \<Rightarrow> s64 option" where
  "s64_mult x unit =
     (if - (2 ^ 63) \<le> sint x * unit \<and> sint x * unit < 2 ^ 63 then Some (x * word_of_int unit) else None)"

definition sceRtcSetTime_t :: "s32 option \<Rightarrow> bool \<Rightarrow> s64 \<Rightarrow> (s32 \<times> OrbisRtcDateTime option) option" where
  "sceRtcSetTime_t sdk pTime_null llTime =
     (if pTime_null then Some (ORBIS_RTC_ERROR_INVALID_POINTER, None)
      else let sdk_version = (case sdk of None \<Rightarrow> 0 | Some v \<Rightarrow> v) in
        if sint sdk_version < 0x3000000
        then Some (RTC_OK, Some (SetTick ((llTime AND 0xffffffff) * 1000000 + UNIX_EPOCH_TICKS)))
        else if sint llTime < 0 then Some (ORBIS_RTC_ERROR_INVALID_VALUE, None)
        else do {
          t \<leftarrow> s64_mult llTime 1000000;
          Some (RTC_OK, Some (SetTick (t + UNIX_EPOCH_TICKS)))
        })"

definition sceRtcSetWin32FileTime :: "bool \<Rightarrow> s64 \<Rightarrow> s32 \<times> OrbisRtcDateTime option" where
  "sceRtcSetWin32FileTime pTime_null ulWin32Time =
     (if pTime_null then (ORBIS_RTC_ERROR_INVALID_POINTER, None)
      else let convertedTime = word_of_int (sint ulWin32Time sdiv 10) + WIN32_FILETIME_EPOCH_TICKS
           in (RTC_OK, Some (SetTick convertedTime)))"

subsection \<open>Adding to ticks\<close>

text \<open>\<open>tick_add unit pTick1_null pTick2 lAdd\<close>: the tick at \<open>pTick2\<close> and \<open>lAdd\<close> units.\<close>

definition tick_add :: "int \<Rightarrow> bool \<Rightarrow> u64 option \<Rightarrow> s64 \<Rightarrow> (s32 \<times> u64 option) option" where
  "tick_add unit pTick1_null pTick2 lAdd =
     (case pTick2 of
        None \<Rightarrow> Some (ORBIS_RTC_ERROR_INVALID_POINTER, None)
      | Some t2 \<Rightarrow>
          (if pTick1_null then Some (ORBIS_RTC_ERROR_INVALID_POINTER, None)
           else do { d \<leftarrow> s64_mult lAdd unit; Some (RTC_OK, Some (d + t2)) }))"

definition sceRtcTickAddTicks :: "bool \<Rightarrow> u64 option \<Rightarrow> s64 \<Rightarrow> (s32 \<times> u64 option) option" where
  "sceRtcTickAddTicks = tick_add 1"

definition sceRtcTickAddMicroseconds :: "bool \<Rightarrow> u64 option \<Rightarrow> s64 \<Rightarrow> (s32 \<times> u64 option) option"
  where "sceRtcTickAddMicroseconds = tick_add 1"

definition sceRtcTickAddSeconds :: "bool \<Rightarrow> u64 option \<Rightarrow> s64 \<Rightarrow> (s32 \<times> u64 option) option" where
  "sceRtcTickAddSeconds = tick_add 1000000"

definition sceRtcTickAddMinutes :: "bool \<Rightarrow> u64 option \<Rightarrow> s64 \<Rightarrow> (s32 \<times> u64 option) option" where
  "sceRtcTickAddMinutes = tick_add 60000000"

definition sceRtcTickAddHours :: "bool \<Rightarrow> u64 option \<Rightarrow> s32 \<Rightarrow> (s32 \<times> u64 option) option" where
  "sceRtcTickAddHours pTick1_null pTick2 lAdd = tick_add 3600000000 pTick1_null pTick2 (scast lAdd)"

definition sceRtcTickAddDays :: "bool \<Rightarrow> u64 option \<Rightarrow> s32 \<Rightarrow> (s32 \<times> u64 option) option" where
  "sceRtcTickAddDays pTick1_null pTick2 lAdd = tick_add 86400000000 pTick1_null pTick2 (scast lAdd)"

definition sceRtcTickAddWeeks :: "bool \<Rightarrow> u64 option \<Rightarrow> s32 \<Rightarrow> (s32 \<times> u64 option) option" where
  "sceRtcTickAddWeeks pTick1_null pTick2 lAdd = tick_add 604800000000 pTick1_null pTick2 (scast lAdd)"

text \<open>
  Months and years are added to the date at \<open>pTick1\<close>, not at \<open>pTick2\<close>, which is only read when
  nothing is added.
\<close>

definition sceRtcTickAddMonths :: "u64 option \<Rightarrow> u64 option \<Rightarrow> s32 \<Rightarrow> (s32 \<times> u64 option) option" where
  "sceRtcTickAddMonths pTick1 pTick2 lAdd =
     (case (pTick1, pTick2) of
        (Some t1, Some t2) \<Rightarrow>
          (if lAdd = 0 then Some (RTC_OK, Some t2)
           else do {
             let time = SetTick t1;
             let s = (if sint lAdd \<ge> 0 then 1 else - 1 :: int);
             let year = dt_year time + word_of_int (sint lAdd sdiv 12);
             let tempMonth = uint (dt_month time) + sint lAdd smod 12 - 1;
             let carry = (tempMonth > 11 \<or> tempMonth < 0);
             let tempMonth = (if carry then tempMonth - s * 12 else tempMonth);
             let year = (if carry then year + word_of_int s else year);
             let time = time\<lparr>dt_year := year, dt_month := word_of_int (tempMonth + 1)\<rparr>;
             let lastDay = last_day (chrono_year (uint (dt_year time))) (uint (dt_month time));
             let time = (if uint (dt_day time) > lastDay then time\<lparr>dt_day := word_of_int lastDay\<rparr>
                         else time);
             let timeIsValid = sceRtcCheckValid (Some time);
             (if timeIsValid = RTC_OK
              then do {
                (_, _, tick) \<leftarrow> sceRtcGetTick (Some time) False;
                Some (RTC_OK, case tick of None \<Rightarrow> Some t1 | Some x \<Rightarrow> Some x)
              }
              else Some (timeIsValid, Some t1))
           })
      | _ \<Rightarrow> Some (ORBIS_RTC_ERROR_INVALID_POINTER, pTick1))"

definition sceRtcTickAddYears :: "u64 option \<Rightarrow> u64 option \<Rightarrow> s32 \<Rightarrow> (s32 \<times> u64 option) option" where
  "sceRtcTickAddYears pTick1 pTick2 lAdd =
     (case (pTick1, pTick2) of
        (Some t1, Some t2) \<Rightarrow>
          (if lAdd = 0 then Some (RTC_OK, Some t2)
           else do {
             let time = SetTick t1;
             ASSERT (uint (dt_year time) + sint lAdd < 2 ^ 31);
             let time = time\<lparr>dt_year := dt_year time + ucast lAdd\<rparr>;
             let timeIsValid = sceRtcCheckValid (Some time);
             (if timeIsValid = RTC_OK
              then do {
                (_, _, tick) \<leftarrow> sceRtcGetTick (Some time) False;
                Some (RTC_OK, case tick of None \<Rightarrow> Some t1 | Some x \<Rightarrow> Some x)
              }
              else Some (timeIsValid, Some t1))
           })
      | _ \<Rightarrow> Some (ORBIS_RTC_ERROR_INVALID_POINTER, pTick1))"

end
