(* ===== verification/Rtc_Text.thy ===== *)
theory Rtc_Text
  imports Rtc
begin

section \<open>Clocks, time zones and textual dates\<close>

text \<open>
  The rest of \<^verbatim>\<open>core/libraries/rtc/rtc.cpp\<close>: the current time, conversions between local time and
  UTC, and the RFC 2822 and RFC 3339 formats in both directions.  A time zone is what
  \<^verbatim>\<open>sceKernelGettimezone\<close> answers, a clock reading the seconds and nanoseconds
  \<^verbatim>\<open>sceKernelClockGettime\<close> answers, \<open>None\<close> when it fails.
\<close>

subsection \<open>Time zones\<close>

definition tz_offset :: "OrbisKernelTimezone \<Rightarrow> s32" where
  "tz_offset tz = - (tz_minuteswest tz - tz_dsttime tz * 60)"

definition sceRtcConvertLocalTimeToUtc :: "OrbisKernelTimezone \<Rightarrow> u64 option \<Rightarrow> bool
    \<Rightarrow> (s32 \<times> u64 option) option" where
  "sceRtcConvertLocalTimeToUtc tz pTickLocal pTickUtc_null =
     (if pTickLocal = None then Some (ORBIS_RTC_ERROR_INVALID_POINTER, None)
      else sceRtcTickAddMinutes pTickUtc_null pTickLocal
             (scast (- (tz_dsttime tz * 60 - tz_minuteswest tz))))"

text \<open>The result of the addition is ignored.\<close>

definition sceRtcConvertUtcToLocalTime :: "OrbisKernelTimezone \<Rightarrow> u64 option \<Rightarrow> bool
    \<Rightarrow> (s32 \<times> u64 option) option" where
  "sceRtcConvertUtcToLocalTime tz pTickUtc pTickLocal_null =
     (if pTickUtc = None then Some (ORBIS_RTC_ERROR_INVALID_POINTER, None)
      else do {
        (_, local) \<leftarrow> sceRtcTickAddMinutes pTickLocal_null pTickUtc (scast (tz_offset tz));
        Some (0, local)
      })"

subsection \<open>The current time\<close>

definition clock_tick :: "s64 \<times> s64 \<Rightarrow> u64" where
  "clock_tick c = word_of_int (sint (snd c) sdiv 1000) + fst c * 1000000 + UNIX_EPOCH_TICKS"

definition sceRtcGetCurrentNetworkTick :: "(s64 \<times> s64) option \<Rightarrow> bool \<Rightarrow> s32 \<times> u64 option" where
  "sceRtcGetCurrentNetworkTick clock pTick_null =
     (if pTick_null then (ORBIS_RTC_ERROR_INVALID_POINTER, None)
      else (case clock of
              Some c \<Rightarrow> (RTC_OK, Some (clock_tick c))
            | None \<Rightarrow> (ORBIS_RTC_ERROR_NOT_INITIALIZED, None)))"

definition sceRtcGetCurrentAdNetworkTick :: "(s64 \<times> s64) option \<Rightarrow> bool \<Rightarrow> s32 \<times> u64 option" where
  "sceRtcGetCurrentAdNetworkTick = sceRtcGetCurrentNetworkTick"

definition sceRtcGetCurrentDebugNetworkTick :: "(s64 \<times> s64) option \<Rightarrow> bool \<Rightarrow> s32 \<times> u64 option" where
  "sceRtcGetCurrentDebugNetworkTick = sceRtcGetCurrentNetworkTick"

definition sceRtcGetCurrentRawNetworkTick :: "(s64 \<times> s64) option \<Rightarrow> bool \<Rightarrow> s32 \<times> u64 option" where
  "sceRtcGetCurrentRawNetworkTick = sceRtcGetCurrentNetworkTick"

definition sceRtcGetCurrentTick :: "(s64 \<times> s64) option \<Rightarrow> bool \<Rightarrow> s32 \<times> u64 option" where
  "sceRtcGetCurrentTick clock pTick_null =
     (if pTick_null then (ORBIS_RTC_ERROR_DATETIME_UNINITIALIZED, None)
      else (RTC_OK, map_option clock_tick clock))"

text \<open>\<open>clock_error\<close> is the return value of a failed \<^verbatim>\<open>sceKernelClockGettime\<close>.\<close>

definition sceRtcGetCurrentClock :: "(s64 \<times> s64) option \<Rightarrow> s32 \<Rightarrow> bool \<Rightarrow> s32
    \<Rightarrow> (s32 \<times> OrbisRtcDateTime option) option" where
  "sceRtcGetCurrentClock clock clock_error pTime_null timeZone =
     (if pTime_null then Some (ORBIS_RTC_ERROR_DATETIME_UNINITIALIZED, None)
      else (case clock of
              None \<Rightarrow> Some (clock_error, None)
            | Some c \<Rightarrow>
                do {
                  (_, tick) \<leftarrow> sceRtcTickAddMinutes False (Some (clock_tick c)) (scast timeZone);
                  Some (RTC_OK, map_option SetTick tick)
                }))"

text \<open>\<^verbatim>\<open>tzOffset\<close> is unsigned; the conversion to the signed parameter gives the negative number back.\<close>

definition sceRtcGetCurrentClockLocalTime :: "(s64 \<times> s64) option \<Rightarrow> OrbisKernelTimezone + s32 \<Rightarrow> bool
    \<Rightarrow> (s32 \<times> OrbisRtcDateTime option) option" where
  "sceRtcGetCurrentClockLocalTime clock timezone pTime_null =
     (if pTime_null then Some (ORBIS_RTC_ERROR_DATETIME_UNINITIALIZED, None)
      else (case timezone of
              Inr e \<Rightarrow> Some (e, None)
            | Inl tz \<Rightarrow>
                do {
                  newTick \<leftarrow> snd (sceRtcGetCurrentTick clock False);
                  (_, tick) \<leftarrow> sceRtcTickAddMinutes False (Some newTick) (scast (tz_offset tz));
                  Some (RTC_OK, map_option SetTick tick)
                }))"

text \<open>
  Setting a clock: \<open>settime\<close> stands for \<^verbatim>\<open>posix_clock_settime\<close>, given the clock, the seconds and
  what goes into the nanoseconds, and answers its return value and the error number.  The
  tick is read before the pointer is compared with null.
\<close>

definition set_network_tick :: "s32 \<Rightarrow> (s32 \<Rightarrow> (u64 \<times> u64) option \<Rightarrow> s32 \<times> s32) \<Rightarrow> u64 option
    \<Rightarrow> s32 option" where
  "set_network_tick clock_id settime pTick =
     do {
       tick \<leftarrow> pTick;
       (if UNIX_EPOCH_TICKS \<ge> tick then Some ORBIS_RTC_ERROR_INVALID_VALUE
        else let temp = tick - UNIX_EPOCH_TICKS;
                 (ret, errno) = settime clock_id (Some (temp div 1000000, temp mod 1000000))
             in Some (if sint ret < 0 then errno + 0x80020000 else ret))
     }"

definition sceRtcSetCurrentNetworkTick where "sceRtcSetCurrentNetworkTick = set_network_tick 0x10"
definition sceRtcSetCurrentDebugNetworkTick where "sceRtcSetCurrentDebugNetworkTick = set_network_tick 0x11"
definition sceRtcSetCurrentAdNetworkTick where "sceRtcSetCurrentAdNetworkTick = set_network_tick 0x12"

definition sceRtcSetCurrentTick :: "(u64 \<times> u64 \<Rightarrow> s32) \<Rightarrow> u64 option \<Rightarrow> s32" where
  "sceRtcSetCurrentTick settimeofday pTick =
     (case pTick of
        None \<Rightarrow> ORBIS_RTC_ERROR_INVALID_POINTER
      | Some tick \<Rightarrow>
          (if UNIX_EPOCH_TICKS \<ge> tick then ORBIS_RTC_ERROR_INVALID_VALUE
           else let temp = tick - UNIX_EPOCH_TICKS
                in settimeofday (word_of_int (sint temp sdiv 1000000),
                                 word_of_int (sint temp smod 1000000))))"

subsection \<open>Formatting\<close>

text \<open>\<^verbatim>\<open>std::to_string\<close> of a number that is not negative.\<close>

fun to_string :: "nat \<Rightarrow> string" where
  "to_string n = (if n < 10 then [char_of (48 + n)] else to_string (n div 10) @ [char_of (48 + n mod 10)])"

declare to_string.simps [simp del]

definition two_digits :: "nat \<Rightarrow> string" where
  "two_digits n = (if n < 10 then ''0'' @ to_string n else to_string n)"

definition week_day_name :: "s32 \<Rightarrow> string" where
  "week_day_name d =
     (if d = 0 then ''Sun, '' else if d = 1 then ''Mon, '' else if d = 2 then ''Tue, ''
      else if d = 3 then ''Wed, '' else if d = 4 then ''Thu, '' else if d = 5 then ''Fri, ''
      else if d = 6 then ''Sat, '' else [])"

definition month_names :: "string list" where
  "month_names = [''Jan'', ''Feb'', ''Mar'', ''Apr'', ''May'', ''Jun'', ''Jul'', ''Aug'', ''Sep'',
     ''Oct'', ''Nov'', ''Dec'']"

definition month_name :: "nat \<Rightarrow> string" where
  "month_name m = (if 1 \<le> m \<and> m \<le> 12 then month_names ! (m - 1) @ '' '' else [])"

text \<open>
  The zone: \<open>utc\<close> for zero, otherwise the sign of the hours, two digits of hours, and the
  minutes without padding; \<open>colon\<close> separates them.
\<close>

definition zone_suffix :: "string \<Rightarrow> string \<Rightarrow> s32 \<Rightarrow> string" where
  "zone_suffix utc colon iTimeZoneMinutes =
     (if iTimeZoneMinutes = 0 then utc
      else let timeZoneHours = sint iTimeZoneMinutes sdiv 60;
               timeZoneRemainder = sint iTimeZoneMinutes smod 60;
               sign = (if timeZoneHours < 0 then ''-'' else ''+'');
               hours = nat \<bar>timeZoneHours\<bar>;
               minutes = nat \<bar>timeZoneRemainder\<bar>
           in sign @ two_digits hours @ colon @ (if minutes = 0 then ''00'' else to_string minutes))"

text \<open>The date to format: the given tick or the current one, moved by the zone.\<close>

definition format_time :: "(s64 \<times> s64) option \<Rightarrow> u64 option \<Rightarrow> s32 \<Rightarrow> OrbisRtcDateTime option" where
  "format_time clock pTickUtc iTimeZoneMinutes =
     do {
       tick \<leftarrow> (case pTickUtc of None \<Rightarrow> snd (sceRtcGetCurrentTick clock False) | Some t \<Rightarrow> Some t);
       (_, tick) \<leftarrow> sceRtcTickAddMinutes False (Some tick) (scast iTimeZoneMinutes);
       t \<leftarrow> tick;
       Some (SetTick t)
     }"

definition clock_string :: "OrbisRtcDateTime \<Rightarrow> string" where
  "clock_string t = two_digits (unat (dt_hour t)) @ '':'' @ two_digits (unat (dt_minute t)) @ '':'' @
     two_digits (unat (dt_second t))"

definition sceRtcFormatRFC2822 :: "s32 option \<Rightarrow> (s64 \<times> s64) option \<Rightarrow> bool \<Rightarrow> u64 option \<Rightarrow> s32
    \<Rightarrow> (s32 \<times> string option) option" where
  "sceRtcFormatRFC2822 sdk clock pszDateTime_null pTickUtc iTimeZoneMinutes =
     (if pszDateTime_null then Some (ORBIS_RTC_ERROR_INVALID_POINTER, None)
      else do {
        t \<leftarrow> format_time clock pTickUtc iTimeZoneMinutes;
        (if sint (sceRtcCheckValid (Some t)) \<ge> 0
         then let weekDay = sceRtcGetDayOfWeek sdk (ucast (dt_year t)) (ucast (dt_month t))
                    (ucast (dt_day t))
              in Some (RTC_OK, Some (week_day_name weekDay @ two_digits (unat (dt_day t)) @ '' '' @
                   month_name (unat (dt_month t)) @ to_string (unat (dt_year t)) @ '' '' @
                   clock_string t @ '' '' @ zone_suffix ''+0000'' [] iTimeZoneMinutes))
         else Some (RTC_OK, None))
      })"

definition sceRtcFormatRFC3339Precise :: "(s64 \<times> s64) option \<Rightarrow> bool \<Rightarrow> u64 option \<Rightarrow> s32
    \<Rightarrow> (s32 \<times> string option) option" where
  "sceRtcFormatRFC3339Precise clock pszDateTime_null pTickUtc iTimeZoneMinutes =
     (if pszDateTime_null then Some (ORBIS_RTC_ERROR_INVALID_POINTER, None)
      else do {
        t \<leftarrow> format_time clock pTickUtc iTimeZoneMinutes;
        Some (RTC_OK, Some (to_string (unat (dt_year t)) @ ''-'' @ two_digits (unat (dt_month t)) @ ''-'' @
          two_digits (unat (dt_day t)) @ ''T'' @ clock_string t @
          (if dt_microsecond t \<noteq> 0
           then ''.'' @ take 2 (to_string (unat (dt_microsecond t div 1000))) else ''.00'') @
          zone_suffix ''Z'' '':'' iTimeZoneMinutes))
      })"

definition sceRtcFormatRFC3339 :: "(s64 \<times> s64) option \<Rightarrow> bool \<Rightarrow> u64 option \<Rightarrow> s32
    \<Rightarrow> (s32 \<times> string option) option" where
  "sceRtcFormatRFC3339 = sceRtcFormatRFC3339Precise"

definition sceRtcFormatRFC2822LocalTime :: "s32 option \<Rightarrow> (s64 \<times> s64) option \<Rightarrow> OrbisKernelTimezone
    \<Rightarrow> bool \<Rightarrow> u64 option \<Rightarrow> (s32 \<times> string option) option" where
  "sceRtcFormatRFC2822LocalTime sdk clock tz pszDateTime_null pTickUtc =
     sceRtcFormatRFC2822 sdk clock pszDateTime_null pTickUtc (tz_offset tz)"

definition sceRtcFormatRFC3339LocalTime :: "(s64 \<times> s64) option \<Rightarrow> OrbisKernelTimezone \<Rightarrow> bool
    \<Rightarrow> u64 option \<Rightarrow> (s32 \<times> string option) option" where
  "sceRtcFormatRFC3339LocalTime clock tz pszDateTime_null pTickUtc =
     sceRtcFormatRFC3339 clock pszDateTime_null pTickUtc (tz_offset tz)"

definition sceRtcFormatRFC3339PreciseLocalTime :: "(s64 \<times> s64) option \<Rightarrow> OrbisKernelTimezone \<Rightarrow> bool
    \<Rightarrow> u64 option \<Rightarrow> (s32 \<times> string option) option" where
  "sceRtcFormatRFC3339PreciseLocalTime clock tz pszDateTime_null pTickUtc =
     sceRtcFormatRFC3339Precise clock pszDateTime_null pTickUtc (tz_offset tz)"

subsection \<open>Parsing\<close>

text \<open>
  \<^verbatim>\<open>std::stoi\<close>, \<open>None\<close> where it throws, \<^verbatim>\<open>substr\<close> and the subscript of a string, whose end is a
  null character.
\<close>

definition is_space :: "char \<Rightarrow> bool" where
  "is_space c \<longleftrightarrow> c = CHR '' '' \<or> (9 \<le> (of_char c :: nat) \<and> (of_char c :: nat) \<le> 13)"

definition is_digit :: "char \<Rightarrow> bool" where
  "is_digit c \<longleftrightarrow> 48 \<le> (of_char c :: nat) \<and> (of_char c :: nat) \<le> 57"

definition decimal :: "string \<Rightarrow> int" where
  "decimal ds = foldl (\<lambda>v c. 10 * v + (of_char c - 48)) 0 ds"

definition stoi :: "string \<Rightarrow> int option" where
  "stoi s =
     (let s = dropWhile is_space s;
          neg = (s \<noteq> [] \<and> hd s = CHR ''-'');
          s = (if s \<noteq> [] \<and> (hd s = CHR ''-'' \<or> hd s = CHR ''+'') then tl s else s);
          ds = takeWhile is_digit s;
          v = (if neg then - decimal ds else decimal ds)
      in if ds = [] \<or> v < - (2 ^ 31) \<or> 2 ^ 31 \<le> v then None else Some v)"

definition substr :: "string \<Rightarrow> nat \<Rightarrow> nat \<Rightarrow> string option" where
  "substr s pos n = (if pos > List.length s then None else Some (take n (drop pos s)))"

definition char_at :: "string \<Rightarrow> nat \<Rightarrow> char option" where
  "char_at s i =
     (if i < List.length s then Some (s ! i) else if i = List.length s then Some (CHR 0x00) else None)"

definition number_at :: "string \<Rightarrow> nat \<Rightarrow> nat \<Rightarrow> int option" where
  "number_at s pos n = do { t \<leftarrow> substr s pos n; stoi t }"

definition GetMonthFromString :: "string \<Rightarrow> int" where
  "GetMonthFromString monthStr =
     (case List.find (\<lambda>i. month_names ! i = monthStr) [0..<12] of None \<Rightarrow> 1 | Some i \<Rightarrow> int i + 1)"

text \<open>
  The tick of a parsed date, whose return value is not looked at: a date that is not valid
  leaves the tick as it was.
\<close>

definition store_tick :: "OrbisRtcDateTime \<Rightarrow> u64 \<Rightarrow> u64 option" where
  "store_tick t old =
     do {
       (_, _, tick) \<leftarrow> sceRtcGetTick (Some t) False;
       Some (case tick of None \<Rightarrow> old | Some x \<Rightarrow> x)
     }"

text \<open>The offset after a sign, in minutes, is added for a plus and taken off for a minus.\<close>

definition zone_minutes :: "string \<Rightarrow> nat \<Rightarrow> nat \<Rightarrow> u64 \<Rightarrow> u64 option" where
  "zone_minutes s hours_pos minutes_pos tick =
     do {
       sign \<leftarrow> char_at s (hours_pos - 1);
       (if sign = CHR ''-'' \<or> sign = CHR ''+''
        then do {
          h \<leftarrow> number_at s hours_pos 2;
          m \<leftarrow> number_at s minutes_pos 2;
          let offset = (if sign = CHR ''-'' then - (h * 60 + m) else h * 60 + m);
          (_, tick) \<leftarrow> sceRtcTickAddMinutes False (Some tick) (word_of_int offset);
          tick
        }
        else Some tick)
     }"

definition sceRtcParseRFC3339 :: "u64 option \<Rightarrow> string option \<Rightarrow> (s32 \<times> u64 option) option" where
  "sceRtcParseRFC3339 pTickUtc pszDateTime =
     (case (pTickUtc, pszDateTime) of
        (Some old, Some s) \<Rightarrow>
          do {
            year \<leftarrow> number_at s 0 4;
            month \<leftarrow> number_at s 5 2;
            day \<leftarrow> number_at s 8 2;
            hour \<leftarrow> number_at s 11 2;
            minute \<leftarrow> number_at s 14 2;
            second \<leftarrow> number_at s 17 2;
            c \<leftarrow> char_at s 19;
            microsecond \<leftarrow> (if c = CHR ''.'' then number_at s 20 2 else Some 0);
            let timezone_pos = (if c = CHR ''.'' then 22 else 19);
            tick \<leftarrow> store_tick \<lparr>dt_year = word_of_int year, dt_month = word_of_int month,
              dt_day = word_of_int day, dt_hour = word_of_int hour, dt_minute = word_of_int minute,
              dt_second = word_of_int second, dt_microsecond = word_of_int microsecond\<rparr> old;
            z \<leftarrow> char_at s timezone_pos;
            tick \<leftarrow> (if z \<noteq> CHR ''Z'' then zone_minutes s (timezone_pos + 1) (timezone_pos + 4) tick
                     else Some tick);
            Some (RTC_OK, Some tick)
          }
      | _ \<Rightarrow> Some (ORBIS_RTC_ERROR_INVALID_POINTER, pTickUtc))"

definition sceRtcParseDateTime :: "u64 option \<Rightarrow> string option \<Rightarrow> (s32 \<times> u64 option) option" where
  "sceRtcParseDateTime pTickUtc pszDateTime =
     (case (pTickUtc, pszDateTime) of
        (Some old, Some s) \<Rightarrow>
          do {
            formatKey \<leftarrow> char_at s 19;
            (if formatKey = CHR ''Z'' \<or> formatKey = CHR ''-'' \<or> formatKey = CHR ''+'' \<or>
                formatKey = CHR ''.''
             then do { (_, tick) \<leftarrow> sceRtcParseRFC3339 pTickUtc pszDateTime; Some (RTC_OK, tick) }
             else if formatKey = CHR '':''
             then do {
               day \<leftarrow> number_at s 5 2;
               month \<leftarrow> substr s 8 3;
               year \<leftarrow> number_at s 12 4;
               hour \<leftarrow> number_at s 17 2;
               minute \<leftarrow> number_at s 20 2;
               second \<leftarrow> number_at s 23 2;
               tick \<leftarrow> store_tick \<lparr>dt_year = word_of_int year,
                 dt_month = word_of_int (GetMonthFromString month), dt_day = word_of_int day,
                 dt_hour = word_of_int hour, dt_minute = word_of_int minute,
                 dt_second = word_of_int second, dt_microsecond = 0\<rparr> old;
               tick \<leftarrow> zone_minutes s 27 29 tick;
               Some (RTC_OK, Some tick)
             }
             else do {
               month \<leftarrow> substr s 4 3;
               day \<leftarrow> number_at s 8 2;
               hour \<leftarrow> number_at s 11 2;
               minute \<leftarrow> number_at s 14 2;
               second \<leftarrow> number_at s 17 2;
               year \<leftarrow> number_at s 20 4;
               tick \<leftarrow> store_tick \<lparr>dt_year = word_of_int year,
                 dt_month = word_of_int (GetMonthFromString month), dt_day = word_of_int day,
                 dt_hour = word_of_int hour, dt_minute = word_of_int minute,
                 dt_second = word_of_int second, dt_microsecond = 0\<rparr> old;
               Some (RTC_OK, Some tick)
             })
          }
      | _ \<Rightarrow> Some (ORBIS_RTC_ERROR_INVALID_POINTER, pTickUtc))"

end
