(* ===== verification/Rtc_Calendar.thy ===== *)
theory Rtc_Calendar
  imports Rtc
begin

section \<open>The calendar behind the ticks\<close>

text \<open>
  \<^verbatim>\<open>sceRtcGetTick\<close> and \<^verbatim>\<open>sceRtcSetTick\<close> count days with integer formulas on years that begin in
  March.  This theory relates them to the calendar of the standard library: the day number of a
  date, and back.
\<close>

subsection \<open>Years\<close>

lemma div_pred:
  fixes y k :: int
  assumes "0 < k"
  shows "y div k = (y - 1) div k + (if y mod k = 0 then 1 else 0)"
proof (cases "y mod k = 0")
  case True
  then obtain q where q: "y = k * q" by auto
  have "(y - 1) div k = ((k - 1) + k * (q - 1)) div k" using q by (simp add: algebra_simps)
  also have "\<dots> = (q - 1) + (k - 1) div k" using assms by (intro div_mult_self2) simp
  finally show ?thesis using True q assms by simp
next
  case False
  have "(y - 1) div k = ((y mod k - 1) + k * (y div k)) div k" by (simp add: algebra_simps)
  also have "\<dots> = y div k + (y mod k - 1) div k" using assms by (intro div_mult_self2) simp
  finally have "(y - 1) div k = y div k + (y mod k - 1) div k" .
  moreover have "0 < y mod k" using False assms by (simp add: order_less_le)
  moreover have "y mod k < k" using assms by simp
  ultimately show ?thesis using False by simp
qed

lemma mod_zero_dvd:
  fixes y a b :: int
  assumes "a dvd b" "y mod b = 0"
  shows "y mod a = 0"
  using dvd_trans [OF assms(1)] assms(2) by (simp only: mod_eq_0_iff_dvd)

lemma leap_count:
  "(if y mod 4 = 0 then 1 else 0) - (if y mod 100 = 0 then 1 else 0) + (if y mod 400 = 0 then 1 else 0)
     = (if is_leap y then 1 else 0 :: int)"
proof -
  have "y mod 100 = 0 \<Longrightarrow> y mod 4 = 0" "y mod 400 = 0 \<Longrightarrow> y mod 100 = 0"
    by (rule mod_zero_dvd [of _ 100], simp, simp) (rule mod_zero_dvd [of _ 400], simp, simp)
  then show ?thesis unfolding is_leap_def
    by (cases "y mod 4 = 0"; cases "y mod 100 = 0"; cases "y mod 400 = 0") simp_all
qed

text \<open>The day number of the first of March less 60: years counted from March.\<close>

definition march_days :: "int \<Rightarrow> int" where
  "march_days y = 365 * y + y div 4 - y div 100 + y div 400"

lemma march_days_step: "march_days y = march_days (y - 1) + 365 + (if is_leap y then 1 else 0)"
proof -
  define a b c l where "a = (if y mod 4 = 0 then 1 else 0 :: int)"
    and "b = (if y mod 100 = 0 then 1 else 0 :: int)" and "c = (if y mod 400 = 0 then 1 else 0 :: int)"
    and "l = (if is_leap y then 1 else 0 :: int)"
  then have d: "y div 4 = (y - 1) div 4 + a" "y div 100 = (y - 1) div 100 + b"
    "y div 400 = (y - 1) div 400 + c" and l: "l = a - b + c"
    using div_pred [of 4 y] div_pred [of 100 y] div_pred [of 400 y] leap_count [of y] by auto
  show ?thesis unfolding march_days_def l_def [symmetric] d l by (simp add: algebra_simps)
qed

lemma days_before_year_march: "days_before_year y = march_days (y - 1)"
  by (simp add: days_before_year_def march_days_def)

lemma div4_146097: "(146097 * c) div 4 = 36524 * c + c div (4::int)"
proof -
  have "(146097 * c) div 4 = (c + 4 * (36524 * c)) div 4" by simp
  then show ?thesis by (simp only: div_mult_self2)
qed

lemma div4_1461: "(1461 * c) div 4 = 365 * c + c div (4::int)"
proof -
  have "(1461 * c) div 4 = (c + 4 * (365 * c)) div 4" by simp
  then show ?thesis by (simp only: div_mult_self2)
qed

lemma century_days:
  fixes y :: int
  shows "(146097 * (y div 100)) div 4 + (1461 * (y mod 100)) div 4 = march_days y"
proof -
  have y: "y = 100 * (y div 100) + y mod 100" by simp
  have "y div 4 = (y mod 100 + 4 * (25 * (y div 100))) div 4" using y by simp
  then have "y div 4 = 25 * (y div 100) + (y mod 100) div 4" by (simp only: div_mult_self2)
  moreover have "y div 400 = (y div 100) div 4" by (simp add: zdiv_zmult2_eq [symmetric])
  ultimately show ?thesis
    using arg_cong [OF y, of "\<lambda>z. 365 * z"]
    by (simp only: div4_146097 div4_1461 march_days_def distrib_left)
qed

subsection \<open>Months\<close>

lemma month_cases:
  assumes "1 \<le> m" "m \<le> (12::int)"
  obtains "m = 1" | "m = 2" | "m = 3" | "m = 4" | "m = 5" | "m = 6" | "m = 7" | "m = 8" | "m = 9"
    | "m = 10" | "m = 11" | "m = 12"
proof -
  have "m \<in> {1..12}" using assms by simp
  moreover have "{1..12} = {1, 2, 3, 4, 5, 6, 7, 8, 9, 10, 11, 12 :: int}" by (simp add: simp_from_to)
  ultimately show thesis using that by blast
qed

lemma days_before_month_eval:
  "days_before_month y 1 = 0"
  "days_before_month y 2 = 31"
  "days_before_month y 3 = 31 + last_day y 2"
  "days_before_month y 4 = 62 + last_day y 2"
  "days_before_month y 5 = 92 + last_day y 2"
  "days_before_month y 6 = 123 + last_day y 2"
  "days_before_month y 7 = 153 + last_day y 2"
  "days_before_month y 8 = 184 + last_day y 2"
  "days_before_month y 9 = 215 + last_day y 2"
  "days_before_month y 10 = 245 + last_day y 2"
  "days_before_month y 11 = 276 + last_day y 2"
  "days_before_month y 12 = 306 + last_day y 2"
  by (simp_all add: days_before_month_def last_day_def upt_rec)

text \<open>The formula of \<^verbatim>\<open>sceRtcGetTick\<close>, for a year and a month counted from March.\<close>

definition tick_days :: "int \<Rightarrow> int \<Rightarrow> int \<Rightarrow> int" where
  "tick_days y m d =
     (146097 * (y div 100)) div 4 + (1461 * (y - 100 * (y div 100))) div 4 + (153 * m + 2) div 5 + d"

definition march_month :: "int \<Rightarrow> int" where
  "march_month m = (if m > 2 then m - 3 else m + 9)"

definition march_year :: "int \<Rightarrow> int \<Rightarrow> int" where
  "march_year y m = (if m > 2 then y else y - 1)"

lemma tick_days_march: "tick_days y m d = march_days y + (153 * m + 2) div 5 + d"
proof -
  have "y - 100 * (y div 100) = y mod 100" by (simp add: minus_mult_div_eq_mod)
  then show ?thesis using century_days [of y] by (simp add: tick_days_def)
qed

lemma tick_days_calendar:
  assumes "1 \<le> m" "m \<le> 12"
  shows "tick_days (march_year y m) (march_month m) d - 307 = chrono_days y m d"
  using assms
  by (rule month_cases)
     (simp_all add: tick_days_march march_year_def march_month_def chrono_days_def
       days_before_year_march days_before_month_eval last_day_def march_days_step [of y])


subsection \<open>The tick of a date\<close>

text \<open>A date that passes \<^verbatim>\<open>sceRtcCheckValid\<close>, with the numbers it holds.\<close>

definition date_ok :: "OrbisRtcDateTime \<Rightarrow> bool" where
  "date_ok t \<longleftrightarrow>
     1 \<le> uint (dt_year t) \<and> uint (dt_year t) \<le> 9999 \<and>
     1 \<le> uint (dt_month t) \<and> uint (dt_month t) \<le> 12 \<and>
     1 \<le> uint (dt_day t) \<and> uint (dt_day t) \<le> last_day (uint (dt_year t)) (uint (dt_month t)) \<and>
     uint (dt_hour t) < 24 \<and> uint (dt_minute t) < 60 \<and> uint (dt_second t) < 60 \<and>
     uint (dt_microsecond t) < 1000000"

lemma chrono_year_id: "0 \<le> y \<Longrightarrow> y \<le> 9999 \<Longrightarrow> chrono_year y = y"
  by (simp add: chrono_year_def int_word_sint)

lemma uint_pos: "(w :: 'a::len word) \<noteq> 0 \<longleftrightarrow> 1 \<le> uint w"
proof -
  have "w \<noteq> 0 \<longleftrightarrow> 0 < uint w" using uint_ge_0 [of w] by (metis order_less_le uint_0_iff)
  then show ?thesis by linarith
qed

lemma CheckValid_iff: "sceRtcCheckValid (Some t) = RTC_OK \<longleftrightarrow> date_ok t"
proof -
  have y: "chrono_year (uint (dt_year t)) = uint (dt_year t)" if "\<not> dt_year t > 9999"
    using that by (intro chrono_year_id) (simp_all add: not_less word_le_def)
  show ?thesis
    using y unfolding sceRtcCheckValid_def date_ok_def
    by (auto simp: Let_def rtc_error_defs uint_pos [symmetric] not_less word_le_def word_less_def
        split: if_splits)
qed

definition tick_of :: "OrbisRtcDateTime \<Rightarrow> int" where
  "tick_of t = chrono_days (uint (dt_year t)) (uint (dt_month t)) (uint (dt_day t)) * 86400000000 +
     uint (dt_hour t) * 3600000000 + uint (dt_minute t) * 60000000 + uint (dt_second t) * 1000000 +
     uint (dt_microsecond t)"

lemma march_days_bounds:
  assumes "0 \<le> y" "y \<le> 9999"
  shows "0 \<le> march_days y" "march_days y \<le> 3660000"
proof -
  have "y div 100 \<le> y div 4" using assms by (intro zdiv_mono2) auto
  moreover have "0 \<le> y div 400" using assms by simp
  ultimately show "0 \<le> march_days y" using assms by (simp add: march_days_def)
  have "y div 4 \<le> 9999 div 4" "y div 400 \<le> 9999 div 400" "0 \<le> y div 100"
    using assms by (auto intro: zdiv_mono1)
  with assms show "march_days y \<le> 3660000" by (simp add: march_days_def)
qed

lemma days_before_month_bounds:
  assumes "1 \<le> m" "m \<le> 12"
  shows "0 \<le> days_before_month y m" "days_before_month y m \<le> 335"
  using assms by (auto elim!: month_cases simp: days_before_month_eval last_day_def)

lemma last_day_le: "last_day y m \<le> 31"
  by (simp add: last_day_def)

lemma chrono_days_bounds:
  assumes "date_ok t"
  shows "0 \<le> chrono_days (uint (dt_year t)) (uint (dt_month t)) (uint (dt_day t))"
    "chrono_days (uint (dt_year t)) (uint (dt_month t)) (uint (dt_day t)) < 3661000"
  using assms march_days_bounds [of "uint (dt_year t) - 1"]
    days_before_month_bounds [of "uint (dt_month t)" "uint (dt_year t)"]
    last_day_le [of "uint (dt_year t)" "uint (dt_month t)"]
  by (simp_all add: date_ok_def chrono_days_def days_before_year_march)

lemma tick_of_bounds:
  assumes "date_ok t"
  shows "0 \<le> tick_of t" "tick_of t < 2 ^ 62"
proof -
  have "uint (dt_hour t) \<le> 23" "uint (dt_minute t) \<le> 59" "uint (dt_second t) \<le> 59"
    "uint (dt_microsecond t) \<le> 999999" using assms by (simp_all add: date_ok_def)
  with chrono_days_bounds [OF assms] show "0 \<le> tick_of t" "tick_of t < 2 ^ 62"
    unfolding tick_of_def by simp_all
qed

text \<open>The date as \<^verbatim>\<open>sceRtcGetTick\<close> leaves it: the month counted from March.\<close>

definition march_date :: "OrbisRtcDateTime \<Rightarrow> OrbisRtcDateTime" where
  "march_date t = (if dt_month t > 2 then t\<lparr>dt_month := dt_month t - 3\<rparr>
                   else t\<lparr>dt_month := dt_month t + 9, dt_year := dt_year t - 1\<rparr>)"

lemma uint_sub_eq: "uint (b :: 'a::len word) \<le> uint a \<Longrightarrow> uint (a - b) = uint a - uint b"
  by (simp add: uint_sub_if')

lemma march_date_fields:
  assumes "date_ok t"
  shows "uint (dt_month (march_date t)) = march_month (uint (dt_month t))"
    "uint (dt_year (march_date t)) = march_year (uint (dt_year t)) (uint (dt_month t))"
    "dt_day (march_date t) = dt_day t" "dt_hour (march_date t) = dt_hour t"
    "dt_minute (march_date t) = dt_minute t" "dt_second (march_date t) = dt_second t"
    "dt_microsecond (march_date t) = dt_microsecond t"
proof -
  have gt: "dt_month t > 2 \<longleftrightarrow> uint (dt_month t) > 2" by (simp add: word_less_def)
  have b: "1 \<le> uint (dt_month t)" "uint (dt_month t) \<le> 12" "1 \<le> uint (dt_year t)"
    using assms by (simp_all add: date_ok_def)
  have "uint (dt_month t - 3) = uint (dt_month t) - 3" if "uint (dt_month t) > 2"
    using that by (subst uint_sub_eq) auto
  moreover have "uint (dt_month t + 9) = uint (dt_month t) + 9"
    using b by (simp add: uint_add_lem [THEN iffD1])
  moreover have "uint (dt_year t - 1) = uint (dt_year t) - 1"
    using b by (subst uint_sub_eq) auto
  ultimately show "uint (dt_month (march_date t)) = march_month (uint (dt_month t))"
    "uint (dt_year (march_date t)) = march_year (uint (dt_year t)) (uint (dt_month t))"
    using gt by (auto simp: march_date_def march_month_def march_year_def)
qed (auto simp: march_date_def)

lemma GetTick_eq:
  assumes "date_ok t"
  shows "sceRtcGetTick (Some t) False =
    (if uint (dt_minute t) < 36
     then Some (RTC_OK, Some (march_date t), Some (of_int (tick_of t))) else None)"
proof -
  note f = march_date_fields [OF assms]
  let ?y = "march_year (uint (dt_year t)) (uint (dt_month t))"
  let ?m = "march_month (uint (dt_month t))"
  have c: "tick_days ?y ?m (uint (dt_day t)) - 307 =
      chrono_days (uint (dt_year t)) (uint (dt_month t)) (uint (dt_day t))"
    using assms by (intro tick_days_calendar) (auto simp: date_ok_def)
  have "(of_int (tick_days ?y ?m (uint (dt_day t))) - 307) * 86400000000 +
      (of_int (uint (dt_hour t) * 3600000000 + uint (dt_minute t) * 60000000 +
        uint (dt_second t) * 1000000 + uint (dt_microsecond t)) :: u64) =
      of_int ((tick_days ?y ?m (uint (dt_day t)) - 307) * 86400000000 +
        (uint (dt_hour t) * 3600000000 + uint (dt_minute t) * 60000000 +
        uint (dt_second t) * 1000000 + uint (dt_microsecond t)))" by simp
  also have "\<dots> = of_int (tick_of t)" unfolding c tick_of_def by (simp add: algebra_simps)
  finally have e: "(of_int (tick_days ?y ?m (uint (dt_day t))) - 307) * 86400000000 +
      (of_int (uint (dt_hour t) * 3600000000 + uint (dt_minute t) * 60000000 +
        uint (dt_second t) * 1000000 + uint (dt_microsecond t)) :: u64) = of_int (tick_of t)" .
  have v: "sceRtcCheckValid (Some t) = 0" using assms CheckValid_iff [of t] by (simp add: RTC_OK_def)
  have "uint (dt_minute t) * 60000000 < 2 ^ 31 \<longleftrightarrow> uint (dt_minute t) < 36" by auto
  then show ?thesis
    unfolding sceRtcGetTick_def march_date_def [symmetric] Let_def option.case v f
      tick_days_def [symmetric] e
    by (auto simp: ASSERT_def)
qed


subsection \<open>The date of a tick\<close>

text \<open>The formulas of \<^verbatim>\<open>sceRtcSetTick\<close> on integers give back what \<open>tick_days\<close> was given.\<close>

lemma century_of_days:
  fixes c r :: int
  assumes r: "1 \<le> r" "r \<le> 36525" "r = 36525 \<longrightarrow> c mod 4 = 3"
    and N: "N = (146097 * c) div 4 + r"
  shows "(4 * N - 1) div 146097 = c" "(4 * N - 1 - 146097 * c) div 4 = r - 1"
proof -
  have q: "4 * ((146097 * c) div 4) = 146097 * c - c mod 4"
    by (simp add: div4_146097 minus_mod_eq_mult_div [symmetric])
  have b: "0 \<le> c mod 4" "c mod 4 \<le> 3" by simp_all
  have e: "4 * N - 1 = 146097 * c + (4 * r - 1 - c mod 4)" using N q by simp
  moreover have "0 \<le> 4 * r - 1 - c mod 4" using b r by linarith
  moreover have "4 * r - 1 - c mod 4 < 146097" using b r by (cases "r = 36525") auto
  ultimately show "(4 * N - 1) div 146097 = c" by (simp add: div_mult_self2 mult.commute)
  have "(4 * N - 1 - 146097 * c) div 4 = ((3 - c mod 4) + 4 * (r - 1)) div 4" using e by simp
  also have "\<dots> = (r - 1) + (3 - c mod 4) div 4" by (simp only: div_mult_self2)
  finally show "(4 * N - 1 - 146097 * c) div 4 = r - 1" using b by simp
qed

lemma year_of_days:
  fixes a s :: int
  assumes s: "1 \<le> s" "s \<le> 366" "s = 366 \<longrightarrow> a mod 4 = 3"
    and r: "r = (1461 * a) div 4 + s"
  shows "(4 * (r - 1) + 3) div 1461 = a" "(4 * (r - 1) + 7 - 1461 * a) div 4 = s"
proof -
  have q: "4 * ((1461 * a) div 4) = 1461 * a - a mod 4"
    by (simp add: div4_1461 minus_mod_eq_mult_div [symmetric])
  have b: "0 \<le> a mod 4" "a mod 4 \<le> 3" by simp_all
  have e: "4 * (r - 1) + 3 = 1461 * a + (4 * s - 1 - a mod 4)" using r q by simp
  moreover have "0 \<le> 4 * s - 1 - a mod 4" using b s by linarith
  moreover have "4 * s - 1 - a mod 4 < 1461" using b s by (cases "s = 366") auto
  ultimately show "(4 * (r - 1) + 3) div 1461 = a" by (simp add: div_mult_self2 mult.commute)
  have "(4 * (r - 1) + 7 - 1461 * a) div 4 = ((3 - a mod 4) + 4 * s) div 4" using e by simp
  also have "\<dots> = s + (3 - a mod 4) div 4" by (simp only: div_mult_self2)
  finally show "(4 * (r - 1) + 7 - 1461 * a) div 4 = s" using b by simp
qed

lemma month_of_days:
  fixes m d :: int
  assumes "1 \<le> m" "m \<le> 12" "1 \<le> d" "d \<le> last_day y m"
    and s: "s = (153 * march_month m + 2) div 5 + d"
  shows "(5 * s - 3) div 153 = march_month m" "(5 * s + 2 - 153 * march_month m) div 5 = d"
    "1 \<le> s" "s \<le> 366" "s = 366 \<longrightarrow> m = 2 \<and> is_leap y"
proof -
  let ?m = "march_month m"
  define q where "q = (153 * ?m + 2) mod 5"
  have q: "0 \<le> q" "q \<le> 4" "5 * ((153 * ?m + 2) div 5) = 153 * ?m + 2 - q"
    by (simp_all add: q_def minus_mod_eq_mult_div [symmetric])
  have d31: "last_day y m \<le> 31" "last_day y m = 31 \<longrightarrow> q \<ge> 2"
    "(153 * ?m + 2) div 5 + last_day y m \<le> 366" "0 \<le> (153 * ?m + 2) div 5"
    "(153 * ?m + 2) div 5 + last_day y m = 366 \<longrightarrow> m = 2 \<and> is_leap y"
    using assms(1,2) unfolding q_def by (rule month_cases; simp add: march_month_def last_day_def)+
  have e: "5 * s - 3 = 153 * ?m + (5 * d - 1 - q)" using s q by simp
  moreover have "0 \<le> 5 * d - 1 - q" using q assms by linarith
  moreover have "5 * d - 1 - q < 153" using q d31 assms by (cases "d = 31") auto
  ultimately show "(5 * s - 3) div 153 = ?m" by (simp add: div_mult_self2 mult.commute)
  have "(5 * s + 2 - 153 * ?m) div 5 = ((4 - q) + 5 * d) div 5" using e by simp
  also have "\<dots> = d + (4 - q) div 5" by (simp only: div_mult_self2)
  finally show "(5 * s + 2 - 153 * ?m) div 5 = d" using q by simp
  show "1 \<le> s" "s \<le> 366" "s = 366 \<longrightarrow> m = 2 \<and> is_leap y" using s d31 assms by linarith+
qed

lemma leap_pred:
  fixes y :: int
  assumes "is_leap y"
  shows "((y - 1) mod 100) mod 4 = 3" "(y - 1) mod 100 = 99 \<longrightarrow> ((y - 1) div 100) mod 4 = 3"
proof -
  have m: "((y - 1) mod 100) mod 4 = (y - 1) mod 4" by (rule mod_mod_cancel) simp
  obtain q where q: "y = 4 * q" using assms by (auto simp: is_leap_def)
  have "y - 1 = 3 + 4 * (q - 1)" using q by simp
  then have "(y - 1) mod 4 = 3" by (simp only: mod_mult_self2) simp
  with m show "((y - 1) mod 100) mod 4 = 3" by simp
  show "(y - 1) mod 100 = 99 \<longrightarrow> ((y - 1) div 100) mod 4 = 3"
  proof
    assume h: "(y - 1) mod 100 = 99"
    have "y = (y - 1) mod 100 + 100 * ((y - 1) div 100) + 1" by simp
    then have y: "y = 100 * ((y - 1) div 100 + 1)" using h by simp
    then have "y mod 100 = 0" by (metis mod_mult_self1_is_0)
    then have "y mod 400 = 0" using assms by (simp add: is_leap_def)
    then obtain q where "y = 400 * q" by auto
    with y have "100 * ((y - 1) div 100 + 1) = 100 * (4 * q)" by linarith
    then have "(y - 1) div 100 = 3 + 4 * (q - 1)" by simp
    then show "((y - 1) div 100) mod 4 = 3" by (simp only: mod_mult_self2) simp
  qed
qed

lemma tick_days_inverse:
  assumes y: "1 \<le> y" "y \<le> 9999" and m: "1 \<le> m" "m \<le> 12" and d: "1 \<le> d" "d \<le> last_day y m"
  defines "N \<equiv> tick_days (march_year y m) (march_month m) d"
    and "c \<equiv> march_year y m div 100" and "a \<equiv> march_year y m mod 100"
    and "s \<equiv> (153 * march_month m + 2) div 5 + d"
  shows "(4 * N - 1) div 146097 = c"
    "(4 * ((4 * N - 1 - 146097 * c) div 4) + 3) div 1461 = a"
    "(4 * ((4 * N - 1 - 146097 * c) div 4) + 7 - 1461 * a) div 4 = s"
    "(5 * s - 3) div 153 = march_month m" "(5 * s + 2 - 153 * march_month m) div 5 = d"
    "1 \<le> s" "s \<le> 366" "0 \<le> (4 * N - 1 - 146097 * c) div 4"
    "(4 * N - 1 - 146097 * c) div 4 < 36525" "0 < 4 * N - 1" "0 \<le> 4 * N - 1 - 146097 * c"
proof -
  define r where "r = (1461 * a) div 4 + s"
  note M = month_of_days [OF m d s_def [THEN meta_eq_to_obj_eq]]
  show "(5 * s - 3) div 153 = march_month m" "(5 * s + 2 - 153 * march_month m) div 5 = d"
    "1 \<le> s" "s \<le> 366" by (rule M)+
  have s366: "a mod 4 = 3 \<and> (a = 99 \<longrightarrow> c mod 4 = 3)" if "s = 366"
    using M(5) that leap_pred [of y] by (auto simp: march_year_def a_def c_def)
  have a: "0 \<le> a" "a \<le> 99" by (simp_all add: a_def)
  have q: "(1461 * a) div 4 = 365 * a + a div 4" "0 \<le> a div 4" "a div 4 \<le> 24"
    using a zdiv_mono1 [of a 99 4] by (simp_all add: div4_1461)
  have r: "1 \<le> r" "r \<le> 36525" "r = 36525 \<longrightarrow> c mod 4 = 3"
  proof -
    show "1 \<le> r" "r \<le> 36525" using q a M(3,4) by (simp_all add: r_def)
    show "r = 36525 \<longrightarrow> c mod 4 = 3"
    proof
      assume "r = 36525"
      then have "a = 99 \<and> s = 366" using q a M(4) by (auto simp: r_def)
      with s366 show "c mod 4 = 3" by simp
    qed
  qed
  have "march_year y m - 100 * c = a" by (simp add: a_def c_def minus_mult_div_eq_mod)
  then have N: "N = (146097 * c) div 4 + r"
    unfolding N_def tick_days_def r_def s_def c_def [symmetric] by simp
  note C = century_of_days [OF r N]
  show "(4 * N - 1) div 146097 = c" by (rule C)
  have s4: "s = 366 \<longrightarrow> a mod 4 = 3" using s366 by blast
  note Y = year_of_days [OF M(3,4) s4 r_def]
  show "(4 * ((4 * N - 1 - 146097 * c) div 4) + 3) div 1461 = a"
    "(4 * ((4 * N - 1 - 146097 * c) div 4) + 7 - 1461 * a) div 4 = s" unfolding C(2) by (rule Y)+
  show "0 \<le> (4 * N - 1 - 146097 * c) div 4" "(4 * N - 1 - 146097 * c) div 4 < 36525"
    unfolding C(2) using r by simp_all
  have "0 \<le> c" using y m by (auto simp: c_def march_year_def)
  then have "0 \<le> (146097 * c) div 4" by simp
  then show "0 < 4 * N - 1" using r N by linarith
  show "0 \<le> 4 * N - 1 - 146097 * c" using C(2) r(1) by linarith
qed

text \<open>Arithmetic on words that does not wrap.\<close>

lemma uint_add_eq: "uint a + uint b < 2 ^ LENGTH('a) \<Longrightarrow> uint (a + b) = uint a + uint (b :: 'a::len word)"
  by (simp add: uint_add_lem [symmetric])

lemma uint_mult_eq: "uint a * uint b < 2 ^ LENGTH('a) \<Longrightarrow> uint (a * b) = uint a * uint (b :: 'a::len word)"
  by (simp add: uint_mult_lem [symmetric])

lemma uint_push2_eq:
  "4 * uint a < 2 ^ LENGTH('a) \<Longrightarrow> uint (push_bit 2 a) = 4 * uint (a :: 'a::len word)"
  unfolding unsigned_push_bit_eq by (simp add: push_bit_eq_mult take_bit_int_eq_self mult.commute)

lemma uint_drop2_eq: "uint (drop_bit 2 a) = uint (a :: 'a::len word) div 4"
  unfolding unsigned_drop_bit_eq by (simp add: drop_bit_eq_div take_bit_int_eq_self)

lemma uint_ucast32: "uint a < 2 ^ 32 \<Longrightarrow> uint (ucast (a :: u64) :: u32) = uint a"
  by (simp add: unsigned_ucast_eq take_bit_int_eq_self)

lemma ucast16_u64: "uint (ucast (a :: u64) :: u16) = uint a mod 65536"
  by (simp add: unsigned_ucast_eq take_bit_eq_mod)

lemma ucast16_u32: "uint (ucast (a :: u32) :: u16) = uint a mod 65536"
  by (simp add: unsigned_ucast_eq take_bit_eq_mod)

text \<open>The part of \<^verbatim>\<open>sceRtcSetTick\<close> that turns a number of days into a date.\<close>

definition date_of_days :: "u64 \<Rightarrow> u32 \<times> u32 \<times> u32" where
  "date_of_days days =
     (let days = days + 307;
          j = (ucast (push_bit 2 days - 1) :: u32);
          ly = j div 146097;
          j = j - 146097 * ly;
          ld = drop_bit 2 j;
          j = (push_bit 2 ld + 3) div 1461;
          ld = drop_bit 2 ((push_bit 2 ld + 7) - 1461 * j);
          lm = (5 * ld - 3) div 153;
          ld = (5 * ld + 2 - 153 * lm) div 5;
          ly = 100 * ly + j
      in if lm < 10 then (ly, lm + 3, ld) else (ly + 1, lm - 9, ld))"

lemma SetTick_split:
  "SetTick tick =
     (case date_of_days (tick div 86400000000) of (ly, lm, ld) \<Rightarrow>
        (let msec = tick mod 86400000000;
             hour = msec div 3600000000; msec = msec mod 3600000000;
             minute = msec div 60000000; msec = msec mod 60000000;
             second = msec div 1000000; msec = msec mod 1000000
         in \<lparr>dt_year = ucast ly, dt_month = ucast lm, dt_day = ucast ld, dt_hour = ucast hour,
             dt_minute = ucast minute, dt_second = ucast second, dt_microsecond = ucast msec\<rparr>))"
  unfolding SetTick_def date_of_days_def Let_def by (simp split: prod.splits)

lemma march_month_bounds: "1 \<le> m \<Longrightarrow> m \<le> 12 \<Longrightarrow> 0 \<le> march_month m \<and> march_month m \<le> 11"
  by (simp add: march_month_def)

lemma date_of_days_calendar:
  fixes days :: u64
  assumes y: "1 \<le> y" "y \<le> 9999" and m: "1 \<le> m" "m \<le> 12" and d: "1 \<le> d" "d \<le> last_day y m"
    and days: "uint days = chrono_days y m d"
  shows "map_prod uint (map_prod uint uint) (date_of_days days) = (y, m, d)"
proof -
  define N where "N = tick_days (march_year y m) (march_month m) d"
  define c where "c = march_year y m div 100"
  define a where "a = march_year y m mod 100"
  define s where "s = (153 * march_month m + 2) div 5 + d"
  note I = tick_days_inverse [OF y m d, folded N_def c_def a_def s_def]
  note mb = march_month_bounds [OF m]
  have c: "0 \<le> c" "c \<le> 99" using y m zdiv_mono1 [of "march_year y m" 9999 100]
    by (auto simp: c_def march_year_def)
  have a: "0 \<le> a" "a \<le> 99" by (simp_all add: a_def)
  define w1 where "w1 = days + 307"
  define w2 where "w2 = (ucast (push_bit 2 w1 - 1) :: u32)"
  define w3 where "w3 = w2 div 146097"
  define w4 where "w4 = drop_bit 2 (w2 - 146097 * w3)"
  define w5 where "w5 = (push_bit 2 w4 + 3) div 1461"
  define w6 where "w6 = drop_bit 2 ((push_bit 2 w4 + 7) - 1461 * w5)"
  define w7 where "w7 = (5 * w6 - 3) div 153"
  define w8 where "w8 = (5 * w6 + 2 - 153 * w7) div 5"
  have N: "N = chrono_days y m d + 307" using tick_days_calendar [OF m, of y d] by (simp add: N_def)
  have Nb: "4 * N - 1 < 146097 * 100"
  proof (rule ccontr)
    assume "\<not> ?thesis"
    then have "(146097 * 100) div 146097 \<le> (4 * N - 1) div 146097" by (intro zdiv_mono1) auto
    with I(1) c show False by simp
  qed
  have w1: "uint w1 = N" unfolding w1_def using N days I(10) Nb by (subst uint_add_eq) auto
  have "uint (push_bit 2 w1 - 1) = 4 * N - 1"
    using w1 I(10) Nb by (subst uint_sub_eq) (auto simp: uint_push2_eq)
  then have w2: "uint w2 = 4 * N - 1" unfolding w2_def using Nb by (simp add: uint_ucast32)
  have w3: "uint w3 = c" unfolding w3_def using w2 I(1) by (simp add: uint_div_distrib)
  have w3m: "uint (146097 * w3) = 146097 * c" using w3 c by (subst uint_mult_eq) auto
  have w4: "uint w4 = (4 * N - 1 - 146097 * c) div 4"
    unfolding w4_def uint_drop2_eq using w2 w3m I(11) by (subst uint_sub_eq) auto
  have w4p: "uint (push_bit 2 w4) = 4 * ((4 * N - 1 - 146097 * c) div 4)"
    using w4 I(9) by (subst uint_push2_eq) auto
  have w4q: "uint (push_bit 2 w4 + 3) = 4 * ((4 * N - 1 - 146097 * c) div 4) + 3"
    "uint (push_bit 2 w4 + 7) = 4 * ((4 * N - 1 - 146097 * c) div 4) + 7"
    using w4p I(9) by (simp_all add: uint_add_eq)
  have w5: "uint w5 = a" unfolding w5_def uint_div_distrib w4q using I(2) by simp
  have w5m: "uint (1461 * w5) = 1461 * a" using w5 a by (subst uint_mult_eq) auto
  have w56: "1461 * a \<le> 4 * ((4 * N - 1 - 146097 * c) div 4) + 7" using I(3,6) by linarith
  have w6: "uint w6 = s"
    unfolding w6_def uint_drop2_eq using w4q w5m w56 I(3) by (subst uint_sub_eq) auto
  have w6m: "uint (5 * w6) = 5 * s" using w6 I(6,7) by (subst uint_mult_eq) auto
  have w7: "uint w7 = march_month m"
    unfolding w7_def uint_div_distrib using w6m I(4,6) by (subst uint_sub_eq) auto
  have w7m: "uint (153 * w7) = 153 * march_month m" using w7 mb by (subst uint_mult_eq) auto
  have w67: "153 * march_month m \<le> 5 * s + 2" using I(5) d by linarith
  have "uint (5 * w6 + 2) = 5 * s + 2" using w6m I(6,7) by (subst uint_add_eq) auto
  then have w8: "uint w8 = d"
    unfolding w8_def uint_div_distrib using w7m w67 I(5) by (subst uint_sub_eq) auto
  have "uint (100 * w3) = 100 * c" using w3 c by (subst uint_mult_eq) auto
  then have w9: "uint (100 * w3 + w5) = march_year y m"
    using w5 a c by (subst uint_add_eq) (auto simp: a_def c_def)
  have w10: "uint (100 * w3 + w5 + 1) = march_year y m + 1"
    using w9 y m by (subst uint_add_eq) (auto simp: march_year_def)
  have w7s: "w7 < 10 \<longleftrightarrow> march_month m < 10" using w7 by (simp add: word_less_def)
  have "uint (w7 + 3) = march_month m + 3" using w7 mb by (subst uint_add_eq) auto
  moreover have "uint (w7 - 9) = march_month m - 9" if "\<not> march_month m < 10"
    using w7 that by (subst uint_sub_eq) auto
  ultimately have "(if w7 < 10 then (uint (100 * w3 + w5), uint (w7 + 3), uint w8)
      else (uint (100 * w3 + w5 + 1), uint (w7 - 9), uint w8)) = (y, m, d)"
    using w7s w8 w9 w10 m by (auto simp: march_month_def march_year_def)
  then show ?thesis
    unfolding date_of_days_def Let_def w1_def [symmetric] w2_def [symmetric] w3_def [symmetric]
      w4_def [symmetric] w5_def [symmetric] w6_def [symmetric] w7_def [symmetric] w8_def [symmetric]
    by (simp split: if_splits)
qed

lemma uint_tick_of:
  assumes "date_ok t"
  shows "uint (of_int (tick_of t) :: u64) = tick_of t"
proof -
  have "uint (word_of_int (tick_of t) :: u64) = tick_of t"
    using tick_of_bounds [OF assms] by (simp only: uint_word_of_int_eq) (simp add: take_bit_int_eq_self)
  then show ?thesis by simp
qed

lemma SetTick_tick_of:
  assumes t: "date_ok t"
  shows "SetTick (of_int (tick_of t)) = t"
proof -
  let ?T = "of_int (tick_of t) :: u64"
  define D where "D = chrono_days (uint (dt_year t)) (uint (dt_month t)) (uint (dt_day t))"
  define h where "h = uint (dt_hour t)"
  define m where "m = uint (dt_minute t)"
  define s where "s = uint (dt_second t)"
  define u where "u = uint (dt_microsecond t)"
  have b: "0 \<le> h" "h < 24" "0 \<le> m" "m < 60" "0 \<le> s" "s < 60" "0 \<le> u" "u < 1000000"
    using t by (simp_all add: date_ok_def h_def m_def s_def u_def)
  have T: "uint ?T = D * 86400000000 + (h * 3600000000 + (m * 60000000 + (s * 1000000 + u)))"
    using uint_tick_of [OF t] by (simp add: tick_of_def D_def h_def m_def s_def u_def)
  have r3: "0 \<le> s * 1000000 + u" "s * 1000000 + u < 60000000" using b by linarith+
  have r2: "0 \<le> m * 60000000 + (s * 1000000 + u)" "m * 60000000 + (s * 1000000 + u) < 3600000000"
    using b r3 by linarith+
  have r1: "0 \<le> h * 3600000000 + (m * 60000000 + (s * 1000000 + u))"
    "h * 3600000000 + (m * 60000000 + (s * 1000000 + u)) < 86400000000"
    using b r2 by linarith+
  have dm: "(q * k + r) div k = q" "(q * k + r) mod k = r" if "0 \<le> r" "r < k" for q k r :: int
    using that by (simp_all add: div_mult_self3 mod_mult_self3)
  define w1 where "w1 = ?T mod 86400000000"
  define w2 where "w2 = w1 mod 3600000000"
  define w3 where "w3 = w2 mod 60000000"
  have D: "uint (?T div 86400000000) = D" using T r1 by (simp add: uint_div_distrib dm)
  have w1: "uint w1 = h * 3600000000 + (m * 60000000 + (s * 1000000 + u))"
    using T r1 by (simp add: w1_def uint_mod_distrib dm)
  have w2: "uint w2 = m * 60000000 + (s * 1000000 + u)"
    using w1 r2 by (simp add: w2_def uint_mod_distrib dm)
  have w3: "uint w3 = s * 1000000 + u"
    using w2 r3 by (simp add: w3_def uint_mod_distrib dm)
  have hms: "uint (w1 div 3600000000) = h" "uint (w2 div 60000000) = m" "uint (w3 div 1000000) = s"
    "uint (w3 mod 1000000) = u"
    using w1 w2 w3 r2 r3 b by (simp_all add: uint_div_distrib uint_mod_distrib dm)
  obtain ly lm ld where dd: "date_of_days (?T div 86400000000) = (ly, lm, ld)" by (cases "date_of_days (?T div 86400000000)")
  have "map_prod uint (map_prod uint uint) (date_of_days (?T div 86400000000)) =
      (uint (dt_year t), uint (dt_month t), uint (dt_day t))"
    using t D by (intro date_of_days_calendar) (auto simp: date_ok_def D_def)
  then have yl: "uint ly = uint (dt_year t)" "uint lm = uint (dt_month t)" "uint ld = uint (dt_day t)"
    by (simp_all add: dd)
  have c16: "x mod 65536 = x" if "0 \<le> x" "x < 65536" for x :: int using that by simp
  have "ucast ly = dt_year t" "ucast lm = dt_month t" "ucast ld = dt_day t"
    "ucast (w1 div 3600000000) = dt_hour t" "ucast (w2 div 60000000) = dt_minute t"
    "ucast (w3 div 1000000) = dt_second t"
    using uint_lt2p [of "dt_year t"] uint_lt2p [of "dt_month t"] uint_lt2p [of "dt_day t"] b
    by (simp_all add: word_uint_eq_iff ucast16_u64 ucast16_u32 yl hms h_def m_def s_def)
  moreover have "ucast (w3 mod 1000000) = dt_microsecond t"
    using b by (simp add: word_uint_eq_iff uint_ucast32 hms u_def)
  ultimately show ?thesis
    unfolding SetTick_split dd Let_def w1_def [symmetric] w2_def [symmetric] w3_def [symmetric] by simp
qed

subsection \<open>Properties\<close>

text \<open>
  C23: for every date that passes \<^verbatim>\<open>sceRtcCheckValid\<close> and whose minute is below 36, the tick
  that \<^verbatim>\<open>sceRtcGetTick\<close> computes is the number of microseconds from the first of January of the
  year 1 to that date in the calendar of the standard library; it never overflows.  For later
  minutes the product of the minute and 60000000 overflows a signed 32-bit integer.  The month and
  year of the caller's structure are left in the shifted form.
\<close>

theorem GetTick_calendar:
  assumes "sceRtcCheckValid (Some t) = RTC_OK"
  shows "case sceRtcGetTick (Some t) False of
           Some (r, Some t', Some tick) \<Rightarrow> uint (dt_minute t) < 36 \<and> r = RTC_OK \<and> t' = march_date t \<and>
             uint tick = chrono_days (uint (dt_year t)) (uint (dt_month t)) (uint (dt_day t)) * 86400000000 +
               uint (dt_hour t) * 3600000000 + uint (dt_minute t) * 60000000 +
               uint (dt_second t) * 1000000 + uint (dt_microsecond t)
         | None \<Rightarrow> uint (dt_minute t) \<ge> 36
         | _ \<Rightarrow> False"
proof -
  have t: "date_ok t" using assms by (simp add: CheckValid_iff)
  show ?thesis using uint_tick_of [OF t] unfolding GetTick_eq [OF t] by (simp add: tick_of_def)
qed

text \<open>
  C24: \<^verbatim>\<open>sceRtcSetTick\<close> undoes \<^verbatim>\<open>sceRtcGetTick\<close>: the tick of a valid date, wherever it is defined,
  becomes that date again, over the whole range of years 1 to 9999.
\<close>

theorem SetTick_GetTick:
  assumes "sceRtcCheckValid (Some t) = RTC_OK" "sceRtcGetTick (Some t) False = Some (r, t', Some tick)"
  shows "sceRtcSetTick False (Some tick) = (RTC_OK, Some t)"
proof -
  have t: "date_ok t" using assms by (simp add: CheckValid_iff)
  have tick: "tick = of_int (tick_of t)" using assms(2) by (simp add: GetTick_eq [OF t] split: if_splits)
  show ?thesis using SetTick_tick_of [OF t] by (simp add: sceRtcSetTick_def tick)
qed


text \<open>The last second of a leap year.\<close>

definition rtc_demo :: OrbisRtcDateTime where
  "rtc_demo = \<lparr>dt_year = 2024, dt_month = 12, dt_day = 31, dt_hour = 23, dt_minute = 35, dt_second = 59,
     dt_microsecond = 999999\<rparr>"

lemma rtc_demo_valid: "sceRtcCheckValid (Some rtc_demo) = RTC_OK"
  by (simp add: rtc_demo_def sceRtcCheckValid_def last_day_def rtc_error_defs)

lemma rtc_demo_tick:
  "sceRtcGetTick (Some rtc_demo) False = Some (RTC_OK, Some (march_date rtc_demo), Some 63871284959999999)"
  unfolding GetTick_eq [OF rtc_demo_valid [unfolded CheckValid_iff]]
  by (simp add: rtc_demo_def tick_of_def chrono_days_def days_before_year_def days_before_month_eval
      last_day_def is_leap_def)

theorem GetTick_calendar_witness:
  "chrono_days 2024 12 31 * 86400000000 + 84959999999 = 63871284959999999"
  using GetTick_calendar [OF rtc_demo_valid] unfolding rtc_demo_tick
  by (simp add: rtc_demo_def)

theorem SetTick_GetTick_witness: "sceRtcSetTick False (Some 63871284959999999) = (RTC_OK, Some rtc_demo)"
  by (rule SetTick_GetTick [OF rtc_demo_valid rtc_demo_tick])

end
