(* ===== verification/Rtc_Roundtrip.thy ===== *)
theory Rtc_Roundtrip
  imports Rtc_Text Rtc_Calendar
begin

section \<open>Conversions that undo each other\<close>

text \<open>
  Round trips of \<^verbatim>\<open>core/libraries/rtc/rtc.cpp\<close> between ticks and other representations: local
  time and UTC, and the RFC 3339 text; and where they fail.
\<close>

subsection \<open>Digits\<close>

definition digit :: "nat \<Rightarrow> char" where
  "digit k = char_of (48 + k)"

lemma of_char_digit: "k < 10 \<Longrightarrow> (of_char (digit k) :: nat) = 48 + k"
  by (simp add: digit_def)

lemma of_char_digit_int: "k < 10 \<Longrightarrow> (of_char (digit k) :: int) = 48 + int k"
proof -
  assume "k < 10"
  have "(of_char (digit k) :: int) = int (of_char (digit k))" by (rule of_nat_of_char [symmetric])
  with of_char_digit [OF \<open>k < 10\<close>] show ?thesis by simp
qed

lemma is_digit_digit: "k < 10 \<Longrightarrow> is_digit (digit k)"
  by (simp add: is_digit_def of_char_digit)

lemma to_string_digit: "k < 10 \<Longrightarrow> to_string k = [digit k]"
  by (subst to_string.simps) (simp add: digit_def)

lemma to_string_step: "\<not> n < 10 \<Longrightarrow> to_string n = to_string (n div 10) @ [digit (n mod 10)]"
  by (subst to_string.simps) (simp add: digit_def)

lemma digit_0: "CHR ''0'' = digit 0"
  using char_of_eq_iff [of "48::nat" "CHR ''0''"] by (simp add: digit_def)

lemma two_digits_eq: "n < 100 \<Longrightarrow> two_digits n = [digit (n div 10), digit (n mod 10)]"
  by (cases "n < 10") (simp_all add: two_digits_def to_string_digit to_string_step digit_0)

lemma to_string_year:
  assumes "1000 \<le> n" "n < 10000"
  shows "to_string n = [digit (n div 1000), digit (n div 100 mod 10), digit (n div 10 mod 10),
    digit (n mod 10)]"
  using assms
  by (simp add: to_string_step [of n] to_string_step [of "n div 10"] to_string_step [of "n div 100"]
      to_string_digit div_mult2_eq [symmetric] flip: div_mult2_eq)

lemma is_digit_char:
  assumes "is_digit c"
  shows "\<not> is_space c" "c \<noteq> CHR ''-''" "c \<noteq> CHR ''+''" "0 \<le> (of_char c :: int) - 48"
proof -
  show "c \<noteq> CHR ''-''" "c \<noteq> CHR ''+''" using assms by (auto simp: is_digit_def)
  show "\<not> is_space c" using assms by (auto simp: is_digit_def is_space_def)
  have "(of_char c :: int) = int (of_char c)" by (rule of_nat_of_char [symmetric])
  then show "0 \<le> (of_char c :: int) - 48" using assms unfolding is_digit_def by linarith
qed

lemma decimal_step: "decimal (ds @ [c]) = 10 * decimal ds + (of_char c - 48)"
  by (simp add: decimal_def)

lemma decimal_nonneg: "list_all is_digit ds \<Longrightarrow> 0 \<le> decimal ds"
proof (induction ds rule: rev_induct)
  case (snoc c ds)
  then show ?case using is_digit_char(4) [of c] by (simp add: decimal_step)
qed (simp add: decimal_def)

lemma stoi_digits:
  assumes "list_all is_digit ds" "ds \<noteq> []" "decimal ds < 2 ^ 31"
  shows "stoi ds = Some (decimal ds)"
proof -
  obtain c cs where ds: "ds = c # cs" using assms(2) by (cases ds) auto
  have c: "is_digit c" using assms(1) ds by simp
  have "takeWhile is_digit ds = ds" using assms(1) by (simp add: takeWhile_eq_all_conv list_all_iff)
  then show ?thesis
    using is_digit_char [OF c] decimal_nonneg [OF assms(1)] assms(3) ds
    by (simp add: stoi_def Let_def)
qed

lemma stoi_two: "n < 100 \<Longrightarrow> stoi [digit (n div 10), digit (n mod 10)] = Some (int n)"
proof -
  assume n: "n < 100"
  have d: "n div 10 < 10" "n mod 10 < 10" using n by auto
  have "int (n div 10) * 10 + int (n mod 10) = int n"
    using arg_cong [OF div_mult_mod_eq [of n 10], of int] by (simp only: of_nat_add of_nat_mult of_nat_numeral)
  then have "decimal [digit (n div 10), digit (n mod 10)] = int n"
    using d by (simp add: decimal_def of_char_digit_int mult.commute)
  with d n show ?thesis by (subst stoi_digits) (simp_all add: is_digit_digit)
qed

lemma stoi_four:
  assumes "n < 10000"
  shows "stoi [digit (n div 1000), digit (n div 100 mod 10), digit (n div 10 mod 10), digit (n mod 10)]
    = Some (int n)"
proof -
  let ?l = "[digit (n div 1000), digit (n div 100 mod 10), digit (n div 10 mod 10), digit (n mod 10)]"
  have d: "n div 1000 < 10" using assms by (simp add: less_mult_imp_div_less)
  have "n = 10 * (10 * (10 * (n div 1000) + n div 100 mod 10) + n div 10 mod 10) + n mod 10"
  proof -
    have "10 * (n div 1000) + n div 100 mod 10 = n div 100" "10 * (n div 100) + n div 10 mod 10 = n div 10"
      using mult_div_mod_eq [of 10 "n div 100"] mult_div_mod_eq [of 10 "n div 10"]
      by (simp_all add: div_mult2_eq [symmetric])
    then show ?thesis by simp
  qed
  then have n: "int n = 10 * (10 * (10 * int (n div 1000) + int (n div 100 mod 10)) + int (n div 10 mod 10))
      + int (n mod 10)" by (metis of_nat_add of_nat_mult of_nat_numeral)
  have "decimal ?l = int n" unfolding n using d by (simp add: decimal_def of_char_digit_int)
  with d assms show ?thesis by (subst stoi_digits) (simp_all add: is_digit_digit)
qed


subsection \<open>The RFC 3339 text\<close>

lemma s64_mult_0 [simp]: "s64_mult 0 unit = Some 0"
  by (simp add: s64_mult_def)

lemma format_time_utc: "format_time clock (Some tick) 0 = Some (SetTick tick)"
  by (simp add: format_time_def sceRtcTickAddMinutes_def tick_add_def)

text \<open>The text of a whole second in UTC, and the tick it is read back as.\<close>

definition text_of :: "OrbisRtcDateTime \<Rightarrow> string" where
  "text_of t = to_string (unat (dt_year t)) @ ''-'' @ two_digits (unat (dt_month t)) @ ''-'' @
     two_digits (unat (dt_day t)) @ ''T'' @ clock_string t @ ''.00'' @ ''Z''"

lemma FormatRFC3339_text:
  assumes "date_ok t" "dt_microsecond t = 0"
  shows "sceRtcFormatRFC3339 clock False (Some (of_int (tick_of t))) 0 = Some (RTC_OK, Some (text_of t))"
  using SetTick_tick_of [OF assms(1)] assms(2)
  by (simp add: sceRtcFormatRFC3339_def sceRtcFormatRFC3339Precise_def format_time_utc text_of_def
      zone_suffix_def)

lemma int_unat_fields: "int (unat (w :: 'a::len word)) = uint w"
  by simp

lemma unat_less_uint: "uint (w :: 'a::len word) < int k \<longleftrightarrow> unat w < k"
  by (metis int_unat_fields of_nat_less_iff)

lemma number_text:
  assumes y: "1000 \<le> y" "y < 10000" and m: "m < 100" and d: "d < 100" and h: "h < 100"
    and mi: "mi < 100" and se: "se < 100"
    and s_def: "s = to_string y @ ''-'' @ two_digits m @ ''-'' @ two_digits d @ ''T'' @
     (two_digits h @ '':'' @ two_digits mi @ '':'' @ two_digits se) @ ''.00'' @ ''Z''"
  shows "number_at s 0 4 = Some (int y)" "number_at s 5 2 = Some (int m)"
    "number_at s 8 2 = Some (int d)" "number_at s 11 2 = Some (int h)"
    "number_at s 14 2 = Some (int mi)" "number_at s 17 2 = Some (int se)"
    "number_at s 20 2 = Some 0" "char_at s 19 = Some (CHR ''.'')" "char_at s 22 = Some (CHR ''Z'')"
proof -
  have z: "stoi ''00'' = Some 0" using stoi_two [of 0] by (simp add: digit_0)
  have "s = [digit (y div 1000), digit (y div 100 mod 10), digit (y div 10 mod 10), digit (y mod 10),
      CHR ''-'', digit (m div 10), digit (m mod 10), CHR ''-'', digit (d div 10), digit (d mod 10),
      CHR ''T'', digit (h div 10), digit (h mod 10), CHR '':'', digit (mi div 10), digit (mi mod 10),
      CHR '':'', digit (se div 10), digit (se mod 10), CHR ''.'', CHR ''0'', CHR ''0'', CHR ''Z'']"
    using y m d h mi se by (simp add: s_def to_string_year two_digits_eq)
  then show "number_at s 0 4 = Some (int y)" "number_at s 5 2 = Some (int m)"
    "number_at s 8 2 = Some (int d)" "number_at s 11 2 = Some (int h)"
    "number_at s 14 2 = Some (int mi)" "number_at s 17 2 = Some (int se)"
    "number_at s 20 2 = Some 0" "char_at s 19 = Some (CHR ''.'')" "char_at s 22 = Some (CHR ''Z'')"
    using y(2) m d h mi se
    by (simp_all add: number_at_def substr_def char_at_def stoi_two stoi_four z)
qed

lemma ParseRFC3339_text:
  assumes t: "date_ok t" and y: "1000 \<le> uint (dt_year t)" and m: "uint (dt_minute t) < 36"
    and u: "dt_microsecond t = 0"
  shows "sceRtcParseRFC3339 (Some old) (Some (text_of t)) = Some (RTC_OK, Some (of_int (tick_of t)))"
proof -
  have b: "1000 \<le> unat (dt_year t)" "unat (dt_year t) < 10000" "unat (dt_month t) < 100"
    "unat (dt_day t) < 100" "unat (dt_hour t) < 100" "unat (dt_minute t) < 100"
    "unat (dt_second t) < 100"
    using t y last_day_le [of "uint (dt_year t)" "uint (dt_month t)"]
    unfolding date_ok_def int_unat_fields [symmetric] by linarith+
  note N = number_text [OF b text_of_def [unfolded clock_string_def]]
  have e': "\<lparr>dt_year = dt_year t, dt_month = dt_month t, dt_day = dt_day t, dt_hour = dt_hour t,
     dt_minute = dt_minute t, dt_second = dt_second t, dt_microsecond = 0\<rparr> = t"
    using u by (cases t) simp
  have "store_tick t old = Some (of_int (tick_of t))"
    using m by (simp add: store_tick_def GetTick_eq [OF t])
  then show ?thesis unfolding sceRtcParseRFC3339_def prod.case option.case
    by (simp add: N e')
qed


text \<open>
  C25: in UTC, a tick that is a whole second of a year from 1000 on is formatted by
  \<^verbatim>\<open>sceRtcFormatRFC3339\<close> to a text from which \<^verbatim>\<open>sceRtcParseRFC3339\<close> reads the same tick, whatever
  the tick variable held before (for minutes below 36, where the tick is defined).
\<close>

theorem RFC3339_round_trip:
  assumes "sceRtcCheckValid (Some t) = RTC_OK" "sceRtcGetTick (Some t) False = Some (r, t', Some tick)"
    "dt_microsecond t = 0" "dt_year t \<ge> 1000"
  shows "\<exists>s. sceRtcFormatRFC3339 clock False (Some tick) 0 = Some (RTC_OK, Some s) \<and>
    sceRtcParseRFC3339 (Some old) (Some s) = Some (RTC_OK, Some tick)"
proof (intro exI conjI)
  have t: "date_ok t" using assms(1) by (simp add: CheckValid_iff)
  have tick: "tick = of_int (tick_of t)" and m: "uint (dt_minute t) < 36"
    using assms(2) by (simp_all add: GetTick_eq [OF t] split: if_splits)
  have y: "1000 \<le> uint (dt_year t)" using assms(4) by (simp add: word_le_def)
  show "sceRtcFormatRFC3339 clock False (Some tick) 0 = Some (RTC_OK, Some (text_of t))"
    unfolding tick by (rule FormatRFC3339_text [OF t assms(3)])
  show "sceRtcParseRFC3339 (Some old) (Some (text_of t)) = Some (RTC_OK, Some tick)"
    unfolding tick by (rule ParseRFC3339_text [OF t y m assms(3)])
qed

definition rtc_demo_second :: OrbisRtcDateTime where
  "rtc_demo_second = rtc_demo\<lparr>dt_microsecond := 0\<rparr>"

lemma rtc_demo_second_valid: "sceRtcCheckValid (Some rtc_demo_second) = RTC_OK"
  by (simp add: rtc_demo_second_def rtc_demo_def sceRtcCheckValid_def last_day_def rtc_error_defs)

lemma rtc_demo_second_tick:
  "sceRtcGetTick (Some rtc_demo_second) False =
     Some (RTC_OK, Some (march_date rtc_demo_second), Some 63871284959000000)"
  unfolding GetTick_eq [OF rtc_demo_second_valid [unfolded CheckValid_iff]]
  by (simp add: rtc_demo_second_def rtc_demo_def tick_of_def chrono_days_def days_before_year_def
      days_before_month_eval last_day_def is_leap_def)

theorem RFC3339_round_trip_witness:
  "\<exists>s. sceRtcFormatRFC3339 None False (Some 63871284959000000) 0 = Some (RTC_OK, Some s) \<and>
     sceRtcParseRFC3339 (Some 7) (Some s) = Some (RTC_OK, Some 63871284959000000)"
proof -
  have "dt_microsecond rtc_demo_second = 0" "dt_year rtc_demo_second \<ge> 1000"
    by (simp_all add: rtc_demo_second_def rtc_demo_def)
  then show ?thesis by (rule RFC3339_round_trip [OF rtc_demo_second_valid rtc_demo_second_tick])
qed

subsection \<open>Local time\<close>

lemma scast_uminus:
  fixes x :: s32
  assumes "x \<noteq> 0x80000000"
  shows "(scast (- x) :: s64) = - scast x"
proof -
  have "sint x \<noteq> - (2 ^ 31)"
  proof
    assume "sint x = - (2 ^ 31)"
    then have "sint x = sint (0x80000000 :: s32)" by simp
    then have "x = 0x80000000" by (rule signed_word_eqI)
    with assms show False by simp
  qed
  then have b: "- (2 ^ 31) \<le> - sint x" "- sint x < 2 ^ 31"
    using sint_ge [of x] sint_lt [of x] by simp_all
  have s: "sint (- x) = - sint x" using b by (simp add: sint_word_ariths signed_take_bit_int_eq_self)
  show ?thesis unfolding scast_eq s by (rule wi_hom_neg [symmetric])
qed

text \<open>Minutes fit: a 32-bit offset times 60000000 is far below the limit of 64 bits.\<close>

lemma s64_mult_minutes:
  fixes x :: s32
  shows "s64_mult (scast x) 60000000 = Some (scast x * 60000000)"
proof -
  have "- (2 ^ 31) \<le> sint x" "sint x < 2 ^ 31" using sint_ge [of x] sint_lt [of x] by simp_all
  moreover have "sint (scast x :: s64) = sint x"
    by (simp add: sint_up_scast is_up)
  ultimately show ?thesis by (simp add: s64_mult_def)
qed

text \<open>
  \<^verbatim>\<open>sceRtcConvertLocalTimeToUtc\<close> undoes \<^verbatim>\<open>sceRtcConvertUtcToLocalTime\<close> for every tick
  and every time zone whose offset is not the one number that has no negation; neither of them
  can overflow.
\<close>

theorem local_time_round_trip:
  assumes "tz_offset tz \<noteq> 0x80000000"
  shows "(case sceRtcConvertUtcToLocalTime tz (Some utc) False of
            Some (r, Some local) \<Rightarrow> r = RTC_OK \<and>
              sceRtcConvertLocalTimeToUtc tz (Some local) False = Some (RTC_OK, Some utc)
          | _ \<Rightarrow> False)"
proof -
  have "- (tz_dsttime tz * 60 - tz_minuteswest tz) = - tz_offset tz" by (simp add: tz_offset_def)
  moreover have m: "s64_mult (- scast (tz_offset tz)) 60000000 = Some (- scast (tz_offset tz) * 60000000)"
    using s64_mult_minutes [of "- tz_offset tz"] by (simp only: scast_uminus [OF assms])
  ultimately show ?thesis
    by (simp add: sceRtcConvertUtcToLocalTime_def sceRtcConvertLocalTimeToUtc_def tick_add_def
        sceRtcTickAddMinutes_def s64_mult_minutes scast_uminus [OF assms] m RTC_OK_def)
qed

theorem local_time_round_trip_witness:
  "sceRtcConvertLocalTimeToUtc \<lparr>tz_minuteswest = - 60, tz_dsttime = 0\<rparr> (Some 3600000007) False =
     Some (RTC_OK, Some 7)"
  using local_time_round_trip [of "\<lparr>tz_minuteswest = - 60, tz_dsttime = 0\<rparr>" 7]
  by (simp add: tz_offset_def sceRtcConvertUtcToLocalTime_def sceRtcTickAddMinutes_def tick_add_def
      s64_mult_def)

subsection \<open>Where the conversions do not undo each other\<close>

text \<open>
  A positive zone in a text is added although the text shows local time: what is formatted
  with the zone of plus one hour is read back two hours later.
\<close>

theorem zone_is_added:
  "sceRtcFormatRFC3339 clock False (Some 63871200000000000) 60 =
     Some (RTC_OK, Some ''2024-12-31T01:00:00.00+01:00'') \<and>
   sceRtcParseRFC3339 (Some 0) (Some ''2024-12-31T01:00:00.00+01:00'') =
     Some (RTC_OK, Some (63871200000000000 + 2 * 3600000000))"
  by code_simp

text \<open>
  The packed date of a year from 2044 on is read back 128 years earlier, as the packed
  days are shifted as a signed 16-bit number.
\<close>

theorem DosTime_2044:
  "sceRtcGetDosTime (Some \<lparr>dt_year = 2044, dt_month = 2, dt_day = 29, dt_hour = 12, dt_minute = 30,
       dt_second = 10, dt_microsecond = 0\<rparr>) (Some 0) = (RTC_OK, Some 2153604037) \<and>
   sceRtcSetDosTime False 2153604037 = (RTC_OK, Some \<lparr>dt_year = 1916, dt_month = 2, dt_day = 29,
       dt_hour = 12, dt_minute = 30, dt_second = 10, dt_microsecond = 0\<rparr>)"
  by code_simp

end
