(* ===== verification/Lru_Cache.thy ===== *)
theory Lru_Cache
  imports Prelude
begin

section \<open>The least recently used cache\<close>

text \<open>
  \<^verbatim>\<open>LeastRecentlyUsedCache\<close> of \<^verbatim>\<open>common/lru_cache.h\<close>, which orders the buffers and images of the GPU
  by their last use.  Items live in a pool and are linked both ways through pointers; an item's
  address never changes, so a pointer is the item's index in the pool.

  The specification is a list of items in order of use.  \<open>lru_rep\<close> says that a cache represents a
  list, and \<open>lru_refines\<close> that every operation does on the pointers what it means on the list.
\<close>

subsection \<open>The code\<close>

record 'o Item =
  obj :: 'o
  tick :: u64
  next_item :: "nat option"
  prev_item :: "nat option"

record 'o LRU =
  item_pool :: "'o Item list"
  free_items :: "nat list"
  first_item :: "nat option"
  last_item :: "nat option"

definition LRU_init :: "'o LRU" where
  "LRU_init = \<lparr>item_pool = [], free_items = [], first_item = None, last_item = None\<rparr>"

definition set_item :: "nat \<Rightarrow> ('o Item \<Rightarrow> 'o Item) \<Rightarrow> 'o LRU \<Rightarrow> 'o LRU" where
  "set_item item f s = s\<lparr>item_pool := (item_pool s)[item := f (item_pool s ! item)]\<rparr>"

text \<open>\<open>dflt\<close> is the value-initialised object of a new item.\<close>

definition LRU_Build :: "'o \<Rightarrow> 'o LRU \<Rightarrow> nat \<times> 'o LRU" where
  "LRU_Build dflt s =
     (case free_items s of
        [] \<Rightarrow> (length (item_pool s), s\<lparr>item_pool := item_pool s @
                [\<lparr>obj = dflt, tick = 0, next_item = None, prev_item = None\<rparr>]\<rparr>)
      | item_id # rest \<Rightarrow>
          (item_id, set_item item_id (\<lambda>i. i\<lparr>next_item := None, prev_item := None\<rparr>)
                      (s\<lparr>free_items := rest\<rparr>)))"

definition LRU_Attach :: "nat \<Rightarrow> 'o LRU \<Rightarrow> 'o LRU" where
  "LRU_Attach item s =
     (let s = (if first_item s = None then s\<lparr>first_item := Some item\<rparr> else s)
      in case last_item s of
           None \<Rightarrow> s\<lparr>last_item := Some item\<rparr>
         | Some l \<Rightarrow>
             let s = set_item item (\<lambda>i. i\<lparr>prev_item := Some l\<rparr>) s;
                 s = set_item l (\<lambda>i. i\<lparr>next_item := Some item\<rparr>) s;
                 s = set_item item (\<lambda>i. i\<lparr>next_item := None\<rparr>) s
             in s\<lparr>last_item := Some item\<rparr>)"

definition LRU_Detach :: "nat \<Rightarrow> 'o LRU \<Rightarrow> 'o LRU" where
  "LRU_Detach item s =
     (let s = (case prev_item (item_pool s ! item) of
                 None \<Rightarrow> s
               | Some p \<Rightarrow> set_item p (\<lambda>i. i\<lparr>next_item := next_item (item_pool s ! item)\<rparr>) s);
          s = (case next_item (item_pool s ! item) of
                 None \<Rightarrow> s
               | Some n \<Rightarrow> set_item n (\<lambda>i. i\<lparr>prev_item := prev_item (item_pool s ! item)\<rparr>) s);
          s = (if first_item s = Some item
               then let s = s\<lparr>first_item := next_item (item_pool s ! item)\<rparr>
                    in case first_item s of
                         None \<Rightarrow> s
                       | Some f \<Rightarrow> set_item f (\<lambda>i. i\<lparr>prev_item := None\<rparr>) s
               else s)
      in if last_item s = Some item
         then let s = s\<lparr>last_item := prev_item (item_pool s ! item)\<rparr>
              in case last_item s of
                   None \<Rightarrow> s
                 | Some l \<Rightarrow> set_item l (\<lambda>i. i\<lparr>next_item := None\<rparr>) s
         else s)"

definition LRU_Insert :: "'o \<Rightarrow> 'o \<Rightarrow> u64 \<Rightarrow> 'o LRU \<Rightarrow> nat \<times> 'o LRU" where
  "LRU_Insert dflt ob t s =
     (let (new_id, s) = LRU_Build dflt s;
          s = set_item new_id (\<lambda>i. i\<lparr>obj := ob, tick := t\<rparr>) s
      in (new_id, LRU_Attach new_id s))"

text \<open>An item outside the pool is undefined.\<close>

definition LRU_Touch :: "nat \<Rightarrow> u64 \<Rightarrow> 'o LRU \<Rightarrow> 'o LRU option" where
  "LRU_Touch item t s =
     do {
       ASSERT (item < length (item_pool s));
       Some (if tick (item_pool s ! item) \<ge> t then s
             else let s = set_item item (\<lambda>i. i\<lparr>tick := t\<rparr>) s
                  in if last_item s = Some item then s else LRU_Attach item (LRU_Detach item s))
     }"

definition LRU_Free :: "nat \<Rightarrow> 'o LRU \<Rightarrow> 'o LRU option" where
  "LRU_Free item s =
     do {
       ASSERT (item < length (item_pool s));
       let s = LRU_Detach item s;
       let s = set_item item (\<lambda>i. i\<lparr>next_item := None, prev_item := None\<rparr>) s;
       Some (s\<lparr>free_items := free_items s @ [item]\<rparr>)
     }"

text \<open>
  The callback may change the cache and a state of its own.  Its result is never looked at:
  \<^verbatim>\<open>RETURNS_BOOL\<close> compares \<^verbatim>\<open>bool\<close> with the class \<^verbatim>\<open>std::invoke_result\<close> and not with its type.
\<close>

partial_function (option) ForEachItemBelow :: "u64 \<Rightarrow> ('o \<Rightarrow> 'o LRU \<times> 'st \<Rightarrow> 'o LRU \<times> 'st) \<Rightarrow> nat option
    \<Rightarrow> 'o LRU \<times> 'st \<Rightarrow> ('o LRU \<times> 'st) option" where
  "ForEachItemBelow t func iterator s =
     (case iterator of
        None \<Rightarrow> Some s
      | Some i \<Rightarrow>
          do {
            ASSERT (- (2 ^ 63) \<le> sint t - sint (tick (item_pool (fst s) ! i)) \<and>
                    sint t - sint (tick (item_pool (fst s) ! i)) < 2 ^ 63);
            if sint t - sint (tick (item_pool (fst s) ! i)) < 0 then Some s
            else ForEachItemBelow t func (next_item (item_pool (fst s) ! i))
                   (func (obj (item_pool (fst s) ! i)) s)
          })"

subsection \<open>Doubly linked lists in the pool\<close>

text \<open>\<open>xs\<close> is linked both ways, between the neighbours \<open>p\<close> and \<open>n\<close>.\<close>

fun chain :: "'o Item list \<Rightarrow> nat option \<Rightarrow> nat list \<Rightarrow> nat option \<Rightarrow> bool" where
  "chain pool p [] n \<longleftrightarrow> True"
| "chain pool p (x # xs) n \<longleftrightarrow> x < length pool \<and> prev_item (pool ! x) = p \<and>
     next_item (pool ! x) = (case xs of [] \<Rightarrow> n | y # _ \<Rightarrow> Some y) \<and> chain pool (Some x) xs n"

lemma chain_append:
  "chain pool p (xs @ ys) n \<longleftrightarrow>
     chain pool p xs (if ys = [] then n else Some (hd ys)) \<and>
     chain pool (if xs = [] then p else Some (last xs)) ys n"
  by (induction pool p xs n rule: chain.induct) (auto split: list.splits)

lemma chain_bounds: "chain pool p xs n \<Longrightarrow> x \<in> set xs \<Longrightarrow> x < length pool"
  by (induction pool p xs n rule: chain.induct) auto

lemma chain_frame:
  "(\<And>x. x \<in> set xs \<Longrightarrow> pool' ! x = pool ! x) \<Longrightarrow> length pool \<le> length pool' \<Longrightarrow> chain pool p xs n \<Longrightarrow>
   chain pool' p xs n"
  by (induction pool p xs n rule: chain.induct) auto

lemma chain_update [simp]: "x \<notin> set xs \<Longrightarrow> chain (pool[x := v]) p xs n \<longleftrightarrow> chain pool p xs n"
  by (induction pool p xs n rule: chain.induct) auto

lemma chain_data:
  "(\<And>x. x \<in> set xs \<Longrightarrow> next_item (pool' ! x) = next_item (pool ! x) \<and> prev_item (pool' ! x) = prev_item (pool ! x)) \<Longrightarrow>
   length pool \<le> length pool' \<Longrightarrow> chain pool p xs n \<Longrightarrow> chain pool' p xs n"
  by (induction pool p xs n rule: chain.induct) auto

lemma chain_last:
  assumes "chain pool p (xs @ [x]) n" "distinct (xs @ [x])"
  shows "chain (pool[x := (pool ! x)\<lparr>next_item := n'\<rparr>]) p (xs @ [x]) n'"
  using assms by (auto simp: chain_append)

lemma chain_first:
  assumes "chain pool p (x # xs) n" "distinct (x # xs)"
  shows "chain (pool[x := (pool ! x)\<lparr>prev_item := p'\<rparr>]) p' (x # xs) n"
  using assms by auto

text \<open>
  The cache whose items in use are \<open>xs\<close>, oldest first; every other item of the pool is free.
\<close>

definition lru_inv :: "'o LRU \<Rightarrow> nat list \<Rightarrow> bool" where
  "lru_inv s xs \<longleftrightarrow> distinct xs \<and> chain (item_pool s) None xs None \<and>
     first_item s = (if xs = [] then None else Some (hd xs)) \<and>
     last_item s = (if xs = [] then None else Some (last xs)) \<and>
     distinct (free_items s) \<and> set (free_items s) \<union> set xs = {..<length (item_pool s)} \<and>
     set (free_items s) \<inter> set xs = {}"

text \<open>What the code does between taking an item out and putting one in: \<open>off\<close> is in no list.\<close>

definition lru_off :: "'o LRU \<Rightarrow> nat list \<Rightarrow> nat \<Rightarrow> bool" where
  "lru_off s xs off \<longleftrightarrow> distinct xs \<and> chain (item_pool s) None xs None \<and>
     first_item s = (if xs = [] then None else Some (hd xs)) \<and>
     last_item s = (if xs = [] then None else Some (last xs)) \<and>
     distinct (free_items s) \<and> off < length (item_pool s) \<and> off \<notin> set xs \<and> off \<notin> set (free_items s) \<and>
     set (free_items s) \<union> set xs = {..<length (item_pool s)} - {off} \<and>
     set (free_items s) \<inter> set xs = {}"

text \<open>The data of items is not touched by the links.\<close>

definition same_data :: "'o LRU \<Rightarrow> 'o LRU \<Rightarrow> bool" where
  "same_data s s' \<longleftrightarrow> length (item_pool s') = length (item_pool s) \<and> free_items s' = free_items s \<and>
     (\<forall>i < length (item_pool s). obj (item_pool s' ! i) = obj (item_pool s ! i) \<and>
       tick (item_pool s' ! i) = tick (item_pool s ! i))"

lemma LRU_Detach_spec:
  assumes "lru_inv s (as @ a # bs)"
  shows "lru_off (LRU_Detach a s) (as @ bs) a" "same_data s (LRU_Detach a s)"
    "as @ bs = [] \<Longrightarrow> prev_item (item_pool (LRU_Detach a s) ! a) = None \<and> next_item (item_pool (LRU_Detach a s) ! a) = None"
proof -
  let ?P = "item_pool s"
  have d: "distinct (as @ a # bs)" and c: "chain ?P None (as @ a # bs) None"
    and f: "first_item s = Some (hd (as @ a # bs))" and l: "last_item s = Some (last (as @ a # bs))"
    and free: "distinct (free_items s)" "set (free_items s) \<union> set (as @ a # bs) = {..<length ?P}"
      "set (free_items s) \<inter> set (as @ a # bs) = {}"
    using assms by (auto simp: lru_inv_def)
  have b: "x < length ?P" if "x \<in> set (as @ a # bs)" for x using chain_bounds [OF c that] .
  have rest: "a < length ?P \<and> a \<notin> set (as @ bs) \<and> a \<notin> set (free_items s) \<and>
      set (free_items s) \<union> set (as @ bs) = {..<length ?P} - {a} \<and> set (free_items s) \<inter> set (as @ bs) = {}"
    using d free b by auto
  have ca: "chain ?P None as (Some a)" "prev_item (?P ! a) = (if as = [] then None else Some (last as))"
    "next_item (?P ! a) = (if bs = [] then None else Some (hd bs))" "chain ?P (Some a) bs None"
    using c by (auto simp: chain_append split: list.splits)
  show "lru_off (LRU_Detach a s) (as @ bs) a" "same_data s (LRU_Detach a s)"
    "as @ bs = [] \<Longrightarrow> prev_item (item_pool (LRU_Detach a s) ! a) = None \<and> next_item (item_pool (LRU_Detach a s) ! a) = None"
  proof (atomize (full), cases as rule: rev_cases)
    case Nil
    show "lru_off (LRU_Detach a s) (as @ bs) a \<and> same_data s (LRU_Detach a s) \<and> (as @ bs = [] \<longrightarrow>
        prev_item (item_pool (LRU_Detach a s) ! a) = None \<and> next_item (item_pool (LRU_Detach a s) ! a) = None)"
    proof (cases bs)
      case n: Nil
      then show ?thesis using Nil ca f l rest free(1) d
        by (simp add: LRU_Detach_def Let_def lru_off_def same_data_def)
    next
      case (Cons n bs')
      have "chain (?P[n := (?P ! n)\<lparr>prev_item := None\<rparr>]) None (n # bs') None"
        using ca(4) d Cons by (intro chain_first) auto
      moreover have "item_pool (LRU_Detach a s) = ?P[n := (?P ! n)\<lparr>prev_item := None\<rparr>]"
        "first_item (LRU_Detach a s) = Some n" "last_item (LRU_Detach a s) = Some (last (as @ bs))"
        "free_items (LRU_Detach a s) = free_items s"
        using Nil Cons ca(2,3) f l d b [of n] last_in_set [of bs]
        by (auto simp: LRU_Detach_def Let_def set_item_def split: if_splits)
      moreover have "n < length ?P" using b [of n] Cons by simp
      ultimately show ?thesis using Nil Cons rest free(1) d
        by (simp add: lru_off_def same_data_def nth_list_update del: chain.simps)
    qed
  next
    case (snoc as' p)
    have cp: "chain (?P[p := (?P ! p)\<lparr>next_item := x\<rparr>]) None (as' @ [p]) x" for x
      using ca(1) d snoc by (intro chain_last) auto
    show "lru_off (LRU_Detach a s) (as @ bs) a \<and> same_data s (LRU_Detach a s) \<and> (as @ bs = [] \<longrightarrow>
        prev_item (item_pool (LRU_Detach a s) ! a) = None \<and> next_item (item_pool (LRU_Detach a s) ! a) = None)"
    proof (cases bs)
      case n: Nil
      have "p \<noteq> a" "hd (as @ a # bs) \<noteq> a" "hd (as @ a # bs) = hd (as @ bs)"
        using d snoc by (cases as'; auto)+
      then have "item_pool (LRU_Detach a s) = ?P[p := (?P ! p)\<lparr>next_item := None\<rparr>]"
        "first_item (LRU_Detach a s) = Some (hd (as @ bs))" "last_item (LRU_Detach a s) = Some p"
        "free_items (LRU_Detach a s) = free_items s"
        using snoc n ca(2,3) f l d b [of p]
        by (auto simp: LRU_Detach_def Let_def set_item_def hd_append)
      moreover have "p < length ?P" using b [of p] snoc by simp
      ultimately show ?thesis using snoc n rest free(1) d cp [of None]
        by (simp add: lru_off_def same_data_def nth_list_update del: chain.simps)
    next
      case (Cons n bs')
      let ?Q = "?P[p := (?P ! p)\<lparr>next_item := Some n\<rparr>]"
      have "chain ?Q (Some a) (n # bs') None"
        using ca(4) d snoc Cons by (simp del: chain.simps)
      then have "chain (?Q[n := (?Q ! n)\<lparr>prev_item := Some p\<rparr>]) (Some p) (n # bs') None"
        using d Cons by (intro chain_first) auto
      moreover have "chain (?Q[n := (?Q ! n)\<lparr>prev_item := Some p\<rparr>]) None (as' @ [p]) (Some n)"
        using d snoc Cons cp [of "Some n"] by (simp del: chain.simps)
      ultimately have "chain (?Q[n := (?Q ! n)\<lparr>prev_item := Some p\<rparr>]) None (as @ bs) None"
        unfolding snoc Cons by (subst chain_append) (simp del: chain.simps)
      moreover have "item_pool (LRU_Detach a s) = ?Q[n := (?Q ! n)\<lparr>prev_item := Some p\<rparr>]"
        "first_item (LRU_Detach a s) = Some (hd (as @ bs))" "last_item (LRU_Detach a s) = Some (last (as @ bs))"
        "free_items (LRU_Detach a s) = free_items s"
        using snoc Cons ca(2,3) f l d
        by (auto simp: LRU_Detach_def Let_def set_item_def hd_append)
      moreover have "length ?Q = length ?P" "p < length ?P" "n < length ?P" "p \<noteq> n"
        using b [of p] b [of n] snoc Cons d by auto
      ultimately show ?thesis using snoc Cons rest free(1) d
        by (simp add: lru_off_def same_data_def nth_list_update del: chain.simps)
    qed
  qed
qed

lemma LRU_Attach_spec:
  assumes "lru_off s xs a"
    and "xs = [] \<Longrightarrow> prev_item (item_pool s ! a) = None \<and> next_item (item_pool s ! a) = None"
  shows "lru_inv (LRU_Attach a s) (xs @ [a])" "same_data s (LRU_Attach a s)"
proof -
  let ?P = "item_pool s"
  have o: "distinct xs" "chain ?P None xs None" "first_item s = (if xs = [] then None else Some (hd xs))"
    "last_item s = (if xs = [] then None else Some (last xs))" "distinct (free_items s)" "a < length ?P"
    "a \<notin> set xs" "a \<notin> set (free_items s)" "set (free_items s) \<union> set xs = {..<length ?P} - {a}"
    "set (free_items s) \<inter> set xs = {}" using assms(1) by (auto simp: lru_off_def)
  have u: "set (free_items s) \<union> insert a (set xs) = {..<length ?P}" using o(6,9) by auto
  show "lru_inv (LRU_Attach a s) (xs @ [a])" "same_data s (LRU_Attach a s)"
  proof (atomize (full), cases xs rule: rev_cases)
    case Nil
    then show "lru_inv (LRU_Attach a s) (xs @ [a]) \<and> same_data s (LRU_Attach a s)"
      using o u assms(2) by (auto simp: LRU_Attach_def Let_def lru_inv_def same_data_def)
  next
    case (snoc xs' l)
    have l: "l < length ?P" using chain_bounds [OF o(2)] snoc by simp
    let ?Q = "?P[a := (?P ! a)\<lparr>prev_item := Some l, next_item := None\<rparr>]"
    let ?R = "?Q[l := (?Q ! l)\<lparr>next_item := Some a\<rparr>]"
    have "chain ?Q None xs None" using o(2,7) by simp
    then have "chain ?R None xs (Some a)" unfolding snoc using o(1) snoc by (intro chain_last) auto
    moreover have "?R ! a = (?P ! a)\<lparr>prev_item := Some l, next_item := None\<rparr>"
      using o(6,7) snoc by (auto simp: nth_list_update)
    moreover have "xs \<noteq> []" "last xs = l" using snoc by simp_all
    ultimately have "chain ?R None (xs @ [a]) None" using o(6) by (subst chain_append) simp
    moreover have "l \<noteq> a" using o(7) snoc by auto
    then have "item_pool (LRU_Attach a s) = ?R" "first_item (LRU_Attach a s) = Some (hd xs)"
      "last_item (LRU_Attach a s) = Some a" "free_items (LRU_Attach a s) = free_items s"
      using o(3,4,6) snoc l
      by (simp_all add: LRU_Attach_def Let_def set_item_def list_update_swap)
    moreover have "obj (?R ! i) = obj (?P ! i) \<and> tick (?R ! i) = tick (?P ! i)" for i
      using l o(6) by (cases "i = l"; cases "i = a") simp_all
    ultimately show "lru_inv (LRU_Attach a s) (xs @ [a]) \<and> same_data s (LRU_Attach a s)"
      using o(1,5,7,8,10) u \<open>xs \<noteq> []\<close>
      by (simp add: lru_inv_def same_data_def hd_append del: chain.simps)
  qed
qed

subsection \<open>What the cache means\<close>

text \<open>The items in order of use, with their data.\<close>

definition lru_rep :: "'o LRU \<Rightarrow> (nat \<times> 'o \<times> u64) list \<Rightarrow> bool" where
  "lru_rep s L \<longleftrightarrow> lru_inv s (map fst L) \<and>
     (\<forall>(i, ob, t) \<in> set L. obj (item_pool s ! i) = ob \<and> tick (item_pool s ! i) = t)"

datatype 'o lru_op = Op_Insert 'o u64 | Op_Touch nat u64 | Op_Free nat

text \<open>An operation on a live item, on the code's state and on the list.\<close>

fun lru_exec :: "'o \<Rightarrow> 'o lru_op \<Rightarrow> 'o LRU \<Rightarrow> 'o LRU option" where
  "lru_exec dflt (Op_Insert ob t) s = Some (snd (LRU_Insert dflt ob t s))"
| "lru_exec dflt (Op_Touch i t) s = LRU_Touch i t s"
| "lru_exec dflt (Op_Free i) s = LRU_Free i s"

fun lru_valid :: "'o lru_op \<Rightarrow> (nat \<times> 'o \<times> u64) list \<Rightarrow> bool" where
  "lru_valid (Op_Insert ob t) L = True"
| "lru_valid (Op_Touch i t) L = (i \<in> fst ` set L)"
| "lru_valid (Op_Free i) L = (i \<in> fst ` set L)"

fun lru_spec :: "nat \<Rightarrow> 'o lru_op \<Rightarrow> (nat \<times> 'o \<times> u64) list \<Rightarrow> (nat \<times> 'o \<times> u64) list" where
  "lru_spec new (Op_Insert ob t) L = L @ [(new, ob, t)]"
| "lru_spec new (Op_Touch i t) L =
     (case map_of L i of
        None \<Rightarrow> L
      | Some (ob, t') \<Rightarrow> if t' \<ge> t then L else filter (\<lambda>e. fst e \<noteq> i) L @ [(i, ob, t)])"
| "lru_spec new (Op_Free i) L = filter (\<lambda>e. fst e \<noteq> i) L"

lemma lru_rep_split:
  assumes "lru_rep s L" "i \<in> fst ` set L"
  obtains A ob t B where "L = A @ (i, ob, t) # B" "map_of L i = Some (ob, t)"
    "filter (\<lambda>e. fst e \<noteq> i) L = A @ B" "lru_inv s (map fst A @ i # map fst B)" "i < length (item_pool s)"
    "obj (item_pool s ! i) = ob" "tick (item_pool s ! i) = t"
proof -
  obtain ob t where "(i, ob, t) \<in> set L" using assms(2) by fastforce
  then obtain A B where L: "L = A @ (i, ob, t) # B" by (auto dest!: split_list)
  have inv: "lru_inv s (map fst A @ i # map fst B)" using assms(1) L by (simp add: lru_rep_def)
  then have d: "i \<notin> fst ` set A" "i \<notin> fst ` set B" by (auto simp: lru_inv_def)
  then have "filter (\<lambda>e. fst e \<noteq> i) A = A" "filter (\<lambda>e. fst e \<noteq> i) B = B"
    by (auto simp: filter_id_conv)
  moreover have "map_of A i = None" using d(1) by (simp add: map_of_eq_None_iff)
  moreover have "i < length (item_pool s)" using inv chain_bounds by (auto simp: lru_inv_def)
  moreover have "obj (item_pool s ! i) = ob \<and> tick (item_pool s ! i) = t"
    using assms(1) L by (auto simp: lru_rep_def)
  ultimately show thesis using inv L by (intro that [of A ob t B]) (simp_all add: map_add_def)
qed

lemma lru_rep_data:
  assumes "lru_inv s' (map fst L)" "same_data s s'"
    and "\<forall>(i, ob, t) \<in> set L. i < length (item_pool s) \<and> obj (item_pool s ! i) = ob \<and> tick (item_pool s ! i) = t"
  shows "lru_rep s' L"
  using assms by (fastforce simp: lru_rep_def same_data_def)

lemma LRU_Build_off:
  assumes "lru_inv s xs"
  obtains new s' where "LRU_Build dflt s = (new, s')" "lru_off s' xs new"
    "prev_item (item_pool s' ! new) = None" "next_item (item_pool s' ! new) = None"
    "\<forall>i \<in> set xs. item_pool s' ! i = item_pool s ! i"
proof (cases "free_items s")
  case Nil
  let ?s = "s\<lparr>item_pool := item_pool s @ [\<lparr>obj = dflt, tick = 0, next_item = None, prev_item = None\<rparr>]\<rparr>"
  have "chain (item_pool ?s) None xs None"
  proof (rule chain_frame [of xs _ "item_pool s"])
    show c: "chain (item_pool s) None xs None" using assms by (simp add: lru_inv_def)
    show "item_pool ?s ! x = item_pool s ! x" if "x \<in> set xs" for x
      using chain_bounds [OF c that] by (simp add: nth_append)
  qed simp
  moreover have xs: "set xs = {..<length (item_pool s)}" using assms Nil by (simp add: lru_inv_def)
  then have "{..<length (item_pool ?s)} - {length (item_pool s)} = set xs" by (simp add: lessThan_Suc)
  ultimately have "lru_off ?s xs (length (item_pool s))"
    using assms Nil unfolding lru_inv_def lru_off_def by simp
  moreover have "\<forall>i \<in> set xs. item_pool ?s ! i = item_pool s ! i"
    using xs by (simp add: nth_append)
  ultimately show thesis using Nil by (intro that [of "length (item_pool s)" ?s]) (simp_all add: LRU_Build_def)
next
  case (Cons new rest)
  have new: "new \<notin> set xs" "new < length (item_pool s)" using assms Cons by (auto simp: lru_inv_def)
  let ?s = "set_item new (\<lambda>i. i\<lparr>next_item := None, prev_item := None\<rparr>) (s\<lparr>free_items := rest\<rparr>)"
  have "lru_off ?s xs new"
    using assms Cons new by (auto simp: lru_inv_def lru_off_def set_item_def)
  moreover have "\<forall>i \<in> set xs. item_pool ?s ! i = item_pool s ! i"
    using new by (metis (no_types, lifting) LRU.select_convs(1) LRU.surjective LRU.update_convs(1,2)
        nth_list_update_neq set_item_def)
  ultimately show thesis using Cons new
    by (intro that [of new ?s]) (auto simp: LRU_Build_def set_item_def)
qed

lemma set_data_off:
  assumes "lru_off s xs a" "\<And>x. next_item (f x) = next_item x" "\<And>x. prev_item (f x) = prev_item x"
  shows "lru_off (set_item a f s) xs a" "item_pool (set_item a f s) ! a = f (item_pool s ! a)"
    "\<And>i. i \<noteq> a \<Longrightarrow> item_pool (set_item a f s) ! i = item_pool s ! i"
  using assms by (auto simp: lru_off_def set_item_def)

text \<open>
  C26: every operation on the linked items does what it means on the list of items in order of
  use: an insertion appends a fresh item, a touch with a later tick moves the item to the end, and
  freeing removes it.
\<close>

theorem lru_refines:
  assumes rep: "lru_rep s L" and ok: "lru_valid op L"
  shows "\<exists>new s'. lru_exec dflt op s = Some s' \<and> lru_rep s' (lru_spec new op L) \<and> new \<notin> fst ` set L"
proof (cases op)
  case (Op_Insert ob t)
  have inv: "lru_inv s (map fst L)" using rep by (simp add: lru_rep_def)
  obtain new s1 where b: "LRU_Build dflt s = (new, s1)" "lru_off s1 (map fst L) new"
    "prev_item (item_pool s1 ! new) = None" "next_item (item_pool s1 ! new) = None"
    "\<forall>i \<in> set (map fst L). item_pool s1 ! i = item_pool s ! i"
    by (rule LRU_Build_off [OF inv, of dflt])
  define s2 where "s2 = set_item new (\<lambda>i. i\<lparr>obj := ob, tick := t\<rparr>) s1"
  have s2: "lru_off s2 (map fst L) new" "item_pool s2 ! new = (item_pool s1 ! new)\<lparr>obj := ob, tick := t\<rparr>"
    "\<And>i. i \<noteq> new \<Longrightarrow> item_pool s2 ! i = item_pool s1 ! i"
    using set_data_off [OF b(2), of "\<lambda>i. i\<lparr>obj := ob, tick := t\<rparr>"] by (simp_all add: s2_def)
  have new: "new \<notin> fst ` set L" "new < length (item_pool s2)" using s2(1) by (auto simp: lru_off_def)
  have at: "lru_inv (LRU_Attach new s2) (map fst L @ [new])" "same_data s2 (LRU_Attach new s2)"
    using LRU_Attach_spec [OF s2(1)] s2(2) b(3,4) by auto
  have "lru_rep (LRU_Attach new s2) (L @ [(new, ob, t)])"
  proof (rule lru_rep_data [OF _ at(2)])
    show "lru_inv (LRU_Attach new s2) (map fst (L @ [(new, ob, t)]))" using at(1) by simp
    have "i < length (item_pool s2) \<and> obj (item_pool s2 ! i) = ob' \<and> tick (item_pool s2 ! i) = t'"
      if "(i, ob', t') \<in> set L" for i ob' t'
    proof -
      have "i \<in> set (map fst L)" using that by force
      then have "i \<noteq> new" "i < length (item_pool s2)" "item_pool s2 ! i = item_pool s ! i"
        using new s2(1) s2(3) [of i] b(5) by (auto simp: lru_off_def)
      then show ?thesis using rep that by (auto simp: lru_rep_def)
    qed
    then show "\<forall>(i, ob', t') \<in> set (L @ [(new, ob, t)]). i < length (item_pool s2) \<and>
        obj (item_pool s2 ! i) = ob' \<and> tick (item_pool s2 ! i) = t'"
      using s2(2) new(2) by auto
  qed
  then show ?thesis using Op_Insert b(1) new(1)
    by (intro exI [of _ new]) (simp add: LRU_Insert_def s2_def)
next
  case (Op_Touch i t)
  then have "i \<in> fst ` set L" using ok by simp
  from lru_rep_split [OF rep this] obtain A ob t' B where L: "L = A @ (i, ob, t') # B"
    "map_of L i = Some (ob, t')" "filter (\<lambda>e. fst e \<noteq> i) L = A @ B" "lru_inv s (map fst A @ i # map fst B)"
    "i < length (item_pool s)" "obj (item_pool s ! i) = ob" "tick (item_pool s ! i) = t'" by metis
  have fresh: "length (item_pool s) \<notin> fst ` set L" using rep by (auto simp: lru_rep_def lru_inv_def)
  show ?thesis
  proof (cases "t' \<ge> t")
    case True
    then show ?thesis using Op_Touch L rep fresh by (auto simp: LRU_Touch_def)
  next
    case False
    define s1 where "s1 = set_item i (\<lambda>x. x\<lparr>tick := t\<rparr>) s"
    have inv1: "lru_inv s1 (map fst A @ i # map fst B)"
      using L(4,5) chain_data [of "map fst A @ i # map fst B" "item_pool s1" "item_pool s" None None]
      by (auto simp: lru_inv_def s1_def set_item_def nth_list_update)
    have old: "obj (item_pool s1 ! j) = ob' \<and> tick (item_pool s1 ! j) = t'' \<and> j < length (item_pool s1)"
      if "(j, ob', t'') \<in> set (A @ B)" for j ob' t''
    proof -
      have "j \<in> set (map fst A @ map fst B)" using that by force
      then have "j \<noteq> i" using L(4) by (auto simp: lru_inv_def)
      moreover have "(j, ob', t'') \<in> set L" "j < length (item_pool s)"
        using that L(4) \<open>j \<in> set (map fst A @ map fst B)\<close> unfolding L(1) by (auto simp: lru_inv_def)
      ultimately show ?thesis using rep by (auto simp: lru_rep_def s1_def set_item_def)
    qed
    have at_i: "obj (item_pool s1 ! i) = ob" "tick (item_pool s1 ! i) = t" "i < length (item_pool s1)"
      using L(5,6) by (simp_all add: s1_def set_item_def)
    have spec: "lru_spec new op L = A @ B @ [(i, ob, t)]" for new
      using Op_Touch L(2,3) False by simp
    show ?thesis
    proof (cases "last_item s = Some i")
      case True
      have "B = []"
      proof (rule ccontr)
        assume "B \<noteq> []"
        then have "last (map fst A @ i # map fst B) = last (map fst B)" by (simp add: last_map)
        then have "last (map fst B) = i" using L(4) True unfolding lru_inv_def by simp
        moreover have "last (map fst B) \<in> set (map fst B)" using \<open>B \<noteq> []\<close> by (intro last_in_set) simp
        moreover have "distinct (map fst A @ i # map fst B)" using L(4) by (simp only: lru_inv_def)
        ultimately show False by simp
      qed
      then have "lru_rep s1 (A @ B @ [(i, ob, t)])"
        using inv1 old at_i unfolding lru_rep_def by fastforce
      moreover have "lru_exec dflt op s = Some s1"
        using Op_Touch L(5,7) False True by (simp add: LRU_Touch_def s1_def set_item_def)
      ultimately show ?thesis using fresh unfolding spec by blast
    next
      case NL: False
      note dt = LRU_Detach_spec [OF inv1]
      note at = LRU_Attach_spec [OF dt(1,3)]
      have "lru_rep (LRU_Attach i (LRU_Detach i s1)) (A @ B @ [(i, ob, t)])"
      proof (rule lru_rep_data [of _ _ s1])
        show "lru_inv (LRU_Attach i (LRU_Detach i s1)) (map fst (A @ B @ [(i, ob, t)]))" using at(1) by simp
        show "same_data s1 (LRU_Attach i (LRU_Detach i s1))"
          using dt(2) at(2) by (simp add: same_data_def)
        show "\<forall>(j, ob', t') \<in> set (A @ B @ [(i, ob, t)]). j < length (item_pool s1) \<and>
            obj (item_pool s1 ! j) = ob' \<and> tick (item_pool s1 ! j) = t'"
          using old at_i by auto
      qed
      moreover have "lru_exec dflt op s = Some (LRU_Attach i (LRU_Detach i s1))"
        using Op_Touch L(5,7) False NL by (simp add: LRU_Touch_def s1_def set_item_def)
      ultimately show ?thesis using fresh unfolding spec by blast
    qed
  qed
next
  case (Op_Free i)
  then have "i \<in> fst ` set L" using ok by simp
  from lru_rep_split [OF rep this] obtain A ob t' B where L: "L = A @ (i, ob, t') # B"
    "map_of L i = Some (ob, t')" "filter (\<lambda>e. fst e \<noteq> i) L = A @ B" "lru_inv s (map fst A @ i # map fst B)"
    "i < length (item_pool s)" "obj (item_pool s ! i) = ob" "tick (item_pool s ! i) = t'" by metis
  have fresh: "length (item_pool s) \<notin> fst ` set L" using rep by (auto simp: lru_rep_def lru_inv_def)
  note dt = LRU_Detach_spec [OF L(4)]
  define s1 where "s1 = (set_item i (\<lambda>x. x\<lparr>next_item := None, prev_item := None\<rparr>) (LRU_Detach i s))
    \<lparr>free_items := free_items (LRU_Detach i s) @ [i]\<rparr>"
  have "lru_inv s1 (map fst (A @ B))"
    using dt(1) by (auto simp: lru_off_def lru_inv_def s1_def set_item_def)
  moreover have "same_data (s\<lparr>free_items := free_items s1\<rparr>) s1"
    using dt(1,2) by (auto simp: same_data_def s1_def set_item_def nth_list_update lru_off_def)
  moreover have "\<forall>(j, ob', t') \<in> set (A @ B). j < length (item_pool s) \<and>
      obj (item_pool s ! j) = ob' \<and> tick (item_pool s ! j) = t'"
  proof (clarify)
    fix j ob' t'
    assume "(j, ob', t') \<in> set (A @ B)"
    then have "(j, ob', t') \<in> set L" by (auto simp: L(1))
    moreover from this have "j \<in> set (map fst L)" by force
    then have "j < length (item_pool s)" using rep chain_bounds unfolding lru_rep_def lru_inv_def by metis
    ultimately show "j < length (item_pool s) \<and> obj (item_pool s ! j) = ob' \<and> tick (item_pool s ! j) = t'"
      using rep unfolding lru_rep_def by fast
  qed
  ultimately have "lru_rep s1 (A @ B)" by (intro lru_rep_data [of s1 _ "s\<lparr>free_items := free_items s1\<rparr>"]) simp_all
  moreover have "lru_exec dflt op s = Some s1" using Op_Free L(5) by (simp add: LRU_Free_def s1_def Let_def set_item_def)
  ultimately show ?thesis using fresh L(3) Op_Free by auto
qed
text \<open>The cache of the texture cache after two images and a use of the first.\<close>

definition demo_lru :: "nat LRU" where
  "demo_lru = the (LRU_Touch 0 5 (snd (LRU_Insert 0 11 4 (snd (LRU_Insert 0 10 3 LRU_init)))))"

lemma demo_lru_rep: "lru_rep demo_lru [(1, 11, 4), (0, 10, 5)]"
proof -
  have init: "lru_rep LRU_init []" by (simp add: lru_rep_def lru_inv_def LRU_init_def)
  have eq: "demo_lru = \<lparr>item_pool = [\<lparr>obj = 10, tick = 5, next_item = None, prev_item = Some 1\<rparr>,
      \<lparr>obj = 11, tick = 4, next_item = Some 0, prev_item = None\<rparr>], free_items = [],
      first_item = Some 1, last_item = Some 0\<rparr>"
    by (simp add: demo_lru_def LRU_Touch_def LRU_Insert_def LRU_Build_def LRU_Attach_def LRU_Detach_def
        LRU_init_def set_item_def Let_def)
  show ?thesis unfolding eq by (auto simp: lru_rep_def lru_inv_def)
qed

theorem lru_refines_witness:
  "\<exists>new s'. lru_exec 0 (Op_Touch 1 9) demo_lru = Some s' \<and>
     lru_rep s' (lru_spec new (Op_Touch 1 9) [(1, 11, 4), (0, 10, 5)]) \<and>
     new \<notin> fst ` set [(1 :: nat, 11 :: nat, 4 :: u64), (0, 10, 5)]"
  by (rule lru_refines [OF demo_lru_rep]) simp

subsection \<open>The walk over the oldest items\<close>

lemma ForEachItemBelow_from:
  assumes "lru_rep s (pre @ L)"
    and "\<forall>(i, ob, t') \<in> set L. - (2 ^ 63) \<le> sint t - sint t' \<and> sint t - sint t' < 2 ^ 63"
    and keep: "\<And>s st pre i ob t' rest. lru_rep s (pre @ (i, ob, t') # rest) \<Longrightarrow>
      \<exists>pre'. lru_rep (fst (func ob (s, st))) (pre' @ rest)"
  shows "ForEachItemBelow t func (if L = [] then None else Some (fst (hd L))) (s, st) =
    Some (fold (\<lambda>(i, ob, t'). func ob) (takeWhile (\<lambda>(i, ob, t'). sint t' \<le> sint t) L) (s, st))"
  using assms(1,2)
proof (induction L arbitrary: s st pre)
  case Nil
  then show ?case by (simp add: ForEachItemBelow.simps)
next
  case (Cons e L)
  obtain i ob t' where e: "e = (i, ob, t')" by (cases e)
  have at: "obj (item_pool s ! i) = ob" "tick (item_pool s ! i) = t'"
    using Cons.prems(1) unfolding lru_rep_def e by auto
  have "chain (item_pool s) None (map fst pre @ i # map fst L) None"
    using Cons.prems(1) unfolding lru_rep_def lru_inv_def e by simp
  then have nxt: "next_item (item_pool s ! i) = (if L = [] then None else Some (fst (hd L)))"
    by (cases L) (simp_all add: chain_append)
  have range: "- (2 ^ 63) \<le> sint t - sint t' \<and> sint t - sint t' < 2 ^ 63" using Cons.prems(2) e by simp
  obtain s' st' where f: "func ob (s, st) = (s', st')" by (cases "func ob (s, st)")
  obtain pre' where "lru_rep s' (pre' @ L)"
    using keep [of s pre i ob t' L st] Cons.prems(1) f e by auto
  then have IH: "ForEachItemBelow t func (if L = [] then None else Some (fst (hd L))) (s', st') =
      Some (fold (\<lambda>(i, ob, t'). func ob) (takeWhile (\<lambda>(i, ob, t'). sint t' \<le> sint t) L) (s', st'))"
    using Cons.prems(2) by (intro Cons.IH) auto
  show ?case
  proof (cases "sint t' \<le> sint t")
    case True
    have "ForEachItemBelow t func (Some i) (s, st) =
        ForEachItemBelow t func (if L = [] then None else Some (fst (hd L))) (s', st')"
      using at nxt range f True by (subst ForEachItemBelow.simps) simp
    then show ?thesis using IH True e f by simp
  next
    case False
    then show ?thesis using at range e by (subst ForEachItemBelow.simps) simp
  qed
qed

text \<open>
  The walk over the oldest items ends, and it calls its callback on exactly the items in front
  of the first one used later than the given tick, in order of use, for every callback that keeps
  the items behind the one it is called on (such as the one that frees that item).
\<close>

theorem ForEachItemBelow_ends:
  assumes "lru_rep s L"
    and "\<forall>(i, ob, t') \<in> set L. - (2 ^ 63) \<le> sint t - sint t' \<and> sint t - sint t' < 2 ^ 63"
    and "\<And>s st pre i ob t' rest. lru_rep s (pre @ (i, ob, t') # rest) \<Longrightarrow>
      \<exists>pre'. lru_rep (fst (func ob (s, st))) (pre' @ rest)"
  shows "ForEachItemBelow t func (first_item s) (s, st) =
    Some (fold (\<lambda>(i, ob, t'). func ob) (takeWhile (\<lambda>(i, ob, t'). sint t' \<le> sint t) L) (s, st))"
proof -
  have "first_item s = (if L = [] then None else Some (fst (hd L)))"
    using assms(1) by (auto simp: lru_rep_def lru_inv_def hd_map)
  then show ?thesis using ForEachItemBelow_from [of s "[]" L t func st] assms by simp
qed

text \<open>A callback that frees the item whose id is its object, as the garbage collector of images does.\<close>

definition free_visited :: "nat \<Rightarrow> nat LRU \<times> nat list \<Rightarrow> nat LRU \<times> nat list" where
  "free_visited ob p =
     (if obj (item_pool (fst p) ! the (first_item (fst p))) = ob
      then (the (LRU_Free (the (first_item (fst p))) (fst p)), snd p @ [ob]) else (fst p, snd p @ [ob]))"

lemma free_visited_keeps:
  assumes "lru_rep s (pre @ (i, ob, t') # rest)"
  shows "\<exists>pre'. lru_rep (fst (free_visited ob (s, st))) (pre' @ rest)"
proof -
  let ?L = "pre @ (i, ob, t') # rest"
  obtain j ob' t'' A where L: "?L = (j, ob', t'') # A" by (cases ?L) auto
  have j: "first_item s = Some j" using assms unfolding L lru_rep_def lru_inv_def by simp
  have "distinct (map fst ?L)" using assms unfolding lru_rep_def lru_inv_def by blast
  then have f: "filter (\<lambda>e. fst e \<noteq> j) ?L = A" unfolding L by (auto simp: filter_id_conv)
  obtain s' where "LRU_Free j s = Some s'" "lru_rep s' A"
    using lru_refines [OF assms, of "Op_Free j"] f L by auto
  moreover have "\<exists>pre'. A = pre' @ rest" using L by (cases pre) auto
  ultimately obtain pre' where "lru_rep s' (pre' @ rest)" by auto
  then show ?thesis using j assms \<open>LRU_Free j s = Some s'\<close> unfolding free_visited_def
    by (cases "obj (item_pool s ! j) = ob") (auto intro: exI [of _ pre'] exI [of _ "pre @ [(i, ob, t')]"])
qed

theorem ForEachItemBelow_ends_witness:
  "ForEachItemBelow 4 free_visited (first_item demo_lru) (demo_lru, []) =
     Some (free_visited 11 (demo_lru, []))"
  using ForEachItemBelow_ends [OF demo_lru_rep, of 4 free_visited "[]", OF _ free_visited_keeps] by simp

end
