(* ===== verification/Word_Bits.thy ===== *)
theory Word_Bits
  imports Prelude
begin

section \<open>Bit sets stored in 64-bit words\<close>

text \<open>
  What the bit sets of \<^verbatim>\<open>common/slot_vector.h\<close> and \<^verbatim>\<open>common/bit_array.h\<close> share: bit \<open>i\<close> of the set
  is bit \<open>i mod 64\<close> of word \<open>i div 64\<close>.
\<close>

definition stored :: "u64 list \<Rightarrow> nat \<Rightarrow> bool" where
  "stored bs i \<longleftrightarrow> i div 64 < length bs \<and> bit (bs ! (i div 64)) (i mod 64)"

lemma stored_bound: "stored bs i \<Longrightarrow> i < 64 * length bs"
  unfolding stored_def by (metis div_less_iff_less_mult mult.commute zero_less_numeral)

lemma div_mod_64_eq: "(i :: nat) div 64 = j div 64 \<Longrightarrow> i mod 64 = j mod 64 \<Longrightarrow> i = j"
  by (metis div_mult_mod_eq)

lemma stored_word: "k < 64 \<Longrightarrow> w < length bs \<Longrightarrow> stored bs (w * 64 + k) \<longleftrightarrow> bit (bs ! w) k"
  by (simp add: stored_def)

lemma stored_set:
  assumes "j div 64 < length bs"
  shows "stored (bs[j div 64 := bs ! (j div 64) OR push_bit (j mod 64) 1]) i \<longleftrightarrow> i = j \<or> stored bs i"
  using assms div_mod_64_eq [of i j]
  by (auto simp: stored_def nth_list_update bit_or_iff bit_exp_iff)

lemma stored_reset:
  assumes "j div 64 < length bs"
  shows "stored (bs[j div 64 := bs ! (j div 64) AND NOT (push_bit (j mod 64) 1)]) i \<longleftrightarrow> i \<noteq> j \<and> stored bs i"
  using assms div_mod_64_eq [of i j]
  by (auto simp: stored_def nth_list_update bit_and_iff bit_not_iff bit_exp_iff)

subsection \<open>Counting the zeros and ones at either end of a word\<close>

text \<open>
  \<^verbatim>\<open>std::countr_zero\<close>, \<^verbatim>\<open>std::countr_one\<close>, \<^verbatim>\<open>std::countl_zero\<close>, \<^verbatim>\<open>std::countl_one\<close> of the standard library at
  64 bits.
\<close>

definition countr_zero :: "u64 \<Rightarrow> nat" where
  "countr_zero w = length (takeWhile (\<lambda>i. \<not> bit w i) [0..<64])"

definition countr_one :: "u64 \<Rightarrow> nat" where
  "countr_one w = length (takeWhile (\<lambda>i. bit w i) [0..<64])"

definition countl_zero :: "u64 \<Rightarrow> nat" where
  "countl_zero w = length (takeWhile (\<lambda>i. \<not> bit w i) (rev [0..<64]))"

definition countl_one :: "u64 \<Rightarrow> nat" where
  "countl_one w = length (takeWhile (\<lambda>i. bit w i) (rev [0..<64]))"

lemma takeWhile_upt:
  "length (takeWhile P [0..<n]) = k \<longleftrightarrow> k \<le> n \<and> (\<forall>i<k. P i) \<and> (k < n \<longrightarrow> \<not> P k)"
proof -
  have "k \<le> n \<and> (\<forall>i<k. P i) \<and> (k < n \<longrightarrow> \<not> P k)" if k: "length (takeWhile P [0..<n]) = k" for k
  proof (intro conjI allI impI)
    show l: "k \<le> n" using length_takeWhile_le [of P "[0..<n]"] k by simp
    show "P i" if "i < k" for i
      using that nth_mem [of i "takeWhile P [0..<n]"] takeWhile_nth [of i P "[0..<n]"] l k
      by (auto dest: set_takeWhileD)
    show "\<not> P k" if "k < n" using nth_length_takeWhile [of P "[0..<n]"] that k by simp
  qed
  moreover have "j = k" if "j \<le> n \<and> (\<forall>i<j. P i) \<and> (j < n \<longrightarrow> \<not> P j)"
    "k \<le> n \<and> (\<forall>i<k. P i) \<and> (k < n \<longrightarrow> \<not> P k)" for j k
    using that by (metis linorder_neqE_nat order_less_le_trans)
  ultimately show ?thesis by blast
qed

lemma takeWhile_rev_upt:
  "length (takeWhile P (rev [0..<n])) = k \<longleftrightarrow>
   k \<le> n \<and> (\<forall>i<k. P (n - 1 - i)) \<and> (k < n \<longrightarrow> \<not> P (n - 1 - k))"
proof -
  have "rev [0..<n] = map (\<lambda>i. n - 1 - i) [0..<n]"
    by (rule nth_equalityI) (auto simp: rev_nth)
  then show ?thesis by (simp add: takeWhile_map takeWhile_upt comp_def)
qed

lemma countr_zero_iff: "countr_zero w = k \<longleftrightarrow> k \<le> 64 \<and> (\<forall>i<k. \<not> bit w i) \<and> (k < 64 \<longrightarrow> bit w k)"
  by (simp add: countr_zero_def takeWhile_upt)

lemma countr_one_iff: "countr_one w = k \<longleftrightarrow> k \<le> 64 \<and> (\<forall>i<k. bit w i) \<and> (k < 64 \<longrightarrow> \<not> bit w k)"
  by (simp add: countr_one_def takeWhile_upt)

lemma countl_zero_iff:
  "countl_zero w = k \<longleftrightarrow> k \<le> 64 \<and> (\<forall>i<k. \<not> bit w (63 - i)) \<and> (k < 64 \<longrightarrow> bit w (63 - k))"
  by (simp add: countl_zero_def takeWhile_rev_upt)

lemma countl_one_iff:
  "countl_one w = k \<longleftrightarrow> k \<le> 64 \<and> (\<forall>i<k. bit w (63 - i)) \<and> (k < 64 \<longrightarrow> \<not> bit w (63 - k))"
  by (simp add: countl_one_def takeWhile_rev_upt)

lemma word_zero_bits: "(w :: u64) = 0 \<longleftrightarrow> (\<forall>i<64. \<not> bit w i)"
  by (auto simp: bit_eq_iff dest: bit_imp_le_length)

lemma word_ones_bits: "(w :: u64) = NOT 0 \<longleftrightarrow> (\<forall>i<64. bit w i)"
  by (auto simp: bit_eq_iff bit_not_iff dest: bit_imp_le_length)

lemma countr_zero_nonzero: "w \<noteq> 0 \<Longrightarrow> countr_zero w < 64"
  using countr_zero_iff [of w "countr_zero w"] by (metis le_neq_implies_less word_zero_bits)

lemma countl_zero_nonzero: "w \<noteq> 0 \<Longrightarrow> countl_zero w < 64"
proof (rule ccontr)
  assume w: "w \<noteq> 0" and "\<not> countl_zero w < 64"
  with countl_zero_iff [of w "countl_zero w"] have z: "\<forall>i<64. \<not> bit w (63 - i)" by auto
  have "\<not> bit w i" if "i < 64" for i using z [rule_format, of "63 - i"] that by simp
  with w show False by (simp add: word_zero_bits)
qed

end
