(* ===== verification/Slot_Vector.thy ===== *)
theory Slot_Vector
  imports Word_Bits
begin

section \<open>The slot vector\<close>

text \<open>
  \<^verbatim>\<open>SlotVector\<close> of \<^verbatim>\<open>common/slot_vector.h\<close>: the table behind the handles of semaphores, images,
  buffers, trophies and GPU queues.  A handle is an index; a bit set says which slots hold an
  object, a free list which ones do not, and the storage doubles when the free list is empty.

  The locale \<open>slots\<close> is what the users of the table rely on; the model of the code is its
  interpretation.  A slot without an object is \<open>None\<close>.  Reading outside the storage, reading a slot
  without an object and destroying one is undefined (\<open>None\<close> as a result).
\<close>

subsection \<open>The code\<close>

record 'a SlotVector =
  slot_values :: "'a option list"
  values_capacity :: nat
  stored_bitset :: "u64 list"
  free_list :: "u32 list"

definition SetStorageBit :: "u32 \<Rightarrow> 'a SlotVector \<Rightarrow> 'a SlotVector option" where
  "SetStorageBit index s =
     do {
       ASSERT (unat (index div 64) < length (stored_bitset s));
       Some (s\<lparr>stored_bitset := (stored_bitset s)[unat (index div 64) :=
              stored_bitset s ! unat (index div 64) OR push_bit (unat (index mod 64)) 1]\<rparr>)
     }"

definition ResetStorageBit :: "u32 \<Rightarrow> 'a SlotVector \<Rightarrow> 'a SlotVector option" where
  "ResetStorageBit index s =
     do {
       ASSERT (unat (index div 64) < length (stored_bitset s));
       Some (s\<lparr>stored_bitset := (stored_bitset s)[unat (index div 64) :=
              stored_bitset s ! unat (index div 64) AND NOT (push_bit (unat (index mod 64)) 1)]\<rparr>)
     }"

definition ReadStorageBit :: "u32 \<Rightarrow> 'a SlotVector \<Rightarrow> bool option" where
  "ReadStorageBit index s =
     do {
       ASSERT (unat (index div 64) < length (stored_bitset s));
       Some (drop_bit (unat (index mod 64)) (stored_bitset s ! unat (index div 64)) AND 1 \<noteq> 0)
     }"

text \<open>Moving the objects to new storage: the inner and the outer loop of \<^verbatim>\<open>Reserve\<close>.\<close>

function move_bits :: "nat \<Rightarrow> u64 \<Rightarrow> 'a option list \<Rightarrow> 'a option list \<Rightarrow> 'a option list" where
  "move_bits i bits old new =
     (if bits = 0 then new
      else move_bits (i + 1) (drop_bit 1 bits) old
             (if bits AND 1 = 0 then new else new[i := old ! i]))"
  by pat_completeness auto
termination
  by (relation "measure (\<lambda>(i, bits, old, new). unat bits)")
     (auto simp: drop_bit_eq_div unat_div intro!: div_less_dividend unat_gt_0 [THEN iffD2])

declare move_bits.simps [simp del]

fun move_words :: "nat \<Rightarrow> u64 list \<Rightarrow> 'a option list \<Rightarrow> 'a option list \<Rightarrow> 'a option list" where
  "move_words index [] old new = new"
| "move_words index (bits # rest) old new = move_words (index + 64) rest old (move_bits index bits old new)"

text \<open>\<^verbatim>\<open>std::vector::resize\<close>.\<close>

definition resized :: "nat \<Rightarrow> 'b \<Rightarrow> 'b list \<Rightarrow> 'b list" where
  "resized n x xs = take n xs @ replicate (n - length xs) x"

definition SlotVector_Reserve :: "nat \<Rightarrow> 'a SlotVector \<Rightarrow> 'a SlotVector" where
  "SlotVector_Reserve new_capacity s =
     s\<lparr>slot_values := move_words 0 (stored_bitset s) (slot_values s) (replicate new_capacity None),
       values_capacity := new_capacity,
       stored_bitset := resized ((new_capacity + 63) div 64) 0 (stored_bitset s),
       free_list := free_list s @ rev (map of_nat [values_capacity s ..< new_capacity])\<rparr>"

definition SlotVector_new :: "'a SlotVector" where
  "SlotVector_new = SlotVector_Reserve 2048
     \<lparr>slot_values = [], values_capacity = 0, stored_bitset = [], free_list = []\<rparr>"

definition FreeValueIndex :: "'a SlotVector \<Rightarrow> u32 \<times> 'a SlotVector" where
  "FreeValueIndex s =
     (let s = (if free_list s = []
               then SlotVector_Reserve (if values_capacity s \<noteq> 0 then 2 * values_capacity s else 1) s else s)
      in (last (free_list s), s\<lparr>free_list := butlast (free_list s)\<rparr>))"

definition SlotVector_insert :: "'a \<Rightarrow> 'a SlotVector \<Rightarrow> (u32 \<times> 'a SlotVector) option" where
  "SlotVector_insert v s =
     (let (index, s) = FreeValueIndex s
      in do {
        ASSERT (unat index < length (slot_values s));
        s \<leftarrow> SetStorageBit index (s\<lparr>slot_values := (slot_values s)[unat index := Some v]\<rparr>);
        Some (index, s)
      })"

definition SlotVector_erase :: "u32 \<Rightarrow> 'a SlotVector \<Rightarrow> 'a SlotVector option" where
  "SlotVector_erase slot s =
     do {
       ASSERT (unat slot < length (slot_values s) \<and> slot_values s ! unat slot \<noteq> None);
       ResetStorageBit slot (s\<lparr>slot_values := (slot_values s)[unat slot := None],
                             free_list := free_list s @ [slot]\<rparr>)
     }"

definition SlotVector_at :: "u32 \<Rightarrow> 'a SlotVector \<Rightarrow> 'a option" where
  "SlotVector_at slot s =
     do {
       ASSERT (unat slot < length (slot_values s));
       slot_values s ! unat slot
     }"

definition is_allocated :: "u32 \<Rightarrow> 'a SlotVector \<Rightarrow> bool option" where
  "is_allocated slot s = ReadStorageBit slot s"

definition SlotVector_size :: "'a SlotVector \<Rightarrow> nat" where
  "SlotVector_size s = values_capacity s - length (free_list s)"

text \<open>
  \<^verbatim>\<open>SlotVector::Iterator\<close>.  An iterator is the index it stands on.  The comparison with the capacity
  is one of 32-bit indices.
\<close>

partial_function (option) AdvanceToValid :: "'a SlotVector \<Rightarrow> u32 \<Rightarrow> u32 option" where
  "AdvanceToValid s slot =
     (if slot < of_nat (values_capacity s) then
        do {
          b \<leftarrow> ReadStorageBit slot s;
          if b then Some slot else AdvanceToValid s (slot + 1)
        }
      else Some slot)"

definition SlotVector_begin :: "'a SlotVector \<Rightarrow> u32 option" where
  "SlotVector_begin s = AdvanceToValid s 0"

definition SlotVector_end :: "'a SlotVector \<Rightarrow> u32 option" where
  "SlotVector_end s = AdvanceToValid s (of_nat (values_capacity s))"

definition iterator_inc :: "'a SlotVector \<Rightarrow> u32 \<Rightarrow> u32 option" where
  "iterator_inc s slot = AdvanceToValid s (slot + 1)"

text \<open>A loop over the table: the objects between two iterators.\<close>

partial_function (option) range_for :: "'a SlotVector \<Rightarrow> u32 \<Rightarrow> u32 \<Rightarrow> (u32 \<times> 'a) list option" where
  "range_for s i e =
     (if i = e then Some []
      else do {
        v \<leftarrow> SlotVector_at i s;
        i' \<leftarrow> iterator_inc s i;
        rest \<leftarrow> range_for s i' e;
        Some ((i, v) # rest)
      })"

definition for_each :: "'a SlotVector \<Rightarrow> (u32 \<times> 'a) list option" where
  "for_each s =
     do {
       b \<leftarrow> SlotVector_begin s;
       e \<leftarrow> SlotVector_end s;
       range_for s b e
     }"

subsection \<open>The bit set\<close>

lemma and_one_word [simp]: "(x :: 'w::len word) AND 1 = 0 \<longleftrightarrow> \<not> bit x 0"
  by (simp add: and_one_eq bit_0 even_iff_mod_2_eq_zero)

lemma index_word [simp]:
  "unat (index div 64 :: u32) = unat index div 64" "unat (index mod 64 :: u32) = unat index mod 64"
  by (simp_all add: unat_div unat_mod)

lemma ReadStorageBit_stored:
  "unat index div 64 < length (stored_bitset s) \<Longrightarrow>
   ReadStorageBit index s = Some (stored (stored_bitset s) (unat index))"
  by (simp add: ReadStorageBit_def stored_def bit_drop_bit_eq)

lemma stored_resized: "length bs \<le> n \<Longrightarrow> stored (resized n 0 bs) i \<longleftrightarrow> stored bs i"
  by (auto simp: stored_def resized_def nth_append)

lemma move_bits_length [simp]: "length (move_bits i bits old new) = length new"
  by (induction i bits old new rule: move_bits.induct) (subst move_bits.simps, simp)

lemma move_bits_nth:
  "j < length new \<Longrightarrow>
   move_bits i bits old new ! j = (if i \<le> j \<and> bit bits (j - i) then old ! j else new ! j)"
proof (induction i bits old new rule: move_bits.induct)
  case (1 i bits old new)
  show ?case
  proof (cases "bits = 0")
    case True
    then show ?thesis by (simp add: move_bits.simps)
  next
    case False
    have "bit (drop_bit 1 bits) (j - (i + 1)) = bit bits (j - i)" if "i < j"
      using that by (simp add: bit_drop_bit_eq Suc_diff_Suc)
    then show ?thesis using 1 False
      by (subst move_bits.simps) (auto simp: nth_list_update not_less_eq_eq le_less_linear)
  qed
qed

lemma move_words_length [simp]: "length (move_words index bs old new) = length new"
  by (induction index bs old new rule: move_words.induct) simp_all

lemma move_words_nth:
  "j < length new \<Longrightarrow>
   move_words index bs old new ! j = (if index \<le> j \<and> stored bs (j - index) then old ! j else new ! j)"
proof (induction index bs old new rule: move_words.induct)
  case (2 index bits rest old new)
  have "stored (bits # rest) (j - index) =
      (if j < index + 64 then bit bits (j - index) else stored rest (j - (index + 64)))" if "index \<le> j"
  proof (cases "j < index + 64")
    case True
    then show ?thesis using that by (simp add: stored_def)
  next
    case False
    then obtain k where "j = index + 64 + k" by (auto simp: not_less dest: le_Suc_ex)
    moreover have "(64 + k) div 64 = Suc (k div 64)" by simp
    ultimately show ?thesis by (simp add: stored_def)
  qed
  moreover have "\<not> bit bits (j - index)" if "\<not> j < index + 64"
    using bit_imp_le_length [of bits "j - index"] that by auto
  moreover have "move_words index (bits # rest) old new ! j =
      (if index + 64 \<le> j \<and> stored rest (j - (index + 64)) then old ! j else move_bits index bits old new ! j)"
    using 2 by simp
  ultimately show ?case using 2(2) by (cases "index \<le> j"; cases "j < index + 64") (simp_all add: move_bits_nth)
qed (simp add: stored_def)
subsection \<open>The invariant\<close>

text \<open>
  The slots without an object are exactly those of the free list, each once, and an index fits a
  handle.
\<close>

definition slot_inv :: "'a SlotVector \<Rightarrow> bool" where
  "slot_inv s \<longleftrightarrow> length (slot_values s) = values_capacity s \<and>
     length (stored_bitset s) = (values_capacity s + 63) div 64 \<and> values_capacity s \<le> 2 ^ 32 \<and>
     distinct (free_list s) \<and>
     unat ` set (free_list s) = {i. i < values_capacity s \<and> \<not> stored (stored_bitset s) i} \<and>
     (\<forall>i. stored (stored_bitset s) i \<longleftrightarrow> i < values_capacity s \<and> slot_values s ! i \<noteq> None)"

text \<open>What the table means: the objects by their handles.\<close>

definition slots :: "'a SlotVector \<Rightarrow> u32 \<Rightarrow> 'a option" where
  "slots s i = (if unat i < values_capacity s then slot_values s ! unat i else None)"

lemma slot_word: "index < values_capacity s \<Longrightarrow> slot_inv s \<Longrightarrow> index div 64 < length (stored_bitset s)"
  by (simp add: slot_inv_def)

lemma free_slots: "slot_inv s \<Longrightarrow> i \<in> set (free_list s) \<longleftrightarrow> unat i < values_capacity s \<and> slots s i = None"
proof -
  assume inv: "slot_inv s"
  have "i \<in> set (free_list s) \<longleftrightarrow> unat i \<in> unat ` set (free_list s)"
    by (simp add: inj_image_mem_iff inj_on_def word_unat_eq_iff)
  then show ?thesis using inv by (auto simp: slot_inv_def slots_def)
qed

lemma Reserve_inv:
  assumes inv: "slot_inv s" and n: "values_capacity s \<le> n" "n \<le> 2 ^ 32"
  shows "slot_inv (SlotVector_Reserve n s)" "slots (SlotVector_Reserve n s) = slots s"
    "values_capacity s < n \<Longrightarrow> free_list (SlotVector_Reserve n s) \<noteq> []"
proof -
  let ?r = "SlotVector_Reserve n s" and ?c = "values_capacity s"
  have i: "length (slot_values s) = ?c" "length (stored_bitset s) = (?c + 63) div 64" "distinct (free_list s)"
    "unat ` set (free_list s) = {i. i < ?c \<and> \<not> stored (stored_bitset s) i}"
    "\<And>i. stored (stored_bitset s) i \<longleftrightarrow> i < ?c \<and> slot_values s ! i \<noteq> None"
    using inv by (auto simp: slot_inv_def)
  have l: "length (stored_bitset s) \<le> (n + 63) div 64" using i(2) n(1) by (simp add: div_le_mono)
  have st: "stored (stored_bitset ?r) i = stored (stored_bitset s) i" for i
    using l by (simp add: SlotVector_Reserve_def stored_resized)
  have bl: "length (stored_bitset ?r) = (n + 63) div 64"
    using l by (simp add: SlotVector_Reserve_def resized_def)
  have v: "slot_values ?r ! i = (if stored (stored_bitset s) i then slot_values s ! i else None)" if "i < n" for i
    using that by (simp add: SlotVector_Reserve_def move_words_nth)
  have u: "unat (of_nat i :: u32) = i" if "i < n" for i
    using that n(2) by (simp add: unat_of_nat)
  have "distinct (map (of_nat :: nat \<Rightarrow> u32) [?c..<n])"
    unfolding distinct_map by (auto intro: inj_onI simp: u dest!: arg_cong [of _ _ unat])
  moreover have "set (free_list s) \<inter> of_nat ` {?c..<n} = {}"
  proof -
    have "unat x < ?c" if "x \<in> set (free_list s)" for x using i(4) that by blast
    then show ?thesis using u by fastforce
  qed
  ultimately have d: "distinct (free_list ?r)" using i(3) by (auto simp: SlotVector_Reserve_def)
  have "unat ` set (free_list ?r) = unat ` set (free_list s) \<union> unat ` (of_nat :: nat \<Rightarrow> u32) ` {?c..<n}"
    by (simp add: SlotVector_Reserve_def image_Un)
  moreover have "unat ` (of_nat :: nat \<Rightarrow> u32) ` {?c..<n} = {?c..<n}" using u by (force simp: image_image)
  ultimately have f: "unat ` set (free_list ?r) = {i. i < n \<and> \<not> stored (stored_bitset ?r) i}"
    using i(4,5) n(1) st by auto
  have c: "values_capacity ?r = n" "length (slot_values ?r) = n" by (simp_all add: SlotVector_Reserve_def)
  have "\<forall>j. stored (stored_bitset s) j \<longleftrightarrow> j < n \<and> slot_values ?r ! j \<noteq> None"
  proof
    show "stored (stored_bitset s) j \<longleftrightarrow> j < n \<and> slot_values ?r ! j \<noteq> None" for j
      using i(5) [of j] v [of j] n(1) by (cases "j < n") auto
  qed
  then show "slot_inv ?r" unfolding slot_inv_def c bl f st using d n by simp
  show "slots ?r = slots s"
  proof
    show "slots ?r x = slots s x" for x
      using v [of "unat x"] i(5) [of "unat x"] n(1) by (auto simp: slots_def c)
  qed
  show "free_list ?r \<noteq> []" if "?c < n" using that by (simp add: SlotVector_Reserve_def)
qed

lemma SlotVector_new_inv: "slot_inv (SlotVector_new :: 'a SlotVector)" "slots (SlotVector_new :: 'a SlotVector) = (\<lambda>i. None)"
proof -
  let ?e = "\<lparr>slot_values = [], values_capacity = 0, stored_bitset = [], free_list = []\<rparr> :: 'a SlotVector"
  have e: "slot_inv ?e" "slots ?e = (\<lambda>i. None)" by (auto simp: slot_inv_def slots_def stored_def)
  show "slot_inv (SlotVector_new :: 'a SlotVector)" "slots (SlotVector_new :: 'a SlotVector) = (\<lambda>i. None)"
    using Reserve_inv [OF e(1), of 2048] e(2) by (simp_all add: SlotVector_new_def)
qed

text \<open>The table can take another object: a slot is free, or doubling keeps an index within a handle.\<close>

definition has_room :: "'a SlotVector \<Rightarrow> bool" where
  "has_room s \<longleftrightarrow> free_list s \<noteq> [] \<or> values_capacity s \<le> 2 ^ 31"

lemma insert_ok:
  assumes inv: "slot_inv s" and room: "has_room s"
  shows "\<exists>i s'. SlotVector_insert v s = Some (i, s') \<and> slot_inv s' \<and> slots s i = None \<and>
    slots s' = (slots s)(i \<mapsto> v) \<and> unat i < values_capacity s' \<and> values_capacity s \<le> values_capacity s'"
proof -
  let ?n = "if values_capacity s \<noteq> 0 then 2 * values_capacity s else 1"
  define t where "t = (if free_list s = [] then SlotVector_Reserve ?n s else s)"
  have "values_capacity s < ?n" "free_list s = [] \<Longrightarrow> ?n \<le> 2 ^ 32" using room by (auto simp: has_room_def)
  then have t: "slot_inv t" "slots t = slots s" "free_list t \<noteq> []"
    using Reserve_inv [OF inv, of ?n] inv by (auto simp: t_def)
  have cap: "values_capacity s \<le> values_capacity t" by (simp add: t_def SlotVector_Reserve_def)
  obtain fs i where f: "free_list t = fs @ [i]" using t(3) by (metis append_butlast_last_id)
  have i: "unat i < values_capacity t" "slots t i = None" using free_slots [OF t(1), of i] f by auto
  note w = slot_word [OF i(1) t(1)]
  define b where "b = (stored_bitset t)[unat i div 64 := stored_bitset t ! (unat i div 64) OR push_bit (unat i mod 64) 1]"
  let ?s = "t\<lparr>slot_values := (slot_values t)[unat i := Some v], free_list := fs, stored_bitset := b\<rparr>"
  have ins: "SlotVector_insert v s = Some (i, ?s)"
    using i(1) w t(1) f
    by (simp add: SlotVector_insert_def FreeValueIndex_def t_def [symmetric] Let_def SetStorageBit_def slot_inv_def b_def)
  have nf: "unat i \<notin> unat ` set fs"
    using t(1) f by (simp add: slot_inv_def inj_image_mem_iff inj_on_def word_unat_eq_iff)
  have st: "stored b j \<longleftrightarrow> j = unat i \<or> stored (stored_bitset t) j" for j unfolding b_def using stored_set [OF w] .
  have "unat ` set fs = {j. j < values_capacity t \<and> \<not> stored b j}"
  proof -
    have "insert (unat i) (unat ` set fs) = {j. j < values_capacity t \<and> \<not> stored (stored_bitset t) j}"
      using t(1) unfolding slot_inv_def f by simp
    then have "unat ` set fs = {j. j < values_capacity t \<and> \<not> stored (stored_bitset t) j} - {unat i}"
      using nf by (metis Diff_insert_absorb)
    then show ?thesis unfolding st by blast
  qed
  moreover have "length b = length (stored_bitset t)" by (simp add: b_def)
  ultimately have "slot_inv ?s" using t(1) f i(1) unfolding slot_inv_def by (auto simp: st nth_list_update)
  moreover have "slots ?s = (slots s)(i \<mapsto> v)"
    using i t unfolding t(2) [symmetric]
    by (auto simp: slots_def nth_list_update word_unat_eq_iff slot_inv_def intro!: ext)
  ultimately show ?thesis using ins i t(2) cap by auto
qed

lemma erase_ok:
  assumes inv: "slot_inv s" and i: "slots s i = Some v"
  shows "\<exists>s'. SlotVector_erase i s = Some s' \<and> slot_inv s' \<and> slots s' = (slots s)(i := None)"
proof -
  have c: "unat i < values_capacity s" "slot_values s ! unat i = Some v"
    using i by (auto simp: slots_def split: if_splits)
  note w = slot_word [OF c(1) inv]
  define b where "b = (stored_bitset s)[unat i div 64 := stored_bitset s ! (unat i div 64) AND NOT (push_bit (unat i mod 64) 1)]"
  let ?s = "s\<lparr>slot_values := (slot_values s)[unat i := None], free_list := free_list s @ [i], stored_bitset := b\<rparr>"
  have e: "SlotVector_erase i s = Some ?s"
    using c w inv by (simp add: SlotVector_erase_def ResetStorageBit_def slot_inv_def b_def)
  have st: "stored b j \<longleftrightarrow> j \<noteq> unat i \<and> stored (stored_bitset s) j" for j unfolding b_def using stored_reset [OF w] .
  have "i \<notin> set (free_list s)" using free_slots [OF inv, of i] i by simp
  moreover have "unat ` set (free_list ?s) = {j. j < values_capacity s \<and> \<not> stored b j}"
    using inv c(1) unfolding st slot_inv_def by auto
  moreover have "length b = length (stored_bitset s)" by (simp add: b_def)
  ultimately have "slot_inv ?s" using inv c(1) unfolding slot_inv_def by (auto simp: st nth_list_update)
  moreover have "slots ?s = (slots s)(i := None)"
    using c inv by (auto simp: slots_def nth_list_update word_unat_eq_iff slot_inv_def intro!: ext)
  ultimately show ?thesis using e by blast
qed

lemma at_ok: "slot_inv s \<Longrightarrow> SlotVector_at i s = slots s i"
  by (simp add: SlotVector_at_def slots_def slot_inv_def)

lemma is_allocated_inside:
  "slot_inv s \<Longrightarrow> unat i < values_capacity s \<Longrightarrow> is_allocated i s = Some (slots s i \<noteq> None)"
  using slot_word [of "unat i" s] by (simp add: is_allocated_def ReadStorageBit_stored slot_inv_def slots_def)

lemma is_allocated_outside:
  assumes "slot_inv s"
  shows "is_allocated i s = None \<longleftrightarrow> 64 * ((values_capacity s + 63) div 64) \<le> unat i"
  using assms by (simp add: is_allocated_def ReadStorageBit_def slot_inv_def) linarith
subsection \<open>The interface\<close>

text \<open>What the users of the table rely on, with the contents \<open>look\<close> of a table.\<close>

locale slot_table =
  fixes inv :: "'t \<Rightarrow> bool" and room :: "'t \<Rightarrow> bool" and look :: "'t \<Rightarrow> 'h \<Rightarrow> 'a option"
    and ins :: "'a \<Rightarrow> 't \<Rightarrow> ('h \<times> 't) option" and era :: "'h \<Rightarrow> 't \<Rightarrow> 't option"
  assumes ins_law: "inv s \<Longrightarrow> room s \<Longrightarrow>
      \<exists>i s'. ins v s = Some (i, s') \<and> inv s' \<and> look s i = None \<and> look s' = (look s)(i \<mapsto> v)"
    and era_law: "inv s \<Longrightarrow> look s i = Some v \<Longrightarrow>
      \<exists>s'. era i s = Some s' \<and> inv s' \<and> look s' = (look s)(i := None)"
begin

lemma ins_cases:
  assumes "inv s" "room s"
  obtains i s' where "ins v s = Some (i, s')" "inv s'" "look s i = None" "look s' = (look s)(i \<mapsto> v)"
  using ins_law [OF assms] by blast

lemma ins_era:
  assumes "inv s" "ins v s = Some (i, s')" "room s"
  shows "\<exists>s''. era i s' = Some s'' \<and> inv s'' \<and> look s'' = look s"
proof -
  have s': "inv s'" "look s i = None" "look s' = (look s)(i \<mapsto> v)"
    using ins_law [OF assms(1,3), of v] assms(2) by auto
  then obtain s'' where "era i s' = Some s''" "inv s''" "look s'' = (look s')(i := None)"
    using era_law [OF s'(1), of i v] by auto
  then show ?thesis using s'(2,3) by (auto simp: fun_upd_idem)
qed

lemma two_handles:
  assumes "inv s" "room s" "ins v s = Some (i, s')" "room s'" "ins w s' = Some (j, s'')"
  shows "i \<noteq> j \<and> look s'' i = Some v \<and> look s'' j = Some w"
  using ins_law [OF assms(1,2), of v] assms(3) ins_law [of s' w] assms(4,5) by auto

end

interpretation sv: slot_table slot_inv has_room slots SlotVector_insert SlotVector_erase
proof
  fix s :: "'a SlotVector" and v i
  assume inv: "slot_inv s"
  show "\<exists>i s'. SlotVector_insert v s = Some (i, s') \<and> slot_inv s' \<and> slots s i = None \<and> slots s' = (slots s)(i \<mapsto> v)"
    if "has_room s" using insert_ok [OF inv that] by blast
  show "\<exists>s'. SlotVector_erase i s = Some s' \<and> slot_inv s' \<and> slots s' = (slots s)(i := None)"
    if "slots s i = Some v" using erase_ok [OF inv that] .
qed

subsection \<open>Theorems\<close>

text \<open>
  C27: a table takes an object under a handle no live object has, finds it there, leaves every
  other object alone, and erasing the handle restores the table's contents.
\<close>

theorem SlotVector_round_trip:
  assumes "slot_inv s" "has_room s"
  shows "\<exists>i s' s''. SlotVector_insert v s = Some (i, s') \<and> slot_inv s' \<and> slots s i = None \<and>
    slots s' = (slots s)(i \<mapsto> v) \<and> SlotVector_at i s' = Some v \<and> is_allocated i s' = Some True \<and>
    SlotVector_erase i s' = Some s'' \<and> slot_inv s'' \<and> slots s'' = slots s"
proof -
  obtain i s' where i: "SlotVector_insert v s = Some (i, s')" "slot_inv s'" "slots s i = None"
    "slots s' = (slots s)(i \<mapsto> v)" "unat i < values_capacity s'"
    using insert_ok [OF assms, of v] by blast
  obtain s'' where "SlotVector_erase i s' = Some s''" "slot_inv s''" "slots s'' = slots s"
    using sv.ins_era [OF assms(1) i(1) assms(2)] by blast
  then show ?thesis using i by (auto simp: at_ok is_allocated_inside)
qed

theorem SlotVector_round_trip_witness:
  "\<exists>i s' s''. SlotVector_insert (7 :: nat) SlotVector_new = Some (i, s') \<and> slot_inv s' \<and>
    slots (SlotVector_new :: nat SlotVector) i = None \<and> slots s' = (slots SlotVector_new)(i \<mapsto> 7) \<and>
    SlotVector_at i s' = Some 7 \<and> is_allocated i s' = Some True \<and>
    SlotVector_erase i s' = Some s'' \<and> slot_inv s'' \<and> slots s'' = slots SlotVector_new"
  by (rule SlotVector_round_trip [OF SlotVector_new_inv(1)]) (simp add: has_room_def SlotVector_new_def SlotVector_Reserve_def)

text \<open>
  Asking whether a handle is allocated is defined exactly for handles below the capacity
  rounded up to 64, and right for those; a larger handle, which a caller can pass, reads beyond the
  bit set.
\<close>

theorem is_allocated_bound:
  assumes "slot_inv s"
  shows "is_allocated i s =
    (if unat i < 64 * ((values_capacity s + 63) div 64) then Some (slots s i \<noteq> None) else None)"
proof (cases "unat i < 64 * ((values_capacity s + 63) div 64)")
  case True
  then have "unat i div 64 < length (stored_bitset s)" using assms by (simp add: slot_inv_def less_mult_imp_div_less mult.commute)
  then show ?thesis using True assms by (auto simp: is_allocated_def ReadStorageBit_stored slot_inv_def slots_def)
next
  case False
  then show ?thesis using is_allocated_outside [OF assms, of i] by simp
qed

theorem is_allocated_bound_witness:
  "is_allocated 5000 (SlotVector_new :: nat SlotVector) = None"
  using is_allocated_bound [OF SlotVector_new_inv(1), of 5000]
  by (simp add: SlotVector_new_def SlotVector_Reserve_def)

subsection \<open>Walking over the table\<close>

lemma AdvanceToValid_spec:
  assumes inv: "slot_inv s" and cap: "values_capacity s < 2 ^ 32"
  shows "unat i \<le> values_capacity s \<Longrightarrow>
    \<exists>j. AdvanceToValid s i = Some j \<and> i \<le> j \<and> unat j \<le> values_capacity s \<and>
      (\<forall>k. i \<le> k \<longrightarrow> k < j \<longrightarrow> slots s k = None) \<and> (unat j < values_capacity s \<longrightarrow> slots s j \<noteq> None)"
proof (induction "values_capacity s - unat i" arbitrary: i rule: less_induct)
  case less
  have c: "unat (of_nat (values_capacity s) :: u32) = values_capacity s" using cap by (simp add: unat_of_nat)
  then have lt: "i < of_nat (values_capacity s) \<longleftrightarrow> unat i < values_capacity s" by (simp add: word_less_nat_alt)
  consider "unat i = values_capacity s" | "unat i < values_capacity s" "slots s i \<noteq> None"
    | "unat i < values_capacity s" "slots s i = None" using less.prems by linarith
  then show ?case
  proof cases
    case 1
    then show ?thesis using lt by (subst AdvanceToValid.simps) auto
  next
    case 2
    then show ?thesis using lt is_allocated_inside [OF inv 2(1)]
      by (subst AdvanceToValid.simps) (auto simp: is_allocated_def)
  next
    case 3
    then have i1: "unat (i + 1) = unat i + 1" using cap unat_add_nowrap [of i 1] by simp
    have "AdvanceToValid s i = AdvanceToValid s (i + 1)"
      using 3 lt is_allocated_inside [OF inv 3(1)] by (subst AdvanceToValid.simps) (simp add: is_allocated_def)
    moreover obtain j where j: "AdvanceToValid s (i + 1) = Some j" "i + 1 \<le> j" "unat j \<le> values_capacity s"
      "\<forall>k. i + 1 \<le> k \<longrightarrow> k < j \<longrightarrow> slots s k = None" "unat j < values_capacity s \<longrightarrow> slots s j \<noteq> None"
    proof -
      have "values_capacity s - unat (i + 1) < values_capacity s - unat i" using 3(1) i1 by linarith
      from less.hyps [OF this] show thesis using that 3(1) i1 by auto
    qed
    moreover have "k = i \<or> i + 1 \<le> k" if "i \<le> k" for k
      using that i1 by (auto simp: word_le_nat_alt word_unat_eq_iff)
    moreover have "i \<le> j" using j(2) i1 by (simp add: word_le_nat_alt)
    ultimately show ?thesis using 3(2) by (intro exI [of _ j]) auto
  qed
qed

lemma range_for_spec:
  assumes inv: "slot_inv s" and cap: "values_capacity s < 2 ^ 32"
  shows "unat i \<le> values_capacity s \<Longrightarrow> unat i < values_capacity s \<longrightarrow> slots s i \<noteq> None \<Longrightarrow>
    \<exists>L. range_for s i (of_nat (values_capacity s)) = Some L \<and> sorted_wrt (<) (map fst L) \<and>
      (\<forall>k v. (k, v) \<in> set L \<longleftrightarrow> i \<le> k \<and> slots s k = Some v)"
proof (induction "values_capacity s - unat i" arbitrary: i rule: less_induct)
  case less
  have c: "unat (of_nat (values_capacity s) :: u32) = values_capacity s" using cap by (simp add: unat_of_nat)
  then have eq: "i = of_nat (values_capacity s) \<longleftrightarrow> unat i = values_capacity s" by (simp add: word_unat_eq_iff)
  have out: "slots s k = None" if "unat k \<ge> values_capacity s" for k using that by (simp add: slots_def)
  show ?case
  proof (cases "unat i = values_capacity s")
    case True
    then show ?thesis using eq out by (subst range_for.simps) (auto simp: word_le_nat_alt)
  next
    case False
    then have lt: "unat i < values_capacity s" using less.prems by simp
    then obtain v where v: "slots s i = Some v" using less.prems(2) by auto
    have i1: "unat (i + 1) = unat i + 1" using lt cap unat_add_nowrap [of i 1] by simp
    obtain j where j: "AdvanceToValid s (i + 1) = Some j" "i + 1 \<le> j" "unat j \<le> values_capacity s"
      "\<forall>k. i + 1 \<le> k \<longrightarrow> k < j \<longrightarrow> slots s k = None" "unat j < values_capacity s \<longrightarrow> slots s j \<noteq> None"
      using AdvanceToValid_spec [OF inv cap, of "i + 1"] lt i1 by auto
    have ij: "unat i < unat j" using j(2) i1 by (simp add: word_le_nat_alt)
    then obtain L where L: "range_for s j (of_nat (values_capacity s)) = Some L" "sorted_wrt (<) (map fst L)"
      "\<forall>k v. (k, v) \<in> set L \<longleftrightarrow> j \<le> k \<and> slots s k = Some v"
    proof -
      have "values_capacity s - unat j < values_capacity s - unat i" using lt ij by linarith
      from less.hyps [OF this j(3,5)] show thesis using that by blast
    qed
    have "range_for s i (of_nat (values_capacity s)) = Some ((i, v) # L)"
      using False eq v j(1) L(1) by (subst range_for.simps) (simp add: at_ok [OF inv] iterator_inc_def)
    moreover have "i < fst e" if "e \<in> set L" for e
      using L(3) that ij by (cases e) (auto simp: word_le_nat_alt word_less_nat_alt)
    moreover have "i \<le> k \<longleftrightarrow> k = i \<or> i + 1 \<le> k" for k
      using i1 by (auto simp: word_le_nat_alt word_unat_eq_iff)
    then have "(k, w) \<in> set ((i, v) # L) \<longleftrightarrow> i \<le> k \<and> slots s k = Some w" for k w
      using L(3) v j(2,4) by (auto dest: order_trans simp: not_le)
    ultimately show ?thesis using L(2) by (intro exI [of _ "(i, v) # L"]) auto
  qed
qed

text \<open>
  A loop over a table ends and meets every live object exactly once, in the order of the
  handles.
\<close>

theorem for_each_exact:
  assumes inv: "slot_inv s" and cap: "values_capacity s < 2 ^ 32"
  shows "\<exists>L. for_each s = Some L \<and> sorted_wrt (<) (map fst L) \<and> (\<forall>i v. (i, v) \<in> set L \<longleftrightarrow> slots s i = Some v)"
proof -
  have c: "unat (of_nat (values_capacity s) :: u32) = values_capacity s" using cap by (simp add: unat_of_nat)
  then have e: "SlotVector_end s = Some (of_nat (values_capacity s))"
    unfolding SlotVector_end_def by (subst AdvanceToValid.simps) simp
  obtain b where b: "SlotVector_begin s = Some b" "unat b \<le> values_capacity s" "\<forall>k. k < b \<longrightarrow> slots s k = None"
    "unat b < values_capacity s \<longrightarrow> slots s b \<noteq> None"
    using AdvanceToValid_spec [OF inv cap, of 0] by (auto simp: SlotVector_begin_def)
  obtain L where L: "range_for s b (of_nat (values_capacity s)) = Some L" "sorted_wrt (<) (map fst L)"
    "\<forall>k v. (k, v) \<in> set L \<longleftrightarrow> b \<le> k \<and> slots s k = Some v"
    using range_for_spec [OF inv cap b(2,4)] by blast
  have "b \<le> k" if "slots s k = Some v" for k v using b(3) that not_le [of b k] by auto
  then show ?thesis using L b(1) e by (auto simp: for_each_def)
qed

theorem for_each_exact_witness:
  "\<exists>L. for_each (SlotVector_new :: nat SlotVector) = Some L \<and> sorted_wrt (<) (map fst L) \<and>
     (\<forall>i v. (i, v) \<in> set L \<longleftrightarrow> slots (SlotVector_new :: nat SlotVector) i = Some v)"
  by (rule for_each_exact [OF SlotVector_new_inv(1)]) (simp add: SlotVector_new_def SlotVector_Reserve_def)

end
