(* ===== verification/Pthread_Mutex.thy ===== *)
theory Pthread_Mutex
  imports Posix_Error
begin

section \<open>Mutexes\<close>

text \<open>
  \<^verbatim>\<open>PthreadMutex\<close> of \<^verbatim>\<open>core/libraries/kernel/threads/mutex.cpp\<close> and \<^verbatim>\<open>pthread.h\<close>, the calls on it and
  on its attributes.  A method that does not block is a function of the mutex and the calling
  thread; \<^verbatim>\<open>Lock\<close>, \<^verbatim>\<open>TryLock\<close>, \<^verbatim>\<open>Unlock\<close> and the two methods of a condition variable are also
  split where other threads can run, in the step relation \<open>mutex_step\<close>.  The host's timed mutex is
  \<open>m_lock\<close>, the thread that holds it.  Signed overflow is undefined (\<open>None\<close>).
\<close>

subsection \<open>The code\<close>

definition Mutex_ErrorCheck :: u32 where "Mutex_ErrorCheck = 1"
definition Mutex_Recursive :: u32 where "Mutex_Recursive = 2"
definition Mutex_Normal :: u32 where "Mutex_Normal = 3"
definition Mutex_AdaptiveNp :: u32 where "Mutex_AdaptiveNp = 4"
definition Mutex_Max :: u32 where "Mutex_Max = 5"

definition Prot_None :: u32 where "Prot_None = 0"
definition Prot_Inherit :: u32 where "Prot_Inherit = 1"
definition Prot_Protect :: u32 where "Prot_Protect = 2"

definition Flag_TypeMask :: u32 where "Flag_TypeMask = 0xff"
definition Flag_Deferred :: u32 where "Flag_Deferred = 0x200"

definition MUTEX_ADAPTIVE_SPINS :: s32 where "MUTEX_ADAPTIVE_SPINS = 2000"
definition ORBIS_KERNEL_PRIO_FIFO_LOWEST :: s32 where "ORBIS_KERNEL_PRIO_FIFO_LOWEST = 256"
definition ORBIS_KERNEL_PRIO_FIFO_HIGHEST :: s32 where "ORBIS_KERNEL_PRIO_FIFO_HIGHEST = 767"
definition ORBIS_KERNEL_PRIO_RR_HIGHEST :: s32 where "ORBIS_KERNEL_PRIO_RR_HIGHEST = 767"

lemmas mutex_const_defs = Mutex_ErrorCheck_def Mutex_Recursive_def Mutex_Normal_def Mutex_AdaptiveNp_def
  Mutex_Max_def Prot_None_def Prot_Inherit_def Prot_Protect_def Flag_TypeMask_def Flag_Deferred_def
  MUTEX_ADAPTIVE_SPINS_def

record PthreadMutex =
  m_owner :: "nat option"
  m_count :: s32
  m_spinloops :: s32
  m_yieldloops :: s32
  m_protocol :: u32
  m_flags :: u32
  m_lock :: "nat option"
  mutex_name :: string

record PthreadMutexAttr =
  ma_type :: u32
  ma_protocol :: u32
  ma_ceiling :: s32

definition mutex_type :: "PthreadMutex \<Rightarrow> u32" where
  "mutex_type m = m_flags m AND Flag_TypeMask"

definition PthreadMutexattrDefault :: PthreadMutexAttr where
  "PthreadMutexattrDefault = \<lparr>ma_type = Mutex_ErrorCheck, ma_protocol = Prot_None, ma_ceiling = 0\<rparr>"

definition PthreadMutexattrAdaptiveDefault :: PthreadMutexAttr where
  "PthreadMutexattrAdaptiveDefault = \<lparr>ma_type = Mutex_AdaptiveNp, ma_protocol = Prot_None, ma_ceiling = 0\<rparr>"

text \<open>The new mutex, or the error.  Memory for it is there.\<close>

definition MutexInit :: "PthreadMutexAttr option \<Rightarrow> string \<Rightarrow> s32 + PthreadMutex" where
  "MutexInit mutex_attr name =
     (let attr = (case mutex_attr of None \<Rightarrow> PthreadMutexattrDefault | Some a \<Rightarrow> a)
      in if mutex_attr \<noteq> None \<and> (ma_type attr < Mutex_ErrorCheck \<or> ma_type attr \<ge> Mutex_Max) then Inl POSIX_EINVAL
         else if mutex_attr \<noteq> None \<and> ma_protocol attr > Prot_Protect then Inl POSIX_EINVAL
         else Inr \<lparr>m_owner = None, m_count = 0,
                   m_spinloops = (if ma_type attr = Mutex_AdaptiveNp then MUTEX_ADAPTIVE_SPINS else 0),
                   m_yieldloops = 0, m_protocol = ma_protocol attr, m_flags = ma_type attr, m_lock = None,
                   mutex_name = name\<rparr>)"

datatype lock_time = No_time | Relative u64 | Absolute OrbisKernelTimespec

definition SelfTryLock :: "PthreadMutex \<Rightarrow> (s32 \<times> PthreadMutex) option" where
  "SelfTryLock m =
     (if mutex_type m \<in> {Mutex_ErrorCheck, Mutex_Normal, Mutex_AdaptiveNp} then Some (POSIX_EBUSY, m)
      else if mutex_type m = Mutex_Recursive then
        do {
          ASSERT (sint (m_count m) < 2 ^ 31 - 1);
          Some (if sint (m_count m) + 1 > 0 then (0, m\<lparr>m_count := m_count m + 1\<rparr>) else (POSIX_EAGAIN, m))
        }
      else Some (POSIX_EINVAL, m))"

text \<open>What a thread gets that sleeps until its deadline.\<close>

fun DoSleep :: "lock_time \<Rightarrow> s32" where
  "DoSleep (Absolute ts) = (if sint (tv_sec ts) < 0 \<or> bad_nsec ts then POSIX_EINVAL else POSIX_ETIMEDOUT)"
| "DoSleep _ = POSIX_ETIMEDOUT"

definition SelfLock :: "lock_time \<Rightarrow> PthreadMutex \<Rightarrow> (s32 \<times> PthreadMutex) option" where
  "SelfLock abstime m =
     (if mutex_type m \<in> {Mutex_ErrorCheck, Mutex_AdaptiveNp} then
        Some (if abstime \<noteq> No_time then DoSleep abstime else POSIX_EDEADLK, m)
      else if mutex_type m = Mutex_Normal then
        Some (if abstime \<noteq> No_time then DoSleep abstime else 0, m)
      else if mutex_type m = Mutex_Recursive then
        do {
          ASSERT (sint (m_count m) < 2 ^ 31 - 1);
          Some (if sint (m_count m) + 1 > 0 then (0, m\<lparr>m_count := m_count m + 1\<rparr>) else (POSIX_EAGAIN, m))
        }
      else Some (POSIX_EINVAL, m))"

text \<open>\<^verbatim>\<open>TryLock\<close> with no other thread in between.\<close>

definition TryLock :: "nat \<Rightarrow> PthreadMutex \<Rightarrow> (s32 \<times> PthreadMutex) option" where
  "TryLock curthread m =
     (if m_owner m = Some curthread then SelfTryLock m
      else if m_lock m = None then Some (0, m\<lparr>m_lock := Some curthread, m_owner := Some curthread\<rparr>)
      else Some (POSIX_EBUSY, m))"

text \<open>
  \<^verbatim>\<open>Unlock\<close> up to \<^verbatim>\<open>m_lock.unlock()\<close>: the result and whether the lock is still to be given up, and
  whether the deferred waiters of the thread are to be woken then.
\<close>

definition Unlock_begin :: "nat \<Rightarrow> PthreadMutex \<Rightarrow> s32 \<times> bool \<times> bool \<times> PthreadMutex" where
  "Unlock_begin curthread m =
     (if m_owner m \<noteq> Some curthread then (POSIX_EPERM, False, False, m)
      else if mutex_type m = Mutex_Recursive \<and> sint (m_count m) > 0
      then (0, False, False, m\<lparr>m_count := m_count m - 1\<rparr>)
      else (0, True, m_flags m AND Flag_Deferred \<noteq> 0,
            m\<lparr>m_flags := m_flags m AND NOT Flag_Deferred, m_owner := None\<rparr>))"

text \<open>Giving up a lock the thread does not hold is undefined.\<close>

definition lock_unlock :: "nat \<Rightarrow> PthreadMutex \<Rightarrow> PthreadMutex option" where
  "lock_unlock curthread m = do { ASSERT (m_lock m = Some curthread); Some (m\<lparr>m_lock := None\<rparr>) }"

text \<open>The result, and whether \<^verbatim>\<open>WakeAll\<close> is called.\<close>

definition Mutex_Unlock :: "nat \<Rightarrow> bool \<Rightarrow> PthreadMutex \<Rightarrow> (s32 \<times> bool \<times> PthreadMutex) option" where
  "Mutex_Unlock curthread will_sleep m =
     (let (ret, release, deferred, m) = Unlock_begin curthread m
      in if release then do { m \<leftarrow> lock_unlock curthread m; Some (ret, \<not> will_sleep \<and> deferred, m) }
         else Some (ret, False, m))"

definition CvUnlock :: "nat \<Rightarrow> bool \<Rightarrow> PthreadMutex \<Rightarrow> (s32 \<times> s32 \<times> bool \<times> PthreadMutex) option" where
  "CvUnlock curthread will_sleep m =
     do {
       (ret, wake, m') \<leftarrow> Mutex_Unlock curthread will_sleep (m\<lparr>m_count := 0\<rparr>);
       Some (m_count m, ret, wake, m')
     }"

definition IsOwned :: "nat \<Rightarrow> PthreadMutex \<Rightarrow> s32" where
  "IsOwned curthread m = (if m_owner m \<noteq> Some curthread then POSIX_EPERM else 0)"

subsection \<open>Calls on a mutex variable\<close>

text \<open>
  A variable of the game holds one of three marks or the address of a mutex.  \<open>fresh\<close> is the address
  and \<open>name\<close> the name of a mutex that is made on the way.
\<close>

datatype PthreadMutexT = THR_MUTEX_INITIALIZER | THR_ADAPTIVE_MUTEX_INITIALIZER | THR_MUTEX_DESTROYED
  | MutexAt nat

type_synonym mutex_heap = "nat \<Rightarrow> PthreadMutex option"

definition mutex_create :: "nat \<Rightarrow> PthreadMutexAttr option \<Rightarrow> string \<Rightarrow> PthreadMutexT \<Rightarrow> mutex_heap
    \<Rightarrow> s32 \<times> PthreadMutexT \<times> mutex_heap" where
  "mutex_create fresh attr name mutex heap =
     (case MutexInit attr name of
        Inl ret \<Rightarrow> (ret, mutex, heap)
      | Inr m \<Rightarrow> (0, MutexAt fresh, heap(fresh \<mapsto> m)))"

definition Mutex_InitStatic :: "nat \<Rightarrow> string \<Rightarrow> PthreadMutexT \<Rightarrow> mutex_heap \<Rightarrow> s32 \<times> PthreadMutexT \<times> mutex_heap" where
  "Mutex_InitStatic fresh name mutex heap =
     (case mutex of
        THR_MUTEX_INITIALIZER \<Rightarrow> mutex_create fresh (Some PthreadMutexattrDefault) name mutex heap
      | THR_MUTEX_DESTROYED \<Rightarrow> mutex_create fresh (Some PthreadMutexattrDefault) name mutex heap
      | THR_ADAPTIVE_MUTEX_INITIALIZER \<Rightarrow> mutex_create fresh (Some PthreadMutexattrAdaptiveDefault) name mutex heap
      | MutexAt a \<Rightarrow> (0, mutex, heap))"

text \<open>\<^verbatim>\<open>CHECK_AND_INIT_MUTEX\<close> and a call on the mutex behind the variable.\<close>

definition check_and_init_mutex :: "nat \<Rightarrow> string \<Rightarrow> (PthreadMutex \<Rightarrow> (s32 \<times> PthreadMutex) option)
    \<Rightarrow> PthreadMutexT \<Rightarrow> mutex_heap \<Rightarrow> (s32 \<times> PthreadMutexT \<times> mutex_heap) option" where
  "check_and_init_mutex fresh name call mutex heap =
     (let (ret, mutex, heap) = Mutex_InitStatic fresh name mutex heap
      in if ret \<noteq> 0 then Some (ret, mutex, heap)
         else case mutex of
             MutexAt a \<Rightarrow> do { m \<leftarrow> heap a; (ret, m) \<leftarrow> call m; Some (ret, mutex, heap(a \<mapsto> m)) }
           | _ \<Rightarrow> None)"

definition posix_pthread_mutex_init :: "nat \<Rightarrow> PthreadMutexAttr option \<Rightarrow> string \<Rightarrow> PthreadMutexT \<Rightarrow> mutex_heap
    \<Rightarrow> s32 \<times> PthreadMutexT \<times> mutex_heap" where
  "posix_pthread_mutex_init fresh attr name mutex heap = mutex_create fresh attr name mutex heap"

definition posix_pthread_mutex_destroy :: "PthreadMutexT \<Rightarrow> mutex_heap \<Rightarrow> (s32 \<times> PthreadMutexT \<times> mutex_heap) option" where
  "posix_pthread_mutex_destroy mutex heap =
     (case mutex of
        THR_MUTEX_DESTROYED \<Rightarrow> Some (POSIX_EINVAL, mutex, heap)
      | MutexAt a \<Rightarrow>
          do {
            m \<leftarrow> heap a;
            Some (if m_owner m \<noteq> None then (POSIX_EBUSY, mutex, heap)
                  else (0, THR_MUTEX_DESTROYED, heap(a := None)))
          }
      | _ \<Rightarrow> Some (0, mutex, heap))"

definition posix_pthread_mutex_trylock :: "nat \<Rightarrow> nat \<Rightarrow> string \<Rightarrow> PthreadMutexT \<Rightarrow> mutex_heap
    \<Rightarrow> (s32 \<times> PthreadMutexT \<times> mutex_heap) option" where
  "posix_pthread_mutex_trylock curthread fresh name = check_and_init_mutex fresh name (TryLock curthread)"

definition posix_pthread_mutex_unlock :: "nat \<Rightarrow> bool \<Rightarrow> PthreadMutexT \<Rightarrow> mutex_heap \<Rightarrow> (s32 \<times> bool \<times> mutex_heap) option" where
  "posix_pthread_mutex_unlock curthread will_sleep mutex heap =
     (case mutex of
        MutexAt a \<Rightarrow>
          do {
            m \<leftarrow> heap a;
            (ret, wake, m) \<leftarrow> Mutex_Unlock curthread will_sleep m;
            Some (ret, wake, heap(a \<mapsto> m))
          }
      | THR_MUTEX_DESTROYED \<Rightarrow> Some (POSIX_EINVAL, False, heap)
      | _ \<Rightarrow> Some (POSIX_EPERM, False, heap))"

definition posix_pthread_mutex_setspinloops_np :: "nat \<Rightarrow> string \<Rightarrow> s32 \<Rightarrow> PthreadMutexT \<Rightarrow> mutex_heap
    \<Rightarrow> (s32 \<times> PthreadMutexT \<times> mutex_heap) option" where
  "posix_pthread_mutex_setspinloops_np fresh name count =
     check_and_init_mutex fresh name (\<lambda>m. Some (0, m\<lparr>m_spinloops := count\<rparr>))"

definition posix_pthread_mutex_setyieldloops_np :: "nat \<Rightarrow> string \<Rightarrow> s32 \<Rightarrow> PthreadMutexT \<Rightarrow> mutex_heap
    \<Rightarrow> (s32 \<times> PthreadMutexT \<times> mutex_heap) option" where
  "posix_pthread_mutex_setyieldloops_np fresh name count =
     check_and_init_mutex fresh name (\<lambda>m. Some (0, m\<lparr>m_yieldloops := count\<rparr>))"

definition posix_pthread_mutex_isowned_np :: "nat \<Rightarrow> PthreadMutexT \<Rightarrow> mutex_heap \<Rightarrow> s32 option" where
  "posix_pthread_mutex_isowned_np curthread mutex heap =
     (case mutex of
        MutexAt a \<Rightarrow> do { m \<leftarrow> heap a; Some (if m_owner m = Some curthread then 1 else 0) }
      | _ \<Rightarrow> Some 0)"

subsection \<open>Attributes\<close>

text \<open>
  An attribute variable, \<open>None\<close> for a null pointer, holds the address of an attribute or null.  The
  two calls of the first group set the error number.
\<close>

type_synonym mutex_attr = "PthreadMutexAttr option option"

definition posix_pthread_mutexattr_setkind_np :: "u32 \<Rightarrow> mutex_attr \<Rightarrow> s32 \<times> s32 option \<times> mutex_attr" where
  "posix_pthread_mutexattr_setkind_np kind attr =
     (case attr of Some (Some a) \<Rightarrow> (0, None, Some (Some (a\<lparr>ma_type := kind\<rparr>)))
      | _ \<Rightarrow> (- 1, Some POSIX_EINVAL, attr))"

definition posix_pthread_mutexattr_getkind_np :: "PthreadMutexAttr option \<Rightarrow> s32 \<times> s32 option" where
  "posix_pthread_mutexattr_getkind_np attr =
     (case attr of Some a \<Rightarrow> (ma_type a, None) | None \<Rightarrow> (- 1, Some POSIX_EINVAL))"

definition posix_pthread_mutexattr_setprioceiling :: "s32 \<Rightarrow> mutex_attr \<Rightarrow> s32 \<times> mutex_attr" where
  "posix_pthread_mutexattr_setprioceiling prioceiling attr =
     (case attr of
        Some (Some a) \<Rightarrow>
          (if ma_protocol a \<noteq> Prot_Protect \<or> sint prioceiling > sint ORBIS_KERNEL_PRIO_FIFO_HIGHEST \<or>
              sint prioceiling < sint ORBIS_KERNEL_PRIO_FIFO_LOWEST then (POSIX_EINVAL, attr)
           else (0, Some (Some (a\<lparr>ma_ceiling := prioceiling\<rparr>))))
      | _ \<Rightarrow> (POSIX_EINVAL, attr))"

definition posix_pthread_mutexattr_getprioceiling :: "mutex_attr \<Rightarrow> s32 + s32" where
  "posix_pthread_mutexattr_getprioceiling attr =
     (case attr of
        Some (Some a) \<Rightarrow> (if ma_protocol a \<noteq> Prot_Protect then Inl POSIX_EINVAL else Inr (ma_ceiling a))
      | _ \<Rightarrow> Inl POSIX_EINVAL)"

definition posix_pthread_mutexattr_setprotocol :: "u32 \<Rightarrow> mutex_attr \<Rightarrow> s32 \<times> mutex_attr" where
  "posix_pthread_mutexattr_setprotocol protocol attr =
     (case attr of
        Some (Some a) \<Rightarrow>
          (if protocol < Prot_None \<or> protocol > Prot_Protect then (POSIX_EINVAL, attr)
           else (0, Some (Some (a\<lparr>ma_protocol := protocol, ma_ceiling := ORBIS_KERNEL_PRIO_RR_HIGHEST\<rparr>))))
      | _ \<Rightarrow> (POSIX_EINVAL, attr))"

definition posix_pthread_mutexattr_getprotocol :: "mutex_attr \<Rightarrow> s32 + u32" where
  "posix_pthread_mutexattr_getprotocol attr =
     (case attr of Some (Some a) \<Rightarrow> Inr (ma_protocol a) | _ \<Rightarrow> Inl POSIX_EINVAL)"

definition posix_pthread_mutexattr_setpshared :: "s32 \<Rightarrow> mutex_attr \<Rightarrow> s32" where
  "posix_pthread_mutexattr_setpshared pshared attr =
     (case attr of Some (Some a) \<Rightarrow> (if pshared \<noteq> 0 then POSIX_EINVAL else 0) | _ \<Rightarrow> POSIX_EINVAL)"

definition posix_pthread_mutexattr_getpshared :: "mutex_attr \<Rightarrow> s32 + s32" where
  "posix_pthread_mutexattr_getpshared attr = (case attr of Some (Some a) \<Rightarrow> Inr 0 | _ \<Rightarrow> Inl POSIX_EINVAL)"

definition posix_pthread_mutexattr_settype :: "u32 \<Rightarrow> mutex_attr \<Rightarrow> s32 \<times> mutex_attr" where
  "posix_pthread_mutexattr_settype ty attr =
     (case attr of
        Some (Some a) \<Rightarrow>
          (if ty < Mutex_ErrorCheck \<or> ty \<ge> Mutex_Max then (POSIX_EINVAL, attr)
           else (0, Some (Some (a\<lparr>ma_type := ty\<rparr>))))
      | _ \<Rightarrow> (POSIX_EINVAL, attr))"

definition posix_pthread_mutexattr_gettype :: "mutex_attr \<Rightarrow> s32 + u32" where
  "posix_pthread_mutexattr_gettype attr =
     (case attr of
        Some (Some a) \<Rightarrow> (if ma_type a \<ge> Mutex_Max then Inl POSIX_EINVAL else Inr (ma_type a))
      | _ \<Rightarrow> Inl POSIX_EINVAL)"

definition posix_pthread_mutexattr_init :: "s32 \<times> mutex_attr" where
  "posix_pthread_mutexattr_init = (0, Some (Some PthreadMutexattrDefault))"

definition posix_pthread_mutexattr_destroy :: "mutex_attr \<Rightarrow> s32 \<times> mutex_attr" where
  "posix_pthread_mutexattr_destroy attr =
     (case attr of Some (Some a) \<Rightarrow> (0, Some None) | _ \<Rightarrow> (POSIX_EINVAL, attr))"
subsection \<open>Threads\<close>

text \<open>
  Where a thread is in a call on the mutex.  A call to lock carries its time limit and, when a
  condition variable makes it, the count to restore.  \<open>Cv_waiting\<close> is a thread that has given the
  mutex up to wait on a condition variable.
\<close>

type_synonym lock_call = "lock_time \<times> s32 option"

datatype mutex_thread = Outside | Spinning lock_call s32 | Yielding lock_call s32 | Waiting lock_call | Trying
  | Acquired "s32 option" | Restoring s32 | Releasing "s32 option" | Cv_waiting s32

text \<open>
  The state: the mutex, the threads, and for each thread how many more times a call has told it that
  it holds the mutex than that it has given it up.  A wait on a condition variable gives it up
  altogether.
\<close>

type_synonym mutex_state = "PthreadMutex \<times> (nat \<Rightarrow> mutex_thread) \<times> (nat \<Rightarrow> int)"

definition lock_start :: "PthreadMutex \<Rightarrow> lock_call \<Rightarrow> mutex_thread" where
  "lock_start m c = (if m_protocol m = Prot_None then Spinning c (m_spinloops m) else Waiting c)"

text \<open>An invalid deadline is refused once the thread would have to wait.\<close>

fun bad_deadline :: "lock_time \<Rightarrow> bool" where
  "bad_deadline (Absolute ts) = bad_nsec ts"
| "bad_deadline _ = False"

inductive mutex_step :: "mutex_state \<Rightarrow> nat \<Rightarrow> mutex_state \<Rightarrow> bool" where
  lock_self: "ts t = Outside \<Longrightarrow> m_owner m = Some t \<Longrightarrow> SelfLock abstime m = Some (ret, m') \<Longrightarrow>
    mutex_step (m, ts, h) t (m', ts, if ret = 0 then h(t := h t + 1) else h)"
| lock_enter: "ts t = Outside \<Longrightarrow> m_owner m \<noteq> Some t \<Longrightarrow>
    mutex_step (m, ts, h) t (m, ts(t := lock_start m (abstime, None)), h)"
| spin_end: "ts t = Spinning c 0 \<Longrightarrow> mutex_step (m, ts, h) t (m, ts(t := Yielding c (m_yieldloops m)), h)"
| spin_take: "ts t = Spinning c n \<Longrightarrow> n \<noteq> 0 \<Longrightarrow> m_lock m = None \<Longrightarrow>
    mutex_step (m, ts, h) t (m\<lparr>m_lock := Some t\<rparr>, ts(t := Acquired (snd c)), h)"
| spin_again: "ts t = Spinning c n \<Longrightarrow> n \<noteq> 0 \<Longrightarrow> m_lock m \<noteq> None \<Longrightarrow>
    mutex_step (m, ts, h) t (m, ts(t := Spinning c (n - 1)), h)"
| yield_end: "ts t = Yielding c 0 \<Longrightarrow> mutex_step (m, ts, h) t (m, ts(t := Waiting c), h)"
| yield_take: "ts t = Yielding c n \<Longrightarrow> n \<noteq> 0 \<Longrightarrow> m_lock m = None \<Longrightarrow>
    mutex_step (m, ts, h) t (m\<lparr>m_lock := Some t\<rparr>, ts(t := Acquired (snd c)), h)"
| yield_again: "ts t = Yielding c n \<Longrightarrow> n \<noteq> 0 \<Longrightarrow> m_lock m \<noteq> None \<Longrightarrow>
    mutex_step (m, ts, h) t (m, ts(t := Yielding c (n - 1)), h)"
| wait_invalid: "ts t = Waiting (abstime, r) \<Longrightarrow> bad_deadline abstime \<Longrightarrow> mutex_step (m, ts, h) t (m, ts(t := Outside), h)"
| wait_take: "ts t = Waiting (abstime, r) \<Longrightarrow> \<not> bad_deadline abstime \<Longrightarrow> m_lock m = None \<Longrightarrow>
    mutex_step (m, ts, h) t (m\<lparr>m_lock := Some t\<rparr>, ts(t := Acquired r), h)"
| wait_expires: "ts t = Waiting (abstime, r) \<Longrightarrow> \<not> bad_deadline abstime \<Longrightarrow> abstime \<noteq> No_time \<Longrightarrow>
    mutex_step (m, ts, h) t (m, ts(t := Outside), h)"
| got: "ts t = Acquired None \<Longrightarrow> mutex_step (m, ts, h) t (m\<lparr>m_owner := Some t\<rparr>, ts(t := Outside), h(t := h t + 1))"
| cv_got: "ts t = Acquired (Some r) \<Longrightarrow> mutex_step (m, ts, h) t (m\<lparr>m_owner := Some t\<rparr>, ts(t := Restoring r), h)"
| cv_restore: "ts t = Restoring r \<Longrightarrow>
    mutex_step (m, ts, h) t (m\<lparr>m_count := r\<rparr>, ts(t := Outside), h(t := 1 + sint r))"
| try_self: "ts t = Outside \<Longrightarrow> m_owner m = Some t \<Longrightarrow> SelfTryLock m = Some (ret, m') \<Longrightarrow>
    mutex_step (m, ts, h) t (m', ts, if ret = 0 then h(t := h t + 1) else h)"
| try_enter: "ts t = Outside \<Longrightarrow> m_owner m \<noteq> Some t \<Longrightarrow> mutex_step (m, ts, h) t (m, ts(t := Trying), h)"
| try_take: "ts t = Trying \<Longrightarrow> m_lock m = None \<Longrightarrow>
    mutex_step (m, ts, h) t (m\<lparr>m_lock := Some t\<rparr>, ts(t := Acquired None), h)"
| try_busy: "ts t = Trying \<Longrightarrow> m_lock m \<noteq> None \<Longrightarrow> mutex_step (m, ts, h) t (m, ts(t := Outside), h)"
| unlock_keep: "ts t = Outside \<Longrightarrow> Unlock_begin t m = (ret, False, deferred, m') \<Longrightarrow>
    mutex_step (m, ts, h) t (m', ts, if ret = 0 then h(t := h t - 1) else h)"
| unlock_begin: "ts t = Outside \<Longrightarrow> Unlock_begin t m = (ret, True, deferred, m') \<Longrightarrow>
    mutex_step (m, ts, h) t (m', ts(t := Releasing None), h(t := h t - 1))"
| cv_unlock: "ts t = Outside \<Longrightarrow> IsOwned t m = 0 \<Longrightarrow> Unlock_begin t (m\<lparr>m_count := 0\<rparr>) = (ret, True, deferred, m') \<Longrightarrow>
    mutex_step (m, ts, h) t (m', ts(t := Releasing (Some (m_count m))), h(t := 0))"
| release: "ts t = Releasing None \<Longrightarrow> lock_unlock t m = Some m' \<Longrightarrow> mutex_step (m, ts, h) t (m', ts(t := Outside), h)"
| cv_release: "ts t = Releasing (Some r) \<Longrightarrow> lock_unlock t m = Some m' \<Longrightarrow>
    mutex_step (m, ts, h) t (m', ts(t := Cv_waiting r), h)"
| cv_lock: "ts t = Cv_waiting r \<Longrightarrow> m_owner m \<noteq> Some t \<Longrightarrow>
    mutex_step (m, ts, h) t (m, ts(t := lock_start m (No_time, Some r)), h)"

inductive mutex_reachable :: "PthreadMutex \<Rightarrow> mutex_state \<Rightarrow> bool" for m0 where
  init: "mutex_reachable m0 (m0, \<lambda>t. Outside, \<lambda>t. 0)"
| step: "mutex_reachable m0 s \<Longrightarrow> mutex_step s t s' \<Longrightarrow> mutex_reachable m0 s'"

inductive_cases mutex_stepE: "mutex_step s t s'"

subsection \<open>The invariant\<close>

text \<open>The count a thread will restore, and the threads that hold the host's lock without being the owner.\<close>

fun saved_count :: "mutex_thread \<Rightarrow> s32 option" where
  "saved_count (Spinning c n) = snd c"
| "saved_count (Yielding c n) = snd c"
| "saved_count (Waiting c) = snd c"
| "saved_count (Acquired r) = r"
| "saved_count (Restoring r) = Some r"
| "saved_count (Releasing r) = r"
| "saved_count (Cv_waiting r) = Some r"
| "saved_count _ = None"

fun in_between :: "mutex_thread \<Rightarrow> bool" where
  "in_between (Acquired r) = True"
| "in_between (Releasing r) = True"
| "in_between _ = False"

definition count_ok :: "u32 \<Rightarrow> s32 \<Rightarrow> bool" where
  "count_ok ty n \<longleftrightarrow> 0 \<le> sint n \<and> (ty \<noteq> Mutex_Recursive \<longrightarrow> n = 0)"

definition mutex_inv :: "mutex_state \<Rightarrow> bool" where
  "mutex_inv s = (case s of (m, ts, h) \<Rightarrow>
     mutex_type m \<noteq> Mutex_Normal \<and>
     (\<forall>t. m_owner m = Some t \<longrightarrow> m_lock m = Some t \<and> (ts t = Outside \<or> (\<exists>r. ts t = Restoring r))) \<and>
     (\<forall>t. in_between (ts t) \<longrightarrow> m_lock m = Some t \<and> m_owner m = None) \<and>
     (\<forall>t r. ts t = Restoring r \<longrightarrow> m_owner m = Some t \<and> m_count m = 0) \<and>
     (\<forall>t r. saved_count (ts t) = Some r \<longrightarrow> count_ok (mutex_type m) r) \<and>
     count_ok (mutex_type m) (m_count m) \<and> (m_owner m = None \<longrightarrow> m_count m = 0) \<and>
     (\<forall>t. h t = (if m_owner m = Some t \<and> ts t = Outside then 1 + sint (m_count m) else 0)))"

lemma in_between_iff: "in_between p \<longleftrightarrow> (\<exists>r. p = Acquired r) \<or> (\<exists>r. p = Releasing r)"
  by (cases p) auto

lemma type_without_deferred [simp]:
  "m_flags m' = m_flags m AND NOT Flag_Deferred \<Longrightarrow> mutex_type m' = mutex_type m"
proof -
  assume f: "m_flags m' = m_flags m AND NOT Flag_Deferred"
  have "Flag_TypeMask = NOT Flag_Deferred AND Flag_TypeMask" by (simp add: mutex_const_defs)
  then show ?thesis unfolding mutex_type_def f by (simp only: and.assoc)
qed

lemma mutex_type_upd [simp]:
  "mutex_type (m\<lparr>m_owner := a\<rparr>) = mutex_type m" "mutex_type (m\<lparr>m_count := n\<rparr>) = mutex_type m"
  "mutex_type (m\<lparr>m_lock := l\<rparr>) = mutex_type m"
  by (simp_all add: mutex_type_def)

lemma lock_start_facts [simp]:
  "lock_start m c \<noteq> Outside" "lock_start m c \<noteq> Restoring r" "\<not> in_between (lock_start m c)"
  "saved_count (lock_start m c) = snd c"
  by (simp_all add: lock_start_def)
lemma mutex_invD:
  assumes "mutex_inv (m, ts, h)"
  shows "mutex_type m \<noteq> Mutex_Normal"
    "m_owner m = Some t \<Longrightarrow> m_lock m = Some t \<and> (ts t = Outside \<or> (\<exists>r. ts t = Restoring r))"
    "in_between (ts t) \<Longrightarrow> m_lock m = Some t \<and> m_owner m = None"
    "ts t = Restoring r \<Longrightarrow> m_owner m = Some t \<and> m_count m = 0"
    "saved_count (ts t) = Some r \<Longrightarrow> count_ok (mutex_type m) r"
    "count_ok (mutex_type m) (m_count m)" "m_owner m = None \<Longrightarrow> m_count m = 0"
    "h t = (if m_owner m = Some t \<and> ts t = Outside then 1 + sint (m_count m) else 0)"
  using assms unfolding mutex_inv_def by auto

text \<open>A thread that neither holds the host's lock nor gets it.\<close>

lemma mutex_inv_move:
  assumes inv: "mutex_inv (m, ts, h)" and t: "m_owner m \<noteq> Some t" "\<not> in_between p" "\<And>r. p \<noteq> Restoring r"
    and s: "saved_count p = None \<or> saved_count p = saved_count (ts t)"
  shows "mutex_inv (m, ts(t := p), h)"
proof -
  note d = mutex_invD [OF inv]
  have "h u = (if m_owner m = Some u \<and> (ts(t := p)) u = Outside then 1 + sint (m_count m) else 0)" for u
    using d(8) [of u] t(1) by auto
  moreover have "m_owner m = Some u \<longrightarrow> m_lock m = Some u \<and> ((ts(t := p)) u = Outside \<or> (\<exists>r. (ts(t := p)) u = Restoring r))" for u
    using d(2) [of u] t(1) by auto
  moreover have "in_between ((ts(t := p)) u) \<longrightarrow> m_lock m = Some u \<and> m_owner m = None" for u
    using d(3) [of u] t(2) by auto
  moreover have "saved_count ((ts(t := p)) u) = Some r \<longrightarrow> count_ok (mutex_type m) r" for u r
    using d(5) [of u r] d(5) [of t r] s by auto
  moreover have "(ts(t := p)) u = Restoring r \<longrightarrow> m_owner m = Some u \<and> m_count m = 0" for u r
    using d(4) [of u r] t(3) by auto
  ultimately show ?thesis using d(1,6,7) unfolding mutex_inv_def prod.case by blast
qed

text \<open>A thread that takes the host's lock.\<close>

lemma mutex_inv_take:
  assumes inv: "mutex_inv (m, ts, h)" and free: "m_lock m = None"
    and s: "r = None \<or> r = saved_count (ts t)"
  shows "mutex_inv (m\<lparr>m_lock := Some t\<rparr>, ts(t := Acquired r), h)"
proof -
  note d = mutex_invD [OF inv]
  have o: "m_owner m = None" "\<And>u. \<not> in_between (ts u)" "\<And>u r. ts u \<noteq> Restoring r"
    using d(2,3,4) free by fastforce+
  have sc: "saved_count ((ts(t := Acquired r)) u) = Some r' \<longrightarrow> count_ok (mutex_type m) r'" for u r'
    using d(5) [of u r'] d(5) [of t r'] s by auto
  show ?thesis unfolding mutex_inv_def prod.case
    using o d(1,6,7,8) sc by (simp add: fun_upd_def)
qed

lemma mutex_owner_not:
  assumes "mutex_inv (m, ts, h)" "ts t \<noteq> Outside" "\<And>r. ts t \<noteq> Restoring r"
  shows "m_owner m \<noteq> Some t"
  using mutex_invD(2) [OF assms(1), of t] assms(2,3) by auto

lemma self_result:
  assumes "SelfLock a m = Some (ret, m') \<or> SelfTryLock m = Some (ret, m')" "mutex_type m \<noteq> Mutex_Normal"
    "count_ok (mutex_type m) (m_count m)"
  shows "if ret = 0 then m' = m\<lparr>m_count := m_count m + 1\<rparr> \<and> mutex_type m = Mutex_Recursive \<and>
      sint (m_count m + 1) = sint (m_count m) + 1 else m' = m"
proof -
  have "sint (x + 1) = sint x + 1" if "0 \<le> sint x" "sint x < 2 ^ 31 - 1" for x :: s32
  proof -
    have "sint (x + 1) = signed_take_bit 31 (sint x + sint (1 :: s32))"
      by (simp add: sint_word_ariths)
    then show ?thesis using that by (simp add: signed_take_bit_int_eq_self)
  qed
  moreover have "DoSleep x \<noteq> 0" for x by (cases x) (simp_all add: posix_error_defs)
  ultimately show ?thesis using assms
    by (auto simp: SelfLock_def SelfTryLock_def posix_error_defs count_ok_def split: if_splits)
qed

lemma mutex_inv_self:
  assumes inv: "mutex_inv (m, ts, h)" and t: "ts t = Outside" "m_owner m = Some t"
    and r: "SelfLock a m = Some (ret, m') \<or> SelfTryLock m = Some (ret, m')"
  shows "mutex_inv (m', ts, if ret = 0 then h(t := h t + 1) else h)"
proof (cases "ret = 0")
  case True
  note d = mutex_invD [OF inv]
  note s = self_result [OF r d(1,6)]
  have m': "m' = m\<lparr>m_count := m_count m + 1\<rparr>" "mutex_type m = Mutex_Recursive"
    "sint (m_count m + 1) = sint (m_count m) + 1" using s True by simp_all
  have "ts u \<noteq> Restoring r" for u r using d(4) [of u r] t by auto
  moreover have "count_ok (mutex_type m) (m_count m + 1)" using d(6) m'(2,3) by (simp add: count_ok_def)
  ultimately show ?thesis using inv True t m'(3) unfolding m'(1) mutex_inv_def by auto
next
  case False
  then show ?thesis using inv self_result [OF r mutex_invD(1,6) [OF inv]] by simp
qed

lemma Unlock_begin_cases:
  assumes "Unlock_begin t m = (ret, release, deferred, m')"
  shows "m_owner m \<noteq> Some t \<Longrightarrow> ret = POSIX_EPERM \<and> \<not> release \<and> m' = m"
    "m_owner m = Some t \<Longrightarrow> ret = 0"
    "m_owner m = Some t \<Longrightarrow> release \<Longrightarrow>
      m' = m\<lparr>m_flags := m_flags m AND NOT Flag_Deferred, m_owner := None\<rparr> \<and>
      \<not> (mutex_type m = Mutex_Recursive \<and> sint (m_count m) > 0)"
    "m_owner m = Some t \<Longrightarrow> \<not> release \<Longrightarrow>
      m' = m\<lparr>m_count := m_count m - 1\<rparr> \<and> mutex_type m = Mutex_Recursive \<and> sint (m_count m) > 0"
  using assms by (auto simp: Unlock_begin_def split: if_splits)
lemma mutex_inv_give_up:
  assumes inv: "mutex_inv (m, ts, h)" and t: "ts t = Outside" "m_owner m = Some t"
    and m': "m_owner m' = None" "m_lock m' = m_lock m" "mutex_type m' = mutex_type m" "m_count m' = 0"
    and r: "r = None \<or> r = Some (m_count m)"
  shows "mutex_inv (m', ts(t := Releasing r), h(t := 0))"
proof -
  note d = mutex_invD [OF inv]
  have o: "m_lock m = Some t" "\<And>u. \<not> in_between (ts u)" "\<And>u r. ts u \<noteq> Restoring r" "\<And>u. u \<noteq> t \<Longrightarrow> h u = 0"
    using d(2,3,4,8) t by fastforce+
  have "saved_count ((ts(t := Releasing r)) u) = Some r' \<longrightarrow> count_ok (mutex_type m) r'" for u r'
    using d(5) [of u r'] d(6) r by auto
  then show ?thesis unfolding mutex_inv_def prod.case m'
    using o d(1) by (auto simp: count_ok_def)
qed

lemma mutex_inv_release:
  assumes inv: "mutex_inv (m, ts, h)" and t: "ts t = Releasing r" and p: "p = Outside \<or> (\<exists>n. p = Cv_waiting n \<and> r = Some n)"
  shows "mutex_inv (m\<lparr>m_lock := None\<rparr>, ts(t := p), h)"
proof -
  note d = mutex_invD [OF inv]
  have o: "m_owner m = None" "m_lock m = Some t" using d(3) [of t] t by simp_all
  have "\<not> in_between (ts u)" if "u \<noteq> t" for u using d(3) [of u] o that by auto
  moreover have "ts u \<noteq> Restoring n" for u n using d(4) [of u n] o by auto
  moreover have "saved_count ((ts(t := p)) u) = Some n \<longrightarrow> count_ok (mutex_type m) n" for u n
    using d(5) [of u n] d(5) [of t n] t p by auto
  ultimately show ?thesis unfolding mutex_inv_def prod.case
    using o p d(1,6,7,8) by auto
qed

lemma mutex_step_inv:
  assumes "mutex_step s t s'" "mutex_inv s"
  shows "mutex_inv s'"
  using assms
proof (induction rule: mutex_step.induct)
  case (lock_self ts t m abstime ret m' h)
  then show ?case using mutex_inv_self [of m ts h t abstime ret m'] by blast
next
  case (try_self ts t m ret m' h)
  then show ?case using mutex_inv_self [of m ts h t No_time ret m'] by blast
next
  case (got ts t m h)
  note d = mutex_invD [OF got.prems]
  have o: "m_owner m = None" "m_lock m = Some t" "m_count m = 0" using d(3) [of t] d(7) got by simp_all
  have "\<not> in_between (ts u)" if "u \<noteq> t" for u using d(3) [of u] o that by auto
  moreover have "ts u \<noteq> Restoring n" for u n using d(4) [of u n] o by auto
  moreover have "h u = 0" for u using d(8) [of u] o by simp
  ultimately show ?case unfolding mutex_inv_def prod.case using o d(1,5,6) by simp
next
  case (cv_got ts t r m h)
  note d = mutex_invD [OF cv_got.prems]
  have o: "m_owner m = None" "m_lock m = Some t" "m_count m = 0" using d(3) [of t] d(7) cv_got by simp_all
  have "\<not> in_between (ts u)" if "u \<noteq> t" for u using d(3) [of u] o that by auto
  moreover have "ts u \<noteq> Restoring n" for u n using d(4) [of u n] o by auto
  moreover have "h u = 0" for u using d(8) [of u] o by simp
  moreover have "count_ok (mutex_type m) r" using d(5) [of t r] cv_got by simp
  ultimately show ?case unfolding mutex_inv_def prod.case using o d(1,5,6) by simp
next
  case (cv_restore ts t r m h)
  note d = mutex_invD [OF cv_restore.prems]
  have o: "m_owner m = Some t" "m_lock m = Some t" using d(4) [of t r] d(2) [of t] cv_restore by auto
  have "\<not> in_between (ts u)" for u using d(3) [of u] o by auto
  moreover have "ts u \<noteq> Restoring n" if "u \<noteq> t" for u n using d(4) [of u n] o that by auto
  moreover have "h u = 0" if "u \<noteq> t" for u using d(8) [of u] o that by simp
  moreover have "count_ok (mutex_type m) r" using d(5) [of t r] cv_restore by simp
  ultimately show ?case unfolding mutex_inv_def prod.case using o d(1,5) by simp
next
  case (unlock_keep ts t m ret deferred m' h)
  note d = mutex_invD [OF unlock_keep.prems]
  note u = Unlock_begin_cases [OF unlock_keep.hyps(2)]
  show ?case
  proof (cases "m_owner m = Some t")
    case True
    then have m': "ret = 0" "m' = m\<lparr>m_count := m_count m - 1\<rparr>" "mutex_type m = Mutex_Recursive" "0 < sint (m_count m)"
      using u(2,4) by simp_all
    have "sint (m_count m - 1) = signed_take_bit 31 (sint (m_count m) - sint (1 :: s32))"
      by (simp add: sint_word_ariths)
    moreover have "sint (m_count m) < 2 ^ 31" using sint_lt [of "m_count m"] by simp
    ultimately have s: "sint (m_count m - 1) = sint (m_count m) - 1" using m'(4)
      by (simp add: signed_take_bit_int_eq_self)
    have "ts v \<noteq> Restoring r" for v r using d(4) [of v r] True unlock_keep.hyps by auto
    moreover have "count_ok (mutex_type m) (m_count m - 1)" using m'(3,4) s by (simp add: count_ok_def)
    ultimately show ?thesis using unlock_keep.prems unlock_keep.hyps(1) True m' s unfolding mutex_inv_def m'(2) by auto
  next
    case False
    then show ?thesis using u(1) unlock_keep.prems by (simp add: posix_error_defs)
  qed
next
  case (unlock_begin ts t m ret deferred m' h)
  note u = Unlock_begin_cases [OF unlock_begin.hyps(2)]
  note d = mutex_invD [OF unlock_begin.prems]
  have own: "m_owner m = Some t" using u(1) by blast
  then have m': "m' = m\<lparr>m_flags := m_flags m AND NOT Flag_Deferred, m_owner := None\<rparr>"
    "\<not> (mutex_type m = Mutex_Recursive \<and> sint (m_count m) > 0)" using u(3) by simp_all
  have "sint (m_count m) = 0 \<and> m_count m = 0" using d(6) m'(2)
    by (cases "mutex_type m = Mutex_Recursive") (auto simp: count_ok_def intro: signed_word_eqI)
  moreover have "mutex_type m' = mutex_type m" unfolding m'(1) by simp
  moreover have "h t = 1 + sint (m_count m)" using d(8) [of t] own unlock_begin.hyps(1) by simp
  ultimately show ?case using mutex_inv_give_up [OF unlock_begin.prems unlock_begin.hyps(1) own, of m' None] m'(1) by simp
next
  case (cv_unlock ts t m ret deferred m' h)
  note u = Unlock_begin_cases [OF cv_unlock.hyps(3)]
  have own: "m_owner m = Some t" using cv_unlock.hyps(2) by (simp add: IsOwned_def posix_error_defs split: if_splits)
  then have m': "m' = m\<lparr>m_count := 0, m_flags := m_flags m AND NOT Flag_Deferred, m_owner := None\<rparr>" using u(3) by simp
  moreover have "mutex_type m' = mutex_type m" unfolding m' by simp
  ultimately show ?case
    using mutex_inv_give_up [OF cv_unlock.prems cv_unlock.hyps(1) own, of m' "Some (m_count m)"] by simp
next
  case (release ts t m m' h)
  then show ?case using mutex_inv_release [of m ts h t None Outside] by (simp add: lock_unlock_def split: if_splits)
next
  case (cv_release ts t r m m' h)
  then show ?case using mutex_inv_release [of m ts h t "Some r" "Cv_waiting r"] by (simp add: lock_unlock_def split: if_splits)
qed (force intro!: mutex_inv_move mutex_inv_take dest: mutex_owner_not)+
subsection \<open>Theorems\<close>

definition valid_mutex_attr :: "PthreadMutexAttr \<Rightarrow> bool" where
  "valid_mutex_attr a \<longleftrightarrow>
     ma_type a \<in> {Mutex_ErrorCheck, Mutex_Recursive, Mutex_Normal, Mutex_AdaptiveNp} \<and>
     ma_protocol a \<in> {Prot_None, Prot_Inherit, Prot_Protect}"

lemma small_words:
  "(x :: u32) < 1 \<or> 5 \<le> x \<longleftrightarrow> x \<notin> {1, 2, 3, 4}" "2 < (y :: u32) \<longleftrightarrow> y \<notin> {0, 1, 2}"
  by (auto simp: word_less_nat_alt word_le_nat_alt word_unat_eq_iff)

text \<open>
  A mutex is made for every valid attribute and for no other one; it has the type of the
  attribute, and a caller can neither hold it yet nor have counted a lock.
\<close>

theorem MutexInit_typed:
  "case MutexInit attr name of
     Inl ret \<Rightarrow> ret = POSIX_EINVAL \<and> (\<exists>a. attr = Some a \<and> \<not> valid_mutex_attr a)
   | Inr m \<Rightarrow> (\<forall>a. attr = Some a \<longrightarrow> valid_mutex_attr a \<and> mutex_type m = ma_type a) \<and>
       mutex_type m \<in> {Mutex_ErrorCheck, Mutex_Recursive, Mutex_Normal, Mutex_AdaptiveNp} \<and>
       m_protocol m \<in> {Prot_None, Prot_Inherit, Prot_Protect} \<and>
       m_owner m = None \<and> m_lock m = None \<and> m_count m = 0"
proof (cases attr)
  case None
  then show ?thesis by (simp add: MutexInit_def mutex_type_def PthreadMutexattrDefault_def mutex_const_defs)
next
  case (Some a)
  have "ma_type a < Mutex_ErrorCheck \<or> ma_type a \<ge> Mutex_Max \<or> ma_protocol a > Prot_Protect \<longleftrightarrow> \<not> valid_mutex_attr a"
    using small_words(1) [of "ma_type a"] small_words(2) [of "ma_protocol a"]
    by (simp add: valid_mutex_attr_def mutex_const_defs) blast
  moreover have "ma_type a AND Flag_TypeMask = ma_type a" if "valid_mutex_attr a"
    using that by (auto simp: valid_mutex_attr_def mutex_const_defs)
  ultimately show ?thesis using Some
    by (cases "valid_mutex_attr a") (auto simp: MutexInit_def mutex_type_def valid_mutex_attr_def Let_def)
qed

theorem MutexInit_typed_witness:
  "MutexInit (Some \<lparr>ma_type = 5, ma_protocol = 0, ma_ceiling = 0\<rparr>) ''m'' = Inl POSIX_EINVAL"
  using MutexInit_typed [of "Some \<lparr>ma_type = 5, ma_protocol = 0, ma_ceiling = 0\<rparr>" "''m''"]
  by (auto simp: valid_mutex_attr_def mutex_const_defs split: sum.splits)

lemma MutexInit_inv:
  assumes "MutexInit attr name = Inr m" "mutex_type m \<noteq> Mutex_Normal"
  shows "mutex_inv (m, \<lambda>t. Outside, \<lambda>t. 0)"
  using MutexInit_typed [of attr name] assms by (simp add: mutex_inv_def count_ok_def)

lemma mutex_reachable_inv:
  assumes "mutex_reachable m0 s" "mutex_inv (m0, \<lambda>t. Outside, \<lambda>t. 0)"
  shows "mutex_inv s"
  using assms by (induction rule: mutex_reachable.induct) (auto intro: mutex_step_inv)

text \<open>
  C30: mutual exclusion.  However the calls of any number of threads interleave, timed ones and waits
  on condition variables included, only one thread at a time has been told that it holds an
  error-checking, recursive or adaptive mutex; it is the recorded owner and the holder of the host's
  lock, and the recursion count is the number of calls it still has to make to give it up, less one.
\<close>

theorem mutex_exclusion:
  assumes "MutexInit attr name = Inr m0" "mutex_type m0 \<noteq> Mutex_Normal"
    and "mutex_reachable m0 (m, ts, h)" "0 < h t"
  shows "m_owner m = Some t \<and> m_lock m = Some t \<and> h t = 1 + sint (m_count m) \<and> (\<forall>u. u \<noteq> t \<longrightarrow> h u = 0)"
proof -
  note d = mutex_invD [OF mutex_reachable_inv [OF assms(3) MutexInit_inv [OF assms(1,2)]]]
  have t: "m_owner m = Some t" "h t = 1 + sint (m_count m)" using d(8) [of t] assms(4) by (auto split: if_splits)
  then show ?thesis using d(2) [of t] d(8) by auto
qed

lemma demo_mutex: "MutexInit None ''m'' = Inr \<lparr>m_owner = None, m_count = 0, m_spinloops = 0, m_yieldloops = 0,
    m_protocol = 0, m_flags = 1, m_lock = None, mutex_name = ''m''\<rparr>"
  by (simp add: MutexInit_def PthreadMutexattrDefault_def mutex_const_defs)

lemma trylock_reachable:
  assumes "mutex_reachable m0 (m, ts, h)" "ts t = Outside" "m_owner m = None" "m_lock m = None"
  shows "mutex_reachable m0 (m\<lparr>m_lock := Some t, m_owner := Some t\<rparr>, ts, h(t := h t + 1))"
proof -
  have "mutex_step (m, ts, h) t (m, ts(t := Trying), h)" using assms(2,3) by (simp add: mutex_step.try_enter)
  with assms(1) have "mutex_reachable m0 (m, ts(t := Trying), h)" by (rule mutex_reachable.step)
  moreover have "mutex_step (m, ts(t := Trying), h) t (m\<lparr>m_lock := Some t\<rparr>, ts(t := Trying, t := Acquired None), h)"
    using assms(4) by (intro mutex_step.try_take) simp_all
  ultimately have "mutex_reachable m0 (m\<lparr>m_lock := Some t\<rparr>, ts(t := Trying, t := Acquired None), h)"
    by (rule mutex_reachable.step)
  then have "mutex_reachable m0 (m\<lparr>m_lock := Some t, m_owner := Some t\<rparr>,
      ts(t := Trying, t := Acquired None, t := Outside), h(t := h t + 1))"
    by (rule mutex_reachable.step) (rule mutex_step.got [of _ t "m\<lparr>m_lock := Some t\<rparr>", simplified], simp)
  moreover have "ts(t := Trying, t := Acquired None, t := Outside) = ts" using assms(2) by auto
  ultimately show ?thesis by simp
qed

definition demo_held :: mutex_state where
  "demo_held = (\<lparr>m_owner = Some 1, m_count = 0, m_spinloops = 0, m_yieldloops = 0,
    m_protocol = 0, m_flags = 1, m_lock = Some 1, mutex_name = ''m''\<rparr>, \<lambda>t. Outside, (\<lambda>t. 0)(1 := 1))"

theorem mutex_exclusion_witness:
  "m_owner (fst demo_held) = Some 1 \<and> snd (snd demo_held) 1 = 1 + sint (m_count (fst demo_held)) \<and>
   snd (snd demo_held) 2 = 0"
proof -
  let ?m = "\<lparr>m_owner = None, m_count = 0, m_spinloops = 0, m_yieldloops = 0,
    m_protocol = 0, m_flags = 1, m_lock = None, mutex_name = ''m''\<rparr> :: PthreadMutex"
  have "mutex_reachable ?m demo_held"
    using trylock_reachable [OF mutex_reachable.init [of ?m], of 1] by (simp add: demo_held_def)
  then have r: "mutex_reachable ?m (fst demo_held, fst (snd demo_held), snd (snd demo_held))" by simp
  have "mutex_type ?m \<noteq> Mutex_Normal" "0 < snd (snd demo_held) 1"
    by (simp_all add: mutex_type_def mutex_const_defs demo_held_def)
  from mutex_exclusion [OF demo_mutex this(1) r this(2)] show ?thesis by auto
qed

text \<open>
  A thread that locks a normal mutex it already holds is told that it holds it once more, without
  a count.  Its first unlock gives the mutex up, and another thread gets it while the first one still
  believes to hold it.
\<close>

theorem normal_mutex_shared:
  assumes "MutexInit attr name = Inr m0" "mutex_type m0 = Mutex_Normal" "t \<noteq> u"
  shows "\<exists>m ts h. mutex_reachable m0 (m, ts, h) \<and> 0 < h t \<and> 0 < h u"
proof -
  have m0: "m_owner m0 = None" "m_lock m0 = None" using MutexInit_typed [of attr name] assms(1) by simp_all
  let ?m = "m0\<lparr>m_lock := Some t, m_owner := Some t\<rparr>"
  have "mutex_reachable m0 (?m, \<lambda>t. Outside, (\<lambda>t. 0)(t := 0 + 1))"
    using m0 by (intro trylock_reachable mutex_reachable.init) simp_all
  moreover have "SelfLock No_time ?m = Some (0, ?m)"
    using assms(2) by (simp add: SelfLock_def mutex_const_defs)
  ultimately have "mutex_reachable m0 (?m, \<lambda>t. Outside, (\<lambda>t. 0)(t := 2))"
    using mutex_step.lock_self [of "\<lambda>t. Outside" t ?m No_time 0 ?m "(\<lambda>t. 0)(t := 1)"]
    by (auto intro: mutex_reachable.step)
  moreover obtain deferred where ub: "Unlock_begin t ?m =
      (0, True, deferred, ?m\<lparr>m_flags := m_flags m0 AND NOT Flag_Deferred, m_owner := None\<rparr>)"
    using assms(2) by (auto simp: Unlock_begin_def mutex_const_defs)
  let ?m1 = "?m\<lparr>m_flags := m_flags m0 AND NOT Flag_Deferred, m_owner := None\<rparr>"
  have "mutex_step (?m, \<lambda>t. Outside, (\<lambda>t. 0)(t := 2)) t (?m1, (\<lambda>t. Outside)(t := Releasing None), (\<lambda>t. 0)(t := 1))"
    using mutex_step.unlock_begin [OF _ ub, of "\<lambda>t. Outside" "(\<lambda>t. 0)(t := 2)"] by simp
  ultimately have "mutex_reachable m0 (?m1, (\<lambda>t. Outside)(t := Releasing None), (\<lambda>t. 0)(t := 1))"
    by (rule mutex_reachable.step)
  moreover have "lock_unlock t ?m1 = Some (?m1\<lparr>m_lock := None\<rparr>)" by (simp add: lock_unlock_def)
  then have "mutex_step (?m1, (\<lambda>t. Outside)(t := Releasing None), (\<lambda>t. 0)(t := 1)) t
      (?m1\<lparr>m_lock := None\<rparr>, \<lambda>t. Outside, (\<lambda>t. 0)(t := 1))"
    using mutex_step.release [of "(\<lambda>t. Outside)(t := Releasing None)" t ?m1] by (simp add: fun_upd_idem)
  ultimately have "mutex_reachable m0 (?m1\<lparr>m_lock := None\<rparr>, \<lambda>t. Outside, (\<lambda>t. 0)(t := 1))"
    by (rule mutex_reachable.step)
  then have "mutex_reachable m0 (?m1\<lparr>m_lock := Some u, m_owner := Some u\<rparr>, \<lambda>t. Outside, (\<lambda>t. 0)(t := 1, u := 1))"
    using trylock_reachable [of m0 "?m1\<lparr>m_lock := None\<rparr>" "\<lambda>t. Outside" "(\<lambda>t. 0)(t := 1)" u] assms(3) by simp
  then show ?thesis using assms(3) by (intro exI conjI) auto
qed
theorem normal_mutex_shared_witness:
  "\<exists>m ts h. mutex_reachable \<lparr>m_owner = None, m_count = 0, m_spinloops = 0, m_yieldloops = 0, m_protocol = 0,
     m_flags = 3, m_lock = None, mutex_name = ''n''\<rparr> (m, ts, h) \<and> 0 < h 1 \<and> 0 < h 2"
  by (rule normal_mutex_shared [of "Some \<lparr>ma_type = 3, ma_protocol = 0, ma_ceiling = 0\<rparr>" "''n''"])
     (simp_all add: MutexInit_def mutex_type_def mutex_const_defs)

text \<open>
  A destroyed mutex is refused by unlocking and by destroying it again, but locking it makes a new
  mutex of the default type.
\<close>

lemma destroyed_mutex_locks:
  assumes "heap a = Some m" "m_owner m = None"
  shows "posix_pthread_mutex_destroy (MutexAt a) heap = Some (0, THR_MUTEX_DESTROYED, heap(a := None))"
    "posix_pthread_mutex_destroy THR_MUTEX_DESTROYED heap = Some (POSIX_EINVAL, THR_MUTEX_DESTROYED, heap)"
    "posix_pthread_mutex_unlock t w THR_MUTEX_DESTROYED heap = Some (POSIX_EINVAL, False, heap)"
    "\<exists>m. posix_pthread_mutex_trylock t fresh name THR_MUTEX_DESTROYED heap = Some (0, MutexAt fresh, heap(fresh \<mapsto> m)) \<and>
      m_owner m = Some t \<and> mutex_type m = Mutex_ErrorCheck"
  using assms
  by (auto simp: posix_pthread_mutex_destroy_def posix_pthread_mutex_unlock_def posix_pthread_mutex_trylock_def
      check_and_init_mutex_def Mutex_InitStatic_def mutex_create_def MutexInit_def PthreadMutexattrDefault_def
      TryLock_def mutex_type_def mutex_const_defs Let_def word_le_nat_alt)

text \<open>A call that locks a free mutex and one that unlocks it leave it as it was.\<close>

lemma TryLock_Unlock:
  assumes "m_owner m = None" "m_lock m = None" "m_count m = 0" "m_flags m AND Flag_Deferred = 0"
  shows "\<exists>m'. TryLock t m = Some (0, m') \<and> Mutex_Unlock t w m' = Some (0, False, m)"
proof -
  have "m_flags m AND NOT Flag_Deferred = m_flags m"
  proof (rule bit_eqI)
    fix n
    have "bit (m_flags m AND Flag_Deferred) n = bit (0 :: u32) n" using assms(4) by simp
    then show "bit (m_flags m AND NOT Flag_Deferred) n = bit (m_flags m) n"
      using bit_imp_le_length [of "m_flags m" n] by (auto simp: bit_and_iff bit_not_iff)
  qed
  then show ?thesis using assms
    by (auto simp: TryLock_def Mutex_Unlock_def Unlock_begin_def lock_unlock_def)
qed

end
