(* ===== verification/Rwlock.thy ===== *)
theory Rwlock
  imports Pthread_Mutex "HOL-Library.Multiset"
begin

section \<open>Read-write locks\<close>

text \<open>
  \<^verbatim>\<open>SharedFirstMutex\<close> of \<^verbatim>\<open>common/shared_first_mutex.h\<close> and the locks the thread library builds on it
  in \<^verbatim>\<open>core/libraries/kernel/threads/rwlock.cpp\<close>.  A method of \<^verbatim>\<open>SharedFirstMutex\<close> runs under its own
  mutex and is one step; a call of the library is split where other threads can run.  Counters of
  locks are integers: fewer than \<open>2 ^ 31\<close> read locks are held at a time.
\<close>

subsection \<open>The code\<close>

record SharedFirstMutex =
  readers :: int
  writer_active :: bool

definition try_lock :: "SharedFirstMutex \<Rightarrow> SharedFirstMutex option" where
  "try_lock l = (if writer_active l \<or> readers l > 0 then None else Some (l\<lparr>writer_active := True\<rparr>))"

definition write_ready :: "SharedFirstMutex \<Rightarrow> bool" where
  "write_ready l \<longleftrightarrow> \<not> writer_active l \<and> readers l = 0"

definition write_take :: "SharedFirstMutex \<Rightarrow> SharedFirstMutex" where
  "write_take l = l\<lparr>writer_active := True\<rparr>"

definition unlock :: "SharedFirstMutex \<Rightarrow> SharedFirstMutex" where
  "unlock l = l\<lparr>writer_active := False\<rparr>"

definition try_lock_shared :: "SharedFirstMutex \<Rightarrow> SharedFirstMutex option" where
  "try_lock_shared l = (if writer_active l then None else Some (l\<lparr>readers := readers l + 1\<rparr>))"

definition read_ready :: "SharedFirstMutex \<Rightarrow> bool" where
  "read_ready l \<longleftrightarrow> \<not> writer_active l"

definition read_take :: "SharedFirstMutex \<Rightarrow> SharedFirstMutex" where
  "read_take l = l\<lparr>readers := readers l + 1\<rparr>"

text \<open>The new lock and whether waiters are notified.\<close>

definition unlock_shared :: "SharedFirstMutex \<Rightarrow> SharedFirstMutex \<times> bool" where
  "unlock_shared l = (l\<lparr>readers := readers l - 1\<rparr>, readers l - 1 = 0)"

record PthreadRwlock =
  rw_lock :: SharedFirstMutex
  rw_owner :: "nat option"

record PthreadRwlockAttr =
  ra_pshared :: s32
  ra_type :: s32

definition PthreadRwlock_new :: PthreadRwlock where
  "PthreadRwlock_new = \<lparr>rw_lock = \<lparr>readers = 0, writer_active = False\<rparr>, rw_owner = None\<rparr>"

text \<open>
  \<^verbatim>\<open>posix_pthread_rwlock_unlock\<close> up to \<^verbatim>\<open>lock.unlock()\<close>: whether the write lock is still to be given
  up, the change of the thread's \<^verbatim>\<open>rdlock_count\<close> and the lock.
\<close>

definition rw_unlock_begin :: "nat \<Rightarrow> PthreadRwlock \<Rightarrow> bool \<times> int \<times> PthreadRwlock" where
  "rw_unlock_begin curthread l =
     (if rw_owner l = Some curthread then (True, 0, l\<lparr>rw_owner := None\<rparr>)
      else (False, if rw_owner l = None then - 1 else 0, l\<lparr>rw_lock := fst (unlock_shared (rw_lock l))\<rparr>))"

subsection \<open>Calls on a lock variable and on attributes\<close>

datatype PthreadRwlockT = THR_RWLOCK_INITIALIZER | THR_RWLOCK_DESTROYED | RwlockAt nat

type_synonym rwlock_heap = "nat \<Rightarrow> PthreadRwlock option"

definition FW_450 :: u32 where "FW_450 = 0x4500000"

definition RwlockInit :: "nat \<Rightarrow> s32 \<Rightarrow> PthreadRwlockAttr option \<Rightarrow> PthreadRwlockT \<Rightarrow> rwlock_heap
    \<Rightarrow> s32 \<times> PthreadRwlockT \<times> rwlock_heap" where
  "RwlockInit fresh sdk_version attr rwlock heap =
     (if attr \<noteq> None \<and> sdk_version \<ge> FW_450 \<and> sint (ra_type (the attr)) > 2
      then (POSIX_EINVAL, rwlock, heap)
      else (0, RwlockAt fresh, heap(fresh \<mapsto> PthreadRwlock_new)))"

definition posix_pthread_rwlock_init :: "nat \<Rightarrow> s32 \<Rightarrow> PthreadRwlockAttr option \<Rightarrow> rwlock_heap
    \<Rightarrow> s32 \<times> PthreadRwlockT \<times> rwlock_heap" where
  "posix_pthread_rwlock_init fresh sdk_version attr heap = RwlockInit fresh sdk_version attr THR_RWLOCK_INITIALIZER heap"

definition posix_pthread_rwlock_destroy :: "PthreadRwlockT \<Rightarrow> rwlock_heap \<Rightarrow> s32 \<times> PthreadRwlockT \<times> rwlock_heap" where
  "posix_pthread_rwlock_destroy rwlock heap =
     (case rwlock of
        THR_RWLOCK_INITIALIZER \<Rightarrow> (0, rwlock, heap)
      | THR_RWLOCK_DESTROYED \<Rightarrow> (POSIX_EINVAL, rwlock, heap)
      | RwlockAt a \<Rightarrow> (0, THR_RWLOCK_DESTROYED, heap(a := None)))"

definition Rwlock_InitStatic :: "nat \<Rightarrow> PthreadRwlockT \<Rightarrow> rwlock_heap \<Rightarrow> PthreadRwlockT \<times> rwlock_heap" where
  "Rwlock_InitStatic fresh rwlock heap =
     (if rwlock = THR_RWLOCK_INITIALIZER then (RwlockAt fresh, heap(fresh \<mapsto> PthreadRwlock_new)) else (rwlock, heap))"

text \<open>\<^verbatim>\<open>CHECK_AND_INIT_RWLOCK\<close>: the error, or the variable and the heap behind it.\<close>

definition check_and_init_rwlock :: "nat \<Rightarrow> PthreadRwlockT \<Rightarrow> rwlock_heap \<Rightarrow> s32 + PthreadRwlockT \<times> rwlock_heap" where
  "check_and_init_rwlock fresh rwlock heap =
     (if rwlock = THR_RWLOCK_DESTROYED then Inl POSIX_EINVAL else Inr (Rwlock_InitStatic fresh rwlock heap))"

definition posix_pthread_rwlock_tryrdlock :: "nat \<Rightarrow> PthreadRwlockT \<Rightarrow> rwlock_heap
    \<Rightarrow> (s32 \<times> int \<times> PthreadRwlockT \<times> rwlock_heap) option" where
  "posix_pthread_rwlock_tryrdlock fresh rwlock heap =
     (case check_and_init_rwlock fresh rwlock heap of
        Inl ret \<Rightarrow> Some (ret, 0, rwlock, heap)
      | Inr (RwlockAt a, heap) \<Rightarrow>
          do {
            l \<leftarrow> heap a;
            Some (case try_lock_shared (rw_lock l) of
                    None \<Rightarrow> (POSIX_EBUSY, 0, RwlockAt a, heap)
                  | Some l' \<Rightarrow> (0, 1, RwlockAt a, heap(a \<mapsto> l\<lparr>rw_lock := l'\<rparr>)))
          }
      | Inr _ \<Rightarrow> None)"

definition posix_pthread_rwlock_trywrlock :: "nat \<Rightarrow> nat \<Rightarrow> PthreadRwlockT \<Rightarrow> rwlock_heap
    \<Rightarrow> (s32 \<times> PthreadRwlockT \<times> rwlock_heap) option" where
  "posix_pthread_rwlock_trywrlock curthread fresh rwlock heap =
     (case check_and_init_rwlock fresh rwlock heap of
        Inl ret \<Rightarrow> Some (ret, rwlock, heap)
      | Inr (RwlockAt a, heap) \<Rightarrow>
          do {
            l \<leftarrow> heap a;
            Some (case try_lock (rw_lock l) of
                    None \<Rightarrow> (POSIX_EBUSY, RwlockAt a, heap)
                  | Some l' \<Rightarrow> (0, RwlockAt a, heap(a \<mapsto> l\<lparr>rw_lock := l', rw_owner := Some curthread\<rparr>)))
          }
      | Inr _ \<Rightarrow> None)"

text \<open>The result, the change of \<^verbatim>\<open>rdlock_count\<close> and the heap.\<close>

definition posix_pthread_rwlock_unlock :: "nat \<Rightarrow> PthreadRwlockT \<Rightarrow> rwlock_heap \<Rightarrow> (s32 \<times> int \<times> rwlock_heap) option" where
  "posix_pthread_rwlock_unlock curthread rwlock heap =
     (case rwlock of
        RwlockAt a \<Rightarrow>
          do {
            l \<leftarrow> heap a;
            let (release, n, l) = rw_unlock_begin curthread l;
            Some (0, n, heap(a \<mapsto> (if release then l\<lparr>rw_lock := unlock (rw_lock l)\<rparr> else l)))
          }
      | _ \<Rightarrow> Some (POSIX_EINVAL, 0, heap))"

text \<open>As for mutexes, \<open>None\<close> is a null variable and \<open>Some None\<close> one that holds null.\<close>

type_synonym rwlock_attr = "PthreadRwlockAttr option option"

definition posix_pthread_rwlockattr_init :: "rwlock_attr \<Rightarrow> s32 \<times> rwlock_attr" where
  "posix_pthread_rwlockattr_init rwlockattr =
     (if rwlockattr = None then (POSIX_EINVAL, rwlockattr) else (0, Some (Some \<lparr>ra_pshared = 0, ra_type = 0\<rparr>)))"

text \<open>The variable keeps the address of the attribute that is no more.\<close>

definition posix_pthread_rwlockattr_destroy :: "rwlock_attr \<Rightarrow> s32" where
  "posix_pthread_rwlockattr_destroy rwlockattr = (case rwlockattr of Some (Some a) \<Rightarrow> 0 | _ \<Rightarrow> POSIX_EINVAL)"

definition posix_pthread_rwlockattr_getpshared :: "rwlock_attr \<Rightarrow> s32 option" where
  "posix_pthread_rwlockattr_getpshared rwlockattr =
     (case rwlockattr of Some (Some a) \<Rightarrow> Some (ra_pshared a) | _ \<Rightarrow> None)"

definition posix_pthread_rwlockattr_gettype_np :: "rwlock_attr \<Rightarrow> s32 + s32" where
  "posix_pthread_rwlockattr_gettype_np rwlockattr =
     (case rwlockattr of
        Some (Some a) \<Rightarrow> (if sint (ra_type a) > 2 then Inl POSIX_EINVAL else Inr (ra_type a))
      | _ \<Rightarrow> Inl POSIX_EINVAL)"

definition posix_pthread_rwlockattr_settype_np :: "s32 \<Rightarrow> rwlock_attr \<Rightarrow> s32 \<times> rwlock_attr" where
  "posix_pthread_rwlockattr_settype_np ty rwlockattr =
     (case rwlockattr of
        Some (Some a) \<Rightarrow> (if sint (ra_type a) > 2 then (POSIX_EINVAL, rwlockattr)
                          else (0, Some (Some (a\<lparr>ra_type := ty\<rparr>))))
      | _ \<Rightarrow> (POSIX_EINVAL, rwlockattr))"

definition posix_pthread_rwlockattr_setpshared :: "s32 \<Rightarrow> rwlock_attr \<Rightarrow> (s32 \<times> rwlock_attr) option" where
  "posix_pthread_rwlockattr_setpshared pshared rwlockattr =
     (if pshared \<noteq> 0 then Some (POSIX_EINVAL, rwlockattr)
      else case rwlockattr of
             Some (Some a) \<Rightarrow> Some (0, Some (Some (a\<lparr>ra_pshared := pshared\<rparr>)))
           | _ \<Rightarrow> None)"

text \<open>
  The check looks at the type the attribute has, not at the new one: any type can be set, and no
  type can be set or read after one above 2.
\<close>

lemma settype_checks_old:
  "sint (ra_type a) \<le> 2 \<Longrightarrow> posix_pthread_rwlockattr_settype_np ty (Some (Some a)) = (0, Some (Some (a\<lparr>ra_type := ty\<rparr>)))"
  "2 < sint ty \<Longrightarrow> posix_pthread_rwlockattr_settype_np ty' (Some (Some (a\<lparr>ra_type := ty\<rparr>))) =
     (POSIX_EINVAL, Some (Some (a\<lparr>ra_type := ty\<rparr>)))"
  by (simp_all add: posix_pthread_rwlockattr_settype_np_def)

subsection \<open>Threads\<close>

text \<open>
  Where a thread is in \<^verbatim>\<open>Rdlock\<close>, \<^verbatim>\<open>Wrlock\<close>, their \<^verbatim>\<open>try\<close> variants and \<^verbatim>\<open>unlock\<close>; a variant that does
  not wait goes back outside where the other one waits.
\<close>

datatype rw_thread = Rw_outside | Read_wait "OrbisKernelTimespec option" | Write_wait "OrbisKernelTimespec option"
  | Write_got | Write_release

text \<open>
  The state: the lock, the threads, their \<^verbatim>\<open>rdlock_count\<close>, and who holds a read lock.  With
  \<open>orderly\<close>, a thread only unlocks a lock it holds.
\<close>

type_synonym rw_state = "PthreadRwlock \<times> (nat \<Rightarrow> rw_thread) \<times> (nat \<Rightarrow> int) \<times> nat multiset"

inductive rw_step :: "bool \<Rightarrow> rw_state \<Rightarrow> nat \<Rightarrow> rw_state \<Rightarrow> bool" for orderly where
  rd_try: "ts t = Rw_outside \<Longrightarrow> try_lock_shared (rw_lock l) = Some l' \<Longrightarrow>
    rw_step orderly (l, ts, n, R) t (l\<lparr>rw_lock := l'\<rparr>, ts, n(t := n t + 1), add_mset t R)"
| rd_refused: "ts t = Rw_outside \<Longrightarrow> try_lock_shared (rw_lock l) = None \<Longrightarrow>
    rw_step orderly (l, ts, n, R) t (l, ts(t := Read_wait abstime), n, R)"
| rd_invalid: "ts t = Read_wait (Some ts') \<Longrightarrow> bad_nsec ts' \<Longrightarrow>
    rw_step orderly (l, ts, n, R) t (l, ts(t := Rw_outside), n, R)"
| rd_wait: "ts t = Read_wait abstime \<Longrightarrow> (\<forall>ts'. abstime = Some ts' \<longrightarrow> \<not> bad_nsec ts') \<Longrightarrow> read_ready (rw_lock l) \<Longrightarrow>
    rw_step orderly (l, ts, n, R) t
      (l\<lparr>rw_lock := read_take (rw_lock l)\<rparr>, ts(t := Rw_outside), n(t := n t + 1), add_mset t R)"
| rd_expires: "ts t = Read_wait (Some ts') \<Longrightarrow>
    rw_step orderly (l, ts, n, R) t (l, ts(t := Rw_outside), n, R)"
| wr_try: "ts t = Rw_outside \<Longrightarrow> try_lock (rw_lock l) = Some l' \<Longrightarrow>
    rw_step orderly (l, ts, n, R) t (l\<lparr>rw_lock := l'\<rparr>, ts(t := Write_got), n, R)"
| wr_refused: "ts t = Rw_outside \<Longrightarrow> try_lock (rw_lock l) = None \<Longrightarrow>
    rw_step orderly (l, ts, n, R) t (l, ts(t := Write_wait abstime), n, R)"
| wr_invalid: "ts t = Write_wait (Some ts') \<Longrightarrow> bad_nsec ts' \<Longrightarrow>
    rw_step orderly (l, ts, n, R) t (l, ts(t := Rw_outside), n, R)"
| wr_wait: "ts t = Write_wait abstime \<Longrightarrow> (\<forall>ts'. abstime = Some ts' \<longrightarrow> \<not> bad_nsec ts') \<Longrightarrow> write_ready (rw_lock l) \<Longrightarrow>
    rw_step orderly (l, ts, n, R) t (l\<lparr>rw_lock := write_take (rw_lock l)\<rparr>, ts(t := Write_got), n, R)"
| wr_expires: "ts t = Write_wait (Some ts') \<Longrightarrow>
    rw_step orderly (l, ts, n, R) t (l, ts(t := Rw_outside), n, R)"
| wr_got: "ts t = Write_got \<Longrightarrow> rw_step orderly (l, ts, n, R) t (l\<lparr>rw_owner := Some t\<rparr>, ts(t := Rw_outside), n, R)"
| unlock_write: "ts t = Rw_outside \<Longrightarrow> rw_unlock_begin t l = (True, k, l') \<Longrightarrow>
    rw_step orderly (l, ts, n, R) t (l', ts(t := Write_release), n, R)"
| unlock_end: "ts t = Write_release \<Longrightarrow>
    rw_step orderly (l, ts, n, R) t (l\<lparr>rw_lock := unlock (rw_lock l)\<rparr>, ts(t := Rw_outside), n, R)"
| unlock_read: "ts t = Rw_outside \<Longrightarrow> rw_unlock_begin t l = (False, k, l') \<Longrightarrow> orderly \<longrightarrow> t \<in># R \<Longrightarrow>
    rw_step orderly (l, ts, n, R) t (l', ts, n(t := n t + k), R - {#t#})"

inductive rw_reachable :: "bool \<Rightarrow> rw_state \<Rightarrow> bool" for orderly where
  init: "rw_reachable orderly (PthreadRwlock_new, \<lambda>t. Rw_outside, \<lambda>t. 0, {#})"
| step: "rw_reachable orderly s \<Longrightarrow> rw_step orderly s t s' \<Longrightarrow> rw_reachable orderly s'"

text \<open>The threads that have the write lock, from taking the host's lock to giving it up.\<close>

definition writing :: "PthreadRwlock \<Rightarrow> (nat \<Rightarrow> rw_thread) \<Rightarrow> nat set" where
  "writing l ts = {t. rw_owner l = Some t \<or> ts t = Write_got \<or> ts t = Write_release}"

definition rw_inv :: "rw_state \<Rightarrow> bool" where
  "rw_inv s = (case s of (l, ts, n, R) \<Rightarrow>
     readers (rw_lock l) = int (size R) \<and> (\<forall>t. n t = int (count R t)) \<and>
     (if writer_active (rw_lock l) then R = {#} \<and> (\<exists>t. writing l ts = {t}) else writing l ts = {}) \<and>
     (\<forall>t. rw_owner l = Some t \<longrightarrow> ts t \<noteq> Write_got \<and> ts t \<noteq> Write_release))"

lemma writing_move [simp]:
  "ts t \<noteq> Write_got \<Longrightarrow> ts t \<noteq> Write_release \<Longrightarrow> p \<noteq> Write_got \<Longrightarrow> p \<noteq> Write_release \<Longrightarrow>
   writing l (ts(t := p)) = writing l ts"
  by (auto simp: writing_def)

lemma writing_lock [simp]: "writing (l\<lparr>rw_lock := x\<rparr>) ts = writing l ts"
  by (simp add: writing_def)

lemma rw_inv_writer:
  assumes "rw_inv (l, ts, n, R)" "rw_owner l = Some t \<or> ts t = Write_got \<or> ts t = Write_release"
  shows "writing l ts = {t}" "writer_active (rw_lock l)" "R = {#}"
    "\<And>u. rw_owner l = Some u \<or> ts u = Write_got \<or> ts u = Write_release \<longleftrightarrow> u = t"
proof -
  have t: "t \<in> writing l ts" using assms(2) by (simp add: writing_def)
  then show w: "writing l ts = {t}" "writer_active (rw_lock l)" "R = {#}"
    using assms(1) by (auto simp: rw_inv_def split: if_splits)
  show "rw_owner l = Some u \<or> ts u = Write_got \<or> ts u = Write_release \<longleftrightarrow> u = t" for u
    using w(1) unfolding writing_def by blast
qed

lemma rw_step_inv:
  assumes "rw_step True s t s'" "rw_inv s"
  shows "rw_inv s'"
  using assms
proof (induction rule: rw_step.induct)
  case (wr_try ts t l l' n R)
  have o: "writing l ts = {}" "R = {#}" "l' = write_take (rw_lock l)"
    using wr_try by (auto simp: rw_inv_def try_lock_def write_take_def split: if_splits)
  then have "writing l (ts(t := Write_got)) = {t}" by (auto simp: writing_def)
  moreover have "rw_owner l = None" using o(1) by (cases "rw_owner l") (auto simp: writing_def)
  ultimately show ?case using wr_try.prems o by (simp add: rw_inv_def write_take_def)
next
  case (wr_wait ts t abstime l n R)
  have o: "writing l ts = {}" "R = {#}"
    using wr_wait by (auto simp: rw_inv_def write_ready_def split: if_splits)
  then have "writing l (ts(t := Write_got)) = {t}" by (auto simp: writing_def)
  moreover have "rw_owner l = None" using o(1) by (cases "rw_owner l") (auto simp: writing_def)
  ultimately show ?case using wr_wait.prems o by (simp add: rw_inv_def write_take_def)
next
  case (wr_got ts t l n R)
  note o = rw_inv_writer [OF wr_got.prems, of t]
  have "writing (l\<lparr>rw_owner := Some t\<rparr>) (ts(t := Rw_outside)) = {t}"
    using o(4) wr_got.hyps by (auto simp: writing_def)
  then show ?case using wr_got o by (simp add: rw_inv_def)
next
  case (unlock_write ts t l k l' n R)
  have l': "l' = l\<lparr>rw_owner := None\<rparr>" "rw_owner l = Some t"
    using unlock_write by (auto simp: rw_unlock_begin_def split: if_splits)
  note o = rw_inv_writer [OF unlock_write.prems, of t]
  have "writing l' (ts(t := Write_release)) = {t}" using o(4) l' by (auto simp: writing_def)
  then show ?case using unlock_write.prems unlock_write.hyps(1) o l' by (simp add: rw_inv_def)
next
  case (unlock_end ts t l n R)
  note o = rw_inv_writer [OF unlock_end.prems, of t]
  have "rw_owner l \<noteq> Some u" for u using o(4) [of u] unlock_end by (auto simp: rw_inv_def)
  then have "writing l (ts(t := Rw_outside)) = {}" using o(4) unlock_end.hyps by (auto simp: writing_def)
  then show ?case using unlock_end o \<open>\<And>u. rw_owner l \<noteq> Some u\<close> by (simp add: rw_inv_def unlock_def)
next
  case (unlock_read ts t l k l' R n)
  have R: "t \<in># R" using unlock_read by simp
  then have o: "\<not> writer_active (rw_lock l)" "writing l ts = {}"
    using unlock_read.prems by (auto simp: rw_inv_def split: if_splits)
  then have "rw_owner l = None" by (cases "rw_owner l") (auto simp: writing_def)
  then have "k = - 1" "l' = l\<lparr>rw_lock := fst (unlock_shared (rw_lock l))\<rparr>"
    using unlock_read.hyps(2) by (auto simp: rw_unlock_begin_def)
  moreover have "int (size (R - {#t#})) = int (size R) - 1" "int (count R t - 1) = int (count R t) - 1"
    using R by (simp_all add: size_Diff_singleton of_nat_diff Suc_leI nonempty_has_size [symmetric])
       (metis count_greater_zero_iff nonempty_has_size of_nat_diff One_nat_def Suc_leI empty_not_add_mset multi_member_split of_nat_1)
  ultimately show ?case using unlock_read.prems o by (simp add: rw_inv_def unlock_shared_def)
qed (auto simp: rw_inv_def try_lock_shared_def read_take_def read_ready_def split: if_splits)
lemma rw_reachable_inv: "rw_reachable True s \<Longrightarrow> rw_inv s"
proof (induction rule: rw_reachable.induct)
  case init
  show ?case by (simp add: rw_inv_def PthreadRwlock_new_def writing_def)
next
  case (step s t s')
  then show ?case using rw_step_inv by blast
qed

subsection \<open>Theorems\<close>

text \<open>
  C31: readers and writers exclude each other.  As long as threads only unlock what they hold, in every
  interleaving of the calls the counter of readers is their number, no thread reads while one writes,
  and one thread writes at most.
\<close>

theorem rwlock_exclusion:
  assumes "rw_reachable True (l, ts, n, R)"
  shows "readers (rw_lock l) = int (size R) \<and> (\<forall>t. n t = int (count R t)) \<and>
    (writing l ts = {} \<or> (\<exists>t. writing l ts = {t} \<and> R = {#}))"
  using rw_reachable_inv [OF assms] by (auto simp: rw_inv_def split: if_splits)

lemma rw_reader: "rw_reachable b (PthreadRwlock_new\<lparr>rw_lock := \<lparr>readers = 1, writer_active = False\<rparr>\<rparr>,
    \<lambda>t. Rw_outside, (\<lambda>t. 0)(1 := 1), {#1#})"
proof -
  have "rw_step b (PthreadRwlock_new, \<lambda>t. Rw_outside, \<lambda>t. 0, {#}) 1
      (PthreadRwlock_new\<lparr>rw_lock := \<lparr>readers = 1, writer_active = False\<rparr>\<rparr>, \<lambda>t. Rw_outside, (\<lambda>t. 0)(1 := 0 + 1), add_mset 1 {#})"
    by (rule rw_step.rd_try) (simp_all add: PthreadRwlock_new_def try_lock_shared_def)
  with rw_reachable.init show ?thesis using rw_reachable.step by fastforce
qed

theorem rwlock_exclusion_witness:
  "writing (PthreadRwlock_new\<lparr>rw_lock := \<lparr>readers = 1, writer_active = False\<rparr>\<rparr>) (\<lambda>t. Rw_outside) = {}"
  using rwlock_exclusion [OF rw_reader] by auto

text \<open>
  Nothing checks that an unlock belongs to a lock.  Unlocking a free lock succeeds and counts one
  reader too few; a reader then goes uncounted, and a writer gets the lock while it reads.
\<close>

theorem stray_unlock_breaks_exclusion:
  "\<exists>l ts n R. rw_reachable False (l, ts, n, R) \<and> 1 \<in># R \<and> 2 \<in> writing l ts"
proof -
  let ?l = "\<lambda>k w. PthreadRwlock_new\<lparr>rw_lock := \<lparr>readers = k, writer_active = w\<rparr>\<rparr>"
  let ?O = "\<lambda>t :: nat. Rw_outside"
  let ?n3 = "(\<lambda>t :: nat. 0 :: int)(3 := 0 + (- 1))"
  have "rw_step False (PthreadRwlock_new, ?O, \<lambda>t. 0, {#}) 3 (?l (- 1) False, ?O, ?n3, {#} - {#3#})"
    by (rule rw_step.unlock_read) (simp_all add: PthreadRwlock_new_def rw_unlock_begin_def unlock_shared_def)
  with rw_reachable.init have "rw_reachable False (?l (- 1) False, ?O, ?n3, {#} - {#3#})"
    by (rule rw_reachable.step)
  moreover have "?l 0 False = (?l (- 1) False)\<lparr>rw_lock := \<lparr>readers = 0, writer_active = False\<rparr>\<rparr>" by simp
  then have "rw_step False (?l (- 1) False, ?O, ?n3, {#} - {#3#}) 1
      (?l 0 False, ?O, ?n3(1 := ?n3 1 + 1), add_mset 1 ({#} - {#3#}))"
    by (simp only:) (rule rw_step.rd_try, simp_all add: try_lock_shared_def PthreadRwlock_new_def)
  ultimately have "rw_reachable False
      (?l 0 False, ?O, ?n3(1 := ?n3 1 + 1), add_mset 1 ({#} - {#3#}))"
    (is "rw_reachable False (_, _, ?n, ?R)") by (rule rw_reachable.step)
  moreover have "rw_step False (?l 0 False, ?O, ?n, ?R) 2 (?l 0 True, ?O(2 := Write_got), ?n, ?R)"
    using rw_step.wr_try [of ?O 2 "?l 0 False" "\<lparr>readers = 0, writer_active = True\<rparr>"]
    by (simp add: try_lock_def PthreadRwlock_new_def)
  ultimately have "rw_reachable False (?l 0 True, ?O(2 := Write_got), ?n, ?R)" by (rule rw_reachable.step)
  then show ?thesis by (intro exI conjI) (auto simp: writing_def)
qed

end
