(* ===== verification/Sleep_Queue.thy ===== *)
theory Sleep_Queue
  imports Prelude
begin

section \<open>Sleep queues\<close>

text \<open>
  \<^verbatim>\<open>core/libraries/kernel/threads/sleepq.cpp\<close>: the threads that sleep on a wait channel.  Every
  thread brings a queue of its own.  The first thread to sleep on a channel lends its queue to the
  channel, which is linked into a hash table; the queues of later ones are kept in its free list.  A
  thread that is woken takes one of the channel's queues with it, the last one the linked one.

  Queues and threads are known by numbers; the spin lock of a chain makes each operation one step.
  The specification is a list of threads for each channel, the last one to sleep first.
\<close>

subsection \<open>The code\<close>

record SleepQueue =
  sq_blocked :: "nat list"
  sq_freeq :: "nat list"
  sq_wchan :: u64

text \<open>The table of chains, the queues, and of each thread its queue and its wait channel.\<close>

record sleepq_state =
  sc_queues :: "u32 \<Rightarrow> nat list"
  queues :: "nat \<Rightarrow> SleepQueue"
  sleepqueue :: "nat \<Rightarrow> nat option"
  wchan :: "nat \<Rightarrow> u64 option"

definition HASHSHIFT :: nat where "HASHSHIFT = 9"
definition HASHSIZE :: u64 where "HASHSIZE = push_bit HASHSHIFT 1"

definition SC_HASH :: "u64 \<Rightarrow> u32" where
  "SC_HASH w = ucast ((drop_bit 3 w XOR drop_bit (HASHSHIFT + 3) w) AND (HASHSIZE - 1))"

definition SleepqLookup :: "u64 \<Rightarrow> sleepq_state \<Rightarrow> nat option" where
  "SleepqLookup w s = find (\<lambda>q. sq_wchan (queues s q) = w) (sc_queues s (SC_HASH w))"

definition set_queue :: "nat \<Rightarrow> (SleepQueue \<Rightarrow> SleepQueue) \<Rightarrow> sleepq_state \<Rightarrow> sleepq_state" where
  "set_queue q f s = s\<lparr>queues := (queues s)(q := f (queues s q))\<rparr>"

text \<open>A thread without a queue is undefined.\<close>

definition SleepqAdd :: "u64 \<Rightarrow> nat \<Rightarrow> sleepq_state \<Rightarrow> sleepq_state option" where
  "SleepqAdd w td s =
     do {
       own \<leftarrow> sleepqueue s td;
       let (sq, s) =
         (case SleepqLookup w s of
            Some sq \<Rightarrow> (sq, set_queue sq (\<lambda>q. q\<lparr>sq_freeq := own # sq_freeq q\<rparr>) s)
          | None \<Rightarrow> (own, set_queue own (\<lambda>q. q\<lparr>sq_wchan := w\<rparr>)
                      (s\<lparr>sc_queues := (sc_queues s)(SC_HASH w := own # sc_queues s (SC_HASH w))\<rparr>)));
       let s = s\<lparr>sleepqueue := (sleepqueue s)(td := None), wchan := (wchan s)(td := Some w)\<rparr>;
       Some (set_queue sq (\<lambda>q. q\<lparr>sq_blocked := td # sq_blocked q\<rparr>) s)
     }"

text \<open>Taking a queue out of the chain it is linked in.\<close>

definition sq_unlink :: "nat \<Rightarrow> sleepq_state \<Rightarrow> sleepq_state" where
  "sq_unlink sq s = s\<lparr>sc_queues := \<lambda>h. removeAll sq (sc_queues s h)\<rparr>"

text \<open>The result is whether threads still wait; the front of an empty list is undefined.\<close>

definition SleepqRemove :: "nat \<Rightarrow> nat \<Rightarrow> sleepq_state \<Rightarrow> (bool \<times> sleepq_state) option" where
  "SleepqRemove sq td s =
     (let s = set_queue sq (\<lambda>q. q\<lparr>sq_blocked := removeAll td (sq_blocked q)\<rparr>) s
      in if sq_blocked (queues s sq) = [] then
           let s = sq_unlink sq (s\<lparr>sleepqueue := (sleepqueue s)(td := Some sq)\<rparr>)
           in Some (False, s\<lparr>wchan := (wchan s)(td := None)\<rparr>)
         else case sq_freeq (queues s sq) of
             [] \<Rightarrow> None
           | q' # rest \<Rightarrow>
               let s = set_queue sq (\<lambda>q. q\<lparr>sq_freeq := rest\<rparr>) (s\<lparr>sleepqueue := (sleepqueue s)(td := Some q')\<rparr>)
               in Some (True, s\<lparr>wchan := (wchan s)(td := None)\<rparr>))"

text \<open>Giving the threads behind the first one a queue each; there must be enough.\<close>

fun drop_rest :: "nat list \<Rightarrow> nat list \<Rightarrow> sleepq_state \<Rightarrow> sleepq_state option" where
  "drop_rest [] sq2 s = Some s"
| "drop_rest (td2 # tds) [] s = None"
| "drop_rest (td2 # tds) (q # sq2) s =
     drop_rest tds sq2 (s\<lparr>sleepqueue := (sleepqueue s)(td2 := Some q), wchan := (wchan s)(td2 := None)\<rparr>)"

text \<open>The threads the callback is called for, in order.\<close>

definition SleepqDrop :: "nat \<Rightarrow> sleepq_state \<Rightarrow> (nat list \<times> sleepq_state) option" where
  "SleepqDrop sq s =
     (case sq_blocked (queues s sq) of
        [] \<Rightarrow> Some ([], s)
      | td # tds \<Rightarrow>
          do {
            let s1 = sq_unlink sq s;
            let s1 = s1\<lparr>sleepqueue := (sleepqueue s1)(td := Some sq), wchan := (wchan s1)(td := None)\<rparr>;
            s1 \<leftarrow> drop_rest tds (sq_freeq (queues s sq)) s1;
            Some (td # tds, set_queue sq (\<lambda>q. q\<lparr>sq_blocked := [], sq_freeq := []\<rparr>) s1)
          })"

subsection \<open>The invariant\<close>

definition linked_queue :: "sleepq_state \<Rightarrow> nat \<Rightarrow> bool" where
  "linked_queue s q \<longleftrightarrow> q \<in> set (sc_queues s (SC_HASH (sq_wchan (queues s q))))"

text \<open>
  A linked queue is in its own chain once and the only one of its channel.  Its channel has as many
  queues as sleeping threads.  A queue that is not linked is empty; every queue has one place.
\<close>

definition chains_ok :: "sleepq_state \<Rightarrow> bool" where
  "chains_ok s \<longleftrightarrow>
     (\<forall>h q. q \<in> set (sc_queues s h) \<longrightarrow> SC_HASH (sq_wchan (queues s q)) = h) \<and>
     (\<forall>q q'. linked_queue s q \<longrightarrow> linked_queue s q' \<longrightarrow> sq_wchan (queues s q) = sq_wchan (queues s q') \<longrightarrow> q = q')"

definition queues_ok :: "sleepq_state \<Rightarrow> bool" where
  "queues_ok s \<longleftrightarrow>
     (\<forall>q. linked_queue s q \<longrightarrow> distinct (sq_blocked (queues s q)) \<and> distinct (sq_freeq (queues s q)) \<and>
        length (sq_blocked (queues s q)) = Suc (length (sq_freeq (queues s q)))) \<and>
     (\<forall>q. \<not> linked_queue s q \<longrightarrow> sq_blocked (queues s q) = [] \<and> sq_freeq (queues s q) = []) \<and>
     (\<forall>q q'. q' \<in> set (sq_freeq (queues s q)) \<longrightarrow> \<not> linked_queue s q') \<and>
     (\<forall>q p q'. q' \<in> set (sq_freeq (queues s q)) \<longrightarrow> q' \<in> set (sq_freeq (queues s p)) \<longrightarrow> q = p)"

definition threads_ok :: "sleepq_state \<Rightarrow> bool" where
  "threads_ok s \<longleftrightarrow>
     (\<forall>t q. t \<in> set (sq_blocked (queues s q)) \<longrightarrow> wchan s t = Some (sq_wchan (queues s q)) \<and> sleepqueue s t = None) \<and>
     (\<forall>t. sleepqueue s t = None \<longrightarrow> (\<exists>q. t \<in> set (sq_blocked (queues s q)))) \<and>
     (\<forall>t q. sleepqueue s t = Some q \<longrightarrow> wchan s t = None \<and> \<not> linked_queue s q \<and>
        (\<forall>p. q \<notin> set (sq_freeq (queues s p))) \<and> (\<forall>u. sleepqueue s u = Some q \<longrightarrow> u = t))"

definition sleepq_inv :: "sleepq_state \<Rightarrow> bool" where
  "sleepq_inv s \<longleftrightarrow> chains_ok s \<and> queues_ok s \<and> threads_ok s"

text \<open>The threads that sleep on a channel, the last one to come first.\<close>

definition waiters :: "sleepq_state \<Rightarrow> u64 \<Rightarrow> nat list" where
  "waiters s w = (case SleepqLookup w s of None \<Rightarrow> [] | Some q \<Rightarrow> sq_blocked (queues s q))"

lemma lookup_linked:
  assumes "chains_ok s"
  shows "SleepqLookup w s = Some q \<longleftrightarrow> linked_queue s q \<and> sq_wchan (queues s q) = w"
proof
  assume "SleepqLookup w s = Some q"
  then show "linked_queue s q \<and> sq_wchan (queues s q) = w"
    by (auto simp: SleepqLookup_def linked_queue_def find_Some_iff in_set_conv_nth)
next
  assume q: "linked_queue s q \<and> sq_wchan (queues s q) = w"
  then have "SleepqLookup w s \<noteq> None"
    by (auto simp: SleepqLookup_def linked_queue_def find_None_iff)
  then obtain q' where q': "SleepqLookup w s = Some q'" by blast
  then have "linked_queue s q' \<and> sq_wchan (queues s q') = w"
    by (auto simp: SleepqLookup_def linked_queue_def find_Some_iff in_set_conv_nth)
  then have "q' = q" using assms q unfolding chains_ok_def by metis
  then show "SleepqLookup w s = Some q" using q' by simp
qed

lemma lookup_none:
  assumes "chains_ok s"
  shows "SleepqLookup w s = None \<longleftrightarrow> (\<forall>q. linked_queue s q \<longrightarrow> sq_wchan (queues s q) \<noteq> w)"
  using lookup_linked [OF assms, of w] by (metis not_Some_eq)

lemma waiters_eqI:
  assumes "chains_ok s" "chains_ok s'"
    and "\<And>q. linked_queue s' q \<and> sq_wchan (queues s' q) = w \<longleftrightarrow> linked_queue s q \<and> sq_wchan (queues s q) = w"
    and "\<And>q. linked_queue s q \<Longrightarrow> sq_wchan (queues s q) = w \<Longrightarrow> sq_blocked (queues s' q) = sq_blocked (queues s q)"
  shows "waiters s' w = waiters s w"
proof (cases "SleepqLookup w s")
  case None
  then have "SleepqLookup w s' = None" using lookup_none assms by metis
  then show ?thesis using None by (simp add: waiters_def)
next
  case (Some q)
  then have "SleepqLookup w s' = Some q" using lookup_linked assms by metis
  moreover have "sq_blocked (queues s' q) = sq_blocked (queues s q)"
    using Some lookup_linked [OF assms(1)] assms(4) by blast
  ultimately show ?thesis using Some by (simp add: waiters_def)
qed

lemma waiters_of: "chains_ok s \<Longrightarrow> linked_queue s q \<Longrightarrow> waiters s (sq_wchan (queues s q)) = sq_blocked (queues s q)"
  using lookup_linked [of s "sq_wchan (queues s q)" q] by (simp add: waiters_def)
lemmas sleepq_parts = chains_ok_def queues_ok_def threads_ok_def

lemma in_chain_linked: "chains_ok s \<Longrightarrow> q \<in> set (sc_queues s h) \<longleftrightarrow> linked_queue s q \<and> SC_HASH (sq_wchan (queues s q)) = h"
  by (auto simp: chains_ok_def linked_queue_def)

lemma threads_okD:
  assumes "threads_ok s"
  shows "t \<in> set (sq_blocked (queues s q)) \<Longrightarrow> wchan s t = Some (sq_wchan (queues s q)) \<and> sleepqueue s t = None"
    "sleepqueue s t = None \<Longrightarrow> \<exists>q. t \<in> set (sq_blocked (queues s q))"
    "sleepqueue s t = Some q \<Longrightarrow> wchan s t = None \<and> \<not> linked_queue s q"
    "sleepqueue s t = Some q \<Longrightarrow> q \<notin> set (sq_freeq (queues s p))"
    "sleepqueue s t = Some q \<Longrightarrow> sleepqueue s u = Some q \<Longrightarrow> u = t"
  using assms unfolding threads_ok_def by blast+

lemma queues_okD:
  assumes "queues_ok s"
  shows "linked_queue s q \<Longrightarrow> distinct (sq_blocked (queues s q)) \<and> distinct (sq_freeq (queues s q)) \<and>
      length (sq_blocked (queues s q)) = Suc (length (sq_freeq (queues s q)))"
    "\<not> linked_queue s q \<Longrightarrow> sq_blocked (queues s q) = [] \<and> sq_freeq (queues s q) = []"
    "q' \<in> set (sq_freeq (queues s q)) \<Longrightarrow> \<not> linked_queue s q'"
    "q' \<in> set (sq_freeq (queues s q)) \<Longrightarrow> q' \<in> set (sq_freeq (queues s p)) \<Longrightarrow> q = p"
  using assms unfolding queues_ok_def by blast+

lemma SleepqAdd_first:
  "sleepqueue s t = Some own \<Longrightarrow> SleepqLookup w s = None \<Longrightarrow>
   SleepqAdd w t s = Some (s\<lparr>sc_queues := (sc_queues s)(SC_HASH w := own # sc_queues s (SC_HASH w)),
     sleepqueue := (sleepqueue s)(t := None), wchan := (wchan s)(t \<mapsto> w),
     queues := (queues s)(own := (queues s own)\<lparr>sq_wchan := w, sq_blocked := t # sq_blocked (queues s own)\<rparr>)\<rparr>)"
  by (cases s) (simp add: SleepqAdd_def set_queue_def)

lemma SleepqAdd_spec:
  assumes inv: "sleepq_inv s" and t: "wchan s t = None"
  shows "\<exists>s'. SleepqAdd w t s = Some s' \<and> sleepq_inv s' \<and> waiters s' = (waiters s)(w := t # waiters s w) \<and>
    wchan s' = (wchan s)(t \<mapsto> w)"
proof -
  have c: "chains_ok s" and q: "queues_ok s" and th: "threads_ok s" using inv by (simp_all add: sleepq_inv_def)
  note qd = queues_okD [OF q] and td = threads_okD [OF th]
  obtain own where own: "sleepqueue s t = Some own" using td(1,2) t by fastforce
  have ownd: "\<not> linked_queue s own" "\<And>p. own \<notin> set (sq_freeq (queues s p))" "\<And>u. sleepqueue s u = Some own \<Longrightarrow> u = t"
    "sq_blocked (queues s own) = []" "sq_freeq (queues s own) = []"
    using td(3,4,5) own qd(2) by blast+
  have tb: "t \<notin> set (sq_blocked (queues s p))" for p using td(1) own by fastforce
  show ?thesis
  proof (cases "SleepqLookup w s")
    case None
    define s' where "s' = s\<lparr>sc_queues := (sc_queues s)(SC_HASH w := own # sc_queues s (SC_HASH w)),
        sleepqueue := (sleepqueue s)(t := None), wchan := (wchan s)(t \<mapsto> w),
        queues := (queues s)(own := \<lparr>sq_blocked = [t], sq_freeq = [], sq_wchan = w\<rparr>)\<rparr>"
    have e: "(queues s own)\<lparr>sq_wchan := w, sq_blocked := t # sq_blocked (queues s own)\<rparr> =
        \<lparr>sq_blocked = [t], sq_freeq = [], sq_wchan = w\<rparr>"
      using ownd(4,5) by (cases "queues s own") simp
    have add: "SleepqAdd w t s = Some s'"
      using SleepqAdd_first [OF own None] unfolding s'_def e .
    have l: "linked_queue s' p \<longleftrightarrow> p = own \<or> linked_queue s p" for p
      by (cases "p = own") (auto simp: linked_queue_def s'_def)
    have new: "\<And>p. linked_queue s p \<Longrightarrow> sq_wchan (queues s p) \<noteq> w" using None lookup_none [OF c] by blast
    have qs: "queues s' = (queues s)(own := \<lparr>sq_blocked = [t], sq_freeq = [], sq_wchan = w\<rparr>)"
      "sleepqueue s' = (sleepqueue s)(t := None)" "wchan s' = (wchan s)(t \<mapsto> w)" by (simp_all add: s'_def)
    have c': "chains_ok s'"
    proof -
      have "SC_HASH (sq_wchan (queues s' p)) = h" if "p \<in> set (sc_queues s' h)" for p h
        using that ownd(1) in_chain_linked [OF c] by (auto simp: s'_def split: if_splits)
      moreover have "p = p'" if "linked_queue s' p" "linked_queue s' p'" "sq_wchan (queues s' p) = sq_wchan (queues s' p')" for p p'
        using that c new ownd(1) unfolding chains_ok_def l qs by (auto split: if_splits)
      ultimately show ?thesis unfolding chains_ok_def by blast
    qed
    have b: "sq_blocked (queues s' p) = (if p = own then [t] else sq_blocked (queues s p))"
      "sq_freeq (queues s' p) = sq_freeq (queues s p)" for p
      using ownd(5) by (simp_all add: qs)
    have "queues_ok s'"
    proof -
      have "distinct (sq_blocked (queues s' p)) \<and> distinct (sq_freeq (queues s' p)) \<and>
          length (sq_blocked (queues s' p)) = Suc (length (sq_freeq (queues s' p)))" if "linked_queue s' p" for p
        using qd(1) [of p] that ownd(5) by (cases "p = own") (simp_all add: b l)
      moreover have "sq_blocked (queues s' p) = [] \<and> sq_freeq (queues s' p) = []" if "\<not> linked_queue s' p" for p
        using qd(2) [of p] that by (simp add: b l)
      moreover have "\<not> linked_queue s' r" if "r \<in> set (sq_freeq (queues s' p))" for r p
        using qd(3) [of r p] that ownd(2) [of p] by (auto simp: b l)
      moreover have "p = p'" if "r \<in> set (sq_freeq (queues s' p))" "r \<in> set (sq_freeq (queues s' p'))" for r p p'
        using qd(4) [of r p p'] that by (simp add: b)
      ultimately show ?thesis unfolding queues_ok_def by blast
    qed
    moreover have "threads_ok s'"
    proof -
      have "wchan s' u = Some (sq_wchan (queues s' p)) \<and> sleepqueue s' u = None" if "u \<in> set (sq_blocked (queues s' p))" for u p
        using that td(1) [of u p] tb [of p] by (cases "p = own") (auto simp: b qs)
      moreover have "\<exists>p. u \<in> set (sq_blocked (queues s' p))" if u: "sleepqueue s' u = None" for u
      proof (cases "u = t")
        case True
        then show ?thesis by (intro exI [of _ own]) (simp add: b)
      next
        case False
        then obtain p where "u \<in> set (sq_blocked (queues s p))" using u td(2) [of u] by (auto simp: qs)
        moreover from this ownd(4) have "p \<noteq> own" by auto
        ultimately show ?thesis by (intro exI [of _ p]) (simp add: b)
      qed
      moreover have "wchan s' u = None \<and> \<not> linked_queue s' p \<and> (\<forall>p'. p \<notin> set (sq_freeq (queues s' p'))) \<and>
          (\<forall>v. sleepqueue s' v = Some p \<longrightarrow> v = u)" if u: "sleepqueue s' u = Some p" for u p
      proof -
        have "u \<noteq> t" "sleepqueue s u = Some p" using u by (auto simp: qs split: if_splits)
        note o = td(3) [OF this(2)] td(4) [OF this(2)] td(5) [OF this(2)]
        moreover have "p \<noteq> own" using ownd(3) [of u] \<open>u \<noteq> t\<close> \<open>sleepqueue s u = Some p\<close> by auto
        moreover have "v = u" if "sleepqueue s' v = Some p" for v
          using that o(3) [of v] by (simp add: qs split: if_splits)
        ultimately show ?thesis using \<open>u \<noteq> t\<close> by (simp add: b l) (simp add: qs)
      qed
      ultimately show ?thesis unfolding threads_ok_def by blast
    qed
    moreover have "waiters s' w' = ((waiters s)(w := t # waiters s w)) w'" for w'
    proof (cases "w' = w")
      case True
      have "waiters s w = []" using None by (simp add: waiters_def)
      moreover have "waiters s' w = [t]" using waiters_of [OF c', of own] l qs by simp
      ultimately show ?thesis using True by simp
    next
      case False
      then have "waiters s' w' = waiters s w'"
        using ownd(1) by (intro waiters_eqI [OF c c']) (auto simp: l qs)
      then show ?thesis using False by simp
    qed
    ultimately show ?thesis using add qs c' by (auto simp: sleepq_inv_def)
  next
    case (Some sq)
    then have sq: "linked_queue s sq" "sq_wchan (queues s sq) = w" using lookup_linked [OF c] by auto
    have ne: "sq \<noteq> own" using sq ownd by auto
    define s' where "s' = s\<lparr>sleepqueue := (sleepqueue s)(t := None), wchan := (wchan s)(t \<mapsto> w),
        queues := (queues s)(sq := (queues s sq)\<lparr>sq_freeq := own # sq_freeq (queues s sq),
          sq_blocked := t # sq_blocked (queues s sq)\<rparr>)\<rparr>"
    have add: "SleepqAdd w t s = Some s'" using own Some by (simp add: SleepqAdd_def set_queue_def s'_def Let_def)
    have w: "sq_wchan (queues s' p) = sq_wchan (queues s p)" for p by (simp add: s'_def)
    then have l: "linked_queue s' p \<longleftrightarrow> linked_queue s p" for p by (simp add: linked_queue_def s'_def)
    have b: "sq_blocked (queues s' p) = (if p = sq then t # sq_blocked (queues s sq) else sq_blocked (queues s p))"
      "sq_freeq (queues s' p) = (if p = sq then own # sq_freeq (queues s sq) else sq_freeq (queues s p))" for p
      by (simp_all add: s'_def)
    have qs: "sleepqueue s' = (sleepqueue s)(t := None)" "wchan s' = (wchan s)(t \<mapsto> w)" "sc_queues s' = sc_queues s"
      by (simp_all add: s'_def)
    have c': "chains_ok s'" using c unfolding chains_ok_def w l qs(3) .
    moreover have "queues_ok s'" using q ownd sq(1) tb [of sq] unfolding queues_ok_def l b by auto
    moreover have "threads_ok s'"
    proof -
      have "wchan s' u = Some (sq_wchan (queues s' p)) \<and> sleepqueue s' u = None" if "u \<in> set (sq_blocked (queues s' p))" for u p
        using that td(1) [of u p] tb [of p] sq(2) by (cases "u = t") (auto simp: b qs w split: if_splits)
      moreover have "\<exists>p. u \<in> set (sq_blocked (queues s' p))" if "sleepqueue s' u = None" for u
        using that td(2) [of u] by (cases "u = t") (auto simp: b qs)
      moreover have "wchan s' u = None \<and> \<not> linked_queue s' p \<and> (\<forall>p'. p \<notin> set (sq_freeq (queues s' p'))) \<and>
          (\<forall>v. sleepqueue s' v = Some p \<longrightarrow> v = u)" if "sleepqueue s' u = Some p" for u p
      proof -
        have "u \<noteq> t" "sleepqueue s u = Some p" using that by (auto simp: qs split: if_splits)
        note o = td(3) [OF this(2)] td(4) [OF this(2)] td(5) [OF this(2)]
        moreover have "p \<noteq> own" using ownd(3) [of u] \<open>u \<noteq> t\<close> \<open>sleepqueue s u = Some p\<close> by auto
        moreover have "v = u" if "sleepqueue s' v = Some p" for v
          using that o(3) [of v] by (simp add: qs split: if_splits)
        ultimately show ?thesis using \<open>u \<noteq> t\<close> by (simp add: b l) (simp add: qs)
      qed
      ultimately show ?thesis unfolding threads_ok_def by blast
    qed
    moreover have "waiters s' w' = ((waiters s)(w := t # waiters s w)) w'" for w'
    proof (cases "w' = w")
      case True
      then show ?thesis using waiters_of [OF c sq(1)] waiters_of [OF c', of sq] sq by (simp add: l w b)
    next
      case False
      then have "waiters s' w' = waiters s w'" using sq(2) by (intro waiters_eqI [OF c c']) (auto simp: l w b)
      then show ?thesis using False by simp
    qed
    ultimately show ?thesis using add qs by (auto simp: sleepq_inv_def)
  qed
qed
lemma unlinked:
  assumes "chains_ok s" "sc_queues s' = sc_queues (sq_unlink sq s)"
    and "\<And>p. sq_wchan (queues s' p) = sq_wchan (queues s p)"
  shows "linked_queue s' p \<longleftrightarrow> p \<noteq> sq \<and> linked_queue s p" "chains_ok s'"
proof -
  show l: "linked_queue s' p \<longleftrightarrow> p \<noteq> sq \<and> linked_queue s p" for p
    using assms(3) by (auto simp: linked_queue_def assms(2) sq_unlink_def)
  show "chains_ok s'" using assms(1) unfolding chains_ok_def l assms(3) by (simp add: assms(2) sq_unlink_def)
qed

lemma SleepqRemove_spec:
  assumes inv: "sleepq_inv s" and t: "t \<in> set (waiters s w)"
  shows "\<exists>sq b s'. SleepqLookup w s = Some sq \<and> SleepqRemove sq t s = Some (b, s') \<and> sleepq_inv s' \<and>
    waiters s' = (waiters s)(w := remove1 t (waiters s w)) \<and> (b \<longleftrightarrow> waiters s' w \<noteq> []) \<and>
    wchan s' = (wchan s)(t := None)"
proof -
  have c: "chains_ok s" and q: "queues_ok s" and th: "threads_ok s" using inv by (simp_all add: sleepq_inv_def)
  note qd = queues_okD [OF q] and td = threads_okD [OF th]
  obtain sq where lk: "SleepqLookup w s = Some sq"
    using t by (cases "SleepqLookup w s") (auto simp: waiters_def)
  then have sq: "linked_queue s sq" "sq_wchan (queues s sq) = w" using lookup_linked [OF c] by auto
  let ?B = "sq_blocked (queues s sq)"
  have wq: "waiters s w = ?B" using waiters_of [OF c sq(1)] sq(2) by simp
  have tB: "t \<in> set ?B" using t wq by simp
  have B: "distinct ?B" "length ?B = Suc (length (sq_freeq (queues s sq)))" "removeAll t ?B = remove1 t ?B"
    using qd(1) [OF sq(1)] by (auto simp: distinct_remove1_removeAll)
  have tin: "t \<in> set (sq_blocked (queues s p)) \<longleftrightarrow> p = sq" for p
  proof
    assume p: "t \<in> set (sq_blocked (queues s p))"
    then have "linked_queue s p" using qd(2) [of p] by fastforce
    moreover have "sq_wchan (queues s p) = w" using td(1) [OF p] td(1) [OF tB] sq(2) by simp
    ultimately show "p = sq" using c sq unfolding chains_ok_def by metis
  qed (use tB in simp)
  have len: "length (remove1 t ?B) = length (sq_freeq (queues s sq))" using B(2) tB by (simp add: length_remove1)
  have tw: "wchan s t = Some w" "sleepqueue s t = None" using td(1) [OF tB] sq(2) by simp_all
  show ?thesis
  proof (cases "sq_freeq (queues s sq)")
    case Nil
    then have one: "remove1 t ?B = []" using len by simp
    define s' where "s' = s\<lparr>sc_queues := sc_queues (sq_unlink sq s),
        queues := (queues s)(sq := (queues s sq)\<lparr>sq_blocked := []\<rparr>),
        sleepqueue := (sleepqueue s)(t \<mapsto> sq), wchan := (wchan s)(t := None)\<rparr>"
    have r: "SleepqRemove sq t s = Some (False, s')"
      using one B(3) by (simp add: SleepqRemove_def set_queue_def s'_def Let_def sq_unlink_def)
    have w: "sq_wchan (queues s' p) = sq_wchan (queues s p)" for p by (simp add: s'_def)
    have sc: "sc_queues s' = sc_queues (sq_unlink sq s)" by (simp add: s'_def)
    note l = unlinked(1) [OF c sc w] and c' = unlinked(2) [OF c sc w]
    have b: "sq_blocked (queues s' p) = (if p = sq then [] else sq_blocked (queues s p))"
      "sq_freeq (queues s' p) = sq_freeq (queues s p)" for p by (simp_all add: s'_def)
    have qs: "sleepqueue s' = (sleepqueue s)(t \<mapsto> sq)" "wchan s' = (wchan s)(t := None)" by (simp_all add: s'_def)
    have only: "u = t" if "u \<in> set ?B" for u using that one B(1) by (metis in_set_remove1 empty_iff list.set(1))
    have "queues_ok s'" using q Nil unfolding queues_ok_def l b by auto
    moreover have "threads_ok s'"
    proof -
      have "wchan s' u = Some (sq_wchan (queues s' p)) \<and> sleepqueue s' u = None" if "u \<in> set (sq_blocked (queues s' p))" for u p
        using that td(1) [of u p] tin [of p] by (auto simp: b qs w split: if_splits)
      moreover have "\<exists>p. u \<in> set (sq_blocked (queues s' p))" if u: "sleepqueue s' u = None" for u
      proof -
        have "u \<noteq> t" "sleepqueue s u = None" using u by (auto simp: qs split: if_splits)
        then obtain p where "u \<in> set (sq_blocked (queues s p))" using td(2) by blast
        then show ?thesis using only \<open>u \<noteq> t\<close> by (intro exI [of _ p]) (auto simp: b)
      qed
      moreover have "wchan s' u = None \<and> \<not> linked_queue s' p \<and> (\<forall>p'. p \<notin> set (sq_freeq (queues s' p'))) \<and>
          (\<forall>v. sleepqueue s' v = Some p \<longrightarrow> v = u)" if "sleepqueue s' u = Some p" for u p
      proof (cases "u = t")
        case True
        then have "p = sq" using that by (simp add: qs)
        moreover have "sq \<notin> set (sq_freeq (queues s p'))" for p' using qd(3) sq(1) by blast
        moreover have "sleepqueue s v \<noteq> Some sq" for v using td(3) sq(1) by blast
        ultimately show ?thesis using True by (auto simp: b qs l split: if_splits)
      next
        case False
        then have "sleepqueue s u = Some p" using that by (simp add: qs)
        note o = td(3) [OF this] td(4) [OF this] td(5) [OF this]
        then have "p \<noteq> sq" using sq(1) by blast
        moreover have "v = u" if "sleepqueue s' v = Some p" for v
          using that o(3) [of v] \<open>p \<noteq> sq\<close> by (simp add: qs split: if_splits)
        ultimately show ?thesis using False o(1,2) by (simp add: b qs l)
      qed
      ultimately show ?thesis unfolding threads_ok_def by blast
    qed
    moreover have "waiters s' w' = ((waiters s)(w := remove1 t (waiters s w))) w'" for w'
    proof (cases "w' = w")
      case True
      have "SleepqLookup w s' = None" using c sq unfolding lookup_none [OF c'] l w chains_ok_def by metis
      then show ?thesis using True one wq by (simp add: waiters_def)
    next
      case False
      then have "waiters s' w' = waiters s w'" using sq(2) by (intro waiters_eqI [OF c c']) (auto simp: l w b)
      then show ?thesis using False by simp
    qed
    then have "waiters s' = (waiters s)(w := remove1 t (waiters s w))" by blast
    ultimately show ?thesis using lk r c' qs one wq by (auto simp: sleepq_inv_def)
  next
    case (Cons q' rest)
    then have ne: "remove1 t ?B \<noteq> []" using len by auto
    define s' where "s' = s\<lparr>queues := (queues s)(sq := (queues s sq)\<lparr>sq_blocked := remove1 t ?B, sq_freeq := rest\<rparr>),
        sleepqueue := (sleepqueue s)(t \<mapsto> q'), wchan := (wchan s)(t := None)\<rparr>"
    have r: "SleepqRemove sq t s = Some (True, s')"
      using ne B(3) Cons by (simp add: SleepqRemove_def set_queue_def s'_def Let_def)
    have w: "sq_wchan (queues s' p) = sq_wchan (queues s p)" for p by (simp add: s'_def)
    then have l: "linked_queue s' p \<longleftrightarrow> linked_queue s p" for p by (simp add: linked_queue_def s'_def)
    have b: "sq_blocked (queues s' p) = (if p = sq then remove1 t ?B else sq_blocked (queues s p))"
      "sq_freeq (queues s' p) = (if p = sq then rest else sq_freeq (queues s p))" for p
      by (simp_all add: s'_def)
    have qs: "sleepqueue s' = (sleepqueue s)(t \<mapsto> q')" "wchan s' = (wchan s)(t := None)" "sc_queues s' = sc_queues s"
      by (simp_all add: s'_def)
    have q': "q' \<in> set (sq_freeq (queues s sq))" "q' \<notin> set rest" using Cons qd(1) [OF sq(1)] by simp_all
    have c': "chains_ok s'" using c unfolding chains_ok_def w l qs(3) .
    moreover have "queues_ok s'"
    proof -
      have f: "set (sq_freeq (queues s' p)) \<subseteq> set (sq_freeq (queues s p))" for p using Cons by (auto simp: b)
      have "distinct (sq_blocked (queues s' p)) \<and> distinct (sq_freeq (queues s' p)) \<and>
          length (sq_blocked (queues s' p)) = Suc (length (sq_freeq (queues s' p)))" if "linked_queue s' p" for p
        using qd(1) [of p] that B(1) len Cons qd(1) [OF sq(1)] by (auto simp: b l)
      moreover have "sq_blocked (queues s' p) = [] \<and> sq_freeq (queues s' p) = []" if "\<not> linked_queue s' p" for p
        using qd(2) [of p] that sq(1) by (auto simp: b l)
      moreover have "\<not> linked_queue s' r" if "r \<in> set (sq_freeq (queues s' p))" for r p
        using qd(3) [of r p] f that by (auto simp: l)
      moreover have "p = p'" if "r \<in> set (sq_freeq (queues s' p))" "r \<in> set (sq_freeq (queues s' p'))" for r p p'
        using qd(4) [of r p p'] f that by auto
      ultimately show ?thesis unfolding queues_ok_def by blast
    qed
    moreover have "threads_ok s'"
    proof -
      have "wchan s' u = Some (sq_wchan (queues s' p)) \<and> sleepqueue s' u = None" if u: "u \<in> set (sq_blocked (queues s' p))" for u p
      proof -
        have "u \<in> set (sq_blocked (queues s p))" "u \<noteq> t"
          using u B(1) tin [of p] by (auto simp: b split: if_splits dest: in_set_remove1 [THEN iffD1, rotated] notin_set_remove1)
        then show ?thesis using td(1) [of u p] by (simp add: qs w)
      qed
      moreover have "\<exists>p. u \<in> set (sq_blocked (queues s' p))" if u: "sleepqueue s' u = None" for u
      proof -
        have "u \<noteq> t" "sleepqueue s u = None" using u by (auto simp: qs split: if_splits)
        then obtain p where "u \<in> set (sq_blocked (queues s p))" using td(2) by blast
        then show ?thesis using \<open>u \<noteq> t\<close> by (intro exI [of _ p]) (auto simp: b)
      qed
      moreover have "wchan s' u = None \<and> \<not> linked_queue s' p \<and> (\<forall>p'. p \<notin> set (sq_freeq (queues s' p'))) \<and>
          (\<forall>v. sleepqueue s' v = Some p \<longrightarrow> v = u)" if "sleepqueue s' u = Some p" for u p
      proof (cases "u = t")
        case True
        then have "p = q'" using that by (simp add: qs)
        moreover have "q' \<notin> set (sq_freeq (queues s p'))" if "p' \<noteq> sq" for p' using qd(4) q'(1) that by blast
        moreover have "sleepqueue s v \<noteq> Some q'" for v using td(4) q'(1) by blast
        ultimately show ?thesis using True q' qd(3) [of q' sq] by (auto simp: b qs l split: if_splits)
      next
        case False
        then have "sleepqueue s u = Some p" using that by (simp add: qs)
        note o = td(3) [OF this] td(4) [OF this] td(5) [OF this]
        then have "p \<noteq> q'" using q'(1) by blast
        moreover have "v = u" if "sleepqueue s' v = Some p" for v
          using that o(3) [of v] \<open>p \<noteq> q'\<close> by (simp add: qs split: if_splits)
        moreover have "p \<notin> set (sq_freeq (queues s' p'))" for p' using o(2) [of p'] o(2) [of sq] Cons by (simp add: b)
        ultimately show ?thesis using False o(1) by (simp add: qs l)
      qed
      ultimately show ?thesis unfolding threads_ok_def by blast
    qed
    moreover have "waiters s' w' = ((waiters s)(w := remove1 t (waiters s w))) w'" for w'
    proof (cases "w' = w")
      case True
      then show ?thesis using waiters_of [OF c', of sq] sq wq by (simp add: l w b)
    next
      case False
      then have "waiters s' w' = waiters s w'" using sq(2) by (intro waiters_eqI [OF c c']) (auto simp: l w b)
      then show ?thesis using False by simp
    qed
    then have "waiters s' = (waiters s)(w := remove1 t (waiters s w))" by blast
    ultimately show ?thesis using lk r qs ne wq by (auto simp: sleepq_inv_def)
  qed
qed

text \<open>Every thread behind the first one gets a queue of its own and leaves the channel.\<close>

lemma drop_rest_spec:
  assumes "length tds = length fs" "distinct tds"
  shows "drop_rest tds fs s = Some (s\<lparr>sleepqueue := sleepqueue s ++ map_of (zip tds fs),
    wchan := wchan s |` (- set tds)\<rparr>)"
  using assms
proof (induction tds fs s rule: drop_rest.induct)
  case (1 sq2 s)
  have "wchan s |` UNIV = wchan s" by (simp add: restrict_map_def)
  then show ?case using 1 by simp
next
  case (3 td2 tds q sq2 s)
  have "map_of (zip tds sq2) td2 = None" using 3(3) by (auto simp: map_of_eq_None_iff dest: set_zip_leftD)
  then have e: "(sleepqueue s)(td2 \<mapsto> q) ++ map_of (zip tds sq2) = sleepqueue s ++ map_of (zip (td2 # tds) (q # sq2))"
    by (auto simp: map_add_def fun_eq_iff split: option.splits)
  have e2: "((wchan s)(td2 := None)) |` (- set tds) = wchan s |` (- set (td2 # tds))"
    by (auto simp: restrict_map_def fun_eq_iff)
  have "length tds = length sq2" "distinct tds" using 3(2,3) by simp_all
  note r = 3(1) [OF this]
  have "drop_rest (td2 # tds) (q # sq2) s = Some (s\<lparr>sleepqueue := (sleepqueue s)(td2 \<mapsto> q) ++ map_of (zip tds sq2),
      wchan := ((wchan s)(td2 := None)) |` (- set tds)\<rparr>)"
    unfolding drop_rest.simps r by (cases s) simp
  then show ?case unfolding e e2 .
qed simp_all

lemma SleepqDrop_spec:
  assumes inv: "sleepq_inv s" and lk: "SleepqLookup w s = Some sq"
  shows "\<exists>s'. SleepqDrop sq s = Some (waiters s w, s') \<and> sleepq_inv s' \<and> waiters s' = (waiters s)(w := []) \<and>
    wchan s' = wchan s |` (- set (waiters s w))"
proof -
  have c: "chains_ok s" and q: "queues_ok s" and th: "threads_ok s" using inv by (simp_all add: sleepq_inv_def)
  note qd = queues_okD [OF q] and td = threads_okD [OF th]
  have sq: "linked_queue s sq" "sq_wchan (queues s sq) = w" using lk lookup_linked [OF c] by auto
  have wq: "waiters s w = sq_blocked (queues s sq)" using waiters_of [OF c sq(1)] sq(2) by simp
  obtain t tds where B: "sq_blocked (queues s sq) = t # tds" using qd(1) [OF sq(1)] by (cases "sq_blocked (queues s sq)") auto
  let ?F = "sq_freeq (queues s sq)"
  have d: "distinct (t # tds)" "distinct ?F" "length tds = length ?F" using qd(1) [OF sq(1)] B by auto
  define own where "own = map_of (zip (t # tds) (sq # ?F))"
  define s' where "s' = s\<lparr>sc_queues := sc_queues (sq_unlink sq s), sleepqueue := sleepqueue s ++ own,
      wchan := wchan s |` (- set (t # tds)),
      queues := (queues s)(sq := (queues s sq)\<lparr>sq_blocked := [], sq_freeq := []\<rparr>)\<rparr>"
  have drop: "SleepqDrop sq s = Some (t # tds, s')"
  proof -
    define s1 where "s1 = (sq_unlink sq s)\<lparr>sleepqueue := (sleepqueue (sq_unlink sq s))(t \<mapsto> sq),
        wchan := (wchan (sq_unlink sq s))(t := None)\<rparr>"
    have "map_of (zip tds ?F) t = None" using d(1) by (auto simp: map_of_eq_None_iff dest: set_zip_leftD)
    then have e: "sleepqueue s1 ++ map_of (zip tds ?F) = sleepqueue s ++ own"
      by (auto simp: own_def s1_def sq_unlink_def map_add_def fun_eq_iff split: option.splits)
    have e2: "wchan s1 |` (- set tds) = wchan s |` (- set (t # tds))"
      by (auto simp: s1_def sq_unlink_def restrict_map_def fun_eq_iff)
    have "distinct tds" using d(1) by simp
    note r = drop_rest_spec [OF d(3) this, of s1, unfolded e e2]
    have "SleepqDrop sq s = Some (t # tds, set_queue sq (\<lambda>q. q\<lparr>sq_blocked := [], sq_freeq := []\<rparr>)
        (s1\<lparr>sleepqueue := sleepqueue s ++ own, wchan := wchan s |` (- set (t # tds))\<rparr>))"
      unfolding SleepqDrop_def B Let_def s1_def [symmetric] list.case r by simp
    then show ?thesis by (simp add: s'_def s1_def sq_unlink_def set_queue_def)
  qed
  have w: "sq_wchan (queues s' p) = sq_wchan (queues s p)" for p by (simp add: s'_def)
  have sc: "sc_queues s' = sc_queues (sq_unlink sq s)" by (simp add: s'_def)
  note l = unlinked(1) [OF c sc w] and c' = unlinked(2) [OF c sc w]
  have b: "sq_blocked (queues s' p) = (if p = sq then [] else sq_blocked (queues s p))"
    "sq_freeq (queues s' p) = (if p = sq then [] else sq_freeq (queues s p))" for p by (simp_all add: s'_def)
  have ws: "wchan s' u = (if u \<in> set (t # tds) then None else wchan s u)" for u
    by (simp add: s'_def restrict_map_def)
  have dom: "own u \<noteq> None \<longleftrightarrow> u \<in> set (t # tds)" for u
    using map_of_zip_is_None [of "t # tds" "sq # ?F" u] d(3) unfolding own_def by (metis length_Cons)
  have ss: "sleepqueue s' u = (if u \<in> set (t # tds) then own u else sleepqueue s u)" for u
    using dom [of u] by (auto simp: s'_def map_add_def split: option.splits)
  have ownF: "p = sq \<or> p \<in> set ?F" if "own u = Some p" for u p
    using that by (auto simp: own_def split: if_splits dest!: map_of_SomeD set_zip_rightD)
  have Fsq: "sq \<notin> set ?F" using qd(3) sq(1) by blast
  have inj: "u = v" if "own u = Some p" "own v = Some p" for u v p
  proof -
    have "distinct (sq # ?F)" using d(2) Fsq by simp
    then show ?thesis using that d(1,3) unfolding own_def
      by (auto dest!: map_of_SomeD simp: set_zip nth_eq_iff_index_eq simp del: zip_Cons_Cons set_simps)
  qed
  have "queues_ok s'"
  proof -
    have "distinct (sq_blocked (queues s' p)) \<and> distinct (sq_freeq (queues s' p)) \<and>
        length (sq_blocked (queues s' p)) = Suc (length (sq_freeq (queues s' p)))" if "linked_queue s' p" for p
      using qd(1) [of p] that by (simp add: b l)
    moreover have "sq_blocked (queues s' p) = [] \<and> sq_freeq (queues s' p) = []" if "\<not> linked_queue s' p" for p
      using qd(2) [of p] that by (cases "p = sq") (simp_all add: b l)
    moreover have "\<not> linked_queue s' r" if "r \<in> set (sq_freeq (queues s' p))" for r p
      using qd(3) [of r p] that by (simp add: b l split: if_splits)
    moreover have "p = p'" if "r \<in> set (sq_freeq (queues s' p))" "r \<in> set (sq_freeq (queues s' p'))" for r p p'
      using qd(4) [of r p p'] that by (simp add: b split: if_splits)
    ultimately show ?thesis unfolding queues_ok_def by blast
  qed
  moreover have "threads_ok s'"
  proof -
    have out: "u \<notin> set (t # tds)" if "u \<in> set (sq_blocked (queues s p))" "p \<noteq> sq" for u p
    proof
      assume "u \<in> set (t # tds)"
      then have "sq_wchan (queues s p) = w" using td(1) [OF that(1)] td(1) [of u sq] B sq(2) by simp
      moreover have "linked_queue s p" using qd(2) [of p] that(1) by fastforce
      ultimately show False using c sq that(2) unfolding chains_ok_def by metis
    qed
    have "wchan s' u = Some (sq_wchan (queues s' p)) \<and> sleepqueue s' u = None" if u: "u \<in> set (sq_blocked (queues s' p))" for u p
    proof -
      have p: "p \<noteq> sq" "u \<in> set (sq_blocked (queues s p))" using u by (auto simp: b split: if_splits)
      then show ?thesis using td(1) [OF p(2)] out [OF p(2,1)] by (simp add: ws ss w)
    qed
    moreover have "\<exists>p. u \<in> set (sq_blocked (queues s' p))" if u: "sleepqueue s' u = None" for u
    proof -
      have "u \<notin> set (t # tds)" using u dom [of u] by (auto simp: ss)
      moreover from this obtain p where "u \<in> set (sq_blocked (queues s p))" using u td(2) [of u] by (auto simp: ss)
      ultimately show ?thesis using B by (intro exI [of _ p]) (auto simp: b)
    qed
    moreover have "wchan s' u = None \<and> \<not> linked_queue s' p \<and> (\<forall>p'. p \<notin> set (sq_freeq (queues s' p'))) \<and>
        (\<forall>v. sleepqueue s' v = Some p \<longrightarrow> v = u)" if u: "sleepqueue s' u = Some p" for u p
    proof (cases "u \<in> set (t # tds)")
      case True
      then have o: "own u = Some p" using u by (simp add: ss)
      have "p \<notin> set (sq_freeq (queues s p'))" if "p' \<noteq> sq" for p'
        using ownF [OF o] qd(3) [of sq p'] qd(4) [of p sq p'] sq(1) that by blast
      moreover have "\<not> linked_queue s' p" using ownF [OF o] qd(3) [of p sq] by (auto simp: l)
      moreover have "v = u" if v: "sleepqueue s' v = Some p" for v
      proof (cases "v \<in> set (t # tds)")
        case True
        then show ?thesis using v inj [of v p u] o by (simp add: ss)
      next
        case False
        then have "sleepqueue s v = Some p" using v by (simp add: ss split: if_splits)
        then have "\<not> linked_queue s p" "p \<notin> set ?F" using td(3) td(4) by blast+
        then show ?thesis using ownF [OF o] sq(1) by blast
      qed
      ultimately show ?thesis using True by (simp add: ws b)
    next
      case False
      then have "sleepqueue s u = Some p" using u by (simp add: ss split: if_splits)
      note o = td(3) [OF this] td(4) [OF this] td(5) [OF this]
      have "v = u" if v: "sleepqueue s' v = Some p" for v
      proof (cases "v \<in> set (t # tds)")
        case True
        then show ?thesis using v ownF [of v p] o(1) o(2) [of sq] sq(1) by (auto simp: ss)
      next
        case False
        then show ?thesis using v o(3) by (simp add: ss split: if_splits)
      qed
      then show ?thesis using False o(1,2) by (simp add: ws b l)
    qed
    ultimately show ?thesis unfolding threads_ok_def by blast
  qed
  moreover have "waiters s' w' = ((waiters s)(w := [])) w'" for w'
  proof (cases "w' = w")
    case True
    have "SleepqLookup w s' = None" using c sq unfolding lookup_none [OF c'] l w chains_ok_def by metis
    then show ?thesis using True by (simp add: waiters_def)
  next
    case False
    then have "waiters s' w' = waiters s w'" using sq(2) by (intro waiters_eqI [OF c c']) (auto simp: l w b)
    then show ?thesis using False by simp
  qed
  then have "waiters s' = (waiters s)(w := [])" by blast
  moreover have "wchan s' = wchan s |` (- set (waiters s w))" unfolding wq B by (simp add: s'_def)
  ultimately show ?thesis using drop c' wq B by (auto simp: sleepq_inv_def)
qed

text \<open>Before any thread sleeps, each one has its own queue.\<close>

definition sleepq_init :: sleepq_state where
  "sleepq_init = \<lparr>sc_queues = \<lambda>h. [], queues = \<lambda>q. \<lparr>sq_blocked = [], sq_freeq = [], sq_wchan = 0\<rparr>,
     sleepqueue = Some, wchan = \<lambda>t. None\<rparr>"

lemma sleepq_init_inv: "sleepq_inv sleepq_init" "waiters sleepq_init = (\<lambda>w. [])"
  by (auto simp: sleepq_inv_def sleepq_parts sleepq_init_def linked_queue_def waiters_def SleepqLookup_def)

text \<open>
  C32: sleep queues do what they mean on the lists of sleeping threads.  A thread that is awake can
  always go to sleep and is then the first of its channel; any sleeping thread can be woken and is
  then in no list, and the result says whether others sleep on; waking all of them yields exactly the
  threads of the channel in order.  No operation runs out of queues, and the invariant is kept.
\<close>

theorem sleepq_refines:
  assumes "sleepq_inv s"
  shows "(wchan s t = None \<longrightarrow>
      (\<exists>s'. SleepqAdd w t s = Some s' \<and> sleepq_inv s' \<and> waiters s' = (waiters s)(w := t # waiters s w))) \<and>
    (t \<in> set (waiters s w) \<longrightarrow>
      (\<exists>sq b s'. SleepqLookup w s = Some sq \<and> SleepqRemove sq t s = Some (b, s') \<and> sleepq_inv s' \<and>
        waiters s' = (waiters s)(w := remove1 t (waiters s w)) \<and> (b \<longleftrightarrow> waiters s' w \<noteq> []) \<and> wchan s' t = None)) \<and>
    (waiters s w \<noteq> [] \<longrightarrow>
      (\<exists>sq s'. SleepqLookup w s = Some sq \<and> SleepqDrop sq s = Some (waiters s w, s') \<and> sleepq_inv s' \<and>
        waiters s' = (waiters s)(w := [])))"
proof (intro conjI impI)
  show "\<exists>s'. SleepqAdd w t s = Some s' \<and> sleepq_inv s' \<and> waiters s' = (waiters s)(w := t # waiters s w)"
    if "wchan s t = None" using SleepqAdd_spec [OF assms that] by blast
  show "\<exists>sq b s'. SleepqLookup w s = Some sq \<and> SleepqRemove sq t s = Some (b, s') \<and> sleepq_inv s' \<and>
      waiters s' = (waiters s)(w := remove1 t (waiters s w)) \<and> (b \<longleftrightarrow> waiters s' w \<noteq> []) \<and> wchan s' t = None"
    if "t \<in> set (waiters s w)" using SleepqRemove_spec [OF assms that] by auto
  show "\<exists>sq s'. SleepqLookup w s = Some sq \<and> SleepqDrop sq s = Some (waiters s w, s') \<and> sleepq_inv s' \<and>
      waiters s' = (waiters s)(w := [])" if "waiters s w \<noteq> []"
  proof (cases "SleepqLookup w s")
    case (Some sq)
    then show ?thesis using SleepqDrop_spec [OF assms Some] by blast
  qed (use that in \<open>simp add: waiters_def\<close>)
qed

theorem sleepq_refines_witness:
  "\<exists>s'. SleepqAdd 0x1000 1 sleepq_init = Some s' \<and> sleepq_inv s' \<and> waiters s' 0x1000 = [1]"
proof -
  have "wchan sleepq_init 1 = None" by (simp add: sleepq_init_def)
  then show ?thesis using sleepq_refines [OF sleepq_init_inv(1), of 1 "0x1000"] by (auto simp: sleepq_init_inv(2))
qed

end
