(* ===== verification/Condvar.thy ===== *)
theory Condvar
  imports Sleep_Queue Pthread_Mutex "HOL-Library.Multiset"
begin

section \<open>Condition variables\<close>

text \<open>
  \<^verbatim>\<open>PthreadCond\<close> of \<^verbatim>\<open>core/libraries/kernel/threads/condvar.cpp\<close>.  A condition variable is known by
  its address, which is its wait channel.  A method is split where it gives up the lock of the sleep
  queues; each part is one step.  A thread that is woken is one whose semaphore is released: while
  the waker holds the waiter's mutex, the release is put off (\<open>defer_waiters\<close>) until it unlocks the
  mutex or sleeps itself, and at most 50 releases are put off.
\<close>

subsection \<open>The code\<close>

definition MaxDeferWaiters :: nat where "MaxDeferWaiters = 50"

definition Clock_Realtime :: u32 where "Clock_Realtime = 0"
definition Clock_Virtual :: u32 where "Clock_Virtual = 1"
definition Clock_Prof :: u32 where "Clock_Prof = 2"
definition Clock_Monotonic :: u32 where "Clock_Monotonic = 4"

record PthreadCond =
  has_user_waiters :: bool
  clock_id :: u32
  cond_name :: string

record PthreadCondAttr =
  c_pshared :: s32
  c_clockid :: u32

definition PthreadCondattrDefault :: PthreadCondAttr where
  "PthreadCondattrDefault = \<lparr>c_pshared = 0, c_clockid = Clock_Realtime\<rparr>"

record cond_state =
  sleepq :: sleepq_state
  mutexes :: mutex_heap
  conds :: "u64 \<Rightarrow> PthreadCond option"
  mutex_obj :: "nat \<Rightarrow> nat option"
  will_sleep :: "nat \<Rightarrow> bool"
  defer_waiters :: "nat \<Rightarrow> nat list"

definition set_user_waiters :: "u64 \<Rightarrow> bool \<Rightarrow> cond_state \<Rightarrow> cond_state" where
  "set_user_waiters c b s = s\<lparr>conds := (conds s)(c := map_option (\<lambda>cv. cv\<lparr>has_user_waiters := b\<rparr>) (conds s c))\<rparr>"

text \<open>\<^verbatim>\<open>Pthread::WakeAll\<close>: the threads whose semaphore is released.\<close>

definition WakeAll :: "nat \<Rightarrow> cond_state \<Rightarrow> nat list \<times> cond_state" where
  "WakeAll curthread s = (defer_waiters s curthread, s\<lparr>defer_waiters := (defer_waiters s)(curthread := [])\<rparr>)"

text \<open>
  \<^verbatim>\<open>Wait\<close> up to the sleep: an error, or the count of the mutex to restore.
\<close>

definition Cond_wait_begin :: "u64 \<Rightarrow> nat \<Rightarrow> nat \<Rightarrow> cond_state \<Rightarrow> (s32 + s32 \<times> cond_state) option" where
  "Cond_wait_begin c curthread mp s =
     do {
       m \<leftarrow> mutexes s mp;
       if IsOwned curthread m \<noteq> 0 then Some (Inl (IsOwned curthread m))
       else do {
         let q = (sleepq s)\<lparr>wchan := (wchan (sleepq s))(curthread := None)\<rparr>;
         let s = set_user_waiters c True (s\<lparr>will_sleep := (will_sleep s)(curthread := True)\<rparr>);
         (recurse, ret, wake, m) \<leftarrow> CvUnlock curthread True m;
         q \<leftarrow> SleepqAdd c curthread q;
         Some (Inr (recurse, s\<lparr>sleepq := q, mutexes := (mutexes s)(mp \<mapsto> m),
                              mutex_obj := (mutex_obj s)(curthread := Some mp)\<rparr>))
       }
     }"

text \<open>\<^verbatim>\<open>Pthread::Sleep\<close> before the thread waits for its semaphore.\<close>

definition Cond_sleep :: "nat \<Rightarrow> cond_state \<Rightarrow> nat list \<times> cond_state" where
  "Cond_sleep curthread s = WakeAll curthread (s\<lparr>will_sleep := (will_sleep s)(curthread := False)\<rparr>)"

text \<open>
  \<^verbatim>\<open>Wait\<close> after the sleep: \<open>None\<close> in the result sleeps again, a value is returned once the mutex is
  locked again.
\<close>

definition Cond_wait_end :: "u64 \<Rightarrow> nat \<Rightarrow> bool \<Rightarrow> bool \<Rightarrow> cond_state \<Rightarrow> (s32 option \<times> cond_state) option" where
  "Cond_wait_end c curthread should_cancel timed_out s =
     (let leave = (\<lambda>s. s\<lparr>mutex_obj := (mutex_obj s)(curthread := None)\<rparr>)
      in if wchan (sleepq s) curthread = None then Some (Some 0, leave s)
         else if should_cancel \<or> timed_out then
           do {
             sq \<leftarrow> SleepqLookup c (sleepq s);
             (b, q) \<leftarrow> SleepqRemove sq curthread (sleepq s);
             Some (Some (if should_cancel then 0 else POSIX_ETIMEDOUT),
                   leave (set_user_waiters c b (s\<lparr>sleepq := q\<rparr>)))
           }
         else Some (None, s))"

text \<open>
  Writing the next entry of an array of \<^verbatim>\<open>MaxDeferWaiters\<close> semaphores; behind its end this is undefined.
\<close>

definition put_waiter :: "nat list \<Rightarrow> nat \<Rightarrow> nat list option" where
  "put_waiter waddrs td = (if length waddrs < MaxDeferWaiters then Some (waddrs @ [td]) else None)"

text \<open>Putting off the release of a thread.\<close>

definition defer_wake :: "nat \<Rightarrow> nat \<Rightarrow> nat \<Rightarrow> PthreadMutex \<Rightarrow> cond_state \<Rightarrow> (nat list \<times> cond_state) option" where
  "defer_wake curthread td mp m s =
     do {
       let (woken, s) = (if length (defer_waiters s curthread) \<ge> MaxDeferWaiters then WakeAll curthread s else ([], s));
       ws \<leftarrow> put_waiter (defer_waiters s curthread) td;
       Some (woken, s\<lparr>defer_waiters := (defer_waiters s)(curthread := ws),
                      mutexes := (mutexes s)(mp \<mapsto> m\<lparr>m_flags := m_flags m OR Flag_Deferred\<rparr>)\<rparr>)
     }"

text \<open>
  \<open>thread\<close> is the thread to wake with what \<^verbatim>\<open>FindThread\<close> says of it.  The result, the threads that are
  woken at once, and the state.
\<close>

definition Cond_Signal :: "u64 \<Rightarrow> (nat \<times> s32) option \<Rightarrow> nat \<Rightarrow> cond_state \<Rightarrow> (s32 \<times> nat list \<times> cond_state) option" where
  "Cond_Signal c thread curthread s =
     (let ret = (case thread of Some (t, ret) \<Rightarrow> ret | None \<Rightarrow> 0)
      in if ret \<noteq> 0 then Some (ret, [], s)
     else case SleepqLookup c (sleepq s) of
         None \<Rightarrow> Some (0, [], s)
       | Some sq \<Rightarrow>
           do {
             td \<leftarrow> (case thread of Some (t, _) \<Rightarrow> Some t
                    | None \<Rightarrow> (case sq_blocked (queues (sleepq s) sq) of [] \<Rightarrow> None | t # _ \<Rightarrow> Some t));
             mp \<leftarrow> mutex_obj s td;
             m \<leftarrow> mutexes s mp;
             (b, q) \<leftarrow> SleepqRemove sq td (sleepq s);
             let s = set_user_waiters c b (s\<lparr>sleepq := q\<rparr>);
             (if m_owner m = Some curthread
              then do { (woken, s) \<leftarrow> defer_wake curthread td mp m s; Some (0, woken, s) }
              else Some (0, [td], s))
           })"

text \<open>The callback of \<^verbatim>\<open>Broadcast\<close>, with its array of semaphores to release, and its loop.\<close>

definition drop_cb :: "nat \<Rightarrow> nat \<Rightarrow> nat list \<times> nat list \<times> cond_state \<Rightarrow> (nat list \<times> nat list \<times> cond_state) option" where
  "drop_cb curthread td ba =
     (case ba of (waddrs, woken, s) \<Rightarrow>
       do {
         mp \<leftarrow> mutex_obj s td;
         m \<leftarrow> mutexes s mp;
         (if m_owner m = Some curthread
          then do { (w, s) \<leftarrow> defer_wake curthread td mp m s; Some (waddrs, woken @ w, s) }
          else do {
            let (waddrs, woken) = (if length waddrs \<ge> MaxDeferWaiters then ([], woken @ waddrs) else (waddrs, woken));
            waddrs \<leftarrow> put_waiter waddrs td;
            Some (waddrs, woken, s)
          })
       })"

fun drop_all :: "nat \<Rightarrow> nat list \<Rightarrow> nat list \<times> nat list \<times> cond_state \<Rightarrow> (nat list \<times> nat list \<times> cond_state) option" where
  "drop_all curthread [] ba = Some ba"
| "drop_all curthread (td # tds) ba = do { ba \<leftarrow> drop_cb curthread td ba; drop_all curthread tds ba }"

definition Cond_Broadcast :: "u64 \<Rightarrow> nat \<Rightarrow> cond_state \<Rightarrow> (s32 \<times> nat list \<times> cond_state) option" where
  "Cond_Broadcast c curthread s =
     (case SleepqLookup c (sleepq s) of
        None \<Rightarrow> Some (0, [], s)
      | Some sq \<Rightarrow>
          do {
            (tds, q) \<leftarrow> SleepqDrop sq (sleepq s);
            (waddrs, woken, s) \<leftarrow> drop_all curthread tds ([], [], s\<lparr>sleepq := q\<rparr>);
            Some (0, woken @ waddrs, set_user_waiters c False s)
          })"

subsection \<open>Calls on a variable and on attributes\<close>

datatype PthreadCondT = THR_COND_INITIALIZER | THR_COND_DESTROYED | CondAt u64

definition CondInit :: "u64 \<Rightarrow> PthreadCondAttr option \<Rightarrow> string \<Rightarrow> cond_state \<Rightarrow> s32 \<times> PthreadCondT \<times> cond_state" where
  "CondInit fresh cond_attr name s =
     (0, CondAt fresh, s\<lparr>conds := (conds s)(fresh \<mapsto> \<lparr>has_user_waiters = False,
        clock_id = (case cond_attr of None \<Rightarrow> Clock_Realtime | Some a \<Rightarrow> c_clockid a), cond_name = name\<rparr>)\<rparr>)"

definition posix_pthread_cond_init :: "u64 \<Rightarrow> PthreadCondAttr option \<Rightarrow> string \<Rightarrow> cond_state \<Rightarrow> s32 \<times> PthreadCondT \<times> cond_state" where
  "posix_pthread_cond_init fresh cond_attr name s = CondInit fresh cond_attr name s"

definition posix_pthread_cond_destroy :: "PthreadCondT \<Rightarrow> cond_state \<Rightarrow> s32 \<times> PthreadCondT \<times> cond_state" where
  "posix_pthread_cond_destroy cond s =
     (case cond of
        THR_COND_INITIALIZER \<Rightarrow> (0, cond, s)
      | THR_COND_DESTROYED \<Rightarrow> (POSIX_EINVAL, cond, s)
      | CondAt c \<Rightarrow> (0, THR_COND_DESTROYED, s\<lparr>conds := (conds s)(c := None)\<rparr>))"

text \<open>\<^verbatim>\<open>CHECK_AND_INIT_COND\<close>.\<close>

definition check_and_init_cond :: "u64 \<Rightarrow> string \<Rightarrow> PthreadCondT \<Rightarrow> cond_state \<Rightarrow> s32 + u64 \<times> PthreadCondT \<times> cond_state" where
  "check_and_init_cond fresh name cond s =
     (case cond of
        THR_COND_INITIALIZER \<Rightarrow> (let (ret, cond, s) = CondInit fresh None name s in Inr (fresh, cond, s))
      | THR_COND_DESTROYED \<Rightarrow> Inl POSIX_EINVAL
      | CondAt c \<Rightarrow> Inr (c, cond, s))"

definition posix_pthread_cond_signal :: "u64 \<Rightarrow> string \<Rightarrow> PthreadCondT \<Rightarrow> nat \<Rightarrow> cond_state
    \<Rightarrow> (s32 \<times> nat list \<times> PthreadCondT \<times> cond_state) option" where
  "posix_pthread_cond_signal fresh name cond curthread s =
     (case check_and_init_cond fresh name cond s of
        Inl ret \<Rightarrow> Some (ret, [], cond, s)
      | Inr (c, cond, s) \<Rightarrow> do { (ret, woken, s) \<leftarrow> Cond_Signal c None curthread s; Some (ret, woken, cond, s) })"

definition posix_pthread_cond_signalto_np :: "u64 \<Rightarrow> string \<Rightarrow> PthreadCondT \<Rightarrow> nat \<times> s32 \<Rightarrow> nat \<Rightarrow> cond_state
    \<Rightarrow> (s32 \<times> nat list \<times> PthreadCondT \<times> cond_state) option" where
  "posix_pthread_cond_signalto_np fresh name cond thread curthread s =
     (case check_and_init_cond fresh name cond s of
        Inl ret \<Rightarrow> Some (ret, [], cond, s)
      | Inr (c, cond, s) \<Rightarrow> do { (ret, woken, s) \<leftarrow> Cond_Signal c (Some thread) curthread s; Some (ret, woken, cond, s) })"

definition posix_pthread_cond_broadcast :: "u64 \<Rightarrow> string \<Rightarrow> PthreadCondT \<Rightarrow> nat \<Rightarrow> cond_state
    \<Rightarrow> (s32 \<times> nat list \<times> PthreadCondT \<times> cond_state) option" where
  "posix_pthread_cond_broadcast fresh name cond curthread s =
     (case check_and_init_cond fresh name cond s of
        Inl ret \<Rightarrow> Some (ret, [], cond, s)
      | Inr (c, cond, s) \<Rightarrow> do { (ret, woken, s) \<leftarrow> Cond_Broadcast c curthread s; Some (0, woken, cond, s) })"

text \<open>The waiting calls up to the sleep; the mutex variable holds the address \<open>mp\<close>.\<close>

definition posix_pthread_cond_wait :: "u64 \<Rightarrow> string \<Rightarrow> PthreadCondT \<Rightarrow> nat \<Rightarrow> nat \<Rightarrow> cond_state
    \<Rightarrow> (s32 + s32 \<times> PthreadCondT \<times> cond_state) option" where
  "posix_pthread_cond_wait fresh name cond mp curthread s =
     (case check_and_init_cond fresh name cond s of
        Inl ret \<Rightarrow> Some (Inl ret)
      | Inr (c, cond, s) \<Rightarrow>
          do {
            r \<leftarrow> Cond_wait_begin c curthread mp s;
            Some (case r of Inl ret \<Rightarrow> Inl ret | Inr (recurse, s) \<Rightarrow> Inr (recurse, cond, s))
          })"

definition posix_pthread_cond_timedwait :: "u64 \<Rightarrow> string \<Rightarrow> PthreadCondT \<Rightarrow> nat \<Rightarrow> OrbisKernelTimespec option \<Rightarrow> nat
    \<Rightarrow> cond_state \<Rightarrow> (s32 + s32 \<times> PthreadCondT \<times> cond_state) option" where
  "posix_pthread_cond_timedwait fresh name cond mp abstime curthread s =
     (case abstime of
        None \<Rightarrow> Some (Inl POSIX_EINVAL)
      | Some ts \<Rightarrow> if sint (tv_sec ts) < 0 \<or> bad_nsec ts then Some (Inl POSIX_EINVAL)
                   else posix_pthread_cond_wait fresh name cond mp curthread s)"

definition posix_pthread_cond_reltimedwait_np :: "u64 \<Rightarrow> string \<Rightarrow> PthreadCondT \<Rightarrow> nat \<Rightarrow> nat \<Rightarrow> cond_state
    \<Rightarrow> (s32 + s32 \<times> PthreadCondT \<times> cond_state) option" where
  "posix_pthread_cond_reltimedwait_np fresh name cond mp curthread s = posix_pthread_cond_wait fresh name cond mp curthread s"

type_synonym cond_attr = "PthreadCondAttr option option"

definition posix_pthread_condattr_init :: "s32 \<times> cond_attr" where
  "posix_pthread_condattr_init = (0, Some (Some PthreadCondattrDefault))"

definition posix_pthread_condattr_destroy :: "cond_attr \<Rightarrow> s32 \<times> cond_attr" where
  "posix_pthread_condattr_destroy attr = (case attr of Some (Some a) \<Rightarrow> (0, Some None) | _ \<Rightarrow> (POSIX_EINVAL, attr))"

definition posix_pthread_condattr_getclock :: "cond_attr \<Rightarrow> s32 + u32" where
  "posix_pthread_condattr_getclock attr =
     (case attr of Some (Some a) \<Rightarrow> Inr (c_clockid a) | _ \<Rightarrow> Inl POSIX_EINVAL)"

definition posix_pthread_condattr_setclock :: "u32 \<Rightarrow> cond_attr \<Rightarrow> s32 \<times> cond_attr" where
  "posix_pthread_condattr_setclock clock attr =
     (case attr of
        Some (Some a) \<Rightarrow>
          (if clock \<noteq> Clock_Realtime \<and> clock \<noteq> Clock_Virtual \<and> clock \<noteq> Clock_Prof \<and> clock \<noteq> Clock_Monotonic
           then (POSIX_EINVAL, attr) else (0, Some (Some (a\<lparr>c_clockid := clock\<rparr>))))
      | _ \<Rightarrow> (POSIX_EINVAL, attr))"

definition posix_pthread_condattr_getpshared :: "cond_attr \<Rightarrow> s32 + s32" where
  "posix_pthread_condattr_getpshared attr = (case attr of Some (Some a) \<Rightarrow> Inr 0 | _ \<Rightarrow> Inl POSIX_EINVAL)"

definition posix_pthread_condattr_setpshared :: "s32 \<Rightarrow> cond_attr \<Rightarrow> s32" where
  "posix_pthread_condattr_setpshared pshared attr =
     (case attr of Some (Some a) \<Rightarrow> (if pshared \<noteq> 0 then POSIX_EINVAL else 0) | _ \<Rightarrow> POSIX_EINVAL)"

subsection \<open>Theorems\<close>

text \<open>
  The threads on a channel have said which mutex they wait for, and it is there; no more releases are
  put off than there is room for.
\<close>

definition waiters_ready :: "cond_state \<Rightarrow> u64 \<Rightarrow> bool" where
  "waiters_ready s c \<longleftrightarrow> (\<forall>t \<in> set (waiters (sleepq s) c). \<exists>mp m. mutex_obj s t = Some mp \<and> mutexes s mp = Some m)"

definition defer_ok :: "cond_state \<Rightarrow> bool" where
  "defer_ok s \<longleftrightarrow> (\<forall>t. length (defer_waiters s t) \<le> MaxDeferWaiters)"

lemma set_user_waiters_fields [simp]:
  "sleepq (set_user_waiters c b s) = sleepq s" "defer_waiters (set_user_waiters c b s) = defer_waiters s"
  "mutexes (set_user_waiters c b s) = mutexes s" "mutex_obj (set_user_waiters c b s) = mutex_obj s"
  by (simp_all add: set_user_waiters_def)

text \<open>A release put off is one more in the list, or one in it with all others released.\<close>

lemma defer_wake_defined:
  "\<exists>woken s'. defer_wake cur td mp m s = Some (woken, s')"
  by (auto simp: defer_wake_def WakeAll_def put_waiter_def Let_def MaxDeferWaiters_def split: if_splits)

lemma defer_wake_spec:
  assumes "defer_wake cur td mp m s = Some (woken, s')" "defer_ok s"
  shows "mset woken + mset (defer_waiters s' cur) = mset (defer_waiters s cur) + {#td#}" "defer_ok s'"
    "\<And>t. t \<noteq> cur \<Longrightarrow> defer_waiters s' t = defer_waiters s t" "sleepq s' = sleepq s" "mutex_obj s' = mutex_obj s"
    "dom (mutexes s') = insert mp (dom (mutexes s))"
  using assms
  by (auto simp: defer_wake_def WakeAll_def put_waiter_def Let_def defer_ok_def MaxDeferWaiters_def split: if_splits)

lemma drop_cb_spec:
  assumes "mutex_obj s td = Some mp" "mutexes s mp = Some m" "defer_ok s" "length waddrs \<le> MaxDeferWaiters"
  shows "\<exists>waddrs' woken' s'. drop_cb cur td (waddrs, woken, s) = Some (waddrs', woken', s') \<and>
    mset waddrs' + mset woken' + mset (defer_waiters s' cur) =
      mset waddrs + mset woken + mset (defer_waiters s cur) + {#td#} \<and>
    length waddrs' \<le> MaxDeferWaiters \<and> defer_ok s' \<and> (\<forall>t. t \<noteq> cur \<longrightarrow> defer_waiters s' t = defer_waiters s t) \<and>
    sleepq s' = sleepq s \<and> mutex_obj s' = mutex_obj s \<and> dom (mutexes s) \<subseteq> dom (mutexes s')"
proof (cases "m_owner m = Some cur")
  case True
  obtain w s' where d: "defer_wake cur td mp m s = Some (w, s')" using defer_wake_defined by blast
  note spec = defer_wake_spec [OF d assms(3)]
  have "drop_cb cur td (waddrs, woken, s) = Some (waddrs, woken @ w, s')"
    using True assms(1,2) d by (simp add: drop_cb_def)
  then show ?thesis using spec assms(4) by (auto simp: add.assoc)
next
  case False
  then show ?thesis using assms
    by (cases "length waddrs \<ge> MaxDeferWaiters") (auto simp: drop_cb_def put_waiter_def MaxDeferWaiters_def)
qed

lemma drop_all_spec:
  assumes "\<forall>t \<in> set tds. \<exists>mp. mutex_obj s t = Some mp \<and> mp \<in> dom (mutexes s)" "defer_ok s"
    "length waddrs \<le> MaxDeferWaiters"
  shows "\<exists>waddrs' woken' s'. drop_all cur tds (waddrs, woken, s) = Some (waddrs', woken', s') \<and>
    mset waddrs' + mset woken' + mset (defer_waiters s' cur) =
      mset waddrs + mset woken + mset (defer_waiters s cur) + mset tds \<and>
    length waddrs' \<le> MaxDeferWaiters \<and> defer_ok s' \<and> (\<forall>t. t \<noteq> cur \<longrightarrow> defer_waiters s' t = defer_waiters s t) \<and>
    sleepq s' = sleepq s"
  using assms
proof (induction tds arbitrary: waddrs woken s)
  case (Cons td tds)
  obtain mp m where "mutex_obj s td = Some mp" "mutexes s mp = Some m" using Cons.prems(1) by auto
  from drop_cb_spec [OF this Cons.prems(2,3), of cur woken] obtain waddrs1 woken1 s1 where
    s1: "drop_cb cur td (waddrs, woken, s) = Some (waddrs1, woken1, s1)"
      "mset waddrs1 + mset woken1 + mset (defer_waiters s1 cur) =
        mset waddrs + mset woken + mset (defer_waiters s cur) + {#td#}"
      "length waddrs1 \<le> MaxDeferWaiters" "defer_ok s1" "\<forall>t. t \<noteq> cur \<longrightarrow> defer_waiters s1 t = defer_waiters s t"
      "sleepq s1 = sleepq s" "mutex_obj s1 = mutex_obj s" "dom (mutexes s) \<subseteq> dom (mutexes s1)" by metis
  have "\<forall>t \<in> set tds. \<exists>mp. mutex_obj s1 t = Some mp \<and> mp \<in> dom (mutexes s1)"
    using Cons.prems(1) s1(7,8) by fastforce
  from Cons.IH [OF this s1(4,3), of woken1] show ?case using s1 by (auto simp: add.assoc)
qed simp

text \<open>
  C33: a broadcast returns and wakes every thread that waits for the condition exactly once: the
  threads it wakes at once and those whose release it puts off until the caller gives up their mutex
  are, with the releases already put off, all of them.  In particular neither of the two arrays of 50
  overflows, where a write behind the end would be undefined.
\<close>

theorem Broadcast_wakes_all:
  assumes inv: "sleepq_inv (sleepq s)" and ready: "waiters_ready s c" and room: "defer_ok s"
  shows "\<exists>woken s'. Cond_Broadcast c cur s = Some (0, woken, s') \<and>
    mset woken + mset (defer_waiters s' cur) = mset (defer_waiters s cur) + mset (waiters (sleepq s) c) \<and>
    (\<forall>t. t \<noteq> cur \<longrightarrow> defer_waiters s' t = defer_waiters s t) \<and> defer_ok s' \<and>
    sleepq_inv (sleepq s') \<and> waiters (sleepq s') = (waiters (sleepq s))(c := [])"
proof (cases "SleepqLookup c (sleepq s)")
  case None
  then have "waiters (sleepq s) c = []" by (simp add: waiters_def)
  then show ?thesis using None assms by (auto simp: Cond_Broadcast_def fun_upd_idem)
next
  case (Some sq)
  obtain q where q: "SleepqDrop sq (sleepq s) = Some (waiters (sleepq s) c, q)" "sleepq_inv q"
    "waiters q = (waiters (sleepq s))(c := [])" using SleepqDrop_spec [OF inv Some] by blast
  let ?s = "s\<lparr>sleepq := q\<rparr>"
  have "\<forall>t \<in> set (waiters (sleepq s) c). \<exists>mp. mutex_obj ?s t = Some mp \<and> mp \<in> dom (mutexes ?s)"
    using ready by (fastforce simp: waiters_ready_def)
  from drop_all_spec [OF this, of "[]" cur "[]"] room obtain waddrs woken s' where
    s': "drop_all cur (waiters (sleepq s) c) ([], [], ?s) = Some (waddrs, woken, s')"
      "mset waddrs + mset woken + mset (defer_waiters s' cur) = mset (defer_waiters s cur) + mset (waiters (sleepq s) c)"
      "defer_ok s'" "\<forall>t. t \<noteq> cur \<longrightarrow> defer_waiters s' t = defer_waiters s t" "sleepq s' = q"
    by (auto simp: defer_ok_def)
  have "Cond_Broadcast c cur s = Some (0, woken @ waddrs, set_user_waiters c False s')"
    using Some q(1) s'(1) by (simp add: Cond_Broadcast_def)
  moreover have "mset (woken @ waddrs) + mset (defer_waiters s' cur) =
      mset (defer_waiters s cur) + mset (waiters (sleepq s) c)"
    unfolding mset_append s'(2) [symmetric] by (simp only: add.commute)
  moreover have "defer_ok (set_user_waiters c False s')" using s'(3) by (simp add: defer_ok_def)
  ultimately show ?thesis using s'(4,5) q(2,3)
    by (intro exI [of _ "woken @ waddrs"] exI [of _ "set_user_waiters c False s'"] conjI) simp_all
qed

text \<open>A signal wakes the thread that came last, or puts its release off.\<close>

lemma Signal_wakes_last:
  assumes inv: "sleepq_inv (sleepq s)" and ready: "waiters_ready s c" and room: "defer_ok s"
    and w: "waiters (sleepq s) c = td # rest"
  shows "\<exists>woken s'. Cond_Signal c None cur s = Some (0, woken, s') \<and>
    mset woken + mset (defer_waiters s' cur) = mset (defer_waiters s cur) + {#td#} \<and> defer_ok s' \<and>
    sleepq_inv (sleepq s') \<and> waiters (sleepq s') = (waiters (sleepq s))(c := rest)"
proof -
  have t: "td \<in> set (waiters (sleepq s) c)" using w by simp
  obtain sq b q where q: "SleepqLookup c (sleepq s) = Some sq" "SleepqRemove sq td (sleepq s) = Some (b, q)"
    "sleepq_inv q" "waiters q = (waiters (sleepq s))(c := rest)"
    using SleepqRemove_spec [OF inv t] w by auto
  obtain mp m where m: "mutex_obj s td = Some mp" "mutexes s mp = Some m" using ready t by (auto simp: waiters_ready_def)
  have bl: "sq_blocked (queues (sleepq s) sq) = td # rest" using w q(1) by (simp add: waiters_def)
  let ?s = "set_user_waiters c b (s\<lparr>sleepq := q\<rparr>)"
  have ok: "defer_ok ?s" using room by (simp add: defer_ok_def)
  obtain woken s' where d: "defer_wake cur td mp m ?s = Some (woken, s')" using defer_wake_defined by blast
  show ?thesis
  proof (cases "m_owner m = Some cur")
    case True
    then show ?thesis using q m bl d defer_wake_spec [OF d ok] by (auto simp: Cond_Signal_def)
  next
    case False
    then show ?thesis using q m bl ok by (auto simp: Cond_Signal_def)
  qed
qed

definition demo_cond :: cond_state where
  "demo_cond = \<lparr>sleepq = the (SleepqAdd 0x2000 7 sleepq_init), mutexes = (\<lambda>a. None)(5 \<mapsto> \<lparr>m_owner = Some 1, m_count = 0,
     m_spinloops = 0, m_yieldloops = 0, m_protocol = 0, m_flags = 1, m_lock = Some 1, mutex_name = ''m''\<rparr>),
     conds = \<lambda>c. None, mutex_obj = (\<lambda>t. None)(7 \<mapsto> 5), will_sleep = \<lambda>t. False, defer_waiters = \<lambda>t. []\<rparr>"

theorem Broadcast_wakes_all_witness:
  "\<exists>woken s'. Cond_Broadcast 0x2000 1 demo_cond = Some (0, woken, s') \<and>
    mset woken + mset (defer_waiters s' 1) = {#7#}"
proof -
  have "wchan sleepq_init 7 = None" by (simp add: sleepq_init_def)
  from SleepqAdd_spec [OF sleepq_init_inv(1) this, of "0x2000"]
  have q: "sleepq_inv (sleepq demo_cond)" "waiters (sleepq demo_cond) = (\<lambda>w. [])(0x2000 := [7])"
    by (auto simp: demo_cond_def sleepq_init_inv(2))
  have "waiters_ready demo_cond 0x2000" unfolding waiters_ready_def q(2) by (simp add: demo_cond_def)
  moreover have "defer_ok demo_cond" by (simp add: defer_ok_def demo_cond_def)
  moreover have "defer_waiters demo_cond 1 = []" by (simp add: demo_cond_def)
  ultimately show ?thesis using Broadcast_wakes_all [OF q(1), of "0x2000" 1] by (auto simp: q(2))
qed

end
