(* ===== verification/Pthread_Keys.thy ===== *)
theory Pthread_Keys
  imports Posix_Error
begin

section \<open>Thread-specific data\<close>

text \<open>
  \<^verbatim>\<open>core/libraries/kernel/threads/pthread_spec.cpp\<close>: keys, the value a thread has for each of them,
  and the destructors that run when a thread ends.  The table of keys is shared; a thread has its
  own values.  A null pointer is 0, a destructor is known by a number.
\<close>

subsection \<open>The code\<close>

definition PthreadKeysMax :: nat where "PthreadKeysMax = 256"
definition PthreadDestructorIterations :: nat where "PthreadDestructorIterations = 4"

record PthreadKey =
  allocated :: bool
  key_seqno :: s32
  destructor :: "nat option"

record PthreadSpecificElem =
  sp_data :: u64
  sp_seqno :: s32

type_synonym key_table = "PthreadKey list"

record thread_specific =
  specific :: "PthreadSpecificElem list option"
  specific_data_count :: int

definition ThreadKeytable :: key_table where
  "ThreadKeytable = replicate PthreadKeysMax \<lparr>allocated = False, key_seqno = 0, destructor = None\<rparr>"

definition no_specific :: thread_specific where
  "no_specific = \<lparr>specific = None, specific_data_count = 0\<rparr>"

fun find_free_key :: "nat \<Rightarrow> key_table \<Rightarrow> nat option" where
  "find_free_key n [] = None"
| "find_free_key n (k # ks) = (if \<not> allocated k then Some n else find_free_key (Suc n) ks)"

text \<open>The result, the key and the table.\<close>

definition posix_pthread_key_create :: "nat option \<Rightarrow> key_table \<Rightarrow> s32 \<times> s32 option \<times> key_table" where
  "posix_pthread_key_create d tab =
     (case find_free_key 0 tab of
        Some i \<Rightarrow> (0, Some (of_nat i), tab[i := (tab ! i)\<lparr>allocated := True, destructor := d,
                                                     key_seqno := key_seqno (tab ! i) + 1\<rparr>])
      | None \<Rightarrow> (POSIX_EAGAIN, None, tab))"

text \<open>A key is compared as an unsigned number.\<close>

definition posix_pthread_key_delete :: "s32 \<Rightarrow> key_table \<Rightarrow> s32 \<times> key_table" where
  "posix_pthread_key_delete key tab =
     (if unat key \<ge> PthreadKeysMax then (POSIX_EINVAL, tab)
      else if \<not> allocated (tab ! unat key) then (POSIX_EINVAL, tab)
      else (0, tab[unat key := (tab ! unat key)\<lparr>allocated := False\<rparr>]))"

definition posix_pthread_setspecific :: "s32 \<Rightarrow> u64 \<Rightarrow> key_table \<Rightarrow> thread_specific \<Rightarrow> s32 \<times> thread_specific" where
  "posix_pthread_setspecific key value tab th =
     (let th = (if specific th = None then th\<lparr>specific := Some (replicate PthreadKeysMax \<lparr>sp_data = 0, sp_seqno = 0\<rparr>)\<rparr>
                else th);
          es = the (specific th)
      in if unat key \<ge> PthreadKeysMax then (POSIX_EINVAL, th)
         else if \<not> allocated (tab ! unat key) then (POSIX_EINVAL, th)
         else let th = (if sp_data (es ! unat key) = 0
                        then (if value \<noteq> 0 then th\<lparr>specific_data_count := specific_data_count th + 1\<rparr> else th)
                        else if value = 0 then th\<lparr>specific_data_count := specific_data_count th - 1\<rparr> else th)
              in (0, th\<lparr>specific := Some (es[unat key := \<lparr>sp_data = value, sp_seqno = key_seqno (tab ! unat key)\<rparr>])\<rparr>))"

definition posix_pthread_getspecific :: "s32 \<Rightarrow> key_table \<Rightarrow> thread_specific \<Rightarrow> u64" where
  "posix_pthread_getspecific key tab th =
     (case specific th of
        None \<Rightarrow> 0
      | Some es \<Rightarrow>
          (if unat key \<ge> PthreadKeysMax then 0
           else if allocated (tab ! unat key) \<and> sp_seqno (es ! unat key) = key_seqno (tab ! unat key)
                then sp_data (es ! unat key) else 0))"

text \<open>
  \<^verbatim>\<open>_thread_cleanupspecific\<close>.  \<open>run d x\<close> is what calling the destructor \<open>d\<close> on \<open>x\<close> does to the table and
  to the values of the thread; the calls are recorded.  The state of the loops.
\<close>

type_synonym cleanup_state = "key_table \<times> thread_specific \<times> (nat \<times> u64) list"

definition cleanup_key :: "(nat \<Rightarrow> u64 \<Rightarrow> key_table \<times> thread_specific \<Rightarrow> key_table \<times> thread_specific) \<Rightarrow> nat
    \<Rightarrow> cleanup_state \<Rightarrow> cleanup_state option" where
  "cleanup_key run key s =
     (case s of (tab, th, calls) \<Rightarrow>
       if \<not> specific_data_count th > 0 then Some s
       else do {
         es \<leftarrow> specific th;
         ASSERT (key < length tab \<and> key < length es);
         let d = (if allocated (tab ! key) \<and> sp_data (es ! key) \<noteq> 0 \<and> sp_seqno (es ! key) = key_seqno (tab ! key)
                  then destructor (tab ! key) else None);
         let x = sp_data (es ! key);
         let th = (if x \<noteq> 0
                   then th\<lparr>specific := Some (es[key := (es ! key)\<lparr>sp_data := 0\<rparr>]),
                           specific_data_count := specific_data_count th - 1\<rparr>
                   else th);
         Some (case d of
                 None \<Rightarrow> (tab, th, calls)
               | Some f \<Rightarrow> (let (tab, th) = run f x (tab, th) in (tab, th, calls @ [(f, x)])))
       })"

fun cleanup_keys :: "(nat \<Rightarrow> u64 \<Rightarrow> key_table \<times> thread_specific \<Rightarrow> key_table \<times> thread_specific) \<Rightarrow> nat list
    \<Rightarrow> cleanup_state \<Rightarrow> cleanup_state option" where
  "cleanup_keys run [] s = Some s"
| "cleanup_keys run (key # keys) s = do { s \<leftarrow> cleanup_key run key s; cleanup_keys run keys s }"

fun cleanup_rounds :: "(nat \<Rightarrow> u64 \<Rightarrow> key_table \<times> thread_specific \<Rightarrow> key_table \<times> thread_specific) \<Rightarrow> nat
    \<Rightarrow> cleanup_state \<Rightarrow> cleanup_state option" where
  "cleanup_rounds run 0 s = Some s"
| "cleanup_rounds run (Suc n) s =
     (if \<not> specific_data_count (fst (snd s)) > 0 then Some s
      else do { s \<leftarrow> cleanup_keys run [0..<PthreadKeysMax] s; cleanup_rounds run n s })"

definition thread_cleanupspecific :: "(nat \<Rightarrow> u64 \<Rightarrow> key_table \<times> thread_specific \<Rightarrow> key_table \<times> thread_specific)
    \<Rightarrow> key_table \<Rightarrow> thread_specific \<Rightarrow> cleanup_state option" where
  "thread_cleanupspecific run tab th =
     (if specific th = None then Some (tab, th, [])
      else do {
        (tab, th, calls) \<leftarrow> cleanup_rounds run PthreadDestructorIterations (tab, th, []);
        Some (tab, th\<lparr>specific := None\<rparr>, calls)
      })"

subsection \<open>The invariant\<close>

text \<open>The counter of a thread is the number of its values that are not null.\<close>

definition data_of :: "PthreadSpecificElem list \<Rightarrow> nat set" where
  "data_of es = {i. i < length es \<and> sp_data (es ! i) \<noteq> 0}"

definition keys_inv :: "key_table \<Rightarrow> thread_specific \<Rightarrow> bool" where
  "keys_inv tab th \<longleftrightarrow> length tab = PthreadKeysMax \<and>
     (case specific th of
        None \<Rightarrow> specific_data_count th = 0
      | Some es \<Rightarrow> length es = PthreadKeysMax \<and> specific_data_count th = int (card (data_of es)))"

text \<open>
  Destructors use the calls of this file: they keep the invariant, and none takes the thread's values
  away, which only the end of the thread does.
\<close>

definition destructors_ok :: "(nat \<Rightarrow> u64 \<Rightarrow> key_table \<times> thread_specific \<Rightarrow> key_table \<times> thread_specific) \<Rightarrow> bool" where
  "destructors_ok run \<longleftrightarrow> (\<forall>f x tab th. keys_inv tab th \<longrightarrow> specific th \<noteq> None \<longrightarrow>
     keys_inv (fst (run f x (tab, th))) (snd (run f x (tab, th))) \<and> specific (snd (run f x (tab, th))) \<noteq> None)"

lemma data_of_finite [simp]: "finite (data_of es)"
  by (simp add: data_of_def)

lemma data_of_update:
  "k < length es \<Longrightarrow> data_of (es[k := e]) = (if sp_data e \<noteq> 0 then insert k (data_of es) else data_of es - {k})"
  by (auto simp: data_of_def nth_list_update)

lemma card_data_update:
  assumes "k < length es"
  shows "int (card (data_of (es[k := e]))) = int (card (data_of es)) +
    (if sp_data e \<noteq> 0 \<and> sp_data (es ! k) = 0 then 1 else if sp_data e = 0 \<and> sp_data (es ! k) \<noteq> 0 then - 1 else 0)"
proof -
  have k: "k \<in> data_of es \<longleftrightarrow> sp_data (es ! k) \<noteq> 0" using assms by (simp add: data_of_def)
  then have "0 < card (data_of es)" if "sp_data (es ! k) \<noteq> 0" using that by (auto simp: card_gt_0_iff)
  then show ?thesis using assms k by (auto simp: data_of_update card_insert_if card_Diff_singleton_if)
qed

lemma setspecific_inv:
  assumes "keys_inv tab th"
  shows "keys_inv tab (snd (posix_pthread_setspecific key value tab th))"
proof -
  define th0 where "th0 = (if specific th = None then th\<lparr>specific := Some (replicate PthreadKeysMax \<lparr>sp_data = 0, sp_seqno = 0\<rparr>)\<rparr> else th)"
  have "data_of (replicate PthreadKeysMax \<lparr>sp_data = 0, sp_seqno = 0\<rparr>) = {}" by (simp add: data_of_def)
  then have inv0: "keys_inv tab th0" using assms by (auto simp: th0_def keys_inv_def split: option.splits)
  obtain es where es: "specific th0 = Some es" by (cases "specific th") (auto simp: th0_def)
  have l: "length es = PthreadKeysMax" "specific_data_count th0 = int (card (data_of es))"
    using inv0 es by (simp_all add: keys_inv_def)
  show ?thesis
  proof (cases "unat key < PthreadKeysMax \<and> allocated (tab ! unat key)")
    case True
    then show ?thesis using inv0 es l card_data_update [of "unat key" es "\<lparr>sp_data = value, sp_seqno = key_seqno (tab ! unat key)\<rparr>"]
      by (simp add: posix_pthread_setspecific_def th0_def [symmetric] Let_def keys_inv_def)
  next
    case False
    then show ?thesis using inv0
      by (auto simp: posix_pthread_setspecific_def th0_def [symmetric] Let_def)
  qed
qed

subsection \<open>Theorems\<close>

text \<open>A value is read back under its key, other keys keep theirs, and a key that is made anew has none.\<close>

lemma set_get:
  assumes inv: "keys_inv tab th" and k: "unat key < PthreadKeysMax" "allocated (tab ! unat key)"
  shows "fst (posix_pthread_setspecific key value tab th) = 0"
    "posix_pthread_getspecific key tab (snd (posix_pthread_setspecific key value tab th)) = value"
    "unat key' < PthreadKeysMax \<Longrightarrow> key' \<noteq> key \<Longrightarrow> specific th \<noteq> None \<Longrightarrow>
      posix_pthread_getspecific key' tab (snd (posix_pthread_setspecific key value tab th)) = posix_pthread_getspecific key' tab th"
  using assms
  by (auto simp: posix_pthread_setspecific_def posix_pthread_getspecific_def Let_def keys_inv_def
      nth_list_update word_unat_eq_iff split: option.splits)

lemma cleanup_key_inv:
  assumes inv: "keys_inv tab th" and sp: "specific th \<noteq> None" and key: "key < PthreadKeysMax"
    and run: "destructors_ok run"
  shows "\<exists>tab' th' calls'. cleanup_key run key (tab, th, calls) = Some (tab', th', calls') \<and>
    keys_inv tab' th' \<and> specific th' \<noteq> None \<and> length calls' \<le> length calls + 1"
proof -
  obtain es where es: "specific th = Some es" using sp by auto
  have l: "length tab = PthreadKeysMax" "length es = PthreadKeysMax" "specific_data_count th = int (card (data_of es))"
    using inv es by (simp_all add: keys_inv_def)
  define th1 where "th1 = (if sp_data (es ! key) \<noteq> 0
    then th\<lparr>specific := Some (es[key := (es ! key)\<lparr>sp_data := 0\<rparr>]), specific_data_count := specific_data_count th - 1\<rparr> else th)"
  have th1: "keys_inv tab th1" "specific th1 \<noteq> None"
    using inv es l key card_data_update [of key es "(es ! key)\<lparr>sp_data := 0\<rparr>"]
    by (auto simp: th1_def keys_inv_def)
  define d where "d = (if allocated (tab ! key) \<and> sp_data (es ! key) \<noteq> 0 \<and> sp_seqno (es ! key) = key_seqno (tab ! key)
    then destructor (tab ! key) else None)"
  have eq: "cleanup_key run key (tab, th, calls) = Some (if \<not> specific_data_count th > 0 then (tab, th, calls)
      else case d of None \<Rightarrow> (tab, th1, calls)
        | Some f \<Rightarrow> (let (tab, th) = run f (sp_data (es ! key)) (tab, th1) in (tab, th, calls @ [(f, sp_data (es ! key))])))"
    using es l key by (cases "sp_data (es ! key) = 0") (simp_all add: cleanup_key_def d_def th1_def Let_def split: option.split)
  show ?thesis
  proof (cases "specific_data_count th > 0")
    case True
    show ?thesis
    proof (cases d)
      case (Some f)
      obtain tab2 th2 where r: "run f (sp_data (es ! key)) (tab, th1) = (tab2, th2)" by fastforce
      moreover have "keys_inv tab2 th2 \<and> specific th2 \<noteq> None"
        using run th1 r unfolding destructors_ok_def by (metis fst_conv snd_conv)
      ultimately show ?thesis using eq True Some by simp
    qed (use eq True th1 in simp)
  qed (use eq inv sp in simp)
qed

lemma cleanup_keys_inv:
  assumes run: "destructors_ok run"
  shows "keys_inv tab th \<Longrightarrow> specific th \<noteq> None \<Longrightarrow> set keys \<subseteq> {..<PthreadKeysMax} \<Longrightarrow>
    \<exists>tab' th' calls'. cleanup_keys run keys (tab, th, calls) = Some (tab', th', calls') \<and>
    keys_inv tab' th' \<and> specific th' \<noteq> None \<and> length calls' \<le> length calls + length keys"
proof (induction keys arbitrary: tab th calls)
  case (Cons key keys)
  have "key < PthreadKeysMax" using Cons.prems(3) by simp
  from cleanup_key_inv [OF Cons.prems(1,2) this run] obtain tab1 th1 calls1 where
    1: "cleanup_key run key (tab, th, calls) = Some (tab1, th1, calls1)" "keys_inv tab1 th1" "specific th1 \<noteq> None"
      "length calls1 \<le> length calls + 1" by blast
  from Cons.IH [OF 1(2,3), of calls1] Cons.prems(3) obtain tab2 th2 calls2 where
    "cleanup_keys run keys (tab1, th1, calls1) = Some (tab2, th2, calls2)" "keys_inv tab2 th2" "specific th2 \<noteq> None"
      "length calls2 \<le> length calls1 + length keys" by auto
  then show ?case using 1 by auto
qed simp

lemma cleanup_rounds_inv:
  assumes run: "destructors_ok run"
  shows "keys_inv tab th \<Longrightarrow> specific th \<noteq> None \<Longrightarrow>
    \<exists>tab' th' calls'. cleanup_rounds run n (tab, th, calls) = Some (tab', th', calls') \<and>
    keys_inv tab' th' \<and> specific th' \<noteq> None \<and> length calls' \<le> length calls + n * PthreadKeysMax"
proof (induction n arbitrary: tab th calls)
  case (Suc n)
  show ?case
  proof (cases "specific_data_count th > 0")
    case True
    have k: "set [0..<PthreadKeysMax] \<subseteq> {..<PthreadKeysMax}" by auto
    obtain tab1 th1 calls1 where
      1: "cleanup_keys run [0..<PthreadKeysMax] (tab, th, calls) = Some (tab1, th1, calls1)" "keys_inv tab1 th1"
        "specific th1 \<noteq> None" "length calls1 \<le> length calls + PthreadKeysMax"
      using cleanup_keys_inv [OF run Suc.prems k, of calls] unfolding length_upt by (metis diff_zero)
    from Suc.IH [OF 1(2,3), of calls1] show ?thesis using 1 True by auto
  qed (use Suc.prems in auto)
qed simp

text \<open>
  When a thread ends, the clean-up of its values ends, whatever the destructors do to the keys and
  values: it calls at most 4 times 256 of them, and the thread has no values left.
\<close>

theorem cleanup_bounded:
  assumes inv: "keys_inv tab th"
    and run: "destructors_ok run"
  shows "\<exists>tab' th' calls. thread_cleanupspecific run tab th = Some (tab', th', calls) \<and>
    specific th' = None \<and> length calls \<le> 1024"
proof (cases "specific th")
  case (Some es)
  then obtain tab1 th1 calls1 where "cleanup_rounds run PthreadDestructorIterations (tab, th, []) = Some (tab1, th1, calls1)"
    "length calls1 \<le> PthreadDestructorIterations * PthreadKeysMax"
    using cleanup_rounds_inv [OF run inv, of PthreadDestructorIterations "[]"] by auto
  then show ?thesis using Some by (simp add: thread_cleanupspecific_def PthreadDestructorIterations_def PthreadKeysMax_def)
qed (simp add: thread_cleanupspecific_def)

text \<open>With destructors that leave the values alone, every destructor that is due runs once, in the order of keys.\<close>

definition due :: "key_table \<Rightarrow> PthreadSpecificElem list \<Rightarrow> nat \<Rightarrow> nat option" where
  "due tab es key = (if allocated (tab ! key) \<and> sp_data (es ! key) \<noteq> 0 \<and> sp_seqno (es ! key) = key_seqno (tab ! key)
     then destructor (tab ! key) else None)"

definition due_calls :: "key_table \<Rightarrow> PthreadSpecificElem list \<Rightarrow> nat list \<Rightarrow> (nat \<times> u64) list" where
  "due_calls tab es keys = List.map_filter (\<lambda>k. map_option (\<lambda>f. (f, sp_data (es ! k))) (due tab es k)) keys"

lemma due_calls_Cons:
  "due_calls tab es (k # ks) = (case due tab es k of None \<Rightarrow> [] | Some f \<Rightarrow> [(f, sp_data (es ! k))]) @ due_calls tab es ks"
  by (cases "due tab es k") (simp_all add: due_calls_def List.map_filter_simps)

lemma due_calls_cong: "(\<And>k. k \<in> set ks \<Longrightarrow> es ! k = es' ! k) \<Longrightarrow> due_calls tab es ks = due_calls tab es' ks"
proof (induction ks)
  case (Cons a ks)
  have "es ! a = es' ! a" using Cons.prems by simp
  moreover have "due_calls tab es ks = due_calls tab es' ks" using Cons by simp
  ultimately show ?case by (simp only: due_calls_Cons due_def)
qed (simp add: due_calls_def List.map_filter_simps)

lemma no_data:
  assumes "keys_inv tab th" "specific th = Some es" "\<not> specific_data_count th > 0" "k < PthreadKeysMax"
  shows "sp_data (es ! k) = 0"
  using assms by (auto simp: keys_inv_def data_of_def)

lemma cleanup_key_exact:
  assumes inv: "keys_inv tab th" and es: "specific th = Some es" and key: "key < PthreadKeysMax"
    and run: "\<forall>f x s. run f x s = s"
  shows "\<exists>th'. cleanup_key run key (tab, th, calls) =
      Some (tab, th', calls @ (case due tab es key of None \<Rightarrow> [] | Some f \<Rightarrow> [(f, sp_data (es ! key))])) \<and>
    keys_inv tab th' \<and> specific th' = Some (es[key := (es ! key)\<lparr>sp_data := 0\<rparr>])"
proof (cases "sp_data (es ! key) = 0")
  case True
  then have "(es ! key)\<lparr>sp_data := 0\<rparr> = es ! key" by (cases "es ! key") simp
  then have "es[key := (es ! key)\<lparr>sp_data := 0\<rparr>] = es" by simp
  moreover have "due tab es key = None" using True by (simp add: due_def)
  ultimately show ?thesis using True inv es key by (simp add: cleanup_key_def keys_inv_def)
next
  case False
  then have c: "specific_data_count th > 0" using no_data [OF inv es _ key] by blast
  let ?th = "th\<lparr>specific := Some (es[key := (es ! key)\<lparr>sp_data := 0\<rparr>]), specific_data_count := specific_data_count th - 1\<rparr>"
  have l: "length tab = PthreadKeysMax" "length es = PthreadKeysMax" using inv es by (simp_all add: keys_inv_def)
  have "keys_inv tab ?th"
    using inv es l key False card_data_update [of key es "(es ! key)\<lparr>sp_data := 0\<rparr>"] by (simp add: keys_inv_def)
  moreover have "cleanup_key run key (tab, th, calls) =
      Some (tab, ?th, calls @ (case due tab es key of None \<Rightarrow> [] | Some f \<Rightarrow> [(f, sp_data (es ! key))]))"
    using False c es key l run by (simp add: cleanup_key_def due_def Let_def split: option.split)
  ultimately show ?thesis by auto
qed

lemma cleanup_keys_exact:
  assumes "keys_inv tab th" "specific th = Some es" "set keys \<subseteq> {..<PthreadKeysMax}" "distinct keys"
    and run: "\<forall>f x s. run f x s = s"
  shows "\<exists>th' es'. cleanup_keys run keys (tab, th, calls) = Some (tab, th', calls @ due_calls tab es keys) \<and>
    keys_inv tab th' \<and> specific th' = Some es' \<and> (\<forall>k \<in> set keys. sp_data (es' ! k) = 0) \<and>
    (\<forall>k. k \<notin> set keys \<longrightarrow> es' ! k = es ! k)"
  using assms(1-4)
proof (induction keys arbitrary: th es calls)
  case Nil
  then show ?case by (simp add: due_calls_def List.map_filter_simps)
next
  case (Cons k ks)
  have k: "k < PthreadKeysMax" "k < length es" using Cons.prems by (simp_all add: keys_inv_def)
  define c where "c = (case due tab es k of None \<Rightarrow> [] | Some f \<Rightarrow> [(f, sp_data (es ! k))])"
  obtain th1 where 1: "cleanup_key run k (tab, th, calls) = Some (tab, th1, calls @ c)"
    "keys_inv tab th1" "specific th1 = Some (es[k := (es ! k)\<lparr>sp_data := 0\<rparr>])"
    using cleanup_key_exact [OF Cons.prems(1,2) k(1) run] unfolding c_def by blast
  have same: "due_calls tab (es[k := (es ! k)\<lparr>sp_data := 0\<rparr>]) ks = due_calls tab es ks"
    using Cons.prems(4) by (intro due_calls_cong) (metis distinct.simps(2) nth_list_update_neq)
  have ks: "set ks \<subseteq> {..<PthreadKeysMax}" "distinct ks" "k \<notin> set ks" using Cons.prems(3,4) by simp_all
  from Cons.IH [OF 1(2,3) ks(1,2), of "calls @ c", unfolded same] obtain th2 es2 where
    2: "cleanup_keys run ks (tab, th1, calls @ c) = Some (tab, th2, (calls @ c) @ due_calls tab es ks)"
    "keys_inv tab th2" "specific th2 = Some es2" "\<forall>j \<in> set ks. sp_data (es2 ! j) = 0"
    "\<forall>j. j \<notin> set ks \<longrightarrow> es2 ! j = es[k := (es ! k)\<lparr>sp_data := 0\<rparr>] ! j" by blast
  have "cleanup_keys run (k # ks) (tab, th, calls) = Some (tab, th2, calls @ due_calls tab es (k # ks))"
    using 1(1) 2(1) by (simp add: due_calls_Cons c_def [symmetric])
  moreover have "sp_data (es2 ! k) = 0" using 2(5) ks(3) k(2) by simp
  moreover have "es2 ! j = es ! j" if "j \<notin> set (k # ks)" for j using 2(5) that by simp
  ultimately show ?case using 2(2,3,4) by auto
qed

text \<open>With such destructors the clean-up calls exactly those that are due and leaves no values.\<close>

lemma cleanup_quiet:
  assumes inv: "keys_inv tab th" and es: "specific th = Some es" and run: "\<forall>f x s. run f x s = s"
  shows "thread_cleanupspecific run tab th =
    Some (tab, th\<lparr>specific := None, specific_data_count := 0\<rparr>, due_calls tab es [0..<PthreadKeysMax])"
proof -
  have k: "set [0..<PthreadKeysMax] \<subseteq> {..<PthreadKeysMax}" by auto
  have stop: "cleanup_rounds run n (tab, th', calls) = Some (tab, th', calls)" if "specific_data_count th' = 0" for n th' calls
    using that by (cases n) simp_all
  show ?thesis
  proof (cases "specific_data_count th > 0")
    case True
    obtain th1 es1 where 1: "cleanup_keys run [0..<PthreadKeysMax] (tab, th, []) = Some (tab, th1, due_calls tab es [0..<PthreadKeysMax])"
      "keys_inv tab th1" "specific th1 = Some es1" "\<forall>k \<in> set [0..<PthreadKeysMax]. sp_data (es1 ! k) = 0"
      using cleanup_keys_exact [OF inv es k _ run, of "[]"] by auto
    then have z: "specific_data_count th1 = 0" by (auto simp: keys_inv_def data_of_def)
    then have "cleanup_rounds run PthreadDestructorIterations (tab, th, []) = Some (tab, th1, due_calls tab es [0..<PthreadKeysMax])"
      using True 1(1) stop by (simp add: PthreadDestructorIterations_def numeral_eq_Suc)
    then show ?thesis using es z by (cases th; cases th1) (simp add: thread_cleanupspecific_def)
  next
    case False
    have "due_calls tab es ks = []" if "set ks \<subseteq> {..<PthreadKeysMax}" for ks
      using that no_data [OF inv es False]
      by (induction ks) (simp_all add: due_calls_Cons due_def, simp add: due_calls_def List.map_filter_simps)
    moreover have "specific_data_count th = 0" using False inv es by (simp add: keys_inv_def)
    ultimately show ?thesis using es k stop [of th PthreadDestructorIterations "[]"]
      by (cases th) (simp add: thread_cleanupspecific_def)
  qed
qed

subsection \<open>What a clean-up runs\<close>

text \<open>
  The reference: every key of four rounds is visited, without any counter.  A visit takes the value
  of the key away and then runs the destructor that is due at that moment on it, if there is one.
\<close>

definition null_slot :: "nat \<Rightarrow> thread_specific \<Rightarrow> thread_specific" where
  "null_slot key th =
     (case specific th of
        None \<Rightarrow> th
      | Some es \<Rightarrow>
          (if sp_data (es ! key) = 0 then th
           else th\<lparr>specific := Some (es[key := (es ! key)\<lparr>sp_data := 0\<rparr>]),
                   specific_data_count := specific_data_count th - 1\<rparr>))"

definition due_call :: "nat \<Rightarrow> key_table \<times> thread_specific \<Rightarrow> (nat \<times> u64) option" where
  "due_call key s =
     (case specific (snd s) of
        None \<Rightarrow> None
      | Some es \<Rightarrow> map_option (\<lambda>f. (f, sp_data (es ! key))) (due (fst s) es key))"

definition visit_key :: "(nat \<Rightarrow> u64 \<Rightarrow> key_table \<times> thread_specific \<Rightarrow> key_table \<times> thread_specific) \<Rightarrow> nat
    \<Rightarrow> key_table \<times> thread_specific \<Rightarrow> key_table \<times> thread_specific" where
  "visit_key run key s =
     (case due_call key s of
        None \<Rightarrow> (fst s, null_slot key (snd s))
      | Some (f, x) \<Rightarrow> run f x (fst s, null_slot key (snd s)))"

fun calls_made :: "(nat \<Rightarrow> u64 \<Rightarrow> key_table \<times> thread_specific \<Rightarrow> key_table \<times> thread_specific) \<Rightarrow> nat list
    \<Rightarrow> key_table \<times> thread_specific \<Rightarrow> (nat \<times> u64) list" where
  "calls_made run [] s = []"
| "calls_made run (key # keys) s =
     (case due_call key s of None \<Rightarrow> [] | Some c \<Rightarrow> [c]) @ calls_made run keys (visit_key run key s)"

fun state_after :: "(nat \<Rightarrow> u64 \<Rightarrow> key_table \<times> thread_specific \<Rightarrow> key_table \<times> thread_specific) \<Rightarrow> nat list
    \<Rightarrow> key_table \<times> thread_specific \<Rightarrow> key_table \<times> thread_specific" where
  "state_after run [] s = s"
| "state_after run (key # keys) s = state_after run keys (visit_key run key s)"

definition four_rounds :: "nat list" where
  "four_rounds = concat (replicate PthreadDestructorIterations [0..<PthreadKeysMax])"

definition live :: "key_table \<times> thread_specific \<Rightarrow> bool" where
  "live s \<longleftrightarrow> keys_inv (fst s) (snd s) \<and> specific (snd s) \<noteq> None"

lemma calls_made_append: "calls_made run (ks @ ls) s = calls_made run ks s @ calls_made run ls (state_after run ks s)"
  by (induction ks arbitrary: s) simp_all

lemma state_after_append: "state_after run (ks @ ls) s = state_after run ls (state_after run ks s)"
  by (induction ks arbitrary: s) simp_all

lemma calls_made_length: "length (calls_made run ks s) \<le> length ks"
proof (induction ks arbitrary: s)
  case (Cons k ks)
  show ?case using Cons [of "visit_key run k s"] by (simp split: option.split)
qed simp

lemma visit_live:
  assumes s: "live s" and key: "key < PthreadKeysMax" and run: "destructors_ok run"
  shows "live (visit_key run key s)"
proof -
  obtain tab th es where s': "s = (tab, th)" "specific th = Some es" using s by (cases s) (auto simp: live_def)
  have inv: "keys_inv tab th" using s by (simp add: live_def s'(1))
  have n: "keys_inv tab (null_slot key th)" "specific (null_slot key th) \<noteq> None"
    using inv s'(2) key card_data_update [of key es "(es ! key)\<lparr>sp_data := 0\<rparr>"]
    by (auto simp: null_slot_def keys_inv_def)
  show ?thesis
  proof (cases "due_call key s")
    case None
    then show ?thesis using n by (simp add: visit_key_def s'(1) live_def)
  next
    case (Some c)
    obtain f x where "c = (f, x)" by fastforce
    then have "visit_key run key s = run f x (tab, null_slot key th)" using Some by (simp add: visit_key_def s'(1))
    then show ?thesis using run n unfolding destructors_ok_def live_def by metis
  qed
qed

text \<open>Without a value nothing is left to do, so the loops may stop when the counter is zero.\<close>

lemma visit_nothing:
  assumes s: "live s" and key: "key < PthreadKeysMax" and z: "\<not> specific_data_count (snd s) > 0"
  shows "due_call key s = None \<and> visit_key run key s = s"
proof -
  obtain tab th es where s': "s = (tab, th)" "specific th = Some es" using s by (cases s) (auto simp: live_def)
  have "sp_data (es ! key) = 0" using no_data [of tab th es key] s key z by (simp add: live_def s')
  then show ?thesis by (simp add: due_call_def visit_key_def null_slot_def due_def s')
qed

lemma nothing_left:
  "live s \<Longrightarrow> set keys \<subseteq> {..<PthreadKeysMax} \<Longrightarrow> \<not> specific_data_count (snd s) > 0 \<Longrightarrow>
   calls_made run keys s = [] \<and> state_after run keys s = s"
proof (induction keys)
  case (Cons key keys)
  then show ?case using visit_nothing [of s key run] by simp
qed simp

lemma cleanup_key_visits:
  assumes s: "live (tab, th)" and key: "key < PthreadKeysMax"
  shows "cleanup_key run key (tab, th, calls) =
    (case visit_key run key (tab, th) of (tab', th') \<Rightarrow>
      Some (tab', th', calls @ (case due_call key (tab, th) of None \<Rightarrow> [] | Some c \<Rightarrow> [c])))"
proof (cases "specific_data_count th > 0")
  case False
  then show ?thesis using visit_nothing [OF s key, of run] by (simp add: cleanup_key_def)
next
  case True
  obtain es where es: "specific th = Some es" using s by (auto simp: live_def)
  have l: "length tab = PthreadKeysMax" "length es = PthreadKeysMax" using s es by (simp_all add: live_def keys_inv_def)
  show ?thesis
  proof (cases "due tab es key")
    case None
    then show ?thesis using True es l key
      by (simp add: cleanup_key_def visit_key_def due_call_def null_slot_def due_def [symmetric] Let_def)
  next
    case (Some f)
    then have "sp_data (es ! key) \<noteq> 0" by (simp add: due_def split: if_splits)
    then show ?thesis using True es l key Some
      by (simp add: cleanup_key_def visit_key_def due_call_def null_slot_def due_def [symmetric] Let_def split: prod.split)
  qed
qed

lemma cleanup_keys_visits:
  assumes run: "destructors_ok run"
  shows "live (tab, th) \<Longrightarrow> set keys \<subseteq> {..<PthreadKeysMax} \<Longrightarrow>
    cleanup_keys run keys (tab, th, calls) =
      (case state_after run keys (tab, th) of (tab', th') \<Rightarrow> Some (tab', th', calls @ calls_made run keys (tab, th))) \<and>
    live (state_after run keys (tab, th))"
proof (induction keys arbitrary: tab th calls)
  case (Cons key keys)
  obtain tab1 th1 where v: "visit_key run key (tab, th) = (tab1, th1)" by fastforce
  have k: "key < PthreadKeysMax" using Cons.prems(2) by simp
  have "live (tab1, th1)" using visit_live [OF Cons.prems(1) k run] v by simp
  from Cons.IH [OF this] Cons.prems cleanup_key_visits [OF Cons.prems(1) k, of run calls] v
  show ?case by (simp split: prod.split option.split)
qed simp

lemma cleanup_rounds_visits:
  assumes run: "destructors_ok run"
  shows "live (tab, th) \<Longrightarrow>
    cleanup_rounds run n (tab, th, calls) =
      (case state_after run (concat (replicate n [0..<PthreadKeysMax])) (tab, th) of (tab', th') \<Rightarrow>
        Some (tab', th', calls @ calls_made run (concat (replicate n [0..<PthreadKeysMax])) (tab, th))) \<and>
    live (state_after run (concat (replicate n [0..<PthreadKeysMax])) (tab, th))"
proof (induction n arbitrary: tab th calls)
  case (Suc n)
  let ?ks = "[0..<PthreadKeysMax]"
  show ?case
  proof (cases "specific_data_count th > 0")
    case True
    obtain tab1 th1 where a: "state_after run ?ks (tab, th) = (tab1, th1)" by fastforce
    have "set ?ks \<subseteq> {..<PthreadKeysMax}" by auto
    from cleanup_keys_visits [OF run Suc.prems this, of calls] a
    have 1: "cleanup_keys run ?ks (tab, th, calls) = Some (tab1, th1, calls @ calls_made run ?ks (tab, th))" "live (tab1, th1)"
      by simp_all
    from Suc.IH [OF 1(2), of "calls @ calls_made run ?ks (tab, th)"] show ?thesis
      using True 1(1) a by (simp add: calls_made_append state_after_append split: prod.splits)
  next
    case False
    have "set (concat (replicate (Suc n) ?ks)) \<subseteq> {..<PthreadKeysMax}" by (auto simp: set_replicate_conv_if split: if_splits)
    from nothing_left [OF Suc.prems this, of run] False Suc.prems show ?thesis
      by (simp only: cleanup_rounds.simps snd_conv fst_conv simp_thms if_True prod.case append_Nil2)
  qed
qed simp

text \<open>
  C34: when a thread ends, the clean-up ends whatever the destructors do with keys and values (through
  the calls on them), and it does what visiting every key four times in order does, although it stops
  as soon as the thread's counter of values is zero: each key that has a value loses it, and a
  destructor is called exactly when it is due at that moment, with the value the thread had: the key
  exists, was not made anew since the value was set, and the value is not null.  So at most 1024
  destructors run, values that destructors set are destroyed in a later round, and if the
  destructors leave keys and values alone each due destructor runs once and no value is left.
\<close>

theorem cleanup_runs_due:
  assumes inv: "keys_inv tab th" and es: "specific th = Some es" and run: "destructors_ok run"
  shows "case state_after run four_rounds (tab, th) of (tab', th') \<Rightarrow>
      thread_cleanupspecific run tab th = Some (tab', th'\<lparr>specific := None\<rparr>, calls_made run four_rounds (tab, th)) \<and>
      keys_inv tab' th' \<and> length (calls_made run four_rounds (tab, th)) \<le> 1024 \<and>
      ((\<forall>f x s. run f x s = s) \<longrightarrow>
        calls_made run four_rounds (tab, th) = due_calls tab es [0..<PthreadKeysMax] \<and> specific_data_count th' = 0)"
proof -
  have "live (tab, th)" using inv es by (simp add: live_def)
  note r = cleanup_rounds_visits [OF run this, of PthreadDestructorIterations "[]", folded four_rounds_def]
  obtain tab' th' where a: "state_after run four_rounds (tab, th) = (tab', th')" by fastforce
  have c: "thread_cleanupspecific run tab th = Some (tab', th'\<lparr>specific := None\<rparr>, calls_made run four_rounds (tab, th))"
    using r es a by (simp add: thread_cleanupspecific_def)
  have "length four_rounds = 1024"
    by (simp add: four_rounds_def length_concat PthreadDestructorIterations_def PthreadKeysMax_def sum_list_replicate)
  then have l: "length (calls_made run four_rounds (tab, th)) \<le> 1024" using calls_made_length [of run four_rounds "(tab, th)"] by simp
  have q: "calls_made run four_rounds (tab, th) = due_calls tab es [0..<PthreadKeysMax] \<and> specific_data_count th' = 0"
    if "\<forall>f x s. run f x s = s"
    using c cleanup_quiet [OF inv es that] by (cases th; cases th') simp
  show ?thesis using a c r l q by (simp add: live_def)
qed

definition demo_keys :: key_table where
  "demo_keys = ThreadKeytable[3 := \<lparr>allocated = True, key_seqno = 1, destructor = Some 9\<rparr>]"

definition demo_elems :: "PthreadSpecificElem list" where
  "demo_elems = (replicate PthreadKeysMax \<lparr>sp_data = 0, sp_seqno = 0\<rparr>)[3 := \<lparr>sp_data = 5, sp_seqno = 1\<rparr>]"

definition demo_specific :: thread_specific where
  "demo_specific = \<lparr>specific = Some demo_elems, specific_data_count = 1\<rparr>"

lemma demo_keys_inv: "keys_inv demo_keys demo_specific"
proof -
  have "data_of demo_elems = {3}"
    by (auto simp: data_of_def demo_elems_def PthreadKeysMax_def nth_list_update split: if_splits)
  then show ?thesis
    by (simp add: keys_inv_def demo_keys_def demo_specific_def ThreadKeytable_def) (simp add: demo_elems_def)
qed

theorem cleanup_bounded_witness:
  "\<exists>tab' th' calls. thread_cleanupspecific (\<lambda>f x s. s) demo_keys demo_specific = Some (tab', th', calls) \<and>
    specific th' = None \<and> length calls \<le> 1024"
proof -
  have "destructors_ok (\<lambda>f x s. s)" by (simp add: destructors_ok_def)
  then show ?thesis by (rule cleanup_bounded [OF demo_keys_inv])
qed

text \<open>A destructor that sets the value once more is called again in the next round.\<close>

definition demo_run :: "nat \<Rightarrow> u64 \<Rightarrow> key_table \<times> thread_specific \<Rightarrow> key_table \<times> thread_specific" where
  "demo_run f x s = (if x = 5 then (fst s, snd (posix_pthread_setspecific 3 6 (fst s) (snd s))) else s)"

lemma demo_run_ok: "destructors_ok demo_run"
  unfolding destructors_ok_def
proof (intro allI impI)
  fix f x tab th
  assume "keys_inv tab th" "specific th \<noteq> None"
  moreover have "specific (snd (posix_pthread_setspecific 3 6 tab th)) \<noteq> None"
    using calculation(2) by (simp add: posix_pthread_setspecific_def Let_def)
  ultimately show "keys_inv (fst (demo_run f x (tab, th))) (snd (demo_run f x (tab, th))) \<and>
      specific (snd (demo_run f x (tab, th))) \<noteq> None"
    using setspecific_inv [of tab th 3 6] by (simp add: demo_run_def)
qed

lemma demo_visits:
  "due_call k (demo_keys, demo_specific) = (if k = 3 then Some (9, 5) else None)" if "k < PthreadKeysMax"
  using that
  by (auto simp: due_call_def due_def demo_keys_def demo_specific_def demo_elems_def ThreadKeytable_def nth_list_update
      PthreadKeysMax_def)

lemma demo_first_call:
  "\<exists>rest. calls_made demo_run four_rounds (demo_keys, demo_specific) = (9, 5) # rest"
proof -
  have v: "visit_key demo_run k (demo_keys, demo_specific) = (demo_keys, demo_specific)" if "k < 3" for k
    using that demo_visits [of k]
    by (simp add: visit_key_def null_slot_def PthreadKeysMax_def) (simp add: demo_specific_def demo_elems_def PthreadKeysMax_def)
  obtain ks where "[0..<PthreadKeysMax] = 0 # 1 # 2 # 3 # ks"
    by (simp add: PthreadKeysMax_def upt_rec)
  then obtain ls where l: "four_rounds = 0 # 1 # 2 # 3 # ls"
    by (simp add: four_rounds_def PthreadDestructorIterations_def numeral_eq_Suc)
  have k: "(0 :: nat) < PthreadKeysMax" "(1 :: nat) < PthreadKeysMax" "(2 :: nat) < PthreadKeysMax" "(3 :: nat) < PthreadKeysMax"
    by (simp_all add: PthreadKeysMax_def)
  show ?thesis unfolding l using demo_visits [OF k(1)] demo_visits [OF k(2)] demo_visits [OF k(3)] demo_visits [OF k(4)]
      v [of 0] v [of 1] v [of 2] by simp
qed

theorem cleanup_runs_due_witness:
  "\<exists>tab' th' rest. thread_cleanupspecific demo_run demo_keys demo_specific = Some (tab', th', (9, 5) # rest) \<and>
    length rest < 1024"
proof -
  have "specific demo_specific = Some demo_elems" by (simp add: demo_specific_def)
  from cleanup_runs_due [OF demo_keys_inv this demo_run_ok] demo_first_call show ?thesis by (auto split: prod.splits)
qed

end
