(* ===== verification/Pthread_Once.thy ===== *)
theory Pthread_Once
  imports Posix_Error
begin

section \<open>Initialising once\<close>

text \<open>
  \<^verbatim>\<open>posix_pthread_once\<close> of \<^verbatim>\<open>core/libraries/kernel/threads/pthread.cpp\<close>.  Threads agree on one of them to
  run an initialiser through one atomic word.  A step is one access to that word, a notification, or
  the end of the initialiser, so all interleavings are those of the code.  A thread may be cancelled in
  the initialiser; its clean-up handler then gives the work back.
\<close>

subsection \<open>The code\<close>

definition Once_NeverDone :: u32 where "Once_NeverDone = 0"
definition Once_Done :: u32 where "Once_Done = 1"
definition Once_InProgress :: u32 where "Once_InProgress = 2"
definition Once_Wait :: u32 where "Once_Wait = 3"

lemmas once_const_defs = Once_NeverDone_def Once_Done_def Once_InProgress_def Once_Wait_def

text \<open>
  Where a thread is in the call: at the head of the loop; after loading a value; before and in
  \<^verbatim>\<open>state.wait\<close>; in the initialiser; at the exchange, the store and the notification that follow it or
  that the handler of a cancellation makes; returned or gone.
\<close>

datatype once_pc =
    Once_start | Once_loaded u32 | Once_check u32 | Once_asleep u32
  | Once_running
  | Once_finish | Once_store | Once_notify
  | Once_cancel | Once_cancel_store | Once_cancel_notify
  | Once_returned s32 | Once_exited

text \<open>The word, where the threads are, and how often the initialiser came to its end.\<close>

record once_world =
  once_state :: u32
  once_at :: "nat \<Rightarrow> once_pc"
  completed :: nat

definition compare_exchange :: "u32 \<Rightarrow> u32 \<Rightarrow> once_world \<Rightarrow> bool \<times> once_world" where
  "compare_exchange expected new s =
     (if once_state s = expected then (True, s\<lparr>once_state := new\<rparr>) else (False, s))"

definition go :: "nat \<Rightarrow> once_pc \<Rightarrow> once_world \<Rightarrow> once_world" where
  "go t pc s = s\<lparr>once_at := (once_at s)(t := pc)\<rparr>"

text \<open>A notification wakes every thread that sleeps on the word; each looks at it again.\<close>

definition wake_up :: "once_pc \<Rightarrow> once_pc" where
  "wake_up pc = (case pc of Once_asleep v \<Rightarrow> Once_check v | pc \<Rightarrow> pc)"

definition notify_all :: "once_world \<Rightarrow> once_world" where
  "notify_all s = s\<lparr>once_at := (\<lambda>t. wake_up (once_at s t))\<rparr>"

definition once_dispatch :: "nat \<Rightarrow> u32 \<Rightarrow> once_world \<Rightarrow> once_world" where
  "once_dispatch t v s =
     (if v = Once_Done then go t (Once_returned 0) s
      else if v = Once_NeverDone then
        (let (ok, s) = compare_exchange v Once_InProgress s in go t (if ok then Once_running else Once_start) s)
      else if v = Once_InProgress then
        (let (ok, s) = compare_exchange v Once_Wait s in go t (if ok then Once_check Once_Wait else Once_start) s)
      else if v = Once_Wait then go t (Once_check v) s
      else go t (Once_returned POSIX_EINVAL) s)"

text \<open>
  One step of thread \<open>t\<close>; \<open>cancelled\<close> tells how the initialiser ends.  A thread that sleeps, returned or
  is gone has none.
\<close>

definition once_step :: "nat \<Rightarrow> bool \<Rightarrow> once_world \<Rightarrow> once_world option" where
  "once_step t cancelled s =
     (case once_at s t of
        Once_start \<Rightarrow> Some (go t (Once_loaded (once_state s)) s)
      | Once_loaded v \<Rightarrow> Some (once_dispatch t v s)
      | Once_check v \<Rightarrow> Some (go t (if once_state s = v then Once_asleep v else Once_start) s)
      | Once_running \<Rightarrow>
          Some (if cancelled then go t Once_cancel s else go t Once_finish (s\<lparr>completed := completed s + 1\<rparr>))
      | Once_finish \<Rightarrow>
          (let (ok, s) = compare_exchange Once_InProgress Once_Done s
           in Some (go t (if ok then Once_returned 0 else Once_store) s))
      | Once_store \<Rightarrow> Some (go t Once_notify (s\<lparr>once_state := Once_Done\<rparr>))
      | Once_notify \<Rightarrow> Some (go t (Once_returned 0) (notify_all s))
      | Once_cancel \<Rightarrow>
          (let (ok, s) = compare_exchange Once_InProgress Once_NeverDone s
           in Some (go t (if ok then Once_exited else Once_cancel_store) s))
      | Once_cancel_store \<Rightarrow> Some (go t Once_cancel_notify (s\<lparr>once_state := Once_NeverDone\<rparr>))
      | Once_cancel_notify \<Rightarrow> Some (go t Once_exited (notify_all s))
      | _ \<Rightarrow> None)"

definition once_init :: once_world where
  "once_init = \<lparr>once_state = Once_NeverDone, once_at = (\<lambda>t. Once_start), completed = 0\<rparr>"

inductive once_reachable :: "once_world \<Rightarrow> bool" where
  init: "once_reachable once_init"
| step: "once_reachable s \<Longrightarrow> once_step t c s = Some s' \<Longrightarrow> once_reachable s'"

subsection \<open>The invariant\<close>

text \<open>The thread whose work the initialiser is.\<close>

definition in_charge :: "once_pc \<Rightarrow> bool" where
  "in_charge pc \<longleftrightarrow> pc \<in> {Once_running, Once_finish, Once_store, Once_cancel, Once_cancel_store}"

definition notifying :: "once_pc \<Rightarrow> bool" where
  "notifying pc \<longleftrightarrow> pc \<in> {Once_notify, Once_cancel_notify}"

text \<open>One thread is in charge exactly while the word says that the work is under way.\<close>

definition charges :: "once_world \<Rightarrow> nat set" where
  "charges s = {t. in_charge (once_at s t)}"

definition charge_inv :: "once_world \<Rightarrow> bool" where
  "charge_inv s \<longleftrightarrow>
     (once_state s \<in> {Once_InProgress, Once_Wait} \<and> (\<exists>t. charges s = {t}) \<or>
      once_state s \<in> {Once_NeverDone, Once_Done} \<and> charges s = {}) \<and>
     (\<forall>t. once_at s t = Once_store \<or> once_at s t = Once_cancel_store \<longrightarrow> once_state s = Once_Wait) \<and>
     (\<forall>t v. once_at s t = Once_loaded v \<longrightarrow> v \<in> {Once_NeverDone, Once_Done, Once_InProgress, Once_Wait})"

text \<open>
  The work is done when the word says so or the thread in charge is about to say it, and whoever says
  that it is done, by returning or as a value it has loaded, is right.
\<close>

definition finishing :: "once_pc \<Rightarrow> bool" where
  "finishing pc \<longleftrightarrow> pc = Once_finish \<or> pc = Once_store"

definition says_done :: "once_pc \<Rightarrow> bool" where
  "says_done pc \<longleftrightarrow> pc = Once_returned 0 \<or> pc = Once_notify \<or> pc = Once_loaded Once_Done"

definition failed :: "once_pc \<Rightarrow> bool" where
  "failed pc \<longleftrightarrow> (\<exists>r. pc = Once_returned r \<and> r \<noteq> 0)"

definition done_inv :: "once_world \<Rightarrow> bool" where
  "done_inv s \<longleftrightarrow>
     completed s = (if once_state s = Once_Done \<or> {t. finishing (once_at s t)} \<noteq> {} then 1 else 0) \<and>
     ({t. says_done (once_at s t)} \<noteq> {} \<longrightarrow> once_state s = Once_Done) \<and>
     {t. failed (once_at s t)} = {}"

text \<open>Threads wait for one value only, and who sleeps is going to be woken.\<close>

definition asleep :: "once_pc \<Rightarrow> bool" where
  "asleep pc \<longleftrightarrow> (case pc of Once_asleep v \<Rightarrow> True | _ \<Rightarrow> False)"

definition waits_right :: "once_pc \<Rightarrow> bool" where
  "waits_right pc \<longleftrightarrow> (case pc of Once_check v \<Rightarrow> v = Once_Wait | Once_asleep v \<Rightarrow> v = Once_Wait | _ \<Rightarrow> True)"

definition sleep_inv :: "once_world \<Rightarrow> bool" where
  "sleep_inv s \<longleftrightarrow> (\<forall>t. waits_right (once_at s t)) \<and>
     ({t. asleep (once_at s t)} \<noteq> {} \<longrightarrow> once_state s = Once_Wait \<or> {u. notifying (once_at s u)} \<noteq> {})"

lemma once_distinct [simp]:
  "Once_NeverDone \<noteq> Once_Done" "Once_NeverDone \<noteq> Once_InProgress" "Once_NeverDone \<noteq> Once_Wait"
  "Once_Done \<noteq> Once_NeverDone" "Once_Done \<noteq> Once_InProgress" "Once_Done \<noteq> Once_Wait"
  "Once_InProgress \<noteq> Once_NeverDone" "Once_InProgress \<noteq> Once_Done" "Once_InProgress \<noteq> Once_Wait"
  "Once_Wait \<noteq> Once_NeverDone" "Once_Wait \<noteq> Once_Done" "Once_Wait \<noteq> Once_InProgress"
  by (simp_all add: once_const_defs)

lemma in_charge_simps [simp]:
  "in_charge Once_running" "in_charge Once_finish" "in_charge Once_store" "in_charge Once_cancel" "in_charge Once_cancel_store"
  "\<not> in_charge Once_start" "\<not> in_charge (Once_loaded v)" "\<not> in_charge (Once_check v)" "\<not> in_charge (Once_asleep v)"
  "\<not> in_charge Once_notify" "\<not> in_charge Once_cancel_notify" "\<not> in_charge (Once_returned r)" "\<not> in_charge Once_exited"
  by (simp_all add: in_charge_def)

lemma wake_up_charge [simp]: "in_charge (wake_up pc) = in_charge pc"
  by (cases pc) (simp_all add: wake_up_def)

lemma wake_up_eq [simp]:
  "wake_up pc = Once_store \<longleftrightarrow> pc = Once_store" "wake_up pc = Once_cancel_store \<longleftrightarrow> pc = Once_cancel_store"
  "wake_up pc = Once_finish \<longleftrightarrow> pc = Once_finish" "wake_up pc = Once_loaded v \<longleftrightarrow> pc = Once_loaded v"
  "wake_up pc = Once_returned r \<longleftrightarrow> pc = Once_returned r" "wake_up pc = Once_notify \<longleftrightarrow> pc = Once_notify"
  "wake_up pc \<noteq> Once_asleep v" "wake_up pc = Once_check v \<longleftrightarrow> pc = Once_check v \<or> pc = Once_asleep v"
  by (cases pc; auto simp: wake_up_def)+

lemma go_simps [simp]:
  "once_state (go t pc s) = once_state s" "completed (go t pc s) = completed s" "once_at (go t pc s) = (once_at s)(t := pc)"
  "charges (go t pc s) = (if in_charge pc then insert t (charges s) else charges s - {t})"
  by (auto simp: go_def charges_def)

lemma world_simps [simp]:
  "charges (s\<lparr>once_state := v\<rparr>) = charges s" "charges (s\<lparr>completed := n\<rparr>) = charges s" "charges (notify_all s) = charges s"
  "once_state (notify_all s) = once_state s" "completed (notify_all s) = completed s"
  "once_at (notify_all s) = (\<lambda>t. wake_up (once_at s t))"
  by (simp_all add: charges_def notify_all_def)

lemmas once_step_defs = once_step_def once_dispatch_def compare_exchange_def Let_def

lemma in_charges: "t \<in> charges s \<longleftrightarrow> in_charge (once_at s t)"
  by (simp add: charges_def)

text \<open>The kinds of step: without work, taking it, going on with it, giving it back, and asking to be woken.\<close>

lemma charge_owner:
  assumes "charge_inv s" "in_charge (once_at s t)"
  shows "charges s = {t}" "once_state s = Once_InProgress \<or> once_state s = Once_Wait"
proof -
  have "t \<in> charges s" using assms(2) by (simp add: in_charges)
  then show "charges s = {t}" "once_state s = Once_InProgress \<or> once_state s = Once_Wait"
    using assms(1) unfolding charge_inv_def by auto
qed

lemma not_in_charge: "u \<notin> charges s \<Longrightarrow> once_at s u \<noteq> Once_store \<and> once_at s u \<noteq> Once_cancel_store \<and> once_at s u \<noteq> Once_finish"
  by (metis in_charges in_charge_simps(2,3,5))

lemma charge_none: "\<not> in_charge (once_at s t) \<Longrightarrow> charges s - {t} = charges s"
  by (simp add: charges_def)

lemma charge_quiet:
  assumes inv: "charge_inv s" and t: "\<not> in_charge (once_at s t)" "\<not> in_charge pc"
    and pc: "pc = Once_loaded (once_state s) \<or> (\<forall>v. pc \<noteq> Once_loaded v)"
  shows "charge_inv (go t pc s)"
proof -
  have "pc \<noteq> Once_store" "pc \<noteq> Once_cancel_store" using t(2) by auto
  moreover have "once_state s \<in> {Once_NeverDone, Once_Done, Once_InProgress, Once_Wait}" using inv unfolding charge_inv_def by blast
  ultimately show ?thesis using inv pc unfolding charge_inv_def go_simps charge_none [OF t(1)] if_not_P [OF t(2)]
    by auto
qed

lemma charge_take:
  assumes inv: "charge_inv s" and st: "once_state s = Once_NeverDone"
  shows "charge_inv (go t Once_running (s\<lparr>once_state := Once_InProgress\<rparr>))"
proof -
  have "charges s = {}" using inv st unfolding charge_inv_def by auto
  then have "\<forall>u. once_at s u \<noteq> Once_store \<and> once_at s u \<noteq> Once_cancel_store" using not_in_charge by blast
  then show ?thesis using inv \<open>charges s = {}\<close> by (simp add: charge_inv_def)
qed

lemma charge_keep:
  assumes inv: "charge_inv s" and t: "in_charge (once_at s t)" "in_charge pc"
    and pc: "pc = Once_store \<or> pc = Once_cancel_store \<Longrightarrow> once_state s = Once_Wait"
  shows "charge_inv (go t pc s)"
proof -
  have "pc \<noteq> Once_loaded v" for v using t(2) by auto
  then show ?thesis using inv t pc charge_owner [OF inv t(1)] by (simp add: charge_inv_def)
qed

lemma charge_leave:
  assumes inv: "charge_inv s" and t: "in_charge (once_at s t)" "\<not> in_charge pc" "\<And>v. pc \<noteq> Once_loaded v"
    and v: "v = Once_NeverDone \<or> v = Once_Done"
  shows "charge_inv (go t pc (s\<lparr>once_state := v\<rparr>))"
proof -
  have c: "charges s = {t}" by (rule charge_owner [OF inv t(1)])
  have "\<forall>u. u \<noteq> t \<longrightarrow> once_at s u \<noteq> Once_store \<and> once_at s u \<noteq> Once_cancel_store" using c not_in_charge by blast
  moreover have "pc \<noteq> Once_store" "pc \<noteq> Once_cancel_store" using t(2) by auto
  ultimately show ?thesis using inv c t v by (auto simp: charge_inv_def)
qed

lemma charge_wait: "charge_inv s \<Longrightarrow> once_state s = Once_InProgress \<Longrightarrow> charge_inv (s\<lparr>once_state := Once_Wait\<rparr>)"
  by (simp add: charge_inv_def)

lemma charge_step:
  assumes inv: "charge_inv s" and st: "once_step t c s = Some s'"
  shows "charge_inv s'"
proof (cases "once_at s t")
  case Once_start
  then show ?thesis using st charge_quiet [OF inv, of t "Once_loaded (once_state s)"] by (simp add: once_step_def)
next
  case (Once_loaded v)
  then show ?thesis using st charge_quiet [OF inv, of t] charge_take [OF inv] charge_wait [OF inv]
      charge_quiet [OF charge_wait [OF inv], of t]
    by (auto simp: once_step_defs split: if_splits)
next
  case (Once_check v)
  then show ?thesis using st charge_quiet [OF inv, of t] by (auto simp: once_step_def)
next
  case Once_running
  moreover have "charge_inv (s\<lparr>completed := n\<rparr>)" for n using inv by (simp add: charge_inv_def)
  ultimately show ?thesis using st inv by (auto simp: once_step_def intro!: charge_keep split: if_splits)
next
  case Once_finish
  then show ?thesis using st charge_keep [OF inv, of t Once_store] charge_leave [OF inv, of t "Once_returned 0" Once_Done]
      charge_owner(2) [OF inv, of t]
    by (auto simp: once_step_defs split: if_splits)
next
  case Once_store
  then show ?thesis using st charge_leave [OF inv, of t Once_notify Once_Done] by (simp add: once_step_defs)
next
  case Once_notify
  moreover have "charge_inv (notify_all s)" using inv by (auto simp: charge_inv_def)
  ultimately show ?thesis using st by (auto simp: once_step_defs intro!: charge_quiet)
next
  case Once_cancel
  then show ?thesis using st charge_keep [OF inv, of t Once_cancel_store] charge_leave [OF inv, of t Once_exited Once_NeverDone]
      charge_owner(2) [OF inv, of t]
    by (auto simp: once_step_defs split: if_splits)
next
  case Once_cancel_store
  then show ?thesis using st charge_leave [OF inv, of t Once_cancel_notify Once_NeverDone] by (simp add: once_step_defs)
next
  case Once_cancel_notify
  moreover have "charge_inv (notify_all s)" using inv by (auto simp: charge_inv_def)
  ultimately show ?thesis using st by (auto simp: once_step_defs intro!: charge_quiet)
qed (use st in \<open>simp_all add: once_step_def\<close>)

lemma those_go: "{u. P (once_at (go t pc s) u)} = (if P pc then insert t {u. P (once_at s u)} else {u. P (once_at s u)} - {t})"
  by auto

lemma finishing_simps [simp]:
  "finishing Once_finish" "finishing Once_store" "\<not> finishing Once_running" "\<not> finishing Once_cancel" "\<not> finishing Once_cancel_store"
  "\<not> finishing Once_start" "\<not> finishing (Once_loaded v)" "\<not> finishing (Once_check v)" "\<not> finishing (Once_asleep v)"
  "\<not> finishing Once_notify" "\<not> finishing Once_cancel_notify" "\<not> finishing (Once_returned r)" "\<not> finishing Once_exited"
  by (simp_all add: finishing_def)

lemma says_done_simps [simp]:
  "says_done Once_notify" "says_done (Once_returned 0)" "says_done (Once_loaded v) = (v = Once_Done)" "\<not> says_done (Once_returned POSIX_EINVAL)"
  "\<not> says_done Once_finish" "\<not> says_done Once_store" "\<not> says_done Once_running" "\<not> says_done Once_cancel" "\<not> says_done Once_cancel_store"
  "\<not> says_done Once_start" "\<not> says_done (Once_check v)" "\<not> says_done (Once_asleep v)"
  "\<not> says_done Once_cancel_notify" "\<not> says_done Once_exited"
  by (simp_all add: says_done_def posix_error_defs)

lemma failed_simps [simp]:
  "failed (Once_returned r) = (r \<noteq> 0)" "\<not> failed Once_notify" "\<not> failed Once_cancel_notify" "\<not> failed Once_running"
  "\<not> failed Once_cancel" "\<not> failed Once_cancel_store" "\<not> failed Once_start" "\<not> failed (Once_loaded v)"
  "\<not> failed (Once_check v)" "\<not> failed (Once_asleep v)" "\<not> failed Once_finish" "\<not> failed Once_store" "\<not> failed Once_exited"
  by (simp_all add: failed_def)

lemma wake_up_done [simp]: "failed (wake_up pc) = failed pc" "finishing (wake_up pc) = finishing pc" "says_done (wake_up pc) = says_done pc"
  by (cases pc; simp add: wake_up_def)+

text \<open>The three sets after a step of one thread.\<close>

lemma done_go:
  "done_inv (go t pc s) \<longleftrightarrow>
     completed s = (if once_state s = Once_Done \<or> finishing pc \<or> {u. finishing (once_at s u)} - {t} \<noteq> {} then 1 else 0) \<and>
     (says_done pc \<or> {u. says_done (once_at s u)} - {t} \<noteq> {} \<longrightarrow> once_state s = Once_Done) \<and>
     \<not> failed pc \<and> {u. failed (once_at s u)} - {t} = {}"
  unfolding done_inv_def those_go go_simps(1,2) by auto

lemma says_doneD: "done_inv s \<Longrightarrow> says_done (once_at s t) \<Longrightarrow> once_state s = Once_Done"
  unfolding done_inv_def by blast

lemma done_quiet:
  assumes "done_inv s" "\<not> finishing (once_at s t)" "\<not> finishing pc" "\<not> failed pc"
    "says_done pc \<longrightarrow> once_state s = Once_Done"
  shows "done_inv (go t pc s)"
proof -
  have "{u. finishing (once_at s u)} - {t} = {u. finishing (once_at s u)}" using assms(2) by auto
  then show ?thesis using assms(1,3-5) unfolding done_go by (auto simp: done_inv_def)
qed

text \<open>While a thread is in charge, no other one is finishing, and nobody says that the work is done.\<close>

lemma done_charge:
  assumes "charge_inv s" "done_inv s" "in_charge (once_at s t)"
  shows "{u. finishing (once_at s u)} - {t} = {}" "{u. says_done (once_at s u)} = {}"
    "{u. failed (once_at s u)} = {}" "completed s = (if finishing (once_at s t) then 1 else 0)" "once_state s \<noteq> Once_Done"
proof -
  have c: "charges s = {t}" "once_state s \<noteq> Once_Done" using charge_owner [OF assms(1,3)] by auto
  have "u \<in> charges s" if "finishing (once_at s u)" for u using that by (auto simp: finishing_def charges_def)
  show "once_state s \<noteq> Once_Done" by (rule c(2))
  from \<open>\<And>u. finishing (once_at s u) \<Longrightarrow> u \<in> charges s\<close> show f: "{u. finishing (once_at s u)} - {t} = {}" using c(1) by auto
  show "{u. says_done (once_at s u)} = {}" "{u. failed (once_at s u)} = {}"
    using assms(2) c(2) unfolding done_inv_def by blast+
  have "{u. finishing (once_at s u)} \<noteq> {} \<longleftrightarrow> finishing (once_at s t)" using f by blast
  then show "completed s = (if finishing (once_at s t) then 1 else 0)" using assms(2) c(2) unfolding done_inv_def by simp
qed

lemma done_step:
  assumes inv: "charge_inv s" "done_inv s" and st: "once_step t c s = Some s'"
  shows "done_inv s'"
proof -
  note ch = done_charge [OF inv, of t]
  have n: "done_inv (notify_all s)" using inv(2) by (simp add: done_inv_def)
  show ?thesis
  proof (cases "once_at s t")
    case Once_start
    then show ?thesis using st done_quiet [OF inv(2), of t "Once_loaded (once_state s)"] by (simp add: once_step_def)
  next
    case (Once_loaded v)
    then have v: "v = Once_NeverDone \<or> v = Once_Done \<or> v = Once_InProgress \<or> v = Once_Wait"
      using inv(1) unfolding charge_inv_def by blast
    have "v = Once_Done \<longrightarrow> once_state s = Once_Done" using says_doneD [OF inv(2), of t] Once_loaded by simp
    moreover have "once_state s \<noteq> Once_Done \<Longrightarrow> w \<noteq> Once_Done \<Longrightarrow> done_inv (s\<lparr>once_state := w\<rparr>)" for w
      using inv(2) by (simp add: done_inv_def)
    ultimately show ?thesis using st Once_loaded v inv(2)
      by (auto simp: once_step_defs posix_error_defs intro!: done_quiet split: if_splits)
  next
    case (Once_check v)
    then show ?thesis using st inv(2) by (auto simp: once_step_def intro!: done_quiet split: if_splits)
  next
    case Once_running
    then show ?thesis using st ch by (auto simp: once_step_def done_go split: if_splits)
  next
    case Once_finish
    then show ?thesis using st ch by (auto simp: once_step_defs done_go posix_error_defs split: if_splits)
  next
    case Once_store
    then show ?thesis using st ch by (auto simp: once_step_defs done_go)
  next
    case Once_notify
    moreover have "once_state s = Once_Done" using says_doneD [OF inv(2), of t] Once_notify by simp
    ultimately show ?thesis using st n by (auto simp: once_step_defs posix_error_defs wake_up_def intro!: done_quiet)
  next
    case Once_cancel
    then show ?thesis using st ch by (auto simp: once_step_defs done_go split: if_splits)
  next
    case Once_cancel_store
    then show ?thesis using st ch by (auto simp: once_step_defs done_go)
  next
    case Once_cancel_notify
    then show ?thesis using st n by (auto simp: once_step_defs wake_up_def intro!: done_quiet)
  qed (use st in \<open>simp_all add: once_step_def\<close>)
qed

lemma notifying_simps [simp]:
  "notifying Once_notify" "notifying Once_cancel_notify" "\<not> notifying Once_running" "\<not> notifying Once_cancel" "\<not> notifying Once_cancel_store"
  "\<not> notifying Once_start" "\<not> notifying (Once_loaded v)" "\<not> notifying (Once_check v)" "\<not> notifying (Once_asleep v)"
  "\<not> notifying Once_finish" "\<not> notifying Once_store" "\<not> notifying (Once_returned r)" "\<not> notifying Once_exited"
  by (simp_all add: notifying_def)

lemma asleep_simps [simp]:
  "asleep (Once_asleep v)" "\<not> asleep Once_notify" "\<not> asleep Once_cancel_notify" "\<not> asleep Once_running" "\<not> asleep Once_cancel"
  "\<not> asleep Once_cancel_store" "\<not> asleep Once_start" "\<not> asleep (Once_loaded v)" "\<not> asleep (Once_check v)"
  "\<not> asleep Once_finish" "\<not> asleep Once_store" "\<not> asleep (Once_returned r)" "\<not> asleep Once_exited"
  by (simp_all add: asleep_def)

lemma waits_right_simps [simp]:
  "waits_right (Once_asleep v) = (v = Once_Wait)" "waits_right (Once_check v) = (v = Once_Wait)"
  "waits_right Once_notify" "waits_right Once_cancel_notify" "waits_right Once_running" "waits_right Once_cancel"
  "waits_right Once_cancel_store" "waits_right Once_start" "waits_right (Once_loaded w)"
  "waits_right Once_finish" "waits_right Once_store" "waits_right (Once_returned r)" "waits_right Once_exited"
  by (simp_all add: waits_right_def)

lemma sleep_go:
  assumes inv: "sleep_inv s" and t: "\<not> notifying (once_at s t)" and pc: "waits_right pc" "asleep pc \<longrightarrow> w = Once_Wait"
    and w: "w = once_state s \<or> once_state s \<noteq> Once_Wait \<or> notifying pc"
  shows "sleep_inv (go t pc (s\<lparr>once_state := w\<rparr>))"
proof -
  let ?s = "go t pc (s\<lparr>once_state := w\<rparr>)"
  have n: "{u. notifying (once_at ?s u)} = (if notifying pc then insert t {u. notifying (once_at s u)} else {u. notifying (once_at s u)})"
    using t by auto
  have "{u. asleep (once_at ?s u)} \<subseteq> {u. asleep (once_at s u)}" if "\<not> asleep pc" using that by auto
  then have "w = Once_Wait \<or> {u. notifying (once_at ?s u)} \<noteq> {}" if "{u. asleep (once_at ?s u)} \<noteq> {}"
    using that inv pc(2) w unfolding n sleep_inv_def by auto
  moreover have "waits_right (once_at ?s u)" for u using inv pc(1) by (simp add: sleep_inv_def)
  ultimately show ?thesis by (simp add: sleep_inv_def)
qed

lemma sleep_quiet:
  assumes "sleep_inv s" "\<not> notifying (once_at s t)" "waits_right pc" "asleep pc \<longrightarrow> once_state s = Once_Wait"
  shows "sleep_inv (go t pc s)"
  using sleep_go [of s t pc "once_state s"] assms by simp

lemma wake_up_sleep [simp]: "\<not> asleep (wake_up pc)" "waits_right (wake_up pc) = waits_right pc"
  by (cases pc; simp add: wake_up_def)+

lemma sleep_notify: "sleep_inv s \<Longrightarrow> waits_right pc \<Longrightarrow> \<not> asleep pc \<Longrightarrow> sleep_inv (go t pc (notify_all s))"
  by (simp add: sleep_inv_def)

lemma sleep_step:
  assumes ch: "charge_inv s" and inv: "sleep_inv s" and st: "once_step t c s = Some s'"
  shows "sleep_inv s'"
proof -
  have right: "waits_right (once_at s t)" using inv by (simp add: sleep_inv_def)
  have n: "sleep_inv (s\<lparr>completed := n\<rparr>)" for n using inv by (simp add: sleep_inv_def)
  show ?thesis
  proof (cases "once_at s t")
    case Once_start
    then show ?thesis using st inv by (auto simp: once_step_def intro!: sleep_quiet)
  next
    case (Once_loaded v)
    then show ?thesis using st inv by (auto simp: once_step_defs simp: sleep_quiet sleep_go split: if_splits)
  next
    case (Once_check v)
    then show ?thesis using st inv right by (auto simp: once_step_def intro!: sleep_quiet split: if_splits)
  next
    case Once_running
    then show ?thesis using st inv n by (auto simp: once_step_def intro!: sleep_quiet split: if_splits)
  next
    case Once_finish
    then show ?thesis using st inv by (auto simp: once_step_defs simp: sleep_quiet sleep_go split: if_splits)
  next
    case Once_store
    then show ?thesis using st inv by (auto simp: once_step_defs intro!: sleep_go)
  next
    case Once_notify
    then show ?thesis using st inv by (auto simp: once_step_defs intro!: sleep_notify)
  next
    case Once_cancel
    then show ?thesis using st inv by (auto simp: once_step_defs simp: sleep_quiet sleep_go split: if_splits)
  next
    case Once_cancel_store
    then show ?thesis using st inv by (auto simp: once_step_defs intro!: sleep_go)
  next
    case Once_cancel_notify
    then show ?thesis using st inv by (auto simp: once_step_defs intro!: sleep_notify)
  qed (use st in \<open>simp_all add: once_step_def\<close>)
qed

lemma once_reachable_inv: "once_reachable s \<Longrightarrow> charge_inv s \<and> done_inv s \<and> sleep_inv s"
proof (induction rule: once_reachable.induct)
  case init
  show ?case by (auto simp: once_init_def charge_inv_def charges_def done_inv_def sleep_inv_def)
next
  case (step s t c s')
  then show ?case using charge_step done_step sleep_step by blast
qed

subsection \<open>Theorems\<close>

fun once_run :: "(nat \<times> bool) list \<Rightarrow> once_world \<Rightarrow> once_world option" where
  "once_run [] s = Some s"
| "once_run ((t, c) # ts) s = do { s \<leftarrow> once_step t c s; once_run ts s }"

lemma once_run_reachable: "once_reachable s \<Longrightarrow> once_run ts s = Some s' \<Longrightarrow> once_reachable s'"
  by (induction ts s rule: once_run.induct) (auto split: bind_splits dest: once_reachable.step)

text \<open>
  C36: however the calls interleave and whichever are cancelled, the initialiser comes to its end at most
  once and never runs in two threads at a time, nor again after it came to its end; and every call that
  returns does so with success and after that end.
\<close>

theorem once_exactly_once:
  assumes "once_reachable s"
  shows "completed s \<le> 1 \<and>
    (once_at s t = Once_running \<longrightarrow> completed s = 0 \<and> (\<forall>u. once_at s u = Once_running \<longrightarrow> u = t)) \<and>
    (once_at s t = Once_returned r \<longrightarrow> r = 0 \<and> completed s = 1)"
proof -
  have inv: "charge_inv s" "done_inv s" using once_reachable_inv [OF assms] by simp_all
  have run: "completed s = 0 \<and> (\<forall>u. once_at s u = Once_running \<longrightarrow> u = t)" if t: "once_at s t = Once_running"
  proof -
    have "in_charge (once_at s t)" using t by simp
    from done_charge(4) [OF inv this] charge_owner(1) [OF inv(1) this] t show ?thesis
      using in_charges in_charge_simps(1) by (metis finishing_simps(3) singletonD)
  qed
  have "completed s = 1 \<and> r = 0" if t: "once_at s t = Once_returned r"
  proof -
    have "\<not> failed (once_at s t)" using inv(2) unfolding done_inv_def by blast
    then have "r = 0" using t by simp
    then have "once_state s = Once_Done" using says_doneD [OF inv(2), of t] t by simp
    then show ?thesis using inv(2) \<open>r = 0\<close> by (simp add: done_inv_def)
  qed
  moreover have "completed s \<le> 1" using inv(2) by (simp add: done_inv_def)
  ultimately show ?thesis using run by blast
qed

theorem once_exactly_once_witness:
  "\<exists>s. once_run [(0, False), (0, False), (0, False), (0, False)] once_init = Some s \<and>
    once_at s 0 = Once_returned 0 \<and> completed s = 1"
proof -
  obtain s where s: "once_run [(0, False), (0, False), (0, False), (0, False)] once_init = Some s"
    "once_at s 0 = Once_returned 0"
    by (simp add: once_step_defs once_init_def)
  from once_exactly_once [OF once_run_reachable [OF once_reachable.init s(1)], of 0 0] s show ?thesis by blast
qed

text \<open>
  C37: no call sleeps for ever: while a thread sleeps on the word another one is in charge of the
  initialiser or about to notify, and within four of its steps it wakes the sleeper.
\<close>

theorem once_no_lost_wakeup:
  assumes "once_reachable s" and t: "once_at s t = Once_asleep v"
  shows "\<exists>u n s'. u \<noteq> t \<and> n \<le> 4 \<and> once_run (replicate n (u, False)) s = Some s' \<and> once_at s' t = Once_check v"
proof -
  have inv: "charge_inv s" "sleep_inv s" using once_reachable_inv [OF assms(1)] by simp_all
  have "{t. asleep (once_at s t)} \<noteq> {}" using t by (metis (mono_tags) asleep_simps(1) empty_iff mem_Collect_eq)
  then consider u where "notifying (once_at s u)" | "once_state s = Once_Wait" using inv(2) unfolding sleep_inv_def by blast
  then show ?thesis
  proof cases
    case 1
    then have "once_run (replicate 1 (u, False)) s \<noteq> None \<and> u \<noteq> t \<and> once_at (the (once_run (replicate 1 (u, False)) s)) t = Once_check v"
      using t by (auto simp: notifying_def once_step_defs wake_up_def)
    then show ?thesis by (intro exI [of _ u] exI [of _ 1] exI [of _ "the (once_run (replicate 1 (u, False)) s)"]) simp
  next
    case 2
    then obtain u where u: "charges s = {u}" using inv(1) unfolding charge_inv_def by auto
    then have c: "in_charge (once_at s u)" using in_charges [of u s] by simp
    then have ut: "u \<noteq> t" using t by auto
    have "\<exists>n \<le> 4. \<exists>s'. once_run (replicate n (u, False)) s = Some s' \<and> once_at s' t = Once_check v"
    proof (cases "once_at s u")
      case Once_running
      then show ?thesis using 2 ut t by (intro exI [of _ 4]) (simp add: once_step_defs wake_up_def numeral_eq_Suc)
    next
      case Once_finish
      then show ?thesis using 2 ut t by (intro exI [of _ 3]) (simp add: once_step_defs wake_up_def numeral_eq_Suc)
    next
      case Once_store
      then show ?thesis using 2 ut t by (intro exI [of _ 2]) (simp add: once_step_defs wake_up_def numeral_eq_Suc)
    next
      case Once_cancel
      then show ?thesis using 2 ut t by (intro exI [of _ 3]) (simp add: once_step_defs wake_up_def numeral_eq_Suc)
    next
      case Once_cancel_store
      then show ?thesis using 2 ut t by (intro exI [of _ 2]) (simp add: once_step_defs wake_up_def numeral_eq_Suc)
    qed (use c in simp_all)
    then show ?thesis using ut by blast
  qed
qed

theorem once_no_lost_wakeup_witness:
  "\<exists>s u n s'. once_run [(0, False), (0, False), (1, False), (1, False), (1, False)] once_init = Some s \<and>
    once_at s 1 = Once_asleep Once_Wait \<and> u \<noteq> 1 \<and> n \<le> 4 \<and>
    once_run (replicate n (u, False)) s = Some s' \<and> once_at s' 1 = Once_check Once_Wait"
proof -
  obtain s where s: "once_run [(0, False), (0, False), (1, False), (1, False), (1, False)] once_init = Some s"
    "once_at s 1 = Once_asleep Once_Wait"
    by (simp add: once_step_defs once_init_def)
  from once_no_lost_wakeup [OF once_run_reachable [OF once_reachable.init s(1)] s(2)] s show ?thesis by blast
qed

end
