(* ===== verification/Thread_Attr.thy ===== *)
theory Thread_Attr
  imports Posix_Error
begin

section \<open>Attributes of threads\<close>

text \<open>
  \<^verbatim>\<open>core/libraries/kernel/threads/pthread_attr.cpp\<close>: the attributes a thread is made with and the calls
  that read and change them.  A variable of the game holds an attribute, a null pointer, or the
  argument itself is null: \<open>Some (Some a)\<close>, \<open>Some None\<close> and \<open>None\<close>.  Processor sets are allocated
  apart, at addresses, as the copies of an attribute share them.
\<close>

subsection \<open>Data\<close>

definition Sched_Fifo :: u32 where "Sched_Fifo = 1"
definition Sched_Other :: u32 where "Sched_Other = 2"
definition Sched_RoundRobin :: u32 where "Sched_RoundRobin = 3"

definition Attr_ScopeProcess :: u32 where "Attr_ScopeProcess = 0"
definition Attr_Detached :: u32 where "Attr_Detached = 1"
definition Attr_ScopeSystem :: u32 where "Attr_ScopeSystem = 2"
definition Attr_StackUser :: u32 where "Attr_StackUser = 0x100"

definition PthreadInheritSched :: s32 where "PthreadInheritSched = 4"
definition ORBIS_KERNEL_PRIO_FIFO_DEFAULT :: s32 where "ORBIS_KERNEL_PRIO_FIFO_DEFAULT = 700"
definition ThrStackDefault where "ThrStackDefault = MB 1"
definition ThrStackInitial where "ThrStackInitial = MB 2"
definition ThrPageSize where "ThrPageSize = KB 16"
definition ThrGuardDefault where "ThrGuardDefault = ThrPageSize"
definition PthreadStackMin where "PthreadStackMin = KB 16"

record PthreadAttr =
  sched_policy :: u32
  sched_inherit :: s32
  attr_prio :: s32
  suspend :: s32
  attr_flags :: u32
  stackaddr_attr :: u64
  stacksize_attr :: u64
  guardsize_attr :: u64
  cpusetsize :: u64
  cpuset :: "nat option"

record PthreadPrio =
  pri_min :: s32
  pri_max :: s32
  pri_default :: s32

definition ThrPriorities :: "PthreadPrio list" where
  "ThrPriorities = [\<lparr>pri_min = 0x100, pri_max = 0x2FF, pri_default = 0x2BC\<rparr>,
     \<lparr>pri_min = 0x300, pri_max = 0x3BF, pri_default = 0x384\<rparr>,
     \<lparr>pri_min = 0x100, pri_max = 0x2FF, pri_default = 0x2BC\<rparr>]"

definition PthreadAttrDefault :: PthreadAttr where
  "PthreadAttrDefault = \<lparr>sched_policy = Sched_Other, sched_inherit = PthreadInheritSched,
     attr_prio = ORBIS_KERNEL_PRIO_FIFO_DEFAULT, suspend = 0, attr_flags = Attr_ScopeSystem, stackaddr_attr = 0,
     stacksize_attr = ThrStackDefault, guardsize_attr = 0, cpusetsize = 0, cpuset = None\<rparr>"

lemmas attr_const_defs = Sched_Fifo_def Sched_Other_def Sched_RoundRobin_def Attr_ScopeProcess_def Attr_Detached_def
  Attr_ScopeSystem_def Attr_StackUser_def PthreadInheritSched_def ORBIS_KERNEL_PRIO_FIFO_DEFAULT_def
  ThrStackDefault_def ThrStackInitial_def ThrPageSize_def ThrGuardDefault_def PthreadStackMin_def

type_synonym attr_arg = "PthreadAttr option option"

subsection \<open>Reading\<close>

text \<open>The null checks of every call; \<open>outs\<close> tells whether the pointers to the results are there.\<close>

definition read_attr :: "attr_arg \<Rightarrow> bool \<Rightarrow> (PthreadAttr \<Rightarrow> 'a) \<Rightarrow> s32 + 'a" where
  "read_attr attr outs f = (case attr of Some (Some a) \<Rightarrow> (if outs then Inr (f a) else Inl POSIX_EINVAL) | _ \<Rightarrow> Inl POSIX_EINVAL)"

definition posix_pthread_attr_getdetachstate :: "attr_arg \<Rightarrow> bool \<Rightarrow> s32 + s32" where
  "posix_pthread_attr_getdetachstate attr out =
     read_attr attr out (\<lambda>a. if attr_flags a AND Attr_Detached \<noteq> 0 then 1 else 0)"

definition posix_pthread_attr_getguardsize :: "attr_arg \<Rightarrow> bool \<Rightarrow> s32 + u64" where
  "posix_pthread_attr_getguardsize attr out = read_attr attr out guardsize_attr"

text \<open>This one does not check where the result goes.\<close>

definition posix_pthread_attr_getinheritsched :: "attr_arg \<Rightarrow> s32 + s32" where
  "posix_pthread_attr_getinheritsched attr = read_attr attr True sched_inherit"

definition posix_pthread_attr_getschedparam :: "attr_arg \<Rightarrow> bool \<Rightarrow> s32 + s32" where
  "posix_pthread_attr_getschedparam attr out = read_attr attr out attr_prio"

definition posix_pthread_attr_getschedpolicy :: "attr_arg \<Rightarrow> bool \<Rightarrow> s32 + u32" where
  "posix_pthread_attr_getschedpolicy attr out = read_attr attr out sched_policy"

definition posix_pthread_attr_getscope :: "attr_arg \<Rightarrow> bool \<Rightarrow> s32 + u32" where
  "posix_pthread_attr_getscope attr out =
     read_attr attr out (\<lambda>a. if attr_flags a AND Attr_ScopeSystem \<noteq> 0 then Attr_ScopeSystem else Attr_ScopeProcess)"

definition posix_pthread_attr_getstack :: "attr_arg \<Rightarrow> bool \<Rightarrow> s32 + u64 \<times> u64" where
  "posix_pthread_attr_getstack attr outs = read_attr attr outs (\<lambda>a. (stackaddr_attr a, stacksize_attr a))"

definition posix_pthread_attr_getstackaddr :: "attr_arg \<Rightarrow> bool \<Rightarrow> s32 + u64" where
  "posix_pthread_attr_getstackaddr attr out = read_attr attr out stackaddr_attr"

definition posix_pthread_attr_getstacksize :: "attr_arg \<Rightarrow> bool \<Rightarrow> s32 + u64" where
  "posix_pthread_attr_getstacksize attr out = read_attr attr out stacksize_attr"

subsection \<open>Changing\<close>

definition change_attr :: "attr_arg \<Rightarrow> (PthreadAttr \<Rightarrow> s32 \<times> PthreadAttr) \<Rightarrow> s32 \<times> attr_arg" where
  "change_attr attr f =
     (case attr of Some (Some a) \<Rightarrow> (let (ret, a) = f a in (ret, Some (Some a))) | _ \<Rightarrow> (POSIX_EINVAL, attr))"

text \<open>\<open>attr\<close> must not be null here.\<close>

definition posix_pthread_attr_init :: "s32 \<times> attr_arg" where
  "posix_pthread_attr_init = (0, Some (Some PthreadAttrDefault))"

definition posix_pthread_attr_destroy :: "attr_arg \<Rightarrow> s32 \<times> attr_arg" where
  "posix_pthread_attr_destroy attr = (case attr of Some (Some a) \<Rightarrow> (0, Some None) | _ \<Rightarrow> (POSIX_EINVAL, attr))"

definition posix_pthread_attr_setcreatesuspend_np :: "attr_arg \<Rightarrow> s32 \<times> attr_arg" where
  "posix_pthread_attr_setcreatesuspend_np attr = change_attr attr (\<lambda>a. (0, a\<lparr>suspend := 1\<rparr>))"

definition prio_of :: "u32 \<Rightarrow> PthreadPrio" where
  "prio_of policy = ThrPriorities ! (unat policy - 1)"

definition posix_pthread_attr_setschedpolicy :: "u32 \<Rightarrow> attr_arg \<Rightarrow> s32 \<times> attr_arg" where
  "posix_pthread_attr_setschedpolicy policy attr =
     change_attr attr (\<lambda>a. if policy < Sched_Fifo \<or> policy > Sched_RoundRobin then (POSIX_ENOTSUP, a)
       else (0, a\<lparr>sched_policy := policy, attr_prio := pri_default (prio_of policy)\<rparr>))"

definition posix_pthread_attr_setscope :: "u32 \<Rightarrow> attr_arg \<Rightarrow> s32 \<times> attr_arg" where
  "posix_pthread_attr_setscope contentionscope attr =
     change_attr attr (\<lambda>a.
       if contentionscope \<noteq> Attr_ScopeProcess \<or> contentionscope \<noteq> Attr_ScopeSystem then (POSIX_EINVAL, a)
       else if contentionscope = Attr_ScopeSystem then (0, a\<lparr>attr_flags := attr_flags a OR contentionscope\<rparr>)
       else (0, a\<lparr>attr_flags := attr_flags a AND NOT Attr_ScopeSystem\<rparr>))"

definition posix_pthread_attr_setstack :: "u64 \<Rightarrow> u64 \<Rightarrow> attr_arg \<Rightarrow> s32 \<times> attr_arg" where
  "posix_pthread_attr_setstack stackaddr stacksize attr =
     change_attr attr (\<lambda>a. if stackaddr = 0 \<or> stacksize < PthreadStackMin then (POSIX_EINVAL, a)
       else (0, a\<lparr>stackaddr_attr := stackaddr, stacksize_attr := stacksize\<rparr>))"

definition posix_pthread_attr_setstackaddr :: "u64 \<Rightarrow> attr_arg \<Rightarrow> s32 \<times> attr_arg" where
  "posix_pthread_attr_setstackaddr stackaddr attr =
     change_attr attr (\<lambda>a. if stackaddr = 0 then (POSIX_EINVAL, a) else (0, a\<lparr>stackaddr_attr := stackaddr\<rparr>))"

definition posix_pthread_attr_setstacksize :: "u64 \<Rightarrow> attr_arg \<Rightarrow> s32 \<times> attr_arg" where
  "posix_pthread_attr_setstacksize stacksize attr =
     change_attr attr (\<lambda>a. if stacksize < PthreadStackMin then (POSIX_EINVAL, a) else (0, a\<lparr>stacksize_attr := stacksize\<rparr>))"

definition posix_pthread_attr_setdetachstate :: "s32 \<Rightarrow> attr_arg \<Rightarrow> s32 \<times> attr_arg" where
  "posix_pthread_attr_setdetachstate detachstate attr =
     change_attr attr (\<lambda>a. if detachstate \<noteq> 1 \<and> detachstate \<noteq> 0 then (POSIX_EINVAL, a)
       else if detachstate \<noteq> 0 then (0, a\<lparr>attr_flags := attr_flags a OR Attr_Detached\<rparr>)
       else (0, a\<lparr>attr_flags := attr_flags a AND NOT Attr_Detached\<rparr>))"

text \<open>\<open>param\<close> is the priority, or a null pointer.\<close>

definition posix_pthread_attr_setschedparam :: "s32 option \<Rightarrow> attr_arg \<Rightarrow> s32 \<times> attr_arg" where
  "posix_pthread_attr_setschedparam param attr =
     change_attr attr (\<lambda>a. case param of
         None \<Rightarrow> (POSIX_ENOTSUP, a)
       | Some sched_priority \<Rightarrow>
           (let policy = sched_policy a
            in if (policy = Sched_Fifo \<or> policy = Sched_RoundRobin) \<and>
                  (sint sched_priority < sint (pri_min (prio_of policy)) \<or> sint sched_priority > sint (pri_max (prio_of policy)))
               then (POSIX_ENOTSUP, a) else (0, a\<lparr>attr_prio := sched_priority\<rparr>)))"

definition posix_pthread_attr_setinheritsched :: "s32 \<Rightarrow> attr_arg \<Rightarrow> s32 \<times> attr_arg" where
  "posix_pthread_attr_setinheritsched inherit attr =
     change_attr attr (\<lambda>a. if inherit \<noteq> 4 \<and> inherit \<noteq> 0 then (POSIX_ENOTSUP, a) else (0, a\<lparr>sched_inherit := inherit\<rparr>))"

definition posix_pthread_attr_setguardsize :: "u64 \<Rightarrow> attr_arg \<Rightarrow> s32 \<times> attr_arg" where
  "posix_pthread_attr_setguardsize guardsize attr = change_attr attr (\<lambda>a. (0, a\<lparr>guardsize_attr := guardsize\<rparr>))"

text \<open>
  The copy that \<^verbatim>\<open>posix_pthread_attr_get_np\<close> makes of the attribute of a thread, which may be detached.
  (Finding the thread is in the theory of the calls on threads.)
\<close>

definition copied_attr :: "PthreadAttr \<Rightarrow> bool \<Rightarrow> PthreadAttr" where
  "copied_attr attr detached = (if detached then attr\<lparr>attr_flags := attr_flags attr OR Attr_Detached\<rparr> else attr)"

subsection \<open>Processor sets\<close>

text \<open>A set is 16 bytes: a word of bits, little end first, and a reserved one.\<close>

definition sizeof_Cpuset :: u64 where "sizeof_Cpuset = 16"

type_synonym cpuset_heap = "nat \<Rightarrow> u8 list option"

definition word_bytes :: "u64 \<Rightarrow> u8 list" where
  "word_bytes w = map (\<lambda>i. ucast (drop_bit (8 * i) w)) [0..<8]"

definition bytes_word :: "u8 list \<Rightarrow> u64" where
  "bytes_word bs = foldr (\<lambda>b w. push_bit 8 w OR ucast b) bs 0"

definition memcpy :: "'a list \<Rightarrow> 'a list \<Rightarrow> nat \<Rightarrow> 'a list" where
  "memcpy dst src n = take n src @ drop n dst"

text \<open>
  \<open>buffer\<close> is what the memory of the caller holds before the call.  A set that was freed is undefined,
  and so is copying beyond the end of one of the two.
\<close>

definition posix_pthread_attr_getaffinity_np :: "attr_arg \<Rightarrow> u64 \<Rightarrow> u8 list \<Rightarrow> cpuset_heap \<Rightarrow> (s32 \<times> u8 list) option" where
  "posix_pthread_attr_getaffinity_np pattr n buffer heap =
     (case pattr of
        Some (Some a) \<Rightarrow>
          (case cpuset a of
             Some p \<Rightarrow>
               do {
                 bits \<leftarrow> heap p;
                 let k = unat (min n (cpusetsize a));
                 ASSERT (k \<le> length bits \<and> k \<le> length buffer);
                 Some (0, memcpy buffer bits k)
               }
           | None \<Rightarrow> do { ASSERT (unat n \<le> length buffer); Some (0, memcpy buffer (replicate (unat n) (- 1)) (unat n)) })
      | _ \<Rightarrow> Some (POSIX_EINVAL, buffer))"

text \<open>The bytes of the caller's set, or a null pointer; \<open>fresh\<close> is where a new set is allocated.\<close>

definition posix_pthread_attr_setaffinity_np :: "nat \<Rightarrow> u64 \<Rightarrow> u8 list option \<Rightarrow> attr_arg \<Rightarrow> cpuset_heap
    \<Rightarrow> (s32 \<times> attr_arg \<times> cpuset_heap) option" where
  "posix_pthread_attr_setaffinity_np fresh n cpusetp pattr heap =
     (case pattr of
        Some (Some a) \<Rightarrow>
          (case (if n = 0 then None else cpusetp) of
             None \<Rightarrow>
               (case cpuset a of
                  Some p \<Rightarrow> do { _ \<leftarrow> heap p; Some (0, Some (Some (a\<lparr>cpuset := None, cpusetsize := 0\<rparr>)), heap(p := None)) }
                | None \<Rightarrow> Some (0, pattr, heap))
           | Some src \<Rightarrow>
               (let (a, p, heap) =
                  (case cpuset a of
                     Some p \<Rightarrow> (a, p, heap)
                   | None \<Rightarrow> (a\<lparr>cpuset := Some fresh, cpusetsize := sizeof_Cpuset\<rparr>, fresh,
                              heap(fresh \<mapsto> replicate (unat sizeof_Cpuset) 0)));
                    k = unat (min n sizeof_Cpuset)
                in do {
                     dst \<leftarrow> heap p;
                     ASSERT (k \<le> length src);
                     Some (0, Some (Some a), heap(p \<mapsto> memcpy dst src k))
                   }))
      | _ \<Rightarrow> Some (POSIX_EINVAL, pattr, heap))"

text \<open>Here the buffer is a variable that was not initialised.\<close>

definition scePthreadAttrGetaffinity :: "attr_arg \<Rightarrow> u8 list \<Rightarrow> cpuset_heap \<Rightarrow> (s32 + u64) option" where
  "scePthreadAttrGetaffinity attr buffer heap =
     do {
       (ret, bytes) \<leftarrow> posix_pthread_attr_getaffinity_np attr sizeof_Cpuset buffer heap;
       Some (if ret = 0 then Inr (bytes_word (take 8 bytes)) else Inl ret)
     }"

definition scePthreadAttrSetaffinity :: "nat \<Rightarrow> u64 \<Rightarrow> attr_arg \<Rightarrow> cpuset_heap \<Rightarrow> (s32 \<times> attr_arg \<times> cpuset_heap) option" where
  "scePthreadAttrSetaffinity fresh bits attr heap =
     posix_pthread_attr_setaffinity_np fresh sizeof_Cpuset (Some (word_bytes bits @ replicate 8 0)) attr heap"

subsection \<open>Theorems\<close>

text \<open>
  What the calls promise of an attribute: a policy there is, a priority in its range for the two real-time
  policies, inheritance on or off, room for the smallest stack, and no flags but those there are.
\<close>

definition flags_ok :: "u32 \<Rightarrow> bool" where
  "flags_ok f \<longleftrightarrow> f AND NOT (Attr_Detached OR Attr_ScopeSystem OR Attr_StackUser) = 0"

definition attr_ok :: "PthreadAttr \<Rightarrow> bool" where
  "attr_ok a \<longleftrightarrow> sched_policy a \<in> {Sched_Fifo, Sched_Other, Sched_RoundRobin} \<and> sched_inherit a \<in> {0, 4} \<and>
     suspend a \<in> {0, 1} \<and> PthreadStackMin \<le> stacksize_attr a \<and>
     flags_ok (attr_flags a) \<and>
     (sched_policy a \<noteq> Sched_Other \<longrightarrow> sint (pri_min (prio_of (sched_policy a))) \<le> sint (attr_prio a) \<and>
        sint (attr_prio a) \<le> sint (pri_max (prio_of (sched_policy a))))"

text \<open>
  The calls that change an attribute or copy one into it.  A call that fails or that finds no attribute
  leaves it; for \<^verbatim>\<open>Call_get_np\<close> that copies, the attribute of the thread and whether it is detached are
  given.
\<close>

datatype attr_call =
    Call_init | Call_destroy | Call_setcreatesuspend | Call_setschedpolicy u32 | Call_setscope u32
  | Call_setstack u64 u64 | Call_setstackaddr u64 | Call_setstacksize u64 | Call_setdetachstate s32
  | Call_setschedparam "s32 option" | Call_setinheritsched s32 | Call_setguardsize u64
  | Call_get_np PthreadAttr bool | Call_setaffinity nat u64 "u8 list option"

fun attr_exec :: "attr_call \<Rightarrow> attr_arg \<times> cpuset_heap \<Rightarrow> (s32 \<times> attr_arg \<times> cpuset_heap) option" where
  "attr_exec (Call_setaffinity fresh n cpusetp) (attr, heap) = posix_pthread_attr_setaffinity_np fresh n cpusetp attr heap"
| "attr_exec c (attr, heap) =
     (let (ret, attr) =
        (case c of
           Call_init \<Rightarrow> posix_pthread_attr_init
         | Call_destroy \<Rightarrow> posix_pthread_attr_destroy attr
         | Call_setcreatesuspend \<Rightarrow> posix_pthread_attr_setcreatesuspend_np attr
         | Call_setschedpolicy policy \<Rightarrow> posix_pthread_attr_setschedpolicy policy attr
         | Call_setscope scope \<Rightarrow> posix_pthread_attr_setscope scope attr
         | Call_setstack addr n \<Rightarrow> posix_pthread_attr_setstack addr n attr
         | Call_setstackaddr addr \<Rightarrow> posix_pthread_attr_setstackaddr addr attr
         | Call_setstacksize n \<Rightarrow> posix_pthread_attr_setstacksize n attr
         | Call_setdetachstate d \<Rightarrow> posix_pthread_attr_setdetachstate d attr
         | Call_setschedparam param \<Rightarrow> posix_pthread_attr_setschedparam param attr
         | Call_setinheritsched i \<Rightarrow> posix_pthread_attr_setinheritsched i attr
         | Call_setguardsize n \<Rightarrow> posix_pthread_attr_setguardsize n attr
         | Call_get_np thread_attr detached \<Rightarrow> change_attr attr (\<lambda>_. (0, copied_attr thread_attr detached))
         | Call_setaffinity fresh n cpusetp \<Rightarrow> (0, attr))
      in Some (ret, attr, heap))"

fun attr_run :: "attr_call list \<Rightarrow> attr_arg \<times> cpuset_heap \<Rightarrow> (attr_arg \<times> cpuset_heap) option" where
  "attr_run [] s = Some s"
| "attr_run (c # cs) s = do { (ret, s) \<leftarrow> attr_exec c s; attr_run cs s }"

fun arg_ok :: "attr_arg \<Rightarrow> bool" where
  "arg_ok (Some (Some a)) = attr_ok a"
| "arg_ok attr = True"

lemmas attr_setters = posix_pthread_attr_init_def posix_pthread_attr_destroy_def posix_pthread_attr_setcreatesuspend_np_def
  posix_pthread_attr_setschedpolicy_def posix_pthread_attr_setscope_def posix_pthread_attr_setstack_def
  posix_pthread_attr_setstackaddr_def posix_pthread_attr_setstacksize_def posix_pthread_attr_setdetachstate_def
  posix_pthread_attr_setschedparam_def posix_pthread_attr_setinheritsched_def posix_pthread_attr_setguardsize_def

lemma change_attr_ok:
  assumes "arg_ok attr" "\<And>a. attr_ok a \<Longrightarrow> attr_ok (snd (f a))"
  shows "arg_ok (snd (change_attr attr f))"
  using assms by (cases attr rule: arg_ok.cases) (force simp: change_attr_def split: prod.split)+

lemma policy_cases: "\<not> p < Sched_Fifo \<Longrightarrow> \<not> p > Sched_RoundRobin \<Longrightarrow> p \<in> {Sched_Fifo, Sched_Other, Sched_RoundRobin}" for p :: u32
  by (simp add: attr_const_defs word_less_nat_alt not_less word_unat_eq_iff) arith

lemma default_ok: "attr_ok PthreadAttrDefault"
  by (simp add: attr_ok_def PthreadAttrDefault_def flags_ok_def attr_const_defs size_literal_defs word_le_nat_alt)

lemma prio_defaults:
  "p \<in> {Sched_Fifo, Sched_Other, Sched_RoundRobin} \<Longrightarrow>
   sint (pri_min (prio_of p)) \<le> sint (pri_default (prio_of p)) \<and> sint (pri_default (prio_of p)) \<le> sint (pri_max (prio_of p))"
  by (auto simp: prio_of_def ThrPriorities_def attr_const_defs)

lemma flags_ok_step [simp]: "flags_ok f \<Longrightarrow> flags_ok (f OR Attr_Detached)"
  "flags_ok f \<Longrightarrow> flags_ok (f OR Attr_ScopeSystem)" "flags_ok f \<Longrightarrow> flags_ok (f OR Attr_StackUser)" "flags_ok f \<Longrightarrow> flags_ok (f AND NOT d)"
  by (auto simp: flags_ok_def bit_eq_iff bit_simps)

lemma setaffinity_ok:
  assumes "posix_pthread_attr_setaffinity_np fresh n cpusetp attr heap = Some (ret, attr', heap')" "arg_ok attr"
  shows "arg_ok attr'"
  using assms
  by (cases attr rule: arg_ok.cases)
     (auto simp: posix_pthread_attr_setaffinity_np_def Let_def attr_ok_def
       split: option.splits prod.splits if_splits bind_splits)

lemma attr_exec_ok:
  assumes "arg_ok attr" "attr_exec c (attr, heap) = Some (ret, attr', heap')"
    and "\<And>a d. c = Call_get_np a d \<Longrightarrow> attr_ok a"
  shows "arg_ok attr'"
proof (cases c)
  case Call_init
  then show ?thesis using assms(2) by (auto simp: attr_setters default_ok)
next
  case Call_destroy
  then show ?thesis using assms(1,2) by (auto simp: attr_setters split: option.splits)
next
  case (Call_setschedpolicy p)
  have "arg_ok (snd (posix_pthread_attr_setschedpolicy p attr))"
    using policy_cases [of p] prio_defaults [of p] assms(1) by (auto simp: attr_setters attr_ok_def intro!: change_attr_ok)
  then show ?thesis using assms(2) Call_setschedpolicy by (auto split: prod.splits)
next
  case (Call_setschedparam param)
  have "arg_ok (snd (posix_pthread_attr_setschedparam param attr))"
    using assms(1) by (auto simp: attr_setters attr_ok_def Let_def intro!: change_attr_ok split: option.split)
  then show ?thesis using assms(2) Call_setschedparam by (auto split: prod.splits)
next
  case (Call_setaffinity fresh n cpusetp)
  then show ?thesis using assms(1,2) setaffinity_ok by auto
next
  case (Call_get_np a d)
  have "arg_ok (snd (change_attr attr (\<lambda>_. (0 :: s32, copied_attr a d))))"
    using assms(1) assms(3) [OF Call_get_np] by (intro change_attr_ok) (auto simp: copied_attr_def attr_ok_def)
  then show ?thesis using assms(2) Call_get_np by (auto split: prod.splits)
next
  case Call_setcreatesuspend
  have "arg_ok (snd (posix_pthread_attr_setcreatesuspend_np attr))"
    using assms(1) by (auto simp: attr_setters attr_ok_def intro!: change_attr_ok)
  then show ?thesis using assms(2) Call_setcreatesuspend by (auto split: prod.splits)
next
  case (Call_setscope x)
  have "arg_ok (snd (posix_pthread_attr_setscope x attr))"
    using assms(1) by (auto simp: attr_setters attr_ok_def intro!: change_attr_ok)
  then show ?thesis using assms(2) Call_setscope by (auto split: prod.splits)
next
  case (Call_setstack x y)
  have "arg_ok (snd (posix_pthread_attr_setstack x y attr))"
    using assms(1) by (auto simp: attr_setters attr_ok_def intro!: change_attr_ok)
  then show ?thesis using assms(2) Call_setstack by (auto split: prod.splits)
next
  case (Call_setstackaddr x)
  have "arg_ok (snd (posix_pthread_attr_setstackaddr x attr))"
    using assms(1) by (auto simp: attr_setters attr_ok_def intro!: change_attr_ok)
  then show ?thesis using assms(2) Call_setstackaddr by (auto split: prod.splits)
next
  case (Call_setstacksize x)
  have "arg_ok (snd (posix_pthread_attr_setstacksize x attr))"
    using assms(1) by (auto simp: attr_setters attr_ok_def intro!: change_attr_ok)
  then show ?thesis using assms(2) Call_setstacksize by (auto split: prod.splits)
next
  case (Call_setdetachstate x)
  have "arg_ok (snd (posix_pthread_attr_setdetachstate x attr))"
    using assms(1) by (auto simp: attr_setters attr_ok_def intro!: change_attr_ok)
  then show ?thesis using assms(2) Call_setdetachstate by (auto split: prod.splits)
next
  case (Call_setinheritsched x)
  have "arg_ok (snd (posix_pthread_attr_setinheritsched x attr))"
    using assms(1) by (auto simp: attr_setters attr_ok_def intro!: change_attr_ok)
  then show ?thesis using assms(2) Call_setinheritsched by (auto split: prod.splits)
next
  case (Call_setguardsize x)
  have "arg_ok (snd (posix_pthread_attr_setguardsize x attr))"
    using assms(1) by (auto simp: attr_setters attr_ok_def intro!: change_attr_ok)
  then show ?thesis using assms(2) Call_setguardsize by (auto split: prod.splits)
qed

text \<open>
  C35: whatever calls a game makes on an attribute, in any order and with any arguments, copies of the
  attributes of threads included, it stays a valid one: a policy there is, the priority of a real-time
  policy in its range (changing the policy resets it), inheritance on or off, room for the smallest
  stack, no flags but those there are.  The attributes that are copied from threads have to be valid;
  that of a thread is not after \<^verbatim>\<open>posix_pthread_setprio\<close> or \<^verbatim>\<open>posix_pthread_setschedparam\<close> has stored
  a priority or policy, which they do not check.
\<close>

theorem attr_calls_valid:
  assumes "\<forall>a d. Call_get_np a d \<in> set calls \<longrightarrow> attr_ok a"
    and "attr_run calls (Some None, heap) = Some (attr, heap')"
  shows "arg_ok attr"
proof -
  have "arg_ok attr0 \<Longrightarrow> attr_run calls (attr0, heap) = Some (attr, heap') \<Longrightarrow>
      \<forall>a d. Call_get_np a d \<in> set calls \<longrightarrow> attr_ok a \<Longrightarrow> arg_ok attr" for attr0 heap calls
  proof (induction calls arbitrary: attr0 heap)
    case (Cons c calls)
    then obtain ret attr1 heap1 where e: "attr_exec c (attr0, heap) = Some (ret, attr1, heap1)"
      "attr_run calls (attr1, heap1) = Some (attr, heap')" by (auto simp: bind_eq_Some_conv)
    have "arg_ok attr1" using Cons.prems(3) by (intro attr_exec_ok [OF Cons.prems(1) e(1)]) auto
    with Cons e(2) show ?case by auto
  qed auto
  from this [of "Some None" calls heap] show ?thesis using assms by simp
qed

theorem attr_calls_valid_witness:
  "\<exists>a. attr_run [Call_init, Call_setschedpolicy Sched_Fifo, Call_setschedparam (Some 1000), Call_setschedparam (Some 300),
      Call_get_np (PthreadAttrDefault\<lparr>attr_flags := Attr_StackUser\<rparr>) True, Call_setschedpolicy Sched_RoundRobin]
      (Some None, \<lambda>_. None) = Some (Some (Some a), \<lambda>_. None) \<and> attr_ok a \<and> attr_prio a = 700"
proof -
  let ?d = "PthreadAttrDefault\<lparr>attr_flags := Attr_StackUser\<rparr>"
  let ?a = "PthreadAttrDefault\<lparr>attr_flags := Attr_StackUser OR Attr_Detached, sched_policy := Sched_RoundRobin, attr_prio := 700\<rparr>"
  let ?calls = "[Call_init, Call_setschedpolicy Sched_Fifo, Call_setschedparam (Some 1000), Call_setschedparam (Some 300),
      Call_get_np ?d True, Call_setschedpolicy Sched_RoundRobin]"
  have r: "attr_run ?calls (Some None, \<lambda>_. None) = Some (Some (Some ?a), \<lambda>_. None)"
    by (simp add: attr_setters change_attr_def copied_attr_def attr_const_defs prio_of_def ThrPriorities_def
        PthreadAttrDefault_def word_less_nat_alt)
  have "flags_ok Attr_StackUser" by (simp add: flags_ok_def attr_const_defs)
  then have "attr_ok ?d" using default_ok by (simp add: attr_ok_def)
  then have "\<forall>a d. Call_get_np a d \<in> set ?calls \<longrightarrow> attr_ok a" by simp
  from attr_calls_valid [OF this r] have "attr_ok ?a" by simp
  with r show ?thesis by auto
qed

text \<open>A priority out of range is copied as it is.\<close>

lemma invalid_copy:
  "\<not> attr_ok a \<Longrightarrow> attr_exec (Call_get_np a False) (Some (Some b), heap) = Some (0, Some (Some a), heap) \<and> \<not> arg_ok (Some (Some a))"
  by (simp add: change_attr_def copied_attr_def)

text \<open>The scope can never be set: the condition holds for every argument.\<close>

lemma setscope_fails: "posix_pthread_attr_setscope scope attr = (POSIX_EINVAL, attr)"
  by (auto simp: posix_pthread_attr_setscope_def change_attr_def attr_const_defs split: option.split)

lemma detached_bit: "(f OR Attr_Detached) AND Attr_Detached \<noteq> 0" "(f AND NOT Attr_Detached) AND Attr_Detached = 0"
  "Attr_Detached \<noteq> 0"
  by (simp_all add: attr_const_defs bit.conj_disj_distrib2 and.assoc)

lemma set_then_get:
  "posix_pthread_attr_setstack addr n (Some (Some a)) = (0, attr) \<Longrightarrow> posix_pthread_attr_getstack attr True = Inr (addr, n)"
  "posix_pthread_attr_setdetachstate d (Some (Some a)) = (0, attr) \<Longrightarrow> posix_pthread_attr_getdetachstate attr True = Inr d"
  "posix_pthread_attr_setschedparam (Some p) (Some (Some a)) = (0, attr) \<Longrightarrow> posix_pthread_attr_getschedparam attr True = Inr p"
  "posix_pthread_attr_setguardsize n (Some (Some a)) = (0, attr) \<Longrightarrow> posix_pthread_attr_getguardsize attr True = Inr n"
  by (auto simp: posix_pthread_attr_setstack_def posix_pthread_attr_getstack_def posix_pthread_attr_setdetachstate_def
      posix_pthread_attr_getdetachstate_def posix_pthread_attr_setschedparam_def posix_pthread_attr_getschedparam_def
      posix_pthread_attr_setguardsize_def posix_pthread_attr_getguardsize_def change_attr_def read_attr_def Let_def
      posix_error_defs detached_bit split: if_splits)

text \<open>Words and their bytes.\<close>

lemma low_byte: "push_bit 8 (drop_bit 8 x) OR ucast (ucast x :: u8) = x" for x :: u64
  by (rule bit_word_eqI) (auto simp: bit_simps)

lemma bytes_from: "k \<le> 8 \<Longrightarrow> bytes_word (map (\<lambda>i. ucast (drop_bit (8 * i) w)) [k..<8]) = drop_bit (8 * k) w"
proof (induction "8 - k" arbitrary: k)
  case 0
  then show ?case by (simp add: bytes_word_def)
next
  case (Suc n)
  have "push_bit 8 (drop_bit (8 * Suc k) w) OR ucast (ucast (drop_bit (8 * k) w) :: u8) = drop_bit (8 * k) w"
    using low_byte [of "drop_bit (8 * k) w"] by (simp add: add.commute)
  moreover have "bytes_word (map (\<lambda>i. ucast (drop_bit (8 * i) w)) [Suc k..<8]) = drop_bit (8 * Suc k) w"
    using Suc.hyps(1) [of "Suc k"] Suc.hyps(2) by linarith
  moreover have "[k..<8] = k # [Suc k..<8]" using Suc.hyps(2) by (simp add: upt_conv_Cons)
  ultimately show ?case by (simp add: bytes_word_def)
qed

lemma bytes_word_bytes [simp]: "bytes_word (word_bytes w) = w"
  using bytes_from [of 0 w] by (simp add: word_bytes_def)

lemma length_word_bytes [simp]: "length (word_bytes w) = 8"
  by (simp add: word_bytes_def)

text \<open>An attribute with a processor set of its own.\<close>

definition cpuset_ok :: "PthreadAttr \<Rightarrow> cpuset_heap \<Rightarrow> bool" where
  "cpuset_ok a heap \<longleftrightarrow> (\<forall>p. cpuset a = Some p \<longrightarrow> cpusetsize a = sizeof_Cpuset \<and> (\<exists>bits. heap p = Some bits \<and> length bits = 16))"

text \<open>
  The processors a game gives an attribute are the ones it reads back, whatever was in the memory the
  answer goes to, and the set stays well formed.
\<close>

theorem affinity_round_trip:
  assumes ok: "cpuset_ok a heap" and b: "length buffer = 16"
  shows "\<exists>a' heap'. scePthreadAttrSetaffinity fresh bits (Some (Some a)) heap = Some (0, Some (Some a'), heap') \<and>
    scePthreadAttrGetaffinity (Some (Some a')) buffer heap' = Some (Inr bits) \<and> cpuset_ok a' heap'"
proof (cases "cpuset a")
  case None
  then show ?thesis using b
    by (simp add: scePthreadAttrSetaffinity_def posix_pthread_attr_setaffinity_np_def scePthreadAttrGetaffinity_def
        posix_pthread_attr_getaffinity_np_def cpuset_ok_def memcpy_def sizeof_Cpuset_def)
next
  case (Some p)
  then show ?thesis using ok b
    by (auto simp: scePthreadAttrSetaffinity_def posix_pthread_attr_setaffinity_np_def scePthreadAttrGetaffinity_def
        posix_pthread_attr_getaffinity_np_def cpuset_ok_def memcpy_def sizeof_Cpuset_def)
qed

theorem affinity_round_trip_witness:
  "\<exists>a' heap'. scePthreadAttrSetaffinity 5 0x3F (Some (Some PthreadAttrDefault)) (\<lambda>p. None) = Some (0, Some (Some a'), heap') \<and>
    scePthreadAttrGetaffinity (Some (Some a')) (replicate 16 0) heap' = Some (Inr 0x3F)"
proof -
  have "cpuset_ok PthreadAttrDefault (\<lambda>p. None)" by (simp add: cpuset_ok_def PthreadAttrDefault_def)
  from affinity_round_trip [OF this, of "replicate 16 0" 5 "0x3F"] show ?thesis by auto
qed

text \<open>
  The attribute of a running thread is a copy with the size of the set put to zero (\<^verbatim>\<open>pthread_create\<close>);
  reading the processors of such a one copies nothing: the answer is what was in memory before.
\<close>

lemma affinity_of_copy:
  assumes "heap p = Some bits" "length buffer = 16"
  shows "scePthreadAttrGetaffinity (Some (Some (a\<lparr>cpuset := Some p, cpusetsize := 0\<rparr>))) buffer heap =
    Some (Inr (bytes_word (take 8 buffer)))"
  using assms by (simp add: scePthreadAttrGetaffinity_def posix_pthread_attr_getaffinity_np_def memcpy_def)

end
