(* ===== verification/Thread_State.thy ===== *)
theory Thread_State
  imports Thread_Attr Memory_Mapping Memory_Protect
begin

section \<open>The table of threads\<close>

text \<open>
  \<^verbatim>\<open>core/libraries/kernel/threads/thread_state.cpp\<close> and \<^verbatim>\<open>stack.cpp\<close>, with the heap of
  \<^verbatim>\<open>common/slab_heap.h\<close>: allocating, finding, counting references to and collecting the structures of
  threads, and their stacks.  A structure is known by the number of its slot in the heap.  The lists of
  the table are guarded by locks, so an operation is one step, except for \<^verbatim>\<open>TryCollect\<close>, which gives
  up the lock of a thread to take the one of the table, and gives up the one of the table before that of
  the thread.
\<close>

subsection \<open>Data\<close>

definition PthreadState_Running :: u32 where "PthreadState_Running = 0"
definition PthreadState_Dead :: u32 where "PthreadState_Dead = 1"
definition ThreadFlags_Detached :: u32 where "ThreadFlags_Detached = 8"
definition TidTerminated :: s32 where "TidTerminated = 1"

record Pthread =
  th_lock :: "nat option"
  th_tid :: s32
  refcount :: int
  th_attr :: PthreadAttr
  cancel_enable :: bool
  cancelling :: bool
  no_cancel :: bool
  cancel_async :: bool
  cancel_point :: bool
  th_state :: u32
  joiner :: "nat option"
  th_flags :: u32
  th_ret :: u64
  th_name :: string

text \<open>
  \<open>th_lock\<close> is the thread that keeps the lock of a structure from one step to the next; within a step the
  lock is taken and given up.
\<close>

text \<open>What a structure holds after its memory was cleared and it was constructed.\<close>

definition Pthread_new :: Pthread where
  "Pthread_new = \<lparr>th_lock = None, th_tid = 0, refcount = 0,
     th_attr = \<lparr>sched_policy = 0, sched_inherit = 0, attr_prio = 0, suspend = 0, attr_flags = 0, stackaddr_attr = 0,
       stacksize_attr = 0, guardsize_attr = 0, cpusetsize = 0, cpuset = None\<rparr>,
     cancel_enable = False, cancelling = False, no_cancel = False, cancel_async = False, cancel_point = False,
     th_state = PthreadState_Running, joiner = None, th_flags = 0, th_ret = 0, th_name = []\<rparr>"

definition ShouldCollect :: "Pthread \<Rightarrow> bool" where
  "ShouldCollect p \<longleftrightarrow> refcount p = 0 \<and> th_state p = PthreadState_Dead \<and> th_flags p AND ThreadFlags_Detached \<noteq> 0"

record Stack =
  st_stacksize :: u64
  st_guardsize :: u64
  st_stackaddr :: u64

text \<open>
  \<open>pthreads\<close> are the structures that are constructed.  The last fields are the stacks kept for reuse, the
  end of the last one that was mapped, and the memory they are mapped in.
\<close>

record ThreadState =
  pthreads :: "nat \<Rightarrow> Pthread option"
  thread_heap :: "nat list"
  threads :: "nat set"
  free_threads :: "nat list"
  gc_list :: "nat list"
  total_threads :: int
  active_threads :: int
  dstackq :: "Stack list"
  mstackq :: "Stack list"
  last_stack :: u64
  memory :: MemoryManager

definition GcThreshold :: nat where "GcThreshold = 5"
definition MaxThreads :: nat where "MaxThreads = 100000"
definition MaxCachedThreads :: nat where "MaxCachedThreads = 100"

definition GcNeeded :: "ThreadState \<Rightarrow> bool" where
  "GcNeeded s \<longleftrightarrow> length (gc_list s) \<ge> GcThreshold"

text \<open>The table after its heap was set up with \<open>n\<close> slots, the first one at the head.\<close>

definition ThreadState_new :: "nat \<Rightarrow> MemoryManager \<Rightarrow> ThreadState" where
  "ThreadState_new n mm = \<lparr>pthreads = (\<lambda>t. None), thread_heap = [0..<n], threads = {}, free_threads = [], gc_list = [],
     total_threads = 0, active_threads = 0, dstackq = [], mstackq = [], last_stack = 0, memory = mm\<rparr>"

subsection \<open>The heap\<close>

definition SlabHeap_Allocate :: "ThreadState \<Rightarrow> nat option \<times> ThreadState" where
  "SlabHeap_Allocate s =
     (case thread_heap s of
        [] \<Rightarrow> (None, s)
      | t # ts \<Rightarrow> (Some t, s\<lparr>thread_heap := ts, pthreads := (pthreads s)(t \<mapsto> Pthread_new)\<rparr>))"

text \<open>Destroying a structure that is not constructed is undefined.\<close>

definition destroy_at :: "nat \<Rightarrow> ThreadState \<Rightarrow> ThreadState option" where
  "destroy_at t s = do { _ \<leftarrow> pthreads s t; Some (s\<lparr>pthreads := (pthreads s)(t := None)\<rparr>) }"

definition SlabHeap_Free :: "nat \<Rightarrow> ThreadState \<Rightarrow> ThreadState option" where
  "SlabHeap_Free t s = do { s \<leftarrow> destroy_at t s; Some (s\<lparr>thread_heap := t # thread_heap s\<rparr>) }"

subsection \<open>Stacks\<close>

definition RoundUp :: "u64 \<Rightarrow> u64" where
  "RoundUp n = (if n mod ThrPageSize \<noteq> 0 then (n div ThrPageSize + 1) * ThrPageSize else n)"

text \<open>Taking the first stack of the given sizes out of the list.\<close>

fun take_stack :: "u64 \<Rightarrow> u64 \<Rightarrow> Stack list \<Rightarrow> (Stack \<times> Stack list) option" where
  "take_stack n g [] = None"
| "take_stack n g (st # sts) =
     (if st_stacksize st = n \<and> st_guardsize st = g then Some (st, sts)
      else case take_stack n g sts of None \<Rightarrow> None | Some (st', sts') \<Rightarrow> Some (st', st # sts'))"

definition spare_stack :: "u64 \<Rightarrow> u64 \<Rightarrow> ThreadState \<Rightarrow> (u64 \<times> ThreadState) option" where
  "spare_stack n g s =
     (if n = ThrStackDefault \<and> g = ThrGuardDefault
      then (case dstackq s of [] \<Rightarrow> None | st # sts \<Rightarrow> Some (st_stackaddr st, s\<lparr>dstackq := sts\<rparr>))
      else (case take_stack n g (mstackq s) of None \<Rightarrow> None | Some (st, sts) \<Rightarrow> Some (st_stackaddr st, s\<lparr>mstackq := sts\<rparr>)))"

definition UsrStack :: u64 where "UsrStack = 0x7EFFF8000"

definition CreateStack :: "PthreadAttr \<Rightarrow> ThreadState \<Rightarrow> (s32 \<times> PthreadAttr \<times> ThreadState) option" where
  "CreateStack attr s =
     (if stackaddr_attr attr \<noteq> 0
      then Some (0, attr\<lparr>guardsize_attr := 0, attr_flags := attr_flags attr OR Attr_StackUser\<rparr>, s)
      else
        let stacksize = RoundUp (stacksize_attr attr);
            guardsize = RoundUp (guardsize_attr attr);
            attr = attr\<lparr>attr_flags := attr_flags attr AND NOT Attr_StackUser\<rparr>
        in case spare_stack stacksize guardsize s of
             Some (addr, s) \<Rightarrow> Some (0, attr\<lparr>stackaddr_attr := addr\<rparr>, s)
           | None \<Rightarrow>
               (let last = (if last_stack s = 0 then UsrStack - ThrStackInitial - ThrGuardDefault else last_stack s);
                    stackaddr = last - stacksize - guardsize;
                    s = s\<lparr>last_stack := last - (stacksize + guardsize)\<rparr>
                in do {
                     (ret, out, mm) \<leftarrow> MapMemory (memory s) stackaddr (stacksize + guardsize) Prot_CpuReadWrite Map_NoFlags
                                           VMA_Stack ''anon'' False (- 1) 0;
                     ASSERT (ret = 0);
                     stackaddr \<leftarrow> out;
                     (ret, mm) \<leftarrow> (if guardsize \<noteq> 0 then Protect mm stackaddr guardsize Prot_NoAccess else Some (0, mm));
                     ASSERT (ret = 0);
                     let stackaddr = stackaddr + guardsize;
                     Some (if stackaddr \<noteq> 0 then 0 else - 1, attr\<lparr>stackaddr_attr := stackaddr\<rparr>, s\<lparr>memory := mm\<rparr>)
                   }))"

definition FreeStack :: "PthreadAttr \<Rightarrow> ThreadState \<Rightarrow> PthreadAttr \<times> ThreadState" where
  "FreeStack attr s =
     (if attr_flags attr AND Attr_StackUser \<noteq> 0 \<or> stackaddr_attr attr = 0 then (attr, s)
      else
        let spare = \<lparr>st_stacksize = RoundUp (stacksize_attr attr), st_guardsize = RoundUp (guardsize_attr attr),
                     st_stackaddr = stackaddr_attr attr\<rparr>
        in (attr\<lparr>stackaddr_attr := 0\<rparr>,
            if st_stacksize spare = ThrStackDefault \<and> st_guardsize spare = ThrGuardDefault
            then s\<lparr>dstackq := spare # dstackq s\<rparr> else s\<lparr>mstackq := mstackq s @ [spare]\<rparr>))"

subsection \<open>Structures\<close>

text \<open>The block that \<^verbatim>\<open>TcbDtor\<close> frees is not modelled.\<close>

definition Thread_Free :: "nat \<Rightarrow> ThreadState \<Rightarrow> ThreadState option" where
  "Thread_Free t s =
     do {
       s \<leftarrow> destroy_at t s;
       (if length (free_threads s) \<ge> MaxCachedThreads
        then do { s \<leftarrow> SlabHeap_Free t s; Some (s\<lparr>total_threads := total_threads s - 1\<rparr>) }
        else Some (s\<lparr>free_threads := free_threads s @ [t]\<rparr>))
     }"

text \<open>The stacks of the threads that terminated are freed first, then their structures.\<close>

definition collectable :: "ThreadState \<Rightarrow> nat \<Rightarrow> bool" where
  "collectable s t \<longleftrightarrow> (case pthreads s t of Some p \<Rightarrow> th_tid p = TidTerminated | None \<Rightarrow> False)"

fun collect_stacks :: "nat list \<Rightarrow> ThreadState \<Rightarrow> ThreadState option" where
  "collect_stacks [] s = Some s"
| "collect_stacks (t # ts) s =
     do {
       p \<leftarrow> pthreads s t;
       let (attr, s) = FreeStack (th_attr p) s;
       collect_stacks ts (s\<lparr>pthreads := (pthreads s)(t \<mapsto> p\<lparr>th_attr := attr\<rparr>)\<rparr>)
     }"

fun free_all :: "nat list \<Rightarrow> ThreadState \<Rightarrow> ThreadState option" where
  "free_all [] s = Some s"
| "free_all (t # ts) s = do { s \<leftarrow> Thread_Free t s; free_all ts s }"

definition Collect :: "ThreadState \<Rightarrow> ThreadState option" where
  "Collect s =
     do {
       let work_list = filter (collectable s) (gc_list s);
       ASSERT (\<forall>t \<in> set (gc_list s). pthreads s t \<noteq> None);
       s \<leftarrow> collect_stacks work_list (s\<lparr>gc_list := filter (\<lambda>t. \<not> collectable s t) (gc_list s)\<rparr>);
       free_all work_list s
     }"

text \<open>
  \<open>curthread\<close> tells whether there is a current thread, \<open>tcb\<close> is the block \<^verbatim>\<open>TcbCtor\<close> makes for thread-local
  storage, 0 when there is none.
\<close>

definition Thread_Alloc :: "bool \<Rightarrow> u64 \<Rightarrow> ThreadState \<Rightarrow> (nat option \<times> ThreadState) option" where
  "Thread_Alloc curthread tcb s =
     do {
       s \<leftarrow> (if curthread \<and> GcNeeded s then Collect s else Some s);
       let (thread, s) =
         (if curthread \<and> free_threads s \<noteq> []
          then (Some (last (free_threads s)), s\<lparr>free_threads := butlast (free_threads s)\<rparr>)
          else if total_threads s > int MaxThreads then (None, s)
          else (let (thread, s) = SlabHeap_Allocate s
                in (thread, if thread = None then s else s\<lparr>total_threads := total_threads s + 1\<rparr>)));
       (case thread of
          None \<Rightarrow> Some (None, s)
        | Some t \<Rightarrow>
            if tcb \<noteq> 0 then Some (Some t, s\<lparr>pthreads := (pthreads s)(t \<mapsto> Pthread_new)\<rparr>)
            else do { s \<leftarrow> SlabHeap_Free t s; Some (None, s\<lparr>total_threads := total_threads s - 1\<rparr>) })
     }"

text \<open>The result; with 0 the caller holds the lock of the thread.  A thread pointer may be null.\<close>

definition FindThread :: "nat option \<Rightarrow> bool \<Rightarrow> ThreadState \<Rightarrow> s32 option" where
  "FindThread thread include_dead s =
     (case thread of
        None \<Rightarrow> Some POSIX_EINVAL
      | Some t \<Rightarrow>
          if t \<notin> threads s then Some POSIX_ESRCH
          else do {
            p \<leftarrow> pthreads s t;
            Some (if \<not> include_dead \<and> th_state p = PthreadState_Dead then POSIX_ESRCH else 0)
          })"

definition set_thread :: "nat \<Rightarrow> (Pthread \<Rightarrow> Pthread) \<Rightarrow> ThreadState \<Rightarrow> ThreadState option" where
  "set_thread t f s = do { p \<leftarrow> pthreads s t; Some (s\<lparr>pthreads := (pthreads s)(t \<mapsto> f p)\<rparr>) }"

definition RefAdd :: "nat option \<Rightarrow> bool \<Rightarrow> ThreadState \<Rightarrow> (s32 \<times> ThreadState) option" where
  "RefAdd thread include_dead s =
     (case thread of
        None \<Rightarrow> Some (POSIX_EINVAL, s)
      | Some t \<Rightarrow>
          do {
            ret \<leftarrow> FindThread thread include_dead s;
            (if ret \<noteq> 0 then Some (ret, s)
             else do { s \<leftarrow> set_thread t (\<lambda>p. p\<lparr>refcount := refcount p + 1\<rparr>) s; Some (0, s) })
          })"

text \<open>
  \<^verbatim>\<open>TryCollect\<close> up to where it waits for the lock of the table; the result is whether it waits.  Then up to
  where it gives up the lock of the table: when the structure became garbage, the thread \<open>me\<close> still has the
  lock of the structure, and the result is that it does.  The structure of a thread that stays in the table
  is not given back, so giving up its lock is part of that step.  Last, giving up the lock of a structure,
  which is undefined when the structure is not there or the lock is not one's own.
\<close>

definition TryCollect_begin :: "nat \<Rightarrow> ThreadState \<Rightarrow> (bool \<times> ThreadState) option" where
  "TryCollect_begin t s =
     do {
       p \<leftarrow> pthreads s t;
       (if ShouldCollect p
        then do { s \<leftarrow> set_thread t (\<lambda>p. p\<lparr>refcount := refcount p + 1\<rparr>) s; Some (True, s) }
        else Some (False, s))
     }"

definition TryCollect_end :: "nat \<Rightarrow> nat \<Rightarrow> ThreadState \<Rightarrow> (bool \<times> ThreadState) option" where
  "TryCollect_end me t s =
     do {
       s \<leftarrow> set_thread t (\<lambda>p. p\<lparr>refcount := refcount p - 1\<rparr>) s;
       p \<leftarrow> pthreads s t;
       (if ShouldCollect p
        then do {
          s \<leftarrow> set_thread t (\<lambda>p. p\<lparr>th_lock := Some me\<rparr>) (s\<lparr>threads := threads s - {t}, gc_list := gc_list s @ [t]\<rparr>);
          Some (True, s)
        }
        else Some (False, s))
     }"

definition unlock_thread :: "nat \<Rightarrow> nat \<Rightarrow> ThreadState \<Rightarrow> ThreadState option" where
  "unlock_thread me t s =
     do {
       p \<leftarrow> pthreads s t;
       ASSERT (th_lock p = Some me);
       set_thread t (\<lambda>p. p\<lparr>th_lock := None\<rparr>) s
     }"

definition RefDelete_begin :: "nat \<Rightarrow> ThreadState \<Rightarrow> (bool \<times> ThreadState) option" where
  "RefDelete_begin t s = do { s \<leftarrow> set_thread t (\<lambda>p. p\<lparr>refcount := refcount p - 1\<rparr>) s; TryCollect_begin t s }"

definition Thread_Link :: "nat \<Rightarrow> ThreadState \<Rightarrow> ThreadState" where
  "Thread_Link t s = s\<lparr>threads := insert t (threads s), active_threads := active_threads s + 1\<rparr>"

definition Thread_Unlink :: "nat \<Rightarrow> ThreadState \<Rightarrow> ThreadState" where
  "Thread_Unlink t s = s\<lparr>threads := threads s - {t}, active_threads := active_threads s - 1\<rparr>"

text \<open>
  A full list of cached structures is fatal: \<^verbatim>\<open>Free\<close> destroys the structure, and \<^verbatim>\<open>SlabHeap::Free\<close> does so
  again.
\<close>

lemma Free_destroys_twice: "length (free_threads s) \<ge> MaxCachedThreads \<Longrightarrow> Thread_Free t s = None"
  by (auto simp: Thread_Free_def SlabHeap_Free_def destroy_at_def split: bind_splits)

end
