(* ===== verification/Pthread_Calls.thy ===== *)
theory Pthread_Calls
  imports Thread_State
begin

section \<open>Calls on threads\<close>

text \<open>
  \<^verbatim>\<open>core/libraries/kernel/threads/pthread.cpp\<close> and \<^verbatim>\<open>pthread_clean.cpp\<close>: making, joining, detaching and
  ending threads, and the calls that read and change one.  Each call is a function of the table; joining
  and ending, which other threads can run into, are cut where they wait.  A pointer to a thread is
  \<open>None\<close> when it is null; \<open>me\<close> is the structure of the calling thread.
\<close>

subsection \<open>Making a thread\<close>

definition KB128 where "KB128 = KB 128"

text \<open>The attribute of a new thread, before it has a stack.\<close>

definition new_attr :: "PthreadAttr option \<Rightarrow> attr_arg \<Rightarrow> PthreadAttr" where
  "new_attr cur attr =
     (let a = (case attr of Some (Some a) \<Rightarrow> a\<lparr>cpusetsize := 0\<rparr> | _ \<Rightarrow> PthreadAttrDefault);
          a = (case cur of
                 Some c \<Rightarrow>
                   (if sched_inherit a = PthreadInheritSched
                    then (let a = (if attr_flags c AND Attr_ScopeSystem \<noteq> 0
                                   then a\<lparr>attr_flags := attr_flags a OR Attr_ScopeSystem\<rparr>
                                   else a\<lparr>attr_flags := attr_flags a AND NOT Attr_ScopeSystem\<rparr>)
                          in a\<lparr>attr_prio := attr_prio c, sched_policy := sched_policy c\<rparr>)
                    else a)
               | None \<Rightarrow> a)
      in if stackaddr_attr a = 0 then a\<lparr>stacksize_attr := stacksize_attr a + KB128\<rparr> else a)"

text \<open>
  \<open>name\<close> is where the name is and what it says, \<open>auto_name\<close> the one made from the number, \<open>native\<close> the
  result of making the host's thread.  The result, the thread, the counter of numbers, and the table.
\<close>

definition posix_pthread_create_name_np ::
    "nat option \<Rightarrow> u64 \<Rightarrow> s32 \<Rightarrow> attr_arg \<Rightarrow> (u64 \<times> string) option \<Rightarrow> string \<Rightarrow> s32 \<Rightarrow> ThreadState
     \<Rightarrow> (s32 \<times> nat option \<times> s32 \<times> ThreadState) option" where
  "posix_pthread_create_name_np me tcb counter attr name auto_name native s =
     do {
       (new, s) \<leftarrow> Thread_Alloc (me \<noteq> None) tcb s;
       (case new of
          None \<Rightarrow> Some (POSIX_EAGAIN, None, counter, s)
        | Some t \<Rightarrow>
            do {
              cur \<leftarrow> (case me of None \<Rightarrow> Some None | Some m \<Rightarrow> map_option (\<lambda>p. Some (th_attr p)) (pthreads s m));
              let a = new_attr cur attr;
              let counter = counter + 1;
              (ret, a, s) \<leftarrow> CreateStack a s;
              s \<leftarrow> set_thread t (\<lambda>p. p\<lparr>th_attr := a, th_tid := counter\<rparr>) s;
              (if ret \<noteq> 0 then do { s \<leftarrow> Thread_Free t s; Some (POSIX_EAGAIN, None, counter, s) }
               else do {
                 name \<leftarrow> (case name of
                            None \<Rightarrow> Some auto_name
                          | Some (addr, str) \<Rightarrow>
                              do { valid \<leftarrow> IsValidMapping (memory s) addr 0; Some (if valid then str else auto_name) });
                 s \<leftarrow> set_thread t (\<lambda>p. p\<lparr>cancel_enable := True, cancel_async := False, th_name := name,
                        th_state := PthreadState_Running,
                        th_flags := (if attr_flags a AND Attr_Detached \<noteq> 0 then th_flags p OR ThreadFlags_Detached
                                     else th_flags p),
                        refcount := 1\<rparr>) s;
                 let s = Thread_Link t s;
                 Some (if native \<noteq> 0 then (- 1, None, counter, s) else (0, Some t, counter, s))
               })
            })
     }"

definition posix_pthread_create :: "nat option \<Rightarrow> u64 \<Rightarrow> s32 \<Rightarrow> attr_arg \<Rightarrow> string \<Rightarrow> s32 \<Rightarrow> ThreadState
     \<Rightarrow> (s32 \<times> nat option \<times> s32 \<times> ThreadState) option" where
  "posix_pthread_create me tcb counter attr auto_name native s =
     posix_pthread_create_name_np me tcb counter attr None auto_name native s"

subsection \<open>Ending a thread\<close>

record PthreadCleanup =
  routine :: u64
  routine_arg :: u64
  onheap :: bool

type_synonym cleanup_stack = "PthreadCleanup list"

definition pthread_cleanup_push_imp :: "u64 \<Rightarrow> u64 \<Rightarrow> cleanup_stack \<Rightarrow> cleanup_stack" where
  "pthread_cleanup_push_imp f arg st = \<lparr>routine = f, routine_arg = arg, onheap = False\<rparr> # st"

definition posix_pthread_cleanup_push :: "u64 \<Rightarrow> u64 \<Rightarrow> cleanup_stack \<Rightarrow> cleanup_stack" where
  "posix_pthread_cleanup_push f arg st = \<lparr>routine = f, routine_arg = arg, onheap = True\<rparr> # st"

text \<open>The call that is made, and the stack before it.\<close>

definition posix_pthread_cleanup_pop :: "bool \<Rightarrow> cleanup_stack \<Rightarrow> (u64 \<times> u64) option \<times> cleanup_stack" where
  "posix_pthread_cleanup_pop execute st =
     (case st of
        [] \<Rightarrow> (None, [])
      | old # st \<Rightarrow> (if execute then Some (routine old, routine_arg old) else None, st))"

text \<open>
  The loop of \<^verbatim>\<open>posix_pthread_exit\<close>.  \<open>run f x\<close> is what the routine leaves of the stack; it may push again,
  so the loop need not end.  The calls in order.
\<close>

partial_function (option) exit_cleanup :: "(u64 \<Rightarrow> u64 \<Rightarrow> cleanup_stack \<Rightarrow> cleanup_stack) \<Rightarrow> cleanup_stack
    \<Rightarrow> (u64 \<times> u64) list \<Rightarrow> (u64 \<times> u64) list option" where
  "exit_cleanup run st calls =
     (case st of
        [] \<Rightarrow> Some calls
      | old # st \<Rightarrow> exit_cleanup run (run (routine old) (routine_arg old) st) (calls @ [(routine old, routine_arg old)]))"

text \<open>\<^verbatim>\<open>posix_pthread_exit\<close> up to the clean-up handlers.\<close>

definition exit_begin :: "nat \<Rightarrow> u64 \<Rightarrow> ThreadState \<Rightarrow> ThreadState option" where
  "exit_begin me status s =
     set_thread me (\<lambda>p. p\<lparr>cancelling := True, no_cancel := True, cancel_async := False, cancel_point := False, th_ret := status\<rparr>) s"

text \<open>
  \<^verbatim>\<open>ExitThread\<close> after the destructors: up to where it waits in \<^verbatim>\<open>TryCollect\<close>; the store that lets the
  joiner go on; and the end of the host's thread, which is a method of the structure.
\<close>

definition exit_thread :: "nat \<Rightarrow> ThreadState \<Rightarrow> (bool \<times> ThreadState) option" where
  "exit_thread me s =
     do {
       s \<leftarrow> set_thread me (\<lambda>p. p\<lparr>th_state := PthreadState_Dead, refcount := refcount p - 1\<rparr>)
              (s\<lparr>active_threads := active_threads s - 1\<rparr>);
       TryCollect_begin me s
     }"

definition exit_terminated :: "nat \<Rightarrow> ThreadState \<Rightarrow> ThreadState option" where
  "exit_terminated me s = set_thread me (\<lambda>p. p\<lparr>th_tid := TidTerminated\<rparr>) s"

definition exit_native :: "nat \<Rightarrow> ThreadState \<Rightarrow> ThreadState option" where
  "exit_native me s = do { _ \<leftarrow> pthreads s me; Some s }"

subsection \<open>Joining and detaching\<close>

definition join_begin :: "nat \<Rightarrow> nat option \<Rightarrow> ThreadState \<Rightarrow> (s32 \<times> ThreadState) option" where
  "join_begin me thread s =
     (case thread of
        None \<Rightarrow> Some (POSIX_EINVAL, s)
      | Some t \<Rightarrow>
          if t = me then Some (POSIX_EDEADLK, s)
          else do {
            ret \<leftarrow> FindThread thread True s;
            (if ret \<noteq> 0 then Some (POSIX_ESRCH, s)
             else do {
               p \<leftarrow> pthreads s t;
               (if th_flags p AND ThreadFlags_Detached \<noteq> 0 then Some (POSIX_EINVAL, s)
                else if joiner p \<noteq> None then Some (POSIX_ENOTSUP, s)
                else do { s \<leftarrow> set_thread t (\<lambda>p. p\<lparr>joiner := Some me\<rparr>) s; Some (0, s) })
             })
          })"

text \<open>The loop on the number of the thread, and what follows: the value the thread returned.\<close>

definition join_ready :: "nat \<Rightarrow> ThreadState \<Rightarrow> bool option" where
  "join_ready t s = do { p \<leftarrow> pthreads s t; Some (th_tid p = TidTerminated) }"

definition join_end :: "nat \<Rightarrow> ThreadState \<Rightarrow> (u64 \<times> bool \<times> ThreadState) option" where
  "join_end t s =
     do {
       p \<leftarrow> pthreads s t;
       s \<leftarrow> set_thread t (\<lambda>p. p\<lparr>th_flags := th_flags p OR ThreadFlags_Detached, joiner := None\<rparr>) s;
       (pending, s) \<leftarrow> TryCollect_begin t s;
       Some (th_ret p, pending, s)
     }"

definition posix_pthread_timedjoin_np :: "nat \<Rightarrow> nat option \<Rightarrow> OrbisKernelTimespec option \<Rightarrow> ThreadState
    \<Rightarrow> (s32 \<times> ThreadState) option" where
  "posix_pthread_timedjoin_np me thread abstime s =
     (case abstime of
        None \<Rightarrow> Some (POSIX_EINVAL, s)
      | Some ts \<Rightarrow> if sint (tv_sec ts) < 0 \<or> bad_nsec ts then Some (POSIX_EINVAL, s) else join_begin me thread s)"

definition detach_begin :: "nat option \<Rightarrow> ThreadState \<Rightarrow> (s32 \<times> bool \<times> ThreadState) option" where
  "detach_begin thread s =
     (case thread of
        None \<Rightarrow> Some (POSIX_EINVAL, False, s)
      | Some t \<Rightarrow>
          do {
            ret \<leftarrow> FindThread thread True s;
            (if ret \<noteq> 0 then Some (ret, False, s)
             else do {
               p \<leftarrow> pthreads s t;
               (if th_flags p AND ThreadFlags_Detached \<noteq> 0 \<or> joiner p \<noteq> None then Some (POSIX_EINVAL, False, s)
                else do {
                  s \<leftarrow> set_thread t (\<lambda>p. p\<lparr>th_flags := th_flags p OR ThreadFlags_Detached\<rparr>) s;
                  (pending, s) \<leftarrow> TryCollect_begin t s;
                  Some (0, pending, s)
                })
             })
          })"

subsection \<open>Reading and changing a thread\<close>

text \<open>All of \<^verbatim>\<open>RefDelete\<close>, when no other thread comes in between.\<close>

definition RefDelete :: "nat \<Rightarrow> nat \<Rightarrow> ThreadState \<Rightarrow> ThreadState option" where
  "RefDelete me t s =
     do {
       (pending, s) \<leftarrow> RefDelete_begin t s;
       (locked, s) \<leftarrow> (if pending then TryCollect_end me t s else Some (False, s));
       (if locked then unlock_thread me t s else Some s)
     }"

text \<open>Work on a thread under a reference to it; the first component is the error of finding it.\<close>

definition with_ref :: "nat \<Rightarrow> nat option \<Rightarrow> (nat \<Rightarrow> ThreadState \<Rightarrow> ('a \<times> ThreadState) option) \<Rightarrow> ThreadState
    \<Rightarrow> ((s32 + 'a) \<times> ThreadState) option" where
  "with_ref me thread f s =
     do {
       (ret, s) \<leftarrow> RefAdd thread False s;
       (case thread of
          Some t \<Rightarrow> if ret \<noteq> 0 then Some (Inl ret, s)
                    else do { (x, s) \<leftarrow> f t s; s \<leftarrow> RefDelete me t s; Some (Inr x, s) }
        | None \<Rightarrow> Some (Inl ret, s))
     }"

text \<open>At most 32 characters are copied, and no end is written.\<close>

definition copy_name :: "string \<Rightarrow> string \<Rightarrow> string" where
  "copy_name buffer name = memcpy buffer name (min (length name) 32)"

definition posix_pthread_getname_np :: "nat \<Rightarrow> nat option \<Rightarrow> string \<Rightarrow> ThreadState
    \<Rightarrow> (s32 \<times> string \<times> ThreadState) option" where
  "posix_pthread_getname_np me thread buffer s =
     (if thread = Some me then do { p \<leftarrow> pthreads s me; Some (0, copy_name buffer (th_name p), s) }
      else do {
        (r, s) \<leftarrow> with_ref me thread (\<lambda>t s. do {
           p \<leftarrow> pthreads s t;
           Some (if th_state p \<noteq> PthreadState_Dead then copy_name buffer (th_name p) else buffer, s) }) s;
        Some (case r of Inl ret \<Rightarrow> (POSIX_ESRCH, buffer, s) | Inr buffer \<Rightarrow> (0, buffer, s))
      })"

text \<open>Setting the name of a thread and of its stack.\<close>

definition name_thread :: "string option \<Rightarrow> nat \<Rightarrow> ThreadState \<Rightarrow> ThreadState option" where
  "name_thread name t s =
     do {
       p \<leftarrow> pthreads s t;
       s \<leftarrow> set_thread t (\<lambda>p. p\<lparr>th_name := (case name of None \<Rightarrow> [] | Some n \<Rightarrow> n)\<rparr>) s;
       (case name of
          Some n \<Rightarrow>
            (if attr_flags (th_attr p) AND Attr_StackUser = 0
             then do {
               mm \<leftarrow> NameVirtualRange (memory s) (stackaddr_attr (th_attr p)) (stacksize_attr (th_attr p)) n;
               Some (s\<lparr>memory := mm\<rparr>)
             } else Some s)
        | None \<Rightarrow> Some s)
     }"

definition posix_pthread_rename_np :: "nat \<Rightarrow> nat option \<Rightarrow> string option \<Rightarrow> ThreadState \<Rightarrow> (s32 \<times> ThreadState) option" where
  "posix_pthread_rename_np me thread name s =
     (if thread = Some me then do { s \<leftarrow> name_thread name me s; Some (0, s) }
      else do {
        (r, s) \<leftarrow> with_ref me thread (\<lambda>t s. do {
           p \<leftarrow> pthreads s t;
           s \<leftarrow> (if th_state p \<noteq> PthreadState_Dead then name_thread name t s else Some s);
           Some ((), s) }) s;
        Some (case r of Inl ret \<Rightarrow> (POSIX_ESRCH, s) | Inr _ \<Rightarrow> (0, s))
      })"

text \<open>The policy and the priority.\<close>

definition posix_pthread_getschedparam :: "nat \<Rightarrow> nat option \<Rightarrow> bool \<Rightarrow> ThreadState \<Rightarrow> ((s32 + u32 \<times> s32) \<times> ThreadState) option" where
  "posix_pthread_getschedparam me thread outs s =
     (if \<not> outs then Some (Inl POSIX_EINVAL, s)
      else let read = (\<lambda>t s. do { p \<leftarrow> pthreads s t; Some ((sched_policy (th_attr p), attr_prio (th_attr p)), s) })
           in if thread = Some me then do { (x, s) \<leftarrow> read me s; Some (Inr x, s) } else with_ref me thread read s)"

definition set_sched :: "u32 \<Rightarrow> s32 \<Rightarrow> Pthread \<Rightarrow> Pthread" where
  "set_sched policy prio p =
     (if sched_policy (th_attr p) = policy \<and> (policy = Sched_Other \<or> attr_prio (th_attr p) = prio)
      then p\<lparr>th_attr := (th_attr p)\<lparr>attr_prio := prio\<rparr>\<rparr>
      else p\<lparr>th_attr := (th_attr p)\<lparr>sched_policy := policy, attr_prio := prio\<rparr>\<rparr>)"

definition posix_pthread_setschedparam :: "nat \<Rightarrow> nat option \<Rightarrow> u32 \<Rightarrow> s32 option \<Rightarrow> ThreadState \<Rightarrow> (s32 \<times> ThreadState) option" where
  "posix_pthread_setschedparam me thread policy param s =
     (case (thread, param) of
        (Some t, Some prio) \<Rightarrow>
          do {
            ret \<leftarrow> (if t = me then Some 0 else FindThread thread False s);
            (if ret \<noteq> 0 then Some (ret, s) else do { s \<leftarrow> set_thread t (set_sched policy prio) s; Some (0, s) })
          }
      | _ \<Rightarrow> Some (POSIX_EINVAL, s))"

definition ORBIS_KERNEL_ERROR_ESRCH :: s32 where "ORBIS_KERNEL_ERROR_ESRCH = 0x80020003"

definition scePthreadGetprio :: "nat \<Rightarrow> nat option \<Rightarrow> ThreadState \<Rightarrow> ((s32 + s32) \<times> ThreadState) option" where
  "scePthreadGetprio me thread s =
     do {
       (r, s) \<leftarrow> posix_pthread_getschedparam me thread True s;
       Some (case r of Inl _ \<Rightarrow> Inl ORBIS_KERNEL_ERROR_ESRCH | Inr (policy, prio) \<Rightarrow> Inr prio, s)
     }"

definition posix_pthread_setprio :: "nat \<Rightarrow> nat option \<Rightarrow> s32 \<Rightarrow> ThreadState \<Rightarrow> (s32 \<times> ThreadState) option" where
  "posix_pthread_setprio me thread prio s =
     (let set = (\<lambda>t s. do { s \<leftarrow> set_thread t (\<lambda>p. p\<lparr>th_attr := (th_attr p)\<lparr>attr_prio := prio\<rparr>\<rparr>) s; Some ((), s) })
      in if thread = Some me then do { (_, s) \<leftarrow> set me s; Some (0, s) }
         else do { (r, s) \<leftarrow> with_ref me thread set s; Some (case r of Inl ret \<Rightarrow> ret | Inr _ \<Rightarrow> 0, s) })"

definition posix_sched_get_priority_max :: "u32 \<Rightarrow> s32" where
  "posix_sched_get_priority_max policy = (if policy \<noteq> Sched_Fifo \<and> policy \<noteq> Sched_RoundRobin then POSIX_EINVAL else 767)"

definition posix_sched_get_priority_min :: "u32 \<Rightarrow> s32" where
  "posix_sched_get_priority_min policy = (if policy \<noteq> Sched_Fifo \<and> policy \<noteq> Sched_RoundRobin then POSIX_EINVAL else 256)"

text \<open>The attribute of a running thread.\<close>

definition posix_pthread_attr_get_np :: "nat option \<Rightarrow> attr_arg \<Rightarrow> ThreadState \<Rightarrow> (s32 \<times> attr_arg) option" where
  "posix_pthread_attr_get_np thread dst s =
     (case (thread, dst) of
        (Some t, Some (Some _)) \<Rightarrow>
          do {
            ret \<leftarrow> FindThread thread False s;
            (if ret \<noteq> 0 then Some (ret, dst)
             else do {
               p \<leftarrow> pthreads s t;
               Some (ret, Some (Some (copied_attr (th_attr p) (th_flags p AND ThreadFlags_Detached \<noteq> 0))))
             })
          }
      | _ \<Rightarrow> Some (POSIX_EINVAL, dst))"

lemma attr_get_np_copies:
  assumes "posix_pthread_attr_get_np thread dst s = Some (0, dst')"
  shows "\<exists>t p. thread = Some t \<and> pthreads s t = Some p \<and>
    attr_exec (Call_get_np (th_attr p) (th_flags p AND ThreadFlags_Detached \<noteq> 0)) (dst, heap) = Some (0, dst', heap)"
  using assms
  by (auto simp: posix_pthread_attr_get_np_def change_attr_def posix_error_defs
      split: option.splits bind_splits if_splits)

definition posix_pthread_getaffinity_np :: "nat \<Rightarrow> nat option \<Rightarrow> u64 \<Rightarrow> u8 list option \<Rightarrow> cpuset_heap \<Rightarrow> ThreadState
    \<Rightarrow> (s32 \<times> u8 list option) option" where
  "posix_pthread_getaffinity_np me thread n cpusetp heap s =
     (case (thread, cpusetp) of
        (Some t, Some buffer) \<Rightarrow>
          do {
            ret \<leftarrow> (if t = me then Some 0 else FindThread thread False s);
            (if ret \<noteq> 0 then Some (ret, cpusetp)
             else do {
               p \<leftarrow> pthreads s t;
               (ret, buffer) \<leftarrow> posix_pthread_attr_getaffinity_np (Some (Some (th_attr p))) n buffer heap;
               Some (ret, Some buffer)
             })
          }
      | _ \<Rightarrow> Some (POSIX_EINVAL, cpusetp))"

text \<open>Handlers that push nothing run once each, the last one pushed first.\<close>

lemma exit_cleanup_order: "exit_cleanup (\<lambda>f x st. st) st calls = Some (calls @ map (\<lambda>c. (routine c, routine_arg c)) st)"
  by (induction st arbitrary: calls) (simp_all add: exit_cleanup.simps)

text \<open>What is set is read back, by the thread itself and by others.\<close>

lemma set_get_prio:
  assumes "pthreads s t = Some p" "t \<in> threads s"
  shows "posix_pthread_setschedparam t (Some t) policy (Some prio) s = Some (0, s') \<Longrightarrow>
    posix_pthread_getschedparam t (Some t) True s' = Some (Inr (policy, prio), s')"
  using assms by (auto simp: posix_pthread_setschedparam_def posix_pthread_getschedparam_def set_thread_def set_sched_def Let_def
      split: bind_splits if_splits)

end
