(* ===== verification/Thread_Life.thy ===== *)
theory Thread_Life
  imports Pthread_Calls
begin

section \<open>The life of threads\<close>

text \<open>
  Threads that make, name, join, detach and end each other, in every interleaving.  A thread of the host
  runs with its structure; between two critical sections of a call it is at one of the places below.
  References to a structure are counted; the invariant relates the counts to the places of the threads.
\<close>

subsection \<open>The steps\<close>

text \<open>
  Outside a call; with a reference to a thread; waiting for a thread to terminate; in \<^verbatim>\<open>TryCollect\<close> of a
  thread, at the end of its own life or not, before it takes the lock of the table and, when the thread
  became garbage, after it gave up that lock and before it gives up that of the thread; before and after
  the store of the number that says that it terminated; gone.
\<close>

datatype life_pc =
    L_idle | L_holding nat | L_joining nat | L_collect nat bool | L_unlock nat bool | L_exit_tid | L_exit_native | L_gone

datatype life_action =
    Act_create attr_arg u64 string s32
  | Act_ref "nat option" | Act_join "nat option" | Act_detach "nat option" | Act_exit u64
  | Act_go

record life_world =
  table :: ThreadState
  counter :: s32
  hosts :: "(nat \<times> life_pc) list"

definition life_enabled :: "nat \<Rightarrow> life_action \<Rightarrow> life_world \<Rightarrow> bool" where
  "life_enabled a act w \<longleftrightarrow> a < length (hosts w) \<and>
     (case snd (hosts w ! a) of
        L_idle \<Rightarrow> act \<noteq> Act_go
      | L_joining t \<Rightarrow> act = Act_go \<and> join_ready t (table w) \<noteq> Some False
      | L_gone \<Rightarrow> False
      | _ \<Rightarrow> act = Act_go)"

text \<open>
  \<open>None\<close> is undefined behaviour: a structure is used that is not constructed, or a lock given up that is
  not held.
\<close>

definition life_step :: "nat \<Rightarrow> life_action \<Rightarrow> life_world \<Rightarrow> life_world option" where
  "life_step a act w =
     (let (me, pc) = hosts w ! a;
          to = (\<lambda>pc s. Some (w\<lparr>table := s, hosts := (hosts w)[a := (me, pc)]\<rparr>));
          s = table w
      in case pc of
           L_idle \<Rightarrow>
             (case act of
                Act_create attr tcb name native \<Rightarrow>
                  do {
                    (ret, new, c, s) \<leftarrow> posix_pthread_create (Some me) tcb (counter w) attr name native s;
                    Some (w\<lparr>table := s, counter := c,
                            hosts := hosts w @ (case new of Some t \<Rightarrow> [(t, L_idle)] | None \<Rightarrow> [])\<rparr>)
                  }
              | Act_ref thread \<Rightarrow>
                  do { (ret, s) \<leftarrow> RefAdd thread False s; to (if ret = 0 then L_holding (the thread) else L_idle) s }
              | Act_join thread \<Rightarrow>
                  do { (ret, s) \<leftarrow> join_begin me thread s; to (if ret = 0 then L_joining (the thread) else L_idle) s }
              | Act_detach thread \<Rightarrow>
                  do { (ret, pending, s) \<leftarrow> detach_begin thread s;
                       to (if pending then L_collect (the thread) False else L_idle) s }
              | Act_exit status \<Rightarrow>
                  do { s \<leftarrow> exit_begin me status s; (pending, s) \<leftarrow> exit_thread me s;
                       to (if pending then L_collect me True else L_exit_tid) s }
              | Act_go \<Rightarrow> Some w)
         | L_holding t \<Rightarrow> do { (pending, s) \<leftarrow> RefDelete_begin t s; to (if pending then L_collect t False else L_idle) s }
         | L_joining t \<Rightarrow>
             do { ready \<leftarrow> join_ready t s;
                  (if ready then do { (ret, pending, s) \<leftarrow> join_end t s; to (if pending then L_collect t False else L_idle) s }
                   else Some w) }
         | L_collect t own \<Rightarrow>
             do { (locked, s) \<leftarrow> TryCollect_end me t s;
                  to (if locked then L_unlock t own else if own then L_exit_tid else L_idle) s }
         | L_unlock t own \<Rightarrow> do { s \<leftarrow> unlock_thread me t s; to (if own then L_exit_tid else L_idle) s }
         | L_exit_tid \<Rightarrow> do { s \<leftarrow> exit_terminated me s; to L_exit_native s }
         | L_exit_native \<Rightarrow> do { s \<leftarrow> exit_native me s; to L_gone s }
         | L_gone \<Rightarrow> Some w)"

text \<open>
  The first thread is made by the emulator, which has no structure.  Numbers of threads are not used up:
  the number that says that a thread terminated is never given to one.
\<close>

inductive life_reachable :: "life_world \<Rightarrow> bool" where
  start: "posix_pthread_create None tcb 1 attr name 0 (ThreadState_new n mm) = Some (0, Some t, c, s) \<Longrightarrow>
    life_reachable \<lparr>table = s, counter = c, hosts = [(t, L_idle)]\<rparr>"
| step: "life_reachable w \<Longrightarrow> life_enabled a act w \<Longrightarrow> counter w + 1 \<noteq> TidTerminated \<Longrightarrow> life_step a act w = Some w' \<Longrightarrow>
    life_reachable w'"

subsection \<open>The invariant\<close>

definition alive :: "life_pc \<Rightarrow> bool" where
  "alive pc \<longleftrightarrow> (case pc of L_idle \<Rightarrow> True | L_holding _ \<Rightarrow> True | L_joining _ \<Rightarrow> True | L_collect _ own \<Rightarrow> \<not> own | L_unlock _ own \<Rightarrow> \<not> own | _ \<Rightarrow> False)"

definition left :: "life_pc \<Rightarrow> bool" where
  "left pc \<longleftrightarrow> pc = L_exit_native \<or> pc = L_gone"

text \<open>The references a thread of the host has: to itself while it is alive, and to others.\<close>

definition holds :: "nat \<Rightarrow> nat \<times> life_pc \<Rightarrow> nat" where
  "holds t h = (if alive (snd h) \<and> fst h = t then 1 else 0) +
     (case snd h of L_holding u \<Rightarrow> of_bool (u = t) | L_collect u _ \<Rightarrow> of_bool (u = t) | _ \<Rightarrow> 0)"

definition refs :: "nat \<Rightarrow> (nat \<times> life_pc) list \<Rightarrow> nat" where
  "refs t h = sum_list (map (holds t) h)"

definition detached :: "Pthread \<Rightarrow> bool" where
  "detached p \<longleftrightarrow> th_flags p AND ThreadFlags_Detached \<noteq> 0"

text \<open>
  Every structure is a thread of the table, garbage, or one of \<open>ws\<close>, which an operation has in its hands;
  the other slots are free, once.
\<close>

definition slots_inv :: "ThreadState \<Rightarrow> nat list \<Rightarrow> bool" where
  "slots_inv s ws \<longleftrightarrow> dom (pthreads s) = threads s \<union> set (gc_list s) \<union> set ws \<and> distinct (gc_list s @ ws) \<and>
     threads s \<inter> set (gc_list s @ ws) = {} \<and> distinct (free_threads s @ thread_heap s) \<and>
     set (free_threads s @ thread_heap s) \<inter> dom (pthreads s) = {}"

definition refs_inv :: "ThreadState \<Rightarrow> (nat \<times> life_pc) list \<Rightarrow> bool" where
  "refs_inv s h \<longleftrightarrow> (\<forall>t p. pthreads s t = Some p \<longrightarrow> int (refs t h) \<le> refcount p) \<and> (\<forall>t. t \<notin> threads s \<longrightarrow> refs t h = 0)"

definition hosts_inv :: "ThreadState \<Rightarrow> (nat \<times> life_pc) list \<Rightarrow> bool" where
  "hosts_inv s h \<longleftrightarrow>
     (\<forall>a < length h. \<not> left (snd (h ! a)) \<longrightarrow> fst (h ! a) \<in> threads s \<union> set (gc_list s) \<and>
        (\<forall>p. pthreads s (fst (h ! a)) = Some p \<longrightarrow> th_tid p \<noteq> TidTerminated)) \<and>
     (\<forall>a < length h. \<forall>b < length h. \<not> left (snd (h ! a)) \<longrightarrow> \<not> left (snd (h ! b)) \<longrightarrow> fst (h ! a) = fst (h ! b) \<longrightarrow> a = b)"

definition joins_inv :: "ThreadState \<Rightarrow> (nat \<times> life_pc) list \<Rightarrow> bool" where
  "joins_inv s h \<longleftrightarrow>
     (\<forall>a < length h. \<forall>t. snd (h ! a) = L_joining t \<longrightarrow> t \<in> threads s \<and>
        (\<forall>p. pthreads s t = Some p \<longrightarrow> joiner p = Some (fst (h ! a)) \<and> \<not> detached p))"

text \<open>A thread that ends and made its own structure garbage still has its lock.\<close>

definition locks_inv :: "ThreadState \<Rightarrow> (nat \<times> life_pc) list \<Rightarrow> bool" where
  "locks_inv s h \<longleftrightarrow>
     (\<forall>a < length h. \<forall>t. (snd (h ! a) = L_collect t True \<longrightarrow> fst (h ! a) = t) \<and>
        (snd (h ! a) = L_unlock t True \<longrightarrow> fst (h ! a) = t \<and> t \<in> set (gc_list s) \<and>
           (\<forall>p. pthreads s t = Some p \<longrightarrow> th_lock p = Some t)))"

definition life_inv :: "ThreadState \<Rightarrow> (nat \<times> life_pc) list \<Rightarrow> nat list \<Rightarrow> bool" where
  "life_inv s h ws \<longleftrightarrow> slots_inv s ws \<and> refs_inv s h \<and> hosts_inv s h \<and> joins_inv s h \<and> locks_inv s h"

lemma alive_simps [simp]:
  "alive L_idle" "alive (L_holding t)" "alive (L_joining t)" "alive (L_collect t own) = (\<not> own)" "alive (L_unlock t own) = (\<not> own)"
  "\<not> alive L_exit_tid" "\<not> alive L_exit_native" "\<not> alive L_gone"
  by (simp_all add: alive_def)

lemma left_simps [simp]:
  "\<not> left L_idle" "\<not> left (L_holding t)" "\<not> left (L_joining t)" "\<not> left (L_collect t own)" "\<not> left (L_unlock t own)"
  "\<not> left L_exit_tid" "left L_exit_native" "left L_gone"
  by (simp_all add: left_def)

lemma holds_simps [simp]:
  "holds t (me, L_idle) = of_bool (me = t)" "holds t (me, L_holding u) = of_bool (me = t) + of_bool (u = t)"
  "holds t (me, L_joining u) = of_bool (me = t)" "holds t (me, L_collect u own) = of_bool (\<not> own \<and> me = t) + of_bool (u = t)"
  "holds t (me, L_unlock u own) = of_bool (\<not> own \<and> me = t)" "holds t (me, L_exit_tid) = 0" "holds t (me, L_exit_native) = 0" "holds t (me, L_gone) = 0"
  by (simp_all add: holds_def)

lemma holds_le_refs: "a < length h \<Longrightarrow> holds t (h ! a) \<le> refs t h"
  unfolding refs_def by (rule elem_le_sum_list [of a "map (holds t) h", simplified])

lemma refs_update: "a < length h \<Longrightarrow> refs t (h[a := x]) + holds t (h ! a) = refs t h + holds t x"
  using holds_le_refs [of a h t] by (simp add: refs_def map_update sum_list_update)

lemma refs_append: "refs t (h @ h') = refs t h + refs t h'"
  by (simp add: refs_def)

text \<open>A structure one holds a reference to is a thread of the table.\<close>

lemma held_thread:
  assumes "life_inv s h ws" "a < length h" "holds t (h ! a) > 0"
  shows "t \<in> threads s \<and> (\<exists>p. pthreads s t = Some p \<and> refcount p \<ge> 1)"
proof -
  have "refs t h > 0" using holds_le_refs [OF assms(2), of t] assms(3) by simp
  then have t: "t \<in> threads s" using assms(1) by (auto simp: life_inv_def refs_inv_def)
  moreover have "t \<in> dom (pthreads s)" using t assms(1) by (auto simp: life_inv_def slots_inv_def)
  then obtain p where p: "pthreads s t = Some p" by blast
  moreover have "refcount p \<ge> 1" using p assms(1) \<open>refs t h > 0\<close> by (fastforce simp: life_inv_def refs_inv_def)
  ultimately show ?thesis by blast
qed

lemma refs_le: "life_inv s h ws \<Longrightarrow> pthreads s t = Some p \<Longrightarrow> int (refs t h) \<le> refcount p"
  unfolding life_inv_def refs_inv_def by blast

lemma life_active [simp]: "life_inv (s\<lparr>active_threads := n\<rparr>) h ws = life_inv s h ws"
  by (simp add: life_inv_def slots_inv_def refs_inv_def hosts_inv_def joins_inv_def locks_inv_def)

lemma thread_dom: "life_inv s h ws \<Longrightarrow> t \<in> threads s \<Longrightarrow> \<exists>p. pthreads s t = Some p"
  unfolding life_inv_def slots_inv_def by blast

subsection \<open>Steps keep it\<close>

lemma refs_update_le:
  assumes "a < length h" "h ! a = (me, pc)" "holds u (me, pc') \<le> holds u (me, pc)"
  shows "refs u (h[a := (me, pc')]) \<le> refs u h"
  using refs_update [OF assms(1), of u "(me, pc')"] assms(2,3) by simp

lemma slots_same: "pthreads s t = Some p \<Longrightarrow> slots_inv (s\<lparr>pthreads := (pthreads s)(t \<mapsto> p')\<rparr>) ws = slots_inv s ws"
proof -
  assume "pthreads s t = Some p"
  then have d: "dom ((pthreads s)(t \<mapsto> p')) = dom (pthreads s)" by auto
  show ?thesis unfolding slots_inv_def by (simp add: d del: dom_fun_upd)
qed

text \<open>One thread of the host moves on and changes one thread of the table.\<close>

lemma life_update:
  assumes inv: "life_inv s h ws" and a: "a < length h" "h ! a = (me, pc)" "\<not> left pc" "\<not> left pc'"
    and t: "t \<in> threads s" "pthreads s t = Some p" and tid: "th_tid p' = th_tid p"
    and count: "int (holds t (me, pc')) + refcount p \<le> int (holds t (me, pc)) + refcount p'"
    and others: "\<forall>u. u \<noteq> t \<longrightarrow> holds u (me, pc') \<le> holds u (me, pc)"
    and joins: "\<forall>b < length h. b \<noteq> a \<longrightarrow> snd (h ! b) = L_joining t \<longrightarrow> joiner p' = Some (fst (h ! b)) \<and> \<not> detached p'"
    and mine: "\<forall>u. pc' = L_joining u \<longrightarrow> u = t \<and> joiner p' = Some me \<and> \<not> detached p'"
    and own: "\<forall>u. pc' = L_collect u True \<longrightarrow> u = me" "\<forall>u. pc' \<noteq> L_unlock u True"
  shows "life_inv (s\<lparr>pthreads := (pthreads s)(t \<mapsto> p')\<rparr>) (h[a := (me, pc')]) ws"
proof -
  let ?s = "s\<lparr>pthreads := (pthreads s)(t \<mapsto> p')\<rparr>" and ?h = "h[a := (me, pc')]"
  have r: "refs_inv s h" and ho: "hosts_inv s h" and jo: "joins_inv s h" and sl: "slots_inv s ws" and lo: "locks_inv s h"
    using inv by (simp_all add: life_inv_def)
  have "slots_inv ?s ws" using sl slots_same [of s t p p' ws] t(2) by simp
  moreover have "refs_inv ?s ?h"
  proof -
    have "int (refs t ?h) \<le> refcount p'"
      using refs_update [OF a(1), of t "(me, pc')"] a(2) count r t(2) by (fastforce simp: refs_inv_def)
    moreover have le: "refs u ?h \<le> refs u h" if "u \<noteq> t" for u
      using refs_update_le [OF a(1,2)] others that by blast
    then have "int (refs u ?h) \<le> refcount q" if "u \<noteq> t" "pthreads s u = Some q" for u q
      using r that unfolding refs_inv_def by (meson le order_trans of_nat_mono)
    moreover have "refs u ?h = 0" if "u \<notin> threads s" for u
      using le [of u] that t(1) r unfolding refs_inv_def by (metis le_zero_eq)
    ultimately show ?thesis by (simp add: refs_inv_def)
  qed
  moreover have "hosts_inv ?s ?h"
    using ho a t(2) tid by (auto simp: hosts_inv_def nth_list_update)
  moreover have "joins_inv ?s ?h"
    using jo a joins mine t(1) by (auto simp: joins_inv_def nth_list_update)
  moreover have "locks_inv ?s ?h"
    using lo sl a own t(1) by (auto simp: locks_inv_def slots_inv_def nth_list_update)
  ultimately show ?thesis by (simp add: life_inv_def)
qed

text \<open>A thread nobody refers to any more becomes garbage.\<close>

lemma life_collect:
  assumes inv: "life_inv s h ws" and t: "t \<in> threads s" "pthreads s t = Some p" "detached p" "refs t h = 0"
  shows "life_inv (s\<lparr>threads := threads s - {t}, gc_list := gc_list s @ [t]\<rparr>) h ws"
proof -
  let ?s = "s\<lparr>threads := threads s - {t}, gc_list := gc_list s @ [t]\<rparr>"
  have r: "refs_inv s h" and ho: "hosts_inv s h" and jo: "joins_inv s h" and sl: "slots_inv s ws" and lo: "locks_inv s h"
    using inv by (simp_all add: life_inv_def)
  have "slots_inv ?s ws" using sl t(1) by (auto simp: slots_inv_def)
  moreover have "refs_inv ?s h" using r t(4) by (auto simp: refs_inv_def)
  moreover have "hosts_inv ?s h" using ho by (auto simp: hosts_inv_def)
  moreover have "joins_inv ?s h" using jo t(2,3) by (fastforce simp: joins_inv_def)
  moreover have "locks_inv ?s h" using lo by (auto simp: locks_inv_def)
  ultimately show ?thesis by (simp add: life_inv_def)
qed

text \<open>The store that says that a thread terminated, after which its host has left it.\<close>

lemma life_terminated:
  assumes inv: "life_inv s h ws" and a: "a < length h" "h ! a = (me, L_exit_tid)" and p: "pthreads s me = Some p"
  shows "life_inv (s\<lparr>pthreads := (pthreads s)(me \<mapsto> p\<lparr>th_tid := TidTerminated\<rparr>)\<rparr>) (h[a := (me, L_exit_native)]) ws"
proof -
  let ?s = "s\<lparr>pthreads := (pthreads s)(me \<mapsto> p\<lparr>th_tid := TidTerminated\<rparr>)\<rparr>" and ?h = "h[a := (me, L_exit_native)]"
  have r: "refs_inv s h" and ho: "hosts_inv s h" and jo: "joins_inv s h" and sl: "slots_inv s ws" and lo: "locks_inv s h"
    using inv by (simp_all add: life_inv_def)
  have "slots_inv ?s ws" using sl slots_same [of s me p _ ws] p by simp
  moreover have refs: "refs u ?h = refs u h" for u using refs_update [OF a(1), of u "(me, L_exit_native)"] a(2) by simp
  have "refs_inv ?s ?h" using r p unfolding refs_inv_def refs by auto
  moreover have other: "fst (h ! b) \<noteq> me" if "b < length h" "b \<noteq> a" "\<not> left (snd (h ! b))" for b
    using ho that a unfolding hosts_inv_def by (metis fst_conv snd_conv left_simps(6))
  have "hosts_inv ?s ?h" using ho a other by (auto simp: hosts_inv_def nth_list_update)
  moreover have "joins_inv ?s ?h"
    using jo a p by (auto simp: joins_inv_def nth_list_update detached_def)
  moreover have "locks_inv ?s ?h" using lo a p by (auto simp: locks_inv_def nth_list_update)
  ultimately show ?thesis by (simp add: life_inv_def)
qed

lemma life_gone:
  assumes inv: "life_inv s h ws" and a: "a < length h" "h ! a = (me, L_exit_native)"
  shows "life_inv s (h[a := (me, L_gone)]) ws"
proof -
  have r: "refs_inv s h" and ho: "hosts_inv s h" and jo: "joins_inv s h" and sl: "slots_inv s ws" and lo: "locks_inv s h"
    using inv by (simp_all add: life_inv_def)
  have refs: "refs u (h[a := (me, L_gone)]) = refs u h" for u using refs_update [OF a(1), of u "(me, L_gone)"] a(2) by simp
  have "refs_inv s (h[a := (me, L_gone)])" using r unfolding refs_inv_def refs .
  moreover have "hosts_inv s (h[a := (me, L_gone)])" using ho a by (auto simp: hosts_inv_def nth_list_update)
  moreover have "joins_inv s (h[a := (me, L_gone)])" using jo a by (auto simp: joins_inv_def nth_list_update)
  moreover have "locks_inv s (h[a := (me, L_gone)])" using lo a by (auto simp: locks_inv_def nth_list_update)
  ultimately show ?thesis using sl by (simp add: life_inv_def)
qed

text \<open>The operations on the table, on a structure that is there.\<close>

lemma set_thread_at: "pthreads s t = Some p \<Longrightarrow> set_thread t f s = Some (s\<lparr>pthreads := (pthreads s)(t \<mapsto> f p)\<rparr>)"
  by (simp add: set_thread_def)

lemma detached_flags [simp]:
  "detached (p\<lparr>refcount := n\<rparr>) = detached p" "detached (p\<lparr>th_state := v\<rparr>) = detached p"
  "detached (p\<lparr>joiner := j\<rparr>) = detached p" "detached (p\<lparr>th_flags := th_flags p OR ThreadFlags_Detached\<rparr>)"
  by (simp_all add: detached_def ThreadFlags_Detached_def bit.conj_disj_distrib2)

text \<open>
  Changing a thread and starting to collect it, as one change: when the wait begins there is one more
  reference, that of \<^verbatim>\<open>TryCollect\<close>.
\<close>

lemma set_then_begin:
  "TryCollect_begin t (s\<lparr>pthreads := (pthreads s)(t \<mapsto> f p)\<rparr>) =
    Some (ShouldCollect (f p), s\<lparr>pthreads := (pthreads s)(t \<mapsto> (f p)\<lparr>refcount := refcount (f p) + of_bool (ShouldCollect (f p))\<rparr>)\<rparr>)"
  by (cases "f p") (simp add: set_thread_def TryCollect_begin_def)

lemma find_thread:
  assumes "life_inv s h ws"
  shows "FindThread thread dead s \<noteq> None"
    "FindThread thread dead s = Some 0 \<Longrightarrow> \<exists>t p. thread = Some t \<and> t \<in> threads s \<and> pthreads s t = Some p \<and>
      (\<not> dead \<longrightarrow> th_state p \<noteq> PthreadState_Dead)"
  using thread_dom [OF assms]
  by (fastforce simp: FindThread_def posix_error_defs split: option.splits if_splits)+

lemma life_ref:
  assumes inv: "life_inv s h ws" and a: "a < length h" "h ! a = (me, L_idle)"
  shows "\<exists>ret s'. RefAdd thread False s = Some (ret, s') \<and>
    life_inv s' (h[a := (me, if ret = 0 then L_holding (the thread) else L_idle)]) ws"
proof -
  obtain ret where f: "FindThread thread False s = Some ret" using find_thread(1) [OF inv] by blast
  show ?thesis
  proof (cases "thread = None \<or> ret \<noteq> 0")
    case True
    obtain r where r: "r \<noteq> 0" "RefAdd thread False s = Some (r, s)"
    proof (cases thread)
      case None
      then show ?thesis using that [of POSIX_EINVAL] by (simp add: RefAdd_def posix_error_defs)
    next
      case (Some t)
      then show ?thesis using that [of ret] True f by (simp add: RefAdd_def)
    qed
    have "h[a := (me, L_idle)] = h" using a(2) by (metis list_update_id)
    then show ?thesis using inv r by simp
  next
    case False
    then obtain t p where t: "thread = Some t" "t \<in> threads s" "pthreads s t = Some p"
      using find_thread(2) [OF inv] f by blast
    have "RefAdd thread False s = Some (0, s\<lparr>pthreads := (pthreads s)(t \<mapsto> p\<lparr>refcount := refcount p + 1\<rparr>)\<rparr>)"
      using t f False by (simp add: RefAdd_def set_thread_at)
    moreover have "life_inv (s\<lparr>pthreads := (pthreads s)(t \<mapsto> p\<lparr>refcount := refcount p + 1\<rparr>)\<rparr>) (h[a := (me, L_holding t)]) ws"
      using inv t by (intro life_update [OF inv a]) (auto simp: life_inv_def joins_inv_def)
    ultimately show ?thesis using t(1) by auto
  qed
qed

text \<open>Giving up a reference to a thread, by whatever change, at the place it was held.\<close>

lemma life_release:
  assumes inv: "life_inv s h ws" and a: "a < length h" "h ! a = (me, pc)" "\<not> left pc"
    and t: "t \<in> threads s" "pthreads s t = Some p" and tid: "th_tid (f p) = th_tid p"
    and count: "int (holds t (me, if own then L_exit_tid else L_idle)) + refcount p \<le> int (holds t (me, pc)) + refcount (f p)"
    and others: "\<forall>u. u \<noteq> t \<longrightarrow> holds u (me, if own then L_exit_tid else L_idle) \<le> holds u (me, pc)"
    and joins: "\<forall>b < length h. b \<noteq> a \<longrightarrow> snd (h ! b) = L_joining t \<longrightarrow> joiner (f p) = Some (fst (h ! b)) \<and> \<not> detached (f p)"
    and own: "own \<longrightarrow> t = me"
  shows "\<exists>s'. TryCollect_begin t (s\<lparr>pthreads := (pthreads s)(t \<mapsto> f p)\<rparr>) = Some (ShouldCollect (f p), s') \<and>
    life_inv s' (h[a := (me, if ShouldCollect (f p) then L_collect t own else if own then L_exit_tid else L_idle)]) ws"
proof -
  let ?p = "(f p)\<lparr>refcount := refcount (f p) + of_bool (ShouldCollect (f p))\<rparr>"
  let ?pc = "if ShouldCollect (f p) then L_collect t own else if own then L_exit_tid else L_idle"
  have h: "holds u (me, ?pc) = holds u (me, if own then L_exit_tid else L_idle) + (if u = t \<and> ShouldCollect (f p) then 1 else 0)" for u
    by auto
  have "?pc \<noteq> L_joining u" "\<not> left ?pc" "?pc = L_collect u True \<longrightarrow> u = me" "?pc \<noteq> L_unlock u True" for u
    using own by auto
  moreover have "int (holds t (me, ?pc)) + refcount p \<le> int (holds t (me, pc)) + refcount ?p"
    using count by (simp add: h)
  moreover have "\<forall>u. u \<noteq> t \<longrightarrow> holds u (me, ?pc) \<le> holds u (me, pc)" using others by (simp add: h)
  ultimately have "life_inv (s\<lparr>pthreads := (pthreads s)(t \<mapsto> ?p)\<rparr>) (h[a := (me, ?pc)]) ws"
    using joins tid by (intro life_update [OF inv a _ t]) simp_all
  then show ?thesis using set_then_begin [of t s f p] by auto
qed

lemmas life_release_idle = life_release [where own = False, unfolded if_False]
lemmas life_release_exit = life_release [where own = True, unfolded if_True]

text \<open>A thread that joins another keeps it from being detached, and is the only one that does.\<close>

lemma joined:
  assumes "life_inv s h ws" "b < length h" "snd (h ! b) = L_joining t" "pthreads s t = Some p"
  shows "t \<in> threads s" "joiner p = Some (fst (h ! b))" "\<not> detached p"
  using assms unfolding life_inv_def joins_inv_def by blast+

lemma life_refdelete:
  assumes inv: "life_inv s h ws" and a: "a < length h" "h ! a = (me, L_holding t)"
  shows "\<exists>pending s'. RefDelete_begin t s = Some (pending, s') \<and>
    life_inv s' (h[a := (me, if pending then L_collect t False else L_idle)]) ws"
proof -
  obtain p where t: "t \<in> threads s" "pthreads s t = Some p" using held_thread [OF inv a(1), of t] a(2) by auto
  let ?f = "\<lambda>p. p\<lparr>refcount := refcount p - 1\<rparr>"
  obtain s' where "TryCollect_begin t (s\<lparr>pthreads := (pthreads s)(t \<mapsto> ?f p)\<rparr>) = Some (ShouldCollect (?f p), s')"
    "life_inv s' (h[a := (me, if ShouldCollect (?f p) then L_collect t False else L_idle)]) ws"
    using life_release_idle [OF inv a _ t, where f = ?f] joined [OF inv _ _ t(2)] by auto
  then show ?thesis using t(2) by (simp add: RefDelete_begin_def set_thread_at)
qed

lemma life_join:
  assumes inv: "life_inv s h ws" and a: "a < length h" "h ! a = (me, L_idle)"
  shows "\<exists>ret s'. join_begin me thread s = Some (ret, s') \<and>
    life_inv s' (h[a := (me, if ret = 0 then L_joining (the thread) else L_idle)]) ws"
proof -
  have same: "h[a := (me, L_idle)] = h" using a(2) by (metis list_update_id)
  obtain ret where f: "FindThread thread True s = Some ret" using find_thread(1) [OF inv] by blast
  show ?thesis
  proof (cases "thread = None \<or> thread = Some me \<or> ret \<noteq> 0")
    case True
    then have "\<exists>r. r \<noteq> 0 \<and> join_begin me thread s = Some (r, s)"
      using f by (cases thread) (auto simp: join_begin_def posix_error_defs)
    then show ?thesis using inv same by auto
  next
    case False
    then obtain t p where t: "thread = Some t" "t \<in> threads s" "pthreads s t = Some p" "t \<noteq> me"
      using find_thread(2) [OF inv] f by blast
    let ?s = "s\<lparr>pthreads := (pthreads s)(t \<mapsto> p\<lparr>joiner := Some me\<rparr>)\<rparr>"
    show ?thesis
    proof (cases "detached p \<or> joiner p \<noteq> None")
      case True
      then have "\<exists>r. r \<noteq> 0 \<and> join_begin me thread s = Some (r, s)"
        using f False t by (auto simp: join_begin_def posix_error_defs detached_def)
      then show ?thesis using inv same by auto
    next
      case nj: False
      have "life_inv ?s (h[a := (me, L_joining t)]) ws"
        using t nj joined [OF inv _ _ t(3)] by (intro life_update [OF inv a]) auto
      moreover have "join_begin me thread s = Some (0, ?s)"
        using f False t nj by (simp add: join_begin_def detached_def set_thread_at)
      ultimately show ?thesis using t(1) by simp
    qed
  qed
qed

lemma life_detach:
  assumes inv: "life_inv s h ws" and a: "a < length h" "h ! a = (me, L_idle)"
  shows "\<exists>ret pending s'. detach_begin thread s = Some (ret, pending, s') \<and>
    life_inv s' (h[a := (me, if pending then L_collect (the thread) False else L_idle)]) ws"
proof -
  have same: "h[a := (me, L_idle)] = h" using a(2) by (metis list_update_id)
  obtain ret where f: "FindThread thread True s = Some ret" using find_thread(1) [OF inv] by blast
  show ?thesis
  proof (cases "thread = None \<or> ret \<noteq> 0")
    case True
    then have "\<exists>r. detach_begin thread s = Some (r, False, s)"
      using f by (cases thread) (auto simp: detach_begin_def)
    then show ?thesis using inv same by auto
  next
    case False
    then obtain t p where t: "thread = Some t" "t \<in> threads s" "pthreads s t = Some p"
      using find_thread(2) [OF inv] f by blast
    show ?thesis
    proof (cases "detached p \<or> joiner p \<noteq> None")
      case True
      then have "detach_begin thread s = Some (POSIX_EINVAL, False, s)"
        using f False t by (auto simp: detach_begin_def detached_def)
      then show ?thesis using inv same by auto
    next
      case nj: False
      let ?f = "\<lambda>p. p\<lparr>th_flags := th_flags p OR ThreadFlags_Detached\<rparr>"
      obtain s' where "TryCollect_begin t (s\<lparr>pthreads := (pthreads s)(t \<mapsto> ?f p)\<rparr>) = Some (ShouldCollect (?f p), s')"
        "life_inv s' (h[a := (me, if ShouldCollect (?f p) then L_collect t False else L_idle)]) ws"
        using life_release_idle [OF inv a _ t(2,3), where f = ?f]
          nj joined [OF inv _ _ t(3)] by auto
      moreover from this(1) have "detach_begin (Some t) s = Some (0, ShouldCollect (?f p), s')"
        using f False t nj by (simp add: detach_begin_def detached_def set_thread_at)
      ultimately show ?thesis unfolding t(1) option.sel by blast
    qed
  qed
qed

lemma life_join_end:
  assumes inv: "life_inv s h ws" and a: "a < length h" "h ! a = (me, L_joining t)"
  shows "\<exists>ret pending s'. join_end t s = Some (ret, pending, s') \<and>
    life_inv s' (h[a := (me, if pending then L_collect t False else L_idle)]) ws"
proof -
  have "t \<in> threads s" using inv a by (auto simp: life_inv_def joins_inv_def)
  then obtain p where t: "t \<in> threads s" "pthreads s t = Some p" using thread_dom [OF inv] by blast
  have me: "joiner p = Some me" "\<not> detached p" using joined [OF inv a(1) _ t(2)] a(2) by simp_all
  have alone: "b = a" if "b < length h" "snd (h ! b) = L_joining t" for b
  proof -
    have "fst (h ! b) = fst (h ! a)" using joined(2) [OF inv that t(2)] me a(2) by simp
    then show ?thesis using inv that a unfolding life_inv_def hosts_inv_def by (metis left_simps(3) snd_conv)
  qed
  let ?f = "\<lambda>p. p\<lparr>th_flags := th_flags p OR ThreadFlags_Detached, joiner := None\<rparr>"
  obtain s' where "TryCollect_begin t (s\<lparr>pthreads := (pthreads s)(t \<mapsto> ?f p)\<rparr>) = Some (ShouldCollect (?f p), s')"
    "life_inv s' (h[a := (me, if ShouldCollect (?f p) then L_collect t False else L_idle)]) ws"
    using life_release_idle [OF inv a _ t, where f = ?f] alone by auto
  then have "join_end t s = Some (th_ret p, ShouldCollect (?f p), s')" using t(2) by (simp add: join_end_def set_thread_at)
  then show ?thesis using \<open>life_inv s' _ ws\<close> by blast
qed

lemma own_thread:
  assumes "life_inv s h ws" "a < length h"
  shows "snd (h ! a) = L_collect t True \<Longrightarrow> fst (h ! a) = t"
    "snd (h ! a) = L_unlock t True \<Longrightarrow> fst (h ! a) = t \<and> t \<in> set (gc_list s) \<and> (\<exists>p. pthreads s t = Some p \<and> th_lock p = Some t)"
proof -
  show "snd (h ! a) = L_collect t True \<Longrightarrow> fst (h ! a) = t" using assms unfolding life_inv_def locks_inv_def by blast
  assume "snd (h ! a) = L_unlock t True"
  then have "fst (h ! a) = t" "t \<in> set (gc_list s)" "\<forall>p. pthreads s t = Some p \<longrightarrow> th_lock p = Some t"
    using assms unfolding life_inv_def locks_inv_def by blast+
  moreover have "\<exists>p. pthreads s t = Some p" using assms(1) calculation(2) unfolding life_inv_def slots_inv_def by blast
  ultimately show "fst (h ! a) = t \<and> t \<in> set (gc_list s) \<and> (\<exists>p. pthreads s t = Some p \<and> th_lock p = Some t)" by blast
qed

text \<open>Only one thread of the host that has not left a structure runs with it.\<close>

lemma one_host:
  "life_inv s h ws \<Longrightarrow> a < length h \<Longrightarrow> b < length h \<Longrightarrow> \<not> left (snd (h ! a)) \<Longrightarrow> \<not> left (snd (h ! b)) \<Longrightarrow>
   fst (h ! a) = fst (h ! b) \<Longrightarrow> a = b"
  unfolding life_inv_def hosts_inv_def by blast

text \<open>The lock of a structure that became garbage, with the thread that made it so, and given up.\<close>

lemma life_keep_lock:
  assumes inv: "life_inv s h ws" and a: "a < length h" "h ! a = (me, if own then L_exit_tid else L_idle)"
    and t: "pthreads s t = Some p" and own: "own \<longrightarrow> me = t" and g: "t \<in> set (gc_list s)"
    and alone: "\<forall>b < length h. snd (h ! b) \<noteq> L_unlock t True"
  shows "life_inv (s\<lparr>pthreads := (pthreads s)(t \<mapsto> p\<lparr>th_lock := Some me\<rparr>)\<rparr>) (h[a := (me, L_unlock t own)]) ws"
proof -
  let ?s = "s\<lparr>pthreads := (pthreads s)(t \<mapsto> p\<lparr>th_lock := Some me\<rparr>)\<rparr>" and ?h = "h[a := (me, L_unlock t own)]"
  have r: "refs_inv s h" and ho: "hosts_inv s h" and jo: "joins_inv s h" and sl: "slots_inv s ws" and lo: "locks_inv s h"
    using inv by (simp_all add: life_inv_def)
  have "slots_inv ?s ws" using sl slots_same [OF t, of "p\<lparr>th_lock := Some me\<rparr>" ws] by simp
  moreover have refs: "refs u ?h = refs u h" for u using refs_update [OF a(1), of u "(me, L_unlock t own)"] a(2) by (cases own) simp_all
  have "refs_inv ?s ?h" using r t unfolding refs_inv_def refs by auto
  moreover have nl: "\<not> left (snd (h ! a))" using a(2) by simp
  have "hosts_inv ?s ?h" using ho a t nl by (auto simp: hosts_inv_def nth_list_update)
  moreover have "joins_inv ?s ?h" using jo a t by (auto simp: joins_inv_def nth_list_update detached_def)
  moreover have "locks_inv ?s ?h"
    using lo a own g alone by (auto simp: locks_inv_def nth_list_update)
  ultimately show ?thesis by (simp add: life_inv_def)
qed

lemma life_unlock:
  assumes inv: "life_inv s h ws" and a: "a < length h" "h ! a = (me, L_unlock t own)"
  shows "unlock_thread me t s = Some s' \<Longrightarrow> life_inv s' (h[a := (me, if own then L_exit_tid else L_idle)]) ws"
    "own \<Longrightarrow> unlock_thread me t s \<noteq> None"
proof -
  let ?h = "h[a := (me, if own then L_exit_tid else L_idle)]"
  assume "unlock_thread me t s = Some s'"
  then obtain p where p: "pthreads s t = Some p" "th_lock p = Some me"
    and s': "s' = s\<lparr>pthreads := (pthreads s)(t \<mapsto> p\<lparr>th_lock := None\<rparr>)\<rparr>"
    by (auto simp: unlock_thread_def set_thread_def split: bind_splits if_splits)
  have r: "refs_inv s h" and ho: "hosts_inv s h" and jo: "joins_inv s h" and sl: "slots_inv s ws" and lo: "locks_inv s h"
    using inv by (simp_all add: life_inv_def)
  have "slots_inv s' ws" using sl slots_same [OF p(1), of "p\<lparr>th_lock := None\<rparr>" ws] unfolding s' by simp
  moreover have refs: "refs u ?h = refs u h" for u
    using refs_update [OF a(1), of u "(me, if own then L_exit_tid else L_idle)"] a(2) by (cases own) simp_all
  have "refs_inv s' ?h" using r p(1) unfolding refs_inv_def refs s' by auto
  moreover have nl: "\<not> left (snd (h ! a))" using a(2) by simp
  have "hosts_inv s' ?h" using ho a p(1) nl unfolding s' by (auto simp: hosts_inv_def nth_list_update)
  moreover have "joins_inv s' ?h" using jo a p(1) unfolding s' by (auto simp: joins_inv_def nth_list_update detached_def)
  moreover have "locks_inv s' ?h"
  proof -
    have "snd (h ! b) \<noteq> L_unlock t True" if b: "b < length h" "b \<noteq> a" for b
    proof
      assume u: "snd (h ! b) = L_unlock t True"
      then have "fst (h ! b) = t" "t = me" using own_thread(2) [OF inv b(1) u] p by auto
      then show False using one_host [OF inv a(1) b(1)] nl u a(2) b(2) by simp
    qed
    then show ?thesis using lo a unfolding s' by (auto simp: locks_inv_def nth_list_update)
  qed
  ultimately show "life_inv s' ?h ws" by (simp add: life_inv_def)
next
  assume own
  then show "unlock_thread me t s \<noteq> None"
    using own_thread(2) [OF inv a(1), of t] a(2) by (auto simp: unlock_thread_def set_thread_def)
qed

lemma life_collect_end:
  assumes inv: "life_inv s h ws" and a: "a < length h" "h ! a = (me, L_collect t own)"
  shows "\<exists>locked s'. TryCollect_end me t s = Some (locked, s') \<and>
    life_inv s' (h[a := (me, if locked then L_unlock t own else if own then L_exit_tid else L_idle)]) ws"
proof -
  obtain p where t: "t \<in> threads s" "pthreads s t = Some p" using held_thread [OF inv a(1), of t] a(2) by auto
  let ?p = "p\<lparr>refcount := refcount p - 1\<rparr>" and ?h = "h[a := (me, if own then L_exit_tid else L_idle)]"
  let ?s = "s\<lparr>pthreads := (pthreads s)(t \<mapsto> ?p)\<rparr>"
  have i: "life_inv ?s ?h ws"
    using joined [OF inv _ _ t(2)] by (intro life_update [OF inv a _ _ t]) auto
  let ?t = "?s\<lparr>threads := threads ?s - {t}, gc_list := gc_list ?s @ [t]\<rparr>"
  have "life_inv (?t\<lparr>pthreads := (pthreads ?t)(t \<mapsto> ?p\<lparr>th_lock := Some me\<rparr>)\<rparr>) (h[a := (me, L_unlock t own)]) ws"
    if c: "ShouldCollect ?p"
  proof -
    have "int (refs t ?h) \<le> refcount ?p" by (rule refs_le [OF i]) simp
    then have "refs t ?h = 0" using c by (simp add: ShouldCollect_def)
    then have j: "life_inv ?t ?h ws" using c t by (intro life_collect [OF i, of t ?p]) (auto simp: ShouldCollect_def detached_def)
    have "own \<longrightarrow> me = t" using own_thread(1) [OF inv a(1), of t] a(2) by auto
    moreover have "\<forall>b < length ?h. snd (?h ! b) \<noteq> L_unlock t True"
    proof -
      have "t \<notin> set (gc_list ?s)" using i t(1) by (auto simp: life_inv_def slots_inv_def)
      then show ?thesis using own_thread(2) [OF i] by blast
    qed
    ultimately show ?thesis using life_keep_lock [OF j, of a me own t ?p] a by simp
  qed
  note collected = this
  show ?thesis
  proof (cases "ShouldCollect ?p")
    case True
    then have e: "TryCollect_end me t s = Some (True, ?t\<lparr>pthreads := (pthreads ?t)(t \<mapsto> ?p\<lparr>th_lock := Some me\<rparr>)\<rparr>)"
      using t(2) by (simp add: TryCollect_end_def set_thread_at)
    show ?thesis by (intro exI conjI, rule e) (simp only: if_True collected [OF True])
  next
    case False
    then have e: "TryCollect_end me t s = Some (False, ?s)" using t(2) by (simp add: TryCollect_end_def set_thread_at)
    show ?thesis by (intro exI conjI, rule e) (simp only: if_False i)
  qed
qed

lemma life_exit:
  assumes inv: "life_inv s h ws" and a: "a < length h" "h ! a = (me, L_idle)"
  shows "\<exists>s1 pending s'. exit_begin me status s = Some s1 \<and> exit_thread me s1 = Some (pending, s') \<and>
    life_inv s' (h[a := (me, if pending then L_collect me True else L_exit_tid)]) ws"
proof -
  obtain p where t: "me \<in> threads s" "pthreads s me = Some p" using held_thread [OF inv a(1), of me] a(2) by auto
  let ?p = "p\<lparr>cancelling := True, no_cancel := True, cancel_async := False, cancel_point := False, th_ret := status\<rparr>"
  let ?s = "s\<lparr>pthreads := (pthreads s)(me \<mapsto> ?p)\<rparr>"
  have same: "h[a := (me, L_idle)] = h" using a(2) by (metis list_update_id)
  have "life_inv ?s (h[a := (me, L_idle)]) ws"
    using joined [OF inv _ _ t(2)] by (intro life_update [OF inv a _ _ t]) (auto simp: detached_def)
  then have i: "life_inv (?s\<lparr>active_threads := active_threads ?s - 1\<rparr>) h ws" unfolding life_active same .
  let ?f = "\<lambda>p. p\<lparr>th_state := PthreadState_Dead, refcount := refcount p - 1\<rparr>"
  let ?s1 = "?s\<lparr>active_threads := active_threads ?s - 1\<rparr>"
  obtain s' where s': "TryCollect_begin me (?s1\<lparr>pthreads := (pthreads ?s1)(me \<mapsto> ?f ?p)\<rparr>) = Some (ShouldCollect (?f ?p), s')"
    "life_inv s' (h[a := (me, if ShouldCollect (?f ?p) then L_collect me True else L_exit_tid)]) ws"
    using life_release_exit [OF i a, where f = ?f and t = me and p = ?p]
      t joined [OF inv _ _ t(2)] by (auto simp: detached_def)
  have "exit_thread me ?s = Some (ShouldCollect (?f ?p), s')"
    using s'(1) by (simp add: exit_thread_def set_thread_def)
  moreover have "exit_begin me status s = Some ?s" using t(2) by (simp add: exit_begin_def set_thread_at)
  ultimately show ?thesis using s'(2) by blast
qed

subsection \<open>Making threads keeps it\<close>

lemma life_cong:
  "pthreads s' = pthreads s \<Longrightarrow> threads s' = threads s \<Longrightarrow> gc_list s' = gc_list s \<Longrightarrow> free_threads s' = free_threads s \<Longrightarrow>
   thread_heap s' = thread_heap s \<Longrightarrow> life_inv s' h ws = life_inv s h ws"
  by (simp add: life_inv_def slots_inv_def refs_inv_def hosts_inv_def joins_inv_def locks_inv_def)

lemma life_attr:
  assumes inv: "life_inv s h ws" and p: "pthreads s t = Some p"
  shows "life_inv (s\<lparr>pthreads := (pthreads s)(t \<mapsto> p\<lparr>th_attr := attr\<rparr>)\<rparr>) h ws"
  using inv slots_same [OF p, of "p\<lparr>th_attr := attr\<rparr>" ws] p
  by (auto simp: life_inv_def refs_inv_def hosts_inv_def joins_inv_def locks_inv_def detached_def)

text \<open>A structure in hand is nobody else's.\<close>

lemma in_hand:
  assumes "life_inv s h ws" "t \<in> set ws"
  shows "t \<in> dom (pthreads s)" "t \<notin> threads s" "t \<notin> set (gc_list s)" "refs t h = 0"
    "a < length h \<Longrightarrow> \<not> left (snd (h ! a)) \<Longrightarrow> fst (h ! a) \<noteq> t"
    "a < length h \<Longrightarrow> snd (h ! a) \<noteq> L_joining t" "a < length h \<Longrightarrow> snd (h ! a) \<noteq> L_unlock t True"
proof -
  show "t \<in> dom (pthreads s)" "t \<notin> threads s" "t \<notin> set (gc_list s)" "refs t h = 0"
    using assms by (auto simp: life_inv_def slots_inv_def refs_inv_def)
  then show "a < length h \<Longrightarrow> \<not> left (snd (h ! a)) \<Longrightarrow> fst (h ! a) \<noteq> t" "a < length h \<Longrightarrow> snd (h ! a) \<noteq> L_joining t"
    "a < length h \<Longrightarrow> snd (h ! a) \<noteq> L_unlock t True"
    using assms(1) unfolding life_inv_def hosts_inv_def joins_inv_def locks_inv_def by blast+
qed

lemma life_fresh:
  assumes inv: "life_inv s h ws" and t: "t \<in> set ws" and p: "refcount p' \<ge> 0"
  shows "life_inv (s\<lparr>pthreads := (pthreads s)(t \<mapsto> p')\<rparr>) h ws"
proof -
  note hand = in_hand [OF inv t]
  obtain p where "pthreads s t = Some p" using hand(1) by blast
  then show ?thesis
    using inv slots_same [of s t p p' ws] hand(4-7) p
    by (auto simp: life_inv_def refs_inv_def hosts_inv_def joins_inv_def locks_inv_def)
qed

lemma life_take:
  assumes inv: "life_inv s h ws" and t: "t \<notin> dom (pthreads s)" and p: "refcount p' \<ge> 0"
    and lists: "set (fr @ hp) \<subseteq> set (free_threads s @ thread_heap s) - {t}" "distinct (fr @ hp)"
  shows "life_inv (s\<lparr>pthreads := (pthreads s)(t \<mapsto> p'), free_threads := fr, thread_heap := hp\<rparr>) h (t # ws)"
proof -
  have none: "t \<notin> threads s" "t \<notin> set (gc_list s)" "t \<notin> set ws" using inv t by (auto simp: life_inv_def slots_inv_def)
  have sl: "slots_inv s ws" using inv by (simp add: life_inv_def)
  have "insert t (dom (pthreads s)) = threads s \<union> set (gc_list s) \<union> set (t # ws)" "distinct (gc_list s @ t # ws)"
    "threads s \<inter> set (gc_list s @ t # ws) = {}"
    using sl none unfolding slots_inv_def by auto
  moreover have "set (fr @ hp) \<inter> insert t (dom (pthreads s)) = {}" using sl lists(1) unfolding slots_inv_def by blast
  ultimately have "slots_inv (s\<lparr>pthreads := (pthreads s)(t \<mapsto> p'), free_threads := fr, thread_heap := hp\<rparr>) (t # ws)"
    using lists(2) unfolding slots_inv_def by simp
  moreover have "refs t h = 0" using inv none by (auto simp: life_inv_def refs_inv_def)
  ultimately show ?thesis using inv none p
    by (auto simp: life_inv_def refs_inv_def hosts_inv_def joins_inv_def locks_inv_def)
qed

lemma life_drop:
  assumes inv: "life_inv s h (t # ws)"
    and lists: "set (fr @ hp) \<subseteq> insert t (set (free_threads s @ thread_heap s))" "distinct (fr @ hp)"
  shows "life_inv (s\<lparr>pthreads := (pthreads s)(t := None), free_threads := fr, thread_heap := hp\<rparr>) h ws"
proof -
  note hand = in_hand [OF inv, of t, simplified]
  have sl: "slots_inv s (t # ws)" using inv by (simp add: life_inv_def)
  have "dom (pthreads s) - {t} = threads s \<union> set (gc_list s) \<union> set ws" "distinct (gc_list s @ ws)"
    "threads s \<inter> set (gc_list s @ ws) = {}"
    using sl hand(2,3) unfolding slots_inv_def by auto
  moreover have "set (fr @ hp) \<inter> (dom (pthreads s) - {t}) = {}" using sl lists(1) unfolding slots_inv_def by blast
  ultimately have "slots_inv (s\<lparr>pthreads := (pthreads s)(t := None), free_threads := fr, thread_heap := hp\<rparr>) ws"
    using lists(2) unfolding slots_inv_def by simp
  then show ?thesis using inv by (auto simp: life_inv_def refs_inv_def hosts_inv_def joins_inv_def locks_inv_def)
qed

lemma life_garbage:
  assumes inv: "life_inv s h []"
  shows "life_inv (s\<lparr>gc_list := filter (\<lambda>t. \<not> collectable s t) (gc_list s)\<rparr>) h (filter (collectable s) (gc_list s))"
proof -
  let ?s = "s\<lparr>gc_list := filter (\<lambda>t. \<not> collectable s t) (gc_list s)\<rparr>"
  have "slots_inv ?s (filter (collectable s) (gc_list s))" using inv by (auto simp: life_inv_def slots_inv_def)
  moreover have "hosts_inv ?s h"
  proof -
    have "fst (h ! a) \<in> threads s \<union> set (gc_list ?s)" if "a < length h" "\<not> left (snd (h ! a))" for a
    proof -
      have m: "fst (h ! a) \<in> threads s \<union> set (gc_list s)"
        "\<forall>p. pthreads s (fst (h ! a)) = Some p \<longrightarrow> th_tid p \<noteq> TidTerminated"
        using inv that unfolding life_inv_def hosts_inv_def by blast+
      then have "\<not> collectable s (fst (h ! a))" by (auto simp: collectable_def split: option.splits)
      then show ?thesis using m(1) by auto
    qed
    then show ?thesis using inv by (simp add: life_inv_def hosts_inv_def)
  qed
  moreover have "locks_inv ?s h"
  proof -
    have "t \<in> set (gc_list ?s)" if u: "a < length h" "snd (h ! a) = L_unlock t True" for a t
    proof -
      have g: "t \<in> set (gc_list s)" "fst (h ! a) = t" using inv u unfolding life_inv_def locks_inv_def by blast+
      moreover have "\<not> left (snd (h ! a))" using u(2) by simp
      then have "\<forall>p. pthreads s t = Some p \<longrightarrow> th_tid p \<noteq> TidTerminated"
        using inv u(1) g(2) unfolding life_inv_def hosts_inv_def by blast
      ultimately show ?thesis by (auto simp: collectable_def split: option.splits)
    qed
    then show ?thesis using inv by (simp add: life_inv_def locks_inv_def)
  qed
  ultimately show ?thesis using inv by (simp add: life_inv_def refs_inv_def joins_inv_def)
qed

lemma life_link:
  assumes inv: "life_inv s h [t]" and p: "pthreads s t = Some p" "refcount p = 1" "th_tid p \<noteq> TidTerminated"
  shows "life_inv (s\<lparr>threads := insert t (threads s)\<rparr>) h []"
    "life_inv (s\<lparr>threads := insert t (threads s)\<rparr>) (h @ [(t, L_idle)]) []"
proof -
  note hand = in_hand [OF inv, of t, simplified]
  let ?s = "s\<lparr>threads := insert t (threads s)\<rparr>"
  have sl: "slots_inv ?s []" using inv hand by (auto simp: life_inv_def slots_inv_def)
  show "life_inv ?s h []"
    using inv sl hand(4) by (auto simp: life_inv_def refs_inv_def hosts_inv_def joins_inv_def locks_inv_def)
  have r: "refs u (h @ [(t, L_idle)]) = refs u h + of_bool (u = t)" for u
    by (auto simp: refs_append) (auto simp: refs_def)
  have "refs_inv ?s (h @ [(t, L_idle)])" using inv hand(4) p unfolding life_inv_def refs_inv_def r by auto
  moreover have "hosts_inv ?s (h @ [(t, L_idle)])"
    using inv p hand(5) by (auto simp: life_inv_def hosts_inv_def nth_append less_Suc_eq)
  moreover have "joins_inv ?s (h @ [(t, L_idle)])"
    using inv by (auto simp: life_inv_def joins_inv_def nth_append less_Suc_eq)
  moreover have "locks_inv ?s (h @ [(t, L_idle)])"
    using inv by (auto simp: life_inv_def locks_inv_def nth_append less_Suc_eq)
  ultimately show "life_inv ?s (h @ [(t, L_idle)]) []" using sl by (simp add: life_inv_def)
qed

lemma Thread_Free_inv:
  assumes inv: "life_inv s h (t # ws)" and st: "Thread_Free t s = Some s'"
  shows "life_inv s' h ws" "gc_list s' = gc_list s" "length (free_threads s) < MaxCachedThreads"
proof -
  have s': "length (free_threads s) < MaxCachedThreads"
    "s' = s\<lparr>pthreads := (pthreads s)(t := None), free_threads := free_threads s @ [t]\<rparr>"
    using st by (auto simp: Thread_Free_def SlabHeap_Free_def destroy_at_def split: bind_splits if_splits)
  then show "length (free_threads s) < MaxCachedThreads" "gc_list s' = gc_list s" by simp_all
  have sl: "slots_inv s (t # ws)" using inv by (simp add: life_inv_def)
  then have "t \<notin> set (free_threads s @ thread_heap s)" unfolding slots_inv_def by auto
  then have "distinct ((free_threads s @ [t]) @ thread_heap s)" using sl unfolding slots_inv_def by auto
  from life_drop [OF inv _ this] show "life_inv s' h ws"
    using s'(2) life_cong [of s' "s\<lparr>pthreads := (pthreads s)(t := None), free_threads := free_threads s @ [t], thread_heap := thread_heap s\<rparr>" h ws]
    by auto
qed

lemma free_all_inv: "free_all ts s = Some s' \<Longrightarrow> life_inv s h (ts @ ws) \<Longrightarrow> life_inv s' h ws"
  by (induction ts s arbitrary: s' rule: free_all.induct) (auto split: bind_splits dest: Thread_Free_inv(1))

lemma FreeStack_fields:
  "FreeStack attr s = (attr', s') \<Longrightarrow> pthreads s' = pthreads s \<and> threads s' = threads s \<and> gc_list s' = gc_list s \<and>
    free_threads s' = free_threads s \<and> thread_heap s' = thread_heap s"
  by (auto simp: FreeStack_def Let_def split: if_splits)

lemma collect_stacks_inv: "collect_stacks ts s = Some s' \<Longrightarrow> life_inv s h ws \<Longrightarrow> life_inv s' h ws"
proof (induction ts s arbitrary: s' rule: collect_stacks.induct)
  case (2 t ts s)
  from "2.prems"(1) obtain p where p: "pthreads s t = Some p" by (auto split: bind_splits)
  obtain attr s1 where f: "FreeStack (th_attr p) s = (attr, s1)" by fastforce
  note fields = FreeStack_fields [OF f]
  have "life_inv s1 h ws" using "2.prems"(2) life_cong [of s1 s h ws] fields by simp
  then have "life_inv (s1\<lparr>pthreads := (pthreads s1)(t \<mapsto> p\<lparr>th_attr := attr\<rparr>)\<rparr>) h ws"
    by (rule life_attr) (simp add: fields p)
  then show ?case using "2.IH" [OF p] f "2.prems"(1) p by simp
qed simp

lemma Collect_inv:
  assumes "life_inv s h []" "Collect s = Some s'"
  shows "life_inv s' h []"
  using assms(2) free_all_inv [of "filter (collectable s) (gc_list s)" _ s' h "[]"]
    collect_stacks_inv [OF _ life_garbage [OF assms(1)]]
  by (auto simp: Collect_def Let_def split: bind_splits if_splits)

lemma Thread_Alloc_inv:
  assumes inv: "life_inv s h []" and st: "Thread_Alloc cur tcb s = Some (new, s')"
  shows "case new of None \<Rightarrow> life_inv s' h [] | Some t \<Rightarrow> life_inv s' h [t]"
proof -
  obtain s1 where s1: "(if cur \<and> GcNeeded s then Collect s else Some s) = Some s1"
    using st by (auto simp: Thread_Alloc_def split: bind_splits)
  then have i: "life_inv s1 h []" using inv Collect_inv [OF inv] by (auto split: if_splits)
  then have sl: "slots_inv s1 []" by (simp add: life_inv_def)
  have dist: "distinct (free_threads s1 @ thread_heap s1)" "set (free_threads s1 @ thread_heap s1) \<inter> dom (pthreads s1) = {}"
    using sl unfolding slots_inv_def by blast+
  note tot = life_cong [of "s\<lparr>total_threads := n\<rparr>" s h ws for s n ws, simplified]
  consider (cached) fr t where "cur" "free_threads s1 = fr @ [t]"
    | (full) "\<not> (cur \<and> free_threads s1 \<noteq> [])" "total_threads s1 > int MaxThreads \<or> thread_heap s1 = []"
    | (slot) t hp where "\<not> (cur \<and> free_threads s1 \<noteq> [])" "\<not> total_threads s1 > int MaxThreads" "thread_heap s1 = t # hp"
    by (metis append_butlast_last_id list.exhaust)
  then show ?thesis
  proof cases
    case cached
    have t: "t \<notin> dom (pthreads s1)" using dist(2) cached(2) by auto
    have "life_inv (s1\<lparr>pthreads := (pthreads s1)(t \<mapsto> Pthread_new), free_threads := fr, thread_heap := thread_heap s1\<rparr>) h [t]"
      using dist cached(2) by (intro life_take [OF i t]) (auto simp: Pthread_new_def)
    moreover have "new = Some t \<and> s' = s1\<lparr>pthreads := (pthreads s1)(t \<mapsto> Pthread_new), free_threads := fr\<rparr>"
      using st s1 cached t by (auto simp: Thread_Alloc_def SlabHeap_Free_def destroy_at_def domIff split: if_splits)
    ultimately show ?thesis by simp
  next
    case full
    then have "new = None \<and> s' = s1"
      using st s1 by (auto simp: Thread_Alloc_def SlabHeap_Allocate_def split: if_splits)
    then show ?thesis using i by simp
  next
    case slot
    have t: "t \<notin> dom (pthreads s1)" using dist(2) slot(3) by auto
    let ?s = "s1\<lparr>pthreads := (pthreads s1)(t \<mapsto> Pthread_new), free_threads := free_threads s1, thread_heap := hp\<rparr>"
    have j: "life_inv ?s h [t]"
      using dist slot(3) by (intro life_take [OF i t]) (auto simp: Pthread_new_def)
    show ?thesis
    proof (cases "tcb = 0")
      case False
      then have "new = Some t" "pthreads s' = (pthreads s1)(t \<mapsto> Pthread_new)" "threads s' = threads s1" "gc_list s' = gc_list s1"
        "free_threads s' = free_threads s1" "thread_heap s' = hp"
        using st s1 slot by (auto simp: Thread_Alloc_def SlabHeap_Allocate_def)
      then show ?thesis using j life_cong [of s' ?s h "[t]"] by simp
    next
      case True
      then have "new = None" and s': "pthreads s' = (pthreads s1)(t := None)" "threads s' = threads s1" "gc_list s' = gc_list s1"
        "free_threads s' = free_threads s1" "thread_heap s' = t # hp"
        using st s1 slot by (auto simp: Thread_Alloc_def SlabHeap_Allocate_def SlabHeap_Free_def destroy_at_def)
      moreover have "pthreads s' = pthreads s1" using s'(1) t by (auto simp: domIff)
      ultimately show ?thesis using i life_cong [of s' s1 h "[]"] slot(3) by simp
    qed
  qed
qed

lemma spare_stack_fields:
  "spare_stack n g s = Some (addr, s') \<Longrightarrow> pthreads s' = pthreads s \<and> threads s' = threads s \<and> gc_list s' = gc_list s \<and>
    free_threads s' = free_threads s \<and> thread_heap s' = thread_heap s"
  by (auto simp: spare_stack_def split: if_splits list.splits option.splits)

lemma CreateStack_fields:
  assumes "CreateStack attr s = Some (ret, attr', s')"
  shows "pthreads s' = pthreads s \<and> threads s' = threads s \<and> gc_list s' = gc_list s \<and>
    free_threads s' = free_threads s \<and> thread_heap s' = thread_heap s"
proof (cases "stackaddr_attr attr = 0")
  case True
  show ?thesis
  proof (cases "spare_stack (RoundUp (stacksize_attr attr)) (RoundUp (guardsize_attr attr)) s")
    case None
    then show ?thesis using assms True by (auto simp: CreateStack_def Let_def split: bind_splits if_splits)
  next
    case (Some r)
    obtain addr s1 where r: "r = (addr, s1)" by fastforce
    then have "s' = s1" using assms True Some by (simp add: CreateStack_def Let_def)
    then show ?thesis using spare_stack_fields Some r by blast
  qed
qed (use assms in \<open>simp add: CreateStack_def\<close>)

text \<open>
  Making a thread: the table keeps the invariant, with the new thread as a new host where the host could
  make one.
\<close>

lemma create_inv:
  assumes inv: "life_inv s h []" and c: "c + 1 \<noteq> TidTerminated"
    and st: "posix_pthread_create_name_np me tcb c attr name auto native s = Some (ret, new, c', s')"
  shows "life_inv s' (h @ (case new of Some t \<Rightarrow> [(t, L_idle)] | None \<Rightarrow> [])) []" "c' = c \<or> c' = c + 1"
proof -
  obtain new1 s1 where al: "Thread_Alloc (me \<noteq> None) tcb s = Some (new1, s1)"
    using st unfolding posix_pthread_create_name_np_def by (auto split: bind_splits)
  note i1 = Thread_Alloc_inv [OF inv al]
  have "life_inv s' (h @ (case new of Some t \<Rightarrow> [(t, L_idle)] | None \<Rightarrow> [])) [] \<and> (c' = c \<or> c' = c + 1)"
  proof (cases new1)
    case None
    then show ?thesis using st al i1 by (simp add: posix_pthread_create_name_np_def)
  next
    case (Some t)
    obtain cur r2 a2 s2 s3 where s2: "CreateStack (new_attr cur attr) s1 = Some (r2, a2, s2)"
      "set_thread t (\<lambda>p. p\<lparr>th_attr := a2, th_tid := c + 1\<rparr>) s2 = Some s3"
      "(if r2 \<noteq> 0 then do { s \<leftarrow> Thread_Free t s3; Some (POSIX_EAGAIN, None, c + 1, s) }
        else do {
          name \<leftarrow> (case name of None \<Rightarrow> Some auto
                    | Some (addr, str) \<Rightarrow> do { valid \<leftarrow> IsValidMapping (memory s3) addr 0; Some (if valid then str else auto) });
          s \<leftarrow> set_thread t (\<lambda>p. p\<lparr>cancel_enable := True, cancel_async := False, th_name := name, th_state := PthreadState_Running,
                 th_flags := (if attr_flags a2 AND Attr_Detached \<noteq> 0 then th_flags p OR ThreadFlags_Detached else th_flags p),
                 refcount := 1\<rparr>) s3;
          let s = Thread_Link t s;
          Some (if native \<noteq> 0 then (- 1, None, c + 1, s) else (0, Some t, c + 1, s))
        }) = Some (ret, new, c', s')"
      using st al Some unfolding posix_pthread_create_name_np_def Let_def by (auto split: bind_splits)
    have "life_inv s2 h [t]" using i1 Some CreateStack_fields [OF s2(1)] life_cong [of s2 s1 h "[t]"] by simp
    moreover from this obtain p where p: "pthreads s2 t = Some p" "refcount p \<ge> 0"
      using in_hand(1,4) [of s2 h "[t]" t] refs_le [of s2 h "[t]" t] by fastforce
    ultimately obtain pm where i3: "life_inv s3 h [t]" and p3: "pthreads s3 t = Some pm" and pm: "th_tid pm = c + 1"
      using s2(2) life_fresh [of s2 h "[t]" t "p\<lparr>th_attr := a2, th_tid := c + 1\<rparr>"] by (auto simp: set_thread_def)
    show ?thesis
    proof (cases "r2 = 0")
      case False
      then show ?thesis using s2(3) Thread_Free_inv(1) [OF i3] by (auto split: bind_splits)
    next
      case True
      define q where "q = (\<lambda>n. pm\<lparr>cancel_enable := True, cancel_async := False, th_name := n,
        th_state := PthreadState_Running,
        th_flags := (if attr_flags a2 AND Attr_Detached \<noteq> 0 then th_flags pm OR ThreadFlags_Detached else th_flags pm), refcount := 1\<rparr>)"
      obtain n where n: "(let s = Thread_Link t (s3\<lparr>pthreads := (pthreads s3)(t \<mapsto> q n)\<rparr>)
          in if native \<noteq> 0 then (- 1, None, c + 1, s) else (0, Some t, c + 1, s)) = (ret, new, c', s')"
        using s2(3) True p3 by (auto simp: set_thread_def q_def Let_def split: bind_splits)
      let ?s = "s3\<lparr>pthreads := (pthreads s3)(t \<mapsto> q n)\<rparr>"
      have "life_inv ?s h [t]" by (rule life_fresh [OF i3]) (simp_all add: q_def)
      from life_link [OF this, of "q n"] c
      have "life_inv (?s\<lparr>threads := insert t (threads ?s)\<rparr>) h []" "life_inv (?s\<lparr>threads := insert t (threads ?s)\<rparr>) (h @ [(t, L_idle)]) []"
        by (simp_all add: q_def pm)
      then show ?thesis using n by (auto simp: Thread_Link_def Let_def split: if_splits)
    qed
  qed
  then show "life_inv s' (h @ (case new of Some t \<Rightarrow> [(t, L_idle)] | None \<Rightarrow> [])) []" "c' = c \<or> c' = c + 1" by simp_all
qed

subsection \<open>Theorems\<close>

lemma life_step_inv:
  assumes inv: "life_inv (table w) (hosts w) []" and a: "a < length (hosts w)" and c: "counter w + 1 \<noteq> TidTerminated"
    and st: "life_step a act w = Some w'"
  shows "life_inv (table w') (hosts w') []"
proof -
  obtain me pc where h: "hosts w ! a = (me, pc)" by fastforce
  note i = inv a
  show ?thesis
  proof (cases pc)
    case L_idle
    then have h: "hosts w ! a = (me, L_idle)" using h by simp
    show ?thesis
    proof (cases act)
      case (Act_create attr tcb name native)
      then show ?thesis using st h L_idle create_inv(1) [OF inv c]
        by (auto simp: life_step_def Let_def posix_pthread_create_def split: bind_splits)
    next
      case (Act_ref thread)
      then show ?thesis using st h L_idle life_ref [OF i h, of thread] by (auto simp: life_step_def Let_def)
    next
      case (Act_join thread)
      then show ?thesis using st h L_idle life_join [OF i h, of thread] by (auto simp: life_step_def Let_def)
    next
      case (Act_detach thread)
      then show ?thesis using st h L_idle life_detach [OF i h, of thread] by (auto simp: life_step_def Let_def)
    next
      case (Act_exit status)
      then show ?thesis using st h L_idle life_exit [OF i h, of status] by (auto simp: life_step_def Let_def)
    qed (use st h L_idle inv in \<open>simp add: life_step_def Let_def\<close>)
  next
    case (L_holding t)
    then show ?thesis using st h life_refdelete [OF i, of me t] by (auto simp: life_step_def Let_def)
  next
    case (L_joining t)
    then show ?thesis using st h inv life_join_end [OF i, of me t] by (auto simp: life_step_def Let_def split: bind_splits if_splits)
  next
    case (L_collect t own)
    then show ?thesis using st h life_collect_end [OF i, of me t own] by (auto simp: life_step_def Let_def)
  next
    case (L_unlock t own)
    then show ?thesis using st h life_unlock(1) [OF i, of me t own] by (auto simp: life_step_def Let_def split: bind_splits)
  next
    case L_exit_tid
    then show ?thesis using st h life_terminated [OF i, of me]
      by (auto simp: life_step_def Let_def exit_terminated_def set_thread_def split: bind_splits)
  next
    case L_exit_native
    then show ?thesis using st h life_gone [OF i, of me] by (auto simp: life_step_def Let_def exit_native_def split: bind_splits)
  qed (use st h inv in \<open>simp add: life_step_def Let_def\<close>)
qed

lemma life_reachable_inv: "life_reachable w \<Longrightarrow> life_inv (table w) (hosts w) []"
proof (induction rule: life_reachable.induct)
  case (start tcb attr name n mm t c s)
  have "life_inv (ThreadState_new n mm) [] []"
    by (simp add: life_inv_def slots_inv_def refs_inv_def hosts_inv_def joins_inv_def locks_inv_def ThreadState_new_def refs_def)
  from create_inv(1) [OF this _ start [unfolded posix_pthread_create_def]] show ?case by (simp add: TidTerminated_def)
next
  case (step w a act w')
  have "a < length (hosts w)" using step.hyps(2) by (simp add: life_enabled_def)
  from life_step_inv [OF step.IH this step.hyps(3,4)] show ?case .
qed

text \<open>
  C38: taking and giving up a reference to a thread, joining, detaching and ending one use no structure that
  is not there and give up no lock that is not held, whatever pointers the game passes and however the steps
  interleave, as long as no thread gets the number that marks a terminated one.  Three kinds of steps are
  not covered: the last one of a thread that ends; giving up the lock of another thread's structure
  after that one was made garbage (\<open>unlock_uses_freed_thread\<close>: both can use a structure that was given
  back); and making a thread, whose stack may find no memory.
\<close>

theorem thread_steps_defined:
  assumes "life_reachable w" "life_enabled a act w"
    and "snd (hosts w ! a) \<noteq> L_exit_native" "\<And>t. snd (hosts w ! a) \<noteq> L_unlock t False"
    and "\<And>attr tcb name native. act \<noteq> Act_create attr tcb name native"
  shows "\<exists>w'. life_step a act w = Some w'"
proof -
  obtain me pc where h: "hosts w ! a = (me, pc)" by fastforce
  have i: "life_inv (table w) (hosts w) []" "a < length (hosts w)"
    using life_reachable_inv [OF assms(1)] assms(2) by (simp_all add: life_enabled_def)
  show ?thesis
  proof (cases pc)
    case L_idle
    then have h: "hosts w ! a = (me, L_idle)" using h by simp
    show ?thesis
    proof (cases act)
      case (Act_ref thread)
      then show ?thesis using h life_ref [OF i h, of thread] by (auto simp: life_step_def Let_def)
    next
      case (Act_join thread)
      then show ?thesis using h life_join [OF i h, of thread] by (auto simp: life_step_def Let_def)
    next
      case (Act_detach thread)
      then show ?thesis using h life_detach [OF i h, of thread] by (auto simp: life_step_def Let_def)
    next
      case (Act_exit status)
      then show ?thesis using h life_exit [OF i h, of status] by (auto simp: life_step_def Let_def)
    qed (use assms(5) h in \<open>simp_all add: life_step_def Let_def\<close>)
  next
    case (L_holding t)
    then show ?thesis using h life_refdelete [OF i, of me t] by (auto simp: life_step_def Let_def)
  next
    case (L_joining t)
    then have "t \<in> threads (table w)" using i h by (auto simp: life_inv_def joins_inv_def)
    then obtain p where "pthreads (table w) t = Some p" using thread_dom [OF i(1)] by blast
    then show ?thesis using h L_joining life_join_end [OF i, of me t] by (auto simp: life_step_def Let_def join_ready_def)
  next
    case (L_collect t own)
    then show ?thesis using h life_collect_end [OF i, of me t own] by (auto simp: life_step_def Let_def)
  next
    case (L_unlock t own)
    then have own using assms(4) [of t] h by (cases own) simp_all
    then show ?thesis using h L_unlock life_unlock(2) [OF i, of me t own] by (auto simp: life_step_def Let_def)
  next
    case L_exit_tid
    have "me \<in> threads (table w) \<union> set (gc_list (table w))"
      using i h L_exit_tid unfolding life_inv_def hosts_inv_def by (metis fst_conv left_simps(6) snd_conv)
    then obtain p where "pthreads (table w) me = Some p" using i(1) unfolding life_inv_def slots_inv_def by blast
    then show ?thesis using h L_exit_tid by (simp add: life_step_def Let_def exit_terminated_def set_thread_def)
  qed (use assms(3) h in \<open>simp_all add: life_step_def Let_def\<close>)
qed

text \<open>
  C39: references are counted: in every state that is reached, as long as no thread gets the number that
  marks a terminated one, the count of a structure is at least the number of references that threads have
  to it; a structure is garbage at most once and not in the table then, and no reference to it is left and
  nobody waits to join it (a thread that made it garbage may still be about to give up its lock); and the
  slots that are free for new threads hold no structure.
\<close>

theorem references_counted:
  assumes "life_reachable w"
  shows "distinct (gc_list (table w)) \<and> threads (table w) \<inter> set (gc_list (table w)) = {} \<and>
    (\<forall>t p. pthreads (table w) t = Some p \<longrightarrow> int (refs t (hosts w)) \<le> refcount p) \<and>
    (\<forall>t \<in> set (gc_list (table w)). refs t (hosts w) = 0 \<and> (\<forall>a < length (hosts w). snd (hosts w ! a) \<noteq> L_joining t)) \<and>
    (\<forall>t \<in> set (free_threads (table w) @ thread_heap (table w)). pthreads (table w) t = None)"
proof -
  have i: "life_inv (table w) (hosts w) []" by (rule life_reachable_inv [OF assms])
  have t: "t \<notin> threads (table w)" if "t \<in> set (gc_list (table w))" for t
    using i that by (auto simp: life_inv_def slots_inv_def)
  have "refs t (hosts w) = 0 \<and> (\<forall>a < length (hosts w). snd (hosts w ! a) \<noteq> L_joining t)"
    if "t \<in> set (gc_list (table w))" for t
    using i t [OF that] unfolding life_inv_def refs_inv_def joins_inv_def by blast
  moreover have "pthreads (table w) t = None" if "t \<in> set (free_threads (table w) @ thread_heap (table w))" for t
    using i that unfolding life_inv_def slots_inv_def by blast
  ultimately show ?thesis using i refs_le [OF i] by (auto simp: life_inv_def slots_inv_def)
qed

text \<open>Runs, and a game that makes threads with stacks of its own.\<close>

fun life_run :: "(nat \<times> life_action) list \<Rightarrow> life_world \<Rightarrow> life_world option" where
  "life_run [] w = Some w"
| "life_run ((a, act) # rest) w =
     (if life_enabled a act w \<and> counter w + 1 \<noteq> TidTerminated
      then do { w \<leftarrow> life_step a act w; life_run rest w } else None)"

lemma life_run_reachable: "life_reachable w \<Longrightarrow> life_run xs w = Some w' \<Longrightarrow> life_reachable w'"
  by (induction xs w rule: life_run.induct) (auto split: bind_splits if_splits intro: life_reachable.step)

text \<open>A detached thread on a stack of the game.\<close>

definition demo_attr :: PthreadAttr where
  "demo_attr = PthreadAttrDefault\<lparr>stackaddr_attr := 0x100000, sched_inherit := 0, attr_flags := Attr_Detached\<rparr>"

definition demo_stack :: PthreadAttr where
  "demo_stack = demo_attr\<lparr>guardsize_attr := 0, attr_flags := Attr_Detached OR Attr_StackUser\<rparr>"

definition demo_thread :: "s32 \<Rightarrow> Pthread" where
  "demo_thread c = Pthread_new\<lparr>th_attr := demo_stack, th_tid := c, cancel_enable := True, cancel_async := False,
     th_name := ''t'', th_state := PthreadState_Running, th_flags := ThreadFlags_Detached, refcount := 1\<rparr>"

lemma demo_new_attr: "new_attr cur (Some (Some demo_attr)) = demo_attr"
  by (cases cur) (simp_all add: new_attr_def demo_attr_def PthreadAttrDefault_def PthreadInheritSched_def)

lemma demo_create_stack: "CreateStack demo_attr s = Some (0, demo_stack, s)"
  by (simp add: CreateStack_def demo_stack_def) (simp add: demo_attr_def)

text \<open>Making such a thread in a slot that \<^verbatim>\<open>Alloc\<close> found.\<close>

lemma demo_create:
  assumes "Thread_Alloc (me \<noteq> None) 1 s = Some (Some t, s1)" "pthreads s1 t = Some Pthread_new"
    and "\<forall>m. me = Some m \<longrightarrow> pthreads s1 m \<noteq> None"
  shows "posix_pthread_create me 1 c (Some (Some demo_attr)) ''t'' 0 s =
    Some (0, Some t, c + 1, Thread_Link t (s1\<lparr>pthreads := (pthreads s1)(t \<mapsto> demo_thread (c + 1))\<rparr>))"
proof -
  have d: "attr_flags demo_stack AND Attr_Detached \<noteq> 0"
    by (simp add: demo_stack_def attr_const_defs)
  obtain cur where "(case me of None \<Rightarrow> Some None | Some m \<Rightarrow> map_option (\<lambda>p. Some (th_attr p)) (pthreads s1 m)) = Some cur"
    using assms(3) by (cases me) auto
  then show ?thesis using assms(1,2) d
    by (simp add: posix_pthread_create_def posix_pthread_create_name_np_def demo_new_attr demo_create_stack set_thread_def
        demo_thread_def Pthread_new_def Let_def)
qed

text \<open>The main thread of such a game, in a heap of nine slots.\<close>

definition demo_main :: "MemoryManager \<Rightarrow> life_world" where
  "demo_main mm = \<lparr>table = Thread_Link 0 ((ThreadState_new 9 mm)\<lparr>thread_heap := [1..<9], total_threads := 1,
       pthreads := [0 \<mapsto> demo_thread 2]\<rparr>), counter = 2, hosts = [(0, L_idle)]\<rparr>"

lemma demo_main_reachable: "life_reachable (demo_main mm)"
proof -
  have u: "[0..<9] = 0 # [1..<9]" by (simp add: upt_rec)
  have "Thread_Alloc (None \<noteq> (None :: nat option)) 1 (ThreadState_new 9 mm) =
      Some (Some 0, (ThreadState_new 9 mm)\<lparr>thread_heap := [1..<9], total_threads := 1, pthreads := [0 \<mapsto> Pthread_new]\<rparr>)"
    by (simp add: Thread_Alloc_def SlabHeap_Allocate_def ThreadState_new_def u)
  from demo_create [OF this, of 1]
  have "posix_pthread_create None 1 1 (Some (Some demo_attr)) ''t'' 0 (ThreadState_new 9 mm) =
      Some (0, Some 0, 2, Thread_Link 0 ((ThreadState_new 9 mm)\<lparr>thread_heap := [1..<9], total_threads := 1,
        pthreads := [0 \<mapsto> demo_thread 2]\<rparr>))"
    by simp
  then show ?thesis unfolding demo_main_def by (rule life_reachable.start)
qed

definition demo_world :: life_world where
  "demo_world = demo_main (MemoryManager_init [(0, 0x10000)] 0 0 0 0 0)"

lemma demo_world_reachable: "life_reachable demo_world"
  unfolding demo_world_def by (rule demo_main_reachable)

text \<open>The only thread ends: it made its structure garbage and has its lock.\<close>

lemma demo_ending: "\<exists>w. life_reachable w \<and> life_enabled 0 Act_go w \<and> hosts w = [(0, L_unlock 0 True)]"
proof -
  have "\<exists>w. life_run [(0, Act_exit 0), (0, Act_go)] demo_world = Some w \<and> hosts w = [(0, L_unlock 0 True)]"
    by (simp add: demo_world_def demo_main_def life_enabled_def life_step_def Let_def exit_begin_def exit_thread_def set_thread_def
        TryCollect_begin_def TryCollect_end_def ShouldCollect_def demo_thread_def Thread_Link_def TidTerminated_def)
      (simp add: ThreadFlags_Detached_def)
  then obtain w where "life_reachable w" "hosts w = [(0, L_unlock 0 True)]"
    using life_run_reachable [OF demo_world_reachable] by blast
  then show ?thesis by (auto simp: life_enabled_def)
qed

theorem thread_steps_defined_witness:
  "(\<exists>w'. life_step 0 (Act_join (Some 77)) demo_world = Some w') \<and>
   (\<exists>w w'. life_reachable w \<and> hosts w = [(0, L_unlock 0 True)] \<and> life_step 0 Act_go w = Some w')"
proof
  have "life_enabled 0 (Act_join (Some 77)) demo_world" by (simp add: life_enabled_def demo_world_def demo_main_def)
  from thread_steps_defined [OF demo_world_reachable this]
  show "\<exists>w'. life_step 0 (Act_join (Some 77)) demo_world = Some w'" by (simp add: demo_world_def demo_main_def)
  obtain w where "life_reachable w" "life_enabled 0 Act_go w" "hosts w = [(0, L_unlock 0 True)]" using demo_ending by blast
  with thread_steps_defined [OF this(1,2)]
  show "\<exists>w w'. life_reachable w \<and> hosts w = [(0, L_unlock 0 True)] \<and> life_step 0 Act_go w = Some w'" by auto
qed

theorem references_counted_witness:
  "distinct (gc_list (table demo_world)) \<and> refs 0 (hosts demo_world) = 1"
  using references_counted [OF demo_world_reachable] by (simp add: demo_world_def demo_main_def refs_def)

end
