(* ===== verification/Thread_Race.thy ===== *)
theory Thread_Race
  imports Thread_Life
begin

section \<open>The end of a thread\<close>

text \<open>
  \<^verbatim>\<open>ExitThread\<close> lets the table of threads go on before it is done with the structure of its thread: after
  the store to \<^verbatim>\<open>tid\<close> the structure can be collected, and \<^verbatim>\<open>native_thr.Exit()\<close> is a method of it.  A run of
  a game leads there.
\<close>

text \<open>A thread of the demonstration after its end.\<close>

definition demo_dead :: "s32 \<Rightarrow> Pthread" where
  "demo_dead c = (demo_thread c)\<lparr>cancelling := True, no_cancel := True, cancel_async := False, cancel_point := False,
     th_ret := 0, th_state := PthreadState_Dead, refcount := 0\<rparr>"

lemma demo_dead_terminated: "demo_dead c\<lparr>th_tid := TidTerminated\<rparr> = demo_dead TidTerminated"
  by (simp add: demo_dead_def demo_thread_def)

text \<open>Such a thread ends: it is garbage, and its host is before the last step.\<close>

lemma demo_end:
  assumes a: "a < length (hosts w)" "hosts w ! a = (t, L_idle)" and p: "pthreads (table w) t = Some (demo_thread c)"
    and c: "counter w + 1 \<noteq> TidTerminated"
  shows "life_run [(a, Act_exit 0), (a, Act_go), (a, Act_go), (a, Act_go)] w =
    Some (w\<lparr>table := (table w)\<lparr>pthreads := (pthreads (table w))(t \<mapsto> demo_dead TidTerminated),
        active_threads := active_threads (table w) - 1, threads := threads (table w) - {t}, gc_list := gc_list (table w) @ [t]\<rparr>,
      hosts := (hosts w)[a := (t, L_exit_native)]\<rparr>)"
proof -
  let ?s = "table w" and ?h = "\<lambda>pc. (hosts w)[a := (t, pc)]"
  let ?w1 = "w\<lparr>table := ?s\<lparr>pthreads := (pthreads ?s)(t \<mapsto> demo_dead c\<lparr>refcount := 1\<rparr>), active_threads := active_threads ?s - 1\<rparr>,
    hosts := ?h (L_collect t True)\<rparr>"
  let ?w3 = "w\<lparr>table := ?s\<lparr>pthreads := (pthreads ?s)(t \<mapsto> demo_dead c\<lparr>th_lock := Some t\<rparr>),
    active_threads := active_threads ?s - 1, threads := threads ?s - {t}, gc_list := gc_list ?s @ [t]\<rparr>, hosts := ?h (L_unlock t True)\<rparr>"
  let ?w2 = "w\<lparr>table := ?s\<lparr>pthreads := (pthreads ?s)(t \<mapsto> demo_dead c), active_threads := active_threads ?s - 1,
    threads := threads ?s - {t}, gc_list := gc_list ?s @ [t]\<rparr>, hosts := ?h L_exit_tid\<rparr>"
  have sc: "ShouldCollect (demo_dead c)" "refcount (demo_dead c) = 0"
    by (simp_all add: ShouldCollect_def demo_dead_def demo_thread_def ThreadFlags_Detached_def)
  have e: "exit_begin t 0 ?s = Some (?s\<lparr>pthreads := (pthreads ?s)(t \<mapsto> (demo_thread c)\<lparr>cancelling := True, no_cancel := True,
      cancel_async := False, cancel_point := False, th_ret := 0\<rparr>)\<rparr>)"
    using p by (simp add: exit_begin_def set_thread_def)
  have d: "(demo_thread c)\<lparr>cancelling := True, no_cancel := True, cancel_async := False, cancel_point := False, th_ret := 0,
      th_state := PthreadState_Dead, refcount := refcount (demo_thread c) - 1\<rparr> = demo_dead c"
    by (simp add: demo_dead_def demo_thread_def)
  have "life_step a (Act_exit 0) w = Some ?w1"
    using a e d sc by (simp add: life_step_def Let_def exit_thread_def set_thread_def TryCollect_begin_def)
  moreover have "life_step a Act_go ?w1 = Some ?w3"
    using a sc by (simp add: life_step_def Let_def TryCollect_end_def set_thread_def demo_dead_def)
  moreover have "demo_dead c\<lparr>th_lock := None\<rparr> = demo_dead c" by (simp add: demo_dead_def demo_thread_def Pthread_new_def)
  then have "life_step a Act_go ?w3 = Some ?w2"
    using a by (simp add: life_step_def Let_def unlock_thread_def set_thread_def)
  moreover have "life_step a Act_go ?w2 = Some (w\<lparr>table := ?s\<lparr>pthreads := (pthreads ?s)(t \<mapsto> demo_dead TidTerminated),
      active_threads := active_threads ?s - 1, threads := threads ?s - {t}, gc_list := gc_list ?s @ [t]\<rparr>, hosts := ?h L_exit_native\<rparr>)"
    using a by (simp add: life_step_def Let_def exit_terminated_def set_thread_def demo_dead_terminated)
  moreover have "life_enabled a (Act_exit 0) w" "life_enabled a Act_go ?w1" "life_enabled a Act_go ?w2" "life_enabled a Act_go ?w3"
    using a by (simp_all add: life_enabled_def)
  ultimately show ?thesis using c by simp
qed

text \<open>The main thread makes one more thread, in the next slot of the heap.\<close>

lemma demo_make:
  assumes h: "hosts w ! 0 = (0, L_idle)" "hosts w \<noteq> []" and p: "pthreads (table w) 0 \<noteq> None" "t \<noteq> 0"
    and s: "length (gc_list (table w)) < 5" "free_threads (table w) = []" "thread_heap (table w) = t # hp" "total_threads (table w) \<le> 9"
    and c: "counter w + 1 \<noteq> TidTerminated"
  shows "\<exists>s. life_run [(0, Act_create (Some (Some demo_attr)) 1 ''t'' 0)] w =
      Some (w\<lparr>table := s, counter := counter w + 1, hosts := hosts w @ [(t, L_idle)]\<rparr>) \<and>
    pthreads s = (pthreads (table w))(t \<mapsto> demo_thread (counter w + 1)) \<and> gc_list s = gc_list (table w) \<and>
    free_threads s = [] \<and> thread_heap s = hp \<and> total_threads s = total_threads (table w) + 1"
proof -
  let ?s1 = "(table w)\<lparr>thread_heap := hp, total_threads := total_threads (table w) + 1, pthreads := (pthreads (table w))(t \<mapsto> Pthread_new)\<rparr>"
  have "Thread_Alloc (Some 0 \<noteq> (None :: nat option)) 1 (table w) = Some (Some t, ?s1)"
    using s by (simp add: Thread_Alloc_def GcNeeded_def GcThreshold_def SlabHeap_Allocate_def MaxThreads_def)
  from demo_create [OF this, of "counter w"] p
  have "posix_pthread_create (Some 0) 1 (counter w) (Some (Some demo_attr)) ''t'' 0 (table w) =
      Some (0, Some t, counter w + 1, Thread_Link t (?s1\<lparr>pthreads := (pthreads ?s1)(t \<mapsto> demo_thread (counter w + 1))\<rparr>))"
    by simp
  then show ?thesis using h c s(2) by (auto simp: life_step_def life_enabled_def Let_def Thread_Link_def)
qed

text \<open>Several threads made and ended.\<close>

definition after_ends :: "nat \<Rightarrow> life_world \<Rightarrow> bool" where
  "after_ends k w \<longleftrightarrow> life_reachable w \<and> hosts w = (0, L_idle) # map (\<lambda>i. (i, L_exit_native)) [1..<Suc k] \<and>
     gc_list (table w) = [1..<Suc k] \<and> free_threads (table w) = [] \<and> thread_heap (table w) = [Suc k..<9] \<and>
     total_threads (table w) = int k + 1 \<and> counter w = of_nat (k + 2) \<and>
     pthreads (table w) 0 = Some (demo_thread 2) \<and> (\<forall>t \<in> {1..k}. pthreads (table w) t = Some (demo_dead TidTerminated))"

lemma small_tid: "k \<le> 20 \<Longrightarrow> (of_nat (k + 2) :: s32) + 1 \<noteq> TidTerminated"
proof -
  assume k: "k \<le> 20"
  have u: "unat (of_nat (k + 3) :: s32) = k + 3" using k by (simp add: unsigned_of_nat take_bit_eq_mod del: of_nat_add)
  have "(of_nat (k + 3) :: s32) \<noteq> TidTerminated"
  proof
    assume "(of_nat (k + 3) :: s32) = TidTerminated"
    then have "k + 3 = unat TidTerminated" using u by simp
    then show False by (simp add: TidTerminated_def)
  qed
  moreover have "(of_nat (k + 2) :: s32) + 1 = of_nat (k + 3)" by (simp add: add.commute)
  ultimately show ?thesis by (simp only:) simp
qed

lemma one_more_end:
  assumes D: "after_ends k w" and k: "k < 5"
  shows "\<exists>w'. after_ends (Suc k) w'"
proof -
  have u: "[Suc k..<9] = Suc k # [Suc (Suc k)..<9]" using k by (simp add: upt_rec)
  have c: "counter w + 1 \<noteq> TidTerminated" using D k small_tid [of k] by (simp add: after_ends_def)
  have "hosts w ! 0 = (0, L_idle)" "hosts w \<noteq> []" "pthreads (table w) 0 \<noteq> None" "length (gc_list (table w)) < 5"
    "free_threads (table w) = []" "thread_heap (table w) = Suc k # [Suc (Suc k)..<9]" "total_threads (table w) \<le> 9"
    using D k u by (simp_all add: after_ends_def)
  from demo_make [OF this(1-3) _ this(4-7) c] obtain s where s:
    "life_run [(0, Act_create (Some (Some demo_attr)) 1 ''t'' 0)] w =
      Some (w\<lparr>table := s, counter := counter w + 1, hosts := hosts w @ [(Suc k, L_idle)]\<rparr>)"
    "pthreads s = (pthreads (table w))(Suc k \<mapsto> demo_thread (counter w + 1))" "gc_list s = gc_list (table w)"
    "free_threads s = []" "thread_heap s = [Suc (Suc k)..<9]" "total_threads s = total_threads (table w) + 1" by auto
  let ?w1 = "w\<lparr>table := s, counter := counter w + 1, hosts := hosts w @ [(Suc k, L_idle)]\<rparr>"
  have r1: "life_reachable ?w1" using D s(1) life_run_reachable unfolding after_ends_def by blast
  have l: "length (hosts w) = Suc k" using D by (simp add: after_ends_def)
  have c1: "counter ?w1 + 1 \<noteq> TidTerminated" using D k small_tid [of "Suc k"] by (simp add: after_ends_def add.commute add.left_commute)
  have "Suc k < length (hosts ?w1)" "hosts ?w1 ! Suc k = (Suc k, L_idle)"
    "pthreads (table ?w1) (Suc k) = Some (demo_thread (counter w + 1))"
    using l s(2) by (simp_all add: nth_append)
  from demo_end [OF this c1] have r2: "life_run [(Suc k, Act_exit 0), (Suc k, Act_go), (Suc k, Act_go), (Suc k, Act_go)] ?w1 =
      Some (?w1\<lparr>table := s\<lparr>pthreads := (pthreads s)(Suc k \<mapsto> demo_dead TidTerminated), active_threads := active_threads s - 1,
        threads := threads s - {Suc k}, gc_list := gc_list s @ [Suc k]\<rparr>, hosts := (hosts ?w1)[Suc k := (Suc k, L_exit_native)]\<rparr>)"
    by simp
  have "after_ends (Suc k) (?w1\<lparr>table := s\<lparr>pthreads := (pthreads s)(Suc k \<mapsto> demo_dead TidTerminated), active_threads := active_threads s - 1,
        threads := threads s - {Suc k}, gc_list := gc_list s @ [Suc k]\<rparr>, hosts := (hosts ?w1)[Suc k := (Suc k, L_exit_native)]\<rparr>)"
    unfolding after_ends_def
    using life_run_reachable [OF r1 r2] D s k l by (auto simp: after_ends_def list_update_append add.commute add.left_commute)
  then show ?thesis by blast
qed

lemma some_ends: "k \<le> 5 \<Longrightarrow> \<exists>w. after_ends k w"
proof (induction k)
  case 0
  have "after_ends 0 demo_world"
    using demo_world_reachable by (simp add: after_ends_def demo_world_def demo_main_def Thread_Link_def ThreadState_new_def)
  then show ?case by blast
next
  case (Suc k)
  then obtain w where "after_ends k w" by auto
  from one_more_end [OF this] Suc.prems show ?case by simp
qed

text \<open>Collecting threads on stacks of the game.\<close>

lemma collect_user_stacks:
  "\<forall>t \<in> set ts. \<exists>p. pthreads s t = Some p \<and> attr_flags (th_attr p) AND Attr_StackUser \<noteq> 0 \<Longrightarrow> collect_stacks ts s = Some s"
proof (induction ts)
  case (Cons t ts)
  then obtain p where p: "pthreads s t = Some p" "attr_flags (th_attr p) AND Attr_StackUser \<noteq> 0" by auto
  have "s\<lparr>pthreads := (pthreads s)(t \<mapsto> p\<lparr>th_attr := th_attr p\<rparr>)\<rparr> = s"
    using p(1) by (cases s; cases p) (auto simp: fun_upd_idem)
  then show ?case using Cons p by (simp add: FreeStack_def)
qed simp

lemma free_many:
  "distinct ts \<Longrightarrow> \<forall>t \<in> set ts. pthreads s t \<noteq> None \<Longrightarrow> length (free_threads s) + length ts \<le> MaxCachedThreads \<Longrightarrow>
   \<exists>s'. free_all ts s = Some s' \<and> (\<forall>t. pthreads s' t = (if t \<in> set ts then None else pthreads s t)) \<and>
     free_threads s' = free_threads s @ ts \<and> gc_list s' = gc_list s"
proof (induction ts arbitrary: s)
  case (Cons t ts)
  let ?s = "s\<lparr>pthreads := (pthreads s)(t := None), free_threads := free_threads s @ [t]\<rparr>"
  have f: "Thread_Free t s = Some ?s"
    using Cons.prems by (auto simp: Thread_Free_def destroy_at_def)
  have "\<exists>s'. free_all ts ?s = Some s' \<and> (\<forall>u. pthreads s' u = (if u \<in> set ts then None else pthreads ?s u)) \<and>
      free_threads s' = free_threads ?s @ ts \<and> gc_list s' = gc_list ?s"
    using Cons.prems by (intro Cons.IH) auto
  then show ?case using f by auto
qed simp

text \<open>Making a thread when the table is due for collecting: the garbage goes, and the new thread gets the last of it.\<close>

definition garbage_left :: "Pthread option \<Rightarrow> bool" where
  "garbage_left p \<longleftrightarrow> (case p of Some p \<Rightarrow> th_tid p = TidTerminated \<and> attr_flags (th_attr p) AND Attr_StackUser \<noteq> 0 | None \<Rightarrow> False)"

lemma demo_collect:
  assumes g: "distinct (gc_list s)" "length (gc_list s) \<ge> 5" "length (gc_list s) \<le> 100" "free_threads s = []"
    and p: "\<forall>t \<in> set (gc_list s). garbage_left (pthreads s t)" and m: "pthreads s 0 \<noteq> None" "0 \<notin> set (gc_list s)"
  shows "\<exists>s'. posix_pthread_create (Some 0) 1 c (Some (Some demo_attr)) ''t'' 0 s = Some (0, Some (last (gc_list s)), c + 1, s') \<and>
    pthreads s' = (\<lambda>t. if t \<in> set (gc_list s) then None else pthreads s t)(last (gc_list s) \<mapsto> demo_thread (c + 1))"
proof -
  let ?ts = "gc_list s"
  have there: "\<forall>t \<in> set ?ts. \<exists>p. pthreads s t = Some p \<and> th_tid p = TidTerminated \<and> attr_flags (th_attr p) AND Attr_StackUser \<noteq> 0"
    using p by (auto simp: garbage_left_def split: option.splits)
  then have col: "\<forall>t \<in> set ?ts. collectable s t" by (auto simp: collectable_def)
  then have fil: "filter (collectable s) ?ts = ?ts" "filter (\<lambda>t. \<not> collectable s t) ?ts = []"
    by (simp_all add: filter_id_conv filter_empty_conv)
  let ?s1 = "s\<lparr>gc_list := []\<rparr>"
  have "collect_stacks ?ts ?s1 = Some ?s1" using there by (intro collect_user_stacks) auto
  moreover have some: "\<forall>t \<in> set ?ts. pthreads s t \<noteq> None" using there by auto
  then obtain s2 where s2: "free_all ?ts ?s1 = Some s2" "\<forall>t. pthreads s2 t = (if t \<in> set ?ts then None else pthreads s t)"
    "free_threads s2 = ?ts"
    using free_many [of ?ts ?s1] g by (auto simp: MaxCachedThreads_def)
  ultimately have c: "Collect s = Some s2" using some fil unfolding Collect_def Let_def by auto
  have ne: "?ts \<noteq> []" using g(2) by auto
  let ?s3 = "s2\<lparr>free_threads := butlast ?ts, pthreads := (pthreads s2)(last ?ts \<mapsto> Pthread_new)\<rparr>"
  have "Thread_Alloc (Some 0 \<noteq> (None :: nat option)) 1 s = Some (Some (last ?ts), ?s3)"
    using c g(2) s2(3) ne by (simp add: Thread_Alloc_def GcNeeded_def GcThreshold_def)
  moreover have "last ?ts \<noteq> 0" using m(2) ne by (metis last_in_set)
  ultimately have "posix_pthread_create (Some 0) 1 c (Some (Some demo_attr)) ''t'' 0 s =
      Some (0, Some (last ?ts), c + 1, Thread_Link (last ?ts) (?s3\<lparr>pthreads := (pthreads ?s3)(last ?ts \<mapsto> demo_thread (c + 1))\<rparr>))"
    using demo_create [of "Some 0" s "last ?ts" ?s3 c] s2(2) m by simp
  moreover have "pthreads s2 = (\<lambda>t. if t \<in> set ?ts then None else pthreads s t)" using s2(2) by auto
  ultimately show ?thesis by (simp add: Thread_Link_def)
qed

text \<open>
  C40: the structure of a thread can be given back while its host still runs: there is a run after which the
  last step of a host, \<^verbatim>\<open>native_thr.Exit()\<close>, uses a structure that is not there.
\<close>

theorem exit_uses_freed_thread:
  "\<exists>w a. life_reachable w \<and> life_enabled a Act_go w \<and> snd (hosts w ! a) = L_exit_native \<and> life_step a Act_go w = None"
proof -
  obtain w where D: "after_ends 5 w" using some_ends [of 5] by auto
  have g: "gc_list (table w) = [1..<6]" "free_threads (table w) = []" "hosts w = (0, L_idle) # map (\<lambda>i. (i, L_exit_native)) [1..<6]"
    "pthreads (table w) 0 = Some (demo_thread 2)" "counter w = 7" and r: "life_reachable w"
    using D by (simp_all add: after_ends_def)
  have "garbage_left (Some (demo_dead TidTerminated))"
    by (simp add: garbage_left_def demo_dead_def demo_thread_def demo_stack_def attr_const_defs)
  then have p: "\<forall>t \<in> set (gc_list (table w)). garbage_left (pthreads (table w) t)" using D by (auto simp: after_ends_def)
  obtain s where s: "posix_pthread_create (Some 0) 1 (counter w) (Some (Some demo_attr)) ''t'' 0 (table w) =
      Some (0, Some (last [1..<6]), counter w + 1, s)" "pthreads s 1 = None"
    using demo_collect [OF _ _ _ g(2) p, of "counter w"] g(1,4) by (auto simp: upt_rec)
  have "life_enabled 0 (Act_create (Some (Some demo_attr)) 1 ''t'' 0) w" using g(3) by (simp add: life_enabled_def)
  moreover have "counter w + 1 \<noteq> TidTerminated" using g(5) by (simp add: TidTerminated_def)
  ultimately obtain w' where w': "life_reachable w'" "hosts w' = hosts w @ [(last [1..<6], L_idle)]" "pthreads (table w') 1 = None"
    using life_reachable.step [OF r, of 0 "Act_create (Some (Some demo_attr)) 1 ''t'' 0"] g(3) s
    by (auto simp: life_step_def Let_def)
  have "hosts w' ! 1 = (1, L_exit_native)" using w'(2) g(3) by (simp add: nth_append)
  moreover have "1 < length (hosts w')" using w'(2) g(3) by simp
  ultimately have "life_enabled 1 Act_go w' \<and> snd (hosts w' ! 1) = L_exit_native \<and> life_step 1 Act_go w' = None"
    using w'(3) by (simp add: life_enabled_def life_step_def Let_def exit_native_def)
  then show ?thesis using w'(1) by blast
qed

subsection \<open>Giving up a reference\<close>

text \<open>
  The other end of the race: a thread that gives up the last reference to one that ended makes it garbage
  and gives up the lock of the table before that of the structure.
\<close>

lemma demo_release:
  assumes a: "a < length (hosts w)" "hosts w ! a = (t, L_idle)" and b: "b < length (hosts w)" "hosts w ! b = (u, L_idle)" "b \<noteq> a"
    and p: "pthreads (table w) t = Some (demo_thread c)" "t \<in> threads (table w)" and c: "counter w + 1 \<noteq> TidTerminated"
  shows "life_run [(b, Act_ref (Some t)), (a, Act_exit 0), (a, Act_go), (b, Act_go), (b, Act_go)] w =
    Some (w\<lparr>table := (table w)\<lparr>pthreads := (pthreads (table w))(t \<mapsto> demo_dead TidTerminated\<lparr>th_lock := Some u\<rparr>),
        active_threads := active_threads (table w) - 1, threads := threads (table w) - {t}, gc_list := gc_list (table w) @ [t]\<rparr>,
      hosts := (hosts w)[b := (u, L_unlock t False), a := (t, L_exit_native)]\<rparr>)"
proof -
  let ?s = "table w" and ?h = "\<lambda>pb pa. (hosts w)[b := (u, pb), a := (t, pa)]"
  let ?set = "\<lambda>p. ?s\<lparr>pthreads := (pthreads ?s)(t \<mapsto> p)\<rparr>"
  let ?w1 = "w\<lparr>table := ?set ((demo_thread c)\<lparr>refcount := 2\<rparr>), hosts := (hosts w)[b := (u, L_holding t)]\<rparr>"
  let ?w2 = "w\<lparr>table := (?set (demo_dead c\<lparr>refcount := 1\<rparr>))\<lparr>active_threads := active_threads ?s - 1\<rparr>, hosts := ?h (L_holding t) L_exit_tid\<rparr>"
  let ?w3 = "w\<lparr>table := (?set (demo_dead TidTerminated\<lparr>refcount := 1\<rparr>))\<lparr>active_threads := active_threads ?s - 1\<rparr>,
    hosts := ?h (L_holding t) L_exit_native\<rparr>"
  let ?w4 = "w\<lparr>table := (?set (demo_dead TidTerminated\<lparr>refcount := 1\<rparr>))\<lparr>active_threads := active_threads ?s - 1\<rparr>,
    hosts := ?h (L_collect t False) L_exit_native\<rparr>"
  let ?w5 = "w\<lparr>table := ?s\<lparr>pthreads := (pthreads ?s)(t \<mapsto> demo_dead TidTerminated\<lparr>th_lock := Some u\<rparr>),
      active_threads := active_threads ?s - 1, threads := threads ?s - {t}, gc_list := gc_list ?s @ [t]\<rparr>,
    hosts := ?h (L_unlock t False) L_exit_native\<rparr>"
  have sw: "xs[a := x, b := y] = xs[b := y, a := x]" for xs :: "(nat \<times> life_pc) list" and x y using b(3) by (metis list_update_swap)
  have run: "th_state (demo_thread c) \<noteq> PthreadState_Dead" "refcount (demo_thread c) = 1"
    by (simp_all add: demo_thread_def PthreadState_Running_def PthreadState_Dead_def)
  have sc: "ShouldCollect (demo_dead TidTerminated)" "refcount (demo_dead TidTerminated) = 0"
    by (simp_all add: ShouldCollect_def demo_dead_def demo_thread_def ThreadFlags_Detached_def)
  have keep: "ShouldCollect (demo_dead TidTerminated\<lparr>refcount := 0\<rparr>)"
    "demo_dead TidTerminated\<lparr>refcount := 0, th_lock := Some u\<rparr> = demo_dead TidTerminated\<lparr>th_lock := Some u\<rparr>"
    by (simp_all add: ShouldCollect_def demo_dead_def demo_thread_def ThreadFlags_Detached_def)
  have d: "(demo_thread c)\<lparr>refcount := 2, cancelling := True, no_cancel := True, cancel_async := False, cancel_point := False,
      th_ret := 0, th_state := PthreadState_Dead\<rparr>\<lparr>refcount := 1\<rparr> = demo_dead c\<lparr>refcount := 1\<rparr>"
    by (simp add: demo_dead_def)
  have d3: "demo_dead c\<lparr>refcount := 1, th_tid := TidTerminated\<rparr> = demo_dead TidTerminated\<lparr>refcount := 1\<rparr>"
    by (simp add: demo_dead_def demo_thread_def)
  have "life_step b (Act_ref (Some t)) w = Some ?w1"
    using b(2) p run by (simp add: life_step_def Let_def RefAdd_def FindThread_def set_thread_def)
  moreover have "life_step a (Act_exit 0) ?w1 = Some ?w2"
    using a b d by (simp add: life_step_def Let_def exit_begin_def exit_thread_def set_thread_def TryCollect_begin_def ShouldCollect_def
        demo_dead_def)
  moreover have "life_step a Act_go ?w2 = Some ?w3"
    using a d3 by (simp add: life_step_def Let_def exit_terminated_def set_thread_def)
  moreover have "life_step b Act_go ?w3 = Some ?w4"
    using a b sc keep(1) sw by (simp add: life_step_def Let_def RefDelete_begin_def TryCollect_begin_def set_thread_def)
  moreover have "life_step b Act_go ?w4 = Some ?w5"
    using a b sc keep(1) by (simp add: life_step_def Let_def TryCollect_end_def set_thread_def sw keep(2))
  moreover have "life_enabled b (Act_ref (Some t)) w" "life_enabled a (Act_exit 0) ?w1" "life_enabled a Act_go ?w2"
    "life_enabled b Act_go ?w3" "life_enabled b Act_go ?w4"
    using a b by (simp_all add: life_enabled_def)
  ultimately show ?thesis using c by simp
qed

text \<open>
  Giving up that lock can use a structure that was given back: while a thread is between the two, another
  one makes a thread, which collects the garbage.
\<close>

lemma unlock_uses_freed_thread:
  "\<exists>w a t. life_reachable w \<and> life_enabled a Act_go w \<and> snd (hosts w ! a) = L_unlock t False \<and> life_step a Act_go w = None"
proof -
  obtain w where D: "after_ends 4 w" using some_ends [of 4] by auto
  have g: "gc_list (table w) = [1..<5]" "free_threads (table w) = []" "hosts w = (0, L_idle) # map (\<lambda>i. (i, L_exit_native)) [1..<5]"
    "pthreads (table w) 0 = Some (demo_thread 2)" "counter w = 6" "thread_heap (table w) = [5..<9]" "total_threads (table w) = 5"
    and r: "life_reachable w" and p: "\<forall>t \<in> {1..4}. pthreads (table w) t = Some (demo_dead TidTerminated)"
    using D by (simp_all add: after_ends_def)
  have u: "[5..<9] = [5, 6, 7, 8 :: nat]" "[1..<5] = [1, 2, 3, 4 :: nat]" by (simp_all add: upt_rec)
  have c: "(7 :: s32) \<noteq> TidTerminated" "(8 :: s32) \<noteq> TidTerminated" "(9 :: s32) \<noteq> TidTerminated" by (simp_all add: TidTerminated_def)
  obtain s1 where s1: "life_run [(0, Act_create (Some (Some demo_attr)) 1 ''t'' 0)] w =
      Some (w\<lparr>table := s1, counter := 7, hosts := hosts w @ [(5, L_idle)]\<rparr>)"
    "pthreads s1 = (pthreads (table w))(5 \<mapsto> demo_thread 7)" "gc_list s1 = [1, 2, 3, 4]" "free_threads s1 = []"
    "thread_heap s1 = [6, 7, 8]" "total_threads s1 = 6"
    using demo_make [of w 5 "[6, 7, 8]"] g u c by auto
  let ?w1 = "w\<lparr>table := s1, counter := 7, hosts := hosts w @ [(5, L_idle)]\<rparr>"
  obtain s2 where s2: "life_run [(0, Act_create (Some (Some demo_attr)) 1 ''t'' 0)] ?w1 =
      Some (?w1\<lparr>table := s2, counter := 8, hosts := hosts ?w1 @ [(6, L_idle)]\<rparr>)"
    "pthreads s2 = (pthreads s1)(6 \<mapsto> demo_thread 8)" "gc_list s2 = [1, 2, 3, 4]" "free_threads s2 = []"
    using demo_make [of ?w1 6 "[7, 8]"] g s1 c by auto
  let ?w2 = "?w1\<lparr>table := s2, counter := 8, hosts := hosts ?w1 @ [(6, L_idle)]\<rparr>"
  have r2: "life_reachable ?w2" using life_run_reachable [OF life_run_reachable [OF r s1(1)] s2(1)] .
  have h: "length (hosts ?w2) = 7" "hosts ?w2 ! 0 = (0, L_idle)" "hosts ?w2 ! 5 = (5, L_idle)" "hosts ?w2 ! 6 = (6, L_idle)"
    using g(3) u by (simp_all add: nth_append)
  have t5: "5 \<in> threads s2" using held_thread [OF life_reachable_inv [OF r2], of 5 5] h by simp
  have p5: "pthreads s2 5 = Some (demo_thread 7)" using s2(2) s1(2) by simp
  define s3 where "s3 = s2\<lparr>pthreads := (pthreads s2)(5 \<mapsto> demo_dead TidTerminated\<lparr>th_lock := Some 6\<rparr>),
    active_threads := active_threads s2 - 1, threads := threads s2 - {5}, gc_list := gc_list s2 @ [5]\<rparr>"
  define w3 where "w3 = ?w2\<lparr>table := s3, hosts := (hosts ?w2)[6 := (6, L_unlock 5 False), 5 := (5, L_exit_native)]\<rparr>"
  have "life_run [(6, Act_ref (Some 5)), (5, Act_exit 0), (5, Act_go), (6, Act_go), (6, Act_go)] ?w2 = Some w3"
    using demo_release [of 5 ?w2 5 6 6 7] h t5 p5 c by (simp add: w3_def s3_def)
  then have r3: "life_reachable w3" using life_run_reachable [OF r2] by blast
  have h3: "length (hosts w3) = 7" "hosts w3 ! 0 = (0, L_idle)" "hosts w3 ! 6 = (6, L_unlock 5 False)"
    "table w3 = s3" "counter w3 = 8"
    using h by (simp_all add: w3_def)
  have g3: "gc_list s3 = [1, 2, 3, 4, 5]" "free_threads s3 = []" "pthreads s3 0 = Some (demo_thread 2)"
    using s2 s1 g by (simp_all add: s3_def)
  have "garbage_left (Some (demo_dead TidTerminated))" "garbage_left (Some (demo_dead TidTerminated\<lparr>th_lock := Some 6\<rparr>))"
    by (simp_all add: garbage_left_def demo_dead_def demo_thread_def demo_stack_def attr_const_defs)
  moreover have "pthreads s3 = (pthreads (table w))(5 \<mapsto> demo_dead TidTerminated\<lparr>th_lock := Some 6\<rparr>, 6 \<mapsto> demo_thread 8)"
    using s2(2) s1(2) by (auto simp: s3_def)
  ultimately have "\<forall>t \<in> set (gc_list s3). garbage_left (pthreads s3 t)" using p unfolding g3(1) by simp
  then obtain s4 where s4: "posix_pthread_create (Some 0) 1 8 (Some (Some demo_attr)) ''t'' 0 s3 = Some (0, Some 5, 9, s4)"
    "pthreads s4 5 = Some (demo_thread 9)"
    using demo_collect [of s3 8] g3 by auto
  have "life_enabled 0 (Act_create (Some (Some demo_attr)) 1 ''t'' 0) w3" using h3(1,2) by (auto simp: life_enabled_def)
  moreover have "life_step 0 (Act_create (Some (Some demo_attr)) 1 ''t'' 0) w3 =
      Some (w3\<lparr>table := s4, counter := 9, hosts := hosts w3 @ [(5, L_idle)]\<rparr>)"
    using h3 s4 by (simp add: life_step_def Let_def)
  ultimately have "life_reachable (w3\<lparr>table := s4, counter := 9, hosts := hosts w3 @ [(5, L_idle)]\<rparr>)"
    using life_reachable.step [OF r3] h3(5) c by auto
  moreover let ?w4 = "w3\<lparr>table := s4, counter := 9, hosts := hosts w3 @ [(5, L_idle)]\<rparr>"
  have n: "hosts ?w4 ! 6 = (6, L_unlock 5 False)" "length (hosts ?w4) = 8" using h3 by (simp_all add: nth_append)
  then have "life_step 6 Act_go ?w4 = None"
    using s4(2) by (simp add: life_step_def Let_def unlock_thread_def demo_thread_def Pthread_new_def)
  moreover have "life_enabled 6 Act_go ?w4" unfolding life_enabled_def n by simp
  moreover have "snd (hosts ?w4 ! 6) = L_unlock 5 False" unfolding n by simp
  ultimately show ?thesis by blast
qed

end
