(* ===== verification/Bit_Array.thy ===== *)
theory Bit_Array
  imports Word_Bits
begin

section \<open>The bit array\<close>

text \<open>
  \<^verbatim>\<open>BitArray\<close> of \<^verbatim>\<open>common/bit_array.h\<close>: the fixed-size set of pages behind the tracking of GPU memory.
  The array is the list of its words; its size \<open>N\<close> is the number of their bits.  The class has two
  builds: with AVX2 (every x86-64 build of the emulator) its loops take four words at a time before
  the scalar loop takes over.  The flag \<open>avx\<close> of the definitions chooses the build, and the lemmas
  show which operations do not depend on it.  Access outside the array is undefined (\<open>None\<close>).
\<close>

subsection \<open>Single bits and ranges\<close>

type_synonym BitArray = "u64 list"
type_synonym Range = "nat \<times> nat"

definition Bit_Size :: "BitArray \<Rightarrow> nat" where
  "Bit_Size d = 64 * length d"

definition Bit_Set :: "nat \<Rightarrow> BitArray \<Rightarrow> BitArray option" where
  "Bit_Set idx d =
     do {
       ASSERT (idx div 64 < length d);
       Some (d[idx div 64 := d ! (idx div 64) OR push_bit (idx mod 64) 1])
     }"

definition Bit_Unset :: "nat \<Rightarrow> BitArray \<Rightarrow> BitArray option" where
  "Bit_Unset idx d =
     do {
       ASSERT (idx div 64 < length d);
       Some (d[idx div 64 := d ! (idx div 64) AND NOT (push_bit (idx mod 64) 1)])
     }"

definition Bit_Get :: "nat \<Rightarrow> BitArray \<Rightarrow> bool option" where
  "Bit_Get idx d =
     do {
       ASSERT (idx div 64 < length d);
       Some (d ! (idx div 64) AND push_bit (idx mod 64) 1 \<noteq> 0)
     }"

text \<open>The loops that store to whole words: four at a time, then one at a time.\<close>

function store_blocks :: "(nat \<Rightarrow> u64) \<Rightarrow> nat \<Rightarrow> nat \<Rightarrow> BitArray \<Rightarrow> nat \<times> BitArray" where
  "store_blocks f i last_word d =
     (if i + 4 \<le> last_word
      then store_blocks f (i + 4) last_word (d[i := f i, i + 1 := f (i + 1), i + 2 := f (i + 2), i + 3 := f (i + 3)])
      else (i, d))"
  by pat_completeness auto
termination by (relation "measure (\<lambda>(f, i, last_word, d). last_word - i)") auto

function store_words :: "(nat \<Rightarrow> u64) \<Rightarrow> nat \<Rightarrow> nat \<Rightarrow> BitArray \<Rightarrow> BitArray" where
  "store_words f i last_word d = (if i < last_word then store_words f (i + 1) last_word (d[i := f i]) else d)"
  by pat_completeness auto
termination by (relation "measure (\<lambda>(f, i, last_word, d). last_word - i)") auto

declare store_blocks.simps [simp del] store_words.simps [simp del]

definition store_between :: "bool \<Rightarrow> (nat \<Rightarrow> u64) \<Rightarrow> nat \<Rightarrow> nat \<Rightarrow> BitArray \<Rightarrow> BitArray" where
  "store_between avx f i last_word d =
     (let (i, d) = if avx then store_blocks f i last_word d else (i, d) in store_words f i last_word d)"

definition SetRange :: "bool \<Rightarrow> nat \<Rightarrow> nat \<Rightarrow> BitArray \<Rightarrow> BitArray" where
  "SetRange avx start fin d =
     (if start \<ge> fin \<or> fin > Bit_Size d then d
      else
        let first_word = start div 64; last_word = (fin - 1) div 64;
            start_bit = start mod 64; end_bit = (fin - 1) mod 64;
            start_mask = NOT (push_bit start_bit 1 - 1);
            end_mask = (if end_bit = 63 then NOT 0 else push_bit (end_bit + 1) 1 - 1)
        in if first_word = last_word then d[first_word := d ! first_word OR (start_mask AND end_mask)]
           else
             let d = d[first_word := d ! first_word OR start_mask];
                 d = store_between avx (\<lambda>_. NOT 0) (first_word + 1) last_word d
             in d[last_word := d ! last_word OR end_mask])"

definition UnsetRange :: "bool \<Rightarrow> nat \<Rightarrow> nat \<Rightarrow> BitArray \<Rightarrow> BitArray" where
  "UnsetRange avx start fin d =
     (if start \<ge> fin \<or> fin > Bit_Size d then d
      else
        let first_word = start div 64; last_word = (fin - 1) div 64;
            start_bit = start mod 64; end_bit = (fin - 1) mod 64;
            start_mask = push_bit start_bit 1 - 1;
            end_mask = (if end_bit = 63 then 0 else NOT (push_bit (end_bit + 1) 1 - 1))
        in if first_word = last_word then d[first_word := d ! first_word AND (start_mask OR end_mask)]
           else
             let d = d[first_word := d ! first_word AND start_mask];
                 d = store_between avx (\<lambda>_. 0) (first_word + 1) last_word d
             in d[last_word := d ! last_word AND end_mask])"

text \<open>The constructor that copies a range of another array of the same size.\<close>

definition Bit_Copy :: "bool \<Rightarrow> BitArray \<Rightarrow> nat \<Rightarrow> nat \<Rightarrow> BitArray" where
  "Bit_Copy avx other start fin =
     (let d = replicate (length other) 0 in
      if start \<ge> fin \<or> fin > Bit_Size other then d
      else
        let first_word = start div 64; last_word = (fin - 1) div 64;
            start_bit = start mod 64; end_bit = (fin - 1) mod 64;
            start_mask = NOT (push_bit start_bit 1 - 1);
            end_mask = (if end_bit = 63 then NOT 0 else push_bit (end_bit + 1) 1 - 1)
        in if first_word = last_word then d[first_word := other ! first_word AND (start_mask AND end_mask)]
           else
             let d = d[first_word := other ! first_word AND start_mask];
                 d = store_between avx (\<lambda>i. other ! i) (first_word + 1) last_word d
             in d[last_word := other ! last_word AND end_mask])"

definition Bit_Clear :: "BitArray \<Rightarrow> BitArray" where
  "Bit_Clear d = replicate (length d) 0"

definition Bit_Fill :: "BitArray \<Rightarrow> BitArray" where
  "Bit_Fill d = replicate (length d) (NOT 0)"

definition Bit_None :: "BitArray \<Rightarrow> bool" where
  "Bit_None d \<longleftrightarrow> foldl (\<lambda>result word. result OR word) 0 d = 0"

definition Bit_Any :: "BitArray \<Rightarrow> bool" where
  "Bit_Any d \<longleftrightarrow> \<not> Bit_None d"

definition Bit_or :: "BitArray \<Rightarrow> BitArray \<Rightarrow> BitArray" where
  "Bit_or d other = map2 (\<lambda>x y. x OR y) d other"

definition Bit_and :: "BitArray \<Rightarrow> BitArray \<Rightarrow> BitArray" where
  "Bit_and d other = map2 (\<lambda>x y. x AND y) d other"

definition Bit_xor :: "BitArray \<Rightarrow> BitArray \<Rightarrow> BitArray" where
  "Bit_xor d other = map2 (\<lambda>x y. x XOR y) d other"

definition Bit_not :: "BitArray \<Rightarrow> BitArray" where
  "Bit_not d = map (\<lambda>x. NOT x) d"

definition Bit_eq :: "BitArray \<Rightarrow> BitArray \<Rightarrow> bool" where
  "Bit_eq d other \<longleftrightarrow> foldl (\<lambda>result (x, y). result OR (x XOR y)) 0 (zip d other) = 0"

subsection \<open>Runs of set bits\<close>

text \<open>
  The search loops: \<open>skip_blocks\<close> and \<open>skip_words\<close> go up, the others go down from the word below an
  index.  Each stops at the first group that does not consist of words with the property.
\<close>

function skip_blocks :: "(nat \<Rightarrow> bool) \<Rightarrow> nat \<Rightarrow> nat \<Rightarrow> nat" where
  "skip_blocks P n w =
     (if w + 4 \<le> n \<and> P w \<and> P (w + 1) \<and> P (w + 2) \<and> P (w + 3) then skip_blocks P n (w + 4) else w)"
  by pat_completeness auto
termination by (relation "measure (\<lambda>(P, n, w). n - w)") auto

function skip_words :: "(nat \<Rightarrow> bool) \<Rightarrow> nat \<Rightarrow> nat \<Rightarrow> nat" where
  "skip_words P n w = (if w < n \<and> P w then skip_words P n (w + 1) else w)"
  by pat_completeness auto
termination by (relation "measure (\<lambda>(P, n, w). n - w)") auto

fun skip_blocks_down :: "(nat \<Rightarrow> bool) \<Rightarrow> nat \<Rightarrow> nat" where
  "skip_blocks_down P w =
     (if 4 \<le> w \<and> P (w - 1) \<and> P (w - 2) \<and> P (w - 3) \<and> P (w - 4) then skip_blocks_down P (w - 4) else w)"

fun skip_words_down :: "(nat \<Rightarrow> bool) \<Rightarrow> nat \<Rightarrow> nat" where
  "skip_words_down P w = (if 0 < w \<and> P (w - 1) then skip_words_down P (w - 1) else w)"

declare skip_blocks.simps [simp del] skip_words.simps [simp del]
  skip_blocks_down.simps [simp del] skip_words_down.simps [simp del]

definition find_end_bit :: "bool \<Rightarrow> BitArray \<Rightarrow> nat \<Rightarrow> nat" where
  "find_end_bit avx d word =
     (let full = (\<lambda>w. d ! w = NOT 0);
          word = (if avx then skip_blocks full (length d) word else word);
          word = skip_words full (length d) word
      in if word < length d then word * 64 + countr_one (d ! word) else Bit_Size d)"

definition first_word_bits :: "bool \<Rightarrow> BitArray \<Rightarrow> nat \<Rightarrow> u64 \<Rightarrow> Range" where
  "first_word_bits avx d index word =
     (let empty_bits = countr_zero word;
          ones_count = countr_one (drop_bit empty_bits word);
          start_bit = index * 64 + empty_bits
      in if ones_count + empty_bits < 64 then (start_bit, start_bit + ones_count)
         else (start_bit, find_end_bit avx d (index + 1)))"

definition FirstRangeFrom :: "bool \<Rightarrow> nat \<Rightarrow> BitArray \<Rightarrow> Range" where
  "FirstRangeFrom avx start d =
     (if start \<ge> Bit_Size d then (Bit_Size d, Bit_Size d)
      else
        let start_word = start div 64;
            masked_first = d ! start_word AND NOT (push_bit (start mod 64) 1 - 1)
        in if masked_first \<noteq> 0 then first_word_bits avx d start_word masked_first
           else
             let empty = (\<lambda>w. d ! w = 0);
                 word = start_word + 1;
                 word = (if avx then skip_blocks empty (length d) word else word);
                 word = skip_words empty (length d) word
             in if word < length d then first_word_bits avx d word (d ! word)
                else (Bit_Size d, Bit_Size d))"

definition FirstRange :: "bool \<Rightarrow> BitArray \<Rightarrow> Range" where
  "FirstRange avx d = FirstRangeFrom avx 0 d"

text \<open>
  Downwards.  The block loop of \<open>find_start_bit\<close> compares the four words with zero, although the loop
  after it looks for a word that is not all ones.
\<close>

definition find_start_bit :: "bool \<Rightarrow> BitArray \<Rightarrow> nat \<Rightarrow> nat" where
  "find_start_bit avx d word =
     (let word = (if avx then skip_blocks_down (\<lambda>w. d ! w = 0) word else word);
          word = skip_words_down (\<lambda>w. d ! w = NOT 0) word
      in if word > 0 then word * 64 - countl_one (d ! (word - 1)) else 0)"

definition last_word_bits :: "bool \<Rightarrow> BitArray \<Rightarrow> nat \<Rightarrow> u64 \<Rightarrow> Range" where
  "last_word_bits avx d index word =
     (let empty_bits = countl_zero word;
          ones_count = countl_one (push_bit empty_bits word);
          end_bit = index * 64 - empty_bits
      in if empty_bits + ones_count < 64 then (end_bit - ones_count, end_bit)
         else (find_start_bit avx d (index - 1), end_bit))"

definition LastRangeFrom :: "bool \<Rightarrow> nat \<Rightarrow> BitArray \<Rightarrow> Range" where
  "LastRangeFrom avx fin d =
     (if fin = 0 then (0, 0)
      else
        let fin = (if fin > Bit_Size d then Bit_Size d else fin);
            end_word = (fin - 1) div 64 + 1;
            end_bit = (fin - 1) mod 64;
            masked_last = d ! (end_word - 1);
            masked_last = (if end_bit < 63 then masked_last AND (push_bit (end_bit + 1) 1 - 1) else masked_last)
        in if masked_last \<noteq> 0 then last_word_bits avx d end_word masked_last
           else
             let empty = (\<lambda>w. d ! w = 0);
                 word = end_word - 1;
                 word = (if avx then skip_blocks_down empty word else word);
                 word = skip_words_down empty word
             in if word > 0 then last_word_bits avx d word (d ! (word - 1)) else (0, 0))"

definition LastRange :: "bool \<Rightarrow> BitArray \<Rightarrow> Range" where
  "LastRange avx d = LastRangeFrom avx (Bit_Size d) d"

subsection \<open>The loops do what they say, in both builds\<close>

lemma store_words_length [simp]: "length (store_words f i l d) = length d"
  by (induction f i l d rule: store_words.induct) (subst store_words.simps, simp)

lemma store_words_nth:
  "j < length d \<Longrightarrow> store_words f i l d ! j = (if i \<le> j \<and> j < l then f j else d ! j)"
proof (induction f i l d rule: store_words.induct)
  case (1 f i l d)
  then show ?case by (subst store_words.simps) (auto simp: nth_list_update Suc_le_eq)
qed

lemma store_blocks_words:
  "store_blocks f i l d = (j, e) \<Longrightarrow> store_words f j l e = store_words f i l d"
proof (induction f i l d rule: store_blocks.induct)
  case (1 f i l d)
  have "store_words f i l d = store_words f (i + 4) l (d[i := f i, i + 1 := f (i + 1), i + 2 := f (i + 2), i + 3 := f (i + 3)])"
    if "i + 4 \<le> l"
    using that
    by (subst store_words.simps, subst store_words.simps, subst store_words.simps, subst store_words.simps)
       (simp add: numeral_eq_Suc)
  with 1 show ?case by (auto simp: store_blocks.simps [of f i l d] split: if_splits)
qed

lemma store_between_scalar [simp]: "store_between avx f i l d = store_words f i l d"
  by (auto simp: store_between_def store_blocks_words split: prod.split)

lemma skip_words_spec:
  assumes "w \<le> n"
  shows "w \<le> skip_words P n w \<and> skip_words P n w \<le> n \<and> (\<forall>i. w \<le> i \<and> i < skip_words P n w \<longrightarrow> P i) \<and>
         (skip_words P n w < n \<longrightarrow> \<not> P (skip_words P n w))"
  using assms
proof (induction P n w rule: skip_words.induct)
  case (1 P n w)
  show ?case
  proof (cases "w < n \<and> P w")
    case True
    with 1 have "w + 1 \<le> skip_words P n (w + 1) \<and> skip_words P n (w + 1) \<le> n \<and>
      (\<forall>i. w + 1 \<le> i \<and> i < skip_words P n (w + 1) \<longrightarrow> P i) \<and>
      (skip_words P n (w + 1) < n \<longrightarrow> \<not> P (skip_words P n (w + 1)))" by simp
    moreover have "skip_words P n w = skip_words P n (w + 1)" using True by (subst skip_words.simps) simp
    ultimately show ?thesis using True by (metis Suc_eq_plus1 Suc_leD le_neq_implies_less Suc_leI)
  next
    case False
    with 1(2) show ?thesis by (subst (1 2 3 4 5) skip_words.simps) auto
  qed
qed

lemma skip_blocks_words: "skip_words P n (skip_blocks P n w) = skip_words P n w"
proof (induction P n w rule: skip_blocks.induct)
  case (1 P n w)
  have "skip_words P n w = skip_words P n (w + 4)" if "w + 4 \<le> n \<and> P w \<and> P (w + 1) \<and> P (w + 2) \<and> P (w + 3)"
    using that
    by (subst skip_words.simps, subst skip_words.simps, subst skip_words.simps, subst skip_words.simps)
       (simp add: numeral_eq_Suc)
  with 1 show ?case by (simp add: skip_blocks.simps [of P n w])
qed

lemma skip_words_down_spec:
  "skip_words_down P w \<le> w \<and> (\<forall>i. skip_words_down P w \<le> i \<and> i < w \<longrightarrow> P i) \<and>
   (0 < skip_words_down P w \<longrightarrow> \<not> P (skip_words_down P w - 1))"
proof (induction P w rule: skip_words_down.induct)
  case (1 P w)
  show ?case
  proof (cases "0 < w \<and> P (w - 1)")
    case True
    define k where "k = skip_words_down P (w - 1)"
    have e: "skip_words_down P w = k" unfolding k_def using True by (subst skip_words_down.simps) simp
    have k: "k \<le> w - 1" "\<forall>i. k \<le> i \<and> i < w - 1 \<longrightarrow> P i" "0 < k \<longrightarrow> \<not> P (k - 1)"
      using 1 [OF True] unfolding k_def by blast+
    have "P i" if "k \<le> i" "i < w" for i
      using k(2) True that by (cases "i = w - 1") auto
    with k(1,3) show ?thesis unfolding e by auto
  next
    case False
    then have "skip_words_down P w = w" by (subst skip_words_down.simps) auto
    then show ?thesis using False by (metis leD order_refl)
  qed
qed

lemma skip_words_down_step: "0 < w \<Longrightarrow> P (w - 1) \<Longrightarrow> skip_words_down P w = skip_words_down P (w - 1)"
  by (subst skip_words_down.simps) simp

lemma skip_blocks_down_words: "skip_words_down P (skip_blocks_down P w) = skip_words_down P w"
proof (induction P w rule: skip_blocks_down.induct)
  case (1 P w)
  have "skip_words_down P w = skip_words_down P (w - 4)"
    if "4 \<le> w \<and> P (w - 1) \<and> P (w - 2) \<and> P (w - 3) \<and> P (w - 4)"
    using that
    using skip_words_down_step [of w P] skip_words_down_step [of "w - 1" P] skip_words_down_step [of "w - 2" P]
      skip_words_down_step [of "w - 3" P]
    by (simp add: numeral_eq_Suc)
  with 1 show ?case by (simp add: skip_blocks_down.simps [of P w])
qed

text \<open>Every operation but the downward search is the same in both builds.\<close>

lemma SetRange_builds: "SetRange avx start fin d = SetRange False start fin d"
  and UnsetRange_builds: "UnsetRange avx start fin d = UnsetRange False start fin d"
  and Bit_Copy_builds: "Bit_Copy avx d start fin = Bit_Copy False d start fin"
  unfolding SetRange_def UnsetRange_def Bit_Copy_def store_between_scalar by (rule refl)+

lemma find_end_bit_builds: "find_end_bit avx d w = find_end_bit False d w"
  by (cases avx) (simp_all add: find_end_bit_def skip_blocks_words)

lemma first_word_bits_builds: "first_word_bits avx d i w = first_word_bits False d i w"
  unfolding first_word_bits_def find_end_bit_builds [of avx] ..

lemma FirstRangeFrom_builds: "FirstRangeFrom avx start d = FirstRangeFrom False start d"
  by (cases avx) (simp_all add: FirstRangeFrom_def skip_blocks_words Let_def first_word_bits_builds [of True])

subsection \<open>The array as a set\<close>

definition bits :: "BitArray \<Rightarrow> nat set" where
  "bits d = {i. stored d i}"

lemma bits_bound: "i \<in> bits d \<Longrightarrow> i < Bit_Size d"
  by (simp add: bits_def Bit_Size_def stored_bound)

lemma bits_finite [simp]: "finite (bits d)"
  by (rule finite_subset [of _ "{..<Bit_Size d}"]) (auto dest: bits_bound)

lemma bits_eqI:
  assumes "length d = length e" "\<And>w k. w < length d \<Longrightarrow> k < 64 \<Longrightarrow> bit (d ! w) k \<longleftrightarrow> w * 64 + k \<in> S"
    "\<And>i. i \<in> S \<Longrightarrow> i < 64 * length d"
  shows "bits d = S"
proof (rule set_eqI)
  fix i show "i \<in> bits d \<longleftrightarrow> i \<in> S"
    using assms(2) [of "i div 64" "i mod 64"] assms(3) [of i]
    by (auto simp: bits_def stored_def less_mult_imp_div_less mult.commute)
qed

lemma low_mask: "push_bit k 1 - 1 = (mask k :: u64)"
  by (simp add: mask_eq_exp_minus_1 push_bit_of_1)

lemma Bit_Set_bits:
  "idx < Bit_Size d \<Longrightarrow> \<exists>e. Bit_Set idx d = Some e \<and> length e = length d \<and> bits e = insert idx (bits d)"
  by (auto simp: Bit_Set_def Bit_Size_def bits_def stored_set [simplified] less_mult_imp_div_less mult.commute)

lemma Bit_Unset_bits:
  "idx < Bit_Size d \<Longrightarrow> \<exists>e. Bit_Unset idx d = Some e \<and> length e = length d \<and> bits e = bits d - {idx}"
  by (auto simp: Bit_Unset_def Bit_Size_def bits_def stored_reset [simplified] less_mult_imp_div_less mult.commute)

lemma Bit_Get_bits: "idx < Bit_Size d \<Longrightarrow> Bit_Get idx d = Some (idx \<in> bits d)"
proof -
  have "w AND push_bit k 1 \<noteq> 0 \<longleftrightarrow> bit w k" if "k < 64" for w :: u64 and k
    using that by (auto simp: word_zero_bits bit_and_iff bit_exp_iff push_bit_of_1)
  then show "idx < Bit_Size d \<Longrightarrow> ?thesis"
    by (simp add: Bit_Get_def Bit_Size_def bits_def stored_def less_mult_imp_div_less mult.commute)
qed

text \<open>Positions compared word by word, and the two masks at the ends of a range.\<close>

lemma position_le: "k < 64 \<Longrightarrow> s \<le> w * 64 + k \<longleftrightarrow> s div 64 < w \<or> (s div 64 = w \<and> s mod 64 \<le> (k :: nat))"
proof -
  assume k: "k < 64"
  have s: "s = s div 64 * 64 + s mod 64" and m: "s mod 64 < 64" by simp_all
  consider "s div 64 < w" | "s div 64 = w" | "w < s div 64" by linarith
  then show ?thesis
  proof cases
    case 1 then show ?thesis using s m mult_le_mono1 [of "Suc (s div 64)" w 64] by linarith
  next
    case 2 then show ?thesis using s by (metis add_le_cancel_left order_less_irrefl)
  next
    case 3 then show ?thesis using s k mult_le_mono1 [of "Suc w" "s div 64" 64] by simp
  qed
qed

lemma position_ge: "k < 64 \<Longrightarrow> w * 64 + k \<le> s \<longleftrightarrow> w < s div 64 \<or> (w = s div 64 \<and> (k :: nat) \<le> s mod 64)"
  using position_le [of "s mod 64" "w * 64 + k" "s div 64"] by auto

definition start_mask :: "nat \<Rightarrow> u64" where
  "start_mask i = NOT (push_bit i 1 - 1)"

definition end_mask :: "nat \<Rightarrow> u64" where
  "end_mask i = (if i = 63 then NOT 0 else push_bit (i + 1) 1 - 1)"

lemma start_mask_bit: "k < 64 \<Longrightarrow> bit (start_mask i) k \<longleftrightarrow> i \<le> k"
  unfolding start_mask_def low_mask by (simp add: bit_not_iff bit_mask_iff not_less)

lemma end_mask_bit: "k < 64 \<Longrightarrow> i < 64 \<Longrightarrow> bit (end_mask i) k \<longleftrightarrow> k \<le> i"
  unfolding end_mask_def low_mask by (auto simp: bit_not_iff bit_mask_iff)

text \<open>The words of a range, all at once.\<close>

definition range_word :: "nat \<Rightarrow> nat \<Rightarrow> nat \<Rightarrow> u64" where
  "range_word start fin w =
     (if start div 64 \<le> w \<and> w \<le> (fin - 1) div 64 then
        (if w = start div 64 then start_mask (start mod 64) else NOT 0) AND
        (if w = (fin - 1) div 64 then end_mask ((fin - 1) mod 64) else NOT 0)
      else 0)"

lemma range_word_bit:
  assumes "start < fin" "k < 64"
  shows "bit (range_word start fin w) k \<longleftrightarrow> start \<le> w * 64 + k \<and> w * 64 + k < fin"
proof -
  define s where "s = start div 64"
  define t where "t = (fin - 1) div 64"
  have "w * 64 + k < fin \<longleftrightarrow> w * 64 + k \<le> fin - 1" using assms by linarith
  then have "(start \<le> w * 64 + k \<and> w * 64 + k < fin) \<longleftrightarrow>
      (s < w \<or> s = w \<and> start mod 64 \<le> k) \<and> (w < t \<or> w = t \<and> k \<le> (fin - 1) mod 64)"
    unfolding s_def t_def by (simp only: position_le [OF assms(2)] position_ge [OF assms(2)])
  moreover have "bit (range_word start fin w) k \<longleftrightarrow>
      s \<le> w \<and> w \<le> t \<and> (w = s \<longrightarrow> start mod 64 \<le> k) \<and> (w = t \<longrightarrow> k \<le> (fin - 1) mod 64)"
    unfolding range_word_def s_def [symmetric] t_def [symmetric]
    using start_mask_bit [OF assms(2), of "start mod 64"] end_mask_bit [OF assms(2), of "(fin - 1) mod 64"] assms(2)
    by (cases "w = s"; cases "w = t"; cases "s \<le> w \<and> w \<le> t") (auto simp: bit_and_iff bit_not_iff)
  ultimately show ?thesis by linarith
qed

lemma range_words:
  assumes "start < fin" "fin \<le> Bit_Size d" "w < length d"
  shows "start div 64 \<le> (fin - 1) div 64 \<and> (fin - 1) div 64 < length d \<and> start div 64 < length d"
proof -
  have "start div 64 \<le> (fin - 1) div 64" by (rule div_le_mono) (use assms in simp)
  moreover have "(fin - 1) div 64 < length d" using assms by (auto simp: Bit_Size_def div_less_iff_less_mult)
  ultimately show ?thesis by simp
qed

lemma SetRange_word:
  assumes "start < fin" "fin \<le> Bit_Size d" "w < length d"
  shows "SetRange avx start fin d ! w = d ! w OR range_word start fin w"
  using assms range_words [OF assms]
  unfolding SetRange_def Let_def start_mask_def [symmetric] end_mask_def [symmetric]
  by (auto simp: range_word_def store_words_nth nth_list_update not_less Suc_le_eq)

lemma UnsetRange_word:
  assumes "start < fin" "fin \<le> Bit_Size d" "w < length d"
  shows "UnsetRange avx start fin d ! w = d ! w AND NOT (range_word start fin w)"
proof -
  have m: "push_bit i 1 - 1 = NOT (start_mask i)"
    "(if i = 63 then 0 else NOT (NOT (start_mask (i + 1)))) = NOT (end_mask i)" for i
    by (simp_all add: start_mask_def end_mask_def)
  show ?thesis
    using assms range_words [OF assms]
    unfolding UnsetRange_def Let_def m
    by (auto simp: range_word_def store_words_nth nth_list_update not_less Suc_le_eq)
qed

lemma Bit_Copy_word:
  assumes "start < fin" "fin \<le> Bit_Size d" "w < length d"
  shows "Bit_Copy avx d start fin ! w = d ! w AND range_word start fin w"
  using assms range_words [OF assms]
  unfolding Bit_Copy_def Let_def start_mask_def [symmetric] end_mask_def [symmetric]
  by (auto simp: range_word_def store_words_nth nth_list_update not_less Suc_le_eq)

lemma Bit_lengths [simp]:
  "length (SetRange avx start fin d) = length d" "length (UnsetRange avx start fin d) = length d"
  "length (Bit_Copy avx d start fin) = length d" "length (Bit_Clear d) = length d" "length (Bit_Fill d) = length d"
  "length (Bit_not d) = length d"
  by (simp_all add: SetRange_def UnsetRange_def Bit_Copy_def Let_def Bit_Clear_def Bit_Fill_def Bit_not_def)

lemma stored_words: "w < length d \<Longrightarrow> k < 64 \<Longrightarrow> w * 64 + k \<in> bits d \<longleftrightarrow> bit (d ! w) k"
  by (simp add: bits_def stored_word)

lemma SetRange_bits:
  "bits (SetRange avx start fin d) = (if fin \<le> Bit_Size d then bits d \<union> {start..<fin} else bits d)"
proof (cases "start < fin \<and> fin \<le> Bit_Size d")
  case True
  then show ?thesis
    by (intro bits_eqI)
       (auto simp: SetRange_word bit_or_iff range_word_bit stored_words Bit_Size_def dest: bits_bound)
next
  case False
  then show ?thesis by (auto simp: SetRange_def)
qed

lemma UnsetRange_bits:
  "bits (UnsetRange avx start fin d) = (if fin \<le> Bit_Size d then bits d - {start..<fin} else bits d)"
proof (cases "start < fin \<and> fin \<le> Bit_Size d")
  case True
  then show ?thesis
    by (intro bits_eqI)
       (auto simp: UnsetRange_word bit_and_iff bit_not_iff range_word_bit stored_words Bit_Size_def dest: bits_bound)
next
  case False
  then show ?thesis by (auto simp: UnsetRange_def)
qed

lemma bits_zero [simp]: "bits (replicate n 0) = {}"
  by (auto simp: bits_def stored_def)

lemma Bit_Copy_bits:
  "bits (Bit_Copy avx d start fin) = (if fin \<le> Bit_Size d then bits d \<inter> {start..<fin} else {})"
proof (cases "start < fin \<and> fin \<le> Bit_Size d")
  case True
  then show ?thesis
    by (intro bits_eqI)
       (auto simp: Bit_Copy_word bit_and_iff range_word_bit stored_words Bit_Size_def dest: bits_bound)
next
  case False
  then show ?thesis by (auto simp: Bit_Copy_def)
qed

lemma Bit_Clear_bits [simp]: "bits (Bit_Clear d) = {}"
  by (simp add: Bit_Clear_def)

lemma Bit_Fill_bits [simp]: "bits (Bit_Fill d) = {..<Bit_Size d}"
  by (rule bits_eqI) (auto simp: Bit_Fill_def Bit_Size_def bit_not_iff)

lemma Bit_not_bits: "bits (Bit_not d) = {..<Bit_Size d} - bits d"
  by (rule bits_eqI) (auto simp: Bit_not_def Bit_Size_def bit_not_iff stored_words)

lemma Bit_or_bits: "length d = length e \<Longrightarrow> bits (Bit_or d e) = bits d \<union> bits e"
  by (rule bits_eqI) (auto simp: Bit_or_def bit_or_iff stored_words Bit_Size_def dest: bits_bound)

lemma Bit_and_bits: "length d = length e \<Longrightarrow> bits (Bit_and d e) = bits d \<inter> bits e"
  by (rule bits_eqI) (auto simp: Bit_and_def bit_and_iff stored_words Bit_Size_def dest: bits_bound)

lemma Bit_xor_bits: "length d = length e \<Longrightarrow> bits (Bit_xor d e) = bits d - bits e \<union> (bits e - bits d)"
  by (rule bits_eqI) (auto simp: Bit_xor_def bit_xor_iff stored_words Bit_Size_def dest: bits_bound)

lemma foldl_or_zero: "foldl (\<lambda>r x. r OR f x) a xs = (0 :: u64) \<longleftrightarrow> a = 0 \<and> (\<forall>x\<in>set xs. f x = 0)"
  by (induction xs arbitrary: a) (auto simp: or_eq_0_iff)

lemma xor_zero_iff: "(x :: u64) XOR y = 0 \<longleftrightarrow> x = y"
  by (simp add: bit_eq_iff [where 'a = "64 word"] bit_xor_iff)

lemma bits_word_zero: "bits d = {} \<longleftrightarrow> (\<forall>w<length d. d ! w = 0)"
proof
  assume "bits d = {}"
  then show "\<forall>w<length d. d ! w = 0" using stored_words [of _ d] by (auto simp: word_zero_bits)
next
  assume "\<forall>w<length d. d ! w = 0"
  then show "bits d = {}" by (auto simp: bits_def stored_def)
qed

lemma Bit_None_bits: "Bit_None d \<longleftrightarrow> bits d = {}"
proof -
  show ?thesis
    using foldl_or_zero [of "\<lambda>x. x" 0 d] by (simp add: Bit_None_def all_set_conv_all_nth bits_word_zero)
qed

lemma Bit_eq_bits:
  assumes "length d = length e"
  shows "Bit_eq d e \<longleftrightarrow> bits d = bits e"
proof -
  have "Bit_eq d e \<longleftrightarrow> (\<forall>w<length d. d ! w = e ! w)"
    using foldl_or_zero [of "\<lambda>(x, y). x XOR y" 0 "zip d e"] assms
    by (auto simp: Bit_eq_def all_set_conv_all_nth split_def xor_zero_iff)
  also have "\<dots> \<longleftrightarrow> bits d = bits e"
  proof
    assume "bits d = bits e"
    then show "\<forall>w<length d. d ! w = e ! w"
      using stored_words [of _ d] stored_words [of _ e] assms
      by (auto simp: bit_eq_iff [where 'a = "64 word"])
  qed (use assms in \<open>metis nth_equalityI\<close>)
  finally show ?thesis .
qed

subsection \<open>The upward search\<close>

text \<open>\<open>[a, b)\<close> is the first run of set bits from \<open>s\<close> on.\<close>

definition first_run :: "nat set \<Rightarrow> nat \<Rightarrow> nat \<Rightarrow> nat \<Rightarrow> bool" where
  "first_run S s a b \<longleftrightarrow> s \<le> a \<and> a < b \<and> {a..<b} \<subseteq> S \<and> b \<notin> S \<and> S \<inter> {s..<a} = {}"

lemma word_position: "i div 64 * 64 + i mod (64 :: nat) = i"
  by simp

lemma bits_word: "i \<in> bits d \<longleftrightarrow> i div 64 < length d \<and> bit (d ! (i div 64)) (i mod 64)"
  by (simp add: bits_def stored_def)

lemma full_words:
  assumes "\<forall>w. u \<le> w \<and> w < v \<longrightarrow> d ! w = NOT 0" "v \<le> length d"
  shows "{u * 64..<v * 64} \<subseteq> bits d"
proof
  fix i assume "i \<in> {u * 64..<v * 64}"
  then have "u \<le> i div 64" "i div 64 < v" by (auto simp: less_eq_div_iff_mult_less_eq less_mult_imp_div_less)
  with assms show "i \<in> bits d" by (simp add: bits_word bit_not_iff)
qed

lemma empty_words:
  assumes "\<forall>w. u \<le> w \<and> w < v \<longrightarrow> d ! w = 0"
  shows "bits d \<inter> {u * 64..<v * 64} = {}"
proof -
  have "i \<notin> bits d" if "i \<in> {u * 64..<v * 64}" for i
  proof -
    have "u \<le> i div 64" "i div 64 < v" using that by (auto simp: less_eq_div_iff_mult_less_eq less_mult_imp_div_less)
    with assms show ?thesis by (simp add: bits_word)
  qed
  then show ?thesis by auto
qed

lemma not_member_size: "i \<ge> Bit_Size d \<Longrightarrow> i \<notin> bits d"
  using bits_bound [of i d] by auto

lemma find_end_bit_spec:
  assumes "w \<le> length d"
  shows "w * 64 \<le> find_end_bit avx d w \<and> {w * 64..<find_end_bit avx d w} \<subseteq> bits d \<and> find_end_bit avx d w \<notin> bits d"
proof -
  define v where "v = skip_words (\<lambda>w. d ! w = NOT 0) (length d) w"
  have v: "w \<le> v" "v \<le> length d" "\<forall>i. w \<le> i \<and> i < v \<longrightarrow> d ! i = NOT 0" "v < length d \<longrightarrow> d ! v \<noteq> NOT 0"
    using skip_words_spec [OF assms, of "\<lambda>w. d ! w = NOT 0"] unfolding v_def by blast+
  have f: "{w * 64..<v * 64} \<subseteq> bits d" using full_words [OF v(3,2)] .
  have e: "find_end_bit avx d w = (if v < length d then v * 64 + countr_one (d ! v) else Bit_Size d)"
    by (subst find_end_bit_builds) (simp add: find_end_bit_def v_def Let_def)
  show ?thesis
  proof (cases "v < length d")
    case True
    define c where "c = countr_one (d ! v)"
    have c: "c \<le> 64" "\<forall>i<c. bit (d ! v) i" "c < 64 \<longrightarrow> \<not> bit (d ! v) c"
      using countr_one_iff [of "d ! v" c] by (simp_all add: c_def)
    have "c < 64" using v(4) True c by (metis le_neq_implies_less word_ones_bits)
    moreover have "{v * 64..<v * 64 + c} \<subseteq> bits d"
    proof
      fix i assume i: "i \<in> {v * 64..<v * 64 + c}"
      then have "i = v * 64 + (i - v * 64)" "i - v * 64 < c" by auto
      with c(2) True \<open>c < 64\<close> stored_words [of v d "i - v * 64"] show "i \<in> bits d" by auto
    qed
    moreover have "v * 64 + c \<notin> bits d" using stored_words [OF True, of c] c(3) \<open>c < 64\<close> by simp
    moreover have "{w * 64..<v * 64 + c} = {w * 64..<v * 64} \<union> {v * 64..<v * 64 + c}" using v(1) by auto
    ultimately show ?thesis using f e True v(1) by (auto simp: c_def [symmetric])
  next
    case False
    with v(2) have "v = length d" by simp
    with f v(1) e show ?thesis by (auto simp: Bit_Size_def mult.commute not_member_size [unfolded Bit_Size_def])
  qed
qed

text \<open>A word of the array whose bits below \<open>s\<close> have been masked away.\<close>

lemma first_word_bits_spec:
  assumes w: "index < length d" "word \<noteq> 0"
    and b: "\<And>k. k < 64 \<Longrightarrow> bit word k \<longleftrightarrow> index * 64 + k \<in> bits d \<and> s \<le> index * 64 + k"
    and low: "bits d \<inter> {s..<index * 64} = {}"
  shows "first_run (bits d) s (fst (first_word_bits avx d index word)) (snd (first_word_bits avx d index word))"
proof -
  define z where "z = countr_zero word"
  have z: "z < 64" "\<forall>i<z. \<not> bit word i" "bit word z"
    using countr_zero_nonzero [OF w(2)] countr_zero_iff [of word z] by (simp_all add: z_def)
  define c where "c = countr_one (drop_bit z word)"
  have c: "c \<le> 64" "\<forall>i<c. bit word (z + i)" "c < 64 \<longrightarrow> \<not> bit word (z + c)"
    using countr_one_iff [of "drop_bit z word" c] by (simp_all add: c_def bit_drop_bit_eq comp_def add.commute)
  have cz: "c + z \<le> 64"
  proof (rule ccontr)
    assume "\<not> c + z \<le> 64"
    then have "bit word (z + (64 - z))" using c(2) [rule_format, of "64 - z"] z(1) by simp
    then show False using z(1) bit_imp_le_length [of word 64] by simp
  qed
  have c0: "0 < c"
  proof (rule ccontr)
    assume "\<not> 0 < c"
    then show False using c(3) z(3) by simp
  qed
  let ?a = "index * 64 + z"
  have a: "s \<le> ?a" using b [OF z(1)] z(3) by simp
  have run: "{?a..<?a + c} \<subseteq> bits d"
  proof
    fix i assume i: "i \<in> {?a..<?a + c}"
    then have "i = index * 64 + (z + (i - ?a))" "i - ?a < c" by auto
    with b [of "z + (i - ?a)"] c(2) cz show "i \<in> bits d" by auto
  qed
  have "i \<notin> bits d" if "s \<le> i" "i < ?a" for i
  proof (cases "i < index * 64")
    case True
    with low that show ?thesis by auto
  next
    case False
    then obtain k where "i = index * 64 + k" by (metis le_Suc_ex not_less)
    with that z b [of k] show ?thesis by auto
  qed
  then have pre: "bits d \<inter> {s..<?a} = {}" by auto
  show ?thesis
  proof (cases "c + z < 64")
    case True
    then have fw: "first_word_bits avx d index word = (?a, ?a + c)"
      by (simp add: first_word_bits_def z_def [symmetric] c_def [symmetric] Let_def)
    have "?a + c \<notin> bits d" using b [of "z + c"] c(3) True a by (auto simp: add.assoc)
    then show ?thesis using a run pre c0 unfolding fw first_run_def fst_conv snd_conv by auto
  next
    case False
    with cz have e: "?a + c = (index + 1) * 64" by simp
    define t where "t = find_end_bit avx d (index + 1)"
    have fw: "first_word_bits avx d index word = (?a, t)"
      using False by (simp add: first_word_bits_def z_def [symmetric] c_def [symmetric] Let_def t_def)
    have t: "(index + 1) * 64 \<le> t" "{(index + 1) * 64..<t} \<subseteq> bits d" "t \<notin> bits d"
      using find_end_bit_spec [of "index + 1" d avx] w(1) unfolding t_def by auto
    have "{?a..<t} = {?a..<?a + c} \<union> {(index + 1) * 64..<t}" using t(1) e by auto
    then show ?thesis using a run pre c0 t e unfolding fw first_run_def fst_conv snd_conv by auto
  qed
qed

lemma FirstRangeFrom_run:
  assumes "FirstRangeFrom avx start d = (a, b)"
  shows "(a, b) = (Bit_Size d, Bit_Size d) \<and> bits d \<inter> {start..} = {} \<or> first_run (bits d) start a b"
proof (cases "start < Bit_Size d")
  case False
  then have "bits d \<inter> {start..} = {}" using bits_bound [of _ d] by force
  then show ?thesis using assms False by (simp add: FirstRangeFrom_def)
next
  case start: True
  define m where "m = d ! (start div 64) AND NOT (push_bit (start mod 64) 1 - 1)"
  have w: "start div 64 < length d" using start by (simp add: Bit_Size_def less_mult_imp_div_less mult.commute)
  have m: "bit m k \<longleftrightarrow> start div 64 * 64 + k \<in> bits d \<and> start \<le> start div 64 * 64 + k" if "k < 64" for k
    using start_mask_bit [OF that, of "start mod 64"] position_le [OF that, of start "start div 64"]
      stored_words [OF w that]
    unfolding m_def start_mask_def [symmetric] by (simp add: bit_and_iff)
  show ?thesis
  proof (cases "m = 0")
    case False
    then have "FirstRangeFrom avx start d = first_word_bits avx d (start div 64) m"
      using start unfolding FirstRangeFrom_def m_def [symmetric] Let_def by simp
    with first_word_bits_spec [OF w False m, of "avx"] assms show ?thesis
      by (simp add: Int_def)
  next
    case True
    have none: "bits d \<inter> {start..<(start div 64 + 1) * 64} = {}"
    proof -
      have "i \<notin> bits d" if "start \<le> i" "i < (start div 64 + 1) * 64" for i
      proof -
        have "start div 64 * 64 \<le> i" using that(1) by (meson div_times_less_eq_dividend le_trans)
        then obtain k where "i = start div 64 * 64 + k" by (metis le_Suc_ex)
        with that m [of k] True show ?thesis by simp
      qed
      then show ?thesis by auto
    qed
    define v where "v = skip_words (\<lambda>w. d ! w = 0) (length d) (start div 64 + 1)"
    have v: "start div 64 + 1 \<le> v" "v \<le> length d" "\<forall>i. start div 64 + 1 \<le> i \<and> i < v \<longrightarrow> d ! i = 0"
      "v < length d \<longrightarrow> d ! v \<noteq> 0"
      using skip_words_spec [of "start div 64 + 1" "length d" "\<lambda>w. d ! w = 0"] w unfolding v_def by auto
    have "bits d \<inter> {(start div 64 + 1) * 64..<v * 64} = {}" using empty_words [OF v(3)] .
    moreover have "{start..<v * 64} = {start..<(start div 64 + 1) * 64} \<union> {(start div 64 + 1) * 64..<v * 64}"
    proof -
      have "start < (start div 64 + 1) * 64" "(start div 64 + 1) * 64 \<le> v * 64" using v(1) by simp_all
      then show ?thesis by auto
    qed
    ultimately have pre: "bits d \<inter> {start..<v * 64} = {}" using none by (simp add: Int_Un_distrib)
    have eq: "FirstRangeFrom False start d =
        (if v < length d then first_word_bits False d v (d ! v) else (Bit_Size d, Bit_Size d))"
      using start True unfolding FirstRangeFrom_def m_def [symmetric] v_def Let_def by simp
    show ?thesis
    proof (cases "v < length d")
      case True
      have "start < (start div 64 + 1) * 64" "(start div 64 + 1) * 64 \<le> v * 64" using v(1) by simp_all
      then have "start \<le> v * 64 + k" for k by linarith
      then have "bit (d ! v) k \<longleftrightarrow> v * 64 + k \<in> bits d \<and> start \<le> v * 64 + k" if "k < 64" for k
        using stored_words [OF True that] by simp
      then have "first_run (bits d) start (fst (first_word_bits False d v (d ! v))) (snd (first_word_bits False d v (d ! v)))"
        by (intro first_word_bits_spec [OF True] pre) (use v(4) True in auto)
      then show ?thesis using assms eq True FirstRangeFrom_builds [of avx start d] by simp
    next
      case False
      with v(2) have "v * 64 = Bit_Size d" by (simp add: Bit_Size_def)
      with pre have "bits d \<inter> {start..} = {}" using bits_bound [of _ d] by force
      then show ?thesis using assms eq False FirstRangeFrom_builds [of avx start d] by simp
    qed
  qed
qed

subsection \<open>Iteration\<close>

text \<open>
  A range-based \<^verbatim>\<open>for\<close> over the array: \<^verbatim>\<open>begin\<close>, the comparison with \<^verbatim>\<open>end\<close> and \<^verbatim>\<open>operator++\<close>, which
  searches from the end of the run at hand.
\<close>

lemma FirstRangeFrom_progress:
  "FirstRangeFrom avx start d = (a, b) \<Longrightarrow> (a, b) \<noteq> (Bit_Size d, Bit_Size d) \<Longrightarrow>
   first_run (bits d) start a b \<and> start < b \<and> b \<le> Bit_Size d"
proof -
  assume r: "FirstRangeFrom avx start d = (a, b)" and n: "(a, b) \<noteq> (Bit_Size d, Bit_Size d)"
  have f: "first_run (bits d) start a b" using FirstRangeFrom_run [OF r] n by blast
  then have "b - 1 \<in> bits d" by (auto simp: first_run_def)
  then show ?thesis using f bits_bound [of "b - 1" d] by (auto simp: first_run_def)
qed

function ranges_from :: "bool \<Rightarrow> nat \<Rightarrow> BitArray \<Rightarrow> Range list" where
  "ranges_from avx start d =
     (let range = FirstRangeFrom avx start d in
      if range = (Bit_Size d, Bit_Size d) then [] else range # ranges_from avx (snd range) d)"
  by pat_completeness auto
termination
proof (relation "measure (\<lambda>(avx, start, d). Bit_Size d - start)")
  fix avx start d range
  assume r: "range = FirstRangeFrom avx start d" "range \<noteq> (Bit_Size d, Bit_Size d)"
  have "start < snd range \<and> snd range \<le> Bit_Size d"
    using FirstRangeFrom_progress [of avx start d "fst range" "snd range"] r by simp
  then show "((avx, snd range, d), avx, start, d) \<in> measure (\<lambda>(avx, start, d). Bit_Size d - start)"
    by (simp add: diff_less_mono2)
qed simp

declare ranges_from.simps [simp del]

definition Bit_ranges :: "bool \<Rightarrow> BitArray \<Rightarrow> Range list" where
  "Bit_ranges avx d = ranges_from avx 0 d"

definition range_set :: "Range list \<Rightarrow> nat set" where
  "range_set rs = (\<Union>(a, b)\<in>set rs. {a..<b})"

text \<open>The maximal runs of a set, in order: the runs cover the set and no two of them touch.\<close>

definition maximal_runs :: "nat set \<Rightarrow> Range list \<Rightarrow> bool" where
  "maximal_runs S rs \<longleftrightarrow>
     range_set rs = S \<and> (\<forall>(a, b)\<in>set rs. a < b) \<and> sorted_wrt (\<lambda>(a, b) (c, d). b < c) rs"

lemma ranges_from_runs:
  "(start \<noteq> 0 \<longrightarrow> start \<notin> bits d) \<Longrightarrow>
   maximal_runs (bits d \<inter> {start..}) (ranges_from avx start d) \<and>
   (\<forall>(a, b)\<in>set (ranges_from avx start d). start \<le> a \<and> (start \<noteq> 0 \<longrightarrow> start < a))"
proof (induction avx start d rule: ranges_from.induct)
  case (1 avx start d)
  obtain a b where r: "FirstRangeFrom avx start d = (a, b)" by fastforce
  show ?case
  proof (cases "(a, b) = (Bit_Size d, Bit_Size d)")
    case True
    have "bits d \<inter> {start..} = {}"
    proof (rule ccontr)
      assume n: "bits d \<inter> {start..} \<noteq> {}"
      with FirstRangeFrom_run [OF r] have "first_run (bits d) start a b" by blast
      then show False using True by (simp add: first_run_def)
    qed
    moreover have "ranges_from avx start d = []" using r True by (subst ranges_from.simps) simp
    ultimately show ?thesis by (simp add: maximal_runs_def range_set_def)
  next
    case False
    have f: "start \<le> a" "a < b" "{a..<b} \<subseteq> bits d" "b \<notin> bits d" "bits d \<inter> {start..<a} = {}"
      using FirstRangeFrom_progress [OF r False] by (auto simp: first_run_def)
    have e: "ranges_from avx start d = (a, b) # ranges_from avx b d"
      using r False by (subst ranges_from.simps) (simp add: Let_def)
    have ih: "maximal_runs (bits d \<inter> {b..}) (ranges_from avx b d)"
      "\<forall>(c, e)\<in>set (ranges_from avx b d). b < c"
      using 1(1) [OF refl] r False f(2,4) by auto
    have "bits d \<inter> {start..} = {a..<b} \<union> (bits d \<inter> {b..})"
    proof (rule set_eqI)
      fix i
      show "i \<in> bits d \<inter> {start..} \<longleftrightarrow> i \<in> {a..<b} \<union> (bits d \<inter> {b..})"
        using f by (cases "i < a"; cases "i < b") (auto simp: subset_iff)
    qed
    then have "maximal_runs (bits d \<inter> {start..}) ((a, b) # ranges_from avx b d)"
      using ih f(2) by (auto simp: maximal_runs_def range_set_def)
    moreover have "start \<noteq> 0 \<longrightarrow> start < a"
      using 1(2) f(1,2,3) by (metis atLeastLessThan_iff le_neq_implies_less order_refl subsetD)
    moreover have "\<forall>(c, e)\<in>set (ranges_from avx b d). start \<le> c \<and> (start \<noteq> 0 \<longrightarrow> start < c)"
      using ih(2) f(1,2) by fastforce
    ultimately show ?thesis unfolding e using f(1) by auto
  qed
qed

lemma Bit_ranges_runs: "maximal_runs (bits d) (Bit_ranges avx d)"
  using ranges_from_runs [of 0 d avx] by (simp add: Bit_ranges_def atLeast_0)

subsection \<open>The downward search\<close>

text \<open>\<open>[a, b)\<close> is the last run of set bits below \<open>e\<close>.\<close>

definition last_run :: "nat set \<Rightarrow> nat \<Rightarrow> nat \<Rightarrow> nat \<Rightarrow> bool" where
  "last_run S e a b \<longleftrightarrow>
     a < b \<and> b \<le> e \<and> {a..<b} \<subseteq> S \<and> (a \<noteq> 0 \<longrightarrow> a - 1 \<notin> S) \<and> S \<inter> {b..<e} = {}"

lemma find_start_bit_spec:
  assumes "w \<le> length d"
  shows "find_start_bit False d w \<le> w * 64 \<and> {find_start_bit False d w..<w * 64} \<subseteq> bits d \<and>
         (find_start_bit False d w \<noteq> 0 \<longrightarrow> find_start_bit False d w - 1 \<notin> bits d)"
proof -
  define v where "v = skip_words_down (\<lambda>w. d ! w = NOT 0) w"
  have v: "v \<le> w" "\<forall>i. v \<le> i \<and> i < w \<longrightarrow> d ! i = NOT 0" "0 < v \<longrightarrow> d ! (v - 1) \<noteq> NOT 0"
    using skip_words_down_spec [of "\<lambda>w. d ! w = NOT 0" w] unfolding v_def by blast+
  have f: "{v * 64..<w * 64} \<subseteq> bits d" using full_words [OF v(2) assms] .
  have e: "find_start_bit False d w = (if v > 0 then v * 64 - countl_one (d ! (v - 1)) else 0)"
    unfolding find_start_bit_def v_def Let_def by simp
  show ?thesis
  proof (cases "v > 0")
    case True
    define c where "c = countl_one (d ! (v - 1))"
    have c: "c \<le> 64" "\<forall>i<c. bit (d ! (v - 1)) (63 - i)" "c < 64 \<longrightarrow> \<not> bit (d ! (v - 1)) (63 - c)"
      using countl_one_iff [of "d ! (v - 1)" c] by (simp_all add: c_def)
    have vl: "v - 1 < length d" using True v(1) assms by linarith
    have c64: "c < 64"
    proof (rule ccontr)
      assume "\<not> c < 64"
      with c(1) have c64: "c = 64" by simp
      have "bit (d ! (v - 1)) i" if "i < 64" for i using c(2) [rule_format, of "63 - i"] that c64 by simp
      then have "d ! (v - 1) = NOT 0" unfolding word_ones_bits by blast
      with v(3) True show False by blast
    qed
    have in_word: "v * 64 - 1 - i \<in> bits d \<longleftrightarrow> bit (d ! (v - 1)) (63 - i)" if "i < 64" for i
    proof -
      have "v * 64 - 1 - i = (v - 1) * 64 + (63 - i)" using True that by (cases v) auto
      then show ?thesis using stored_words [OF vl, of "63 - i"] by simp
    qed
    have run: "{v * 64 - c..<v * 64} \<subseteq> bits d"
    proof
      fix i assume i: "i \<in> {v * 64 - c..<v * 64}"
      then have "v * 64 - 1 - (v * 64 - 1 - i) = i" "v * 64 - 1 - i < c" using True c64 by auto
      with in_word [of "v * 64 - 1 - i"] c(2) c64 show "i \<in> bits d" by auto
    qed
    have "v * 64 - c - 1 \<notin> bits d" using in_word [OF c64] c(3) c64 by (simp add: diff_right_commute)
    moreover have "{v * 64 - c..<w * 64} = {v * 64 - c..<v * 64} \<union> {v * 64..<w * 64}" using v(1) by auto
    moreover have "find_start_bit False d w = v * 64 - c" using e True by (simp add: c_def)
    ultimately show ?thesis using run f v(1) by auto
  next
    case False
    with f e show ?thesis by simp
  qed
qed

lemma last_word_bits_spec:
  assumes w: "0 < index" "index \<le> length d" "word \<noteq> 0"
    and b: "\<And>k. k < 64 \<Longrightarrow> bit word k \<longleftrightarrow> (index - 1) * 64 + k \<in> bits d \<and> (index - 1) * 64 + k < e"
    and high: "bits d \<inter> {index * 64..<e} = {}"
  shows "last_run (bits d) e (fst (last_word_bits False d index word)) (snd (last_word_bits False d index word))"
proof -
  define z where "z = countl_zero word"
  have z: "z < 64" "\<forall>i<z. \<not> bit word (63 - i)" "bit word (63 - z)"
    using countl_zero_nonzero [OF w(3)] countl_zero_iff [of word z] by (simp_all add: z_def)
  define c where "c = countl_one (push_bit z word)"
  have c: "c \<le> 64" "\<forall>i<c. bit (push_bit z word) (63 - i)" "c < 64 \<longrightarrow> \<not> bit (push_bit z word) (63 - c)"
    using countl_one_iff [of "push_bit z word" c] by (simp_all add: c_def)
  have sh: "bit (push_bit z word) (63 - i) \<longleftrightarrow> z + i < 64 \<and> bit word (63 - (z + i))" if "i < 64" for i
    using that z(1) by (auto simp: bit_push_bit_iff add.commute)
  have cz: "z + c \<le> 64"
  proof (rule ccontr)
    assume n: "\<not> z + c \<le> 64"
    then have "64 - z < c" using z(1) by linarith
    with c(2) have "bit (push_bit z word) (63 - (64 - z))" by blast
    moreover have "64 - z < 64" using \<open>64 - z < c\<close> c(1) by linarith
    ultimately show False using sh [of "64 - z"] z(1) by simp
  qed
  have c0: "0 < c"
  proof (rule ccontr)
    assume "\<not> 0 < c"
    then show False using c(3) sh [of 0] z(1,3) by simp
  qed
  have in_word: "index * 64 - 1 - i \<in> bits d \<and> index * 64 - 1 - i < e \<longleftrightarrow> bit word (63 - i)" if "i < 64" for i
  proof -
    have "index * 64 - 1 - i = (index - 1) * 64 + (63 - i)" using w(1) that by (cases index) auto
    then show ?thesis using b [of "63 - i"] by simp
  qed
  let ?b = "index * 64 - z"
  have size: "64 \<le> index * 64" using w(1) by simp
  have be: "?b \<le> e"
  proof -
    have "index * 64 - 1 - z < e" using in_word [OF z(1)] z(3) by blast
    then show ?thesis by linarith
  qed
  have run: "{?b - c..<?b} \<subseteq> bits d"
  proof
    fix i assume i: "i \<in> {?b - c..<?b}"
    define k where "k = ?b - 1 - i"
    have k: "k < c" "i = index * 64 - 1 - (z + k)" using i size z(1) cz unfolding k_def by auto
    have "z + k < 64" using k(1) cz by linarith
    with c(2) k(1) sh [of k] c(1) in_word [of "z + k"] k(2) show "i \<in> bits d" by auto
  qed
  have "i \<notin> bits d" if "?b \<le> i" "i < e" for i
  proof (cases "index * 64 \<le> i")
    case True
    with high that show ?thesis by auto
  next
    case False
    define k where "k = index * 64 - 1 - i"
    have "i = index * 64 - 1 - k" "k < z" using False that unfolding k_def by auto
    with in_word [of k] z(1,2) that show ?thesis by auto
  qed
  then have post: "bits d \<inter> {?b..<e} = {}" by auto
  show ?thesis
  proof (cases "z + c < 64")
    case True
    then have lw: "last_word_bits False d index word = (?b - c, ?b)"
      by (simp add: last_word_bits_def z_def [symmetric] c_def [symmetric] Let_def)
    have "\<not> bit word (63 - (z + c))" using c(3) sh [of c] True by simp
    then have "\<not> (index * 64 - 1 - (z + c) \<in> bits d \<and> index * 64 - 1 - (z + c) < e)"
      using in_word [OF True] by blast
    moreover have "index * 64 - 1 - (z + c) = ?b - c - 1" by simp
    moreover have "index * 64 - 1 - (z + c) < e" using be size z(1) by linarith
    ultimately have "?b - c - 1 \<notin> bits d" by simp
    then show ?thesis using be run post c0 size True unfolding lw last_run_def fst_conv snd_conv by auto
  next
    case False
    with cz size have eq: "?b - c = (index - 1) * 64" by (cases index) auto
    define t where "t = find_start_bit False d (index - 1)"
    have lw: "last_word_bits False d index word = (t, ?b)"
      using False by (simp add: last_word_bits_def z_def [symmetric] c_def [symmetric] Let_def t_def)
    have t: "t \<le> (index - 1) * 64" "{t..<(index - 1) * 64} \<subseteq> bits d" "t \<noteq> 0 \<longrightarrow> t - 1 \<notin> bits d"
      using find_start_bit_spec [of "index - 1" d] w(2) unfolding t_def by auto
    have "{t..<?b} = {t..<(index - 1) * 64} \<union> {?b - c..<?b}" using t(1) eq by auto
    moreover have "(index - 1) * 64 < ?b" using eq c0 size z(1) by (metis diff_less less_le_trans zero_less_diff)
    ultimately show ?thesis using be run post t unfolding lw last_run_def fst_conv snd_conv by auto
  qed
qed

lemma LastRangeFrom_run:
  assumes r: "LastRangeFrom False fin d = (a, b)" and d: "d \<noteq> []"
  shows "(a, b) = (0, 0) \<and> bits d \<inter> {..<fin} = {} \<or> last_run (bits d) (min fin (Bit_Size d)) a b"
proof (cases "fin = 0")
  case True
  with r show ?thesis by (simp add: LastRangeFrom_def)
next
  case fin: False
  define e where "e = min fin (Bit_Size d)"
  have e: "0 < e" "e \<le> Bit_Size d" "(if fin > Bit_Size d then Bit_Size d else fin) = e"
    using fin d by (auto simp: e_def Bit_Size_def)
  define w where "w = (e - 1) div 64"
  have w: "w < length d" "w * 64 < e" "e \<le> w * 64 + 64"
    using e(1,2) unfolding w_def Bit_Size_def
    by (auto simp: less_mult_imp_div_less mult.commute dest: dividend_less_div_times [of 64 "e - 1"])
  have below: "bits d \<inter> {..<fin} = bits d \<inter> {..<e}" using bits_bound [of _ d] by (auto simp: e_def)
  define m where "m = (if (e - 1) mod 64 < 63 then d ! w AND (push_bit ((e - 1) mod 64 + 1) 1 - 1) else d ! w)"
  have m: "bit m k \<longleftrightarrow> w * 64 + k \<in> bits d \<and> w * 64 + k < e" if "k < 64" for k
  proof -
    have "m = d ! w AND end_mask ((e - 1) mod 64)"
      by (auto simp: m_def end_mask_def)
    moreover have "w * 64 + k < e \<longleftrightarrow> k \<le> (e - 1) mod 64"
      using position_ge [OF that, of w "e - 1"] e(1) by (auto simp: w_def)
    ultimately show ?thesis
      using end_mask_bit [OF that, of "(e - 1) mod 64"] stored_words [OF w(1) that] by (simp add: bit_and_iff)
  qed
  have eq: "LastRangeFrom False fin d =
      (if m \<noteq> 0 then last_word_bits False d (w + 1) m
       else let v = skip_words_down (\<lambda>w. d ! w = 0) w
            in if v > 0 then last_word_bits False d v (d ! (v - 1)) else (0, 0))"
    unfolding LastRangeFrom_def e(3) Let_def w_def [symmetric] add_diff_cancel_right' m_def [symmetric] if_False
    using fin by simp
  show ?thesis
  proof (cases "m = 0")
    case False
    have "last_run (bits d) e (fst (last_word_bits False d (w + 1) m)) (snd (last_word_bits False d (w + 1) m))"
      by (rule last_word_bits_spec) (use w False m in auto)
    with r eq False show ?thesis by (simp add: e_def)
  next
    case True
    define v where "v = skip_words_down (\<lambda>w. d ! w = 0) w"
    have v: "v \<le> w" "\<forall>i. v \<le> i \<and> i < w \<longrightarrow> d ! i = 0" "0 < v \<longrightarrow> d ! (v - 1) \<noteq> 0"
      using skip_words_down_spec [of "\<lambda>w. d ! w = 0" w] unfolding v_def by blast+
    have "i \<notin> bits d" if "w * 64 \<le> i" "i < e" for i
    proof -
      define k where "k = i - w * 64"
      have k: "i = w * 64 + k" using that(1) by (simp add: k_def)
      have "k < 64" using that(2) w(3) k by linarith
      with m [OF this] k True that(2) show ?thesis by simp
    qed
    moreover have "bits d \<inter> {v * 64..<w * 64} = {}" using empty_words [OF v(2)] .
    ultimately have post: "bits d \<inter> {v * 64..<e} = {}"
      by (auto simp: disjoint_iff not_le)
    have v64: "v * 64 \<le> e" using v(1) w(2) by (meson le_trans less_imp_le mult_le_mono1)
    show ?thesis
    proof (cases "v > 0")
      case True
      have vl: "v - 1 < length d" using v(1) w(1) True by linarith
      have "bit (d ! (v - 1)) k \<longleftrightarrow> (v - 1) * 64 + k \<in> bits d \<and> (v - 1) * 64 + k < e" if "k < 64" for k
        using stored_words [OF vl that] v64 True that by (cases v) auto
      then have "last_run (bits d) e (fst (last_word_bits False d v (d ! (v - 1)))) (snd (last_word_bits False d v (d ! (v - 1))))"
        by (intro last_word_bits_spec post) (use True vl v in auto)
      with r eq \<open>m = 0\<close> True show ?thesis by (simp add: e_def v_def Let_def)
    next
      case False
      with r eq \<open>m = 0\<close> post below show ?thesis by (simp add: v_def [symmetric] Let_def lessThan_atLeast0)
    qed
  qed
qed

text \<open>The upper end does not depend on the build; the lower end does.\<close>

lemma LastRangeFrom_snd: "snd (LastRangeFrom avx fin d) = snd (LastRangeFrom False fin d)"
proof -
  have w: "snd (last_word_bits avx d i w) = snd (last_word_bits False d i w)" for avx i w
    by (simp add: last_word_bits_def Let_def)
  show ?thesis
    by (cases avx) (auto simp: LastRangeFrom_def Let_def skip_blocks_down_words w [of True] split: if_splits)
qed

text \<open>
  In the AVX2 build the block loop of \<^verbatim>\<open>find_start_bit\<close> walks over words of zeros, and the run seems
  to begin at the bottom of the array: here it is 256 to 320 in an array of the size of a region.
\<close>

definition high_run :: BitArray where
  "high_run = replicate 4 0 @ NOT 0 # replicate 11 0"

lemma high_run_bits: "bits high_run = {256..<320}"
proof (rule bits_eqI [OF refl])
  fix w k :: nat
  assume w: "w < length high_run" and k: "k < 64"
  have "high_run ! w = (if w = 4 then NOT 0 else 0)"
    using w by (auto simp: high_run_def nth_append)
  moreover have "w * 64 + k \<in> {256..<320} \<longleftrightarrow> w = 4" using k by auto
  ultimately show "bit (high_run ! w) k \<longleftrightarrow> w * 64 + k \<in> {256..<320}" using k by (simp add: bit_not_iff)
qed (auto simp: high_run_def)

lemma LastRange_avx:
  "LastRange True high_run = (0, 320) \<and> LastRange False high_run = (256, 320) \<and> bits high_run = {256..<320}"
proof -
  have "LastRange True high_run = (0, 320)" by code_simp
  moreover have "LastRange False high_run = (256, 320)" by code_simp
  ultimately show ?thesis by (simp add: high_run_bits)
qed

subsection \<open>The loops over an array, and the two builds\<close>

definition positions :: "Range list \<Rightarrow> nat list" where
  "positions rs = concat (map (\<lambda>(a, b). [a..<b]) rs)"

lemma positions_simps [simp]:
  "positions [] = []" "positions ((a, b) # rs) = [a..<b] @ positions rs"
  by (simp_all add: positions_def)

lemma positions_set: "set (positions rs) = range_set rs"
  by (auto simp: positions_def range_set_def)

lemma positions_strict:
  "\<forall>(a, b)\<in>set rs. a < b \<Longrightarrow> sorted_wrt (\<lambda>(a, b) (c, d). b < c) rs \<Longrightarrow> sorted_wrt (<) (positions rs)"
proof (induction rs)
  case (Cons r rs)
  obtain a b where r: "r = (a, b)" by fastforce
  have "x < y" if "x \<in> {a..<b}" "y \<in> set (positions rs)" for x y
    using that Cons.prems r by (fastforce simp: positions_set range_set_def)
  then show ?case
    using Cons r by (simp add: sorted_wrt_append)
qed simp

lemma set_bits_strict: "sorted_wrt (<) (filter (\<lambda>i. i \<in> S) [0..<n])"
  by (intro sorted_wrt_filter sorted_wrt_upt)

text \<open>
  C14: the loop over an array of bits, in either build, calls its body on every set bit exactly once
  and in order, in ranges that are not empty and of which no two touch, so that no run of set bits is
  ever cut.
\<close>

theorem bit_ranges_exact:
  "positions (Bit_ranges avx d) = filter (\<lambda>i. Bit_Get i d = Some True) [0..<Bit_Size d] \<and>
   (\<forall>(a, b)\<in>set (Bit_ranges avx d). a < b) \<and> sorted_wrt (\<lambda>(a, b) (c, d). b < c) (Bit_ranges avx d)"
proof -
  note m = Bit_ranges_runs [of d avx, unfolded maximal_runs_def]
  have f: "filter (\<lambda>i. Bit_Get i d = Some True) [0..<Bit_Size d] = filter (\<lambda>i. i \<in> bits d) [0..<Bit_Size d]"
    by (rule filter_cong) (auto simp: Bit_Get_bits)
  have "positions (Bit_ranges avx d) = filter (\<lambda>i. i \<in> bits d) [0..<Bit_Size d]"
  proof (rule sorted_distinct_set_unique)
    have "sorted_wrt (<) (positions (Bit_ranges avx d))" using m by (intro positions_strict) auto
    then show "sorted (positions (Bit_ranges avx d))" "distinct (positions (Bit_ranges avx d))"
      by (auto simp: strict_sorted_iff)
    show "set (positions (Bit_ranges avx d)) = set (filter (\<lambda>i. i \<in> bits d) [0..<Bit_Size d])"
      using m bits_bound [of _ d] by (auto simp: positions_set)
  qed (simp_all add: sorted_wrt_filter)
  with f m show ?thesis by simp
qed

theorem bit_ranges_exact_witness:
  "Bit_ranges True [12, 1] = [(2, 4), (64, 65)] \<and> filter (\<lambda>i. Bit_Get i [12, 1] = Some True) [0..<128] = [2, 3, 64]"
proof -
  have r: "Bit_ranges True [12, 1] = [(2, 4), (64, 65)]" by code_simp
  have "[2, 3, 64] = filter (\<lambda>i. Bit_Get i [12, 1] = Some True) [0..<128]"
    using bit_ranges_exact [of True "[12, 1]", THEN conjunct1, unfolded r]
    by (simp add: Bit_Size_def upt_rec del: upt_Suc)
  with r show ?thesis by metis
qed

text \<open>
  C15: the build for processors with 256-bit registers does what the plain one does in setting,
  clearing and copying ranges, in finding the first range, in the loop over the ranges and in the
  upper end of the last range.
\<close>

theorem builds_agree:
  "SetRange True a b d = SetRange False a b d \<and> UnsetRange True a b d = UnsetRange False a b d \<and>
   Bit_Copy True d a b = Bit_Copy False d a b \<and> FirstRangeFrom True a d = FirstRangeFrom False a d \<and>
   Bit_ranges True d = Bit_ranges False d \<and> snd (LastRangeFrom True a d) = snd (LastRangeFrom False a d)"
proof -
  have "ranges_from True s d = ranges_from False s d" for s
  proof (induction "True" s d rule: ranges_from.induct)
    case (1 s d)
    have e: "ranges_from b s d = (if FirstRangeFrom False s d = (Bit_Size d, Bit_Size d) then []
        else FirstRangeFrom False s d # ranges_from b (snd (FirstRangeFrom False s d)) d)" for b
      using ranges_from.simps [of b s d] by (simp only: FirstRangeFrom_builds [of b] Let_def)
    show ?case
      using 1 [OF refl] unfolding e [of True] e [of False] FirstRangeFrom_builds [of True] by simp
  qed
  then show ?thesis
    using SetRange_builds [of True a b d] UnsetRange_builds [of True a b d] Bit_Copy_builds [of True d a b]
      FirstRangeFrom_builds [of True a d] LastRangeFrom_snd [of True a d]
    by (simp add: Bit_ranges_def del: ranges_from.simps)
qed

end
