(* ===== verification/Page_Manager.thy ===== *)
theory Page_Manager
  imports Bit_Array Memory_State
begin

section \<open>The page manager\<close>

text \<open>
  \<^verbatim>\<open>PageManager::Impl\<close> of \<^verbatim>\<open>video_core/page_manager.cpp\<close> in the build without \<^verbatim>\<open>userfaultfd\<close>: every page
  of the guest counts the parties that watch it for writes and for reads, and the host protection
  of a page follows its counts.  \<open>page_perms\<close> is the protection last asked of the host for a page.
  The locks over the pages are left out: each function runs under those of all its pages.
\<close>

subsection \<open>Page states\<close>

text \<open>The two bit fields of \<^verbatim>\<open>PageState\<close>, at their widths.\<close>

record PageState =
  num_write_watchers :: "7 word"
  num_read_watchers :: "1 word"

definition WritePerm :: "PageState \<Rightarrow> MemoryPermission" where
  "WritePerm p = (if num_write_watchers p = 0 then Perm_Write else 0)"

definition ReadPerm :: "PageState \<Rightarrow> MemoryPermission" where
  "ReadPerm p = (if num_read_watchers p = 0 then Perm_Read else 0)"

definition Perms :: "PageState \<Rightarrow> MemoryPermission" where
  "Perms p = (ReadPerm p OR WritePerm p)"

text \<open>\<^verbatim>\<open>AddDelta\<close>: the new state and the new count; too few watchers fail the assertion.\<close>

definition AddDelta :: "int \<Rightarrow> bool \<Rightarrow> PageState \<Rightarrow> (PageState \<times> nat) option" where
  "AddDelta delta is_read p =
     (if is_read then
        (if delta = 1 then
           let n = num_read_watchers p + 1 in Some (p\<lparr>num_read_watchers := n\<rparr>, unat n)
         else if delta = -1 then
           do {
             ASSERT (num_read_watchers p > 0);
             let n = num_read_watchers p - 1;
             Some (p\<lparr>num_read_watchers := n\<rparr>, unat n)
           }
         else Some (p, unat (num_read_watchers p)))
      else
        (if delta = 1 then
           let n = num_write_watchers p + 1 in Some (p\<lparr>num_write_watchers := n\<rparr>, unat n)
         else if delta = -1 then
           do {
             ASSERT (num_write_watchers p > 0);
             let n = num_write_watchers p - 1;
             Some (p\<lparr>num_write_watchers := n\<rparr>, unat n)
           }
         else Some (p, unat (num_write_watchers p))))"

subsection \<open>Updating the watchers\<close>

definition PM_PAGE_SIZE :: nat where "PM_PAGE_SIZE = 4096"
definition NUM_ADDRESS_PAGES :: nat where "NUM_ADDRESS_PAGES = 2 ^ 28"
definition PAGES_PER_LOCK :: nat where "PAGES_PER_LOCK = 1024"

record PageManager =
  cached_pages :: "nat \<Rightarrow> PageState"
  page_perms :: "nat \<Rightarrow> MemoryPermission"

text \<open>The host call of \<^verbatim>\<open>Protect\<close>, on the pages of the range.\<close>

definition PM_Protect :: "nat \<Rightarrow> nat \<Rightarrow> MemoryPermission \<Rightarrow> PageManager \<Rightarrow> PageManager option" where
  "PM_Protect address sz perms pm =
     do {
       ASSERT (perms \<noteq> Perm_Write);
       Some (pm\<lparr>page_perms := (\<lambda>p. if address \<le> p * PM_PAGE_SIZE \<and> p * PM_PAGE_SIZE < address + sz
                                   then perms else page_perms pm p)\<rparr>)
     }"

text \<open>The locals of the loop.\<close>

record PendingRange =
  pr_perms :: MemoryPermission
  range_begin :: nat
  range_bytes :: nat
  potential_range_bytes :: nat

definition release_pending :: "PendingRange \<Rightarrow> PageManager \<Rightarrow> (PendingRange \<times> PageManager) option" where
  "release_pending r pm =
     (if range_bytes r > 0 then
        do {
          pm \<leftarrow> PM_Protect (range_begin r * PM_PAGE_SIZE) (range_bytes r) (pr_perms r) pm;
          Some (r\<lparr>range_bytes := 0, potential_range_bytes := 0\<rparr>, pm)
        }
      else Some (r, pm))"

text \<open>What both loops do after \<^verbatim>\<open>AddDelta\<close> with a page whose protection is now \<open>new_perms\<close>.\<close>

definition note_perms :: "MemoryPermission \<Rightarrow> PendingRange \<Rightarrow> PageManager \<Rightarrow> (PendingRange \<times> PageManager) option" where
  "note_perms new_perms r pm =
     (if new_perms \<noteq> pr_perms r then
        do {
          (r, pm) \<leftarrow> release_pending r pm;
          Some (r\<lparr>pr_perms := new_perms\<rparr>, pm)
        }
      else if range_bytes r \<noteq> 0 then
        Some (r\<lparr>potential_range_bytes := potential_range_bytes r + PM_PAGE_SIZE\<rparr>, pm)
      else Some (r, pm))"

definition note_change :: "bool \<Rightarrow> nat \<Rightarrow> nat \<Rightarrow> PendingRange \<Rightarrow> PendingRange" where
  "note_change track new_count page r =
     (if (new_count = 0 \<and> \<not> track) \<or> (new_count = 1 \<and> track) then
        let r = (if range_bytes r = 0 then r\<lparr>range_begin := page, potential_range_bytes := PM_PAGE_SIZE\<rparr> else r)
        in r\<lparr>range_bytes := potential_range_bytes r\<rparr>
      else r)"

text \<open>One round of the loop of \<^verbatim>\<open>UpdatePageWatchers\<close>.\<close>

definition watch_page :: "bool \<Rightarrow> bool \<Rightarrow> nat \<Rightarrow> PendingRange \<times> PageManager \<Rightarrow> (PendingRange \<times> PageManager) option" where
  "watch_page track is_read page = (\<lambda>(r, pm).
     do {
       (state, new_count) \<leftarrow> AddDelta (if track then 1 else -1) is_read (cached_pages pm page);
       let pm = pm\<lparr>cached_pages := (cached_pages pm)(page := state)\<rparr>;
       (r, pm) \<leftarrow> note_perms (Perms state) r pm;
       Some (note_change track new_count page r, pm)
     })"

text \<open>One round of the loop of \<^verbatim>\<open>UpdatePageWatchersForRegion\<close>, which leaves pages outside the mask as they are.\<close>

definition watch_region_page ::
    "bool \<Rightarrow> bool \<Rightarrow> bool \<Rightarrow> nat \<Rightarrow> PendingRange \<times> PageManager \<Rightarrow> (PendingRange \<times> PageManager) option" where
  "watch_region_page track is_read update page = (\<lambda>(r, pm).
     do {
       (state, new_count) \<leftarrow> AddDelta (if update then (if track then 1 else -1) else 0) is_read (cached_pages pm page);
       let pm = pm\<lparr>cached_pages := (cached_pages pm)(page := state)\<rparr>;
       (r, pm) \<leftarrow> note_perms (Perms state) r pm;
       Some (if \<not> update then r else note_change track new_count page r, pm)
     })"

function watch_pages ::
    "bool \<Rightarrow> bool \<Rightarrow> nat \<Rightarrow> nat \<Rightarrow> PendingRange \<times> PageManager \<Rightarrow> (PendingRange \<times> PageManager) option" where
  "watch_pages track is_read page page_end st =
     (if page = page_end then Some st
      else if page \<ge> NUM_ADDRESS_PAGES then None
      else do {
        st \<leftarrow> watch_page track is_read page st;
        watch_pages track is_read (page + 1) page_end st
      })"
  by pat_completeness auto
termination by (relation "measure (\<lambda>(t, i, page, e, st). NUM_ADDRESS_PAGES - page)") auto

definition DivCeil :: "u64 \<Rightarrow> u64 \<Rightarrow> u64" where
  "DivCeil number divisor = (number + divisor - 1) div divisor"

definition UpdatePageWatchers :: "bool \<Rightarrow> bool \<Rightarrow> u64 \<Rightarrow> u64 \<Rightarrow> PageManager \<Rightarrow> PageManager option" where
  "UpdatePageWatchers track is_read addr sz pm =
     do {
       let page = unat (drop_bit 12 addr);
       let page_end = unat (DivCeil (addr + sz) 4096);
       ASSERT (page < NUM_ADDRESS_PAGES);
       (r, pm) \<leftarrow> watch_pages track is_read page page_end
         (\<lparr>pr_perms = Perms (cached_pages pm page), range_begin = 0, range_bytes = 0, potential_range_bytes = 0\<rparr>, pm);
       (r, pm) \<leftarrow> release_pending r pm;
       Some pm
     }"

fun watch_region ::
    "bool \<Rightarrow> bool \<Rightarrow> BitArray \<Rightarrow> nat \<Rightarrow> nat list \<Rightarrow> PendingRange \<times> PageManager \<Rightarrow> (PendingRange \<times> PageManager) option" where
  "watch_region track is_read pages base_page [] st = Some st"
| "watch_region track is_read pages base_page (page # rest) st =
     do {
       ASSERT (base_page + page < NUM_ADDRESS_PAGES);
       update \<leftarrow> Bit_Get page pages;
       st \<leftarrow> watch_region_page track is_read update (base_page + page) st;
       watch_region track is_read pages base_page rest st
     }"

definition UpdatePageWatchersForRegion ::
    "bool \<Rightarrow> bool \<Rightarrow> bool \<Rightarrow> u64 \<Rightarrow> BitArray \<Rightarrow> PageManager \<Rightarrow> PageManager option" where
  "UpdatePageWatchersForRegion avx track is_read base_addr pages pm =
     (let start_range = FirstRange avx pages; end_range = LastRange avx pages in
      if snd start_range = snd end_range then
        UpdatePageWatchers track is_read (base_addr + push_bit 12 (of_nat (fst start_range)))
          (push_bit 12 (of_nat (snd start_range - fst start_range))) pm
      else
        do {
          let base_page = unat (drop_bit 12 base_addr);
          ASSERT (base_page mod PAGES_PER_LOCK = 0);
          ASSERT (base_page + fst start_range < NUM_ADDRESS_PAGES);
          (r, pm) \<leftarrow> watch_region track is_read pages base_page [fst start_range..<snd end_range]
            (\<lparr>pr_perms = Perms (cached_pages pm (base_page + fst start_range)), range_begin = 0,
              range_bytes = 0, potential_range_bytes = 0\<rparr>, pm);
          (r, pm) \<leftarrow> release_pending r pm;
          Some pm
        })"

subsection \<open>The pending range\<close>

text \<open>
  The loop delays the host calls: a range is pending while its pages have the same new protection.
  The invariant: outside the pending range the host agrees with the counts; inside, and on all pages
  between its end and the page at hand, the counts ask for the protection of the range.
\<close>

definition pending :: "PendingRange \<Rightarrow> nat set" where
  "pending r = {p. range_begin r * PM_PAGE_SIZE \<le> p * PM_PAGE_SIZE \<and>
                   p * PM_PAGE_SIZE < range_begin r * PM_PAGE_SIZE + range_bytes r}"

definition loop_inv :: "PendingRange \<Rightarrow> PageManager \<Rightarrow> nat \<Rightarrow> bool" where
  "loop_inv r pm page \<longleftrightarrow>
     (\<forall>p. p \<notin> pending r \<longrightarrow> page_perms pm p = Perms (cached_pages pm p)) \<and>
     (range_bytes r > 0 \<longrightarrow>
        pr_perms r \<noteq> Perm_Write \<and> range_bytes r \<le> potential_range_bytes r \<and>
        range_begin r * PM_PAGE_SIZE + potential_range_bytes r = page * PM_PAGE_SIZE \<and>
        (\<forall>p. range_begin r \<le> p \<and> p < page \<longrightarrow> Perms (cached_pages pm p) = pr_perms r))"

definition synced :: "PageManager \<Rightarrow> bool" where
  "synced pm \<longleftrightarrow> (\<forall>p. page_perms pm p = Perms (cached_pages pm p))"

lemma pending_empty [simp]: "range_bytes r = 0 \<Longrightarrow> pending r = {}"
  by (auto simp: pending_def)

lemma loop_inv_start: "synced pm \<Longrightarrow> range_bytes r = 0 \<Longrightarrow> loop_inv r pm page"
  by (simp add: synced_def loop_inv_def)

lemma loop_inv_pending: "loop_inv r pm page \<Longrightarrow> p \<in> pending r \<Longrightarrow> range_begin r \<le> p \<and> p < page"
  by (cases "range_bytes r = 0") (auto simp: loop_inv_def pending_def PM_PAGE_SIZE_def)

text \<open>Releasing asks the host for the protection of the pending pages.\<close>

definition released :: "PendingRange \<Rightarrow> PageManager \<Rightarrow> PageManager" where
  "released r pm = pm\<lparr>page_perms := (\<lambda>p. if p \<in> pending r then pr_perms r else page_perms pm p)\<rparr>"

lemma released_simps [simp]:
  "cached_pages (released r pm) = cached_pages pm"
  "page_perms (released r pm) p = (if p \<in> pending r then pr_perms r else page_perms pm p)"
  by (simp_all add: released_def)

lemma release_pending_run:
  assumes "range_bytes r > 0 \<longrightarrow> pr_perms r \<noteq> Perm_Write"
  obtains r1 where "release_pending r pm = Some (r1, released r pm)" "range_bytes r1 = 0" "pr_perms r1 = pr_perms r"
proof (cases "range_bytes r > 0")
  case True
  then have "release_pending r pm = Some (r\<lparr>range_bytes := 0, potential_range_bytes := 0\<rparr>, released r pm)"
    using assms by (simp add: release_pending_def PM_Protect_def released_def pending_def)
  then show ?thesis by (rule that) simp_all
next
  case False
  then have "release_pending r pm = Some (r, released r pm)"
    by (simp add: release_pending_def released_def)
  then show ?thesis by (rule that) (use False in simp_all)
qed

lemma release_pending_synced:
  assumes i: "loop_inv r pm page"
  shows "\<exists>r1 pm1. release_pending r pm = Some (r1, pm1) \<and> synced pm1 \<and> cached_pages pm1 = cached_pages pm"
proof -
  have "range_bytes r > 0 \<longrightarrow> pr_perms r \<noteq> Perm_Write" using i by (simp add: loop_inv_def)
  then obtain r1 where "release_pending r pm = Some (r1, released r pm)" by (rule release_pending_run)
  moreover have "Perms (cached_pages pm p) = pr_perms r" if "p \<in> pending r" for p
    using i loop_inv_pending [OF i that] that by (cases "range_bytes r = 0") (auto simp: loop_inv_def)
  ultimately show ?thesis using i by (auto simp: synced_def loop_inv_def)
qed

text \<open>One page whose state becomes \<open>s\<close>; \<open>ch\<close> tells whether its protection changes.\<close>

definition extend_range :: "nat \<Rightarrow> PendingRange \<Rightarrow> PendingRange" where
  "extend_range page r =
     (let r = (if range_bytes r = 0 then r\<lparr>range_begin := page, potential_range_bytes := PM_PAGE_SIZE\<rparr> else r)
      in r\<lparr>range_bytes := potential_range_bytes r\<rparr>)"

text \<open>A range that starts at the page at hand.\<close>

lemma fresh_range_inv:
  assumes "range_bytes r = 0" "Perms (cached_pages pm page) = pr_perms r" "pr_perms r \<noteq> Perm_Write"
    and "\<And>p. p \<noteq> page \<Longrightarrow> page_perms pm p = Perms (cached_pages pm p)"
  shows "loop_inv (extend_range page r) pm (page + 1)"
proof -
  have e: "range_begin (extend_range page r) = page" "pr_perms (extend_range page r) = pr_perms r"
    "potential_range_bytes (extend_range page r) = PM_PAGE_SIZE" "range_bytes (extend_range page r) = PM_PAGE_SIZE"
    using assms(1) by (simp_all add: extend_range_def)
  have "pending (extend_range page r) = {page}"
    unfolding pending_def e by (auto simp: PM_PAGE_SIZE_def)
  then show ?thesis
    unfolding loop_inv_def e using assms(2-) by (auto simp: less_Suc_eq PM_PAGE_SIZE_def)
qed

lemma note_perms_inv:
  assumes i: "loop_inv r pm page"
    and ch: "ch \<longleftrightarrow> Perms s \<noteq> Perms (cached_pages pm page)" "ch \<longrightarrow> Perms s \<noteq> Perm_Write"
  shows "\<exists>r1 pm1. note_perms (Perms s) r (pm\<lparr>cached_pages := (cached_pages pm)(page := s)\<rparr>) = Some (r1, pm1) \<and>
      cached_pages pm1 = (cached_pages pm)(page := s) \<and>
      loop_inv (if ch then extend_range page r1 else r1) pm1 (page + 1)"
proof (cases "Perms s \<noteq> pr_perms r")
  case True
  have "range_bytes r > 0 \<longrightarrow> pr_perms r \<noteq> Perm_Write" using i by (simp add: loop_inv_def)
  then obtain r1 where r1:
    "release_pending r (pm\<lparr>cached_pages := (cached_pages pm)(page := s)\<rparr>) =
      Some (r1, released r (pm\<lparr>cached_pages := (cached_pages pm)(page := s)\<rparr>))"
    "range_bytes r1 = 0"
    by (rule release_pending_run)
  define pm1 where "pm1 = released r (pm\<lparr>cached_pages := (cached_pages pm)(page := s)\<rparr>)"
  define r2 where "r2 = r1\<lparr>pr_perms := Perms s\<rparr>"
  have n: "note_perms (Perms s) r (pm\<lparr>cached_pages := (cached_pages pm)(page := s)\<rparr>) = Some (r2, pm1)"
    using True r1 by (simp add: note_perms_def r2_def pm1_def)
  have np: "page \<notin> pending r" using loop_inv_pending [OF i] by blast
  have others: "page_perms pm1 p = Perms (cached_pages pm p)" for p
  proof (cases "p \<in> pending r")
    case True
    then show ?thesis
      using i loop_inv_pending [OF i True] by (cases "range_bytes r = 0") (auto simp: loop_inv_def pm1_def)
  next
    case False
    then show ?thesis using i by (auto simp: loop_inv_def pm1_def)
  qed
  have "loop_inv (if ch then extend_range page r2 else r2) pm1 (page + 1)"
  proof (cases ch)
    case True
    have "loop_inv (extend_range page r2) pm1 (page + 1)"
      by (rule fresh_range_inv) (use r1(2) ch(2) True others in \<open>simp_all add: r2_def, simp_all add: pm1_def\<close>)
    with True show ?thesis by simp
  next
    case False
    with ch(1) have "Perms s = Perms (cached_pages pm page)" by simp
    then show ?thesis using False r1(2) others by (auto simp: loop_inv_def r2_def pm1_def)
  qed
  with n show ?thesis by (auto simp: pm1_def)
next
  case False
  define pm1 where "pm1 = pm\<lparr>cached_pages := (cached_pages pm)(page := s)\<rparr>"
  have s: "Perms s = pr_perms r" using False by simp
  show ?thesis
  proof (cases "range_bytes r = 0")
    case True
    then have n: "note_perms (Perms s) r pm1 = Some (r, pm1)" using s by (simp add: note_perms_def)
    have others: "page_perms pm p = Perms (cached_pages pm p)" for p using i True by (simp add: loop_inv_def)
    have "loop_inv (if ch then extend_range page r else r) pm1 (page + 1)"
    proof (cases ch)
      case c: True
      have "loop_inv (extend_range page r) pm1 (page + 1)"
        by (rule fresh_range_inv) (use True c ch(2) others s in \<open>simp_all add: pm1_def\<close>)
      with c show ?thesis by simp
    next
      case False
      with ch(1) others True show ?thesis by (auto simp: loop_inv_def pm1_def)
    qed
    with n show ?thesis by (auto simp: pm1_def)
  next
    case rb: False
    define r1 where "r1 = r\<lparr>potential_range_bytes := potential_range_bytes r + PM_PAGE_SIZE\<rparr>"
    have n: "note_perms (Perms s) r pm1 = Some (r1, pm1)" using s rb by (simp add: note_perms_def r1_def)
    have li: "pr_perms r \<noteq> Perm_Write" "range_bytes r \<le> potential_range_bytes r"
      "range_begin r * PM_PAGE_SIZE + potential_range_bytes r = page * PM_PAGE_SIZE"
      "\<And>p. range_begin r \<le> p \<Longrightarrow> p < page \<Longrightarrow> Perms (cached_pages pm p) = pr_perms r"
      "\<And>p. p \<notin> pending r \<Longrightarrow> page_perms pm p = Perms (cached_pages pm p)"
      using i rb by (auto simp: loop_inv_def)
    have run: "Perms (cached_pages pm1 p) = pr_perms r" if "range_begin r \<le> p" "p < page + 1" for p
      using that li(4) [of p] s by (auto simp: pm1_def less_Suc_eq)
    have "loop_inv (if ch then extend_range page r1 else r1) pm1 (page + 1)"
    proof (cases ch)
      case True
      have e: "range_begin (extend_range page r1) = range_begin r" "pr_perms (extend_range page r1) = pr_perms r"
        "range_bytes (extend_range page r1) = potential_range_bytes r + PM_PAGE_SIZE"
        "potential_range_bytes (extend_range page r1) = potential_range_bytes r + PM_PAGE_SIZE"
        using rb by (simp_all add: extend_range_def r1_def)
      have "range_begin r \<le> page" using li(2,3) rb by (simp add: PM_PAGE_SIZE_def)
      then have "p \<in> pending (extend_range page r1)" if "p \<in> pending r \<or> p = page" for p
        using that li(2,3) unfolding pending_def e by (auto simp: PM_PAGE_SIZE_def)
      then have out: "page_perms pm1 p = Perms (cached_pages pm1 p)" if "p \<notin> pending (extend_range page r1)" for p
        using that li(5) [of p] by (cases "p = page") (auto simp: pm1_def)
      have "loop_inv (extend_range page r1) pm1 (page + 1)"
        unfolding loop_inv_def e using out run li(1,2,3) by (auto simp: algebra_simps)
      with True show ?thesis by simp
    next
      case False
      with ch(1) have old: "Perms s = Perms (cached_pages pm page)" by simp
      have "pending r1 = pending r" by (simp add: pending_def r1_def)
      moreover have "page_perms pm1 p = Perms (cached_pages pm1 p)" if "p \<notin> pending r" for p
        using li(5) [OF that] old by (auto simp: pm1_def)
      ultimately show ?thesis
        using False run li(1,2,3) unfolding loop_inv_def by (auto simp: r1_def algebra_simps)
    qed
    with n show ?thesis by (auto simp: pm1_def)
  qed
qed

subsection \<open>What the functions do\<close>

definition bump :: "bool \<Rightarrow> bool \<Rightarrow> PageState \<Rightarrow> PageState" where
  "bump track is_read p =
     (if is_read then p\<lparr>num_read_watchers := num_read_watchers p + (if track then 1 else - 1)\<rparr>
      else p\<lparr>num_write_watchers := num_write_watchers p + (if track then 1 else - 1)\<rparr>)"

text \<open>
  A page may be bumped when the count neither wraps round nor goes below zero and the page does not
  become write-only, which \<^verbatim>\<open>Protect\<close> rejects.
\<close>

definition watchers :: "bool \<Rightarrow> PageState \<Rightarrow> nat" where
  "watchers is_read p = (if is_read then unat (num_read_watchers p) else unat (num_write_watchers p))"

definition max_watchers :: "bool \<Rightarrow> nat" where
  "max_watchers is_read = (if is_read then 1 else 127)"

definition can_bump :: "bool \<Rightarrow> bool \<Rightarrow> PageState \<Rightarrow> bool" where
  "can_bump track is_read p \<longleftrightarrow>
     (if track then watchers is_read p < max_watchers is_read else 0 < watchers is_read p) \<and>
     Perms (bump track is_read p) \<noteq> Perm_Write"

lemma word_inc: "unat (n :: 'w::len word) < 2 ^ LENGTH('w) - 1 \<Longrightarrow> unat (n + 1) = Suc (unat n)"
  by (metis add.commute less_diff_conv plus_1_eq_Suc unat_1 unat_add_nowrap)

lemma word_dec: "0 < n \<Longrightarrow> unat ((n :: 'w::len word) - 1) = unat n - 1"
  by (simp add: unat_minus_one word_neq_0_conv)

lemma AddDelta_bump:
  assumes "can_bump track is_read p"
  shows "\<exists>n. AddDelta (if track then 1 else -1) is_read p = Some (bump track is_read p, n) \<and>
      n = watchers is_read (bump track is_read p) \<and>
      n = (if track then watchers is_read p + 1 else watchers is_read p - 1)"
  using assms
  by (cases track; cases is_read)
     (auto simp: AddDelta_def bump_def can_bump_def watchers_def max_watchers_def Let_def word_inc word_dec
        word_less_nat_alt)

lemma Perms_bump:
  assumes "can_bump track is_read p"
  shows "Perms (bump track is_read p) \<noteq> Perms p \<longleftrightarrow>
      (watchers is_read (bump track is_read p) = 0 \<and> \<not> track) \<or>
      (watchers is_read (bump track is_read p) = 1 \<and> track)"
proof -
  obtain n where n: "n = watchers is_read (bump track is_read p)"
    "n = (if track then watchers is_read p + 1 else watchers is_read p - 1)"
    using AddDelta_bump [OF assms] by blast
  have z: "num_read_watchers p = 0 \<longleftrightarrow> unat (num_read_watchers p) = 0"
    "num_write_watchers p = 0 \<longleftrightarrow> unat (num_write_watchers p) = 0" for p
    by (simp_all add: unat_eq_0)
  have "Perms q = Perms p \<longleftrightarrow> (watchers False q = 0 \<longleftrightarrow> watchers False p = 0) \<and> (watchers True q = 0 \<longleftrightarrow> watchers True p = 0)" for q
    by (simp add: Perms_def ReadPerm_def WritePerm_def watchers_def z perm_defs)
  moreover have "watchers (\<not> is_read) (bump track is_read p) = watchers (\<not> is_read) p"
    by (cases is_read) (simp_all add: bump_def watchers_def)
  ultimately show ?thesis
    using n assms by (cases track; cases is_read) (auto simp: can_bump_def)
qed

text \<open>The pages of a set gain or lose one watcher.\<close>

definition bump_all :: "bool \<Rightarrow> bool \<Rightarrow> nat set \<Rightarrow> (nat \<Rightarrow> PageState) \<Rightarrow> nat \<Rightarrow> PageState" where
  "bump_all track is_read S f = (\<lambda>p. if p \<in> S then bump track is_read (f p) else f p)"

lemma bump_all_empty [simp]: "bump_all track is_read {} f = f"
  by (simp add: bump_all_def)

lemma bump_all_insert: "p \<notin> S \<Longrightarrow>
    bump_all track is_read S (f(p := bump track is_read (f p))) = bump_all track is_read (insert p S) f"
  by (rule ext) (simp add: bump_all_def)

lemma note_change_extend:
  "note_change track n page r = (if (n = 0 \<and> \<not> track) \<or> (n = 1 \<and> track) then extend_range page r else r)"
  unfolding note_change_def extend_range_def ..

lemma watch_page_inv:
  assumes i: "loop_inv r pm page" and c: "can_bump track is_read (cached_pages pm page)"
  shows "\<exists>r1 pm1. watch_page track is_read page (r, pm) = Some (r1, pm1) \<and> loop_inv r1 pm1 (page + 1) \<and>
      cached_pages pm1 = (cached_pages pm)(page := bump track is_read (cached_pages pm page))"
proof -
  let ?s = "bump track is_read (cached_pages pm page)"
  obtain n where n: "AddDelta (if track then 1 else -1) is_read (cached_pages pm page) = Some (?s, n)"
    "n = watchers is_read ?s"
    using AddDelta_bump [OF c] by blast
  have ch1: "((n = 0 \<and> \<not> track) \<or> (n = 1 \<and> track)) = (Perms ?s \<noteq> Perms (cached_pages pm page))"
    using Perms_bump [OF c] by (simp add: n(2))
  have ch2: "(n = 0 \<and> \<not> track) \<or> (n = 1 \<and> track) \<longrightarrow> Perms ?s \<noteq> Perm_Write"
    using c by (simp add: can_bump_def)
  from note_perms_inv [OF i ch1 ch2] obtain r1 pm1 where
    "note_perms (Perms ?s) r (pm\<lparr>cached_pages := (cached_pages pm)(page := ?s)\<rparr>) = Some (r1, pm1)"
    "cached_pages pm1 = (cached_pages pm)(page := ?s)"
    "loop_inv (if (n = 0 \<and> \<not> track) \<or> (n = 1 \<and> track) then extend_range page r1 else r1) pm1 (page + 1)"
    by blast
  then show ?thesis by (simp add: watch_page_def n(1) note_change_extend Let_def)
qed

lemma watch_region_page_inv:
  assumes i: "loop_inv r pm page" and c: "update \<longrightarrow> can_bump track is_read (cached_pages pm page)"
  shows "\<exists>r1 pm1. watch_region_page track is_read update page (r, pm) = Some (r1, pm1) \<and> loop_inv r1 pm1 (page + 1) \<and>
      cached_pages pm1 = (if update then (cached_pages pm)(page := bump track is_read (cached_pages pm page))
                          else cached_pages pm)"
proof (cases update)
  case True
  have "watch_region_page track is_read True page = watch_page track is_read page"
    by (simp add: watch_region_page_def watch_page_def)
  with watch_page_inv [OF i] c True show ?thesis by auto
next
  case False
  let ?s = "cached_pages pm page"
  obtain n where n: "AddDelta 0 is_read ?s = Some (?s, n)" by (cases is_read) (simp_all add: AddDelta_def)
  obtain r1 pm1 where
    "note_perms (Perms ?s) r (pm\<lparr>cached_pages := (cached_pages pm)(page := ?s)\<rparr>) = Some (r1, pm1)"
    "cached_pages pm1 = cached_pages pm" "loop_inv r1 pm1 (page + 1)"
    using note_perms_inv [OF i, of False ?s] by auto
  then show ?thesis using False by (simp add: watch_region_page_def n Let_def)
qed

lemma watch_pages_inv:
  "loop_inv r pm page \<Longrightarrow> page \<le> page_end \<Longrightarrow> page_end \<le> NUM_ADDRESS_PAGES \<Longrightarrow>
   \<forall>p\<in>{page..<page_end}. can_bump track is_read (cached_pages pm p) \<Longrightarrow>
   \<exists>r1 pm1. watch_pages track is_read page page_end (r, pm) = Some (r1, pm1) \<and> loop_inv r1 pm1 page_end \<and>
     cached_pages pm1 = bump_all track is_read {page..<page_end} (cached_pages pm)"
proof (induction "page_end - page" arbitrary: page r pm)
  case 0
  then show ?case by (subst watch_pages.simps) simp
next
  case (Suc n)
  have lt: "page < page_end" using Suc(2) by simp
  have "can_bump track is_read (cached_pages pm page)" using Suc(6) lt by simp
  from watch_page_inv [OF Suc(3) this]
  obtain r1 pm1 where w: "watch_page track is_read page (r, pm) = Some (r1, pm1)" "loop_inv r1 pm1 (page + 1)"
    "cached_pages pm1 = (cached_pages pm)(page := bump track is_read (cached_pages pm page))"
    by blast
  have "\<exists>r2 pm2. watch_pages track is_read (page + 1) page_end (r1, pm1) = Some (r2, pm2) \<and> loop_inv r2 pm2 page_end \<and>
      cached_pages pm2 = bump_all track is_read {page + 1..<page_end} (cached_pages pm1)"
    by (rule Suc(1)) (use Suc(2,5,6) lt w in auto)
  moreover have "bump_all track is_read {page + 1..<page_end} (cached_pages pm1) =
      bump_all track is_read {page..<page_end} (cached_pages pm)"
  proof -
    have "{page..<page_end} = insert page {page + 1..<page_end}" using lt by auto
    then show ?thesis using w(3) by (simp add: bump_all_insert)
  qed
  moreover have "watch_pages track is_read page page_end (r, pm) = watch_pages track is_read (page + 1) page_end (r1, pm1)"
    using lt Suc(5) w(1) by (subst watch_pages.simps) simp
  ultimately show ?case by simp
qed

declare watch_pages.simps [simp del]

text \<open>
  The whole of \<^verbatim>\<open>UpdatePageWatchers\<close>: every page that the range touches gains or loses one watcher, and
  the host agrees with the counts again.
\<close>

definition pages_of :: "u64 \<Rightarrow> u64 \<Rightarrow> nat set" where
  "pages_of addr sz = {unat addr div PM_PAGE_SIZE..<(unat addr + unat sz + PM_PAGE_SIZE - 1) div PM_PAGE_SIZE}"

lemma DivCeil_unat:
  "unat a + unat b + 4095 < 2 ^ 64 \<Longrightarrow> unat (DivCeil (a + b) 4096) = (unat a + unat b + 4095) div 4096"
  by (simp add: DivCeil_def unat_div unat_add_nowrap unat_add64)

lemma UpdatePageWatchers_run:
  assumes s: "synced pm" and range: "unat addr + unat sz \<le> 4096 * NUM_ADDRESS_PAGES" "0 < sz"
    and c: "\<forall>p\<in>pages_of addr sz. can_bump track is_read (cached_pages pm p)"
  shows "\<exists>pm1. UpdatePageWatchers track is_read addr sz pm = Some pm1 \<and> synced pm1 \<and>
      cached_pages pm1 = bump_all track is_read (pages_of addr sz) (cached_pages pm)"
proof -
  let ?first = "unat addr div 4096" and ?last = "(unat addr + unat sz + 4095) div 4096"
  let ?r = "\<lparr>pr_perms = Perms (cached_pages pm ?first), range_begin = 0, range_bytes = 0, potential_range_bytes = 0\<rparr>"
  have sz: "0 < unat sz" using range(2) by (simp add: word_less_nat_alt)
  have nn: "4096 * NUM_ADDRESS_PAGES = 2 ^ 40" by (simp add: NUM_ADDRESS_PAGES_def)
  have pe: "unat (DivCeil (addr + sz) 4096) = ?last" using range(1) nn by (intro DivCeil_unat) simp
  have pf: "unat (drop_bit 12 addr) = ?first" by (simp add: drop_bit_eq_div unat_div)
  have b: "?first < NUM_ADDRESS_PAGES" "?first \<le> ?last" "?last \<le> NUM_ADDRESS_PAGES"
    using range(1) sz by (auto simp: less_mult_imp_div_less div_le_mono div_less_iff_less_mult)
  have po: "pages_of addr sz = {?first..<?last}" by (simp add: pages_of_def PM_PAGE_SIZE_def add.commute)
  have li: "loop_inv ?r pm ?first" by (rule loop_inv_start [OF s]) simp
  obtain r1 pm1 where w: "watch_pages track is_read ?first ?last (?r, pm) = Some (r1, pm1)" "loop_inv r1 pm1 ?last"
    "cached_pages pm1 = bump_all track is_read {?first..<?last} (cached_pages pm)"
    using watch_pages_inv [OF li b(2,3) c [unfolded po]] by blast
  obtain r2 pm2 where "release_pending r1 pm1 = Some (r2, pm2)" "synced pm2" "cached_pages pm2 = cached_pages pm1"
    using release_pending_synced [OF w(2)] by blast
  then show ?thesis using w(1,3) b(1) by (simp add: UpdatePageWatchers_def pe pf po Let_def)
qed

text \<open>The region function: the pages of the mask, counted from the base of the region.\<close>

lemma watch_region_inv:
  "loop_inv r pm (base_page + k) \<Longrightarrow> base_page + n \<le> NUM_ADDRESS_PAGES \<Longrightarrow> k \<le> n \<Longrightarrow> n \<le> Bit_Size pages \<Longrightarrow>
   \<forall>p\<in>bits pages. can_bump track is_read (cached_pages pm (base_page + p)) \<or> p < k \<Longrightarrow>
   \<exists>r1 pm1. watch_region track is_read pages base_page [k..<n] (r, pm) = Some (r1, pm1) \<and>
     loop_inv r1 pm1 (base_page + n) \<and>
     cached_pages pm1 = bump_all track is_read ((+) base_page ` (bits pages \<inter> {k..<n})) (cached_pages pm)"
proof (induction "n - k" arbitrary: k r pm)
  case 0
  then show ?case by simp
next
  case (Suc m)
  have lt: "k < n" using Suc(2) by simp
  have g: "Bit_Get k pages = Some (k \<in> bits pages)" using Bit_Get_bits lt Suc(6) by simp
  have cb: "k \<in> bits pages \<longrightarrow> can_bump track is_read (cached_pages pm (base_page + k))" using Suc(7) by auto
  obtain r1 pm1 where w: "watch_region_page track is_read (k \<in> bits pages) (base_page + k) (r, pm) = Some (r1, pm1)"
    "loop_inv r1 pm1 (base_page + k + 1)"
    "cached_pages pm1 = (if k \<in> bits pages
       then (cached_pages pm)(base_page + k := bump track is_read (cached_pages pm (base_page + k)))
       else cached_pages pm)"
    using watch_region_page_inv [OF Suc(3) cb] by blast
  have "\<exists>r2 pm2. watch_region track is_read pages base_page [k + 1..<n] (r1, pm1) = Some (r2, pm2) \<and>
      loop_inv r2 pm2 (base_page + n) \<and>
      cached_pages pm2 = bump_all track is_read ((+) base_page ` (bits pages \<inter> {k + 1..<n})) (cached_pages pm1)"
  proof (rule Suc(1))
    show "\<forall>p\<in>bits pages. can_bump track is_read (cached_pages pm1 (base_page + p)) \<or> p < k + 1"
      using Suc(7) w(3) by (auto simp: less_Suc_eq)
  qed (use Suc(2,4,6) lt w(2) in \<open>simp_all add: add.assoc\<close>)
  moreover have "bump_all track is_read ((+) base_page ` (bits pages \<inter> {k + 1..<n})) (cached_pages pm1) =
      bump_all track is_read ((+) base_page ` (bits pages \<inter> {k..<n})) (cached_pages pm)"
  proof (cases "k \<in> bits pages")
    case True
    have "(+) base_page ` (bits pages \<inter> {k..<n}) = insert (base_page + k) ((+) base_page ` (bits pages \<inter> {k + 1..<n}))"
      using True lt by (auto simp: image_iff Bex_def le_less Suc_le_eq)
    moreover have "base_page + k \<notin> (+) base_page ` (bits pages \<inter> {k + 1..<n})" by auto
    ultimately show ?thesis using True w(3) by (simp add: bump_all_insert)
  next
    case False
    then have "bits pages \<inter> {k..<n} = bits pages \<inter> {k + 1..<n}" by (auto simp: le_less Suc_le_eq)
    then show ?thesis using False w(3) by simp
  qed
  moreover have "watch_region track is_read pages base_page [k..<n] (r, pm) =
      watch_region track is_read pages base_page [k + 1..<n] (r1, pm1)"
    using lt Suc(4) w(1) g by (simp add: upt_conv_Cons)
  ultimately show ?case by simp
qed

text \<open>The first and the last run enclose the set, in both builds.\<close>

lemma FirstRange_run:
  assumes "bits d \<noteq> {}"
  shows "first_run (bits d) 0 (fst (FirstRange avx d)) (snd (FirstRange avx d))"
  using FirstRangeFrom_run [of avx 0 d "fst (FirstRange avx d)" "snd (FirstRange avx d)"] assms
  by (auto simp: FirstRange_def atLeast_0)

lemma LastRange_end:
  assumes "bits d \<noteq> {}"
  shows "\<exists>a. last_run (bits d) (Bit_Size d) a (snd (LastRange avx d))"
proof -
  have "d \<noteq> []" using assms by (auto simp: bits_def stored_def)
  moreover have "bits d \<inter> {..<Bit_Size d} = bits d" using bits_bound [of _ d] by auto
  moreover have "snd (LastRange avx d) = snd (LastRangeFrom False (Bit_Size d) d)"
    using LastRangeFrom_snd [of avx] by (simp add: LastRange_def)
  ultimately show ?thesis
    using LastRangeFrom_run [of "Bit_Size d" d "fst (LastRangeFrom False (Bit_Size d) d)" "snd (LastRangeFrom False (Bit_Size d) d)"]
      assms by auto
qed

lemma region_bounds:
  assumes "bits d \<noteq> {}"
  shows "bits d \<subseteq> {fst (FirstRange avx d)..<snd (LastRange avx d)} \<and>
         fst (FirstRange avx d) < snd (FirstRange avx d) \<and> {fst (FirstRange avx d)..<snd (FirstRange avx d)} \<subseteq> bits d \<and>
         snd (LastRange avx d) \<le> Bit_Size d"
proof -
  obtain a where l: "last_run (bits d) (Bit_Size d) a (snd (LastRange avx d))" using LastRange_end [OF assms] by blast
  have "i \<in> {fst (FirstRange avx d)..<snd (LastRange avx d)}" if "i \<in> bits d" for i
    using that FirstRange_run [OF assms, of avx] l bits_bound [OF that]
    by (auto simp: first_run_def last_run_def disjoint_iff not_less [symmetric])
  then show ?thesis using FirstRange_run [OF assms, of avx] l by (auto simp: first_run_def last_run_def)
qed

text \<open>The pages of a region are aligned to the region.\<close>

definition region_base :: "u64 \<Rightarrow> bool" where
  "region_base a \<longleftrightarrow> unat a mod 4194304 = 0 \<and> unat a + 4194304 \<le> 2 ^ 40"

lemma region_base_page:
  assumes "region_base a"
  shows "unat (drop_bit 12 a) = unat a div PM_PAGE_SIZE \<and> unat a = PM_PAGE_SIZE * (unat a div PM_PAGE_SIZE) \<and>
         unat a div PM_PAGE_SIZE mod 1024 = 0 \<and> unat a div PM_PAGE_SIZE + 1024 \<le> NUM_ADDRESS_PAGES"
proof -
  have d: "unat a = 4194304 * (unat a div 4194304)"
    using assms mult_div_mod_eq [of 4194304 "unat a"] unfolding region_base_def by linarith
  have "unat a = (1024 * (unat a div 4194304)) * 4096" using d by linarith
  then have m: "unat a div 4096 = 1024 * (unat a div 4194304)" by (metis nonzero_mult_div_cancel_right zero_neq_numeral)
  have dp: "unat (drop_bit 12 a) = unat a div 4096" by (simp add: drop_bit_eq_div unat_div)
  have "unat a \<le> 1099507433472" using assms by (simp add: region_base_def)
  then have "unat a div 4194304 + 1 \<le> 262144" using d by linarith
  then show ?thesis using dp d m by (simp add: PM_PAGE_SIZE_def NUM_ADDRESS_PAGES_def)
qed

lemma contiguous_pages:
  assumes r: "region_base a" and b: "x < y" "y \<le> 1024"
  defines "addr \<equiv> a + push_bit 12 (of_nat x)" and "sz \<equiv> push_bit 12 (of_nat (y - x)) :: u64"
  shows "pages_of addr sz = (+) (unat a div PM_PAGE_SIZE) ` {x..<y} \<and> 0 < sz \<and>
         unat addr + unat sz \<le> 4096 * NUM_ADDRESS_PAGES"
proof -
  let ?b = "unat a div PM_PAGE_SIZE"
  have a: "unat a = 4096 * ?b" "?b + 1024 \<le> 2 ^ 28"
    using region_base_page [OF r] by (simp_all add: PM_PAGE_SIZE_def NUM_ADDRESS_PAGES_def)
  have shift: "unat (push_bit 12 (of_nat n) :: u64) = 4096 * n" if "n \<le> 1024" for n
    using that by (simp add: push_bit_eq_mult unat_word_ariths unsigned_of_nat take_bit_eq_mod)
  have addr: "unat addr = 4096 * (?b + x)"
    unfolding addr_def using a b shift [of x] by (subst unat_add64) simp_all
  have sz: "unat sz = 4096 * (y - x)" unfolding sz_def using shift [of "y - x"] b by simp
  have "(unat addr + unat sz + 4095) div 4096 = ?b + y"
  proof -
    have "unat addr + unat sz + 4095 = (?b + y) * 4096 + 4095" using addr sz b by (simp add: algebra_simps)
    then show ?thesis by simp
  qed
  moreover have "pages_of addr sz = {unat addr div 4096..<(unat addr + unat sz + 4095) div 4096}"
    by (simp add: pages_of_def PM_PAGE_SIZE_def add.commute)
  moreover have "unat addr div 4096 = ?b + x" unfolding addr by simp
  ultimately have "pages_of addr sz = {?b + x..<?b + y}" by (simp only:)
  moreover have "0 < sz" using sz b by (simp add: word_less_nat_alt)
  moreover have "unat addr + unat sz \<le> 4096 * NUM_ADDRESS_PAGES"
    using addr sz a b by (simp add: NUM_ADDRESS_PAGES_def)
  ultimately show ?thesis by (simp add: image_add_atLeastLessThan add.commute)
qed

lemma UpdatePageWatchersForRegion_run:
  assumes s: "synced pm" and r: "region_base a" and d: "Bit_Size d = 1024" "bits d \<noteq> {}"
    and c: "\<forall>p\<in>bits d. can_bump track is_read (cached_pages pm (unat a div PM_PAGE_SIZE + p))"
  shows "\<exists>pm1. UpdatePageWatchersForRegion avx track is_read a d pm = Some pm1 \<and> synced pm1 \<and>
      cached_pages pm1 = bump_all track is_read ((+) (unat a div PM_PAGE_SIZE) ` bits d) (cached_pages pm)"
proof -
  let ?b = "unat a div PM_PAGE_SIZE"
  define x where "x = fst (FirstRange avx d)"
  define y where "y = snd (FirstRange avx d)"
  define z where "z = snd (LastRange avx d)"
  have b: "bits d \<subseteq> {x..<z}" "x < y" "{x..<y} \<subseteq> bits d" "z \<le> 1024"
    using region_bounds [OF d(2), of avx] d(1) by (simp_all add: x_def y_def z_def)
  note base = region_base_page [OF r]
  show ?thesis
  proof (cases "y = z")
    case True
    with b have bd: "bits d = {x..<y}" by auto
    note pg = contiguous_pages [OF r b(2), unfolded True, OF b(4)]
    have "UpdatePageWatchersForRegion avx track is_read a d pm =
        UpdatePageWatchers track is_read (a + push_bit 12 (of_nat x)) (push_bit 12 (of_nat (z - x))) pm"
      using True by (simp add: UpdatePageWatchersForRegion_def x_def y_def z_def Let_def)
    moreover have "\<forall>p\<in>pages_of (a + push_bit 12 (of_nat x)) (push_bit 12 (of_nat (z - x))).
        can_bump track is_read (cached_pages pm p)"
    proof
      fix p assume "p \<in> pages_of (a + push_bit 12 (of_nat x)) (push_bit 12 (of_nat (z - x)))"
      then obtain q where "q \<in> bits d" "p = ?b + q" using pg bd True by (auto simp only: image_iff)
      with c show "can_bump track is_read (cached_pages pm p)" by simp
    qed
    ultimately show ?thesis
      using UpdatePageWatchers_run [OF s, of "a + push_bit 12 (of_nat x)" "push_bit 12 (of_nat (z - x))"] pg bd True
      by simp
  next
    case False
    let ?r = "\<lparr>pr_perms = Perms (cached_pages pm (?b + x)), range_begin = 0, range_bytes = 0, potential_range_bytes = 0\<rparr>"
    have li: "loop_inv ?r pm (?b + x)" by (rule loop_inv_start [OF s]) simp
    have "x \<in> bits d" using b(2,3) by auto
    then have "bits d \<inter> {x..<z} = bits d" "x \<le> z" using b(1) by auto
    moreover have "\<forall>p\<in>bits d. can_bump track is_read (cached_pages pm (?b + p)) \<or> p < x" using c by blast
    ultimately obtain r1 pm1 where w: "watch_region track is_read d ?b [x..<z] (?r, pm) = Some (r1, pm1)"
      "loop_inv r1 pm1 (?b + z)" "cached_pages pm1 = bump_all track is_read ((+) ?b ` bits d) (cached_pages pm)"
      using watch_region_inv [OF li, of z d track is_read] base b(4) d(1) by auto
    obtain r2 pm2 where "release_pending r1 pm1 = Some (r2, pm2)" "synced pm2" "cached_pages pm2 = cached_pages pm1"
      using release_pending_synced [OF w(2)] by blast
    moreover have "?b + x < NUM_ADDRESS_PAGES" using base b d by auto
    ultimately show ?thesis
      using False w base
      by (simp add: UpdatePageWatchersForRegion_def x_def [symmetric] y_def [symmetric] z_def [symmetric] Let_def PAGES_PER_LOCK_def)
  qed
qed

text \<open>
  C11: changing the watchers of a set of pages of a region, not empty and however scattered, counts
  every one of them and no other page, and leaves the host with the protection that the counts ask for
  on every page of the guest, in either build.  The region begins at a multiple of 4 MB in the address
  space, every page had the protection its counts ask for before, and every page of the set can take the
  change: the counter stays within its seven bits and above zero, and the page does not become
  write-only, which the code asserts.
\<close>

theorem region_watching_exact:
  assumes "\<forall>p. page_perms pm p = Perms (cached_pages pm p)"
    and "unat a mod 4194304 = 0" "unat a + 4194304 \<le> 2 ^ 40" "length d = 16" "\<exists>p<1024. Bit_Get p d = Some True"
    and "\<forall>p<1024. Bit_Get p d = Some True \<longrightarrow> can_bump track is_read (cached_pages pm (unat a div 4096 + p))"
  shows "\<exists>pm1. UpdatePageWatchersForRegion avx track is_read a d pm = Some pm1 \<and>
      (\<forall>p. cached_pages pm1 p =
        (if unat a div 4096 \<le> p \<and> Bit_Get (p - unat a div 4096) d = Some True
         then bump track is_read (cached_pages pm p) else cached_pages pm p) \<and>
        page_perms pm1 p = Perms (cached_pages pm1 p))"
proof -
  have sz: "Bit_Size d = 1024" using assms(4) by (simp add: Bit_Size_def)
  have g: "Bit_Get p d = Some True \<longleftrightarrow> p \<in> bits d" for p
    using Bit_Get_bits [of p d] bits_bound [of p d] sz by (cases "p < 1024") (auto simp: Bit_Get_def Bit_Size_def)
  have "bits d \<noteq> {}" using assms(5) g by auto
  moreover have "\<forall>p\<in>bits d. can_bump track is_read (cached_pages pm (unat a div PM_PAGE_SIZE + p))"
    using assms(6) g bits_bound [of _ d] sz by (simp add: PM_PAGE_SIZE_def)
  moreover have "synced pm" "region_base a" using assms(1-3) by (simp_all add: synced_def region_base_def)
  ultimately obtain pm1 where pm1: "UpdatePageWatchersForRegion avx track is_read a d pm = Some pm1" "synced pm1"
    "cached_pages pm1 = bump_all track is_read ((+) (unat a div 4096) ` bits d) (cached_pages pm)"
    using UpdatePageWatchersForRegion_run [of pm a d track is_read avx] sz by (auto simp: PM_PAGE_SIZE_def)
  have "p \<in> (+) (unat a div 4096) ` bits d \<longleftrightarrow> unat a div 4096 \<le> p \<and> p - unat a div 4096 \<in> bits d" for p
    by (auto intro: image_eqI [of _ _ "p - unat a div 4096"])
  with pm1 show ?thesis by (simp add: bump_all_def synced_def g)
qed

definition unwatched :: PageManager where
  "unwatched = \<lparr>cached_pages = (\<lambda>_. \<lparr>num_write_watchers = 0, num_read_watchers = 0\<rparr>), page_perms = (\<lambda>_. Perm_Read OR Perm_Write)\<rparr>"

theorem region_watching_exact_witness:
  "\<exists>pm1. UpdatePageWatchersForRegion True True False 0x400000 (5 # replicate 15 0) unwatched = Some pm1 \<and>
     page_perms pm1 1024 = Perm_Read \<and> page_perms pm1 1025 = Perm_Read OR Perm_Write \<and> page_perms pm1 1026 = Perm_Read"
proof -
  let ?d = "5 # replicate 15 0 :: BitArray"
  have b: "Bit_Get 0 ?d = Some True" "Bit_Get 1 ?d = Some False" "Bit_Get 2 ?d = Some True" by code_simp+
  have u: "\<forall>p. page_perms unwatched p = Perms (cached_pages unwatched p)"
    by (simp add: unwatched_def Perms_def ReadPerm_def WritePerm_def)
  have c: "can_bump True False (cached_pages unwatched p)" for p
    by (simp add: unwatched_def can_bump_def watchers_def max_watchers_def bump_def Perms_def ReadPerm_def WritePerm_def perm_defs)
  have e: "\<exists>p<1024. Bit_Get p ?d = Some True" using b(1) by (intro exI [of _ 0]) simp
  have a: "unat (0x400000 :: u64) div 4096 = 1024" "unat (0x400000 :: u64) mod 4194304 = 0" "unat (0x400000 :: u64) + 4194304 \<le> 2 ^ 40"
    by simp_all
  note t = region_watching_exact [OF u a(2,3) _ e, of True False True, unfolded a(1)]
  obtain pm1 where pm1: "UpdatePageWatchersForRegion True True False 0x400000 ?d unwatched = Some pm1"
    "\<And>p. cached_pages pm1 p =
        (if 1024 \<le> p \<and> Bit_Get (p - 1024) ?d = Some True then bump True False (cached_pages unwatched p) else cached_pages unwatched p)"
    "\<And>p. page_perms pm1 p = Perms (cached_pages pm1 p)"
    using t c by auto
  have "Perms (bump True False (cached_pages unwatched p)) = Perm_Read" for p
    by (simp add: unwatched_def bump_def Perms_def ReadPerm_def WritePerm_def)
  moreover have "Perms (cached_pages unwatched 1025) = Perm_Read OR Perm_Write" using u by (simp add: unwatched_def)
  ultimately show ?thesis using pm1 b by auto
qed

end
