(* ===== verification/Region_Manager.thy ===== *)
theory Region_Manager
  imports Page_Manager
begin

section \<open>The region manager\<close>

text \<open>
  \<^verbatim>\<open>RegionManager\<close> of \<^verbatim>\<open>video_core/buffer_cache/region_manager.h\<close>: which of the 1024 pages of a region
  of 4 MB the CPU or the GPU has modified, and which of them are watched for it.  The locks are left
  out: every operation runs under the lock of its region.  \<open>None\<close> is a failed assertion of the page
  manager.  The callbacks of a loop over ranges are returned as the list of their arguments.
\<close>

datatype Modified_Type = Type_CPU | Type_GPU

datatype GpuReadbacksMode = Readbacks_Disabled | Readbacks_Relaxed | Readbacks_Precise

definition NUM_PAGES_PER_REGION :: nat where "NUM_PAGES_PER_REGION = 1024"
definition TRACKER_BYTES_PER_PAGE :: u64 where "TRACKER_BYTES_PER_PAGE = 4096"

record RegionManager =
  region_cpu_addr :: u64
  rm_cpu :: BitArray
  rm_gpu :: BitArray
  rm_writeable :: BitArray
  rm_readable :: BitArray

definition RegionBits_new :: BitArray where
  "RegionBits_new = replicate (NUM_PAGES_PER_REGION div 64) 0"

definition RegionManager_new :: "u64 \<Rightarrow> RegionManager" where
  "RegionManager_new a =
     \<lparr>region_cpu_addr = a, rm_cpu = Bit_Fill RegionBits_new, rm_gpu = Bit_Clear RegionBits_new,
      rm_writeable = Bit_Fill RegionBits_new, rm_readable = Bit_Fill RegionBits_new\<rparr>"

definition SetCpuAddress :: "u64 \<Rightarrow> RegionManager \<Rightarrow> RegionManager" where
  "SetCpuAddress a m = m\<lparr>region_cpu_addr := a\<rparr>"

definition SanitizeAddress :: "u64 \<Rightarrow> u64" where
  "SanitizeAddress address = (if 0 <s address then address else 0)"

definition GetRegionBits :: "Modified_Type \<Rightarrow> RegionManager \<Rightarrow> BitArray" where
  "GetRegionBits type m = (case type of Type_CPU \<Rightarrow> rm_cpu m | Type_GPU \<Rightarrow> rm_gpu m)"

definition SetRegionBits :: "Modified_Type \<Rightarrow> BitArray \<Rightarrow> RegionManager \<Rightarrow> RegionManager" where
  "SetRegionBits type d m = (case type of Type_CPU \<Rightarrow> m\<lparr>rm_cpu := d\<rparr> | Type_GPU \<Rightarrow> m\<lparr>rm_gpu := d\<rparr>)"

definition UpdateProtection ::
    "bool \<Rightarrow> bool \<Rightarrow> bool \<Rightarrow> RegionManager \<times> PageManager \<Rightarrow> (RegionManager \<times> PageManager) option" where
  "UpdateProtection avx track is_read = (\<lambda>(m, pm).
     let changed = (if is_read then Bit_xor (Bit_not (rm_gpu m)) (rm_readable m)
                    else Bit_xor (rm_cpu m) (rm_writeable m)) in
     if Bit_None changed then Some (m, pm)
     else do {
       let m = (if is_read then m\<lparr>rm_readable := Bit_not (rm_gpu m)\<rparr> else m\<lparr>rm_writeable := rm_cpu m\<rparr>);
       pm \<leftarrow> UpdatePageWatchersForRegion avx track is_read (region_cpu_addr m) changed pm;
       Some (m, pm)
     })"

text \<open>The pages of a byte range, relative to the region.\<close>

definition start_page_of :: "u64 \<Rightarrow> nat" where
  "start_page_of offset = unat (SanitizeAddress offset div TRACKER_BYTES_PER_PAGE)"

definition end_page_of :: "u64 \<Rightarrow> u64 \<Rightarrow> nat" where
  "end_page_of offset sz = unat (DivCeil (SanitizeAddress (offset + sz)) TRACKER_BYTES_PER_PAGE)"

definition ChangeRegionState ::
    "bool \<Rightarrow> GpuReadbacksMode \<Rightarrow> Modified_Type \<Rightarrow> bool \<Rightarrow> u64 \<Rightarrow> u64 \<Rightarrow>
     RegionManager \<times> PageManager \<Rightarrow> (RegionManager \<times> PageManager) option" where
  "ChangeRegionState avx mode type enable dirty_addr sz = (\<lambda>(m, pm).
     let offset = dirty_addr - region_cpu_addr m;
         start_page = start_page_of offset;
         end_page = end_page_of offset sz
     in if start_page \<ge> NUM_PAGES_PER_REGION \<or> end_page \<le> start_page then Some (m, pm)
        else
          let m = SetRegionBits type
                (if enable then SetRange avx start_page end_page (GetRegionBits type m)
                 else UnsetRange avx start_page end_page (GetRegionBits type m)) m
          in if type = Type_CPU then UpdateProtection avx (\<not> enable) False (m, pm)
             else if mode = Readbacks_Precise then UpdateProtection avx enable True (m, pm)
             else Some (m, pm))"

definition ForEachModifiedRange ::
    "bool \<Rightarrow> GpuReadbacksMode \<Rightarrow> Modified_Type \<Rightarrow> bool \<Rightarrow> u64 \<Rightarrow> u64 \<Rightarrow>
     RegionManager \<times> PageManager \<Rightarrow> ((u64 \<times> u64) list \<times> RegionManager \<times> PageManager) option" where
  "ForEachModifiedRange avx mode type clear query_cpu_range sz = (\<lambda>(m, pm).
     let offset = query_cpu_range - region_cpu_addr m;
         start_page = start_page_of offset;
         end_page = end_page_of offset sz
     in if start_page \<ge> NUM_PAGES_PER_REGION \<or> end_page \<le> start_page then Some ([], m, pm)
        else do {
          let modified = Bit_Copy avx (GetRegionBits type m) start_page end_page;
          (m, pm) \<leftarrow>
            (if clear then
               let m = SetRegionBits type (UnsetRange avx start_page end_page (GetRegionBits type m)) m
               in if type = Type_CPU then UpdateProtection avx True False (m, pm)
                  else if mode \<noteq> Readbacks_Disabled then UpdateProtection avx False True (m, pm)
                  else Some (m, pm)
             else Some (m, pm));
          Some (map (\<lambda>(start, fin). (region_cpu_addr m + of_nat start * TRACKER_BYTES_PER_PAGE,
                                     of_nat (fin - start) * TRACKER_BYTES_PER_PAGE))
                    (Bit_ranges avx modified), m, pm)
        })"

definition IsRegionModified :: "bool \<Rightarrow> Modified_Type \<Rightarrow> u64 \<Rightarrow> u64 \<Rightarrow> RegionManager \<Rightarrow> bool" where
  "IsRegionModified avx type offset sz m =
     (let start_page = start_page_of offset;
          end_page = end_page_of offset sz
      in if start_page \<ge> NUM_PAGES_PER_REGION \<or> end_page \<le> start_page then False
         else Bit_Any (Bit_Copy avx (GetRegionBits type m) start_page end_page))"

subsection \<open>The counts of the pages\<close>

text \<open>
  What the counts have to be: a page is watched for writes by the tracker when it is clean (known to
  the GPU as the CPU left it), and by \<open>others\<close> parties besides (images of the texture cache); it is
  watched for reads when it is in \<open>R\<close>.  No page is write-only.
\<close>

definition counts_ok :: "(nat \<Rightarrow> nat) \<Rightarrow> nat set \<Rightarrow> nat set \<Rightarrow> PageManager \<Rightarrow> bool" where
  "counts_ok others W R pm \<longleftrightarrow>
     synced pm \<and>
     (\<forall>p. watchers False (cached_pages pm p) = others p + (if p \<in> W then 1 else 0) \<and> others p \<le> 126 \<and>
          watchers True (cached_pages pm p) = (if p \<in> R then 1 else 0) \<and>
          (p \<in> R \<longrightarrow> p \<in> W \<or> 0 < others p))"

lemma watchers_bump:
  "can_bump track r p \<Longrightarrow>
   watchers r (bump track r p) = (if track then watchers r p + 1 else watchers r p - 1) \<and>
   watchers (\<not> r) (bump track r p) = watchers (\<not> r) p"
  using AddDelta_bump [of track r p] by (cases r) (auto simp: bump_def watchers_def)

lemma Perms_watchers:
  "Perms p = (if watchers True p = 0 then Perm_Read else 0) OR (if watchers False p = 0 then Perm_Write else 0)"
  by (simp add: Perms_def ReadPerm_def WritePerm_def watchers_def unat_eq_0)

lemma Perms_not_write: "Perms p \<noteq> Perm_Write \<longleftrightarrow> watchers True p = 0 \<or> watchers False p \<noteq> 0"
  by (simp add: Perms_watchers perm_defs)

text \<open>When the pages of a set may gain or lose a watcher, and what the counts are afterwards.\<close>

lemma bump_word: "unat ((n :: 'w::len word) - 1) = unat n - 1" if "0 < unat n" for n
  using that by (intro word_dec) (simp add: word_less_nat_alt)

lemma counts_bump:
  assumes c: "counts_ok others W R pm"
    and M: "\<And>p. p \<in> M \<Longrightarrow>
      (if r then (if track then p \<notin> R \<and> (p \<in> W \<or> 0 < others p) else p \<in> R)
       else (if track then p \<notin> W else p \<in> W \<and> (p \<in> R \<longrightarrow> 0 < others p)))"
    and p: "p \<in> M"
  shows "can_bump track r (cached_pages pm p)"
proof -
  let ?s = "cached_pages pm p"
  have w: "watchers False ?s = others p + (if p \<in> W then 1 else 0)" "others p \<le> 126"
    "watchers True ?s = (if p \<in> R then 1 else 0)" "p \<in> R \<longrightarrow> p \<in> W \<or> 0 < others p"
    using c by (simp_all add: counts_ok_def)
  have lim: "if track then watchers r ?s < max_watchers r else 0 < watchers r ?s"
    using w M [OF p] by (cases r; cases track) (auto simp: max_watchers_def)
  have "watchers r (bump track r ?s) = (if track then watchers r ?s + 1 else watchers r ?s - 1)"
    using lim by (cases r; cases track) (simp_all add: bump_def watchers_def max_watchers_def word_inc bump_word)
  moreover have "watchers (\<not> r) (bump track r ?s) = watchers (\<not> r) ?s"
    by (cases r) (simp_all add: bump_def watchers_def)
  ultimately have "Perms (bump track r ?s) \<noteq> Perm_Write"
    using w M [OF p] by (cases r; cases track) (auto simp: Perms_not_write)
  with lim show ?thesis by (simp add: can_bump_def)
qed

lemma counts_bumped:
  assumes c: "counts_ok others W R pm"
    and M: "\<And>p. p \<in> M \<Longrightarrow>
      (if r then (if track then p \<notin> R \<and> (p \<in> W \<or> 0 < others p) else p \<in> R)
       else (if track then p \<notin> W else p \<in> W \<and> (p \<in> R \<longrightarrow> 0 < others p)))"
    and s: "synced pm1" and b: "cached_pages pm1 = bump_all track r M (cached_pages pm)"
  shows "counts_ok others (if r then W else if track then W \<union> M else W - M)
           (if r then (if track then R \<union> M else R - M) else R) pm1"
proof -
  have "watchers r (cached_pages pm1 p) =
        (if p \<in> M then (if track then watchers r (cached_pages pm p) + 1 else watchers r (cached_pages pm p) - 1)
         else watchers r (cached_pages pm p)) \<and>
      watchers (\<not> r) (cached_pages pm1 p) = watchers (\<not> r) (cached_pages pm p)" for p
    using watchers_bump [OF counts_bump [OF c M]] by (auto simp: b bump_all_def)
  then show ?thesis
    using c s M unfolding counts_ok_def by (cases r; cases track) (auto split: if_splits)
qed

subsection \<open>A region and the counts of its pages\<close>

text \<open>Region \<open>i\<close> starts at page \<open>region_page i\<close>; \<open>in_region i S\<close> are the pages \<open>S\<close> of the region in guest memory.\<close>

definition region_page :: "nat \<Rightarrow> nat" where
  "region_page i = i * 1024"

abbreviation in_region :: "nat \<Rightarrow> nat set \<Rightarrow> nat set" where
  "in_region i S \<equiv> (+) (region_page i) ` S"

definition region_ok :: "GpuReadbacksMode \<Rightarrow> nat \<Rightarrow> nat set \<Rightarrow> nat set \<Rightarrow> RegionManager \<Rightarrow> bool" where
  "region_ok mode i W R m \<longleftrightarrow>
     i < 262144 \<and> region_cpu_addr m = of_nat (i * 4194304) \<and>
     length (rm_cpu m) = 16 \<and> length (rm_gpu m) = 16 \<and> length (rm_writeable m) = 16 \<and> length (rm_readable m) = 16 \<and>
     bits (rm_writeable m) = bits (rm_cpu m) \<and>
     bits (rm_readable m) = {..<1024} - (if mode = Readbacks_Precise then bits (rm_gpu m) else {}) \<and>
     (\<forall>k<1024. (region_page i + k \<in> W \<longleftrightarrow> k \<notin> bits (rm_cpu m)) \<and>
               (region_page i + k \<in> R \<longleftrightarrow> mode = Readbacks_Precise \<and> k \<in> bits (rm_gpu m)))"

lemma region_base_index:
  assumes "i < 262144"
  shows "region_base (of_nat (i * 4194304)) \<and> unat (of_nat (i * 4194304) :: u64) div PM_PAGE_SIZE = region_page i"
proof -
  define a :: u64 where "a = of_nat (i * 4194304)"
  have "unat a = i * 4194304" unfolding a_def unsigned_of_nat using assms by (simp add: take_bit_nat_eq_self)
  then have "region_base a \<and> unat a div PM_PAGE_SIZE = region_page i"
    using assms by (simp add: region_base_def region_page_def PM_PAGE_SIZE_def)
  then show ?thesis unfolding a_def .
qed

lemma bits_region: "length d = 16 \<Longrightarrow> bits d \<subseteq> {..<1024}"
  using bits_bound [of _ d] by (auto simp: Bit_Size_def)

lemma in_region_iff: "p \<in> in_region i S \<longleftrightarrow> (\<exists>k\<in>S. p = region_page i + k)"
  by auto

text \<open>\<open>UpdateProtection\<close> with the set of pages whose watching changes.\<close>

lemma UpdateProtection_run:
  assumes i: "i < 262144" "region_cpu_addr m = of_nat (i * 4194304)"
    and l: "length (rm_cpu m) = 16" "length (rm_gpu m) = 16" "length (rm_writeable m) = 16" "length (rm_readable m) = 16"
    and C: "C = (if r then bits (Bit_xor (Bit_not (rm_gpu m)) (rm_readable m)) else bits (Bit_xor (rm_cpu m) (rm_writeable m)))"
    and c: "counts_ok others W R pm"
    and M: "\<And>p. p \<in> in_region i C \<Longrightarrow>
      (if r then (if track then p \<notin> R \<and> (p \<in> W \<or> 0 < others p) else p \<in> R)
       else (if track then p \<notin> W else p \<in> W \<and> (p \<in> R \<longrightarrow> 0 < others p)))"
  shows "\<exists>m1 pm1. UpdateProtection avx track r (m, pm) = Some (m1, pm1) \<and>
      region_cpu_addr m1 = region_cpu_addr m \<and> rm_cpu m1 = rm_cpu m \<and> rm_gpu m1 = rm_gpu m \<and>
      length (rm_writeable m1) = 16 \<and> length (rm_readable m1) = 16 \<and>
      bits (rm_writeable m1) = bits (if r then rm_writeable m else rm_cpu m) \<and>
      bits (rm_readable m1) = bits (if r then Bit_not (rm_gpu m) else rm_readable m) \<and>
      counts_ok others (if r then W else if track then W \<union> in_region i C else W - in_region i C)
        (if r then (if track then R \<union> in_region i C else R - in_region i C) else R) pm1"
proof -
  define d where "d = (if r then Bit_xor (Bit_not (rm_gpu m)) (rm_readable m) else Bit_xor (rm_cpu m) (rm_writeable m))"
  have d: "bits d = C" "Bit_Size d = 1024"
    using l C by (auto simp: d_def Bit_Size_def Bit_xor_def Bit_not_def)
  show ?thesis
  proof (cases "C = {}")
    case True
    then have "Bit_None d" using d by (simp add: Bit_None_bits)
    then have "UpdateProtection avx track r (m, pm) = Some (m, pm)"
      unfolding UpdateProtection_def prod.case Let_def d_def [symmetric] by simp
    moreover have "bits (rm_writeable m) = bits (if r then rm_writeable m else rm_cpu m)"
      "bits (rm_readable m) = bits (if r then Bit_not (rm_gpu m) else rm_readable m)"
      using True C l by (auto simp: Bit_xor_bits)
    ultimately show ?thesis using True l c by auto
  next
    case False
    define m1 where "m1 = (if r then m\<lparr>rm_readable := Bit_not (rm_gpu m)\<rparr> else m\<lparr>rm_writeable := rm_cpu m\<rparr>)"
    note base = region_base_index [OF i(1)]
    have a: "region_cpu_addr m1 = of_nat (i * 4194304)" using i(2) by (simp add: m1_def)
    have can: "\<forall>p\<in>bits d. can_bump track r (cached_pages pm (unat (of_nat (i * 4194304) :: u64) div PM_PAGE_SIZE + p))"
      using counts_bump [OF c M] d(1) base by auto
    have sy: "synced pm" using c by (simp add: counts_ok_def)
    obtain pm1 where pm1: "UpdatePageWatchersForRegion avx track r (of_nat (i * 4194304)) d pm = Some pm1" "synced pm1"
      "cached_pages pm1 = bump_all track r (in_region i C) (cached_pages pm)"
      using UpdatePageWatchersForRegion_run [OF sy _ d(2) _ can] False d(1) base by auto
    have "\<not> Bit_None d" using False d by (simp add: Bit_None_bits)
    then have "UpdateProtection avx track r (m, pm) = Some (m1, pm1)"
      using pm1(1) a unfolding UpdateProtection_def prod.case Let_def d_def [symmetric] m1_def [symmetric] by simp
    then show ?thesis
      using counts_bumped [OF c M pm1(2,3)] l by (auto simp: m1_def)
  qed
qed

subsection \<open>What the operations do to a region\<close>

text \<open>A byte range inside a region.\<close>

definition inside :: "u64 \<Rightarrow> u64 \<Rightarrow> bool" where
  "inside offset sz \<longleftrightarrow> 0 < sz \<and> unat offset + unat sz \<le> 4194304"

lemma SanitizeAddress_small: "unat a \<le> 4194304 \<Longrightarrow> SanitizeAddress a = a"
proof -
  assume a: "unat a \<le> 4194304"
  have "uint a \<le> 4194304" using a by (metis of_nat_le_iff of_nat_numeral of_nat_unat)
  then have "sint a = int (unat a)"
    by (simp add: sint_uint signed_take_bit_int_eq_self_iff order_trans [OF _ uint_ge_0])
  then have "0 <s a \<longleftrightarrow> a \<noteq> 0"
    using uint_0_iff [of a] by (auto simp: word_sless_alt less_le)
  then show ?thesis by (simp add: SanitizeAddress_def)
qed

lemma inside_pages:
  assumes "inside offset sz"
  shows "start_page_of offset < NUM_PAGES_PER_REGION \<and> start_page_of offset < end_page_of offset sz \<and>
         end_page_of offset sz \<le> 1024 \<and> {start_page_of offset..<end_page_of offset sz} = pages_of offset sz"
proof -
  have sz: "0 < unat sz" "unat offset + unat sz \<le> 4194304" using assms by (simp_all add: inside_def word_less_nat_alt)
  then have sum: "unat (offset + sz) = unat offset + unat sz" by (intro unat_add64) simp
  have s: "start_page_of offset = unat offset div 4096"
    using sz SanitizeAddress_small [of offset] by (simp add: start_page_of_def TRACKER_BYTES_PER_PAGE_def unat_div)
  have e: "end_page_of offset sz = (unat offset + unat sz + 4095) div 4096"
    using sz sum SanitizeAddress_small [of "offset + sz"] DivCeil_unat [of offset sz]
    by (simp add: end_page_of_def TRACKER_BYTES_PER_PAGE_def)
  have "unat offset div 4096 < (unat offset + unat sz + 4095) div 4096"
  proof -
    have "unat offset + 4096 \<le> unat offset + unat sz + 4095" using sz(1) by simp
    from div_le_mono [OF this, of 4096] show ?thesis by simp
  qed
  moreover have "(unat offset + unat sz + 4095) div 4096 \<le> 1024" using sz(2) by simp
  ultimately show ?thesis
    unfolding s e by (simp add: NUM_PAGES_PER_REGION_def pages_of_def PM_PAGE_SIZE_def add.commute)
qed

lemma inside_pages_sub: "inside offset sz \<Longrightarrow> pages_of offset sz \<subseteq> {..<1024}"
  by (drule inside_pages) (metis atLeastLessThan_iff lessThan_iff order_less_le_trans subsetI)

text \<open>Marking pages as modified by the CPU, or no longer so.\<close>

lemma ChangeRegionState_CPU:
  assumes r: "region_ok mode i W R m" and c: "counts_ok others W R pm" and off: "inside offset sz"
    and e: "enable \<Longrightarrow> \<forall>p\<in>in_region i (pages_of offset sz). p \<in> R \<longrightarrow> 0 < others p"
  defines "W1 \<equiv> (if enable then W - in_region i (pages_of offset sz) else W \<union> in_region i (pages_of offset sz))"
  shows "\<exists>m1 pm1. ChangeRegionState avx mode Type_CPU enable (region_cpu_addr m + offset) sz (m, pm) = Some (m1, pm1) \<and>
      region_ok mode i W1 R m1 \<and> counts_ok others W1 R pm1 \<and> rm_gpu m1 = rm_gpu m \<and>
      bits (rm_cpu m1) = (if enable then bits (rm_cpu m) \<union> pages_of offset sz else bits (rm_cpu m) - pages_of offset sz)"
proof -
  let ?S = "pages_of offset sz"
  note pg = inside_pages [OF off]
  define d where "d = (if enable then SetRange avx (start_page_of offset) (end_page_of offset sz) (rm_cpu m)
                       else UnsetRange avx (start_page_of offset) (end_page_of offset sz) (rm_cpu m))"
  define m0 where "m0 = m\<lparr>rm_cpu := d\<rparr>"
  have ro: "i < 262144" "region_cpu_addr m = of_nat (i * 4194304)" "length (rm_cpu m) = 16" "length (rm_gpu m) = 16"
    "length (rm_writeable m) = 16" "length (rm_readable m) = 16" "bits (rm_writeable m) = bits (rm_cpu m)"
    "\<And>k. k < 1024 \<Longrightarrow> region_page i + k \<in> W \<longleftrightarrow> k \<notin> bits (rm_cpu m)"
    using r by (simp_all add: region_ok_def)
  have d: "bits d = (if enable then bits (rm_cpu m) \<union> ?S else bits (rm_cpu m) - ?S)" "length d = 16"
    using pg ro(3) by (auto simp: d_def SetRange_bits UnsetRange_bits Bit_Size_def)
  have S: "?S \<subseteq> {..<1024}" using inside_pages_sub [OF off] .
  define C where "C = (if enable then ?S - bits (rm_cpu m) else ?S \<inter> bits (rm_cpu m))"
  have C: "C = bits (Bit_xor (rm_cpu m0) (rm_writeable m0))"
    using d ro by (auto simp: m0_def C_def Bit_xor_bits)
  have "p \<in> in_region i C \<Longrightarrow> (if \<not> enable then p \<notin> W else p \<in> W \<and> (p \<in> R \<longrightarrow> 0 < others p))" for p
    using ro(8) S e by (cases enable) (auto simp: C_def)
  then obtain m1 pm1 where u: "UpdateProtection avx (\<not> enable) False (m0, pm) = Some (m1, pm1)"
    "region_cpu_addr m1 = region_cpu_addr m0" "rm_cpu m1 = rm_cpu m0" "rm_gpu m1 = rm_gpu m0"
    "length (rm_writeable m1) = 16" "length (rm_readable m1) = 16"
    "bits (rm_writeable m1) = bits (rm_cpu m0)" "bits (rm_readable m1) = bits (rm_readable m0)"
    "counts_ok others (if \<not> enable then W \<union> in_region i C else W - in_region i C) R pm1"
    using UpdateProtection_run [of i m0 C False others W R pm "\<not> enable" avx] ro d(2) C c by (auto simp: m0_def)
  have W1: "(if \<not> enable then W \<union> in_region i C else W - in_region i C) = W1"
    using ro(8) S by (auto simp: W1_def C_def in_region_iff)
  have "ChangeRegionState avx mode Type_CPU enable (region_cpu_addr m + offset) sz (m, pm) = Some (m1, pm1)"
    using pg u(1) unfolding m0_def d_def
    by (cases enable) (simp_all add: ChangeRegionState_def SetRegionBits_def GetRegionBits_def Let_def not_le)
  moreover have "region_ok mode i W1 R m1"
    using r u(2-8) d S by (auto simp: region_ok_def m0_def W1_def in_region_iff)
  ultimately show ?thesis using u(3,4,9) d(1) unfolding W1 m0_def by auto
qed

text \<open>The same for the GPU; without precise readbacks nobody watches for reads.\<close>

lemma ChangeRegionState_GPU:
  assumes r: "region_ok mode i W R m" and c: "counts_ok others W R pm" and off: "inside offset sz"
    and e: "enable \<Longrightarrow> mode = Readbacks_Precise \<Longrightarrow> \<forall>p\<in>in_region i (pages_of offset sz). p \<in> W \<or> 0 < others p"
  defines "R1 \<equiv> (if mode \<noteq> Readbacks_Precise then R
                 else if enable then R \<union> in_region i (pages_of offset sz) else R - in_region i (pages_of offset sz))"
  shows "\<exists>m1 pm1. ChangeRegionState avx mode Type_GPU enable (region_cpu_addr m + offset) sz (m, pm) = Some (m1, pm1) \<and>
      region_ok mode i W R1 m1 \<and> counts_ok others W R1 pm1 \<and> rm_cpu m1 = rm_cpu m \<and>
      bits (rm_gpu m1) = (if enable then bits (rm_gpu m) \<union> pages_of offset sz else bits (rm_gpu m) - pages_of offset sz)"
proof -
  let ?S = "pages_of offset sz"
  note pg = inside_pages [OF off]
  define d where "d = (if enable then SetRange avx (start_page_of offset) (end_page_of offset sz) (rm_gpu m)
                       else UnsetRange avx (start_page_of offset) (end_page_of offset sz) (rm_gpu m))"
  define m0 where "m0 = m\<lparr>rm_gpu := d\<rparr>"
  have ro: "i < 262144" "region_cpu_addr m = of_nat (i * 4194304)" "length (rm_cpu m) = 16" "length (rm_gpu m) = 16"
    "length (rm_writeable m) = 16" "length (rm_readable m) = 16"
    "bits (rm_readable m) = {..<1024} - (if mode = Readbacks_Precise then bits (rm_gpu m) else {})"
    "\<And>k. k < 1024 \<Longrightarrow> region_page i + k \<in> R \<longleftrightarrow> mode = Readbacks_Precise \<and> k \<in> bits (rm_gpu m)"
    using r by (simp_all add: region_ok_def)
  have d: "bits d = (if enable then bits (rm_gpu m) \<union> ?S else bits (rm_gpu m) - ?S)" "length d = 16"
    using pg ro(4) by (auto simp: d_def SetRange_bits UnsetRange_bits Bit_Size_def)
  have S: "?S \<subseteq> {..<1024}" using inside_pages_sub [OF off] .
  have call: "ChangeRegionState avx mode Type_GPU enable (region_cpu_addr m + offset) sz (m, pm) =
      (if mode = Readbacks_Precise then UpdateProtection avx enable True (m0, pm) else Some (m0, pm))"
    using pg unfolding m0_def d_def
    by (cases enable) (simp_all add: ChangeRegionState_def SetRegionBits_def GetRegionBits_def Let_def not_le)
  show ?thesis
  proof (cases "mode = Readbacks_Precise")
    case False
    then have "region_ok mode i W R m0" using r d(2) by (auto simp: region_ok_def m0_def)
    then show ?thesis using call False c d(1) by (auto simp: R1_def m0_def)
  next
    case True
    define C where "C = (if enable then ?S - bits (rm_gpu m) else ?S \<inter> bits (rm_gpu m))"
    have C: "C = bits (Bit_xor (Bit_not (rm_gpu m0)) (rm_readable m0))"
      using d ro(4,6,7) S bits_region [OF ro(4)] True
      by (auto simp: m0_def C_def Bit_xor_bits Bit_not_bits Bit_Size_def)
    have "p \<in> in_region i C \<Longrightarrow> (if enable then p \<notin> R \<and> (p \<in> W \<or> 0 < others p) else p \<in> R)" for p
      using ro(8) S e True by (cases enable) (auto simp: C_def)
    then obtain m1 pm1 where u: "UpdateProtection avx enable True (m0, pm) = Some (m1, pm1)"
      "region_cpu_addr m1 = region_cpu_addr m0" "rm_cpu m1 = rm_cpu m0" "rm_gpu m1 = rm_gpu m0"
      "length (rm_writeable m1) = 16" "length (rm_readable m1) = 16"
      "bits (rm_writeable m1) = bits (rm_writeable m0)" "bits (rm_readable m1) = bits (Bit_not (rm_gpu m0))"
      "counts_ok others W (if enable then R \<union> in_region i C else R - in_region i C) pm1"
      using UpdateProtection_run [of i m0 C True others W R pm enable avx] ro d(2) C c by (auto simp: m0_def)
    have R1: "(if enable then R \<union> in_region i C else R - in_region i C) = R1"
      using ro(8) S True by (auto simp: R1_def C_def in_region_iff)
    have "region_ok mode i W R1 m1"
      using r u(2-8) d S True by (auto simp: region_ok_def m0_def R1_def in_region_iff Bit_not_bits Bit_Size_def)
    then show ?thesis using call True u(1,3,4,9) d(1) unfolding R1 m0_def by auto
  qed
qed

text \<open>The byte ranges handed to a callback, and the pages they cover.\<close>

definition byte_ranges :: "u64 \<Rightarrow> Range list \<Rightarrow> (u64 \<times> u64) list" where
  "byte_ranges a rs = map (\<lambda>(start, fin). (a + of_nat start * TRACKER_BYTES_PER_PAGE,
                                        of_nat (fin - start) * TRACKER_BYTES_PER_PAGE)) rs"

definition pages_of_ranges :: "(u64 \<times> u64) list \<Rightarrow> nat set" where
  "pages_of_ranges rs = (\<Union>(a, sz)\<in>set rs. pages_of a sz)"

lemma pages_of_ranges_simps [simp]:
  "pages_of_ranges [] = {}" "pages_of_ranges (rs @ ss) = pages_of_ranges rs \<union> pages_of_ranges ss"
  by (auto simp: pages_of_ranges_def)

lemma byte_ranges_pages:
  assumes i: "i < 262144" and rs: "\<forall>(x, y)\<in>set rs. x < y \<and> y \<le> 1024"
  shows "pages_of_ranges (byte_ranges (of_nat (i * 4194304)) rs) = in_region i (range_set rs)"
proof -
  define a :: u64 where "a = of_nat (i * 4194304)"
  have base: "region_base a" "unat a div PM_PAGE_SIZE = region_page i"
    using region_base_index [OF i] by (simp_all only: a_def)
  have one: "pages_of (a + of_nat x * TRACKER_BYTES_PER_PAGE) (of_nat (y - x) * TRACKER_BYTES_PER_PAGE) = in_region i {x..<y}"
    if "(x, y) \<in> set rs" for x y
  proof -
    have "x < y" "y \<le> 1024" using rs that by auto
    from contiguous_pages [OF base(1) this] base(2) show ?thesis
      by (simp add: push_bit_eq_mult TRACKER_BYTES_PER_PAGE_def mult.commute)
  qed
  have "pages_of_ranges (byte_ranges a rs) =
      (\<Union>r\<in>set rs. pages_of (a + of_nat (fst r) * TRACKER_BYTES_PER_PAGE) (of_nat (snd r - fst r) * TRACKER_BYTES_PER_PAGE))"
    by (simp add: pages_of_ranges_def byte_ranges_def split_def)
  also have "\<dots> = (\<Union>r\<in>set rs. in_region i {fst r..<snd r})"
    by (rule SUP_cong [OF refl]) (use one in \<open>metis prod.collapse\<close>)
  also have "\<dots> = in_region i (range_set rs)"
    by (simp add: range_set_def split_def image_UN)
  finally show ?thesis unfolding a_def .
qed

lemma run_bounds: "maximal_runs S rs \<Longrightarrow> S \<subseteq> {..<1024} \<Longrightarrow> \<forall>(x, y)\<in>set rs. x < y \<and> y \<le> 1024"
proof clarify
  fix x y assume m: "maximal_runs S rs" and S: "S \<subseteq> {..<1024}" and r: "(x, y) \<in> set rs"
  then have "x < y" by (auto simp: maximal_runs_def)
  with m r have "y - 1 \<in> S" by (auto simp: maximal_runs_def range_set_def)
  with S \<open>x < y\<close> show "x < y \<and> y \<le> 1024" by auto
qed

lemma modified_ranges:
  assumes i: "i < 262144" and d: "length d = 16" and off: "inside offset sz"
  shows "pages_of_ranges (byte_ranges (of_nat (i * 4194304))
           (Bit_ranges avx (Bit_Copy avx d (start_page_of offset) (end_page_of offset sz)))) =
         in_region i (bits d \<inter> pages_of offset sz)"
proof -
  let ?c = "Bit_Copy avx d (start_page_of offset) (end_page_of offset sz)"
  have b: "bits ?c = bits d \<inter> pages_of offset sz"
    using inside_pages [OF off] d by (simp add: Bit_Copy_bits Bit_Size_def)
  have m: "maximal_runs (bits ?c) (Bit_ranges avx ?c)" by (rule Bit_ranges_runs)
  with run_bounds [OF m] bits_region [OF d] b
  have "\<forall>(x, y)\<in>set (Bit_ranges avx ?c). x < y \<and> y \<le> 1024" by blast
  from byte_ranges_pages [OF i this] m b show ?thesis by (simp add: maximal_runs_def)
qed

lemma IsRegionModified_iff:
  assumes "inside offset sz" "length (GetRegionBits type m) = 16"
  shows "IsRegionModified avx type offset sz m \<longleftrightarrow> bits (GetRegionBits type m) \<inter> pages_of offset sz \<noteq> {}"
  using inside_pages [OF assms(1)] assms(2)
  by (simp add: IsRegionModified_def Bit_Any_def Bit_None_bits Bit_Copy_bits Bit_Size_def not_le Let_def)

text \<open>Uploading a range: the dirty pages are reported and become clean.\<close>

lemma ForEachModifiedRange_CPU:
  "ForEachModifiedRange avx mode Type_CPU True a sz (m, pm) =
     map_option (\<lambda>(m1, pm1).
       (if start_page_of (a - region_cpu_addr m) \<ge> NUM_PAGES_PER_REGION \<or>
           end_page_of (a - region_cpu_addr m) sz \<le> start_page_of (a - region_cpu_addr m) then []
        else byte_ranges (region_cpu_addr m1)
               (Bit_ranges avx (Bit_Copy avx (rm_cpu m) (start_page_of (a - region_cpu_addr m)) (end_page_of (a - region_cpu_addr m) sz))),
        m1, pm1))
     (ChangeRegionState avx mode Type_CPU False a sz (m, pm))"
  by (simp add: ForEachModifiedRange_def ChangeRegionState_def byte_ranges_def GetRegionBits_def map_option_case
      Let_def split: option.split)

lemma upload_region:
  assumes r: "region_ok mode i W R m" and c: "counts_ok others W R pm" and off: "inside offset sz"
  shows "\<exists>out m1 pm1. ForEachModifiedRange avx mode Type_CPU True (region_cpu_addr m + offset) sz (m, pm) = Some (out, m1, pm1) \<and>
      pages_of_ranges out = in_region i (pages_of offset sz) - W \<and>
      region_ok mode i (W \<union> in_region i (pages_of offset sz)) R m1 \<and>
      counts_ok others (W \<union> in_region i (pages_of offset sz)) R pm1"
proof -
  obtain m1 pm1 where m1: "ChangeRegionState avx mode Type_CPU False (region_cpu_addr m + offset) sz (m, pm) = Some (m1, pm1)"
    "region_ok mode i (W \<union> in_region i (pages_of offset sz)) R m1"
    "counts_ok others (W \<union> in_region i (pages_of offset sz)) R pm1"
    using ChangeRegionState_CPU [OF r c off, of False avx] by auto
  have ro: "i < 262144" "length (rm_cpu m) = 16" "region_cpu_addr m1 = of_nat (i * 4194304)"
    "\<And>k. k < 1024 \<Longrightarrow> region_page i + k \<in> W \<longleftrightarrow> k \<notin> bits (rm_cpu m)"
    using r m1(2) by (simp_all add: region_ok_def)
  have "in_region i (bits (rm_cpu m) \<inter> pages_of offset sz) = in_region i (pages_of offset sz) - W"
    using ro(4) inside_pages_sub [OF off] by (auto simp: in_region_iff)
  then show ?thesis
    using m1 inside_pages [OF off] modified_ranges [OF ro(1,2) off, of avx] ro(3)
    by (simp add: ForEachModifiedRange_CPU not_le)
qed

text \<open>Downloading a range without clearing it: the pages the GPU has modified are reported.\<close>

lemma download_region:
  assumes i: "i < 262144" "region_cpu_addr m = of_nat (i * 4194304)" "length (rm_gpu m) = 16" and off: "inside offset sz"
  shows "\<exists>out. ForEachModifiedRange avx mode Type_GPU False (region_cpu_addr m + offset) sz (m, pm) = Some (out, m, pm) \<and>
      pages_of_ranges out = in_region i (bits (rm_gpu m) \<inter> pages_of offset sz)"
  using inside_pages [OF off] modified_ranges [OF i(1,3) off, of avx] i(2)
  by (simp add: ForEachModifiedRange_def GetRegionBits_def byte_ranges_def not_le Let_def)

end
