(* ===== verification/Memory_Tracker.thy ===== *)
theory Memory_Tracker
  imports Region_Manager
begin

section \<open>The memory tracker\<close>

text \<open>
  \<^verbatim>\<open>MemoryTracker\<close> of \<^verbatim>\<open>video_core/buffer_cache/memory_tracker.h\<close>: the regions of the guest address space,
  made on demand, and the operations of the buffer cache over byte ranges that may span regions.
  \<open>page_manager\<close> is the object behind the pointer \<^verbatim>\<open>tracker\<close>.  An operation runs alone: it holds the locks
  of its regions.  Leaving the table of regions or failing an assertion is \<open>None\<close>.
\<close>

subsection \<open>The code\<close>

definition TRACKER_HIGHER_PAGE_SIZE :: nat where "TRACKER_HIGHER_PAGE_SIZE = 4194304"
definition NUM_HIGH_PAGES :: nat where "NUM_HIGH_PAGES = 262144"
definition MANAGER_POOL_SIZE :: nat where "MANAGER_POOL_SIZE = 32"

record MemoryTracker =
  top_tier :: "nat \<Rightarrow> RegionManager option"
  free_managers :: "RegionManager list"
  page_manager :: PageManager

definition CreateRegion :: "nat \<Rightarrow> MemoryTracker \<Rightarrow> MemoryTracker" where
  "CreateRegion page_index t =
     (let base_cpu_addr = of_nat (page_index * TRACKER_HIGHER_PAGE_SIZE);
          free = (if free_managers t = [] then replicate MANAGER_POOL_SIZE (RegionManager_new 0) else free_managers t);
          new_manager = SetCpuAddress base_cpu_addr (last free)
      in t\<lparr>free_managers := butlast free, top_tier := (top_tier t)(page_index \<mapsto> new_manager)\<rparr>)"

text \<open>
  The loop over the regions of a range.  The callback sees the tracker, returns whether the loop
  stops, and adds to an output.
\<close>

type_synonym 'o visitor = "nat \<Rightarrow> u64 \<Rightarrow> u64 \<Rightarrow> MemoryTracker \<Rightarrow> (bool \<times> 'o list \<times> MemoryTracker) option"

function iterate_from ::
    "bool \<Rightarrow> 'o visitor \<Rightarrow> nat \<Rightarrow> nat \<Rightarrow> nat \<Rightarrow> MemoryTracker \<Rightarrow> (bool \<times> 'o list \<times> MemoryTracker) option" where
  "iterate_from create f page_index page_offset remaining t =
     (if remaining = 0 then Some (False, [], t)
      else if page_index \<ge> NUM_HIGH_PAGES then None
      else
        let copy_amount = min (TRACKER_HIGHER_PAGE_SIZE - page_offset) remaining;
            t = (if top_tier t page_index = None \<and> create then CreateRegion page_index t else t)
        in do {
          (stop, out, t) \<leftarrow>
            (if top_tier t page_index \<noteq> None then f page_index (of_nat page_offset) (of_nat copy_amount) t
             else Some (False, [], t));
          if stop then Some (True, out, t)
          else do {
            (stop, outs, t) \<leftarrow> iterate_from create f (page_index + 1) 0 (remaining - copy_amount) t;
            Some (stop, out @ outs, t)
          }
        })"
  by pat_completeness auto
termination
  by (relation "measure (\<lambda>(c, f, i, page_offset, remaining, t). 2 * remaining + (if page_offset = 0 then 0 else 1))")
     (auto simp: TRACKER_HIGHER_PAGE_SIZE_def min_def)

declare iterate_from.simps [simp del]

definition IteratePages ::
    "bool \<Rightarrow> 'o visitor \<Rightarrow> u64 \<Rightarrow> u64 \<Rightarrow> MemoryTracker \<Rightarrow> (bool \<times> 'o list \<times> MemoryTracker) option" where
  "IteratePages create f cpu_address sz t =
     iterate_from create f (unat (drop_bit 22 cpu_address)) (unat (cpu_address AND 0x3FFFFF)) (unat sz) t"

text \<open>A call on the manager of a region, and its address in the region.\<close>

definition on_region ::
    "nat \<Rightarrow> (RegionManager \<times> PageManager \<Rightarrow> ('o list \<times> RegionManager \<times> PageManager) option) \<Rightarrow>
     MemoryTracker \<Rightarrow> (bool \<times> 'o list \<times> MemoryTracker) option" where
  "on_region i g t =
     do {
       m \<leftarrow> top_tier t i;
       (out, m, pm) \<leftarrow> g (m, page_manager t);
       Some (False, out, t\<lparr>top_tier := (top_tier t)(i \<mapsto> m), page_manager := pm\<rparr>)
     }"

definition change_region ::
    "bool \<Rightarrow> GpuReadbacksMode \<Rightarrow> Modified_Type \<Rightarrow> bool \<Rightarrow> 'o visitor" where
  "change_region avx mode type enable i offset sz =
     on_region i (\<lambda>(m, pm). do {
       (m, pm) \<leftarrow> ChangeRegionState avx mode type enable (region_cpu_addr m + offset) sz (m, pm);
       Some ([], m, pm)
     })"

definition modified_in :: "bool \<Rightarrow> Modified_Type \<Rightarrow> 'o visitor" where
  "modified_in avx type i offset sz t =
     do {
       m \<leftarrow> top_tier t i;
       Some (IsRegionModified avx type offset sz m, [], t)
     }"

definition IsRegionCpuModified :: "bool \<Rightarrow> u64 \<Rightarrow> u64 \<Rightarrow> MemoryTracker \<Rightarrow> (bool \<times> MemoryTracker) option" where
  "IsRegionCpuModified avx query_cpu_addr query_size t =
     do {
       (stop, out, t) \<leftarrow> IteratePages True (modified_in avx Type_CPU :: unit visitor) query_cpu_addr query_size t;
       Some (stop, t)
     }"

definition IsRegionGpuModified :: "bool \<Rightarrow> u64 \<Rightarrow> u64 \<Rightarrow> MemoryTracker \<Rightarrow> (bool \<times> MemoryTracker) option" where
  "IsRegionGpuModified avx query_cpu_addr query_size t =
     do {
       (stop, out, t) \<leftarrow> IteratePages False (modified_in avx Type_GPU :: unit visitor) query_cpu_addr query_size t;
       Some (stop, t)
     }"

definition MarkRegionAsCpuModified ::
    "bool \<Rightarrow> GpuReadbacksMode \<Rightarrow> u64 \<Rightarrow> u64 \<Rightarrow> MemoryTracker \<Rightarrow> MemoryTracker option" where
  "MarkRegionAsCpuModified avx mode dirty_cpu_addr query_size t =
     do {
       (stop, out, t) \<leftarrow> IteratePages False (change_region avx mode Type_CPU True :: unit visitor) dirty_cpu_addr query_size t;
       Some t
     }"

definition UnmarkRegionAsGpuModified ::
    "bool \<Rightarrow> GpuReadbacksMode \<Rightarrow> u64 \<Rightarrow> u64 \<Rightarrow> MemoryTracker \<Rightarrow> MemoryTracker option" where
  "UnmarkRegionAsGpuModified avx mode dirty_cpu_addr query_size t =
     do {
       (stop, out, t) \<leftarrow> IteratePages False (change_region avx mode Type_GPU False :: unit visitor) dirty_cpu_addr query_size t;
       Some t
     }"

text \<open>\<open>on_flush\<close> is the callback of the buffer cache, which works on the tracker itself.\<close>

definition invalidate_region ::
    "bool \<Rightarrow> GpuReadbacksMode \<Rightarrow> (MemoryTracker \<Rightarrow> MemoryTracker option) \<Rightarrow> 'o visitor" where
  "invalidate_region avx mode on_flush i offset sz t =
     do {
       m \<leftarrow> top_tier t i;
       if mode \<noteq> Readbacks_Disabled \<and> IsRegionModified avx Type_GPU offset sz m then
         do {
           t \<leftarrow> on_flush t;
           Some (False, [], t)
         }
       else change_region avx mode Type_CPU True i offset sz t
     }"

definition InvalidateRegion ::
    "bool \<Rightarrow> GpuReadbacksMode \<Rightarrow> u64 \<Rightarrow> u64 \<Rightarrow> (MemoryTracker \<Rightarrow> MemoryTracker option) \<Rightarrow> MemoryTracker \<Rightarrow>
     MemoryTracker option" where
  "InvalidateRegion avx mode cpu_addr sz on_flush t =
     do {
       (stop, out, t) \<leftarrow> IteratePages False (invalidate_region avx mode on_flush :: unit visitor) cpu_addr sz t;
       Some t
     }"

definition upload_ranges :: "bool \<Rightarrow> GpuReadbacksMode \<Rightarrow> (u64 \<times> u64) visitor" where
  "upload_ranges avx mode i offset sz =
     on_region i (\<lambda>(m, pm). ForEachModifiedRange avx mode Type_CPU True (region_cpu_addr m + offset) sz (m, pm))"

text \<open>The ranges go to \<^verbatim>\<open>func\<close>; \<^verbatim>\<open>on_upload\<close> does not touch the tracker.\<close>

definition ForEachUploadRange ::
    "bool \<Rightarrow> GpuReadbacksMode \<Rightarrow> u64 \<Rightarrow> u64 \<Rightarrow> bool \<Rightarrow> MemoryTracker \<Rightarrow> ((u64 \<times> u64) list \<times> MemoryTracker) option" where
  "ForEachUploadRange avx mode query_cpu_range query_size is_written t =
     do {
       (stop, out, t) \<leftarrow> IteratePages True (upload_ranges avx mode) query_cpu_range query_size t;
       if \<not> is_written then Some (out, t)
       else do {
         (stop, none, t) \<leftarrow> IteratePages False (change_region avx mode Type_GPU True :: unit visitor) query_cpu_range query_size t;
         Some (out, t)
       }
     }"

definition download_ranges :: "bool \<Rightarrow> GpuReadbacksMode \<Rightarrow> bool \<Rightarrow> (u64 \<times> u64) visitor" where
  "download_ranges avx mode clear i offset sz =
     on_region i (\<lambda>(m, pm). ForEachModifiedRange avx mode Type_GPU clear (region_cpu_addr m + offset) sz (m, pm))"

definition ForEachDownloadRange ::
    "bool \<Rightarrow> GpuReadbacksMode \<Rightarrow> bool \<Rightarrow> u64 \<Rightarrow> u64 \<Rightarrow> MemoryTracker \<Rightarrow> ((u64 \<times> u64) list \<times> MemoryTracker) option" where
  "ForEachDownloadRange avx mode clear query_cpu_range query_size t =
     do {
       (stop, out, t) \<leftarrow> IteratePages False (download_ranges avx mode clear) query_cpu_range query_size t;
       Some (out, t)
     }"

subsection \<open>The invariant\<close>

text \<open>The abstract state: the pages the tracker watches for writes, and those the GPU has modified.\<close>

definition clean_pages :: "MemoryTracker \<Rightarrow> nat set" where
  "clean_pages t = {p. \<exists>m. top_tier t (p div 1024) = Some m \<and> p mod 1024 \<notin> bits (rm_cpu m)}"

definition gpu_pages :: "MemoryTracker \<Rightarrow> nat set" where
  "gpu_pages t = {p. \<exists>m. top_tier t (p div 1024) = Some m \<and> p mod 1024 \<in> bits (rm_gpu m)}"

definition read_watched :: "GpuReadbacksMode \<Rightarrow> MemoryTracker \<Rightarrow> nat set" where
  "read_watched mode t = (if mode = Readbacks_Precise then gpu_pages t else {})"

definition tracker_ok :: "GpuReadbacksMode \<Rightarrow> (nat \<Rightarrow> nat) \<Rightarrow> MemoryTracker \<Rightarrow> bool" where
  "tracker_ok mode others t \<longleftrightarrow>
     (\<forall>i m. top_tier t i = Some m \<longrightarrow> region_ok mode i (clean_pages t) (read_watched mode t) m) \<and>
     counts_ok others (clean_pages t) (read_watched mode t) (page_manager t) \<and>
     (\<forall>m\<in>set (free_managers t). m = RegionManager_new 0)"

lemma page_in_region: "p \<in> in_region i {..<1024} \<longleftrightarrow> p div 1024 = i"
proof
  assume "p div 1024 = i"
  then have "p = region_page i + p mod 1024" by (auto simp: region_page_def)
  then show "p \<in> in_region i {..<1024}" by (metis imageI lessThan_iff mod_less_divisor zero_less_numeral)
qed (auto simp: region_page_def)

lemma region_page_div [simp]:
  "k < 1024 \<Longrightarrow> (region_page i + k) div 1024 = i" "k < 1024 \<Longrightarrow> (region_page i + k) mod 1024 = k"
  by (simp_all add: region_page_def)

text \<open>A call on one region changes the sets only there.\<close>

lemma tracker_put:
  assumes t: "tracker_ok mode others t" and i: "top_tier t i = Some m"
    and r: "region_ok mode i W R m1" and c: "counts_ok others W R pm1"
    and out: "\<And>p. p div 1024 \<noteq> i \<Longrightarrow> (p \<in> W \<longleftrightarrow> p \<in> clean_pages t) \<and> (p \<in> R \<longleftrightarrow> p \<in> read_watched mode t)"
  defines "t1 \<equiv> t\<lparr>top_tier := (top_tier t)(i \<mapsto> m1), page_manager := pm1\<rparr>"
  shows "tracker_ok mode others t1 \<and> clean_pages t1 = W \<and> read_watched mode t1 = R \<and>
         gpu_pages t1 = (gpu_pages t - in_region i {..<1024}) \<union> in_region i (bits (rm_gpu m1))"
proof -
  have rm: "\<And>k. k < 1024 \<Longrightarrow> (region_page i + k \<in> W \<longleftrightarrow> k \<notin> bits (rm_cpu m1)) \<and>
      (region_page i + k \<in> R \<longleftrightarrow> mode = Readbacks_Precise \<and> k \<in> bits (rm_gpu m1))"
    using r by (simp add: region_ok_def)
  have here: "p = region_page i + p mod 1024" if "p div 1024 = i" for p
    using that by (auto simp: region_page_def)
  have W: "clean_pages t1 = W"
  proof (rule set_eqI)
    fix p show "p \<in> clean_pages t1 \<longleftrightarrow> p \<in> W"
      using rm [of "p mod 1024"] here [of p] out [of p]
      by (cases "p div 1024 = i") (auto simp: clean_pages_def t1_def)
  qed
  have G: "gpu_pages t1 = (gpu_pages t - in_region i {..<1024}) \<union> in_region i (bits (rm_gpu m1))"
  proof (rule set_eqI)
    fix p
    have "p \<in> in_region i (bits (rm_gpu m1)) \<longleftrightarrow> p mod 1024 \<in> bits (rm_gpu m1)" if "p div 1024 = i"
      using here [OF that] bits_region [of "rm_gpu m1"] r by (auto simp: region_ok_def)
    moreover have "p \<notin> in_region i (bits (rm_gpu m1))" if "p div 1024 \<noteq> i"
      using that bits_region [of "rm_gpu m1"] r page_in_region [of p i] by (auto simp: region_ok_def)
    ultimately show "p \<in> gpu_pages t1 \<longleftrightarrow> p \<in> (gpu_pages t - in_region i {..<1024}) \<union> in_region i (bits (rm_gpu m1))"
      using page_in_region [of p i] by (cases "p div 1024 = i") (auto simp: gpu_pages_def t1_def)
  qed
  have R: "read_watched mode t1 = R"
  proof (rule set_eqI)
    fix p show "p \<in> read_watched mode t1 \<longleftrightarrow> p \<in> R"
      using rm [of "p mod 1024"] here [of p] out [of p]
      by (cases "p div 1024 = i") (auto simp: read_watched_def gpu_pages_def t1_def split: if_splits)
  qed
  have "region_ok mode j W R m'" if "top_tier t1 j = Some m'" for j m'
  proof (cases "j = i")
    case True
    with that r show ?thesis by (simp add: t1_def)
  next
    case False
    then have "region_ok mode j (clean_pages t) (read_watched mode t) m'"
      using that t by (simp add: t1_def tracker_ok_def)
    then show ?thesis using out False by (simp add: region_ok_def)
  qed
  then show ?thesis using W R G c t by (auto simp: tracker_ok_def t1_def)
qed

text \<open>A new region is dirty throughout, so nothing changes for the sets.\<close>

lemma RegionManager_new_simps:
  "length RegionBits_new = 16" "bits RegionBits_new = {}" "Bit_Size RegionBits_new = 1024"
  by (simp_all add: RegionBits_new_def NUM_PAGES_PER_REGION_def Bit_Size_def)

lemma CreateRegion_ok:
  assumes t: "tracker_ok mode others t" and n: "top_tier t i = None" and i: "i < NUM_HIGH_PAGES"
  shows "tracker_ok mode others (CreateRegion i t) \<and> clean_pages (CreateRegion i t) = clean_pages t \<and>
         gpu_pages (CreateRegion i t) = gpu_pages t \<and> top_tier (CreateRegion i t) i \<noteq> None"
proof -
  define free where "free = (if free_managers t = [] then replicate MANAGER_POOL_SIZE (RegionManager_new 0) else free_managers t)"
  have f: "\<forall>m\<in>set free. m = RegionManager_new 0" "free \<noteq> []"
    using t by (auto simp: free_def tracker_ok_def MANAGER_POOL_SIZE_def)
  then have last: "last free = RegionManager_new 0" by (simp add: last_in_set)
  define m where "m = SetCpuAddress (of_nat (i * 4194304)) (RegionManager_new 0)"
  have cr: "CreateRegion i t = t\<lparr>free_managers := butlast free, top_tier := (top_tier t)(i \<mapsto> m)\<rparr>"
    using last by (simp add: CreateRegion_def free_def m_def Let_def TRACKER_HIGHER_PAGE_SIZE_def)
  have m: "region_cpu_addr m = of_nat (i * 4194304)" "rm_cpu m = Bit_Fill RegionBits_new" "rm_gpu m = Bit_Clear RegionBits_new"
    "rm_writeable m = Bit_Fill RegionBits_new" "rm_readable m = Bit_Fill RegionBits_new"
    by (simp_all add: m_def SetCpuAddress_def RegionManager_new_def)
  have W: "clean_pages (CreateRegion i t) = clean_pages t" and G: "gpu_pages (CreateRegion i t) = gpu_pages t"
    using n by (auto simp: cr clean_pages_def gpu_pages_def m RegionManager_new_simps)
  then have R: "read_watched mode (CreateRegion i t) = read_watched mode t" by (simp add: read_watched_def)
  have none: "region_page i + k \<notin> clean_pages t \<and> region_page i + k \<notin> read_watched mode t" if "k < 1024" for k
    using n that by (simp add: clean_pages_def read_watched_def gpu_pages_def)
  have "region_ok mode i (clean_pages t) (read_watched mode t) m"
    using none i by (simp add: region_ok_def m RegionManager_new_simps NUM_HIGH_PAGES_def)
  then have "region_ok mode j (clean_pages t) (read_watched mode t) m'" if "top_tier (CreateRegion i t) j = Some m'" for j m'
    using that t by (auto simp: cr tracker_ok_def split: if_splits)
  then show ?thesis
    using W G R f(1) t by (auto simp: tracker_ok_def cr dest: in_set_butlastD)
qed

subsection \<open>Walking over the regions\<close>

text \<open>
  What an operation has to do for one region so that the loop does it for a range: the contract of
  the callbacks.  \<open>P S t out\<close> relates the pages seen so far, the tracker and the output.
\<close>

definition byte_pages :: "nat \<Rightarrow> nat \<Rightarrow> nat set" where
  "byte_pages a n = (if n = 0 then {} else {a div 4096..<(a + n + 4095) div 4096})"

lemma byte_pages_split:
  assumes "off < 4194304" "0 < n" "copy = min (4194304 - off) n"
  shows "byte_pages (i * 4194304 + off) n = in_region i (byte_pages off copy) \<union> byte_pages ((i + 1) * 4194304) (n - copy)"
proof -
  have r: "in_region i (byte_pages off copy) = byte_pages (i * 4194304 + off) copy"
  proof -
    have "(x + i * 1024 * 4096) div 4096 = region_page i + x div 4096" for x :: nat
      unfolding region_page_def by (rule div_mult_self1) simp
    moreover have "i * 4194304 + off = off + i * 1024 * 4096"
      "i * 4194304 + off + copy + 4095 = (off + copy + 4095) + i * 1024 * 4096"
      by simp_all
    ultimately have e: "(i * 4194304 + off) div 4096 = region_page i + off div 4096"
      "(i * 4194304 + off + copy + 4095) div 4096 = region_page i + (off + copy + 4095) div 4096"
      by metis+
    show ?thesis
      unfolding byte_pages_def e by (cases "copy = 0") (simp_all only: if_True if_False image_empty image_add_atLeastLessThan add.commute simp_thms)
  qed
  show ?thesis
  proof (cases "n \<le> 4194304 - off")
    case True
    with assms r show ?thesis by (simp add: byte_pages_def)
  next
    case False
    with assms have c: "copy = 4194304 - off" "off + copy = 4194304" by auto
    have x: "i * 4194304 + off + n + 4095 = (i + 1) * 4194304 + (n - copy) + 4095" using c False by simp
    have y: "(i * 4194304 + off + copy + 4095) div 4096 = (i + 1) * 1024"
    proof -
      have "i * 4194304 + off + copy + 4095 = ((i + 1) * 1024) * 4096 + 4095" using c by (simp add: algebra_simps)
      then show ?thesis by simp
    qed
    have z: "(i + 1) * 4194304 div 4096 = (i + 1) * 1024" by simp
    have l: "(i * 4194304 + off) div 4096 \<le> (i + 1) * 1024"
      using div_le_mono [of "i * 4194304 + off" "(i + 1) * 4194304" 4096] assms(1) z by simp
    have u: "(i + 1) * 1024 \<le> ((i + 1) * 4194304 + (n - copy) + 4095) div 4096"
      using div_le_mono [of "(i + 1) * 4194304" "(i + 1) * 4194304 + (n - copy) + 4095" 4096] z by simp
    have "n - copy \<noteq> 0" "copy \<noteq> 0" "n \<noteq> 0" using False c assms(1) by auto
    then show ?thesis
      unfolding r unfolding byte_pages_def x y z using ivl_disj_un_two(3) [OF l u] by (simp only: if_False)
  qed
qed

text \<open>One step of the loop in machine words, and the loop's start.\<close>

lemma step_range:
  assumes "off < 4194304" "0 < copy" "off + copy \<le> 4194304"
  shows "inside (of_nat off) (of_nat copy)" "pages_of (of_nat off) (of_nat copy) = byte_pages off copy"
proof -
  have u: "unat (of_nat off :: u64) = off" "unat (of_nat copy :: u64) = copy"
    using assms by (simp_all add: unsigned_of_nat take_bit_nat_eq_self)
  show "inside (of_nat off) (of_nat copy)" using u assms by (simp add: inside_def word_less_nat_alt)
  show "pages_of (of_nat off) (of_nat copy) = byte_pages off copy"
    using u assms by (simp add: pages_of_def byte_pages_def PM_PAGE_SIZE_def add.commute)
qed

lemma address_split:
  "unat (drop_bit 22 (a :: u64)) = unat a div 4194304" "unat ((a :: u64) AND 0x3FFFFF) = unat a mod 4194304"
proof -
  show "unat (drop_bit 22 a) = unat a div 4194304" by (simp add: drop_bit_eq_div unat_div)
  have "a AND 0x3FFFFF = take_bit 22 a" by (simp add: take_bit_eq_mask mask_eq_exp_minus_1)
  then show "unat (a AND 0x3FFFFF) = unat a mod 4194304" by (simp add: take_bit_eq_mod unat_mod)
qed

lemma byte_pages_of: "0 < sz \<Longrightarrow> byte_pages (unat a) (unat sz) = pages_of a sz"
  by (simp add: byte_pages_def pages_of_def PM_PAGE_SIZE_def add.commute word_less_nat_alt)

lemma split_at_regions:
  fixes g :: "nat \<Rightarrow> nat"
  assumes e: "X \<union> Y = {p \<in> D. i \<le> g p}" and x: "\<forall>p \<in> X. g p = i" and y: "\<forall>p \<in> Y. i + 1 \<le> g p"
  shows "X \<subseteq> D \<and> X = {p \<in> D. g p = i} \<and> Y = {p \<in> D. i + 1 \<le> g p}"
proof -
  have m: "p \<in> X \<or> p \<in> Y \<longleftrightarrow> p \<in> D \<and> i \<le> g p" for p using e by blast
  have "p \<in> X \<longleftrightarrow> p \<in> D \<and> g p = i" "p \<in> Y \<longleftrightarrow> p \<in> D \<and> i + 1 \<le> g p" for p
    using m [of p] x y by fastforce+
  then show ?thesis by blast
qed

lemma byte_pages_regions:
  assumes "off + copy \<le> 4194304"
  shows "(\<forall>p \<in> in_region i (byte_pages off copy). p div 1024 = i) \<and> (\<forall>p \<in> byte_pages ((i + 1) * 4194304) n. i + 1 \<le> p div 1024)"
proof (intro conjI ballI)
  fix p assume "p \<in> in_region i (byte_pages off copy)"
  moreover have "(off + copy + 4095) div 4096 \<le> 1024" using div_le_mono [of "off + copy + 4095" "4194304 + 4095" 4096] assms by simp
  then have "byte_pages off copy \<subseteq> {..<1024}" by (auto simp: byte_pages_def)
  ultimately have "p \<in> in_region i {..<1024}" by auto
  then show "p div 1024 = i" by (simp only: page_in_region)
next
  fix p assume "p \<in> byte_pages ((i + 1) * 4194304) n"
  then have "(i + 1) * 4194304 div 4096 \<le> p" by (auto simp: byte_pages_def split: if_splits)
  then have "(i + 1) * 1024 \<le> p" by simp
  then show "i + 1 \<le> p div 1024" by (simp add: less_eq_div_iff_mult_less_eq)
qed

locale page_walk =
  fixes create :: bool and f :: "'o visitor" and D :: "nat set"
    and P :: "nat set \<Rightarrow> MemoryTracker \<Rightarrow> 'o list \<Rightarrow> bool"
  assumes visit: "P S t out \<Longrightarrow> i < NUM_HIGH_PAGES \<Longrightarrow> inside offset sz \<Longrightarrow> in_region i (pages_of offset sz) \<subseteq> D \<Longrightarrow>
      in_region i (pages_of offset sz) = {p \<in> D. p div 1024 = i} \<Longrightarrow> top_tier t i \<noteq> None \<Longrightarrow>
      \<exists>o1 t1. f i offset sz t = Some (False, o1, t1) \<and> P (S \<union> in_region i (pages_of offset sz)) t1 (out @ o1)"
    and skip: "P S t out \<Longrightarrow> i < NUM_HIGH_PAGES \<Longrightarrow> inside offset sz \<Longrightarrow> in_region i (pages_of offset sz) \<subseteq> D \<Longrightarrow>
      top_tier t i = None \<Longrightarrow>
      (if create then P S (CreateRegion i t) out \<and> top_tier (CreateRegion i t) i \<noteq> None
       else P (S \<union> in_region i (pages_of offset sz)) t out)"
begin

lemma walk:
  "P S t out \<Longrightarrow> off < 4194304 \<Longrightarrow> i * 4194304 + off + n \<le> 2 ^ 40 \<Longrightarrow>
   byte_pages (i * 4194304 + off) n = {p \<in> D. i \<le> p div 1024} \<Longrightarrow>
   \<exists>o1 t1. iterate_from create f i off n t = Some (False, o1, t1) \<and> P (S \<union> byte_pages (i * 4194304 + off) n) t1 (out @ o1)"
proof (induction n arbitrary: i off t S out rule: less_induct)
  case (less n)
  show ?case
  proof (cases "n = 0")
    case True
    then show ?thesis using less(2) by (subst iterate_from.simps) (simp add: byte_pages_def)
  next
    case False
    define copy where "copy = min (4194304 - off) n"
    have c: "0 < copy" "copy \<le> n" "off + copy \<le> 4194304" using less(3) False by (auto simp: copy_def)
    have i: "i < NUM_HIGH_PAGES" using less(4) False by (simp add: NUM_HIGH_PAGES_def)
    note ins = step_range(1) [OF less(3) c(1,3)] and pg = step_range(2) [OF less(3) c(1,3)]
    let ?X = "in_region i (byte_pages off copy)" and ?Y = "byte_pages ((i + 1) * 4194304) (n - copy)"
    have XY: "?X \<union> ?Y = {p \<in> D. i \<le> p div 1024}"
      using byte_pages_split [OF less(3) _ copy_def, of i] False less(5) by simp
    have xi: "\<forall>p \<in> ?X. p div 1024 = i" and yi: "\<forall>p \<in> ?Y. i + 1 \<le> p div 1024"
      using byte_pages_regions [OF c(3)] by blast+
    have D: "in_region i (pages_of (of_nat off) (of_nat copy)) \<subseteq> D"
      and X: "in_region i (pages_of (of_nat off) (of_nat copy)) = {p \<in> D. p div 1024 = i}"
      and Y: "?Y = {p \<in> D. i + 1 \<le> p div 1024}"
      using split_at_regions [OF XY xi yi] unfolding pg by blast+
    define t0 where "t0 = (if top_tier t i = None \<and> create then CreateRegion i t else t)"
    have "\<exists>o1 t1. (if top_tier t0 i \<noteq> None then f i (of_nat off) (of_nat copy) t0 else Some (False, [], t0)) = Some (False, o1, t1) \<and>
        P (S \<union> in_region i (byte_pages off copy)) t1 (out @ o1)"
    proof (cases "top_tier t0 i = None")
      case True
      then have "top_tier t i = None" "\<not> create" "t0 = t"
        using skip [OF less(2) i ins D] by (auto simp: t0_def split: if_splits)
      with True skip [OF less(2) i ins D] pg show ?thesis by simp
    next
      case False
      then have "P S t0 out" using less(2) skip [OF less(2) i ins D] by (auto simp: t0_def)
      from visit [OF this i ins D X False] False pg show ?thesis by simp
    qed
    then obtain o1 t1 where o1: "(if top_tier t0 i \<noteq> None then f i (of_nat off) (of_nat copy) t0 else Some (False, [], t0)) = Some (False, o1, t1)"
      "P (S \<union> in_region i (byte_pages off copy)) t1 (out @ o1)" by blast
    have "\<exists>o2 t2. iterate_from create f (i + 1) 0 (n - copy) t1 = Some (False, o2, t2) \<and>
        P (S \<union> in_region i (byte_pages off copy) \<union> byte_pages ((i + 1) * 4194304 + 0) (n - copy)) t2 ((out @ o1) @ o2)"
    proof (cases "n - copy = 0")
      case True
      then show ?thesis using o1(2) by (subst iterate_from.simps) (simp add: byte_pages_def)
    next
      case rest: False
      then have e: "off + copy = 4194304" using c by (auto simp: copy_def min_def split: if_splits)
      show ?thesis
        by (rule less(1) [OF _ o1(2)]) (use c rest less(4) e Y in auto)
    qed
    then obtain o2 t2 where o2: "iterate_from create f (i + 1) 0 (n - copy) t1 = Some (False, o2, t2)"
      "P (S \<union> in_region i (byte_pages off copy) \<union> byte_pages ((i + 1) * 4194304) (n - copy)) t2 (out @ o1 @ o2)"
      by auto
    have "iterate_from create f i off n t = Some (False, o1 @ o2, t2)"
      using False i o1(1) o2(1)
      by (subst iterate_from.simps)
         (simp add: Let_def t0_def [symmetric] copy_def [symmetric] TRACKER_HIGHER_PAGE_SIZE_def not_le)
    then show ?thesis
      using o2(2) byte_pages_split [OF less(3) _ copy_def, of i] False by (simp add: Un_assoc)
  qed
qed

lemma walk_pages:
  assumes "P {} t []" "unat addr + unat sz \<le> 2 ^ 40" "0 < sz" "pages_of addr sz = D"
  shows "\<exists>o1 t1. IteratePages create f addr sz t = Some (False, o1, t1) \<and> P D t1 o1"
proof -
  have "unat addr div 4194304 \<le> p div 1024" if "p \<in> D" for p
  proof -
    have "unat addr div 4096 \<le> p" using that assms(4) by (auto simp: pages_of_def PM_PAGE_SIZE_def)
    then have "unat addr div 4096 div 1024 \<le> p div 1024" by (rule div_le_mono)
    then show ?thesis by (simp add: div_mult2_eq [symmetric])
  qed
  then have "pages_of addr sz = {p \<in> D. unat addr div 4194304 \<le> p div 1024}" using assms(4) by auto
  then show ?thesis
    using walk [OF assms(1), of "unat addr mod 4194304" "unat addr div 4194304" "unat sz"] assms(2-)
    by (simp add: IteratePages_def address_split byte_pages_of)
qed

end

text \<open>The queries stop at the first region with a page in \<open>D\<close>.\<close>

locale page_query =
  fixes create :: bool and f :: "'o visitor" and D :: "nat set" and P :: "MemoryTracker \<Rightarrow> bool"
  assumes query: "P t \<Longrightarrow> i < NUM_HIGH_PAGES \<Longrightarrow> inside offset sz \<Longrightarrow> top_tier t i \<noteq> None \<Longrightarrow>
      f i offset sz t = Some (in_region i (pages_of offset sz) \<inter> D \<noteq> {}, [], t)"
    and absent: "P t \<Longrightarrow> i < NUM_HIGH_PAGES \<Longrightarrow> inside offset sz \<Longrightarrow> top_tier t i = None \<Longrightarrow>
      (if create then P (CreateRegion i t) \<and> top_tier (CreateRegion i t) i \<noteq> None
       else in_region i (pages_of offset sz) \<inter> D = {})"
begin

lemma ask:
  "P t \<Longrightarrow> off < 4194304 \<Longrightarrow> i * 4194304 + off + n \<le> 2 ^ 40 \<Longrightarrow>
   \<exists>t1. iterate_from create f i off n t = Some (byte_pages (i * 4194304 + off) n \<inter> D \<noteq> {}, [], t1) \<and> P t1"
proof (induction n arbitrary: i off t rule: less_induct)
  case (less n)
  show ?case
  proof (cases "n = 0")
    case True
    then show ?thesis using less(2) by (subst iterate_from.simps) (simp add: byte_pages_def)
  next
    case False
    define copy where "copy = min (4194304 - off) n"
    have c: "0 < copy" "copy \<le> n" "off + copy \<le> 4194304" using less(3) False by (auto simp: copy_def)
    have i: "i < NUM_HIGH_PAGES" using less(4) False by (simp add: NUM_HIGH_PAGES_def)
    note st = step_range [OF less(3) c(1,3)]
    define t0 where "t0 = (if top_tier t i = None \<and> create then CreateRegion i t else t)"
    let ?X = "in_region i (byte_pages off copy)"
    have "(if top_tier t0 i \<noteq> None then f i (of_nat off) (of_nat copy) t0 else Some (False, [], t0)) = Some (?X \<inter> D \<noteq> {}, [], t0) \<and> P t0"
    proof (cases "top_tier t i = None")
      case True
      then show ?thesis
        using absent [OF less(2) i st(1) True] query [of t0 i, OF _ i st(1)] less(2) st(2)
        by (auto simp: t0_def split: if_splits)
    next
      case False
      then have "t0 = t" by (auto simp: t0_def)
      with False query [OF less(2) i st(1) False] less(2) st(2) show ?thesis by simp
    qed
    then have o1: "(if top_tier t0 i \<noteq> None then f i (of_nat off) (of_nat copy) t0 else Some (False, [], t0)) = Some (?X \<inter> D \<noteq> {}, [], t0)"
      and P0: "P t0" by blast+
    have "\<exists>t2. iterate_from create f (i + 1) 0 (n - copy) t0 = Some (byte_pages ((i + 1) * 4194304 + 0) (n - copy) \<inter> D \<noteq> {}, [], t2) \<and> P t2"
    proof (cases "n - copy = 0")
      case True
      then show ?thesis using P0 by (subst iterate_from.simps) (simp add: byte_pages_def)
    next
      case rest: False
      then have e: "off + copy = 4194304" using c by (auto simp: copy_def min_def split: if_splits)
      show ?thesis by (rule less(1) [OF _ P0]) (use c rest less(4) e in auto)
    qed
    then obtain t2 where o2: "iterate_from create f (i + 1) 0 (n - copy) t0 = Some (byte_pages ((i + 1) * 4194304) (n - copy) \<inter> D \<noteq> {}, [], t2)"
      "P t2" by auto
    have "iterate_from create f i off n t =
        (if ?X \<inter> D \<noteq> {} then Some (True, [], t0)
         else Some (byte_pages ((i + 1) * 4194304) (n - copy) \<inter> D \<noteq> {}, [], t2))"
      using False i o1 o2(1)
      by (subst iterate_from.simps)
         (simp add: Let_def t0_def [symmetric] copy_def [symmetric] TRACKER_HIGHER_PAGE_SIZE_def not_le)
    then show ?thesis
      using o2(2) P0 byte_pages_split [OF less(3) _ copy_def, of i] False by (simp add: Int_Un_distrib2)
  qed
qed

lemma ask_pages:
  assumes "P t" "unat addr + unat sz \<le> 2 ^ 40" "0 < sz"
  shows "\<exists>t1. IteratePages create f addr sz t = Some (pages_of addr sz \<inter> D \<noteq> {}, [], t1) \<and> P t1"
  using ask [OF assms(1), of "unat addr mod 4194304" "unat addr div 4194304" "unat sz"] assms(2-)
  by (simp add: IteratePages_def address_split byte_pages_of)

end

subsection \<open>The operations\<close>

lemma region_pages_sub: "inside offset sz \<Longrightarrow> p \<in> in_region i (pages_of offset sz) \<Longrightarrow> p div 1024 = i"
  using inside_pages_sub [of offset sz] page_in_region [of p i] by blast

lemma gpu_in_region:
  assumes "tracker_ok mode others t" "top_tier t i = Some m"
  shows "in_region i (bits (rm_gpu m)) = gpu_pages t \<inter> in_region i {..<1024}"
proof -
  have "bits (rm_gpu m) \<subseteq> {..<1024}" using assms bits_region [of "rm_gpu m"] by (simp add: tracker_ok_def region_ok_def)
  then show ?thesis
    using assms(2) page_in_region [of _ i] by (auto simp: gpu_pages_def region_page_def subset_iff)
qed

lemma change_cpu:
  assumes t: "tracker_ok mode others t" and i: "top_tier t i \<noteq> None" and off: "inside offset sz"
    and e: "enable \<Longrightarrow> \<forall>p\<in>in_region i (pages_of offset sz). p \<in> read_watched mode t \<longrightarrow> 0 < others p"
  shows "\<exists>t1. change_region avx mode Type_CPU enable i offset sz t = Some (False, [], t1) \<and> tracker_ok mode others t1 \<and>
      clean_pages t1 = (if enable then clean_pages t - in_region i (pages_of offset sz)
                        else clean_pages t \<union> in_region i (pages_of offset sz)) \<and>
      gpu_pages t1 = gpu_pages t"
proof -
  let ?X = "in_region i (pages_of offset sz)"
  let ?W = "if enable then clean_pages t - ?X else clean_pages t \<union> ?X"
  obtain m where m: "top_tier t i = Some m" using i by blast
  have r: "region_ok mode i (clean_pages t) (read_watched mode t) m"
    and c: "counts_ok others (clean_pages t) (read_watched mode t) (page_manager t)"
    using t m by (auto simp: tracker_ok_def)
  obtain m1 pm1 where m1: "ChangeRegionState avx mode Type_CPU enable (region_cpu_addr m + offset) sz (m, page_manager t) = Some (m1, pm1)"
    "region_ok mode i ?W (read_watched mode t) m1" "counts_ok others ?W (read_watched mode t) pm1" "rm_gpu m1 = rm_gpu m"
    using ChangeRegionState_CPU [OF r c off e] by blast
  have "(p \<in> ?W) = (p \<in> clean_pages t)" if "p div 1024 \<noteq> i" for p
    using region_pages_sub [OF off, of p i] that by (cases enable) auto
  with tracker_put [OF t m m1(2,3)]
  have "tracker_ok mode others (t\<lparr>top_tier := (top_tier t)(i \<mapsto> m1), page_manager := pm1\<rparr>) \<and>
      clean_pages (t\<lparr>top_tier := (top_tier t)(i \<mapsto> m1), page_manager := pm1\<rparr>) = ?W \<and>
      gpu_pages (t\<lparr>top_tier := (top_tier t)(i \<mapsto> m1), page_manager := pm1\<rparr>) =
        (gpu_pages t - in_region i {..<1024}) \<union> in_region i (bits (rm_gpu m1))"
    by blast
  moreover have "(gpu_pages t - in_region i {..<1024}) \<union> in_region i (bits (rm_gpu m1)) = gpu_pages t"
    unfolding m1(4) gpu_in_region [OF t m] by blast
  ultimately show ?thesis using m m1(1) by (simp add: change_region_def on_region_def)
qed

lemma change_gpu:
  assumes t: "tracker_ok mode others t" and i: "top_tier t i \<noteq> None" and off: "inside offset sz"
    and e: "enable \<Longrightarrow> mode = Readbacks_Precise \<Longrightarrow> \<forall>p\<in>in_region i (pages_of offset sz). p \<in> clean_pages t \<or> 0 < others p"
  shows "\<exists>t1. change_region avx mode Type_GPU enable i offset sz t = Some (False, [], t1) \<and> tracker_ok mode others t1 \<and>
      clean_pages t1 = clean_pages t \<and>
      gpu_pages t1 = (if enable then gpu_pages t \<union> in_region i (pages_of offset sz)
                      else gpu_pages t - in_region i (pages_of offset sz))"
proof -
  let ?X = "in_region i (pages_of offset sz)"
  let ?R = "if mode \<noteq> Readbacks_Precise then read_watched mode t
            else if enable then read_watched mode t \<union> ?X else read_watched mode t - ?X"
  obtain m where m: "top_tier t i = Some m" using i by blast
  have r: "region_ok mode i (clean_pages t) (read_watched mode t) m"
    and c: "counts_ok others (clean_pages t) (read_watched mode t) (page_manager t)"
    using t m by (auto simp: tracker_ok_def)
  obtain m1 pm1 where m1: "ChangeRegionState avx mode Type_GPU enable (region_cpu_addr m + offset) sz (m, page_manager t) = Some (m1, pm1)"
    "region_ok mode i (clean_pages t) ?R m1" "counts_ok others (clean_pages t) ?R pm1"
    "bits (rm_gpu m1) = (if enable then bits (rm_gpu m) \<union> pages_of offset sz else bits (rm_gpu m) - pages_of offset sz)"
    using ChangeRegionState_GPU [OF r c off e] by blast
  have "(p \<in> ?R) = (p \<in> read_watched mode t)" if "p div 1024 \<noteq> i" for p
    using region_pages_sub [OF off, of p i] that by (cases enable) auto
  with tracker_put [OF t m m1(2,3)]
  have "tracker_ok mode others (t\<lparr>top_tier := (top_tier t)(i \<mapsto> m1), page_manager := pm1\<rparr>) \<and>
      clean_pages (t\<lparr>top_tier := (top_tier t)(i \<mapsto> m1), page_manager := pm1\<rparr>) = clean_pages t \<and>
      gpu_pages (t\<lparr>top_tier := (top_tier t)(i \<mapsto> m1), page_manager := pm1\<rparr>) =
        (gpu_pages t - in_region i {..<1024}) \<union> in_region i (bits (rm_gpu m1))"
    by blast
  moreover have "in_region i (bits (rm_gpu m1)) =
      (if enable then in_region i (bits (rm_gpu m)) \<union> ?X else in_region i (bits (rm_gpu m)) - ?X)"
    unfolding m1(4) by auto
  moreover have "?X \<subseteq> in_region i {..<1024}" using inside_pages_sub [OF off] by blast
  ultimately show ?thesis
    using m m1(1) gpu_in_region [OF t m] by (cases enable) (auto simp: change_region_def on_region_def)
qed

lemma upload_one:
  assumes t: "tracker_ok mode others t" and i: "top_tier t i \<noteq> None" and off: "inside offset sz"
  shows "\<exists>out t1. upload_ranges avx mode i offset sz t = Some (False, out, t1) \<and> tracker_ok mode others t1 \<and>
      pages_of_ranges out = in_region i (pages_of offset sz) - clean_pages t \<and>
      clean_pages t1 = clean_pages t \<union> in_region i (pages_of offset sz) \<and> gpu_pages t1 = gpu_pages t"
proof -
  obtain m where m: "top_tier t i = Some m" using i by blast
  have r: "region_ok mode i (clean_pages t) (read_watched mode t) m"
    and c: "counts_ok others (clean_pages t) (read_watched mode t) (page_manager t)"
    using t m by (auto simp: tracker_ok_def)
  obtain t1 where t1: "change_region avx mode Type_CPU False i offset sz t = Some (False, [], t1)" "tracker_ok mode others t1"
    "clean_pages t1 = clean_pages t \<union> in_region i (pages_of offset sz)" "gpu_pages t1 = gpu_pages t"
    using change_cpu [OF t i off, of False avx] by auto
  obtain out m1 pm1 where o: "ForEachModifiedRange avx mode Type_CPU True (region_cpu_addr m + offset) sz (m, page_manager t) = Some (out, m1, pm1)"
    "pages_of_ranges out = in_region i (pages_of offset sz) - clean_pages t"
    using upload_region [OF r c off, of avx] by blast
  have "ChangeRegionState avx mode Type_CPU False (region_cpu_addr m + offset) sz (m, page_manager t) = Some (m1, pm1)"
    using o(1) by (auto simp: ForEachModifiedRange_CPU map_option_case split: option.splits)
  then have "t1 = t\<lparr>top_tier := (top_tier t)(i \<mapsto> m1), page_manager := pm1\<rparr>"
    using t1(1) m by (simp add: change_region_def on_region_def)
  then show ?thesis using t1 o m by (simp add: upload_ranges_def on_region_def)
qed

end
