(* ===== verification/Tracker_Spec.thy ===== *)
theory Tracker_Spec
  imports Memory_Tracker
begin

section \<open>What the memory tracker promises\<close>

text \<open>
  Seen from outside the tracker is two sets of pages, those it watches for writes and those the GPU
  has modified, and every operation is a set operation on the pages of its range.  The loops are
  interpretations of \<open>page_walk\<close> and \<open>page_query\<close>; the host protection follows the sets.
\<close>

subsection \<open>The walks of the operations\<close>

definition tracks ::
    "GpuReadbacksMode \<Rightarrow> (nat \<Rightarrow> nat) \<Rightarrow> nat set \<Rightarrow> nat set \<Rightarrow> MemoryTracker \<Rightarrow> bool" where
  "tracks mode others W G t \<longleftrightarrow> tracker_ok mode others t \<and> clean_pages t = W \<and> gpu_pages t = G"

lemma tracks_absent:
  assumes "tracks mode others W G t" "top_tier t i = None" "inside offset sz"
  shows "in_region i (pages_of offset sz) \<inter> W = {} \<and> in_region i (pages_of offset sz) \<inter> G = {}"
  using assms region_pages_sub [OF assms(3), of _ i]
  by (auto simp: tracks_def clean_pages_def gpu_pages_def)

lemma tracks_create:
  "tracks mode others W G t \<Longrightarrow> top_tier t i = None \<Longrightarrow> i < NUM_HIGH_PAGES \<Longrightarrow>
   tracks mode others W G (CreateRegion i t) \<and> top_tier (CreateRegion i t) i \<noteq> None"
  using CreateRegion_ok [of mode others t i] by (simp add: tracks_def)

text \<open>Pages that become writable must not be watched for reads, unless someone else watches them for writes.\<close>

definition may_write :: "GpuReadbacksMode \<Rightarrow> (nat \<Rightarrow> nat) \<Rightarrow> nat set \<Rightarrow> nat set \<Rightarrow> bool" where
  "may_write mode others G D \<longleftrightarrow> mode = Readbacks_Precise \<longrightarrow> (\<forall>p\<in>D \<inter> G. 0 < others p)"

interpretation mark: page_walk False "change_region avx mode Type_CPU True" D
    "\<lambda>S t out. tracks mode others (W - S) G t \<and> may_write mode others G D"
  for avx mode others W G D
proof
  fix S t and out :: "'a list" and i offset sz
  assume P: "tracks mode others (W - S) G t \<and> may_write mode others G D" and off: "inside offset sz"
    and D: "in_region i (pages_of offset sz) \<subseteq> D"
  { assume i: "top_tier t i \<noteq> None"
    have "\<forall>p\<in>in_region i (pages_of offset sz). p \<in> read_watched mode t \<longrightarrow> 0 < others p"
      using P D by (auto simp: tracks_def may_write_def read_watched_def)
    with change_cpu [OF _ i off, of mode others True avx] P
    show "\<exists>o1 t1. change_region avx mode Type_CPU True i offset sz t = Some (False, o1, t1) \<and>
        tracks mode others (W - (S \<union> in_region i (pages_of offset sz))) G t1 \<and> may_write mode others G D"
      by (fastforce simp: tracks_def Diff_Un) }
  { assume i: "top_tier t i = None"
    have "W - S - in_region i (pages_of offset sz) = W - S" using tracks_absent [OF _ i off] P by blast
    then have "W - (S \<union> in_region i (pages_of offset sz)) = W - S" by blast
    then show "if False then (tracks mode others (W - S) G (CreateRegion i t) \<and> may_write mode others G D) \<and> top_tier (CreateRegion i t) i \<noteq> None
      else tracks mode others (W - (S \<union> in_region i (pages_of offset sz))) G t \<and> may_write mode others G D"
      using P by simp }
qed

interpretation unmark: page_walk False "change_region avx mode Type_GPU False" D "\<lambda>S t out. tracks mode others W (G - S) t"
  for avx mode others W G D
proof
  fix S t and out :: "'a list" and i offset sz
  assume P: "tracks mode others W (G - S) t" and off: "inside offset sz"
  { assume i: "top_tier t i \<noteq> None"
    show "\<exists>o1 t1. change_region avx mode Type_GPU False i offset sz t = Some (False, o1, t1) \<and>
        tracks mode others W (G - (S \<union> in_region i (pages_of offset sz))) t1"
      using change_gpu [OF _ i off, of mode others False avx] P by (fastforce simp: tracks_def Diff_Un) }
  { assume i: "top_tier t i = None"
    have "G - (S \<union> in_region i (pages_of offset sz)) = G - S" using tracks_absent [OF P i off] by blast
    then show "if False then tracks mode others W (G - S) (CreateRegion i t) \<and> top_tier (CreateRegion i t) i \<noteq> None
      else tracks mode others W (G - (S \<union> in_region i (pages_of offset sz))) t"
      using P by simp }
qed

text \<open>The two passes of an upload: the second finds every region of the range made by the first.\<close>

interpretation upload: page_walk True "upload_ranges avx mode" D
    "\<lambda>S t out. tracks mode others (W \<union> S) G t \<and> pages_of_ranges out = S - W"
  for avx mode others W G D
proof
  fix S t and out :: "(u64 \<times> u64) list" and i offset sz
  assume P: "tracks mode others (W \<union> S) G t \<and> pages_of_ranges out = S - W" and off: "inside offset sz"
    and n: "i < NUM_HIGH_PAGES"
  { assume i: "top_tier t i \<noteq> None"
    obtain o1 t1 where t1: "upload_ranges avx mode i offset sz t = Some (False, o1, t1)" "tracker_ok mode others t1"
      "pages_of_ranges o1 = in_region i (pages_of offset sz) - (W \<union> S)"
      "clean_pages t1 = W \<union> S \<union> in_region i (pages_of offset sz)" "gpu_pages t1 = G"
      using upload_one [OF _ i off, of mode others avx] P by (auto simp: tracks_def)
    moreover have "pages_of_ranges (out @ o1) = S \<union> in_region i (pages_of offset sz) - W"
      unfolding pages_of_ranges_simps t1(3) using P by blast
    ultimately show "\<exists>o1 t1. upload_ranges avx mode i offset sz t = Some (False, o1, t1) \<and>
        tracks mode others (W \<union> (S \<union> in_region i (pages_of offset sz))) G t1 \<and>
        pages_of_ranges (out @ o1) = S \<union> in_region i (pages_of offset sz) - W"
      by (auto simp: tracks_def Un_assoc) }
  { assume i: "top_tier t i = None"
    show "if True then (tracks mode others (W \<union> S) G (CreateRegion i t) \<and> pages_of_ranges out = S - W) \<and> top_tier (CreateRegion i t) i \<noteq> None
      else tracks mode others (W \<union> (S \<union> in_region i (pages_of offset sz))) G t \<and> pages_of_ranges out = S \<union> in_region i (pages_of offset sz) - W"
      using P tracks_create [OF _ i n] by auto }
qed

interpretation written: page_walk False "change_region avx mode Type_GPU True" D
    "\<lambda>S t out. tracks mode others W (G \<union> S) t \<and> D \<subseteq> W"
  for avx mode others W G D
proof
  fix S t and out :: "'a list" and i offset sz
  assume P: "tracks mode others W (G \<union> S) t \<and> D \<subseteq> W" and off: "inside offset sz"
    and D: "in_region i (pages_of offset sz) \<subseteq> D"
  { assume i: "top_tier t i \<noteq> None"
    have "\<forall>p\<in>in_region i (pages_of offset sz). p \<in> clean_pages t \<or> 0 < others p" using P D by (auto simp: tracks_def)
    with change_gpu [OF _ i off, of mode others True avx] P
    show "\<exists>o1 t1. change_region avx mode Type_GPU True i offset sz t = Some (False, o1, t1) \<and>
        tracks mode others W (G \<union> (S \<union> in_region i (pages_of offset sz))) t1 \<and> D \<subseteq> W"
      by (fastforce simp: tracks_def Un_assoc) }
  { assume i: "top_tier t i = None"
    have "in_region i (pages_of offset sz) = {}" using tracks_absent [OF _ i off] P D by blast
    then show "if False then (tracks mode others W (G \<union> S) (CreateRegion i t) \<and> D \<subseteq> W) \<and> top_tier (CreateRegion i t) i \<noteq> None
      else tracks mode others W (G \<union> (S \<union> in_region i (pages_of offset sz))) t \<and> D \<subseteq> W"
      using P by simp }
qed

interpretation download: page_walk False "download_ranges avx mode False" D
    "\<lambda>S t out. t = t0 \<and> tracks mode others W G t \<and> pages_of_ranges out = S \<inter> G"
  for avx mode others W G D t0
proof
  fix S t and out :: "(u64 \<times> u64) list" and i offset sz
  assume P: "t = t0 \<and> tracks mode others W G t \<and> pages_of_ranges out = S \<inter> G" and off: "inside offset sz"
  { assume i: "top_tier t i \<noteq> None"
    then obtain m where m: "top_tier t i = Some m" by blast
    have ok: "tracker_ok mode others t" "gpu_pages t = G" using P by (auto simp: tracks_def)
    have r: "i < 262144" "region_cpu_addr m = of_nat (i * 4194304)" "length (rm_gpu m) = 16"
      using ok(1) m by (auto simp: tracker_ok_def region_ok_def)
    obtain o1 where o1: "ForEachModifiedRange avx mode Type_GPU False (region_cpu_addr m + offset) sz (m, page_manager t) = Some (o1, m, page_manager t)"
      "pages_of_ranges o1 = in_region i (bits (rm_gpu m) \<inter> pages_of offset sz)"
      using download_region [OF r off] by blast
    have "in_region i (bits (rm_gpu m) \<inter> pages_of offset sz) = G \<inter> in_region i (pages_of offset sz)"
      using gpu_in_region [OF ok(1) m] ok(2) inside_pages_sub [OF off] by (auto simp: image_Int)
    moreover have "t\<lparr>top_tier := (top_tier t)(i \<mapsto> m), page_manager := page_manager t\<rparr> = t"
      using m by (simp add: fun_upd_idem)
    ultimately show "\<exists>o1 t1. download_ranges avx mode False i offset sz t = Some (False, o1, t1) \<and>
        t1 = t0 \<and> tracks mode others W G t1 \<and> pages_of_ranges (out @ o1) = (S \<union> in_region i (pages_of offset sz)) \<inter> G"
      using P o1 m by (auto simp: download_ranges_def on_region_def) }
  { assume i: "top_tier t i = None"
    show "if False then (CreateRegion i t = t0 \<and> tracks mode others W G (CreateRegion i t) \<and> pages_of_ranges out = S \<inter> G) \<and> top_tier (CreateRegion i t) i \<noteq> None
      else t = t0 \<and> tracks mode others W G t \<and> pages_of_ranges out = (S \<union> in_region i (pages_of offset sz)) \<inter> G"
      using P tracks_absent [OF _ i off, of mode others W G] by auto }
qed

interpretation cpu_query: page_query True "modified_in avx Type_CPU" "- W" "tracks mode others W G"
  for avx mode others W G
proof
  fix t i offset sz
  assume P: "tracks mode others W G t" and off: "inside offset sz" and n: "i < NUM_HIGH_PAGES"
  { assume "top_tier t i \<noteq> None"
    then obtain m where m: "top_tier t i = Some m" by blast
    have r: "length (rm_cpu m) = 16" "\<And>k. k < 1024 \<Longrightarrow> region_page i + k \<in> W \<longleftrightarrow> k \<notin> bits (rm_cpu m)"
      using P m by (auto simp: tracks_def tracker_ok_def region_ok_def)
    have "bits (rm_cpu m) \<inter> pages_of offset sz \<noteq> {} \<longleftrightarrow> in_region i (pages_of offset sz) \<inter> - W \<noteq> {}"
      using r(2) inside_pages_sub [OF off] by (auto simp: in_region_iff)
    then show "modified_in avx Type_CPU i offset sz t = Some (in_region i (pages_of offset sz) \<inter> - W \<noteq> {}, [], t)"
      using m r(1) IsRegionModified_iff [OF off, of Type_CPU m avx] by (simp add: modified_in_def GetRegionBits_def) }
  { assume "top_tier t i = None"
    then show "if True then tracks mode others W G (CreateRegion i t) \<and> top_tier (CreateRegion i t) i \<noteq> None
      else in_region i (pages_of offset sz) \<inter> - W = {}"
      using tracks_create [OF P _ n] by simp }
qed

interpretation gpu_query: page_query False "modified_in avx Type_GPU" G "\<lambda>t. t = t0 \<and> tracks mode others W G t"
  for avx mode others W G t0
proof
  fix t i offset sz
  assume P: "t = t0 \<and> tracks mode others W G t" and off: "inside offset sz"
  { assume "top_tier t i \<noteq> None"
    then obtain m where m: "top_tier t i = Some m" by blast
    have ok: "tracker_ok mode others t" "gpu_pages t = G" using P by (auto simp: tracks_def)
    then have l: "length (rm_gpu m) = 16" using m by (auto simp: tracker_ok_def region_ok_def)
    have "in_region i (bits (rm_gpu m) \<inter> pages_of offset sz) = G \<inter> in_region i (pages_of offset sz)"
      using gpu_in_region [OF ok(1) m] ok(2) inside_pages_sub [OF off] by (auto simp: image_Int)
    then have "bits (rm_gpu m) \<inter> pages_of offset sz \<noteq> {} \<longleftrightarrow> in_region i (pages_of offset sz) \<inter> G \<noteq> {}" by blast
    then show "modified_in avx Type_GPU i offset sz t = Some (in_region i (pages_of offset sz) \<inter> G \<noteq> {}, [], t)"
      using m l IsRegionModified_iff [OF off, of Type_GPU m avx] by (simp add: modified_in_def GetRegionBits_def) }
  { assume "top_tier t i = None"
    then show "if False then (CreateRegion i t = t0 \<and> tracks mode others W G (CreateRegion i t)) \<and> top_tier (CreateRegion i t) i \<noteq> None
      else in_region i (pages_of offset sz) \<inter> G = {}"
      using tracks_absent [OF conjunct2 [OF P] _ off, of i] by simp }
qed

subsection \<open>Every operation on its pages\<close>

definition in_space :: "u64 \<Rightarrow> u64 \<Rightarrow> bool" where
  "in_space addr sz \<longleftrightarrow> 0 < sz \<and> unat addr + unat sz \<le> 2 ^ 40"

lemma MarkRegionAsCpuModified_run:
  assumes t: "tracks mode others W G t" and r: "in_space addr sz" and w: "may_write mode others G (pages_of addr sz)"
  shows "\<exists>t1. MarkRegionAsCpuModified avx mode addr sz t = Some t1 \<and> tracks mode others (W - pages_of addr sz) G t1"
  using mark.walk_pages [of mode others W G t "pages_of addr sz" addr sz avx, where 'a = unit] assms
  by (auto simp: MarkRegionAsCpuModified_def in_space_def)

lemma UnmarkRegionAsGpuModified_run:
  assumes t: "tracks mode others W G t" and r: "in_space addr sz"
  shows "\<exists>t1. UnmarkRegionAsGpuModified avx mode addr sz t = Some t1 \<and> tracks mode others W (G - pages_of addr sz) t1"
  using unmark.walk_pages [of mode others W G t addr sz "pages_of addr sz" avx, where 'a = unit] assms
  by (auto simp: UnmarkRegionAsGpuModified_def in_space_def)

lemma ForEachUploadRange_run:
  assumes t: "tracks mode others W G t" and r: "in_space addr sz"
  shows "\<exists>out t1. ForEachUploadRange avx mode addr sz is_written t = Some (out, t1) \<and>
      pages_of_ranges out = pages_of addr sz - W \<and>
      tracks mode others (W \<union> pages_of addr sz) (if is_written then G \<union> pages_of addr sz else G) t1"
proof -
  obtain out t1 where t1: "IteratePages True (upload_ranges avx mode) addr sz t = Some (False, out, t1)"
    "tracks mode others (W \<union> pages_of addr sz) G t1" "pages_of_ranges out = pages_of addr sz - W"
    using upload.walk_pages [of mode others W G t addr sz "pages_of addr sz" avx] assms by (auto simp: in_space_def)
  obtain none t2 where "IteratePages False (change_region avx mode Type_GPU True :: unit visitor) addr sz t1 = Some (False, none, t2)"
    "tracks mode others (W \<union> pages_of addr sz) (G \<union> pages_of addr sz) t2"
    using written.walk_pages [of mode others "W \<union> pages_of addr sz" G t1 "pages_of addr sz" addr sz avx, where 'a = unit] t1(2) r
    by (auto simp: in_space_def)
  with t1 show ?thesis by (cases is_written) (simp_all add: ForEachUploadRange_def)
qed

lemma ForEachDownloadRange_run:
  assumes t: "tracks mode others W G t" and r: "in_space addr sz"
  shows "\<exists>out. ForEachDownloadRange avx mode False addr sz t = Some (out, t) \<and> pages_of_ranges out = pages_of addr sz \<inter> G"
  using download.walk_pages [of t t mode others W G addr sz "pages_of addr sz" avx] assms
  by (auto simp: ForEachDownloadRange_def in_space_def)

lemma IsRegionCpuModified_run:
  assumes t: "tracks mode others W G t" and r: "in_space addr sz"
  shows "\<exists>t1. IsRegionCpuModified avx addr sz t = Some (\<not> pages_of addr sz \<subseteq> W, t1) \<and> tracks mode others W G t1"
proof -
  obtain t1 where "IteratePages True (modified_in avx Type_CPU :: unit visitor) addr sz t = Some (pages_of addr sz \<inter> - W \<noteq> {}, [], t1)"
    "tracks mode others W G t1"
    using cpu_query.ask_pages [OF t, of addr sz avx, where 'a = unit] r by (auto simp: in_space_def)
  moreover have "(pages_of addr sz \<inter> - W \<noteq> {}) = (\<not> pages_of addr sz \<subseteq> W)" by blast
  ultimately show ?thesis by (simp add: IsRegionCpuModified_def)
qed

lemma IsRegionGpuModified_run:
  assumes t: "tracks mode others W G t" and r: "in_space addr sz"
  shows "IsRegionGpuModified avx addr sz t = Some (pages_of addr sz \<inter> G \<noteq> {}, t)"
  using gpu_query.ask_pages [of t t mode others W G addr sz avx, where 'a = unit] assms
  by (auto simp: IsRegionGpuModified_def in_space_def)

subsection \<open>A write to a watched page\<close>

text \<open>
  What the buffer cache does when an invalidation hits pages the GPU has modified.  \<^verbatim>\<open>write_data\<close> is the
  end of \<^verbatim>\<open>DownloadBufferMemory\<close>, after the data has been copied back to guest memory.  The bytes the GPU
  has modified are kept beside the tracker, in \<^verbatim>\<open>gpu_modified_ranges\<close>: \<open>gpu_bytes\<close> says whether there are
  any in the ranges to download, and without any the function returns at once, with no page unmarked
  or marked.  (The first download of a range takes its bytes out of that set, so a later download in
  the same invalidation, which happens only after an early return, returns early too.)
\<close>

definition write_data :: "bool \<Rightarrow> GpuReadbacksMode \<Rightarrow> u64 \<Rightarrow> u64 \<Rightarrow> bool \<Rightarrow> MemoryTracker \<Rightarrow> MemoryTracker option" where
  "write_data avx mode device_addr sz is_write t =
     do {
       t \<leftarrow> UnmarkRegionAsGpuModified avx mode device_addr sz t;
       if is_write then MarkRegionAsCpuModified avx mode device_addr sz t else Some t
     }"

definition DownloadBufferMemory ::
    "bool \<Rightarrow> GpuReadbacksMode \<Rightarrow> bool \<Rightarrow> u64 \<Rightarrow> u64 \<Rightarrow> bool \<Rightarrow> MemoryTracker \<Rightarrow> MemoryTracker option" where
  "DownloadBufferMemory avx mode gpu_bytes device_addr sz is_write t =
     do {
       (ranges, t) \<leftarrow> ForEachDownloadRange avx mode False device_addr sz t;
       if ranges = [] \<or> \<not> gpu_bytes then Some t else write_data avx mode device_addr sz is_write t
     }"

lemma write_data_run:
  assumes t: "tracks mode others W G t" and r: "in_space addr sz"
  shows "\<exists>t1. write_data avx mode addr sz True t = Some t1 \<and> tracks mode others (W - pages_of addr sz) (G - pages_of addr sz) t1"
proof -
  obtain t1 where t1: "UnmarkRegionAsGpuModified avx mode addr sz t = Some t1" "tracks mode others W (G - pages_of addr sz) t1"
    using UnmarkRegionAsGpuModified_run [OF t r] by blast
  have "may_write mode others (G - pages_of addr sz) (pages_of addr sz)" by (auto simp: may_write_def)
  with MarkRegionAsCpuModified_run [OF t1(2) r] t1(1) show ?thesis by (simp add: write_data_def)
qed

lemma DownloadBufferMemory_run:
  assumes t: "tracks mode others W G t" and r: "in_space addr sz" and g: "G \<inter> pages_of addr sz \<noteq> {}"
  shows "\<exists>t1. DownloadBufferMemory avx mode gpu_bytes addr sz True t = Some t1 \<and>
    (if gpu_bytes then tracks mode others (W - pages_of addr sz) (G - pages_of addr sz) t1 else t1 = t)"
proof -
  obtain out where out: "ForEachDownloadRange avx mode False addr sz t = Some (out, t)"
    "pages_of_ranges out = pages_of addr sz \<inter> G" using ForEachDownloadRange_run [OF t r] by blast
  have "out \<noteq> []" using out(2) g by auto
  then show ?thesis using out(1) write_data_run [OF t r, of avx] by (simp add: DownloadBufferMemory_def)
qed

text \<open>
  The pages of a range that an early return leaves alone: those of the regions in which the GPU has
  modified a page of the range.
\<close>

definition kept_pages :: "GpuReadbacksMode \<Rightarrow> bool \<Rightarrow> nat set \<Rightarrow> nat set \<Rightarrow> nat set" where
  "kept_pages mode gpu_bytes G D =
     (if mode = Readbacks_Disabled \<or> gpu_bytes then {} else {p \<in> D. \<exists>q \<in> G \<inter> D. q div 1024 = p div 1024})"

definition invalidated ::
    "GpuReadbacksMode \<Rightarrow> bool \<Rightarrow> (nat \<Rightarrow> nat) \<Rightarrow> nat set \<Rightarrow> nat set \<Rightarrow> nat set \<Rightarrow> nat set \<Rightarrow> MemoryTracker \<Rightarrow> bool" where
  "invalidated mode gpu_bytes others W G D S t \<longleftrightarrow>
     (if gpu_bytes \<and> mode \<noteq> Readbacks_Disabled \<and> G \<inter> S \<noteq> {} then tracks mode others (W - D) (G - D) t
      else tracks mode others (W - (S - kept_pages mode gpu_bytes G D)) G t)"

text \<open>One region of an invalidation, before and after the flush.\<close>

lemma invalidate_one:
  assumes t: "tracks mode others W G t" and i: "top_tier t i \<noteq> None" and off: "inside offset sz"
  shows "invalidate_region avx mode flush i offset sz t =
      (if mode \<noteq> Readbacks_Disabled \<and> G \<inter> in_region i (pages_of offset sz) \<noteq> {}
       then do { t \<leftarrow> flush t; Some (False, [], t) }
       else change_region avx mode Type_CPU True i offset sz t)"
proof -
  obtain m where m: "top_tier t i = Some m" using i by blast
  have "modified_in avx Type_GPU i offset sz t = Some (in_region i (pages_of offset sz) \<inter> G \<noteq> {}, [] :: unit list, t)"
    using gpu_query.query [of t t mode others W G i offset sz avx, where 'a = unit] t i off m
      tracks_def [of mode others W G t]
    by (cases "i < NUM_HIGH_PAGES") (auto simp: tracker_ok_def region_ok_def NUM_HIGH_PAGES_def)
  then have "IsRegionModified avx Type_GPU offset sz m \<longleftrightarrow> G \<inter> in_region i (pages_of offset sz) \<noteq> {}"
    using m by (simp add: modified_in_def Int_commute)
  then show ?thesis using m by (simp add: invalidate_region_def)
qed

lemma invalidate_mark:
  assumes t: "tracks mode others W G t" and i: "top_tier t i \<noteq> None" and off: "inside offset sz"
    and g: "mode = Readbacks_Disabled \<or> G \<inter> in_region i (pages_of offset sz) = {}"
  shows "\<exists>t1. invalidate_region avx mode flush i offset sz t = Some (False, [], t1) \<and>
      tracks mode others (W - in_region i (pages_of offset sz)) G t1"
proof -
  have "\<forall>p\<in>in_region i (pages_of offset sz). p \<in> read_watched mode t \<longrightarrow> 0 < others p"
    using t g by (auto simp: tracks_def read_watched_def)
  moreover have ok: "tracker_ok mode others t" "clean_pages t = W" "gpu_pages t = G" using t by (auto simp: tracks_def)
  ultimately obtain t1 where "change_region avx mode Type_CPU True i offset sz t = Some (False, [] :: 'a list, t1)"
    "tracker_ok mode others t1" "clean_pages t1 = W - in_region i (pages_of offset sz)" "gpu_pages t1 = G"
    using change_cpu [OF ok(1) i off, of True avx] by auto
  moreover have "\<not> (mode \<noteq> Readbacks_Disabled \<and> G \<inter> in_region i (pages_of offset sz) \<noteq> {})" using g by blast
  ultimately show ?thesis unfolding invalidate_one [OF t i off] tracks_def by (simp only: if_False) simp
qed

interpretation invalidate: page_walk False
    "invalidate_region avx mode (DownloadBufferMemory avx mode gpu_bytes addr len True)" "pages_of addr len"
    "\<lambda>S t out. in_space addr len \<and> S \<subseteq> pages_of addr len \<and> invalidated mode gpu_bytes others W G (pages_of addr len) S t"
  for avx mode gpu_bytes others W G addr len
proof
  fix S t and out :: "'a list" and i offset sz
  let ?D = "pages_of addr len" and ?X = "in_region i (pages_of offset sz)"
  let ?K = "kept_pages mode gpu_bytes G ?D"
  let ?f = "invalidate_region avx mode (DownloadBufferMemory avx mode gpu_bytes addr len True) :: 'a visitor"
  assume P: "in_space addr len \<and> S \<subseteq> ?D \<and> invalidated mode gpu_bytes others W G ?D S t" and off: "inside offset sz"
    and D: "?X \<subseteq> ?D"
  have SD: "S \<union> ?X \<subseteq> ?D" using P D by (intro Un_least) simp_all
  { assume i: "top_tier t i \<noteq> None" and X: "?X = {p \<in> ?D. p div 1024 = i}"
    show "\<exists>o1 t1. ?f i offset sz t = Some (False, o1, t1) \<and>
        in_space addr len \<and> S \<union> ?X \<subseteq> ?D \<and> invalidated mode gpu_bytes others W G ?D (S \<union> ?X) t1"
    proof (cases "gpu_bytes \<and> mode \<noteq> Readbacks_Disabled \<and> G \<inter> S \<noteq> {}")
      case True
      then have t: "tracks mode others (W - ?D) (G - ?D) t" using P by (simp add: invalidated_def)
      have e: "W - ?D - ?X = W - ?D" "(G - ?D) \<inter> ?X = {}" using D by blast+
      obtain t1 where t1: "?f i offset sz t = Some (False, [] :: 'a list, t1)" "tracks mode others (W - ?D) (G - ?D) t1"
        using invalidate_mark [OF t i off disjI2 [OF e(2)], of avx, unfolded e(1)] by metis
      have "G \<inter> (S \<union> ?X) \<noteq> {}" using True by blast
      then have inv: "invalidated mode gpu_bytes others W G ?D (S \<union> ?X) t1" using True t1(2) by (simp add: invalidated_def)
      show ?thesis
        by (rule exI [of _ "[]"], rule exI [of _ t1]) (simp only: t1(1) inv SD conjunct1 [OF P] simp_thms)
    next
      case False
      then have t: "tracks mode others (W - (S - ?K)) G t" using P by (simp only: invalidated_def if_False simp_thms)
      show ?thesis
      proof (cases "mode \<noteq> Readbacks_Disabled \<and> G \<inter> ?X \<noteq> {}")
        case True
        then have g: "G \<inter> ?D \<noteq> {}" using D by blast
        obtain t1 where t1: "DownloadBufferMemory avx mode gpu_bytes addr len True t = Some t1"
          "if gpu_bytes then tracks mode others (W - (S - ?K) - ?D) (G - ?D) t1 else t1 = t"
          using DownloadBufferMemory_run [OF t _ g, of avx gpu_bytes] P by blast
        have f: "?f i offset sz t = Some (False, [], t1)"
          using t1(1) True by (simp add: invalidate_one [OF t i off])
        have "invalidated mode gpu_bytes others W G ?D (S \<union> ?X) t1"
        proof (cases gpu_bytes)
          case b: True
          have "W - (S - ?K) - ?D = W - ?D" using P by blast
          moreover have "G \<inter> (S \<union> ?X) \<noteq> {}" using True by blast
          ultimately show ?thesis using t1(2) True b by (simp add: invalidated_def)
        next
          case b: False
          have "?X \<subseteq> ?K" using True b X by (auto simp: kept_pages_def)
          then have "S \<union> ?X - ?K = S - ?K" by blast
          then show ?thesis using t t1(2) b by (simp add: invalidated_def)
        qed
        then show ?thesis using f SD P by blast
      next
        case no: False
        then have n: "\<not> (gpu_bytes \<and> mode \<noteq> Readbacks_Disabled \<and> G \<inter> (S \<union> ?X) \<noteq> {})" using False by blast
        have g: "mode = Readbacks_Disabled \<or> G \<inter> ?X = {}" using no by blast
        then have "?X \<inter> ?K = {}" using X by (auto simp: kept_pages_def)
        then have e: "W - (S - ?K) - ?X = W - (S \<union> ?X - ?K)" by blast
        obtain t1 where t1: "?f i offset sz t = Some (False, [] :: 'a list, t1)" "tracks mode others (W - (S \<union> ?X - ?K)) G t1"
          using invalidate_mark [OF t i off g, of avx, unfolded e] by metis
        have "invalidated mode gpu_bytes others W G ?D (S \<union> ?X) t1" unfolding invalidated_def if_not_P [OF n] by (rule t1(2))
        then show ?thesis
        by (intro exI [of _ "[]"] exI [of _ t1] conjI) (use t1(1) P D in blast)+
      qed
    qed }
  { assume i: "top_tier t i = None"
    have "invalidated mode gpu_bytes others W G ?D (S \<union> ?X) t"
    proof (cases "gpu_bytes \<and> mode \<noteq> Readbacks_Disabled \<and> G \<inter> S \<noteq> {}")
      case True
      with P show ?thesis by (auto simp: invalidated_def)
    next
      case False
      then have t: "tracks mode others (W - (S - ?K)) G t" using P by (simp only: invalidated_def if_False simp_thms)
      have e: "G \<inter> (S \<union> ?X) = G \<inter> S" "W - (S \<union> ?X - ?K) = W - (S - ?K)" using tracks_absent [OF t i off] by blast+
      show ?thesis unfolding invalidated_def e if_not_P [OF False] by (rule t)
    qed
    then show "if False then (in_space addr len \<and> S \<subseteq> ?D \<and> invalidated mode gpu_bytes others W G ?D S (CreateRegion i t)) \<and> top_tier (CreateRegion i t) i \<noteq> None
      else in_space addr len \<and> S \<union> ?X \<subseteq> ?D \<and> invalidated mode gpu_bytes others W G ?D (S \<union> ?X) t"
      using P D by simp }
qed

lemma InvalidateRegion_run:
  assumes t: "tracks mode others W G t" and r: "in_space addr sz"
  shows "\<exists>t1. InvalidateRegion avx mode addr sz (DownloadBufferMemory avx mode gpu_bytes addr sz True) t = Some t1 \<and>
      tracks mode others (W - (pages_of addr sz - kept_pages mode gpu_bytes G (pages_of addr sz)))
        (if mode \<noteq> Readbacks_Disabled \<and> gpu_bytes then G - pages_of addr sz else G) t1"
proof -
  let ?D = "pages_of addr sz"
  have "in_space addr sz \<and> {} \<subseteq> ?D \<and> invalidated mode gpu_bytes others W G ?D {} t"
    using t r by (simp add: invalidated_def)
  from invalidate.walk_pages [where avx = avx and 'a = unit, OF this, of addr sz] r
  obtain o1 t1 where i: "IteratePages False (invalidate_region avx mode (DownloadBufferMemory avx mode gpu_bytes addr sz True)
      :: unit visitor) addr sz t = Some (False, o1, t1)" "invalidated mode gpu_bytes others W G ?D ?D t1"
    by (auto simp: in_space_def)
  have "G - ?D = G" if "G \<inter> ?D = {}" using that by blast
  then show ?thesis
    using i by (cases gpu_bytes) (auto simp: InvalidateRegion_def invalidated_def kept_pages_def split: if_splits)
qed

subsection \<open>The host protection\<close>

text \<open>A page may be read or written without a fault exactly when nobody has to hear of it.\<close>

lemma host_protection:
  assumes "tracks mode others W G t"
  shows "page_perms (page_manager t) p =
      (if mode = Readbacks_Precise \<and> p \<in> G then 0 else Perm_Read) OR
      (if p \<in> W \<or> 0 < others p then 0 else Perm_Write)"
proof -
  have c: "counts_ok others W (read_watched mode t) (page_manager t)" and R: "read_watched mode t = (if mode = Readbacks_Precise then G else {})"
    using assms by (auto simp: tracks_def tracker_ok_def read_watched_def)
  then have w: "watchers False (cached_pages (page_manager t) p) = others p + (if p \<in> W then 1 else 0)"
    "watchers True (cached_pages (page_manager t) p) = (if p \<in> read_watched mode t then 1 else 0)"
    "page_perms (page_manager t) p = Perms (cached_pages (page_manager t) p)"
    by (auto simp: counts_ok_def synced_def)
  show ?thesis unfolding w(3) Perms_watchers w(1,2) R by auto
qed

text \<open>The texture cache watches the pages of its images through the same page manager.\<close>

definition watch_image :: "bool \<Rightarrow> u64 \<Rightarrow> u64 \<Rightarrow> MemoryTracker \<Rightarrow> MemoryTracker option" where
  "watch_image track addr sz t =
     do {
       pm \<leftarrow> UpdatePageWatchers track False addr sz (page_manager t);
       Some (t\<lparr>page_manager := pm\<rparr>)
     }"

definition watch_more :: "bool \<Rightarrow> nat set \<Rightarrow> (nat \<Rightarrow> nat) \<Rightarrow> nat \<Rightarrow> nat" where
  "watch_more track D others = (\<lambda>p. if p \<in> D then (if track then others p + 1 else others p - 1) else others p)"

definition may_watch :: "bool \<Rightarrow> GpuReadbacksMode \<Rightarrow> (nat \<Rightarrow> nat) \<Rightarrow> nat set \<Rightarrow> nat set \<Rightarrow> nat set \<Rightarrow> bool" where
  "may_watch track mode others W G D \<longleftrightarrow>
     (\<forall>p\<in>D. if track then others p < 126
            else 0 < others p \<and> (mode = Readbacks_Precise \<and> p \<in> G \<longrightarrow> p \<in> W \<or> 1 < others p))"

lemma watch_image_run:
  assumes t: "tracks mode others W G t" and r: "in_space addr sz"
    and m: "may_watch track mode others W G (pages_of addr sz)"
  shows "\<exists>t1. watch_image track addr sz t = Some t1 \<and> tracks mode (watch_more track (pages_of addr sz) others) W G t1"
proof -
  let ?D = "pages_of addr sz" and ?f = "cached_pages (page_manager t)" and ?R = "read_watched mode t"
  have R: "?R = (if mode = Readbacks_Precise then G else {})" using t by (auto simp: tracks_def read_watched_def)
  have c: "counts_ok others W ?R (page_manager t)" using t by (auto simp: tracks_def tracker_ok_def)
  have w: "watchers False (?f p) = others p + (if p \<in> W then 1 else 0)" "others p \<le> 126"
    "watchers True (?f p) = (if p \<in> ?R then 1 else 0)" for p
    using c by (simp_all add: counts_ok_def)
  have can: "can_bump track False (?f p)" if "p \<in> ?D" for p
  proof -
    have lim: "if track then watchers False (?f p) < max_watchers False else 0 < watchers False (?f p)"
      using m that w [of p] by (cases track) (auto simp: may_watch_def max_watchers_def)
    have "watchers False (bump track False (?f p)) = (if track then watchers False (?f p) + 1 else watchers False (?f p) - 1)"
      using lim by (cases track) (simp_all add: bump_def watchers_def max_watchers_def word_inc bump_word)
    moreover have "watchers True (bump track False (?f p)) = watchers True (?f p)" by (simp add: bump_def watchers_def)
    ultimately have "Perms (bump track False (?f p)) \<noteq> Perm_Write"
      using m that w [of p] R by (cases track) (auto simp: Perms_not_write may_watch_def)
    with lim show ?thesis by (simp add: can_bump_def)
  qed
  have sy: "synced (page_manager t)" using c by (simp add: counts_ok_def)
  obtain pm where pm: "UpdatePageWatchers track False addr sz (page_manager t) = Some pm" "synced pm"
    "cached_pages pm = bump_all track False ?D ?f"
    using UpdatePageWatchers_run [OF sy, of addr sz track False] can r
    by (auto simp: in_space_def NUM_ADDRESS_PAGES_def)
  have b: "watchers False (cached_pages pm p) =
        (if p \<in> ?D then (if track then watchers False (?f p) + 1 else watchers False (?f p) - 1) else watchers False (?f p)) \<and>
      watchers True (cached_pages pm p) = watchers True (?f p)" for p
    using watchers_bump [OF can, of p] by (auto simp: pm(3) bump_all_def)
  have "counts_ok (watch_more track ?D others) W ?R pm"
    unfolding counts_ok_def
  proof (intro conjI allI pm(2))
    fix p
    have o: "p \<in> ?D \<Longrightarrow> if track then others p < 126 else 0 < others p \<and> (p \<in> ?R \<longrightarrow> p \<in> W \<or> 1 < others p)"
      using m R by (auto simp: may_watch_def)
    have old: "p \<in> ?R \<longrightarrow> p \<in> W \<or> 0 < others p" using c by (simp add: counts_ok_def)
    show "watchers False (cached_pages pm p) = watch_more track ?D others p + (if p \<in> W then 1 else 0)"
      using b [of p] w [of p] o by (cases "p \<in> ?D"; cases track) (auto simp: watch_more_def)
    show "watch_more track ?D others p \<le> 126"
      using w [of p] o by (cases "p \<in> ?D"; cases track) (auto simp: watch_more_def)
    show "watchers True (cached_pages pm p) = (if p \<in> ?R then 1 else 0)" using b [of p] w [of p] by simp
    show "p \<in> ?R \<longrightarrow> p \<in> W \<or> 0 < watch_more track ?D others p"
      using old o by (cases "p \<in> ?D"; cases track) (auto simp: watch_more_def)
  qed
  moreover have "clean_pages (t\<lparr>page_manager := pm\<rparr>) = clean_pages t" "gpu_pages (t\<lparr>page_manager := pm\<rparr>) = gpu_pages t"
    "read_watched mode (t\<lparr>page_manager := pm\<rparr>) = ?R"
    by (simp_all add: clean_pages_def gpu_pages_def read_watched_def)
  ultimately have "tracks mode (watch_more track ?D others) W G (t\<lparr>page_manager := pm\<rparr>)"
    using t by (auto simp: tracks_def tracker_ok_def)
  with pm(1) show ?thesis by (simp add: watch_image_def)
qed

subsection \<open>Any sequence of operations\<close>

datatype tracker_op =
    Op_Mark u64 u64 | Op_Unmark u64 u64 | Op_Invalidate bool u64 u64 | Op_Upload u64 u64 bool | Op_Download u64 u64
  | Op_CpuQuery u64 u64 | Op_GpuQuery u64 u64 | Op_Watch bool u64 u64

datatype tracker_out = Out_None | Out_Ranges "(u64 \<times> u64) list" | Out_Bool bool

fun tracker_exec :: "bool \<Rightarrow> GpuReadbacksMode \<Rightarrow> tracker_op \<Rightarrow> MemoryTracker \<Rightarrow> (tracker_out \<times> MemoryTracker) option" where
  "tracker_exec avx mode (Op_Mark a n) t = map_option (Pair Out_None) (MarkRegionAsCpuModified avx mode a n t)"
| "tracker_exec avx mode (Op_Unmark a n) t = map_option (Pair Out_None) (UnmarkRegionAsGpuModified avx mode a n t)"
| "tracker_exec avx mode (Op_Invalidate gpu_bytes a n) t =
     map_option (Pair Out_None) (InvalidateRegion avx mode a n (DownloadBufferMemory avx mode gpu_bytes a n True) t)"
| "tracker_exec avx mode (Op_Upload a n w) t =
     map_option (\<lambda>(out, t). (Out_Ranges out, t)) (ForEachUploadRange avx mode a n w t)"
| "tracker_exec avx mode (Op_Download a n) t =
     map_option (\<lambda>(out, t). (Out_Ranges out, t)) (ForEachDownloadRange avx mode False a n t)"
| "tracker_exec avx mode (Op_CpuQuery a n) t = map_option (\<lambda>(b, t). (Out_Bool b, t)) (IsRegionCpuModified avx a n t)"
| "tracker_exec avx mode (Op_GpuQuery a n) t = map_option (\<lambda>(b, t). (Out_Bool b, t)) (IsRegionGpuModified avx a n t)"
| "tracker_exec avx mode (Op_Watch track a n) t = map_option (Pair Out_None) (watch_image track a n t)"

text \<open>The abstract machine: its state, its steps, its answers, and what a caller must respect.\<close>

type_synonym page_sets = "(nat \<Rightarrow> nat) \<times> nat set \<times> nat set"

fun spec_step :: "GpuReadbacksMode \<Rightarrow> tracker_op \<Rightarrow> page_sets \<Rightarrow> page_sets" where
  "spec_step mode (Op_Mark a n) (others, W, G) = (others, W - pages_of a n, G)"
| "spec_step mode (Op_Unmark a n) (others, W, G) = (others, W, G - pages_of a n)"
| "spec_step mode (Op_Invalidate gpu_bytes a n) (others, W, G) =
     (others, W - (pages_of a n - kept_pages mode gpu_bytes G (pages_of a n)),
      if mode \<noteq> Readbacks_Disabled \<and> gpu_bytes then G - pages_of a n else G)"
| "spec_step mode (Op_Upload a n w) (others, W, G) =
     (others, W \<union> pages_of a n, if w then G \<union> pages_of a n else G)"
| "spec_step mode (Op_Watch track a n) (others, W, G) = (watch_more track (pages_of a n) others, W, G)"
| "spec_step mode _ s = s"

fun answers :: "tracker_op \<Rightarrow> page_sets \<Rightarrow> tracker_out \<Rightarrow> bool" where
  "answers (Op_Upload a n w) (others, W, G) (Out_Ranges out) \<longleftrightarrow> pages_of_ranges out = pages_of a n - W"
| "answers (Op_Download a n) (others, W, G) (Out_Ranges out) \<longleftrightarrow> pages_of_ranges out = pages_of a n \<inter> G"
| "answers (Op_CpuQuery a n) (others, W, G) (Out_Bool b) \<longleftrightarrow> b = (\<not> pages_of a n \<subseteq> W)"
| "answers (Op_GpuQuery a n) (others, W, G) (Out_Bool b) \<longleftrightarrow> b = (pages_of a n \<inter> G \<noteq> {})"
| "answers _ _ out \<longleftrightarrow> out = Out_None"

fun allowed :: "GpuReadbacksMode \<Rightarrow> tracker_op \<Rightarrow> page_sets \<Rightarrow> bool" where
  "allowed mode (Op_Mark a n) (others, W, G) \<longleftrightarrow> in_space a n \<and> may_write mode others G (pages_of a n)"
| "allowed mode (Op_Watch track a n) (others, W, G) \<longleftrightarrow> in_space a n \<and> may_watch track mode others W G (pages_of a n)"
| "allowed mode (Op_Unmark a n) s \<longleftrightarrow> in_space a n"
| "allowed mode (Op_Invalidate b a n) s \<longleftrightarrow> in_space a n"
| "allowed mode (Op_Upload a n w) s \<longleftrightarrow> in_space a n"
| "allowed mode (Op_Download a n) s \<longleftrightarrow> in_space a n"
| "allowed mode (Op_CpuQuery a n) s \<longleftrightarrow> in_space a n"
| "allowed mode (Op_GpuQuery a n) s \<longleftrightarrow> in_space a n"

definition tracks_sets :: "GpuReadbacksMode \<Rightarrow> page_sets \<Rightarrow> MemoryTracker \<Rightarrow> bool" where
  "tracks_sets mode s t \<longleftrightarrow> tracks mode (fst s) (fst (snd s)) (snd (snd s)) t"

lemma tracker_step:
  assumes "tracks_sets mode s t" "allowed mode op s"
  shows "\<exists>out t1. tracker_exec avx mode op t = Some (out, t1) \<and> answers op s out \<and> tracks_sets mode (spec_step mode op s) t1"
proof -
  obtain others W G where s: "s = (others, W, G)" by (cases s)
  have t: "tracks mode others W G t" using assms(1) by (simp add: s tracks_sets_def)
  show ?thesis
  proof (cases op)
    case (Op_Mark a n)
    then show ?thesis using MarkRegionAsCpuModified_run [OF t, of a n avx] assms(2) by (auto simp: s tracks_sets_def)
  next
    case (Op_Unmark a n)
    then show ?thesis using UnmarkRegionAsGpuModified_run [OF t, of a n avx] assms(2) by (auto simp: s tracks_sets_def)
  next
    case (Op_Invalidate gpu_bytes a n)
    then show ?thesis using InvalidateRegion_run [OF t, of a n avx gpu_bytes] assms(2) by (auto simp: s tracks_sets_def)
  next
    case (Op_Upload a n w)
    then show ?thesis using ForEachUploadRange_run [OF t, of a n avx w] assms(2) by (cases w) (auto simp: s tracks_sets_def)
  next
    case (Op_Download a n)
    then show ?thesis using ForEachDownloadRange_run [OF t, of a n avx] assms(2) t by (auto simp: s tracks_sets_def)
  next
    case (Op_CpuQuery a n)
    then show ?thesis using IsRegionCpuModified_run [OF t, of a n avx] assms(2) by (auto simp: s tracks_sets_def)
  next
    case (Op_GpuQuery a n)
    then show ?thesis using IsRegionGpuModified_run [OF t, of a n avx] assms(2) t by (auto simp: s tracks_sets_def)
  next
    case (Op_Watch track a n)
    then show ?thesis using watch_image_run [OF t, of a n track] assms(2) by (auto simp: s tracks_sets_def)
  qed
qed

fun tracker_run :: "bool \<Rightarrow> GpuReadbacksMode \<Rightarrow> tracker_op list \<Rightarrow> MemoryTracker \<Rightarrow> (tracker_out list \<times> MemoryTracker) option" where
  "tracker_run avx mode [] t = Some ([], t)"
| "tracker_run avx mode (op # ops) t =
     do {
       (out, t) \<leftarrow> tracker_exec avx mode op t;
       (outs, t) \<leftarrow> tracker_run avx mode ops t;
       Some (out # outs, t)
     }"

fun spec_run :: "GpuReadbacksMode \<Rightarrow> tracker_op list \<Rightarrow> page_sets \<Rightarrow> page_sets" where
  "spec_run mode [] s = s"
| "spec_run mode (op # ops) s = spec_run mode ops (spec_step mode op s)"

fun allowed_run :: "GpuReadbacksMode \<Rightarrow> tracker_op list \<Rightarrow> page_sets \<Rightarrow> bool" where
  "allowed_run mode [] s \<longleftrightarrow> True"
| "allowed_run mode (op # ops) s \<longleftrightarrow> allowed mode op s \<and> allowed_run mode ops (spec_step mode op s)"

fun answers_run :: "GpuReadbacksMode \<Rightarrow> tracker_op list \<Rightarrow> page_sets \<Rightarrow> tracker_out list \<Rightarrow> bool" where
  "answers_run mode [] s outs \<longleftrightarrow> outs = []"
| "answers_run mode (op # ops) s [] \<longleftrightarrow> False"
| "answers_run mode (op # ops) s (out # outs) \<longleftrightarrow> answers op s out \<and> answers_run mode ops (spec_step mode op s) outs"

lemma tracker_run_tracks:
  "tracks_sets mode s t \<Longrightarrow> allowed_run mode ops s \<Longrightarrow>
   \<exists>outs t1. tracker_run avx mode ops t = Some (outs, t1) \<and> answers_run mode ops s outs \<and> tracks_sets mode (spec_run mode ops s) t1"
proof (induction ops arbitrary: s t)
  case Nil
  then show ?case by simp
next
  case (Cons op ops)
  obtain out t1 where o: "tracker_exec avx mode op t = Some (out, t1)" "answers op s out" "tracks_sets mode (spec_step mode op s) t1"
    using tracker_step [OF Cons(2), of op avx] Cons(3) by auto
  obtain outs t2 where "tracker_run avx mode ops t1 = Some (outs, t2)" "answers_run mode ops (spec_step mode op s) outs"
    "tracks_sets mode (spec_run mode ops (spec_step mode op s)) t2"
    using Cons(1) [OF o(3)] Cons(3) by auto
  with o show ?case by auto
qed

definition MemoryTracker_new :: MemoryTracker where
  "MemoryTracker_new =
     \<lparr>top_tier = (\<lambda>_. None), free_managers = [],
      page_manager = \<lparr>cached_pages = (\<lambda>_. \<lparr>num_write_watchers = 0, num_read_watchers = 0\<rparr>),
                      page_perms = (\<lambda>_. Perm_ReadWrite)\<rparr>\<rparr>"

lemma MemoryTracker_new_tracks: "tracks_sets mode (\<lambda>_. 0, {}, {}) MemoryTracker_new"
  by (simp add: tracks_sets_def tracks_def tracker_ok_def MemoryTracker_new_def clean_pages_def gpu_pages_def
      read_watched_def counts_ok_def synced_def watchers_def Perms_def ReadPerm_def WritePerm_def perm_defs)

text \<open>
  C2: The memory tracker with the page manager implements two sets of pages: from the start, any
  sequence of uploads, downloads, invalidations, queries and image watches that respects the bounds
  succeeds, in either build, with the answers of the sets.  An invalidation takes the pages of its
  range out of both sets, unless the download it asks for finds no bytes of the GPU in the range:
  then it leaves the pages of the regions with a page the GPU modified as they are.
\<close>

theorem tracker_refines:
  assumes "allowed_run mode ops (\<lambda>_. 0, {}, {})"
  shows "\<exists>outs t. tracker_run avx mode ops MemoryTracker_new = Some (outs, t) \<and>
      answers_run mode ops (\<lambda>_. 0, {}, {}) outs \<and>
      clean_pages t = fst (snd (spec_run mode ops (\<lambda>_. 0, {}, {}))) \<and>
      gpu_pages t = snd (snd (spec_run mode ops (\<lambda>_. 0, {}, {})))"
  using tracker_run_tracks [OF MemoryTracker_new_tracks assms, of avx]
  by (auto simp: tracks_sets_def tracks_def)

definition demo_ops :: "tracker_op list" where
  "demo_ops = [Op_Upload 0x3FF800 0x1000 True, Op_Watch True 0x400000 0x1000, Op_Invalidate True 0x3FF800 8, Op_CpuQuery 0x3FF000 0x2000]"

lemma demo_pages:
  "pages_of 0x3FF800 0x1000 = {1023, 1024}" "pages_of 0x400000 0x1000 = {1024}" "pages_of 0x3FF800 8 = {1023}"
  "pages_of 0x3FF000 0x2000 = {1023, 1024}"
  by (auto simp: pages_of_def PM_PAGE_SIZE_def)

lemma demo_allowed: "allowed_run Readbacks_Precise demo_ops (\<lambda>_. 0, {}, {})"
  by (simp add: demo_ops_def in_space_def demo_pages may_watch_def may_write_def kept_pages_def)

theorem tracker_refines_witness:
  "\<exists>outs t. tracker_run True Readbacks_Precise demo_ops MemoryTracker_new = Some (outs, t) \<and>
    clean_pages t = {1024} \<and> gpu_pages t = {1024}"
  using tracker_refines [OF demo_allowed, of True]
  by (auto simp: demo_ops_def demo_pages insert_Diff_if watch_more_def kept_pages_def)

text \<open>
  C3: No write of the CPU is lost: after any sequence of operations that keeps to the contract
  \<open>allowed_run\<close>, the host lets the CPU write to a page exactly when the tracker has it as modified and
  no image watches it, and lets it read exactly when no precise readback of the page is due.  The
  contract: ranges lie in the address space; no more than 126 images watch a page at a time, and none
  stops watching a page it does not watch (the counter of a page has seven bits and no check, see
  \<open>write_watchers_wrap\<close>); and with precise readbacks the CPU does not mark a page the GPU has modified,
  nor does the last image stop watching one that is not clean, before it was read back.
\<close>

theorem no_lost_write:
  assumes "allowed_run mode ops (\<lambda>_. 0, {}, {})"
    and "tracker_run avx mode ops MemoryTracker_new = Some (outs, t)"
  shows "page_perms (page_manager t) p =
      (if mode = Readbacks_Precise \<and> p \<in> gpu_pages t then 0 else Perm_Read) OR
      (if p \<in> clean_pages t \<or> 0 < fst (spec_run mode ops (\<lambda>_. 0, {}, {})) p then 0 else Perm_Write)"
proof -
  have "tracks_sets mode (spec_run mode ops (\<lambda>_. 0, {}, {})) t"
    using tracker_run_tracks [OF MemoryTracker_new_tracks assms(1), of avx] assms(2) by auto
  then show ?thesis
    using host_protection [of mode "fst (spec_run mode ops (\<lambda>_. 0, {}, {}))" _ _ t p] by (auto simp: tracks_sets_def tracks_def)
qed

theorem no_lost_write_witness:
  "\<exists>outs t. tracker_run True Readbacks_Precise demo_ops MemoryTracker_new = Some (outs, t) \<and>
    page_perms (page_manager t) 1023 = Perm_Read OR Perm_Write \<and> page_perms (page_manager t) 1024 = 0"
proof -
  obtain outs t where t: "tracker_run True Readbacks_Precise demo_ops MemoryTracker_new = Some (outs, t)"
    "tracks_sets Readbacks_Precise (spec_run Readbacks_Precise demo_ops (\<lambda>_. 0, {}, {})) t"
    using tracker_run_tracks [OF MemoryTracker_new_tracks demo_allowed, of True] by auto
  have s: "spec_run Readbacks_Precise demo_ops (\<lambda>_. 0, {}, {}) = (watch_more True {1024} (\<lambda>_. 0), {1024}, {1024})"
    by (auto simp: demo_ops_def demo_pages insert_Diff_if kept_pages_def)
  with t(2) have "clean_pages t = {1024}" "gpu_pages t = {1024}" by (auto simp: tracks_sets_def tracks_def)
  then show ?thesis
    using t(1) no_lost_write [OF demo_allowed t(1), of 1023] no_lost_write [OF demo_allowed t(1), of 1024] s
    by (simp add: watch_more_def)
qed

subsection \<open>What goes wrong outside the contract\<close>

text \<open>
  Clearing downloads in the relaxed mode: marking pages as modified by the GPU does not watch them
  there, but clearing some of them stops watching the rest, which fails the assertion on the count.
\<close>

definition relaxed_region :: RegionManager where
  "relaxed_region = (RegionManager_new 0)\<lparr>rm_gpu := 3 # replicate 15 0\<rparr>"

lemma relaxed_left: "UpdatePageWatchersForRegion False False True 0 (2 # replicate 15 0) (page_manager MemoryTracker_new) = None"
proof -
  have r: "FirstRange False (2 # replicate 15 0) = (1, 2)" "LastRange False (2 # replicate 15 0) = (1, 2)"
    by code_simp+
  have n: "AddDelta (- 1) True (cached_pages (page_manager MemoryTracker_new) 1) = None"
    by (simp add: AddDelta_def MemoryTracker_new_def)
  have "watch_pages False True 1 2 (r, page_manager MemoryTracker_new) = None" for r
    by (subst watch_pages.simps) (simp add: watch_page_def n NUM_ADDRESS_PAGES_def del: One_nat_def)
  moreover have "unat (drop_bit 12 (0 + push_bit 12 (of_nat 1)) :: u64) = 1"
    "unat (DivCeil (0 + push_bit 12 (of_nat 1) + push_bit 12 (of_nat (2 - 1))) 4096) = 2"
    by code_simp+
  ultimately show ?thesis
    unfolding UpdatePageWatchersForRegion_def r UpdatePageWatchers_def Let_def fst_conv snd_conv
    by (simp only: refl if_True) (simp add: NUM_ADDRESS_PAGES_def del: One_nat_def push_bit_of_1 push_bit_minus_one)
qed

lemma relaxed_download_fails:
  "ForEachModifiedRange False Readbacks_Relaxed Type_GPU True 0 4096 (relaxed_region, page_manager MemoryTracker_new) = None"
proof -
  have p: "start_page_of 0 = 0" "end_page_of 0 4096 = 1" by code_simp+
  have u: "UnsetRange False 0 1 (3 # replicate 15 0) = 2 # replicate 15 0" by code_simp
  have x: "Bit_xor (Bit_not (2 # replicate 15 0)) (Bit_Fill RegionBits_new) = 2 # replicate 15 0" by code_simp
  have n: "\<not> Bit_None (2 # replicate 15 0)" by code_simp
  show ?thesis
    using relaxed_left n
    by (simp add: ForEachModifiedRange_def relaxed_region_def RegionManager_new_def GetRegionBits_def SetRegionBits_def
        UpdateProtection_def NUM_PAGES_PER_REGION_def p u x Let_def del: One_nat_def)
qed

text \<open>The seven bits of the write watchers wrap round without an assertion.\<close>

lemma write_watchers_wrap:
  "AddDelta 1 False \<lparr>num_write_watchers = 127, num_read_watchers = 0\<rparr> =
   Some (\<lparr>num_write_watchers = 0, num_read_watchers = 0\<rparr>, 0)"
  by code_simp

end
