(* ===== verification/Event_Queue.thy ===== *)
theory Event_Queue
  imports Prelude
begin

section \<open>Event queues: the queue\<close>

text \<open>
  \<^verbatim>\<open>EqueueInternal\<close> of \<^verbatim>\<open>core/libraries/kernel/equeue.cpp\<close>: a list of events, each known by its
  identifier and filter, that timers, the GPU, the display and the game trigger and waiting threads
  collect, and a table of short timers that a waiting thread polls itself.

  A time is the number of nanoseconds of the steady clock; an operation reads it once, as its
  argument \<open>now\<close>.  Signed arithmetic on intervals that leaves 64 bits is undefined: the calls that add
  a timer check \<open>interval_defined\<close> before \<^verbatim>\<open>AddEvent\<close> computes the interval.  A timer of the host is its expiry with the
  handler that waits for it: the code never has two handlers waiting on one timer, because setting
  the expiry cancels the handler before.  Pointers of the game are addresses.  The pointer \<^verbatim>\<open>data\<close> of
  \<^verbatim>\<open>EqueueEvent\<close>, which no operation of a queue reads, is left out.
\<close>

subsection \<open>Events\<close>

type_synonym Filter = u16

definition Filter_None :: Filter where "Filter_None = 0"
definition Filter_Timer :: Filter where "Filter_Timer = - 7"
definition Filter_User :: Filter where "Filter_User = - 11"
definition Filter_VideoOut :: Filter where "Filter_VideoOut = - 13"
definition Filter_GraphicsCore :: Filter where "Filter_GraphicsCore = - 14"
definition Filter_HrTimer :: Filter where "Filter_HrTimer = - 15"

lemmas filter_defs = Filter_None_def Filter_Timer_def Filter_User_def Filter_VideoOut_def
  Filter_GraphicsCore_def Filter_HrTimer_def

definition Flag_Add :: u16 where "Flag_Add = 1"
definition Flag_Delete :: u16 where "Flag_Delete = 2"
definition Flag_OneShot :: u16 where "Flag_OneShot = 0x10"
definition Flag_Clear :: u16 where "Flag_Clear = 0x20"

lemmas flag_defs = Flag_Add_def Flag_Delete_def Flag_OneShot_def Flag_Clear_def

record OrbisKernelEvent =
  ev_ident :: u64
  ev_filter :: Filter
  ev_flags :: u16
  ev_fflags :: u32
  ev_data :: u64
  ev_udata :: u64

definition has_flag :: "OrbisKernelEvent \<Rightarrow> u16 \<Rightarrow> bool" where
  "has_flag e f \<longleftrightarrow> ev_flags e AND f \<noteq> 0"

record OrbisKernelBintime =
  bt_sec :: s64
  bt_frac :: s64

datatype Callback = TimerCallback | HrTimerCallback

record Timer =
  expiry :: int
  waiting :: "(OrbisKernelEvent \<times> Callback) option"

record EqueueEvent =
  kevent :: OrbisKernelEvent
  time_added :: int
  timer_interval :: s64
  timer :: "Timer option"
  is_triggered :: bool

definition EqueueEvent_new :: "OrbisKernelEvent \<Rightarrow> EqueueEvent" where
  "EqueueEvent_new e = \<lparr>kevent = e, time_added = 0, timer_interval = 0, timer = None, is_triggered = False\<rparr>"

definition Event_Clear :: "EqueueEvent \<Rightarrow> EqueueEvent" where
  "Event_Clear e = e\<lparr>is_triggered := False, kevent := (kevent e)\<lparr>ev_fflags := 0, ev_data := 0\<rparr>\<rparr>"

definition Trigger :: "u64 \<Rightarrow> EqueueEvent \<Rightarrow> EqueueEvent" where
  "Trigger d e = e\<lparr>is_triggered := True, kevent := (kevent e)\<lparr>ev_data := d\<rparr>\<rparr>"

definition TriggerUser :: "u64 \<Rightarrow> EqueueEvent \<Rightarrow> EqueueEvent" where
  "TriggerUser d e = e\<lparr>is_triggered := True, kevent := (kevent e)\<lparr>ev_udata := d\<rparr>\<rparr>"

definition TriggerTimer :: "EqueueEvent \<Rightarrow> EqueueEvent" where
  "TriggerTimer e = e\<lparr>is_triggered := True, kevent := (kevent e)\<lparr>ev_data := ev_data (kevent e) + 1\<rparr>\<rparr>"

text \<open>
  The display's events pack a time stamp, a count and the argument of the flip; \<open>tsc\<close> is the reading of
  the processor's time stamp counter.
\<close>

definition TriggerDisplay :: "u64 \<Rightarrow> u64 \<Rightarrow> EqueueEvent \<Rightarrow> EqueueEvent" where
  "TriggerDisplay tsc d e =
     (let e = e\<lparr>is_triggered := True\<rparr> in
      if d \<noteq> 0 then
        let event_id = d AND 0xff in
        if event_id = ev_ident (kevent e) \<and> ev_ident (kevent e) \<noteq> 0xfe then
          let counter = drop_bit 12 (ev_data (kevent e)) AND 0xf;
              counter = (if counter \<noteq> 0xf then counter + 1 else counter)
          in e\<lparr>kevent := (kevent e)\<lparr>ev_data :=
                 (tsc AND 0xfff) OR push_bit 12 counter OR (d AND 0xffffffffffff0000)\<rparr>\<rparr>
        else e
      else e)"

subsection \<open>The queue\<close>

record SmallTimer =
  st_event :: OrbisKernelEvent
  st_added :: int
  st_interval :: s64

record EqueueInternal =
  m_handle :: s64
  m_name :: string
  m_events :: "EqueueEvent list"
  m_small_timers :: "(u64 \<times> SmallTimer) list"

definition EqueueInternal_new :: "s64 \<Rightarrow> string \<Rightarrow> EqueueInternal" where
  "EqueueInternal_new handle nm = \<lparr>m_handle = handle, m_name = nm, m_events = [], m_small_timers = []\<rparr>"

definition matches :: "u64 \<Rightarrow> Filter \<Rightarrow> EqueueEvent \<Rightarrow> bool" where
  "matches i f e \<longleftrightarrow> ev_ident (kevent e) = i \<and> ev_filter (kevent e) = f"

fun find_if :: "('a \<Rightarrow> bool) \<Rightarrow> 'a list \<Rightarrow> nat option" where
  "find_if P [] = None"
| "find_if P (x # xs) = (if P x then Some 0 else map_option Suc (find_if P xs))"

definition EventExists :: "u64 \<Rightarrow> Filter \<Rightarrow> EqueueInternal \<Rightarrow> bool" where
  "EventExists i f q \<longleftrightarrow> find_if (matches i f) (m_events q) \<noteq> None"

text \<open>The time of a binary fraction of a second, in nanoseconds.\<close>

definition bintime_interval :: "OrbisKernelBintime \<Rightarrow> s64" where
  "bintime_interval time =
     (let tv_sec = bt_sec time;
          tv_nsec = signed_drop_bit 32 (1000000000 * signed_drop_bit 32 (bt_frac time))
      in tv_nsec + tv_sec * 1000000000)"

text \<open>Where the signed arithmetic of this and of the interval of an event stays within 64 bits.\<close>

definition fits64 :: "int \<Rightarrow> bool" where
  "fits64 x \<longleftrightarrow> - (2 ^ 63) \<le> x \<and> x < 2 ^ 63"

definition bintime_defined :: "OrbisKernelBintime \<Rightarrow> bool" where
  "bintime_defined time \<longleftrightarrow>
     fits64 (1000000000 * sint (signed_drop_bit 32 (bt_frac time))) \<and> fits64 (sint (bt_sec time) * 1000000000) \<and>
     fits64 (sint (signed_drop_bit 32 (1000000000 * signed_drop_bit 32 (bt_frac time))) + sint (bt_sec time) * 1000000000)"

definition interval_defined :: "(u64 \<Rightarrow> OrbisKernelBintime) \<Rightarrow> OrbisKernelEvent \<Rightarrow> bool" where
  "interval_defined load e \<longleftrightarrow>
     (if ev_filter e = Filter_Timer then fits64 (sint (ev_data e) * 1000000)
      else if ev_filter e = Filter_HrTimer then bintime_defined (load (ev_data e))
      else True)"

definition ScheduleEvent :: "int \<Rightarrow> u64 \<Rightarrow> Filter \<Rightarrow> Callback \<Rightarrow> EqueueInternal \<Rightarrow> bool \<times> EqueueInternal" where
  "ScheduleEvent now i f cb q =
     (case find_if (matches i f) (m_events q) of
        None \<Rightarrow> (False, q)
      | Some k \<Rightarrow>
          let e = m_events q ! k in
          if \<not> (ev_filter (kevent e) = Filter_Timer \<or> ev_filter (kevent e) = Filter_HrTimer) then (False, q)
          else
            let t = (case timer e of
                       None \<Rightarrow> now + sint (timer_interval e)
                     | Some t \<Rightarrow> expiry t + sint (timer_interval e))
            in (True, q\<lparr>m_events := (m_events q)[k := e\<lparr>timer := Some \<lparr>expiry = t, waiting = Some (kevent e, cb)\<rparr>\<rparr>]\<rparr>))"

text \<open>\<open>load\<close> reads the game's memory.\<close>

definition AddEvent ::
    "(u64 \<Rightarrow> OrbisKernelBintime) \<Rightarrow> int \<Rightarrow> EqueueEvent \<Rightarrow> EqueueInternal \<Rightarrow> bool \<times> EqueueInternal" where
  "AddEvent load now e q =
     (let i = ev_ident (kevent e);
          f = ev_filter (kevent e);
          e = e\<lparr>time_added := now\<rparr>;
          e = (if f = Filter_Timer then e\<lparr>timer_interval := ev_data (kevent e) * 1000000\<rparr>
               else if f = Filter_HrTimer then e\<lparr>timer_interval := bintime_interval (load (ev_data (kevent e)))\<rparr>
               else e)
      in case find_if (matches i f) (m_events q) of
           Some k \<Rightarrow>
             let old = m_events q ! k in
             (True, q\<lparr>m_events := (m_events q)
                [k := old\<lparr>timer_interval := timer_interval e, kevent := (kevent old)\<lparr>ev_udata := ev_udata (kevent e)\<rparr>\<rparr>]\<rparr>)
         | None \<Rightarrow>
             let ev = (kevent e)\<lparr>ev_data := 0, ev_flags := ev_flags (kevent e) AND NOT Flag_Add\<rparr>;
                 ev = (if f \<noteq> Filter_User then ev\<lparr>ev_flags := ev_flags ev OR Flag_Clear\<rparr> else ev);
                 e = e\<lparr>kevent := ev\<rparr>;
                 q = q\<lparr>m_events := (case find_if (matches i f) (m_events q) of
                                     Some k \<Rightarrow> (m_events q)[k := e]
                                   | None \<Rightarrow> m_events q @ [e])\<rparr>
             in if f = Filter_Timer then ScheduleEvent now i Filter_Timer TimerCallback q
                else if f = Filter_HrTimer then ScheduleEvent now i Filter_HrTimer HrTimerCallback q
                else (True, q))"

definition RemoveEvent :: "u64 \<Rightarrow> Filter \<Rightarrow> EqueueInternal \<Rightarrow> bool \<times> EqueueInternal" where
  "RemoveEvent i f q =
     (case find_if (matches i f) (m_events q) of
        Some k \<Rightarrow> (True, q\<lparr>m_events := take k (m_events q) @ drop (Suc k) (m_events q)\<rparr>)
      | None \<Rightarrow> (False, q))"

definition trigger_one :: "u64 \<Rightarrow> Filter \<Rightarrow> u64 \<Rightarrow> EqueueEvent \<Rightarrow> EqueueEvent" where
  "trigger_one tsc f d e =
     (if f = Filter_VideoOut then TriggerDisplay tsc d e
      else if f = Filter_User then TriggerUser d e
      else if f = Filter_Timer \<or> f = Filter_HrTimer then TriggerTimer e
      else Trigger d e)"

text \<open>\<^verbatim>\<open>TriggerEvent\<close>; its \<^verbatim>\<open>notify_one\<close> is a step of its own in the theory of waiting threads.\<close>

definition TriggerEvent :: "u64 \<Rightarrow> u64 \<Rightarrow> Filter \<Rightarrow> u64 \<Rightarrow> EqueueInternal \<Rightarrow> bool \<times> EqueueInternal" where
  "TriggerEvent tsc i f d q =
     (list_ex (matches i f) (m_events q),
      q\<lparr>m_events := map (\<lambda>e. if matches i f e then trigger_one tsc f d e else e) (m_events q)\<rparr>)"

text \<open>What collecting an event does to it.\<close>

definition cleared :: "EqueueEvent \<Rightarrow> EqueueEvent" where
  "cleared e = (if has_flag (kevent e) Flag_Clear then Event_Clear e else e)"

fun collect :: "int \<Rightarrow> int \<Rightarrow> EqueueEvent list \<Rightarrow> OrbisKernelEvent list \<times> EqueueEvent list" where
  "collect num count [] = ([], [])"
| "collect num count (e # es) =
     (if is_triggered e then
        let e1 = cleared e;
            kept = (if has_flag (kevent e1) Flag_OneShot then [] else [e1])
        in if count + 1 = num then ([kevent e], kept @ es)
           else let (out, rest) = collect num (count + 1) es in (kevent e # out, kept @ rest)
      else let (out, rest) = collect num count es in (out, e # rest))"

definition GetTriggeredEvents :: "int \<Rightarrow> EqueueInternal \<Rightarrow> OrbisKernelEvent list \<times> EqueueInternal" where
  "GetTriggeredEvents num q = (let (out, es) = collect num 0 (m_events q) in (out, q\<lparr>m_events := es\<rparr>))"

subsection \<open>Small timers\<close>

definition HasSmallTimer :: "EqueueInternal \<Rightarrow> bool" where
  "HasSmallTimer q \<longleftrightarrow> m_small_timers q \<noteq> []"

text \<open>
  The order of the hash table is left open by the standard library: \<open>arrange\<close> permutes the entries
  when one is inserted.
\<close>

definition AddSmallTimer ::
    "((u64 \<times> SmallTimer) list \<Rightarrow> (u64 \<times> SmallTimer) list) \<Rightarrow> (u64 \<Rightarrow> OrbisKernelBintime) \<Rightarrow> int \<Rightarrow>
     EqueueEvent \<Rightarrow> EqueueInternal \<Rightarrow> bool \<times> EqueueInternal" where
  "AddSmallTimer arrange load now e q =
     (let st = \<lparr>st_event = kevent e, st_added = now, st_interval = bintime_interval (load (ev_data (kevent e)))\<rparr>;
          i = ev_ident (kevent e)
      in (True, q\<lparr>m_small_timers :=
            (if map_of (m_small_timers q) i \<noteq> None
             then map (\<lambda>(j, s). (j, if j = i then st else s)) (m_small_timers q)
             else arrange ((i, st) # m_small_timers q))\<rparr>))"

definition RemoveSmallTimer :: "u64 \<Rightarrow> EqueueInternal \<Rightarrow> bool \<times> EqueueInternal" where
  "RemoveSmallTimer i q =
     (if HasSmallTimer q
      then (list_ex (\<lambda>(j, s). j = i) (m_small_timers q), q\<lparr>m_small_timers := filter (\<lambda>(j, s). j \<noteq> i) (m_small_timers q)\<rparr>)
      else (False, q))"

text \<open>One round of \<^verbatim>\<open>WaitForSmallTimer\<close> under its lock: the timers that are due, \<open>num\<close> at most.\<close>

definition is_due :: "int \<Rightarrow> SmallTimer \<Rightarrow> bool" where
  "is_due t st \<longleftrightarrow> t - st_added st \<ge> sint (st_interval st)"

fun take_due :: "int \<Rightarrow> int \<Rightarrow> int \<Rightarrow> (u64 \<times> SmallTimer) list \<Rightarrow> OrbisKernelEvent list \<times> (u64 \<times> SmallTimer) list" where
  "take_due t num count [] = ([], [])"
| "take_due t num count ((i, st) # ts) =
     (if count < num then
        if is_due t st then let (out, rest) = take_due t num (count + 1) ts in (st_event st # out, rest)
        else let (out, rest) = take_due t num count ts in (out, (i, st) # rest)
      else ([], (i, st) # ts))"

text \<open>
  The loop.  The mutex is held in each round and given up between them: \<open>others k\<close> is what the other
  threads do to the queue before round \<open>k\<close>.  \<open>clock k\<close> is the clock's reading in round \<open>k\<close>, which is
  taken before the mutex, and \<open>wait_end\<close> the end of the wait if it has one.
\<close>

partial_function (option) spin_small ::
    "(nat \<Rightarrow> int) \<Rightarrow> (nat \<Rightarrow> EqueueInternal \<Rightarrow> EqueueInternal) \<Rightarrow> int option \<Rightarrow> int \<Rightarrow> nat \<Rightarrow> EqueueInternal \<Rightarrow>
     (OrbisKernelEvent list \<times> EqueueInternal) option" where
  "spin_small clock others wait_end num k q =
     (let q = others k q;
          (out, ts) = take_due (clock k) num 0 (m_small_timers q);
          q = q\<lparr>m_small_timers := ts\<rparr>
      in if out \<noteq> [] then Some (out, q)
         else if (case wait_end of None \<Rightarrow> True | Some t \<Rightarrow> clock k < t) then spin_small clock others wait_end num (k + 1) q
         else Some ([], q))"

definition WaitForSmallTimer ::
    "(nat \<Rightarrow> int) \<Rightarrow> (nat \<Rightarrow> EqueueInternal \<Rightarrow> EqueueInternal) \<Rightarrow> int \<Rightarrow> u32 \<Rightarrow> EqueueInternal \<Rightarrow>
     (OrbisKernelEvent list \<times> EqueueInternal) option" where
  "WaitForSmallTimer clock others num micros q =
     (if num < 1 then Some ([], q)
      else spin_small clock others (if micros = 0 then None else Some (clock 0 + uint micros * 1000)) num 1 q)"

subsection \<open>Events are known by their keys\<close>

lemma find_if_None: "find_if P xs = None \<longleftrightarrow> (\<forall>x\<in>set xs. \<not> P x)"
  by (induction xs) auto

lemma find_if_Some: "find_if P xs = Some k \<Longrightarrow> k < length xs \<and> P (xs ! k) \<and> (\<forall>j<k. \<not> P (xs ! j))"
proof (induction xs arbitrary: k)
  case (Cons x xs)
  then show ?case by (cases k) (auto simp: less_Suc_eq_0_disj nth_Cons split: if_splits nat.splits)
qed simp

definition key :: "EqueueEvent \<Rightarrow> u64 \<times> Filter" where
  "key e = (ev_ident (kevent e), ev_filter (kevent e))"

definition keys_of :: "EqueueEvent list \<Rightarrow> (u64 \<times> Filter) list" where
  "keys_of es = map key es"

definition contents :: "EqueueEvent list \<Rightarrow> u64 \<times> Filter \<Rightarrow> EqueueEvent option" where
  "contents es = map_of (map (\<lambda>e. (key e, e)) es)"

lemma matches_key: "matches i f e \<longleftrightarrow> key e = (i, f)"
  by (auto simp: matches_def key_def)

lemma contents_simps [simp]:
  "contents [] = Map.empty" "contents (e # es) = (contents es)(key e \<mapsto> e)"
  "contents (es @ fs) = contents fs ++ contents es"
  by (simp_all add: contents_def)

lemma keys_of_simps [simp]:
  "keys_of [] = []" "keys_of (e # es) = key e # keys_of es" "keys_of (es @ fs) = keys_of es @ keys_of fs"
  by (simp_all add: keys_of_def)

lemma contents_key: "contents es k = Some e \<Longrightarrow> key e = k \<and> e \<in> set es"
  by (induction es) (auto split: if_splits)

lemma contents_None: "contents es k = None \<longleftrightarrow> k \<notin> set (keys_of es)"
  by (induction es) auto

lemma contents_Some: "distinct (keys_of es) \<Longrightarrow> contents es k = Some e \<longleftrightarrow> e \<in> set es \<and> key e = k"
  unfolding contents_def keys_of_def by (subst map_of_eq_Some_iff) (auto simp: comp_def)

lemma keys_of_update: "n < length es \<Longrightarrow> key e = key (es ! n) \<Longrightarrow> keys_of (es[n := e]) = keys_of es"
  by (simp add: keys_of_def map_update list_update_same_conv)

lemma contents_update:
  "distinct (keys_of es) \<Longrightarrow> n < length es \<Longrightarrow> key e = key (es ! n) \<Longrightarrow>
   contents (es[n := e]) = (contents es)(key e \<mapsto> e)"
proof (induction es arbitrary: n)
  case (Cons a es)
  show ?case
  proof (cases n)
    case (Suc m)
    have "key e \<noteq> key a"
    proof
      assume "key e = key a"
      then have "key a = key (es ! m)" using Cons.prems(3) Suc by simp
      then have "key a \<in> set (keys_of es)" using Cons.prems(2) Suc by (simp add: keys_of_def)
      then show False using Cons.prems(1) by simp
    qed
    moreover have "contents (es[m := e]) = (contents es)(key e \<mapsto> e)"
      by (rule Cons.IH) (use Cons.prems Suc in simp_all)
    ultimately show ?thesis
      using Suc by (intro ext) simp
  qed (use Cons in auto)
qed simp

lemma found_key:
  assumes "find_if (matches i f) es = Some n" "distinct (keys_of es)"
  shows "n < length es \<and> key (es ! n) = (i, f) \<and> contents es (i, f) = Some (es ! n)"
  using find_if_Some [OF assms(1)] assms(2) by (auto simp: contents_Some matches_key)

lemma not_found_key: "find_if (matches i f) es = None \<longleftrightarrow> contents es (i, f) = None"
  by (auto simp: find_if_None contents_None matches_key keys_of_def image_iff)

subsection \<open>What the operations do to the events\<close>

definition unique :: "EqueueInternal \<Rightarrow> bool" where
  "unique q \<longleftrightarrow> distinct (keys_of (m_events q))"

abbreviation look :: "EqueueInternal \<Rightarrow> u64 \<times> Filter \<Rightarrow> EqueueEvent option" where
  "look q \<equiv> contents (m_events q)"

definition armed :: "int \<Rightarrow> Callback \<Rightarrow> EqueueEvent \<Rightarrow> EqueueEvent" where
  "armed now cb e =
     e\<lparr>timer := Some \<lparr>expiry = (case timer e of None \<Rightarrow> now | Some t \<Rightarrow> expiry t) + sint (timer_interval e),
                     waiting = Some (kevent e, cb)\<rparr>\<rparr>"

lemma key_armed [simp]: "key (armed now cb e) = key e"
  by (simp add: armed_def key_def)

lemma ScheduleEvent_look:
  assumes "unique q" "f = Filter_Timer \<or> f = Filter_HrTimer"
  shows "case look q (i, f) of
      None \<Rightarrow> ScheduleEvent now i f cb q = (False, q)
    | Some e \<Rightarrow> \<exists>q'. ScheduleEvent now i f cb q = (True, q') \<and> unique q' \<and>
                 keys_of (m_events q') = keys_of (m_events q) \<and> look q' = (look q)((i, f) \<mapsto> armed now cb e) \<and>
                 m_small_timers q' = m_small_timers q"
proof (cases "find_if (matches i f) (m_events q)")
  case None
  then show ?thesis using not_found_key [of i f "m_events q"] by (simp add: ScheduleEvent_def)
next
  case (Some n)
  let ?e = "m_events q ! n"
  have n: "n < length (m_events q)" "key ?e = (i, f)" "look q (i, f) = Some ?e"
    using found_key [OF Some] assms(1) by (auto simp: unique_def)
  then have "ev_filter (kevent ?e) = f" by (simp add: key_def)
  then have s: "ScheduleEvent now i f cb q = (True, q\<lparr>m_events := (m_events q)[n := armed now cb ?e]\<rparr>)"
    using Some assms(2) by (auto simp: ScheduleEvent_def armed_def Let_def split: option.split)
  then show ?thesis
    using n assms(1) by (simp add: unique_def keys_of_update contents_update)
qed

text \<open>What a new event becomes.\<close>

definition added :: "(u64 \<Rightarrow> OrbisKernelBintime) \<Rightarrow> int \<Rightarrow> EqueueEvent \<Rightarrow> EqueueEvent" where
  "added load now e =
     (let f = ev_filter (kevent e);
          e = e\<lparr>time_added := now,
                timer_interval := (if f = Filter_Timer then ev_data (kevent e) * 1000000
                  else if f = Filter_HrTimer then bintime_interval (load (ev_data (kevent e))) else timer_interval e),
                kevent := (kevent e)\<lparr>ev_data := 0, ev_flags := (if f \<noteq> Filter_User
                  then ev_flags (kevent e) AND NOT Flag_Add OR Flag_Clear else ev_flags (kevent e) AND NOT Flag_Add)\<rparr>\<rparr>
      in if f = Filter_Timer then armed now TimerCallback e
         else if f = Filter_HrTimer then armed now HrTimerCallback e else e)"

lemma key_added [simp]: "key (added load now e) = key e"
  by (auto simp: added_def key_def armed_def Let_def)

lemma AddEvent_new:
  assumes q: "unique q" and n: "look q (key e) = None"
  shows "\<exists>q'. AddEvent load now e q = (True, q') \<and> unique q' \<and> m_events q' = m_events q @ [added load now e] \<and>
      look q' = (look q)(key e \<mapsto> added load now e) \<and> m_small_timers q' = m_small_timers q \<and> m_handle q' = m_handle q"
proof -
  let ?i = "ev_ident (kevent e)" and ?f = "ev_filter (kevent e)"
  have k: "key e = (?i, ?f)" by (simp add: key_def)
  have none: "find_if (matches ?i ?f) (m_events q) = None" using n k not_found_key by simp
  have find: "find_if (matches ?i ?f) (es @ [x]) = (if matches ?i ?f x then Some (length es) else None)"
    if "find_if (matches ?i ?f) es = None" for es x
    using that by (induction es) (auto split: if_splits)
  define e1 where "e1 = e\<lparr>time_added := now,
      timer_interval := (if ?f = Filter_Timer then ev_data (kevent e) * 1000000
        else if ?f = Filter_HrTimer then bintime_interval (load (ev_data (kevent e))) else timer_interval e),
      kevent := (kevent e)\<lparr>ev_data := 0, ev_flags := (if ?f \<noteq> Filter_User
        then ev_flags (kevent e) AND NOT Flag_Add OR Flag_Clear else ev_flags (kevent e) AND NOT Flag_Add)\<rparr>\<rparr>"
  let ?q = "q\<lparr>m_events := m_events q @ [e1]\<rparr>"
  have m: "matches ?i ?f e1" by (simp add: matches_def e1_def)
  have s: "ScheduleEvent now ?i f cb ?q = (True, q\<lparr>m_events := m_events q @ [armed now cb e1]\<rparr>)"
    if "f = ?f" "f = Filter_Timer \<or> f = Filter_HrTimer" for f cb
    using that m by (auto simp: ScheduleEvent_def find [OF none] armed_def matches_def Let_def split: option.split)
  have a: "AddEvent load now e q =
      (if ?f = Filter_Timer then ScheduleEvent now ?i Filter_Timer TimerCallback ?q
       else if ?f = Filter_HrTimer then ScheduleEvent now ?i Filter_HrTimer HrTimerCallback ?q else (True, ?q))"
    by (simp add: AddEvent_def none e1_def Let_def)
  have new: "AddEvent load now e q = (True, q\<lparr>m_events := m_events q @ [added load now e]\<rparr>)"
    using s [OF refl] unfolding a added_def Let_def e1_def [symmetric] by (cases "?f = Filter_Timer") simp_all
  have "key e \<notin> set (keys_of (m_events q))" using n by (simp add: contents_None)
  moreover have "[key e \<mapsto> x] ++ look q = (look q)(key e \<mapsto> x)" for x
    using n by (auto simp: fun_eq_iff map_add_def split: option.split)
  ultimately show ?thesis
    using new q by (simp add: unique_def)
qed

lemma AddEvent_again:
  assumes q: "unique q" and l: "look q (key e) = Some old"
  shows "\<exists>q' new. AddEvent load now e q = (True, q') \<and> unique q' \<and> look q' = (look q)(key e \<mapsto> new) \<and>
      keys_of (m_events q') = keys_of (m_events q) \<and> m_small_timers q' = m_small_timers q \<and>
      timer new = timer old \<and> is_triggered new = is_triggered old \<and>
      kevent new = (kevent old)\<lparr>ev_udata := ev_udata (kevent e)\<rparr>"
proof -
  let ?i = "ev_ident (kevent e)" and ?f = "ev_filter (kevent e)"
  have k: "key e = (?i, ?f)" by (simp add: key_def)
  obtain n where n: "find_if (matches ?i ?f) (m_events q) = Some n" using l k not_found_key [of ?i ?f "m_events q"] by auto
  have f: "n < length (m_events q)" "key (m_events q ! n) = key e" "m_events q ! n = old"
    using found_key [OF n] q l k by (auto simp: unique_def)
  define new where "new = old\<lparr>timer_interval := (if ?f = Filter_Timer then ev_data (kevent e) * 1000000
      else if ?f = Filter_HrTimer then bintime_interval (load (ev_data (kevent e))) else timer_interval e),
      kevent := (kevent old)\<lparr>ev_udata := ev_udata (kevent e)\<rparr>\<rparr>"
  have key: "key new = key e" using f by (simp add: new_def key_def)
  have a: "AddEvent load now e q = (True, q\<lparr>m_events := (m_events q)[n := new]\<rparr>)"
    using f by (simp add: AddEvent_def n new_def Let_def)
  show ?thesis
    using a f q key by (intro exI [of _ "q\<lparr>m_events := (m_events q)[n := new]\<rparr>"] exI [of _ new])
      (simp add: unique_def keys_of_update contents_update new_def [THEN arg_cong [of _ _ timer]]
        new_def [THEN arg_cong [of _ _ is_triggered]] new_def [THEN arg_cong [of _ _ kevent]])
qed

lemma RemoveEvent_look:
  assumes "unique q"
  shows "case RemoveEvent i f q of (found, q') \<Rightarrow> unique q' \<and> (found \<longleftrightarrow> look q (i, f) \<noteq> None) \<and>
      look q' = (look q)((i, f) := None) \<and> m_small_timers q' = m_small_timers q"
proof (cases "find_if (matches i f) (m_events q)")
  case None
  then have "look q (i, f) = None" by (simp add: not_found_key)
  with None assms show ?thesis by (auto simp: RemoveEvent_def)
next
  case (Some n)
  have f: "n < length (m_events q)" "key (m_events q ! n) = (i, f)" "look q (i, f) \<noteq> None"
    using found_key [OF Some] assms by (auto simp: unique_def)
  let ?pre = "take n (m_events q)" and ?post = "drop (Suc n) (m_events q)"
  have es: "m_events q = ?pre @ m_events q ! n # ?post" using f by (simp add: id_take_nth_drop)
  have d: "distinct (keys_of (?pre @ m_events q ! n # ?post))" using assms es unfolding unique_def by metis
  then have "(i, f) \<notin> set (keys_of ?pre)" "(i, f) \<notin> set (keys_of ?post)" using f by auto
  then have "contents ?pre (i, f) = None" "contents ?post (i, f) = None" by (simp_all add: contents_None)
  moreover have "look q = (contents ?post)((i, f) \<mapsto> m_events q ! n) ++ contents ?pre"
    using arg_cong [OF es, of contents] f by simp
  ultimately have "contents (?pre @ ?post) = (look q)((i, f) := None)"
    by (auto simp: fun_eq_iff map_add_def split: option.splits)
  then show ?thesis using Some d f by (simp add: RemoveEvent_def unique_def)
qed

lemma key_triggers [simp]:
  "key (Trigger d e) = key e" "key (TriggerUser d e) = key e" "key (TriggerTimer e) = key e"
  "key (TriggerDisplay tsc d e) = key e" "key (cleared e) = key e" "key (trigger_one tsc f d e) = key e"
  by (simp_all add: key_def Trigger_def TriggerUser_def TriggerTimer_def TriggerDisplay_def cleared_def Event_Clear_def
      trigger_one_def Let_def)

lemma contents_map: "(\<And>e. key (g e) = key e) \<Longrightarrow> contents (map g es) k = map_option g (contents es k)"
  by (induction es) auto

lemma keys_of_map: "(\<And>e. key (g e) = key e) \<Longrightarrow> keys_of (map g es) = keys_of es"
  by (simp add: keys_of_def comp_def)

lemma TriggerEvent_look:
  "case TriggerEvent tsc i f d q of (found, q') \<Rightarrow>
     keys_of (m_events q') = keys_of (m_events q) \<and> (found \<longleftrightarrow> look q (i, f) \<noteq> None) \<and>
     look q' = (look q)((i, f) := map_option (trigger_one tsc f d) (look q (i, f))) \<and> m_small_timers q' = m_small_timers q"
proof -
  let ?g = "\<lambda>e. if matches i f e then trigger_one tsc f d e else e"
  have k: "key (?g e) = key e" for e by simp
  have "map_option ?g (look q k) = ((look q)((i, f) := map_option (trigger_one tsc f d) (look q (i, f)))) k" for k
    by (cases "look q k") (auto simp: matches_key dest: contents_key)
  then have "look (snd (TriggerEvent tsc i f d q)) = (look q)((i, f) := map_option (trigger_one tsc f d) (look q (i, f)))"
    by (simp add: TriggerEvent_def contents_map [OF k] fun_eq_iff)
  moreover have "fst (TriggerEvent tsc i f d q) \<longleftrightarrow> look q (i, f) \<noteq> None"
    unfolding contents_None by (force simp: TriggerEvent_def list_ex_iff matches_key keys_of_def)
  ultimately show ?thesis
    by (simp add: TriggerEvent_def keys_of_map [OF k])
qed

text \<open>Collecting: the first \<open>num\<close> triggered events, in the order in which they were added.\<close>

definition after :: "EqueueEvent \<Rightarrow> EqueueEvent option" where
  "after e = (if has_flag (kevent e) Flag_OneShot then None else Some (cleared e))"

lemma oneshot_cleared [simp]: "has_flag (kevent (cleared e)) Flag_OneShot = has_flag (kevent e) Flag_OneShot"
  by (simp add: cleared_def Event_Clear_def has_flag_def)

definition visited :: "EqueueEvent \<Rightarrow> EqueueEvent option" where
  "visited e = (if is_triggered e then after e else Some e)"

lemma visited_simps [simp]: "is_triggered e \<Longrightarrow> visited e = after e" "\<not> is_triggered e \<Longrightarrow> visited e = Some e"
  by (simp_all add: visited_def)

lemma collect_split:
  assumes "count < num"
  shows "\<exists>pre post. es = pre @ post \<and>
      collect num count es = (map kevent (filter is_triggered pre), List.map_filter visited pre @ post) \<and>
      int (length (filter is_triggered pre)) \<le> num - count \<and>
      (post \<noteq> [] \<longrightarrow> int (length (filter is_triggered pre)) = num - count)"
  using assms
proof (induction es arbitrary: count)
  case Nil
  then show ?case by (intro exI [of _ "[]"]) (simp add: List.map_filter_simps)
next
  case (Cons e es)
  show ?case
  proof (cases "is_triggered e \<and> count + 1 = num")
    case True
    then show ?thesis
      by (rule_tac exI [of _ "[e]"], rule_tac exI [of _ es]) (simp add: after_def List.map_filter_simps Let_def)
  next
    case False
    let ?c = "if is_triggered e then count + 1 else count"
    obtain pre post where s: "es = pre @ post"
      "collect num ?c es = (map kevent (filter is_triggered pre), List.map_filter visited pre @ post)"
      "int (length (filter is_triggered pre)) \<le> num - ?c"
      "post \<noteq> [] \<longrightarrow> int (length (filter is_triggered pre)) = num - ?c"
      using Cons.IH [of ?c] Cons.prems False by (cases "is_triggered e") (simp_all, blast+)
    then show ?thesis
      using False by (rule_tac exI [of _ "e # pre"], rule_tac exI [of _ post])
        (auto simp: after_def List.map_filter_simps Let_def split: if_splits)
  qed
qed

lemma visited_key: "visited e = Some e1 \<Longrightarrow> key e1 = key e"
  by (auto simp: visited_def after_def split: if_splits)

lemma visited_keys: "set (keys_of (List.map_filter visited es)) \<subseteq> set (keys_of es)"
  by (induction es) (auto simp: List.map_filter_simps dest: visited_key split: option.split)

lemma visited_distinct: "distinct (keys_of es) \<Longrightarrow> distinct (keys_of (List.map_filter visited es))"
proof (induction es)
  case (Cons e es)
  have "key e \<notin> set (keys_of (List.map_filter visited es))" using visited_keys [of es] Cons.prems by auto
  then show ?case using Cons by (auto simp: List.map_filter_simps dest: visited_key split: option.split)
qed (simp add: List.map_filter_simps)

lemma contents_visited:
  "distinct (keys_of es) \<Longrightarrow> contents (List.map_filter visited es) k = Option.bind (contents es k) visited"
proof (induction es)
  case (Cons e es)
  have "contents (List.map_filter visited es) (key e) = None"
    using visited_keys [of es] Cons.prems by (auto simp: contents_None)
  then show ?case
    using Cons by (auto simp: List.map_filter_simps dest: visited_key split: option.split)
qed (simp add: List.map_filter_simps)

lemma GetTriggeredEvents_look:
  assumes "unique q" "0 < num" "GetTriggeredEvents num q = (out, q')"
  shows "\<exists>n. out = map kevent (filter is_triggered (take n (m_events q))) \<and>
      length out = min (nat num) (length (filter is_triggered (m_events q))) \<and>
      unique q' \<and> m_small_timers q' = m_small_timers q \<and>
      look q' = (\<lambda>k. case look q k of None \<Rightarrow> None
        | Some e \<Rightarrow> if kevent e \<in> set out \<and> is_triggered e then after e else Some e)"
proof -
  obtain pre post where "m_events q = pre @ post \<and>
    collect num 0 (m_events q) = (map kevent (filter is_triggered pre), List.map_filter visited pre @ post) \<and>
    int (length (filter is_triggered pre)) \<le> num - 0 \<and> (post \<noteq> [] \<longrightarrow> int (length (filter is_triggered pre)) = num - 0)"
    using collect_split [OF assms(2), of "m_events q"] by blast
  then have s: "m_events q = pre @ post"
    "collect num 0 (m_events q) = (map kevent (filter is_triggered pre), List.map_filter visited pre @ post)"
    "int (length (filter is_triggered pre)) \<le> num" "post \<noteq> [] \<longrightarrow> int (length (filter is_triggered pre)) = num"
    unfolding diff_zero by blast+
  have out: "out = map kevent (filter is_triggered pre)" and q': "q' = q\<lparr>m_events := List.map_filter visited pre @ post\<rparr>"
    using assms(3) s(2) by (auto simp: GetTriggeredEvents_def)
  have d: "distinct (keys_of pre)" "distinct (keys_of post)" "set (keys_of pre) \<inter> set (keys_of post) = {}"
    using assms(1) s(1) by (auto simp: unique_def)
  have u: "unique q'"
    using d visited_distinct [OF d(1)] visited_keys [of pre] by (auto simp: unique_def q')
  have "look q' k = (case look q k of None \<Rightarrow> None
        | Some e \<Rightarrow> if kevent e \<in> set out \<and> is_triggered e then after e else Some e)" for k
  proof (cases "contents pre k")
    case None
    have "kevent e \<notin> set out" if e: "contents post k = Some e" for e
    proof
      assume "kevent e \<in> set out"
      then obtain e1 where "e1 \<in> set pre" "kevent e1 = kevent e" by (auto simp: out)
      then have "key e1 = key e" "key e1 \<in> set (keys_of pre)" by (simp add: key_def, simp add: keys_of_def)
      then have "key e \<in> set (keys_of pre)" by metis
      then show False using None contents_key [OF e] by (simp add: contents_None)
    qed
    then show ?thesis
      using None d by (auto simp: q' s(1) contents_visited map_add_def split: option.split)
  next
    case (Some e)
    then have e: "e \<in> set pre" "key e = k" using contents_key by auto
    then have "k \<notin> set (keys_of post)" using d(3) by (auto simp: keys_of_def)
    then have p: "contents post k = None" by (simp add: contents_None)
    have "is_triggered e \<Longrightarrow> kevent e \<in> set out" using e by (auto simp: out)
    then show ?thesis
      using Some p d by (auto simp: q' s(1) contents_visited visited_def map_add_def split: option.split)
  qed
  moreover have "length out = min (nat num) (length (filter is_triggered (m_events q)))"
    using s(1,3,4) by (cases "post = []") (auto simp: out min_def)
  moreover have "out = map kevent (filter is_triggered (take (length pre) (m_events q)))" by (simp add: out s(1))
  ultimately show ?thesis using u q' by (intro exI [of _ "length pre"]) (simp add: fun_eq_iff)
qed

end
