(* ===== verification/Event_Delivery.thy ===== *)
theory Event_Delivery
  imports Event_Queue
begin

section \<open>Event queues: what is delivered\<close>

text \<open>
  Sequences of operations on a queue: events stay unique, nothing is lost or delivered twice, and
  what the timers make of the times they are given.
\<close>

subsection \<open>Sequences of operations\<close>

datatype eq_op =
    Op_Add int EqueueEvent
  | Op_Remove u64 Filter
  | Op_Trigger u64 u64 Filter u64
  | Op_Collect int
  | Op_Schedule int u64 Filter Callback

fun eq_exec :: "(u64 \<Rightarrow> OrbisKernelBintime) \<Rightarrow> eq_op \<Rightarrow> EqueueInternal \<Rightarrow> OrbisKernelEvent list \<times> EqueueInternal" where
  "eq_exec load (Op_Add now e) q = ([], snd (AddEvent load now e q))"
| "eq_exec load (Op_Remove i f) q = ([], snd (RemoveEvent i f q))"
| "eq_exec load (Op_Trigger tsc i f d) q = ([], snd (TriggerEvent tsc i f d q))"
| "eq_exec load (Op_Collect num) q = GetTriggeredEvents num q"
| "eq_exec load (Op_Schedule now i f cb) q = ([], snd (ScheduleEvent now i f cb q))"

fun eq_run :: "(u64 \<Rightarrow> OrbisKernelBintime) \<Rightarrow> eq_op list \<Rightarrow> EqueueInternal \<Rightarrow> OrbisKernelEvent list \<times> EqueueInternal" where
  "eq_run load [] q = ([], q)"
| "eq_run load (op # ops) q =
     (let (out, q) = eq_exec load op q; (outs, q) = eq_run load ops q in (out @ outs, q))"

definition op_ok :: "eq_op \<Rightarrow> bool" where
  "op_ok op \<longleftrightarrow> (case op of Op_Collect num \<Rightarrow> 0 < num | _ \<Rightarrow> True)"

lemma ScheduleEvent_other: "f \<noteq> Filter_Timer \<Longrightarrow> f \<noteq> Filter_HrTimer \<Longrightarrow> snd (ScheduleEvent now i f cb q) = q"
  using find_if_Some [of "matches i f" "m_events q"]
  by (auto simp: ScheduleEvent_def matches_def Let_def split: option.split)

lemma eq_exec_unique:
  assumes "unique q" "op_ok op"
  shows "unique (snd (eq_exec load op q))"
proof (cases op)
  case (Op_Add now e)
  then show ?thesis
    using AddEvent_new [OF assms(1), of e load now] AddEvent_again [OF assms(1), of e _ load now]
    by (cases "look q (key e)") auto
next
  case (Op_Remove i f)
  then show ?thesis using RemoveEvent_look [OF assms(1), of i f] by (auto split: prod.splits)
next
  case (Op_Trigger tsc i f d)
  then show ?thesis using TriggerEvent_look [where tsc = tsc and i = i and f = f and d = d and q = q] assms(1) by (auto simp: unique_def split: prod.splits)
next
  case (Op_Collect num)
  then show ?thesis
    using GetTriggeredEvents_look [OF assms(1)] assms(2)
    by (cases "GetTriggeredEvents num q") (auto simp: op_ok_def)
next
  case (Op_Schedule now i f cb)
  then show ?thesis
    using ScheduleEvent_look [OF assms(1), of f now i cb] ScheduleEvent_other [of f now i cb q] assms(1)
    by (cases "f = Filter_Timer \<or> f = Filter_HrTimer") (auto split: option.splits)
qed

lemma eq_run_unique:
  "unique q \<Longrightarrow> list_all op_ok ops \<Longrightarrow> unique (snd (eq_run load ops q))"
proof (induction ops arbitrary: q)
  case (Cons op ops)
  then show ?case using eq_exec_unique [of q op load] by (auto simp: split_def Let_def)
qed simp

subsection \<open>Ticks\<close>

text \<open>
  The data of a timer's event counts its ticks since it was collected last.  \<open>ticks k ops\<close> are the
  triggers of the timer, \<open>delivered k outs\<close> the ticks its collected events tell.
\<close>

definition is_tick :: "u64 \<times> Filter \<Rightarrow> eq_op \<Rightarrow> bool" where
  "is_tick k op \<longleftrightarrow> (case op of Op_Trigger tsc i f d \<Rightarrow> (i, f) = k | _ \<Rightarrow> False)"

definition keeps :: "u64 \<times> Filter \<Rightarrow> eq_op \<Rightarrow> bool" where
  "keeps k op \<longleftrightarrow> op_ok op \<and> (case op of Op_Remove i f \<Rightarrow> (i, f) \<noteq> k | _ \<Rightarrow> True)"

definition delivered :: "u64 \<times> Filter \<Rightarrow> OrbisKernelEvent list \<Rightarrow> u64" where
  "delivered k outs = sum_list (map ev_data (filter (\<lambda>e. (ev_ident e, ev_filter e) = k) outs))"

definition pending_ticks :: "u64 \<times> Filter \<Rightarrow> EqueueInternal \<Rightarrow> u64" where
  "pending_ticks k q = (case look q k of None \<Rightarrow> 0 | Some e \<Rightarrow> ev_data (kevent e))"

text \<open>A periodic timer's event, in a queue: its ticks are told, and none are left when it is quiet.\<close>

definition ticking :: "u64 \<times> Filter \<Rightarrow> EqueueInternal \<Rightarrow> bool" where
  "ticking k q \<longleftrightarrow> unique q \<and>
     (\<exists>e. look q k = Some e \<and> has_flag (kevent e) Flag_Clear \<and> \<not> has_flag (kevent e) Flag_OneShot \<and>
          (\<not> is_triggered e \<longrightarrow> ev_data (kevent e) = 0))"

lemma delivered_simps [simp]: "delivered k [] = 0" "delivered k (xs @ ys) = delivered k xs + delivered k ys"
  by (simp_all add: delivered_def)

lemma filter_single:
  assumes "distinct xs" "x \<in> set xs" "P x" "\<forall>y\<in>set xs. P y \<longrightarrow> y = x"
  shows "filter P xs = [x]"
proof -
  obtain ys zs where xs: "xs = ys @ x # zs" using split_list [OF assms(2)] by blast
  have "y \<notin> set ys \<union> set zs" if "P y" for y
  proof
    assume y: "y \<in> set ys \<union> set zs"
    then have "y \<in> set xs" unfolding xs by simp
    with assms(4) that have "y = x" by blast
    with y assms(1) xs show False by simp
  qed
  then have "filter P ys = []" "filter P zs = []" unfolding filter_empty_conv by blast+
  with xs assms(3) show ?thesis by simp
qed

lemma delivered_collected:
  assumes u: "unique q" and e: "look q k = Some e"
    and out: "out = map kevent (filter is_triggered (take n (m_events q)))"
  shows "delivered k out = (if kevent e \<in> set out \<and> is_triggered e then ev_data (kevent e) else 0)"
proof -
  let ?t = "filter is_triggered (take n (m_events q))"
  have ek: "e \<in> set (m_events q)" "key e = k" using contents_key [OF e] by auto
  have d: "distinct ?t" using u by (simp add: unique_def keys_of_def distinct_map)
  have f: "filter (\<lambda>x. (ev_ident x, ev_filter x) = k) out = map kevent (filter (\<lambda>x. key x = k) ?t)"
    by (simp add: out filter_map comp_def key_def)
  have same: "x = e" if "x \<in> set ?t" "key x = k" for x
    using that u e contents_Some [of "m_events q" k x] by (auto simp: unique_def dest: in_set_takeD)
  show ?thesis
  proof (cases "e \<in> set ?t")
    case True
    then have "filter (\<lambda>x. key x = k) ?t = [e]"
      by (intro filter_single [OF d]) (use same ek in blast)+
    then show ?thesis using True f by (auto simp: delivered_def out)
  next
    case False
    then have "filter (\<lambda>x. key x = k) ?t = []" using same by (auto simp: filter_empty_conv)
    moreover have "kevent e \<notin> set out \<or> \<not> is_triggered e"
    proof (rule ccontr)
      assume "\<not> (kevent e \<notin> set out \<or> \<not> is_triggered e)"
      then obtain x where x: "x \<in> set ?t" "kevent x = kevent e" by (auto simp: out)
      then have "key x = k" using ek(2) by (simp add: key_def)
      with same [OF x(1)] x(1) False show False by blast
    qed
    ultimately show ?thesis using f by (auto simp: delivered_def)
  qed
qed

lemma ticking_at:
  assumes "ticking k q"
  obtains e where "unique q" "look q k = Some e" "has_flag (kevent e) Flag_Clear" "\<not> has_flag (kevent e) Flag_OneShot"
    "\<not> is_triggered e \<longrightarrow> ev_data (kevent e) = 0" "pending_ticks k q = ev_data (kevent e)"
  using assms by (auto simp: ticking_def pending_ticks_def)

text \<open>Operations that leave the event's data, flags and state alone.\<close>

lemma ticking_same:
  assumes "unique q'" "look q k = Some e" "ticking k q" "look q' k = Some e1"
    "ev_data (kevent e1) = ev_data (kevent e)" "ev_flags (kevent e1) = ev_flags (kevent e)" "is_triggered e1 = is_triggered e"
  shows "ticking k q' \<and> pending_ticks k q' = pending_ticks k q"
  using assms by (auto simp: ticking_def pending_ticks_def has_flag_def)

lemma tick_step:
  assumes t: "ticking k q" and k: "snd k = Filter_Timer \<or> snd k = Filter_HrTimer"
    and op: "keeps k op" and ex: "eq_exec load op q = (out, q')"
  shows "ticking k q' \<and> delivered k out + pending_ticks k q' = pending_ticks k q + (if is_tick k op then 1 else 0)"
proof -
  obtain e where u: "unique q" and e: "look q k = Some e" and fl: "has_flag (kevent e) Flag_Clear" "\<not> has_flag (kevent e) Flag_OneShot"
    and quiet: "\<not> is_triggered e \<longrightarrow> ev_data (kevent e) = 0" and pend: "pending_ticks k q = ev_data (kevent e)"
    using ticking_at [OF t] by metis
  have u': "unique q'" using eq_exec_unique [OF u, of op load] op ex by (simp add: keeps_def)
  have same: "ticking k q' \<and> pending_ticks k q' = pending_ticks k q"
    if "look q' k = Some e1" "kevent e1 = (kevent e)\<lparr>ev_udata := x\<rparr> \<or> kevent e1 = kevent e" "is_triggered e1 = is_triggered e" for e1 x
    using ticking_same [OF u' e t that(1)] that(2,3) by auto
  show ?thesis
  proof (cases op)
    case (Op_Add now n)
    have d: "out = []" "q' = snd (AddEvent load now n q)" using ex Op_Add by auto
    have "\<exists>e1 x. look q' k = Some e1 \<and> (kevent e1 = (kevent e)\<lparr>ev_udata := x\<rparr> \<or> kevent e1 = kevent e) \<and> is_triggered e1 = is_triggered e"
      using AddEvent_new [OF u, of n load now] AddEvent_again [OF u, of n _ load now] e d(2)
      by (cases "key n = k"; cases "look q (key n)") auto
    with same d(1) Op_Add show ?thesis by (auto simp: is_tick_def)
  next
    case (Op_Remove i f)
    then have "look q' k = Some e" "out = []"
      using RemoveEvent_look [OF u, of i f] ex op e by (auto simp: keeps_def split: prod.splits)
    with same Op_Remove show ?thesis by (auto simp: is_tick_def)
  next
    case (Op_Trigger tsc i f d)
    then have l: "look q' = (look q)((i, f) := map_option (trigger_one tsc f d) (look q (i, f)))" "out = []"
      using TriggerEvent_look [where tsc = tsc and i = i and f = f and d = d and q = q] ex by (auto split: prod.splits)
    show ?thesis
    proof (cases "(i, f) = k")
      case True
      then have "look q' k = Some (TriggerTimer e)"
        using l(1) e k by (auto simp: trigger_one_def filter_defs)
      then have "ticking k q' \<and> pending_ticks k q' = pending_ticks k q + 1"
        using u' fl pend by (auto simp: ticking_def pending_ticks_def TriggerTimer_def has_flag_def)
      with True l(2) Op_Trigger show ?thesis by (simp add: is_tick_def)
    next
      case False
      then have "look q' k = Some e" using l(1) e by auto
      with same False l(2) Op_Trigger show ?thesis by (auto simp: is_tick_def)
    qed
  next
    case (Op_Collect num)
    have c: "GetTriggeredEvents num q = (out, q')" "0 < num" using ex op Op_Collect by (auto simp: keeps_def op_ok_def)
    obtain n where n: "out = map kevent (filter is_triggered (take n (m_events q)))"
      "look q' = (\<lambda>k. case look q k of None \<Rightarrow> None
        | Some e \<Rightarrow> if kevent e \<in> set out \<and> is_triggered e then after e else Some e)"
      using GetTriggeredEvents_look [OF u c(2,1)] by blast
    have dl: "delivered k out = (if kevent e \<in> set out \<and> is_triggered e then ev_data (kevent e) else 0)"
      by (rule delivered_collected [OF u e n(1)])
    show ?thesis
    proof (cases "kevent e \<in> set out \<and> is_triggered e")
      case True
      then have "look q' k = Some (Event_Clear e)" using n(2) e fl by (simp add: after_def cleared_def)
      then have "ticking k q' \<and> pending_ticks k q' = 0"
        using u' fl by (auto simp: ticking_def pending_ticks_def Event_Clear_def has_flag_def)
      then show ?thesis using True dl pend Op_Collect by (simp add: is_tick_def)
    next
      case False
      then have "look q' k = Some e" unfolding n(2) using e by auto
      with same dl False Op_Collect show ?thesis by (auto simp: is_tick_def)
    qed
  next
    case (Op_Schedule now i f cb)
    have d: "out = []" "q' = snd (ScheduleEvent now i f cb q)" using ex Op_Schedule by auto
    have "\<exists>e1. look q' k = Some e1 \<and> kevent e1 = kevent e \<and> is_triggered e1 = is_triggered e"
    proof (cases "f = Filter_Timer \<or> f = Filter_HrTimer")
      case True
      then show ?thesis
        using ScheduleEvent_look [OF u True, of now i cb] e d(2) by (auto simp: armed_def split: option.splits)
    next
      case False
      then show ?thesis using ScheduleEvent_other [of f now i cb q] d(2) e by simp
    qed
    with same d(1) Op_Schedule show ?thesis by (auto simp: is_tick_def)
  qed
qed

lemma tick_run:
  assumes "ticking k q" "snd k = Filter_Timer \<or> snd k = Filter_HrTimer" "list_all (keeps k) ops"
  shows "ticking k (snd (eq_run load ops q)) \<and>
    delivered k (fst (eq_run load ops q)) + pending_ticks k (snd (eq_run load ops q)) =
    pending_ticks k q + of_nat (length (filter (is_tick k) ops))"
  using assms
proof (induction ops arbitrary: q)
  case (Cons op ops)
  obtain out q1 where x: "eq_exec load op q = (out, q1)" by fastforce
  have s: "ticking k q1" "delivered k out + pending_ticks k q1 = pending_ticks k q + (if is_tick k op then 1 else 0)"
    using tick_step [OF Cons.prems(1,2) _ x] Cons.prems(3) by auto
  have "delivered k (fst (eq_run load ops q1)) + pending_ticks k (snd (eq_run load ops q1)) =
      pending_ticks k q1 + of_nat (length (filter (is_tick k) ops))" "ticking k (snd (eq_run load ops q1))"
    using Cons.IH [OF s(1) Cons.prems(2)] Cons.prems(3) by auto
  with s(2) show ?case by (simp add: x split_def Let_def algebra_simps)
qed simp

lemma flag_bits:
  "has_flag e Flag_OneShot \<longleftrightarrow> bit (ev_flags e) 4" "has_flag e Flag_Clear \<longleftrightarrow> bit (ev_flags e) 5"
  using and_exp_eq_0_iff_not_bit [of "ev_flags e" 4] and_exp_eq_0_iff_not_bit [of "ev_flags e" 5]
  by (simp_all add: has_flag_def flag_defs)

lemma added_flags:
  "bit (ev_flags (kevent (added load now e))) 4 = bit (ev_flags (kevent e)) 4"
  "ev_filter (kevent e) \<noteq> Filter_User \<Longrightarrow> bit (ev_flags (kevent (added load now e))) 5"
proof -
  have b: "bit (0x20 :: u16) n \<longleftrightarrow> n = 5" "bit (1 :: u16) n \<longleftrightarrow> n = 0" for n
    using bit_exp_iff [where 'a = u16 and m = 5 and n = n] by (auto simp: bit_1_iff)
  show "bit (ev_flags (kevent (added load now e))) 4 = bit (ev_flags (kevent e)) 4"
    "ev_filter (kevent e) \<noteq> Filter_User \<Longrightarrow> bit (ev_flags (kevent (added load now e))) 5"
    by (auto simp: added_def armed_def flag_defs Let_def bit_or_iff bit_and_iff bit_not_iff b)
qed

lemma new_timer_ticking:
  assumes "unique q" "look q (key e) = None" "snd (key e) = Filter_Timer" "\<not> has_flag (kevent e) Flag_OneShot" "\<not> is_triggered e"
  shows "ticking (key e) (snd (AddEvent load now e q)) \<and> pending_ticks (key e) (snd (AddEvent load now e q)) = 0"
proof -
  have f: "ev_filter (kevent e) = Filter_Timer" using assms(3) by (simp add: key_def)
  have "has_flag (kevent (added load now e)) Flag_Clear"
    using added_flags(2) [of e load now] by (simp add: flag_bits f filter_defs)
  moreover have "\<not> has_flag (kevent (added load now e)) Flag_OneShot"
    using assms(4) added_flags(1) [of load now e] by (simp add: flag_bits)
  moreover have "\<not> is_triggered (added load now e)" "ev_data (kevent (added load now e)) = 0"
    using assms(5) by (simp_all add: added_def f armed_def Let_def)
  ultimately show ?thesis
    using AddEvent_new [OF assms(1,2), of load now] by (auto simp: ticking_def pending_ticks_def)
qed

subsection \<open>The interval of a high-resolution timer\<close>

lemma sint_mult64:
  "- (2 ^ 63) \<le> sint a * sint b \<Longrightarrow> sint a * sint b < 2 ^ 63 \<Longrightarrow> sint (a * b :: s64) = sint a * sint b"
  by (simp add: sint_word_ariths signed_take_bit_int_eq_self)

lemma sint_add64s:
  "- (2 ^ 63) \<le> sint a + sint b \<Longrightarrow> sint a + sint b < 2 ^ 63 \<Longrightarrow> sint (a + b :: s64) = sint a + sint b"
  by (simp add: sint_word_ariths signed_take_bit_int_eq_self)

lemma sint_asr32: "sint (signed_drop_bit 32 (a :: s64)) = sint a div 4294967296"
  by (simp add: sint_signed_drop_bit_eq drop_bit_eq_div)

text \<open>
  The nanoseconds of a time as the binary fraction that \<^verbatim>\<open>sceKernelAddHRTimerEvent\<close> makes of them; the
  product is signed, and undefined when it does not fit.
\<close>

definition hr_frac :: "s64 \<Rightarrow> s64 option" where
  "hr_frac nsec = (if fits64 (sint nsec * 0x44b82fa09) then Some (nsec * 0x44b82fa09) else None)"

lemma hr_frac_sint:
  assumes "0 \<le> sint ns"
  shows "case hr_frac ns of None \<Rightarrow> 500000000 < sint ns
    | Some frac \<Rightarrow> sint ns \<le> 500000000 \<and> sint frac = sint ns * 18446744073"
proof -
  have b: "sint (0x44b82fa09 :: s64) = 18446744073" by simp
  show ?thesis
    using assms b sint_mult64 [of ns "0x44b82fa09"] by (auto simp: hr_frac_def fits64_def)
qed

lemma div32_bounds: "4294967296 * (x div 4294967296) \<le> x \<and> x < 4294967296 * (x div 4294967296) + 4294967296" for x :: int
  using mult_div_mod_eq [of 4294967296 x] pos_mod_bound [of 4294967296 x] pos_mod_sign [of 4294967296 x] by linarith

lemma nanoseconds_kept:
  fixes n :: int
  assumes "0 < n" "n < 1000000000"
  shows "1000000000 * (n * 18446744073 div 4294967296) div 4294967296 = n - 1"
proof -
  define a where "a = n * 18446744073 div 4294967296"
  define d where "d = 1000000000 * a div 4294967296"
  have "4294967296 * a \<le> n * 18446744073" "n * 18446744073 < 4294967296 * a + 4294967296"
    using div32_bounds [of "n * 18446744073"] by (simp_all add: a_def)
  moreover have "4294967296 * d \<le> 1000000000 * a" "1000000000 * a < 4294967296 * d + 4294967296"
    using div32_bounds [of "1000000000 * a"] by (simp_all add: d_def)
  ultimately have "d = n - 1" using assms by linarith
  then show ?thesis by (simp add: d_def a_def)
qed

lemma bintime_nanoseconds:
  assumes "0 \<le> sint ns" "hr_frac ns = Some frac"
  shows "sint (signed_drop_bit 32 (1000000000 * signed_drop_bit 32 frac)) = (if sint ns = 0 then 0 else sint ns - 1)"
    "fits64 (1000000000 * sint (signed_drop_bit 32 frac))"
proof -
  define a where "a = sint ns * 18446744073 div 4294967296"
  have f: "sint ns \<le> 500000000" "sint frac = sint ns * 18446744073" using hr_frac_sint [OF assms(1)] assms(2) by auto
  have "4294967296 * a \<le> sint ns * 18446744073" "sint ns * 18446744073 < 4294967296 * a + 4294967296"
    using div32_bounds [of "sint ns * 18446744073"] by (simp_all add: a_def)
  then have b: "0 \<le> a" "a < 2147483648" using assms(1) f(1) by linarith+
  have s: "sint (signed_drop_bit 32 frac) = a" unfolding sint_asr32 f(2) a_def by simp
  show "fits64 (1000000000 * sint (signed_drop_bit 32 frac))" using b by (simp add: s fits64_def)
  have k: "sint (1000000000 :: s64) = 1000000000" by simp
  have "sint (1000000000 * signed_drop_bit 32 frac) = 1000000000 * a"
    using b by (subst sint_mult64) (auto simp: s k)
  then have "sint (signed_drop_bit 32 (1000000000 * signed_drop_bit 32 frac)) = (1000000000 * a) div 4294967296"
    by (simp only: sint_asr32)
  then show "sint (signed_drop_bit 32 (1000000000 * signed_drop_bit 32 frac)) = (if sint ns = 0 then 0 else sint ns - 1)"
    using nanoseconds_kept [of "sint ns"] assms(1) f(1) by (auto simp: a_def)
qed

lemma hr_interval:
  assumes "0 \<le> sint s" "sint s < 2 ^ 33" "0 \<le> sint ns" "hr_frac ns = Some frac"
  shows "bintime_defined \<lparr>bt_sec = s, bt_frac = frac\<rparr> \<and>
    sint (bintime_interval \<lparr>bt_sec = s, bt_frac = frac\<rparr>) = sint s * 1000000000 + (if sint ns = 0 then 0 else sint ns - 1)"
proof -
  let ?n = "signed_drop_bit 32 (1000000000 * signed_drop_bit 32 frac) :: s64"
  note n = bintime_nanoseconds [OF assms(3,4)]
  have "sint ns \<le> 500000000" using hr_frac_sint [OF assms(3)] assms(4) by simp
  then have nb: "0 \<le> sint ?n" "sint ?n < 1000000000" using n(1) assms(3) by (auto split: if_splits)
  have m: "sint (s * 1000000000) = sint s * 1000000000" using assms by (subst sint_mult64) auto
  have "sint (?n + s * 1000000000) = sint ?n + sint s * 1000000000"
    using nb m assms by (subst sint_add64s) auto
  moreover have "fits64 (sint s * 1000000000)" "fits64 (sint ?n + sint s * 1000000000)"
    using nb assms(1,2) by (simp_all add: fits64_def)
  ultimately show ?thesis using n by (simp add: bintime_interval_def bintime_defined_def Let_def)
qed

text \<open>
  C21: a high-resolution timer of \<open>s\<close> seconds and \<open>ns\<close> nanoseconds, written as a binary fraction and
  read back: the product that makes the fraction is defined up to exactly half a second; up to there
  nothing on the way overflows, and the interval is exact for whole seconds and one nanosecond short
  of the time asked for otherwise.  Above half a second the signed product overflows, so nothing is
  promised.
\<close>

theorem hr_interval_exact:
  assumes "0 \<le> sint s" "sint s < 2 ^ 33" "0 \<le> sint ns" "sint ns < 1000000000"
  shows "case hr_frac ns of
      None \<Rightarrow> 500000000 < sint ns
    | Some frac \<Rightarrow> sint ns \<le> 500000000 \<and> bintime_defined \<lparr>bt_sec = s, bt_frac = frac\<rparr> \<and>
        sint (bintime_interval \<lparr>bt_sec = s, bt_frac = frac\<rparr>) =
          sint s * 1000000000 + sint ns - (if sint ns = 0 then 0 else 1)"
  using hr_interval [OF assms(1-3)] hr_frac_sint [OF assms(3)] by (auto split: option.splits)

theorem hr_interval_exact_witness:
  "sint (bintime_interval \<lparr>bt_sec = 2, bt_frac = the (hr_frac 500000000)\<rparr>) = 2499999999 \<and> hr_frac 500000001 = None"
proof -
  have "case hr_frac 500000000 of None \<Rightarrow> False
    | Some frac \<Rightarrow> sint (bintime_interval \<lparr>bt_sec = 2, bt_frac = frac\<rparr>) = 2499999999"
    using hr_interval_exact [of 2 500000000] by (simp split: option.splits)
  moreover have "hr_frac 500000001 = None"
    using hr_interval_exact [of 2 500000001] by (simp split: option.splits)
  ultimately show ?thesis by (simp split: option.splits)
qed

subsection \<open>What a run delivers\<close>

text \<open>
  C7: from the moment an event of a timer that is not for one shot is added to a queue that has no
  event of its key, whatever operations follow that do not remove it, the ticks told by its collected
  events together with those still pending are the ticks that happened (modulo \<open>2 ^ 64\<close>), and when
  its event is not triggered the collected ones alone are.
\<close>

theorem ticks_conserved:
  assumes "unique q" "look q (key e) = None" "ev_filter (kevent e) = Filter_Timer"
    "\<not> has_flag (kevent e) Flag_OneShot" "\<not> is_triggered e" "list_all (keeps (key e)) ops"
    "eq_run load ops (snd (AddEvent load now e q)) = (out, q')"
  shows "\<exists>e'. look q' (key e) = Some e' \<and>
      delivered (key e) out + ev_data (kevent e') = of_nat (length (filter (is_tick (key e)) ops)) \<and>
      (\<not> is_triggered e' \<longrightarrow> delivered (key e) out = of_nat (length (filter (is_tick (key e)) ops)))"
proof -
  have f: "snd (key e) = Filter_Timer" by (simp add: key_def assms(3))
  have t: "ticking (key e) (snd (AddEvent load now e q))" "pending_ticks (key e) (snd (AddEvent load now e q)) = 0"
    using new_timer_ticking [OF assms(1,2) f assms(4,5)] by blast+
  have r: "ticking (key e) q'"
    "delivered (key e) out + pending_ticks (key e) q' = of_nat (length (filter (is_tick (key e)) ops))"
    using tick_run [OF t(1) _ assms(6), of load] f t(2) assms(7) by auto
  from ticking_at [OF r(1)] show ?thesis using r(2) by (metis add.right_neutral)
qed

definition demo_timer :: EqueueEvent where
  "demo_timer = EqueueEvent_new \<lparr>ev_ident = 5, ev_filter = Filter_Timer, ev_flags = Flag_Add, ev_fflags = 0, ev_data = 100, ev_udata = 9\<rparr>"

theorem ticks_conserved_witness:
  "\<exists>e'. look (snd (eq_run (\<lambda>_. \<lparr>bt_sec = 0, bt_frac = 0\<rparr>)
      [Op_Trigger 0 5 Filter_Timer 0, Op_Trigger 0 5 Filter_Timer 0, Op_Collect 1, Op_Trigger 0 5 Filter_Timer 0]
      (snd (AddEvent (\<lambda>_. \<lparr>bt_sec = 0, bt_frac = 0\<rparr>) 0 demo_timer (EqueueInternal_new 1 ''q''))))) (5, Filter_Timer) = Some e' \<and>
    2 + ev_data (kevent e') = 3"
proof -
  let ?l = "\<lambda>_ :: u64. \<lparr>bt_sec = 0, bt_frac = 0\<rparr>"
  let ?ops = "[Op_Trigger 0 5 Filter_Timer 0, Op_Trigger 0 5 Filter_Timer 0, Op_Collect 1, Op_Trigger 0 5 Filter_Timer 0]"
  let ?q = "snd (AddEvent ?l 0 demo_timer (EqueueInternal_new 1 ''q''))"
  have k: "key demo_timer = (5, Filter_Timer)" by (simp add: key_def demo_timer_def EqueueEvent_new_def)
  have d: "delivered (5, Filter_Timer) (fst (eq_run ?l ?ops ?q)) = 2"
    by code_simp
  have "\<exists>e'. look (snd (eq_run ?l ?ops ?q)) (key demo_timer) = Some e' \<and>
      delivered (key demo_timer) (fst (eq_run ?l ?ops ?q)) + ev_data (kevent e') =
        of_nat (length (filter (is_tick (key demo_timer)) ?ops)) \<and>
      (\<not> is_triggered e' \<longrightarrow> delivered (key demo_timer) (fst (eq_run ?l ?ops ?q)) =
        of_nat (length (filter (is_tick (key demo_timer)) ?ops)))"
    by (rule ticks_conserved [where now = 0 and load = ?l and q = "EqueueInternal_new 1 ''q''"])
      (simp_all add: unique_def EqueueInternal_new_def demo_timer_def EqueueEvent_new_def has_flag_def flag_defs
        keeps_def op_ok_def)
  then show ?thesis unfolding k d by (auto simp: is_tick_def)
qed

lemma filter_take: "filter P (take n xs) = take (length (filter P (take n xs))) (filter P xs)"
proof -
  have "filter P xs = filter P (take n xs) @ filter P (drop n xs)"
    unfolding filter_append [symmetric] by simp
  then show ?thesis by simp
qed

text \<open>
  C19: in a queue that any sequence of operations has made from an empty one, an identifier and filter
  name one event at most, and collecting \<open>num\<close> events returns the first \<open>num\<close> triggered ones in the order
  of the queue; those collected are removed if they are for one shot, reset if they have the flag for
  it, and every other event stays as it was.
\<close>

theorem collect_exact:
  assumes "list_all op_ok ops" "q = snd (eq_run load ops (EqueueInternal_new handle nm))"
    "0 < num" "GetTriggeredEvents num q = (out, q')"
  shows "distinct (keys_of (m_events q)) \<and>
    out = map kevent (take (nat num) (filter is_triggered (m_events q))) \<and>
    look q' = (\<lambda>k. case look q k of None \<Rightarrow> None
      | Some e \<Rightarrow> if kevent e \<in> set out \<and> is_triggered e
                 then if has_flag (kevent e) Flag_OneShot then None
                      else if has_flag (kevent e) Flag_Clear then Some (Event_Clear e) else Some e
                 else Some e)"
proof -
  have u: "unique q"
    unfolding assms(2) by (rule eq_run_unique) (use assms(1) in \<open>simp_all add: unique_def EqueueInternal_new_def\<close>)
  obtain n where n: "out = map kevent (filter is_triggered (take n (m_events q)))"
    "length out = min (nat num) (length (filter is_triggered (m_events q)))"
    "look q' = (\<lambda>k. case look q k of None \<Rightarrow> None
        | Some e \<Rightarrow> if kevent e \<in> set out \<and> is_triggered e then after e else Some e)"
    using GetTriggeredEvents_look [OF u assms(3,4)] by blast
  have "take (length out) (filter is_triggered (m_events q)) = take (nat num) (filter is_triggered (m_events q))"
    using n(2) by (simp add: min_def)
  then have "out = map kevent (take (nat num) (filter is_triggered (m_events q)))"
    using n(1) filter_take [of is_triggered n "m_events q"] by simp
  then show ?thesis
    using u n(3) by (auto simp: unique_def fun_eq_iff after_def cleared_def split: option.split)
qed

theorem collect_exact_witness:
  "map kevent (take 1 (filter is_triggered (m_events (snd (eq_run (\<lambda>_. \<lparr>bt_sec = 0, bt_frac = 0\<rparr>)
      [Op_Add 0 demo_timer, Op_Trigger 0 5 Filter_Timer 0] (EqueueInternal_new 1 ''q'')))))) =
   [\<lparr>ev_ident = 5, ev_filter = Filter_Timer, ev_flags = Flag_Clear, ev_fflags = 0, ev_data = 1, ev_udata = 9\<rparr>]"
proof -
  let ?l = "\<lambda>_ :: u64. \<lparr>bt_sec = 0, bt_frac = 0\<rparr>"
  let ?ops = "[Op_Add 0 demo_timer, Op_Trigger 0 5 Filter_Timer 0]"
  let ?q = "snd (eq_run ?l ?ops (EqueueInternal_new 1 ''q''))"
  have g: "fst (GetTriggeredEvents 1 ?q) =
      [\<lparr>ev_ident = 5, ev_filter = Filter_Timer, ev_flags = Flag_Clear, ev_fflags = 0, ev_data = 1, ev_udata = 9\<rparr>]"
    by code_simp
  have "fst (GetTriggeredEvents 1 ?q) = map kevent (take (nat 1) (filter is_triggered (m_events ?q)))"
    by (rule collect_exact [where ops = ?ops and load = ?l and handle = 1 and nm = "''q''" and num = 1 and q = ?q
        and q' = "snd (GetTriggeredEvents 1 ?q)", THEN conjunct2, THEN conjunct1]) (simp_all add: op_ok_def)
  then show ?thesis unfolding g by simp
qed

end
