(* ===== verification/File_Table.thy ===== *)
theory File_Table
  imports Slot_Vector
begin

section \<open>The table of file descriptors\<close>

text \<open>
  \<^verbatim>\<open>HandleTable\<close> of \<^verbatim>\<open>core/file_sys/fs.cpp\<close>: a vector of pointers to files, where a null pointer is a
  descriptor that was closed.  Files live in a store; an address is given out once.  The host's
  file, directory, socket and device objects inside a file are left out but for the device's name.
  An index outside the vector where the code asks with \<^verbatim>\<open>at\<close> is an exception that nobody catches, a
  field of a null pointer is undefined: both are \<open>None\<close>.
\<close>

subsection \<open>The code\<close>

datatype FileType =
    File_Regular | File_Directory | File_Device | File_Socket | File_Epoll | File_Resolver | File_Equeue

record File =
  is_opened :: bool
  file_type :: FileType
  m_host_name :: string
  m_guest_name :: string
  device :: "string option"

definition File_new :: File where
  "File_new = \<lparr>is_opened = False, file_type = File_Regular, m_host_name = '''', m_guest_name = '''', device = None\<rparr>"

record HandleTable =
  m_files :: "nat option list"
  file_store :: "nat \<Rightarrow> File option"
  next_file :: nat

definition HandleTable_new :: HandleTable where
  "HandleTable_new = \<lparr>m_files = [], file_store = (\<lambda>_. None), next_file = 0\<rparr>"

fun first_null :: "nat option list \<Rightarrow> nat option" where
  "first_null [] = None"
| "first_null (p # ps) = (if p = None then Some 0 else map_option Suc (first_null ps))"

definition CreateHandle :: "HandleTable \<Rightarrow> int \<times> HandleTable" where
  "CreateHandle t =
     (let a = next_file t;
          t = t\<lparr>file_store := (file_store t)(a \<mapsto> File_new\<lparr>is_opened := False\<rparr>), next_file := a + 1\<rparr>
      in case first_null (m_files t) of
           Some index \<Rightarrow> (int index, t\<lparr>m_files := (m_files t)[index := Some a]\<rparr>)
         | None \<Rightarrow> (int (length (m_files t)), t\<lparr>m_files := m_files t @ [Some a]\<rparr>))"

definition DeleteHandle :: "int \<Rightarrow> HandleTable \<Rightarrow> HandleTable option" where
  "DeleteHandle d t =
     (if d < 0 \<or> d \<ge> int (length (m_files t)) then None
      else Some (t\<lparr>file_store := (case m_files t ! nat d of None \<Rightarrow> file_store t | Some a \<Rightarrow> (file_store t)(a := None)),
                   m_files := (m_files t)[nat d := None]\<rparr>))"

text \<open>The functions that look a descriptor up return an address, \<open>None\<close> for the null pointer.\<close>

definition GetFile :: "int \<Rightarrow> HandleTable \<Rightarrow> nat option" where
  "GetFile d t = (if d < 0 \<or> d \<ge> int (length (m_files t)) then None else m_files t ! nat d)"

definition GetSocket :: "int \<Rightarrow> HandleTable \<Rightarrow> nat option option" where
  "GetSocket d t =
     (if d < 0 \<or> d \<ge> int (length (m_files t)) then Some None
      else case m_files t ! nat d of
        None \<Rightarrow> Some None
      | Some a \<Rightarrow> do {
          f \<leftarrow> file_store t a;
          Some (if file_type f \<noteq> File_Socket then None else Some a)
        })"

text \<open>\<^verbatim>\<open>GetEpoll\<close> and \<^verbatim>\<open>GetResolver\<close> do not ask whether the pointer is null.\<close>

definition get_typed :: "FileType \<Rightarrow> int \<Rightarrow> HandleTable \<Rightarrow> nat option option" where
  "get_typed type d t =
     (if d < 0 \<or> d \<ge> int (length (m_files t)) then Some None
      else do {
        a \<leftarrow> m_files t ! nat d;
        f \<leftarrow> file_store t a;
        Some (if file_type f \<noteq> type then None else Some a)
      })"

definition GetEpoll :: "int \<Rightarrow> HandleTable \<Rightarrow> nat option option" where
  "GetEpoll = get_typed File_Epoll"

definition GetResolver :: "int \<Rightarrow> HandleTable \<Rightarrow> nat option option" where
  "GetResolver = get_typed File_Resolver"

fun find_host_name :: "string \<Rightarrow> nat option list \<Rightarrow> (nat \<Rightarrow> File option) \<Rightarrow> nat option option" where
  "find_host_name nm [] st = Some None"
| "find_host_name nm (None # ps) st = find_host_name nm ps st"
| "find_host_name nm (Some a # ps) st =
     do {
       f \<leftarrow> st a;
       if m_host_name f = nm then Some (Some a) else find_host_name nm ps st
     }"

definition GetFile_by_name :: "string \<Rightarrow> HandleTable \<Rightarrow> nat option option" where
  "GetFile_by_name host_name t = find_host_name host_name (m_files t) (file_store t)"

fun find_file :: "nat option \<Rightarrow> nat option list \<Rightarrow> nat option" where
  "find_file p [] = None"
| "find_file p (x # xs) = (if x = p then Some 0 else map_option Suc (find_file p xs))"

definition GetFileDescriptor :: "nat option \<Rightarrow> HandleTable \<Rightarrow> int" where
  "GetFileDescriptor p t = (case find_file p (m_files t) of Some i \<Rightarrow> int i | None \<Rightarrow> 0)"

text \<open>What a caller does with a new handle: fill the file behind it.\<close>

definition fill_handle :: "(File \<Rightarrow> File) \<Rightarrow> HandleTable \<Rightarrow> (int \<times> HandleTable) option" where
  "fill_handle g t =
     do {
       let (fd, t) = CreateHandle t;
       a \<leftarrow> GetFile fd t;
       f \<leftarrow> file_store t a;
       Some (fd, t\<lparr>file_store := (file_store t)(a \<mapsto> g f)\<rparr>)
     }"

definition setup_device :: "string \<Rightarrow> string \<Rightarrow> HandleTable \<Rightarrow> (int \<times> HandleTable) option" where
  "setup_device path dev =
     fill_handle (\<lambda>f. f\<lparr>is_opened := True, file_type := File_Device, m_guest_name := path, device := Some dev\<rparr>)"

definition CreateStdHandles :: "HandleTable \<Rightarrow> HandleTable option" where
  "CreateStdHandles t =
     do {
       (fd, t) \<leftarrow> setup_device ''/dev/stdin'' ''stdin'' t;
       (fd, t) \<leftarrow> setup_device ''/dev/stdout'' ''stdout'' t;
       (fd, t) \<leftarrow> setup_device ''/dev/stderr'' ''stderr'' t;
       Some t
     }"

subsection \<open>The table as a map\<close>

text \<open>Open descriptors have files of their own, at addresses that were given out.\<close>

definition table_ok :: "HandleTable \<Rightarrow> bool" where
  "table_ok t \<longleftrightarrow>
     (\<forall>i<length (m_files t). \<forall>a. m_files t ! i = Some a \<longrightarrow> a < next_file t \<and> file_store t a \<noteq> None \<and>
        (\<forall>j<length (m_files t). m_files t ! j = Some a \<longrightarrow> j = i))"

definition file_at :: "HandleTable \<Rightarrow> int \<Rightarrow> File option" where
  "file_at t d = Option.bind (GetFile d t) (file_store t)"

lemma first_null_Some: "first_null ps = Some i \<Longrightarrow> i < length ps \<and> ps ! i = None \<and> (\<forall>j<i. ps ! j \<noteq> None)"
proof (induction ps arbitrary: i)
  case (Cons p ps)
  then show ?case by (cases i) (auto simp: less_Suc_eq_0_disj nth_Cons split: if_splits nat.splits)
qed simp

lemma first_null_None: "first_null ps = None \<longleftrightarrow> None \<notin> set ps"
  by (induction ps) auto

text \<open>The new descriptor is the least one that is free.\<close>

lemma CreateHandle_least:
  assumes "CreateHandle t = (d, t')"
  shows "0 \<le> d \<and> GetFile d t = None \<and> (\<forall>i. 0 \<le> i \<and> i < d \<longrightarrow> GetFile i t \<noteq> None) \<and>
    GetFile d t' = Some (next_file t) \<and> (\<forall>i. i \<noteq> d \<longrightarrow> GetFile i t' = GetFile i t) \<and>
    file_store t' = (file_store t)(next_file t \<mapsto> File_new) \<and> next_file t' = next_file t + 1"
proof (cases "first_null (m_files t)")
  case None
  then have n: "\<forall>j<length (m_files t). m_files t ! j \<noteq> None" by (metis first_null_None nth_mem)
  have d: "d = int (length (m_files t))" "m_files t' = m_files t @ [Some (next_file t)]"
    "file_store t' = (file_store t)(next_file t \<mapsto> File_new)" "next_file t' = next_file t + 1"
    using assms None by (auto simp: CreateHandle_def Let_def File_new_def)
  then show ?thesis
    using n by (auto simp: GetFile_def nth_append nat_less_iff)
next
  case (Some i)
  note i = first_null_Some [OF Some]
  have d: "d = int i" "m_files t' = (m_files t)[i := Some (next_file t)]"
    "file_store t' = (file_store t)(next_file t \<mapsto> File_new)" "next_file t' = next_file t + 1"
    using assms Some by (auto simp: CreateHandle_def Let_def File_new_def)
  then show ?thesis
    using i by (auto simp: GetFile_def nth_list_update nat_less_iff)
qed

lemma GetFile_Some: "GetFile d t = Some a \<longleftrightarrow> 0 \<le> d \<and> d < int (length (m_files t)) \<and> m_files t ! nat d = Some a"
  by (auto simp: GetFile_def)

lemma table_ok_iff:
  "table_ok t \<longleftrightarrow> (\<forall>d a. GetFile d t = Some a \<longrightarrow> a < next_file t \<and> file_store t a \<noteq> None \<and>
     (\<forall>e. GetFile e t = Some a \<longrightarrow> e = d))" (is "_ \<longleftrightarrow> ?r")
proof
  assume t: "table_ok t"
  show ?r
  proof (intro allI impI)
    fix d a assume d: "GetFile d t = Some a"
    then have n: "nat d < length (m_files t)" "m_files t ! nat d = Some a" by (auto simp: GetFile_Some)
    have "e = d" if "GetFile e t = Some a" for e
    proof -
      have "nat e < length (m_files t)" "m_files t ! nat e = Some a" "0 \<le> e" using that by (auto simp: GetFile_Some)
      then have "nat e = nat d" using t n unfolding table_ok_def by blast
      then show ?thesis using d \<open>0 \<le> e\<close> by (simp add: GetFile_Some eq_nat_nat_iff)
    qed
    then show "a < next_file t \<and> file_store t a \<noteq> None \<and> (\<forall>e. GetFile e t = Some a \<longrightarrow> e = d)"
      using t n unfolding table_ok_def by blast
  qed
next
  assume r: ?r
  have "GetFile (int i) t = Some a" if "i < length (m_files t)" "m_files t ! i = Some a" for i a
    using that by (simp add: GetFile_Some)
  with r show "table_ok t" unfolding table_ok_def by (metis of_nat_eq_iff)
qed

lemma table_okD:
  assumes "table_ok t" "GetFile d t = Some a"
  shows "a < next_file t" "\<exists>f. file_store t a = Some f" "GetFile e t = Some a \<Longrightarrow> e = d"
  using assms unfolding table_ok_iff by blast+

lemma file_at_open: "table_ok t \<Longrightarrow> file_at t d = None \<longleftrightarrow> GetFile d t = None"
  using table_okD(2) [of t d] by (cases "GetFile d t") (auto simp: file_at_def)

lemma fill_handle_ok:
  assumes t: "table_ok t"
  shows "\<exists>d t'. fill_handle g t = Some (d, t') \<and> table_ok t' \<and> file_at t d = None \<and>
      file_at t' = (file_at t)(d \<mapsto> g File_new) \<and> 0 \<le> d \<and> (\<forall>i. 0 \<le> i \<and> i < d \<longrightarrow> file_at t i \<noteq> None)"
proof -
  obtain d t1 where c: "CreateHandle t = (d, t1)" by fastforce
  note l = CreateHandle_least [OF c]
  define t' where "t' = t1\<lparr>file_store := (file_store t1)(next_file t \<mapsto> g File_new)\<rparr>"
  have f: "fill_handle g t = Some (d, t')" using l by (simp add: fill_handle_def c t'_def)
  have get: "GetFile e t' = (if e = d then Some (next_file t) else GetFile e t)" for e
  proof -
    have "GetFile e t' = GetFile e t1" by (simp add: t'_def GetFile_def)
    then show ?thesis using l by simp
  qed
  have old: "GetFile e t = Some a \<Longrightarrow> a \<noteq> next_file t" for e a using table_okD(1) [OF t] by blast
  have st: "file_store t' a = (if a = next_file t then Some (g File_new) else file_store t a)" for a
    using l by (simp add: t'_def)
  have ok: "table_ok t'"
    unfolding table_ok_iff get st using t l old by (auto simp: t'_def table_ok_iff less_Suc_eq split: if_splits)
  have look: "file_at t' e = ((file_at t)(d \<mapsto> g File_new)) e" for e
    using old [of e] by (cases "GetFile e t") (auto simp: file_at_def get st)
  have "\<forall>i. 0 \<le> i \<and> i < d \<longrightarrow> file_at t i \<noteq> None" "file_at t d = None"
    using l file_at_open [OF t] by auto
  then show ?thesis using f ok look l by (intro exI [of _ d] exI [of _ t']) (simp add: fun_eq_iff)
qed

lemma DeleteHandle_ok:
  assumes t: "table_ok t" and d: "file_at t d = Some f"
  shows "\<exists>t'. DeleteHandle d t = Some t' \<and> table_ok t' \<and> file_at t' = (file_at t)(d := None)"
proof -
  obtain a where a: "GetFile d t = Some a" using d by (cases "GetFile d t") (auto simp: file_at_def)
  then have n: "0 \<le> d" "d < int (length (m_files t))" "m_files t ! nat d = Some a" by (simp_all add: GetFile_Some)
  define t' where "t' = t\<lparr>file_store := (file_store t)(a := None), m_files := (m_files t)[nat d := None]\<rparr>"
  have x: "DeleteHandle d t = Some t'" using n by (simp add: DeleteHandle_def t'_def)
  have get: "GetFile e t' = (if e = d then None else GetFile e t)" for e
    using n by (auto simp: t'_def GetFile_def nth_list_update)
  have st: "file_store t' = (file_store t)(a := None)" by (simp add: t'_def)
  have other: "GetFile e t = Some b \<Longrightarrow> e \<noteq> d \<Longrightarrow> b \<noteq> a" for e b using table_okD(3) [OF t a] by blast
  have "table_ok t'"
    unfolding table_ok_iff get using t other by (auto simp: t'_def table_ok_iff split: if_splits)
  moreover have "file_at t' e = ((file_at t)(d := None)) e" for e
    using other [of e] st by (cases "GetFile e t") (auto simp: file_at_def get)
  ultimately show ?thesis using x by (auto simp: fun_eq_iff)
qed

interpretation ht: slot_table table_ok "\<lambda>_. True" file_at "\<lambda>f. fill_handle (\<lambda>_. f)" DeleteHandle
proof
  fix s :: HandleTable and v i
  assume ok: "table_ok s"
  show "\<exists>i s'. fill_handle (\<lambda>_. v) s = Some (i, s') \<and> table_ok s' \<and> file_at s i = None \<and> file_at s' = (file_at s)(i \<mapsto> v)"
    using fill_handle_ok [OF ok] by blast
  show "\<exists>s'. DeleteHandle i s = Some s' \<and> table_ok s' \<and> file_at s' = (file_at s)(i := None)"
    if "file_at s i = Some v" using DeleteHandle_ok [OF ok that] .
qed

lemma HandleTable_new_ok: "table_ok HandleTable_new"
  by (simp add: HandleTable_new_def table_ok_def)

text \<open>What the typed look-ups do, and when they are defined.\<close>

lemma get_typed_defined:
  assumes "table_ok t"
  shows "get_typed ty d t = None \<longleftrightarrow> 0 \<le> d \<and> d < int (length (m_files t)) \<and> file_at t d = None"
  using file_at_open [OF assms, of d] table_okD(2) [OF assms, of d]
  by (cases "GetFile d t") (auto simp: get_typed_def GetFile_def split: if_splits)

subsection \<open>Theorems\<close>

text \<open>
  C29: Opening takes the least descriptor that is free and gives it the file; every other descriptor
  keeps its own, and closing it again leaves the table as it was.
\<close>

theorem descriptor_round_trip:
  assumes "table_ok t"
  shows "\<exists>d t1 t2. fill_handle (\<lambda>_. f) t = Some (d, t1) \<and> table_ok t1 \<and>
      0 \<le> d \<and> file_at t d = None \<and> (\<forall>i. 0 \<le> i \<and> i < d \<longrightarrow> file_at t i \<noteq> None) \<and> file_at t1 = (file_at t)(d \<mapsto> f) \<and>
      DeleteHandle d t1 = Some t2 \<and> table_ok t2 \<and> file_at t2 = file_at t"
proof -
  obtain d t1 where o: "fill_handle (\<lambda>_. f) t = Some (d, t1)" "table_ok t1" "file_at t d = None"
    "file_at t1 = (file_at t)(d \<mapsto> f)" "0 \<le> d" "\<forall>i. 0 \<le> i \<and> i < d \<longrightarrow> file_at t i \<noteq> None"
    using fill_handle_ok [OF assms, of "\<lambda>_. f"] by blast
  obtain t2 where "DeleteHandle d t1 = Some t2" "table_ok t2" "file_at t2 = file_at t"
    using ht.ins_era [OF assms o(1)] by blast
  with o show ?thesis by blast
qed

theorem descriptor_round_trip_witness:
  "\<exists>t d t1. CreateStdHandles HandleTable_new = Some t \<and> fill_handle (\<lambda>_. File_new) t = Some (d, t1) \<and>
     d = 3 \<and> file_at t1 0 \<noteq> None \<and> file_at t1 3 = Some File_new"
proof -
  obtain d0 t0 where a: "setup_device ''/dev/stdin'' ''stdin'' HandleTable_new = Some (d0, t0)" "table_ok t0"
    "file_at t0 = (file_at HandleTable_new)(d0 \<mapsto> File_new\<lparr>is_opened := True, file_type := File_Device, m_guest_name := ''/dev/stdin'', device := Some ''stdin''\<rparr>)"
    "0 \<le> d0" "\<forall>i. 0 \<le> i \<and> i < d0 \<longrightarrow> file_at HandleTable_new i \<noteq> None"
    unfolding setup_device_def using fill_handle_ok [OF HandleTable_new_ok] by blast
  obtain d1 t1 where b: "setup_device ''/dev/stdout'' ''stdout'' t0 = Some (d1, t1)" "table_ok t1" "file_at t0 d1 = None"
    "file_at t1 = (file_at t0)(d1 \<mapsto> File_new\<lparr>is_opened := True, file_type := File_Device, m_guest_name := ''/dev/stdout'', device := Some ''stdout''\<rparr>)"
    "0 \<le> d1" "\<forall>i. 0 \<le> i \<and> i < d1 \<longrightarrow> file_at t0 i \<noteq> None"
    unfolding setup_device_def using fill_handle_ok [OF a(2)] by blast
  obtain d2 t2 where c: "setup_device ''/dev/stderr'' ''stderr'' t1 = Some (d2, t2)" "table_ok t2" "file_at t1 d2 = None"
    "file_at t2 = (file_at t1)(d2 \<mapsto> File_new\<lparr>is_opened := True, file_type := File_Device, m_guest_name := ''/dev/stderr'', device := Some ''stderr''\<rparr>)"
    "0 \<le> d2" "\<forall>i. 0 \<le> i \<and> i < d2 \<longrightarrow> file_at t1 i \<noteq> None"
    unfolding setup_device_def using fill_handle_ok [OF b(2)] by blast
  obtain d t3 where o: "fill_handle (\<lambda>_. File_new) t2 = Some (d, t3)" "file_at t2 d = None" "0 \<le> d"
    "\<forall>i. 0 \<le> i \<and> i < d \<longrightarrow> file_at t2 i \<noteq> None" "file_at t3 = (file_at t2)(d \<mapsto> File_new)"
    using descriptor_round_trip [OF c(2), of File_new] by blast
  have e: "file_at HandleTable_new i = None" for i by (simp add: HandleTable_new_def file_at_def GetFile_def)
  have d: "d0 = 0" using a(4,5) e by (metis order_le_less order_refl)
  have l0: "file_at t0 i \<noteq> None \<longleftrightarrow> i = 0" for i by (simp add: a(3) d e)
  have d1: "d1 = 1"
  proof -
    have "d1 \<noteq> 0" using b(3) l0 by metis
    moreover have "\<not> 1 < d1" using b(6) l0 by (metis zero_le_one zero_neq_one)
    ultimately show ?thesis using b(5) by linarith
  qed
  have l1: "file_at t1 i \<noteq> None \<longleftrightarrow> i = 0 \<or> i = 1" for i using l0 by (simp add: b(4) d1)
  have d2: "d2 = 2"
  proof -
    have "d2 \<noteq> 0" "d2 \<noteq> 1" using c(3) l1 by metis+
    moreover have "\<not> 2 < d2" using c(6) [rule_format, of 2] l1 [of 2] by auto
    ultimately show ?thesis using c(5) by linarith
  qed
  have l2: "file_at t2 i \<noteq> None \<longleftrightarrow> i = 0 \<or> i = 1 \<or> i = 2" for i using l1 by (simp add: c(4) d2)
  have "d = 3"
  proof -
    have "d \<noteq> 0" "d \<noteq> 1" "d \<noteq> 2" using o(2) l2 by metis+
    moreover have "\<not> 3 < d" using o(4) [rule_format, of 3] l2 [of 3] by auto
    ultimately show ?thesis using o(3) by linarith
  qed
  then show ?thesis using a(1) b(1) c(1) o(1,5) l2 [of 0] by (auto simp: CreateStdHandles_def)
qed

text \<open>Asking a descriptor that was closed for its event poll reads a null pointer.\<close>

lemma closed_epoll_undefined:
  "\<exists>t. DeleteHandle 0 (snd (CreateHandle HandleTable_new)) = Some t \<and> GetEpoll 0 t = None \<and> GetSocket 0 t = Some None"
  by (simp add: CreateHandle_def HandleTable_new_def DeleteHandle_def GetEpoll_def GetSocket_def get_typed_def Let_def)

end
