(* ===== verification/Equeue_Calls.thy ===== *)
theory Equeue_Calls
  imports Event_Delivery File_Table Memory_State Posix_Error "HOL-Library.Signed_Division"
begin

section \<open>Event queues: the calls and the timers\<close>

text \<open>
  The system calls of \<^verbatim>\<open>core/libraries/kernel/equeue.cpp\<close> on the table of queues, and the timers of
  the host.  A queue is an object at an address; a timer that expires puts its handler, which holds
  the address of its queue, among those that the service thread will run.  Deleting an event or
  setting its timer anew cancels a handler that still waits, not one that is ready to run.

  Blocking is left to the theory of waiting threads: a wait here either ends at once or says how it
  goes on.  \<open>now\<close> is the clock's reading, \<open>load\<close> the game's memory.
\<close>

definition ORBIS_KERNEL_ERROR_ETIMEDOUT :: s32 where "ORBIS_KERNEL_ERROR_ETIMEDOUT = 0x8002003C"
definition ORBIS_FAIL :: s32 where "ORBIS_FAIL = 0xFFFFFFFF"
definition POSIX_ENOENT :: s32 where "POSIX_ENOENT = 2"
definition POSIX_EBADF :: s32 where "POSIX_EBADF = 9"

subsection \<open>The table of queues\<close>

record EqWorld =
  eq_handles :: HandleTable
  kqueues :: "s32 \<Rightarrow> nat option"
  eq_store :: "nat \<Rightarrow> EqueueInternal option"
  next_queue :: nat
  ready_handlers :: "(nat \<times> OrbisKernelEvent \<times> Callback) list"

text \<open>The table is indexed by 32 bits of the handle.\<close>

definition eq_key :: "s64 \<Rightarrow> s32" where
  "eq_key eq = ucast eq"

definition GetEqueue :: "s64 \<Rightarrow> EqWorld \<Rightarrow> nat option" where
  "GetEqueue eq w = kqueues w (eq_key eq)"

text \<open>A method called on the queue of a handle that is in the table.\<close>

definition on_queue :: "s64 \<Rightarrow> (EqueueInternal \<Rightarrow> 'a \<times> EqueueInternal) \<Rightarrow> EqWorld \<Rightarrow> ('a \<times> EqWorld) option" where
  "on_queue eq g w =
     do {
       a \<leftarrow> kqueues w (eq_key eq);
       q \<leftarrow> eq_store w a;
       let (r, q) = g q;
       Some (r, w\<lparr>eq_store := (eq_store w)(a \<mapsto> q)\<rparr>)
     }"

text \<open>A sequence of methods that may be undefined.\<close>

definition try_on_queue :: "s64 \<Rightarrow> (EqueueInternal \<Rightarrow> ('a \<times> EqueueInternal) option) \<Rightarrow> EqWorld \<Rightarrow> ('a \<times> EqWorld) option" where
  "try_on_queue eq g w =
     do {
       a \<leftarrow> kqueues w (eq_key eq);
       q \<leftarrow> eq_store w a;
       (r, q) \<leftarrow> g q;
       Some (r, w\<lparr>eq_store := (eq_store w)(a \<mapsto> q)\<rparr>)
     }"

definition new_equeue :: "s64 \<Rightarrow> string \<Rightarrow> EqWorld \<Rightarrow> EqWorld" where
  "new_equeue handle nm w =
     w\<lparr>kqueues := (kqueues w)(eq_key handle \<mapsto> next_queue w),
       eq_store := (eq_store w)(next_queue w \<mapsto> EqueueInternal_new handle nm), next_queue := next_queue w + 1\<rparr>"

fun show_nat :: "nat \<Rightarrow> string" where
  "show_nat n = (if n < 10 then [char_of (48 + n)] else show_nat (n div 10) @ [char_of (48 + n mod 10)])"

definition posix_kqueue :: "EqWorld \<Rightarrow> (s32 \<times> EqWorld) option" where
  "posix_kqueue w =
     do {
       (fd, t) \<leftarrow> fill_handle (\<lambda>f. f\<lparr>file_type := File_Equeue\<rparr>) (eq_handles w);
       let kqueue_handle = (word_of_int fd :: s32);
       Some (kqueue_handle, new_equeue (scast kqueue_handle) (''kqueue'' @ show_nat (nat fd)) (w\<lparr>eq_handles := t\<rparr>))
     }"

definition sceKernelCreateEqueue :: "bool \<Rightarrow> string option \<Rightarrow> EqWorld \<Rightarrow> (s32 \<times> s64 option \<times> EqWorld) option" where
  "sceKernelCreateEqueue eq_is_null nm w =
     (if eq_is_null then Some (ORBIS_KERNEL_ERROR_EINVAL, None, w)
      else case nm of
        None \<Rightarrow> Some (ORBIS_KERNEL_ERROR_EINVAL, None, w)
      | Some nm \<Rightarrow>
          if length nm > 32 then Some (ORBIS_KERNEL_ERROR_ENAMETOOLONG, None, w)
          else do {
            (fd, t) \<leftarrow> fill_handle (\<lambda>f. f\<lparr>file_type := File_Equeue\<rparr>) (eq_handles w);
            let kqueue_handle = (word_of_int fd :: s64);
            Some (ORBIS_OK, Some kqueue_handle, new_equeue kqueue_handle nm (w\<lparr>eq_handles := t\<rparr>))
          })"

definition sceKernelDeleteEqueue :: "s64 \<Rightarrow> EqWorld \<Rightarrow> (s32 \<times> EqWorld) option" where
  "sceKernelDeleteEqueue eq w =
     (case kqueues w (eq_key eq) of
        None \<Rightarrow> Some (ORBIS_KERNEL_ERROR_EBADF, w)
      | Some a \<Rightarrow>
          do {
            t \<leftarrow> DeleteHandle (sint (eq_key eq)) (eq_handles w);
            Some (ORBIS_OK, w\<lparr>eq_handles := t, eq_store := (eq_store w)(a := None), kqueues := (kqueues w)(eq_key eq := None)\<rparr>)
          })"

text \<open>The calls that only pass an answer on: whether the handle is known, and whether the method worked.\<close>

definition queue_call :: "s64 \<Rightarrow> s32 \<Rightarrow> (EqueueInternal \<Rightarrow> bool \<times> EqueueInternal) \<Rightarrow> EqWorld \<Rightarrow> (s32 \<times> EqWorld) option" where
  "queue_call eq err g w =
     (if kqueues w (eq_key eq) = None then Some (ORBIS_KERNEL_ERROR_EBADF, w)
      else do {
        (ok, w) \<leftarrow> on_queue eq g w;
        Some (if ok then ORBIS_OK else err, w)
      })"

subsection \<open>Adding and removing events\<close>

definition kernel_event :: "s32 \<Rightarrow> Filter \<Rightarrow> u16 \<Rightarrow> u64 \<Rightarrow> u64 \<Rightarrow> EqueueEvent" where
  "kernel_event i f flags d ud =
     EqueueEvent_new \<lparr>ev_ident = scast i, ev_filter = f, ev_flags = flags, ev_fflags = 0, ev_data = d, ev_udata = ud\<rparr>"

definition HrTimerSpinlockThresholdNs :: int where "HrTimerSpinlockThresholdNs = 1200000"

text \<open>
  \<open>stack\<close> is the address of the local structure that holds the time.  Signed products and sums that
  do not fit are undefined, here those of the call and of the interval that is made of the time.
\<close>

definition sceKernelAddHRTimerEvent ::
    "((u64 \<times> SmallTimer) list \<Rightarrow> (u64 \<times> SmallTimer) list) \<Rightarrow> u64 \<Rightarrow> int \<Rightarrow> s64 \<Rightarrow> s32 \<Rightarrow> OrbisKernelTimespec \<Rightarrow> u64 \<Rightarrow>
     EqWorld \<Rightarrow> (s32 \<times> EqWorld) option" where
  "sceKernelAddHRTimerEvent arrange stack now eq i ts ud w =
     (if kqueues w (eq_key eq) = None then Some (ORBIS_KERNEL_ERROR_EBADF, w)
      else do {
        let total_ns = sint (tv_sec ts) * 1000000000 + sint (tv_nsec ts);
        ASSERT (fits64 (sint (tv_sec ts) * 1000000000) \<and> fits64 total_ns);
        frac \<leftarrow> hr_frac (tv_nsec ts);
        let time = \<lparr>bt_sec = tv_sec ts, bt_frac = frac\<rparr>;
        let event = kernel_event i Filter_HrTimer (Flag_Add OR Flag_OneShot) stack ud;
        ASSERT (bintime_defined time);
        queue_call eq ORBIS_KERNEL_ERROR_ENOMEM
          (if total_ns < HrTimerSpinlockThresholdNs then AddSmallTimer arrange (\<lambda>_. time) now event
           else AddEvent (\<lambda>_. time) now event) w
      })"

definition sceKernelDeleteHRTimerEvent :: "s64 \<Rightarrow> s32 \<Rightarrow> EqWorld \<Rightarrow> (s32 \<times> EqWorld) option" where
  "sceKernelDeleteHRTimerEvent eq i =
     queue_call eq ORBIS_KERNEL_ERROR_ENOENT
       (\<lambda>q. if HasSmallTimer q then RemoveSmallTimer (scast i) q else RemoveEvent (scast i) Filter_HrTimer q)"

definition sceKernelAddTimerEvent :: "(u64 \<Rightarrow> OrbisKernelBintime) \<Rightarrow> int \<Rightarrow> s64 \<Rightarrow> s32 \<Rightarrow> u32 \<Rightarrow> u64 \<Rightarrow> EqWorld \<Rightarrow> (s32 \<times> EqWorld) option" where
  "sceKernelAddTimerEvent load now eq i usec ud =
     queue_call eq ORBIS_KERNEL_ERROR_ENOMEM
       (AddEvent load now (kernel_event i Filter_Timer Flag_Add (ucast (usec div 1000)) ud))"

definition sceKernelDeleteTimerEvent :: "s64 \<Rightarrow> s32 \<Rightarrow> EqWorld \<Rightarrow> (s32 \<times> EqWorld) option" where
  "sceKernelDeleteTimerEvent eq i = queue_call eq ORBIS_KERNEL_ERROR_ENOENT (RemoveEvent (scast i) Filter_Timer)"

definition sceKernelAddUserEvent :: "(u64 \<Rightarrow> OrbisKernelBintime) \<Rightarrow> int \<Rightarrow> s64 \<Rightarrow> s32 \<Rightarrow> EqWorld \<Rightarrow> (s32 \<times> EqWorld) option" where
  "sceKernelAddUserEvent load now eq i =
     queue_call eq ORBIS_KERNEL_ERROR_ENOMEM (AddEvent load now (kernel_event i Filter_User Flag_Add 0 0))"

definition sceKernelAddUserEventEdge :: "(u64 \<Rightarrow> OrbisKernelBintime) \<Rightarrow> int \<Rightarrow> s64 \<Rightarrow> s32 \<Rightarrow> EqWorld \<Rightarrow> (s32 \<times> EqWorld) option" where
  "sceKernelAddUserEventEdge load now eq i =
     queue_call eq ORBIS_KERNEL_ERROR_ENOMEM (AddEvent load now (kernel_event i Filter_User (Flag_Add OR Flag_Clear) 0 0))"

definition sceKernelTriggerUserEvent :: "u64 \<Rightarrow> s64 \<Rightarrow> s32 \<Rightarrow> u64 \<Rightarrow> EqWorld \<Rightarrow> (s32 \<times> EqWorld) option" where
  "sceKernelTriggerUserEvent tsc eq i ud = queue_call eq ORBIS_KERNEL_ERROR_ENOENT (TriggerEvent tsc (scast i) Filter_User ud)"

definition sceKernelDeleteUserEvent :: "s64 \<Rightarrow> s32 \<Rightarrow> EqWorld \<Rightarrow> (s32 \<times> EqWorld) option" where
  "sceKernelDeleteUserEvent eq i = queue_call eq ORBIS_KERNEL_ERROR_ENOENT (RemoveEvent (scast i) Filter_User)"

text \<open>The fields of an event that a game holds; only the user data's function checks the pointer.\<close>

definition sceKernelGetEventUserData :: "OrbisKernelEvent option \<Rightarrow> u64 option" where
  "sceKernelGetEventUserData ev = Some (case ev of None \<Rightarrow> 0 | Some e \<Rightarrow> ev_udata e)"

definition sceKernelGetEventId :: "OrbisKernelEvent option \<Rightarrow> u64 option" where
  "sceKernelGetEventId ev = map_option ev_ident ev"

definition sceKernelGetEventFilter :: "OrbisKernelEvent option \<Rightarrow> s32 option" where
  "sceKernelGetEventFilter ev = map_option (\<lambda>e. scast (ev_filter e)) ev"

definition sceKernelGetEventData :: "OrbisKernelEvent option \<Rightarrow> u64 option" where
  "sceKernelGetEventData ev = map_option ev_data ev"

subsection \<open>Waiting\<close>

datatype wait_start = Wait_Done "OrbisKernelEvent list" | Wait_Spin u32 | Wait_Block u32

definition WaitForEvents :: "int \<Rightarrow> u32 option \<Rightarrow> EqueueInternal \<Rightarrow> wait_start \<times> EqueueInternal" where
  "WaitForEvents num timo q =
     (if timo = Some 0 then let (out, q) = GetTriggeredEvents num q in (Wait_Done out, q)
      else
        let micros = (case timo of Some t \<Rightarrow> t | None \<Rightarrow> 0) in
        if HasSmallTimer q then (Wait_Spin micros, q)
        else
          let (out, q) = GetTriggeredEvents num q in
          if out \<noteq> [] then (Wait_Done out, q) else (Wait_Block micros, q))"

definition sceKernelWaitEqueue :: "s64 \<Rightarrow> bool \<Rightarrow> s32 \<Rightarrow> u32 option \<Rightarrow> EqWorld \<Rightarrow> ((s32 + wait_start) \<times> EqWorld) option" where
  "sceKernelWaitEqueue eq ev_is_null num timo w =
     (if kqueues w (eq_key eq) = None then Some (Inl ORBIS_KERNEL_ERROR_EBADF, w)
      else if ev_is_null then Some (Inl ORBIS_KERNEL_ERROR_EFAULT, w)
      else if sint num < 1 then Some (Inl ORBIS_KERNEL_ERROR_EINVAL, w)
      else do {
        (r, w) \<leftarrow> on_queue eq (WaitForEvents (sint num) timo) w;
        Some (Inr r, w)
      })"

text \<open>The result of the call, from the number of events collected.\<close>

definition wait_result :: "nat \<Rightarrow> s32" where
  "wait_result out = (if out = 0 then ORBIS_KERNEL_ERROR_ETIMEDOUT else ORBIS_OK)"

subsection \<open>The POSIX call\<close>

definition SupportedEqueueFilter :: "Filter \<Rightarrow> bool" where
  "SupportedEqueueFilter f \<longleftrightarrow>
     f = Filter_GraphicsCore \<or> f = Filter_HrTimer \<or> f = Filter_Timer \<or> f = Filter_User \<or> f = Filter_VideoOut"

definition apply_change ::
    "(u64 \<Rightarrow> OrbisKernelBintime) \<Rightarrow> int \<Rightarrow> u64 \<Rightarrow> OrbisKernelEvent \<Rightarrow> EqueueInternal \<Rightarrow>
     (s32 option \<times> EqueueInternal) option" where
  "apply_change load now tsc event q =
     (if \<not> SupportedEqueueFilter (ev_filter event) then Some (None, q)
      else if has_flag event Flag_Add \<and> \<not> interval_defined load event then None
      else Some (
        let (ok, q) = (if has_flag event Flag_Add then AddEvent load now (EqueueEvent_new event) q else (True, q)) in
        if \<not> ok then (Some POSIX_ENOMEM, q)
        else
          let (ok, q) = (if has_flag event Flag_Delete then RemoveEvent (ev_ident event) (ev_filter event) q else (True, q)) in
          if \<not> ok then (Some POSIX_ENOENT, q)
          else if ev_filter event = Filter_User \<and> ev_fflags event = 0x1000000 then
            let (ok, q) = TriggerEvent tsc (ev_ident event) Filter_User (ev_udata event) q in
            (if ok then None else Some POSIX_ENOENT, q)
          else (None, q)))"

fun apply_changes ::
    "(u64 \<Rightarrow> OrbisKernelBintime) \<Rightarrow> int \<Rightarrow> u64 \<Rightarrow> OrbisKernelEvent list \<Rightarrow> EqueueInternal \<Rightarrow>
     (s32 option \<times> EqueueInternal) option" where
  "apply_changes load now tsc [] q = Some (None, q)"
| "apply_changes load now tsc (event # changes) q =
     (case apply_change load now tsc event q of
        None \<Rightarrow> None
      | Some (Some err, q) \<Rightarrow> Some (Some err, q)
      | Some (None, q) \<Rightarrow> apply_changes load now tsc changes q)"

definition kevent_micros :: "OrbisKernelTimespec \<Rightarrow> u32" where
  "kevent_micros timeout = ucast (tv_sec timeout * 1000000 + word_of_int (sint (tv_nsec timeout) sdiv 1000))"

text \<open>The signed product and sum have to fit.\<close>

definition micros_defined :: "OrbisKernelTimespec \<Rightarrow> bool" where
  "micros_defined timeout \<longleftrightarrow> fits64 (sint (tv_sec timeout) * 1000000) \<and>
     fits64 (sint (tv_sec timeout) * 1000000 + sint (tv_nsec timeout) sdiv 1000)"

text \<open>The left results are the error number of the thread; no waiting is zero events.\<close>

definition posix_kevent ::
    "(u64 \<Rightarrow> OrbisKernelBintime) \<Rightarrow> int \<Rightarrow> u64 \<Rightarrow> s32 \<Rightarrow> OrbisKernelEvent list \<Rightarrow> u64 \<Rightarrow> OrbisKernelTimespec option \<Rightarrow>
     EqWorld \<Rightarrow> ((s32 + wait_start) \<times> EqWorld) option" where
  "posix_kevent load now tsc handle changelist nevents timeout w =
     (if kqueues w handle = None then Some (Inl POSIX_EBADF, w)
      else do {
        (err, w) \<leftarrow> try_on_queue (scast handle) (apply_changes load now tsc changelist) w;
        case err of
          Some e \<Rightarrow> Some (Inl e, w)
        | None \<Rightarrow>
            if nevents > 0 then do {
              ASSERT (case timeout of Some t \<Rightarrow> micros_defined t | None \<Rightarrow> True);
              (r, w) \<leftarrow> on_queue (scast handle) (WaitForEvents (sint (ucast nevents :: s32)) (map_option kevent_micros timeout)) w;
              Some (Inr r, w)
            }
            else Some (Inr (Wait_Done []), w)
      })"

subsection \<open>Timers\<close>

definition run_callback :: "int \<Rightarrow> u64 \<Rightarrow> Callback \<Rightarrow> s64 \<Rightarrow> OrbisKernelEvent \<Rightarrow> EqWorld \<Rightarrow> EqWorld option" where
  "run_callback now tsc cb handle kev w =
     (case cb of
        HrTimerCallback \<Rightarrow>
          if kqueues w (eq_key handle) \<noteq> None then do {
            (_, w) \<leftarrow> on_queue handle (TriggerEvent tsc (ev_ident kev) Filter_HrTimer (ev_udata kev)) w;
            Some w
          }
          else Some w
      | TimerCallback \<Rightarrow>
          case kqueues w (eq_key handle) of
            None \<Rightarrow> Some w
          | Some a \<Rightarrow> do {
              q \<leftarrow> eq_store w a;
              if EventExists (ev_ident kev) (ev_filter kev) q then do {
                (_, w) \<leftarrow> on_queue handle (TriggerEvent tsc (ev_ident kev) Filter_Timer (ev_udata kev)) w;
                if \<not> has_flag kev Flag_OneShot then do {
                  (_, w) \<leftarrow> on_queue handle (ScheduleEvent now (ev_ident kev) (ev_filter kev) TimerCallback) w;
                  Some w
                }
                else Some w
              }
              else Some w
            })"

text \<open>An event's timer expires: its handler becomes ready.\<close>

definition timer_expires :: "int \<Rightarrow> nat \<Rightarrow> nat \<Rightarrow> EqWorld \<Rightarrow> EqWorld option" where
  "timer_expires now a k w =
     do {
       q \<leftarrow> eq_store w a;
       ASSERT (k < length (m_events q));
       t \<leftarrow> timer (m_events q ! k);
       (kev, cb) \<leftarrow> waiting t;
       ASSERT (expiry t \<le> now);
       let e = (m_events q ! k)\<lparr>timer := Some (t\<lparr>waiting := None\<rparr>)\<rparr>;
       Some (w\<lparr>eq_store := (eq_store w)(a \<mapsto> q\<lparr>m_events := (m_events q)[k := e]\<rparr>),
               ready_handlers := ready_handlers w @ [(a, kev, cb)]\<rparr>)
     }"

text \<open>The service thread runs the first handler, which reads its queue's handle.\<close>

definition run_handler :: "int \<Rightarrow> u64 \<Rightarrow> EqWorld \<Rightarrow> EqWorld option" where
  "run_handler now tsc w =
     (case ready_handlers w of
        [] \<Rightarrow> None
      | (a, kev, cb) # rest \<Rightarrow>
          do {
            q \<leftarrow> eq_store w a;
            run_callback now tsc cb (m_handle q) kev (w\<lparr>ready_handlers := rest\<rparr>)
          })"

end
