(* ===== verification/Equeue_Timers.thy ===== *)
theory Equeue_Timers
  imports Equeue_Calls
begin

section \<open>Event queues: timers over time\<close>

text \<open>
  A periodic timer keeps its period however late the service thread runs, and every tick is counted.
  What the timers do not keep: stale handlers, short periods, mixed kinds of timers.
\<close>

subsection \<open>One period\<close>

definition timer_cycle :: "int \<Rightarrow> nat \<Rightarrow> nat \<Rightarrow> EqWorld \<Rightarrow> EqWorld option" where
  "timer_cycle now a k w = do { w \<leftarrow> timer_expires now a k w; run_handler now 0 w }"

text \<open>The timer of event \<open>k\<close> of the queue at \<open>a\<close> is due at \<open>x\<close> and has \<open>d\<close> ticks to tell.\<close>

definition periodic :: "nat \<Rightarrow> nat \<Rightarrow> int \<Rightarrow> int \<Rightarrow> u64 \<Rightarrow> EqWorld \<Rightarrow> bool" where
  "periodic a k p x d w \<longleftrightarrow>
     (\<exists>q e kev. eq_store w a = Some q \<and> kqueues w (eq_key (m_handle q)) = Some a \<and> unique q \<and> ready_handlers w = [] \<and>
        k < length (m_events q) \<and> m_events q ! k = e \<and> ev_filter (kevent e) = Filter_Timer \<and> sint (timer_interval e) = p \<and>
        \<not> has_flag (kevent e) Flag_OneShot \<and> ev_data (kevent e) = d \<and>
        timer e = Some \<lparr>expiry = x, waiting = Some (kev, TimerCallback)\<rparr> \<and>
        ev_ident kev = ev_ident (kevent e) \<and> ev_filter kev = Filter_Timer \<and> \<not> has_flag kev Flag_OneShot)"

lemma find_if_at:
  assumes "distinct (keys_of es)" "k < length es" "key (es ! k) = (i, f)"
  shows "find_if (matches i f) es = Some k"
proof -
  have "find_if (matches i f) es \<noteq> None" using assms by (auto simp: find_if_None matches_key dest: nth_mem)
  then obtain n where n: "find_if (matches i f) es = Some n" by auto
  note f = found_key [OF n assms(1)]
  have "keys_of es ! n = keys_of es ! k" using f assms(2,3) by (simp add: keys_of_def)
  then have "n = k" using assms(1,2) f nth_eq_iff_index_eq [OF assms(1), of n k] by (simp add: keys_of_def)
  with n show ?thesis by simp
qed

lemma trigger_nth:
  assumes "distinct (keys_of es)" "k < length es" "key (es ! k) = (i, f)"
  shows "map (\<lambda>e. if matches i f e then g e else e) es = es[k := g (es ! k)]"
proof (rule nth_equalityI)
  fix j assume "j < length (map (\<lambda>e. if matches i f e then g e else e) es)"
  then have j: "j < length es" by simp
  have "matches i f (es ! j) \<longleftrightarrow> j = k"
    using assms j nth_eq_iff_index_eq [OF assms(1), of j k] by (auto simp: matches_key keys_of_def)
  then show "map (\<lambda>e. if matches i f e then g e else e) es ! j = es[k := g (es ! k)] ! j"
    using j assms(2) by (auto simp: nth_list_update)
qed simp

lemma periodic_step:
  assumes "periodic a k p x d w" "x \<le> now"
  shows "\<exists>w'. timer_cycle now a k w = Some w' \<and> periodic a k p (x + p) (d + 1) w'"
proof -
  obtain q e kev where s: "eq_store w a = Some q" "kqueues w (eq_key (m_handle q)) = Some a" "unique q" "ready_handlers w = []"
    "k < length (m_events q)" "m_events q ! k = e" "ev_filter (kevent e) = Filter_Timer" "sint (timer_interval e) = p"
    "\<not> has_flag (kevent e) Flag_OneShot" "ev_data (kevent e) = d"
    "timer e = Some \<lparr>expiry = x, waiting = Some (kev, TimerCallback)\<rparr>"
    "ev_ident kev = ev_ident (kevent e)" "ev_filter kev = Filter_Timer" "\<not> has_flag kev Flag_OneShot"
    using assms(1) by (auto simp: periodic_def)
  let ?i = "ev_ident (kevent e)"
  define e1 where "e1 = e\<lparr>timer := Some \<lparr>expiry = x, waiting = None\<rparr>\<rparr>"
  define q1 where "q1 = q\<lparr>m_events := (m_events q)[k := e1]\<rparr>"
  have k1: "key e1 = (?i, Filter_Timer)" "key e1 = key (m_events q ! k)" using s(6,7) by (simp_all add: e1_def key_def)
  have d1: "distinct (keys_of (m_events q1))" using s(3,5) k1 by (simp add: q1_def unique_def keys_of_update)
  have at1: "k < length (m_events q1)" "m_events q1 ! k = e1" using s(5) by (simp_all add: q1_def)
  define e2 where "e2 = TriggerTimer e1"
  define q2 where "q2 = q1\<lparr>m_events := (m_events q1)[k := e2]\<rparr>"
  have tt: "trigger_one 0 Filter_Timer u x = TriggerTimer x" for u x by (simp add: trigger_one_def filter_defs)
  have t: "TriggerEvent 0 ?i Filter_Timer (ev_udata kev) q1 = (True, q2)"
    using trigger_nth [OF d1 at1(1), of ?i Filter_Timer "trigger_one 0 Filter_Timer (ev_udata kev)"] at1 k1
      nth_mem [OF at1(1)]
    by (auto simp: TriggerEvent_def q2_def e2_def tt list_ex_iff matches_key)
  have k2: "key e2 = (?i, Filter_Timer)" using k1 by (simp add: e2_def)
  have d2: "distinct (keys_of (m_events q2))" using d1 at1 k1 k2 by (simp add: q2_def keys_of_update)
  have at2: "k < length (m_events q2)" "m_events q2 ! k = e2" using at1 by (simp_all add: q2_def)
  define e3 where "e3 = e2\<lparr>timer := Some \<lparr>expiry = x + p, waiting = Some (kevent e2, TimerCallback)\<rparr>\<rparr>"
  define q3 where "q3 = q2\<lparr>m_events := (m_events q2)[k := e3]\<rparr>"
  have f2: "find_if (matches ?i Filter_Timer) (m_events q2) = Some k" using find_if_at [OF d2 at2(1)] at2 k2 by simp
  have te: "timer e2 = Some \<lparr>expiry = x, waiting = None\<rparr>" "timer_interval e2 = timer_interval e" "ev_filter (kevent e2) = Filter_Timer"
    using s(7) by (simp_all add: e2_def e1_def TriggerTimer_def)
  have sch: "ScheduleEvent now ?i Filter_Timer TimerCallback q2 = (True, q3)"
    by (simp add: ScheduleEvent_def f2 at2 te e3_def q3_def s(8) Let_def)
  have ex: "EventExists ?i Filter_Timer q1"
    using find_if_at [OF d1 at1(1), of ?i Filter_Timer] at1 k1 by (simp add: EventExists_def)
  have hd: "m_handle q1 = m_handle q" "m_handle q2 = m_handle q" "m_handle q3 = m_handle q"
    by (simp_all add: q1_def q2_def q3_def)
  let ?w = "w\<lparr>eq_store := (eq_store w)(a \<mapsto> q3), ready_handlers := []\<rparr>"
  have "timer_expires now a k w = Some (w\<lparr>eq_store := (eq_store w)(a \<mapsto> q1), ready_handlers := [(a, kev, TimerCallback)]\<rparr>)"
    using s assms(2) by (simp add: timer_expires_def q1_def e1_def)
  then have cyc: "timer_cycle now a k w = Some ?w"
    using s ex t sch hd by (simp add: timer_cycle_def run_handler_def run_callback_def on_queue_def)
  have "ev_data (kevent e3) = d + 1" "\<not> has_flag (kevent e3) Flag_OneShot" "\<not> has_flag (kevent e2) Flag_OneShot"
    "ev_filter (kevent e3) = Filter_Timer" "sint (timer_interval e3) = p" "ev_ident (kevent e3) = ev_ident (kevent e2)"
    using s(7-10) by (simp_all add: e3_def e2_def e1_def TriggerTimer_def has_flag_def)
  moreover have "unique q3" using d2 at2 by (simp add: unique_def q3_def keys_of_update key_def e3_def)
  moreover have "k < length (m_events q3)" "m_events q3 ! k = e3" using at2 by (simp_all add: q3_def)
  ultimately have "periodic a k p (x + p) (d + 1) ?w"
    unfolding periodic_def using s(2) hd te(3)
    by (intro exI [of _ q3] exI [of _ e3] exI [of _ "kevent e2"]) (simp add: e3_def)
  with cyc show ?thesis by blast
qed

fun timer_cycles :: "int list \<Rightarrow> nat \<Rightarrow> nat \<Rightarrow> EqWorld \<Rightarrow> EqWorld option" where
  "timer_cycles [] a k w = Some w"
| "timer_cycles (now # nows) a k w = do { w \<leftarrow> timer_cycle now a k w; timer_cycles nows a k w }"

lemma periodic_steps:
  "periodic a k p x d w \<Longrightarrow> \<forall>i<length nows. x + int i * p \<le> nows ! i \<Longrightarrow>
   \<exists>w'. timer_cycles nows a k w = Some w' \<and> periodic a k p (x + int (length nows) * p) (d + of_nat (length nows)) w'"
proof (induction nows arbitrary: x d w)
  case (Cons now nows)
  obtain w1 where w1: "timer_cycle now a k w = Some w1" "periodic a k p (x + p) (d + 1) w1"
    using periodic_step [OF Cons.prems(1), of now] Cons.prems(2) [rule_format, of 0] by auto
  have "\<forall>i<length nows. (x + p) + int i * p \<le> nows ! i"
  proof (intro allI impI)
    fix i assume "i < length nows"
    then show "(x + p) + int i * p \<le> nows ! i" using Cons.prems(2) [rule_format, of "Suc i"] by (simp add: algebra_simps)
  qed
  from Cons.IH [OF w1(2) this] w1(1) show ?case by (auto simp: algebra_simps)
qed simp

definition timer_period :: "u32 \<Rightarrow> int" where
  "timer_period usec = uint (usec div 1000) * 1000000"

lemma timer_period_word: "sint (ucast (usec div 1000) * 1000000 :: s64) = timer_period usec"
proof -
  define x where "x = uint (usec div 1000)"
  have b: "0 \<le> x" "x < 4294968" using uint_lt2p [of usec] by (simp add: x_def, simp add: x_def uint_div)
  have "uint (ucast (usec div 1000) :: s64) = x"
    unfolding unsigned_ucast_eq x_def [symmetric] by (rule take_bit_int_eq_self) (use b in simp_all)
  then have "sint (ucast (usec div 1000) :: s64) = x"
    unfolding sint_uint by (simp only:) (rule signed_take_bit_int_eq_self; use b in simp)
  then show ?thesis
    using b by (subst sint_mult64) (auto simp: timer_period_def x_def [symmetric])
qed

lemma add_timer_periodic:
  assumes w: "kqueues w (eq_key eq) = Some a" "eq_store w a = Some q" "m_handle q = eq" "unique q" "ready_handlers w = []"
    and n: "look q (scast i, Filter_Timer) = None"
  shows "\<exists>w1. sceKernelAddTimerEvent load now eq i usec ud w = Some (ORBIS_OK, w1) \<and>
    periodic a (length (m_events q)) (timer_period usec) (now + timer_period usec) 0 w1"
proof -
  define e where "e = kernel_event i Filter_Timer Flag_Add (ucast (usec div 1000)) ud"
  have k: "key e = (scast i, Filter_Timer)" by (simp add: e_def kernel_event_def EqueueEvent_new_def key_def)
  obtain q1 where q1: "AddEvent load now e q = (True, q1)" "unique q1" "m_events q1 = m_events q @ [added load now e]" "m_handle q1 = eq"
    using AddEvent_new [OF w(4), of e load now] n k w(3) by auto
  define w1 where "w1 = w\<lparr>eq_store := (eq_store w)(a \<mapsto> q1)\<rparr>"
  have call: "sceKernelAddTimerEvent load now eq i usec ud w = Some (ORBIS_OK, w1)"
    using w(1,2) q1(1) by (simp add: sceKernelAddTimerEvent_def queue_call_def on_queue_def w1_def e_def)
  have x: "\<not> bit (ev_flags (kevent e)) 4"
    by (simp add: e_def kernel_event_def EqueueEvent_new_def flag_defs bit_1_iff)
  have "periodic a (length (m_events q)) (timer_period usec) (now + timer_period usec) 0 w1"
    unfolding periodic_def
  proof (intro exI conjI)
    show "eq_store w1 a = Some q1" by (simp add: w1_def)
    show "m_events q1 ! length (m_events q) = added load now e" by (simp add: q1(3))
    show "\<not> has_flag (kevent (added load now e)) Flag_OneShot" using x added_flags(1) [of load now e] by (simp add: flag_bits)
    show "timer (added load now e) = Some \<lparr>expiry = now + timer_period usec, waiting = Some ((kevent (added load now e)), TimerCallback)\<rparr>"
      using timer_period_word [of usec]
      by (simp add: added_def e_def kernel_event_def EqueueEvent_new_def armed_def filter_defs Let_def)
    show "sint (timer_interval (added load now e)) = timer_period usec"
      using timer_period_word [of usec]
      by (simp add: added_def e_def kernel_event_def EqueueEvent_new_def armed_def filter_defs Let_def)
    show "\<not> has_flag (kevent (added load now e)) Flag_OneShot" using x added_flags(1) [of load now e] by (simp add: flag_bits)
  qed (use w q1 k in \<open>auto simp: w1_def q1(3) e_def added_def kernel_event_def EqueueEvent_new_def armed_def filter_defs Let_def\<close>)
  with call show ?thesis by blast
qed

subsection \<open>Theorems\<close>

text \<open>
  C5: A periodic timer does not drift: however late its expiries are handled, after \<open>n\<close> of them
  its event tells \<open>n\<close> ticks and the next expiry is \<open>n + 1\<close> periods after the call that added it.  The
  period is the one asked for, in whole milliseconds.
\<close>

theorem timer_period_exact:
  assumes "kqueues w (eq_key eq) = Some a" "eq_store w a = Some q" "m_handle q = eq" "unique q" "ready_handlers w = []"
    and "look q (scast i, Filter_Timer) = None"
    and "\<forall>j<length nows. now + int (j + 1) * timer_period usec \<le> nows ! j"
  shows "\<exists>w1 w2 q2 t. sceKernelAddTimerEvent load now eq i usec ud w = Some (ORBIS_OK, w1) \<and>
    timer_cycles nows a (length (m_events q)) w1 = Some w2 \<and> eq_store w2 a = Some q2 \<and>
    ev_data (kevent (m_events q2 ! length (m_events q))) = of_nat (length nows) \<and>
    timer (m_events q2 ! length (m_events q)) = Some t \<and>
    expiry t = now + int (length nows + 1) * timer_period usec \<and> waiting t \<noteq> None"
proof -
  obtain w1 where w1: "sceKernelAddTimerEvent load now eq i usec ud w = Some (ORBIS_OK, w1)"
    "periodic a (length (m_events q)) (timer_period usec) (now + timer_period usec) 0 w1"
    using add_timer_periodic [OF assms(1-6)] by blast
  have "\<forall>j<length nows. now + timer_period usec + int j * timer_period usec \<le> nows ! j"
    using assms(7) by (simp add: algebra_simps)
  from periodic_steps [OF w1(2) this] obtain w2 where w2: "timer_cycles nows a (length (m_events q)) w1 = Some w2"
    "periodic a (length (m_events q)) (timer_period usec)
       (now + timer_period usec + int (length nows) * timer_period usec) (0 + of_nat (length nows)) w2" by blast
  then show ?thesis using w1(1) by (auto simp: periodic_def algebra_simps)
qed

definition EqWorld_new :: EqWorld where
  "EqWorld_new = \<lparr>eq_handles = HandleTable_new, kqueues = (\<lambda>_. None), eq_store = (\<lambda>_. None), next_queue = 0, ready_handlers = []\<rparr>"

theorem timer_period_exact_witness:
  "\<exists>w1 w2 w3 q t. posix_kqueue EqWorld_new = Some (0, w1) \<and>
     sceKernelAddTimerEvent (\<lambda>_. undefined) 7 0 3 5000 0 w1 = Some (ORBIS_OK, w2) \<and>
     timer_cycles [6000000, 15000000] 0 0 w2 = Some w3 \<and> eq_store w3 0 = Some q \<and>
     ev_data (kevent (m_events q ! 0)) = 2 \<and> timer (m_events q ! 0) = Some t \<and> expiry t = 15000007"
proof -
  have h: "fill_handle (\<lambda>f. f\<lparr>file_type := File_Equeue\<rparr>) HandleTable_new =
      Some (0, \<lparr>m_files = [Some 0], file_store = [0 \<mapsto> File_new\<lparr>file_type := File_Equeue\<rparr>], next_file = 1\<rparr>)"
    by (simp add: fill_handle_def CreateHandle_def HandleTable_new_def GetFile_def File_new_def Let_def)
  define w1 where "w1 = new_equeue 0 ''kqueue0'' (EqWorld_new\<lparr>eq_handles :=
      \<lparr>m_files = [Some 0], file_store = [0 \<mapsto> File_new\<lparr>file_type := File_Equeue\<rparr>], next_file = 1\<rparr>\<rparr>)"
  have c: "char_of (48 :: nat) = CHR ''0''" by code_simp
  have p: "posix_kqueue EqWorld_new = Some (0, w1)"
    using c by (simp add: posix_kqueue_def EqWorld_new_def h w1_def)
  have q: "kqueues w1 (eq_key 0) = Some 0" "eq_store w1 0 = Some (EqueueInternal_new 0 ''kqueue0'')" "ready_handlers w1 = []"
    "unique (EqueueInternal_new 0 ''kqueue0'')" "m_events (EqueueInternal_new 0 ''kqueue0'') = []" "m_handle (EqueueInternal_new 0 ''kqueue0'') = 0"
    by (simp_all add: w1_def new_equeue_def EqWorld_new_def EqueueInternal_new_def unique_def)
  have u: "timer_period 5000 = 5000000" by (simp add: timer_period_def uint_div)
  have l: "\<forall>j<length [6000000, 15000000]. 7 + int (j + 1) * timer_period 5000 \<le> [6000000, 15000000] ! j"
    by (simp add: u less_Suc_eq)
  show ?thesis
    using timer_period_exact [OF q(1,2,6,4,3) _ l, of 3 "\<lambda>_. undefined" 0] p q(5) by (auto simp: u)
qed

subsection \<open>Small timers\<close>

lemma nat_next: "c < num \<Longrightarrow> nat (num - c) = Suc (nat (num - (c + 1)))" for c num :: int
  by arith

lemma take_due_spec:
  "take_due t num c ts =
     (map (\<lambda>(i, st). st_event st) (take (nat (num - c)) (filter (\<lambda>(i, st). is_due t st) ts)),
      snd (take_due t num c ts))"
proof (induction t num c ts rule: take_due.induct)
  case (2 t num c i st ts)
  show ?case
  proof (cases "c < num \<and> is_due t st")
    case True
    then have n: "nat (num - c) = Suc (nat (num - (c + 1)))" using nat_next by blast
    obtain a b where x: "take_due t num (c + 1) ts = (a, b)" by fastforce
    then show ?thesis using 2(1) True unfolding n by (simp add: x)
  next
    case False
    obtain a b where x: "take_due t num c ts = (a, b)" by fastforce
    show ?thesis using 2(2) False x by (cases "c < num") auto
  qed
qed simp

lemmas take_due_out = arg_cong [OF take_due_spec, of fst, unfolded fst_conv]

lemma take_due_none: "\<forall>(i, st)\<in>set ts. \<not> is_due t st \<Longrightarrow> take_due t num c ts = ([], ts)"
  by (induction t num c ts rule: take_due.induct) auto

lemma take_due_left:
  "distinct (map fst ts) \<Longrightarrow> 0 < num - c \<Longrightarrow>
   map_of (snd (take_due t num c ts)) = map_of ts |` (- set (map fst (take (nat (num - c)) (filter (\<lambda>(i, st). is_due t st) ts))))"
proof (induction ts arbitrary: c)
  case (Cons p ts)
  obtain i st where p: "p = (i, st)" by fastforce
  have i: "map_of ts i = None" using Cons.prems(1) p by (auto simp: map_of_eq_None_iff)
  show ?case
  proof (cases "is_due t st")
    case True
    have n: "nat (num - c) = Suc (nat (num - (c + 1)))" using Cons.prems(2) by (intro nat_next) simp
    have "map_of (snd (take_due t num (c + 1) ts)) =
        map_of ts |` (- set (map fst (take (nat (num - (c + 1))) (filter (\<lambda>(i, st). is_due t st) ts))))"
    proof (cases "0 < num - (c + 1)")
      case False
      then show ?thesis by (cases ts) (auto simp: restrict_map_def)
    qed (use Cons in auto)
    moreover obtain a b where "take_due t num (c + 1) ts = (a, b)" by fastforce
    ultimately show ?thesis
      using True Cons.prems(2) i unfolding n p by (auto simp: restrict_map_def fun_eq_iff)
  next
    case False
    let ?taken = "set (map fst (take (nat (num - c)) (filter (\<lambda>(i, st). is_due t st) ts)))"
    obtain a b where x: "take_due t num c ts = (a, b)" by fastforce
    then have "map_of b = map_of ts |` (- ?taken)" using Cons.IH [of c] Cons.prems by simp
    moreover have "i \<notin> ?taken"
      using i set_take_subset [of "nat (num - c)" "filter (\<lambda>(i, st). is_due t st) ts"]
      by (auto simp: map_of_eq_None_iff image_iff)
    ultimately show ?thesis
      using False x p Cons.prems(2) by (auto simp: restrict_map_def fun_eq_iff)
  qed
qed simp

text \<open>The queue as a waiting thread finds it in each round while nothing is due.\<close>

fun queue_at :: "(nat \<Rightarrow> EqueueInternal \<Rightarrow> EqueueInternal) \<Rightarrow> EqueueInternal \<Rightarrow> nat \<Rightarrow> EqueueInternal" where
  "queue_at others q 0 = q"
| "queue_at others q (Suc k) = others (Suc k) (queue_at others q k)"

definition due_now :: "int \<Rightarrow> EqueueInternal \<Rightarrow> (u64 \<times> SmallTimer) list" where
  "due_now t q = filter (\<lambda>(i, st). is_due t st) (m_small_timers q)"

lemma spin_small_first:
  assumes "\<forall>j. k < j \<and> j < n \<longrightarrow> due_now (clock j) (queue_at others q j) = [] \<and>
      (case wait_end of None \<Rightarrow> True | Some t \<Rightarrow> clock j < t)"
    and "k < n" "0 < num"
    and "due_now (clock n) (queue_at others q n) \<noteq> [] \<or> (\<exists>t. wait_end = Some t \<and> t \<le> clock n)"
  shows "spin_small clock others wait_end num (Suc k) (queue_at others q k) =
    (let q = queue_at others q n; (out, ts) = take_due (clock n) num 0 (m_small_timers q)
     in Some (out, q\<lparr>m_small_timers := ts\<rparr>))"
  using assms(1,2)
proof (induction "n - k" arbitrary: k)
  case (Suc m)
  let ?q = "queue_at others q (Suc k)"
  show ?case
  proof (cases "Suc k = n")
    case True
    have "fst (take_due (clock n) num 0 (m_small_timers ?q)) = [] \<Longrightarrow> \<exists>t. wait_end = Some t \<and> t \<le> clock n"
      using assms(3,4) unfolding take_due_out True by (auto simp: due_now_def)
    moreover have "?q = queue_at others q n" unfolding True ..
    moreover have "queue_at others q n = others n (queue_at others q k)" using True by auto
    ultimately show ?thesis
      unfolding True by (subst spin_small.simps) (auto simp: split_def Let_def)
  next
    case False
    then have kn: "Suc k < n" using Suc.prems(2) by simp
    have d: "due_now (clock (Suc k)) ?q = []" "case wait_end of None \<Rightarrow> True | Some t \<Rightarrow> clock (Suc k) < t"
      using Suc.prems(1) kn by blast+
    have nd: "\<forall>(i, st)\<in>set (m_small_timers ?q). \<not> is_due (clock (Suc k)) st"
      using d(1) by (auto simp: due_now_def filter_empty_conv)
    have "spin_small clock others wait_end num (Suc k) (queue_at others q k) =
        spin_small clock others wait_end num (Suc (Suc k)) ?q"
      using d(2) take_due_none [OF nd, of num 0] by (subst spin_small.simps) simp
    also have "\<dots> = (let q = queue_at others q n; (out, ts) = take_due (clock n) num 0 (m_small_timers q)
        in Some (out, q\<lparr>m_small_timers := ts\<rparr>))"
      by (rule Suc.hyps(1)) (use Suc kn in auto)
    finally show ?thesis .
  qed
qed simp

text \<open>
  C20: A wait for small timers, in which the other threads may change the queue before every round,
  ends in the first round in which a timer of the table as it then is is due or the time is over.  It
  then returns the first of the timers that are due, at most as many as were asked for, none before
  its time, and takes exactly these out of the table; the events of the queue are left alone.
\<close>

theorem small_timer_wait:
  assumes "0 < num" "1 \<le> n" "distinct (map fst (m_small_timers (queue_at others q n)))"
    and "\<forall>k. 1 \<le> k \<and> k < n \<longrightarrow> due_now (clock k) (queue_at others q k) = [] \<and>
      (micros \<noteq> 0 \<longrightarrow> clock k < clock 0 + uint micros * 1000)"
    and "due_now (clock n) (queue_at others q n) \<noteq> [] \<or> (micros \<noteq> 0 \<and> clock 0 + uint micros * 1000 \<le> clock n)"
  shows "\<exists>out q'. WaitForSmallTimer clock others num micros q = Some (out, q') \<and>
    m_events q' = m_events (queue_at others q n) \<and>
    (let taken = take (nat num) (due_now (clock n) (queue_at others q n)) in
      out = map (\<lambda>(i, st). st_event st) taken \<and>
      map_of (m_small_timers q') = map_of (m_small_timers (queue_at others q n)) |` (- set (map fst taken)))"
proof -
  let ?e = "if micros = 0 then None else Some (clock 0 + uint micros * 1000)" and ?q = "queue_at others q n"
  obtain out ts where x: "take_due (clock n) num 0 (m_small_timers ?q) = (out, ts)" by fastforce
  have a: "\<forall>j. 0 < j \<and> j < n \<longrightarrow> due_now (clock j) (queue_at others q j) = [] \<and>
      (case ?e of None \<Rightarrow> True | Some t \<Rightarrow> clock j < t)" using assms(4) by (cases "micros = 0") auto
  have b: "due_now (clock n) ?q \<noteq> [] \<or> (\<exists>t. ?e = Some t \<and> t \<le> clock n)"
    using assms(5) by auto
  have "spin_small clock others ?e num 1 q = Some (out, ?q\<lparr>m_small_timers := ts\<rparr>)"
    using spin_small_first [OF a _ assms(1) b] assms(2) x by (simp add: Let_def)
  then have "WaitForSmallTimer clock others num micros q = Some (out, ?q\<lparr>m_small_timers := ts\<rparr>)"
    using assms(1) by (simp add: WaitForSmallTimer_def)
  then show ?thesis
    using take_due_out [of "clock n" num 0 "m_small_timers ?q"] take_due_left [OF assms(3), of num 0 "clock n"] assms(1) x
    by (simp add: Let_def due_now_def)
qed

definition demo_timers :: EqueueInternal where
  "demo_timers = (EqueueInternal_new 0 ''q'')\<lparr>m_small_timers :=
     map (\<lambda>(i, d). (i, \<lparr>st_event = kevent (kernel_event (ucast i) Filter_HrTimer Flag_OneShot 0 0), st_added = 100, st_interval = d\<rparr>))
       [(1, 900), (2, 300), (3, 250)]\<rparr>"

text \<open>Before the third round another thread removes the timer that would be due next.\<close>

definition demo_others :: "nat \<Rightarrow> EqueueInternal \<Rightarrow> EqueueInternal" where
  "demo_others k q = (if k = 3 then snd (RemoveSmallTimer 3 q) else q)"

theorem small_timer_wait_witness:
  "\<exists>out q'. WaitForSmallTimer (\<lambda>k. 100 * int k + 50) demo_others 2 0 demo_timers = Some (out, q') \<and>
     map ev_ident out = [2] \<and> dom (map_of (m_small_timers q')) = {1}"
proof -
  have q: "m_small_timers (queue_at demo_others demo_timers 1) = m_small_timers demo_timers"
    "m_small_timers (queue_at demo_others demo_timers 2) = m_small_timers demo_timers"
    "m_small_timers (queue_at demo_others demo_timers 3) = filter (\<lambda>(j, s). j \<noteq> 3) (m_small_timers demo_timers)"
    "m_small_timers (queue_at demo_others demo_timers 4) = filter (\<lambda>(j, s). j \<noteq> 3) (m_small_timers demo_timers)"
    by (simp_all add: numeral_eq_Suc demo_others_def RemoveSmallTimer_def HasSmallTimer_def demo_timers_def)
  have k: "k = 1 \<or> k = 2 \<or> k = 3" if "1 \<le> k" "k < 4" for k :: nat using that by linarith
  have d: "due_now 150 (queue_at demo_others demo_timers 1) = []" "due_now 250 (queue_at demo_others demo_timers 2) = []"
    "due_now 350 (queue_at demo_others demo_timers 3) = []"
    "due_now 450 (queue_at demo_others demo_timers 4) = [m_small_timers demo_timers ! 1]"
    unfolding due_now_def q by (simp_all add: demo_timers_def is_due_def)
  have b: "\<forall>k. 1 \<le> k \<and> k < 4 \<longrightarrow> due_now (100 * int k + 50) (queue_at demo_others demo_timers k) = [] \<and>
      ((0 :: u32) \<noteq> 0 \<longrightarrow> 100 * int k + 50 < 100 * int 0 + 50 + uint (0 :: u32) * 1000)"
  proof (intro allI impI conjI)
    fix k :: nat assume "1 \<le> k \<and> k < 4"
    then have "k = 1 \<or> k = 2 \<or> k = 3" using k by simp
    then show "due_now (100 * int k + 50) (queue_at demo_others demo_timers k) = []"
      using d(1-3) by (elim disjE) (simp_all del: One_nat_def queue_at.simps)
  qed simp
  have u: "distinct (map fst (m_small_timers (queue_at demo_others demo_timers 4)))"
    unfolding q by (simp add: demo_timers_def)
  have f: "due_now (100 * int 4 + 50) (queue_at demo_others demo_timers 4) = [m_small_timers demo_timers ! 1]"
    using d(4) by simp
  from small_timer_wait [where num = 2, OF _ _ u b] obtain out q' where
    "WaitForSmallTimer (\<lambda>k. 100 * int k + 50) demo_others 2 0 demo_timers = Some (out, q')"
    "out = map (\<lambda>(i, st). st_event st) (take (nat 2) [m_small_timers demo_timers ! 1])"
    "map_of (m_small_timers q') = map_of (m_small_timers (queue_at demo_others demo_timers 4)) |`
      (- set (map fst (take (nat 2) [m_small_timers demo_timers ! 1])))"
    unfolding f by (auto simp: Let_def)
  then show ?thesis
    unfolding q by (auto simp: demo_timers_def kernel_event_def EqueueEvent_new_def restrict_map_def dom_def split: if_splits)
qed

subsection \<open>What the timers do not keep\<close>

text \<open>A time with a fraction above half a second overflows in the call that adds it.\<close>

lemma hr_timer_overflows:
  assumes "kqueues w (eq_key eq) \<noteq> None" "500000000 < sint (tv_nsec ts)"
  shows "sceKernelAddHRTimerEvent arrange stack now eq i ts ud w = None"
proof -
  have "hr_frac (tv_nsec ts) = None" using assms(2) by (simp add: hr_frac_def fits64_def)
  then show ?thesis using assms(1) by (simp add: sceKernelAddHRTimerEvent_def)
qed

text \<open>A handler that is ready when its queue is deleted reads the deleted queue.\<close>

lemma deleted_queue_used:
  assumes "kqueues w (eq_key eq) = Some a" "ready_handlers w = (a, kev, cb) # rest" "sceKernelDeleteEqueue eq w = Some (r, w')"
  shows "run_handler now tsc w' = None"
  using assms by (auto simp: sceKernelDeleteEqueue_def run_handler_def split: bind_splits)

text \<open>A long timer cannot be deleted while the queue has a short one.\<close>

lemma long_timer_stays:
  assumes "kqueues w (eq_key eq) = Some a" "eq_store w a = Some q" "HasSmallTimer q" "map_of (m_small_timers q) (scast i) = None"
  shows "\<exists>w'. sceKernelDeleteHRTimerEvent eq i w = Some (ORBIS_KERNEL_ERROR_ENOENT, w') \<and>
    (\<exists>q'. eq_store w' a = Some q' \<and> m_events q' = m_events q)"
proof -
  have "\<not> list_ex (\<lambda>(j, s). j = scast i) (m_small_timers q)"
    using assms(4) by (auto simp: list_ex_iff map_of_eq_None_iff intro: rev_image_eqI)
  then show ?thesis
    using assms(1-3) by (simp add: sceKernelDeleteHRTimerEvent_def queue_call_def on_queue_def RemoveSmallTimer_def)
qed

text \<open>With a short timer in the queue, events that were triggered are not looked at.\<close>

lemma small_timer_hides:
  "HasSmallTimer q \<Longrightarrow> timo \<noteq> Some 0 \<Longrightarrow> WaitForEvents num timo q = (Wait_Spin (case timo of Some t \<Rightarrow> t | None \<Rightarrow> 0), q)"
  by (simp add: WaitForEvents_def Let_def)

text \<open>Timers of less than a millisecond have no period; a wait of less than a microsecond is a poll.\<close>

lemma short_times: "timer_period 999 = 0" "kevent_micros \<lparr>tv_sec = 0, tv_nsec = 999\<rparr> = 0"
  by code_simp+

text \<open>Handles are looked up by 32 bits.\<close>

lemma handle_alias: "GetEqueue (eq + 0x100000000) w = GetEqueue eq w"
proof -
  have "uint (ucast (eq + 0x100000000) :: s32) = uint (ucast eq :: s32)"
    by (simp add: unsigned_ucast_eq uint_word_ariths take_bit_eq_mod mod_mod_cancel)
  then have "(ucast (eq + 0x100000000) :: s32) = ucast eq" by (simp only: word_uint_eq_iff)
  then show ?thesis by (simp add: GetEqueue_def eq_key_def)
qed

end
