(* ===== verification/Event_Waiters.thy ===== *)
theory Event_Waiters
  imports Event_Delivery
begin

section \<open>Event queues: the waiting threads\<close>

text \<open>
  Threads that wait in \<^verbatim>\<open>WaitForEvents\<close> and threads that trigger events, interleaved in any way.  A
  step is what a thread does under the queue's mutex, or its \<^verbatim>\<open>notify_one\<close>, which comes after.  A waiting
  thread may wake up without a reason and, with a time limit, give up at any time; both evaluate the
  predicate, which collects events.
\<close>

subsection \<open>Threads and steps\<close>

datatype eq_thread = Eq_Outside | Eq_Asleep bool int | Eq_Woken bool int | Eq_Notifying

datatype eq_event = Eq_Silent | Eq_Returns "OrbisKernelEvent list"

type_synonym eq_state = "EqueueInternal \<times> (nat \<Rightarrow> eq_thread)"

text \<open>What else may happen to the queue: events are added and removed, timers set.\<close>

definition eq_other :: "eq_op \<Rightarrow> bool" where
  "eq_other op \<longleftrightarrow> (case op of
     Op_Add now e \<Rightarrow> \<not> is_triggered e | Op_Remove i f \<Rightarrow> True | Op_Schedule now i f cb \<Rightarrow> True | _ \<Rightarrow> False)"

inductive eq_step :: "eq_state \<Rightarrow> nat \<Rightarrow> eq_event \<Rightarrow> eq_state \<Rightarrow> bool" where
  poll: "\<lbrakk>ts t = Eq_Outside; 0 < num; GetTriggeredEvents num q = (out, q')\<rbrakk> \<Longrightarrow>
    eq_step (q, ts) t (Eq_Returns out) (q', ts)"
| wait_now: "\<lbrakk>ts t = Eq_Outside; 0 < num; GetTriggeredEvents num q = (out, q'); out \<noteq> []\<rbrakk> \<Longrightarrow>
    eq_step (q, ts) t (Eq_Returns out) (q', ts)"
| wait_sleep: "\<lbrakk>ts t = Eq_Outside; 0 < num; GetTriggeredEvents num q = ([], q')\<rbrakk> \<Longrightarrow>
    eq_step (q, ts) t Eq_Silent (q', ts(t := Eq_Asleep timed num))"
| wake_up: "ts t = Eq_Asleep timed num \<Longrightarrow> eq_step (q, ts) t Eq_Silent (q, ts(t := Eq_Woken timed num))"
| wait_done: "\<lbrakk>ts t = Eq_Woken timed num; GetTriggeredEvents num q = (out, q'); out \<noteq> []\<rbrakk> \<Longrightarrow>
    eq_step (q, ts) t (Eq_Returns out) (q', ts(t := Eq_Outside))"
| wait_again: "\<lbrakk>ts t = Eq_Woken timed num; GetTriggeredEvents num q = ([], q')\<rbrakk> \<Longrightarrow>
    eq_step (q, ts) t Eq_Silent (q', ts(t := Eq_Asleep timed num))"
| wait_expire: "\<lbrakk>ts t = Eq_Asleep True num \<or> ts t = Eq_Woken True num; GetTriggeredEvents num q = (out, q')\<rbrakk> \<Longrightarrow>
    eq_step (q, ts) t (Eq_Returns out) (q', ts(t := Eq_Outside))"
| trigger: "\<lbrakk>ts t = Eq_Outside; TriggerEvent tsc i f d q = (found, q')\<rbrakk> \<Longrightarrow>
    eq_step (q, ts) t Eq_Silent (q', ts(t := Eq_Notifying))"
| notify_one: "\<lbrakk>ts t = Eq_Notifying; ts s = Eq_Asleep timed num\<rbrakk> \<Longrightarrow>
    eq_step (q, ts) t Eq_Silent (q, ts(t := Eq_Outside, s := Eq_Woken timed num))"
| notify_none: "\<lbrakk>ts t = Eq_Notifying; \<forall>s timed num. ts s \<noteq> Eq_Asleep timed num\<rbrakk> \<Longrightarrow>
    eq_step (q, ts) t Eq_Silent (q, ts(t := Eq_Outside))"
| other: "\<lbrakk>ts t = Eq_Outside; eq_other op; eq_exec load op q = ([], q')\<rbrakk> \<Longrightarrow>
    eq_step (q, ts) t Eq_Silent (q', ts)"

inductive_cases eq_stepE: "eq_step s t e s'"

text \<open>An edge event is reset or removed when it is collected; the queue may be limited to such events.\<close>

definition edge :: "EqueueEvent \<Rightarrow> bool" where
  "edge e \<longleftrightarrow> has_flag (kevent e) Flag_Clear \<or> has_flag (kevent e) Flag_OneShot"

definition only_edge :: "EqueueInternal \<Rightarrow> bool" where
  "only_edge q \<longleftrightarrow> (\<forall>e\<in>set (m_events q). edge e)"

text \<open>The states reached from an empty queue; \<open>P\<close> says which queues are allowed.\<close>

inductive eq_reachable :: "(EqueueInternal \<Rightarrow> bool) \<Rightarrow> eq_state \<Rightarrow> bool" for P where
  init: "eq_reachable P (EqueueInternal_new handle nm, \<lambda>_. Eq_Outside)"
| step: "\<lbrakk>eq_reachable P s; eq_step s t e s'; P (fst s')\<rbrakk> \<Longrightarrow> eq_reachable P s'"

subsection \<open>The events that are triggered\<close>

definition triggered :: "EqueueEvent list \<Rightarrow> nat" where
  "triggered es = length (filter is_triggered es)"

lemma triggered_simps [simp]:
  "triggered [] = 0" "triggered (e # es) = (if is_triggered e then 1 else 0) + triggered es"
  "triggered (es @ fs) = triggered es + triggered fs"
  by (simp_all add: triggered_def)

lemma visited_quiet: "\<forall>e\<in>set es. edge e \<Longrightarrow> triggered (List.map_filter visited es) = 0"
proof (induction es)
  case (Cons e es)
  then show ?case
    by (cases "is_triggered e") (auto simp: List.map_filter_simps after_def cleared_def Event_Clear_def edge_def)
qed (simp add: List.map_filter_simps)

text \<open>Collecting edge events takes as many as are triggered, up to the number asked for.\<close>

lemma collect_count:
  assumes "only_edge q" "0 < num" "GetTriggeredEvents num q = (out, q')"
  shows "triggered (m_events q') = triggered (m_events q) - length out \<and> length out \<le> triggered (m_events q) \<and>
    (out = [] \<longleftrightarrow> triggered (m_events q) = 0)"
proof -
  obtain pre post where "m_events q = pre @ post \<and>
    collect num 0 (m_events q) = (map kevent (filter is_triggered pre), List.map_filter visited pre @ post) \<and>
    int (length (filter is_triggered pre)) \<le> num - 0 \<and> (post \<noteq> [] \<longrightarrow> int (length (filter is_triggered pre)) = num - 0)"
    using collect_split [OF assms(2), of "m_events q"] by blast
  then have s: "m_events q = pre @ post"
    "collect num 0 (m_events q) = (map kevent (filter is_triggered pre), List.map_filter visited pre @ post)"
    "post \<noteq> [] \<longrightarrow> int (length (filter is_triggered pre)) = num"
    unfolding diff_zero by blast+
  have o: "out = map kevent (filter is_triggered pre)" "m_events q' = List.map_filter visited pre @ post"
    using assms(3) s(2) by (auto simp: GetTriggeredEvents_def)
  have "triggered (List.map_filter visited pre) = 0"
    using assms(1) by (intro visited_quiet) (auto simp: only_edge_def s(1))
  moreover have "out = [] \<longleftrightarrow> triggered (m_events q) = 0"
    using s(3) assms(2) by (cases "post = []") (auto simp: o s(1) triggered_def filter_empty_conv)
  ultimately show ?thesis by (simp add: o s(1) triggered_def)
qed

lemma collect_edge:
  assumes "only_edge q" "GetTriggeredEvents num q = (out, q')"
  shows "only_edge q'"
proof -
  have "\<forall>e\<in>set es. edge e \<Longrightarrow> \<forall>e\<in>set (snd (collect num c es)). edge e" for c es
  proof (induction num c es rule: collect.induct)
    case (2 num count e es)
    have "edge (cleared e)" using 2(3) by (simp add: edge_def cleared_def Event_Clear_def has_flag_def)
    with 2 show ?case by (auto simp: Let_def split_def)
  qed simp
  from this [of "m_events q" 0] show ?thesis
    using assms by (auto simp: only_edge_def GetTriggeredEvents_def split_def Let_def)
qed

lemma trigger_count:
  assumes "unique q" "TriggerEvent tsc i f d q = (found, q')"
  shows "triggered (m_events q') \<le> triggered (m_events q) + 1"
proof -
  have "triggered (map (\<lambda>e. if matches i f e then g e else e) es) \<le> triggered es + 1 \<and>
    ((i, f) \<notin> set (keys_of es) \<longrightarrow> map (\<lambda>e. if matches i f e then g e else e) es = es)"
    if "distinct (keys_of es)" for g es
    using that by (induction es) (auto simp: matches_key)
  with assms show ?thesis by (auto simp: TriggerEvent_def unique_def)
qed

text \<open>Adding, removing and scheduling events triggers none.\<close>

lemma triggered_update:
  "n < length es \<Longrightarrow> is_triggered e = is_triggered (es ! n) \<Longrightarrow> triggered (es[n := e]) = triggered es"
proof -
  assume a: "n < length es" "is_triggered e = is_triggered (es ! n)"
  have t: "triggered xs = length (filter id (map is_triggered xs))" for xs
    by (simp add: triggered_def filter_map comp_def)
  have "map is_triggered (es[n := e]) = map is_triggered es"
    using a by (simp add: map_update list_update_same_conv)
  then show "triggered (es[n := e]) = triggered es" by (simp only: t)
qed

lemma schedule_count: "triggered (m_events (snd (ScheduleEvent now i f cb q))) = triggered (m_events q)"
  using find_if_Some [of "matches i f" "m_events q"]
  by (auto simp: ScheduleEvent_def Let_def triggered_update split: option.split)

lemma other_count:
  assumes "unique q" "eq_other op"
  shows "triggered (m_events (snd (eq_exec load op q))) \<le> triggered (m_events q)"
proof (cases op)
  case (Op_Add now e)
  show ?thesis
  proof (cases "look q (key e)")
    case None
    then have "m_events (snd (AddEvent load now e q)) = m_events q @ [added load now e]"
      using AddEvent_new [OF assms(1) None, of load now] by auto
    moreover have "\<not> is_triggered (added load now e)"
      using assms(2) Op_Add by (simp add: eq_other_def added_def armed_def Let_def)
    ultimately show ?thesis using Op_Add by simp
  next
    case (Some old)
    then have "find_if (matches (ev_ident (kevent e)) (ev_filter (kevent e))) (m_events q) \<noteq> None"
      using not_found_key [of _ _ "m_events q"] by (simp add: key_def)
    then show ?thesis
      using Op_Add find_if_Some [of "matches (ev_ident (kevent e)) (ev_filter (kevent e))" "m_events q"]
      by (auto simp: AddEvent_def Let_def triggered_update)
  qed
next
  case (Op_Remove i f)
  have "triggered (take n es @ drop (Suc n) es) \<le> triggered es" for n and es :: "EqueueEvent list"
  proof -
    have "triggered (drop (Suc n) es) \<le> triggered (drop n es)"
      by (cases "drop n es") (simp_all add: drop_Suc tl_drop flip: tl_drop)
    moreover have "triggered (take n es) + triggered (drop n es) = triggered es"
      using triggered_simps(3) [of "take n es" "drop n es"] by simp
    ultimately show ?thesis by simp
  qed
  then show ?thesis using Op_Remove by (simp add: RemoveEvent_def split: option.split)
qed (use assms(2) in \<open>auto simp: eq_other_def schedule_count\<close>)

subsection \<open>No trigger is lost\<close>

text \<open>The threads that will collect or make another one collect.\<close>

definition on_the_way :: "eq_thread \<Rightarrow> bool" where
  "on_the_way th \<longleftrightarrow> (case th of Eq_Woken b n \<Rightarrow> True | Eq_Notifying \<Rightarrow> True | _ \<Rightarrow> False)"

definition eq_asleep :: "eq_thread \<Rightarrow> bool" where
  "eq_asleep th \<longleftrightarrow> (case th of Eq_Asleep b n \<Rightarrow> True | _ \<Rightarrow> False)"

lemma thread_simps [simp]:
  "on_the_way (Eq_Woken b n)" "on_the_way Eq_Notifying" "\<not> on_the_way Eq_Outside" "\<not> on_the_way (Eq_Asleep b n)"
  "eq_asleep (Eq_Asleep b n)" "\<not> eq_asleep Eq_Outside" "\<not> eq_asleep (Eq_Woken b n)" "\<not> eq_asleep Eq_Notifying"
  by (simp_all add: on_the_way_def eq_asleep_def)

definition busy :: "(nat \<Rightarrow> eq_thread) \<Rightarrow> nat set" where
  "busy ts = {t. on_the_way (ts t)}"

lemma busy_upd [simp]: "busy (ts(t := x)) = (if on_the_way x then insert t (busy ts) else busy ts - {t})"
  by (auto simp: busy_def)

definition wants :: "eq_thread \<Rightarrow> int" where
  "wants th = (case th of Eq_Asleep b n \<Rightarrow> n | Eq_Woken b n \<Rightarrow> n | _ \<Rightarrow> 1)"

definition eq_inv :: "eq_state \<Rightarrow> bool" where
  "eq_inv s \<longleftrightarrow> (case s of (q, ts) \<Rightarrow> unique q \<and> only_edge q \<and> finite (busy ts) \<and> (\<forall>t. 0 < wants (ts t)) \<and>
     ((\<exists>t. eq_asleep (ts t)) \<longrightarrow> triggered (m_events q) \<le> card (busy ts)))"

lemma eq_invI:
  assumes "unique q'" "only_edge q'" "finite (busy ts')" "\<And>t. 0 < wants (ts' t)"
    "(\<exists>t. eq_asleep (ts' t)) \<Longrightarrow> triggered (m_events q') \<le> card (busy ts')"
  shows "eq_inv (q', ts')"
  using assms by (simp add: eq_inv_def)

lemma collect_inv:
  assumes "unique q" "only_edge q" "0 < num" "GetTriggeredEvents num q = (out, q')"
  shows "unique q' \<and> only_edge q' \<and> triggered (m_events q') \<le> triggered (m_events q) - length out \<and>
    (out = [] \<longleftrightarrow> triggered (m_events q) = 0)"
  using collect_count [OF assms(2-4)] collect_edge [OF assms(2,4)] GetTriggeredEvents_look [OF assms(1,3,4)] by auto

lemma card_minus: "finite A \<Longrightarrow> t \<in> A \<Longrightarrow> card (A - {t}) = card A - 1"
  by (rule card_Diff_singleton)

lemma eq_step_inv:
  assumes "eq_step s t ev s'" "eq_inv s" "only_edge (fst s')"
  shows "eq_inv s'"
  using assms
proof (cases rule: eq_step.cases)
  case (poll ts num q out q')
  then show ?thesis using collect_inv [of q num out q'] assms(2) by (auto simp: eq_inv_def)
next
  case (wait_now ts num q out q')
  then show ?thesis using collect_inv [of q num out q'] assms(2) by (auto simp: eq_inv_def)
next
  case (wait_sleep ts num q q' timed)
  then show ?thesis using collect_inv [of q num "[]" q'] assms(2) by (auto simp: eq_inv_def wants_def)
next
  case (wake_up ts timed num q)
  then have t: "t \<notin> busy ts" by (simp add: busy_def)
  have w: "0 < num" "eq_asleep (ts t)" using wake_up assms(2) by (auto simp: eq_inv_def wants_def split: eq_thread.splits dest: spec [of _ t])
  show ?thesis using wake_up assms(2) w t by (auto simp: eq_inv_def wants_def)
next
  case (wait_done ts timed num q out q')
  then have t: "t \<in> busy ts" "0 < num" using assms(2) by (auto simp: busy_def eq_inv_def wants_def dest: spec [of _ t])
  then show ?thesis using wait_done collect_inv [of q num out q'] assms(2)
    by (cases out) (auto simp: eq_inv_def wants_def card_minus split: if_splits)
next
  case (wait_again ts timed num q q')
  then have t: "t \<in> busy ts" "0 < num" using assms(2) by (auto simp: busy_def eq_inv_def wants_def dest: spec [of _ t])
  then show ?thesis using wait_again collect_inv [of q num "[]" q'] assms(2) by (auto simp: eq_inv_def wants_def)
next
  case (wait_expire ts num q out q')
  then have n: "0 < num" using assms(2) by (auto simp: eq_inv_def wants_def dest: spec [of _ t])
  note c = collect_inv [of q num out q']
  show ?thesis
  proof (cases "ts t = Eq_Asleep True num")
    case True
    then have "t \<notin> busy ts" "eq_asleep (ts t)" by (simp_all add: busy_def)
    then show ?thesis using wait_expire c n assms(2) by (auto simp: eq_inv_def wants_def)
  next
    case False
    then have "t \<in> busy ts" using wait_expire by (simp add: busy_def)
    then show ?thesis using wait_expire c n assms(2) False
      by (cases out) (auto simp: eq_inv_def wants_def card_minus split: if_splits)
  qed
next
  case (trigger ts tsc i f d q found q')
  then have t: "t \<notin> busy ts" by (simp add: busy_def)
  have "unique q'"
    using TriggerEvent_look [where tsc = tsc and i = i and f = f and d = d and q = q] trigger assms(2)
    by (auto simp: unique_def eq_inv_def)
  then show ?thesis
    using trigger t trigger_count [of q tsc i f d found q'] assms(2,3) by (auto simp: eq_inv_def wants_def split: if_splits)
next
  case (notify_one ts r timed num q)
  then have t: "t \<in> busy ts" "r \<notin> busy ts" "r \<noteq> t" "0 < num" "eq_asleep (ts r)"
    using assms(2) by (auto simp: busy_def eq_inv_def wants_def dest: spec [of _ r])
  have "card (insert r (busy ts - {t})) = card (busy ts)" if "finite (busy ts)"
    using that t card_Suc_Diff1 [OF that t(1)] by simp
  then show ?thesis using notify_one t assms(2) by (auto simp: eq_inv_def wants_def)
next
  case (notify_none ts q)
  then have "\<not> eq_asleep (ts r)" for r by (cases "ts r") auto
  then show ?thesis using notify_none assms(2) by (auto simp: eq_inv_def wants_def)
next
  case (other ts op load q q')
  then have ok: "op_ok op" by (auto simp: eq_other_def op_ok_def split: eq_op.splits)
  then show ?thesis
    using other eq_exec_unique [OF _ ok, of q load] other_count [of q op load] assms(2,3) by (auto simp: eq_inv_def)
qed

lemma eq_reachable_inv: "eq_reachable only_edge s \<Longrightarrow> eq_inv s"
proof (induction rule: eq_reachable.induct)
  case (init handle nm)
  then show ?case by (simp add: eq_inv_def EqueueInternal_new_def unique_def only_edge_def busy_def wants_def)
next
  case (step s t e s')
  then show ?case using eq_step_inv by blast
qed

text \<open>
  C6: in a queue of events that are reset or removed when they are collected, no trigger is lost
  among the threads that wait: while one of them sleeps, there are at least as many threads on the
  way as triggered events, and each of them either still has to notify a sleeping thread or, woken,
  can collect an event at once.
\<close>

theorem event_not_lost:
  assumes "eq_reachable only_edge (q, ts)" "eq_asleep (ts s)" "e \<in> set (m_events q)" "is_triggered e"
  shows "triggered (m_events q) \<le> card (busy ts) \<and> busy ts \<noteq> {} \<and>
    (\<forall>t\<in>busy ts. ts t = Eq_Notifying \<or> (\<exists>out q'. out \<noteq> [] \<and> eq_step (q, ts) t (Eq_Returns out) (q', ts(t := Eq_Outside))))"
proof -
  have inv: "eq_inv (q, ts)" by (rule eq_reachable_inv [OF assms(1)])
  then have c: "triggered (m_events q) \<le> card (busy ts)" using assms(2) by (auto simp: eq_inv_def)
  have "e \<in> set (filter is_triggered (m_events q))" using assms(3,4) by simp
  then have n: "0 < triggered (m_events q)" unfolding triggered_def by (rule length_pos_if_in_set)
  have "\<exists>out q'. out \<noteq> [] \<and> eq_step (q, ts) t (Eq_Returns out) (q', ts(t := Eq_Outside))"
    if w: "ts t = Eq_Woken timed num" for t timed num
  proof -
    have "0 < num" using inv w by (auto simp: eq_inv_def wants_def dest: spec [of _ t])
    then show ?thesis
      using inv n collect_inv [of q num] eq_step.wait_done [of ts t timed num q, OF w]
      by (cases "GetTriggeredEvents num q") (fastforce simp: eq_inv_def)
  qed
  moreover have "ts t = Eq_Notifying \<or> (\<exists>timed num. ts t = Eq_Woken timed num)" if "t \<in> busy ts" for t
    using that by (simp add: busy_def on_the_way_def split: eq_thread.splits)
  moreover have "busy ts \<noteq> {}" using c n by auto
  ultimately show ?thesis using c by blast
qed

text \<open>Two waiting threads and one that triggers a user event, with and without the flag for resetting it.\<close>

definition demo_user :: "u16 \<Rightarrow> EqueueEvent" where
  "demo_user fl = EqueueEvent_new \<lparr>ev_ident = 7, ev_filter = Filter_User, ev_flags = fl, ev_fflags = 0, ev_data = 0, ev_udata = 0\<rparr>"

definition demo_load :: "u64 \<Rightarrow> OrbisKernelBintime" where
  "demo_load a = \<lparr>bt_sec = 0, bt_frac = 0\<rparr>"

definition demo_queue :: "u16 \<Rightarrow> bool \<Rightarrow> EqueueInternal" where
  "demo_queue fl tr = (EqueueInternal_new 1 ''q'')\<lparr>m_events := [(demo_user fl)\<lparr>is_triggered := tr\<rparr>]\<rparr>"

definition demo_threads :: "eq_thread \<Rightarrow> eq_thread \<Rightarrow> eq_thread \<Rightarrow> nat \<Rightarrow> eq_thread" where
  "demo_threads a b c = (\<lambda>_. Eq_Outside)(1 := a, 2 := b, 3 := c)"

lemmas demo_defs = demo_user_def demo_load_def demo_queue_def EqueueEvent_new_def EqueueInternal_new_def matches_def
  filter_defs flag_defs has_flag_def

lemma demo_waiting:
  assumes "P (demo_queue fl False)" "P (demo_queue fl True)" "fl = 0 \<or> fl = Flag_Clear"
  shows "eq_reachable P (demo_queue fl True, demo_threads (Eq_Asleep False 1) (Eq_Asleep False 1) Eq_Notifying)"
proof -
  let ?S = "Eq_Asleep False 1"
  have o: "demo_threads Eq_Outside Eq_Outside Eq_Outside = (\<lambda>_. Eq_Outside)"
    by (simp add: demo_threads_def fun_eq_iff)
  have u: "(demo_threads a b c)(1 := x) = demo_threads x b c" "(demo_threads a b c)(2 := x) = demo_threads a x c"
    "(demo_threads a b c)(3 := x) = demo_threads a b x" "demo_threads a b c (Suc 0) = a" "demo_threads a b c 2 = b"
    "demo_threads a b c 3 = c" for a b c x
    by (auto simp: demo_threads_def fun_eq_iff)
  have add: "eq_exec demo_load (Op_Add 0 ((demo_user fl)\<lparr>time_added := 0\<rparr>)) (EqueueInternal_new 1 ''q'') =
      ([], (EqueueInternal_new 1 ''q'')\<lparr>m_events := [demo_user fl]\<rparr>)"
    using assms(3) by (auto simp: AddEvent_def demo_defs Let_def)
  have q0: "(EqueueInternal_new 1 ''q'')\<lparr>m_events := [demo_user fl]\<rparr> = demo_queue fl False"
    by (simp add: demo_defs)
  have g: "GetTriggeredEvents 1 (demo_queue fl False) = ([], demo_queue fl False)"
    by (simp add: GetTriggeredEvents_def demo_defs)
  have tr: "TriggerEvent 0 7 Filter_User 0 (demo_queue fl False) = (True, demo_queue fl True)"
    by (simp add: TriggerEvent_def trigger_one_def TriggerUser_def demo_defs)
  have "eq_reachable P (EqueueInternal_new 1 ''q'', demo_threads Eq_Outside Eq_Outside Eq_Outside)"
    unfolding o by (rule eq_reachable.init)
  then have "eq_reachable P (demo_queue fl False, demo_threads Eq_Outside Eq_Outside Eq_Outside)"
    by (rule eq_reachable.step [OF _ eq_step.other [where t = 1, OF _ _ add [unfolded q0]]])
      (use assms(1) in \<open>simp_all add: u eq_other_def demo_defs\<close>)
  then have s1: "eq_reachable P (demo_queue fl False, (demo_threads Eq_Outside Eq_Outside Eq_Outside)(1 := ?S))"
    by (rule eq_reachable.step [OF _ eq_step.wait_sleep [where t = 1 and num = 1, OF _ _ g]]) (use assms(1) in \<open>simp_all add: u\<close>)
  have s2: "eq_reachable P (demo_queue fl False, (demo_threads ?S Eq_Outside Eq_Outside)(2 := ?S))"
    by (rule eq_reachable.step [OF s1 [unfolded u] eq_step.wait_sleep [where t = 2 and num = 1, OF _ _ g]])
      (use assms(1) in \<open>simp_all add: u\<close>)
  have "eq_reachable P (demo_queue fl True, (demo_threads ?S ?S Eq_Outside)(3 := Eq_Notifying))"
    by (rule eq_reachable.step [OF s2 [unfolded u] eq_step.trigger [where t = 3, OF _ tr]]) (use assms(2) in \<open>simp_all add: u\<close>)
  then show ?thesis by (simp only: u)
qed

theorem event_not_lost_witness:
  "1 \<le> card (busy (demo_threads (Eq_Asleep False 1) (Eq_Asleep False 1) Eq_Notifying))"
proof -
  let ?ts = "demo_threads (Eq_Asleep False 1) (Eq_Asleep False 1) Eq_Notifying"
  have "eq_reachable only_edge (demo_queue Flag_Clear True, ?ts)"
    by (rule demo_waiting) (simp_all add: only_edge_def edge_def demo_defs)
  moreover have "eq_asleep (?ts 1)" by (simp add: demo_threads_def)
  moreover have "(demo_user Flag_Clear)\<lparr>is_triggered := True\<rparr> \<in> set (m_events (demo_queue Flag_Clear True))"
    by (simp add: demo_queue_def)
  ultimately have "triggered (m_events (demo_queue Flag_Clear True)) \<le> card (busy ?ts)"
    using event_not_lost by fastforce
  then show ?thesis by (simp add: demo_queue_def)
qed

text \<open>
  A user event without that flag stays triggered when it is collected, yet only one of two waiting
  threads is woken: the other goes on sleeping while the event is there for it.
\<close>

lemma level_event_lost:
  "eq_reachable (\<lambda>_. True) (demo_queue 0 True, demo_threads Eq_Outside (Eq_Asleep False 1) Eq_Outside)"
proof -
  let ?S = "Eq_Asleep False 1" and ?W = "Eq_Woken False 1"
  have u: "(demo_threads a b c)(1 := x) = demo_threads x b c" "(demo_threads a b c)(3 := y, 1 := x) = demo_threads x b y" for a b c x y
    by (auto simp: demo_threads_def fun_eq_iff)
  have g: "GetTriggeredEvents 1 (demo_queue 0 True) = ([kevent (demo_user 0)], demo_queue 0 True)"
    by (simp add: GetTriggeredEvents_def cleared_def demo_defs Let_def)
  have "eq_reachable (\<lambda>_. True) (demo_queue 0 True, demo_threads ?S ?S Eq_Notifying)"
    by (rule demo_waiting) simp_all
  then have w: "eq_reachable (\<lambda>_. True) (demo_queue 0 True, (demo_threads ?S ?S Eq_Notifying)(3 := Eq_Outside, 1 := ?W))"
    by (rule eq_reachable.step [OF _ eq_step.notify_one [where t = 3 and s = 1]]) (simp_all add: demo_threads_def)
  have "eq_reachable (\<lambda>_. True) (demo_queue 0 True, (demo_threads ?W ?S Eq_Outside)(1 := Eq_Outside))"
    by (rule eq_reachable.step [OF w [unfolded u] eq_step.wait_done [where t = 1 and timed = False, OF _ g]]) (simp_all add: demo_threads_def)
  then show ?thesis by (simp only: u)
qed

end
