(* ===== verification/Mount_Points.thy ===== *)
theory Mount_Points
  imports Prelude
begin

section \<open>Mount points and the paths of the host\<close>

text \<open>
  \<^verbatim>\<open>MntPoints\<close> of \<^verbatim>\<open>core/file_sys/fs.cpp\<close>: the folders of the host that a game sees as \<^verbatim>\<open>/app0\<close> and the
  like, and the translation of its paths, with the folders of mods and patches that go over a mounted
  one and the search that ignores case.  A path of the host is its string, with the operations of
  \<^verbatim>\<open>std::filesystem::path\<close> that the code uses as the standard defines them for POSIX.  The host's file
  system is a parameter: which paths exist and what a directory lists; a path that cannot be listed
  makes the directory iterator throw, which nobody catches (\<open>None\<close>).
\<close>

subsection \<open>Strings and paths\<close>

abbreviation slash :: char where
  "slash \<equiv> CHR ''/''"

definition starts_with :: "string \<Rightarrow> string \<Rightarrow> bool" where
  "starts_with s p \<longleftrightarrow> take (length p) s = p"

definition lower_char :: "char \<Rightarrow> char" where
  "lower_char c = (if 65 \<le> (of_char c :: nat) \<and> (of_char c :: nat) \<le> 90 then char_of ((of_char c :: nat) + 32) else c)"

definition ToLower :: "string \<Rightarrow> string" where
  "ToLower = map lower_char"

text \<open>\<^verbatim>\<open>operator/=\<close>, \<^verbatim>\<open>filename\<close> and \<^verbatim>\<open>parent_path\<close>.\<close>

definition append_path :: "string \<Rightarrow> string \<Rightarrow> string" where
  "append_path p q =
     (if q \<noteq> [] \<and> hd q = slash then q
      else if p = [] \<or> last p = slash then p @ q
      else p @ [slash] @ q)"

definition path_filename :: "string \<Rightarrow> string" where
  "path_filename p = rev (takeWhile (\<lambda>c. c \<noteq> slash) (rev p))"

definition parent_path :: "string \<Rightarrow> string" where
  "parent_path p =
     (let q = dropWhile (\<lambda>c. c \<noteq> slash) (rev p); r = dropWhile (\<lambda>c. c = slash) q in
      if r = [] \<and> q \<noteq> [] then [slash] else rev r)"

record HostFS =
  fs_exists :: "string \<Rightarrow> bool"
  fs_dir :: "string \<Rightarrow> string list option"

subsection \<open>The code\<close>

function RemoveTrailingSlashes :: "string \<Rightarrow> string" where
  "RemoveTrailingSlashes path =
     (if path \<noteq> [] \<and> last path = slash then RemoveTrailingSlashes (butlast path) else path)"
  by pat_completeness auto
termination by (relation "measure length") auto

declare RemoveTrailingSlashes.simps [simp del]

datatype HostPathType = Path_Default | Path_Base | Path_Patch | Path_Mod

record MntPair =
  host_path :: string
  mount :: string
  read_only :: bool

record MntPoints =
  m_mnt_pairs :: "MntPair list"
  path_cache :: "string \<Rightarrow> string option"

definition MntPoints_new :: MntPoints where
  "MntPoints_new = \<lparr>m_mnt_pairs = [], path_cache = (\<lambda>_. None)\<rparr>"

definition Mount :: "string \<Rightarrow> string \<Rightarrow> bool \<Rightarrow> MntPoints \<Rightarrow> MntPoints" where
  "Mount host_folder guest_folder ro m =
     m\<lparr>m_mnt_pairs := m_mnt_pairs m @ [\<lparr>host_path = host_folder, mount = RemoveTrailingSlashes guest_folder, read_only = ro\<rparr>]\<rparr>"

definition Unmount :: "string \<Rightarrow> string \<Rightarrow> MntPoints \<Rightarrow> MntPoints" where
  "Unmount host_folder guest_folder m =
     (let guest_folder_sanitized = RemoveTrailingSlashes guest_folder in
      m\<lparr>m_mnt_pairs := filter (\<lambda>p. mount p \<noteq> guest_folder_sanitized) (m_mnt_pairs m)\<rparr>)"

definition UnmountAll :: "MntPoints \<Rightarrow> MntPoints" where
  "UnmountAll m = m\<lparr>m_mnt_pairs := []\<rparr>"

definition GetMountFromHostPath :: "string \<Rightarrow> MntPoints \<Rightarrow> MntPair option" where
  "GetMountFromHostPath path m = find (\<lambda>p. starts_with path (host_path p)) (m_mnt_pairs m)"

definition GetMount :: "string \<Rightarrow> MntPoints \<Rightarrow> MntPair option" where
  "GetMount guest_path m =
     find (\<lambda>p. guest_path = mount p \<or> starts_with guest_path (mount p @ [slash])) (m_mnt_pairs m)"

text \<open>\<^verbatim>\<open>std::string::find\<close> of two slashes, and the loop over them.\<close>

definition find_double :: "nat \<Rightarrow> string \<Rightarrow> nat option" where
  "find_double pos s = find (\<lambda>i. s ! i = slash \<and> s ! (i + 1) = slash) [pos..<length s - 1]"

lemma find_double_Some:
  "find_double pos s = Some i \<Longrightarrow> pos \<le> i \<and> i + 1 < length s \<and> s ! i = slash \<and> s ! (i + 1) = slash \<and>
    (\<forall>j. pos \<le> j \<and> j < i \<longrightarrow> \<not> (s ! j = slash \<and> s ! (j + 1) = slash))"
  by (auto simp: find_double_def find_Some_iff) (metis le_add_diff_inverse nat_add_left_cancel_less)

function single_slashes :: "nat \<Rightarrow> string \<Rightarrow> string" where
  "single_slashes pos s =
     (case find_double pos s of
        None \<Rightarrow> s
      | Some i \<Rightarrow> single_slashes (i + 1) (take i s @ [slash] @ drop (i + 2) s))"
  by pat_completeness auto
termination by (relation "measure (\<lambda>(pos, s). length s)") (auto dest: find_double_Some)

declare single_slashes.simps [simp del]

text \<open>The first loop of the search: up to a path that exists or is in the cache.\<close>

partial_function (option) go_up ::
    "HostFS \<Rightarrow> (string \<Rightarrow> string option) \<Rightarrow> string \<Rightarrow> string list \<Rightarrow> (string \<times> string list) option" where
  "go_up fs cache current_path path_parts =
     (if current_path = [] \<or> fs_exists fs current_path then Some (current_path, path_parts)
      else case cache current_path of
        Some p \<Rightarrow> Some (p, path_parts)
      | None \<Rightarrow> go_up fs cache (parent_path current_path) (path_parts @ [path_filename current_path]))"

declare go_up.simps [code]

text \<open>
  The second loop: down again, with the case of the host.  The parts are given in the order in which
  the loop takes them, the last one first.
\<close>

fun go_down ::
    "HostFS \<Rightarrow> string \<Rightarrow> string \<Rightarrow> string list \<Rightarrow> (string \<Rightarrow> string option) \<Rightarrow>
     (string option \<times> (string \<Rightarrow> string option)) option" where
  "go_down fs current_path guest_path [] cache = Some (Some current_path, cache)"
| "go_down fs current_path guest_path (part # path_parts) cache =
     (if fs_exists fs (append_path current_path part) then
        let current_path = append_path current_path part; guest_path = append_path guest_path part in
        go_down fs current_path guest_path path_parts (cache(guest_path \<mapsto> current_path))
      else do {
        entries \<leftarrow> fs_dir fs current_path;
        case find (\<lambda>candidate. ToLower candidate = ToLower part) entries of
          None \<Rightarrow> Some (None, cache)
        | Some candidate \<Rightarrow>
            let current_path = append_path current_path candidate; guest_path = append_path guest_path part in
            go_down fs current_path guest_path path_parts (cache(guest_path \<mapsto> current_path))
      })"

definition search_path ::
    "HostFS \<Rightarrow> string \<Rightarrow> (string \<Rightarrow> string option) \<Rightarrow> (string option \<times> (string \<Rightarrow> string option)) option" where
  "search_path fs p cache =
     do {
       (current_path, path_parts) \<leftarrow> go_up fs cache p [];
       if current_path \<noteq> [] then go_down fs current_path current_path (rev path_parts) cache
       else Some (Some current_path, cache)
     }"

definition in_app :: "string \<Rightarrow> bool" where
  "in_app p \<longleftrightarrow> starts_with p ''/app0'' \<or> starts_with p ''/hostapp''"

text \<open>
  \<^verbatim>\<open>GetHostPath\<close>; \<open>case_search\<close> is \<^verbatim>\<open>NeedsCaseInsensitiveSearch\<close>.  The second result is what it stores in
  \<^verbatim>\<open>*is_read_only\<close>, if it stores anything.
\<close>

definition GetHostPath ::
    "bool \<Rightarrow> bool \<Rightarrow> HostFS \<Rightarrow> string \<Rightarrow> HostPathType \<Rightarrow> MntPoints \<Rightarrow> (string \<times> bool option \<times> MntPoints) option" where
  "GetHostPath case_search ignore_game_patches fs path path_type m =
     (let corrected_path = single_slashes 0 path in
      if length path > 255 then Some ([], None, m)
      else case GetMount corrected_path m of
        None \<Rightarrow> Some ([], None, m)
      | Some mnt \<Rightarrow>
          let ro = Some (read_only mnt);
              host = host_path mnt;
              patch = host @ ''-UPDATE'';
              patch = (if \<not> fs_exists fs patch then host @ ''-patch'' else patch);
              mods = host @ ''-mods''
          in if RemoveTrailingSlashes corrected_path = mount mnt then
               Some (case path_type of Path_Mod \<Rightarrow> mods | Path_Patch \<Rightarrow> patch | _ \<Rightarrow> host, ro, m)
             else
               let rel_path = drop (length (mount mnt) + 1) corrected_path;
                   host = append_path host rel_path;
                   patch = append_path patch rel_path;
                   mods = append_path mods rel_path
               in if path_type = Path_Mod then Some (mods, ro, m)
                  else if path_type = Path_Patch then Some (patch, ro, m)
                  else if in_app corrected_path \<and> path_type \<noteq> Path_Base \<and> fs_exists fs mods then Some (mods, ro, m)
                  else if in_app corrected_path \<and> path_type \<noteq> Path_Base \<and> \<not> ignore_game_patches \<and> fs_exists fs patch
                  then Some (patch, ro, m)
                  else if \<not> case_search then Some (host, ro, m)
                  else do {
                    (r, cache) \<leftarrow> (if in_app corrected_path \<and> path_type \<noteq> Path_Base
                                  then search_path fs mods (path_cache m) else Some (None, path_cache m));
                    case r of Some p \<Rightarrow> Some (p, ro, m\<lparr>path_cache := cache\<rparr>)
                    | None \<Rightarrow> do {
                        (r, cache) \<leftarrow> (if path_type \<noteq> Path_Base \<and> \<not> ignore_game_patches
                                      then search_path fs patch cache else Some (None, cache));
                        case r of Some p \<Rightarrow> Some (p, ro, m\<lparr>path_cache := cache\<rparr>)
                        | None \<Rightarrow> do {
                            (r, cache) \<leftarrow> search_path fs host cache;
                            case r of Some p \<Rightarrow> Some (p, ro, m\<lparr>path_cache := cache\<rparr>)
                            | None \<Rightarrow> Some (host, ro, m\<lparr>path_cache := cache\<rparr>)
                          }
                      }
                  })"

text \<open>
  The entries \<^verbatim>\<open>IterateDirectory\<close> reports: \<open>.\<close> and \<open>..\<close>, the files of the mounted folder with those of
  mods and patches in place of theirs, and the files that only a patch or a mod has.  \<open>is_dir\<close> asks
  the host; the flag of an entry says whether it is a file.
\<close>

definition override_entries ::
    "HostFS \<Rightarrow> (string \<Rightarrow> bool) \<Rightarrow> string \<Rightarrow> string list \<Rightarrow> string \<Rightarrow> (string \<times> bool) list" where
  "override_entries fs is_dir base overs entry =
     (case find (\<lambda>o'. fs_exists fs (append_path o' entry)) overs of
        Some o' \<Rightarrow> [(append_path o' entry, \<not> is_dir (append_path o' entry))]
      | None \<Rightarrow> [(append_path base entry, \<not> is_dir (append_path base entry))])"

definition IterateDirectory ::
    "bool \<Rightarrow> bool \<Rightarrow> HostFS \<Rightarrow> (string \<Rightarrow> bool) \<Rightarrow> string \<Rightarrow> MntPoints \<Rightarrow> ((string \<times> bool) list \<times> MntPoints) option" where
  "IterateDirectory case_search ignore_game_patches fs is_dir guest_directory m =
     do {
       (base, _, m) \<leftarrow> GetHostPath case_search ignore_game_patches fs guest_directory Path_Base m;
       (patch, _, m) \<leftarrow> GetHostPath case_search ignore_game_patches fs guest_directory Path_Patch m;
       (mod', _, m) \<leftarrow> GetHostPath case_search ignore_game_patches fs guest_directory Path_Mod m;
       pass1 \<leftarrow> (if fs_exists fs base then fs_dir fs base else Some []);
       pass2 \<leftarrow> (if fs_exists fs patch then fs_dir fs patch else Some []);
       pass3 \<leftarrow> (if fs_exists fs mod' then fs_dir fs mod' else Some []);
       Some ([(append_path base ''.'', False), (append_path base ''..'', False)] @
             concat (map (override_entries fs is_dir base [mod', patch]) pass1) @
             concat (map (override_entries fs is_dir patch [mod'])
               (filter (\<lambda>e. \<not> fs_exists fs (append_path base e)) pass2)) @
             map (\<lambda>e. (append_path mod' e, \<not> is_dir (append_path mod' e)))
               (filter (\<lambda>e. \<not> fs_exists fs (append_path base e) \<and> \<not> fs_exists fs (append_path patch e)) pass3), m)
     }"

subsection \<open>Paths in lower case\<close>

lemma lower_slash: "lower_char c = slash \<longleftrightarrow> c = slash"
proof -
  have "lower_char c \<noteq> slash" if c: "65 \<le> (of_char c :: nat)" "(of_char c :: nat) \<le> 90"
  proof
    assume "lower_char c = slash"
    then have "char_of ((of_char c :: nat) + 32) = slash" using c by (simp add: lower_char_def)
    then have "of_char (char_of ((of_char c :: nat) + 32)) = (47 :: nat)" by simp
    then show False using c by simp
  qed
  moreover have "(of_char slash :: nat) = 47" by simp
  ultimately show ?thesis by (auto simp: lower_char_def)
qed

lemma ToLower_simps [simp]:
  "ToLower [] = []" "ToLower (c # s) = lower_char c # ToLower s" "ToLower (s @ t) = ToLower s @ ToLower t"
  "ToLower s = [] \<longleftrightarrow> s = []" "length (ToLower s) = length s"
  by (simp_all add: ToLower_def)

lemma lower_slash_slash [simp]: "lower_char slash = slash"
  by (simp add: lower_slash)

lemma ToLower_append_path: "ToLower (append_path p q) = append_path (ToLower p) (ToLower q)"
proof -
  have "hd (ToLower q) = slash \<longleftrightarrow> hd q = slash" if "q \<noteq> []"
    using that by (cases q) (simp_all add: lower_slash)
  moreover have "last (ToLower p) = slash \<longleftrightarrow> last p = slash" if "p \<noteq> []"
    using that by (simp add: ToLower_def last_map lower_slash)
  ultimately show ?thesis by (cases "p = []"; cases "q = []") (simp_all add: append_path_def)
qed

definition rebuild :: "string \<Rightarrow> string list \<Rightarrow> string" where
  "rebuild p parts = foldl append_path p parts"

lemma rebuild_simps [simp]:
  "rebuild p [] = p" "rebuild p (q # parts) = rebuild (append_path p q) parts"
  "rebuild p (parts @ [q]) = append_path (rebuild p parts) q"
  by (simp_all add: rebuild_def)

lemma ToLower_rebuild: "ToLower (rebuild p parts) = rebuild (ToLower p) (map ToLower parts)"
  by (induction parts arbitrary: p) (simp_all add: ToLower_append_path)

lemma rebuild_lower_eq:
  "ToLower p = ToLower q \<Longrightarrow> ToLower (rebuild p parts) = ToLower (rebuild q parts)"
  by (simp add: ToLower_rebuild)

subsection \<open>Taking a path apart\<close>

text \<open>Paths without two slashes in a row.\<close>

definition single :: "string \<Rightarrow> bool" where
  "single p \<longleftrightarrow> (\<forall>i. i + 1 < length p \<longrightarrow> \<not> (p ! i = slash \<and> p ! (i + 1) = slash))"

lemma single_append: "single (p @ q) \<Longrightarrow> single p \<and> single q"
proof -
  assume s: "single (p @ q)"
  have "\<not> (q ! i = slash \<and> q ! (i + 1) = slash)" if "i + 1 < length q" for i
    using s [unfolded single_def, rule_format, of "length p + i"] that by (simp add: nth_append)
  moreover have "\<not> (p ! i = slash \<and> p ! (i + 1) = slash)" if "i + 1 < length p" for i
    using s [unfolded single_def, rule_format, of i] that by (simp add: nth_append)
  ultimately show ?thesis by (simp add: single_def)
qed

lemma filename_split:
  obtains d where "p = d @ path_filename p" "d = [] \<or> last d = slash" "slash \<notin> set (path_filename p)"
    "dropWhile (\<lambda>c. c \<noteq> slash) (rev p) = rev d"
proof -
  define d where "d = rev (dropWhile (\<lambda>c. c \<noteq> slash) (rev p))"
  have "rev p = takeWhile (\<lambda>c. c \<noteq> slash) (rev p) @ dropWhile (\<lambda>c. c \<noteq> slash) (rev p)" by simp
  then have "p = d @ path_filename p" unfolding d_def path_filename_def by (metis rev_append rev_rev_ident)
  moreover have "d = [] \<or> last d = slash"
    using hd_dropWhile [of "\<lambda>c. c \<noteq> slash" "rev p"] by (auto simp: d_def last_rev)
  moreover have "slash \<notin> set (path_filename p)" by (auto simp: path_filename_def dest: set_takeWhileD)
  ultimately show ?thesis using that by (simp add: d_def)
qed

lemma parent_filename:
  assumes s: "single p" and p: "p \<noteq> []" "p \<noteq> [slash]"
  shows "append_path (parent_path p) (path_filename p) = p \<and> single (parent_path p) \<and>
    length (parent_path p) < length p \<and> (hd p = slash \<longrightarrow> parent_path p \<noteq> [] \<and> hd (parent_path p) = slash)"
proof -
  obtain d where d: "p = d @ path_filename p" "d = [] \<or> last d = slash" "slash \<notin> set (path_filename p)"
    "dropWhile (\<lambda>c. c \<noteq> slash) (rev p) = rev d" by (rule filename_split)
  let ?f = "path_filename p"
  have f: "\<not> (?f \<noteq> [] \<and> hd ?f = slash)" using d(3) by (metis hd_in_set)
  show ?thesis
  proof (cases "d = []")
    case True
    then have "parent_path p = []" unfolding parent_path_def d(4) by simp
    moreover have "hd p \<noteq> slash" using True d(1) f p(1) by auto
    ultimately show ?thesis using True d(1) f p(1) by (auto simp: append_path_def single_def)
  next
    case False
    then obtain q where q: "d = q @ [slash]" using d(2) by (metis append_butlast_last_id)
    show ?thesis
    proof (cases "q = []")
      case True
      then have pp: "parent_path p = [slash]" "d = [slash]" using d(4) q by (simp_all add: parent_path_def)
      define g where "g = path_filename p"
      have g: "p = slash # g" using d(1) pp(2) unfolding g_def by simp
      have "g \<noteq> []" using p(2) g by blast
      moreover have "\<not> (g \<noteq> [] \<and> hd g = slash)" using f unfolding g_def .
      ultimately have "append_path [slash] g = p" "1 < length p" unfolding append_path_def g by auto
      moreover have "hd p = slash" "single [slash]" by (simp_all add: g single_def)
      ultimately show ?thesis unfolding pp(1) g_def [symmetric] by simp
    next
      case False
      have l: "last q \<noteq> slash"
      proof
        assume "last q = slash"
        then obtain r where r: "q = r @ [slash]" using False by (metis append_butlast_last_id)
        define g where "g = path_filename p"
        have p1: "p = r @ slash # slash # g" using d(1) unfolding q r g_def by simp
        have "length r + 1 < length p" by (simp add: p1)
        then have "\<not> (p ! length r = slash \<and> p ! (length r + 1) = slash)"
          using s unfolding single_def by blast
        then show False unfolding p1 by (simp add: nth_append)
      qed
      have "dropWhile (\<lambda>c. c = slash) (rev q) = rev q" using l False by (simp add: dropWhile_eq_self_iff hd_rev)
      then have pp: "parent_path p = q" using False unfolding parent_path_def d(4) q by (simp del: dropWhile_eq_Nil_conv)
      have sq: "single q" using single_append [of q "[slash] @ path_filename p"] s d(1) q by (metis append_assoc)
      define g where "g = path_filename p"
      have p1: "p = q @ slash # g" using d(1) unfolding q g_def by simp
      have "\<not> (g \<noteq> [] \<and> hd g = slash)" using f unfolding g_def .
      then have "append_path q g = p" using l False unfolding append_path_def p1 by simp
      moreover have "length q < length p" "hd p = hd q" using False unfolding p1 by simp_all
      ultimately show ?thesis using sq False unfolding pp g_def [symmetric] by simp
    qed
  qed
qed

subsection \<open>The search changes the case of letters only\<close>

text \<open>
  What the search may rely on while the host's files stay as they are: the listed names exist, and
  the cache tells existing paths that differ from the asked ones in case only.
\<close>

definition listing_ok :: "HostFS \<Rightarrow> bool" where
  "listing_ok fs \<longleftrightarrow> fs_exists fs [slash] \<and>
     (\<forall>d es e. fs_dir fs d = Some es \<longrightarrow> e \<in> set es \<longrightarrow> fs_exists fs (append_path d e))"

definition cache_ok :: "HostFS \<Rightarrow> (string \<Rightarrow> string option) \<Rightarrow> bool" where
  "cache_ok fs cache \<longleftrightarrow> (\<forall>p q. cache p = Some q \<longrightarrow> ToLower q = ToLower p \<and> fs_exists fs q)"

lemma cache_ok_upd: "cache_ok fs cache \<Longrightarrow> ToLower q = ToLower p \<Longrightarrow> fs_exists fs q \<Longrightarrow> cache_ok fs (cache(p \<mapsto> q))"
  by (simp add: cache_ok_def)

lemma rebuild_starts:
  "\<forall>part\<in>set parts. slash \<notin> set part \<Longrightarrow> \<exists>r. rebuild p parts = p @ r"
proof (induction parts arbitrary: p)
  case (Cons part parts)
  have "\<not> (part \<noteq> [] \<and> hd part = slash)" using Cons.prems by (auto dest: hd_in_set)
  then have "append_path p part = p @ part \<or> append_path p part = p @ [slash] @ part" by (auto simp: append_path_def)
  then obtain r where "append_path p part = p @ r" by blast
  with Cons show ?case by (metis append.assoc list.set_intros(2) rebuild_simps(2))
qed simp

lemma starts_with_append [simp]: "starts_with (p @ r) p"
  by (simp add: starts_with_def)

lemma go_up_spec:
  assumes c: "cache_ok fs cache" and root: "fs_exists fs [slash]"
  shows "single p \<Longrightarrow> \<exists>q ps. go_up fs cache p parts = Some (q, parts @ ps) \<and>
    ToLower (rebuild q (rev ps)) = ToLower p \<and> (q \<noteq> [] \<longrightarrow> fs_exists fs q) \<and>
    (q = [] \<longrightarrow> ps = [] \<or> hd p \<noteq> slash) \<and> (\<forall>part\<in>set ps. slash \<notin> set part)"
proof (induction "length p" arbitrary: p parts rule: less_induct)
  case less
  show ?case
  proof (cases "p = [] \<or> fs_exists fs p")
    case True
    then have "go_up fs cache p parts = Some (p, parts @ [])" by (subst go_up.simps) simp
    with True show ?thesis by (intro exI [of _ p] exI [of _ "[]"]) auto
  next
    case False
    show ?thesis
    proof (cases "cache p")
      case (Some q)
      then have "go_up fs cache p parts = Some (q, parts @ [])" using False by (subst go_up.simps) simp
      moreover have "ToLower q = ToLower p" "fs_exists fs q" using c Some by (simp_all add: cache_ok_def)
      ultimately show ?thesis by (intro exI [of _ q] exI [of _ "[]"]) auto
    next
      case None
      have "p \<noteq> [slash]" using False root by auto
      then have pf: "append_path (parent_path p) (path_filename p) = p" "single (parent_path p)"
        "length (parent_path p) < length p" "hd p = slash \<Longrightarrow> parent_path p \<noteq> [] \<and> hd (parent_path p) = slash"
        using parent_filename [OF less.prems] False by auto
      obtain q ps where q: "go_up fs cache (parent_path p) (parts @ [path_filename p]) = Some (q, (parts @ [path_filename p]) @ ps)"
        "ToLower (rebuild q (rev ps)) = ToLower (parent_path p)" "q \<noteq> [] \<longrightarrow> fs_exists fs q"
        "q = [] \<longrightarrow> ps = [] \<or> hd (parent_path p) \<noteq> slash" "\<forall>part\<in>set ps. slash \<notin> set part"
        using less.hyps [OF pf(3,2), of "parts @ [path_filename p]"] by blast
      have g: "go_up fs cache p parts = Some (q, parts @ path_filename p # ps)"
        using False None q(1) by (subst go_up.simps) simp
      have "ToLower (rebuild q (rev (path_filename p # ps))) = append_path (ToLower (parent_path p)) (ToLower (path_filename p))"
        using q(2) by (simp add: ToLower_append_path)
      also have "\<dots> = ToLower p" by (simp only: ToLower_append_path [symmetric] pf(1))
      finally have l: "ToLower (rebuild q (rev (path_filename p # ps))) = ToLower p" .
      have "hd p \<noteq> slash" if "q = []"
      proof
        assume h: "hd p = slash"
        then have "ps = []" using q(4) pf(4) that by blast
        then have "ToLower (parent_path p) = []" using q(2) that by simp
        with pf(4) [OF h] show False by simp
      qed
      moreover have "slash \<notin> set (path_filename p)" by (auto simp: path_filename_def dest: set_takeWhileD)
      ultimately show ?thesis using g l q(3,5) by (intro exI [of _ q] exI [of _ "path_filename p # ps"]) auto
    qed
  qed
qed

lemma go_down_spec:
  assumes "cache_ok fs cache" "listing_ok fs" "ToLower current_path = ToLower guest_path" "fs_exists fs current_path"
    "\<forall>part\<in>set parts. slash \<notin> set part"
  shows "case go_down fs current_path guest_path parts cache of
      None \<Rightarrow> \<exists>d. fs_dir fs d = None \<and> starts_with (ToLower (rebuild guest_path parts)) (ToLower d)
    | Some (r, cache') \<Rightarrow> cache_ok fs cache' \<and>
        (\<forall>q. r = Some q \<longrightarrow> ToLower q = ToLower (rebuild guest_path parts) \<and> fs_exists fs q)"
  using assms
proof (induction parts arbitrary: current_path guest_path cache)
  case (Cons part parts)
  have step: "case go_down fs (append_path current_path c) (append_path guest_path part) parts
        (cache(append_path guest_path part \<mapsto> append_path current_path c)) of
      None \<Rightarrow> \<exists>d. fs_dir fs d = None \<and> starts_with (ToLower (rebuild guest_path (part # parts))) (ToLower d)
    | Some (r, cache') \<Rightarrow> cache_ok fs cache' \<and>
        (\<forall>q. r = Some q \<longrightarrow> ToLower q = ToLower (rebuild guest_path (part # parts)) \<and> fs_exists fs q)"
    if c: "ToLower c = ToLower part" "fs_exists fs (append_path current_path c)" for c
  proof -
    have l: "ToLower (append_path current_path c) = ToLower (append_path guest_path part)"
      using c(1) Cons.prems(3) by (simp add: ToLower_append_path)
    then have "cache_ok fs (cache(append_path guest_path part \<mapsto> append_path current_path c))"
      using Cons.prems(1) c(2) by (intro cache_ok_upd)
    note ih = Cons.IH [OF this Cons.prems(2) l c(2)]
    show ?thesis unfolding rebuild_simps(2) by (rule ih) (use Cons.prems(5) in simp)
  qed
  show ?case
  proof (cases "fs_exists fs (append_path current_path part)")
    case True
    then show ?thesis using step [of part] by (simp add: Let_def)
  next
    case False
    show ?thesis
    proof (cases "fs_dir fs current_path")
      case None
      obtain r where "rebuild guest_path (part # parts) = guest_path @ r"
        using rebuild_starts [of "part # parts" guest_path] Cons.prems(5) by blast
      then have "starts_with (ToLower (rebuild guest_path (part # parts))) (ToLower current_path)"
        using Cons.prems(3) by simp
      with None False show ?thesis by auto
    next
      case (Some entries)
      show ?thesis
      proof (cases "find (\<lambda>candidate. ToLower candidate = ToLower part) entries")
        case None
        then show ?thesis using False Some Cons.prems(1) by simp
      next
        case f: (Some c)
        then have "ToLower c = ToLower part" "c \<in> set entries" by (auto simp: find_Some_iff)
        moreover from this(2) have "fs_exists fs (append_path current_path c)"
          using Cons.prems(2) Some by (auto simp: listing_ok_def)
        ultimately show ?thesis using step [of c] False Some f by (simp add: Let_def)
      qed
    qed
  qed
qed simp

lemma search_path_spec:
  assumes c: "cache_ok fs cache" and fs: "listing_ok fs" and p: "single p" "p \<noteq> []" "hd p = slash"
  shows "case search_path fs p cache of
      None \<Rightarrow> \<exists>d. fs_dir fs d = None \<and> starts_with (ToLower p) (ToLower d)
    | Some (r, cache') \<Rightarrow> cache_ok fs cache' \<and> (\<forall>q. r = Some q \<longrightarrow> ToLower q = ToLower p \<and> fs_exists fs q)"
proof -
  have root: "fs_exists fs [slash]" using fs by (simp add: listing_ok_def)
  obtain q ps where q: "go_up fs cache p [] = Some (q, ps)" "ToLower (rebuild q (rev ps)) = ToLower p"
    "q \<noteq> [] \<longrightarrow> fs_exists fs q" "q = [] \<longrightarrow> ps = [] \<or> hd p \<noteq> slash" "\<forall>part\<in>set ps. slash \<notin> set part"
    using go_up_spec [OF c root p(1), of "[]"] by auto
  have ne: "q \<noteq> []"
  proof
    assume e: "q = []"
    then have "ToLower p = []" using q(2,4) p(3) by auto
    then show False using p(2) by simp
  qed
  then have "search_path fs p cache = go_down fs q q (rev ps) cache" by (simp add: search_path_def q(1))
  then show ?thesis
    using go_down_spec [OF c fs refl, of q "rev ps"] q ne by (simp split: option.splits prod.splits)
qed

subsection \<open>Slashes\<close>

definition double_at :: "string \<Rightarrow> nat \<Rightarrow> bool" where
  "double_at s j \<longleftrightarrow> j + 1 < length s \<and> s ! j = slash \<and> s ! (j + 1) = slash"

definition no_triple :: "string \<Rightarrow> bool" where
  "no_triple s \<longleftrightarrow> (\<forall>j. \<not> (double_at s j \<and> double_at s (j + 1)))"

lemma single_double: "single s \<longleftrightarrow> (\<forall>j. \<not> double_at s j)"
  by (auto simp: single_def double_at_def)

lemma find_double_None: "find_double pos s = None \<longleftrightarrow> (\<forall>j\<ge>pos. \<not> double_at s j)"
  by (auto simp: find_double_def find_None_iff double_at_def)

lemma single_slashes_single:
  "no_triple s \<Longrightarrow> \<forall>j<pos. \<not> double_at s j \<Longrightarrow> single (single_slashes pos s)"
proof (induction pos s rule: single_slashes.induct)
  case (1 pos s)
  show ?case
  proof (cases "find_double pos s")
    case None
    then have "single s" using 1(3) by (auto simp: find_double_None single_double not_less [symmetric])
    then show ?thesis using None by (subst single_slashes.simps) simp
  next
    case (Some i)
    note i = find_double_Some [OF Some]
    let ?s = "take i s @ [slash] @ drop (i + 2) s"
    have at: "?s ! j = (if j \<le> i then s ! j else s ! (j + 1))" if "j + 1 < length s" for j
      using that i by (auto simp: nth_append nth_Cons')
    have "i + 1 < length s" using i by blast
    then have len: "length ?s = length s - 1" by simp
    have next_i: "\<not> double_at s (i + 1)"
      using 1(2) i by (auto simp: no_triple_def double_at_def)
    have d: "double_at ?s j \<longleftrightarrow> (if j < i then double_at s j else if j = i then False else double_at s (j + 1))" for j
    proof (cases "j + 2 < length s")
      case True
      then show ?thesis
        using i next_i at [of j] at [of "j + 1"] len by (auto simp: double_at_def)
    next
      case False
      then show ?thesis using i len by (auto simp: double_at_def)
    qed
    have "no_triple ?s" unfolding no_triple_def
    proof (intro allI notI)
      fix j assume "double_at ?s j \<and> double_at ?s (j + 1)"
      then have "(double_at s j \<and> double_at s (j + 1)) \<or> (double_at s (j + 1) \<and> double_at s (j + 1 + 1))"
        unfolding d by (auto split: if_splits)
      then show False using 1(2) by (auto simp: no_triple_def)
    qed
    moreover have "\<not> double_at ?s j" if "j < i + 1" for j
      unfolding d using 1(3) i that by (cases "j < pos") (auto simp: double_at_def)
    ultimately have "single (single_slashes (i + 1) ?s)" by (intro 1(1) [OF Some]) blast+
    then show ?thesis using Some by (subst single_slashes.simps) simp
  qed
qed

lemma single_slash_head: "single (slash # q) \<Longrightarrow> single q \<and> \<not> (q \<noteq> [] \<and> hd q = slash)"
  using single_append [of "[slash]" q] by (cases q) (auto simp: single_def)

lemma single_join:
  assumes "single p" "single q" "p = [] \<or> last p \<noteq> slash \<or> q = [] \<or> hd q \<noteq> slash"
  shows "single (p @ q)"
proof -
  have "\<not> double_at (p @ q) j" for j
  proof (cases "j + 1 < length p")
    case True
    then show ?thesis using assms(1) by (simp add: single_double double_at_def nth_append)
  next
    case False
    show ?thesis
    proof (cases "j < length p")
      case True
      with False have "j = length p - 1" "p \<noteq> []" by auto
      then show ?thesis using assms(3) True by (auto simp: double_at_def nth_append last_conv_nth hd_conv_nth)
    next
      case False
      then have "double_at (p @ q) j \<longleftrightarrow> double_at q (j - length p)" by (auto simp: double_at_def nth_append Suc_diff_le)
      then show ?thesis using assms(2) by (simp add: single_double)
    qed
  qed
  then show ?thesis by (simp add: single_double)
qed

subsection \<open>The paths of the host\<close>

text \<open>What the emulator mounts: absolute folders.\<close>

definition mounts_ok :: "MntPoints \<Rightarrow> bool" where
  "mounts_ok m \<longleftrightarrow> (\<forall>mnt\<in>set (m_mnt_pairs m). single (host_path mnt) \<and> host_path mnt \<noteq> [] \<and>
     hd (host_path mnt) = slash \<and> last (host_path mnt) \<noteq> slash \<and> RemoveTrailingSlashes (mount mnt) = mount mnt)"

lemma GetMount_split:
  assumes "GetMount p m = Some mnt"
  shows "mnt \<in> set (m_mnt_pairs m) \<and> (p = mount mnt \<or> p = mount mnt @ [slash] @ drop (length (mount mnt) + 1) p)"
proof -
  have f: "mnt \<in> set (m_mnt_pairs m)" "p = mount mnt \<or> starts_with p (mount mnt @ [slash])"
    using assms by (auto simp: GetMount_def find_Some_iff)
  have "p = mount mnt @ [slash] @ drop (length (mount mnt) + 1) p" if "starts_with p (mount mnt @ [slash])"
  proof -
    have "take (length (mount mnt) + 1) p = mount mnt @ [slash]" using that by (simp add: starts_with_def)
    then show ?thesis by (metis append_take_drop_id append_assoc)
  qed
  with f show ?thesis by blast
qed

text \<open>A candidate for a path under a mounted folder.\<close>

lemma candidate_path:
  assumes h: "single h" "h \<noteq> []" "hd h = slash" "last h \<noteq> slash" and r: "single rel" "\<not> (rel \<noteq> [] \<and> hd rel = slash)"
    and x: "slash \<notin> set sfx"
  shows "append_path (h @ sfx) rel = h @ sfx @ [slash] @ rel \<and> single (h @ sfx @ [slash] @ rel) \<and>
    h @ sfx @ [slash] @ rel \<noteq> [] \<and> hd (h @ sfx @ [slash] @ rel) = slash"
proof -
  have l: "last (h @ sfx) \<noteq> slash" using h(2,4) x by (cases "sfx = []") (auto dest: last_in_set)
  have s1: "single sfx" using x by (auto simp: single_def dest: nth_mem)
  have "single (h @ sfx)" by (rule single_join [OF h(1) s1]) (use h in blast)
  moreover have "single ([slash] @ rel)" by (rule single_join [OF _ r(1)]) (use r(2) in \<open>auto simp: single_def\<close>)
  ultimately have "single ((h @ sfx) @ [slash] @ rel)" by (rule single_join) (use l in simp)
  then show ?thesis using h l r(2) by (auto simp: append_path_def)
qed

text \<open>
  What a path of the game may become: nothing, the folder of its mount point, of the patch or the mods
  over it, or the rest of the path in one of them, but for the case of letters where the search found it.
\<close>

definition path_of_mount :: "MntPoints \<Rightarrow> string \<Rightarrow> string \<Rightarrow> bool" where
  "path_of_mount m corrected r \<longleftrightarrow>
     (\<exists>mnt\<in>set (m_mnt_pairs m). \<exists>sfx\<in>{[], ''-UPDATE'', ''-patch'', ''-mods''}.
        (corrected = mount mnt \<or> corrected = mount mnt @ [slash] @ drop (length (mount mnt) + 1) corrected) \<and>
        ToLower r = ToLower (host_path mnt @ sfx @
          (if RemoveTrailingSlashes corrected = mount mnt then [] else [slash] @ drop (length (mount mnt) + 1) corrected)))"

lemma suffix_slash: "sfx \<in> {[], ''-UPDATE'', ''-patch'', ''-mods''} \<Longrightarrow> slash \<notin> set sfx"
  by auto

definition confined ::
    "HostFS \<Rightarrow> MntPoints \<Rightarrow> string \<Rightarrow> (string \<times> bool option \<times> MntPoints) option \<Rightarrow> bool" where
  "confined fs m corrected x \<longleftrightarrow>
     (case x of
        None \<Rightarrow> \<exists>d t. fs_dir fs d = None \<and> path_of_mount m corrected t \<and> starts_with (ToLower t) (ToLower d)
      | Some (r, ro, m') \<Rightarrow> m_mnt_pairs m' = m_mnt_pairs m \<and> cache_ok fs (path_cache m') \<and>
          (r = [] \<or> path_of_mount m corrected r))"

lemma confined_now:
  "path_of_mount m corrected t \<Longrightarrow> cache_ok fs cache \<Longrightarrow> confined fs m corrected (Some (t, ro, m\<lparr>path_cache := cache\<rparr>))"
  by (simp add: confined_def)

lemma confined_search:
  assumes t: "single t" "t \<noteq> []" "hd t = slash" "\<And>r. ToLower r = ToLower t \<Longrightarrow> path_of_mount m corrected r"
    and fs: "listing_ok fs" and c: "cache_ok fs cache" and k: "\<And>c. cache_ok fs c \<Longrightarrow> confined fs m corrected (k c)"
  shows "confined fs m corrected (do { (r, cache') \<leftarrow> (if b then search_path fs t cache else Some (None, cache));
      case r of Some p \<Rightarrow> Some (p, ro, m\<lparr>path_cache := cache'\<rparr>) | None \<Rightarrow> k cache' })"
proof -
  define x where "x = (if b then search_path fs t cache else Some (None, cache))"
  have f: "case x of
      None \<Rightarrow> \<exists>d t. fs_dir fs d = None \<and> path_of_mount m corrected t \<and> starts_with (ToLower t) (ToLower d)
    | Some (r, cache') \<Rightarrow> cache_ok fs cache' \<and> (\<forall>q. r = Some q \<longrightarrow> path_of_mount m corrected q)"
    using search_path_spec [OF c fs t(1-3)] t(4) [OF refl] t(4) c
    by (cases b) (auto simp: x_def split: option.splits prod.splits)
  show ?thesis
  proof (cases x)
    case None
    then show ?thesis using f unfolding x_def [symmetric] by (simp add: confined_def)
  next
    case (Some y)
    obtain r c' where y: "y = (r, c')" by fastforce
    show ?thesis
    proof (cases r)
      case None
      then show ?thesis using f k [of c'] unfolding x_def [symmetric] Some y by simp
    next
      case (Some q)
      then show ?thesis using f confined_now [of m corrected q fs c' ro] unfolding x_def [symmetric] \<open>x = Some y\<close> y by simp
    qed
  qed
qed

lemma mount_candidates:
  assumes m: "mounts_ok m" and sc: "single corrected" and mnt: "GetMount corrected m = Some mnt"
    and nf: "RemoveTrailingSlashes corrected \<noteq> mount mnt" and x: "sfx \<in> {[], ''-UPDATE'', ''-patch'', ''-mods''}"
    and t: "t = append_path (host_path mnt @ sfx) (drop (length (mount mnt) + 1) corrected)"
  shows "single t \<and> t \<noteq> [] \<and> hd t = slash \<and> (\<forall>r. ToLower r = ToLower t \<longrightarrow> path_of_mount m corrected r)"
proof -
  let ?rel = "drop (length (mount mnt) + 1) corrected"
  note split = GetMount_split [OF mnt]
  have hm: "single (host_path mnt)" "host_path mnt \<noteq> []" "hd (host_path mnt) = slash" "last (host_path mnt) \<noteq> slash"
    "RemoveTrailingSlashes (mount mnt) = mount mnt" using m split by (auto simp: mounts_ok_def)
  have cr: "corrected = mount mnt @ [slash] @ ?rel" using split nf hm(5) by auto
  have pre: "corrected = mount mnt \<or> corrected = mount mnt @ [slash] @ ?rel" using split by blast
  have "single ([slash] @ ?rel)" using single_append [of "mount mnt" "[slash] @ ?rel"] sc cr by metis
  then have rel: "single ?rel" "\<not> (?rel \<noteq> [] \<and> hd ?rel = slash)" using single_slash_head [of ?rel] by simp_all
  have c: "t = host_path mnt @ sfx @ [slash] @ ?rel" "single t" "t \<noteq> []" "hd t = slash"
    using candidate_path [OF hm(1-4) rel suffix_slash [OF x]] unfolding t by metis+
  moreover have "path_of_mount m corrected r" if "ToLower r = ToLower t" for r
    using that c(1) split pre nf x unfolding path_of_mount_def by (intro bexI [of _ mnt] bexI [of _ sfx]) auto
  ultimately show ?thesis by blast
qed

lemma GetHostPath_confined:
  assumes fs: "listing_ok fs" and c: "cache_ok fs (path_cache m)" and m: "mounts_ok m" and p: "no_triple path"
  shows "confined fs m (single_slashes 0 path) (GetHostPath case_search ig fs path ty m)"
proof -
  define corrected where "corrected = single_slashes 0 path"
  have sc: "single corrected" using single_slashes_single [OF p, of 0] by (simp add: corrected_def)
  consider "length path > 255 \<or> GetMount corrected m = None"
    | mnt where "\<not> length path > 255" "GetMount corrected m = Some mnt" "RemoveTrailingSlashes corrected = mount mnt"
    | mnt where "\<not> length path > 255" "GetMount corrected m = Some mnt" "RemoveTrailingSlashes corrected \<noteq> mount mnt"
    by (cases "GetMount corrected m") auto
  then have "confined fs m corrected (GetHostPath case_search ig fs path ty m)"
  proof cases
    case 1
    then have "GetHostPath case_search ig fs path ty m = Some ([], None, m)"
      by (auto simp: GetHostPath_def corrected_def [symmetric] Let_def)
    then show ?thesis using c by (simp add: confined_def)
  next
    case (2 mnt)
    define r where "r = (case ty of Path_Mod \<Rightarrow> host_path mnt @ ''-mods''
      | Path_Patch \<Rightarrow> (if \<not> fs_exists fs (host_path mnt @ ''-UPDATE'') then host_path mnt @ ''-patch'' else host_path mnt @ ''-UPDATE'')
      | _ \<Rightarrow> host_path mnt)"
    have g: "GetHostPath case_search ig fs path ty m = Some (r, Some (read_only mnt), m)"
      using 2 by (simp add: GetHostPath_def corrected_def [symmetric] r_def Let_def)
    have "\<exists>sfx\<in>{[], ''-UPDATE'', ''-patch'', ''-mods''}. r = host_path mnt @ sfx" by (auto simp: r_def split: HostPathType.split)
    then obtain sfx where x: "sfx \<in> {[], ''-UPDATE'', ''-patch'', ''-mods''}" "r = host_path mnt @ sfx" by blast
    have "ToLower r = ToLower (host_path mnt @ sfx @
        (if RemoveTrailingSlashes corrected = mount mnt then [] else [slash] @ drop (length (mount mnt) + 1) corrected))"
      unfolding x(2) if_P [OF 2(3)] by simp
    then have "path_of_mount m corrected r"
      using GetMount_split [OF 2(2)] x(1) unfolding path_of_mount_def by blast
    then show ?thesis using g c by (simp add: confined_def)
  next
    case (3 mnt)
    let ?rel = "drop (length (mount mnt) + 1) corrected"
    define mods where "mods = append_path (host_path mnt @ ''-mods'') ?rel"
    define patch where "patch = append_path (if \<not> fs_exists fs (host_path mnt @ ''-UPDATE'') then host_path mnt @ ''-patch'' else host_path mnt @ ''-UPDATE'') ?rel"
    define host where "host = append_path (host_path mnt) ?rel"
    note cand = mount_candidates [OF m sc 3(2,3)]
    have ok: "single t \<and> t \<noteq> [] \<and> hd t = slash \<and> (\<forall>r. ToLower r = ToLower t \<longrightarrow> path_of_mount m corrected r)"
      if "t \<in> {mods, patch, host}" for t
      using that cand [of "''-mods''" t] cand [of "''-patch''" t] cand [of "''-UPDATE''" t] cand [of "[]" t]
      by (auto simp: mods_def patch_def host_def split: if_splits)
    have now: "confined fs m corrected (Some (t, ro, m\<lparr>path_cache := cache\<rparr>))" if "t \<in> {mods, patch, host}" "cache_ok fs cache" for t ro cache
      using confined_now ok [OF that(1)] that(2) by blast
    have search: "confined fs m corrected (do { (r, cache') \<leftarrow> (if b then search_path fs t cache else Some (None, cache));
        case r of Some p \<Rightarrow> Some (p, ro, m\<lparr>path_cache := cache'\<rparr>) | None \<Rightarrow> k cache' })"
      if "t \<in> {mods, patch, host}" "cache_ok fs cache" "\<And>c. cache_ok fs c \<Longrightarrow> confined fs m corrected (k c)" for t cache k b ro
      by (rule confined_search [OF _ _ _ _ fs that(2,3)]) (use ok [OF that(1)] in blast)+
    let ?ro = "Some (read_only mnt)"
    let ?k2 = "\<lambda>cache. do { (r, cache) \<leftarrow> (if True then search_path fs host cache else Some (None, cache));
          case r of Some p \<Rightarrow> Some (p, ?ro, m\<lparr>path_cache := cache\<rparr>) | None \<Rightarrow> Some (host, ?ro, m\<lparr>path_cache := cache\<rparr>) }"
    let ?k1 = "\<lambda>cache. do { (r, cache) \<leftarrow> (if ty \<noteq> Path_Base \<and> \<not> ig then search_path fs patch cache else Some (None, cache));
          case r of Some p \<Rightarrow> Some (p, ?ro, m\<lparr>path_cache := cache\<rparr>) | None \<Rightarrow> ?k2 cache }"
    let ?k0 = "do { (r, cache) \<leftarrow> (if in_app corrected \<and> ty \<noteq> Path_Base then search_path fs mods (path_cache m) else Some (None, path_cache m));
          case r of Some p \<Rightarrow> Some (p, ?ro, m\<lparr>path_cache := cache\<rparr>) | None \<Rightarrow> ?k1 cache }"
    have k2: "confined fs m corrected (?k2 cache)" if "cache_ok fs cache" for cache
      by (rule search [OF _ that]) (simp_all add: now)
    have k1: "confined fs m corrected (?k1 cache)" if "cache_ok fs cache" for cache
      by (rule search [OF _ that k2]) simp_all
    have k0: "confined fs m corrected ?k0"
      by (rule search [OF _ c k1]) simp_all
    have g: "GetHostPath case_search ig fs path ty m =
        (if ty = Path_Mod then Some (mods, ?ro, m) else if ty = Path_Patch then Some (patch, ?ro, m)
         else if in_app corrected \<and> ty \<noteq> Path_Base \<and> fs_exists fs mods then Some (mods, ?ro, m)
         else if in_app corrected \<and> ty \<noteq> Path_Base \<and> \<not> ig \<and> fs_exists fs patch then Some (patch, ?ro, m)
         else if \<not> case_search then Some (host, ?ro, m) else ?k0)"
      using 3
      unfolding GetHostPath_def Let_def corrected_def [symmetric] 3(2) option.case
        mods_def [symmetric] patch_def [symmetric] host_def [symmetric] if_True by simp
    show ?thesis
      unfolding g using k0 now [OF _ c] by simp
  qed
  then show ?thesis unfolding corrected_def .
qed

subsection \<open>Paths without \<open>..\<close>\<close>

text \<open>The names between the slashes of a path.\<close>

fun components :: "string \<Rightarrow> string list" where
  "components [] = [[]]"
| "components (c # s) = (if c = slash then [] # components s else (c # hd (components s)) # tl (components s))"

lemma components_not_Nil [simp]: "components s \<noteq> []"
  by (induction s) auto

lemma components_slash: "components (p @ slash # q) = components p @ components q"
  by (induction p) simp_all

lemma single_slashes_components: "set (components (single_slashes pos s)) \<subseteq> set (components s)"
proof (induction pos s rule: single_slashes.induct)
  case (1 pos s)
  show ?case
  proof (cases "find_double pos s")
    case None
    then show ?thesis by (simp add: single_slashes.simps [of pos s])
  next
    case (Some i)
    then have i: "i + 1 < length s" "s ! i = slash" "s ! (i + 1) = slash" using find_double_Some by blast+
    then have "s = take i s @ slash # slash # drop (i + 2) s"
      by (metis Cons_nth_drop_Suc Suc_eq_plus1 Suc_lessD add_2_eq_Suc' append_take_drop_id)
    then have "components s = components (take i s) @ components ([] @ slash # drop (i + 2) s)"
      by (metis append_Nil components_slash)
    then have "set (components (take i s @ [slash] @ drop (i + 2) s)) \<subseteq> set (components s)"
      using components_slash [of "take i s" "drop (i + 2) s"] by auto
    then show ?thesis using 1 [OF Some] Some by (simp add: single_slashes.simps [of pos s])
  qed
qed

lemma lower_dot: "lower_char c = CHR ''.'' \<longleftrightarrow> c = CHR ''.''"
proof -
  have "lower_char c \<noteq> CHR ''.''" if c: "65 \<le> (of_char c :: nat)" "(of_char c :: nat) \<le> 90"
  proof
    assume "lower_char c = CHR ''.''"
    then have "char_of ((of_char c :: nat) + 32) = CHR ''.''" using c by (simp add: lower_char_def)
    then have "of_char (char_of ((of_char c :: nat) + 32)) = (46 :: nat)" by simp
    then show False using c by simp
  qed
  moreover have "(of_char CHR ''.'' :: nat) = 46" by simp
  ultimately show ?thesis by (auto simp: lower_char_def)
qed

lemma components_lower: "components (ToLower s) = map ToLower (components s)"
  by (induction s) (simp_all add: lower_slash hd_map map_tl)

lemma dot_dot_lower: "''..'' \<in> set (components (ToLower s)) \<longleftrightarrow> ''..'' \<in> set (components s)"
proof -
  have "ToLower w = ''..'' \<longleftrightarrow> w = ''..''" for w
    unfolding ToLower_def by (auto simp: map_eq_Cons_conv lower_dot)
  then show ?thesis unfolding components_lower set_map image_iff by metis
qed

text \<open>In the folder of a mount point, or the patch or mods folder over it, and in no folder above.\<close>

definition inside_mount :: "MntPoints \<Rightarrow> string \<Rightarrow> bool" where
  "inside_mount m r \<longleftrightarrow>
     (\<exists>mnt\<in>set (m_mnt_pairs m). \<exists>sfx\<in>{[], ''-UPDATE'', ''-patch'', ''-mods''}. \<exists>folder rest.
        r = folder @ rest \<and> ToLower folder = ToLower (host_path mnt @ sfx) \<and> (rest = [] \<or> hd rest = slash) \<and>
        ''..'' \<notin> set (components rest))"

lemma path_of_mount_inside:
  assumes p: "path_of_mount m corrected r" and d: "''..'' \<notin> set (components corrected)"
  shows "inside_mount m r"
proof -
  obtain mnt sfx where m: "mnt \<in> set (m_mnt_pairs m)" "sfx \<in> {[], ''-UPDATE'', ''-patch'', ''-mods''}"
    "corrected = mount mnt \<or> corrected = mount mnt @ [slash] @ drop (length (mount mnt) + 1) corrected"
    "ToLower r = ToLower (host_path mnt @ sfx @
       (if RemoveTrailingSlashes corrected = mount mnt then [] else [slash] @ drop (length (mount mnt) + 1) corrected))"
    using p unfolding path_of_mount_def by blast
  define tail where "tail = (if RemoveTrailingSlashes corrected = mount mnt then [] else [slash] @ drop (length (mount mnt) + 1) corrected)"
  have "''..'' \<notin> set (components (drop (length (mount mnt) + 1) corrected))"
  proof (cases "corrected = mount mnt")
    case False
    then have "corrected = mount mnt @ slash # drop (length (mount mnt) + 1) corrected" using m(3) by simp
    then show ?thesis using d components_slash [of "mount mnt" "drop (length (mount mnt) + 1) corrected"] by auto
  qed simp
  then have t: "''..'' \<notin> set (components tail)" "tail = [] \<or> hd tail = slash" by (auto simp: tail_def)
  let ?n = "length (host_path mnt @ sfx)"
  define folder rest where "folder = take ?n r" and "rest = drop ?n r"
  have l: "ToLower r = ToLower (host_path mnt @ sfx) @ ToLower tail" using m(4) unfolding tail_def [symmetric] by simp
  have f: "ToLower folder = ToLower (host_path mnt @ sfx)" "ToLower rest = ToLower tail"
    using l unfolding folder_def rest_def ToLower_def by (simp_all add: take_map [symmetric] drop_map [symmetric])
  have "''..'' \<notin> set (components rest)" using t(1) f(2) dot_dot_lower by metis
  moreover have "rest = [] \<or> hd rest = slash"
    using t(2) f(2) by (cases rest; cases tail) (auto simp: lower_slash)
  moreover have "r = folder @ rest" by (simp add: folder_def rest_def)
  ultimately show ?thesis using m(1,2) f(1) unfolding inside_mount_def by blast
qed

text \<open>
  C4: Where a path of a game leads: when it has no three slashes in a row, the mounted folders are absolute
  and end in no slash, and the cache of paths is right, then in both kinds of search the host path it
  becomes is empty or, but for the case of letters, the rest of the path put behind the folder of a mount
  point that the path begins with, or behind the patch or mods folder over it; when moreover none of the
  path's components is \<open>..\<close>, it is inside that folder (a \<open>..\<close> is kept and may leave it:
  \<open>dot_dot_escapes\<close>).  The mount points and the rightness of the cache are kept.  The translation fails only
  where a path like that passes through something that cannot be listed.
\<close>

theorem host_path_confined:
  assumes "listing_ok fs" "cache_ok fs (path_cache m)" "mounts_ok m" "no_triple path"
  shows "case GetHostPath case_search ig fs path ty m of
      None \<Rightarrow> \<exists>d t. fs_dir fs d = None \<and> path_of_mount m (single_slashes 0 path) t \<and> starts_with (ToLower t) (ToLower d)
    | Some (r, ro, m') \<Rightarrow> m_mnt_pairs m' = m_mnt_pairs m \<and> cache_ok fs (path_cache m') \<and>
        (r = [] \<or> path_of_mount m (single_slashes 0 path) r) \<and>
        (''..'' \<notin> set (components path) \<longrightarrow> r = [] \<or> inside_mount m r)"
proof -
  have "inside_mount m r" if "path_of_mount m (single_slashes 0 path) r" "''..'' \<notin> set (components path)" for r
    by (rule path_of_mount_inside [OF that(1)]) (use single_slashes_components [of 0 path] that(2) in blast)
  then show ?thesis
    using GetHostPath_confined [OF assms, of case_search ig ty] unfolding confined_def
    by (auto split: option.splits)
qed

definition demo_fs :: HostFS where
  "demo_fs = \<lparr>fs_exists = (\<lambda>p. p \<in> {''/'', ''/g'', ''/g/Data''}),
     fs_dir = (\<lambda>d. if d = ''/'' then Some [''g''] else if d = ''/g'' then Some [''Data''] else if d = ''/g/Data'' then Some [] else None)\<rparr>"

definition demo_mounts :: MntPoints where
  "demo_mounts = Mount ''/g'' ''/app0/'' True MntPoints_new"

theorem host_path_confined_witness:
  "\<exists>m'. GetHostPath True False demo_fs ''/app0//data'' Path_Default demo_mounts = Some (''/g/Data'', Some True, m') \<and>
    cache_ok demo_fs (path_cache m') \<and> path_of_mount demo_mounts ''/app0/data'' ''/g/Data'' \<and>
    inside_mount demo_mounts ''/g/Data''"
proof -
  have fs: "listing_ok demo_fs"
    by (auto simp: listing_ok_def demo_fs_def append_path_def split: if_splits)
  have c: "cache_ok demo_fs (path_cache demo_mounts)"
    by (simp add: cache_ok_def demo_mounts_def Mount_def MntPoints_new_def)
  have r: "RemoveTrailingSlashes ''/app0/'' = ''/app0''" "RemoveTrailingSlashes ''/app0'' = ''/app0''" by code_simp+
  have "single ''/g''" by (auto simp: single_def less_Suc_eq)
  then have m: "mounts_ok demo_mounts"
    by (simp add: mounts_ok_def demo_mounts_def Mount_def MntPoints_new_def r)
  have t: "no_triple ''/app0//data''"
    unfolding no_triple_def double_at_def by (auto simp: nth_Cons' split: if_splits)
  have s: "single_slashes 0 ''/app0//data'' = ''/app0/data''" by code_simp
  have "map_option (\<lambda>(r, ro, m). (r, ro)) (GetHostPath True False demo_fs ''/app0//data'' Path_Default demo_mounts) = Some (''/g/Data'', Some True)"
    by code_simp
  then obtain m' where g: "GetHostPath True False demo_fs ''/app0//data'' Path_Default demo_mounts = Some (''/g/Data'', Some True, m')"
    by auto
  have d: "''..'' \<notin> set (components ''/app0//data'')" by simp
  show ?thesis
    using host_path_confined [OF fs c m t, of True False Path_Default] g s d by simp
qed

subsection \<open>Where it goes wrong\<close>

text \<open>Three slashes leave two, and the rest of the path is then absolute and replaces the folder.\<close>

lemma triple_slash_escapes:
  "map_option fst (GetHostPath True False
     \<lparr>fs_exists = (\<lambda>p. p \<in> {''/'', ''/g'', ''/etc/passwd''}), fs_dir = (\<lambda>d. Some [])\<rparr>
     ''/app0///etc/passwd'' Path_Base demo_mounts) = Some ''/etc/passwd''"
  by code_simp

text \<open>A \<open>..\<close> leaves the folder.\<close>

lemma dot_dot_escapes:
  "map_option fst (GetHostPath False False demo_fs ''/app0/../etc/passwd'' Path_Default demo_mounts) = Some ''/g/../etc/passwd''"
  by code_simp

text \<open>A path below a regular file makes the directory iterator throw.\<close>

lemma below_a_file_throws:
  "GetHostPath True False
     \<lparr>fs_exists = (\<lambda>p. p \<in> {''/'', ''/g'', ''/g/a''}), fs_dir = (\<lambda>d. if d = ''/'' \<or> d = ''/g'' then Some [] else None)\<rparr>
     ''/app0/a/b'' Path_Base demo_mounts = None"
  by code_simp

text \<open>A folder is taken for part of a mounted one when its name begins with that folder's name.\<close>

lemma host_mount_by_name:
  "map_option mount (GetMountFromHostPath ''/games/B/file'' (Mount ''/g'' ''/app0'' True MntPoints_new)) = Some ''/app0''"
  by code_simp

subsection \<open>Directories\<close>

definition best_folder :: "HostFS \<Rightarrow> string \<Rightarrow> string \<Rightarrow> string \<Rightarrow> string \<Rightarrow> string" where
  "best_folder fs base patch mods e =
     (if fs_exists fs (append_path mods e) then mods
      else if fs_exists fs (append_path patch e) then patch else base)"

text \<open>
  C28: Reading a directory of the game reports every name that the mounted folder, the patch or the
  mods have, once, with the file of the mods before that of the patch before that of the folder.
\<close>

theorem directory_merged:
  assumes "GetHostPath cs ig fs guest Path_Base m = Some (base, r0, m0)"
    "GetHostPath cs ig fs guest Path_Patch m0 = Some (patch, r1, m1)"
    "GetHostPath cs ig fs guest Path_Mod m1 = Some (mods, r2, m2)"
    and "\<forall>d\<in>{base, patch, mods}. (if fs_exists fs d then fs_dir fs d = Some (ls d) else ls d = []) \<and> distinct (ls d) \<and>
      (\<forall>e\<in>set (ls base) \<union> set (ls patch) \<union> set (ls mods). fs_exists fs (append_path d e) \<longleftrightarrow> e \<in> set (ls d))"
  shows "\<exists>names. IterateDirectory cs ig fs is_dir guest m =
      Some ([(append_path base ''.'', False), (append_path base ''..'', False)] @
        map (\<lambda>e. let p = append_path (best_folder fs base patch mods e) e in (p, \<not> is_dir p)) names, m2) \<and>
      distinct names \<and> set names = set (ls base) \<union> set (ls patch) \<union> set (ls mods)"
proof -
  let ?f = "\<lambda>e. let p = append_path (best_folder fs base patch mods e) e in (p, \<not> is_dir p)"
  let ?p = "filter (\<lambda>e. \<not> fs_exists fs (append_path base e)) (ls patch)"
  let ?m = "filter (\<lambda>e. \<not> fs_exists fs (append_path base e) \<and> \<not> fs_exists fs (append_path patch e)) (ls mods)"
  have ex: "fs_exists fs (append_path d e) \<longleftrightarrow> e \<in> set (ls d)"
    if "d \<in> {base, patch, mods}" "e \<in> set (ls base) \<union> set (ls patch) \<union> set (ls mods)" for d e
    using assms(4) that by blast
  have dir: "(if fs_exists fs d then fs_dir fs d else Some []) = Some (ls d)" if "d \<in> {base, patch, mods}" for d
    using assms(4) that by (auto split: if_splits)
  have one: "concat (map (override_entries fs is_dir base [mods, patch]) (ls base)) = map ?f (ls base)"
    unfolding concat_map_singleton [of ?f, symmetric]
    by (intro arg_cong [of _ _ concat] map_cong refl) (simp add: override_entries_def best_folder_def Let_def)
  have two: "concat (map (override_entries fs is_dir patch [mods]) ?p) = map ?f ?p"
    unfolding concat_map_singleton [of ?f, symmetric]
    by (intro arg_cong [of _ _ concat] map_cong refl) (auto simp: override_entries_def best_folder_def Let_def ex)
  have three: "map (\<lambda>e. (append_path mods e, \<not> is_dir (append_path mods e))) ?m = map ?f ?m"
    by (intro map_cong refl) (auto simp: best_folder_def Let_def ex)
  have "IterateDirectory cs ig fs is_dir guest m =
      Some ([(append_path base ''.'', False), (append_path base ''..'', False)] @ map ?f (ls base @ ?p @ ?m), m2)"
    unfolding IterateDirectory_def assms(1-3) bind.bind_lunit prod.case dir [of base, simplified] dir [of patch, simplified]
      dir [of mods, simplified] one two three by simp
  moreover have "distinct (ls base @ ?p @ ?m)" using assms(4) ex by auto
  moreover have "set (ls base @ ?p @ ?m) = set (ls base) \<union> set (ls patch) \<union> set (ls mods)" using ex by auto
  ultimately show ?thesis by blast
qed

definition merge_fs :: HostFS where
  "merge_fs = \<lparr>fs_exists = (\<lambda>p. p \<in> {''/'', ''/g'', ''/g/a'', ''/g-patch'', ''/g-patch/a'', ''/g-patch/b''}),
     fs_dir = (\<lambda>d. if d = ''/g'' then Some [''a''] else if d = ''/g-patch'' then Some [''b'', ''a''] else None)\<rparr>"

theorem directory_merged_witness:
  "\<exists>names m'. IterateDirectory True False merge_fs (\<lambda>_. False) ''/app0'' demo_mounts =
      Some ([(''/g/.'', False), (''/g/..'', False)] @
        map (\<lambda>e. let p = append_path (best_folder merge_fs ''/g'' ''/g-patch'' ''/g-mods'' e) e in (p, True)) names, m') \<and>
      distinct names \<and> set names = {''a'', ''b''} \<and> best_folder merge_fs ''/g'' ''/g-patch'' ''/g-mods'' ''a'' = ''/g-patch''"
proof -
  let ?ls = "\<lambda>d. if d = ''/g'' then [''a''] else if d = ''/g-patch'' then [''b'', ''a''] else []"
  have s: "single_slashes 0 ''/app0'' = ''/app0''" "RemoveTrailingSlashes ''/app0'' = ''/app0''" "RemoveTrailingSlashes ''/app0/'' = ''/app0''"
    by code_simp+
  have g: "GetHostPath True False merge_fs ''/app0'' ty demo_mounts =
      Some (case ty of Path_Mod \<Rightarrow> ''/g-mods'' | Path_Patch \<Rightarrow> ''/g-patch'' | _ \<Rightarrow> ''/g'', Some True, demo_mounts)" for ty
    by (simp add: GetHostPath_def s GetMount_def demo_mounts_def Mount_def MntPoints_new_def merge_fs_def Let_def split: HostPathType.split)
  have ls: "\<forall>d\<in>{''/g'', ''/g-patch'', ''/g-mods''}. (if fs_exists merge_fs d then fs_dir merge_fs d = Some (?ls d) else ?ls d = []) \<and> distinct (?ls d) \<and>
      (\<forall>e\<in>set (?ls ''/g'') \<union> set (?ls ''/g-patch'') \<union> set (?ls ''/g-mods''). fs_exists merge_fs (append_path d e) \<longleftrightarrow> e \<in> set (?ls d))"
    by (simp add: merge_fs_def append_path_def)
  obtain names where n: "IterateDirectory True False merge_fs (\<lambda>_. False) ''/app0'' demo_mounts =
      Some ([(append_path ''/g'' ''.'', False), (append_path ''/g'' ''..'', False)] @
        map (\<lambda>e. let p = append_path (best_folder merge_fs ''/g'' ''/g-patch'' ''/g-mods'' e) e in (p, \<not> False)) names, demo_mounts)"
    "distinct names" "set names = set (?ls ''/g'') \<union> set (?ls ''/g-patch'') \<union> set (?ls ''/g-mods'')"
    using directory_merged [of True False merge_fs "''/app0''" demo_mounts "''/g''" "Some True" demo_mounts "''/g-patch''" "Some True"
        demo_mounts "''/g-mods''" "Some True" demo_mounts ?ls "\<lambda>_. False"] g ls by auto
  have a: "append_path ''/g'' ''.'' = ''/g/.''" "append_path ''/g'' ''..'' = ''/g/..''"
    "best_folder merge_fs ''/g'' ''/g-patch'' ''/g-mods'' ''a'' = ''/g-patch''" by code_simp+
  have "set names = {''a'', ''b''}" using n(3) by auto
  with n(1,2) a show ?thesis by auto
qed

end
