(* ===== verification/Spec2Isabelle.thy ===== *)
theory Spec2Isabelle
  imports Kernel_Memory Memory_Protection Unmapping_Spec Event_Flag Semaphore Rtc_Roundtrip Lru_Cache Slot_Vector Rwlock Condvar Pthread_Keys Pthread_Once Thread_Race Tracker_Spec Equeue_Timers Event_Waiters Mount_Points
begin

text \<open>
  The emulator core of the runtime, \<^verbatim>\<open>src/runtime/sources/shadps4/src\<close>: a model of its guest
  memory manager, of the system calls on it, of the kernel's threads and synchronisation objects, of
  the real-time clock library, of event queues, of the mounted folders with the table of descriptors and
  of the tracking of guest memory for the GPU, and theorems about them.

  \<^bold>\<open>The program.\<close>  The emulator gives a game the address space of a console.
  \<^verbatim>\<open>core/memory.cpp\<close> keeps two ordered maps of physical memory (direct and flexible) and one of
  virtual areas; areas are split (\<^verbatim>\<open>Carve\<close>) where an operation begins and ends, changed, and joined
  again with equal neighbours (\<^verbatim>\<open>MergeAdjacent\<close>).  \<^verbatim>\<open>core/libraries/kernel/memory.cpp\<close> holds the
  system calls of the game, which check their arguments and call the manager.
  \<^verbatim>\<open>core/libraries/kernel/threads/event_flag.cpp\<close> and \<^verbatim>\<open>semaphore.cpp\<close> hold the synchronisation
  objects, \<^verbatim>\<open>core/libraries/rtc/rtc.cpp\<close> the calendar.  \<^verbatim>\<open>core/libraries/kernel/equeue.cpp\<close> holds
  the queues in which timers, the GPU and the game put events for threads that wait, each queue behind
  a descriptor of the table in \<^verbatim>\<open>core/file_sys/fs.cpp\<close>, which also translates the game's paths.  The GPU keeps copies of guest memory:
  \<^verbatim>\<open>video_core/buffer_cache/memory_tracker.h\<close> knows for every page whether the CPU or the GPU has
  changed it, and \<^verbatim>\<open>video_core/page_manager.cpp\<close> protects the pages whose next access must be heard of.

  \<^bold>\<open>Theories.\<close>
  \<^item> \<open>Prelude\<close>: machine integers, assertions, \<^verbatim>\<open>common/alignment.h\<close>, arithmetic that does not wrap.
  \<^item> \<open>Std_Map\<close>: \<^verbatim>\<open>std::map\<close> as a sorted association list with the iterator operations used.
  \<^item> \<open>Interval_Map\<close>: the locale \<open>area_map\<close>: areas with a base and a size that can be cut and joined;
    laid out without overlap, they are a partial function from addresses to contents, and cutting
    and joining do not change it.
  \<^item> \<open>Phys_Memory\<close>, \<open>Virtual_Memory\<close>: \<^verbatim>\<open>PhysicalMemoryArea\<close> and \<^verbatim>\<open>VirtualMemoryArea\<close> of
    \<^verbatim>\<open>core/memory.h\<close>, \<^verbatim>\<open>Split\<close>, \<^verbatim>\<open>MergeAdjacent\<close>, \<^verbatim>\<open>CarvePhysArea\<close>, \<^verbatim>\<open>CarveVMA\<close>; each interprets
    \<open>area_map\<close>, a virtual area with the physical areas inside it.
  \<^item> \<open>Memory_State\<close>: the record \<open>MemoryManager\<close>, construction, \<^verbatim>\<open>IsValidMapping\<close>, \<^verbatim>\<open>ClampRangeSize\<close>
    and the invariant \<open>mm_inv\<close>.
  \<^item> \<open>Direct_Memory\<close>: \<^verbatim>\<open>Allocate\<close>, \<^verbatim>\<open>PoolExpand\<close> and the queries.
  \<^item> \<open>Memory_Unmap\<close>, \<open>Memory_Mapping\<close>, \<open>Memory_Protect\<close>: every other operation of the manager.
  \<^item> \<open>Memory_Names\<close>, \<open>Memory_Protection\<close>: what naming, protecting and sealing a range do to its
    addresses.  \<open>Range_Update\<close>, \<open>Phys_Update\<close>: changing a range of a map of areas.
  \<^item> \<open>Memory_Links\<close>: the invariant \<open>mem_inv\<close> that ties the virtual areas to the physical ones;
    \<open>Unmapping\<close>, \<open>Unmapping_Spec\<close>: unmapping as an operation on addresses, which keeps it.
  \<^item> \<open>Kernel_Memory\<close>: the system calls.
  \<^item> \<open>Event_Flag\<close>, \<open>Semaphore\<close>: the synchronisation objects; threads interleave between the
    critical sections of the code, as a step relation, those that sleep on the condition variable of a
    flag go on only when they are notified, wake up by chance or their time is over.
  \<^item> \<open>Posix_Error\<close>, \<open>Pthread_Mutex\<close>, \<open>Rwlock\<close>: the mutexes and read-write locks of
    \<^verbatim>\<open>core/libraries/kernel/threads\<close>, with every interleaving of their calls.
  \<^item> \<open>Sleep_Queue\<close>, \<open>Condvar\<close>: the queues of sleeping threads (\<^verbatim>\<open>sleepq.cpp\<close>) as a refinement of a list
    for each channel, and the condition variables on them.
  \<^item> \<open>Pthread_Keys\<close>: thread-specific data and its clean-up.  \<open>Pthread_Once\<close>: one-time initialisation.
  \<^item> \<open>Thread_Attr\<close>: attributes of threads.  \<open>Thread_State\<close>, \<open>Pthread_Calls\<close>: the table of threads with their
    stacks and the calls on threads; \<open>Thread_Life\<close>: these calls interleaved, with the counting of
    references and the lock of a structure that became garbage; \<open>Thread_Race\<close>: two runs that use a
    structure that was given back.
  \<^item> \<open>Bit_Array\<close>: \<^verbatim>\<open>common/bit_array.h\<close> as a set of positions, the plain and the AVX2 build (a flag of
    the definitions); \<open>Word_Bits\<close>: sets of bits in words, shared with \<open>Slot_Vector\<close>.
  \<^item> \<open>Page_Manager\<close>: watching pages and protecting them.  \<open>Region_Manager\<close>: one region of 4 MB.
    \<open>Memory_Tracker\<close>: the table of regions, with the locales \<open>page_walk\<close> and \<open>page_query\<close> for the
    loops over it; \<open>Tracker_Spec\<close>: their interpretations, and the tracker with the page manager as
    a refinement of two sets of pages.
  \<^item> \<open>Event_Queue\<close>: \<^verbatim>\<open>EqueueInternal\<close>, its events as a map from keys; \<open>Event_Delivery\<close>: sequences of
    operations, what is collected and the ticks of timers; \<open>Event_Waiters\<close>: waiting threads and threads
    that trigger, interleaved; \<open>Equeue_Calls\<close>: the system calls with the host's timers and their
    handlers; \<open>Equeue_Timers\<close>: timers over many periods, small timers, and what the timers do not keep.
  \<^item> \<open>Mount_Points\<close>: \<^verbatim>\<open>MntPoints\<close>, the host path of a path of the game and the merged directories;
    \<open>File_Table\<close>: \<^verbatim>\<open>HandleTable\<close>, which interprets \<open>slot_table\<close>.
  \<^item> \<open>Slot_Vector\<close>: the table behind handles, \<^verbatim>\<open>common/slot_vector.h\<close>, with the locale \<open>slot_table\<close>
    of tables that give out handles, which \<open>File_Table\<close> shares.
  \<^item> \<open>Lru_Cache\<close>: \<^verbatim>\<open>common/lru_cache.h\<close> as a refinement of a list in order of use.
  \<^item> \<open>Rtc\<close>, \<open>Rtc_Text\<close>: dates, ticks and texts; \<open>Rtc_Calendar\<close>, \<open>Rtc_Roundtrip\<close>: their relation to
    the calendar and the conversions that undo each other.

  \<^bold>\<open>State and errors.\<close>  An operation of a class takes the object's record and returns the new one.
  Locks are not modelled where an operation holds its mutexes throughout: it is one step; where the code
  gives a lock up in between there is a step for each part, in which other threads may come in.  \<open>None\<close> is a
  failed assertion, undefined behaviour of C++ or a loop without progress; error codes are values.
  Calls to the host address space and to the GPU's rasterizer are recorded in \<open>host_trace\<close>.

  \<^bold>\<open>Loops.\<close>  A loop over a map that does not change it is a recursion on the list of its entries.  A
  loop that searches the maps anew in each round is a \<open>partial_function (option)\<close>, so that not
  ending is \<open>None\<close>; a theorem that such an operation returns proves that the loop ends.

  \<^bold>\<open>Not modelled.\<close>  Host system calls, file contents and the host's file system (a parameter of the
  translation of paths), the service thread's scheduling of timers, the GPU itself, the build of the
  page manager with \<^verbatim>\<open>userfaultfd\<close>, thread scheduling inside the standard library, and the other
  libraries of the emulator.
\<close>

end
